(* ===== verification/Prelude.thy ===== *)
theory Prelude
  imports Main "HOL-Library.Word" "HOL-Library.Monad_Syntax"
begin

text \<open>
  What every component of the development shares: the machine types of the kernel's C code, the
  encoding of a panic as \<open>None\<close>, the error numbers of \<open>libs/error.h\<close>, the collections of
  rewrite rules the component theories add to, and a few generic facts about lists and maps.
\<close>

unbundle bit_operations_syntax

section \<open>Machine types\<close>

type_synonym u8 = "8 word"
type_synonym u32 = "32 word"
type_synonym u64 = "64 word"

section \<open>Assertions and panics\<close>

text \<open>
  The kernel's \<open>assert\<close> and \<open>panic\<close> never return. An operation that may panic has a result
  in \<open>'a option\<close>: \<open>None\<close> is the panic, \<open>Some\<close> the result and the new state.
\<close>

definition kassert :: "bool \<Rightarrow> unit option" where
  "kassert b = (if b then Some () else None)"

lemma kassert_simps [simp]: "kassert True = Some ()" "kassert False = None"
  by (simp_all add: kassert_def)

lemma kassert_Some_iff [simp]: "(kassert b = Some u) = b"
  by (simp add: kassert_def)

lemma kassert_bind_Some [simp]:
  "(Option.bind (kassert b) f = Some r) = (b \<and> f () = Some r)"
  by (cases b) auto

lemma kassert_bind_None [simp]:
  "(Option.bind (kassert b) f = None) = (b \<longrightarrow> f () = None)"
  by (cases b) auto

section \<open>Sets and lists\<close>

lemma disjoint_union_minus: "A = B \<union> C \<Longrightarrow> B \<inter> C = {} \<Longrightarrow> C = A - B"
  by blast

section \<open>Error numbers\<close>

text \<open>The error numbers of \<open>lab8/libs/error.h\<close> (functions return their negation).\<close>

definition E_UNSPECIFIED :: int where "E_UNSPECIFIED = 1"
definition E_BAD_PROC :: int where "E_BAD_PROC = 2"
definition E_INVAL :: int where "E_INVAL = 3"
definition E_NO_MEM :: int where "E_NO_MEM = 4"
definition E_NO_FREE_PROC :: int where "E_NO_FREE_PROC = 5"
definition E_FAULT :: int where "E_FAULT = 6"

text \<open>Reading small words as signed integers.\<close>

lemma sint_small_u64:
  fixes v :: u64
  assumes "uint v < 2 ^ 63"
  shows "sint v = uint v"
proof -
  have "signed_take_bit 63 (uint v) = uint v"
    by (rule signed_take_bit_int_eq_self) (use assms uint_ge_0 [of v] in linarith)+
  then show ?thesis
    using sint_sbintrunc' [where 'a=64 and bin="uint v"] by simp
qed

lemma sint_small_u32:
  fixes v :: u64
  assumes "uint v < 2 ^ 31"
  shows "sint (ucast v :: u32) = uint v"
proof -
  have "signed_take_bit 31 (uint v) = uint v"
    by (rule signed_take_bit_int_eq_self) (use assms uint_ge_0 [of v] in linarith)+
  moreover have "ucast v = (word_of_int (uint v) :: u32)" by simp
  ultimately show ?thesis
    using sint_sbintrunc' [where 'a=32 and bin="uint v"] by simp
qed

lemma unat_u32_less: "unat (v :: u32) < 2 ^ 32"
proof -
  have "unat v < 2 ^ LENGTH(32)" by (rule unsigned_less)
  then show ?thesis by simp
qed

end
