(* ===== verification/DList.thy ===== *)
theory DList
  imports Prelude
begin

text \<open>
  The circular doubly linked lists of \<open>lab8/libs/list.h\<close>, at the level of their pointers: a
  heap gives every node a \<open>next\<close> and a \<open>prev\<close> pointer, and each operation performs the
  assignments of the C code. \<open>dlist h hd xs\<close> says that the ring that starts at the list head
  \<open>hd\<close> holds exactly the nodes \<open>xs\<close>, in order; the lemmas refine every operation to the
  operation on \<open>xs\<close> it implements. The nodes are of any type, so each client names its own.
\<close>

section \<open>The operations\<close>

record 'n links =
  nxt :: "'n \<Rightarrow> 'n"
  prv :: "'n \<Rightarrow> 'n"

definition list_init :: "'n \<Rightarrow> 'n links \<Rightarrow> 'n links" where
  "list_init elm h = h\<lparr>nxt := (nxt h)(elm := elm), prv := (prv h)(elm := elm)\<rparr>"

text \<open>\<open>__list_add\<close>: insert \<open>elm\<close> between two nodes.\<close>

definition list_add_raw :: "'n \<Rightarrow> 'n \<Rightarrow> 'n \<Rightarrow> 'n links \<Rightarrow> 'n links" where
  "list_add_raw elm p n h =
     (let h1 = h\<lparr>prv := (prv h)(n := elm)\<rparr>;
          h2 = h1\<lparr>nxt := (nxt h1)(p := elm)\<rparr>;
          h3 = h2\<lparr>nxt := (nxt h2)(elm := n)\<rparr>
      in h3\<lparr>prv := (prv h3)(elm := p)\<rparr>)"

text \<open>\<open>__list_del\<close>: make two nodes point to each other.\<close>

definition list_del_raw :: "'n \<Rightarrow> 'n \<Rightarrow> 'n links \<Rightarrow> 'n links" where
  "list_del_raw p n h =
     (let h1 = h\<lparr>nxt := (nxt h)(p := n)\<rparr> in h1\<lparr>prv := (prv h1)(n := p)\<rparr>)"

definition list_add_before :: "'n \<Rightarrow> 'n \<Rightarrow> 'n links \<Rightarrow> 'n links" where
  "list_add_before listelm elm h = list_add_raw elm (prv h listelm) listelm h"

definition list_add_after :: "'n \<Rightarrow> 'n \<Rightarrow> 'n links \<Rightarrow> 'n links" where
  "list_add_after listelm elm h = list_add_raw elm listelm (nxt h listelm) h"

definition list_add :: "'n \<Rightarrow> 'n \<Rightarrow> 'n links \<Rightarrow> 'n links" where
  "list_add listelm elm h = list_add_after listelm elm h"

definition list_del :: "'n \<Rightarrow> 'n links \<Rightarrow> 'n links" where
  "list_del listelm h = list_del_raw (prv h listelm) (nxt h listelm) h"

definition list_del_init :: "'n \<Rightarrow> 'n links \<Rightarrow> 'n links" where
  "list_del_init listelm h = list_init listelm (list_del listelm h)"

definition list_empty :: "'n links \<Rightarrow> 'n \<Rightarrow> bool" where
  "list_empty h l \<longleftrightarrow> nxt h l = l"

definition list_next :: "'n links \<Rightarrow> 'n \<Rightarrow> 'n" where
  "list_next h listelm = nxt h listelm"

definition list_prev :: "'n links \<Rightarrow> 'n \<Rightarrow> 'n" where
  "list_prev h listelm = prv h listelm"

section \<open>Rings\<close>

fun linked :: "'n links \<Rightarrow> 'n \<Rightarrow> 'n list \<Rightarrow> 'n \<Rightarrow> bool" where
  "linked h a [] z \<longleftrightarrow> nxt h a = z \<and> prv h z = a"
| "linked h a (x # xs) z \<longleftrightarrow> nxt h a = x \<and> prv h x = a \<and> linked h x xs z"

definition dlist :: "'n links \<Rightarrow> 'n \<Rightarrow> 'n list \<Rightarrow> bool" where
  "dlist h l xs \<longleftrightarrow> linked h l xs l \<and> distinct (l # xs)"

lemma linked_append_Cons:
  "linked h a (xs @ y # ys) z \<longleftrightarrow> linked h a xs y \<and> linked h y ys z"
  by (induction xs arbitrary: a) auto

text \<open>A segment depends only on the forward pointers of its nodes but the last and the
  backward pointers of its nodes but the first.\<close>

lemma linked_cong:
  assumes "\<And>n. n \<in> set (a # xs) \<Longrightarrow> nxt h' n = nxt h n"
    and "\<And>n. n \<in> set (xs @ [z]) \<Longrightarrow> prv h' n = prv h n"
  shows "linked h' a xs z \<longleftrightarrow> linked h a xs z"
  using assms by (induction xs arbitrary: a) auto

lemma linked_nxt: "linked h a xs z \<Longrightarrow> nxt h a = hd (xs @ [z])"
  by (cases xs) auto

lemma linked_prv: "linked h a xs z \<Longrightarrow> prv h z = last (a # xs)"
  by (induction xs arbitrary: a) auto

lemma dlist_distinct: "dlist h l xs \<Longrightarrow> distinct xs \<and> l \<notin> set xs"
  by (simp add: dlist_def)

text \<open>Two rings over disjoint nodes do not interfere.\<close>

lemma dlist_frame:
  assumes "dlist h l xs"
    and "\<And>n. n \<in> set (l # xs) \<Longrightarrow> nxt h' n = nxt h n"
    and "\<And>n. n \<in> set (l # xs) \<Longrightarrow> prv h' n = prv h n"
  shows "dlist h' l xs"
proof -
  have "linked h' l xs l \<longleftrightarrow> linked h l xs l"
    by (rule linked_cong) (use assms in auto)
  with assms(1) show ?thesis by (simp add: dlist_def)
qed

lemma linked_unique:
  "linked h a xs z \<Longrightarrow> linked h a ys z \<Longrightarrow> z \<notin> set xs \<Longrightarrow> z \<notin> set ys \<Longrightarrow> xs = ys"
proof (induction xs arbitrary: a ys)
  case Nil
  then show ?case by (cases ys) auto
next
  case (Cons x xs)
  then show ?case by (cases ys) auto
qed

lemma dlist_unique: "dlist h l xs \<Longrightarrow> dlist h l ys \<Longrightarrow> xs = ys"
  by (auto simp: dlist_def intro: linked_unique)

text \<open>The forward pointers alone, as a walk with \<open>list_next\<close> follows them.\<close>

fun fpath :: "'n links \<Rightarrow> 'n \<Rightarrow> 'n list \<Rightarrow> 'n \<Rightarrow> bool" where
  "fpath h a [] z \<longleftrightarrow> list_next h a = z"
| "fpath h a (x # xs) z \<longleftrightarrow> list_next h a = x \<and> fpath h x xs z"

lemma fpath_append_Cons:
  "fpath h a (xs @ y # ys) z \<longleftrightarrow> fpath h a xs y \<and> fpath h y ys z"
  by (induction xs arbitrary: a) auto

lemma linked_fpath: "linked h a xs z \<Longrightarrow> fpath h a xs z"
  by (induction xs arbitrary: a) (auto simp: list_next_def)

lemma dlist_fpath: "dlist h l xs \<Longrightarrow> fpath h l xs l"
  by (simp add: dlist_def linked_fpath)

lemma fpath_cong:
  "(\<And>n. n \<in> set (a # xs) \<Longrightarrow> nxt h' n = nxt h n) \<Longrightarrow> fpath h' a xs z \<longleftrightarrow> fpath h a xs z"
  by (induction xs arbitrary: a) (auto simp: list_next_def)

section \<open>Refinement of the operations\<close>

lemma dlist_init [simp]: "dlist (list_init l h) l []"
  by (simp add: dlist_def list_init_def)

lemma dlist_empty_iff: "dlist h l xs \<Longrightarrow> list_empty h l \<longleftrightarrow> xs = []"
  by (cases xs) (auto simp: dlist_def list_empty_def)

lemma dlist_next_head: "dlist h l xs \<Longrightarrow> list_next h l = hd (xs @ [l])"
  by (simp add: dlist_def list_next_def linked_nxt)

lemma dlist_prev_head: "dlist h l xs \<Longrightarrow> list_prev h l = last (l # xs)"
  by (metis dlist_def linked_prv list_prev_def)

lemma dlist_next: "dlist h l (xs @ a # ys) \<Longrightarrow> list_next h a = hd (ys @ [l])"
  by (auto simp: dlist_def list_next_def linked_append_Cons linked_nxt)

lemma dlist_prev: "dlist h l (xs @ a # ys) \<Longrightarrow> list_prev h a = last (l # xs)"
  by (metis dlist_def linked_append_Cons linked_prv list_prev_def)

text \<open>A node of a ring is never linked to itself, so \<open>list_empty\<close> of an element tells whether
  it is queued.\<close>

lemma dlist_element_not_empty:
  assumes "dlist h l xs" and "a \<in> set xs"
  shows "\<not> list_empty h a"
proof -
  from assms(2) obtain ys zs where xs: "xs = ys @ a # zs" by (auto simp: in_set_conv_decomp)
  from assms(1) dlist_next [of h l ys a zs] have "nxt h a = hd (zs @ [l])"
    by (simp add: xs list_next_def)
  moreover from assms(1) have "hd (zs @ [l]) \<noteq> a"
    by (cases zs) (auto simp: xs dlist_def)
  ultimately show ?thesis by (simp add: list_empty_def)
qed

lemma list_add_after_nxt:
  "nxt (list_add_after a e h) = (nxt h)(a := e, e := nxt h a)"
  by (simp add: list_add_after_def list_add_raw_def Let_def)

lemma list_add_after_prv:
  "prv (list_add_after a e h) = (prv h)(nxt h a := e, e := a)"
  by (simp add: list_add_after_def list_add_raw_def Let_def)

lemma linked_add_after_other:
  assumes "linked h b ys z" and "a \<notin> set (b # ys)" and "e \<notin> set (b # ys @ [z])"
    and "nxt h a \<notin> set (ys @ [z])"
  shows "linked (list_add_after a e h) b ys z"
proof -
  have "linked (list_add_after a e h) b ys z \<longleftrightarrow> linked h b ys z"
    by (rule linked_cong) (use assms in \<open>auto simp: list_add_after_nxt list_add_after_prv\<close>)
  with assms(1) show ?thesis by simp
qed

lemma linked_add_after:
  assumes "linked h a ys z" and "distinct (a # ys)" and "e \<notin> set (a # ys @ [z])" and "z \<notin> set ys"
  shows "linked (list_add_after a e h) a (e # ys) z"
proof (cases ys)
  case Nil
  with assms show ?thesis
    by (auto simp: list_add_after_nxt list_add_after_prv)
next
  case (Cons y ys')
  with assms have "linked (list_add_after a e h) y ys' z"
    by (intro linked_add_after_other) auto
  with assms Cons show ?thesis
    by (auto simp: list_add_after_nxt list_add_after_prv)
qed

lemma dlist_add_after_head:
  "dlist h l xs \<Longrightarrow> e \<notin> set (l # xs) \<Longrightarrow> dlist (list_add_after l e h) l (e # xs)"
  using linked_add_after [of h l xs l e] by (auto simp: dlist_def)

lemma dlist_add_after:
  assumes "dlist h l (xs @ a # ys)" and "e \<notin> set (l # xs @ a # ys)"
  shows "dlist (list_add_after a e h) l (xs @ a # e # ys)"
proof -
  from assms(1) have pre: "linked h l xs a" and suf: "linked h a ys l"
    and d: "distinct (l # xs @ a # ys)"
    by (auto simp: dlist_def linked_append_Cons)
  from suf have n: "nxt h a = hd (ys @ [l])" by (rule linked_nxt)
  have "nxt h a \<notin> set (xs @ [a])"
    using d by (cases ys) (auto simp: n)
  then have "linked (list_add_after a e h) l xs a"
    using pre d assms(2) by (intro linked_add_after_other) auto
  moreover have "linked (list_add_after a e h) a (e # ys) l"
    using suf d assms(2) by (intro linked_add_after) auto
  ultimately show ?thesis
    using d assms(2) by (auto simp: dlist_def linked_append_Cons)
qed

lemma list_add_before_after:
  "nxt h (prv h b) = b \<Longrightarrow> list_add_before b e h = list_add_after (prv h b) e h"
  by (simp add: list_add_before_def list_add_after_def)

lemma dlist_nxt_prv_head:
  assumes "dlist h l xs"
  shows "nxt h (prv h l) = l"
proof (cases xs rule: rev_cases)
  case Nil
  with assms show ?thesis by (simp add: dlist_def)
next
  case (snoc ys y)
  with assms show ?thesis by (auto simp: dlist_def linked_append_Cons)
qed

lemma dlist_add_before_head:
  assumes "dlist h l xs" and "e \<notin> set (l # xs)"
  shows "dlist (list_add_before l e h) l (xs @ [e])"
proof -
  have b: "list_add_before l e h = list_add_after (prv h l) e h"
    using assms(1) by (intro list_add_before_after dlist_nxt_prv_head)
  show ?thesis
  proof (cases xs rule: rev_cases)
    case Nil
    with dlist_prev_head [OF assms(1)] have "prv h l = l" by (simp add: list_prev_def)
    with Nil assms show ?thesis
      using dlist_add_after_head [of h l "[]" e] by (simp add: b)
  next
    case (snoc ys y)
    with dlist_prev_head [OF assms(1)] have "prv h l = y" by (simp add: list_prev_def)
    with assms snoc show ?thesis
      using dlist_add_after [of h l ys y "[]" e] by (simp add: b)
  qed
qed

lemma dlist_nxt_prv:
  assumes "dlist h l (xs @ a # ys)"
  shows "nxt h (prv h a) = a"
proof (cases xs rule: rev_cases)
  case Nil
  with assms show ?thesis by (auto simp: dlist_def)
next
  case (snoc zs z)
  with assms show ?thesis by (auto simp: dlist_def linked_append_Cons)
qed

lemma dlist_add_before:
  assumes "dlist h l (xs @ a # ys)" and "e \<notin> set (l # xs @ a # ys)"
  shows "dlist (list_add_before a e h) l (xs @ e # a # ys)"
proof -
  have b: "list_add_before a e h = list_add_after (prv h a) e h"
    using assms(1) by (intro list_add_before_after dlist_nxt_prv)
  show ?thesis
  proof (cases xs rule: rev_cases)
    case Nil
    then have "prv h a = l" using dlist_prev [OF assms(1)] by (simp add: list_prev_def)
    with Nil assms show ?thesis
      using dlist_add_after_head [of h l "a # ys" e] by (simp add: b)
  next
    case (snoc zs z)
    then have "prv h a = z" using dlist_prev [OF assms(1)] by (simp add: list_prev_def)
    with snoc assms show ?thesis
      using dlist_add_after [of h l zs z "a # ys" e] by (simp add: b)
  qed
qed

lemma list_del_nxt: "nxt (list_del a h) = (nxt h)(prv h a := nxt h a)"
  by (simp add: list_del_def list_del_raw_def Let_def)

lemma list_del_prv: "prv (list_del a h) = (prv h)(nxt h a := prv h a)"
  by (simp add: list_del_def list_del_raw_def Let_def)

lemma dlist_del:
  assumes "dlist h l (xs @ a # ys)"
  shows "dlist (list_del a h) l (xs @ ys)"
proof -
  from assms have pre: "linked h l xs a" and suf: "linked h a ys l"
    and d: "distinct (l # xs @ a # ys)"
    by (auto simp: dlist_def linked_append_Cons)
  have n: "nxt h a = hd (ys @ [l])" using suf by (rule linked_nxt)
  have p: "prv h a = last (l # xs)" using pre by (rule linked_prv)
  have up: "nxt (list_del a h) = (nxt h)(last (l # xs) := hd (ys @ [l]))"
    "prv (list_del a h) = (prv h)(hd (ys @ [l]) := last (l # xs))"
    by (simp_all add: list_del_nxt list_del_prv n p)
  have suf': "linked (list_del a h) y ys' l" if "ys = y # ys'" for y ys'
  proof -
    have "last (l # xs) \<notin> set (y # ys')" using d that by (cases xs rule: rev_cases) auto
    then have "linked (list_del a h) y ys' l \<longleftrightarrow> linked h y ys' l"
      by (intro linked_cong) (use d that in \<open>auto simp: up\<close>)
    with suf that show ?thesis by simp
  qed
  have pre': "linked (list_del a h) l zs z" if "xs = zs @ [z]" for zs z
  proof -
    have "hd (ys @ [l]) \<notin> set (zs @ [z])" using d that by (cases ys) auto
    then have "linked (list_del a h) l zs z \<longleftrightarrow> linked h l zs z"
      by (intro linked_cong) (use d that in \<open>auto simp: up\<close>)
    with pre that show ?thesis by (simp add: linked_append_Cons)
  qed
  have "linked (list_del a h) l (xs @ ys) l"
  proof (cases xs rule: rev_cases)
    case Nil
    then show ?thesis by (cases ys) (auto simp: up dest: suf')
  next
    case (snoc zs z)
    show ?thesis
    proof (cases ys)
      case Nil
      with snoc pre' [OF snoc] show ?thesis
        by (simp add: linked_append_Cons up)
    next
      case (Cons y ys')
      with snoc pre' [OF snoc] suf' [OF Cons] show ?thesis
        by (simp add: linked_append_Cons up)
    qed
  qed
  with d show ?thesis by (auto simp: dlist_def)
qed

text \<open>The same facts for the node before a split of the ring, which may be the head.\<close>

lemma dlist_next_last:
  assumes "dlist h l (xs @ ys)"
  shows "list_next h (last (l # xs)) = hd (ys @ [l])"
proof (cases xs rule: rev_cases)
  case Nil
  with assms show ?thesis by (auto dest: dlist_next_head)
next
  case (snoc zs z)
  with assms dlist_next [of h l zs z ys] show ?thesis by simp
qed

lemma dlist_add_last:
  assumes "dlist h l (xs @ ys)" and "e \<notin> set (l # xs @ ys)"
  shows "dlist (list_add (last (l # xs)) e h) l (xs @ e # ys)"
proof (cases xs rule: rev_cases)
  case Nil
  with assms dlist_add_after_head show ?thesis by (fastforce simp: list_add_def)
next
  case (snoc zs z)
  with assms dlist_add_after [of h l zs z ys e] show ?thesis by (simp add: list_add_def)
qed

text \<open>The deleted node keeps its own pointers; \<open>list_del_init\<close> makes it a ring of its own.\<close>

lemma list_init_nxt: "nxt (list_init e h) = (nxt h)(e := e)"
  by (simp add: list_init_def)

lemma list_init_prv: "prv (list_init e h) = (prv h)(e := e)"
  by (simp add: list_init_def)

lemma dlist_init_other:
  "dlist h l xs \<Longrightarrow> e \<notin> set (l # xs) \<Longrightarrow> dlist (list_init e h) l xs"
  by (rule dlist_frame) (auto simp: list_init_nxt list_init_prv)

lemma dlist_del_init:
  assumes "dlist h l (xs @ a # ys)"
  shows "dlist (list_del_init a h) l (xs @ ys)"
  unfolding list_del_init_def
  using dlist_del [OF assms] dlist_distinct [OF assms] by (intro dlist_init_other) auto

lemma list_del_init_empty: "list_empty (list_del_init a h) a"
  by (simp add: list_empty_def list_del_init_def list_init_nxt)

end
