(* ===== verification/BlockSpec.thy ===== *)
theory BlockSpec
  imports Prelude
begin

text \<open>
  The abstract specification of the page allocators: a pool of free pages is a list of blocks
  \<open>(first page, number of pages)\<close> in address order. \<open>ff_take\<close> and \<open>bf_take\<close> say which block
  first fit and best fit carve a request from, \<open>blk_put\<close> says how a block comes back and merges
  with its neighbours. The lemmas are about pages: what a pool holds before and after.
\<close>

type_synonym blocks = "(nat \<times> nat) list"

definition blk_pages :: "nat \<times> nat \<Rightarrow> nat set" where
  "blk_pages b = {fst b ..< fst b + snd b}"

definition pool_pages :: "blocks \<Rightarrow> nat set" where
  "pool_pages bs = (\<Union>b \<in> set bs. blk_pages b)"

definition pool_size :: "blocks \<Rightarrow> nat" where
  "pool_size bs = sum_list (map snd bs)"

text \<open>Well formed: no empty block, in address order, no two blocks overlap.\<close>

fun blks_ok :: "blocks \<Rightarrow> bool" where
  "blks_ok [] \<longleftrightarrow> True"
| "blks_ok (b # bs) \<longleftrightarrow>
     0 < snd b \<and> (\<forall>c \<in> set bs. fst b + snd b \<le> fst c) \<and> blks_ok bs"

text \<open>First fit: the first block that is large enough gives its low pages.\<close>

fun ff_take :: "nat \<Rightarrow> blocks \<Rightarrow> (nat \<times> blocks) option" where
  "ff_take n [] = None"
| "ff_take n ((b, k) # bs) =
     (if n \<le> k then Some (b, if n < k then (b + n, k - n) # bs else bs)
      else map_option (\<lambda>(r, bs'). (r, (b, k) # bs')) (ff_take n bs))"

text \<open>Take \<open>n\<close> pages from the block that starts at \<open>p\<close>.\<close>

fun take_from :: "nat \<Rightarrow> nat \<Rightarrow> blocks \<Rightarrow> blocks" where
  "take_from p n [] = []"
| "take_from p n ((b, k) # bs) =
     (if b = p then (if n < k then (b + n, k - n) # bs else bs) else (b, k) # take_from p n bs)"

text \<open>A block returns to its place in the address order and merges with both neighbours.\<close>

fun merge_front :: "nat \<times> nat \<Rightarrow> blocks \<Rightarrow> blocks" where
  "merge_front b [] = [b]"
| "merge_front b (c # bs) =
     (if fst b + snd b = fst c then (fst b, snd b + snd c) # bs else b # c # bs)"

fun blk_put :: "nat \<Rightarrow> nat \<Rightarrow> blocks \<Rightarrow> blocks" where
  "blk_put b n [] = [(b, n)]"
| "blk_put b n ((c, k) # bs) =
     (if b < c then merge_front (b, n) ((c, k) # bs)
      else if c + k = b then merge_front (c, k + n) bs
      else (c, k) # blk_put b n bs)"

section \<open>Facts about pools\<close>

lemma pool_pages_simps [simp]:
  "pool_pages [] = {}"
  "pool_pages (b # bs) = blk_pages b \<union> pool_pages bs"
  "pool_pages (xs @ ys) = pool_pages xs \<union> pool_pages ys"
  by (auto simp: pool_pages_def)

lemma pool_size_simps [simp]:
  "pool_size [] = 0"
  "pool_size (b # bs) = snd b + pool_size bs"
  "pool_size (xs @ ys) = pool_size xs + pool_size ys"
  by (auto simp: pool_size_def)

lemma blks_ok_append:
  "blks_ok (xs @ ys) \<longleftrightarrow>
     blks_ok xs \<and> blks_ok ys \<and> (\<forall>x \<in> set xs. \<forall>y \<in> set ys. fst x + snd x \<le> fst y)"
  by (induction xs) auto

lemma blks_ok_pos: "blks_ok bs \<Longrightarrow> b \<in> set bs \<Longrightarrow> 0 < snd b"
  by (induction bs) auto

lemma blks_ok_distinct: "blks_ok bs \<Longrightarrow> distinct (map fst bs)"
  by (induction bs) force+

lemma blks_ok_disjoint:
  assumes "blks_ok (xs @ ys)"
  shows "pool_pages xs \<inter> pool_pages ys = {}"
  using assms by (fastforce simp: pool_pages_def blk_pages_def blks_ok_append)

lemma pool_size_ge: "b \<in> set bs \<Longrightarrow> snd b \<le> pool_size bs"
  by (induction bs) auto

lemma blks_ok_fst_lt:
  "blks_ok (xs @ (c, k) # ys) \<Longrightarrow> x \<in> set xs \<Longrightarrow> fst x < c"
  by (fastforce simp: blks_ok_append dest: blks_ok_pos [of xs])

lemma finite_pool_pages [simp]: "finite (pool_pages bs)"
  by (simp add: pool_pages_def blk_pages_def)

lemma card_pool_pages: "blks_ok bs \<Longrightarrow> card (pool_pages bs) = pool_size bs"
proof (induction bs)
  case (Cons b bs)
  from Cons.prems have "blk_pages b \<inter> pool_pages bs = {}"
    using blks_ok_disjoint [of "[b]" bs] by simp
  with Cons show ?case by (simp add: card_Un_disjoint blk_pages_def)
qed simp

text \<open>First fit as a split of the pool, and through \<open>take_from\<close>.\<close>

lemma ff_take_None: "ff_take n bs = None \<longleftrightarrow> (\<forall>b \<in> set bs. snd b < n)"
  by (induction n bs rule: ff_take.induct) auto

lemma ff_take_split:
  "ff_take n bs = Some (p, bs') \<Longrightarrow>
     \<exists>xs k ys. bs = xs @ (p, k) # ys \<and> n \<le> k \<and> (\<forall>x \<in> set xs. snd x < n) \<and>
       bs' = xs @ (if n < k then (p + n, k - n) # ys else ys)"
proof (induction n bs arbitrary: p bs' rule: ff_take.induct)
  case (2 n b k bs)
  show ?case
  proof (cases "n \<le> k")
    case True
    with 2(2) show ?thesis by (intro exI [of _ "[]"] exI [of _ k] exI [of _ bs]) auto
  next
    case False
    with 2(2) obtain bs'' where r: "ff_take n bs = Some (p, bs'')" and b: "bs' = (b, k) # bs''"
      by auto
    from 2(1) [OF False r] obtain xs j ys where "bs = xs @ (p, j) # ys" "n \<le> j"
      "\<forall>x \<in> set xs. snd x < n" "bs'' = xs @ (if n < j then (p + n, j - n) # ys else ys)"
      by blast
    with False b show ?thesis by (intro exI [of _ "(b, k) # xs"] exI [of _ j] exI [of _ ys]) auto
  qed
qed simp

lemma take_from_split:
  "distinct (map fst (xs @ (p, k) # ys)) \<Longrightarrow>
   take_from p n (xs @ (p, k) # ys) = xs @ (if n < k then (p + n, k - n) # ys else ys)"
  by (induction xs) auto

text \<open>What taking \<open>n\<close> pages out of a block does to the pool.\<close>

lemma carve_ok:
  assumes "blks_ok (xs @ (p, k) # ys)" and "0 < n" and "n \<le> k"
  shows "blks_ok (xs @ (if n < k then (p + n, k - n) # ys else ys))"
  using assms by (auto simp: blks_ok_append)

lemma carve_pages:
  assumes "blks_ok (xs @ (p, k) # ys)" and "0 < n" and "n \<le> k"
  defines "bs' \<equiv> xs @ (if n < k then (p + n, k - n) # ys else ys)"
  shows "pool_pages (xs @ (p, k) # ys) = {p ..< p + n} \<union> pool_pages bs'"
    and "{p ..< p + n} \<inter> pool_pages bs' = {}"
    and "pool_size bs' = pool_size (xs @ (p, k) # ys) - n"
proof -
  have blk: "blk_pages (p, k) = {p ..< p + n} \<union> {p + n ..< p + k}"
    using assms(3) by (auto simp: blk_pages_def)
  have pages': "pool_pages bs' = pool_pages xs \<union> {p + n ..< p + k} \<union> pool_pages ys"
    using assms(3) by (auto simp: bs'_def blk_pages_def)
  show "pool_pages (xs @ (p, k) # ys) = {p ..< p + n} \<union> pool_pages bs'"
    unfolding pages' by (auto simp: blk)
  have "pool_pages xs \<inter> blk_pages (p, k) = {}"
    using blks_ok_disjoint [OF assms(1)] by auto
  moreover have "blk_pages (p, k) \<inter> pool_pages ys = {}"
    using blks_ok_disjoint [of "xs @ [(p, k)]" ys] assms(1) by auto
  ultimately show "{p ..< p + n} \<inter> pool_pages bs' = {}"
    unfolding pages' blk by auto
  show "pool_size bs' = pool_size (xs @ (p, k) # ys) - n"
    using assms(3) by (auto simp: bs'_def)
qed

text \<open>What putting a block back does.\<close>

lemma merge_front_pages: "pool_pages (merge_front b bs) = blk_pages b \<union> pool_pages bs"
  by (cases bs) (auto simp: blk_pages_def)

lemma merge_front_size: "pool_size (merge_front b bs) = snd b + pool_size bs"
  by (cases bs) auto

lemma merge_front_ok: "blks_ok (b # bs) \<Longrightarrow> blks_ok (merge_front b bs)"
  by (cases bs) auto

lemma merge_front_set: "c \<in> set (merge_front b bs) \<Longrightarrow> fst c = fst b \<or> c \<in> set bs"
  by (cases bs) (auto split: if_splits)

lemma blk_put_pages: "pool_pages (blk_put b n bs) = {b ..< b + n} \<union> pool_pages bs"
  by (induction b n bs rule: blk_put.induct)
    (auto simp: blk_pages_def merge_front_pages simp del: merge_front.simps)

lemma blk_put_size: "pool_size (blk_put b n bs) = n + pool_size bs"
  by (induction b n bs rule: blk_put.induct) (auto simp: merge_front_size simp del: merge_front.simps)

lemma blk_put_set: "c \<in> set (blk_put b n bs) \<Longrightarrow> fst c = b \<or> fst c \<in> fst ` set bs"
  by (induction b n bs rule: blk_put.induct)
    (auto dest!: merge_front_set split: if_splits simp del: merge_front.simps)

lemma disjoint_below:
  assumes "{b ..< b + n} \<inter> blk_pages (c, k) = {}" and "0 < n" and "b < c"
  shows "b + n \<le> c \<or> k = 0"
proof (rule ccontr)
  assume "\<not> ?thesis"
  with assms(3) have "c \<in> {b ..< b + n} \<inter> blk_pages (c, k)" by (auto simp: blk_pages_def)
  with assms(1) show False by auto
qed

lemma disjoint_above:
  assumes "{b ..< b + n} \<inter> blk_pages (c, k) = {}" and "0 < n" and "\<not> b < c"
  shows "c + k \<le> b"
proof (rule ccontr)
  assume "\<not> ?thesis"
  with assms(2,3) have "b \<in> {b ..< b + n} \<inter> blk_pages (c, k)" by (auto simp: blk_pages_def)
  with assms(1) show False by auto
qed

lemma blk_put_ok:
  assumes "blks_ok bs" and "0 < n" and "{b ..< b + n} \<inter> pool_pages bs = {}"
  shows "blks_ok (blk_put b n bs)"
  using assms
proof (induction b n bs rule: blk_put.induct)
  case (1 b n)
  then show ?case by simp
next
  case (2 b n c k bs)
  from 2(4) have d: "{b ..< b + n} \<inter> blk_pages (c, k) = {}" "{b ..< b + n} \<inter> pool_pages bs = {}"
    by auto
  from 2(2) have k: "0 < k" and up: "\<forall>e \<in> set bs. c + k \<le> fst e" and ok: "blks_ok bs" by auto
  show ?case
  proof (cases "b < c")
    case True
    with disjoint_below [OF d(1) 2(3)] k have "b + n \<le> c" by auto
    with 2(2) up 2(3) have "blks_ok ((b, n) # (c, k) # bs)" by auto
    with True show ?thesis by (auto intro: merge_front_ok simp del: merge_front.simps)
  next
    case False
    with disjoint_above [OF d(1) 2(3)] have ck: "c + k \<le> b" by auto
    have above: "b + n \<le> fst e" if "e \<in> set bs" "b < fst e" for e
    proof -
      from that(1) d(2) have "{b ..< b + n} \<inter> blk_pages (fst e, snd e) = {}"
        by (auto simp: pool_pages_def)
      with disjoint_below [OF this 2(3) that(2)] blks_ok_pos [OF ok that(1)] show ?thesis by auto
    qed
    show ?thesis
    proof (cases "c + k = b")
      case True
      have "b < fst e" if "e \<in> set bs" for e
      proof -
        have "fst e \<noteq> b"
        proof
          assume "fst e = b"
          then have "b \<in> {b ..< b + n} \<inter> pool_pages bs"
            using that blks_ok_pos [OF ok that] 2(3)
            by (auto simp: pool_pages_def blk_pages_def intro!: bexI [of _ e])
          with d(2) show False by auto
        qed
        with up that True show ?thesis by fastforce
      qed
      with above ok k True have "blks_ok ((c, k + n) # bs)" by fastforce
      with True False show ?thesis by (auto intro: merge_front_ok simp del: merge_front.simps)
    next
      case False2: False
      with ck False have ih: "blks_ok (blk_put b n bs)" using 2 d(2) ok by auto
      have "c + k \<le> fst e" if "e \<in> set (blk_put b n bs)" for e
        using blk_put_set [OF that] ck up by auto
      with ih k False False2 show ?thesis by auto
    qed
  qed
qed

end
