(* ===== verification/Frames.thy ===== *)
theory Frames
  imports DList BlockSpec
begin

text \<open>
  Page descriptors (\<open>lab8/kern/mm/memlayout.h\<close>) and the atomic bit operations on their flag
  words (\<open>lab8/libs/atomic.h\<close>). A page is named by its index in the descriptor array, so
  \<open>base + n\<close> is pointer arithmetic on descriptors; the list node of page \<open>p\<close> is
  \<open>PageLink p\<close>, the list head of the free area is \<open>FreeHead\<close>. Page counts are natural numbers:
  the machine has at most \<open>0x7E00000 / 4096 = 32256\<close> pages, so the 32-bit counters of the C code
  never wrap.
\<close>

section \<open>Atomic bit operations\<close>

definition BIT_MASK :: "nat \<Rightarrow> u64" where
  "BIT_MASK nr = push_bit (nr mod 64) 1"

definition atomic_set_bit :: "nat \<Rightarrow> u64 \<Rightarrow> u64" where
  "atomic_set_bit nr w = w OR BIT_MASK nr"

definition atomic_clear_bit :: "nat \<Rightarrow> u64 \<Rightarrow> u64" where
  "atomic_clear_bit nr w = w AND NOT (BIT_MASK nr)"

definition atomic_test_bit :: "nat \<Rightarrow> u64 \<Rightarrow> bool" where
  "atomic_test_bit nr w = (drop_bit nr w AND 1 \<noteq> 0)"

lemma bit_BIT_MASK: "nr < 64 \<Longrightarrow> bit (BIT_MASK nr) n \<longleftrightarrow> n = nr"
  by (auto simp: BIT_MASK_def bit_simps)

lemma atomic_test_bit_iff: "atomic_test_bit nr w \<longleftrightarrow> bit w nr"
  by (simp add: atomic_test_bit_def and_one_eq bit_iff_odd_drop_bit odd_iff_mod_2_eq_one)

lemma atomic_test_set [simp]:
  "m < 64 \<Longrightarrow> atomic_test_bit n (atomic_set_bit m w) \<longleftrightarrow> n = m \<or> atomic_test_bit n w"
  by (auto simp: atomic_test_bit_iff atomic_set_bit_def bit_or_iff bit_BIT_MASK)

lemma atomic_test_clear [simp]:
  "m < 64 \<Longrightarrow> atomic_test_bit n (atomic_clear_bit m w) \<longleftrightarrow> n \<noteq> m \<and> atomic_test_bit n w"
  by (auto simp: atomic_test_bit_iff atomic_clear_bit_def bit_and_iff bit_not_iff bit_BIT_MASK
      dest: bit_imp_le_length)

lemma atomic_test_zero [simp]: "\<not> atomic_test_bit n 0"
  by (simp add: atomic_test_bit_iff)

section \<open>Page descriptors\<close>

record page =
  ref :: int
  flags :: u64
  property :: nat

definition PG_reserved :: nat where "PG_reserved = 0"
definition PG_property :: nat where "PG_property = 1"

definition SetPageReserved :: "page \<Rightarrow> page" where
  "SetPageReserved p = p\<lparr>flags := atomic_set_bit PG_reserved (flags p)\<rparr>"

definition ClearPageReserved :: "page \<Rightarrow> page" where
  "ClearPageReserved p = p\<lparr>flags := atomic_clear_bit PG_reserved (flags p)\<rparr>"

definition PageReserved :: "page \<Rightarrow> bool" where
  "PageReserved p = atomic_test_bit PG_reserved (flags p)"

definition SetPageProperty :: "page \<Rightarrow> page" where
  "SetPageProperty p = p\<lparr>flags := atomic_set_bit PG_property (flags p)\<rparr>"

definition ClearPageProperty :: "page \<Rightarrow> page" where
  "ClearPageProperty p = p\<lparr>flags := atomic_clear_bit PG_property (flags p)\<rparr>"

definition PageProperty :: "page \<Rightarrow> bool" where
  "PageProperty p = atomic_test_bit PG_property (flags p)"

definition set_page_ref :: "int \<Rightarrow> page \<Rightarrow> page" where
  "set_page_ref v p = p\<lparr>ref := v\<rparr>"

lemma page_flag_simps [simp]:
  "PageReserved (SetPageReserved p)" "\<not> PageReserved (ClearPageReserved p)"
  "PageProperty (SetPageProperty p)" "\<not> PageProperty (ClearPageProperty p)"
  "PageProperty (SetPageReserved p) = PageProperty p"
  "PageProperty (ClearPageReserved p) = PageProperty p"
  "PageReserved (SetPageProperty p) = PageReserved p"
  "PageReserved (ClearPageProperty p) = PageReserved p"
  "PageReserved (p\<lparr>property := k\<rparr>) = PageReserved p"
  "PageProperty (p\<lparr>property := k\<rparr>) = PageProperty p"
  "PageReserved (set_page_ref v p) = PageReserved p"
  "PageProperty (set_page_ref v p) = PageProperty p"
  "\<not> PageReserved (p\<lparr>flags := 0\<rparr>)" "\<not> PageProperty (p\<lparr>flags := 0\<rparr>)"
  by (simp_all add: PageReserved_def PageProperty_def SetPageReserved_def ClearPageReserved_def
      SetPageProperty_def ClearPageProperty_def PG_reserved_def PG_property_def set_page_ref_def)

lemma page_field_simps [simp]:
  "property (SetPageReserved p) = property p" "property (ClearPageReserved p) = property p"
  "property (SetPageProperty p) = property p" "property (ClearPageProperty p) = property p"
  "property (set_page_ref v p) = property p"
  "ref (SetPageReserved p) = ref p" "ref (ClearPageReserved p) = ref p"
  "ref (SetPageProperty p) = ref p" "ref (ClearPageProperty p) = ref p"
  "ref (set_page_ref v p) = v"
  by (simp_all add: SetPageReserved_def ClearPageReserved_def SetPageProperty_def
      ClearPageProperty_def set_page_ref_def)

section \<open>The free area\<close>

datatype flink = FreeHead | PageLink nat

fun le2page :: "flink \<Rightarrow> nat" where
  "le2page (PageLink p) = p"
| "le2page FreeHead = 0"  \<comment> \<open>never used: the loops stop at the head\<close>

record free_area =
  pages :: "nat \<Rightarrow> page"
  links :: "flink links"
  nr_free :: nat

text \<open>The descriptors as \<open>page_init\<close> leaves them: every page reserved, no list yet.\<close>

definition reserved_area :: free_area where
  "reserved_area =
     \<lparr>pages = (\<lambda>_. \<lparr>ref = 0, flags = 1, property = 0\<rparr>),
      links = \<lparr>nxt = (\<lambda>_. FreeHead), prv = (\<lambda>_. FreeHead)\<rparr>, nr_free = 0\<rparr>"

definition upd_page :: "nat \<Rightarrow> (page \<Rightarrow> page) \<Rightarrow> free_area \<Rightarrow> free_area" where
  "upd_page p f s = s\<lparr>pages := (pages s)(p := f (pages s p))\<rparr>"

definition upd_links :: "(flink links \<Rightarrow> flink links) \<Rightarrow> free_area \<Rightarrow> free_area" where
  "upd_links f s = s\<lparr>links := f (links s)\<rparr>"

lemma upd_page_simps [simp]:
  "pages (upd_page p f s) = (pages s)(p := f (pages s p))"
  "links (upd_page p f s) = links s" "nr_free (upd_page p f s) = nr_free s"
  by (simp_all add: upd_page_def)

lemma upd_links_simps [simp]:
  "pages (upd_links g s) = pages s" "links (upd_links g s) = g (links s)"
  "nr_free (upd_links g s) = nr_free s"
  by (simp_all add: upd_links_def)

section \<open>Descriptors that represent a pool\<close>

text \<open>The head of every block carries its size and the property flag; no page of a free block is
  reserved, and inside a block no page but the head has the property flag.\<close>

definition pages_rep :: "(nat \<Rightarrow> page) \<Rightarrow> blocks \<Rightarrow> bool" where
  "pages_rep pg bs \<longleftrightarrow>
     (\<forall>b \<in> set bs. property (pg (fst b)) = snd b \<and> PageProperty (pg (fst b))) \<and>
     (\<forall>p \<in> pool_pages bs. \<not> PageReserved (pg p)) \<and>
     (\<forall>p \<in> pool_pages bs - fst ` set bs. \<not> PageProperty (pg p))"

text \<open>A free area represents a pool of free blocks.\<close>

abbreviation blk_nodes :: "blocks \<Rightarrow> flink list" where
  "blk_nodes bs \<equiv> map (\<lambda>b. PageLink (fst b)) bs"

definition frep :: "free_area \<Rightarrow> blocks \<Rightarrow> bool" where
  "frep s bs \<longleftrightarrow>
     dlist (links s) FreeHead (blk_nodes bs) \<and> pages_rep (pages s) bs \<and>
     blks_ok bs \<and> nr_free s = pool_size bs"

lemma frep_dlist: "frep s bs \<Longrightarrow> dlist (links s) FreeHead (blk_nodes bs)"
  by (simp add: frep_def)

lemma frep_ok: "frep s bs \<Longrightarrow> blks_ok bs"
  by (simp add: frep_def)

lemma frep_property:
  "frep s (xs @ (p, k) # ys) \<Longrightarrow> property (pages s p) = k"
  by (simp add: frep_def pages_rep_def)

lemma frep_nr_free: "frep s bs \<Longrightarrow> nr_free s = pool_size bs"
  by (simp add: frep_def)

text \<open>The pages of a block are distinct from every page of the other blocks.\<close>

lemma blks_ok_fst_notin:
  assumes "blks_ok (xs @ (p, k) # ys)" and "q \<in> {p ..< p + k}"
  shows "q \<notin> pool_pages xs" and "q \<notin> pool_pages ys"
    and "q \<notin> fst ` set xs" and "q \<notin> fst ` set ys"
proof -
  have b: "blk_pages (p, k) = {p ..< p + k}" by (simp add: blk_pages_def)
  show x: "q \<notin> pool_pages xs" and y: "q \<notin> pool_pages ys"
    using blks_ok_disjoint [OF assms(1)] blks_ok_disjoint [of "xs @ [(p, k)]" ys] assms b by auto
  have "fst ` set zs \<subseteq> pool_pages zs" if "blks_ok zs" for zs
    using blks_ok_pos [OF that] by (force simp: pool_pages_def blk_pages_def)
  moreover have "blks_ok xs" "blks_ok ys" using assms(1) by (auto simp: blks_ok_append)
  ultimately show "q \<notin> fst ` set xs" and "q \<notin> fst ` set ys" using x y by blast+
qed

lemma pages_rep_cong:
  assumes "pages_rep pg bs" and "blks_ok bs" and "\<And>p. p \<in> pool_pages bs \<Longrightarrow> pg' p = pg p"
  shows "pages_rep pg' bs"
proof -
  have "fst b \<in> pool_pages bs" if "b \<in> set bs" for b
    using that blks_ok_pos [OF assms(2) that]
    by (auto simp: pool_pages_def blk_pages_def intro!: bexI [of _ b])
  with assms show ?thesis by (auto simp: pages_rep_def)
qed

lemma pages_rep_append:
  assumes "blks_ok (xs @ ys)"
  shows "pages_rep pg (xs @ ys) \<longleftrightarrow> pages_rep pg xs \<and> pages_rep pg ys"
proof -
  have "fst ` set zs \<subseteq> pool_pages zs" if "blks_ok zs" for zs
    using blks_ok_pos [OF that] by (force simp: pool_pages_def blk_pages_def)
  moreover have "blks_ok xs" "blks_ok ys" using assms by (auto simp: blks_ok_append)
  ultimately have "fst ` set xs \<subseteq> pool_pages xs" "fst ` set ys \<subseteq> pool_pages ys" by blast+
  with blks_ok_disjoint [OF assms]
  have inner: "pool_pages xs \<union> pool_pages ys - fst ` (set xs \<union> set ys) =
      (pool_pages xs - fst ` set xs) \<union> (pool_pages ys - fst ` set ys)"
    by blast
  show ?thesis
    unfolding pages_rep_def pool_pages_simps set_append inner ball_Un
    by (rule iffI; elim conjE; intro conjI; assumption)
qed

lemma pages_rep_Cons:
  "blks_ok (b # ys) \<Longrightarrow> pages_rep pg (b # ys) \<longleftrightarrow> pages_rep pg [b] \<and> pages_rep pg ys"
  using pages_rep_append [of "[b]" ys] by simp

lemma pages_rep_Nil [simp]: "pages_rep pg []"
  by (simp add: pages_rep_def)

lemma pages_rep_single:
  "0 < k \<Longrightarrow> pages_rep pg [(p, k)] \<longleftrightarrow>
     property (pg p) = k \<and> PageProperty (pg p) \<and> (\<forall>q \<in> {p ..< p + k}. \<not> PageReserved (pg q)) \<and>
     (\<forall>q \<in> {p <..< p + k}. \<not> PageProperty (pg q))"
  by (fastforce simp: pages_rep_def blk_pages_def)

lemmas pages_rep_split = pages_rep_append pages_rep_Cons pages_rep_single

text \<open>Replacing blocks by others, where the pages of the remaining blocks are not written.\<close>

lemma pages_rep_exchange:
  assumes "pages_rep pg (xs @ zs @ ys)" and "blks_ok (xs @ zs @ ys)" and "blks_ok (xs @ zs' @ ys)"
    and "\<And>p. p \<in> pool_pages xs \<union> pool_pages ys \<Longrightarrow> pg' p = pg p" and "pages_rep pg' zs'"
  shows "pages_rep pg' (xs @ zs' @ ys)"
proof -
  have ok: "blks_ok xs" "blks_ok ys" "blks_ok (zs @ ys)" "blks_ok (zs' @ ys)"
    using assms(2,3) by (auto simp: blks_ok_append)
  from assms(1,2) have rep: "pages_rep pg xs" "pages_rep pg ys"
    using pages_rep_append [of xs "zs @ ys"] pages_rep_append [of zs ys] ok by auto
  have "pages_rep pg' xs"
    by (rule pages_rep_cong [OF rep(1) ok(1)]) (use assms(4) in auto)
  moreover have "pages_rep pg' ys"
    by (rule pages_rep_cong [OF rep(2) ok(2)]) (use assms(4) in auto)
  ultimately show ?thesis
    using assms(3,5) ok pages_rep_append [of xs "zs' @ ys"] pages_rep_append [of zs' ys] by auto
qed

lemma pages_rep_replace:
  assumes "pages_rep pg (xs @ zs @ ys)" and "blks_ok (xs @ zs @ ys)" and "blks_ok (xs @ zs' @ ys)"
    and same: "\<And>p. p \<notin> pool_pages zs \<Longrightarrow> pg' p = pg p" and "pages_rep pg' zs'"
  shows "pages_rep pg' (xs @ zs' @ ys)"
proof (rule pages_rep_exchange [OF assms(1-3) _ assms(5)])
  have "blks_ok (zs @ ys)" using assms(2) by (auto simp: blks_ok_append)
  then have "pool_pages xs \<inter> pool_pages zs = {}" "pool_pages zs \<inter> pool_pages ys = {}"
    using blks_ok_disjoint [of xs "zs @ ys"] blks_ok_disjoint [of zs ys] assms(2) by auto
  then show "pg' p = pg p" if "p \<in> pool_pages xs \<union> pool_pages ys" for p
    using that same by blast
qed

end
