(* ===== verification/PageManager.thy ===== *)
theory PageManager
  imports Frames
begin

text \<open>
  The interface \<open>struct pmm_manager\<close> (\<open>lab8/kern/mm/pmm.h\<close>) as a locale: what the page
  allocators promise to the rest of the kernel, and what every client may conclude from it. The
  allocators interpret it on their models. An allocator may round a request up: \<open>granted n\<close> is the
  number of pages a request for \<open>n\<close> really takes.
\<close>

text \<open>A sequence of requests, as the kernel issues them; it returns the blocks handed out.\<close>

fun alloc_all ::
  "(nat \<Rightarrow> 's \<Rightarrow> (nat option \<times> 's) option) \<Rightarrow> nat list \<Rightarrow> 's \<Rightarrow> ((nat \<times> nat) list \<times> 's) option"
where
  "alloc_all f [] s = Some ([], s)"
| "alloc_all f (n # ns) s =
     do { (r, s1) \<leftarrow> f n s;
          (out, s2) \<leftarrow> alloc_all f ns s1;
          Some ((case r of None \<Rightarrow> out | Some p \<Rightarrow> (p, n) # out), s2) }"

locale page_manager =
  fixes alloc :: "nat \<Rightarrow> 's \<Rightarrow> (nat option \<times> 's) option"
    and rep :: "'s \<Rightarrow> 'b \<Rightarrow> bool"
    and avail :: "'b \<Rightarrow> nat set"
    and granted :: "nat \<Rightarrow> nat"
  assumes alloc_law: "rep s b \<Longrightarrow> 0 < n \<Longrightarrow>
      alloc n s = Some (None, s) \<or>
      (\<exists>p s' b'. alloc n s = Some (Some p, s') \<and> rep s' b' \<and>
         avail b = {p ..< p + granted n} \<union> avail b' \<and> {p ..< p + granted n} \<inter> avail b' = {})"
begin

lemma alloc_some:
  assumes "rep s b" and "0 < n" and "alloc n s = Some (Some p, s')"
  obtains b' where "rep s' b'" and "avail b = {p ..< p + granted n} \<union> avail b'"
    and "{p ..< p + granted n} \<inter> avail b' = {}"
  using alloc_law [OF assms(1,2)] assms(3) by auto

lemma alloc_all_ok:
  assumes "rep s b" and "\<forall>n \<in> set ns. 0 < n" and "alloc_all alloc ns s = Some (out, s')"
  shows "\<exists>b'. rep s' b' \<and> avail b' \<subseteq> avail b \<and>
    (\<forall>(p, n) \<in> set out. {p ..< p + granted n} \<subseteq> avail b - avail b') \<and>
    (\<forall>i < length out. \<forall>j < length out. i \<noteq> j \<longrightarrow>
       {fst (out ! i) ..< fst (out ! i) + granted (snd (out ! i))} \<inter>
       {fst (out ! j) ..< fst (out ! j) + granted (snd (out ! j))} = {})"
  using assms
proof (induction ns arbitrary: s b out)
  case Nil
  then show ?case by auto
next
  case (Cons n ns)
  from Cons.prems(3) obtain r s1 out1 where s1: "alloc n s = Some (r, s1)"
    and rest: "alloc_all alloc ns s1 = Some (out1, s')"
    and out: "out = (case r of None \<Rightarrow> out1 | Some p \<Rightarrow> (p, n) # out1)"
    by (auto simp: bind_eq_Some_conv)
  have n: "0 < n" and ns: "\<forall>n \<in> set ns. 0 < n" using Cons.prems(2) by auto
  show ?case
  proof (cases r)
    case None
    with alloc_law [OF Cons.prems(1) n] s1 have "s1 = s" by auto
    with Cons.IH [OF Cons.prems(1) ns] rest out None show ?thesis by simp
  next
    case (Some p)
    from alloc_some [OF Cons.prems(1) n] s1 Some obtain b1 where b1: "rep s1 b1"
      "avail b = {p ..< p + granted n} \<union> avail b1" "{p ..< p + granted n} \<inter> avail b1 = {}"
      by blast
    from Cons.IH [OF b1(1) ns rest] obtain b' where b': "rep s' b'" "avail b' \<subseteq> avail b1"
      and sub: "\<forall>(p, n) \<in> set out1. {p ..< p + granted n} \<subseteq> avail b1 - avail b'"
      and dis: "\<forall>i < length out1. \<forall>j < length out1. i \<noteq> j \<longrightarrow>
         {fst (out1 ! i) ..< fst (out1 ! i) + granted (snd (out1 ! i))} \<inter>
         {fst (out1 ! j) ..< fst (out1 ! j) + granted (snd (out1 ! j))} = {}"
      by blast
    have o: "out = (p, n) # out1" using out Some by simp
    have new: "{p ..< p + granted n} \<inter>
        {fst (out1 ! i) ..< fst (out1 ! i) + granted (snd (out1 ! i))} = {}"
      if "i < length out1" for i
    proof -
      have "out1 ! i \<in> set out1" using that by simp
      with sub have "{fst (out1 ! i) ..< fst (out1 ! i) + granted (snd (out1 ! i))} \<subseteq> avail b1"
        by (metis (no_types, lifting) Diff_subset case_prodD prod.collapse subset_trans)
      with b1(3) show ?thesis by blast
    qed
    have "\<forall>i < length out. \<forall>j < length out. i \<noteq> j \<longrightarrow>
       {fst (out ! i) ..< fst (out ! i) + granted (snd (out ! i))} \<inter>
       {fst (out ! j) ..< fst (out ! j) + granted (snd (out ! j))} = {}"
    proof (intro allI impI)
      fix i j
      assume "i < length out" "j < length out" "i \<noteq> j"
      with dis new show "{fst (out ! i) ..< fst (out ! i) + granted (snd (out ! i))} \<inter>
          {fst (out ! j) ..< fst (out ! j) + granted (snd (out ! j))} = {}"
        by (cases i; cases j) (auto simp: o Int_commute)
    qed
    moreover have "\<forall>(p, n) \<in> set out. {p ..< p + granted n} \<subseteq> avail b - avail b'"
      using sub b1 b'(2) o by fastforce
    ultimately show ?thesis using b' b1(2) by blast
  qed
qed

end

end
