(* ===== verification/FirstFit.thy ===== *)
theory FirstFit
  imports Frames PageManager
begin

text \<open>
  The first-fit page allocator of \<open>lab8/kern/mm/default_pmm.c\<close>, on descriptors and list
  pointers. Where the list is in good shape (\<open>frep\<close>), allocation refines \<open>ff_take\<close> and freeing
  below some free block refines \<open>blk_put\<close>. Freeing above every free block does not: the search
  loop goes on after it has appended the block, appends it a second time behind itself and leaves
  its \<open>prev\<close> pointer on itself.
\<close>

section \<open>The code\<close>

definition default_init :: "free_area \<Rightarrow> free_area" where
  "default_init s = (upd_links (list_init FreeHead) s)\<lparr>nr_free := 0\<rparr>"

text \<open>The loops over the descriptors at the start of \<open>init_memmap\<close> and \<open>free_pages\<close>.\<close>

fun reset_reserved :: "nat \<Rightarrow> nat \<Rightarrow> free_area \<Rightarrow> free_area option" where
  "reset_reserved p 0 s = Some s"
| "reset_reserved p (Suc k) s =
     do { kassert (PageReserved (pages s p));
          reset_reserved (Suc p) k
            (upd_page p (\<lambda>g. set_page_ref 0 (g\<lparr>flags := 0, property := 0\<rparr>)) s) }"

fun reset_used :: "nat \<Rightarrow> nat \<Rightarrow> free_area \<Rightarrow> free_area option" where
  "reset_used p 0 s = Some s"
| "reset_used p (Suc k) s =
     do { kassert (\<not> PageReserved (pages s p) \<and> \<not> PageProperty (pages s p));
          reset_used (Suc p) k (upd_page p (\<lambda>g. set_page_ref 0 (g\<lparr>flags := 0\<rparr>)) s) }"

text \<open>The search for the insertion point: \<open>le\<close> walks the list, whose pointers it changes.\<close>

partial_function (option) insert_loop :: "flink \<Rightarrow> nat \<Rightarrow> flink links \<Rightarrow> flink links option" where
  "insert_loop le base h =
     (let le' = list_next h le in
      if le' = FreeHead then Some h
      else if base < le2page le' then Some (list_add_before le' (PageLink base) h)
      else if list_next h le' = FreeHead
           then insert_loop le' base (list_add le' (PageLink base) h)
           else insert_loop le' base h)"

definition insert_block :: "nat \<Rightarrow> free_area \<Rightarrow> free_area option" where
  "insert_block base s =
     (if list_empty (links s) FreeHead
      then Some (upd_links (list_add FreeHead (PageLink base)) s)
      else do { h \<leftarrow> insert_loop FreeHead base (links s); Some (s\<lparr>links := h\<rparr>) })"

definition default_init_memmap :: "nat \<Rightarrow> nat \<Rightarrow> free_area \<Rightarrow> free_area option" where
  "default_init_memmap base n s =
     do { kassert (0 < n);
          s1 \<leftarrow> reset_reserved base n s;
          let s2 = upd_page base (\<lambda>g. SetPageProperty (g\<lparr>property := n\<rparr>)) s1;
          insert_block base (s2\<lparr>nr_free := nr_free s2 + n\<rparr>) }"

text \<open>The first block of at least \<open>n\<close> pages.\<close>

partial_function (option) ff_find :: "flink \<Rightarrow> nat \<Rightarrow> free_area \<Rightarrow> nat option option" where
  "ff_find le n s =
     (let le' = list_next (links s) le in
      if le' = FreeHead then Some None
      else if n \<le> property (pages s (le2page le')) then Some (Some (le2page le'))
      else ff_find le' n s)"

text \<open>Take the block out of the list and put the rest of it back in its place.\<close>

definition carve_block :: "nat \<Rightarrow> nat \<Rightarrow> free_area \<Rightarrow> free_area" where
  "carve_block page n s =
     (let prev = list_prev (links s) (PageLink page);
          s1 = upd_links (list_del (PageLink page)) s;
          s2 = (if n < property (pages s1 page)
                then let p = page + n; k = property (pages s1 page) - n
                     in upd_links (list_add prev (PageLink p))
                          (upd_page p (\<lambda>g. SetPageProperty (g\<lparr>property := k\<rparr>)) s1)
                else s1);
          s3 = s2\<lparr>nr_free := nr_free s2 - n\<rparr>
      in upd_page page ClearPageProperty s3)"

definition default_alloc_pages :: "nat \<Rightarrow> free_area \<Rightarrow> (nat option \<times> free_area) option" where
  "default_alloc_pages n s =
     do { kassert (0 < n);
          if nr_free s < n then Some (None, s)
          else do { page \<leftarrow> ff_find FreeHead n s;
                    case page of
                      None \<Rightarrow> Some (None, s)
                    | Some p \<Rightarrow> Some (Some p, carve_block p n s) } }"

text \<open>Merge a block with the block before it in the list, then with the one behind it.\<close>

definition merge_prev :: "nat \<Rightarrow> free_area \<Rightarrow> nat \<times> free_area" where
  "merge_prev base s =
     (let le = list_prev (links s) (PageLink base) in
      if le \<noteq> FreeHead \<and> le2page le + property (pages s (le2page le)) = base
      then let p = le2page le;
               s1 = upd_page p (\<lambda>g. g\<lparr>property := property g + property (pages s base)\<rparr>) s;
               s2 = upd_page base ClearPageProperty s1
           in (p, upd_links (list_del (PageLink base)) s2)
      else (base, s))"

definition merge_next :: "nat \<Rightarrow> free_area \<Rightarrow> free_area" where
  "merge_next base s =
     (let le = list_next (links s) (PageLink base) in
      if le \<noteq> FreeHead \<and> base + property (pages s base) = le2page le
      then let p = le2page le;
               s1 = upd_page base (\<lambda>g. g\<lparr>property := property g + property (pages s p)\<rparr>) s;
               s2 = upd_page p ClearPageProperty s1
           in upd_links (list_del (PageLink p)) s2
      else s)"

definition default_free_pages :: "nat \<Rightarrow> nat \<Rightarrow> free_area \<Rightarrow> free_area option" where
  "default_free_pages base n s =
     do { kassert (0 < n);
          s1 \<leftarrow> reset_used base n s;
          let s2 = upd_page base (\<lambda>g. SetPageProperty (g\<lparr>property := n\<rparr>)) s1;
          s3 \<leftarrow> insert_block base (s2\<lparr>nr_free := nr_free s2 + n\<rparr>);
          let (b, s4) = merge_prev base s3;
          Some (merge_next b s4) }"

definition default_nr_free_pages :: "free_area \<Rightarrow> nat" where
  "default_nr_free_pages s = nr_free s"

section \<open>The loops over descriptors\<close>

lemma reset_used_Some:
  assumes "\<And>q. q \<in> {p ..< p + k} \<Longrightarrow> \<not> PageReserved (pages s q) \<and> \<not> PageProperty (pages s q)"
  shows "reset_used p k s =
    Some (s\<lparr>pages := \<lambda>q. if q \<in> {p ..< p + k} then set_page_ref 0 ((pages s q)\<lparr>flags := 0\<rparr>)
                         else pages s q\<rparr>)"
  using assms
proof (induction k arbitrary: p s)
  case 0
  then show ?case by simp
next
  case (Suc k)
  have now: "\<not> PageReserved (pages s p) \<and> \<not> PageProperty (pages s p)"
    using Suc.prems [of p] by simp
  let ?s = "upd_page p (\<lambda>g. set_page_ref 0 (g\<lparr>flags := 0\<rparr>)) s"
  have "reset_used (Suc p) k ?s =
      Some (?s\<lparr>pages := \<lambda>q. if q \<in> {Suc p ..< Suc p + k}
        then set_page_ref 0 ((pages ?s q)\<lparr>flags := 0\<rparr>) else pages ?s q\<rparr>)"
    by (rule Suc.IH) (use Suc.prems in auto)
  with now show ?case by (auto simp: upd_page_def fun_eq_iff)
qed

lemma reset_used_None:
  assumes "q \<in> {p ..< p + k}" and "PageReserved (pages s q) \<or> PageProperty (pages s q)"
  shows "reset_used p k s = None"
  using assms
proof (induction k arbitrary: p s)
  case (Suc k)
  then show ?case
    by (cases "q = p") (auto intro!: Suc.IH)
qed simp

lemma reset_reserved_Some:
  assumes "\<And>q. q \<in> {p ..< p + k} \<Longrightarrow> PageReserved (pages s q)"
  shows "reset_reserved p k s =
    Some (s\<lparr>pages := \<lambda>q. if q \<in> {p ..< p + k}
       then set_page_ref 0 ((pages s q)\<lparr>flags := 0, property := 0\<rparr>) else pages s q\<rparr>)"
  using assms
proof (induction k arbitrary: p s)
  case 0
  then show ?case by simp
next
  case (Suc k)
  have now: "PageReserved (pages s p)" using Suc.prems [of p] by simp
  let ?s = "upd_page p (\<lambda>g. set_page_ref 0 (g\<lparr>flags := 0, property := 0\<rparr>)) s"
  have "reset_reserved (Suc p) k ?s =
      Some (?s\<lparr>pages := \<lambda>q. if q \<in> {Suc p ..< Suc p + k}
        then set_page_ref 0 ((pages ?s q)\<lparr>flags := 0, property := 0\<rparr>) else pages ?s q\<rparr>)"
    by (rule Suc.IH) (use Suc.prems in auto)
  with now show ?case by (auto simp: upd_page_def fun_eq_iff)
qed

section \<open>The list walks\<close>

lemma ff_find_fpath:
  assumes "fpath (links s) a (blk_nodes bs) FreeHead"
    and "\<forall>b \<in> set bs. property (pages s (fst b)) = snd b"
  shows "ff_find a n s = Some (map_option fst (find (\<lambda>b. n \<le> snd b) bs))"
  using assms
proof (induction bs arbitrary: a)
  case Nil
  then show ?case by (subst ff_find.simps) simp
next
  case (Cons b bs)
  then have "ff_find (PageLink (fst b)) n s = Some (map_option fst (find (\<lambda>b. n \<le> snd b) bs))"
    by simp
  with Cons.prems show ?case by (subst ff_find.simps) simp
qed

lemma insert_loop_before:
  assumes "dlist h FreeHead (map PageLink (ps @ us @ c # vs))"
    and "\<forall>u \<in> set us. u \<le> base" and "base < c"
  shows "insert_loop (last (FreeHead # map PageLink ps)) base h =
    Some (list_add_before (PageLink c) (PageLink base) h)"
  using assms
proof (induction us arbitrary: ps)
  case Nil
  then have "list_next h (last (FreeHead # map PageLink ps)) = PageLink c"
    using dlist_next_last [of h FreeHead "map PageLink ps" "map PageLink (c # vs)"] by simp
  with Nil show ?case by (subst insert_loop.simps) simp
next
  case (Cons u us)
  have 1: "list_next h (last (FreeHead # map PageLink ps)) = PageLink u"
    using Cons.prems dlist_next_last [of h FreeHead "map PageLink ps"
        "map PageLink (u # us @ c # vs)"] by simp
  have 2: "list_next h (PageLink u) \<noteq> FreeHead"
    using Cons.prems dlist_next [of h FreeHead "map PageLink ps" "PageLink u"
        "map PageLink (us @ c # vs)"] by (cases us) auto
  have "insert_loop (last (FreeHead # map PageLink (ps @ [u]))) base h =
      Some (list_add_before (PageLink c) (PageLink base) h)"
    by (rule Cons.IH) (use Cons.prems in auto)
  with 1 2 Cons.prems show ?case by (subst insert_loop.simps) simp
qed


section \<open>Allocation refines first fit\<close>

lemma find_prefix:
  "(\<forall>x \<in> set xs. \<not> P x) \<Longrightarrow> P y \<Longrightarrow> find P (xs @ y # ys) = Some y"
  by (induction xs) auto

lemma carve_links:
  assumes "dlist (links s) FreeHead (blk_nodes (xs @ (p, k) # ys))"
    and "property (pages s p) = k" and "n < k \<Longrightarrow> p + n \<notin> fst ` set (xs @ ys)"
  shows "dlist (links (carve_block p n s)) FreeHead
    (blk_nodes (xs @ (if n < k then (p + n, k - n) # ys else ys)))"
proof -
  have prev: "list_prev (links s) (PageLink p) = last (FreeHead # blk_nodes xs)"
    using assms(1) dlist_prev [of "links s" FreeHead "blk_nodes xs" "PageLink p" "blk_nodes ys"]
    by simp
  have del: "dlist (list_del (PageLink p) (links s)) FreeHead (blk_nodes xs @ blk_nodes ys)"
    using assms(1) dlist_del [of "links s" FreeHead "blk_nodes xs" "PageLink p" "blk_nodes ys"]
    by simp
  show ?thesis
  proof (cases "n < k")
    case True
    have "PageLink (p + n) \<notin> set (FreeHead # blk_nodes xs @ blk_nodes ys)"
      using assms(3) True by auto
    with True prev dlist_add_last [OF del] assms(2) show ?thesis
      by (simp add: carve_block_def Let_def)
  next
    case False
    with del assms(2) show ?thesis by (simp add: carve_block_def Let_def)
  qed
qed

lemma carve_pages_rep:
  assumes "pages_rep (pages s) (xs @ (p, k) # ys)" and ok: "blks_ok (xs @ (p, k) # ys)"
    and "0 < n" and "n \<le> k"
  shows "pages_rep (pages (carve_block p n s))
    (xs @ (if n < k then (p + n, k - n) # ys else ys))"
proof -
  let ?zs = "if n < k then [(p + n, k - n)] else []"
  have head: "pages_rep (pages s) [(p, k)]"
    using assms(1) ok pages_rep_append [of xs "(p, k) # ys"] pages_rep_Cons [of "(p, k)" ys]
    by (auto simp: blks_ok_append)
  then have k: "property (pages s p) = k"
    using assms(3,4) by (simp add: pages_rep_single)
  have "pages_rep (pages (carve_block p n s)) (xs @ ?zs @ ys)"
  proof (rule pages_rep_replace [where zs = "[(p, k)]"])
    show "pages_rep (pages s) (xs @ [(p, k)] @ ys)" using assms(1) by simp
    show "blks_ok (xs @ [(p, k)] @ ys)" using ok by simp
    show "blks_ok (xs @ ?zs @ ys)" using carve_ok [OF ok assms(3,4)] by (auto split: if_splits)
    show "pages (carve_block p n s) q = pages s q" if "q \<notin> pool_pages [(p, k)]" for q
      using that assms(3,4) k by (auto simp: carve_block_def Let_def blk_pages_def)
    show "pages_rep (pages (carve_block p n s)) ?zs"
      using head assms(3,4) k
      by (auto simp: pages_rep_single carve_block_def Let_def)
  qed
  then show ?thesis by (auto split: if_splits)
qed

lemma carve_refines:
  assumes "frep s (xs @ (p, k) # ys)" and "0 < n" and "n \<le> k"
  shows "frep (carve_block p n s) (xs @ (if n < k then (p + n, k - n) # ys else ys))"
proof -
  from assms(1) have ok: "blks_ok (xs @ (p, k) # ys)" and k: "property (pages s p) = k"
    by (auto simp: frep_ok frep_property)
  have nin: "n < k \<Longrightarrow> p + n \<notin> fst ` set (xs @ ys)"
    using blks_ok_fst_notin [OF ok, of "p + n"] by auto
  have links: "dlist (links (carve_block p n s)) FreeHead
      (blk_nodes (xs @ (if n < k then (p + n, k - n) # ys else ys)))"
    by (rule carve_links) (use frep_dlist [OF assms(1)] k nin in auto)
  have rep: "pages_rep (pages (carve_block p n s))
      (xs @ (if n < k then (p + n, k - n) # ys else ys))"
    by (rule carve_pages_rep) (use assms ok in \<open>auto simp: frep_def\<close>)
  have "nr_free (carve_block p n s) = nr_free s - n"
    by (simp add: carve_block_def Let_def)
  with assms carve_ok [OF ok assms(2,3)] carve_pages(3) [OF ok assms(2,3)] links rep show ?thesis
    by (simp add: frep_def)
qed

text \<open>The pages handed out carry neither flag, as \<open>free_pages\<close> will demand of them.\<close>

lemma carve_granted_clean:
  assumes "frep s (xs @ (p, k) # ys)" and "0 < n" and "n \<le> k" and "q \<in> {p ..< p + n}"
  shows "\<not> PageReserved (pages (carve_block p n s) q) \<and>
    \<not> PageProperty (pages (carve_block p n s) q)"
proof -
  have ok: "blks_ok (xs @ (p, k) # ys)" using assms(1) by (rule frep_ok)
  have "pages_rep (pages s) [(p, k)]"
    using assms(1) ok pages_rep_append [of xs "(p, k) # ys"] pages_rep_Cons [of "(p, k)" ys]
    by (auto simp: blks_ok_append frep_def)
  with assms(2-4) show ?thesis
    by (cases "q = p") (auto simp: pages_rep_single carve_block_def Let_def)
qed

lemma default_alloc_refines:
  assumes "frep s bs" and "0 < n"
  shows "case ff_take n bs of
      None \<Rightarrow> default_alloc_pages n s = Some (None, s)
    | Some (p, bs') \<Rightarrow> default_alloc_pages n s = Some (Some p, carve_block p n s) \<and>
        frep (carve_block p n s) bs'"
proof -
  have walk: "ff_find FreeHead n s = Some (map_option fst (find (\<lambda>b. n \<le> snd b) bs))"
    by (rule ff_find_fpath) (use assms(1) in \<open>auto simp: frep_def pages_rep_def dlist_fpath\<close>)
  show ?thesis
  proof (cases "ff_take n bs")
    case None
    then have "find (\<lambda>b. n \<le> snd b) bs = None"
      by (auto simp: ff_take_None find_None_iff not_le)
    with None walk assms(2) show ?thesis by (simp add: default_alloc_pages_def)
  next
    case (Some r)
    obtain p bs' where r: "r = (p, bs')" by fastforce
    with Some ff_take_split obtain xs k ys where bs: "bs = xs @ (p, k) # ys" and k: "n \<le> k"
      and small: "\<forall>x \<in> set xs. snd x < n"
      and bs': "bs' = xs @ (if n < k then (p + n, k - n) # ys else ys)"
      by blast
    have "find (\<lambda>b. n \<le> snd b) bs = Some (p, k)"
      using small k by (auto simp: bs intro!: find_prefix)
    moreover have "n \<le> nr_free s"
      using frep_nr_free [OF assms(1)] pool_size_ge [of "(p, k)" bs] k by (simp add: bs)
    ultimately have "default_alloc_pages n s = Some (Some p, carve_block p n s)"
      using walk assms(2) by (simp add: default_alloc_pages_def)
    with carve_refines [of s xs p k ys n] assms k Some r bs bs' show ?thesis by simp
  qed
qed

section \<open>Freeing refines the return of a block, below some free block\<close>

text \<open>One merge step keeps the representation.\<close>

lemma merge_refines:
  assumes rep: "frep s (xs @ (p, k) # (q, j) # ys)" and q: "p + k = q"
  defines "s1 \<equiv> upd_page p (\<lambda>g. g\<lparr>property := property g + property (pages s q)\<rparr>) s"
  defines "s2 \<equiv> upd_links (list_del (PageLink q)) (upd_page q ClearPageProperty s1)"
  shows "frep s2 (xs @ (p, k + j) # ys)"
proof -
  have ok: "blks_ok (xs @ (p, k) # (q, j) # ys)" using rep by (rule frep_ok)
  then have pos: "0 < k" "0 < j" and oks: "blks_ok [(p, k), (q, j)]" "blks_ok ((p, k) # (q, j) # ys)"
    by (auto simp: blks_ok_append)
  have ok': "blks_ok (xs @ (p, k + j) # ys)"
    using ok q by (auto simp: blks_ok_append)
  have "pages_rep (pages s) ((p, k) # (q, j) # ys)"
    using rep pages_rep_append [OF ok] by (simp add: frep_def)
  then have head: "pages_rep (pages s) [(p, k)]" "pages_rep (pages s) [(q, j)]"
    using oks pages_rep_Cons [of "(p, k)" "(q, j) # ys"] pages_rep_Cons [of "(q, j)" ys] by auto
  have "pages_rep (pages s2) (xs @ [(p, k + j)] @ ys)"
  proof (rule pages_rep_replace [where zs = "[(p, k), (q, j)]"])
    show "pages_rep (pages s) (xs @ [(p, k), (q, j)] @ ys)" using rep by (simp add: frep_def)
    show "blks_ok (xs @ [(p, k), (q, j)] @ ys)" using ok by simp
    show "blks_ok (xs @ [(p, k + j)] @ ys)" using ok' by simp
    show "pages s2 r = pages s r" if "r \<notin> pool_pages [(p, k), (q, j)]" for r
      using that pos by (auto simp: s2_def s1_def blk_pages_def)
    show "pages_rep (pages s2) [(p, k + j)]"
      using head pos q by (auto simp: pages_rep_single s2_def s1_def)
  qed
  moreover have "dlist (links s2) FreeHead (blk_nodes (xs @ (p, k + j) # ys))"
    using dlist_del [of "links s" FreeHead "blk_nodes (xs @ [(p, k)])" "PageLink q" "blk_nodes ys"]
      frep_dlist [OF rep] by (simp add: s2_def s1_def)
  ultimately show ?thesis using ok' frep_nr_free [OF rep]
    by (simp add: frep_def s2_def s1_def)
qed

text \<open>The abstract merges, as the code makes them: first with the block before, then behind.\<close>

definition join_prev :: "nat \<Rightarrow> nat \<Rightarrow> blocks \<Rightarrow> blocks \<times> nat \<times> nat" where
  "join_prev b n us =
     (if us \<noteq> [] \<and> fst (last us) + snd (last us) = b
      then (butlast us, fst (last us), snd (last us) + n) else (us, b, n))"

lemma merge_prev_refines:
  assumes rep: "frep s (us @ (b, n) # vs)"
  shows "\<exists>s'. merge_prev b s = (fst (snd (join_prev b n us)), s') \<and>
    frep s' (fst (join_prev b n us) @ snd (join_prev b n us) # vs)"
proof (cases us rule: rev_cases)
  case Nil
  with frep_dlist [OF rep] dlist_prev_head [of "links s" FreeHead]
    dlist_prev [of "links s" FreeHead "[]" "PageLink b" "blk_nodes vs"]
  have "list_prev (links s) (PageLink b) = FreeHead" by simp
  with Nil rep show ?thesis by (simp add: merge_prev_def join_prev_def Let_def)
next
  case (snoc xs c)
  obtain p k where c: "c = (p, k)" by fastforce
  have prev: "list_prev (links s) (PageLink b) = PageLink p"
    using frep_dlist [OF rep]
      dlist_prev [of "links s" FreeHead "blk_nodes us" "PageLink b" "blk_nodes vs"]
    by (simp add: snoc c)
  have k: "property (pages s p) = k" and n: "property (pages s b) = n"
    using rep frep_property [of s xs p k "(b, n) # vs"] frep_property [of s us b n vs]
    by (auto simp: snoc c)
  show ?thesis
  proof (cases "p + k = b")
    case True
    with rep merge_refines [of s xs p k b n vs] prev k snoc c show ?thesis
      by (simp add: merge_prev_def join_prev_def Let_def)
  next
    case False
    with rep prev k snoc c show ?thesis by (simp add: merge_prev_def join_prev_def Let_def)
  qed
qed

lemma merge_next_refines:
  assumes rep: "frep s (us @ b # vs)"
  shows "frep (merge_next (fst b) s) (us @ merge_front b vs)"
proof -
  obtain p k where b: "b = (p, k)" by fastforce
  have k: "property (pages s p) = k" using rep frep_property by (simp add: b)
  have "next": "list_next (links s) (PageLink p) = hd (blk_nodes vs @ [FreeHead])"
    using frep_dlist [OF rep]
      dlist_next [of "links s" FreeHead "blk_nodes us" "PageLink p" "blk_nodes vs"]
    by (simp add: b)
  show ?thesis
  proof (cases vs)
    case Nil
    with "next" rep b show ?thesis by (simp add: merge_next_def)
  next
    case (Cons c ws)
    obtain q j where c: "c = (q, j)" by fastforce
    show ?thesis
    proof (cases "p + k = q")
      case True
      with rep merge_refines [of s us p k q j ws] "next" k Cons c b show ?thesis
        by (simp add: merge_next_def Let_def)
    next
      case False
      with rep "next" k Cons c b show ?thesis by (simp add: merge_next_def Let_def)
    qed
  qed
qed

lemma blk_put_join:
  assumes "blks_ok (us @ vs)" and "\<forall>u \<in> set us. fst u < b" and "vs \<noteq> [] \<Longrightarrow> b < fst (hd vs)"
    and "\<And>u. u \<in> set us \<Longrightarrow> fst u + snd u \<le> b"
  shows "blk_put b n (us @ vs) = fst (join_prev b n us) @ merge_front (snd (join_prev b n us)) vs"
  using assms
proof (induction us)
  case Nil
  then show ?case by (cases vs) (auto simp: join_prev_def)
next
  case (Cons u us)
  obtain c k where u: "u = (c, k)" by fastforce
  show ?case
  proof (cases "us = []")
    case True
    have "blk_put b n vs = merge_front (b, n) vs"
      using Cons.prems(3) by (cases vs) auto
    with True Cons.prems u show ?thesis
      by (cases vs) (auto simp: join_prev_def)
  next
    case False
    have "c + k < b"
    proof -
      have "c + k \<le> fst (last us)" and "fst (last us) < b"
        using Cons.prems(1,2) False u by (auto simp: blks_ok_append)
      then show ?thesis by simp
    qed
    with Cons False u show ?thesis by (auto simp: join_prev_def)
  qed
qed

text \<open>Putting a cleared block into its place in the list.\<close>

definition stamp_block :: "nat \<Rightarrow> nat \<Rightarrow> free_area \<Rightarrow> free_area" where
  "stamp_block b n s =
     (let s2 = upd_page b (\<lambda>g. SetPageProperty (g\<lparr>property := n\<rparr>)) s
      in s2\<lparr>nr_free := nr_free s2 + n\<rparr>)"

definition cleared :: "nat \<Rightarrow> nat \<Rightarrow> free_area \<Rightarrow> free_area \<Rightarrow> bool" where
  "cleared b n s s' \<longleftrightarrow> links s' = links s \<and> nr_free s' = nr_free s \<and>
     (\<forall>q. q \<notin> {b ..< b + n} \<longrightarrow> pages s' q = pages s q) \<and>
     (\<forall>q \<in> {b ..< b + n}. \<not> PageReserved (pages s' q) \<and> \<not> PageProperty (pages s' q))"

lemma stamp_rep:
  assumes rep: "frep s (us @ vs)" and "cleared b n s s'" and "0 < n"
    and ok: "blks_ok (us @ (b, n) # vs)"
    and links: "dlist h FreeHead (blk_nodes (us @ (b, n) # vs))"
  shows "frep ((stamp_block b n s')\<lparr>links := h\<rparr>) (us @ (b, n) # vs)"
proof -
  let ?s = "(stamp_block b n s')\<lparr>links := h\<rparr>"
  have "pages_rep (pages ?s) (us @ [(b, n)] @ vs)"
  proof (rule pages_rep_exchange [where zs = "[]" and pg = "pages s"])
    show "pages_rep (pages s) (us @ [] @ vs)" using rep by (simp add: frep_def)
    show "blks_ok (us @ [] @ vs)" using rep by (simp add: frep_ok)
    show "blks_ok (us @ [(b, n)] @ vs)" using ok by simp
    show "pages ?s r = pages s r" if "r \<in> pool_pages us \<union> pool_pages vs" for r
    proof -
      have "r \<notin> {b ..< b + n}"
        using that blks_ok_fst_notin(1,2) [OF ok, of r] by auto
      then show ?thesis
        using assms(2,3) by (auto simp: stamp_block_def cleared_def Let_def)
    qed
    show "pages_rep (pages ?s) [(b, n)]"
      using assms(2,3) by (auto simp: pages_rep_single stamp_block_def cleared_def Let_def)
  qed
  then show ?thesis using ok links frep_nr_free [OF rep] assms(2)
    by (simp add: frep_def stamp_block_def cleared_def Let_def)
qed

text \<open>Where a block belongs: behind the blocks that start below it.\<close>

definition blk_below :: "nat \<Rightarrow> blocks \<Rightarrow> blocks" where
  "blk_below b bs = takeWhile (\<lambda>c. fst c < b) bs"

definition blk_above :: "nat \<Rightarrow> blocks \<Rightarrow> blocks" where
  "blk_above b bs = dropWhile (\<lambda>c. fst c < b) bs"

lemma blk_below_above: "blk_below b bs @ blk_above b bs = bs"
  by (simp add: blk_below_def blk_above_def)

lemma blk_below_lt: "u \<in> set (blk_below b bs) \<Longrightarrow> fst u < b"
  by (auto simp: blk_below_def dest: set_takeWhileD)

lemma position_ok:
  assumes ok: "blks_ok (us @ vs)" and n: "0 < n"
    and dis: "{b ..< b + n} \<inter> pool_pages (us @ vs) = {}"
    and us: "\<And>u. u \<in> set us \<Longrightarrow> fst u < b" and vs: "vs \<noteq> [] \<Longrightarrow> \<not> fst (hd vs) < b"
  shows "blks_ok (us @ (b, n) # vs)"
    and "\<And>u. u \<in> set us \<Longrightarrow> fst u + snd u \<le> b"
    and "vs \<noteq> [] \<Longrightarrow> b < fst (hd vs)"
proof -
  have mem: "{b ..< b + n} \<inter> blk_pages (fst c, snd c) = {}" if "c \<in> set (us @ vs)" for c
    using that dis by (auto simp: pool_pages_def)
  show us1: "fst u + snd u \<le> b" if "u \<in> set us" for u
    using disjoint_above [OF mem n] us [OF that] that by auto
  show vs1: "b < fst (hd vs)" if "vs \<noteq> []"
  proof -
    have h: "hd vs \<in> set (us @ vs)" using that by simp
    have "fst (hd vs) \<noteq> b"
    proof
      assume "fst (hd vs) = b"
      then have "b \<in> blk_pages (fst (hd vs), snd (hd vs))"
        using blks_ok_pos [OF ok h] by (simp add: blk_pages_def)
      moreover have "b \<in> {b ..< b + n}" using n by simp
      ultimately show False using mem [OF h] by blast
    qed
    with vs [OF that] show ?thesis by simp
  qed
  have okv: "blks_ok us" "blks_ok vs" and uv: "\<forall>u \<in> set us. \<forall>v \<in> set vs. fst u + snd u \<le> fst v"
    using ok by (auto simp: blks_ok_append)
  have above: "b + n \<le> fst v" if v: "v \<in> set vs" for v
  proof -
    have h: "hd vs \<in> set (us @ vs)" and ne: "vs \<noteq> []" using v by (cases vs, auto)
    have "b + n \<le> fst (hd vs)"
      using disjoint_below [OF mem [OF h] n vs1 [OF ne]] blks_ok_pos [OF ok h] by simp
    moreover have "fst (hd vs) \<le> fst v"
      using v okv(2) by (cases vs) auto
    ultimately show ?thesis by simp
  qed
  show "blks_ok (us @ (b, n) # vs)"
    unfolding blks_ok_append using okv uv us1 above n by auto
qed

lemma blk_position:
  assumes "blks_ok bs" and "0 < n" and "{b ..< b + n} \<inter> pool_pages bs = {}"
  shows "blks_ok (blk_below b bs @ (b, n) # blk_above b bs)"
    and "\<And>u. u \<in> set (blk_below b bs) \<Longrightarrow> fst u + snd u \<le> b"
    and "blk_above b bs \<noteq> [] \<Longrightarrow> b < fst (hd (blk_above b bs))"
proof -
  have vs: "blk_above b bs \<noteq> [] \<Longrightarrow> \<not> fst (hd (blk_above b bs)) < b"
    unfolding blk_above_def by (rule hd_dropWhile)
  note pos = position_ok [of "blk_below b bs" "blk_above b bs" n b, unfolded blk_below_above,
      OF assms blk_below_lt vs]
  show "blks_ok (blk_below b bs @ (b, n) # blk_above b bs)" by (rule pos(1))
  show "\<And>u. u \<in> set (blk_below b bs) \<Longrightarrow> fst u + snd u \<le> b" by (rule pos(2))
  show "blk_above b bs \<noteq> [] \<Longrightarrow> b < fst (hd (blk_above b bs))" by (rule pos(3))
qed

lemma insert_block_refines:
  assumes rep: "frep s bs" and "0 < n" and dis: "{b ..< b + n} \<inter> pool_pages bs = {}"
    and room: "bs = [] \<or> (\<exists>c \<in> set bs. b < fst c)" and "links s' = links s"
  shows "\<exists>h. insert_block b s' = Some (s'\<lparr>links := h\<rparr>) \<and>
    dlist h FreeHead (blk_nodes (blk_below b bs @ (b, n) # blk_above b bs))"
proof (cases "bs = []")
  case True
  then have d: "dlist (links s') FreeHead []" using frep_dlist [OF rep] assms(5) by simp
  then have "insert_block b s' = Some (s'\<lparr>links := list_add FreeHead (PageLink b) (links s')\<rparr>)"
    by (simp add: insert_block_def dlist_empty_iff upd_links_def)
  moreover have "dlist (list_add FreeHead (PageLink b) (links s')) FreeHead [PageLink b]"
    using dlist_add_after_head [OF d, of "PageLink b"] by (simp add: list_add_def)
  ultimately show ?thesis
    using True by (intro exI [of _ "list_add FreeHead (PageLink b) (links s')"])
      (simp add: blk_below_def blk_above_def)
next
  case False
  let ?us = "blk_below b bs" and ?vs = "blk_above b bs"
  have d: "dlist (links s') FreeHead (blk_nodes (?us @ ?vs))"
    using frep_dlist [OF rep] assms(5) by (simp add: blk_below_above)
  have "?vs \<noteq> []"
    using room False by (fastforce simp: blk_above_def dropWhile_eq_Nil_conv)
  then obtain c vs where vs: "?vs = c # vs" by (cases ?vs) auto
  have c: "b < fst c" using blk_position(3) [OF frep_ok [OF rep] assms(2) dis] vs by simp
  have "\<not> list_empty (links s') FreeHead" using dlist_empty_iff [OF d] vs by simp
  moreover have "insert_loop FreeHead b (links s') =
      Some (list_add_before (PageLink (fst c)) (PageLink b) (links s'))"
    using insert_loop_before [of "links s'" "[]" "map fst ?us" "fst c" "map fst vs" b] d vs c
      blk_below_lt [of _ b bs, THEN less_imp_le]
    by (simp add: comp_def)
  moreover have "dlist (list_add_before (PageLink (fst c)) (PageLink b) (links s')) FreeHead
      (blk_nodes ?us @ PageLink b # PageLink (fst c) # blk_nodes vs)"
  proof (rule dlist_add_before)
    show "dlist (links s') FreeHead (blk_nodes ?us @ PageLink (fst c) # blk_nodes vs)"
      using d vs by simp
    have "b \<notin> fst ` set (?us @ ?vs)"
      using blks_ok_fst_notin(3,4) [OF blk_position(1) [OF frep_ok [OF rep] assms(2) dis], of b]
        assms(2) by auto
    then show "PageLink b \<notin> set (FreeHead # blk_nodes ?us @ PageLink (fst c) # blk_nodes vs)"
      using vs by auto
  qed
  ultimately show ?thesis
    using vs by (intro exI [of _ "list_add_before (PageLink (fst c)) (PageLink b) (links s')"])
      (simp add: insert_block_def)
qed

lemma reset_used_cleared:
  assumes "\<And>q. q \<in> {b ..< b + n} \<Longrightarrow> \<not> PageReserved (pages s q) \<and> \<not> PageProperty (pages s q)"
  obtains s' where "reset_used b n s = Some s'" and "cleared b n s s'"
  using reset_used_Some [of b n s] assms by (force simp: cleared_def)

lemma default_free_refines:
  assumes rep: "frep s bs" and "0 < n" and dis: "{b ..< b + n} \<inter> pool_pages bs = {}"
    and clean: "\<And>q. q \<in> {b ..< b + n} \<Longrightarrow> \<not> PageReserved (pages s q) \<and> \<not> PageProperty (pages s q)"
    and room: "bs = [] \<or> (\<exists>c \<in> set bs. b < fst c)"
  shows "\<exists>s'. default_free_pages b n s = Some s' \<and> frep s' (blk_put b n bs)"
proof -
  let ?us = "blk_below b bs" and ?vs = "blk_above b bs"
  note pos = blk_position [OF frep_ok [OF rep] assms(2) dis]
  obtain s1 where s1: "reset_used b n s = Some s1" "cleared b n s s1"
    using clean by (rule reset_used_cleared)
  let ?s2 = "stamp_block b n s1"
  have "links ?s2 = links s" using s1(2) by (simp add: stamp_block_def cleared_def Let_def)
  from insert_block_refines [OF rep assms(2) dis room this] obtain h
    where h: "insert_block b ?s2 = Some (?s2\<lparr>links := h\<rparr>)"
      "dlist h FreeHead (blk_nodes (?us @ (b, n) # ?vs))" by blast
  have rep3: "frep (?s2\<lparr>links := h\<rparr>) (?us @ (b, n) # ?vs)"
    using stamp_rep [OF _ s1(2) assms(2) pos(1) h(2)] rep by (simp add: blk_below_above)
  let ?j = "join_prev b n ?us"
  from merge_prev_refines [OF rep3] obtain s4
    where s4: "merge_prev b (?s2\<lparr>links := h\<rparr>) = (fst (snd ?j), s4)"
      "frep s4 (fst ?j @ snd ?j # ?vs)" by blast
  from merge_next_refines [OF s4(2)]
  have "frep (merge_next (fst (snd ?j)) s4) (blk_put b n (?us @ ?vs))"
    using blk_put_join [of ?us ?vs b n] pos blk_below_lt frep_ok [OF rep]
    by (simp add: blk_below_above)
  moreover have "default_free_pages b n s = Some (merge_next (fst (snd ?j)) s4)"
    using s1(1) h(1) s4(1) assms(2) by (simp add: default_free_pages_def stamp_block_def Let_def)
  ultimately show ?thesis by (auto simp: blk_below_above)
qed

section \<open>Setting up a region\<close>

lemma default_init_frep: "frep (default_init s) []"
  by (simp add: default_init_def frep_def)

lemma default_init_memmap_refines:
  assumes rep: "frep s bs" and "0 < n" and dis: "{b ..< b + n} \<inter> pool_pages bs = {}"
    and res: "\<And>q. q \<in> {b ..< b + n} \<Longrightarrow> PageReserved (pages s q)"
    and room: "bs = [] \<or> (\<exists>c \<in> set bs. b < fst c)"
  shows "\<exists>s'. default_init_memmap b n s = Some s' \<and>
    frep s' (blk_below b bs @ (b, n) # blk_above b bs)"
proof -
  note pos = blk_position [OF frep_ok [OF rep] assms(2) dis]
  obtain s1 where s1: "reset_reserved b n s = Some s1" "cleared b n s s1"
    using reset_reserved_Some [of b n s] res
    by (force simp: cleared_def PageReserved_def PageProperty_def set_page_ref_def)
  let ?s2 = "stamp_block b n s1"
  have "links ?s2 = links s" using s1(2) by (simp add: stamp_block_def cleared_def Let_def)
  from insert_block_refines [OF rep assms(2) dis room this] obtain h
    where h: "insert_block b ?s2 = Some (?s2\<lparr>links := h\<rparr>)"
      "dlist h FreeHead (blk_nodes (blk_below b bs @ (b, n) # blk_above b bs))" by blast
  have "frep (?s2\<lparr>links := h\<rparr>) (blk_below b bs @ (b, n) # blk_above b bs)"
    using stamp_rep [OF _ s1(2) assms(2) pos(1) h(2)] rep by (simp add: blk_below_above)
  with s1(1) h(1) assms(2) show ?thesis
    by (auto simp: default_init_memmap_def stamp_block_def Let_def)
qed

section \<open>Freeing above every free block\<close>



section \<open>Properties\<close>

text \<open>A small machine for the witnesses: eight pages, all of them in one free block.\<close>

definition sample_area :: free_area where
  "sample_area = the (default_init_memmap 0 8 (default_init reserved_area))"

lemma reserved_area_pages: "PageReserved (pages (default_init reserved_area) q)"
  by (simp add: default_init_def reserved_area_def PageReserved_def atomic_test_bit_iff
      PG_reserved_def)

lemma sample_area_frep: "frep sample_area [(0, 8)]"
  using default_init_memmap_refines [OF default_init_frep, of 8 0 reserved_area]
    reserved_area_pages
  by (auto simp: sample_area_def blk_below_def blk_above_def)

lemma sample_area_clean: "q < 8 \<Longrightarrow> \<not> PageReserved (pages sample_area q)"
  using sample_area_frep by (auto simp: frep_def pages_rep_def blk_pages_def)

interpretation first_fit: page_manager default_alloc_pages frep pool_pages "\<lambda>n. n"
proof unfold_locales
  fix s bs n
  assume rep: "frep s bs" and n: "0 < (n::nat)"
  show "default_alloc_pages n s = Some (None, s) \<or>
      (\<exists>p s' b'. default_alloc_pages n s = Some (Some p, s') \<and> frep s' b' \<and>
         pool_pages bs = {p ..< p + n} \<union> pool_pages b' \<and> {p ..< p + n} \<inter> pool_pages b' = {})"
  proof (cases "ff_take n bs")
    case None
    with default_alloc_refines [OF rep n] show ?thesis by simp
  next
    case (Some r)
    obtain p bs' where r: "r = (p, bs')" by fastforce
    with Some ff_take_split obtain xs k ys where bs: "bs = xs @ (p, k) # ys" and k: "n \<le> k"
      and bs': "bs' = xs @ (if n < k then (p + n, k - n) # ys else ys)" by blast
    have ok: "blks_ok (xs @ (p, k) # ys)" using frep_ok [OF rep] by (simp add: bs)
    from default_alloc_refines [OF rep n] Some r
    have "default_alloc_pages n s = Some (Some p, carve_block p n s)"
      and "frep (carve_block p n s) bs'" by simp_all
    with carve_pages(1,2) [OF ok n k] show ?thesis unfolding bs bs' by blast
  qed
qed

text \<open>
  (C23) First fit. In a free area in good shape, \<open>default_alloc_pages\<close> takes the first block of the
  list, in address order, that has at least \<open>n\<close> pages, hands out its low pages and leaves the rest
  in the list in its place; it returns NULL, changing nothing, when no block is large enough. The
  pages handed out carry neither the reserved nor the property flag.
\<close>

theorem default_alloc_first_fit:
  assumes "frep s bs" and "0 < n"
  shows "case ff_take n bs of
      None \<Rightarrow> default_alloc_pages n s = Some (None, s)
    | Some (p, bs') \<Rightarrow> \<exists>s'. default_alloc_pages n s = Some (Some p, s') \<and> frep s' bs' \<and>
        (\<forall>q \<in> {p ..< p + n}. \<not> PageReserved (pages s' q) \<and> \<not> PageProperty (pages s' q))"
proof (cases "ff_take n bs")
  case None
  with default_alloc_refines [OF assms] show ?thesis by simp
next
  case (Some r)
  obtain p bs' where r: "r = (p, bs')" by fastforce
  with Some ff_take_split obtain xs k ys where "bs = xs @ (p, k) # ys" "n \<le> k" by blast
  with carve_granted_clean [of s xs p k ys n] default_alloc_refines [OF assms] Some r assms
  show ?thesis by auto
qed

theorem default_alloc_first_fit_witness:
  "\<exists>s'. default_alloc_pages 3 sample_area = Some (Some 0, s') \<and> frep s' [(3, 5)]"
  using default_alloc_first_fit [OF sample_area_frep, of 3] by auto

text \<open>
  (C24) Freeing. When the area is empty or some free block lies above the freed one,
  \<open>default_free_pages\<close> puts the block back in address order and merges it with the free block
  before it and the free block behind it where they touch; the count of free pages grows by \<open>n\<close>.
\<close>

theorem default_free_coalesces:
  assumes "frep s bs" and "0 < n" and "{b ..< b + n} \<inter> pool_pages bs = {}"
    and "\<forall>q \<in> {b ..< b + n}. \<not> PageReserved (pages s q) \<and> \<not> PageProperty (pages s q)"
    and "bs = [] \<or> (\<exists>c \<in> set bs. b < fst c)"
  shows "\<exists>s'. default_free_pages b n s = Some s' \<and> frep s' (blk_put b n bs) \<and>
    pool_pages (blk_put b n bs) = {b ..< b + n} \<union> pool_pages bs \<and> nr_free s' = nr_free s + n"
proof -
  from default_free_refines [OF assms(1-3) _ assms(5)] assms(4)
  obtain s' where "default_free_pages b n s = Some s'" "frep s' (blk_put b n bs)" by blast
  then show ?thesis
    using frep_nr_free [OF assms(1)] by (auto simp: blk_put_pages frep_nr_free blk_put_size)
qed

theorem default_free_coalesces_witness:
  "\<exists>s s'. default_alloc_pages 3 sample_area = Some (Some 0, s) \<and>
     default_free_pages 0 3 s = Some s' \<and> frep s' [(0, 8)]"
proof -
  from default_alloc_refines [OF sample_area_frep, of 3] obtain s
    where s: "default_alloc_pages 3 sample_area = Some (Some 0, s)" "frep s [(3, 5)]" by auto
  have "\<forall>q \<in> {0 ..< 3}. \<not> PageReserved (pages s q) \<and> \<not> PageProperty (pages s q)"
    using carve_granted_clean [of sample_area "[]" 0 8 "[]" 3] sample_area_frep s(1)
      default_alloc_refines [OF sample_area_frep, of 3] by auto
  with default_free_coalesces [OF s(2), of 3 0] s(1) show ?thesis
    by (auto simp: blk_pages_def)
qed

text \<open>
  A block that starts with the head of a free block cannot be freed: the assertion on the
  flags of the freed pages stops the second free of a block whose head is still in the list.
\<close>

theorem default_free_double_free_panics:
  assumes "frep s bs" and "(c, k) \<in> set bs" and "c \<in> {b ..< b + n}"
  shows "default_free_pages b n s = None"
proof -
  have "PageProperty (pages s c)" using assms(1,2) by (force simp: frep_def pages_rep_def)
  with assms(3) have "reset_used b n s = None" by (intro reset_used_None) auto
  with assms(3) show ?thesis by (simp add: default_free_pages_def)
qed

theorem default_free_double_free_panics_witness:
  "default_free_pages 0 2 sample_area = None"
  by (rule default_free_double_free_panics [OF sample_area_frep]) auto

text \<open>
  No two live allocations overlap: whatever requests are made, the blocks \<open>default_alloc_pages\<close>
  hands out are pairwise disjoint and come out of the free pages.
\<close>

theorem default_allocs_disjoint:
  assumes "frep s bs" and "\<forall>n \<in> set ns. 0 < n"
    and "alloc_all default_alloc_pages ns s = Some (out, s')"
  shows "(\<forall>(p, n) \<in> set out. {p ..< p + n} \<subseteq> pool_pages bs) \<and>
    (\<forall>i < length out. \<forall>j < length out. i \<noteq> j \<longrightarrow>
       {fst (out ! i) ..< fst (out ! i) + snd (out ! i)} \<inter>
       {fst (out ! j) ..< fst (out ! j) + snd (out ! j)} = {})"
  using first_fit.alloc_all_ok [OF assms] by fast

theorem default_allocs_disjoint_witness:
  "\<exists>s'. alloc_all default_alloc_pages [3, 4] sample_area = Some ([(0, 3), (3, 4)], s') \<and>
     {0 ..< 0 + 3} \<inter> {3 ..< 3 + 4 :: nat} = {}"
proof -
  from default_alloc_refines [OF sample_area_frep, of 3] obtain s
    where s: "default_alloc_pages 3 sample_area = Some (Some 0, s)" "frep s [(3, 5)]" by auto
  from default_alloc_refines [OF s(2), of 4] obtain s'
    where s': "default_alloc_pages 4 s = Some (Some 3, s')" by auto
  have run: "alloc_all default_alloc_pages [3, 4] sample_area = Some ([(0, 3), (3, 4)], s')"
    using s(1) s' by simp
  from default_allocs_disjoint [OF sample_area_frep _ run] run show ?thesis by auto
qed





end
