(* ===== verification/BestFit.thy ===== *)
theory BestFit
  imports FirstFit
begin

text \<open>
  The best-fit page allocator of \<open>lab2/kern/mm/best_fit_pmm.c\<close>. It keeps the list of
  \<open>FirstFit\<close> and shares the text of its insertion, carving and merging code; what differs is the
  search, which walks the whole list and remembers the smallest block that is large enough.
\<close>

section \<open>The code\<close>

definition best_fit_init :: "free_area \<Rightarrow> free_area" where
  "best_fit_init s = (upd_links (list_init FreeHead) s)\<lparr>nr_free := 0\<rparr>"

text \<open>Unlike the first-fit allocator, this one leaves the \<open>property\<close> fields as they are.\<close>

fun bf_reset_reserved :: "nat \<Rightarrow> nat \<Rightarrow> free_area \<Rightarrow> free_area option" where
  "bf_reset_reserved p 0 s = Some s"
| "bf_reset_reserved p (Suc k) s =
     do { kassert (PageReserved (pages s p));
          bf_reset_reserved (Suc p) k (upd_page p (\<lambda>g. set_page_ref 0 (g\<lparr>flags := 0\<rparr>)) s) }"

definition best_fit_init_memmap :: "nat \<Rightarrow> nat \<Rightarrow> free_area \<Rightarrow> free_area option" where
  "best_fit_init_memmap base n s =
     do { kassert (0 < n);
          s1 \<leftarrow> bf_reset_reserved base n s;
          let s2 = upd_page base (\<lambda>g. SetPageProperty (g\<lparr>property := n\<rparr>)) s1;
          insert_block base (s2\<lparr>nr_free := nr_free s2 + n\<rparr>) }"

text \<open>The search: \<open>page\<close> is the best block so far, of size \<open>min_size\<close>.\<close>

partial_function (option) bf_find ::
  "flink \<Rightarrow> nat option \<Rightarrow> nat \<Rightarrow> nat \<Rightarrow> free_area \<Rightarrow> nat option option"
where
  "bf_find le page min_size n s =
     (let le' = list_next (links s) le in
      if le' = FreeHead then Some page
      else let p = le2page le' in
        if n \<le> property (pages s p) \<and> property (pages s p) < min_size
        then bf_find le' (Some p) (property (pages s p)) n s
        else bf_find le' page min_size n s)"

definition best_fit_alloc_pages :: "nat \<Rightarrow> free_area \<Rightarrow> (nat option \<times> free_area) option" where
  "best_fit_alloc_pages n s =
     do { kassert (0 < n);
          if nr_free s < n then Some (None, s)
          else do { page \<leftarrow> bf_find FreeHead None (nr_free s + 1) n s;
                    case page of
                      None \<Rightarrow> Some (None, s)
                    | Some p \<Rightarrow> Some (Some p, carve_block p n s) } }"

definition best_fit_free_pages :: "nat \<Rightarrow> nat \<Rightarrow> free_area \<Rightarrow> free_area option" where
  "best_fit_free_pages base n s =
     do { kassert (0 < n);
          s1 \<leftarrow> reset_used base n s;
          let s2 = upd_page base (\<lambda>g. SetPageProperty (g\<lparr>property := n\<rparr>)) s1;
          s3 \<leftarrow> insert_block base (s2\<lparr>nr_free := nr_free s2 + n\<rparr>);
          let (b, s4) = merge_prev base s3;
          Some (merge_next b s4) }"

definition best_fit_nr_free_pages :: "free_area \<Rightarrow> nat" where
  "best_fit_nr_free_pages s = nr_free s"

section \<open>The search\<close>

text \<open>The search over the blocks the list holds.\<close>

fun bf_pick :: "nat option \<Rightarrow> nat \<Rightarrow> nat \<Rightarrow> blocks \<Rightarrow> nat option" where
  "bf_pick page m n [] = page"
| "bf_pick page m n ((b, k) # bs) =
     (if n \<le> k \<and> k < m then bf_pick (Some b) k n bs else bf_pick page m n bs)"

lemma bf_find_fpath:
  assumes "fpath (links s) a (blk_nodes bs) FreeHead"
    and "\<forall>b \<in> set bs. property (pages s (fst b)) = snd b"
  shows "bf_find a page m n s = Some (bf_pick page m n bs)"
  using assms
proof (induction bs arbitrary: a page m)
  case Nil
  then show ?case by (subst bf_find.simps) simp
next
  case (Cons b bs)
  then have "bf_find (PageLink (fst b)) page' m' n s = Some (bf_pick page' m' n bs)" for page' m'
    by simp
  with Cons.prems show ?case
    by (subst bf_find.simps) (cases b, simp add: Let_def)
qed

text \<open>Either nothing smaller fits, or the result is the first block of least sufficient size.\<close>

lemma bf_pick_cases:
  "(bf_pick page m n bs = page \<and> (\<forall>b \<in> set bs. n \<le> snd b \<longrightarrow> m \<le> snd b)) \<or>
   (\<exists>xs p k ys. bs = xs @ (p, k) # ys \<and> bf_pick page m n bs = Some p \<and> n \<le> k \<and> k < m \<and>
      (\<forall>b \<in> set xs. n \<le> snd b \<longrightarrow> k < snd b) \<and> (\<forall>b \<in> set ys. n \<le> snd b \<longrightarrow> k \<le> snd b))"
proof (induction page m n bs rule: bf_pick.induct)
  case (1 page m n)
  then show ?case by simp
next
  case (2 page m n b k bs)
  show ?case
  proof (cases "n \<le> k \<and> k < m")
    case True
    from 2(1) [OF True] show ?thesis
    proof (elim disjE exE conjE)
      assume "bf_pick (Some b) k n bs = Some b" "\<forall>c \<in> set bs. n \<le> snd c \<longrightarrow> k \<le> snd c"
      with True show ?thesis
        by (intro disjI2 exI [of _ "[]"] exI [of _ b] exI [of _ k] exI [of _ bs]) simp
    next
      fix xs p j ys
      assume "bs = xs @ (p, j) # ys" "bf_pick (Some b) k n bs = Some p" "n \<le> j" "j < k"
        "\<forall>c \<in> set xs. n \<le> snd c \<longrightarrow> j < snd c" "\<forall>c \<in> set ys. n \<le> snd c \<longrightarrow> j \<le> snd c"
      with True show ?thesis
        by (intro disjI2 exI [of _ "(b, k) # xs"] exI [of _ p] exI [of _ j] exI [of _ ys]) simp
    qed
  next
    case False
    from 2(2) [OF False] show ?thesis
    proof (elim disjE exE conjE)
      assume "bf_pick page m n bs = page" "\<forall>c \<in> set bs. n \<le> snd c \<longrightarrow> m \<le> snd c"
      with False show ?thesis by (intro disjI1) auto
    next
      fix xs p j ys
      assume "bs = xs @ (p, j) # ys" "bf_pick page m n bs = Some p" "n \<le> j" "j < m"
        "\<forall>c \<in> set xs. n \<le> snd c \<longrightarrow> j < snd c" "\<forall>c \<in> set ys. n \<le> snd c \<longrightarrow> j \<le> snd c"
      with False show ?thesis
        by (intro disjI2 exI [of _ "(b, k) # xs"] exI [of _ p] exI [of _ j] exI [of _ ys]) auto
    qed
  qed
qed

lemma best_fit_alloc_refines:
  assumes rep: "frep s bs" and n: "0 < n"
  shows "(best_fit_alloc_pages n s = Some (None, s) \<and> (\<forall>b \<in> set bs. snd b < n)) \<or>
    (\<exists>xs p k ys. bs = xs @ (p, k) # ys \<and> n \<le> k \<and>
       best_fit_alloc_pages n s = Some (Some p, carve_block p n s) \<and>
       (\<forall>b \<in> set xs. n \<le> snd b \<longrightarrow> k < snd b) \<and> (\<forall>b \<in> set ys. n \<le> snd b \<longrightarrow> k \<le> snd b))"
proof -
  have small: "snd b < nr_free s + 1" if "b \<in> set bs" for b
    using pool_size_ge [OF that] frep_nr_free [OF rep] by simp
  have walk: "bf_find FreeHead None (nr_free s + 1) n s =
      Some (bf_pick None (nr_free s + 1) n bs)"
    by (rule bf_find_fpath) (use rep in \<open>auto simp: frep_def pages_rep_def dlist_fpath\<close>)
  from bf_pick_cases [of None "nr_free s + 1" n bs] show ?thesis
  proof (elim disjE exE conjE)
    assume "bf_pick None (nr_free s + 1) n bs = None"
      and none: "\<forall>b \<in> set bs. n \<le> snd b \<longrightarrow> nr_free s + 1 \<le> snd b"
    moreover have "\<forall>b \<in> set bs. snd b < n" using none small by fastforce
    ultimately show ?thesis using walk n by (simp add: best_fit_alloc_pages_def)
  next
    fix xs p k ys
    assume bs: "bs = xs @ (p, k) # ys" and pick: "bf_pick None (nr_free s + 1) n bs = Some p"
      and k: "n \<le> k" and least: "\<forall>b \<in> set xs. n \<le> snd b \<longrightarrow> k < snd b"
        "\<forall>b \<in> set ys. n \<le> snd b \<longrightarrow> k \<le> snd b"
    have "n \<le> nr_free s" using small [of "(p, k)"] k by (simp add: bs)
    with walk pick n have "best_fit_alloc_pages n s = Some (Some p, carve_block p n s)"
      by (simp add: best_fit_alloc_pages_def)
    with bs k least show ?thesis by blast
  qed
qed

section \<open>Properties\<close>

interpretation best_fit: page_manager best_fit_alloc_pages frep pool_pages "\<lambda>n. n"
proof unfold_locales
  fix s bs n
  assume rep: "frep s bs" and n: "0 < (n::nat)"
  from best_fit_alloc_refines [OF rep n] show "best_fit_alloc_pages n s = Some (None, s) \<or>
      (\<exists>p s' b'. best_fit_alloc_pages n s = Some (Some p, s') \<and> frep s' b' \<and>
         pool_pages bs = {p ..< p + n} \<union> pool_pages b' \<and> {p ..< p + n} \<inter> pool_pages b' = {})"
  proof (elim disjE exE conjE)
    fix xs p k ys
    assume bs: "bs = xs @ (p, k) # ys" and k: "n \<le> k"
      and run: "best_fit_alloc_pages n s = Some (Some p, carve_block p n s)"
    have ok: "blks_ok (xs @ (p, k) # ys)" using frep_ok [OF rep] by (simp add: bs)
    from carve_refines [of s xs p k ys n] rep n k bs carve_pages(1,2) [OF ok n k] run
    show ?thesis by blast
  qed blast
qed

text \<open>
  Best fit. \<open>best_fit_alloc_pages\<close> takes its pages from the first of the smallest blocks that
  have at least \<open>n\<close> pages; the pool it leaves is well represented, holds exactly the other pages,
  and NULL is returned only when every free block is too small.
\<close>

theorem best_fit_alloc_least:
  assumes "frep s bs" and "0 < n"
  shows "(best_fit_alloc_pages n s = Some (None, s) \<and> (\<forall>b \<in> set bs. snd b < n)) \<or>
    (\<exists>p k s'. best_fit_alloc_pages n s = Some (Some p, s') \<and> (p, k) \<in> set bs \<and> n \<le> k \<and>
       (\<forall>(q, j) \<in> set bs. n \<le> j \<longrightarrow> k < j \<or> k = j \<and> p \<le> q) \<and> frep s' (take_from p n bs) \<and>
       pool_pages (take_from p n bs) = pool_pages bs - {p ..< p + n})"
  using best_fit_alloc_refines [OF assms]
proof (elim disjE exE conjE)
  fix xs p k ys
  assume bs: "bs = xs @ (p, k) # ys" and k: "n \<le> k"
    and run: "best_fit_alloc_pages n s = Some (Some p, carve_block p n s)"
    and least: "\<forall>b \<in> set xs. n \<le> snd b \<longrightarrow> k < snd b" "\<forall>b \<in> set ys. n \<le> snd b \<longrightarrow> k \<le> snd b"
  have ok: "blks_ok (xs @ (p, k) # ys)" using frep_ok [OF assms(1)] by (simp add: bs)
  have tf: "take_from p n bs = xs @ (if n < k then (p + n, k - n) # ys else ys)"
    using take_from_split blks_ok_distinct [OF ok] by (simp add: bs)
  have "pool_pages (take_from p n bs) = pool_pages bs - {p ..< p + n}"
    using disjoint_union_minus [OF carve_pages(1,2) [OF ok assms(2) k]] unfolding tf by (simp only: bs)
  moreover have "k < j \<or> k = j \<and> p \<le> q" if "(q, j) \<in> set bs" "n \<le> j" for q j
  proof -
    have "(q, j) \<in> set xs \<or> (q, j) = (p, k) \<or> (q, j) \<in> set ys" using that(1) by (auto simp: bs)
    moreover have "p \<le> q" if "(q, j) \<in> set ys" using ok that by (force simp: blks_ok_append)
    ultimately show ?thesis using least that(2) by fastforce
  qed
  moreover have "frep (carve_block p n s) (take_from p n bs)"
    unfolding tf by (rule carve_refines) (use assms k bs in auto)
  moreover have "(p, k) \<in> set bs" by (simp add: bs)
  ultimately show ?thesis using run k by blast
qed simp

theorem best_fit_alloc_least_witness:
  "\<exists>s'. best_fit_alloc_pages 3 sample_area = Some (Some 0, s') \<and> frep s' [(3, 5)]"
  using best_fit_alloc_least [OF sample_area_frep, of 3] by auto

text \<open>
  Best fit hands out pairwise disjoint blocks, all of them from the free pages.
\<close>

theorem best_fit_allocs_disjoint:
  assumes "frep s bs" and "\<forall>n \<in> set ns. 0 < n"
    and "alloc_all best_fit_alloc_pages ns s = Some (out, s')"
  shows "(\<forall>(p, n) \<in> set out. {p ..< p + n} \<subseteq> pool_pages bs) \<and>
    (\<forall>i < length out. \<forall>j < length out. i \<noteq> j \<longrightarrow>
       {fst (out ! i) ..< fst (out ! i) + snd (out ! i)} \<inter>
       {fst (out ! j) ..< fst (out ! j) + snd (out ! j)} = {})"
  using best_fit.alloc_all_ok [OF assms] by fast

theorem best_fit_allocs_disjoint_witness:
  "\<exists>s'. alloc_all best_fit_alloc_pages [3] sample_area = Some ([(0, 3)], s') \<and>
     {0 ..< 0 + 3} \<subseteq> pool_pages [(0, 8)]"
proof -
  from best_fit_alloc_refines [OF sample_area_frep, of 3]
  have "best_fit_alloc_pages 3 sample_area = Some (Some 0, carve_block 0 3 sample_area)"
    by (auto simp: Cons_eq_append_conv)
  then have run: "alloc_all best_fit_alloc_pages [3] sample_area =
      Some ([(0, 3)], carve_block 0 3 sample_area)" by simp
  from best_fit_allocs_disjoint [OF sample_area_frep _ run] run show ?thesis by auto
qed

end
