(* ===== verification/SkewHeap.thy ===== *)
theory SkewHeap
  imports Prelude "HOL-Library.Tree" "HOL-Library.Multiset"
begin

text \<open>
  The intrusive skew heap of \<open>lab8/libs/skew_heap.h\<close>, on a store of nodes: the address of an entry is
  a natural number, NULL is \<open>None\<close>, and the store gives for each address its three pointers. The
  recursion of \<open>skew_heap_merge\<close> follows pointers and need not end on a malformed store, so it is a
  \<open>partial_function\<close> into option; the refinement lemma shows that on a well-formed store it returns,
  with the store of the tree-level merge.
\<close>

section \<open>The code\<close>

record skew_node =
  sk_parent :: "nat option"
  sk_left :: "nat option"
  sk_right :: "nat option"

type_synonym skew_store = "nat \<Rightarrow> skew_node"

definition skew_heap_init :: "nat \<Rightarrow> skew_store \<Rightarrow> skew_store" where
  "skew_heap_init a s = s(a := \<lparr>sk_parent = None, sk_left = None, sk_right = None\<rparr>)"

definition set_parent :: "nat option \<Rightarrow> nat option \<Rightarrow> skew_store \<Rightarrow> skew_store" where
  "set_parent l p s = (case l of None \<Rightarrow> s | Some z \<Rightarrow> s(z := (s z)\<lparr>sk_parent := p\<rparr>))"

partial_function (option) skew_heap_merge ::
  "(nat \<Rightarrow> nat \<Rightarrow> int) \<Rightarrow> nat option \<Rightarrow> nat option \<Rightarrow> skew_store \<Rightarrow> (nat option \<times> skew_store) option"
where
  "skew_heap_merge cmp a b s =
     (case a of None \<Rightarrow> Some (b, s) | Some x \<Rightarrow>
       (case b of None \<Rightarrow> Some (a, s) | Some y \<Rightarrow>
         if cmp x y = -1
         then do { let r = sk_left (s x);
                   (l, s1) \<leftarrow> skew_heap_merge cmp (sk_right (s x)) b s;
                   let s2 = s1(x := (s1 x)\<lparr>sk_left := l, sk_right := r\<rparr>);
                   Some (Some x, set_parent l (Some x) s2) }
         else do { let r = sk_left (s y);
                   (l, s1) \<leftarrow> skew_heap_merge cmp a (sk_right (s y)) s;
                   let s2 = s1(y := (s1 y)\<lparr>sk_left := l, sk_right := r\<rparr>);
                   Some (Some y, set_parent l (Some y) s2) }))"

definition skew_heap_insert ::
  "(nat \<Rightarrow> nat \<Rightarrow> int) \<Rightarrow> nat option \<Rightarrow> nat \<Rightarrow> skew_store \<Rightarrow> (nat option \<times> skew_store) option"
where
  "skew_heap_insert cmp a b s = skew_heap_merge cmp a (Some b) (skew_heap_init b s)"

definition skew_heap_remove ::
  "(nat \<Rightarrow> nat \<Rightarrow> int) \<Rightarrow> nat option \<Rightarrow> nat \<Rightarrow> skew_store \<Rightarrow> (nat option \<times> skew_store) option"
where
  "skew_heap_remove cmp a b s =
     do { let p = sk_parent (s b);
          (rep, s1) \<leftarrow> skew_heap_merge cmp (sk_left (s b)) (sk_right (s b)) s;
          let s2 = set_parent rep p s1;
          case p of
            Some q \<Rightarrow>
              Some (a, if sk_left (s2 q) = Some b then s2(q := (s2 q)\<lparr>sk_left := rep\<rparr>)
                       else s2(q := (s2 q)\<lparr>sk_right := rep\<rparr>))
          | None \<Rightarrow> Some (rep, s2) }"

section \<open>The trees they stand for\<close>

fun sk_merge :: "(nat \<Rightarrow> nat \<Rightarrow> int) \<Rightarrow> nat tree \<Rightarrow> nat tree \<Rightarrow> nat tree" where
  "sk_merge cmp Leaf b = b"
| "sk_merge cmp (Node l x r) Leaf = Node l x r"
| "sk_merge cmp (Node l1 x r1) (Node l2 y r2) =
     (if cmp x y = -1 then Node (sk_merge cmp r1 (Node l2 y r2)) x l1
      else Node (sk_merge cmp (Node l1 x r1) r2) y l2)"

primrec sk_remove :: "(nat \<Rightarrow> nat \<Rightarrow> int) \<Rightarrow> nat \<Rightarrow> nat tree \<Rightarrow> nat tree" where
  "sk_remove cmp b Leaf = Leaf"
| "sk_remove cmp b (Node l x r) =
     (if x = b then sk_merge cmp l r else Node (sk_remove cmp b l) x (sk_remove cmp b r))"

definition par_ok :: "skew_store \<Rightarrow> nat \<Rightarrow> nat option \<Rightarrow> bool" where
  "par_ok s x c \<longleftrightarrow> (case c of None \<Rightarrow> True | Some z \<Rightarrow> sk_parent (s z) = Some x)"

primrec sk_rep :: "skew_store \<Rightarrow> nat option \<Rightarrow> nat tree \<Rightarrow> bool" where
  "sk_rep s a Leaf \<longleftrightarrow> a = None"
| "sk_rep s a (Node l x r) \<longleftrightarrow> a = Some x \<and> sk_rep s (sk_left (s x)) l \<and> sk_rep s (sk_right (s x)) r \<and>
     par_ok s x (sk_left (s x)) \<and> par_ok s x (sk_right (s x))"

abbreviation sk_distinct :: "nat tree \<Rightarrow> bool" where
  "sk_distinct t \<equiv> distinct (inorder t)"

lemma mset_merge: "mset (inorder (sk_merge cmp t1 t2)) = mset (inorder t1) + mset (inorder t2)"
  by (induction cmp t1 t2 rule: sk_merge.induct) simp_all

lemma set_merge [simp]: "set_tree (sk_merge cmp t1 t2) = set_tree t1 \<union> set_tree t2"
  using mset_merge [of cmp t1 t2] by (metis set_inorder set_mset_mset set_mset_union)

lemma distinct_merge:
  "sk_distinct (sk_merge cmp t1 t2) \<longleftrightarrow>
     sk_distinct t1 \<and> sk_distinct t2 \<and> set_tree t1 \<inter> set_tree t2 = {}"
  using mset_eq_imp_distinct_iff [of "inorder (sk_merge cmp t1 t2)" "inorder t1 @ inorder t2"]
  by (simp add: mset_merge)

lemma size_merge: "size (sk_merge cmp t1 t2) = size t1 + size t2"
  using mset_merge [of cmp t1 t2] by (metis length_inorder mset_append size_mset length_append)

lemma remove_notin: "b \<notin> set_tree t \<Longrightarrow> sk_remove cmp b t = t"
  by (induction t) auto

lemma set_remove: "sk_distinct t \<Longrightarrow> set_tree (sk_remove cmp b t) = set_tree t - {b}"
  by (induction t) auto

lemma distinct_remove: "sk_distinct t \<Longrightarrow> sk_distinct (sk_remove cmp b t)"
  by (induction t) (auto simp: distinct_merge set_remove)

text \<open>The representation depends only on the nodes of the tree, and not on the parent of its root.\<close>

lemma sk_rep_root: "sk_rep s a t \<Longrightarrow> a = Some x \<Longrightarrow> x \<in> set_tree t"
  by (cases t) auto

lemma sk_rep_root_None: "sk_rep s None t \<longleftrightarrow> t = Leaf"
  by (cases t) auto

lemma sk_rep_unique: "sk_rep s a t \<Longrightarrow> sk_rep s a t' \<Longrightarrow> t = t'"
proof (induction t arbitrary: a t')
  case (Node l x r)
  then show ?case by (cases t') auto
qed (use sk_rep_root_None in auto)

lemma par_ok_frame:
  "par_ok s x c \<Longrightarrow> (\<And>z. c = Some z \<Longrightarrow> sk_parent (s' z) = sk_parent (s z)) \<Longrightarrow> par_ok s' x c"
  by (simp add: par_ok_def split: option.splits)

lemma sk_rep_frame:
  assumes "sk_rep s a t" and "sk_distinct t"
    and "\<And>x. x \<in> set_tree t \<Longrightarrow> sk_left (s' x) = sk_left (s x) \<and> sk_right (s' x) = sk_right (s x)"
    and "\<And>x. x \<in> set_tree t \<Longrightarrow> a \<noteq> Some x \<Longrightarrow> sk_parent (s' x) = sk_parent (s x)"
  shows "sk_rep s' a t"
  using assms
proof (induction t arbitrary: a)
  case (Node l x r)
  have lr: "sk_left (s' x) = sk_left (s x)" "sk_right (s' x) = sk_right (s x)" "a = Some x"
    using Node.prems(1,3) by auto
  have notin: "x \<notin> set_tree l" "x \<notin> set_tree r" using Node.prems(2) by auto
  have "sk_rep s' (sk_left (s x)) l" "sk_rep s' (sk_right (s x)) r"
    using Node notin by auto
  moreover have "par_ok s' x c" if "par_ok s x c" "sk_rep s c t" "t = l \<or> t = r" for c t
  proof (rule par_ok_frame [OF that(1)])
    fix z assume "c = Some z"
    then have "z \<in> set_tree l \<union> set_tree r" "z \<noteq> x" using sk_rep_root [OF that(2)] that(3) notin by auto
    then show "sk_parent (s' z) = sk_parent (s z)" using Node.prems(4) [of z] lr(3) by auto
  qed
  ultimately show ?case using Node.prems(1) lr by auto
qed simp

lemma sk_rep_keep:
  assumes "sk_rep s c t" and "par_ok s x c" and "sk_distinct t" and "\<And>z. z \<in> set_tree t \<Longrightarrow> s' z = s z"
  shows "sk_rep s' c t" and "par_ok s' x c"
proof -
  show "sk_rep s' c t" by (rule sk_rep_frame [OF assms(1,3)]) (simp_all add: assms(4))
  show "par_ok s' x c" by (rule par_ok_frame [OF assms(2)]) (simp add: assms(4) sk_rep_root [OF assms(1)])
qed

section \<open>Refinement\<close>

lemma set_parent_simps [simp]:
  "sk_left (set_parent l p s z) = sk_left (s z)" "sk_right (set_parent l p s z) = sk_right (s z)"
  "sk_parent (set_parent l p s z) = (if l = Some z then p else sk_parent (s z))"
  "l \<noteq> Some z \<Longrightarrow> set_parent l p s z = s z"
  by (auto simp: set_parent_def split: option.splits)

lemma par_ok_set_parent: "par_ok (set_parent l (Some x) s) x l"
  by (simp add: par_ok_def split: option.splits)

text \<open>The step both branches of the merge share: node \<open>x\<close> keeps its left tree on the right.\<close>

lemma merge_node:
  assumes rep: "sk_rep s1 c t" "sk_rep s1 d l1" and d: "sk_distinct (Node t x l1)"
    and par: "par_ok s1 x d"
  shows "sk_rep (set_parent c (Some x) (s1(x := (s1 x)\<lparr>sk_left := c, sk_right := d\<rparr>))) (Some x)
    (Node t x l1)"
proof -
  let ?s = "set_parent c (Some x) (s1(x := (s1 x)\<lparr>sk_left := c, sk_right := d\<rparr>))"
  have notin: "x \<notin> set_tree t" "x \<notin> set_tree l1" using d by auto
  have c: "z \<in> set_tree t" if "c = Some z" for z using sk_rep_root [OF rep(1) that] .
  have e: "z \<in> set_tree l1" if "d = Some z" for z using sk_rep_root [OF rep(2) that] .
  have "sk_rep ?s c t" by (rule sk_rep_frame [OF rep(1)]) (use d notin in auto)
  moreover have "sk_rep ?s d l1" by (rule sk_rep_frame [OF rep(2)]) (use d notin c in auto)
  moreover have "par_ok ?s x d" using par e notin c d
    by (auto simp: par_ok_def split: option.splits)
  ultimately show ?thesis by (simp add: par_ok_set_parent)
qed

lemma skew_heap_merge_rep:
  assumes "sk_rep s a t1" and "sk_rep s b t2" and "sk_distinct t1" and "sk_distinct t2"
    and "set_tree t1 \<inter> set_tree t2 = {}"
  shows "\<exists>c s'. skew_heap_merge cmp a b s = Some (c, s') \<and> sk_rep s' c (sk_merge cmp t1 t2) \<and>
    (\<forall>z. z \<notin> set_tree t1 \<union> set_tree t2 \<longrightarrow> s' z = s z) \<and>
    (\<forall>z. c = Some z \<longrightarrow> sk_parent (s' z) = sk_parent (s z))"
  using assms
proof (induction cmp t1 t2 arbitrary: a b rule: sk_merge.induct)
  case (1 cmp t2)
  then show ?case by (subst skew_heap_merge.simps) auto
next
  case (2 cmp l x r)
  then show ?case by (subst skew_heap_merge.simps) auto
next
  case (3 cmp l1 x r1 l2 y r2)
  note p = 3(3-7)
  have ab: "a = Some x" "b = Some y" using p(1,2) by auto
  show ?case
  proof (cases "cmp x y = -1")
    case True
    have sub: "sk_rep s (sk_right (s x)) r1" "sk_rep s (sk_left (s x)) l1"
      "par_ok s x (sk_left (s x))" using p(1) by auto
    have "sk_distinct r1" "set_tree r1 \<inter> set_tree (Node l2 y r2) = {}" using p by auto
    from 3(1) [OF True sub(1) p(2) this(1) p(4) this(2)] obtain c s1 where
      c: "skew_heap_merge cmp (sk_right (s x)) b s = Some (c, s1)"
        "sk_rep s1 c (sk_merge cmp r1 (Node l2 y r2))"
        "\<forall>z. z \<notin> set_tree r1 \<union> set_tree (Node l2 y r2) \<longrightarrow> s1 z = s z" by blast
    let ?d = "sk_left (s x)"
    let ?s = "set_parent c (Some x) (s1(x := (s1 x)\<lparr>sk_left := c, sk_right := ?d\<rparr>))"
    have run: "skew_heap_merge cmp a b s = Some (Some x, ?s)"
      by (subst skew_heap_merge.simps) (simp add: ab(1) ab(2) True c(1) [unfolded ab(2)])
    have same: "s1 z = s z" if "z \<in> set_tree l1 \<or> z = x" for z
      using that c(3) p by auto
    have l1: "sk_rep s1 ?d l1" by (rule sk_rep_frame [OF sub(2)]) (use p same in auto)
    have pr: "par_ok s1 x ?d" using sub same sk_rep_root [OF sub(2)]
      by (auto simp: par_ok_def split: option.splits)
    have "sk_distinct (Node (sk_merge cmp r1 (Node l2 y r2)) x l1)"
      using p by (auto simp: distinct_merge)
    from merge_node [OF c(2) l1 this pr] have "sk_rep ?s (Some x) (sk_merge cmp (Node l1 x r1) (Node l2 y r2))"
      using True by simp
    moreover have cz: "z \<in> set_tree r1 \<union> set_tree (Node l2 y r2)" if "c = Some z" for z
      using sk_rep_root [OF c(2) that] by simp
    moreover have "c \<noteq> Some x" using cz [of x] p(3-5) by auto
    then have "sk_parent (?s x) = sk_parent (s x)" using same [of x] by simp
    moreover have "?s z = s z" if "z \<notin> set_tree (Node l1 x r1) \<union> set_tree (Node l2 y r2)" for z
    proof -
      have "c \<noteq> Some z" using cz [of z] that by auto
      then show ?thesis using that c(3) by simp
    qed
    ultimately show ?thesis unfolding run by auto
  next
    case False
    have sub: "sk_rep s (sk_right (s y)) r2" "sk_rep s (sk_left (s y)) l2"
      "par_ok s y (sk_left (s y))" using p(2) by auto
    have "sk_distinct r2" "set_tree (Node l1 x r1) \<inter> set_tree r2 = {}" using p by auto
    from 3(2) [OF False p(1) sub(1) p(3) this] obtain c s1 where
      c: "skew_heap_merge cmp a (sk_right (s y)) s = Some (c, s1)"
        "sk_rep s1 c (sk_merge cmp (Node l1 x r1) r2)"
        "\<forall>z. z \<notin> set_tree (Node l1 x r1) \<union> set_tree r2 \<longrightarrow> s1 z = s z" by blast
    let ?d = "sk_left (s y)"
    let ?s = "set_parent c (Some y) (s1(y := (s1 y)\<lparr>sk_left := c, sk_right := ?d\<rparr>))"
    have run: "skew_heap_merge cmp a b s = Some (Some y, ?s)"
      by (subst skew_heap_merge.simps) (simp add: ab(1) ab(2) False c(1) [unfolded ab(1)])
    have same: "s1 z = s z" if "z \<in> set_tree l2 \<or> z = y" for z
      using that c(3) p by auto
    have l2: "sk_rep s1 ?d l2" by (rule sk_rep_frame [OF sub(2)]) (use p same in auto)
    have pr: "par_ok s1 y ?d" using sub same sk_rep_root [OF sub(2)]
      by (auto simp: par_ok_def split: option.splits)
    have "sk_distinct (Node (sk_merge cmp (Node l1 x r1) r2) y l2)"
      using p by (auto simp: distinct_merge)
    from merge_node [OF c(2) l2 this pr] have "sk_rep ?s (Some y) (sk_merge cmp (Node l1 x r1) (Node l2 y r2))"
      using False by simp
    moreover have cz: "z \<in> set_tree (Node l1 x r1) \<union> set_tree r2" if "c = Some z" for z
      using sk_rep_root [OF c(2) that] by simp
    moreover have "c \<noteq> Some y" using cz [of y] p(3-5) by auto
    then have "sk_parent (?s y) = sk_parent (s y)" using same [of y] by simp
    moreover have "?s z = s z" if "z \<notin> set_tree (Node l1 x r1) \<union> set_tree (Node l2 y r2)" for z
    proof -
      have "c \<noteq> Some z" using cz [of z] that by auto
      then show ?thesis using that c(3) by simp
    qed
    ultimately show ?thesis unfolding run by auto
  qed
qed

lemma skew_heap_insert_rep:
  assumes "sk_rep s a t" and "sk_distinct t" and "b \<notin> set_tree t"
  shows "\<exists>c s'. skew_heap_insert cmp a b s = Some (c, s') \<and>
    sk_rep s' c (sk_merge cmp t (Node Leaf b Leaf)) \<and>
    (\<forall>z. z \<notin> set_tree t \<union> {b} \<longrightarrow> s' z = s z) \<and>
    (\<forall>z. c = Some z \<longrightarrow> sk_parent (s' z) = (if z = b then None else sk_parent (s z)))"
proof -
  let ?s = "skew_heap_init b s"
  have "sk_rep ?s a t" by (rule sk_rep_frame [OF assms(1,2)]) (use assms(3) in \<open>auto simp: skew_heap_init_def\<close>)
  moreover have "sk_rep ?s (Some b) (Node Leaf b Leaf)" by (simp add: skew_heap_init_def par_ok_def)
  ultimately obtain c s' where c: "skew_heap_merge cmp a (Some b) ?s = Some (c, s')"
    "sk_rep s' c (sk_merge cmp t (Node Leaf b Leaf))"
    "\<forall>z. z \<notin> set_tree t \<union> set_tree (Node Leaf b Leaf) \<longrightarrow> s' z = ?s z"
    "\<forall>z. c = Some z \<longrightarrow> sk_parent (s' z) = sk_parent (?s z)"
    using skew_heap_merge_rep [of ?s a t "Some b" "Node Leaf b Leaf" cmp] assms(2,3) by auto
  then show ?thesis unfolding skew_heap_insert_def by (auto simp: skew_heap_init_def)
qed

text \<open>
  Removal of an inner node: the merged children take its place under its parent. \<open>hang\<close> is the
  final update of \<open>skew_heap_remove\<close> below a parent.
\<close>

definition hang :: "nat \<Rightarrow> nat \<Rightarrow> nat option \<Rightarrow> skew_store \<Rightarrow> skew_store" where
  "hang q b rep s = (if sk_left (s q) = Some b then s(q := (s q)\<lparr>sk_left := rep\<rparr>)
     else s(q := (s q)\<lparr>sk_right := rep\<rparr>))"

lemma hang_other [simp]: "z \<noteq> q \<Longrightarrow> hang q b rep s z = s z"
  by (simp add: hang_def)

lemma hang_parent [simp]: "sk_parent (hang q b rep s z) = sk_parent (s z)"
  by (simp add: hang_def)

lemma hang_child:
  assumes s: "sk_rep s a (Node l x r)" and d: "sk_distinct (Node l x r)" and b: "sk_rep s (Some b) (Node lb b rb)"
    and tb: "sk_rep s1 rep tb" "sk_distinct tb" "set_tree tb = set_tree lb \<union> set_tree rb"
    and frame: "\<And>z. z \<notin> set_tree lb \<union> set_tree rb \<Longrightarrow> s1 z = s z"
    and side: "l = Node lb b rb \<or> r = Node lb b rb"
  shows "sk_rep (hang x b rep (set_parent rep (Some x) s1)) a
    (if l = Node lb b rb then Node tb x r else Node l x tb)"
proof -
  let ?s = "hang x b rep (set_parent rep (Some x) s1)"
  have ax: "a = Some x" using s by simp
  have xS: "x \<notin> set_tree lb \<union> set_tree rb" using side d by auto
  have root: "rep = Some z \<Longrightarrow> z \<in> set_tree lb \<union> set_tree rb" for z
    using sk_rep_root [OF tb(1)] tb(3) by simp
  have rx: "rep \<noteq> Some x" using root xS by blast
  have t: "sk_rep ?s rep tb"
  proof (rule sk_rep_frame [OF tb(1,2)])
    fix z assume "z \<in> set_tree tb"
    then have "z \<noteq> x" using xS tb(3) by auto
    then show "sk_left (?s z) = sk_left (s1 z) \<and> sk_right (?s z) = sk_right (s1 z)" by simp
  next
    fix z assume "rep \<noteq> Some z"
    then show "sk_parent (?s z) = sk_parent (s1 z)" by simp
  qed
  have pt: "par_ok ?s x rep" by (simp add: par_ok_def split: option.splits)
  have other: "?s z = s z" if "z \<noteq> x" "z \<notin> set_tree lb \<union> set_tree rb" for z
    using that frame [of z] root by (metis hang_other set_parent_simps(4))
  have keep: "sk_rep ?s c t'" "par_ok ?s x c"
    if "sk_rep s c t'" "par_ok s x c" "sk_distinct t'" "x \<notin> set_tree t'"
      "set_tree t' \<inter> (set_tree lb \<union> set_tree rb) = {}" for c t'
  proof -
    have "?s z = s z" if "z \<in> set_tree t'" for z
      by (rule other) (use that \<open>x \<notin> set_tree t'\<close> \<open>set_tree t' \<inter> _ = {}\<close> in auto)
    then show "sk_rep ?s c t'" "par_ok ?s x c"
      using sk_rep_keep [OF that(1-3)] by blast+
  qed
  have sx: "s1 x = s x" using frame xS by simp
  show ?thesis
  proof (cases "l = Node lb b rb")
    case True
    then have left: "sk_left (s x) = Some b" using s by simp
    then have h: "?s x = (set_parent rep (Some x) s1 x)\<lparr>sk_left := rep\<rparr>" by (simp add: hang_def sx)
    have "sk_rep ?s (sk_right (s x)) r" "par_ok ?s x (sk_right (s x))"
      by (rule keep [of _ r]; use s d True in auto)+
    then show ?thesis using True ax h t pt by (simp add: sx)
  next
    case False
    then have r: "r = Node lb b rb" using side by simp
    have "sk_left (s x) \<noteq> Some b"
    proof
      assume "sk_left (s x) = Some b"
      then have "b \<in> set_tree l" using s sk_rep_root [of s "Some b" l b] by simp
      then show False using r d by auto
    qed
    then have h: "?s x = (set_parent rep (Some x) s1 x)\<lparr>sk_right := rep\<rparr>" by (simp add: hang_def sx)
    have "sk_rep ?s (sk_left (s x)) l" "par_ok ?s x (sk_left (s x))"
      by (rule keep [of _ l]; use s d r in auto)+
    then show ?thesis using False ax h t pt by (simp add: sx)
  qed
qed

text \<open>The parent pointer of an inner node leads to the node above it, wherever in the tree that is.\<close>

lemma hang_rep:
  assumes "sk_rep s a t" and "sk_distinct t" and "b \<in> set_tree t" and "a \<noteq> Some b"
    and sub: "sk_rep s (sk_left (s b)) lb" "sk_rep s (sk_right (s b)) rb"
    and merged: "sk_rep s1 rep (sk_merge cmp lb rb)"
    and frame: "\<And>z. z \<notin> set_tree lb \<union> set_tree rb \<Longrightarrow> s1 z = s z"
  shows "\<exists>q. sk_parent (s b) = Some q \<and> q \<in> set_tree t \<and> q \<notin> set_tree lb \<union> set_tree rb \<and> q \<noteq> b \<and>
    set_tree lb \<union> set_tree rb \<subseteq> set_tree t \<and> a \<noteq> rep \<and>
    (\<forall>z. a = Some z \<longrightarrow> z \<notin> set_tree lb \<union> set_tree rb) \<and>
    sk_rep (hang q b rep (set_parent rep (Some q) s1)) a (sk_remove cmp b t)"
  using assms(1-4)
proof (induction t arbitrary: a)
  case (Node l x r)
  have ax: "a = Some x" and xb: "x \<noteq> b" using Node.prems(1,4) by auto
  have l: "sk_rep s (sk_left (s x)) l" "par_ok s x (sk_left (s x))"
    and r: "sk_rep s (sk_right (s x)) r" "par_ok s x (sk_right (s x))" using Node.prems(1) by auto
  have d: "sk_distinct l" "sk_distinct r" "set_tree l \<inter> set_tree r = {}" "x \<notin> set_tree l" "x \<notin> set_tree r"
    using Node.prems(2) by auto
  have root: "rep = Some z \<Longrightarrow> z \<in> set_tree lb \<union> set_tree rb" for z
    using sk_rep_root [OF merged] by simp
  have node: "t = Node lb b rb" if "sk_rep s (Some b) t" for t
  proof -
    from that obtain l' r' where "t = Node l' b r'" by (cases t) auto
    with that sub show ?thesis using sk_rep_unique by auto
  qed
  show ?case
  proof (cases "sk_left (s x) = Some b \<or> sk_right (s x) = Some b")
    case True
    then have side: "l = Node lb b rb \<or> r = Node lb b rb" using node l r by auto
    then have nb: "sk_rep s (Some b) (Node lb b rb)" and db: "sk_distinct (Node lb b rb)"
      using l r d by auto
    have pb: "sk_parent (s b) = Some x" using True l r by (auto simp: par_ok_def)
    have "sk_remove cmp b (Node l x r) =
        (if l = Node lb b rb then Node (sk_merge cmp lb rb) x r else Node l x (sk_merge cmp lb rb))"
    proof (cases "l = Node lb b rb")
      case True
      then have "b \<notin> set_tree r" using d by auto
      with True xb show ?thesis by (simp add: remove_notin)
    next
      case False
      with side have "r = Node lb b rb" by simp
      moreover from this have "b \<notin> set_tree l" using d by auto
      ultimately show ?thesis using xb False by (simp add: remove_notin)
    qed
    moreover have "sk_rep (hang x b rep (set_parent rep (Some x) s1)) a
        (if l = Node lb b rb then Node (sk_merge cmp lb rb) x r else Node l x (sk_merge cmp lb rb))"
      by (rule hang_child [OF Node.prems(1,2) nb merged _ _ frame side])
        (use db in \<open>auto simp: distinct_merge\<close>)
    moreover have "x \<notin> set_tree lb \<union> set_tree rb" "set_tree lb \<union> set_tree rb \<subseteq> set_tree (Node l x r)"
      using side d by auto
    ultimately show ?thesis using pb ax xb root by (intro exI [of _ x]) auto
  next
    case False
    consider "b \<in> set_tree l" | "b \<in> set_tree r" using Node.prems(3) xb by auto
    then show ?thesis
    proof cases
      case 1
      from Node.IH(1) [OF l(1) d(1) 1] False obtain q where q: "sk_parent (s b) = Some q"
        "q \<in> set_tree l" "q \<notin> set_tree lb \<union> set_tree rb" "q \<noteq> b"
        "set_tree lb \<union> set_tree rb \<subseteq> set_tree l" "sk_left (s x) \<noteq> rep"
        "\<forall>z. sk_left (s x) = Some z \<longrightarrow> z \<notin> set_tree lb \<union> set_tree rb"
        "sk_rep (hang q b rep (set_parent rep (Some q) s1)) (sk_left (s x)) (sk_remove cmp b l)" by blast
      let ?s = "hang q b rep (set_parent rep (Some q) s1)"
      have same: "?s z = s z" if "z \<notin> set_tree l" for z
      proof -
        have "z \<noteq> q" "z \<notin> set_tree lb \<union> set_tree rb" "rep \<noteq> Some z" using that q root by auto
        then show ?thesis using frame by simp
      qed
      have "?s z = s z" if "z \<in> set_tree r" for z using same that d(3) by blast
      then have "sk_rep ?s (sk_right (s x)) r" "par_ok ?s x (sk_right (s x))"
        using sk_rep_keep [OF r d(2)] by blast+
      moreover have "par_ok ?s x (sk_left (s x))"
      proof (rule par_ok_frame [OF l(2)])
        fix z assume "sk_left (s x) = Some z"
        then show "sk_parent (?s z) = sk_parent (s z)" using q(6,7) frame [of z] by auto
      qed
      moreover have "b \<notin> set_tree r" using 1 d(3) by blast
      then have "sk_remove cmp b (Node l x r) = Node (sk_remove cmp b l) x r"
        using xb by (simp add: remove_notin)
      moreover have "?s x = s x" using same d by simp
      ultimately have "sk_rep ?s a (sk_remove cmp b (Node l x r))" using q(8) ax by simp
      moreover have "x \<notin> set_tree lb \<union> set_tree rb" using q(5) d by auto
      ultimately show ?thesis using q ax root by (intro exI [of _ q]) auto
    next
      case 2
      from Node.IH(2) [OF r(1) d(2) 2] False obtain q where q: "sk_parent (s b) = Some q"
        "q \<in> set_tree r" "q \<notin> set_tree lb \<union> set_tree rb" "q \<noteq> b"
        "set_tree lb \<union> set_tree rb \<subseteq> set_tree r" "sk_right (s x) \<noteq> rep"
        "\<forall>z. sk_right (s x) = Some z \<longrightarrow> z \<notin> set_tree lb \<union> set_tree rb"
        "sk_rep (hang q b rep (set_parent rep (Some q) s1)) (sk_right (s x)) (sk_remove cmp b r)" by blast
      let ?s = "hang q b rep (set_parent rep (Some q) s1)"
      have same: "?s z = s z" if "z \<notin> set_tree r" for z
      proof -
        have "z \<noteq> q" "z \<notin> set_tree lb \<union> set_tree rb" "rep \<noteq> Some z" using that q root by auto
        then show ?thesis using frame by simp
      qed
      have "?s z = s z" if "z \<in> set_tree l" for z using same that d(3) by blast
      then have "sk_rep ?s (sk_left (s x)) l" "par_ok ?s x (sk_left (s x))"
        using sk_rep_keep [OF l d(1)] by blast+
      moreover have "par_ok ?s x (sk_right (s x))"
      proof (rule par_ok_frame [OF r(2)])
        fix z assume "sk_right (s x) = Some z"
        then show "sk_parent (?s z) = sk_parent (s z)" using q(6,7) frame [of z] by auto
      qed
      moreover have "b \<notin> set_tree l" using 2 d(3) by blast
      then have "sk_remove cmp b (Node l x r) = Node l x (sk_remove cmp b r)"
        using xb by (simp add: remove_notin)
      moreover have "?s x = s x" using same d by simp
      ultimately have "sk_rep ?s a (sk_remove cmp b (Node l x r))" using q(8) ax by simp
      moreover have "x \<notin> set_tree lb \<union> set_tree rb" using q(5) d by auto
      ultimately show ?thesis using q ax root by (intro exI [of _ q]) auto
    qed
  qed
qed simp

lemma sk_rep_sub:
  "sk_rep s a t \<Longrightarrow> sk_distinct t \<Longrightarrow> b \<in> set_tree t \<Longrightarrow>
     \<exists>lb rb. sk_rep s (Some b) (Node lb b rb) \<and> sk_distinct (Node lb b rb)"
proof (induction t arbitrary: a)
  case (Node l x r)
  consider "x = b" | "b \<in> set_tree l" | "b \<in> set_tree r" using Node.prems(3) by auto
  then show ?case
  proof cases
    case 1
    with Node.prems show ?thesis by (intro exI [of _ l] exI [of _ r]) simp
  next
    case 2
    with Node.IH(1) [of "sk_left (s x)"] Node.prems show ?thesis by simp
  next
    case 3
    with Node.IH(2) [of "sk_right (s x)"] Node.prems show ?thesis by simp
  qed
qed simp

lemma skew_heap_remove_rep:
  assumes rep: "sk_rep s a t" and d: "sk_distinct t" and b: "b \<in> set_tree t"
    and root: "\<And>z. a = Some z \<Longrightarrow> sk_parent (s z) = None"
  shows "\<exists>c s'. skew_heap_remove cmp a b s = Some (c, s') \<and> sk_rep s' c (sk_remove cmp b t) \<and>
    (\<forall>z. z \<notin> set_tree t \<longrightarrow> s' z = s z) \<and> (\<forall>z. c = Some z \<longrightarrow> sk_parent (s' z) = None)"
proof -
  obtain lb rb where sub: "sk_rep s (Some b) (Node lb b rb)" and dn: "sk_distinct (Node lb b rb)"
    using sk_rep_sub [OF rep d b] by blast
  then have lr: "sk_rep s (sk_left (s b)) lb" "sk_rep s (sk_right (s b)) rb" by auto
  obtain rp s1 where m: "skew_heap_merge cmp (sk_left (s b)) (sk_right (s b)) s = Some (rp, s1)"
    "sk_rep s1 rp (sk_merge cmp lb rb)" "\<forall>z. z \<notin> set_tree lb \<union> set_tree rb \<longrightarrow> s1 z = s z"
    using skew_heap_merge_rep [OF lr, of cmp] dn by auto
  have dm: "sk_distinct (sk_merge cmp lb rb)" using dn by (auto simp: distinct_merge)
  show ?thesis
  proof (cases "a = Some b")
    case True
    then have t: "t = Node lb b rb" using sk_rep_unique rep sub by simp
    have "skew_heap_remove cmp a b s = Some (rp, set_parent rp None s1)"
      using root True m(1) by (simp add: skew_heap_remove_def)
    moreover have "sk_rep (set_parent rp None s1) rp (sk_merge cmp lb rb)"
      by (rule sk_rep_frame [OF m(2) dm]) simp_all
    moreover have "set_parent rp None s1 z = s z" if "z \<notin> set_tree lb \<union> set_tree rb" for z
    proof -
      have "rp \<noteq> Some z" using sk_rep_root [OF m(2)] that by auto
      then show ?thesis using m(3) that by simp
    qed
    ultimately show ?thesis by (simp add: t)
  next
    case False
    from hang_rep [OF rep d b False lr m(2)] m(3) obtain q where q: "sk_parent (s b) = Some q"
      "q \<in> set_tree t" "set_tree lb \<union> set_tree rb \<subseteq> set_tree t" "a \<noteq> rp"
      "\<forall>z. a = Some z \<longrightarrow> z \<notin> set_tree lb \<union> set_tree rb"
      "sk_rep (hang q b rp (set_parent rp (Some q) s1)) a (sk_remove cmp b t)" by auto
    let ?s = "hang q b rp (set_parent rp (Some q) s1)"
    have "skew_heap_remove cmp a b s = Some (a, ?s)"
      using q(1) m(1) by (simp add: skew_heap_remove_def hang_def Let_def)
    moreover have "?s z = s z" if "z \<notin> set_tree t" for z
    proof -
      have "z \<noteq> q" "z \<notin> set_tree lb \<union> set_tree rb" using q(2,3) that by auto
      moreover from this have "rp \<noteq> Some z" using sk_rep_root [OF m(2)] by auto
      ultimately show ?thesis using m(3) by simp
    qed
    moreover have "sk_parent (?s z) = None" if "a = Some z" for z
      using that q(4,5) m(3) root by simp
    ultimately show ?thesis using q(6) by blast
  qed
qed

section \<open>Heap order\<close>

primrec sk_heap :: "(nat \<Rightarrow> nat) \<Rightarrow> nat tree \<Rightarrow> bool" where
  "sk_heap key Leaf \<longleftrightarrow> True"
| "sk_heap key (Node l x r) \<longleftrightarrow> (\<forall>y \<in> set_tree l \<union> set_tree r. key x \<le> key y) \<and>
     sk_heap key l \<and> sk_heap key r"

text \<open>The comparison is a comparison of keys on the elements of the heap.\<close>

definition cmp_keys :: "(nat \<Rightarrow> nat \<Rightarrow> int) \<Rightarrow> (nat \<Rightarrow> nat) \<Rightarrow> nat set \<Rightarrow> bool" where
  "cmp_keys cmp key A \<longleftrightarrow> (\<forall>x \<in> A. \<forall>y \<in> A. cmp x y = -1 \<longleftrightarrow> key x < key y)"

lemma heap_merge:
  "sk_heap key t1 \<Longrightarrow> sk_heap key t2 \<Longrightarrow> cmp_keys cmp key (set_tree t1 \<union> set_tree t2) \<Longrightarrow>
   sk_heap key (sk_merge cmp t1 t2)"
proof (induction cmp t1 t2 rule: sk_merge.induct)
  case (3 cmp l1 x r1 l2 y r2)
  have c: "cmp x y = -1 \<longleftrightarrow> key x < key y" using 3(5) by (simp add: cmp_keys_def)
  show ?case
  proof (cases "cmp x y = -1")
    case True
    have "sk_heap key (sk_merge cmp r1 (Node l2 y r2))"
      by (rule 3(1) [OF True]) (use 3(3-5) in \<open>auto simp: cmp_keys_def\<close>)
    moreover have "key y \<le> key z" if "z \<in> set_tree (Node l2 y r2)" for z using that 3(4) by auto
    then have "key x \<le> key z" if "z \<in> set_tree (Node l2 y r2)" for z
      using that True c by (meson less_imp_le order_trans)
    ultimately show ?thesis using True 3(3) by auto
  next
    case False
    have "sk_heap key (sk_merge cmp (Node l1 x r1) r2)"
      by (rule 3(2) [OF False]) (use 3(3-5) in \<open>auto simp: cmp_keys_def\<close>)
    moreover have "key x \<le> key z" if "z \<in> set_tree (Node l1 x r1)" for z using that 3(3) by auto
    then have "key y \<le> key z" if "z \<in> set_tree (Node l1 x r1)" for z
      using that False c by (meson not_le order_trans)
    ultimately show ?thesis using False 3(4) by auto
  qed
qed auto

lemma heap_cong: "(\<And>x. x \<in> set_tree t \<Longrightarrow> key x = key' x) \<Longrightarrow> sk_heap key t = sk_heap key' t"
  by (induction t) auto

lemma heap_remove:
  "sk_heap key t \<Longrightarrow> sk_distinct t \<Longrightarrow> cmp_keys cmp key (set_tree t) \<Longrightarrow> sk_heap key (sk_remove cmp b t)"
proof (induction t)
  case (Node l x r)
  have "cmp_keys cmp key (set_tree l)" "cmp_keys cmp key (set_tree r)" "cmp_keys cmp key (set_tree l \<union> set_tree r)"
    using Node.prems(3) by (auto simp: cmp_keys_def)
  with Node show ?case by (auto simp: heap_merge set_remove)
qed simp

end
