(* ===== verification/KernState.thy ===== *)
theory KernState
  imports DList SkewHeap
begin

text \<open>
  The state of the process side of the kernel: the process structures of
  \<open>lab8/kern/process/proc.h\<close>, the run queue and the timers of \<open>lab8/kern/schedule/sched.h\<close>, and the
  globals of \<open>proc.c\<close> and \<open>sched.c\<close>. A \<open>struct proc_struct *\<close> is the address of the structure, a
  natural number; NULL is \<open>None\<close>. The rings that link processes (run queue, timer list, process
  list, hash buckets) are given by the list of their elements, front first: theory \<open>DList\<close> shows
  that each list operation of the code acts on the ring as the HOL operation used here acts on the
  list, and that \<open>list_empty\<close> on a member is false exactly because it is queued.
\<close>

section \<open>Processes\<close>

datatype proc_state = PROC_UNINIT | PROC_SLEEPING | PROC_RUNNABLE | PROC_ZOMBIE

type_synonym proc_ptr = nat

record proc_struct =
  state :: proc_state
  pid :: int
  runs :: int
  kstack :: nat
  need_resched :: bool
  parent :: "proc_ptr option"
  mm :: "nat option"
  pgdir :: nat
  pflags :: u32
  pname :: string
  exit_code :: int
  wait_state :: u32
  cptr :: "proc_ptr option"
  yptr :: "proc_ptr option"
  optr :: "proc_ptr option"
  rq :: bool  \<comment> \<open>points to the one run queue \<open>__rq\<close> of the kernel, or is NULL\<close>
  time_slice :: int
  lab6_run_pool :: skew_node  \<comment> \<open>the entry in the skew heap, at the address of the process\<close>
  lab6_stride :: u32
  lab6_priority :: u32
  filesp :: "nat option"

definition PF_EXITING :: u32 where "PF_EXITING = 0x00000001"
definition WT_INTERRUPTED :: u32 where "WT_INTERRUPTED = 0x80000000"
definition WT_CHILD :: u32 where "WT_CHILD = 0x00000001 OR WT_INTERRUPTED"
definition WT_KSEM :: u32 where "WT_KSEM = 0x00000100"
definition WT_TIMER :: u32 where "WT_TIMER = 0x00000002 OR WT_INTERRUPTED"
definition WT_KBD :: u32 where "WT_KBD = 0x00000004 OR WT_INTERRUPTED"

section \<open>Timers and the kernel's globals\<close>

record timer =
  expires :: u32
  tproc :: "proc_ptr option"

record kern =
  procs :: "proc_ptr \<Rightarrow> proc_struct"
  current :: proc_ptr
  idleproc :: proc_ptr
  initproc :: proc_ptr
  run_list :: "proc_ptr list"
  proc_num :: u32
  max_time_slice :: int
  run_pool :: "proc_ptr option"
  timers :: "nat \<Rightarrow> timer"
  timer_list :: "nat list"

definition upd_proc :: "proc_ptr \<Rightarrow> (proc_struct \<Rightarrow> proc_struct) \<Rightarrow> 'a kern_scheme \<Rightarrow> 'a kern_scheme" where
  "upd_proc p f k = k\<lparr>procs := (procs k)(p := f (procs k p))\<rparr>"

lemma upd_proc_simps [simp]:
  "procs (upd_proc p f k) = (procs k)(p := f (procs k p))"
  "current (upd_proc p f k) = current k" "idleproc (upd_proc p f k) = idleproc k"
  "initproc (upd_proc p f k) = initproc k" "run_list (upd_proc p f k) = run_list k"
  "proc_num (upd_proc p f k) = proc_num k" "max_time_slice (upd_proc p f k) = max_time_slice k"
  "run_pool (upd_proc p f k) = run_pool k" "timers (upd_proc p f k) = timers k"
  "timer_list (upd_proc p f k) = timer_list k" "kern.more (upd_proc p f k) = kern.more k"
  by (simp_all add: upd_proc_def)

end
