(* ===== verification/Sched.thy ===== *)
theory Sched
  imports KernState
begin

text \<open>
  The scheduler core of \<open>lab8/kern/schedule/sched.c\<close>. It reaches the scheduling policy only through
  the function pointers of \<open>struct sched_class\<close>; here the class is a record of functions, and the
  contract the policies owe the core is the locale \<open>sched_policy\<close>. What every client may rely on is
  proved there once: no runnable process is ever lost, and only runnable processes are queued.
  Interrupts are disabled throughout each operation, so an operation is one step. \<open>proc_run\<close> loads
  the new address space and switches the kernel stack; what it changes in this state is \<open>current\<close>.
\<close>

section \<open>The scheduling class and the core\<close>

record 'a sched_class =
  sc_init :: "'a kern_scheme \<Rightarrow> 'a kern_scheme"
  sc_enqueue :: "proc_ptr \<Rightarrow> 'a kern_scheme \<Rightarrow> 'a kern_scheme option"
  sc_dequeue :: "proc_ptr \<Rightarrow> 'a kern_scheme \<Rightarrow> 'a kern_scheme option"
  sc_pick_next :: "'a kern_scheme \<Rightarrow> (proc_ptr option \<times> 'a kern_scheme) option"
  sc_proc_tick :: "proc_ptr \<Rightarrow> 'a kern_scheme \<Rightarrow> 'a kern_scheme"

definition MAX_TIME_SLICE :: int where "MAX_TIME_SLICE = 5"

definition sched_class_enqueue ::
  "'a sched_class \<Rightarrow> proc_ptr \<Rightarrow> 'a kern_scheme \<Rightarrow> 'a kern_scheme option"
where
  "sched_class_enqueue c proc k = (if proc \<noteq> idleproc k then sc_enqueue c proc k else Some k)"

definition sched_class_dequeue ::
  "'a sched_class \<Rightarrow> proc_ptr \<Rightarrow> 'a kern_scheme \<Rightarrow> 'a kern_scheme option"
where
  "sched_class_dequeue c proc k = sc_dequeue c proc k"

definition sched_class_pick_next ::
  "'a sched_class \<Rightarrow> 'a kern_scheme \<Rightarrow> (proc_ptr option \<times> 'a kern_scheme) option"
where
  "sched_class_pick_next c k = sc_pick_next c k"

definition sched_class_proc_tick ::
  "'a sched_class \<Rightarrow> proc_ptr \<Rightarrow> 'a kern_scheme \<Rightarrow> 'a kern_scheme"
where
  "sched_class_proc_tick c proc k =
     (if proc \<noteq> idleproc k then sc_proc_tick c proc k
      else upd_proc proc (\<lambda>p. p\<lparr>need_resched := True\<rparr>) k)"

definition sched_init :: "'a sched_class \<Rightarrow> 'a kern_scheme \<Rightarrow> 'a kern_scheme" where
  "sched_init c k = sc_init c (k\<lparr>timer_list := [], max_time_slice := MAX_TIME_SLICE\<rparr>)"

text \<open>Waking a runnable process only prints a warning.\<close>

definition wakeup_proc ::
  "'a sched_class \<Rightarrow> proc_ptr \<Rightarrow> 'a kern_scheme \<Rightarrow> 'a kern_scheme option"
where
  "wakeup_proc c proc k =
     do { kassert (state (procs k proc) \<noteq> PROC_ZOMBIE);
          if state (procs k proc) \<noteq> PROC_RUNNABLE
          then (let k1 = upd_proc proc (\<lambda>p. p\<lparr>state := PROC_RUNNABLE, wait_state := 0\<rparr>) k in
                if proc \<noteq> current k1 then sched_class_enqueue c proc k1 else Some k1)
          else Some k }"

definition proc_run :: "proc_ptr \<Rightarrow> 'a kern_scheme \<Rightarrow> 'a kern_scheme" where
  "proc_run proc k = (if proc \<noteq> current k then k\<lparr>current := proc\<rparr> else k)"

definition schedule :: "'a sched_class \<Rightarrow> 'a kern_scheme \<Rightarrow> 'a kern_scheme option" where
  "schedule c k =
     do { let k1 = upd_proc (current k) (\<lambda>p. p\<lparr>need_resched := False\<rparr>) k;
          k2 \<leftarrow> (if state (procs k1 (current k1)) = PROC_RUNNABLE
                 then sched_class_enqueue c (current k1) k1 else Some k1);
          (r, k3) \<leftarrow> sched_class_pick_next c k2;
          k4 \<leftarrow> (case r of Some p \<Rightarrow> sched_class_dequeue c p k3 | None \<Rightarrow> Some k3);
          let nxt = (case r of Some p \<Rightarrow> p | None \<Rightarrow> idleproc k4);
          let k5 = upd_proc nxt (\<lambda>p. p\<lparr>runs := runs p + 1\<rparr>) k4;
          Some (if nxt \<noteq> current k5 then proc_run nxt k5 else k5) }"

section \<open>The contract of a policy\<close>

text \<open>
  What an operation of a policy leaves alone: who runs, who is idle, the timers, and of every process
  all but the fields that belong to scheduling.
\<close>

definition sched_erase :: "proc_struct \<Rightarrow> proc_struct" where
  "sched_erase p = p\<lparr>runs := 0, need_resched := False, rq := False, time_slice := 0, lab6_stride := 0,
     lab6_run_pool := \<lparr>sk_parent = None, sk_left = None, sk_right = None\<rparr>\<rparr>"

lemma sched_erase_simps [simp]:
  "sched_erase (p\<lparr>runs := n\<rparr>) = sched_erase p" "sched_erase (p\<lparr>need_resched := b\<rparr>) = sched_erase p"
  "sched_erase (p\<lparr>rq := b\<rparr>) = sched_erase p" "sched_erase (p\<lparr>time_slice := i\<rparr>) = sched_erase p"
  "sched_erase (p\<lparr>lab6_stride := w\<rparr>) = sched_erase p"
  "sched_erase (p\<lparr>lab6_run_pool := x\<rparr>) = sched_erase p"
  by (simp_all add: sched_erase_def)

lemma sched_eraseD:
  assumes "sched_erase x = sched_erase y"
  shows "state x = state y" "pid x = pid y" "kstack x = kstack y" "parent x = parent y" "mm x = mm y"
    "pgdir x = pgdir y" "pflags x = pflags y" "pname x = pname y" "exit_code x = exit_code y"
    "wait_state x = wait_state y" "cptr x = cptr y" "yptr x = yptr y" "optr x = optr y"
    "filesp x = filesp y"
  using arg_cong [OF assms, of state] arg_cong [OF assms, of pid] arg_cong [OF assms, of kstack]
    arg_cong [OF assms, of parent] arg_cong [OF assms, of mm] arg_cong [OF assms, of pgdir]
    arg_cong [OF assms, of pflags] arg_cong [OF assms, of pname] arg_cong [OF assms, of exit_code]
    arg_cong [OF assms, of wait_state] arg_cong [OF assms, of cptr] arg_cong [OF assms, of yptr]
    arg_cong [OF assms, of optr] arg_cong [OF assms, of filesp]
  by (simp_all add: sched_erase_def)

definition policy_frame :: "'a kern_scheme \<Rightarrow> 'a kern_scheme \<Rightarrow> bool" where
  "policy_frame k k' \<longleftrightarrow>
     current k' = current k \<and> idleproc k' = idleproc k \<and> initproc k' = initproc k \<and>
     timers k' = timers k \<and> timer_list k' = timer_list k \<and> kern.more k' = kern.more k \<and>
     (\<forall>q. state (procs k' q) = state (procs k q) \<and> wait_state (procs k' q) = wait_state (procs k q) \<and>
          sched_erase (procs k' q) = sched_erase (procs k q))"

lemma policy_frame_refl [simp]: "policy_frame k k"
  by (simp add: policy_frame_def)

lemma policy_frame_trans: "policy_frame k1 k2 \<Longrightarrow> policy_frame k2 k3 \<Longrightarrow> policy_frame k1 k3"
  by (simp add: policy_frame_def)

text \<open>
  The scheduler's invariant over the set of queued processes: exactly the runnable processes other
  than the running one and the idle process are queued.
\<close>

definition sched_ok :: "('a kern_scheme \<Rightarrow> proc_ptr set) \<Rightarrow> 'a kern_scheme \<Rightarrow> bool" where
  "sched_ok queued k \<longleftrightarrow>
     queued k = {p. state (procs k p) = PROC_RUNNABLE} - {current k, idleproc k}"

text \<open>
  What the rest of the kernel does to the scheduler: wake a process, let the running process yield,
  tick the clock, put the running process to sleep or end it and schedule. The idle process does
  neither of the last two.
\<close>

inductive sched_step :: "'a sched_class \<Rightarrow> 'a kern_scheme \<Rightarrow> 'a kern_scheme \<Rightarrow> bool"
  for c :: "'a sched_class"
where
  wake: "state (procs k p) \<noteq> PROC_ZOMBIE \<Longrightarrow> wakeup_proc c p k = Some k' \<Longrightarrow> sched_step c k k'"
| yield: "schedule c k = Some k' \<Longrightarrow> sched_step c k k'"
| tick: "sched_step c k (sched_class_proc_tick c (current k) k)"
| block: "current k \<noteq> idleproc k \<Longrightarrow>
    schedule c (upd_proc (current k) (\<lambda>x. x\<lparr>state := PROC_SLEEPING, wait_state := w\<rparr>) k) = Some k' \<Longrightarrow>
    sched_step c k k'"
| exit: "current k \<noteq> idleproc k \<Longrightarrow>
    schedule c (upd_proc (current k) (\<lambda>x. x\<lparr>state := PROC_ZOMBIE, exit_code := e\<rparr>) k) = Some k' \<Longrightarrow>
    sched_step c k k'"

inductive sched_reach :: "'a sched_class \<Rightarrow> 'a kern_scheme \<Rightarrow> 'a kern_scheme \<Rightarrow> bool"
  for c :: "'a sched_class"
where
  reach_refl: "sched_reach c k k"
| reach_step: "sched_reach c k k' \<Longrightarrow> sched_step c k' k'' \<Longrightarrow> sched_reach c k k''"

locale sched_policy =
  fixes c :: "'a sched_class"
    and queued :: "'a kern_scheme \<Rightarrow> proc_ptr set"
    and inv :: "'a kern_scheme \<Rightarrow> bool"
  assumes enqueue_law: "inv k \<Longrightarrow> p \<notin> queued k \<Longrightarrow>
      \<exists>k'. sc_enqueue c p k = Some k' \<and> inv k' \<and> queued k' = insert p (queued k) \<and> policy_frame k k'"
    and dequeue_law: "inv k \<Longrightarrow> p \<in> queued k \<Longrightarrow>
      \<exists>k'. sc_dequeue c p k = Some k' \<and> inv k' \<and> queued k' = queued k - {p} \<and> policy_frame k k'"
    and pick_law: "inv k \<Longrightarrow>
      \<exists>r k'. sc_pick_next c k = Some (r, k') \<and> inv k' \<and> queued k' = queued k \<and> policy_frame k k' \<and>
        (case r of None \<Rightarrow> queued k = {} | Some p \<Rightarrow> p \<in> queued k)"
    and tick_law: "inv k \<Longrightarrow>
      inv (sc_proc_tick c p k) \<and> queued (sc_proc_tick c p k) = queued k \<and>
      policy_frame k (sc_proc_tick c p k)"
    and local_law: "\<lbrakk>run_list k' = run_list k; proc_num k' = proc_num k; run_pool k' = run_pool k;
      max_time_slice k' = max_time_slice k;
      \<And>q. rq (procs k' q) = rq (procs k q) \<and> lab6_stride (procs k' q) = lab6_stride (procs k q) \<and>
        lab6_priority (procs k' q) = lab6_priority (procs k q) \<and>
        lab6_run_pool (procs k' q) = lab6_run_pool (procs k q)\<rbrakk> \<Longrightarrow>
      queued k' = queued k \<and> (inv k \<longrightarrow> inv k')"
begin

lemma upd_keeps:
  assumes "\<And>x. rq (f x) = rq x" and "\<And>x. lab6_stride (f x) = lab6_stride x"
    and "\<And>x. lab6_priority (f x) = lab6_priority x"
    and "\<And>x. lab6_run_pool (f x) = lab6_run_pool x"
  shows "queued (upd_proc p f k) = queued k" and "inv k \<Longrightarrow> inv (upd_proc p f k)"
  using local_law [of "upd_proc p f k" k] assms by (auto simp: upd_proc_def)

lemma current_keeps:
  "queued (k\<lparr>current := p\<rparr>) = queued k" "inv k \<Longrightarrow> inv (k\<lparr>current := p\<rparr>)"
  using local_law [of "k\<lparr>current := p\<rparr>" k] by auto

text \<open>A blocked process becomes runnable and is queued, unless it is running already.\<close>

lemma wakeup_ok:
  assumes "inv k" and ok: "sched_ok queued k" and "state (procs k p) \<noteq> PROC_ZOMBIE"
  shows "\<exists>k'. wakeup_proc c p k = Some k' \<and> inv k' \<and> sched_ok queued k' \<and>
    state (procs k' p) = PROC_RUNNABLE \<and> current k' = current k \<and> idleproc k' = idleproc k \<and>
    (\<forall>q. q \<noteq> p \<longrightarrow> state (procs k' q) = state (procs k q) \<and>
       sched_erase (procs k' q) = sched_erase (procs k q)) \<and>
    sched_erase (procs k' p) = sched_erase (if state (procs k p) = PROC_RUNNABLE then procs k p
      else (procs k p)\<lparr>state := PROC_RUNNABLE, wait_state := 0\<rparr>) \<and>
    timers k' = timers k \<and> timer_list k' = timer_list k \<and> initproc k' = initproc k \<and>
    kern.more k' = kern.more k"
proof (cases "state (procs k p) = PROC_RUNNABLE")
  case True
  with assms show ?thesis by (simp add: wakeup_proc_def)
next
  case False
  let ?k = "upd_proc p (\<lambda>x. x\<lparr>state := PROC_RUNNABLE, wait_state := 0\<rparr>) k"
  have q: "queued ?k = queued k" and i: "inv ?k" using upd_keeps assms(1) by simp_all
  have notin: "p \<notin> queued ?k" using ok False q by (simp add: sched_ok_def)
  show ?thesis
  proof (cases "p = current k \<or> p = idleproc k")
    case True
    have "wakeup_proc c p k = Some ?k"
      using True assms(3) False by (auto simp: wakeup_proc_def sched_class_enqueue_def Let_def)
    moreover have "sched_ok queued ?k"
      using True ok unfolding sched_ok_def q by auto
    ultimately show ?thesis using i False by (intro exI [of _ ?k]) simp
  next
    case other: False
    from enqueue_law [OF i notin] obtain k' where k': "sc_enqueue c p ?k = Some k'" "inv k'"
      "queued k' = insert p (queued ?k)" "policy_frame ?k k'" by blast
    have "sched_ok queued k'"
      using k'(3,4) q ok other by (auto simp: sched_ok_def policy_frame_def)
    with k' other assms(3) False show ?thesis
      by (auto simp: wakeup_proc_def sched_class_enqueue_def policy_frame_def)
  qed
qed

text \<open>One round of the scheduler from a state in which the running process may have blocked.\<close>

lemma schedule_ok:
  assumes "inv k" and ok: "sched_ok queued k"
  shows "\<exists>k'. schedule c k = Some k' \<and> inv k' \<and> sched_ok queued k' \<and>
    (\<forall>q. sched_erase (procs k' q) = sched_erase (procs k q)) \<and> idleproc k' = idleproc k \<and>
    initproc k' = initproc k \<and> timers k' = timers k \<and> timer_list k' = timer_list k \<and>
    kern.more k' = kern.more k \<and>
    (if {p. state (procs k p) = PROC_RUNNABLE} - {idleproc k} = {} then current k' = idleproc k
     else state (procs k (current k')) = PROC_RUNNABLE \<and> current k' \<noteq> idleproc k)"
proof -
  let ?k1 = "upd_proc (current k) (\<lambda>x. x\<lparr>need_resched := False\<rparr>) k"
  let ?R = "{p. state (procs k p) = PROC_RUNNABLE} - {idleproc k}"
  have q1: "queued ?k1 = queued k" and i1: "inv ?k1" using upd_keeps assms(1) by simp_all
  have st1: "state (procs ?k1 q) = state (procs k q)" for q by simp
  obtain k2 where k2: "(if state (procs ?k1 (current ?k1)) = PROC_RUNNABLE
      then sched_class_enqueue c (current ?k1) ?k1 else Some ?k1) = Some k2"
    and i2: "inv k2" and f2: "policy_frame ?k1 k2" and q2: "queued k2 = ?R"
  proof (cases "state (procs k (current k)) = PROC_RUNNABLE \<and> current k \<noteq> idleproc k")
    case True
    have "current k \<notin> queued ?k1" using ok q1 by (simp add: sched_ok_def)
    from enqueue_law [OF i1 this] obtain k' where k': "sc_enqueue c (current k) ?k1 = Some k'"
      "inv k'" "queued k' = insert (current k) (queued ?k1)" "policy_frame ?k1 k'" by blast
    show ?thesis
    proof (rule that)
      show "(if state (procs ?k1 (current ?k1)) = PROC_RUNNABLE
        then sched_class_enqueue c (current ?k1) ?k1 else Some ?k1) = Some k'"
        using k'(1) True by (simp add: sched_class_enqueue_def)
      show "queued k' = ?R" using k'(3) q1 ok True by (auto simp: sched_ok_def)
    qed (use k' in auto)
  next
    case False
    show ?thesis
    proof (rule that)
      show "(if state (procs ?k1 (current ?k1)) = PROC_RUNNABLE
        then sched_class_enqueue c (current ?k1) ?k1 else Some ?k1) = Some ?k1"
        using False by (auto simp: sched_class_enqueue_def)
      show "queued ?k1 = ?R" using q1 ok False by (auto simp: sched_ok_def)
    qed (use i1 in auto)
  qed
  from pick_law [OF i2] obtain r k3 where k3: "sc_pick_next c k2 = Some (r, k3)" "inv k3"
    "queued k3 = queued k2" "policy_frame k2 k3"
    and r: "case r of None \<Rightarrow> queued k2 = {} | Some p \<Rightarrow> p \<in> queued k2" by blast
  obtain k4 where k4: "(case r of Some p \<Rightarrow> sched_class_dequeue c p k3 | None \<Rightarrow> Some k3) = Some k4"
    "inv k4" "policy_frame k3 k4" "queued k4 = queued k3 - set_option r"
  proof (cases r)
    case None
    with k3 that [of k3] show ?thesis by simp
  next
    case (Some p)
    with r k3 have "p \<in> queued k3" by simp
    from dequeue_law [OF k3(2) this] Some that show ?thesis
      by (auto simp: sched_class_dequeue_def)
  qed
  have frame: "policy_frame ?k1 k4" using f2 k3(4) k4(3) by (blast intro: policy_frame_trans)
  define n where "n = (case r of Some p \<Rightarrow> p | None \<Rightarrow> idleproc k4)"
  define k5 where "k5 = upd_proc n (\<lambda>x. x\<lparr>runs := runs x + 1\<rparr>) k4"
  define k6 where "k6 = (if n \<noteq> current k5 then proc_run n k5 else k5)"
  have run: "schedule c k = Some k6"
    unfolding schedule_def sched_class_pick_next_def Let_def k2 k6_def k5_def n_def
    using k3(1) k4(1) by (simp add: Let_def)
  have q5: "queued k5 = queued k4" and i5: "inv k5"
    unfolding k5_def
    using upd_keeps [where f = "\<lambda>x. x\<lparr>runs := runs x + 1\<rparr>" and p = n and k = k4] k4(2) by simp_all
  have "current k6 = n" "procs k6 = procs k5" "idleproc k6 = idleproc k5"
    by (simp_all add: k6_def proc_run_def)
  moreover have "queued k6 = queued k5" "inv k6"
    using i5 current_keeps [where k = k5 and p = n] by (simp_all add: k6_def proc_run_def)
  moreover have "idleproc k5 = idleproc k4" by (simp add: k5_def)
  ultimately have six: "current k6 = n" "queued k6 = queued k4" "inv k6" "procs k6 = procs k5"
    "idleproc k6 = idleproc k4"
    using q5 by simp_all
  have er: "sched_erase (procs k6 q) = sched_erase (procs k q)" for q
    using frame by (simp add: six(4) k5_def policy_frame_def)
  note st = sched_eraseD(1) [OF er]
  have rest: "initproc k6 = initproc k" "timers k6 = timers k" "timer_list k6 = timer_list k"
    "kern.more k6 = kern.more k"
    using frame by (simp_all add: k6_def proc_run_def k5_def policy_frame_def)
  have r': "case r of None \<Rightarrow> ?R = {} | Some p \<Rightarrow> p \<in> ?R" using r q2 by (cases r) auto
  have idle: "idleproc k4 = idleproc k" using frame by (simp add: policy_frame_def)
  have "queued k6 = {p. state (procs k6 p) = PROC_RUNNABLE} - {current k6, idleproc k6}"
    unfolding six(1,2,5) st n_def using k4(4) k3(3) q2 idle by (cases r) auto
  then have "sched_ok queued k6" by (simp only: sched_ok_def)
  moreover have "if ?R = {} then current k6 = idleproc k
      else state (procs k (current k6)) = PROC_RUNNABLE \<and> current k6 \<noteq> idleproc k"
    unfolding six(1) n_def using r' idle by (cases r) auto
  ultimately show ?thesis using run six er idle rest by (intro exI [of _ k6]) simp
qed

lemma tick_ok:
  assumes "inv k" and "sched_ok queued k"
  shows "inv (sched_class_proc_tick c p k) \<and> sched_ok queued (sched_class_proc_tick c p k)"
  using assms tick_law [of k p] upd_keeps [where f = "\<lambda>p. p\<lparr>need_resched := True\<rparr>" and p = p and k = k]
  by (auto simp: sched_class_proc_tick_def sched_ok_def policy_frame_def)

lemma blocked_ok:
  assumes "inv k" and "sched_ok queued k"
    and "\<And>x. rq (f x) = rq x" "\<And>x. lab6_stride (f x) = lab6_stride x"
    "\<And>x. lab6_priority (f x) = lab6_priority x" "\<And>x. lab6_run_pool (f x) = lab6_run_pool x"
  shows "inv (upd_proc (current k) f k) \<and> sched_ok queued (upd_proc (current k) f k)"
proof -
  have "queued (upd_proc (current k) f k) = queued k" "inv (upd_proc (current k) f k)"
    using upd_keeps [where f = f and p = "current k" and k = k] assms by simp_all
  with assms(2) show ?thesis by (auto simp: sched_ok_def)
qed

lemma step_ok:
  assumes "sched_step c k k'" and "inv k" and "sched_ok queued k"
  shows "inv k' \<and> sched_ok queued k' \<and> idleproc k' = idleproc k"
  using assms
proof (induction rule: sched_step.induct)
  case (wake k p k')
  with wakeup_ok [of k p] show ?case by auto
next
  case (yield k k')
  with schedule_ok [of k] show ?case by auto
next
  case (tick k)
  with tick_ok [of k "current k"] tick_law [of k "current k"] show ?case
    by (auto simp: sched_class_proc_tick_def policy_frame_def)
next
  case (block k w k')
  let ?k = "upd_proc (current k) (\<lambda>x. x\<lparr>state := PROC_SLEEPING, wait_state := w\<rparr>) k"
  have "inv ?k \<and> sched_ok queued ?k" by (rule blocked_ok) (use block in auto)
  with schedule_ok [of ?k] block(2) show ?case by auto
next
  case (exit k e k')
  let ?k = "upd_proc (current k) (\<lambda>x. x\<lparr>state := PROC_ZOMBIE, exit_code := e\<rparr>) k"
  have "inv ?k \<and> sched_ok queued ?k" by (rule blocked_ok) (use exit in auto)
  with schedule_ok [of ?k] exit(2) show ?case by auto
qed

lemma reach_ok:
  assumes "sched_reach c k k'" and "inv k" and "sched_ok queued k"
  shows "inv k' \<and> sched_ok queued k' \<and> idleproc k' = idleproc k"
  using assms
proof (induction rule: sched_reach.induct)
  case (reach_step k k' k'')
  then have "inv k' \<and> sched_ok queued k' \<and> idleproc k' = idleproc k" by blast
  with step_ok [OF reach_step.hyps(2)] show ?case by simp
qed simp

end

end
