(* ===== verification/SchedRR.thy ===== *)
theory SchedRR
  imports Sched
begin

text \<open>
  The round-robin policy of \<open>lab8/kern/schedule/default_sched.c\<close>, the class the kernel runs with,
  its instance of the policy contract, and what is special to it: the order in which processes run
  and the length of a time slice.
\<close>

section \<open>The code\<close>

definition RR_init :: "'a kern_scheme \<Rightarrow> 'a kern_scheme" where
  "RR_init k = k\<lparr>run_list := [], proc_num := 0\<rparr>"

definition RR_enqueue :: "proc_ptr \<Rightarrow> 'a kern_scheme \<Rightarrow> 'a kern_scheme option" where
  "RR_enqueue proc k =
     do { kassert (proc \<notin> set (run_list k));  \<comment> \<open>\<open>list_empty(&(proc->run_link))\<close>\<close>
          let k1 = k\<lparr>run_list := run_list k @ [proc]\<rparr>;
          let k2 = (if time_slice (procs k1 proc) = 0 \<or>
                       time_slice (procs k1 proc) > max_time_slice k1
                    then upd_proc proc (\<lambda>p. p\<lparr>time_slice := max_time_slice k1\<rparr>) k1 else k1);
          let k3 = upd_proc proc (\<lambda>p. p\<lparr>rq := True\<rparr>) k2;
          Some (k3\<lparr>proc_num := proc_num k3 + 1\<rparr>) }"

definition RR_dequeue :: "proc_ptr \<Rightarrow> 'a kern_scheme \<Rightarrow> 'a kern_scheme option" where
  "RR_dequeue proc k =
     do { kassert (proc \<in> set (run_list k) \<and> rq (procs k proc));
          let k1 = k\<lparr>run_list := remove1 proc (run_list k)\<rparr>;
          Some (k1\<lparr>proc_num := proc_num k1 - 1\<rparr>) }"

definition RR_pick_next :: "'a kern_scheme \<Rightarrow> (proc_ptr option \<times> 'a kern_scheme) option" where
  "RR_pick_next k = Some (case run_list k of [] \<Rightarrow> None | p # _ \<Rightarrow> Some p, k)"

definition RR_proc_tick :: "proc_ptr \<Rightarrow> 'a kern_scheme \<Rightarrow> 'a kern_scheme" where
  "RR_proc_tick proc k =
     (let k1 = (if time_slice (procs k proc) > 0
                then upd_proc proc (\<lambda>p. p\<lparr>time_slice := time_slice p - 1\<rparr>) k else k)
      in if time_slice (procs k1 proc) = 0
         then upd_proc proc (\<lambda>p. p\<lparr>need_resched := True\<rparr>) k1 else k1)"

definition default_sched_class :: "'a sched_class" where
  "default_sched_class =
     \<lparr>sc_init = RR_init, sc_enqueue = RR_enqueue, sc_dequeue = RR_dequeue,
      sc_pick_next = RR_pick_next, sc_proc_tick = RR_proc_tick\<rparr>"

lemma default_sched_class_simps [simp]:
  "sc_init default_sched_class = RR_init" "sc_enqueue default_sched_class = RR_enqueue"
  "sc_dequeue default_sched_class = RR_dequeue" "sc_pick_next default_sched_class = RR_pick_next"
  "sc_proc_tick default_sched_class = RR_proc_tick"
  by (simp_all add: default_sched_class_def)

section \<open>The contract\<close>

definition RR_queued :: "'a kern_scheme \<Rightarrow> proc_ptr set" where
  "RR_queued k = set (run_list k)"

definition RR_inv :: "'a kern_scheme \<Rightarrow> bool" where
  "RR_inv k \<longleftrightarrow> distinct (run_list k) \<and> (\<forall>p \<in> set (run_list k). rq (procs k p)) \<and>
     proc_num k = of_nat (length (run_list k))"

lemma RR_enqueue_eq:
  assumes "p \<notin> set (run_list k)"
  shows "\<exists>k'. RR_enqueue p k = Some k' \<and> run_list k' = run_list k @ [p] \<and>
    proc_num k' = proc_num k + 1 \<and> rq (procs k' p) \<and> max_time_slice k' = max_time_slice k \<and>
    (\<forall>q. q \<noteq> p \<longrightarrow> procs k' q = procs k q) \<and> policy_frame k k' \<and>
    time_slice (procs k' p) = (if time_slice (procs k p) = 0 \<or> time_slice (procs k p) > max_time_slice k
      then max_time_slice k else time_slice (procs k p))"
  using assms by (simp add: RR_enqueue_def Let_def upd_proc_def policy_frame_def)

interpretation rr: sched_policy default_sched_class RR_queued RR_inv
proof unfold_locales
  fix k :: "'a kern_scheme" and p
  assume i: "RR_inv k" and p: "p \<notin> RR_queued k"
  from p obtain k' where k': "RR_enqueue p k = Some k'" "run_list k' = run_list k @ [p]"
    "proc_num k' = proc_num k + 1" "rq (procs k' p)" "policy_frame k k'"
    "\<forall>q. q \<noteq> p \<longrightarrow> procs k' q = procs k q"
    using RR_enqueue_eq [of p k] by (auto simp: RR_queued_def)
  moreover have "rq (procs k' q)" if "q \<in> set (run_list k)" for q
    using that i k'(4,6) by (cases "q = p") (auto simp: RR_inv_def)
  ultimately show "\<exists>k'. sc_enqueue default_sched_class p k = Some k' \<and> RR_inv k' \<and>
      RR_queued k' = insert p (RR_queued k) \<and> policy_frame k k'"
    using i p by (intro exI [of _ k']) (auto simp: RR_inv_def RR_queued_def)
next
  fix k :: "'a kern_scheme" and p
  assume i: "RR_inv k" and p: "p \<in> RR_queued k"
  have "length (run_list k) = Suc (length (remove1 p (run_list k)))"
    using p length_pos_if_in_set [of p "run_list k"] by (simp add: RR_queued_def length_remove1)
  then have "proc_num k - 1 = of_nat (length (remove1 p (run_list k)))"
    using i by (simp add: RR_inv_def)
  with i p show "\<exists>k'. sc_dequeue default_sched_class p k = Some k' \<and> RR_inv k' \<and>
      RR_queued k' = RR_queued k - {p} \<and> policy_frame k k'"
    by (auto simp: RR_dequeue_def RR_inv_def RR_queued_def policy_frame_def)
next
  fix k :: "'a kern_scheme"
  assume "RR_inv k"
  then show "\<exists>r k'. sc_pick_next default_sched_class k = Some (r, k') \<and> RR_inv k' \<and>
      RR_queued k' = RR_queued k \<and> policy_frame k k' \<and>
      (case r of None \<Rightarrow> RR_queued k = {} | Some p \<Rightarrow> p \<in> RR_queued k)"
    by (auto simp: RR_pick_next_def RR_queued_def split: list.splits)
next
  fix k :: "'a kern_scheme" and p
  assume "RR_inv k"
  then show "RR_inv (sc_proc_tick default_sched_class p k) \<and>
      RR_queued (sc_proc_tick default_sched_class p k) = RR_queued k \<and>
      policy_frame k (sc_proc_tick default_sched_class p k)"
    by (auto simp: RR_proc_tick_def RR_inv_def RR_queued_def policy_frame_def Let_def upd_proc_def)
next
  fix k k' :: "'a kern_scheme"
  assume "run_list k' = run_list k" "proc_num k' = proc_num k" "run_pool k' = run_pool k"
    "max_time_slice k' = max_time_slice k"
    "\<And>q. rq (procs k' q) = rq (procs k q) \<and> lab6_stride (procs k' q) = lab6_stride (procs k q) \<and>
      lab6_priority (procs k' q) = lab6_priority (procs k q) \<and>
      lab6_run_pool (procs k' q) = lab6_run_pool (procs k q)"
  then show "RR_queued k' = RR_queued k \<and> (RR_inv k \<longrightarrow> RR_inv k')"
    by (simp add: RR_queued_def RR_inv_def)
qed

section \<open>Properties\<close>

text \<open>A kernel with three processes: 0 is idle, 1 runs, 2 and 3 wait on the run queue.\<close>

definition blank_proc :: proc_struct where
  "blank_proc = \<lparr>state = PROC_UNINIT, pid = -1, runs = 0, kstack = 0, need_resched = False,
     parent = None, mm = None, pgdir = 0, pflags = 0, pname = [], exit_code = 0, wait_state = 0,
     cptr = None, yptr = None, optr = None, rq = False, time_slice = 0,
     lab6_run_pool = \<lparr>sk_parent = None, sk_left = None, sk_right = None\<rparr>, lab6_stride = 0,
     lab6_priority = 0, filesp = None\<rparr>"

definition rr_sample :: kern where
  "rr_sample = \<lparr>procs = (\<lambda>p. if p < 4 then blank_proc\<lparr>state := PROC_RUNNABLE, rq := True, time_slice := 2\<rparr>
       else blank_proc),
     current = 1, idleproc = 0, initproc = 1, run_list = [2, 3], proc_num = 2, max_time_slice = 5,
     run_pool = None, timers = (\<lambda>_. \<lparr>expires = 0, tproc = None\<rparr>), timer_list = []\<rparr>"

lemma rr_sample_ok: "RR_inv rr_sample" "sched_ok RR_queued rr_sample"
  by (auto simp: RR_inv_def sched_ok_def RR_queued_def rr_sample_def blank_proc_def)

text \<open>
  (C4) From any state in which the run queue is in order, whatever sequence of wake-ups, yields,
  clock ticks, sleeps and exits follows: the run queue holds exactly the runnable processes that are
  neither running nor idle, none of them twice, its length is \<open>proc_num\<close>, and a call of
  \<open>schedule\<close> meets no failing assertion.
\<close>

theorem rr_no_process_lost:
  fixes k :: "'a kern_scheme"
  assumes "sched_reach default_sched_class k k'" and "RR_inv k" and "sched_ok RR_queued k"
  shows "set (run_list k') = {p. state (procs k' p) = PROC_RUNNABLE} - {current k', idleproc k'} \<and>
    distinct (run_list k') \<and> proc_num k' = of_nat (length (run_list k')) \<and>
    schedule default_sched_class k' \<noteq> None"
  using rr.reach_ok [OF assms] rr.schedule_ok [of k']
  by (auto simp: RR_inv_def sched_ok_def RR_queued_def)

lemma rr_sample_reach:
  "\<exists>k'. sched_reach default_sched_class rr_sample k' \<and> current k' = 2 \<and> run_list k' = [3]"
proof -
  obtain k' where k': "schedule default_sched_class (upd_proc (current rr_sample)
      (\<lambda>x. x\<lparr>state := PROC_SLEEPING, wait_state := 0\<rparr>) rr_sample) = Some k'"
    "current k' = 2" "run_list k' = [3]"
    by (simp add: schedule_def sched_class_enqueue_def sched_class_pick_next_def
        sched_class_dequeue_def RR_pick_next_def RR_dequeue_def proc_run_def Let_def rr_sample_def
        blank_proc_def)
  have "current rr_sample \<noteq> idleproc rr_sample" by (simp add: rr_sample_def)
  then show ?thesis using k' by (blast intro: sched_reach.intros sched_step.block)
qed

theorem rr_no_process_lost_witness:
  "\<exists>k'. sched_reach default_sched_class rr_sample k' \<and> run_list k' = [3] \<and> current k' = 2 \<and>
     schedule default_sched_class k' \<noteq> None"
proof -
  obtain k' where k': "sched_reach default_sched_class rr_sample k'" "current k' = 2" "run_list k' = [3]"
    using rr_sample_reach by blast
  with rr_no_process_lost [OF k'(1) rr_sample_ok] show ?thesis by blast
qed

text \<open>Every process at position \<open>i\<close> of the queue runs after \<open>i + 1\<close> rounds of \<open>schedule\<close>.\<close>

primrec schedules :: "'a sched_class \<Rightarrow> nat \<Rightarrow> 'a kern_scheme \<Rightarrow> 'a kern_scheme option" where
  "schedules c 0 k = Some k"
| "schedules c (Suc n) k = do { k' \<leftarrow> schedule c k; schedules c n k' }"

lemma RR_schedule_front:
  fixes k :: "'a kern_scheme"
  assumes "RR_inv k" and "sched_ok RR_queued k" and "run_list k = p # xs"
  shows "\<exists>k' zs. schedule default_sched_class k = Some k' \<and> current k' = p \<and> run_list k' = xs @ zs \<and>
    RR_inv k' \<and> sched_ok RR_queued k' \<and> idleproc k' = idleproc k"
proof -
  have dist: "distinct (p # xs)" using assms(1,3) by (simp add: RR_inv_def)
  let ?k1 = "upd_proc (current k) (\<lambda>x. x\<lparr>need_resched := False\<rparr>) k"
  obtain k2 zs where k2: "(if state (procs ?k1 (current ?k1)) = PROC_RUNNABLE
      then sched_class_enqueue default_sched_class (current ?k1) ?k1 else Some ?k1) = Some k2"
    "run_list k2 = p # xs @ zs" "rq (procs k2 p)"
  proof (cases "state (procs k (current k)) = PROC_RUNNABLE \<and> current k \<noteq> idleproc k")
    case True
    have notin: "current k \<notin> set (run_list ?k1)"
      using assms(2) by (auto simp: sched_ok_def RR_queued_def)
    with assms(3) have "p \<noteq> current k" by auto
    then have "rq (procs ?k1 p)" using assms(1,3) by (simp add: RR_inv_def)
    with RR_enqueue_eq [OF notin] True assms(3) \<open>p \<noteq> current k\<close>
      that [where zs = "[current k]"] show ?thesis
      by (auto simp: sched_class_enqueue_def)
  next
    case False
    have "rq (procs ?k1 p)" using assms(1,3) by (auto simp: RR_inv_def)
    with False assms(3) that [of ?k1 "[]"] show ?thesis by (auto simp: sched_class_enqueue_def)
  qed
  obtain k' where run: "schedule default_sched_class k = Some k'" and
    ok: "RR_inv k'" "sched_ok RR_queued k'" "idleproc k' = idleproc k"
    using rr.schedule_ok [OF assms(1,2)] by blast
  have "current k' = p \<and> run_list k' = xs @ zs"
    using run k2(2,3) unfolding schedule_def Let_def k2(1)
    by (auto simp: sched_class_pick_next_def RR_pick_next_def sched_class_dequeue_def RR_dequeue_def
        Let_def proc_run_def split: if_splits)
  with run ok show ?thesis by blast
qed

text \<open>
  (C35) Round robin is fair: with the running process yielding or being preempted at each round, the
  process at position \<open>i\<close> of the run queue is the running one after exactly \<open>i + 1\<close> calls of
  \<open>schedule\<close>, whether or not the processes that run in between stay runnable.
\<close>

theorem rr_fair:
  fixes k :: "'a kern_scheme"
  assumes "RR_inv k" and "sched_ok RR_queued k" and "i < length (run_list k)"
  shows "\<exists>k'. schedules default_sched_class (Suc i) k = Some k' \<and> current k' = run_list k ! i"
  using assms
proof (induction i arbitrary: k)
  case 0
  then obtain p xs where "run_list k = p # xs" by (cases "run_list k") auto
  with RR_schedule_front [OF 0(1,2) this] show ?case by auto
next
  case (Suc i)
  then obtain p xs where xs: "run_list k = p # xs" by (cases "run_list k") auto
  from RR_schedule_front [OF Suc.prems(1,2) xs] obtain k' zs where
    k': "schedule default_sched_class k = Some k'" "run_list k' = xs @ zs" "RR_inv k'"
      "sched_ok RR_queued k'" by blast
  have "i < length (run_list k')" "run_list k' ! i = run_list k ! Suc i"
    using Suc.prems(3) xs k'(2) by (simp_all add: nth_append)
  with Suc.IH [OF k'(3,4)] show ?case using k'(1)
    by (simp del: schedules.simps add: schedules.simps(2) [of _ "Suc i"])
qed

theorem rr_fair_witness:
  "\<exists>k'. schedules default_sched_class 2 rr_sample = Some k' \<and> current k' = 3"
  using rr_fair [OF rr_sample_ok, of 1] by (simp add: rr_sample_def numeral_2_eq_2)

text \<open>
  A process enters the queue with a time slice between 1 and \<open>max_time_slice\<close>, and while it
  runs, \<open>n\<close> clock ticks leave \<open>n\<close> less of a slice of \<open>m\<close>, raising \<open>need_resched\<close> exactly when the
  slice is used up.
\<close>

theorem rr_time_slice:
  fixes k :: "'a kern_scheme"
  assumes "time_slice (procs k p) = int m" and "\<not> need_resched (procs k p)" and "p \<noteq> idleproc k"
    and "0 < n" and "n \<le> m"
  shows "time_slice (procs ((sched_class_proc_tick default_sched_class p ^^ n) k) p) = int (m - n) \<and>
    (need_resched (procs ((sched_class_proc_tick default_sched_class p ^^ n) k) p) \<longleftrightarrow> n = m)"
proof -
  have "time_slice (procs ((sched_class_proc_tick default_sched_class p ^^ n) k) p) = int (m - n) \<and>
    (need_resched (procs ((sched_class_proc_tick default_sched_class p ^^ n) k) p) \<longleftrightarrow> 0 < n \<and> n = m) \<and>
    idleproc ((sched_class_proc_tick default_sched_class p ^^ n) k) = idleproc k" if "n \<le> m" for n
    using that
  proof (induction n)
    case 0
    then show ?case using assms by simp
  next
    case (Suc n)
    define kn where "kn = (sched_class_proc_tick default_sched_class p ^^ n) k"
    have "time_slice (procs kn p) = int (m - n)" "\<not> need_resched (procs kn p)"
      "idleproc kn = idleproc k" "n < m"
      using Suc by (auto simp: kn_def)
    then have "time_slice (procs (sched_class_proc_tick default_sched_class p kn) p) = int (m - Suc n) \<and>
      (need_resched (procs (sched_class_proc_tick default_sched_class p kn) p) \<longleftrightarrow> Suc n = m) \<and>
      idleproc (sched_class_proc_tick default_sched_class p kn) = idleproc k"
      using assms(3) by (auto simp: sched_class_proc_tick_def RR_proc_tick_def Let_def)
    then show ?case by (simp add: kn_def)
  qed
  then show ?thesis using assms(4,5) by simp
qed

theorem rr_time_slice_witness:
  "need_resched (procs ((sched_class_proc_tick default_sched_class 1 ^^ 2) rr_sample) 1)"
  using rr_time_slice [of rr_sample 1 2 2] by (simp add: rr_sample_def blank_proc_def)

end
