(* ===== verification/SchedStride.thy ===== *)
theory SchedStride
  imports Sched SchedRR
begin

text \<open>
  The stride policy of \<open>lab6/kern/schedule/default_sched_stride.c\<close>, on the skew heap of process
  entries: an instance of the policy contract, and, while the strides stay within half the range of
  a 32-bit word of each other, least stride first.
\<close>

section \<open>The code\<close>

definition BIG_STRIDE :: u32 where "BIG_STRIDE = 0x7FFFFFFF"

definition proc_stride_comp_f :: "'a kern_scheme \<Rightarrow> proc_ptr \<Rightarrow> proc_ptr \<Rightarrow> int" where
  "proc_stride_comp_f k a b =
     (let c = lab6_stride (procs k a) - lab6_stride (procs k b) in
      if sint c > 0 then 1 else if c = 0 then 0 else -1)"

text \<open>The store of heap entries inside the process structures.\<close>

definition pool_nodes :: "'a kern_scheme \<Rightarrow> skew_store" where
  "pool_nodes k = (\<lambda>p. lab6_run_pool (procs k p))"

definition put_pool :: "nat option \<times> skew_store \<Rightarrow> 'a kern_scheme \<Rightarrow> 'a kern_scheme" where
  "put_pool r k = k\<lparr>run_pool := fst r, procs := (\<lambda>p. (procs k p)\<lparr>lab6_run_pool := snd r p\<rparr>)\<rparr>"

definition stride_init :: "'a kern_scheme \<Rightarrow> 'a kern_scheme" where
  "stride_init k = k\<lparr>run_list := [], run_pool := None, proc_num := 0\<rparr>"

definition stride_enqueue :: "proc_ptr \<Rightarrow> 'a kern_scheme \<Rightarrow> 'a kern_scheme option" where
  "stride_enqueue proc k =
     do { r \<leftarrow> skew_heap_insert (proc_stride_comp_f k) (run_pool k) proc (pool_nodes k);
          let k1 = put_pool r k;
          let k2 = (if time_slice (procs k1 proc) = 0 \<or>
                       time_slice (procs k1 proc) > max_time_slice k1
                    then upd_proc proc (\<lambda>p. p\<lparr>time_slice := max_time_slice k1\<rparr>) k1 else k1);
          let k3 = upd_proc proc (\<lambda>p. p\<lparr>rq := True\<rparr>) k2;
          Some (k3\<lparr>proc_num := proc_num k3 + 1\<rparr>) }"

definition stride_dequeue :: "proc_ptr \<Rightarrow> 'a kern_scheme \<Rightarrow> 'a kern_scheme option" where
  "stride_dequeue proc k =
     do { r \<leftarrow> skew_heap_remove (proc_stride_comp_f k) (run_pool k) proc (pool_nodes k);
          let k1 = put_pool r k;
          Some (k1\<lparr>proc_num := proc_num k1 - 1\<rparr>) }"

definition stride_pick_next :: "'a kern_scheme \<Rightarrow> (proc_ptr option \<times> 'a kern_scheme) option" where
  "stride_pick_next k =
     (case run_pool k of
        None \<Rightarrow> Some (None, k)
      | Some p \<Rightarrow>
          Some (Some p,
            if lab6_priority (procs k p) > 0
            then upd_proc p (\<lambda>x. x\<lparr>lab6_stride := lab6_stride x + BIG_STRIDE div lab6_priority x\<rparr>) k
            else upd_proc p (\<lambda>x. x\<lparr>lab6_stride := lab6_stride x + BIG_STRIDE\<rparr>) k))"

definition stride_proc_tick :: "proc_ptr \<Rightarrow> 'a kern_scheme \<Rightarrow> 'a kern_scheme" where
  "stride_proc_tick proc k =
     (let k1 = (if time_slice (procs k proc) > 0
                then upd_proc proc (\<lambda>p. p\<lparr>time_slice := time_slice p - 1\<rparr>) k else k)
      in if time_slice (procs k1 proc) = 0
         then upd_proc proc (\<lambda>p. p\<lparr>need_resched := True\<rparr>) k1 else k1)"

definition stride_sched_class :: "'a sched_class" where
  "stride_sched_class =
     \<lparr>sc_init = stride_init, sc_enqueue = stride_enqueue, sc_dequeue = stride_dequeue,
      sc_pick_next = stride_pick_next, sc_proc_tick = stride_proc_tick\<rparr>"

lemma stride_sched_class_simps [simp]:
  "sc_init stride_sched_class = stride_init" "sc_enqueue stride_sched_class = stride_enqueue"
  "sc_dequeue stride_sched_class = stride_dequeue" "sc_pick_next stride_sched_class = stride_pick_next"
  "sc_proc_tick stride_sched_class = stride_proc_tick"
  by (simp_all add: stride_sched_class_def)

lemma pool_nodes_put [simp]: "pool_nodes (put_pool r k) = snd r" "pool_nodes (k\<lparr>proc_num := n\<rparr>) = pool_nodes k"
  by (simp_all add: pool_nodes_def put_pool_def)

lemma put_pool_simps [simp]:
  "run_pool (put_pool r k) = fst r" "current (put_pool r k) = current k"
  "idleproc (put_pool r k) = idleproc k" "initproc (put_pool r k) = initproc k"
  "timers (put_pool r k) = timers k" "timer_list (put_pool r k) = timer_list k"
  "kern.more (put_pool r k) = kern.more k" "max_time_slice (put_pool r k) = max_time_slice k"
  "proc_num (put_pool r k) = proc_num k" "run_list (put_pool r k) = run_list k"
  "procs (put_pool r k) p = (procs k p)\<lparr>lab6_run_pool := snd r p\<rparr>"
  by (simp_all add: put_pool_def)

section \<open>The contract\<close>

inductive_set pool_set :: "skew_store \<Rightarrow> nat option \<Rightarrow> nat set" for s and a where
  root: "a = Some x \<Longrightarrow> x \<in> pool_set s a"
| left: "x \<in> pool_set s a \<Longrightarrow> sk_left (s x) = Some y \<Longrightarrow> y \<in> pool_set s a"
| right: "x \<in> pool_set s a \<Longrightarrow> sk_right (s x) = Some y \<Longrightarrow> y \<in> pool_set s a"

lemma sk_rep_child:
  "sk_rep s a t \<Longrightarrow> x \<in> set_tree t \<Longrightarrow> sk_left (s x) = Some y \<or> sk_right (s x) = Some y \<Longrightarrow> y \<in> set_tree t"
proof (induction t arbitrary: a)
  case (Node l z r)
  then show ?case by (cases "x = z") (auto dest: sk_rep_root)
qed simp

lemma pool_set_tree: "sk_rep s a t \<Longrightarrow> pool_set s a = set_tree t"
proof
  assume rep: "sk_rep s a t"
  show "pool_set s a \<subseteq> set_tree t"
  proof
    fix x assume "x \<in> pool_set s a"
    then show "x \<in> set_tree t"
    proof induction
      case (root x)
      then show ?case using sk_rep_root [OF rep] by simp
    next
      case (left x y)
      show ?case by (rule sk_rep_child [OF rep left.IH]) (simp add: left.hyps)
    next
      case (right x y)
      show ?case by (rule sk_rep_child [OF rep right.IH]) (simp add: right.hyps)
    qed
  qed
  have "set_tree t' \<subseteq> pool_set s a" if "sk_rep s b t'" "\<And>x. b = Some x \<Longrightarrow> x \<in> pool_set s a" for b t'
    using that
  proof (induction t' arbitrary: b)
    case (Node l x r)
    have "x \<in> pool_set s a" using Node.prems by simp
    have reps: "sk_rep s (sk_left (s x)) l" "sk_rep s (sk_right (s x)) r" using Node.prems(1) by auto
    have "set_tree l \<subseteq> pool_set s a"
      by (rule Node.IH(1) [OF reps(1)]) (rule pool_set.left [OF \<open>x \<in> pool_set s a\<close>])
    moreover have "set_tree r \<subseteq> pool_set s a"
      by (rule Node.IH(2) [OF reps(2)]) (rule pool_set.right [OF \<open>x \<in> pool_set s a\<close>])
    ultimately show ?case using \<open>x \<in> pool_set s a\<close> by simp
  qed simp
  from this [OF rep pool_set.root] show "set_tree t \<subseteq> pool_set s a" by blast
qed

definition stride_queued :: "'a kern_scheme \<Rightarrow> proc_ptr set" where
  "stride_queued k = pool_set (pool_nodes k) (run_pool k)"

definition pool_rep :: "'a kern_scheme \<Rightarrow> nat tree \<Rightarrow> bool" where
  "pool_rep k t \<longleftrightarrow> sk_rep (pool_nodes k) (run_pool k) t \<and> sk_distinct t \<and>
     (\<forall>z. run_pool k = Some z \<longrightarrow> sk_parent (pool_nodes k z) = None) \<and> proc_num k = of_nat (size t)"

definition stride_inv :: "'a kern_scheme \<Rightarrow> bool" where
  "stride_inv k \<longleftrightarrow> (\<exists>t. pool_rep k t)"

lemma queued_tree: "pool_rep k t \<Longrightarrow> stride_queued k = set_tree t"
  by (simp add: stride_queued_def pool_rep_def pool_set_tree)

lemma stride_enqueue_eq:
  assumes rep: "pool_rep k t" and p: "p \<notin> set_tree t"
  shows "\<exists>k'. stride_enqueue p k = Some k' \<and> pool_rep k' (sk_merge (proc_stride_comp_f k) t (Node Leaf p Leaf)) \<and>
    policy_frame k k' \<and> (\<forall>q. lab6_stride (procs k' q) = lab6_stride (procs k q) \<and>
      lab6_priority (procs k' q) = lab6_priority (procs k q))"
proof -
  let ?t = "sk_merge (proc_stride_comp_f k) t (Node Leaf p Leaf)"
  have d: "sk_distinct t" and n: "proc_num k = of_nat (size t)" using rep by (simp_all add: pool_rep_def)
  from rep p obtain c s' where r:
    "skew_heap_insert (proc_stride_comp_f k) (run_pool k) p (pool_nodes k) = Some (c, s')"
    "sk_rep s' c ?t" "\<forall>z. c = Some z \<longrightarrow> sk_parent (s' z) = (if z = p then None else sk_parent (pool_nodes k z))"
    "\<forall>z. z \<notin> set_tree t \<union> {p} \<longrightarrow> s' z = pool_nodes k z"
    using skew_heap_insert_rep [of "pool_nodes k" "run_pool k" t p "proc_stride_comp_f k"]
    by (auto simp: pool_rep_def)
  have top: "sk_parent (s' z) = None" if "c = Some z" for z
  proof (cases "z = p")
    case False
    have "run_pool k = Some z"
    proof (cases t)
      case Leaf
      with r(2) that False show ?thesis by simp
    next
      case (Node l x r')
      then have "run_pool k = Some x" using rep by (simp add: pool_rep_def)
      moreover have "c = Some x \<or> c = Some p"
        using r(2) unfolding Node by (simp split: if_splits)
      ultimately show ?thesis using that False by auto
    qed
    then show ?thesis using r(3) that False rep by (simp add: pool_rep_def)
  qed (use r(3) that in simp)
  define k1 where "k1 = put_pool (c, s') k"
  define k2 where "k2 = (if time_slice (procs k1 p) = 0 \<or> time_slice (procs k1 p) > max_time_slice k1
                    then upd_proc p (\<lambda>p. p\<lparr>time_slice := max_time_slice k1\<rparr>) k1 else k1)"
  define k3 where "k3 = upd_proc p (\<lambda>p. p\<lparr>rq := True\<rparr>) k2"
  have run: "stride_enqueue p k = Some (k3\<lparr>proc_num := proc_num k3 + 1\<rparr>)"
    unfolding k3_def k2_def k1_def by (simp add: stride_enqueue_def r(1) Let_def)
  have nodes: "pool_nodes k3 = s'" "run_pool k3 = c" "proc_num k3 = proc_num k"
    by (auto simp: k3_def k2_def k1_def pool_nodes_def fun_eq_iff)
  have "pool_rep (k3\<lparr>proc_num := proc_num k3 + 1\<rparr>) ?t"
    using r(2) top nodes d p n by (auto simp: pool_rep_def distinct_merge size_merge)
  moreover have "policy_frame k k3 \<and> (\<forall>q. lab6_stride (procs k3 q) = lab6_stride (procs k q) \<and>
      lab6_priority (procs k3 q) = lab6_priority (procs k q))"
    by (auto simp: policy_frame_def k3_def k2_def k1_def upd_proc_def)
  ultimately show ?thesis unfolding run by (simp add: policy_frame_def)
qed

lemma size_remove: "sk_distinct t \<Longrightarrow> b \<in> set_tree t \<Longrightarrow> size t = Suc (size (sk_remove cmp b t))"
proof -
  assume d: "sk_distinct t" and b: "b \<in> set_tree t"
  have "size u = card (set_tree u)" if "sk_distinct u" for u :: "nat tree"
    using distinct_card [OF that] by simp
  with set_remove [OF d] distinct_remove [OF d] d b show ?thesis
    by (metis card_Suc_Diff1 finite_set_tree)
qed

lemma stride_dequeue_eq:
  assumes rep: "pool_rep k t" and p: "p \<in> set_tree t"
  shows "\<exists>k'. stride_dequeue p k = Some k' \<and> pool_rep k' (sk_remove (proc_stride_comp_f k) p t) \<and>
    policy_frame k k' \<and> (\<forall>q. lab6_stride (procs k' q) = lab6_stride (procs k q) \<and>
      lab6_priority (procs k' q) = lab6_priority (procs k q))"
proof -
  have d: "sk_distinct t" and n: "proc_num k = of_nat (size t)" using rep by (simp_all add: pool_rep_def)
  from rep p obtain c s' where r:
    "skew_heap_remove (proc_stride_comp_f k) (run_pool k) p (pool_nodes k) = Some (c, s')"
    "sk_rep s' c (sk_remove (proc_stride_comp_f k) p t)" "\<forall>z. c = Some z \<longrightarrow> sk_parent (s' z) = None"
    using skew_heap_remove_rep [of "pool_nodes k" "run_pool k" t p "proc_stride_comp_f k"]
    by (auto simp: pool_rep_def)
  let ?k = "(put_pool (c, s') k)\<lparr>proc_num := proc_num k - 1\<rparr>"
  have "stride_dequeue p k = Some ?k" by (simp add: stride_dequeue_def r(1) Let_def)
  moreover have "proc_num k - 1 = of_nat (size (sk_remove (proc_stride_comp_f k) p t))"
    unfolding n size_remove [OF d p, of "proc_stride_comp_f k"] by simp
  then have "pool_rep ?k (sk_remove (proc_stride_comp_f k) p t)"
    using r(2,3) d by (simp add: pool_rep_def distinct_remove)
  ultimately show ?thesis by (simp add: policy_frame_def)
qed

lemma pool_rep_local:
  "run_pool k' = run_pool k \<Longrightarrow> proc_num k' = proc_num k \<Longrightarrow>
   (\<And>q. lab6_run_pool (procs k' q) = lab6_run_pool (procs k q)) \<Longrightarrow> pool_rep k' t = pool_rep k t"
  by (simp add: pool_rep_def pool_nodes_def)

interpretation stride: sched_policy stride_sched_class stride_queued stride_inv
proof unfold_locales
  fix k :: "'a kern_scheme" and p
  assume "stride_inv k" and p: "p \<notin> stride_queued k"
  then obtain t where t: "pool_rep k t" by (auto simp: stride_inv_def)
  with p queued_tree have "p \<notin> set_tree t" by blast
  from stride_enqueue_eq [OF t this] show "\<exists>k'. sc_enqueue stride_sched_class p k = Some k' \<and> stride_inv k' \<and>
      stride_queued k' = insert p (stride_queued k) \<and> policy_frame k k'"
    using queued_tree [OF t] queued_tree by (fastforce simp: stride_inv_def)
next
  fix k :: "'a kern_scheme" and p
  assume "stride_inv k" and p: "p \<in> stride_queued k"
  then obtain t where t: "pool_rep k t" by (auto simp: stride_inv_def)
  with p queued_tree have pt: "p \<in> set_tree t" by blast
  have d: "sk_distinct t" using t by (simp add: pool_rep_def)
  from stride_dequeue_eq [OF t pt] show "\<exists>k'. sc_dequeue stride_sched_class p k = Some k' \<and> stride_inv k' \<and>
      stride_queued k' = stride_queued k - {p} \<and> policy_frame k k'"
    using queued_tree [OF t] queued_tree set_remove [OF d] by (fastforce simp: stride_inv_def)
next
  fix k :: "'a kern_scheme"
  assume "stride_inv k"
  then obtain t where t: "pool_rep k t" by (auto simp: stride_inv_def)
  show "\<exists>r k'. sc_pick_next stride_sched_class k = Some (r, k') \<and> stride_inv k' \<and>
      stride_queued k' = stride_queued k \<and> policy_frame k k' \<and>
      (case r of None \<Rightarrow> stride_queued k = {} | Some p \<Rightarrow> p \<in> stride_queued k)"
  proof (cases "run_pool k")
    case None
    with t have "t = Leaf" by (simp add: pool_rep_def sk_rep_root_None)
    with None t queued_tree [OF t] show ?thesis by (auto simp: stride_pick_next_def stride_inv_def)
  next
    case (Some p)
    obtain k' where k': "stride_pick_next k = Some (Some p, k')" "run_pool k' = run_pool k"
      "proc_num k' = proc_num k" "\<And>q. lab6_run_pool (procs k' q) = lab6_run_pool (procs k q)"
      "policy_frame k k'"
      using Some by (auto simp: stride_pick_next_def policy_frame_def upd_proc_def split: if_splits)
    have t': "pool_rep k' t" using pool_rep_local k'(2-4) t by blast
    have "p \<in> set_tree t" using t Some sk_rep_root by (auto simp: pool_rep_def)
    with k' t' queued_tree [OF t] queued_tree [OF t'] show ?thesis by (auto simp: stride_inv_def)
  qed
next
  fix k :: "'a kern_scheme" and p
  assume "stride_inv k"
  moreover have "pool_rep (stride_proc_tick p k) t = pool_rep k t" for t
    by (rule pool_rep_local) (auto simp: stride_proc_tick_def Let_def)
  moreover have "stride_queued (stride_proc_tick p k) = stride_queued k"
    by (auto simp: stride_queued_def stride_proc_tick_def Let_def pool_nodes_def upd_proc_def
        intro!: arg_cong2 [where f = pool_set])
  ultimately show "stride_inv (sc_proc_tick stride_sched_class p k) \<and>
      stride_queued (sc_proc_tick stride_sched_class p k) = stride_queued k \<and>
      policy_frame k (sc_proc_tick stride_sched_class p k)"
    by (auto simp: stride_inv_def stride_proc_tick_def policy_frame_def Let_def upd_proc_def)
next
  fix k k' :: "'a kern_scheme"
  assume "run_list k' = run_list k" "proc_num k' = proc_num k" "run_pool k' = run_pool k"
    "max_time_slice k' = max_time_slice k"
    "\<And>q. rq (procs k' q) = rq (procs k q) \<and> lab6_stride (procs k' q) = lab6_stride (procs k q) \<and>
      lab6_priority (procs k' q) = lab6_priority (procs k q) \<and>
      lab6_run_pool (procs k' q) = lab6_run_pool (procs k q)"
  then show "stride_queued k' = stride_queued k \<and> (stride_inv k \<longrightarrow> stride_inv k')"
    by (simp add: stride_queued_def stride_inv_def pool_rep_def pool_nodes_def)
qed

section \<open>Least stride first\<close>

text \<open>
  Strides wrap around, so an order on them exists only relative to a base. The invariant: within half
  the range above some base lie the strides of all runnable processes, and the heap is ordered by the
  distance from it.
\<close>

definition stride_off :: "u32 \<Rightarrow> 'a kern_scheme \<Rightarrow> proc_ptr \<Rightarrow> nat" where
  "stride_off base k p = unat (lab6_stride (procs k p) - base)"

definition runnables :: "'a kern_scheme \<Rightarrow> proc_ptr set" where
  "runnables k = {p. state (procs k p) = PROC_RUNNABLE} - {idleproc k}"

definition stride_ok :: "u32 \<Rightarrow> 'a kern_scheme \<Rightarrow> bool" where
  "stride_ok base k \<longleftrightarrow> (\<exists>t. pool_rep k t \<and> sk_heap (stride_off base k) t) \<and>
     (\<forall>p \<in> runnables k. stride_off base k p \<le> 0x7FFFFFFF)"

definition stride_pass :: "proc_struct \<Rightarrow> u32" where
  "stride_pass x = (if lab6_priority x > 0 then BIG_STRIDE div lab6_priority x else BIG_STRIDE)"

lemma stride_pass_le: "unat (stride_pass x) \<le> 0x7FFFFFFF"
proof -
  have "unat (BIG_STRIDE div y) \<le> unat BIG_STRIDE" for y
    by (simp add: unat_div)
  then show ?thesis by (simp add: stride_pass_def BIG_STRIDE_def)
qed

lemma sint_diff:
  fixes x y :: u32
  assumes "unat x \<le> 0x7FFFFFFF" "unat y \<le> 0x7FFFFFFF"
  shows "sint (x - y) = int (unat x) - int (unat y)"
proof -
  have "int (unat x) \<le> 0x7FFFFFFF" "int (unat y) \<le> 0x7FFFFFFF" using assms by linarith+
  then have "uint x \<le> 0x7FFFFFFF" "uint y \<le> 0x7FFFFFFF" by simp_all
  moreover have "0 \<le> uint x" "0 \<le> uint y" by simp_all
  ultimately have "- 2147483648 \<le> uint x - uint y" "uint x - uint y < 2147483648" by linarith+
  then have "signed_take_bit 31 (uint x - uint y) = uint x - uint y"
    by (intro signed_take_bit_int_eq_self) simp_all
  moreover have "x - y = word_of_int (uint x - uint y)" by simp
  ultimately show ?thesis
    using sint_sbintrunc' [where 'a=32 and bin="uint x - uint y"] by simp
qed

lemma comp_less:
  assumes "stride_off base k a \<le> 0x7FFFFFFF" and "stride_off base k b \<le> 0x7FFFFFFF"
  shows "proc_stride_comp_f k a b = -1 \<longleftrightarrow> stride_off base k a < stride_off base k b"
proof -
  let ?x = "lab6_stride (procs k a) - base" and ?y = "lab6_stride (procs k b) - base"
  have e: "lab6_stride (procs k a) - lab6_stride (procs k b) = ?x - ?y" by simp
  have s: "sint (?x - ?y) = int (unat ?x) - int (unat ?y)"
    by (rule sint_diff) (use assms in \<open>simp_all add: stride_off_def\<close>)
  have z: "?x - ?y = 0 \<longleftrightarrow> unat ?x = unat ?y" unfolding right_minus_eq by (rule word_unat_eq_iff)
  define i j where "i = unat ?x" and "j = unat ?y"
  show ?thesis
    unfolding proc_stride_comp_f_def Let_def e stride_off_def s z i_def [symmetric] j_def [symmetric]
    by auto
qed

lemma cmp_keys_stride:
  assumes "\<forall>p \<in> A. stride_off base k p \<le> 0x7FFFFFFF"
  shows "cmp_keys (proc_stride_comp_f k) (stride_off base k) A"
  unfolding cmp_keys_def using comp_less assms by blast

lemma heap_mono:
  "sk_heap key t \<Longrightarrow> (\<And>x y. x \<in> set_tree t \<Longrightarrow> y \<in> set_tree t \<Longrightarrow> key x \<le> key y \<Longrightarrow> key' x \<le> key' y) \<Longrightarrow>
   sk_heap key' t"
  by (induction t) auto

text \<open>Moving the base up to a stride below all others.\<close>

lemma stride_off_rebase:
  assumes "stride_off base k m \<le> stride_off base k x"
    and "lab6_stride (procs k' x) = lab6_stride (procs k x)"
  shows "stride_off (lab6_stride (procs k m)) k' x = stride_off base k x - stride_off base k m"
proof -
  let ?m = "lab6_stride (procs k m) - base" and ?x = "lab6_stride (procs k x) - base"
  have "?m \<le> ?x" using assms(1) by (simp add: stride_off_def word_le_nat_alt)
  have e: "lab6_stride (procs k x) - lab6_stride (procs k m) = ?x - ?m" by simp
  show ?thesis unfolding stride_off_def assms(2) e using \<open>?m \<le> ?x\<close> by (rule unat_sub)
qed

text \<open>The running process, if it can still run, is put back into the pool.\<close>

lemma stride_put_back:
  fixes k :: "'a kern_scheme"
  assumes "stride_ok base k" and "sched_ok stride_queued k"
  shows "\<exists>k2 t. (let k1 = upd_proc (current k) (\<lambda>x. x\<lparr>need_resched := False\<rparr>) k in
      if state (procs k1 (current k1)) = PROC_RUNNABLE
      then sched_class_enqueue stride_sched_class (current k1) k1 else Some k1) = Some k2 \<and>
    pool_rep k2 t \<and> sk_heap (stride_off base k2) t \<and> set_tree t = runnables k \<and> policy_frame k k2 \<and>
    (\<forall>q. lab6_stride (procs k2 q) = lab6_stride (procs k q) \<and>
         lab6_priority (procs k2 q) = lab6_priority (procs k q))"
proof -
  let ?k1 = "upd_proc (current k) (\<lambda>x. x\<lparr>need_resched := False\<rparr>) k"
  from assms(1) obtain t where t: "pool_rep k t" "sk_heap (stride_off base k) t"
    and win: "\<forall>p \<in> runnables k. stride_off base k p \<le> 0x7FFFFFFF" by (auto simp: stride_ok_def)
  have t1: "pool_rep ?k1 t" using t(1) pool_rep_local [of ?k1 k] by simp
  have set: "set_tree t = runnables k - {current k}"
    using queued_tree [OF t(1)] assms(2) unfolding sched_ok_def runnables_def by blast
  have off: "stride_off base k' = stride_off base k"
    if "\<forall>q. lab6_stride (procs k' q) = lab6_stride (procs k q)" for k' :: "'a kern_scheme"
    using that by (simp add: stride_off_def fun_eq_iff)
  show ?thesis
  proof (cases "current k \<in> runnables k")
    case True
    then have "current k \<notin> set_tree t" using set by simp
    from stride_enqueue_eq [OF t1 this] obtain k2 where k2: "stride_enqueue (current k) ?k1 = Some k2"
      "pool_rep k2 (sk_merge (proc_stride_comp_f ?k1) t (Node Leaf (current k) Leaf))"
      "policy_frame ?k1 k2" "\<forall>q. lab6_stride (procs k2 q) = lab6_stride (procs ?k1 q) \<and>
         lab6_priority (procs k2 q) = lab6_priority (procs ?k1 q)" by blast
    have same: "\<forall>q. lab6_stride (procs k2 q) = lab6_stride (procs k q) \<and>
         lab6_priority (procs k2 q) = lab6_priority (procs k q)" using k2(4) by simp
    have "set_tree t \<union> set_tree (Node Leaf (current k) Leaf) = runnables k" using set True by auto
    moreover have "cmp_keys (proc_stride_comp_f ?k1) (stride_off base ?k1) (runnables k)"
      by (rule cmp_keys_stride) (use win off [of ?k1] in simp)
    ultimately have "sk_heap (stride_off base k2) (sk_merge (proc_stride_comp_f ?k1) t (Node Leaf (current k) Leaf))"
      using off [of k2] off [of ?k1] same t(2) by (intro heap_merge) simp_all
    moreover have "policy_frame k k2" using k2(3) by (simp add: policy_frame_def)
    moreover have "(if state (procs ?k1 (current ?k1)) = PROC_RUNNABLE
        then sched_class_enqueue stride_sched_class (current ?k1) ?k1 else Some ?k1) = Some k2"
      using True k2(1) by (simp add: sched_class_enqueue_def runnables_def)
    moreover have "set_tree (sk_merge (proc_stride_comp_f ?k1) t (Node Leaf (current k) Leaf)) = runnables k"
      using set True by auto
    ultimately show ?thesis unfolding Let_def using k2(2) same by blast
  next
    case False
    have "sk_heap (stride_off base ?k1) t" using off [of ?k1] t(2) by simp
    moreover have "policy_frame k ?k1" by (simp add: policy_frame_def)
    moreover have "set_tree t = runnables k" using set False by blast
    moreover have "(if state (procs ?k1 (current ?k1)) = PROC_RUNNABLE
        then sched_class_enqueue stride_sched_class (current ?k1) ?k1 else Some ?k1) = Some ?k1"
      using False by (auto simp: sched_class_enqueue_def runnables_def)
    ultimately show ?thesis unfolding Let_def using t1
      by (intro exI [of _ ?k1] exI [of _ t]) simp
  qed
qed

lemma stride_schedule:
  fixes k :: "'a kern_scheme"
  assumes ok: "stride_ok base k" and sched: "sched_ok stride_queued k" and some: "runnables k \<noteq> {}"
  shows "\<exists>k' m. schedule stride_sched_class k = Some k' \<and> current k' = m \<and> m \<in> runnables k \<and>
    (\<forall>p \<in> runnables k. stride_off base k m \<le> stride_off base k p) \<and>
    lab6_stride (procs k' m) = lab6_stride (procs k m) + stride_pass (procs k m) \<and>
    (\<forall>q. q \<noteq> m \<longrightarrow> lab6_stride (procs k' q) = lab6_stride (procs k q)) \<and>
    runnables k' = runnables k \<and> stride_ok (lab6_stride (procs k m)) k' \<and> sched_ok stride_queued k'"
proof -
  from stride_put_back [OF ok sched] obtain k2 t where
    k2: "(let k1 = upd_proc (current k) (\<lambda>x. x\<lparr>need_resched := False\<rparr>) k in
      if state (procs k1 (current k1)) = PROC_RUNNABLE
      then sched_class_enqueue stride_sched_class (current k1) k1 else Some k1) = Some k2"
    and t: "pool_rep k2 t" "sk_heap (stride_off base k2) t" "set_tree t = runnables k" "policy_frame k k2"
    and same2: "\<And>q. lab6_stride (procs k2 q) = lab6_stride (procs k q)"
      "\<And>q. lab6_priority (procs k2 q) = lab6_priority (procs k q)" by blast
  obtain l m r where node: "t = Node l m r" using some t(3) by (cases t) auto
  have m: "run_pool k2 = Some m" using t(1) by (simp add: node pool_rep_def)
  have off2: "stride_off base k2 = stride_off base k" by (simp add: stride_off_def same2 fun_eq_iff)
  have least: "stride_off base k m \<le> stride_off base k p" if "p \<in> runnables k" for p
    using that t(2,3) off2 unfolding node by auto
  define k3 where "k3 = upd_proc m (\<lambda>x. x\<lparr>lab6_stride := lab6_stride x + stride_pass x\<rparr>) k2"
  have pick: "stride_pick_next k2 = Some (Some m, k3)"
    by (simp add: stride_pick_next_def m k3_def stride_pass_def upd_proc_def)
  have t3: "pool_rep k3 t" using t(1) pool_rep_local [of k3 k2] by (simp add: k3_def)
  have "m \<in> set_tree t" by (simp add: node)
  from stride_dequeue_eq [OF t3 this] obtain k4 where k4: "stride_dequeue m k3 = Some k4"
    "pool_rep k4 (sk_merge (proc_stride_comp_f k3) l r)" "policy_frame k3 k4"
    "\<And>q. lab6_stride (procs k4 q) = lab6_stride (procs k3 q)" by (auto simp: node)
  define k5 where "k5 = upd_proc m (\<lambda>x. x\<lparr>runs := runs x + 1\<rparr>) k4"
  define k6 where "k6 = (if m \<noteq> current k5 then proc_run m k5 else k5)"
  have run: "schedule stride_sched_class k = Some k6"
    using k2 pick k4(1) by (simp add: schedule_def Let_def sched_class_pick_next_def
        sched_class_dequeue_def k6_def k5_def)
  have cur: "current k6 = m" by (simp add: k6_def proc_run_def)
  have procs6: "procs k6 = procs k5" by (simp add: k6_def proc_run_def)
  have idle6: "idleproc k6 = idleproc k" "\<And>q. state (procs k6 q) = state (procs k q)"
    using t(4) k4(3) unfolding procs6 by (auto simp: k6_def proc_run_def k5_def k3_def policy_frame_def)
  have stride6: "lab6_stride (procs k6 q) =
      (if q = m then lab6_stride (procs k m) + stride_pass (procs k m) else lab6_stride (procs k q))" for q
    unfolding procs6 by (simp add: k5_def k4(4) k3_def same2 stride_pass_def)
  have rep6: "pool_rep k6 (sk_merge (proc_stride_comp_f k3) l r)"
    using k4(2) pool_rep_local [of k6 k4] by (simp add: k6_def proc_run_def k5_def)
  have run6: "runnables k6 = runnables k" by (simp add: runnables_def idle6)
  let ?b = "lab6_stride (procs k m)"
  have win: "\<forall>p \<in> runnables k. stride_off base k p \<le> 0x7FFFFFFF" using ok by (simp add: stride_ok_def)
  have lr: "set_tree l \<union> set_tree r \<subseteq> runnables k" "m \<notin> set_tree l" "m \<notin> set_tree r"
    using t(1,3) by (auto simp: node pool_rep_def)
  have off6: "stride_off ?b k6 x = stride_off base k x - stride_off base k m" if "x \<in> runnables k" "x \<noteq> m" for x
    by (rule stride_off_rebase [OF least]) (use that stride6 in auto)
  have win6: "stride_off ?b k6 x \<le> 0x7FFFFFFF" if "x \<in> runnables k" for x
  proof (cases "x = m")
    case True
    then show ?thesis by (simp add: stride_off_def stride6 stride_pass_le)
  next
    case False
    with off6 [OF that] win that show ?thesis by (metis diff_le_self le_trans)
  qed
  have off36: "stride_off ?b k3 = stride_off ?b k6"
    by (simp add: stride_off_def fun_eq_iff procs6 k5_def k4(4))
  have mono: "sk_heap (stride_off ?b k6) u" if "sk_heap (stride_off base k) u" "set_tree u \<subseteq> runnables k - {m}" for u
  proof (rule heap_mono [OF that(1)])
    fix x y assume "x \<in> set_tree u" "y \<in> set_tree u" "stride_off base k x \<le> stride_off base k y"
    with that(2) have "x \<in> runnables k - {m}" "y \<in> runnables k - {m}" by auto
    with \<open>stride_off base k x \<le> _\<close> show "stride_off ?b k6 x \<le> stride_off ?b k6 y"
      by (simp add: off6 diff_le_mono)
  qed
  have "sk_heap (stride_off ?b k6) (sk_merge (proc_stride_comp_f k3) l r)"
  proof (rule heap_merge)
    show "sk_heap (stride_off ?b k6) l" "sk_heap (stride_off ?b k6) r"
      using t(2) lr off2 by (auto simp: node intro!: mono)
    have "\<forall>p \<in> set_tree l \<union> set_tree r. stride_off ?b k3 p \<le> 0x7FFFFFFF"
      using lr(1) win6 off36 by auto
    from cmp_keys_stride [OF this]
    show "cmp_keys (proc_stride_comp_f k3) (stride_off ?b k6) (set_tree l \<union> set_tree r)"
      by (simp only: off36)
  qed
  with rep6 win6 run6 have "stride_ok ?b k6" by (auto simp: stride_ok_def)
  moreover have "sched_ok stride_queued k6"
    using stride.schedule_ok [of k] run sched ok by (auto simp: stride_ok_def stride_inv_def)
  moreover have "m \<in> runnables k" using t(3) by (auto simp: node)
  ultimately show ?thesis using run cur least stride6 run6 by auto
qed

lemma sint_between:
  assumes "stride_off base k p \<le> 0x7FFFFFFF" and "stride_off base k q \<le> 0x7FFFFFFF"
  shows "sint (lab6_stride (procs k p) - lab6_stride (procs k q)) =
    int (stride_off base k p) - int (stride_off base k q)"
proof -
  have e: "lab6_stride (procs k p) - lab6_stride (procs k q) =
    (lab6_stride (procs k p) - base) - (lab6_stride (procs k q) - base)" by simp
  show ?thesis unfolding e stride_off_def by (rule sint_diff) (use assms in \<open>simp_all add: stride_off_def\<close>)
qed

section \<open>Properties\<close>

text \<open>Process 1 runs, 2 and 3 are in the heap; the strides lie across the wrap-around.\<close>

definition stride_sample :: kern where
  "stride_sample = \<lparr>procs = (\<lambda>p.
       if p = 1 then blank_proc\<lparr>state := PROC_RUNNABLE, lab6_stride := 5, lab6_priority := 1\<rparr>
       else if p = 2 then blank_proc\<lparr>state := PROC_RUNNABLE, lab6_stride := -7, lab6_priority := 2,
         lab6_run_pool := \<lparr>sk_parent = None, sk_left = Some 3, sk_right = None\<rparr>\<rparr>
       else if p = 3 then blank_proc\<lparr>state := PROC_RUNNABLE, lab6_stride := 9, lab6_priority := 0,
         lab6_run_pool := \<lparr>sk_parent = Some 2, sk_left = None, sk_right = None\<rparr>\<rparr>
       else blank_proc),
     current = 1, idleproc = 0, initproc = 1, run_list = [], proc_num = 2, max_time_slice = 5,
     run_pool = Some 2, timers = (\<lambda>_. \<lparr>expires = 0, tproc = None\<rparr>), timer_list = []\<rparr>"

lemma stride_sample_rep: "pool_rep stride_sample (Node (Node Leaf 3 Leaf) 2 Leaf)"
  by (simp add: pool_rep_def pool_nodes_def stride_sample_def blank_proc_def par_ok_def)

lemma stride_sample_runnables: "runnables stride_sample = {1, 2, 3}"
  by (auto simp: runnables_def stride_sample_def blank_proc_def)

lemma stride_sample_ok: "stride_ok (-7) stride_sample" "sched_ok stride_queued stride_sample"
proof -
  have "stride_off (-7) stride_sample 1 = 12" "stride_off (-7) stride_sample 2 = 0"
    "stride_off (-7) stride_sample 3 = 16"
    by (simp_all add: stride_off_def stride_sample_def blank_proc_def)
  then show "stride_ok (-7) stride_sample"
    using stride_sample_rep stride_sample_runnables
    by (auto simp: stride_ok_def intro!: exI [of _ "Node (Node Leaf 3 Leaf) 2 Leaf"])
  have "stride_queued stride_sample = {2, 3}" using queued_tree [OF stride_sample_rep] by auto
  moreover have "{p. state (procs stride_sample p) = PROC_RUNNABLE} = {1, 2, 3}"
    by (auto simp: stride_sample_def blank_proc_def)
  moreover have "current stride_sample = 1" "idleproc stride_sample = 0" by (simp_all add: stride_sample_def)
  ultimately show "sched_ok stride_queued stride_sample" unfolding sched_ok_def by auto
qed

text \<open>
  The contract holds for the stride policy: from a state whose heap is well formed and holds the
  runnable processes, any sequence of wake-ups, yields, ticks, sleeps and exits leads to a state whose
  heap is a well-formed tree over exactly the runnable processes that neither run nor idle, with
  \<open>proc_num\<close> nodes, and \<open>schedule\<close> succeeds there.
\<close>

theorem stride_no_process_lost:
  fixes k :: "'a kern_scheme"
  assumes "sched_reach stride_sched_class k k'" and "stride_inv k" and "sched_ok stride_queued k"
  shows "(\<exists>t. pool_rep k' t \<and> set_tree t =
      {p. state (procs k' p) = PROC_RUNNABLE} - {current k', idleproc k'}) \<and>
    schedule stride_sched_class k' \<noteq> None"
proof -
  have ok: "stride_inv k'" "sched_ok stride_queued k'" using stride.reach_ok [OF assms] by blast+
  then obtain t where "pool_rep k' t" by (auto simp: stride_inv_def)
  with ok(2) queued_tree [OF this] have "pool_rep k' t \<and> set_tree t =
      {p. state (procs k' p) = PROC_RUNNABLE} - {current k', idleproc k'}"
    unfolding sched_ok_def by simp
  moreover have "schedule stride_sched_class k' \<noteq> None" using stride.schedule_ok [OF ok] by blast
  ultimately show ?thesis by blast
qed

theorem stride_no_process_lost_witness:
  "schedule stride_sched_class (sched_class_proc_tick stride_sched_class 1 stride_sample) \<noteq> None"
proof -
  have "sched_reach stride_sched_class stride_sample
      (sched_class_proc_tick stride_sched_class (current stride_sample) stride_sample)"
    by (rule sched_reach.reach_step [OF sched_reach.reach_refl]) (rule sched_step.tick)
  from stride_no_process_lost [OF this] stride_sample_rep stride_sample_ok(2)
  show ?thesis by (auto simp: stride_inv_def stride_sample_def)
qed

text \<open>
  (C27) While the strides of the runnable processes lie within half the 32-bit range of each other,
  \<open>schedule\<close> runs one whose stride is least in the signed comparison of \<open>proc_stride_comp_f\<close>, and
  advances the stride of that process alone, by \<open>BIG_STRIDE\<close> over its priority, priority 0 counting
  as 1.
\<close>

theorem stride_picks_least:
  fixes k :: "'a kern_scheme"
  assumes "stride_ok base k" and "sched_ok stride_queued k" and "runnables k \<noteq> {}"
  shows "\<exists>k'. schedule stride_sched_class k = Some k' \<and> current k' \<in> runnables k \<and>
    (\<forall>p \<in> runnables k. 0 \<le> sint (lab6_stride (procs k p) - lab6_stride (procs k (current k')))) \<and>
    lab6_stride (procs k' (current k')) = lab6_stride (procs k (current k')) +
      BIG_STRIDE div (max 1 (lab6_priority (procs k (current k')))) \<and>
    (\<forall>q. q \<noteq> current k' \<longrightarrow> lab6_stride (procs k' q) = lab6_stride (procs k q))"
proof -
  have win: "stride_off base k p \<le> 0x7FFFFFFF" if "p \<in> runnables k" for p
    using assms(1) that by (simp add: stride_ok_def)
  obtain k' m where r: "schedule stride_sched_class k = Some k'" "current k' = m" "m \<in> runnables k"
    "\<forall>p \<in> runnables k. stride_off base k m \<le> stride_off base k p"
    "lab6_stride (procs k' m) = lab6_stride (procs k m) + stride_pass (procs k m)"
    "\<forall>q. q \<noteq> m \<longrightarrow> lab6_stride (procs k' q) = lab6_stride (procs k q)"
    using stride_schedule [OF assms] by blast
  have "0 \<le> sint (lab6_stride (procs k p) - lab6_stride (procs k m))" if "p \<in> runnables k" for p
    using sint_between [OF win [OF that] win [OF r(3)]] r(4) that by simp
  moreover have "stride_pass x = BIG_STRIDE div (max 1 (lab6_priority x))" for x
  proof (cases "lab6_priority x = 0")
    case False
    then have "1 \<le> lab6_priority x" by (simp add: word_le_nat_alt) (metis Suc_leI unat_gt_0)
    with False show ?thesis by (simp add: stride_pass_def max_def word_gt_0)
  qed (simp add: stride_pass_def max_def)
  ultimately show ?thesis using r by auto
qed

theorem stride_picks_least_witness:
  "\<exists>k'. schedule stride_sched_class stride_sample = Some k' \<and> current k' = 2 \<and>
     lab6_stride (procs k' 2) = -7 + 0x3FFFFFFF"
proof -
  obtain k' where k': "schedule stride_sched_class stride_sample = Some k'"
    "current k' \<in> {1, 2, 3}"
    "0 \<le> sint (lab6_stride (procs stride_sample 2) - lab6_stride (procs stride_sample (current k')))"
    "lab6_stride (procs k' (current k')) = lab6_stride (procs stride_sample (current k')) +
      BIG_STRIDE div (max 1 (lab6_priority (procs stride_sample (current k'))))"
    using stride_picks_least [OF stride_sample_ok] by (auto simp: stride_sample_runnables)
  have "current k' = 2" using k'(2,3) by (auto simp: stride_sample_def blank_proc_def)
  with k' show ?thesis
    by (simp add: stride_sample_def blank_proc_def BIG_STRIDE_def max_def)
qed

text \<open>
  (C26) The wrap-around of the strides is harmless: from such a state, after any number of rounds of
  \<open>schedule\<close>, the strides of any two runnable processes differ by at most \<open>BIG_STRIDE\<close>, and the
  rounds all succeed.
\<close>

theorem stride_spread_bounded:
  fixes k :: "'a kern_scheme"
  assumes "stride_ok base k" and "sched_ok stride_queued k" and "runnables k \<noteq> {}"
  shows "\<exists>k'. schedules stride_sched_class n k = Some k' \<and> runnables k' = runnables k \<and>
    (\<forall>p \<in> runnables k. \<forall>q \<in> runnables k.
       \<bar>sint (lab6_stride (procs k' p) - lab6_stride (procs k' q))\<bar> \<le> uint BIG_STRIDE)"
  using assms
proof (induction n arbitrary: base k)
  case 0
  have "\<bar>sint (lab6_stride (procs k p) - lab6_stride (procs k q))\<bar> \<le> uint BIG_STRIDE"
    if "p \<in> runnables k" "q \<in> runnables k" for p q
  proof -
    have "stride_off base k p \<le> 0x7FFFFFFF" "stride_off base k q \<le> 0x7FFFFFFF"
      using 0 that by (simp_all add: stride_ok_def)
    with sint_between [OF this] show ?thesis by (simp add: BIG_STRIDE_def)
  qed
  then show ?case by simp
next
  case (Suc n)
  obtain k1 m where k1: "schedule stride_sched_class k = Some k1" "runnables k1 = runnables k"
    "stride_ok (lab6_stride (procs k m)) k1" "sched_ok stride_queued k1"
    using stride_schedule [OF Suc.prems] by blast
  with Suc.IH [OF k1(3,4)] Suc.prems(3) show ?case by simp
qed

theorem stride_spread_bounded_witness:
  "\<exists>k'. schedules stride_sched_class 1000 stride_sample = Some k' \<and>
     \<bar>sint (lab6_stride (procs k' 1) - lab6_stride (procs k' 3))\<bar> \<le> uint BIG_STRIDE"
  using stride_spread_bounded [OF stride_sample_ok, of 1000] by (auto simp: stride_sample_runnables)

end
