(* ===== verification/Timers.thy ===== *)
theory Timers
  imports SchedStride
begin

text \<open>
  The kernel's timers, \<open>add_timer\<close>, \<open>del_timer\<close> and \<open>run_timer_list\<close> of
  \<open>lab8/kern/schedule/sched.c\<close>. The list holds for each timer the ticks left after the timer before
  it; the specification gives for each timer the ticks left from now. \<open>list_empty\<close> on the link of a
  timer is false exactly when the timer is on the list (theory \<open>DList\<close>).
\<close>

section \<open>The code\<close>

definition timer_init :: "nat \<Rightarrow> proc_ptr \<Rightarrow> u32 \<Rightarrow> 'a kern_scheme \<Rightarrow> 'a kern_scheme" where
  "timer_init t proc e k = k\<lparr>timers := (timers k)(t := \<lparr>expires = e, tproc = Some proc\<rparr>)\<rparr>"

definition upd_expires :: "nat \<Rightarrow> u32 \<Rightarrow> (nat \<Rightarrow> timer) \<Rightarrow> nat \<Rightarrow> timer" where
  "upd_expires t e tm = tm(t := (tm t)\<lparr>expires := e\<rparr>)"

text \<open>The walk along the list, with the timers as they change and the list with \<open>t\<close> put in.\<close>

primrec add_timer_walk :: "nat \<Rightarrow> nat list \<Rightarrow> (nat \<Rightarrow> timer) \<Rightarrow> (nat \<Rightarrow> timer) \<times> nat list" where
  "add_timer_walk t [] tm = (tm, [t])"
| "add_timer_walk t (n # ns) tm =
     (if expires (tm t) < expires (tm n)
      then (upd_expires n (expires (tm n) - expires (tm t)) tm, t # n # ns)
      else (let tm1 = upd_expires t (expires (tm t) - expires (tm n)) tm;
                (tm2, l) = add_timer_walk t ns tm1
            in (tm2, n # l)))"

definition add_timer :: "nat \<Rightarrow> 'a kern_scheme \<Rightarrow> 'a kern_scheme option" where
  "add_timer t k =
     do { kassert (expires (timers k t) > 0 \<and> tproc (timers k t) \<noteq> None);
          kassert (t \<notin> set (timer_list k));
          let (tm, l) = add_timer_walk t (timer_list k) (timers k);
          Some (k\<lparr>timers := tm, timer_list := l\<rparr>) }"

fun next_timer :: "nat \<Rightarrow> nat list \<Rightarrow> nat option" where
  "next_timer t (a # b # l) = (if a = t then Some b else next_timer t (b # l))"
| "next_timer t l = None"

definition del_timer :: "nat \<Rightarrow> 'a kern_scheme \<Rightarrow> 'a kern_scheme" where
  "del_timer t k =
     (if t \<in> set (timer_list k)
      then (let tm = (if expires (timers k t) \<noteq> 0
                      then (case next_timer t (timer_list k) of
                              Some n \<Rightarrow> upd_expires n (expires (timers k n) + expires (timers k t)) (timers k)
                            | None \<Rightarrow> timers k)
                      else timers k)
            in k\<lparr>timers := tm, timer_list := remove1 t (timer_list k)\<rparr>)
      else k)"

text \<open>The inner loop of \<open>run_timer_list\<close>, along the list as it is at the start of the loop.\<close>

primrec run_expired :: "'a sched_class \<Rightarrow> nat list \<Rightarrow> 'a kern_scheme \<Rightarrow> 'a kern_scheme option" where
  "run_expired c [] k = Some k"
| "run_expired c (t # ts) k =
     (if expires (timers k t) = 0
      then do { p \<leftarrow> tproc (timers k t);
                kassert (wait_state (procs k p) \<noteq> 0 \<longrightarrow> wait_state (procs k p) AND WT_INTERRUPTED \<noteq> 0);
                k1 \<leftarrow> wakeup_proc c p k;
                run_expired c ts (del_timer t k1) }
      else Some k)"

definition run_timer_list :: "'a sched_class \<Rightarrow> 'a kern_scheme \<Rightarrow> 'a kern_scheme option" where
  "run_timer_list c k =
     do { k1 \<leftarrow> (case timer_list k of
             [] \<Rightarrow> Some k
           | t # ts \<Rightarrow>
               do { kassert (expires (timers k t) \<noteq> 0);
                    let k1 = k\<lparr>timers := upd_expires t (expires (timers k t) - 1) (timers k)\<rparr>;
                    run_expired c (t # ts) k1 });
          Some (sched_class_proc_tick c (current k1) k1) }"

section \<open>Deadlines\<close>

primrec dues :: "(nat \<Rightarrow> timer) \<Rightarrow> nat \<Rightarrow> nat list \<Rightarrow> (nat \<times> nat) list" where
  "dues tm a [] = []"
| "dues tm a (t # ts) = (t, a + unat (expires (tm t))) # dues tm (a + unat (expires (tm t))) ts"

definition deadlines :: "'a kern_scheme \<Rightarrow> (nat \<times> nat) list" where
  "deadlines k = dues (timers k) 0 (timer_list k)"

fun insert_due :: "nat \<Rightarrow> nat \<Rightarrow> (nat \<times> nat) list \<Rightarrow> (nat \<times> nat) list" where
  "insert_due t e [] = [(t, e)]"
| "insert_due t e ((s, d) # ds) = (if e < d then (t, e) # (s, d) # ds else (s, d) # insert_due t e ds)"

definition timers_ok :: "'a kern_scheme \<Rightarrow> bool" where
  "timers_ok k \<longleftrightarrow> distinct (timer_list k) \<and> (\<forall>(t, d) \<in> set (deadlines k). 0 < d \<and> d < 2 ^ 32) \<and>
     (\<forall>t \<in> set (timer_list k). tproc (timers k t) \<noteq> None)"

lemma upd_expires_simps [simp]:
  "expires (upd_expires t e tm s) = (if s = t then e else expires (tm s))"
  "tproc (upd_expires t e tm s) = tproc (tm s)"
  by (simp_all add: upd_expires_def)

lemma dues_cong: "(\<And>t. t \<in> set ts \<Longrightarrow> expires (tm' t) = expires (tm t)) \<Longrightarrow> dues tm' a ts = dues tm a ts"
  by (induction ts arbitrary: a) auto

lemma fst_dues: "map fst (dues tm a ts) = ts"
  by (induction ts arbitrary: a) auto

lemma dues_ge: "(t, d) \<in> set (dues tm a ts) \<Longrightarrow> a \<le> d"
proof (induction ts arbitrary: a)
  case (Cons s ts)
  then show ?case by (auto dest!: Cons.IH)
qed simp

lemma dues_filter: "t \<notin> set ts \<Longrightarrow> filter (\<lambda>(s, d). s \<noteq> t) (dues tm a ts) = dues tm a ts"
  by (induction ts arbitrary: a) auto

lemma set_insert_due: "set (insert_due t e ds) = insert (t, e) (set ds)"
  by (induction t e ds rule: insert_due.induct) auto

lemma add_timer_walk_dues:
  "t \<notin> set ns \<Longrightarrow> distinct ns \<Longrightarrow> add_timer_walk t ns tm = (tm', l) \<Longrightarrow>
   dues tm' a l = insert_due t (a + unat (expires (tm t))) (dues tm a ns) \<and> distinct l \<and>
   set l = insert t (set ns) \<and> (\<forall>s. tproc (tm' s) = tproc (tm s)) \<and>
   (\<forall>s. s \<noteq> t \<longrightarrow> s \<notin> set ns \<longrightarrow> expires (tm' s) = expires (tm s))"
proof (induction ns arbitrary: tm tm' l a)
  case (Cons n ns)
  have tn: "t \<noteq> n" "t \<notin> set ns" "n \<notin> set ns" "distinct ns" using Cons.prems by auto
  show ?case
  proof (cases "expires (tm t) < expires (tm n)")
    case True
    let ?tm = "upd_expires n (expires (tm n) - expires (tm t)) tm"
    have tl: "tm' = ?tm" "l = t # n # ns" using Cons.prems(3) True by auto
    have lt: "unat (expires (tm t)) < unat (expires (tm n))" using True by (simp add: word_less_nat_alt)
    have sub: "unat (expires (tm n) - expires (tm t)) = unat (expires (tm n)) - unat (expires (tm t))"
      using lt by (intro unat_sub) (simp add: word_le_nat_alt)
    have "dues ?tm b ns = dues tm b ns" for b by (rule dues_cong) (use tn in auto)
    with sub lt tn show ?thesis unfolding tl by auto
  next
    case False
    let ?tm = "upd_expires t (expires (tm t) - expires (tm n)) tm"
    obtain l' where w: "add_timer_walk t ns ?tm = (tm', l')" "l = n # l'"
      using Cons.prems(3) False by (auto simp: Let_def split: prod.splits)
    have le: "unat (expires (tm n)) \<le> unat (expires (tm t))" using False by (simp add: word_less_nat_alt)
    have sub: "unat (expires (tm t) - expires (tm n)) = unat (expires (tm t)) - unat (expires (tm n))"
      using le by (intro unat_sub) (simp add: word_le_nat_alt)
    have same: "dues ?tm b ns = dues tm b ns" for b by (rule dues_cong) (use tn in auto)
    from Cons.IH [OF tn(2,4) w(1), of "a + unat (expires (tm n))"] same sub le
    have ih: "dues tm' (a + unat (expires (tm n))) l' =
        insert_due t (a + unat (expires (tm t))) (dues tm (a + unat (expires (tm n))) ns)"
      "distinct l'" "set l' = insert t (set ns)" "\<forall>s. tproc (tm' s) = tproc (tm s)"
      "\<forall>s. s \<noteq> t \<longrightarrow> s \<notin> set ns \<longrightarrow> expires (tm' s) = expires (tm s)" by auto
    have "expires (tm' n) = expires (tm n)" using ih(5) tn(1,3) by simp
    with ih le tn show ?thesis unfolding w(2) by auto
  qed
qed auto

lemma remove_dues:
  "distinct ts \<Longrightarrow> t \<in> set ts \<Longrightarrow> \<forall>(s, d) \<in> set (dues tm a ts). d < 2 ^ 32 \<Longrightarrow>
   tm' = (case next_timer t ts of Some n \<Rightarrow> upd_expires n (expires (tm n) + expires (tm t)) tm | None \<Rightarrow> tm) \<Longrightarrow>
   dues tm' a (remove1 t ts) = filter (\<lambda>(s, d). s \<noteq> t) (dues tm a ts)"
proof (induction t ts arbitrary: a rule: next_timer.induct)
  case (1 t x y l)
  show ?case
  proof (cases "x = t")
    case True
    have tm': "tm' = upd_expires y (expires (tm y) + expires (tm t)) tm" using 1(5) True by simp
    have "a + unat (expires (tm t)) + unat (expires (tm y)) < 2 ^ 32" using 1(4) True by simp
    then have "unat (expires (tm y)) + unat (expires (tm t)) < 2 ^ LENGTH(32)" by simp
    then have u: "unat (expires (tm y) + expires (tm t)) = unat (expires (tm y)) + unat (expires (tm t))"
      by (rule unat_add_lem [THEN iffD1])
    have "dues tm' b l = dues tm b l" for b by (rule dues_cong) (use 1(2) tm' in auto)
    moreover have "expires (tm' y) = expires (tm y) + expires (tm t)" by (simp add: tm')
    then have "unat (expires (tm' y)) = unat (expires (tm t)) + unat (expires (tm y))" using u by simp
    ultimately have d: "dues tm' a (y # l) = dues tm (a + unat (expires (tm t))) (y # l)"
      by (simp add: add.assoc)
    have "t \<notin> set (y # l)" using 1(2) True by auto
    then have "filter (\<lambda>(s, d). s \<noteq> t) (dues tm (a + unat (expires (tm t))) (y # l)) =
        dues tm (a + unat (expires (tm t))) (y # l)"
      by (rule dues_filter)
    moreover have "dues tm a (t # y # l) =
        (t, a + unat (expires (tm t))) # dues tm (a + unat (expires (tm t))) (y # l)" by simp
    ultimately show ?thesis using d True by (simp del: dues.simps)
  next
    case False
    have t: "t \<in> set (y # l)" using 1(3) False by simp
    have ih: "dues tm' (a + unat (expires (tm x))) (remove1 t (y # l)) =
        filter (\<lambda>(s, d). s \<noteq> t) (dues tm (a + unat (expires (tm x))) (y # l))"
      by (rule 1(1) [OF False _ t]) (use 1(2,4,5) False in auto)
    have "n \<in> set l" if "next_timer t (y # l) = Some n" for n
    proof -
      have "n \<in> set ts" if "next_timer t (s # ts) = Some n" for s ts
        using that by (induction ts arbitrary: s) (auto split: if_splits)
      with that show ?thesis by blast
    qed
    then have "expires (tm' x) = expires (tm x)"
      using 1(2,5) False by (auto split: option.splits)
    with ih False show ?thesis by simp
  qed
qed auto

section \<open>Properties\<close>

definition wakeable :: "'a kern_scheme \<Rightarrow> proc_ptr \<Rightarrow> bool" where
  "wakeable k p \<longleftrightarrow> state (procs k p) \<noteq> PROC_ZOMBIE \<and>
     (wait_state (procs k p) \<noteq> 0 \<longrightarrow> wait_state (procs k p) AND WT_INTERRUPTED \<noteq> 0)"

lemma del_first:
  "timer_list k = t # ts \<Longrightarrow> expires (timers k t) = 0 \<Longrightarrow> del_timer t k = k\<lparr>timer_list := ts\<rparr>"
  by (simp add: del_timer_def)

lemma filter_dues_pos:
  "filter (\<lambda>(s, d). 0 < d) (dues tm 0 (t # ts)) =
     (if expires (tm t) = 0 then filter (\<lambda>(s, d). 0 < d) (dues tm 0 ts) else dues tm 0 (t # ts))"
proof (cases "expires (tm t) = 0")
  case False
  then have "0 < unat (expires (tm t))" by (simp add: unat_gt_0)
  then have "\<forall>(s, d) \<in> set (dues tm 0 (t # ts)). 0 < d" using dues_ge by fastforce
  then show ?thesis using False by (intro trans [OF filter_True]) auto
qed simp

lemma dues_decrement:
  assumes "expires (tm t) \<noteq> 0" and "t \<notin> set ts"
  shows "dues (upd_expires t (expires (tm t) - 1) tm) 0 (t # ts) =
    map (\<lambda>(s, d). (s, d - 1)) (dues tm 0 (t # ts))"
proof -
  have shift: "dues tm b ts = map (\<lambda>(s, d). (s, d - 1)) (dues tm (Suc b) ts)" for b and ts :: "nat list"
  proof (induction ts arbitrary: b)
    case (Cons s ts)
    show ?case using Cons.IH [of "b + unat (expires (tm s))"] by simp
  qed simp
  have "0 < unat (expires (tm t))" using assms(1) by (simp add: unat_gt_0)
  then obtain n where n: "unat (expires (tm t)) = Suc n" using gr0_implies_Suc by blast
  have "1 \<le> expires (tm t)" using n by (simp add: word_le_nat_alt)
  then have u: "unat (expires (tm t) - 1) = n" using unat_sub [OF \<open>1 \<le> expires (tm t)\<close>] n by simp
  have "dues (upd_expires t (expires (tm t) - 1) tm) b ts = dues tm b ts" for b
    by (rule dues_cong) (use assms(2) in auto)
  then show ?thesis by (simp add: u n shift [of n ts])
qed

context sched_policy
begin

lemma timers_keeps: "queued (k\<lparr>timers := tm, timer_list := l\<rparr>) = queued k"
  "inv k \<Longrightarrow> inv (k\<lparr>timers := tm, timer_list := l\<rparr>)"
  using local_law [of "k\<lparr>timers := tm, timer_list := l\<rparr>" k] by auto

lemma run_expired_ok:
  assumes "inv k" and "sched_ok queued k" and "timer_list k = ts" and "distinct ts"
    and "\<forall>(t, d) \<in> set (dues (timers k) 0 ts). d = 0 \<longrightarrow>
      (\<exists>p. tproc (timers k t) = Some p \<and> wakeable k p)"
  shows "\<exists>k'. run_expired c ts k = Some k' \<and> inv k' \<and> sched_ok queued k' \<and> timers k' = timers k \<and>
    deadlines k' = filter (\<lambda>(s, d). 0 < d) (dues (timers k) 0 ts) \<and> current k' = current k \<and>
    idleproc k' = idleproc k \<and>
    set (timer_list k') \<subseteq> set ts \<and> distinct (timer_list k') \<and>
    (\<forall>(t, d) \<in> set (dues (timers k) 0 ts). d = 0 \<longrightarrow>
       state (procs k' (the (tproc (timers k t)))) = PROC_RUNNABLE) \<and>
    (\<forall>q. state (procs k q) = PROC_RUNNABLE \<longrightarrow> state (procs k' q) = PROC_RUNNABLE)"
  using assms
proof (induction ts arbitrary: k)
  case Nil
  then show ?case by (auto simp: deadlines_def)
next
  case (Cons t ts)
  show ?case
  proof (cases "expires (timers k t) = 0")
    case False
    then have "0 < unat (expires (timers k t))" by (simp add: unat_gt_0)
    then have pos: "\<forall>(s, d) \<in> set (dues (timers k) 0 (t # ts)). 0 < d" using dues_ge by fastforce
    have "run_expired c (t # ts) k = Some k" using False by simp
    moreover have "deadlines k = filter (\<lambda>(s, d). 0 < d) (dues (timers k) 0 (t # ts))"
      using False Cons.prems(3) unfolding filter_dues_pos by (simp add: deadlines_def)
    ultimately show ?thesis using Cons.prems pos by (intro exI [of _ k]) force
  next
    case True
    then have d0: "dues (timers k) 0 (t # ts) = (t, 0) # dues (timers k) 0 ts" by simp
    then obtain p where p: "tproc (timers k t) = Some p" "wakeable k p" using Cons.prems(5) by auto
    obtain k1 where k1: "wakeup_proc c p k = Some k1" "inv k1" "sched_ok queued k1"
      "state (procs k1 p) = PROC_RUNNABLE" "current k1 = current k" "idleproc k1 = idleproc k"
      "timers k1 = timers k" "timer_list k1 = timer_list k"
      and other: "\<And>q. q \<noteq> p \<Longrightarrow> sched_erase (procs k1 q) = sched_erase (procs k q)"
      and self: "sched_erase (procs k1 p) = sched_erase (if state (procs k p) = PROC_RUNNABLE then procs k p
        else (procs k p)\<lparr>state := PROC_RUNNABLE, wait_state := 0\<rparr>)"
      using wakeup_ok [OF Cons.prems(1,2), of p] p(2) by (auto simp: wakeable_def)
    have wake: "wakeable k1 q" if "wakeable k q" for q
    proof (cases "q = p")
      case True
      have "wait_state (procs k1 p) = wait_state (procs k p) \<or> wait_state (procs k1 p) = 0"
        using sched_eraseD(10) [OF self] by (simp split: if_splits)
      with True that k1(4) show ?thesis by (auto simp: wakeable_def)
    next
      case False
      with that sched_eraseD(1,10) [OF other [OF False]] show ?thesis by (simp add: wakeable_def)
    qed
    have stay: "state (procs k1 q) = PROC_RUNNABLE" if "state (procs k q) = PROC_RUNNABLE" for q
      using that k1(4) sched_eraseD(1) [OF other] by (cases "q = p") auto
    let ?k = "k1\<lparr>timer_list := ts\<rparr>"
    have del: "del_timer t k1 = ?k" using del_first [of k1 t ts] Cons.prems(3) True k1(7,8) by simp
    have "?k = k1\<lparr>timers := timers k1, timer_list := ts\<rparr>" by simp
    then have i: "inv ?k" "queued ?k = queued k1"
      using timers_keeps [where k = k1 and tm = "timers k1" and l = ts] k1(2) by metis+
    have so: "sched_ok queued ?k" using k1(3) i(2) by (simp add: sched_ok_def)
    have pre: "\<forall>(t, d) \<in> set (dues (timers ?k) 0 ts). d = 0 \<longrightarrow>
        (\<exists>p. tproc (timers ?k t) = Some p \<and> wakeable ?k p)"
      using Cons.prems(5) wake unfolding d0 by (fastforce simp: k1(7) wakeable_def)
    have "distinct ts" using Cons.prems(4) by simp
    from Cons.IH [OF i(1) so _ this pre] obtain k' where k': "run_expired c ts ?k = Some k'" "inv k'"
      "sched_ok queued k'" "timers k' = timers k"
      "deadlines k' = filter (\<lambda>(s, d). 0 < d) (dues (timers k) 0 ts)" "current k' = current k"
      "idleproc k' = idleproc k" "set (timer_list k') \<subseteq> set ts" "distinct (timer_list k')"
      "\<forall>(t, d) \<in> set (dues (timers k) 0 ts). d = 0 \<longrightarrow>
       state (procs k' (the (tproc (timers k t)))) = PROC_RUNNABLE"
      "\<forall>q. state (procs k1 q) = PROC_RUNNABLE \<longrightarrow> state (procs k' q) = PROC_RUNNABLE"
      using k1(5,6,7) by auto
    have "run_expired c (t # ts) k = Some k'"
      using True p k1(1) del k'(1) by (auto simp: wakeable_def)
    with k' p(1) k1(4) stay show ?thesis unfolding d0 by (intro exI [of _ k']) auto
  qed
qed

text \<open>One clock tick.\<close>

lemma run_timer_list_ok:
  assumes i: "inv k" and s: "sched_ok queued k" and t: "timers_ok k"
    and wake: "\<forall>(t, d) \<in> set (deadlines k). d = 1 \<longrightarrow> wakeable k (the (tproc (timers k t)))"
  shows "\<exists>k'. run_timer_list c k = Some k' \<and> inv k' \<and> sched_ok queued k' \<and> timers_ok k' \<and>
    deadlines k' = map (\<lambda>(s, d). (s, d - 1)) (filter (\<lambda>(s, d). 1 < d) (deadlines k)) \<and>
    (\<forall>(t, d) \<in> set (deadlines k). d = 1 \<longrightarrow>
       state (procs k' (the (tproc (timers k t)))) = PROC_RUNNABLE)"
proof -
  obtain k1 where k1: "(case timer_list k of
             [] \<Rightarrow> Some k
           | t # ts \<Rightarrow>
               do { kassert (expires (timers k t) \<noteq> 0);
                    let k1 = k\<lparr>timers := upd_expires t (expires (timers k t) - 1) (timers k)\<rparr>;
                    run_expired c (t # ts) k1 }) = Some k1" "inv k1" "sched_ok queued k1"
    "deadlines k1 = map (\<lambda>(s, d). (s, d - 1)) (filter (\<lambda>(s, d). 1 < d) (deadlines k))"
    "distinct (timer_list k1)" "\<forall>t \<in> set (timer_list k1). tproc (timers k1 t) \<noteq> None"
    "\<forall>(t, d) \<in> set (deadlines k). d = 1 \<longrightarrow>
       state (procs k1 (the (tproc (timers k t)))) = PROC_RUNNABLE"
  proof (cases "timer_list k")
    case Nil
    with i s t show ?thesis by (intro that [of k]) (auto simp: deadlines_def timers_ok_def)
  next
    case (Cons t0 ts)
    have d: "deadlines k = dues (timers k) 0 (t0 # ts)" by (simp add: deadlines_def Cons)
    have e: "expires (timers k t0) \<noteq> 0" using t by (auto simp: timers_ok_def d unat_gt_0)
    have nt: "t0 \<notin> set ts" using t Cons by (simp add: timers_ok_def)
    let ?tm = "upd_expires t0 (expires (timers k t0) - 1) (timers k)"
    let ?k = "k\<lparr>timers := ?tm\<rparr>"
    have "?k = k\<lparr>timers := ?tm, timer_list := timer_list k\<rparr>" by simp
    then have i1: "inv ?k" "queued ?k = queued k" using timers_keeps [where k = k and tm = ?tm and l = "timer_list k"] i by metis+
    have s1: "sched_ok queued ?k" using s i1(2) by (simp add: sched_ok_def)
    have dd: "dues ?tm 0 (t0 # ts) = map (\<lambda>(s, d). (s, d - 1)) (deadlines k)"
      unfolding d using e nt by (rule dues_decrement [where tm = "timers k"])
    have pos: "\<forall>(s, d) \<in> set (deadlines k). 0 < d" using t by (auto simp: timers_ok_def)
    have set: "s \<in> set (timer_list k)" if "(s, x) \<in> set (deadlines k)" for s x
      using that fst_dues [of "timers k" 0 "timer_list k"] unfolding deadlines_def
      by (metis fst_conv image_eqI list.set_map)
    have pre: "\<forall>(t, d) \<in> set (dues (timers ?k) 0 (t0 # ts)). d = 0 \<longrightarrow>
        (\<exists>p. tproc (timers ?k t) = Some p \<and> wakeable ?k p)"
    proof -
      have "\<exists>p. tproc (timers k s) = Some p \<and> wakeable ?k p" if "(s, x) \<in> set (deadlines k)" "x - 1 = 0" for s x
      proof -
        have "x = 1" using that pos by fastforce
        then have "wakeable k (the (tproc (timers k s)))" using wake that(1) by fastforce
        moreover have "tproc (timers k s) \<noteq> None" using t set [OF that(1)] by (simp add: timers_ok_def)
        ultimately show ?thesis by (auto simp: wakeable_def)
      qed
      then show ?thesis using dd by fastforce
    qed
    have "timer_list ?k = t0 # ts" "distinct (t0 # ts)" using Cons t by (simp_all add: timers_ok_def)
    from run_expired_ok [OF i1(1) s1 this pre] obtain k' where k': "run_expired c (t0 # ts) ?k = Some k'"
      "inv k'" "sched_ok queued k'" "timers k' = ?tm"
      "deadlines k' = filter (\<lambda>(s, d). 0 < d) (dues ?tm 0 (t0 # ts))"
      "set (timer_list k') \<subseteq> set (t0 # ts)" "distinct (timer_list k')"
      "\<forall>(t, d) \<in> set (dues ?tm 0 (t0 # ts)). d = 0 \<longrightarrow>
       state (procs k' (the (tproc (?tm t)))) = PROC_RUNNABLE" by auto
    have "filter (\<lambda>(s, d). 0 < d) (map (\<lambda>(s, d). (s, d - 1)) l) =
        map (\<lambda>(s, d). (s, d - 1)) (filter (\<lambda>(s, d). 1 < d) l)" for l :: "(nat \<times> nat) list"
      by (induction l) auto
    then have "deadlines k' = map (\<lambda>(s, d). (s, d - 1)) (filter (\<lambda>(s, d). 1 < d) (deadlines k))"
      unfolding k'(5) dd by simp
    moreover have "\<forall>t \<in> set (timer_list k'). tproc (timers k' t) \<noteq> None"
      using k'(4,6) t Cons by (auto simp: timers_ok_def)
    moreover have "\<forall>(t, d) \<in> set (deadlines k). d = 1 \<longrightarrow>
       state (procs k' (the (tproc (timers k t)))) = PROC_RUNNABLE"
      using k'(8) unfolding dd by fastforce
    moreover have "(case timer_list k of
             [] \<Rightarrow> Some k
           | t # ts \<Rightarrow>
               do { kassert (expires (timers k t) \<noteq> 0);
                    let k1 = k\<lparr>timers := upd_expires t (expires (timers k t) - 1) (timers k)\<rparr>;
                    run_expired c (t # ts) k1 }) = Some k'"
      using Cons e k'(1) by (simp del: run_expired.simps)
    ultimately show ?thesis using k' by (intro that [of k']) auto
  qed
  let ?k = "sched_class_proc_tick c (current k1) k1"
  have tk: "timers ?k = timers k1" "timer_list ?k = timer_list k1" "\<And>q. state (procs ?k q) = state (procs k1 q)"
    using tick_law [OF k1(2), of "current k1"]
    by (auto simp: sched_class_proc_tick_def policy_frame_def)
  have "run_timer_list c k = Some ?k" using k1(1) by (simp add: run_timer_list_def)
  moreover have "inv ?k \<and> sched_ok queued ?k" by (rule tick_ok [OF k1(2,3)])
  moreover have "deadlines ?k = deadlines k1" by (simp add: deadlines_def tk)
  moreover have "timers_ok k1"
    using k1(4-6) t by (fastforce simp: timers_ok_def)
  then have "timers_ok ?k" by (simp add: timers_ok_def deadlines_def tk)
  ultimately show ?thesis using k1(4,7) tk(3) by auto
qed

end

text \<open>
  (C28) \<open>add_timer\<close> puts a timer at its deadline: it expires after the ticks given, behind the timers due
  at the same tick, and no other deadline moves. \<open>del_timer\<close> of any timer takes out its deadline alone.
\<close>

theorem timer_deadlines:
  assumes ok: "timers_ok k" and new: "t \<notin> set (timer_list k)" "expires (timers k t) \<noteq> 0" "tproc (timers k t) \<noteq> None"
  shows "\<exists>k'. add_timer t k = Some k' \<and> timers_ok k' \<and>
    deadlines k' = insert_due t (unat (expires (timers k t))) (deadlines k) \<and>
    (\<forall>s. deadlines (del_timer s k') = filter (\<lambda>(r, d). r \<noteq> s) (deadlines k'))"
proof -
  obtain tm l where w: "add_timer_walk t (timer_list k) (timers k) = (tm, l)" by fastforce
  let ?k = "k\<lparr>timers := tm, timer_list := l\<rparr>"
  have d: "distinct (timer_list k)" using ok by (simp add: timers_ok_def)
  note ws = add_timer_walk_dues [OF new(1) d w, of 0]
  have "0 < unat (expires (timers k t))" using new(2) by (simp add: unat_gt_0)
  moreover have "unat (expires (timers k t)) < 2 ^ 32" by (rule unat_u32_less)
  ultimately have ok': "timers_ok ?k"
    using ok new(3) ws by (fastforce simp: timers_ok_def deadlines_def set_insert_due)
  have "add_timer t k = Some ?k" using new w by (simp add: add_timer_def word_gt_0)
  moreover have "deadlines ?k = insert_due t (unat (expires (timers k t))) (deadlines k)"
    using ws by (simp add: deadlines_def)
  moreover have "deadlines (del_timer s ?k) = filter (\<lambda>(r, d). r \<noteq> s) (deadlines ?k)" for s
  proof (cases "s \<in> set l")
    case True
    let ?tm = "case next_timer s l of Some n \<Rightarrow> upd_expires n (expires (tm n) + expires (tm s)) tm | None \<Rightarrow> tm"
    have e: "deadlines (del_timer s ?k) = dues ?tm 0 (remove1 s l)"
    proof (cases "expires (tm s) = 0")
      case True
      then show ?thesis using \<open>s \<in> set l\<close>
        by (auto simp: del_timer_def deadlines_def split: option.splits intro!: dues_cong)
    next
      case False
      then show ?thesis using \<open>s \<in> set l\<close> by (simp add: del_timer_def deadlines_def Let_def split: option.splits)
    qed
    have "dues ?tm 0 (remove1 s l) = filter (\<lambda>(r, d). r \<noteq> s) (dues tm 0 l)"
      by (rule remove_dues [OF _ True _ refl]) (use ok' in \<open>auto simp: timers_ok_def deadlines_def\<close>)
    then show ?thesis unfolding e by (simp add: deadlines_def)
  next
    case False
    then show ?thesis by (simp add: del_timer_def deadlines_def dues_filter)
  qed
  ultimately show ?thesis using ok' by blast
qed

definition timer_sample :: kern where
  "timer_sample = rr_sample\<lparr>
     procs := (procs rr_sample)(9 := blank_proc\<lparr>state := PROC_SLEEPING, wait_state := WT_TIMER\<rparr>),
     timers := (\<lambda>t. if t = 7 then \<lparr>expires = 1, tproc = Some 9\<rparr> else \<lparr>expires = 4, tproc = Some 2\<rparr>),
     timer_list := [7, 8]\<rparr>"

lemma timer_sample_ok: "timers_ok timer_sample" "deadlines timer_sample = [(7, 1), (8, 5)]"
  by (auto simp: timers_ok_def deadlines_def timer_sample_def)

lemma timer_sample_sched: "RR_inv timer_sample" "sched_ok RR_queued timer_sample"
  by (auto simp: RR_inv_def sched_ok_def RR_queued_def timer_sample_def rr_sample_def blank_proc_def)

theorem timer_deadlines_witness:
  "\<exists>k'. add_timer 6 timer_sample = Some k' \<and> deadlines k' = [(7, 1), (6, 4), (8, 5)]"
  using timer_deadlines [OF timer_sample_ok(1), of 6]
  by (auto simp: timer_sample_ok(2)) (auto simp: timer_sample_def)

text \<open>
  (C29) A clock tick brings every timer one tick nearer and fires exactly those due: their processes are
  runnable afterwards, the timers are gone, all other deadlines have moved by one, and the scheduler's
  state stays in order. It needs that the processes of timers due now are not zombies and, if they
  wait, wait interruptibly.
\<close>

theorem timer_tick:
  fixes k :: "'a kern_scheme"
  assumes "RR_inv k" and "sched_ok RR_queued k" and "timers_ok k"
    and "\<forall>(t, d) \<in> set (deadlines k). d = 1 \<longrightarrow> wakeable k (the (tproc (timers k t)))"
  shows "\<exists>k'. run_timer_list default_sched_class k = Some k' \<and> timers_ok k' \<and>
    sched_ok RR_queued k' \<and>
    deadlines k' = map (\<lambda>(s, d). (s, d - 1)) (filter (\<lambda>(s, d). 1 < d) (deadlines k)) \<and>
    (\<forall>(t, d) \<in> set (deadlines k). d = 1 \<longrightarrow>
       state (procs k' (the (tproc (timers k t)))) = PROC_RUNNABLE)"
  using rr.run_timer_list_ok [OF assms] by blast

theorem timer_tick_witness:
  "\<exists>k'. run_timer_list default_sched_class timer_sample = Some k' \<and> deadlines k' = [(8, 4)] \<and>
     state (procs k' 9) = PROC_RUNNABLE"
proof -
  have "\<forall>(t, d) \<in> set (deadlines timer_sample). d = 1 \<longrightarrow>
      wakeable timer_sample (the (tproc (timers timer_sample t)))"
    unfolding timer_sample_ok(2)
    by (simp add: wakeable_def timer_sample_def WT_TIMER_def WT_INTERRUPTED_def blank_proc_def)
  from timer_tick [OF timer_sample_sched timer_sample_ok(1) this] show ?thesis
    unfolding timer_sample_ok(2) by (auto simp: timer_sample_def)
qed

end
