(* ===== verification/WaitSem.thy ===== *)
theory WaitSem
  imports Timers
begin

text \<open>
  Wait queues, \<open>lab8/kern/sync/wait.c\<close>, and semaphores, \<open>lab8/kern/sync/sem.c\<close>. The state of the
  kernel is extended by the \<open>wait_t\<close> objects, the queues by address, front first, and the values of
  the semaphores by address; the wait queue of a semaphore has the address of the semaphore. A
  \<open>wait_t\<close> is on a ring exactly when it is in the queue its \<open>wait_queue\<close> field names. \<open>__down\<close>
  gives up the processor in its middle: \<open>down_begin\<close> ends with the switch to another process, and
  \<open>down_end\<close> is what the process does when it runs again.
\<close>

section \<open>Wait queues\<close>

record wait =
  wproc :: proc_ptr
  wakeup_flags :: u32
  wait_queue :: nat

record sync = kern +
  waits :: "nat \<Rightarrow> wait"
  wqs :: "nat \<Rightarrow> nat list"
  sem_value :: "nat \<Rightarrow> int"

type_synonym sync_class = "unit sync_ext sched_class"

definition upd_wait :: "nat \<Rightarrow> (wait \<Rightarrow> wait) \<Rightarrow> sync \<Rightarrow> sync" where
  "upd_wait w f k = k\<lparr>waits := (waits k)(w := f (waits k w))\<rparr>"

definition set_queue :: "nat \<Rightarrow> nat list \<Rightarrow> sync \<Rightarrow> sync" where
  "set_queue q ws k = k\<lparr>wqs := (wqs k)(q := ws)\<rparr>"

definition wait_init :: "nat \<Rightarrow> proc_ptr \<Rightarrow> sync \<Rightarrow> sync" where
  "wait_init w proc k = upd_wait w (\<lambda>x. x\<lparr>wproc := proc, wakeup_flags := WT_INTERRUPTED\<rparr>) k"

definition wait_queue_init :: "nat \<Rightarrow> sync \<Rightarrow> sync" where
  "wait_queue_init q k = set_queue q [] k"

definition wait_in_queue :: "nat \<Rightarrow> sync \<Rightarrow> bool" where
  "wait_in_queue w k \<longleftrightarrow> w \<in> set (wqs k (wait_queue (waits k w)))"

definition wait_queue_add :: "nat \<Rightarrow> nat \<Rightarrow> sync \<Rightarrow> sync option" where
  "wait_queue_add q w k =
     do { kassert (\<not> wait_in_queue w k);
          let k1 = upd_wait w (\<lambda>x. x\<lparr>wait_queue := q\<rparr>) k;
          Some (set_queue q (wqs k1 q @ [w]) k1) }"

definition wait_queue_del :: "nat \<Rightarrow> nat \<Rightarrow> sync \<Rightarrow> sync option" where
  "wait_queue_del q w k =
     do { kassert (wait_in_queue w k \<and> wait_queue (waits k w) = q);
          Some (set_queue q (remove1 w (wqs k q)) k) }"

fun succ_in :: "nat \<Rightarrow> nat list \<Rightarrow> nat option" where
  "succ_in w (a # b # l) = (if a = w then Some b else succ_in w (b # l))"
| "succ_in w l = None"

definition wait_queue_next :: "nat \<Rightarrow> nat \<Rightarrow> sync \<Rightarrow> nat option option" where
  "wait_queue_next q w k =
     do { kassert (wait_in_queue w k \<and> wait_queue (waits k w) = q);
          Some (succ_in w (wqs k q)) }"

definition wait_queue_prev :: "nat \<Rightarrow> nat \<Rightarrow> sync \<Rightarrow> nat option option" where
  "wait_queue_prev q w k =
     do { kassert (wait_in_queue w k \<and> wait_queue (waits k w) = q);
          Some (succ_in w (rev (wqs k q))) }"

definition wait_queue_first :: "nat \<Rightarrow> sync \<Rightarrow> nat option" where
  "wait_queue_first q k = (case wqs k q of [] \<Rightarrow> None | w # _ \<Rightarrow> Some w)"

definition wait_queue_last :: "nat \<Rightarrow> sync \<Rightarrow> nat option" where
  "wait_queue_last q k = (case rev (wqs k q) of [] \<Rightarrow> None | w # _ \<Rightarrow> Some w)"

definition wait_queue_empty :: "nat \<Rightarrow> sync \<Rightarrow> bool" where
  "wait_queue_empty q k \<longleftrightarrow> wqs k q = []"

definition wakeup_wait :: "sync_class \<Rightarrow> nat \<Rightarrow> nat \<Rightarrow> u32 \<Rightarrow> bool \<Rightarrow> sync \<Rightarrow> sync option" where
  "wakeup_wait c q w flgs del k =
     do { k1 \<leftarrow> (if del then wait_queue_del q w k else Some k);
          let k2 = upd_wait w (\<lambda>x. x\<lparr>wakeup_flags := flgs\<rparr>) k1;
          wakeup_proc c (wproc (waits k2 w)) k2 }"

definition wakeup_first :: "sync_class \<Rightarrow> nat \<Rightarrow> u32 \<Rightarrow> bool \<Rightarrow> sync \<Rightarrow> sync option" where
  "wakeup_first c q flgs del k =
     (case wait_queue_first q k of
        None \<Rightarrow> Some k
      | Some w \<Rightarrow> wakeup_wait c q w flgs del k)"

text \<open>The two loops of \<open>wakeup_queue\<close>; \<open>None\<close> is a failed assertion or a loop that does not end.\<close>

partial_function (option) wakeup_all_del :: "sync_class \<Rightarrow> nat \<Rightarrow> u32 \<Rightarrow> nat \<Rightarrow> sync \<Rightarrow> sync option" where
  "wakeup_all_del c q flgs w k =
     (case wakeup_wait c q w flgs True k of
        None \<Rightarrow> None
      | Some k1 \<Rightarrow>
          (case wait_queue_first q k1 of
             None \<Rightarrow> Some k1
           | Some w' \<Rightarrow> wakeup_all_del c q flgs w' k1))"

partial_function (option) wakeup_all_keep :: "sync_class \<Rightarrow> nat \<Rightarrow> u32 \<Rightarrow> nat \<Rightarrow> sync \<Rightarrow> sync option" where
  "wakeup_all_keep c q flgs w k =
     (case wakeup_wait c q w flgs False k of
        None \<Rightarrow> None
      | Some k1 \<Rightarrow>
          (case wait_queue_next q w k1 of
             None \<Rightarrow> None
           | Some None \<Rightarrow> Some k1
           | Some (Some w') \<Rightarrow> wakeup_all_keep c q flgs w' k1))"

definition wakeup_queue :: "sync_class \<Rightarrow> nat \<Rightarrow> u32 \<Rightarrow> bool \<Rightarrow> sync \<Rightarrow> sync option" where
  "wakeup_queue c q flgs del k =
     (case wait_queue_first q k of
        None \<Rightarrow> Some k
      | Some w \<Rightarrow> if del then wakeup_all_del c q flgs w k else wakeup_all_keep c q flgs w k)"

definition wait_current_set :: "nat \<Rightarrow> nat \<Rightarrow> u32 \<Rightarrow> sync \<Rightarrow> sync option" where
  "wait_current_set q w wstate k =
     do { let k1 = wait_init w (current k) k;
          let k2 = upd_proc (current k1) (\<lambda>p. p\<lparr>state := PROC_SLEEPING, wait_state := wstate\<rparr>) k1;
          wait_queue_add q w k2 }"

definition wait_current_del :: "nat \<Rightarrow> nat \<Rightarrow> sync \<Rightarrow> sync option" where
  "wait_current_del q w k = (if wait_in_queue w k then wait_queue_del q w k else Some k)"

section \<open>Semaphores\<close>

definition sem_init :: "nat \<Rightarrow> int \<Rightarrow> sync \<Rightarrow> sync" where
  "sem_init sem v k = wait_queue_init sem (k\<lparr>sem_value := (sem_value k)(sem := v)\<rparr>)"

definition up_raw :: "sync_class \<Rightarrow> nat \<Rightarrow> u32 \<Rightarrow> sync \<Rightarrow> sync option" where
  "up_raw c sem wstate k =
     (case wait_queue_first sem k of
        None \<Rightarrow> Some (k\<lparr>sem_value := (sem_value k)(sem := sem_value k sem + 1)\<rparr>)
      | Some w \<Rightarrow>
          do { kassert (wait_state (procs k (wproc (waits k w))) = wstate);
               wakeup_wait c sem w wstate True k })"

text \<open>The result is \<open>Some\<close> of the value returned, or \<open>None\<close> when the process waits.\<close>

definition down_begin :: "sync_class \<Rightarrow> nat \<Rightarrow> nat \<Rightarrow> u32 \<Rightarrow> sync \<Rightarrow> (u32 option \<times> sync) option" where
  "down_begin c sem w wstate k =
     (if sem_value k sem > 0
      then Some (Some 0, k\<lparr>sem_value := (sem_value k)(sem := sem_value k sem - 1)\<rparr>)
      else do { k1 \<leftarrow> wait_current_set sem w wstate k;
                k2 \<leftarrow> schedule c k1;
                Some (None, k2) })"

definition down_end :: "nat \<Rightarrow> nat \<Rightarrow> u32 \<Rightarrow> sync \<Rightarrow> (u32 \<times> sync) option" where
  "down_end sem w wstate k =
     do { k1 \<leftarrow> wait_current_del sem w k;
          Some (if wakeup_flags (waits k1 w) \<noteq> wstate then wakeup_flags (waits k1 w) else 0, k1) }"

definition up :: "sync_class \<Rightarrow> nat \<Rightarrow> sync \<Rightarrow> sync option" where
  "up c sem k = up_raw c sem WT_KSEM k"

text \<open>\<open>down\<close>: its first part, and its second part with the assertion on the flags.\<close>

definition down_first :: "sync_class \<Rightarrow> nat \<Rightarrow> nat \<Rightarrow> sync \<Rightarrow> (bool \<times> sync) option" where
  "down_first c sem w k =
     do { (r, k1) \<leftarrow> down_begin c sem w WT_KSEM k;
          case r of
            Some flgs \<Rightarrow> do { kassert (flgs = 0); Some (True, k1) }
          | None \<Rightarrow> Some (False, k1) }"

definition down_second :: "nat \<Rightarrow> nat \<Rightarrow> sync \<Rightarrow> sync option" where
  "down_second sem w k =
     do { (flgs, k1) \<leftarrow> down_end sem w WT_KSEM k;
          kassert (flgs = 0);
          Some k1 }"

definition try_down :: "nat \<Rightarrow> sync \<Rightarrow> bool \<times> sync" where
  "try_down sem k =
     (if sem_value k sem > 0
      then (True, k\<lparr>sem_value := (sem_value k)(sem := sem_value k sem - 1)\<rparr>) else (False, k))"

lemma upd_wait_simps [simp]:
  "procs (upd_wait w f k) = procs k" "current (upd_wait w f k) = current k"
  "idleproc (upd_wait w f k) = idleproc k" "wqs (upd_wait w f k) = wqs k"
  "sem_value (upd_wait w f k) = sem_value k" "waits (upd_wait w f k) = (waits k)(w := f (waits k w))"
  "run_list (upd_wait w f k) = run_list k" "proc_num (upd_wait w f k) = proc_num k"
  by (simp_all add: upd_wait_def)

lemma set_queue_simps [simp]:
  "procs (set_queue q ws k) = procs k" "current (set_queue q ws k) = current k"
  "idleproc (set_queue q ws k) = idleproc k" "wqs (set_queue q ws k) = (wqs k)(q := ws)"
  "sem_value (set_queue q ws k) = sem_value k" "waits (set_queue q ws k) = waits k"
  "run_list (set_queue q ws k) = run_list k" "proc_num (set_queue q ws k) = proc_num k"
  by (simp_all add: set_queue_def)

lemma upd_proc_sync [simp]:
  "waits (upd_proc p f k) = waits k" "wqs (upd_proc p f k) = wqs k" "sem_value (upd_proc p f k) = sem_value k"
  by (simp_all add: upd_proc_def)

text \<open>The scheduler's invariant looks only at the processes and the run queue.\<close>

definition sched_fine :: "sync \<Rightarrow> bool" where
  "sched_fine k \<longleftrightarrow> RR_inv k \<and> sched_ok RR_queued k"

lemma sched_fine_cong:
  "procs k' = procs k \<Longrightarrow> current k' = current k \<Longrightarrow> idleproc k' = idleproc k \<Longrightarrow> run_list k' = run_list k \<Longrightarrow>
   proc_num k' = proc_num k \<Longrightarrow> sched_fine k' = sched_fine k"
  by (simp add: sched_fine_def RR_inv_def sched_ok_def RR_queued_def)

lemma more_sync:
  "kern.more k' = kern.more (k :: sync) \<Longrightarrow> waits k' = waits k \<and> wqs k' = wqs k \<and> sem_value k' = sem_value k"
  by (cases k; cases k') simp

lemma wakeup_fine:
  assumes "sched_fine k" and "state (procs k p) \<noteq> PROC_ZOMBIE"
  shows "\<exists>k'. wakeup_proc default_sched_class p k = Some k' \<and> sched_fine k' \<and> current k' = current k \<and>
    idleproc k' = idleproc k \<and> waits k' = waits k \<and> wqs k' = wqs k \<and> sem_value k' = sem_value k \<and>
    state (procs k' p) = PROC_RUNNABLE \<and>
    (\<forall>q. q \<noteq> p \<longrightarrow> state (procs k' q) = state (procs k q) \<and> wait_state (procs k' q) = wait_state (procs k q))"
proof -
  obtain k' where k': "wakeup_proc default_sched_class p k = Some k'" "RR_inv k'" "sched_ok RR_queued k'"
    "state (procs k' p) = PROC_RUNNABLE" "current k' = current k" "idleproc k' = idleproc k"
    "kern.more k' = kern.more k"
    "\<forall>q. q \<noteq> p \<longrightarrow> sched_erase (procs k' q) = sched_erase (procs k q)"
    using rr.wakeup_ok [of k p] assms unfolding sched_fine_def by blast
  moreover have "\<forall>q. q \<noteq> p \<longrightarrow> state (procs k' q) = state (procs k q) \<and>
      wait_state (procs k' q) = wait_state (procs k q)"
    using k'(8) sched_eraseD(1,10) by blast
  ultimately show ?thesis using more_sync [OF k'(7)] unfolding sched_fine_def by blast
qed

lemma schedule_fine:
  assumes "sched_fine k"
  shows "\<exists>k'. schedule default_sched_class k = Some k' \<and> sched_fine k' \<and> idleproc k' = idleproc k \<and>
    waits k' = waits k \<and> wqs k' = wqs k \<and> sem_value k' = sem_value k \<and>
    (\<forall>q. state (procs k' q) = state (procs k q) \<and> wait_state (procs k' q) = wait_state (procs k q)) \<and>
    (current k' = idleproc k \<or> state (procs k (current k')) = PROC_RUNNABLE)"
proof -
  obtain k' where k': "schedule default_sched_class k = Some k'" "RR_inv k'" "sched_ok RR_queued k'"
    "idleproc k' = idleproc k" "kern.more k' = kern.more k"
    "\<forall>q. sched_erase (procs k' q) = sched_erase (procs k q)"
    "if {p. state (procs k p) = PROC_RUNNABLE} - {idleproc k} = {} then current k' = idleproc k
     else state (procs k (current k')) = PROC_RUNNABLE \<and> current k' \<noteq> idleproc k"
    using rr.schedule_ok [of k] assms unfolding sched_fine_def by blast
  moreover have "current k' = idleproc k \<or> state (procs k (current k')) = PROC_RUNNABLE"
    using k'(7) by (auto split: if_splits)
  moreover have "\<forall>q. state (procs k' q) = state (procs k q) \<and>
      wait_state (procs k' q) = wait_state (procs k q)"
    using k'(6) sched_eraseD(1,10) by blast
  ultimately show ?thesis using more_sync [OF k'(5)] unfolding sched_fine_def by blast
qed

lemma block_fine:
  assumes "sched_fine k"
  shows "sched_fine (upd_proc (current k) (\<lambda>p. p\<lparr>state := PROC_SLEEPING, wait_state := w\<rparr>) k)"
  using rr.blocked_ok [of k "\<lambda>p. p\<lparr>state := PROC_SLEEPING, wait_state := w\<rparr>"] assms
  by (simp add: sched_fine_def)

section \<open>A semaphore in use\<close>

text \<open>
  What happens to one semaphore: the running process calls \<open>up\<close>, \<open>try_down\<close> or \<open>down\<close>, whose second
  part it runs when it is scheduled again; processes that are not inside \<open>down\<close> may be woken, sleep and
  exit for other reasons; the clock ticks and the scheduler runs at any time. A process uses its own
  number as the address of the \<open>wait_t\<close> on its stack. The ghost fields are the set of processes between
  the two parts of \<open>down\<close> and the numbers of completed \<open>up\<close>s and \<open>down\<close>s.
\<close>

record semsys =
  ks :: sync
  pending :: "proc_ptr set"
  n_up :: nat
  n_down :: nat

abbreviation rrc :: sync_class where "rrc \<equiv> default_sched_class"

inductive sem_step :: "nat \<Rightarrow> semsys \<Rightarrow> semsys \<Rightarrow> bool" for sem where
  step_up: "current (ks s) \<notin> pending s \<Longrightarrow> up rrc sem (ks s) = Some k' \<Longrightarrow>
    sem_step sem s (s\<lparr>ks := k', n_up := Suc (n_up s)\<rparr>)"
| step_down: "current (ks s) \<notin> pending s \<Longrightarrow>
    down_first rrc sem (current (ks s)) (ks s) = Some (True, k') \<Longrightarrow>
    sem_step sem s (s\<lparr>ks := k', n_down := Suc (n_down s)\<rparr>)"
| step_wait: "current (ks s) \<notin> pending s \<Longrightarrow> current (ks s) \<noteq> idleproc (ks s) \<Longrightarrow>
    down_first rrc sem (current (ks s)) (ks s) = Some (False, k') \<Longrightarrow>
    sem_step sem s (s\<lparr>ks := k', pending := insert (current (ks s)) (pending s)\<rparr>)"
| step_resume: "current (ks s) \<in> pending s \<Longrightarrow>
    down_second sem (current (ks s)) (ks s) = Some k' \<Longrightarrow>
    sem_step sem s (s\<lparr>ks := k', pending := pending s - {current (ks s)}, n_down := Suc (n_down s)\<rparr>)"
| step_try: "current (ks s) \<notin> pending s \<Longrightarrow> try_down sem (ks s) = (b, k') \<Longrightarrow>
    sem_step sem s (s\<lparr>ks := k', n_down := n_down s + (if b then 1 else 0)\<rparr>)"
| step_wake: "p \<notin> pending s \<Longrightarrow> state (procs (ks s) p) \<noteq> PROC_ZOMBIE \<Longrightarrow>
    wakeup_proc rrc p (ks s) = Some k' \<Longrightarrow> sem_step sem s (s\<lparr>ks := k'\<rparr>)"
| step_yield: "schedule rrc (ks s) = Some k' \<Longrightarrow> sem_step sem s (s\<lparr>ks := k'\<rparr>)"
| step_tick: "sem_step sem s (s\<lparr>ks := sched_class_proc_tick rrc (current (ks s)) (ks s)\<rparr>)"
| step_sleep: "current (ks s) \<notin> pending s \<Longrightarrow> current (ks s) \<noteq> idleproc (ks s) \<Longrightarrow>
    schedule rrc (upd_proc (current (ks s)) (\<lambda>p. p\<lparr>state := PROC_SLEEPING, wait_state := w\<rparr>) (ks s)) = Some k' \<Longrightarrow>
    sem_step sem s (s\<lparr>ks := k'\<rparr>)"
| step_exit: "current (ks s) \<notin> pending s \<Longrightarrow> current (ks s) \<noteq> idleproc (ks s) \<Longrightarrow>
    schedule rrc (upd_proc (current (ks s)) (\<lambda>p. p\<lparr>state := PROC_ZOMBIE, exit_code := e\<rparr>) (ks s)) = Some k' \<Longrightarrow>
    sem_step sem s (s\<lparr>ks := k'\<rparr>)"

inductive sem_reach :: "nat \<Rightarrow> semsys \<Rightarrow> semsys \<Rightarrow> bool" for sem s0 where
  sem_refl: "sem_reach sem s0 s0"
| sem_next: "sem_reach sem s0 s \<Longrightarrow> sem_step sem s s' \<Longrightarrow> sem_reach sem s0 s'"

text \<open>Waiting processes sleep; processes granted the semaphore are runnable and carry the right flags.\<close>

definition sem_shape :: "nat \<Rightarrow> proc_ptr set \<Rightarrow> sync \<Rightarrow> bool" where
  "sem_shape sem P k \<longleftrightarrow> sched_fine k \<and> 0 \<le> sem_value k sem \<and>
     (wqs k sem \<noteq> [] \<longrightarrow> sem_value k sem = 0) \<and> distinct (wqs k sem) \<and>
     current k \<notin> set (wqs k sem) \<and> idleproc k \<notin> P \<and> finite P \<and> set (wqs k sem) \<subseteq> P \<and>
     (\<forall>w \<in> P. wproc (waits k w) = w \<and> wait_queue (waits k w) = sem) \<and>
     (\<forall>w \<in> set (wqs k sem). state (procs k w) = PROC_SLEEPING \<and> wait_state (procs k w) = WT_KSEM) \<and>
     (\<forall>w \<in> P - set (wqs k sem). state (procs k w) = PROC_RUNNABLE \<and> wakeup_flags (waits k w) = WT_KSEM) \<and>
     (\<forall>w. w \<notin> P \<longrightarrow> \<not> wait_in_queue w k)"

definition sem_inv :: "nat \<Rightarrow> int \<Rightarrow> semsys \<Rightarrow> bool" where
  "sem_inv sem v s \<longleftrightarrow> sem_shape sem (pending s) (ks s) \<and>
     sem_value (ks s) sem + int (card (pending s - set (wqs (ks s) sem))) + int (n_down s) = v + int (n_up s)"

text \<open>Steps that leave the semaphore and the processes inside \<open>down\<close> alone keep the shape.\<close>

lemma sem_shape_frame:
  assumes "sem_shape sem P k" and "sched_fine k'" and "waits k' = waits k" and "wqs k' = wqs k"
    and "sem_value k' = sem_value k" and "idleproc k' = idleproc k"
    and "\<And>p. p \<in> P \<Longrightarrow> state (procs k' p) = state (procs k p) \<and> wait_state (procs k' p) = wait_state (procs k p)"
    and "current k' \<notin> set (wqs k sem)"
  shows "sem_shape sem P k'"
proof -
  have "wait_in_queue w k' = wait_in_queue w k" for w by (simp add: wait_in_queue_def assms(3,4))
  moreover have "state (procs k' w) = state (procs k w) \<and> wait_state (procs k' w) = wait_state (procs k w)"
    if "w \<in> set (wqs k sem) \<or> w \<in> P - set (wqs k sem)" for w
    using that assms(1,7) by (auto simp: sem_shape_def)
  ultimately show ?thesis using assms unfolding sem_shape_def by simp
qed

text \<open>A process chosen by the scheduler is not waiting.\<close>

lemma not_waiting:
  "sem_shape sem P k \<Longrightarrow> p = idleproc k \<or> state (procs k p) = PROC_RUNNABLE \<Longrightarrow> p \<notin> set (wqs k sem)"
  by (auto simp: sem_shape_def)

lemma schedule_shape:
  assumes sh: "sem_shape sem P k" and k1: "sched_fine k1" "waits k1 = waits k" "wqs k1 = wqs k"
    "sem_value k1 = sem_value k" "idleproc k1 = idleproc k"
    and same: "\<And>p. p \<in> P \<Longrightarrow> state (procs k1 p) = state (procs k p) \<and> wait_state (procs k1 p) = wait_state (procs k p)"
    and run: "schedule rrc k1 = Some k'"
  shows "sem_shape sem P k' \<and> wqs k' = wqs k \<and> sem_value k' = sem_value k"
proof -
  from schedule_fine [OF k1(1)] run have k': "sched_fine k'" "idleproc k' = idleproc k1" "waits k' = waits k1"
    "wqs k' = wqs k1" "sem_value k' = sem_value k1"
    "\<forall>q. state (procs k' q) = state (procs k1 q) \<and> wait_state (procs k' q) = wait_state (procs k1 q)"
    "current k' = idleproc k1 \<or> state (procs k1 (current k')) = PROC_RUNNABLE" by auto
  have "current k' \<notin> set (wqs k sem)"
  proof
    assume c: "current k' \<in> set (wqs k sem)"
    then have "current k' \<in> P" "state (procs k (current k')) = PROC_SLEEPING" "current k' \<noteq> idleproc k"
      using sh by (auto simp: sem_shape_def)
    with same k'(7) k1(5) show False by auto
  qed
  then have "sem_shape sem P k'"
    by (intro sem_shape_frame [OF sh k'(1)]) (use k' k1 same in auto)
  with k' k1 show ?thesis by simp
qed

text \<open>\<open>up\<close> hands the semaphore to the first process that waits, or counts.\<close>

lemma up_shape:
  assumes sh: "sem_shape sem P k"
  shows "\<exists>k'. up rrc sem k = Some k' \<and> sem_shape sem P k' \<and> current k' = current k \<and>
    (case wqs k sem of
       [] \<Rightarrow> wqs k' sem = [] \<and> sem_value k' sem = sem_value k sem + 1
     | w # ws \<Rightarrow> wqs k' sem = ws \<and> sem_value k' sem = 0 \<and> state (procs k' w) = PROC_RUNNABLE)"
proof (cases "wqs k sem")
  case Nil
  let ?k = "k\<lparr>sem_value := (sem_value k)(sem := sem_value k sem + 1)\<rparr>"
  have "sched_fine ?k" using sh sched_fine_cong [of ?k k] by (simp add: sem_shape_def)
  moreover have "wait_in_queue w ?k = wait_in_queue w k" for w by (simp add: wait_in_queue_def)
  ultimately have "sem_shape sem P ?k" using sh Nil by (simp add: sem_shape_def)
  with Nil show ?thesis by (simp add: up_def up_raw_def wait_queue_first_def)
next
  case (Cons w ws)
  have w: "w \<in> P" "wproc (waits k w) = w" "wait_queue (waits k w) = sem" "state (procs k w) = PROC_SLEEPING"
    "wait_state (procs k w) = WT_KSEM" "w \<notin> set ws" "distinct ws" "sem_value k sem = 0"
    using sh Cons by (auto simp: sem_shape_def)
  let ?k1 = "upd_wait w (\<lambda>x. x\<lparr>wakeup_flags := WT_KSEM\<rparr>) (set_queue sem ws k)"
  have "sched_fine ?k1" using sh sched_fine_cong [of ?k1 k] by (simp add: sem_shape_def)
  from wakeup_fine [OF this, of w] w(4) obtain k' where k': "wakeup_proc rrc w ?k1 = Some k'" "sched_fine k'"
    "current k' = current k" "idleproc k' = idleproc k" "waits k' = waits ?k1" "wqs k' = wqs ?k1"
    "sem_value k' = sem_value k" "state (procs k' w) = PROC_RUNNABLE"
    "\<forall>q. q \<noteq> w \<longrightarrow> state (procs k' q) = state (procs k q) \<and> wait_state (procs k' q) = wait_state (procs k q)"
    by auto
  have "wait_in_queue w k" using w(3) Cons by (simp add: wait_in_queue_def)
  then have run: "up rrc sem k = Some k'"
    using k'(1) w(2,3,5) Cons
    by (simp add: up_def up_raw_def wait_queue_first_def wakeup_wait_def wait_queue_del_def)
  have nq: "\<not> wait_in_queue x k'" if "x \<notin> P" for x
  proof -
    have "x \<noteq> w" using that w(1) by auto
    moreover have "\<not> wait_in_queue x k" using sh that by (simp add: sem_shape_def)
    ultimately show ?thesis using Cons by (auto simp: wait_in_queue_def k'(5,6))
  qed
  have "sem_shape sem P k'"
    unfolding sem_shape_def
  proof (intro conjI ballI allI impI)
    fix x assume "x \<in> set (wqs k' sem)"
    then have x: "x \<noteq> w" "x \<in> set (wqs k sem)" using w(6) Cons by (auto simp: k'(6))
    then show "state (procs k' x) = PROC_SLEEPING" "wait_state (procs k' x) = WT_KSEM"
      using k'(9) sh by (auto simp: sem_shape_def)
  next
    fix x assume x: "x \<in> P - set (wqs k' sem)"
    show "state (procs k' x) = PROC_RUNNABLE" "wakeup_flags (waits k' x) = WT_KSEM"
      using k'(8,9) x sh Cons by (cases "x = w"; auto simp: k'(5,6) sem_shape_def)+
  qed (use k' sh w Cons nq in \<open>auto simp: sem_shape_def\<close>)
  with run k'(3,6,7) w(8) Cons k'(8) show ?thesis by simp
qed

text \<open>The first part of \<open>down\<close> by a process \<open>p\<close> that is not already inside one.\<close>

lemma dec_shape:
  assumes sh: "sem_shape sem P k" and v: "0 < sem_value k sem"
  shows "sem_shape sem P (k\<lparr>sem_value := (sem_value k)(sem := sem_value k sem - 1)\<rparr>)"
proof -
  let ?k = "k\<lparr>sem_value := (sem_value k)(sem := sem_value k sem - 1)\<rparr>"
  have "sched_fine ?k" using sh sched_fine_cong [of ?k k] by (simp add: sem_shape_def)
  moreover have "wait_in_queue w ?k = wait_in_queue w k" for w by (simp add: wait_in_queue_def)
  moreover have "wqs k sem = []" using sh v by (auto simp: sem_shape_def)
  ultimately show ?thesis using sh v by (simp add: sem_shape_def)
qed

lemma down_wait_shape:
  assumes sh: "sem_shape sem P k" and p: "current k \<notin> P" "current k \<noteq> idleproc k"
    and v: "\<not> 0 < sem_value k sem"
  shows "\<exists>k'. down_first rrc sem (current k) k = Some (False, k') \<and>
    sem_shape sem (insert (current k) P) k' \<and> wqs k' sem = wqs k sem @ [current k] \<and>
    sem_value k' sem = sem_value k sem"
proof -
  let ?p = "current k"
  have v0: "sem_value k sem = 0" using sh v by (simp add: sem_shape_def)
  have nq: "\<not> wait_in_queue ?p k" using sh p(1) by (simp add: sem_shape_def)
  define ki where "ki = wait_init ?p ?p k"
  define kb where "kb = upd_proc (current ki) (\<lambda>x. x\<lparr>state := PROC_SLEEPING, wait_state := WT_KSEM\<rparr>) ki"
  define kq where "kq = set_queue sem (wqs kb sem @ [?p]) (upd_wait ?p (\<lambda>x. x\<lparr>wait_queue := sem\<rparr>) kb)"
  have cur: "current ki = ?p" by (simp add: ki_def wait_init_def)
  have "sched_fine ki"
    using sh sched_fine_cong [of ki k] by (simp add: ki_def wait_init_def sem_shape_def)
  then have fb: "sched_fine kb" unfolding kb_def by (rule block_fine)
  have fq: "sched_fine kq" using fb sched_fine_cong [of kq kb] by (simp add: kq_def)
  have "wait_in_queue ?p kb = wait_in_queue ?p k"
    by (simp add: wait_in_queue_def kb_def ki_def wait_init_def)
  then have set: "wait_current_set sem ?p WT_KSEM k = Some kq"
    using nq unfolding wait_current_set_def Let_def ki_def [symmetric] kb_def [symmetric]
    by (simp add: wait_queue_add_def kq_def Let_def)
  obtain k' where k': "schedule rrc kq = Some k'" "sched_fine k'" "idleproc k' = idleproc kq"
    "waits k' = waits kq" "wqs k' = wqs kq" "sem_value k' = sem_value kq"
    "\<forall>q. state (procs k' q) = state (procs kq q) \<and> wait_state (procs k' q) = wait_state (procs kq q)"
    "current k' = idleproc kq \<or> state (procs kq (current k')) = PROC_RUNNABLE"
    using schedule_fine [OF fq] by blast
  have run: "down_first rrc sem ?p k = Some (False, k')"
    using v set k'(1) by (simp add: down_first_def down_begin_def)
  have idle: "idleproc kq = idleproc k" by (simp add: kq_def kb_def ki_def wait_init_def)
  have proc: "state (procs kq x) = (if x = ?p then PROC_SLEEPING else state (procs k x))"
    "wait_state (procs kq x) = (if x = ?p then WT_KSEM else wait_state (procs k x))" for x
    by (simp_all add: kq_def kb_def cur) (simp_all add: ki_def wait_init_def)
  have queue: "wqs kq = (wqs k)(sem := wqs k sem @ [?p])" "sem_value kq = sem_value k"
    by (simp_all add: kq_def kb_def ki_def wait_init_def)
  have wait: "waits kq x = (if x = ?p then \<lparr>wproc = ?p, wakeup_flags = WT_INTERRUPTED, wait_queue = sem\<rparr>
      else waits k x)" for x
    by (simp add: kq_def kb_def ki_def wait_init_def)
  have pq: "?p \<notin> set (wqs k sem)" using sh p(1) by (auto simp: sem_shape_def)
  have "sem_shape sem (insert ?p P) k'"
    unfolding sem_shape_def
  proof (intro conjI allI impI)
    show "current k' \<notin> set (wqs k' sem)"
    proof
      assume "current k' \<in> set (wqs k' sem)"
      then have "current k' \<in> insert ?p (set (wqs k sem))" by (simp add: k'(5) queue)
      moreover have "current k' = idleproc k \<or> state (procs kq (current k')) = PROC_RUNNABLE"
        using k'(8) idle by simp
      ultimately show False using sh p by (auto simp: proc sem_shape_def split: if_splits)
    qed
    show "\<not> wait_in_queue w k'" if "w \<notin> insert ?p P" for w
    proof -
      have "w \<noteq> ?p" "\<not> wait_in_queue w k" using that sh by (auto simp: sem_shape_def)
      then show ?thesis by (auto simp: wait_in_queue_def k'(4,5) queue wait)
    qed
  qed (use k' sh p pq v0 in \<open>auto simp: sem_shape_def proc queue wait idle\<close>)
  with run show ?thesis by (simp add: k'(5,6) queue)
qed

lemma down_resume_shape:
  assumes sh: "sem_shape sem P k" and p: "current k \<in> P"
  shows "down_second sem (current k) k = Some k \<and> sem_shape sem (P - {current k}) k"
proof
  have g: "current k \<notin> set (wqs k sem)" "wait_queue (waits k (current k)) = sem"
    "wakeup_flags (waits k (current k)) = WT_KSEM"
    using sh p by (auto simp: sem_shape_def)
  then have nq: "\<not> wait_in_queue (current k) k" by (simp add: wait_in_queue_def)
  then show "down_second sem (current k) k = Some k"
    using g by (simp add: down_second_def down_end_def wait_current_del_def)
  show "sem_shape sem (P - {current k}) k" using sh g(1) nq by (auto simp: sem_shape_def)
qed

lemma down_true:
  assumes "down_first rrc sem w k = Some (True, k')"
  shows "0 < sem_value k sem \<and> k' = k\<lparr>sem_value := (sem_value k)(sem := sem_value k sem - 1)\<rparr>"
  using assms
  by (auto simp: down_first_def down_begin_def bind_eq_Some_conv split: if_splits)

lemma down_false:
  assumes "down_first rrc sem w k = Some (False, k')"
  shows "\<not> 0 < sem_value k sem"
  using assms by (auto simp: down_first_def down_begin_def bind_eq_Some_conv split: if_splits)

lemma sem_step_inv:
  assumes "sem_step sem s s'" and "sem_inv sem v s"
  shows "sem_inv sem v s'"
  using assms
proof (induction rule: sem_step.induct)
  case (step_up s k')
  then have sh: "sem_shape sem (pending s) (ks s)" by (simp add: sem_inv_def)
  show ?case
  proof (cases "wqs (ks s) sem")
    case Nil
    with up_shape [OF sh] step_up show ?thesis by (auto simp: sem_inv_def)
  next
    case (Cons w ws)
    have w: "w \<in> pending s" "finite (pending s)" "w \<notin> set ws" using sh Cons by (auto simp: sem_shape_def)
    have "pending s - set ws = insert w (pending s - set (wqs (ks s) sem))" using w Cons by auto
    moreover have "w \<notin> pending s - set (wqs (ks s) sem)" using Cons by simp
    ultimately have "card (pending s - set ws) = Suc (card (pending s - set (wqs (ks s) sem)))"
      using w(2) by simp
    moreover have "sem_value (ks s) sem = 0" using sh Cons by (simp add: sem_shape_def)
    ultimately show ?thesis using up_shape [OF sh] step_up Cons by (auto simp: sem_inv_def)
  qed
next
  case (step_down s k')
  with down_true [OF step_down(2)] dec_shape [of sem "pending s" "ks s"] show ?case
    by (simp add: sem_inv_def)
next
  case (step_wait s k')
  have sh: "sem_shape sem (pending s) (ks s)" using step_wait by (simp add: sem_inv_def)
  from down_wait_shape [OF sh step_wait(1,2) down_false [OF step_wait(3)]] step_wait(3)
  have k': "sem_shape sem (insert (current (ks s)) (pending s)) k'"
    "wqs k' sem = wqs (ks s) sem @ [current (ks s)]" "sem_value k' sem = sem_value (ks s) sem" by auto
  have "insert (current (ks s)) (pending s) - set (wqs k' sem) = pending s - set (wqs (ks s) sem)"
    using step_wait(1) unfolding k'(2) by auto
  with k' step_wait(4) show ?case by (simp add: sem_inv_def)
next
  case (step_resume s k')
  have sh: "sem_shape sem (pending s) (ks s)" using step_resume by (simp add: sem_inv_def)
  from down_resume_shape [OF sh step_resume(1)] step_resume(2)
  have k': "k' = ks s" "sem_shape sem (pending s - {current (ks s)}) (ks s)" by auto
  have c: "current (ks s) \<in> pending s - set (wqs (ks s) sem)" "finite (pending s)"
    using sh step_resume(1) by (auto simp: sem_shape_def)
  have "pending s - {current (ks s)} - set (wqs (ks s) sem) =
      (pending s - set (wqs (ks s) sem)) - {current (ks s)}" by auto
  moreover have "card (pending s - set (wqs (ks s) sem)) =
      Suc (card ((pending s - set (wqs (ks s) sem)) - {current (ks s)}))"
    using c by (metis card_Suc_Diff1 finite_Diff)
  ultimately show ?case using k' step_resume(3) by (simp add: sem_inv_def)
next
  case (step_try s b k')
  show ?case
  proof (cases b)
    case True
    then have "0 < sem_value (ks s) sem" "k' = (ks s)\<lparr>sem_value := (sem_value (ks s))(sem := sem_value (ks s) sem - 1)\<rparr>"
      using step_try(2) by (auto simp: try_down_def split: if_splits)
    with dec_shape [of sem "pending s" "ks s"] step_try True show ?thesis by (simp add: sem_inv_def)
  next
    case False
    then show ?thesis using step_try by (auto simp: try_down_def split: if_splits)
  qed
next
  case (step_wake p s k')
  have sh: "sem_shape sem (pending s) (ks s)" using step_wake by (simp add: sem_inv_def)
  then have "sched_fine (ks s)" by (simp add: sem_shape_def)
  from wakeup_fine [OF this step_wake(2)] step_wake(3)
  have k': "sched_fine k'" "current k' = current (ks s)" "idleproc k' = idleproc (ks s)" "waits k' = waits (ks s)"
    "wqs k' = wqs (ks s)" "sem_value k' = sem_value (ks s)"
    "\<forall>q. q \<noteq> p \<longrightarrow> state (procs k' q) = state (procs (ks s) q) \<and>
       wait_state (procs k' q) = wait_state (procs (ks s) q)" by auto
  have "current k' \<notin> set (wqs (ks s) sem)" using sh k'(2) by (simp add: sem_shape_def)
  then have "sem_shape sem (pending s) k'"
    using step_wake(1) k' by (intro sem_shape_frame [OF sh k'(1)]) auto
  with step_wake(4) k' show ?case by (simp add: sem_inv_def)
next
  case (step_yield s k')
  have sh: "sem_shape sem (pending s) (ks s)" using step_yield by (simp add: sem_inv_def)
  then have "sched_fine (ks s)" by (simp add: sem_shape_def)
  from schedule_shape [OF sh this refl refl refl refl _ step_yield(1)] step_yield(2) show ?case
    by (simp add: sem_inv_def)
next
  case (step_tick s)
  let ?k = "sched_class_proc_tick rrc (current (ks s)) (ks s)"
  have sh: "sem_shape sem (pending s) (ks s)" using step_tick by (simp add: sem_inv_def)
  then have f: "sched_fine (ks s)" by (simp add: sem_shape_def)
  have "sched_fine ?k" using f rr.tick_ok [of "ks s" "current (ks s)"] by (simp add: sched_fine_def)
  moreover have t: "waits ?k = waits (ks s)" "wqs ?k = wqs (ks s)" "sem_value ?k = sem_value (ks s)"
    "idleproc ?k = idleproc (ks s)" "current ?k = current (ks s)"
    "\<And>q. state (procs ?k q) = state (procs (ks s) q)" "\<And>q. wait_state (procs ?k q) = wait_state (procs (ks s) q)"
    by (simp_all add: sched_class_proc_tick_def RR_proc_tick_def Let_def)
  moreover have "current (ks s) \<notin> set (wqs (ks s) sem)" using sh by (simp add: sem_shape_def)
  ultimately have "sem_shape sem (pending s) ?k" by (intro sem_shape_frame [OF sh]) auto
  with step_tick t show ?case by (simp add: sem_inv_def)
next
  case (step_sleep s w k')
  have sh: "sem_shape sem (pending s) (ks s)" using step_sleep by (simp add: sem_inv_def)
  then have f: "sched_fine (ks s)" by (simp add: sem_shape_def)
  have "sem_shape sem (pending s) k' \<and> wqs k' = wqs (ks s) \<and> sem_value k' = sem_value (ks s)"
    by (rule schedule_shape [OF sh block_fine [OF f] _ _ _ _ _ step_sleep(3)]) (use step_sleep(1) in auto)
  with step_sleep(4) show ?case by (simp add: sem_inv_def)
next
  case (step_exit s e k')
  have sh: "sem_shape sem (pending s) (ks s)" using step_exit by (simp add: sem_inv_def)
  then have f: "RR_inv (ks s)" "sched_ok RR_queued (ks s)" by (simp_all add: sem_shape_def sched_fine_def)
  let ?k = "upd_proc (current (ks s)) (\<lambda>p. p\<lparr>state := PROC_ZOMBIE, exit_code := e\<rparr>) (ks s)"
  have "sched_fine ?k"
    using rr.blocked_ok [OF f, of "\<lambda>p. p\<lparr>state := PROC_ZOMBIE, exit_code := e\<rparr>"] by (simp add: sched_fine_def)
  have "sem_shape sem (pending s) k' \<and> wqs k' = wqs (ks s) \<and> sem_value k' = sem_value (ks s)"
    by (rule schedule_shape [OF sh \<open>sched_fine ?k\<close> _ _ _ _ _ step_exit(3)]) (use step_exit(1) in auto)
  with step_exit(4) show ?case by (simp add: sem_inv_def)
qed

lemma sem_reach_inv: "sem_reach sem s s' \<Longrightarrow> sem_inv sem v s \<Longrightarrow> sem_inv sem v s'"
  by (induction rule: sem_reach.induct) (auto intro: sem_step_inv)

text \<open>The states in which a semaphore has just been initialised.\<close>

definition sem_start :: "nat \<Rightarrow> int \<Rightarrow> semsys \<Rightarrow> bool" where
  "sem_start sem v s \<longleftrightarrow> (\<exists>k. ks s = sem_init sem v k \<and> sched_fine k \<and> (\<forall>w. \<not> wait_in_queue w k)) \<and>
     0 \<le> v \<and> pending s = {} \<and> n_up s = 0 \<and> n_down s = 0"

lemma sem_start_inv: "sem_start sem v s \<Longrightarrow> sem_inv sem v s"
proof -
  assume "sem_start sem v s"
  then obtain k where k: "ks s = sem_init sem v k" "sched_fine k" "\<forall>w. \<not> wait_in_queue w k" "0 \<le> v"
    "pending s = {}" "n_up s = 0" "n_down s = 0" by (auto simp: sem_start_def)
  let ?k = "sem_init sem v k"
  have "sched_fine ?k" using k(2) sched_fine_cong [of ?k k] by (simp add: sem_init_def wait_queue_init_def set_queue_def)
  moreover have "\<not> wait_in_queue w ?k" for w
    using k(3) by (auto simp: wait_in_queue_def sem_init_def wait_queue_init_def)
  ultimately show ?thesis using k
    by (simp add: sem_inv_def sem_shape_def) (simp add: sem_init_def wait_queue_init_def)
qed

section \<open>Properties\<close>

text \<open>
  (C2) A semaphore initialised to \<open>v\<close> is safe under every interleaving of the operations of all
  processes: never do more than \<open>v\<close> plus the number of completed \<open>up\<close>s \<open>down\<close>s complete, the value is
  never negative and is zero while anybody waits, and no assertion of \<open>up\<close> or of either part of
  \<open>down\<close> can fail.
\<close>

theorem semaphore_safe:
  assumes "sem_start sem v s0" and "sem_reach sem s0 s"
  shows "int (n_down s) \<le> v + int (n_up s) \<and> 0 \<le> sem_value (ks s) sem \<and>
    (wqs (ks s) sem \<noteq> [] \<longrightarrow> sem_value (ks s) sem = 0) \<and> up rrc sem (ks s) \<noteq> None \<and>
    (current (ks s) \<in> pending s \<longrightarrow> down_second sem (current (ks s)) (ks s) \<noteq> None) \<and>
    (current (ks s) \<notin> pending s \<longrightarrow> current (ks s) \<noteq> idleproc (ks s) \<longrightarrow>
       down_first rrc sem (current (ks s)) (ks s) \<noteq> None)"
proof -
  have inv: "sem_inv sem v s" using sem_reach_inv [OF assms(2) sem_start_inv [OF assms(1)]] .
  then have sh: "sem_shape sem (pending s) (ks s)" by (simp add: sem_inv_def)
  have "down_first rrc sem (current (ks s)) (ks s) \<noteq> None"
    if "current (ks s) \<notin> pending s" "current (ks s) \<noteq> idleproc (ks s)"
  proof (cases "0 < sem_value (ks s) sem")
    case True
    then show ?thesis by (simp add: down_first_def down_begin_def)
  next
    case False
    from down_wait_shape [OF sh that False] show ?thesis by auto
  qed
  moreover have "up rrc sem (ks s) \<noteq> None" using up_shape [OF sh] by auto
  moreover have "down_second sem (current (ks s)) (ks s) \<noteq> None" if "current (ks s) \<in> pending s"
    using down_resume_shape [OF sh that] by simp
  ultimately show ?thesis using inv by (auto simp: sem_inv_def sem_shape_def)
qed

definition sync_sample :: sync where
  "sync_sample = \<lparr>procs = procs rr_sample, current = 1, idleproc = 0, initproc = 1, run_list = [2, 3],
     proc_num = 2, max_time_slice = 5, run_pool = None, timers = timers rr_sample, timer_list = [],
     waits = (\<lambda>_. \<lparr>wproc = 0, wakeup_flags = 0, wait_queue = 0\<rparr>), wqs = (\<lambda>_. []), sem_value = (\<lambda>_. 0)\<rparr>"

definition sem_sample :: semsys where
  "sem_sample = \<lparr>ks = sem_init 50 0 sync_sample, pending = {}, n_up = 0, n_down = 0\<rparr>"

lemma sync_sample_fine: "sched_fine sync_sample"
  by (auto simp: sched_fine_def RR_inv_def sched_ok_def RR_queued_def sync_sample_def rr_sample_def blank_proc_def)

lemma sem_sample_start: "sem_start 50 0 sem_sample"
  using sync_sample_fine
  by (auto simp: sem_start_def sem_sample_def wait_in_queue_def sync_sample_def intro!: exI [of _ sync_sample])

text \<open>Process 1 waits, and process 2 finds it in the queue.\<close>

lemma sem_sample_wait: "\<exists>s. sem_reach 50 sem_sample s \<and> wqs (ks s) 50 = [1] \<and> pending s = {1}"
proof -
  have inv: "sem_inv 50 0 sem_sample" by (rule sem_start_inv [OF sem_sample_start])
  have c: "current (ks sem_sample) = 1" "idleproc (ks sem_sample) = 0" "pending sem_sample = {}"
    "sem_value (ks sem_sample) 50 = 0" "wqs (ks sem_sample) 50 = []"
    by (simp_all add: sem_sample_def sem_init_def wait_queue_init_def sync_sample_def)
  from down_wait_shape [of 50 "{}" "ks sem_sample"] inv c obtain k' where
    k': "down_first rrc 50 1 (ks sem_sample) = Some (False, k')" "wqs k' 50 = [1]"
    by (auto simp: sem_inv_def)
  from step_wait [of sem_sample 50 k'] c k' have
    "sem_step 50 sem_sample (sem_sample\<lparr>ks := k', pending := {1}\<rparr>)" by simp
  then show ?thesis using k'(2) by (intro exI [of _ "sem_sample\<lparr>ks := k', pending := {1}\<rparr>"])
      (auto intro: sem_reach.intros)
qed

theorem semaphore_safe_witness:
  "\<exists>s. sem_reach 50 sem_sample s \<and> wqs (ks s) 50 = [1] \<and> sem_value (ks s) 50 = 0 \<and> up rrc 50 (ks s) \<noteq> None"
  using sem_sample_wait semaphore_safe [OF sem_sample_start] by (metis list.distinct(1))

text \<open>
  \<open>up\<close> is fair and loses no wake-up: when processes wait, it hands the semaphore to the one that
  has waited longest, which is runnable afterwards and off the queue while the others keep their order
  and the value stays zero; when none waits it adds one to the value.
\<close>

theorem up_wakes_first:
  assumes "sem_start sem v s0" and "sem_reach sem s0 s"
  shows "\<exists>k'. up rrc sem (ks s) = Some k' \<and>
    (case wqs (ks s) sem of
       [] \<Rightarrow> wqs k' sem = [] \<and> sem_value k' sem = sem_value (ks s) sem + 1
     | w # ws \<Rightarrow> wqs k' sem = ws \<and> sem_value k' sem = 0 \<and> state (procs k' w) = PROC_RUNNABLE)"
proof -
  have "sem_inv sem v s" using sem_reach_inv [OF assms(2) sem_start_inv [OF assms(1)]] .
  then have "sem_shape sem (pending s) (ks s)" by (simp add: sem_inv_def)
  from up_shape [OF this] show ?thesis by blast
qed

theorem up_wakes_first_witness:
  "\<exists>s k'. sem_reach 50 sem_sample s \<and> wqs (ks s) 50 = [1] \<and> up rrc 50 (ks s) = Some k' \<and>
     wqs k' 50 = [] \<and> state (procs k' 1) = PROC_RUNNABLE"
proof -
  obtain s where s: "sem_reach 50 sem_sample s" "wqs (ks s) 50 = [1]" using sem_sample_wait by blast
  from up_wakes_first [OF sem_sample_start s(1)] s show ?thesis by auto
qed

end
