(* ===== verification/Philosophers.thy ===== *)
theory Philosophers
  imports Prelude
begin

text \<open>
  The dining philosophers of \<open>lab8/kern/sync/check_sync.c\<close>, the version with semaphores. Each
  philosopher is a program counter over the statements of \<open>philosopher_using_semaphore\<close> and of the
  functions it calls; a step is one statement of one philosopher. A \<open>down\<close> completes only by taking
  one of the units the semaphore has been given (theory \<open>WaitSem\<close>), so it is a step that needs a
  positive count. Printing and \<open>do_sleep\<close> change nothing here.
\<close>

section \<open>The code\<close>

datatype phil_state = THINKING | HUNGRY | EATING

definition N :: nat where "N = 5"
definition TIMES :: nat where "TIMES = 4"

definition LEFT :: "nat \<Rightarrow> nat" where "LEFT i = nat ((int i - 1 + int N) mod int N)"
definition RIGHT :: "nat \<Rightarrow> nat" where "RIGHT i = (i + 1) mod N"

datatype phil_pc = Loop | TakeEnter | TakeSet | TakeTest | TakeLeave | TakeDown | Eat
  | PutEnter | PutSet | PutTestL | PutTestR | PutLeave | Quit

record phil =
  state_sema :: "nat \<Rightarrow> phil_state"
  mutex :: nat
  sem_s :: "nat \<Rightarrow> nat"
  pc :: "nat \<Rightarrow> phil_pc"
  iter :: "nat \<Rightarrow> nat"

definition phi_test_sema :: "nat \<Rightarrow> phil \<Rightarrow> phil" where
  "phi_test_sema i s =
     (if state_sema s i = HUNGRY \<and> state_sema s (LEFT i) \<noteq> EATING \<and> state_sema s (RIGHT i) \<noteq> EATING
      then s\<lparr>state_sema := (state_sema s)(i := EATING), sem_s := (sem_s s)(i := sem_s s i + 1)\<rparr>
      else s)"

definition goto :: "nat \<Rightarrow> phil_pc \<Rightarrow> phil \<Rightarrow> phil" where
  "goto i q s = s\<lparr>pc := (pc s)(i := q)\<rparr>"

definition down_mutex :: "nat \<Rightarrow> phil_pc \<Rightarrow> phil \<Rightarrow> phil option" where
  "down_mutex i q s = (if mutex s > 0 then Some (goto i q (s\<lparr>mutex := mutex s - 1\<rparr>)) else None)"

definition up_mutex :: "nat \<Rightarrow> phil_pc \<Rightarrow> phil \<Rightarrow> phil option" where
  "up_mutex i q s = Some (goto i q (s\<lparr>mutex := mutex s + 1\<rparr>))"

definition phi_take_forks_sema :: "nat \<Rightarrow> phil \<Rightarrow> phil option" where
  "phi_take_forks_sema i s =
     (case pc s i of
        TakeEnter \<Rightarrow> down_mutex i TakeSet s
      | TakeSet \<Rightarrow> Some (goto i TakeTest (s\<lparr>state_sema := (state_sema s)(i := HUNGRY)\<rparr>))
      | TakeTest \<Rightarrow> Some (goto i TakeLeave (phi_test_sema i s))
      | TakeLeave \<Rightarrow> up_mutex i TakeDown s
      | TakeDown \<Rightarrow>
          if sem_s s i > 0 then Some (goto i Eat (s\<lparr>sem_s := (sem_s s)(i := sem_s s i - 1)\<rparr>)) else None
      | _ \<Rightarrow> None)"

definition phi_put_forks_sema :: "nat \<Rightarrow> phil \<Rightarrow> phil option" where
  "phi_put_forks_sema i s =
     (case pc s i of
        PutEnter \<Rightarrow> down_mutex i PutSet s
      | PutSet \<Rightarrow> Some (goto i PutTestL (s\<lparr>state_sema := (state_sema s)(i := THINKING)\<rparr>))
      | PutTestL \<Rightarrow> Some (goto i PutTestR (phi_test_sema (LEFT i) s))
      | PutTestR \<Rightarrow> Some (goto i PutLeave (phi_test_sema (RIGHT i) s))
      | PutLeave \<Rightarrow> up_mutex i Loop s
      | _ \<Rightarrow> None)"

text \<open>The next statement of philosopher \<open>i\<close>; \<open>None\<close> if it has to wait or has quit.\<close>

definition philosopher_using_semaphore :: "nat \<Rightarrow> phil \<Rightarrow> phil option" where
  "philosopher_using_semaphore i s =
     (case pc s i of
        Loop \<Rightarrow>
          Some (goto i (if iter s i < TIMES then TakeEnter else Quit)
            (s\<lparr>iter := (iter s)(i := iter s i + 1)\<rparr>))
      | Eat \<Rightarrow> Some (goto i PutEnter s)
      | Quit \<Rightarrow> None
      | q \<Rightarrow> if q \<in> {TakeEnter, TakeSet, TakeTest, TakeLeave, TakeDown} then phi_take_forks_sema i s
             else phi_put_forks_sema i s)"

text \<open>The state in which \<open>check_sync\<close> starts the five threads.\<close>

definition check_sync_start :: phil where
  "check_sync_start =
     \<lparr>state_sema = (\<lambda>_. THINKING), mutex = 1, sem_s = (\<lambda>_. 0), pc = (\<lambda>_. Loop), iter = (\<lambda>_. 0)\<rparr>"

inductive phil_step :: "phil \<Rightarrow> phil \<Rightarrow> bool" where
  step: "i < N \<Longrightarrow> philosopher_using_semaphore i s = Some s' \<Longrightarrow> phil_step s s'"

inductive phil_reach :: "nat \<Rightarrow> phil \<Rightarrow> bool" where
  start: "phil_reach 0 check_sync_start"
| next_step: "phil_reach n s \<Longrightarrow> phil_step s s' \<Longrightarrow> phil_reach (Suc n) s'"

section \<open>Neighbours\<close>

lemma five: "i < N \<longleftrightarrow> i = 0 \<or> i = 1 \<or> i = 2 \<or> i = 3 \<or> i = 4"
  by (auto simp: N_def)

lemma neighbours:
  assumes "i < N"
  shows "LEFT i < N" "RIGHT i < N" "LEFT (RIGHT i) = i" "RIGHT (LEFT i) = i" "LEFT i \<noteq> i" "RIGHT i \<noteq> i"
    "i \<noteq> LEFT i" "i \<noteq> RIGHT i"
  using assms unfolding five by (auto simp: LEFT_def RIGHT_def N_def)

lemma neighbour_inj:
  assumes "i < N" "j < N"
  shows "LEFT i = LEFT j \<longleftrightarrow> i = j" "RIGHT i = RIGHT j \<longleftrightarrow> i = j" "LEFT i = j \<longleftrightarrow> i = RIGHT j"
  using neighbours assms by metis+

section \<open>The invariant\<close>

definition in_cs :: "phil_pc \<Rightarrow> bool" where
  "in_cs q \<longleftrightarrow> q \<in> {TakeSet, TakeTest, TakeLeave, PutSet, PutTestL, PutTestR, PutLeave}"

definition excl :: "phil \<Rightarrow> bool" where
  "excl s \<longleftrightarrow> (if mutex s = 0 then \<exists>i < N. in_cs (pc s i) \<and> (\<forall>j < N. in_cs (pc s j) \<longrightarrow> j = i)
     else mutex s = 1 \<and> (\<forall>j < N. \<not> in_cs (pc s j)))"

definition apart :: "phil \<Rightarrow> bool" where
  "apart s \<longleftrightarrow> (\<forall>i < N. \<not> (state_sema s i = EATING \<and> state_sema s (RIGHT i) = EATING))"

text \<open>What the program counter of a philosopher says of its state and its semaphore.\<close>

definition phase :: "phil_pc \<Rightarrow> phil_state \<Rightarrow> nat \<Rightarrow> bool" where
  "phase q st v \<longleftrightarrow>
     (if q \<in> {Loop, TakeEnter, TakeSet, PutTestL, PutTestR, PutLeave, Quit} then st = THINKING \<and> v = 0
      else if q = TakeTest then st = HUNGRY \<and> v = 0
      else if q \<in> {TakeLeave, TakeDown} then st = HUNGRY \<and> v = 0 \<or> st = EATING \<and> v = 1
      else st = EATING \<and> v = 0)"

text \<open>Why a hungry philosopher that sleeps will be woken.\<close>

definition awaited :: "phil \<Rightarrow> nat \<Rightarrow> bool" where
  "awaited s i \<longleftrightarrow> state_sema s (LEFT i) = EATING \<or> state_sema s (RIGHT i) = EATING \<or>
     pc s (RIGHT i) = PutTestL \<or> pc s (LEFT i) \<in> {PutTestL, PutTestR}"

definition phil_inv :: "phil \<Rightarrow> bool" where
  "phil_inv s \<longleftrightarrow> excl s \<and> apart s \<and> (\<forall>i < N. phase (pc s i) (state_sema s i) (sem_s s i)) \<and>
     (\<forall>i < N. pc s i \<in> {TakeLeave, TakeDown} \<longrightarrow> state_sema s i = HUNGRY \<longrightarrow> awaited s i)"

lemma test_simps [simp]:
  "pc (phi_test_sema i s) = pc s" "mutex (phi_test_sema i s) = mutex s" "iter (phi_test_sema i s) = iter s"
  by (simp_all add: phi_test_sema_def)

lemma goto_simps [simp]:
  "state_sema (goto i q s) = state_sema s" "mutex (goto i q s) = mutex s" "sem_s (goto i q s) = sem_s s"
  "pc (goto i q s) = (pc s)(i := q)" "iter (goto i q s) = iter s"
  by (simp_all add: goto_def)

lemma test_apart:
  assumes "apart s" and "i < N"
  shows "apart (phi_test_sema i s)"
proof (cases "state_sema s i = HUNGRY \<and> state_sema s (LEFT i) \<noteq> EATING \<and> state_sema s (RIGHT i) \<noteq> EATING")
  case True
  show ?thesis
    unfolding apart_def
  proof (intro allI impI)
    fix j assume j: "j < N"
    have "j = LEFT i" if "RIGHT j = i" using that neighbours(3) [OF j] by simp
    then show "\<not> (state_sema (phi_test_sema i s) j = EATING \<and> state_sema (phi_test_sema i s) (RIGHT j) = EATING)"
      using True assms j neighbours [OF assms(2)] by (auto simp: phi_test_sema_def apart_def)
  qed
next
  case False
  then show ?thesis using assms by (auto simp: phi_test_sema_def)
qed

text \<open>Entering and leaving the critical section, and steps inside or outside it.\<close>

lemma excl_enter:
  "excl s \<Longrightarrow> i < N \<Longrightarrow> \<not> in_cs (pc s i) \<Longrightarrow> in_cs q \<Longrightarrow> down_mutex i q s = Some s' \<Longrightarrow> excl s'"
  by (auto simp: excl_def down_mutex_def split: if_splits)

lemma excl_others: "excl s \<Longrightarrow> i < N \<Longrightarrow> j < N \<Longrightarrow> in_cs (pc s i) \<Longrightarrow> in_cs (pc s j) \<Longrightarrow> i = j"
  by (auto simp: excl_def split: if_splits)

lemma excl_leave:
  assumes "excl s" "i < N" "in_cs (pc s i)" "\<not> in_cs q" "up_mutex i q s = Some s'"
  shows "excl s'"
proof -
  have "\<not> in_cs (pc s j)" if "j < N" "j \<noteq> i" for j using excl_others [of s i j] assms(1-3) that by blast
  moreover have "mutex s = 0" using assms(1-3) by (auto simp: excl_def split: if_splits)
  ultimately show ?thesis using assms(4,5) by (auto simp: excl_def up_mutex_def split: if_splits)
qed

lemma excl_stay:
  assumes "excl s" "mutex s' = mutex s" "pc s' = (pc s)(i := q)" "in_cs q = in_cs (pc s i)"
  shows "excl s'"
proof -
  have "in_cs (pc s' j) = in_cs (pc s j)" for j using assms(3,4) by simp
  with assms(1,2) show ?thesis unfolding excl_def by presburger
qed

lemma awaited_mono:
  assumes "awaited s j" and "\<And>x. state_sema s x = EATING \<Longrightarrow> state_sema s' x = EATING"
    and "pc s (RIGHT j) = PutTestL \<Longrightarrow> pc s' (RIGHT j) = PutTestL"
    and "pc s (LEFT j) \<in> {PutTestL, PutTestR} \<Longrightarrow> pc s' (LEFT j) \<in> {PutTestL, PutTestR}"
  shows "awaited s' j"
  using assms unfolding awaited_def by blast

lemma test_eating: "state_sema s x = EATING \<Longrightarrow> state_sema (phi_test_sema k s) x = EATING"
  by (simp add: phi_test_sema_def)

lemma test_awaited:
  "state_sema (phi_test_sema k s) k = HUNGRY \<Longrightarrow> awaited (goto i q (phi_test_sema k s)) k"
  by (auto simp: phi_test_sema_def awaited_def split: if_splits)

lemma test_phase:
  assumes "phase (pc s j) (state_sema s j) (sem_s s j)" and "j = k \<Longrightarrow> state_sema s k = HUNGRY \<Longrightarrow> pc s k \<in> {TakeLeave, TakeDown}"
  shows "phase (pc s j) (state_sema (phi_test_sema k s) j) (sem_s (phi_test_sema k s) j)"
  using assms by (auto simp: phi_test_sema_def phase_def split: if_splits)

text \<open>A philosopher in its critical section tests another one.\<close>

lemma test_other_inv:
  assumes inv: "phil_inv s" and i: "i < N" "in_cs (pc s i)" "in_cs q" and k: "k < N" "k \<noteq> i"
    and pq: "phase (pc s i) (state_sema s i) (sem_s s i) \<Longrightarrow> phase q (state_sema s i) (sem_s s i)"
    and q: "q \<notin> {TakeLeave, TakeDown}"
    and w: "\<And>j. j < N \<Longrightarrow> j \<noteq> k \<Longrightarrow> RIGHT j = i \<Longrightarrow> pc s i = PutTestL \<Longrightarrow> q = PutTestL"
      "\<And>j. j < N \<Longrightarrow> j \<noteq> k \<Longrightarrow> LEFT j = i \<Longrightarrow> pc s i \<in> {PutTestL, PutTestR} \<Longrightarrow> q \<in> {PutTestL, PutTestR}"
  shows "phil_inv (goto i q (phi_test_sema k s))"
proof -
  let ?s = "goto i q (phi_test_sema k s)"
  have "excl ?s" by (rule excl_stay [where s = s and i = i and q = q]) (use inv i in \<open>simp_all add: phil_inv_def\<close>)
  moreover have "apart ?s" using test_apart [OF _ k(1)] inv by (simp add: phil_inv_def apart_def)
  moreover have "phase (pc ?s j) (state_sema ?s j) (sem_s ?s j)" if j: "j < N" for j
  proof -
    have ph: "phase (pc s j) (state_sema s j) (sem_s s j)" using inv j by (simp add: phil_inv_def)
    have "pc s k \<in> {TakeLeave, TakeDown}" if "state_sema s k = HUNGRY"
    proof -
      have "phase (pc s k) HUNGRY (sem_s s k)" using inv k(1) that by (auto simp: phil_inv_def)
      then have "pc s k \<in> {TakeTest, TakeLeave, TakeDown}" by (auto simp: phase_def split: if_splits)
      moreover have "\<not> in_cs (pc s k)" using excl_others [of s i k] inv i k by (auto simp: phil_inv_def)
      ultimately show ?thesis by (auto simp: in_cs_def)
    qed
    then have "phase (pc s j) (state_sema (phi_test_sema k s) j) (sem_s (phi_test_sema k s) j)"
      by (intro test_phase ph)
    then show ?thesis using pq ph k by (cases "j = i") (auto simp: phi_test_sema_def split: if_splits)
  qed
  moreover have "awaited ?s j"
    if j: "j < N" "pc ?s j \<in> {TakeLeave, TakeDown}" "state_sema ?s j = HUNGRY" for j
  proof (cases "j = k")
    case True
    then show ?thesis using j(3) by (auto intro: test_awaited)
  next
    case False
    have "j \<noteq> i" using j(2) q by auto
    then have "awaited s j" using inv j False by (auto simp: phil_inv_def phi_test_sema_def split: if_splits)
    then show ?thesis
      by (rule awaited_mono) (use w j(1) False in \<open>auto simp: test_eating split: if_splits\<close>)
  qed
  ultimately show ?thesis unfolding phil_inv_def by blast
qed

text \<open>Statements that change no \<open>EATING\<close> state and leave the other philosophers alone.\<close>

lemma own_step_inv:
  assumes inv: "phil_inv s" and i: "i < N" and ex: "excl s'"
    and st: "state_sema s' = (state_sema s)(i := a)" "sem_s s' = (sem_s s)(i := v)" "pc s' = (pc s)(i := q)"
    and ph: "phase (pc s i) (state_sema s i) (sem_s s i) \<Longrightarrow> phase q a v"
    and eat: "a = EATING \<longleftrightarrow> state_sema s i = EATING"
    and own: "q \<in> {TakeLeave, TakeDown} \<Longrightarrow> pc s i \<in> {TakeLeave, TakeDown} \<and> a = state_sema s i"
    and w: "pc s i \<notin> {PutTestL, PutTestR}"
  shows "phil_inv s'"
proof -
  have "apart s'" using inv eat unfolding phil_inv_def apart_def st by auto
  moreover have "phase (pc s' j) (state_sema s' j) (sem_s s' j)" if "j < N" for j
    using inv that ph by (cases "j = i") (auto simp: st phil_inv_def)
  moreover have "awaited s' j" if j: "j < N" "pc s' j \<in> {TakeLeave, TakeDown}" "state_sema s' j = HUNGRY" for j
  proof -
    have "pc s j \<in> {TakeLeave, TakeDown}" "state_sema s j = HUNGRY"
      using j own by (auto simp: st split: if_splits)
    then have "awaited s j" using inv j(1) unfolding phil_inv_def by blast
    then show ?thesis by (rule awaited_mono) (use eat w in \<open>auto simp: st\<close>)
  qed
  ultimately show ?thesis using ex unfolding phil_inv_def by blast
qed

lemma phil_step_inv:
  assumes step: "phil_step s s'" and inv: "phil_inv s"
  shows "phil_inv s'"
proof -
  from step obtain i where i: "i < N" and run: "philosopher_using_semaphore i s = Some s'"
    by (auto elim: phil_step.cases)
  have ex: "excl s" and ap: "apart s" using inv by (simp_all add: phil_inv_def)
  note nb = neighbours [OF i]
  note defs = philosopher_using_semaphore_def phi_take_forks_sema_def phi_put_forks_sema_def
  show ?thesis
  proof (cases "pc s i")
    case Loop
    then have s': "s' = goto i (if iter s i < TIMES then TakeEnter else Quit) (s\<lparr>iter := (iter s)(i := iter s i + 1)\<rparr>)"
      using run by (simp add: defs)
    have "excl s'" by (rule excl_stay [OF ex, where i = i]) (auto simp: s' Loop in_cs_def split: if_splits)
    then show ?thesis
      by (rule own_step_inv [OF inv i, where a = "state_sema s i" and v = "sem_s s i"])
        (auto simp: s' Loop phase_def split: if_splits)
  next
    case TakeEnter
    then have r: "down_mutex i TakeSet s = Some s'" using run by (simp add: defs)
    have "excl s'" by (rule excl_enter [OF ex i _ _ r]) (auto simp: TakeEnter in_cs_def)
    then show ?thesis using r
      by (intro own_step_inv [OF inv i, where a = "state_sema s i" and v = "sem_s s i" and q = TakeSet])
        (auto simp: TakeEnter phase_def down_mutex_def split: if_splits)
  next
    case TakeSet
    then have s': "s' = goto i TakeTest (s\<lparr>state_sema := (state_sema s)(i := HUNGRY)\<rparr>)"
      using run by (simp add: defs)
    have "excl s'" by (rule excl_stay [OF ex, where i = i]) (auto simp: s' TakeSet in_cs_def)
    moreover have "state_sema s i \<noteq> EATING" using inv i TakeSet by (auto simp: phil_inv_def phase_def)
    ultimately show ?thesis
      by (intro own_step_inv [OF inv i, where a = HUNGRY and v = "sem_s s i" and q = TakeTest])
        (auto simp: s' TakeSet phase_def)
  next
    case TakeTest
    then have s': "s' = goto i TakeLeave (phi_test_sema i s)" using run by (simp add: defs)
    have "excl s'" by (rule excl_stay [OF ex, where i = i]) (auto simp: s' TakeTest in_cs_def)
    moreover have "apart s'" using test_apart [OF ap i] by (simp add: s' apart_def)
    moreover have "phase (pc s' j) (state_sema s' j) (sem_s s' j)" if "j < N" for j
      using inv that TakeTest i
      by (cases "j = i") (auto simp: s' phil_inv_def phi_test_sema_def phase_def)
    moreover have "awaited s' j" if j: "j < N" "pc s' j \<in> {TakeLeave, TakeDown}" "state_sema s' j = HUNGRY" for j
    proof (cases "j = i")
      case True
      then show ?thesis using j(3) by (auto simp: s' intro: test_awaited)
    next
      case False
      then have "awaited s j" using inv j by (auto simp: s' phil_inv_def phi_test_sema_def split: if_splits)
      then show ?thesis by (rule awaited_mono) (use TakeTest in \<open>auto simp: s' test_eating\<close>)
    qed
    ultimately show ?thesis unfolding phil_inv_def by blast
  next
    case TakeLeave
    then have r: "up_mutex i TakeDown s = Some s'" using run by (simp add: defs)
    have "excl s'" by (rule excl_leave [OF ex i _ _ r]) (auto simp: TakeLeave in_cs_def)
    then show ?thesis using r
      by (intro own_step_inv [OF inv i, where a = "state_sema s i" and v = "sem_s s i" and q = TakeDown])
        (auto simp: TakeLeave phase_def up_mutex_def split: if_splits)
  next
    case TakeDown
    then have s': "s' = goto i Eat (s\<lparr>sem_s := (sem_s s)(i := sem_s s i - 1)\<rparr>)" "0 < sem_s s i"
      using run by (auto simp: defs split: if_splits)
    have "excl s'" by (rule excl_stay [OF ex, where i = i]) (auto simp: s' TakeDown in_cs_def)
    then show ?thesis
      by (rule own_step_inv [OF inv i, where a = "state_sema s i" and v = "sem_s s i - 1" and q = Eat])
        (use s'(2) in \<open>auto simp: s'(1) TakeDown phase_def\<close>)
  next
    case Eat
    then have s': "s' = goto i PutEnter s" using run by (simp add: defs)
    have "excl s'" by (rule excl_stay [OF ex, where i = i]) (auto simp: s' Eat in_cs_def)
    then show ?thesis
      by (rule own_step_inv [OF inv i, where a = "state_sema s i" and v = "sem_s s i"])
        (auto simp: s' Eat phase_def)
  next
    case PutEnter
    then have r: "down_mutex i PutSet s = Some s'" using run by (simp add: defs)
    have "excl s'" by (rule excl_enter [OF ex i _ _ r]) (auto simp: PutEnter in_cs_def)
    then show ?thesis using r
      by (intro own_step_inv [OF inv i, where a = "state_sema s i" and v = "sem_s s i" and q = PutSet])
        (auto simp: PutEnter phase_def down_mutex_def split: if_splits)
  next
    case PutSet
    then have s': "s' = goto i PutTestL (s\<lparr>state_sema := (state_sema s)(i := THINKING)\<rparr>)"
      using run by (simp add: defs)
    have "excl s'" by (rule excl_stay [OF ex, where i = i]) (auto simp: s' PutSet in_cs_def)
    moreover have "apart s'" using ap by (auto simp: s' apart_def)
    moreover have "phase (pc s' j) (state_sema s' j) (sem_s s' j)" if "j < N" for j
      using inv that PutSet i by (cases "j = i") (auto simp: s' phil_inv_def phase_def)
    moreover have "awaited s' j" if j: "j < N" "pc s' j \<in> {TakeLeave, TakeDown}" "state_sema s' j = HUNGRY" for j
    proof -
      have "j \<noteq> i" using j(2) by (auto simp: s')
      then have "awaited s j" using inv j by (auto simp: s' phil_inv_def)
      then show ?thesis by (auto simp: s' awaited_def)
    qed
    ultimately show ?thesis unfolding phil_inv_def by blast
  next
    case PutTestL
    then have s': "s' = goto i PutTestR (phi_test_sema (LEFT i) s)" using run by (simp add: defs)
    show ?thesis unfolding s'
      by (rule test_other_inv [OF inv i _ _ nb(1) nb(5)])
        (use neighbours(3) in \<open>auto simp: PutTestL in_cs_def phase_def\<close>)
  next
    case PutTestR
    then have s': "s' = goto i PutLeave (phi_test_sema (RIGHT i) s)" using run by (simp add: defs)
    show ?thesis unfolding s'
      by (rule test_other_inv [OF inv i _ _ nb(2) nb(6)])
        (use neighbours(4) in \<open>auto simp: PutTestR in_cs_def phase_def\<close>)
  next
    case PutLeave
    then have r: "up_mutex i Loop s = Some s'" using run by (simp add: defs)
    have "excl s'" by (rule excl_leave [OF ex i _ _ r]) (auto simp: PutLeave in_cs_def)
    then show ?thesis using r
      by (intro own_step_inv [OF inv i, where a = "state_sema s i" and v = "sem_s s i" and q = Loop])
        (auto simp: PutLeave phase_def up_mutex_def split: if_splits)
  next
    case Quit
    then show ?thesis using run by (simp add: defs)
  qed
qed

lemma phil_reach_inv: "phil_reach n s \<Longrightarrow> phil_inv s"
proof (induction rule: phil_reach.induct)
  case start
  show ?case
    by (simp add: phil_inv_def check_sync_start_def excl_def in_cs_def apart_def phase_def)
qed (rule phil_step_inv)

section \<open>Progress\<close>

primrec pos :: "phil_pc \<Rightarrow> nat" where
  "pos Loop = 0" | "pos TakeEnter = 1" | "pos TakeSet = 2" | "pos TakeTest = 3" | "pos TakeLeave = 4"
| "pos TakeDown = 5" | "pos Eat = 6" | "pos PutEnter = 7" | "pos PutSet = 8" | "pos PutTestL = 9"
| "pos PutTestR = 10" | "pos PutLeave = 11" | "pos Quit = 1"

text \<open>The number of statements philosopher \<open>i\<close> has executed; an iteration has twelve.\<close>

definition executed :: "phil \<Rightarrow> nat \<Rightarrow> nat" where
  "executed s i = (if pc s i = Loop then 12 * iter s i else 12 * (iter s i - 1) + pos (pc s i))"

definition iter_ok :: "phil \<Rightarrow> nat \<Rightarrow> bool" where
  "iter_ok s i \<longleftrightarrow> (if pc s i = Loop then iter s i \<le> TIMES
     else if pc s i = Quit then iter s i = TIMES + 1 else 1 \<le> iter s i \<and> iter s i \<le> TIMES)"

lemma executed_step:
  assumes "philosopher_using_semaphore i s = Some s'" and "iter_ok s i"
  shows "executed s' i = Suc (executed s i)" and "iter_ok s' i"
    and "\<And>j. j \<noteq> i \<Longrightarrow> executed s' j = executed s j \<and> iter_ok s' j = iter_ok s j"
  using assms
  by (cases "pc s i";
      force simp: philosopher_using_semaphore_def phi_take_forks_sema_def phi_put_forks_sema_def
        down_mutex_def up_mutex_def executed_def iter_ok_def split: if_splits)+

lemma executed_sum:
  assumes "phil_reach n s"
  shows "(\<Sum>i < N. executed s i) = n \<and> (\<forall>i < N. iter_ok s i)"
  using assms
proof (induction rule: phil_reach.induct)
  case start
  show ?case by (simp add: executed_def iter_ok_def check_sync_start_def)
next
  case (next_step n s s')
  then obtain i where i: "i < N" "philosopher_using_semaphore i s = Some s'" by (auto elim: phil_step.cases)
  note ex = executed_step [OF i(2)]
  have ok: "iter_ok s i" using next_step i by blast
  have rest: "(\<Sum>j \<in> {..<N} - {i}. executed s' j) = (\<Sum>j \<in> {..<N} - {i}. executed s j)"
    by (rule sum.cong) (use ex(3) [OF ok] in auto)
  have "(\<Sum>j < N. executed s' j) = executed s' i + (\<Sum>j \<in> {..<N} - {i}. executed s' j)"
    using i(1) by (simp add: sum.remove)
  also have "\<dots> = Suc (executed s i + (\<Sum>j \<in> {..<N} - {i}. executed s j))"
    using rest ex(1) [OF ok] by simp
  also have "executed s i + (\<Sum>j \<in> {..<N} - {i}. executed s j) = (\<Sum>j < N. executed s j)"
    using i(1) by (simp add: sum.remove)
  finally have "(\<Sum>j < N. executed s' j) = Suc n" using next_step by simp
  moreover have "iter_ok s' j" if "j < N" for j
    using next_step ex(2,3) [OF ok] that by (cases "j = i") auto
  ultimately show ?case by simp
qed

lemma executed_le: "iter_ok s i \<Longrightarrow> executed s i \<le> 12 * TIMES + 1 \<and> (executed s i = 12 * TIMES + 1 \<longleftrightarrow> pc s i = Quit)"
  by (cases "pc s i") (auto simp: iter_ok_def executed_def TIMES_def)

lemma no_deadlock:
  assumes inv: "phil_inv s" and live: "\<exists>i < N. pc s i \<noteq> Quit"
  shows "\<exists>i < N. philosopher_using_semaphore i s \<noteq> None"
proof (rule ccontr)
  assume stuck: "\<not> ?thesis"
  note defs = philosopher_using_semaphore_def phi_take_forks_sema_def phi_put_forks_sema_def
  have pcs: "pc s i \<in> {TakeEnter, TakeDown, PutEnter, Quit}" if "i < N" for i
    using stuck that by (cases "pc s i") (auto simp: defs up_mutex_def)
  have nocs: "\<not> in_cs (pc s i)" if "i < N" for i using pcs [OF that] by (auto simp: in_cs_def)
  have "excl s" using inv by (simp add: phil_inv_def)
  then have m: "mutex s = 1" using nocs unfolding excl_def by (metis (full_types))
  have pcs': "pc s i \<in> {TakeDown, Quit} \<and> (pc s i = TakeDown \<longrightarrow> sem_s s i = 0)" if "i < N" for i
  proof -
    have none: "philosopher_using_semaphore i s = None" using stuck that by blast
    from pcs [OF that] show ?thesis
      using none m by (elim insertE) (simp_all add: defs down_mutex_def split: if_splits)
  qed
  obtain i where i: "i < N" "pc s i = TakeDown" using live pcs' by blast
  then have "state_sema s i = HUNGRY"
    using inv pcs' [OF i(1)] by (auto simp: phil_inv_def phase_def)
  then have "awaited s i" using inv i by (auto simp: phil_inv_def)
  then have "state_sema s (LEFT i) = EATING \<or> state_sema s (RIGHT i) = EATING"
    using pcs' neighbours(1,2) [OF i(1)] by (fastforce simp: awaited_def)
  then obtain j where j: "j < N" "state_sema s j = EATING" using neighbours(1,2) [OF i(1)] by blast
  then show False using inv pcs' [OF j(1)] by (auto simp: phil_inv_def phase_def)
qed

section \<open>Properties\<close>

text \<open>
  (C33) Mutual exclusion at the table: in every reachable state, under every interleaving, two
  neighbours never hold their forks at the same time, whoever is between its \<open>take_forks\<close> and its
  \<open>put_forks\<close> is recorded as eating, and at most one philosopher is in the critical section of
  \<open>mutex\<close>.
\<close>

theorem philosophers_exclusive:
  assumes "phil_reach n s" and "i < N"
  shows "\<not> (state_sema s i = EATING \<and> state_sema s (RIGHT i) = EATING) \<and>
    (pc s i \<in> {Eat, PutEnter, PutSet} \<longrightarrow> state_sema s i = EATING) \<and>
    (\<forall>j < N. in_cs (pc s i) \<longrightarrow> in_cs (pc s j) \<longrightarrow> j = i)"
proof -
  have inv: "phil_inv s" by (rule phil_reach_inv [OF assms(1)])
  have "phase (pc s i) (state_sema s i) (sem_s s i)" using inv assms(2) by (simp add: phil_inv_def)
  then have "pc s i \<in> {Eat, PutEnter, PutSet} \<longrightarrow> state_sema s i = EATING" by (auto simp: phase_def)
  then show ?thesis using inv assms(2) excl_others [of s] by (auto simp: phil_inv_def apart_def)
qed

theorem philosophers_exclusive_witness:
  "phil_reach 0 check_sync_start \<and>
   \<not> (state_sema check_sync_start 4 = EATING \<and> state_sema check_sync_start (RIGHT 4) = EATING)"
  using philosophers_exclusive [OF phil_reach.start, of 4] phil_reach.start by (simp add: N_def)

text \<open>
  The philosophers never deadlock, and all of them finish: as long as one has not quit, some
  philosopher can execute a statement, and every run has at most 245 statements, having exactly 245
  when all five philosophers have eaten four times and quit.
\<close>

theorem philosophers_finish:
  assumes "phil_reach n s"
  shows "((\<forall>i < N. pc s i = Quit) \<or> (\<exists>s'. phil_step s s')) \<and> n \<le> 245 \<and> (n = 245 \<longleftrightarrow> (\<forall>i < N. pc s i = Quit))"
proof -
  have inv: "phil_inv s" by (rule phil_reach_inv [OF assms])
  have sum: "(\<Sum>i < N. executed s i) = n" and ok: "\<And>i. i < N \<Longrightarrow> iter_ok s i"
    using executed_sum [OF assms] by auto
  have le: "executed s i \<le> 49" "executed s i = 49 \<longleftrightarrow> pc s i = Quit" if "i < N" for i
    using executed_le [OF ok [OF that]] by (simp_all add: TIMES_def)
  have parts: "n = executed s 0 + executed s 1 + executed s 2 + executed s 3 + executed s 4"
    using sum by (simp add: N_def eval_nat_numeral)
  have "executed s 0 \<le> 49" "executed s 1 \<le> 49" "executed s 2 \<le> 49" "executed s 3 \<le> 49" "executed s 4 \<le> 49"
    using le(1) by (simp_all add: N_def)
  then have "n \<le> 245 \<and> (n = 245 \<longleftrightarrow> executed s 0 = 49 \<and> executed s 1 = 49 \<and> executed s 2 = 49 \<and>
      executed s 3 = 49 \<and> executed s 4 = 49)" unfolding parts by linarith
  moreover have "(\<forall>i < N. pc s i = Quit) \<longleftrightarrow> executed s 0 = 49 \<and> executed s 1 = 49 \<and> executed s 2 = 49 \<and>
      executed s 3 = 49 \<and> executed s 4 = 49"
    using le(2) [of 0] le(2) [of 1] le(2) [of 2] le(2) [of 3] le(2) [of 4] unfolding five
    by (auto simp: N_def)
  moreover have "(\<forall>i < N. pc s i = Quit) \<or> (\<exists>s'. phil_step s s')"
    using no_deadlock [OF inv] by (auto intro: phil_step.intros)
  ultimately show ?thesis by blast
qed

theorem philosophers_finish_witness: "\<exists>s'. phil_step check_sync_start s'"
proof -
  have "pc check_sync_start 0 \<noteq> Quit" "0 < N" by (simp_all add: check_sync_start_def N_def)
  then show ?thesis using philosophers_finish [OF phil_reach.start] by blast
qed

end
