(* ===== verification/CString.thy ===== *)
theory CString
  imports Prelude
begin

text \<open>
  The string and memory routines of \<open>lab8/libs/string.c\<close>, on a memory of characters. An address is a
  natural number, a character is an 8-bit \<open>char\<close> (unsigned, as on RISC-V). Loops that stop only at a
  terminating zero are \<open>partial_function\<close>s into option, loops that count down are recursive on the
  count. \<open>cstr m s xs\<close> says that the C string at \<open>s\<close> consists of the characters \<open>xs\<close>.
\<close>

type_synonym memory = "nat \<Rightarrow> char"

abbreviation NUL :: char where "NUL \<equiv> CHR 0x00"

section \<open>The code\<close>

partial_function (option) strlen_loop :: "memory \<Rightarrow> nat \<Rightarrow> nat \<Rightarrow> nat option" where
  "strlen_loop m s cnt = (if m s \<noteq> NUL then strlen_loop m (s + 1) (cnt + 1) else Some cnt)"

definition strlen :: "memory \<Rightarrow> nat \<Rightarrow> nat option" where
  "strlen m s = strlen_loop m s 0"

function strnlen_loop :: "memory \<Rightarrow> nat \<Rightarrow> nat \<Rightarrow> nat \<Rightarrow> nat" where
  "strnlen_loop m s len cnt =
     (if cnt < len \<and> m s \<noteq> NUL then strnlen_loop m (s + 1) len (cnt + 1) else cnt)"
  by auto
termination by (relation "measure (\<lambda>(m, s, len, cnt). len - cnt)") auto

declare strnlen_loop.simps [simp del]

definition strnlen :: "memory \<Rightarrow> nat \<Rightarrow> nat \<Rightarrow> nat" where
  "strnlen m s len = strnlen_loop m s len 0"

partial_function (option) strcpy_loop :: "memory \<Rightarrow> nat \<Rightarrow> nat \<Rightarrow> memory option" where
  "strcpy_loop m p src =
     (let c = m src; m' = m(p := c) in
      if c \<noteq> NUL then strcpy_loop m' (p + 1) (src + 1) else Some m')"

definition strcpy :: "memory \<Rightarrow> nat \<Rightarrow> nat \<Rightarrow> (nat \<times> memory) option" where
  "strcpy m dst src = do { m' \<leftarrow> strcpy_loop m dst src; Some (dst, m') }"

primrec strncpy_loop :: "memory \<Rightarrow> nat \<Rightarrow> nat \<Rightarrow> nat \<Rightarrow> memory" where
  "strncpy_loop m p src 0 = m"
| "strncpy_loop m p src (Suc len) =
     (let c = m src; m' = m(p := c) in
      strncpy_loop m' (p + 1) (if c \<noteq> NUL then src + 1 else src) len)"

definition strncpy :: "memory \<Rightarrow> nat \<Rightarrow> nat \<Rightarrow> nat \<Rightarrow> nat \<times> memory" where
  "strncpy m dst src len = (dst, strncpy_loop m dst src len)"

definition strcat :: "memory \<Rightarrow> nat \<Rightarrow> nat \<Rightarrow> (nat \<times> memory) option" where
  "strcat m dst src = do { n \<leftarrow> strlen m dst; strcpy m (dst + n) src }"

partial_function (option) strcmp :: "memory \<Rightarrow> nat \<Rightarrow> nat \<Rightarrow> int option" where
  "strcmp m s1 s2 =
     (if m s1 \<noteq> NUL \<and> m s1 = m s2 then strcmp m (s1 + 1) (s2 + 1)
      else Some (of_char (m s1) - of_char (m s2)))"

primrec strncmp :: "memory \<Rightarrow> nat \<Rightarrow> nat \<Rightarrow> nat \<Rightarrow> int" where
  "strncmp m s1 s2 0 = 0"
| "strncmp m s1 s2 (Suc n) =
     (if m s1 \<noteq> NUL \<and> m s1 = m s2 then strncmp m (s1 + 1) (s2 + 1) n
      else of_char (m s1) - of_char (m s2))"

partial_function (option) strchr :: "memory \<Rightarrow> nat \<Rightarrow> char \<Rightarrow> nat option option" where
  "strchr m s c =
     (if m s \<noteq> NUL then if m s = c then Some (Some s) else strchr m (s + 1) c else Some None)"

partial_function (option) strfind :: "memory \<Rightarrow> nat \<Rightarrow> char \<Rightarrow> nat option" where
  "strfind m s c = (if m s \<noteq> NUL then if m s = c then Some s else strfind m (s + 1) c else Some s)"

primrec memset_loop :: "memory \<Rightarrow> nat \<Rightarrow> char \<Rightarrow> nat \<Rightarrow> memory" where
  "memset_loop m p c 0 = m"
| "memset_loop m p c (Suc n) = memset_loop (m(p := c)) (p + 1) c n"

definition memset :: "memory \<Rightarrow> nat \<Rightarrow> char \<Rightarrow> nat \<Rightarrow> nat \<times> memory" where
  "memset m s c n = (s, memset_loop m s c n)"

primrec copy_forward :: "memory \<Rightarrow> nat \<Rightarrow> nat \<Rightarrow> nat \<Rightarrow> memory" where
  "copy_forward m d s 0 = m"
| "copy_forward m d s (Suc n) = copy_forward (m(d := m s)) (d + 1) (s + 1) n"

primrec copy_backward :: "memory \<Rightarrow> nat \<Rightarrow> nat \<Rightarrow> nat \<Rightarrow> memory" where
  "copy_backward m d s 0 = m"
| "copy_backward m d s (Suc n) = copy_backward (m(d - 1 := m (s - 1))) (d - 1) (s - 1) n"

definition memmove :: "memory \<Rightarrow> nat \<Rightarrow> nat \<Rightarrow> nat \<Rightarrow> nat \<times> memory" where
  "memmove m dst src n =
     (if src < dst \<and> src + n > dst then (dst, copy_backward m (dst + n) (src + n) n)
      else (dst, copy_forward m dst src n))"

definition memcpy :: "memory \<Rightarrow> nat \<Rightarrow> nat \<Rightarrow> nat \<Rightarrow> nat \<times> memory" where
  "memcpy m dst src n = (dst, copy_forward m dst src n)"

primrec memcmp :: "memory \<Rightarrow> nat \<Rightarrow> nat \<Rightarrow> nat \<Rightarrow> int" where
  "memcmp m s1 s2 0 = 0"
| "memcmp m s1 s2 (Suc n) =
     (if m s1 \<noteq> m s2 then of_char (m s1) - of_char (m s2) else memcmp m (s1 + 1) (s2 + 1) n)"

text \<open>\<open>strtol\<close>: white space, sign, base prefix, digits. A \<open>long\<close> is a 64-bit word.\<close>

partial_function (option) skip_blanks :: "memory \<Rightarrow> nat \<Rightarrow> nat option" where
  "skip_blanks m s =
     (if m s = CHR '' '' \<or> m s = CHR 0x09 then skip_blanks m (s + 1) else Some s)"

definition digit_value :: "char \<Rightarrow> int option" where
  "digit_value c =
     (let v = of_char c :: int in
      if of_char (CHR ''0'') \<le> v \<and> v \<le> of_char (CHR ''9'') then Some (v - of_char (CHR ''0''))
      else if of_char (CHR ''a'') \<le> v \<and> v \<le> of_char (CHR ''z'') then Some (v - of_char (CHR ''a'') + 10)
      else if of_char (CHR ''A'') \<le> v \<and> v \<le> of_char (CHR ''Z'') then Some (v - of_char (CHR ''A'') + 10)
      else None)"

partial_function (option) strtol_digits :: "memory \<Rightarrow> int \<Rightarrow> nat \<Rightarrow> u64 \<Rightarrow> (nat \<times> u64) option" where
  "strtol_digits m base s val =
     (case digit_value (m s) of
        None \<Rightarrow> Some (s, val)
      | Some dig \<Rightarrow>
          if dig \<ge> base then Some (s, val)
          else strtol_digits m base (s + 1) (val * of_int base + of_int dig))"

definition strtol :: "memory \<Rightarrow> nat \<Rightarrow> int \<Rightarrow> (u64 \<times> nat) option" where
  "strtol m s base =
     do { s1 \<leftarrow> skip_blanks m s;
          let (neg, s2) = (if m s1 = CHR ''+'' then (False, s1 + 1)
                           else if m s1 = CHR ''-'' then (True, s1 + 1) else (False, s1));
          let (s3, base) =
            (if (base = 0 \<or> base = 16) \<and> m s2 = CHR ''0'' \<and> m (s2 + 1) = CHR ''x'' then (s2 + 2, 16)
             else if base = 0 \<and> m s2 = CHR ''0'' then (s2 + 1, 8)
             else if base = 0 then (s2, 10) else (s2, base));
          (e, val) \<leftarrow> strtol_digits m base s3 0;
          Some (if neg then - val else val, e) }"

section \<open>Strings in memory\<close>

primrec cstr :: "memory \<Rightarrow> nat \<Rightarrow> string \<Rightarrow> bool" where
  "cstr m s [] \<longleftrightarrow> m s = NUL"
| "cstr m s (x # xs) \<longleftrightarrow> x \<noteq> NUL \<and> m s = x \<and> cstr m (s + 1) xs"

lemma cstr_cong:
  "(\<And>a. s \<le> a \<Longrightarrow> a \<le> s + length xs \<Longrightarrow> m' a = m a) \<Longrightarrow> cstr m' s xs = cstr m s xs"
proof (induction xs arbitrary: s)
  case (Cons x xs)
  have "cstr m' (s + 1) xs = cstr m (s + 1) xs" by (rule Cons.IH) (simp add: Cons.prems)
  with Cons.prems [of s] show ?case by simp
qed simp

lemma strlen_loop_cstr: "cstr m s xs \<Longrightarrow> strlen_loop m s cnt = Some (cnt + length xs)"
  by (induction xs arbitrary: s cnt) (subst strlen_loop.simps, simp)+

lemma strlen_cstr: "cstr m s xs \<Longrightarrow> strlen m s = Some (length xs)"
  by (simp add: strlen_def strlen_loop_cstr)

lemma strnlen_loop_cstr:
  "cstr m s xs \<Longrightarrow> cnt \<le> len \<Longrightarrow> strnlen_loop m s len cnt = min len (cnt + length xs)"
proof (induction xs arbitrary: s cnt)
  case (Cons x xs)
  then show ?case
    by (cases "cnt < len") (simp_all add: strnlen_loop.simps [of m s] strnlen_loop.simps [of m s len len])
qed (simp add: strnlen_loop.simps)

lemma strnlen_cstr: "cstr m s xs \<Longrightarrow> strnlen m s len = min len (length xs)"
  by (simp add: strnlen_def strnlen_loop_cstr)

text \<open>The characters \<open>xs\<close> written at \<open>p\<close>.\<close>

definition put_str :: "memory \<Rightarrow> nat \<Rightarrow> string \<Rightarrow> memory" where
  "put_str m p xs = (\<lambda>a. if p \<le> a \<and> a < p + length xs then xs ! (a - p) else m a)"

lemma put_str_Nil [simp]: "put_str m p [] = m"
  by (rule ext) (auto simp: put_str_def)

lemma put_str_Cons: "put_str m p (x # xs) = put_str (m(p := x)) (p + 1) xs"
proof
  fix a
  consider "a < p" | "a = p" | "p < a" by linarith
  then show "put_str m p (x # xs) a = put_str (m(p := x)) (p + 1) xs a"
  proof cases
    case 3
    then have "(x # xs) ! (a - p) = xs ! (a - Suc p)" by (simp add: nth_Cons')
    with 3 show ?thesis by (simp add: put_str_def)
  qed (simp_all add: put_str_def)
qed

lemma put_str_cstr: "NUL \<notin> set xs \<Longrightarrow> cstr (put_str m p (xs @ [NUL])) p xs"
proof (induction xs arbitrary: m p)
  case (Cons x xs)
  have "put_str (m(p := x)) (p + 1) (xs @ [NUL]) p = x" by (simp add: put_str_def)
  moreover have "cstr (put_str (m(p := x)) (p + 1) (xs @ [NUL])) (p + 1) xs"
    by (rule Cons.IH) (use Cons.prems in simp)
  ultimately show ?case using Cons.prems unfolding append_Cons put_str_Cons cstr.simps by auto
qed (simp add: put_str_def)

lemma strcpy_loop_cstr:
  "cstr m s xs \<Longrightarrow> s + length xs < p \<or> p + length xs < s \<Longrightarrow>
   strcpy_loop m p s = Some (put_str m p (xs @ [NUL]))"
proof (induction xs arbitrary: m s p)
  case Nil
  then show ?case by (subst strcpy_loop.simps) (simp add: put_str_Cons)
next
  case (Cons x xs)
  have "cstr (m(p := x)) (s + 1) xs = cstr m (s + 1) xs"
    by (rule cstr_cong) (use Cons.prems(2) in auto)
  then have c: "cstr (m(p := x)) (s + 1) xs" using Cons.prems(1) by simp
  have "strcpy_loop (m(p := x)) (p + 1) (s + 1) = Some (put_str (m(p := x)) (p + 1) (xs @ [NUL]))"
    by (rule Cons.IH [OF c]) (use Cons.prems(2) in auto)
  with Cons.prems(1) show ?case
    by (subst strcpy_loop.simps) (simp add: put_str_Cons)
qed

lemma copy_forward_eq:
  "d \<le> s \<or> s + n \<le> d \<Longrightarrow>
   copy_forward m d s n = (\<lambda>a. if d \<le> a \<and> a < d + n then m (s + (a - d)) else m a)"
proof (induction n arbitrary: m d s)
  case (Suc n)
  have "copy_forward (m(d := m s)) (d + 1) (s + 1) n =
      (\<lambda>a. if d + 1 \<le> a \<and> a < d + 1 + n then (m(d := m s)) (s + 1 + (a - (d + 1))) else (m(d := m s)) a)"
    by (rule Suc.IH) (use Suc.prems in auto)
  also have "\<dots> = (\<lambda>a. if d \<le> a \<and> a < d + Suc n then m (s + (a - d)) else m a)"
  proof
    fix a
    consider "a < d" | "a = d" | "d < a" "a < d + Suc n" | "d + Suc n \<le> a" by linarith
    then show "(if d + 1 \<le> a \<and> a < d + 1 + n then (m(d := m s)) (s + 1 + (a - (d + 1))) else (m(d := m s)) a) =
        (if d \<le> a \<and> a < d + Suc n then m (s + (a - d)) else m a)"
    proof cases
      case 3
      then have "s + 1 + (a - (d + 1)) = s + (a - d)" by simp
      moreover have "s + (a - d) \<noteq> d" using 3 Suc.prems by linarith
      ultimately show ?thesis using 3 by simp
    qed auto
  qed
  finally show ?case by simp
qed (rule ext, auto)

lemma copy_backward_eq:
  "s \<le> d \<Longrightarrow> copy_backward m (d + n) (s + n) n = (\<lambda>a. if d \<le> a \<and> a < d + n then m (s + (a - d)) else m a)"
proof (induction n arbitrary: m)
  case (Suc n)
  have "copy_backward (m(d + n := m (s + n))) (d + n) (s + n) n =
      (\<lambda>a. if d \<le> a \<and> a < d + n then (m(d + n := m (s + n))) (s + (a - d)) else (m(d + n := m (s + n))) a)"
    by (rule Suc.IH [OF Suc.prems])
  also have "\<dots> = (\<lambda>a. if d \<le> a \<and> a < d + Suc n then m (s + (a - d)) else m a)"
    using Suc.prems by (auto simp: fun_eq_iff less_Suc_eq)
  finally show ?case by simp
qed (rule ext, auto)

section \<open>Properties\<close>

text \<open>
  \<open>memmove\<close> is correct for all overlaps: every byte of the destination range gets the byte the
  source range had before the call, and no other byte changes. \<open>memcpy\<close> agrees with it exactly when
  the destination does not start inside the source range.
\<close>

theorem memmove_correct:
  "memmove m dst src n = (dst, \<lambda>a. if dst \<le> a \<and> a < dst + n then m (src + (a - dst)) else m a) \<and>
   (src < dst \<and> dst < src + n \<or> memcpy m dst src n = memmove m dst src n)"
proof (cases "src < dst \<and> src + n > dst")
  case True
  then show ?thesis using copy_backward_eq [of src dst m n] by (simp add: memmove_def)
next
  case False
  then show ?thesis using copy_forward_eq [of dst src n m] by (auto simp: memmove_def memcpy_def)
qed

theorem memmove_correct_witness:
  "snd (memmove (\<lambda>a. char_of a) 3 1 4) 5 = char_of (3::nat) \<and>
   memcpy (\<lambda>a. char_of a) 1 3 4 = memmove (\<lambda>a. char_of a) 1 3 4"
  using memmove_correct [of "\<lambda>a. char_of a" 3 1 4] memmove_correct [of "\<lambda>a. char_of a" 1 3 4] by auto

fun str_less :: "string \<Rightarrow> string \<Rightarrow> bool" where
  "str_less xs [] \<longleftrightarrow> False"
| "str_less [] (y # ys) \<longleftrightarrow> True"
| "str_less (x # xs) (y # ys) \<longleftrightarrow>
     of_char x < (of_char y :: nat) \<or> x = y \<and> str_less xs ys"

lemma of_char_0: "of_char c = (0::int) \<longleftrightarrow> c = NUL"
  using of_char_eq_iff [of c NUL, where ?'a = int] by simp

lemma of_char_nonneg: "0 \<le> (of_char c :: int)"
  by (metis of_nat_0_le_iff of_nat_of_char)

lemma of_char_less: "of_char x < (of_char y :: int) \<longleftrightarrow> of_char x < (of_char y :: nat)"
  unfolding of_nat_of_char [symmetric, where ?'a = int] by (rule of_nat_less_iff)

lemma of_char_pos: "c \<noteq> NUL \<Longrightarrow> 0 < (of_char c :: int)"
  using of_char_0 [of c] of_char_nonneg [of c] by linarith

text \<open>
  \<open>strcmp\<close> ends on terminated strings, and its result is negative, zero or positive as the first
  string is below, equal to or above the second in the lexicographic order of unsigned characters.
\<close>

theorem strcmp_correct:
  assumes "cstr m s1 xs" and "cstr m s2 ys"
  shows "\<exists>r. strcmp m s1 s2 = Some r \<and> (r = 0 \<longleftrightarrow> xs = ys) \<and> (r < 0 \<longleftrightarrow> str_less xs ys)"
  using assms
proof (induction xs arbitrary: s1 s2 ys)
  case Nil
  then show ?case by (cases ys; subst strcmp.simps) (auto simp: of_char_pos of_char_0)
next
  case (Cons x xs)
  show ?case
  proof (cases "m s2 = x")
    case True
    with Cons.prems obtain ys' where ys: "ys = x # ys'" "cstr m (s2 + 1) ys'" by (cases ys) auto
    with Cons.IH [of "s1 + 1" "s2 + 1" ys'] Cons.prems True show ?thesis
      by (subst strcmp.simps) simp
  next
    case False
    have "strcmp m s1 s2 = Some (of_char x - of_char (m s2))"
      using Cons.prems False by (subst strcmp.simps) auto
    moreover have "of_char x \<noteq> (of_char (m s2) :: int)" using False by simp
    moreover have "of_char x - of_char (m s2) < (0::int) \<longleftrightarrow> str_less (x # xs) ys"
      using Cons.prems False of_char_pos [of x] by (cases ys) (auto simp: of_char_less)
    moreover have "x # xs \<noteq> ys" using Cons.prems False by (cases ys) auto
    ultimately show ?thesis by auto
  qed
qed

definition text_memory :: memory where
  "text_memory = ((((\<lambda>_. NUL)(0 := CHR ''a'', 1 := CHR ''b''))(10 := CHR ''a'', 11 := CHR ''c'')))"

lemma text_memory_cstr: "cstr text_memory 0 ''ab''" "cstr text_memory 10 ''ac''" "cstr text_memory 20 []"
  by (simp_all add: text_memory_def)

theorem strcmp_correct_witness: "\<exists>r < 0. strcmp text_memory 0 10 = Some r"
  using strcmp_correct [OF text_memory_cstr(1,2)] by auto

text \<open>
  \<open>strcat\<close> of two terminated strings that do not meet, with room behind the first, returns the
  first address and leaves there the concatenation of the two strings; only the bytes behind the first
  string change.
\<close>

theorem strcat_correct:
  assumes dst: "cstr m dst xs" and src: "cstr m src ys"
    and apart: "src + length ys < dst \<or> dst + length xs + length ys < src"
  shows "\<exists>m'. strcat m dst src = Some (dst + length xs, m') \<and> cstr m' dst (xs @ ys) \<and>
    (\<forall>a. a < dst + length xs \<or> dst + length xs + length ys < a \<longrightarrow> m' a = m a)"
proof -
  have nul: "NUL \<notin> set zs" if "cstr m s zs" for s zs
    using that by (induction zs arbitrary: s) auto
  let ?m = "put_str m (dst + length xs) (ys @ [NUL])"
  have "strcpy_loop m (dst + length xs) src = Some ?m"
    by (rule strcpy_loop_cstr [OF src]) (use apart in auto)
  then have run: "strcat m dst src = Some (dst + length xs, ?m)"
    by (simp add: strcat_def strlen_cstr [OF dst] strcpy_def)
  have other: "?m a = m a" if "a < dst + length xs \<or> dst + length xs + length ys < a" for a
    using that by (auto simp: put_str_def)
  have app: "cstr m' s (as @ bs) \<longleftrightarrow> (\<forall>i < length as. m' (s + i) = as ! i) \<and> NUL \<notin> set as \<and>
      cstr m' (s + length as) bs" for m' s as bs
  proof (induction as arbitrary: s)
    case (Cons a as)
    show ?case using Cons.IH [of "s + 1"] by (auto simp: less_Suc_eq_0_disj)
  qed simp
  have "\<forall>i < length xs. m (dst + i) = xs ! i" using app [of m dst xs "[]"] dst by simp
  then have "\<forall>i < length xs. ?m (dst + i) = xs ! i" using other by simp
  then have "cstr ?m dst (xs @ ys)"
    unfolding app using nul [OF dst] nul [OF src] put_str_cstr [of ys m "dst + length xs"] by simp
  with run other show ?thesis by blast
qed

theorem strcat_correct_witness: "\<exists>m'. strcat text_memory 0 10 = Some (2, m') \<and> cstr m' 0 ''abac''"
  using strcat_correct [OF text_memory_cstr(1,2)] by auto

end
