(* ===== verification/PrintFmt.thy ===== *)
theory PrintFmt
  imports CString
begin

text \<open>
  Formatted output, \<open>lab8/libs/printfmt.c\<close>, with \<open>hash32\<close> and \<open>rand\<close> of \<open>libs/hash.c\<close> and
  \<open>libs/rand.c\<close>. The output functions pass each character to \<open>putch\<close> and never look back, so they are
  given by the characters they put, in order; \<open>vsnprintf\<close> then runs its \<open>putch\<close> over them. A variable
  argument is a 64-bit integer slot or a string pointer; reading past the last one, or at the wrong
  type, is undefined and gives \<open>None\<close>. A format string is the list of its characters, and reading its
  terminating zero gives \<open>NUL\<close>. Field widths are taken to fit an \<open>int\<close>.
\<close>

section \<open>Numbers\<close>

definition hexdigits :: string where "hexdigits = ''0123456789abcdef''"

text \<open>The base is 8, 10 or 16 at every call; the recursion ends for each base from 2 on.\<close>

function printnum :: "nat \<Rightarrow> nat \<Rightarrow> int \<Rightarrow> char \<Rightarrow> string" where
  "printnum num base width padc =
     (let result = num div base; m = num mod base in
      (if num \<ge> base \<and> base \<ge> 2 then printnum result base (width - 1) padc
       else replicate (nat (width - 1)) padc) @ [hexdigits ! m])"
  by auto
termination by (relation "measure (\<lambda>(num, base, width, padc). num)") auto

declare printnum.simps [simp del]

section \<open>Conversions\<close>

datatype arg = Int_arg u64 | Str_arg "string option"

fun va_int :: "arg list \<Rightarrow> (u64 \<times> arg list) option" where
  "va_int (Int_arg v # ap) = Some (v, ap)"
| "va_int _ = None"

fun va_str :: "arg list \<Rightarrow> (string option \<times> arg list) option" where
  "va_str (Str_arg p # ap) = Some (p, ap)"
| "va_str _ = None"

definition int_of_arg :: "u64 \<Rightarrow> int" where
  "int_of_arg v = sint (ucast v :: u32)"

definition getuint :: "u64 \<Rightarrow> int \<Rightarrow> u64" where
  "getuint v lflag = (if lflag \<ge> 2 then v else if lflag \<noteq> 0 then v else ucast (ucast v :: u32))"

definition getint :: "u64 \<Rightarrow> int \<Rightarrow> u64" where
  "getint v lflag = (if lflag \<ge> 2 then v else if lflag \<noteq> 0 then v else word_of_int (int_of_arg v))"

record fmt_flags =
  fl_padc :: char
  fl_width :: int
  fl_precision :: int
  fl_lflag :: int
  fl_alt :: bool

definition fmt_flags0 :: fmt_flags where
  "fmt_flags0 = \<lparr>fl_padc = CHR '' '', fl_width = -1, fl_precision = -1, fl_lflag = 0, fl_alt = False\<rparr>"

definition is_digit :: "char \<Rightarrow> bool" where
  "is_digit c \<longleftrightarrow> of_char (CHR ''0'') \<le> (of_char c :: int) \<and> of_char c \<le> (of_char (CHR ''9'') :: int)"

primrec fmt_number :: "string \<Rightarrow> int \<Rightarrow> char \<Rightarrow> int \<times> string" where
  "fmt_number [] prec ch = (prec * 10 + of_char ch - of_char (CHR ''0''), [])"
| "fmt_number (d # ds) prec ch =
     (let prec = prec * 10 + of_char ch - of_char (CHR ''0'') in
      if is_digit d then fmt_number ds prec d else (prec, d # ds))"

definition process_precision :: "int \<Rightarrow> fmt_flags \<Rightarrow> fmt_flags" where
  "process_precision prec f =
     (if fl_width f < 0 then f\<lparr>fl_width := prec, fl_precision := -1\<rparr> else f\<lparr>fl_precision := prec\<rparr>)"

lemma fmt_number_length: "length (snd (fmt_number cs prec ch)) \<le> length cs"
  by (induction cs arbitrary: prec ch) (auto simp: Let_def le_SucI)

text \<open>The loop at \<open>reswitch\<close>: flags, width and precision up to the conversion character.\<close>

function fmt_switch ::
  "string \<Rightarrow> fmt_flags \<Rightarrow> arg list \<Rightarrow> (char \<times> fmt_flags \<times> string \<times> arg list) option"
where
  "fmt_switch [] f ap = Some (NUL, f, [], ap)"
| "fmt_switch (c # cs) f ap =
     (if c = CHR ''-'' then fmt_switch cs (f\<lparr>fl_padc := CHR ''-''\<rparr>) ap
      else if c = CHR ''0'' then fmt_switch cs (f\<lparr>fl_padc := CHR ''0''\<rparr>) ap
      else if is_digit c then
        (let (prec, cs') = fmt_number cs 0 c in fmt_switch cs' (process_precision prec f) ap)
      else if c = CHR ''*'' then
        (case va_int ap of None \<Rightarrow> None
         | Some (v, ap') \<Rightarrow> fmt_switch cs (process_precision (int_of_arg v) f) ap')
      else if c = CHR ''.'' then
        fmt_switch cs (if fl_width f < 0 then f\<lparr>fl_width := 0\<rparr> else f) ap
      else if c = CHR ''#'' then fmt_switch cs (f\<lparr>fl_alt := True\<rparr>) ap
      else if c = CHR ''l'' then fmt_switch cs (f\<lparr>fl_lflag := fl_lflag f + 1\<rparr>) ap
      else Some (c, f, cs, ap))"
  by pat_completeness auto
termination
proof (relation "measure (\<lambda>(cs, f, ap). length cs)", goal_cases)
  case (4 c cs f ap x prec cs')
  then show ?case using fmt_number_length [of cs 0 c] by (metis in_measure case_prod_conv
      le_imp_less_Suc length_Cons snd_conv)
qed auto

lemma fmt_switch_length:
  "fmt_switch cs f ap = Some (c, f', cs', ap') \<Longrightarrow> length cs' \<le> length cs"
proof (induction cs f ap rule: fmt_switch.induct)
  case (2 c cs f ap)
  show ?case
  proof (cases "is_digit c \<and> c \<noteq> CHR ''0'' \<and> c \<noteq> CHR ''-''")
    case True
    obtain prec cs1 where n: "fmt_number cs 0 c = (prec, cs1)" by fastforce
    from 2(3) [of "(prec, cs1)" prec cs1] True n 2(8) fmt_number_length [of cs 0 c]
    show ?thesis by (simp split: if_splits)
  next
    case False
    with 2 show ?thesis by (auto split: if_splits option.splits intro: le_SucI)
  qed
qed simp

definition MAXERROR :: int where "MAXERROR = 24"

definition error_string :: "string option list" where
  "error_string =
     [None, Some ''unspecified error'', Some ''bad process'', Some ''invalid parameter'',
      Some ''out of memory'', Some ''out of processes'', Some ''segmentation fault'', None,
      Some ''invalid elf file'', Some ''process is killed'', Some ''panic failure'', None, None,
      Some ''no such device'', Some ''device not available'', Some ''device/file is busy'',
      Some ''no such file or directory'', Some ''is a directory'', Some ''not a directory'',
      Some ''cross device link'', Some ''unimplemented feature'', Some ''illegal seek'',
      Some ''too many files are open'', Some ''file or directory already exists'',
      Some ''directory is not empty'']"

primrec put_chars :: "string \<Rightarrow> bool \<Rightarrow> int \<Rightarrow> int \<Rightarrow> string \<times> int" where
  "put_chars [] alt prec width = ([], width)"
| "put_chars (c # cs) alt prec width =
     (if prec < 0 \<or> prec - 1 \<ge> 0
      then (let (out, w) = put_chars cs alt (if prec < 0 then prec else prec - 1) (width - 1) in
            ((if alt \<and> (of_char c < (of_char (CHR '' '') :: int) \<or> of_char c > (of_char (CHR ''~'') :: int))
              then CHR ''?'' else c) # out, w))
      else ([], width))"

definition fmt_string :: "fmt_flags \<Rightarrow> string option \<Rightarrow> string" where
  "fmt_string f ps =
     (let p = (case ps of None \<Rightarrow> ''(null)'' | Some p \<Rightarrow> p);
          prec = fl_precision f;
          len = (if prec < 0 then length p else min (nat prec) (length p));
          w = fl_width f;
          pad = w > 0 \<and> fl_padc f \<noteq> CHR ''-'';
          left = (if pad then replicate (nat (w - int len)) (fl_padc f) else []);
          w1 = (if pad then min (w - int len) 0 else w);
          (body, w2) = put_chars p (fl_alt f) prec w1
      in left @ body @ replicate (nat w2) (CHR '' ''))"

definition fmt_signed :: "fmt_flags \<Rightarrow> u64 \<Rightarrow> string" where
  "fmt_signed f v =
     (let num = getint v (fl_lflag f) in
      if sint num < 0 then CHR ''-'' # printnum (unat (- num)) 10 (fl_width f) (fl_padc f)
      else printnum (unat num) 10 (fl_width f) (fl_padc f))"

text \<open>The nested call of \<open>printfmt\<close> for \<open>%e\<close>. The negation of the least \<open>int\<close> is undefined.\<close>

definition fmt_error :: "u64 \<Rightarrow> string option" where
  "fmt_error v =
     (let e = int_of_arg v; err = (if e < 0 then - e else e) in
      if err \<ge> 2 ^ 31 then None
      else if err > MAXERROR \<or> error_string ! nat err = None
      then Some (''error '' @ fmt_signed fmt_flags0 (word_of_int err))
      else Some (fmt_string fmt_flags0 (error_string ! nat err)))"

text \<open>One conversion, after its flags; \<open>None\<close> in the second place is the default case.\<close>

definition fmt_conv ::
  "char \<Rightarrow> fmt_flags \<Rightarrow> arg list \<Rightarrow> (string option \<times> arg list) option"
where
  "fmt_conv ch f ap =
     (if ch = CHR ''c'' then do { (v, ap') \<leftarrow> va_int ap; Some (Some [char_of (unat v)], ap') }
      else if ch = CHR ''e'' then do { (v, ap') \<leftarrow> va_int ap; s \<leftarrow> fmt_error v; Some (Some s, ap') }
      else if ch = CHR ''s'' then do { (p, ap') \<leftarrow> va_str ap; Some (Some (fmt_string f p), ap') }
      else if ch = CHR ''d'' then do { (v, ap') \<leftarrow> va_int ap; Some (Some (fmt_signed f v), ap') }
      else if ch = CHR ''u'' then
        do { (v, ap') \<leftarrow> va_int ap;
             Some (Some (printnum (unat (getuint v (fl_lflag f))) 10 (fl_width f) (fl_padc f)), ap') }
      else if ch = CHR ''o'' then
        do { (v, ap') \<leftarrow> va_int ap;
             Some (Some (printnum (unat (getuint v (fl_lflag f))) 8 (fl_width f) (fl_padc f)), ap') }
      else if ch = CHR ''p'' then
        do { (v, ap') \<leftarrow> va_int ap;
             Some (Some (''0x'' @ printnum (unat v) 16 (fl_width f) (fl_padc f)), ap') }
      else if ch = CHR ''x'' then
        do { (v, ap') \<leftarrow> va_int ap;
             Some (Some (printnum (unat (getuint v (fl_lflag f))) 16 (fl_width f) (fl_padc f)), ap') }
      else if ch = CHR ''%'' then Some (Some [ch], ap)
      else Some (None, ap))"

text \<open>
  An unknown conversion prints the percent sign and moves the format back to the character behind it,
  so its characters are printed as they stand; arguments taken by a star stay taken.
\<close>

function vprintfmt :: "string \<Rightarrow> arg list \<Rightarrow> string option" where
  "vprintfmt [] ap = Some []"
| "vprintfmt (c # cs) ap =
     (if c \<noteq> CHR ''%'' then do { out \<leftarrow> vprintfmt cs ap; Some (c # out) }
      else (case fmt_switch cs fmt_flags0 ap of
          None \<Rightarrow> None
        | Some (ch, f, rest, ap1) \<Rightarrow>
            (case fmt_conv ch f ap1 of
               None \<Rightarrow> None
             | Some (Some s, ap2) \<Rightarrow> do { out \<leftarrow> vprintfmt rest ap2; Some (s @ out) }
             | Some (None, ap2) \<Rightarrow> do { out \<leftarrow> vprintfmt cs ap2; Some (CHR ''%'' # out) })))"
  by pat_completeness auto
termination
  by (relation "measure (\<lambda>(cs, ap). length cs)") (auto dest: fmt_switch_length)

section \<open>Printing into a buffer\<close>

record sprintbuf =
  buf :: nat
  ebuf :: nat
  cnt :: int

definition sprintputch :: "char \<Rightarrow> sprintbuf \<times> memory \<Rightarrow> sprintbuf \<times> memory" where
  "sprintputch ch bm =
     (let (b, m) = bm; b1 = b\<lparr>cnt := cnt b + 1\<rparr> in
      if buf b1 < ebuf b1 then (b1\<lparr>buf := buf b1 + 1\<rparr>, m(buf b1 := ch)) else (b1, m))"

definition vsnprintf :: "memory \<Rightarrow> nat \<Rightarrow> nat \<Rightarrow> string \<Rightarrow> arg list \<Rightarrow> (int \<times> memory) option" where
  "vsnprintf m str sz fmt ap =
     (if str = 0 \<or> str > str + sz - 1 then Some (- E_INVAL, m)
      else do { out \<leftarrow> vprintfmt fmt ap;
                let (b, m') = fold sprintputch out (\<lparr>buf = str, ebuf = str + sz - 1, cnt = 0\<rparr>, m);
                Some (cnt b, m'(buf b := NUL)) })"

definition snprintf :: "memory \<Rightarrow> nat \<Rightarrow> nat \<Rightarrow> string \<Rightarrow> arg list \<Rightarrow> (int \<times> memory) option" where
  "snprintf m str sz fmt ap = vsnprintf m str sz fmt ap"

section \<open>Hashing and random numbers\<close>

definition GOLDEN_RATIO_PRIME_32 :: u64 where "GOLDEN_RATIO_PRIME_32 = 0x9e370001"

definition hash32 :: "u32 \<Rightarrow> nat \<Rightarrow> u32" where
  "hash32 val bits =
     (let hash = (ucast (ucast val * GOLDEN_RATIO_PRIME_32) :: u32) in drop_bit (32 - bits) hash)"

definition RAND_MAX :: u64 where "RAND_MAX = 2147483647"

text \<open>The state is the static variable \<open>next\<close>.\<close>

definition rand :: "u64 \<Rightarrow> int \<times> u64" where
  "rand nxt =
     (let n = (nxt * 0x5DEECE66D + 0xB) AND (push_bit 48 1 - 1); result = drop_bit 12 n in
      (sint (ucast (result mod (RAND_MAX + 1)) :: u32), n))"

definition srand :: "u32 \<Rightarrow> u64" where "srand seed = ucast seed"

section \<open>Numbers and their digits\<close>

function digits :: "nat \<Rightarrow> nat \<Rightarrow> string" where
  "digits base n = (if n \<ge> base \<and> base \<ge> 2 then digits base (n div base) else []) @ [hexdigits ! (n mod base)]"
  by auto
termination by (relation "measure snd") auto

declare digits.simps [simp del]

lemma digits_not_Nil [simp]: "digits base n \<noteq> []"
  by (subst digits.simps) simp

lemma printnum_eq:
  "printnum num base w c = replicate (nat (w - int (length (digits base num)))) c @ digits base num"
proof (induction num base w c rule: printnum.induct)
  case (1 num base w c)
  show ?case
  proof (cases "num \<ge> base \<and> base \<ge> 2")
    case True
    then have d: "digits base num = digits base (num div base) @ [hexdigits ! (num mod base)]"
      by (subst digits.simps) simp
    have "nat (w - 1 - int (length (digits base (num div base)))) =
        nat (w - int (length (digits base num)))" unfolding d by simp
    with 1 True show ?thesis unfolding d by (subst printnum.simps) (simp add: Let_def d)
  next
    case False
    then have "digits base num = [hexdigits ! (num mod base)]"
      by (subst digits.simps) auto
    with False show ?thesis by (subst printnum.simps) (auto simp: Let_def)
  qed
qed

lemma hexdigit_value: "d < 16 \<Longrightarrow> digit_value (hexdigits ! d) = Some (int d)"
proof -
  assume "d < 16"
  then have "d = 0 \<or> d = 1 \<or> d = 2 \<or> d = 3 \<or> d = 4 \<or> d = 5 \<or> d = 6 \<or> d = 7 \<or> d = 8 \<or> d = 9 \<or>
      d = 10 \<or> d = 11 \<or> d = 12 \<or> d = 13 \<or> d = 14 \<or> d = 15"
    by (auto simp: less_Suc_eq numeral_eq_Suc)
  then show ?thesis by (elim disjE) (simp_all add: hexdigits_def digit_value_def)
qed

definition is_numeral :: "int \<Rightarrow> string \<Rightarrow> bool" where
  "is_numeral base ds \<longleftrightarrow> (\<forall>c \<in> set ds. \<exists>d. digit_value c = Some d \<and> d < base)"

definition numeral_value :: "int \<Rightarrow> u64 \<Rightarrow> string \<Rightarrow> u64" where
  "numeral_value base v ds = foldl (\<lambda>v c. v * of_int base + of_int (the (digit_value c))) v ds"

lemma digits_numeral:
  assumes "2 \<le> base" "base \<le> 16"
  shows "is_numeral (int base) (digits base n) \<and> numeral_value (int base) 0 (digits base n) = of_nat n"
  using assms
proof (induction base n rule: digits.induct)
  case (1 base n)
  have d: "digit_value (hexdigits ! (n mod base)) = Some (int (n mod base))"
    by (rule hexdigit_value, rule less_le_trans [OF mod_less_divisor]) (use 1(2,3) in auto)
  show ?case
  proof (cases "n \<ge> base")
    case True
    then have dn: "digits base n = digits base (n div base) @ [hexdigits ! (n mod base)]"
      using 1(2) by (subst digits.simps) simp
    have "of_nat (n div base) * of_nat base + of_nat (n mod base) = (of_nat (n div base * base + n mod base) :: u64)"
      by (simp only: of_nat_add of_nat_mult)
    then have "of_nat (n div base) * of_nat base + of_nat (n mod base) = (of_nat n :: u64)" by simp
    with 1 True d show ?thesis unfolding dn by (simp add: is_numeral_def numeral_value_def)
  next
    case False
    then have "digits base n = [hexdigits ! n]" by (subst digits.simps) simp
    moreover have "n mod base = n" using False by simp
    ultimately show ?thesis using d False by (simp add: is_numeral_def numeral_value_def)
  qed
qed

lemma strtol_digits_eq:
  "cstr m s ds \<Longrightarrow> is_numeral base ds \<Longrightarrow>
   strtol_digits m base s v = Some (s + length ds, numeral_value base v ds)"
proof (induction ds arbitrary: s v)
  case Nil
  then show ?case by (subst strtol_digits.simps) (simp add: digit_value_def numeral_value_def)
next
  case (Cons c ds)
  then obtain d where "digit_value c = Some d" "d < base" by (auto simp: is_numeral_def)
  with Cons show ?case
    by (subst strtol_digits.simps) (simp add: is_numeral_def numeral_value_def)
qed

lemma skip_blanks_eq:
  "cstr m s (replicate k (CHR '' '') @ ds) \<Longrightarrow> ds \<noteq> [] \<Longrightarrow> hd ds \<noteq> CHR '' '' \<Longrightarrow> hd ds \<noteq> CHR 0x09 \<Longrightarrow>
   skip_blanks m s = Some (s + k) \<and> cstr m (s + k) ds"
proof (induction k arbitrary: s)
  case 0
  then show ?case by (cases ds; subst skip_blanks.simps) auto
next
  case (Suc k)
  with Suc.IH [of "s + 1"] show ?case by (subst skip_blanks.simps) simp
qed

lemma strtol_numeral:
  assumes m: "cstr m s (replicate k (CHR '' '') @ ds)" and ds: "ds \<noteq> []" "is_numeral base ds"
    and base: "2 \<le> base" "base \<le> 16"
  shows "strtol m s base = Some (numeral_value base 0 ds, s + k + length ds)"
proof -
  from ds obtain c cs where c: "ds = c # cs" by (cases ds) auto
  then have "digit_value c \<noteq> None" using ds(2) by (auto simp: is_numeral_def)
  then have nb: "c \<noteq> CHR '' ''" "c \<noteq> CHR 0x09" "c \<noteq> CHR ''+''" "c \<noteq> CHR ''-''"
    by (auto simp: digit_value_def)
  have sk: "skip_blanks m s = Some (s + k)" "cstr m (s + k) ds"
    using skip_blanks_eq [OF m ds(1)] nb c by auto
  then have mc: "m (s + k) = c" by (simp add: c)
  have "m (s + k + 1) \<noteq> CHR ''x''"
  proof (cases cs)
    case Nil
    then show ?thesis using sk(2) by (simp add: c)
  next
    case (Cons c' cs')
    then obtain d where "digit_value c' = Some d" "d < base" using ds(2) by (auto simp: c is_numeral_def)
    then have "c' \<noteq> CHR ''x''" using base(2) by (auto simp: digit_value_def)
    then show ?thesis using sk(2) by (simp add: c Cons)
  qed
  then show ?thesis
    using sk mc nb base strtol_digits_eq [OF sk(2) ds(2), of 0] by (simp add: strtol_def)
qed

section \<open>Properties\<close>

lemma digit_zero: "digit_value (CHR ''0'') = Some 0"
  by (simp add: digit_value_def)

text \<open>
  (C36) Reading back what was printed: \<open>strtol\<close>, at the same base from 2 to 16, on the output of
  \<open>printnum\<close> with any width and padding by blanks or zeros, returns the number and consumes the whole
  output.
\<close>

theorem strtol_printnum:
  assumes "cstr m s (printnum n base w c)" and "2 \<le> base" "base \<le> 16" and "c = CHR '' '' \<or> c = CHR ''0''"
  shows "strtol m s (int base) = Some (of_nat n, s + length (printnum n base w c))"
proof -
  let ?k = "nat (w - int (length (digits base n)))"
  note dn = digits_numeral [OF assms(2,3), of n]
  show ?thesis
  proof (cases "c = CHR '' ''")
    case True
    with strtol_numeral [of m s ?k "digits base n" "int base"] assms dn show ?thesis
      by (simp add: printnum_eq)
  next
    case False
    then have c: "c = CHR ''0''" using assms(4) by simp
    have z: "numeral_value b 0 (replicate j (CHR ''0'') @ ds) = numeral_value b 0 ds" for b j ds
      by (induction j) (simp_all add: numeral_value_def digit_zero)
    have "is_numeral (int base) (replicate ?k (CHR ''0'') @ digits base n)"
      using dn assms(2) digit_zero by (auto simp: is_numeral_def)
    with strtol_numeral [of m s 0 "replicate ?k (CHR ''0'') @ digits base n" "int base"] assms dn show ?thesis
      by (simp add: printnum_eq c z)
  qed
qed

theorem strtol_printnum_witness:
  "strtol (\<lambda>a. (''  2f'' @ [NUL]) ! a) 0 16 = Some (47, 4)"
proof -
  have p: "printnum 47 16 4 (CHR '' '') = ''  2f''"
    by (simp add: printnum.simps hexdigits_def Let_def, simp add: numeral_2_eq_2)
  show ?thesis
    using strtol_printnum [of "\<lambda>a. (''  2f'' @ [NUL]) ! a" 0 47 16 4 "CHR '' ''"] by (simp add: p)
qed

lemma fold_sprintputch:
  "buf b \<le> ebuf b \<Longrightarrow>
   fold sprintputch out (b, m) =
     (b\<lparr>buf := buf b + min (length out) (ebuf b - buf b), cnt := cnt b + int (length out)\<rparr>,
      put_str m (buf b) (take (ebuf b - buf b) out))"
proof (induction out arbitrary: b m)
  case (Cons c out)
  show ?case
  proof (cases "buf b < ebuf b")
    case True
    then have e: "ebuf b - buf b = Suc (ebuf b - Suc (buf b))" by simp
    have "min (length (c # out)) (ebuf b - buf b) = Suc (min (length out) (ebuf b - Suc (buf b)))"
      unfolding e by simp
    let ?b = "b\<lparr>cnt := cnt b + 1, buf := buf b + 1\<rparr>"
    have step: "sprintputch c (b, m) = (?b, m(buf b := c))" using True by (simp add: sprintputch_def Let_def)
    have "fold sprintputch out (?b, m(buf b := c)) =
        (?b\<lparr>buf := buf ?b + min (length out) (ebuf ?b - buf ?b), cnt := cnt ?b + int (length out)\<rparr>,
         put_str (m(buf b := c)) (buf ?b) (take (ebuf ?b - buf ?b) out))"
      by (rule Cons.IH) (use True in simp)
    then show ?thesis unfolding fold_Cons comp_apply step
      by (simp only:) (use True in \<open>simp add: e put_str_Cons\<close>)
  next
    case False
    with Cons show ?thesis by (simp add: sprintputch_def Let_def)
  qed
qed simp

text \<open>
  \<open>vsnprintf\<close> never writes outside its buffer of \<open>size\<close> bytes: it stores the first
  \<open>size - 1\<close> characters of the output and a terminating zero behind what it stored, leaves every other
  byte alone, and returns the length of the whole output; a buffer of size 0 is refused with
  \<open>E_INVAL\<close> and not touched.
\<close>

theorem vsnprintf_bounds:
  assumes "str \<noteq> 0" and "vprintfmt fmt ap = Some out"
  shows "(0 < sz \<longrightarrow>
      vsnprintf m str sz fmt ap =
        Some (int (length out), put_str m str (take (sz - 1) out @ [NUL]))) \<and>
    (sz = 0 \<longrightarrow> vsnprintf m str sz fmt ap = Some (- E_INVAL, m))"
proof (intro conjI impI)
  assume sz: "0 < sz"
  then have le: "\<not> str + sz - 1 < str" by simp
  have app: "(put_str m str xs)(str + length xs := c) = put_str m str (xs @ [c])" for xs c
    by (rule ext) (auto simp: put_str_def nth_append)
  have l: "length (take (sz - 1) out) = min (length out) (sz - Suc 0)" by simp
  show "vsnprintf m str sz fmt ap = Some (int (length out), put_str m str (take (sz - 1) out @ [NUL]))"
    using sz le assms fold_sprintputch [of "\<lparr>buf = str, ebuf = str + sz - 1, cnt = 0\<rparr>" out m]
      app [of "take (sz - 1) out" NUL]
    by (simp add: vsnprintf_def)
qed (use assms in \<open>simp add: vsnprintf_def\<close>)

theorem vsnprintf_bounds_witness:
  "vsnprintf (\<lambda>_. CHR ''z'') 8 3 ''%d!'' [Int_arg 42] =
     Some (3, put_str (\<lambda>_. CHR ''z'') 8 (''42'' @ [NUL]))"
proof -
  have "vprintfmt ''%d!'' [Int_arg 42] = Some ''42!''"
    by (simp add: fmt_conv_def fmt_flags0_def fmt_signed_def is_digit_def getint_def int_of_arg_def
        printnum.simps hexdigits_def Let_def)
  from vsnprintf_bounds [OF _ this, of 8 3 "\<lambda>_. CHR ''z''"] show ?thesis by simp
qed

text \<open>
  The flag that is documented to pad on the right does not work for numbers: with \<open>-\<close> and a width
  of 5, a non-negative number is printed at the right of the field behind minus signs.
\<close>

theorem minus_flag_pads_with_minus:
  assumes "uint v < 2 ^ 31"
  shows "vprintfmt ''%-5d'' [Int_arg v] =
    Some (replicate (5 - length (digits 10 (unat v))) (CHR ''-'') @ digits 10 (unat v))"
proof -
  have s: "sint (ucast v :: u32) = uint v" using assms by (rule sint_small_u32)
  let ?f = "\<lparr>fl_padc = CHR ''-'', fl_width = 5, fl_precision = -1, fl_lflag = 0, fl_alt = False\<rparr>"
  have sw: "fmt_switch ''-5d'' fmt_flags0 [Int_arg v] = Some (CHR ''d'', ?f, [], [Int_arg v])"
    by (simp add: fmt_flags0_def is_digit_def process_precision_def)
  have g: "getint v 0 = v" by (simp add: getint_def int_of_arg_def s)
  have "0 \<le> sint v" using assms by (simp add: sint_small_u64)
  then have "fmt_signed ?f v = printnum (unat v) 10 5 (CHR ''-'')"
    by (simp add: fmt_signed_def g)
  also have "\<dots> = replicate (5 - length (digits 10 (unat v))) (CHR ''-'') @ digits 10 (unat v)"
    unfolding printnum_eq by (simp add: nat_diff_distrib)
  finally have "fmt_conv (CHR ''d'') ?f [Int_arg v] =
      Some (Some (replicate (5 - length (digits 10 (unat v))) (CHR ''-'') @ digits 10 (unat v)), [])"
    by (simp add: fmt_conv_def)
  then show ?thesis by (simp add: sw del: fmt_switch.simps)
qed

theorem minus_flag_pads_with_minus_witness:
  "vprintfmt ''%-5d'' [Int_arg 3] = Some ''----3''"
proof -
  have "digits 10 3 = ''3''" by (subst digits.simps) (simp add: hexdigits_def)
  moreover have "replicate 4 (CHR ''-'') @ ''3'' = ''----3''" by (simp add: numeral_eq_Suc)
  ultimately show ?thesis using minus_flag_pads_with_minus [of 3] by simp
qed

text \<open>The range of the hash and of the random numbers.\<close>

lemma hash32_bound:
  assumes "bits \<le> 32"
  shows "unat (hash32 val bits) < 2 ^ bits"
proof -
  let ?h = "ucast (ucast val * GOLDEN_RATIO_PRIME_32) :: u32"
  have "unat ?h < 2 ^ 32" by (rule unat_u32_less)
  then have "unat ?h div 2 ^ (32 - bits) < 2 ^ bits"
    using assms by (simp add: div_less_iff_less_mult power_add [symmetric])
  then show ?thesis unfolding hash32_def Let_def unat_drop_bit_eq by (simp add: drop_bit_eq_div)
qed

lemma rand_range: "0 \<le> fst (rand s) \<and> fst (rand s) \<le> uint RAND_MAX"
proof -
  let ?r = "drop_bit 12 ((s * 0x5DEECE66D + 0xB) AND (push_bit 48 1 - 1)) mod (RAND_MAX + 1) :: u64"
  have "?r < RAND_MAX + 1" by (rule word_mod_less_divisor) (simp add: RAND_MAX_def)
  then have r: "uint ?r < 2 ^ 31" by (simp add: word_less_def RAND_MAX_def)
  then have "sint (ucast ?r :: u32) = uint ?r" by (rule sint_small_u32)
  then show ?thesis using r by (simp add: rand_def Let_def RAND_MAX_def)
qed

end
