(* ===== verification/FsBase.thy ===== *)
theory FsBase
  imports Prelude
begin

text \<open>
  Shared by the theories of the file system: the remaining error numbers, the result type of the
  functions that return 0 or a negative error number and store their result through a pointer, and
  the copying of bytes into a buffer.
\<close>

section \<open>Results\<close>

definition E_NO_DEV :: int where "E_NO_DEV = 13"
definition E_BUSY :: int where "E_BUSY = 15"
definition E_NOENT :: int where "E_NOENT = 16"
definition E_ISDIR :: int where "E_ISDIR = 17"
definition E_NOTDIR :: int where "E_NOTDIR = 18"
definition E_UNIMP :: int where "E_UNIMP = 20"
definition E_MAX_OPEN :: int where "E_MAX_OPEN = 22"
definition E_EXISTS :: int where "E_EXISTS = 23"

text \<open>\<open>Inl ret\<close> is a nonzero return value, \<open>Inr v\<close> is the return value 0 with \<open>v\<close> stored. A function
  that changes the state and may panic returns \<open>('a res \<times> 's) option\<close>.\<close>

type_synonym 'a res = "int + 'a"

text \<open>The statement \<open>if ((ret = f(...)) != 0) return ret;\<close> followed by the rest of the function.\<close>

definition on_ok ::
  "('a res \<times> 's) option \<Rightarrow> ('a \<Rightarrow> 's \<Rightarrow> ('b res \<times> 's) option) \<Rightarrow> ('b res \<times> 's) option" where
  "on_ok c f = (case c of None \<Rightarrow> None
     | Some (Inl e, s) \<Rightarrow> Some (Inl e, s)
     | Some (Inr v, s) \<Rightarrow> f v s)"

lemma on_ok_simps [simp]:
  "on_ok None f = None"
  "on_ok (Some (Inl e, s)) f = Some (Inl e, s)"
  "on_ok (Some (Inr v, s)) f = f v s"
  by (simp_all add: on_ok_def)

lemma on_ok_Some_Inr:
  "on_ok c f = Some (Inr v, s') \<longleftrightarrow> (\<exists>u s. c = Some (Inr u, s) \<and> f u s = Some (Inr v, s'))"
  by (auto simp: on_ok_def split: option.splits sum.splits)

section \<open>Copying bytes into a buffer\<close>

text \<open>\<open>memcpy(buf + off, bs, length bs)\<close> on a buffer that has room for it.\<close>

definition splice :: "nat \<Rightarrow> 'a list \<Rightarrow> 'a list \<Rightarrow> 'a list" where
  "splice off bs buf = take off buf @ bs @ drop (off + length bs) buf"

lemma length_splice [simp]: "off + length bs \<le> length buf \<Longrightarrow> length (splice off bs buf) = length buf"
  by (simp add: splice_def)

lemma splice_Nil [simp]: "splice off [] buf = buf"
  by (simp add: splice_def)

lemma nth_splice:
  assumes "off + length bs \<le> length buf" and "i < length buf"
  shows "splice off bs buf ! i =
    (if i < off then buf ! i else if i < off + length bs then bs ! (i - off) else buf ! i)"
proof -
  have "min (length buf) off = off" using assms(1) by simp
  moreover have "off + (length bs + (i - (off + length bs))) = i" if "\<not> i < off + length bs"
    using that by simp
  ultimately show ?thesis using assms
    by (auto simp: splice_def nth_append)
qed

lemma take_drop_splice:
  assumes "off + length bs \<le> length buf"
  shows "take (length bs) (drop off (splice off bs buf)) = bs"
proof -
  have "min (length buf) off = off" using assms by simp
  then show ?thesis by (simp add: splice_def)
qed

lemma splice_splice_append:
  assumes "off + length as + length bs \<le> length buf"
  shows "splice (off + length as) bs (splice off as buf) = splice off (as @ bs) buf"
proof (rule nth_equalityI)
  show "length (splice (off + length as) bs (splice off as buf)) = length (splice off (as @ bs) buf)"
    using assms by simp
  fix i assume "i < length (splice (off + length as) bs (splice off as buf))"
  then have "i < length buf" using assms by simp
  then show "splice (off + length as) bs (splice off as buf) ! i = splice off (as @ bs) buf ! i"
    using assms by (auto simp: nth_splice nth_append)
qed

lemma splice_whole: "length bs = length buf \<Longrightarrow> splice 0 bs buf = bs"
  by (simp add: splice_def)

lemma take_drop_splice_other:
  assumes "off + length bs \<le> length buf" and "i + n \<le> off \<or> off + length bs \<le> i"
  shows "take n (drop i (splice off bs buf)) = take n (drop i buf)"
proof (rule nth_equalityI)
  show "length (take n (drop i (splice off bs buf))) = length (take n (drop i buf))"
    using assms(1) by simp
  fix j assume "j < length (take n (drop i (splice off bs buf)))"
  then have "j < n" "i + j < length buf" using assms(1) by auto
  then show "take n (drop i (splice off bs buf)) ! j = take n (drop i buf) ! j"
    using assms by (auto simp: nth_splice)
qed

section \<open>Blocks of equal length\<close>

lemma length_concat_blocks: "\<forall>x \<in> set xs. length x = m \<Longrightarrow> length (concat xs) = m * length xs"
  by (induction xs) auto

lemma concat_block:
  assumes "\<forall>x \<in> set xs. length x = m" and "k < length xs" and "off + n \<le> m"
  shows "take n (drop (m * k + off) (concat xs)) = take n (drop off (xs ! k))"
  using assms
proof (induction xs arbitrary: k)
  case (Cons x xs)
  show ?case
  proof (cases k)
    case 0
    then show ?thesis using Cons.prems by simp
  next
    case (Suc j)
    then have "drop (m * k + off) (x @ concat xs) = drop (m * j + off) (concat xs)"
      using Cons.prems(1) by simp
    then show ?thesis using Suc Cons by simp
  qed
qed simp

lemma splice_append:
  "off + length bs \<le> length xs \<Longrightarrow> splice off bs (xs @ ys) = splice off bs xs @ ys"
  by (simp add: splice_def)

lemma splice_shift:
  "length xs \<le> off \<Longrightarrow> splice off bs (xs @ ys) = xs @ splice (off - length xs) bs ys"
  by (simp add: splice_def)

lemma splice_concat:
  assumes "\<forall>x \<in> set xs. length x = m" and "k < length xs" and "off + length bs \<le> m"
  shows "splice (m * k + off) bs (concat xs) = concat (xs[k := splice off bs (xs ! k)])"
  using assms
proof (induction xs arbitrary: k)
  case (Cons x xs)
  show ?case
  proof (cases k)
    case 0
    then show ?thesis using Cons.prems by (simp add: splice_append)
  next
    case (Suc j)
    then show ?thesis using Cons by (simp add: splice_shift)
  qed
qed simp

end
