(* ===== verification/Bitmap.thy ===== *)
theory Bitmap
  imports FsBase
begin

text \<open>
  The free-block bitmap of the simple file system, \<open>lab8/kern/fs/sfs/bitmap.c\<close>: an array of 32-bit
  words in which a set bit is a free block. \<open>bm_free\<close> abstracts it to the set of free indexes;
  the lemmas show what each operation does to that set.
\<close>

section \<open>The code\<close>

definition WORD_BITS :: nat where "WORD_BITS = 32"

record bitmap =
  nbits :: u32
  nwords :: u32
  bmap :: "u32 list"  \<comment> \<open>the words at \<open>map\<close>\<close>

definition ROUNDUP_DIV :: "nat \<Rightarrow> nat \<Rightarrow> nat" where
  "ROUNDUP_DIV a n = (a + n - 1) div n"

text \<open>The loop of \<open>bitmap_create\<close> that marks the leftover bits in use.\<close>

function mark_over :: "u32 \<Rightarrow> nat \<Rightarrow> u32" where
  "mark_over w overbits =
     (if overbits < WORD_BITS then mark_over (w XOR push_bit overbits 1) (overbits + 1) else w)"
  by auto
termination by (relation "measure (\<lambda>(w, ob). WORD_BITS - ob)") auto

declare mark_over.simps [simp del]

text \<open>\<open>obj\<close> and \<open>arr\<close> say whether the two calls of \<open>kmalloc\<close> succeed. The outer option is a panic,
  the inner one a NULL pointer. The second assertion compares in 64 bits, where it cannot wrap.\<close>

definition bitmap_create :: "bool \<Rightarrow> bool \<Rightarrow> u32 \<Rightarrow> bitmap option option" where
  "bitmap_create obj arr n = do {
     kassert (n \<noteq> 0 \<and> (ucast n :: u64) + word_of_nat WORD_BITS > ucast n);
     if \<not> obj then Some None
     else let nw = (word_of_nat (ROUNDUP_DIV (unat n) WORD_BITS) :: u32) in
     if \<not> arr then Some None
     else let bm = \<lparr>nbits = n, nwords = nw, bmap = replicate (unat nw) (- 1)\<rparr> in
     if unat n \<noteq> unat nw * WORD_BITS then
       let ix = nw - 1; overbits = unat n - unat ix * WORD_BITS in do {
         kassert (unat n div WORD_BITS = unat ix);
         kassert (overbits > 0 \<and> overbits < WORD_BITS);
         Some (Some (bm\<lparr>bmap := (bmap bm)[unat ix := mark_over (bmap bm ! unat ix) overbits]\<rparr>))
       }
     else Some (Some bm)
   }"

text \<open>\<open>bitmap_alloc\<close>: the inner loop over the bits of a nonzero word, the outer loop over the words.\<close>

function scan_bits :: "u32 \<Rightarrow> nat \<Rightarrow> nat option" where
  "scan_bits w offset =
     (if offset < WORD_BITS then
        if w AND push_bit offset 1 \<noteq> 0 then Some offset else scan_bits w (offset + 1)
      else None)"
  by auto
termination by (relation "measure (\<lambda>(w, offset). WORD_BITS - offset)") auto

declare scan_bits.simps [simp del]

function scan_words :: "bitmap \<Rightarrow> nat \<Rightarrow> (u32 res \<times> bitmap) option" where
  "scan_words bm ix =
     (if ix < unat (nwords bm) then
        if bmap bm ! ix \<noteq> 0 then
          (case scan_bits (bmap bm ! ix) 0 of
             Some offset \<Rightarrow>
               Some (Inr (word_of_nat (ix * WORD_BITS + offset)),
                     bm\<lparr>bmap := (bmap bm)[ix := bmap bm ! ix XOR push_bit offset 1]\<rparr>)
           | None \<Rightarrow> None)  \<comment> \<open>\<open>assert(0)\<close>\<close>
        else scan_words bm (ix + 1)
      else Some (Inl (- E_NO_MEM), bm))"
  by auto
termination by (relation "measure (\<lambda>(bm, ix). unat (nwords bm) - ix)") auto

declare scan_words.simps [simp del]

definition bitmap_alloc :: "bitmap \<Rightarrow> (u32 res \<times> bitmap) option" where
  "bitmap_alloc bm = scan_words bm 0"

text \<open>\<open>bitmap_translate\<close> stores the word's position and the mask.\<close>

definition bitmap_translate :: "bitmap \<Rightarrow> u32 \<Rightarrow> (nat \<times> u32) option" where
  "bitmap_translate bm index = do {
     kassert (index < nbits bm);
     let ix = unat index div WORD_BITS; offset = unat index mod WORD_BITS in
     Some (ix, push_bit offset 1)
   }"

definition bitmap_test :: "bitmap \<Rightarrow> u32 \<Rightarrow> bool option" where
  "bitmap_test bm index = do {
     (word, mask) \<leftarrow> bitmap_translate bm index;
     Some (bmap bm ! word AND mask \<noteq> 0)
   }"

definition bitmap_free :: "bitmap \<Rightarrow> u32 \<Rightarrow> bitmap option" where
  "bitmap_free bm index = do {
     (word, mask) \<leftarrow> bitmap_translate bm index;
     kassert (\<not> (bmap bm ! word AND mask \<noteq> 0));
     Some (bm\<lparr>bmap := (bmap bm)[word := bmap bm ! word OR mask]\<rparr>)
   }"

text \<open>\<open>bitmap_getdata\<close>: the words and the size in bytes.\<close>

definition bitmap_getdata :: "bitmap \<Rightarrow> u32 list \<times> nat" where
  "bitmap_getdata bm = (bmap bm, 4 * unat (nwords bm))"

section \<open>The set of free indexes\<close>

definition bm_wf :: "bitmap \<Rightarrow> bool" where
  "bm_wf bm \<longleftrightarrow> length (bmap bm) = unat (nwords bm) \<and> unat (nwords bm) * 32 \<le> 2 ^ 32 \<and>
     unat (nbits bm) \<le> unat (nwords bm) * 32"

definition bm_bit :: "u32 list \<Rightarrow> nat \<Rightarrow> bool" where
  "bm_bit ws i \<longleftrightarrow> i < 32 * length ws \<and> bit (ws ! (i div 32)) (i mod 32)"

definition bm_free :: "bitmap \<Rightarrow> nat set" where
  "bm_free bm = {i. bm_bit (bmap bm) i}"

lemma bm_free_less: "bm_wf bm \<Longrightarrow> i \<in> bm_free bm \<Longrightarrow> i < 32 * unat (nwords bm)"
  by (simp add: bm_wf_def bm_free_def bm_bit_def)

lemma finite_bm_free [simp]: "finite (bm_free bm)"
  by (rule finite_subset [of _ "{..<32 * length (bmap bm)}"]) (auto simp: bm_free_def bm_bit_def)

lemma bm_bit_update:
  assumes "k < length ws"
  shows "bm_bit (ws[k := w]) i \<longleftrightarrow> (if i div 32 = k then bit w (i mod 32) \<and> i < 32 * length ws else bm_bit ws i)"
  using assms by (auto simp: bm_bit_def nth_list_update)

lemma bit_mask_at: "bit (2 ^ n :: u32) j \<longleftrightarrow> j < 32 \<and> j = n"
  by (auto simp: bit_exp_iff dest: bit_imp_le_length)

lemma and_mask_bit: "(w AND 2 ^ n = (0 :: u32)) \<longleftrightarrow> \<not> (n < 32 \<and> bit w n)"
proof
  assume z: "w AND 2 ^ n = 0"
  show "\<not> (n < 32 \<and> bit w n)"
  proof
    assume "n < 32 \<and> bit w n"
    then have "bit (w AND 2 ^ n) n" by (simp add: bit_and_iff bit_mask_at)
    then show False using z by simp
  qed
next
  assume "\<not> (n < 32 \<and> bit w n)"
  then show "w AND 2 ^ n = 0"
    by (intro bit_word_eqI) (auto simp: bit_and_iff bit_mask_at)
qed

subsection \<open>Scanning\<close>

lemma scan_bits_Some:
  "scan_bits w k = Some n \<Longrightarrow> k \<le> n \<and> n < 32 \<and> bit w n \<and> (\<forall>j. k \<le> j \<and> j < n \<longrightarrow> \<not> bit w j)"
proof (induction w k rule: scan_bits.induct)
  case (1 w k)
  show ?case
  proof (cases "k < WORD_BITS \<and> w AND push_bit k 1 \<noteq> 0")
    case True
    then have "n = k" using "1.prems" by (simp add: scan_bits.simps [of w k])
    then show ?thesis using True by (auto simp: WORD_BITS_def and_mask_bit)
  next
    case False
    then have k: "k < WORD_BITS" and z: "\<not> w AND push_bit k 1 \<noteq> 0"
      and r: "scan_bits w (k + 1) = Some n"
      using "1.prems" by (auto simp: scan_bits.simps [of w k] split: if_splits)
    from z k have "\<not> bit w k" by (simp add: WORD_BITS_def and_mask_bit)
    have ih: "k + 1 \<le> n" "n < 32" "bit w n" and
      least: "\<And>j. k + 1 \<le> j \<Longrightarrow> j < n \<Longrightarrow> \<not> bit w j"
      using "1.IH" [OF k z r] by auto
    have "\<not> bit w j" if "k \<le> j" "j < n" for j
      using that least [of j] \<open>\<not> bit w k\<close> by (cases "j = k") auto
    then show ?thesis using ih by simp
  qed
qed

lemma scan_bits_None:
  "scan_bits w k = None \<Longrightarrow> k \<le> j \<Longrightarrow> j < 32 \<Longrightarrow> \<not> bit w j"
proof (induction w k rule: scan_bits.induct)
  case (1 w k)
  from "1.prems"(2,3) have k: "k < WORD_BITS" by (simp add: WORD_BITS_def)
  with "1.prems"(1) have z: "\<not> w AND push_bit k 1 \<noteq> 0" and r: "scan_bits w (k + 1) = None"
    by (auto simp: scan_bits.simps [of w k] split: if_splits)
  from z k have "\<not> bit w k" by (simp add: WORD_BITS_def and_mask_bit)
  then show ?case
    using "1.IH" [OF k z r] "1.prems"(2,3) by (cases "j = k") auto
qed

lemma word_eq_0_iff_bits: "w = (0 :: u32) \<longleftrightarrow> (\<forall>j < 32. \<not> bit w j)"
proof
  assume "\<forall>j < 32. \<not> bit w j"
  then show "w = 0" by (intro bit_word_eqI) simp
qed simp

lemma scan_bits_nonzero: "w \<noteq> 0 \<Longrightarrow> \<exists>n. scan_bits w 0 = Some n"
  using scan_bits_None [of w 0] word_eq_0_iff_bits [of w] by (cases "scan_bits w 0") auto

text \<open>What the scan over the words returns: the least free index from word \<open>ix\<close> on.\<close>

lemma scan_words_spec:
  assumes "bm_wf bm" and "\<forall>i \<in> bm_free bm. 32 * ix \<le> i"
  shows "if bm_free bm = {} then scan_words bm ix = Some (Inl (- E_NO_MEM), bm)
         else \<exists>bm'. scan_words bm ix = Some (Inr (word_of_nat (Min (bm_free bm))), bm') \<and>
                nbits bm' = nbits bm \<and> nwords bm' = nwords bm \<and>
                length (bmap bm') = length (bmap bm) \<and>
                bm_free bm' = bm_free bm - {Min (bm_free bm)}"
  using assms(2)
proof (induction "unat (nwords bm) - ix" arbitrary: ix)
  case 0
  then have "\<not> ix < unat (nwords bm)" by simp
  moreover have "bm_free bm = {}"
  proof (rule ccontr)
    assume "bm_free bm \<noteq> {}"
    then obtain i where "i \<in> bm_free bm" by blast
    with bm_free_less [OF assms(1)] 0 show False by force
  qed
  ultimately show ?case by (simp add: scan_words.simps)
next
  case (Suc d)
  then have ix: "ix < unat (nwords bm)" by simp
  have len: "length (bmap bm) = unat (nwords bm)" using assms(1) by (simp add: bm_wf_def)
  let ?w = "bmap bm ! ix"
  show ?case
  proof (cases "?w = 0")
    case True
    have "\<forall>i \<in> bm_free bm. 32 * (ix + 1) \<le> i"
    proof
      fix i assume i: "i \<in> bm_free bm"
      with Suc.prems have "32 * ix \<le> i" by blast
      moreover have "i div 32 \<noteq> ix" using i True by (auto simp: bm_free_def bm_bit_def)
      ultimately have "ix + 1 \<le> i div 32"
        by (simp add: less_eq_div_iff_mult_less_eq mult.commute le_neq_implies_less Suc_leI)
      then show "32 * (ix + 1) \<le> i"
        by (simp add: less_eq_div_iff_mult_less_eq mult.commute)
    qed
    note later = Suc.hyps(1) [OF _ this]
    have "d = unat (nwords bm) - (ix + 1)" using Suc.hyps(2) by simp
    note later = later [OF this]
    have "scan_words bm ix = scan_words bm (ix + 1)"
      using ix True by (subst scan_words.simps) simp
    then show ?thesis using later by (simp only:)
  next
    case False
    then obtain n where n: "scan_bits ?w 0 = Some n" using scan_bits_nonzero by blast
    from scan_bits_Some [OF n] have n32: "n < 32" and bn: "bit ?w n"
      and least: "\<And>j. j < n \<Longrightarrow> \<not> bit ?w j" by auto
    let ?i = "ix * 32 + n"
    have mem: "?i \<in> bm_free bm"
      using ix len n32 bn by (simp add: bm_free_def bm_bit_def)
    have lb: "?i \<le> j" if "j \<in> bm_free bm" for j
    proof (rule ccontr)
      assume "\<not> ?i \<le> j"
      with Suc.prems that have "32 * ix \<le> j" "j < ix * 32 + n" by auto
      with n32 have d: "j div 32 = ix" by (intro div_nat_eqI) simp_all
      then have "j mod 32 < n"
        using \<open>j < ix * 32 + n\<close> \<open>32 * ix \<le> j\<close> by (simp add: minus_div_mult_eq_mod [symmetric])
      with least [of "j mod 32"] that d show False by (simp add: bm_free_def bm_bit_def)
    qed
    have m: "Min (bm_free bm) = ?i" by (rule Min_eqI) (use mem lb in auto)
    let ?bm = "bm\<lparr>bmap := (bmap bm)[ix := ?w XOR push_bit n 1]\<rparr>"
    have free: "bm_free ?bm = bm_free bm - {?i}"
    proof (rule set_eqI)
      fix j
      have "j = ix * 32 + n \<longleftrightarrow> j div 32 = ix \<and> j mod 32 = n"
        using n32 mult_div_mod_eq [of 32 j] by (auto simp: mult.commute)
      then show "j \<in> bm_free ?bm \<longleftrightarrow> j \<in> bm_free bm - {?i}"
        using ix len n32 bn
        by (cases "j div 32 = ix")
           (auto simp: bm_free_def bm_bit_update bm_bit_def bit_xor_iff bit_mask_at)
    qed
    have "scan_words bm ix = Some (Inr (word_of_nat ?i), ?bm)"
      using ix False n by (subst scan_words.simps) (simp add: WORD_BITS_def)
    then show ?thesis using mem m free by (auto simp del: One_nat_def)
  qed
qed

lemma bm_wf_update: "bm_wf bm \<Longrightarrow> nbits bm' = nbits bm \<Longrightarrow> nwords bm' = nwords bm \<Longrightarrow>
    length (bmap bm') = length (bmap bm) \<Longrightarrow> bm_wf bm'"
  by (simp add: bm_wf_def)

lemma bitmap_alloc_empty:
  "bm_wf bm \<Longrightarrow> bm_free bm = {} \<Longrightarrow> bitmap_alloc bm = Some (Inl (- E_NO_MEM), bm)"
  using scan_words_spec [of bm 0] by (simp add: bitmap_alloc_def)

lemma bitmap_alloc_Min:
  assumes "bm_wf bm" and "bm_free bm \<noteq> {}"
  obtains bm' where "bitmap_alloc bm = Some (Inr (word_of_nat (Min (bm_free bm))), bm')"
    and "bm_wf bm'" and "bm_free bm' = bm_free bm - {Min (bm_free bm)}"
    and "nbits bm' = nbits bm" and "nwords bm' = nwords bm"
  using scan_words_spec [OF assms(1), of 0] assms(2) bm_wf_update [OF assms(1)]
  by (auto simp: bitmap_alloc_def)

lemma bm_index_unat:
  assumes "bm_wf bm" and "i \<in> bm_free bm"
  shows "unat (word_of_nat i :: u32) = i"
proof -
  have "i < 2 ^ 32" using bm_free_less [OF assms] assms(1) unfolding bm_wf_def by linarith
  then show ?thesis by (simp add: unat_of_nat take_bit_nat_eq_self)
qed

lemma bitmap_test_iff:
  assumes "bm_wf bm"
  shows "bitmap_test bm i = (if i < nbits bm then Some (unat i \<in> bm_free bm) else None)"
proof -
  have "unat i < 32 * unat (nwords bm)" if "i < nbits bm"
    using that assms unfolding bm_wf_def word_less_nat_alt by linarith
  then show ?thesis using assms
    by (simp add: bitmap_test_def bitmap_translate_def and_mask_bit WORD_BITS_def bm_free_def
        bm_bit_def bm_wf_def kassert_def)
qed

lemma bitmap_free_spec:
  assumes "bm_wf bm" and "i < nbits bm" and "unat i \<notin> bm_free bm"
  obtains bm' where "bitmap_free bm i = Some bm'" and "bm_wf bm'"
    and "bm_free bm' = insert (unat i) (bm_free bm)" and "nbits bm' = nbits bm"
    and "nwords bm' = nwords bm"
proof -
  let ?k = "unat i div 32" and ?o = "unat i mod 32"
  have len: "length (bmap bm) = unat (nwords bm)" using assms(1) by (simp add: bm_wf_def)
  have "unat i < 32 * unat (nwords bm)"
    using assms(1,2) unfolding bm_wf_def word_less_nat_alt by linarith
  then have k: "?k < length (bmap bm)" using len by linarith
  have "\<not> bit (bmap bm ! ?k) ?o"
    using assms(3) \<open>unat i < _\<close> len by (simp add: bm_free_def bm_bit_def)
  let ?bm = "bm\<lparr>bmap := (bmap bm)[?k := bmap bm ! ?k OR push_bit ?o 1]\<rparr>"
  have "bitmap_free bm i = Some ?bm"
    using assms(2) \<open>\<not> bit _ _\<close>
    by (simp add: bitmap_free_def bitmap_translate_def WORD_BITS_def and_mask_bit)
  moreover have "bm_free ?bm = insert (unat i) (bm_free bm)"
  proof (rule set_eqI)
    fix j
    have "j = unat i \<longleftrightarrow> j div 32 = ?k \<and> j mod 32 = ?o" by (metis div_mult_mod_eq)
    then show "j \<in> bm_free ?bm \<longleftrightarrow> j \<in> insert (unat i) (bm_free bm)"
      using k \<open>unat i < _\<close> len
      by (cases "j div 32 = ?k")
         (auto simp: bm_free_def bm_bit_update bm_bit_def bit_or_iff bit_mask_at)
  qed
  moreover have "bm_wf ?bm" by (rule bm_wf_update [OF assms(1)]) simp_all
  ultimately show thesis by (intro that [of ?bm]) simp_all
qed

subsection \<open>Creating a bitmap\<close>

lemma bit_mark_over:
  "bit (mark_over w k) j \<longleftrightarrow> j < 32 \<and> (if k \<le> j then \<not> bit w j else bit w j)"
proof (induction w k rule: mark_over.induct)
  case (1 w k)
  show ?case
  proof (cases "k < WORD_BITS")
    case True
    then show ?thesis
      using 1 by (subst mark_over.simps) (auto simp: bit_xor_iff bit_mask_at WORD_BITS_def not_less_eq_eq le_Suc_eq)
  next
    case False
    then show ?thesis
      by (subst mark_over.simps) (auto simp: WORD_BITS_def dest: bit_imp_le_length)
  qed
qed

lemma bit_minus_1_u32 [simp]: "bit (- 1 :: u32) j \<longleftrightarrow> j < 32"
  by (simp add: bit_simps)

text \<open>Every index below \<open>n\<close> is free in a new bitmap, and none beyond, whatever the rounding.\<close>

lemma bitmap_create_spec:
  assumes n: "0 < n"
  obtains bm where "bitmap_create True True n = Some (Some bm)" and "bm_wf bm"
    and "nbits bm = n" and "bm_free bm = {..<unat n}"
proof -
  let ?q = "ROUNDUP_DIV (unat n) 32"
  let ?nw = "word_of_nat ?q :: u32"
  have n0: "0 < unat n" using n by (simp add: word_less_nat_alt)
  have n32: "unat n < 2 ^ 32" by (rule unat_u32_less)
  have q1: "unat n \<le> ?q * 32" and q2: "?q * 32 < unat n + 32"
    using div_mult_mod_eq [of "unat n + 31" 32] by (simp_all add: ROUNDUP_DIV_def)
  have q3: "?q * 32 \<le> 2 ^ 32"
  proof -
    have "?q \<le> (2 ^ 32 + 31) div 32"
      unfolding ROUNDUP_DIV_def by (rule div_le_mono) (use n32 in simp)
    then show ?thesis by simp
  qed
  then have "?q < 2 ^ 32" by simp
  then have nw: "unat ?nw = ?q" by (simp add: unat_of_nat take_bit_nat_eq_self)
  have q0: "0 < ?q" using q1 n0 by (cases ?q) simp_all
  have no_wrap: "(ucast n :: u64) < ucast n + 32"
  proof -
    have "unat (ucast n :: u64) = unat n" using n32 by (simp add: unsigned_ucast_eq take_bit_nat_eq_self)
    moreover have "unat (ucast n + 32 :: u64) = unat n + 32"
      using n32 calculation by (simp add: unat_word_ariths(1))
    ultimately show ?thesis by (simp add: word_less_nat_alt)
  qed
  let ?bm = "\<lparr>nbits = n, nwords = ?nw, bmap = replicate ?q (- 1)\<rparr>"
  show thesis
  proof (cases "unat n = ?q * 32")
    case True
    have "bitmap_create True True n = Some (Some ?bm)"
      using n no_wrap nw True by (simp add: bitmap_create_def WORD_BITS_def Let_def)
    moreover have "bm_wf ?bm" using nw q1 q3 by (simp add: bm_wf_def)
    moreover have "bm_free ?bm = {..<unat n}"
      using True by (auto simp: bm_free_def bm_bit_def less_mult_imp_div_less mult.commute)
    ultimately show thesis by (intro that [of ?bm]) simp_all
  next
    case False
    obtain k where k: "?q = Suc k" using q0 by (cases ?q) simp_all
    have "?nw \<noteq> 0" using nw q0 by (metis unat_0 less_irrefl)
    then have "unat (?nw - 1) = ?q - 1" using unat_minus_one [of ?nw] nw by auto
    then have ix: "unat (?nw - 1) = k" using k by simp
    let ?over = "unat n - k * 32"
    have over: "0 < ?over" "?over < 32" and nk: "unat n = k * 32 + ?over"
      using q1 q2 False k by simp_all
    have div: "unat n div 32 = k" using over nk by (intro div_nat_eqI) simp_all
    define w where "w = mark_over (- 1) ?over"
    let ?bm' = "?bm\<lparr>bmap := (replicate (Suc k) (- 1))[k := w]\<rparr>"
    define m where "m = ?nw"
    have m: "unat m = Suc k" "unat (m - 1) = k" using nw k ix by (simp_all only: m_def)
    have "n \<noteq> 0" using n0 by auto
    have "bitmap_create True True n = Some (Some (?bm\<lparr>bmap := (replicate ?q (- 1))[k := w]\<rparr>))"
      unfolding bitmap_create_def WORD_BITS_def Let_def m_def [symmetric] m
      using \<open>n \<noteq> 0\<close> no_wrap div over False k
      by (simp add: w_def del: replicate_Suc)
    then have "bitmap_create True True n = Some (Some ?bm')" by (simp only: k)
    moreover have "bm_wf ?bm'"
      using m q1 q3 unfolding bm_wf_def m_def k by (simp del: replicate_Suc of_nat_Suc)
    moreover have "bm_free ?bm' = {..<unat n}"
    proof (rule set_eqI)
      fix i
      have upd: "i \<in> bm_free ?bm' \<longleftrightarrow> (if i div 32 = k then bit w (i mod 32) \<and> i < 32 * Suc k
          else bm_bit (replicate (Suc k) (- 1)) i)"
        unfolding bm_free_def by (simp del: replicate_Suc add: bm_bit_update)
      show "i \<in> bm_free ?bm' \<longleftrightarrow> i \<in> {..<unat n}"
      proof (cases "i div 32 = k")
        case True
        then have "i = k * 32 + i mod 32" using div_mult_mod_eq [of i 32] by simp
        then have "i < unat n \<longleftrightarrow> i mod 32 < ?over" using nk by linarith
        moreover have "i div 32 < Suc k" using True by simp
        then have "i < 32 * Suc k" by (simp add: div_less_iff_less_mult mult.commute)
        ultimately show ?thesis using True upd by (auto simp: w_def bit_mark_over)
      next
        case other: False
        have "i < unat n \<longleftrightarrow> i < 32 * Suc k"
        proof
          assume "i < 32 * Suc k"
          then have "i div 32 < Suc k" by (metis less_mult_imp_div_less mult.commute)
          then have "i div 32 < unat n div 32" using div other by simp
          then show "i < unat n" using div_le_mono not_less by blast
        qed (use q1 k in simp)
        moreover have "i div 32 < Suc k" if "i < 32 * Suc k"
          using that by (metis less_mult_imp_div_less mult.commute)
        ultimately show ?thesis using other upd
          by (auto simp: bm_bit_def simp del: replicate_Suc)
      qed
    qed
    ultimately show thesis by (intro that [of ?bm']) simp_all
  qed
qed

section \<open>Properties\<close>

text \<open>
  \<open>bitmap_alloc\<close> never panics: it takes the least free index out of the free set, and returns
  \<open>-E_NO_MEM\<close> without a change exactly when no index is free. The index it returns tests as in use,
  and \<open>bitmap_free\<close> of it restores the free set; freeing it twice panics.
\<close>

theorem bitmap_alloc_least:
  assumes "bm_wf bm"
  shows "case bitmap_alloc bm of
      None \<Rightarrow> False
    | Some (Inl e, bm') \<Rightarrow> e = - E_NO_MEM \<and> bm' = bm \<and> bm_free bm = {}
    | Some (Inr i, bm') \<Rightarrow> bm_wf bm' \<and> unat i = Min (bm_free bm) \<and>
        bm_free bm' = bm_free bm - {unat i} \<and> bm_free bm = insert (unat i) (bm_free bm') \<and>
        (i < nbits bm \<longrightarrow> bitmap_test bm' i = Some False \<and>
          (\<exists>bm''. bitmap_free bm' i = Some bm'' \<and> bm_free bm'' = bm_free bm \<and>
             bitmap_free bm'' i = None))"
proof (cases "bm_free bm = {}")
  case True
  then show ?thesis using bitmap_alloc_empty [OF assms] by simp
next
  case False
  obtain bm' where a: "bitmap_alloc bm = Some (Inr (word_of_nat (Min (bm_free bm))), bm')"
    and wf: "bm_wf bm'" and f: "bm_free bm' = bm_free bm - {Min (bm_free bm)}"
    and nb: "nbits bm' = nbits bm"
    by (rule bitmap_alloc_Min [OF assms False])
  have mem: "Min (bm_free bm) \<in> bm_free bm" using False by simp
  define i where "i = (word_of_nat (Min (bm_free bm)) :: u32)"
  have i: "unat i = Min (bm_free bm)" using bm_index_unat [OF assms mem] by (simp add: i_def)
  have undo: "bitmap_test bm' i = Some False \<and> (\<exists>bm''. bitmap_free bm' i = Some bm'' \<and>
      bm_free bm'' = bm_free bm \<and> bitmap_free bm'' i = None)" if "i < nbits bm"
  proof -
    have "unat i \<notin> bm_free bm'" using f i by simp
    moreover have "i < nbits bm'" using that nb by simp
    ultimately obtain bm'' where b: "bitmap_free bm' i = Some bm''" "bm_wf bm''"
      "bm_free bm'' = insert (unat i) (bm_free bm')" "nbits bm'' = nbits bm'"
      using bitmap_free_spec [OF wf] by blast
    have "bitmap_test bm'' i = Some True"
      using bitmap_test_iff [OF b(2), of i] b(3,4) nb that by simp
    then have "bitmap_free bm'' i = None"
      by (auto simp: bitmap_test_def bitmap_free_def bitmap_translate_def kassert_def
          split: if_splits)
    then show ?thesis
      using b f i mem bitmap_test_iff [OF wf, of i] that nb by (auto simp: insert_absorb)
  qed
  show ?thesis using a wf f i mem undo unfolding i_def [symmetric] by auto
qed

theorem bitmap_alloc_least_witness:
  "bm_wf \<lparr>nbits = 64, nwords = 2, bmap = [0, 12]\<rparr> \<and>
   bitmap_alloc \<lparr>nbits = 64, nwords = 2, bmap = [0, 12]\<rparr> =
     Some (Inr 34, \<lparr>nbits = 64, nwords = 2, bmap = [0, 8]\<rparr>) \<and>
   (34 :: nat) = Min (bm_free \<lparr>nbits = 64, nwords = 2, bmap = [0, 12]\<rparr>)"
proof -
  let ?bm = "\<lparr>nbits = 64, nwords = 2, bmap = [0, 12]\<rparr> :: bitmap"
  have wf: "bm_wf ?bm" by (simp add: bm_wf_def)
  have a: "bitmap_alloc ?bm = Some (Inr 34, \<lparr>nbits = 64, nwords = 2, bmap = [0, 8]\<rparr>)"
  proof -
    have b: "scan_bits 12 0 = Some 2"
      by (simp add: scan_bits.simps [of 12 0] scan_bits.simps [of 12 "Suc 0"] scan_bits.simps [of 12 2]
          WORD_BITS_def numeral_2_eq_2 [symmetric])
    have "scan_words ?bm 1 = Some (Inr 34, \<lparr>nbits = 64, nwords = 2, bmap = [0, 8]\<rparr>)"
      by (subst scan_words.simps) (simp add: b WORD_BITS_def)
    then show ?thesis
      unfolding bitmap_alloc_def by (subst scan_words.simps) simp
  qed
  have u: "(34 :: nat) = unat (34 :: u32)" by simp
  have "unat (34 :: u32) = Min (bm_free ?bm)"
    using bitmap_alloc_least [OF wf, unfolded a option.case prod.case sum.case] by (elim conjE)
  with u have "34 = Min (bm_free ?bm)" by (rule trans)
  with wf a show ?thesis by (intro conjI)
qed

end
