(* ===== verification/BlockDev.thy ===== *)
theory BlockDev
  imports FsBase
begin

text \<open>
  The path of a block transfer: I/O buffers (\<open>lab8/kern/fs/iobuf.c\<close>), the RAM disk behind the IDE
  layer (\<open>kern/driver/ramdisk.c\<close>, \<open>ide.c\<close>) and the device \<open>disk0\<close>
  (\<open>kern/fs/devs/dev_disk0.c\<close>). A pointer into a memory object is the object's bytes and a position
  in it. A C pointer dereferenced outside its object has no meaning; the models return \<open>None\<close> there,
  as for a panic, so a result other than \<open>None\<close> also says that every access was inside its object.

  The locale \<open>block_device\<close> is the contract between a file system and the device below it; it is
  interpreted on \<open>disk0\<close> at the end.
\<close>

section \<open>I/O buffers\<close>

record iobuf =
  io_buf :: "u8 list"  \<comment> \<open>the object \<open>io_base\<close> points into\<close>
  io_base :: nat       \<comment> \<open>the position of \<open>io_base\<close> in that object\<close>
  io_offset :: int
  io_len :: nat
  io_resid :: nat

definition iobuf_used :: "iobuf \<Rightarrow> nat" where
  "iobuf_used iob = io_len iob - io_resid iob"

definition iobuf_init :: "u8 list \<Rightarrow> nat \<Rightarrow> nat \<Rightarrow> int \<Rightarrow> iobuf" where
  "iobuf_init buf base len offset =
     \<lparr>io_buf = buf, io_base = base, io_offset = offset, io_len = len, io_resid = len\<rparr>"

definition iobuf_skip :: "iobuf \<Rightarrow> nat \<Rightarrow> iobuf option" where
  "iobuf_skip iob n = do {
     kassert (io_resid iob \<ge> n);
     Some (iob\<lparr>io_base := io_base iob + n, io_offset := io_offset iob + int n,
               io_resid := io_resid iob - n\<rparr>)
   }"

text \<open>\<open>iobuf_move\<close> returns its result, the number of bytes moved, the buffer and the object at
  \<open>data\<close>. A \<open>memmove\<close> between two objects copies \<open>alen\<close> bytes; both must have room for them.\<close>

definition iobuf_move ::
  "iobuf \<Rightarrow> u8 list \<Rightarrow> nat \<Rightarrow> bool \<Rightarrow> (int \<times> nat \<times> iobuf \<times> u8 list) option" where
  "iobuf_move iob data len m2b =
     (let alen = if io_resid iob > len then len else io_resid iob in
      if alen > 0 then do {
        kassert (io_base iob + alen \<le> length (io_buf iob) \<and> alen \<le> length data);
        let (iob, data) =
          (if m2b then (iob\<lparr>io_buf := splice (io_base iob) (take alen data) (io_buf iob)\<rparr>, data)
           else (iob, splice 0 (take alen (drop (io_base iob) (io_buf iob))) data));
        iob \<leftarrow> iobuf_skip iob alen;
        Some (if len - alen = 0 then 0 else - E_NO_MEM, alen, iob, data)
      } else Some (if len = 0 then 0 else - E_NO_MEM, alen, iob, data))"

definition iobuf_move_zeros :: "iobuf \<Rightarrow> nat \<Rightarrow> (int \<times> nat \<times> iobuf) option" where
  "iobuf_move_zeros iob len =
     (let alen = if io_resid iob > len then len else io_resid iob in
      if alen > 0 then do {
        kassert (io_base iob + alen \<le> length (io_buf iob));
        iob \<leftarrow> iobuf_skip (iob\<lparr>io_buf := splice (io_base iob) (replicate alen 0) (io_buf iob)\<rparr>) alen;
        Some (if len - alen = 0 then 0 else - E_NO_MEM, alen, iob)
      } else Some (if len = 0 then 0 else - E_NO_MEM, alen, iob))"

section \<open>RAM disks behind the IDE layer\<close>

definition SECTSIZE :: nat where "SECTSIZE = 512"
definition DISK0_DEV_NO :: nat where "DISK0_DEV_NO = 2"
definition MAX_IDE :: nat where "MAX_IDE = 4"
definition MAX_NSECS :: nat where "MAX_NSECS = 128"
definition MAX_DISK_NSECS :: u32 where "MAX_DISK_NSECS = 0x10000000"

record ide_device =
  valid :: bool
  dsize :: u32          \<comment> \<open>\<open>size\<close>, in sectors\<close>
  img_bytes :: "u8 list"    \<comment> \<open>the memory at \<open>iobase\<close>\<close>

record ide_state =
  ide_devices :: "nat \<Rightarrow> ide_device"
  disk0_buffer :: "u8 list"

definition VALID_IDE :: "ide_state \<Rightarrow> nat \<Rightarrow> bool" where
  "VALID_IDE d ideno \<longleftrightarrow> ideno < MAX_IDE \<and> valid (ide_devices d ideno)"

definition ide_device_valid :: "ide_state \<Rightarrow> nat \<Rightarrow> bool" where
  "ide_device_valid d ideno = VALID_IDE d ideno"

definition ide_device_size :: "ide_state \<Rightarrow> nat \<Rightarrow> u64" where
  "ide_device_size d ideno =
     (if ide_device_valid d ideno then ucast (dsize (ide_devices d ideno)) else 0)"

text \<open>\<open>ramdisk_init\<close> with the bytes between the start and the end symbol of the linked image. The
  two devices with an image are the swap device and \<open>disk0\<close>; any other number panics.\<close>

definition ramdisk_init :: "nat \<Rightarrow> (nat \<Rightarrow> u8 list) \<Rightarrow> ide_device option" where
  "ramdisk_init devno img = do {
     kassert (devno = 1 \<or> devno = DISK0_DEV_NO);
     let bytes = img devno in
     if bytes = [] then Some \<lparr>valid = False, dsize = 0, img_bytes = []\<rparr>
     else Some \<lparr>valid = True, dsize = word_of_nat (unat (word_of_nat (length bytes) :: u32) div SECTSIZE),
                img_bytes = bytes\<rparr>
   }"

definition ide_init :: "(nat \<Rightarrow> u8 list) \<Rightarrow> ide_state \<Rightarrow> ide_state option" where
  "ide_init img d =
     (let d = d\<lparr>ide_devices := (\<lambda>i. if i < MAX_IDE then (ide_devices d i)\<lparr>valid := False\<rparr>
                                      else ide_devices d i)\<rparr> in do {
        swap \<leftarrow> ramdisk_init 1 img;
        let d = d\<lparr>ide_devices := (ide_devices d)(1 := swap)\<rparr>;
        kassert (VALID_IDE d 1);
        disk \<leftarrow> ramdisk_init DISK0_DEV_NO img;
        let d = d\<lparr>ide_devices := (ide_devices d)(DISK0_DEV_NO := disk)\<rparr>;
        kassert (VALID_IDE d DISK0_DEV_NO);
        Some d
      })"

text \<open>\<open>nsecs = MIN(nsecs, dev->size - secno)\<close> in \<open>size_t\<close>; the test \<open>nsecs < 0\<close> never holds.\<close>

definition ramdisk_clip :: "ide_device \<Rightarrow> u64 \<Rightarrow> u64 \<Rightarrow> u64" where
  "ramdisk_clip dev secno nsecs =
     (if nsecs < ucast (dsize dev) - secno then nsecs else ucast (dsize dev) - secno)"

definition ramdisk_read :: "ide_device \<Rightarrow> u64 \<Rightarrow> u8 list \<Rightarrow> u64 \<Rightarrow> (int \<times> u8 list) option" where
  "ramdisk_read dev secno dst nsecs =
     (let n = unat (ramdisk_clip dev secno nsecs) * SECTSIZE; at = unat secno * SECTSIZE in do {
        kassert (at + n \<le> length (img_bytes dev) \<and> n \<le> length dst);
        Some (0, splice 0 (take n (drop at (img_bytes dev))) dst)
      })"

definition ramdisk_write :: "ide_device \<Rightarrow> u64 \<Rightarrow> u8 list \<Rightarrow> u64 \<Rightarrow> (int \<times> ide_device) option" where
  "ramdisk_write dev secno src nsecs =
     (let n = unat (ramdisk_clip dev secno nsecs) * SECTSIZE; at = unat secno * SECTSIZE in do {
        kassert (at + n \<le> length (img_bytes dev) \<and> n \<le> length src);
        Some (0, dev\<lparr>img_bytes := splice at (take n src) (img_bytes dev)\<rparr>)
      })"

definition ide_read_secs :: "ide_state \<Rightarrow> nat \<Rightarrow> u32 \<Rightarrow> u8 list \<Rightarrow> u64 \<Rightarrow> (int \<times> u8 list) option" where
  "ide_read_secs d ideno secno dst nsecs = do {
     kassert (nsecs \<le> word_of_nat MAX_NSECS \<and> VALID_IDE d ideno);
     kassert (secno < MAX_DISK_NSECS \<and> ucast secno + nsecs \<le> ucast MAX_DISK_NSECS);
     ramdisk_read (ide_devices d ideno) (ucast secno) dst nsecs
   }"

definition ide_write_secs :: "ide_state \<Rightarrow> nat \<Rightarrow> u32 \<Rightarrow> u8 list \<Rightarrow> u64 \<Rightarrow> (int \<times> ide_state) option" where
  "ide_write_secs d ideno secno src nsecs = do {
     kassert (nsecs \<le> word_of_nat MAX_NSECS \<and> VALID_IDE d ideno);
     kassert (secno < MAX_DISK_NSECS \<and> ucast secno + nsecs \<le> ucast MAX_DISK_NSECS);
     (ret, dev) \<leftarrow> ramdisk_write (ide_devices d ideno) (ucast secno) src nsecs;
     Some (ret, d\<lparr>ide_devices := (ide_devices d)(ideno := dev)\<rparr>)
   }"

section \<open>The device disk0\<close>

text \<open>A \<open>struct device\<close>, over the state \<open>'d\<close> its operations change. The operation \<open>d_io\<close> returns its
  result, the I/O buffer and the device state.\<close>

record 'd device =
  d_blocks :: nat
  d_blocksize :: nat
  d_open :: "u32 \<Rightarrow> 'd \<Rightarrow> int \<times> 'd"
  d_close :: "'d \<Rightarrow> int \<times> 'd"
  d_io :: "iobuf \<Rightarrow> bool \<Rightarrow> 'd \<Rightarrow> (int \<times> iobuf \<times> 'd) option"
  d_ioctl :: "int \<Rightarrow> 'd \<Rightarrow> int \<times> 'd"

definition DISK0_BLKSIZE :: nat where "DISK0_BLKSIZE = 4096"
definition DISK0_BUFSIZE :: nat where "DISK0_BUFSIZE = 4 * DISK0_BLKSIZE"
definition DISK0_BLK_NSECT :: nat where "DISK0_BLK_NSECT = DISK0_BLKSIZE div SECTSIZE"

definition disk0_open :: "u32 \<Rightarrow> ide_state \<Rightarrow> int \<times> ide_state" where
  "disk0_open open_flags d = (0, d)"

definition disk0_close :: "ide_state \<Rightarrow> int \<times> ide_state" where
  "disk0_close d = (0, d)"

definition disk0_read_blks_nolock :: "u32 \<Rightarrow> u32 \<Rightarrow> ide_state \<Rightarrow> ide_state option" where
  "disk0_read_blks_nolock blkno nblks d =
     (let sectno = blkno * word_of_nat DISK0_BLK_NSECT; nsecs = nblks * word_of_nat DISK0_BLK_NSECT in do {
        (ret, buf) \<leftarrow> ide_read_secs d DISK0_DEV_NO sectno (disk0_buffer d) (ucast nsecs);
        kassert (ret = 0);
        Some (d\<lparr>disk0_buffer := buf\<rparr>)
      })"

definition disk0_write_blks_nolock :: "u32 \<Rightarrow> u32 \<Rightarrow> ide_state \<Rightarrow> ide_state option" where
  "disk0_write_blks_nolock blkno nblks d =
     (let sectno = blkno * word_of_nat DISK0_BLK_NSECT; nsecs = nblks * word_of_nat DISK0_BLK_NSECT in do {
        (ret, d) \<leftarrow> ide_write_secs d DISK0_DEV_NO sectno (disk0_buffer d) (ucast nsecs);
        kassert (ret = 0);
        Some d
      })"

text \<open>The transfer loop of \<open>disk0_io\<close>, in pieces of at most the size of \<open>disk0_buffer\<close>.\<close>

partial_function (option) disk0_loop ::
  "iobuf \<Rightarrow> bool \<Rightarrow> nat \<Rightarrow> u32 \<Rightarrow> ide_state \<Rightarrow> (iobuf \<times> ide_state) option" where
  "disk0_loop iob write resid blkno d =
     (if resid \<noteq> 0 then
        if write then
          iobuf_move iob (disk0_buffer d) DISK0_BUFSIZE False \<bind> (\<lambda>(_, copied, iob, data).
          kassert (copied \<noteq> 0 \<and> copied \<le> resid \<and> copied mod DISK0_BLKSIZE = 0) \<bind> (\<lambda>_.
          let nblks = word_of_nat (copied div DISK0_BLKSIZE) in
          disk0_write_blks_nolock blkno nblks (d\<lparr>disk0_buffer := data\<rparr>) \<bind> (\<lambda>d.
          disk0_loop iob write (resid - copied) (blkno + nblks) d)))
        else
          (let alen = (if DISK0_BUFSIZE > resid then resid else DISK0_BUFSIZE);
               nblks = word_of_nat (alen div DISK0_BLKSIZE) in
           disk0_read_blks_nolock blkno nblks d \<bind> (\<lambda>d.
           iobuf_move iob (disk0_buffer d) alen True \<bind> (\<lambda>(_, copied, iob, _).
           kassert (copied = alen \<and> copied mod DISK0_BLKSIZE = 0) \<bind> (\<lambda>_.
           disk0_loop iob write (resid - copied) (blkno + nblks) d))))
      else Some (iob, d))"

text \<open>Both the division and the remainder of the C code truncate; on the block-aligned offsets that
  pass the first check they are HOL's.\<close>

definition disk0_io :: "nat \<Rightarrow> iobuf \<Rightarrow> bool \<Rightarrow> ide_state \<Rightarrow> (int \<times> iobuf \<times> ide_state) option" where
  "disk0_io blocks iob write d =
     (let offset = io_offset iob; resid = io_resid iob;
          blkno = (word_of_int (offset div int DISK0_BLKSIZE) :: u32);
          nblks = (word_of_nat (resid div DISK0_BLKSIZE) :: u32) in
      if offset mod int DISK0_BLKSIZE \<noteq> 0 \<or> resid mod DISK0_BLKSIZE \<noteq> 0 then Some (- E_INVAL, iob, d)
      else if unat (blkno + nblks) > blocks then Some (- E_INVAL, iob, d)
      else if nblks = 0 then Some (0, iob, d)
      else do {
        (iob, d) \<leftarrow> disk0_loop iob write resid blkno d;
        Some (0, iob, d)
      })"

definition disk0_ioctl :: "int \<Rightarrow> ide_state \<Rightarrow> int \<times> ide_state" where
  "disk0_ioctl op d = (- E_UNIMP, d)"

text \<open>\<open>disk0_device_init\<close>; the allocation of the buffer succeeds or panics (\<open>buf\<close> is its memory).\<close>

definition disk0_device_init ::
  "u8 list option \<Rightarrow> ide_state \<Rightarrow> (ide_state device \<times> ide_state) option" where
  "disk0_device_init buf d = do {
     kassert (ide_device_valid d DISK0_DEV_NO);
     let blocks = unat (ide_device_size d DISK0_DEV_NO) div DISK0_BLK_NSECT;
     let dev = \<lparr>d_blocks = blocks, d_blocksize = DISK0_BLKSIZE, d_open = disk0_open,
                d_close = disk0_close, d_io = disk0_io blocks, d_ioctl = disk0_ioctl\<rparr>;
     b \<leftarrow> buf;
     Some (dev, d\<lparr>disk0_buffer := b\<rparr>)
   }"

section \<open>One transfer of the RAM disk\<close>

definition disk_img :: "ide_state \<Rightarrow> u8 list" where
  "disk_img d = img_bytes (ide_devices d DISK0_DEV_NO)"

text \<open>The states in which \<open>disk0\<close> with \<open>blocks\<close> blocks works.\<close>

definition disk_inv :: "nat \<Rightarrow> ide_state \<Rightarrow> bool" where
  "disk_inv blocks d \<longleftrightarrow>
     valid (ide_devices d DISK0_DEV_NO) \<and> length (disk_img d) < 2 ^ 32 \<and>
     unat (dsize (ide_devices d DISK0_DEV_NO)) * 512 \<le> length (disk_img d) \<and>
     blocks = unat (dsize (ide_devices d DISK0_DEV_NO)) div 8 \<and>
     length (disk0_buffer d) = 16384"

lemma disk_inv_blocks: "disk_inv blocks d \<Longrightarrow> blocks * 4096 \<le> length (disk_img d)"
proof -
  assume inv: "disk_inv blocks d"
  let ?s = "unat (dsize (ide_devices d DISK0_DEV_NO))"
  have "?s div 8 * 8 \<le> ?s" by simp
  then have "?s div 8 * 4096 \<le> ?s * 512" by simp
  moreover have "?s * 512 \<le> length (disk_img d)" "blocks = ?s div 8"
    using inv by (simp_all add: disk_inv_def)
  ultimately show ?thesis by simp
qed

lemma disk_inv_bound: "disk_inv blocks d \<Longrightarrow> blocks < 2 ^ 20"
  using disk_inv_blocks [of blocks d] by (auto simp: disk_inv_def)

lemma unat_word_nat_u32: "n < 2 ^ 32 \<Longrightarrow> unat (word_of_nat n :: u32) = n"
  by (simp add: unat_of_nat take_bit_nat_eq_self)

lemma unat_word_nat_u64: "n < 2 ^ 64 \<Longrightarrow> unat (word_of_nat n :: u64) = n"
  by (simp add: unat_of_nat take_bit_nat_eq_self)

lemma unat_ucast_u32_u64: "unat (ucast (w :: u32) :: u64) = unat w"
  using unat_u32_less [of w] by (simp add: unsigned_ucast_eq take_bit_nat_eq_self)

lemma ucast_word_nat: "n < 2 ^ 32 \<Longrightarrow> (ucast (word_of_nat n :: u32) :: u64) = word_of_nat n"
  by (rule word_unat_eq_iff [THEN iffD2])
     (simp add: unat_ucast_u32_u64 unat_word_nat_u32 unat_word_nat_u64)

text \<open>Within the device no clipping happens and every IDE assertion holds.\<close>

lemma sector_args:
  assumes inv: "disk_inv blocks d" and k: "0 < k" "k \<le> 4" and b: "b + k \<le> blocks"
  shows "ucast (word_of_nat k * word_of_nat 8 :: u32) = (word_of_nat (8 * k) :: u64)"
    and "(word_of_nat b * word_of_nat 8 :: u32) = word_of_nat (8 * b)"
    and "(ucast (word_of_nat (8 * b) :: u32) :: u64) = word_of_nat (8 * b)"
    and "(word_of_nat (8 * k) :: u64) \<le> 128"
    and "(word_of_nat (8 * b) :: u32) < 0x10000000"
    and "(word_of_nat (8 * b) :: u64) + word_of_nat (8 * k) \<le> 0x10000000"
    and "unat (ramdisk_clip (ide_devices d DISK0_DEV_NO) (word_of_nat (8 * b)) (word_of_nat (8 * k))) = 8 * k"
    and "4096 * (b + k) \<le> length (disk_img d)"
proof -
  have bb: "blocks < 2 ^ 20" by (rule disk_inv_bound [OF inv])
  have e: "word_of_nat k * word_of_nat 8 = (word_of_nat (8 * k) :: u32)"
    by (simp add: mult.commute)
  show "ucast (word_of_nat k * word_of_nat 8 :: u32) = (word_of_nat (8 * k) :: u64)"
    unfolding e using k by (intro ucast_word_nat) simp
  show "(word_of_nat b * word_of_nat 8 :: u32) = word_of_nat (8 * b)" by (simp add: mult.commute)
  show "(ucast (word_of_nat (8 * b) :: u32) :: u64) = word_of_nat (8 * b)"
    using b bb by (intro ucast_word_nat) simp
  have uk: "unat (word_of_nat (8 * k) :: u64) = 8 * k" using k by (intro unat_word_nat_u64) simp
  have ub: "unat (word_of_nat (8 * b) :: u64) = 8 * b" using b bb by (intro unat_word_nat_u64) simp
  have ub32: "unat (word_of_nat (8 * b) :: u32) = 8 * b" using b bb by (intro unat_word_nat_u32) simp
  show "(word_of_nat (8 * k) :: u64) \<le> 128" using k unfolding word_le_nat_alt uk by simp
  show "(word_of_nat (8 * b) :: u32) < 0x10000000"
    using b bb unfolding word_less_nat_alt ub32 by simp
  have sum: "unat ((word_of_nat (8 * b) :: u64) + word_of_nat (8 * k)) = 8 * b + 8 * k"
    using b bb k unfolding of_nat_add [symmetric] by (intro unat_word_nat_u64) simp
  show "(word_of_nat (8 * b) :: u64) + word_of_nat (8 * k) \<le> 0x10000000"
    using b bb unfolding word_le_nat_alt sum by simp
  let ?s = "dsize (ide_devices d DISK0_DEV_NO)"
  have "blocks = unat ?s div 8" using inv by (simp add: disk_inv_def)
  then have "8 * (b + k) \<le> 8 * (unat ?s div 8)" using b by simp
  also have "\<dots> \<le> unat ?s" by simp
  finally have s: "8 * (b + k) \<le> unat ?s" .
  have "unat ((ucast ?s :: u64) - word_of_nat (8 * b)) = unat ?s - 8 * b"
    using s by (subst unat_sub) (simp_all add: word_le_nat_alt ub unat_ucast_u32_u64 del: of_nat_mult)
  then show "unat (ramdisk_clip (ide_devices d DISK0_DEV_NO) (word_of_nat (8 * b)) (word_of_nat (8 * k))) = 8 * k"
    using s uk by (auto simp: ramdisk_clip_def word_less_nat_alt simp del: of_nat_mult)
  show "4096 * (b + k) \<le> length (disk_img d)"
    using disk_inv_blocks [OF inv] b
    by (intro order_trans [OF mult_le_mono2 [OF b]]) (simp add: mult.commute)
qed

lemma disk0_read_blks:
  assumes inv: "disk_inv blocks d" and k: "0 < k" "k \<le> 4" and b: "b + k \<le> blocks"
  shows "disk0_read_blks_nolock (word_of_nat b) (word_of_nat k) d =
    Some (d\<lparr>disk0_buffer := splice 0 (take (4096 * k) (drop (4096 * b) (disk_img d))) (disk0_buffer d)\<rparr>)"
proof -
  note a = sector_args [OF assms]
  have "b < 2 ^ 20" using disk_inv_bound [OF inv] b k by simp
  then have ub: "unat (word_of_nat (8 * b) :: u64) = 8 * b" by (intro unat_word_nat_u64) simp
  have v: "valid (ide_devices d DISK0_DEV_NO)" and l: "length (disk0_buffer d) = 16384"
    using inv by (simp_all add: disk_inv_def)
  have blk: "DISK0_BLK_NSECT = 8"
    by (simp add: DISK0_BLK_NSECT_def DISK0_BLKSIZE_def SECTSIZE_def)
  have "8 * b * 512 + 8 * k * 512 \<le> length (disk_img d)" using a(8) by simp
  then show ?thesis
    unfolding disk0_read_blks_nolock_def blk Let_def a(1,2) ide_read_secs_def ramdisk_read_def a(3,7) ub
    using a(4-6) v l k
    by (simp add: VALID_IDE_def MAX_IDE_def DISK0_DEV_NO_def MAX_NSECS_def MAX_DISK_NSECS_def
        SECTSIZE_def disk_img_def mult.commute del: of_nat_mult)
qed

lemma disk0_write_blks:
  assumes inv: "disk_inv blocks d" and k: "0 < k" "k \<le> 4" and b: "b + k \<le> blocks"
  obtains d' where "disk0_write_blks_nolock (word_of_nat b) (word_of_nat k) d = Some d'"
    and "disk_img d' = splice (4096 * b) (take (4096 * k) (disk0_buffer d)) (disk_img d)"
    and "disk0_buffer d' = disk0_buffer d" and "disk_inv blocks d'"
proof -
  note a = sector_args [OF assms]
  have "b < 2 ^ 20" using disk_inv_bound [OF inv] b k by simp
  then have ub: "unat (word_of_nat (8 * b) :: u64) = 8 * b" by (intro unat_word_nat_u64) simp
  have v: "valid (ide_devices d DISK0_DEV_NO)" and l: "length (disk0_buffer d) = 16384"
    using inv by (simp_all add: disk_inv_def)
  have blk: "DISK0_BLK_NSECT = 8"
    by (simp add: DISK0_BLK_NSECT_def DISK0_BLKSIZE_def SECTSIZE_def)
  have le: "8 * b * 512 + 8 * k * 512 \<le> length (disk_img d)" using a(8) by simp
  let ?dev = "(ide_devices d DISK0_DEV_NO)
    \<lparr>img_bytes := splice (4096 * b) (take (4096 * k) (disk0_buffer d)) (disk_img d)\<rparr>"
  let ?d = "d\<lparr>ide_devices := (ide_devices d)(DISK0_DEV_NO := ?dev)\<rparr>"
  have "disk0_write_blks_nolock (word_of_nat b) (word_of_nat k) d = Some ?d"
    unfolding disk0_write_blks_nolock_def blk Let_def a(1,2) ide_write_secs_def ramdisk_write_def a(3,7) ub
    using a(4-6) v l k le
    by (simp add: VALID_IDE_def MAX_IDE_def DISK0_DEV_NO_def MAX_NSECS_def MAX_DISK_NSECS_def
        SECTSIZE_def disk_img_def mult.commute del: of_nat_mult)
  moreover have "disk_inv blocks ?d"
    using inv le l k by (simp add: disk_inv_def disk_img_def)
  ultimately show thesis by (intro that [of ?d]) (simp_all add: disk_img_def)
qed

section \<open>Whole transfers of disk0\<close>

definition iob_done :: "iobuf \<Rightarrow> nat \<Rightarrow> u8 list \<Rightarrow> iobuf \<Rightarrow> bool" where
  "iob_done iob n buf iob' \<longleftrightarrow> io_buf iob' = buf \<and> io_base iob' = io_base iob + n \<and>
     io_offset iob' = io_offset iob + int n \<and> io_resid iob' = io_resid iob - n \<and>
     io_len iob' = io_len iob"

lemma iobuf_move_in:
  assumes "n \<le> io_resid iob" and "0 < n" and "io_base iob + n \<le> length (io_buf iob)"
    and "n \<le> length data"
  obtains iob' where "iobuf_move iob data n True = Some (0, n, iob', data)"
    and "iob_done iob n (splice (io_base iob) (take n data) (io_buf iob)) iob'"
proof -
  have e: "(if io_resid iob > n then n else io_resid iob) = n" using assms(1) by auto
  show thesis
    by (rule that [of "iob\<lparr>io_buf := splice (io_base iob) (take n data) (io_buf iob),
          io_base := io_base iob + n, io_offset := io_offset iob + int n, io_resid := io_resid iob - n\<rparr>"])
       (use assms in \<open>simp_all add: iobuf_move_def iobuf_skip_def e iob_done_def\<close>)
qed

lemma iobuf_move_out:
  assumes n: "n = min (io_resid iob) len" and "0 < n" and "io_base iob + n \<le> length (io_buf iob)"
    and "n \<le> length data"
  obtains iob' r where "iobuf_move iob data len False =
      Some (r, n, iob', splice 0 (take n (drop (io_base iob) (io_buf iob))) data)"
    and "iob_done iob n (io_buf iob) iob'"
proof -
  have e: "(if io_resid iob > len then len else io_resid iob) = n" using n by auto
  have "n \<le> io_resid iob" using n by simp
  then show thesis
    by (intro that [of "if len - n = 0 then 0 else - E_NO_MEM"
          "iob\<lparr>io_base := io_base iob + n, io_offset := io_offset iob + int n,
               io_resid := io_resid iob - n\<rparr>"])
       (use assms(2-) in \<open>simp_all add: iobuf_move_def iobuf_skip_def e iob_done_def\<close>)
qed

lemma take_drop_add: "take (m + n) (drop i xs) = take m (drop i xs) @ take n (drop (i + m) xs)"
  by (simp add: take_add add.commute)

lemma disk_inv_buffer:
  "disk_inv blocks d \<Longrightarrow> length b = 16384 \<Longrightarrow> disk_inv blocks (d\<lparr>disk0_buffer := b\<rparr>)"
  by (simp add: disk_inv_def disk_img_def)

lemma disk_img_buffer [simp]: "disk_img (d\<lparr>disk0_buffer := b\<rparr>) = disk_img d"
  by (simp add: disk_img_def)

lemma disk0_loop_read:
  assumes "disk_inv blocks d" and "b + n \<le> blocks" and "io_resid iob = 4096 * n"
    and "io_base iob + 4096 * n \<le> length (io_buf iob)"
  shows "\<exists>iob' d'. disk0_loop iob False (4096 * n) (word_of_nat b) d = Some (iob', d') \<and>
    disk_inv blocks d' \<and> disk_img d' = disk_img d \<and>
    iob_done iob (4096 * n)
      (splice (io_base iob) (take (4096 * n) (drop (4096 * b) (disk_img d))) (io_buf iob)) iob'"
  using assms
proof (induction n arbitrary: b iob d rule: less_induct)
  case (less n)
  show ?case
  proof (cases "n = 0")
    case True
    then show ?thesis using less.prems by (subst disk0_loop.simps) (simp add: iob_done_def)
  next
    case False
    define k where "k = min 4 n"
    have k: "0 < k" "k \<le> 4" "k \<le> n" using False by (auto simp: k_def)
    have alen: "(if DISK0_BUFSIZE > 4096 * n then 4096 * n else DISK0_BUFSIZE) = 4096 * k"
      by (auto simp: DISK0_BUFSIZE_def DISK0_BLKSIZE_def k_def min_def)
    let ?img = "disk_img d"
    let ?piece = "take (4096 * k) (drop (4096 * b) ?img)"
    let ?d = "d\<lparr>disk0_buffer := splice 0 ?piece (disk0_buffer d)\<rparr>"
    have bk: "b + k \<le> blocks" using less.prems(2) k by simp
    have len: "4096 * (b + k) \<le> length ?img" by (rule sector_args(8) [OF less.prems(1) k(1,2) bk])
    then have lp: "length ?piece = 4096 * k" by simp
    have l: "length (disk0_buffer d) = 16384" using less.prems(1) by (simp add: disk_inv_def)
    have rd: "disk0_read_blks_nolock (word_of_nat b) (word_of_nat k) d = Some ?d"
      by (rule disk0_read_blks [OF less.prems(1) k(1,2) bk])
    have buf: "take (4096 * k) (splice 0 ?piece (disk0_buffer d)) = ?piece"
      using take_drop_splice [of 0 ?piece "disk0_buffer d"] l lp k by simp
    obtain iob1 where mv: "iobuf_move iob (disk0_buffer ?d) (4096 * k) True =
          Some (0, 4096 * k, iob1, disk0_buffer ?d)"
      and i1: "iob_done iob (4096 * k) (splice (io_base iob) ?piece (io_buf iob)) iob1"
      using iobuf_move_in [of "4096 * k" iob "disk0_buffer ?d"] less.prems k l lp buf by auto
    have inv: "disk_inv blocks ?d" using less.prems(1) l lp k by (intro disk_inv_buffer) simp_all
    have "\<exists>iob' d'. disk0_loop iob1 False (4096 * (n - k)) (word_of_nat (b + k)) ?d = Some (iob', d') \<and>
      disk_inv blocks d' \<and> disk_img d' = disk_img ?d \<and>
      iob_done iob1 (4096 * (n - k))
        (splice (io_base iob1) (take (4096 * (n - k)) (drop (4096 * (b + k)) (disk_img ?d))) (io_buf iob1)) iob'"
      using less.prems k i1 lp by (intro less.IH [OF _ inv]) (auto simp: iob_done_def algebra_simps)
    then obtain iob2 d2 where
      rec: "disk0_loop iob1 False (4096 * (n - k)) (word_of_nat (b + k)) ?d = Some (iob2, d2)"
      and d2: "disk_inv blocks d2" "disk_img d2 = ?img"
      and i2: "iob_done iob1 (4096 * (n - k))
        (splice (io_base iob1) (take (4096 * (n - k)) (drop (4096 * (b + k)) ?img)) (io_buf iob1)) iob2"
      by auto
    have sub: "4096 * n - 4096 * k = 4096 * (n - k)" by (simp add: diff_mult_distrib2)
    have "disk0_loop iob False (4096 * n) (word_of_nat b) d = Some (iob2, d2)"
      using False k rd mv rec
      by (subst disk0_loop.simps)
         (simp add: alen Let_def DISK0_BLKSIZE_def sub flip: of_nat_add del: of_nat_add)
    moreover have "splice (io_base iob + 4096 * k) (take (4096 * (n - k)) (drop (4096 * (b + k)) ?img))
        (splice (io_base iob) ?piece (io_buf iob)) =
        splice (io_base iob) (take (4096 * n) (drop (4096 * b) ?img)) (io_buf iob)"
    proof -
      have "4096 * n = 4096 * k + 4096 * (n - k)" using k by simp
      then have "take (4096 * n) (drop (4096 * b) ?img) =
          ?piece @ take (4096 * (n - k)) (drop (4096 * (b + k)) ?img)"
        using take_drop_add [of "4096 * k" "4096 * (n - k)" "4096 * b" ?img] by (simp add: algebra_simps)
      then show ?thesis
        using splice_splice_append [of "io_base iob" ?piece
          "take (4096 * (n - k)) (drop (4096 * (b + k)) ?img)" "io_buf iob"] less.prems(4) k lp
        by (simp add: algebra_simps)
    qed
    ultimately show ?thesis
      using d2 i1 i2 k less.prems(3) by (auto simp: iob_done_def algebra_simps)
  qed
qed

lemma disk0_loop_write:
  assumes "disk_inv blocks d" and "b + n \<le> blocks" and "io_resid iob = 4096 * n"
    and "io_base iob + 4096 * n \<le> length (io_buf iob)"
  shows "\<exists>iob' d'. disk0_loop iob True (4096 * n) (word_of_nat b) d = Some (iob', d') \<and>
    disk_inv blocks d' \<and>
    disk_img d' = splice (4096 * b) (take (4096 * n) (drop (io_base iob) (io_buf iob))) (disk_img d) \<and>
    iob_done iob (4096 * n) (io_buf iob) iob'"
  using assms
proof (induction n arbitrary: b iob d rule: less_induct)
  case (less n)
  show ?case
  proof (cases "n = 0")
    case True
    then show ?thesis using less.prems by (subst disk0_loop.simps) (simp add: iob_done_def)
  next
    case False
    define k where "k = min 4 n"
    have k: "0 < k" "k \<le> 4" "k \<le> n" using False by (auto simp: k_def)
    have m: "4096 * k = min (io_resid iob) DISK0_BUFSIZE"
      using less.prems(3) by (auto simp: DISK0_BUFSIZE_def DISK0_BLKSIZE_def k_def min_def)
    let ?img = "disk_img d" and ?src = "drop (io_base iob) (io_buf iob)"
    let ?piece = "take (4096 * k) ?src"
    let ?d = "d\<lparr>disk0_buffer := splice 0 ?piece (disk0_buffer d)\<rparr>"
    have bk: "b + k \<le> blocks" using less.prems(2) k by simp
    have len: "4096 * (b + k) \<le> length ?img" by (rule sector_args(8) [OF less.prems(1) k(1,2) bk])
    have lp: "length ?piece = 4096 * k" using less.prems(4) k by simp
    have l: "length (disk0_buffer d) = 16384" using less.prems(1) by (simp add: disk_inv_def)
    obtain iob1 r where mv: "iobuf_move iob (disk0_buffer d) DISK0_BUFSIZE False =
          Some (r, 4096 * k, iob1, splice 0 ?piece (disk0_buffer d))"
      and i1: "iob_done iob (4096 * k) (io_buf iob) iob1"
      by (rule iobuf_move_out [OF m, of "disk0_buffer d"]) (use less.prems(4) k l in auto)
    have inv: "disk_inv blocks ?d" using less.prems(1) l lp k by (intro disk_inv_buffer) simp_all
    have buf: "take (4096 * k) (disk0_buffer ?d) = ?piece"
      using take_drop_splice [of 0 ?piece "disk0_buffer d"] l lp k by simp
    obtain d1 where wr: "disk0_write_blks_nolock (word_of_nat b) (word_of_nat k) ?d = Some d1"
      and img1: "disk_img d1 = splice (4096 * b) ?piece ?img" and inv1: "disk_inv blocks d1"
      using disk0_write_blks [OF inv k(1,2) bk] unfolding buf disk_img_buffer by blast
    let ?rest = "take (4096 * (n - k)) (drop (io_base iob1) (io_buf iob1))"
    obtain iob2 d2 where
      rec: "disk0_loop iob1 True (4096 * (n - k)) (word_of_nat (b + k)) d1 = Some (iob2, d2)"
      and inv2: "disk_inv blocks d2" and img2: "disk_img d2 = splice (4096 * (b + k)) ?rest (disk_img d1)"
      and i2: "iob_done iob1 (4096 * (n - k)) (io_buf iob1) iob2"
      using less.IH [of "n - k" d1 "b + k" iob1] less.prems k i1 inv1
      by (auto simp: iob_done_def algebra_simps)
    have sub: "4096 * n - 4096 * k = 4096 * (n - k)" by (simp add: diff_mult_distrib2)
    have "disk0_loop iob True (4096 * n) (word_of_nat b) d = Some (iob2, d2)"
      using False k mv wr rec
      by (subst disk0_loop.simps)
         (simp add: Let_def DISK0_BLKSIZE_def sub flip: of_nat_add del: of_nat_add)
    moreover have "disk_img d2 = splice (4096 * b) (take (4096 * n) ?src) ?img"
    proof -
      have n: "4096 * n = 4096 * k + 4096 * (n - k)" using k by simp
      have rest: "?rest = take (4096 * (n - k)) (drop (4096 * k) ?src)"
        using i1 by (simp add: iob_done_def algebra_simps)
      have "disk_inv blocks d2" by (rule inv2)
      have lr: "length ?rest = 4096 * (n - k)"
        using i1 less.prems(4) n by (simp add: iob_done_def)
      have "4096 * (b + n) \<le> length ?img"
        using disk_inv_blocks [OF less.prems(1)] less.prems(2)
        by (intro order_trans [OF mult_le_mono2 [OF less.prems(2)]]) (simp add: mult.commute)
      then have "splice (4096 * b + 4096 * k) ?rest (splice (4096 * b) ?piece ?img) =
          splice (4096 * b) (?piece @ ?rest) ?img"
        using splice_splice_append [of "4096 * b" ?piece ?rest ?img] lp lr n by simp
      moreover have "?piece @ ?rest = take (4096 * n) ?src"
        unfolding rest n by (simp add: take_add)
      ultimately show ?thesis unfolding img2 img1 by (simp add: algebra_simps)
    qed
    ultimately show ?thesis
      using inv2 i1 i2 k less.prems(3) by (auto simp: iob_done_def algebra_simps)
  qed
qed

text \<open>The arguments of an aligned request.\<close>

lemma disk0_request:
  assumes "io_offset iob = int (4096 * b)" and "io_resid iob = 4096 * n" and "b + n < 2 ^ 32"
  shows "word_of_int (io_offset iob div int DISK0_BLKSIZE) = (word_of_nat b :: u32)"
    and "word_of_nat (io_resid iob div DISK0_BLKSIZE) = (word_of_nat n :: u32)"
    and "io_offset iob mod int DISK0_BLKSIZE = 0" and "io_resid iob mod DISK0_BLKSIZE = 0"
    and "unat (word_of_nat b + word_of_nat n :: u32) = b + n"
    and "(word_of_nat n :: u32) = 0 \<longleftrightarrow> n = 0"
proof -
  show "word_of_int (io_offset iob div int DISK0_BLKSIZE) = (word_of_nat b :: u32)"
    using assms(1) by (simp add: DISK0_BLKSIZE_def)
  show "io_offset iob mod int DISK0_BLKSIZE = 0" "io_resid iob mod DISK0_BLKSIZE = 0"
    "word_of_nat (io_resid iob div DISK0_BLKSIZE) = (word_of_nat n :: u32)"
    using assms(1,2) by (simp_all add: DISK0_BLKSIZE_def)
  show "unat (word_of_nat b + word_of_nat n :: u32) = b + n"
    using unat_word_nat_u32 [OF assms(3)] by simp
  show "(word_of_nat n :: u32) = 0 \<longleftrightarrow> n = 0"
  proof
    assume "(word_of_nat n :: u32) = 0"
    then have "unat (word_of_nat n :: u32) = 0" by simp
    then show "n = 0" using unat_word_nat_u32 [of n] assms(3) by simp
  qed simp
qed

lemma disk0_io_read:
  assumes inv: "disk_inv blocks d" and b: "b + n \<le> blocks" and iob: "io_offset iob = int (4096 * b)"
    "io_resid iob = 4096 * n" "io_base iob + 4096 * n \<le> length (io_buf iob)"
  obtains iob' d' where "disk0_io blocks iob False d = Some (0, iob', d')" and "disk_inv blocks d'"
    and "disk_img d' = disk_img d"
    and "iob_done iob (4096 * n)
      (splice (io_base iob) (take (4096 * n) (drop (4096 * b) (disk_img d))) (io_buf iob)) iob'"
proof -
  have "b + n < 2 ^ 32" using b disk_inv_bound [OF inv] by simp
  note rq = disk0_request [OF iob(1,2) this]
  from disk0_loop_read [OF inv b iob(2,3)] obtain iob' d' where l:
    "disk0_loop iob False (4096 * n) (word_of_nat b) d = Some (iob', d')" "disk_inv blocks d'"
    "disk_img d' = disk_img d" "iob_done iob (4096 * n)
      (splice (io_base iob) (take (4096 * n) (drop (4096 * b) (disk_img d))) (io_buf iob)) iob'"
    by blast
  show thesis
  proof (cases "n = 0")
    case True
    then have "disk0_io blocks iob False d = Some (0, iob, d)"
      using rq b iob by (simp add: disk0_io_def)
    then show thesis using True inv by (intro that [of iob d]) (simp_all add: iob_done_def)
  next
    case False
    then have "disk0_io blocks iob False d = Some (0, iob', d')"
      using rq b iob l(1) by (simp add: disk0_io_def Let_def)
    then show thesis using l by (intro that)
  qed
qed

lemma disk0_io_write:
  assumes inv: "disk_inv blocks d" and b: "b + n \<le> blocks" and iob: "io_offset iob = int (4096 * b)"
    "io_resid iob = 4096 * n" "io_base iob + 4096 * n \<le> length (io_buf iob)"
  obtains iob' d' where "disk0_io blocks iob True d = Some (0, iob', d')" and "disk_inv blocks d'"
    and "disk_img d' = splice (4096 * b) (take (4096 * n) (drop (io_base iob) (io_buf iob))) (disk_img d)"
    and "iob_done iob (4096 * n) (io_buf iob) iob'"
proof -
  have "b + n < 2 ^ 32" using b disk_inv_bound [OF inv] by simp
  note rq = disk0_request [OF iob(1,2) this]
  from disk0_loop_write [OF inv b iob(2,3)] obtain iob' d' where l:
    "disk0_loop iob True (4096 * n) (word_of_nat b) d = Some (iob', d')" "disk_inv blocks d'"
    "disk_img d' = splice (4096 * b) (take (4096 * n) (drop (io_base iob) (io_buf iob))) (disk_img d)"
    "iob_done iob (4096 * n) (io_buf iob) iob'"
    by blast
  show thesis
  proof (cases "n = 0")
    case True
    then have "disk0_io blocks iob True d = Some (0, iob, d)"
      using rq b iob by (simp add: disk0_io_def)
    then show thesis using True inv by (intro that [of iob d]) (simp_all add: iob_done_def)
  next
    case False
    then have "disk0_io blocks iob True d = Some (0, iob', d')"
      using rq b iob l(1) by (simp add: disk0_io_def Let_def)
    then show thesis using l by (intro that)
  qed
qed

section \<open>The contract of a block device\<close>

text \<open>Block \<open>b\<close> of a disk image.\<close>

definition blk :: "u8 list \<Rightarrow> nat \<Rightarrow> u8 list" where
  "blk img b = take 4096 (drop (4096 * b) img)"

lemma length_blk: "4096 * Suc b \<le> length img \<Longrightarrow> length (blk img b) = 4096"
  by (simp add: blk_def)

lemma blk_splice:
  assumes "length bs = 4096" and "4096 * Suc b \<le> length img"
  shows "blk (splice (4096 * b) bs img) c = (if c = b then bs else blk img c)"
proof (cases "c = b")
  case True
  then show ?thesis using assms take_drop_splice [of "4096 * b" bs img] by (simp add: blk_def)
next
  case False
  have len: "length (splice (4096 * b) bs img) = length img" using assms by simp
  have "blk (splice (4096 * b) bs img) c = blk img c"
  proof (rule nth_equalityI)
    show "length (blk (splice (4096 * b) bs img) c) = length (blk img c)"
      by (simp add: blk_def len)
    fix i assume "i < length (blk (splice (4096 * b) bs img) c)"
    then have i: "i < 4096" "4096 * c + i < length img" by (auto simp: blk_def len)
    have "\<not> (4096 * b \<le> 4096 * c + i \<and> 4096 * c + i < 4096 * b + 4096)" using i False by arith
    then show "blk (splice (4096 * b) bs img) c ! i = blk img c ! i"
      using i assms by (simp add: blk_def nth_splice len)
  qed
  then show ?thesis using False by simp
qed

text \<open>What a file system relies on: an aligned transfer inside the device copies exactly the blocks
  asked for and succeeds; one that reaches past the end is refused without an effect.\<close>

locale block_device =
  fixes io :: "iobuf \<Rightarrow> bool \<Rightarrow> 'd \<Rightarrow> (int \<times> iobuf \<times> 'd) option"
    and dinv :: "'d \<Rightarrow> bool" and blocks :: nat and img :: "'d \<Rightarrow> u8 list"
  assumes inv_img: "dinv d \<Longrightarrow> 4096 * blocks \<le> length (img d)"
    and inv_few: "dinv d \<Longrightarrow> blocks < 2 ^ 20"
    and io_read: "dinv d \<Longrightarrow> b + n \<le> blocks \<Longrightarrow> io_offset iob = int (4096 * b) \<Longrightarrow>
      io_resid iob = 4096 * n \<Longrightarrow> io_base iob + 4096 * n \<le> length (io_buf iob) \<Longrightarrow>
      \<exists>iob' d'. io iob False d = Some (0, iob', d') \<and> dinv d' \<and> img d' = img d \<and>
        iob_done iob (4096 * n)
          (splice (io_base iob) (take (4096 * n) (drop (4096 * b) (img d))) (io_buf iob)) iob'"
    and io_write: "dinv d \<Longrightarrow> b + n \<le> blocks \<Longrightarrow> io_offset iob = int (4096 * b) \<Longrightarrow>
      io_resid iob = 4096 * n \<Longrightarrow> io_base iob + 4096 * n \<le> length (io_buf iob) \<Longrightarrow>
      \<exists>iob' d'. io iob True d = Some (0, iob', d') \<and> dinv d' \<and>
        img d' = splice (4096 * b) (take (4096 * n) (drop (io_base iob) (io_buf iob))) (img d) \<and>
        iob_done iob (4096 * n) (io_buf iob) iob'"
    and io_past: "blocks < b + n \<Longrightarrow> b + n < 2 ^ 32 \<Longrightarrow> io_offset iob = int (4096 * b) \<Longrightarrow>
      io_resid iob = 4096 * n \<Longrightarrow> io iob w d = Some (- E_INVAL, iob, d)"
begin

lemma read_block:
  assumes "dinv d" and "b < blocks" and "pos + 4096 \<le> length buf"
  obtains iob' d' where "io (iobuf_init buf pos 4096 (int (4096 * b))) False d = Some (0, iob', d')"
    and "dinv d'" and "img d' = img d" and "io_buf iob' = splice pos (blk (img d) b) buf"
  using io_read [of d b 1 "iobuf_init buf pos 4096 (int (4096 * b))"] assms
  by (auto simp: iobuf_init_def iob_done_def blk_def)

lemma write_block:
  assumes "dinv d" and "b < blocks" and "pos + 4096 \<le> length buf"
  obtains iob' d' where "io (iobuf_init buf pos 4096 (int (4096 * b))) True d = Some (0, iob', d')"
    and "dinv d'" and "io_buf iob' = buf"
    and "blk (img d') = (blk (img d))(b := take 4096 (drop pos buf))"
proof -
  obtain iob' d' where io: "io (iobuf_init buf pos 4096 (int (4096 * b))) True d = Some (0, iob', d')"
    and d': "dinv d'" "img d' = splice (4096 * b) (take 4096 (drop pos buf)) (img d)"
    and fin: "iob_done (iobuf_init buf pos 4096 (int (4096 * b))) 4096 buf iob'"
    using io_write [of d b 1 "iobuf_init buf pos 4096 (int (4096 * b))"] assms
    by (auto simp: iobuf_init_def)
  have len: "4096 * Suc b \<le> length (img d)"
    using inv_img [OF assms(1)] assms(2) by (intro order_trans [OF mult_le_mono2 [of "Suc b" blocks]]) simp_all
  show thesis
    by (rule that [OF io d'(1)])
       (use fin d'(2) len assms(3) in \<open>auto simp: iob_done_def blk_splice fun_eq_iff\<close>)
qed

lemma blk_length: "dinv d \<Longrightarrow> b < blocks \<Longrightarrow> length (blk (img d) b) = 4096"
  using inv_img [of d]
  by (intro length_blk order_trans [OF mult_le_mono2 [of "Suc b" blocks]]) simp_all

end

lemma disk0_io_past:
  assumes "blocks < b + n" and "b + n < 2 ^ 32" and "io_offset iob = int (4096 * b)"
    and "io_resid iob = 4096 * n"
  shows "disk0_io blocks iob w d = Some (- E_INVAL, iob, d)"
  using disk0_request [OF assms(3,4,2)] assms(1) by (simp add: disk0_io_def)

interpretation disk0: block_device "disk0_io blocks" "disk_inv blocks" blocks disk_img
  for blocks
proof unfold_locales
  fix d assume "disk_inv blocks d"
  then show "4096 * blocks \<le> length (disk_img d)" "blocks < 2 ^ 20"
    using disk_inv_blocks disk_inv_bound by (auto simp: mult.commute)
next
  fix d b n and iob :: iobuf
  assume a: "disk_inv blocks d" "b + n \<le> blocks" "io_offset iob = int (4096 * b)"
    "io_resid iob = 4096 * n" "io_base iob + 4096 * n \<le> length (io_buf iob)"
  show "\<exists>iob' d'. disk0_io blocks iob False d = Some (0, iob', d') \<and> disk_inv blocks d' \<and>
      disk_img d' = disk_img d \<and> iob_done iob (4096 * n)
        (splice (io_base iob) (take (4096 * n) (drop (4096 * b) (disk_img d))) (io_buf iob)) iob'"
    by (rule disk0_io_read [OF a]) blast
  show "\<exists>iob' d'. disk0_io blocks iob True d = Some (0, iob', d') \<and> disk_inv blocks d' \<and>
      disk_img d' = splice (4096 * b) (take (4096 * n) (drop (io_base iob) (io_buf iob))) (disk_img d) \<and>
      iob_done iob (4096 * n) (io_buf iob) iob'"
    by (rule disk0_io_write [OF a]) blast
next
  fix b n w and iob :: iobuf and d :: ide_state
  assume "blocks < b + n" "b + n < 2 ^ 32" "io_offset iob = int (4096 * b)" "io_resid iob = 4096 * n"
  then show "disk0_io blocks iob w d = Some (- E_INVAL, iob, d)" by (rule disk0_io_past)
qed

section \<open>Properties\<close>

text \<open>
  What is written to \<open>disk0\<close> is read back: a transfer of any number of blocks inside the disk,
  through the four-block buffer, stores exactly the caller's bytes in those blocks and no others, a
  later read of the same blocks returns them, and no assertion on the way fails. A request that
  reaches past the end of the disk is refused without an effect.
\<close>

theorem disk0_read_back:
  assumes inv: "disk_inv blocks d" and data: "length data = 4096 * n" and buf: "length buf = 4096 * n"
  shows "if b + n \<le> blocks then
      \<exists>iob1 d1 iob2 d2. disk0_io blocks (iobuf_init data 0 (4096 * n) (int (4096 * b))) True d = Some (0, iob1, d1) \<and>
        io_resid iob1 = 0 \<and>
        (\<forall>c. c < b \<or> b + n \<le> c \<longrightarrow> blk (disk_img d1) c = blk (disk_img d) c) \<and>
        disk0_io blocks (iobuf_init buf 0 (4096 * n) (int (4096 * b))) False d1 = Some (0, iob2, d2) \<and>
        io_buf iob2 = data \<and> disk_img d2 = disk_img d1
    else b + n < 2 ^ 32 \<longrightarrow>
      disk0_io blocks (iobuf_init data 0 (4096 * n) (int (4096 * b))) w d =
        Some (- E_INVAL, iobuf_init data 0 (4096 * n) (int (4096 * b)), d)"
proof (cases "b + n \<le> blocks")
  case True
  let ?w = "iobuf_init data 0 (4096 * n) (int (4096 * b))"
  let ?r = "iobuf_init buf 0 (4096 * n) (int (4096 * b))"
  obtain iob1 d1 where w: "disk0_io blocks ?w True d = Some (0, iob1, d1)" "disk_inv blocks d1"
    and img: "disk_img d1 = splice (4096 * b) data (disk_img d)" and wd: "iob_done ?w (4096 * n) data iob1"
    using disk0_io_write [OF inv True, of ?w] data by (auto simp: iobuf_init_def)
  have pr: "io_offset ?r = int (4096 * b)" "io_resid ?r = 4096 * n"
    "io_base ?r + 4096 * n \<le> length (io_buf ?r)"
    using buf by (simp_all add: iobuf_init_def)
  obtain iob2 d2 where r: "disk0_io blocks ?r False d1 = Some (0, iob2, d2)" "disk_img d2 = disk_img d1"
    and rd: "iob_done ?r (4096 * n)
      (splice (io_base ?r) (take (4096 * n) (drop (4096 * b) (disk_img d1))) (io_buf ?r)) iob2"
    using disk0.io_read [OF w(2) True pr] by blast
  have len: "4096 * b + 4096 * n \<le> length (disk_img d)"
    using disk0.inv_img [OF inv] mult_le_mono2 [OF True, of 4096] by simp
  have rb: "io_buf iob2 = data"
    using rd take_drop_splice [of "4096 * b" data "disk_img d"] len data buf
    by (simp add: iob_done_def img splice_whole iobuf_init_def)
  have other: "blk (disk_img d1) c = blk (disk_img d) c" if "c < b \<or> b + n \<le> c" for c
  proof (rule nth_equalityI)
    show "length (blk (disk_img d1) c) = length (blk (disk_img d) c)"
      using len data by (simp add: blk_def img)
    fix i assume "i < length (blk (disk_img d1) c)"
    then have i: "i < 4096" "4096 * c + i < length (disk_img d)"
      using len data by (auto simp: blk_def img)
    have "\<not> (4096 * b \<le> 4096 * c + i \<and> 4096 * c + i < 4096 * b + 4096 * n)" using i that by arith
    then show "blk (disk_img d1) c ! i = blk (disk_img d) c ! i"
      using i len data by (simp add: blk_def img nth_splice)
  qed
  show ?thesis using True w(1) r rb other wd
    by (simp add: iob_done_def iobuf_init_def)
next
  case False
  then show ?thesis using disk0_io_past [of blocks b n] by (simp add: iobuf_init_def)
qed

definition disk_sample :: ide_state where
  "disk_sample =
     \<lparr>ide_devices = (\<lambda>_. \<lparr>valid = True, dsize = 16, img_bytes = replicate 8192 0\<rparr>),
      disk0_buffer = replicate 16384 0\<rparr>"

theorem disk0_read_back_witness:
  "disk_inv 2 disk_sample \<and>
   (\<exists>iob1 d1 iob2 d2.
      disk0_io 2 (iobuf_init (replicate 4096 7) 0 4096 4096) True disk_sample = Some (0, iob1, d1) \<and>
      disk0_io 2 (iobuf_init (replicate 4096 0) 0 4096 4096) False d1 = Some (0, iob2, d2) \<and>
      io_buf iob2 = replicate 4096 7)"
proof -
  have inv: "disk_inv 2 disk_sample"
    by (simp add: disk_inv_def disk_sample_def disk_img_def)
  have "length (replicate 4096 (7 :: u8)) = 4096 * 1" "length (replicate 4096 (0 :: u8)) = 4096 * 1"
    by simp_all
  from disk0_read_back [OF inv this, of 1 True] inv show ?thesis
    by (simp only: ) auto
qed

end
