(* ===== verification/SfsLayout.thy ===== *)
theory SfsLayout
  imports FsBase
begin

text \<open>
  The on-disk structures of the simple file system, \<open>lab8/kern/fs/sfs/sfs.h\<close>, and their bytes: the
  machine is little-endian and every field of the three structures is naturally aligned, so a
  structure is the concatenation of its fields. The code copies structures to and from blocks with
  \<open>memcpy\<close>; the encoders and decoders here are those copies.
\<close>

section \<open>Words as bytes\<close>

type_synonym u16 = "16 word"

definition u16_bytes :: "u16 \<Rightarrow> u8 list" where
  "u16_bytes w = [ucast w, ucast (drop_bit 8 w)]"

definition u32_bytes :: "u32 \<Rightarrow> u8 list" where
  "u32_bytes w = [ucast w, ucast (drop_bit 8 w), ucast (drop_bit 16 w), ucast (drop_bit 24 w)]"

fun u16_of :: "u8 list \<Rightarrow> u16" where
  "u16_of (a # b # _) = ucast a OR push_bit 8 (ucast b)"
| "u16_of _ = 0"

fun u32_of :: "u8 list \<Rightarrow> u32" where
  "u32_of (a # b # c # d # _) =
     ucast a OR push_bit 8 (ucast b) OR push_bit 16 (ucast c) OR push_bit 24 (ucast d)"
| "u32_of _ = 0"

lemma length_u16_bytes [simp]: "length (u16_bytes w) = 2"
  by (simp add: u16_bytes_def)

lemma length_u32_bytes [simp]: "length (u32_bytes w) = 4"
  by (simp add: u32_bytes_def)

lemma u16_of_bytes [simp]: "u16_of (u16_bytes w @ bs) = w"
proof (rule bit_word_eqI)
  fix n assume n: "n < LENGTH(16)"
  then consider "n < 8" | "8 \<le> n" "n < 16" by fastforce
  then show "bit (u16_of (u16_bytes w @ bs)) n = bit w n"
    by cases (use n in \<open>auto simp: u16_bytes_def bit_simps\<close>)
qed

lemma u32_of_bytes [simp]: "u32_of (u32_bytes w @ bs) = w"
proof (rule bit_word_eqI)
  fix n assume n: "n < LENGTH(32)"
  then consider "n < 8" | "8 \<le> n" "n < 16" | "16 \<le> n" "n < 24" | "24 \<le> n" "n < 32" by fastforce
  then show "bit (u32_of (u32_bytes w @ bs)) n = bit w n"
    by cases (use n in \<open>auto simp: u32_bytes_def bit_simps\<close>)
qed

lemma u32_of_bytes' [simp]: "u32_of (u32_bytes w) = w"
  using u32_of_bytes [of w "[]"] by simp

lemma u32_bytes_of: "length bs = 4 \<Longrightarrow> u32_bytes (u32_of bs) = bs"
proof -
  assume "length bs = 4"
  then obtain a b c d where bs: "bs = [a, b, c, d]"
    by (auto simp: numeral_eq_Suc length_Suc_conv)
  have "ucast (u32_of bs) = a" "ucast (drop_bit 8 (u32_of bs)) = b"
    "ucast (drop_bit 16 (u32_of bs)) = c" "ucast (drop_bit 24 (u32_of bs)) = d"
    by (rule bit_word_eqI, auto simp: bs bit_simps dest: bit_imp_le_length)+
  then show ?thesis by (simp add: u32_bytes_def bs)
qed

text \<open>Arrays of 32-bit words.\<close>

definition words_bytes :: "u32 list \<Rightarrow> u8 list" where
  "words_bytes ws = concat (map u32_bytes ws)"

primrec words_of :: "nat \<Rightarrow> u8 list \<Rightarrow> u32 list" where
  "words_of 0 bs = []"
| "words_of (Suc n) bs = u32_of bs # words_of n (drop 4 bs)"

lemma length_words_of [simp]: "length (words_of n bs) = n"
  by (induction n arbitrary: bs) auto

lemma length_words_bytes [simp]: "length (words_bytes ws) = 4 * length ws"
  by (induction ws) (auto simp: words_bytes_def)

lemma words_of_bytes [simp]: "words_of (length ws) (words_bytes ws @ bs) = ws"
  by (induction ws) (auto simp: words_bytes_def)

lemma words_of_nth: "i < n \<Longrightarrow> words_of n bs ! i = u32_of (drop (4 * i) bs)"
  by (induction n arbitrary: i bs) (auto simp: nth_Cons' Suc_le_eq algebra_simps split: if_splits)

text \<open>Storing one word of an array.\<close>

lemma u32_of_take: "u32_of (take 4 bs) = u32_of bs"
  by (cases bs rule: u32_of.cases) (auto simp: numeral_eq_Suc)

lemma words_of_splice:
  assumes "4 * n \<le> length bs" and "i < n"
  shows "words_of n (splice (4 * i) (u32_bytes w) bs) = (words_of n bs)[i := w]"
proof (rule nth_equalityI)
  fix j assume "j < length (words_of n (splice (4 * i) (u32_bytes w) bs))"
  then have j: "j < n" by simp
  let ?bs = "splice (4 * i) (u32_bytes w) bs"
  have "take 4 (drop (4 * j) ?bs) = (if j = i then u32_bytes w else take 4 (drop (4 * j) bs))"
  proof (cases "j = i")
    case True
    then show ?thesis using assms take_drop_splice [of "4 * i" "u32_bytes w" bs] by simp
  next
    case False
    then have "4 * j + 4 \<le> 4 * i \<or> 4 * i + 4 \<le> 4 * j" by arith
    then show ?thesis
      using False assms take_drop_splice_other [of "4 * i" "u32_bytes w" bs "4 * j" 4] by simp
  qed
  then have "u32_of (drop (4 * j) ?bs) = (if j = i then w else u32_of (drop (4 * j) bs))"
    by (metis u32_of_take u32_of_bytes')
  then show "words_of n ?bs ! j = (words_of n bs)[i := w] ! j"
    using j by (simp add: words_of_nth nth_list_update)
qed simp

section \<open>The structures\<close>

definition SFS_MAGIC :: u32 where "SFS_MAGIC = 0x2f8dbe2a"
definition SFS_BLKSIZE :: nat where "SFS_BLKSIZE = 4096"
definition SFS_NDIRECT :: nat where "SFS_NDIRECT = 12"
definition SFS_MAX_INFO_LEN :: nat where "SFS_MAX_INFO_LEN = 31"
definition SFS_MAX_FNAME_LEN :: nat where "SFS_MAX_FNAME_LEN = 255"
definition SFS_MAX_FILE_SIZE :: nat where "SFS_MAX_FILE_SIZE = 1024 * 1024 * 128"
definition SFS_BLKN_SUPER :: u32 where "SFS_BLKN_SUPER = 0"
definition SFS_BLKN_ROOT :: u32 where "SFS_BLKN_ROOT = 1"
definition SFS_BLKN_FREEMAP :: u32 where "SFS_BLKN_FREEMAP = 2"
definition SFS_BLKBITS :: nat where "SFS_BLKBITS = SFS_BLKSIZE * 8"
definition SFS_BLK_NENTRY :: nat where "SFS_BLK_NENTRY = SFS_BLKSIZE div 4"
definition SFS_TYPE_FILE :: u16 where "SFS_TYPE_FILE = 1"
definition SFS_TYPE_DIR :: u16 where "SFS_TYPE_DIR = 2"
definition SFS_TYPE_LINK :: u16 where "SFS_TYPE_LINK = 3"

record sfs_super =
  magic :: u32
  sblocks :: u32  \<comment> \<open>\<open>blocks\<close>\<close>
  unused_blocks :: u32
  info :: "u8 list"

record sfs_disk_inode =
  fsize :: u32    \<comment> \<open>\<open>size\<close>\<close>
  ftype :: u16    \<comment> \<open>\<open>type\<close>\<close>
  nlinks :: u16
  fblocks :: u32  \<comment> \<open>\<open>blocks\<close>\<close>
  direct :: "u32 list"
  indirect :: u32

record sfs_disk_entry =
  eino :: u32     \<comment> \<open>\<open>ino\<close>\<close>
  ename :: "u8 list"

definition super_bytes :: "sfs_super \<Rightarrow> u8 list" where
  "super_bytes s = u32_bytes (magic s) @ u32_bytes (sblocks s) @ u32_bytes (unused_blocks s) @ info s"

definition super_of :: "u8 list \<Rightarrow> sfs_super" where
  "super_of bs = \<lparr>magic = u32_of bs, sblocks = u32_of (drop 4 bs), unused_blocks = u32_of (drop 8 bs),
                  info = take 32 (drop 12 bs)\<rparr>"

definition din_bytes :: "sfs_disk_inode \<Rightarrow> u8 list" where
  "din_bytes d = u32_bytes (fsize d) @ u16_bytes (ftype d) @ u16_bytes (nlinks d) @
     u32_bytes (fblocks d) @ words_bytes (direct d) @ u32_bytes (indirect d)"

definition din_of :: "u8 list \<Rightarrow> sfs_disk_inode" where
  "din_of bs = \<lparr>fsize = u32_of bs, ftype = u16_of (drop 4 bs), nlinks = u16_of (drop 6 bs),
     fblocks = u32_of (drop 8 bs), direct = words_of SFS_NDIRECT (drop 12 bs),
     indirect = u32_of (drop 60 bs)\<rparr>"

definition entry_bytes :: "sfs_disk_entry \<Rightarrow> u8 list" where
  "entry_bytes e = u32_bytes (eino e) @ ename e"

definition entry_of :: "u8 list \<Rightarrow> sfs_disk_entry" where
  "entry_of bs = \<lparr>eino = u32_of bs, ename = take (SFS_MAX_FNAME_LEN + 1) (drop 4 bs)\<rparr>"

text \<open>Sizes of the structures.\<close>

definition sizeof_super :: nat where "sizeof_super = 44"
definition sizeof_din :: nat where "sizeof_din = 64"
definition sizeof_entry :: nat where "sizeof_entry = 260"

definition sfs_dentry_size :: nat where "sfs_dentry_size = SFS_MAX_FNAME_LEN + 1"

lemma length_super_bytes: "length (info s) = 32 \<Longrightarrow> length (super_bytes s) = sizeof_super"
  by (simp add: super_bytes_def sizeof_super_def)

lemma length_din_bytes: "length (direct d) = 12 \<Longrightarrow> length (din_bytes d) = sizeof_din"
  by (simp add: din_bytes_def sizeof_din_def)

lemma length_entry_bytes: "length (ename e) = 256 \<Longrightarrow> length (entry_bytes e) = sizeof_entry"
  by (simp add: entry_bytes_def sizeof_entry_def)

lemma super_of_bytes: "length (info s) = 32 \<Longrightarrow> super_of (super_bytes s @ bs) = s"
  by (simp add: super_of_def super_bytes_def)

lemma din_of_bytes: "length (direct d) = 12 \<Longrightarrow> din_of (din_bytes d @ bs) = d"
  using words_of_bytes [of "direct d" "u32_bytes (indirect d) @ bs"]
  by (simp add: din_of_def din_bytes_def SFS_NDIRECT_def)

lemma entry_of_bytes: "length (ename e) = 256 \<Longrightarrow> entry_of (entry_bytes e @ bs) = e"
  by (simp add: entry_of_def entry_bytes_def SFS_MAX_FNAME_LEN_def)

section \<open>Properties\<close>

text \<open>
  Every on-disk structure survives the way through a block: writing its bytes at the start of a
  block and decoding them again gives the structure, whatever the rest of the block holds.
\<close>

theorem layout_roundtrip:
  assumes "length (info s) = SFS_MAX_INFO_LEN + 1" and "length (direct d) = SFS_NDIRECT"
    and "length (ename e) = SFS_MAX_FNAME_LEN + 1"
  shows "super_of (splice 0 (super_bytes s) block) = s \<and>
    din_of (splice 0 (din_bytes d) block) = d \<and>
    entry_of (splice 0 (entry_bytes e) block) = e"
  using assms by (simp add: splice_def super_of_bytes din_of_bytes entry_of_bytes SFS_NDIRECT_def
      SFS_MAX_FNAME_LEN_def SFS_MAX_INFO_LEN_def)

theorem layout_roundtrip_witness:
  "super_of (splice 0 (super_bytes
      \<lparr>magic = SFS_MAGIC, sblocks = 40, unused_blocks = 30, info = replicate 32 65\<rparr>) (replicate 4096 0)) =
    \<lparr>magic = SFS_MAGIC, sblocks = 40, unused_blocks = 30, info = replicate 32 65\<rparr> \<and>
   din_of (splice 0 (din_bytes \<lparr>fsize = 5000, ftype = SFS_TYPE_FILE, nlinks = 1, fblocks = 2,
      direct = [9, 10] @ replicate 10 0, indirect = 0\<rparr>) (replicate 4096 0)) =
    \<lparr>fsize = 5000, ftype = SFS_TYPE_FILE, nlinks = 1, fblocks = 2,
      direct = [9, 10] @ replicate 10 0, indirect = 0\<rparr> \<and>
   entry_of (splice 0 (entry_bytes \<lparr>eino = 7, ename = replicate 256 97\<rparr>) (replicate 4096 0)) =
    \<lparr>eino = 7, ename = replicate 256 97\<rparr>"
  by (rule layout_roundtrip)
     (simp_all add: SFS_MAX_INFO_LEN_def SFS_NDIRECT_def SFS_MAX_FNAME_LEN_def)

end
