(* ===== verification/SfsIo.thy ===== *)
theory SfsIo
  imports Bitmap BlockDev SfsLayout
begin

text \<open>
  The file system's state and its block-level operations: \<open>lab8/kern/fs/sfs/sfs_io.c\<close> and the block
  allocation of \<open>sfs_inode.c\<close>. The semaphores around them serialise the operations; each operation
  is one step here.

  The state holds the device with its operations and the device's own state, so the model is over
  any block device; the lemmas are proved in the context of \<open>block_device\<close>.
\<close>

section \<open>The state of a mounted file system\<close>

record 'd sfs_fs =
  super :: sfs_super
  dev :: "'d device"
  dstate :: 'd               \<comment> \<open>the state of the device\<close>
  freemap :: bitmap
  super_dirty :: bool
  sfs_buffer :: "u8 list"
  inode_list :: "nat list"   \<comment> \<open>the inodes in memory\<close>
  hash_list :: "nat \<Rightarrow> nat list"

section \<open>Block transfers\<close>

definition ret_res :: "int \<Rightarrow> unit res" where
  "ret_res ret = (if ret = 0 then Inr () else Inl ret)"

text \<open>\<open>buf\<close> and \<open>pos\<close> are the caller's pointer. The product \<open>blkno * SFS_BLKSIZE\<close> is taken in 32 bits.\<close>

definition sfs_rwblock_nolock ::
  "'d sfs_fs \<Rightarrow> u8 list \<Rightarrow> nat \<Rightarrow> u32 \<Rightarrow> bool \<Rightarrow> bool \<Rightarrow> (unit res \<times> u8 list \<times> 'd sfs_fs) option" where
  "sfs_rwblock_nolock sfs buf pos blkno write check = do {
     kassert ((blkno \<noteq> 0 \<or> \<not> check) \<and> blkno < sblocks (super sfs));
     let iob = iobuf_init buf pos SFS_BLKSIZE (uint (blkno * word_of_nat SFS_BLKSIZE));
     (ret, iob, d) \<leftarrow> d_io (dev sfs) iob write (dstate sfs);
     Some (ret_res ret, io_buf iob, sfs\<lparr>dstate := d\<rparr>)
   }"

primrec sfs_rwblock ::
  "nat \<Rightarrow> 'd sfs_fs \<Rightarrow> u8 list \<Rightarrow> nat \<Rightarrow> u32 \<Rightarrow> bool \<Rightarrow> (unit res \<times> u8 list \<times> 'd sfs_fs) option" where
  "sfs_rwblock 0 sfs buf pos blkno write = Some (Inr (), buf, sfs)"
| "sfs_rwblock (Suc nblks) sfs buf pos blkno write =
     on_ok (sfs_rwblock_nolock sfs buf pos blkno write True)
       (\<lambda>_ (buf, sfs). sfs_rwblock nblks sfs buf (pos + SFS_BLKSIZE) (blkno + 1) write)"

definition sfs_rblock ::
  "'d sfs_fs \<Rightarrow> u8 list \<Rightarrow> nat \<Rightarrow> u32 \<Rightarrow> nat \<Rightarrow> (unit res \<times> u8 list \<times> 'd sfs_fs) option" where
  "sfs_rblock sfs buf pos blkno nblks = sfs_rwblock nblks sfs buf pos blkno False"

definition sfs_wblock ::
  "'d sfs_fs \<Rightarrow> u8 list \<Rightarrow> nat \<Rightarrow> u32 \<Rightarrow> nat \<Rightarrow> (unit res \<times> u8 list \<times> 'd sfs_fs) option" where
  "sfs_wblock sfs buf pos blkno nblks = sfs_rwblock nblks sfs buf pos blkno True"

text \<open>\<open>sfs_rbuf\<close> and \<open>sfs_wbuf\<close> go through \<open>sfs_buffer\<close>. Both transfer \<open>len\<close> bytes at
  \<open>buf + pos\<close>; \<open>sfs_rbuf\<close> changes them, \<open>sfs_wbuf\<close> returns the buffer as it is.\<close>

definition sfs_rbuf ::
  "'d sfs_fs \<Rightarrow> u8 list \<Rightarrow> nat \<Rightarrow> nat \<Rightarrow> u32 \<Rightarrow> nat \<Rightarrow> (unit res \<times> u8 list \<times> 'd sfs_fs) option" where
  "sfs_rbuf sfs buf pos len blkno offset = do {
     kassert (offset < SFS_BLKSIZE \<and> offset + len \<le> SFS_BLKSIZE);
     (ret, sb, sfs) \<leftarrow> sfs_rwblock_nolock sfs (sfs_buffer sfs) 0 blkno False True;
     let sfs = sfs\<lparr>sfs_buffer := sb\<rparr> in
     case ret of
       Inr _ \<Rightarrow> do {
         kassert (pos + len \<le> length buf);
         Some (Inr (), splice pos (take len (drop offset sb)) buf, sfs)
       }
     | Inl e \<Rightarrow> Some (Inl e, buf, sfs)
   }"

definition sfs_wbuf ::
  "'d sfs_fs \<Rightarrow> u8 list \<Rightarrow> nat \<Rightarrow> nat \<Rightarrow> u32 \<Rightarrow> nat \<Rightarrow> (unit res \<times> u8 list \<times> 'd sfs_fs) option" where
  "sfs_wbuf sfs buf pos len blkno offset = do {
     kassert (offset < SFS_BLKSIZE \<and> offset + len \<le> SFS_BLKSIZE);
     (ret, sb, sfs) \<leftarrow> sfs_rwblock_nolock sfs (sfs_buffer sfs) 0 blkno False True;
     let sfs = sfs\<lparr>sfs_buffer := sb\<rparr> in
     case ret of
       Inr _ \<Rightarrow> do {
         kassert (pos + len \<le> length buf);
         let sb = splice offset (take len (drop pos buf)) sb;
         (ret, sb, sfs) \<leftarrow> sfs_rwblock_nolock (sfs\<lparr>sfs_buffer := sb\<rparr>) sb 0 blkno True True;
         Some (ret, buf, sfs\<lparr>sfs_buffer := sb\<rparr>)
       }
     | Inl e \<Rightarrow> Some (Inl e, buf, sfs)
   }"

definition sfs_sync_super :: "'d sfs_fs \<Rightarrow> (unit res \<times> 'd sfs_fs) option" where
  "sfs_sync_super sfs =
     (let sb = splice 0 (super_bytes (super sfs)) (replicate SFS_BLKSIZE 0) in do {
        (ret, sb, sfs) \<leftarrow> sfs_rwblock_nolock (sfs\<lparr>sfs_buffer := sb\<rparr>) sb 0 SFS_BLKN_SUPER True False;
        Some (ret, sfs\<lparr>sfs_buffer := sb\<rparr>)
      })"

text \<open>Sizes of the freemap, \<open>sfs.h\<close>.\<close>

definition sfs_freemap_blocks :: "sfs_super \<Rightarrow> nat" where
  "sfs_freemap_blocks s = ROUNDUP_DIV (unat (sblocks s)) SFS_BLKBITS"

definition sfs_freemap_bits :: "sfs_super \<Rightarrow> nat" where
  "sfs_freemap_bits s =
     (let a = unat (sblocks s) + SFS_BLKBITS - 1 in
      unat (word_of_nat (a - a mod SFS_BLKBITS) :: u32))"

definition sfs_sync_freemap :: "'d sfs_fs \<Rightarrow> (unit res \<times> 'd sfs_fs) option" where
  "sfs_sync_freemap sfs = do {
     let nblks = sfs_freemap_blocks (super sfs);
     (ret, _, sfs) \<leftarrow> sfs_wblock sfs (words_bytes (fst (bitmap_getdata (freemap sfs)))) 0 SFS_BLKN_FREEMAP nblks;
     Some (ret, sfs)
   }"

text \<open>The loop of \<open>sfs_clear_block\<close> over a \<open>sfs_buffer\<close> of zeros. With \<open>nblks = 0\<close> the C code
  returns an uninitialised variable; every caller passes 1.\<close>

primrec clear_loop :: "nat \<Rightarrow> 'd sfs_fs \<Rightarrow> u32 \<Rightarrow> (unit res \<times> 'd sfs_fs) option" where
  "clear_loop 0 sfs blkno = Some (Inr (), sfs)"
| "clear_loop (Suc nblks) sfs blkno = do {
     (ret, sb, sfs) \<leftarrow> sfs_rwblock_nolock sfs (sfs_buffer sfs) 0 blkno True True;
     on_ok (Some (ret, sfs\<lparr>sfs_buffer := sb\<rparr>)) (\<lambda>_ sfs. clear_loop nblks sfs (blkno + 1))
   }"

definition sfs_clear_block :: "'d sfs_fs \<Rightarrow> u32 \<Rightarrow> nat \<Rightarrow> (unit res \<times> 'd sfs_fs) option" where
  "sfs_clear_block sfs blkno nblks =
     clear_loop nblks (sfs\<lparr>sfs_buffer := replicate SFS_BLKSIZE 0\<rparr>) blkno"

section \<open>Block allocation\<close>

definition sfs_block_inuse :: "'d sfs_fs \<Rightarrow> u32 \<Rightarrow> bool option" where
  "sfs_block_inuse sfs ino =
     (if ino \<noteq> 0 \<and> ino < sblocks (super sfs)
      then do { b \<leftarrow> bitmap_test (freemap sfs) ino; Some (\<not> b) }
      else None)"

text \<open>\<open>assert(sfs_block_inuse(sfs, ino))\<close>.\<close>

definition assert_inuse :: "'d sfs_fs \<Rightarrow> u32 \<Rightarrow> unit option" where
  "assert_inuse sfs ino = do { b \<leftarrow> sfs_block_inuse sfs ino; kassert b }"

definition sfs_block_alloc :: "'d sfs_fs \<Rightarrow> (u32 res \<times> 'd sfs_fs) option" where
  "sfs_block_alloc sfs = do {
     (r, fm) \<leftarrow> bitmap_alloc (freemap sfs);
     case r of
       Inl e \<Rightarrow> Some (Inl e, sfs\<lparr>freemap := fm\<rparr>)
     | Inr ino \<Rightarrow> do {
         kassert (unused_blocks (super sfs) > 0);
         let sfs = sfs\<lparr>freemap := fm, super_dirty := True,
                       super := (super sfs)\<lparr>unused_blocks := unused_blocks (super sfs) - 1\<rparr>\<rparr>;
         assert_inuse sfs ino;
         on_ok (sfs_clear_block sfs ino 1) (\<lambda>_ sfs. Some (Inr ino, sfs))
       }
   }"

definition sfs_block_free :: "'d sfs_fs \<Rightarrow> u32 \<Rightarrow> 'd sfs_fs option" where
  "sfs_block_free sfs ino = do {
     assert_inuse sfs ino;
     fm \<leftarrow> bitmap_free (freemap sfs) ino;
     Some (sfs\<lparr>freemap := fm, super_dirty := True,
               super := (super sfs)\<lparr>unused_blocks := unused_blocks (super sfs) + 1\<rparr>\<rparr>)
   }"

section \<open>What the operations rely on and keep\<close>

definition fs_free :: "'d sfs_fs \<Rightarrow> nat set" where
  "fs_free s = bm_free (freemap s)"

definition view :: "('d \<Rightarrow> u8 list) \<Rightarrow> 'd sfs_fs \<Rightarrow> nat \<Rightarrow> u8 list" where
  "view img s b = blk (img (dstate s)) b"

text \<open>The invariant: the device is the one of the contract and holds all blocks, no free block is
  reserved or out of range, and \<open>unused_blocks\<close> counts the free blocks.\<close>

definition fs_ok ::
  "(iobuf \<Rightarrow> bool \<Rightarrow> 'd \<Rightarrow> (int \<times> iobuf \<times> 'd) option) \<Rightarrow> ('d \<Rightarrow> bool) \<Rightarrow> nat \<Rightarrow> 'd sfs_fs \<Rightarrow> bool" where
  "fs_ok io dinv nb s \<longleftrightarrow> d_io (dev s) = io \<and> dinv (dstate s) \<and> length (sfs_buffer s) = 4096 \<and>
     unat (sblocks (super s)) \<le> nb \<and> bm_wf (freemap s) \<and> sblocks (super s) \<le> nbits (freemap s) \<and>
     fs_free s \<subseteq> {0 <..< unat (sblocks (super s))} \<and>
     unat (unused_blocks (super s)) = card (fs_free s)"

text \<open>What no block operation changes.\<close>

definition fs_frame :: "'d sfs_fs \<Rightarrow> 'd sfs_fs \<Rightarrow> bool" where
  "fs_frame s s' \<longleftrightarrow> dev s' = dev s \<and> sblocks (super s') = sblocks (super s) \<and>
     inode_list s' = inode_list s \<and> hash_list s' = hash_list s"

definition used :: "'d sfs_fs \<Rightarrow> u32 \<Rightarrow> bool" where
  "used s b \<longleftrightarrow> b \<noteq> 0 \<and> b < sblocks (super s) \<and> unat b \<notin> fs_free s"

lemma fs_frame_refl [simp]: "fs_frame s s"
  by (simp add: fs_frame_def)

lemma fs_frame_trans [trans]: "fs_frame s t \<Longrightarrow> fs_frame t u \<Longrightarrow> fs_frame s u"
  by (simp add: fs_frame_def)

lemma used_frame: "fs_frame s s' \<Longrightarrow> fs_free s' \<subseteq> fs_free s \<Longrightarrow> used s b \<Longrightarrow> used s' b"
  by (auto simp: used_def fs_frame_def)

lemma fs_ok_finite: "fs_ok io dinv nb s \<Longrightarrow> finite (fs_free s)"
  by (simp add: fs_free_def)

lemma fs_ok_bm: "fs_ok io dinv nb s \<Longrightarrow> bm_wf (freemap s)"
  by (simp add: fs_ok_def)

lemma assert_inuse_iff:
  assumes "fs_ok io dinv nb s"
  shows "assert_inuse s b = (if used s b then Some () else None)"
proof (cases "b \<noteq> 0 \<and> b < sblocks (super s)")
  case True
  then have "b < nbits (freemap s)" using assms by (auto simp: fs_ok_def)
  then show ?thesis using True bitmap_test_iff [OF fs_ok_bm [OF assms], of b]
    by (simp add: assert_inuse_def sfs_block_inuse_def used_def fs_free_def kassert_def)
next
  case False
  then show ?thesis by (auto simp: assert_inuse_def sfs_block_inuse_def used_def)
qed

context block_device
begin

lemma block_offset:
  assumes "fs_ok io dinv blocks s" and "b < sblocks (super s)"
  shows "unat b < blocks" and "uint (b * word_of_nat SFS_BLKSIZE) = int (4096 * unat b)"
proof -
  have nb: "unat (sblocks (super s)) \<le> blocks" and i: "dinv (dstate s)"
    using assms(1) by (simp_all add: fs_ok_def)
  show b: "unat b < blocks" using assms(2) nb by (simp add: word_less_nat_alt)
  have "unat b * 4096 < 2 ^ 32" using b inv_few [OF i] by simp
  then have "unat (b * word_of_nat SFS_BLKSIZE) = unat b * 4096"
    by (simp add: SFS_BLKSIZE_def unat_word_ariths(2))
  then show "uint (b * word_of_nat SFS_BLKSIZE) = int (4096 * unat b)"
    by (simp only: uint_nat mult.commute)
qed

lemma fs_ok_io:
  "fs_ok io dinv blocks s \<Longrightarrow> dinv d \<Longrightarrow> length sb = 4096 \<Longrightarrow>
    fs_ok io dinv blocks (s\<lparr>dstate := d, sfs_buffer := sb\<rparr>)"
  by (simp add: fs_ok_def fs_free_def)

lemma rwblock_read:
  assumes ok: "fs_ok io dinv blocks s" and b: "b < sblocks (super s)" "b \<noteq> 0 \<or> \<not> check"
    and buf: "pos + 4096 \<le> length buf"
  obtains d' where "sfs_rwblock_nolock s buf pos b False check =
      Some (Inr (), splice pos (view img s (unat b)) buf, s\<lparr>dstate := d'\<rparr>)"
    and "dinv d'" and "img d' = img (dstate s)"
proof -
  note o = block_offset [OF ok b(1)]
  have i: "dinv (dstate s)" and io: "d_io (dev s) = io" using ok by (simp_all add: fs_ok_def)
  obtain iob' d' where "io (iobuf_init buf pos 4096 (int (4096 * unat b))) False (dstate s) = Some (0, iob', d')"
    "dinv d'" "img d' = img (dstate s)" "io_buf iob' = splice pos (blk (img (dstate s)) (unat b)) buf"
    by (rule read_block [OF i o(1) buf])
  then show thesis
    using b o(2) io
    by (intro that [of d']) (simp_all add: sfs_rwblock_nolock_def ret_res_def view_def SFS_BLKSIZE_def)
qed

lemma rwblock_write:
  assumes ok: "fs_ok io dinv blocks s" and b: "b < sblocks (super s)" "b \<noteq> 0 \<or> \<not> check"
    and buf: "pos + 4096 \<le> length buf"
  obtains d' where "sfs_rwblock_nolock s buf pos b True check = Some (Inr (), buf, s\<lparr>dstate := d'\<rparr>)"
    and "dinv d'" and "blk (img d') = (view img s)(unat b := take 4096 (drop pos buf))"
proof -
  note o = block_offset [OF ok b(1)]
  have i: "dinv (dstate s)" and io: "d_io (dev s) = io" using ok by (simp_all add: fs_ok_def)
  obtain iob' d' where w: "io (iobuf_init buf pos 4096 (int (4096 * unat b))) True (dstate s) = Some (0, iob', d')"
    "dinv d'" "io_buf iob' = buf"
    and v: "blk (img d') = (blk (img (dstate s)))(unat b := take 4096 (drop pos buf))"
    by (rule write_block [OF i o(1) buf])
  have "blk (img d') = (view img s)(unat b := take 4096 (drop pos buf))"
    by (simp add: v view_def fun_eq_iff)
  then show thesis
    using w b o(2) io
    by (intro that [of d']) (simp_all add: sfs_rwblock_nolock_def ret_res_def SFS_BLKSIZE_def)
qed

lemma view_length:
  "fs_ok io dinv blocks s \<Longrightarrow> b < sblocks (super s) \<Longrightarrow> length (view img s (unat b)) = 4096"
  using block_offset(1) [of s b] blk_length [of "dstate s"] by (simp add: view_def fs_ok_def)

text \<open>Reading and writing part of a block.\<close>

lemma rbuf_ok:
  assumes ok: "fs_ok io dinv blocks s" and b: "b < sblocks (super s)" "b \<noteq> 0"
    and off: "off < 4096" "off + len \<le> 4096" and buf: "pos + len \<le> length buf"
  obtains d' sb where "sfs_rbuf s buf pos len b off =
      Some (Inr (), splice pos (take len (drop off (view img s (unat b)))) buf,
        s\<lparr>dstate := d', sfs_buffer := sb\<rparr>)"
    and "dinv d'" and "length sb = 4096" and "blk (img d') = view img s"
proof -
  have l: "length (sfs_buffer s) = 4096" using ok by (simp add: fs_ok_def)
  obtain d' where r: "sfs_rwblock_nolock s (sfs_buffer s) 0 b False True =
      Some (Inr (), splice 0 (view img s (unat b)) (sfs_buffer s), s\<lparr>dstate := d'\<rparr>)"
    and d': "dinv d'" "img d' = img (dstate s)"
    by (rule rwblock_read [OF ok b(1), of True 0 "sfs_buffer s"]) (use b l in auto)
  have sb: "splice 0 (view img s (unat b)) (sfs_buffer s) = view img s (unat b)"
    using view_length [OF ok b(1)] l by (simp add: splice_whole)
  show thesis
    by (rule that [of "view img s (unat b)" d'])
       (use r sb d' off buf view_length [OF ok b(1)] in
         \<open>simp_all add: sfs_rbuf_def SFS_BLKSIZE_def view_def fun_eq_iff\<close>)
qed

lemma wbuf_ok:
  assumes ok: "fs_ok io dinv blocks s" and b: "b < sblocks (super s)" "b \<noteq> 0"
    and off: "off < 4096" "off + len \<le> 4096" and buf: "pos + len \<le> length buf"
  obtains d' sb where "sfs_wbuf s buf pos len b off = Some (Inr (), buf, s\<lparr>dstate := d', sfs_buffer := sb\<rparr>)"
    and "dinv d'" and "length sb = 4096"
    and "blk (img d') = (view img s)(unat b := splice off (take len (drop pos buf)) (view img s (unat b)))"
proof -
  have l: "length (sfs_buffer s) = 4096" using ok by (simp add: fs_ok_def)
  obtain d1 where r: "sfs_rwblock_nolock s (sfs_buffer s) 0 b False True =
      Some (Inr (), splice 0 (view img s (unat b)) (sfs_buffer s), s\<lparr>dstate := d1\<rparr>)"
    and d1: "dinv d1" "img d1 = img (dstate s)"
    by (rule rwblock_read [OF ok b(1), of True 0 "sfs_buffer s"]) (use b l in auto)
  have vl: "length (view img s (unat b)) = 4096" by (rule view_length [OF ok b(1)])
  then have sb: "splice 0 (view img s (unat b)) (sfs_buffer s) = view img s (unat b)"
    using l by (simp add: splice_whole)
  let ?data = "take len (drop pos buf)"
  let ?sb = "splice off ?data (view img s (unat b))"
  let ?s1 = "s\<lparr>dstate := d1, sfs_buffer := ?sb\<rparr>"
  have lsb: "length ?sb = 4096" using off buf vl by simp
  have ok1: "fs_ok io dinv blocks ?s1" by (rule fs_ok_io [OF ok d1(1) lsb])
  obtain d2 where w: "sfs_rwblock_nolock ?s1 ?sb 0 b True True = Some (Inr (), ?sb, ?s1\<lparr>dstate := d2\<rparr>)"
    and d2: "dinv d2" "blk (img d2) = (view img ?s1)(unat b := take 4096 (drop 0 ?sb))"
    by (rule rwblock_write [OF ok1, of b True 0 ?sb]) (use b lsb in auto)
  show thesis
    by (rule that [of ?sb d2])
       (use r sb w d2 d1 off buf lsb vl in
         \<open>simp_all add: sfs_wbuf_def SFS_BLKSIZE_def view_def fun_eq_iff\<close>)
qed

lemma clear_block_ok:
  assumes ok: "fs_ok io dinv blocks s" and b: "b < sblocks (super s)" "b \<noteq> 0"
  obtains d' sb where "sfs_clear_block s b 1 = Some (Inr (), s\<lparr>dstate := d', sfs_buffer := sb\<rparr>)"
    and "dinv d'" and "length sb = 4096" and "blk (img d') = (view img s)(unat b := replicate 4096 0)"
proof -
  let ?z = "replicate 4096 (0 :: u8)"
  have ok0: "fs_ok io dinv blocks (s\<lparr>sfs_buffer := ?z\<rparr>)"
    using ok by (simp add: fs_ok_def fs_free_def)
  obtain d' where w: "sfs_rwblock_nolock (s\<lparr>sfs_buffer := ?z\<rparr>) ?z 0 b True True =
      Some (Inr (), ?z, s\<lparr>sfs_buffer := ?z, dstate := d'\<rparr>)"
    and d': "dinv d'" "blk (img d') = (view img (s\<lparr>sfs_buffer := ?z\<rparr>))(unat b := take 4096 (drop 0 ?z))"
    by (rule rwblock_write [OF ok0, of b True 0 ?z]) (use b in auto)
  show thesis
    by (rule that [of ?z d'])
       (use w d' in \<open>simp_all add: sfs_clear_block_def SFS_BLKSIZE_def view_def fun_eq_iff\<close>)
qed

text \<open>Whole blocks.\<close>

lemma rblock_ok:
  assumes ok: "fs_ok io dinv blocks s" and b: "b < sblocks (super s)" "b \<noteq> 0"
    and buf: "pos + 4096 \<le> length buf"
  obtains d' where "sfs_rblock s buf pos b 1 =
      Some (Inr (), splice pos (view img s (unat b)) buf, s\<lparr>dstate := d'\<rparr>)"
    and "dinv d'" and "blk (img d') = view img s"
proof -
  obtain d' where r: "sfs_rwblock_nolock s buf pos b False True =
      Some (Inr (), splice pos (view img s (unat b)) buf, s\<lparr>dstate := d'\<rparr>)"
    and d': "dinv d'" "img d' = img (dstate s)"
    by (rule rwblock_read [OF ok b(1), of True pos buf]) (use b buf in auto)
  show thesis
    by (rule that [of d']) (use r d' in \<open>simp_all add: sfs_rblock_def view_def fun_eq_iff\<close>)
qed

lemma wblock_ok:
  assumes ok: "fs_ok io dinv blocks s" and b: "b < sblocks (super s)" "b \<noteq> 0"
    and buf: "pos + 4096 \<le> length buf"
  obtains d' where "sfs_wblock s buf pos b 1 = Some (Inr (), buf, s\<lparr>dstate := d'\<rparr>)"
    and "dinv d'" and "blk (img d') = (view img s)(unat b := take 4096 (drop pos buf))"
proof -
  obtain d' where r: "sfs_rwblock_nolock s buf pos b True True = Some (Inr (), buf, s\<lparr>dstate := d'\<rparr>)"
    and d': "dinv d'" "blk (img d') = (view img s)(unat b := take 4096 (drop pos buf))"
    by (rule rwblock_write [OF ok b(1), of True pos buf]) (use b buf in auto)
  show thesis
    by (rule that [of d']) (use r d' in \<open>simp_all add: sfs_wblock_def\<close>)
qed

text \<open>Allocation takes the least free block and clears it; freeing returns a block.\<close>

lemma alloc_none:
  assumes ok: "fs_ok io dinv blocks s" and none: "fs_free s = {}"
  shows "sfs_block_alloc s = Some (Inl (- E_NO_MEM), s)"
  using bitmap_alloc_empty [OF fs_ok_bm [OF ok]] none by (simp add: sfs_block_alloc_def fs_free_def)

lemma alloc_ok:
  assumes ok: "fs_ok io dinv blocks s" and some: "fs_free s \<noteq> {}"
  obtains b s' where "sfs_block_alloc s = Some (Inr b, s')" and "fs_ok io dinv blocks s'"
    and "fs_frame s s'" and "unat b = Min (fs_free s)" and "fs_free s' = fs_free s - {unat b}"
    and "view img s' = (view img s)(unat b := replicate 4096 0)" and "used s' b"
proof -
  have wf: "bm_wf (freemap s)" by (rule fs_ok_bm [OF ok])
  obtain fm where a: "bitmap_alloc (freemap s) = Some (Inr (word_of_nat (Min (fs_free s))), fm)"
    and fm: "bm_wf fm" "bm_free fm = fs_free s - {Min (fs_free s)}"
      "nbits fm = nbits (freemap s)"
    using bitmap_alloc_Min [OF wf] some unfolding fs_free_def by metis
  have mem: "Min (fs_free s) \<in> fs_free s" using some fs_ok_finite [OF ok] by simp
  define b where "b = (word_of_nat (Min (fs_free s)) :: u32)"
  have ub: "unat b = Min (fs_free s)"
    using bm_index_unat [OF wf] mem by (simp add: b_def fs_free_def)
  then have b: "b < sblocks (super s)" "b \<noteq> 0"
    using mem ok by (auto simp: fs_ok_def word_less_nat_alt)
  have fin: "finite (fs_free s)" by (rule fs_ok_finite [OF ok])
  have cnt: "unat (unused_blocks (super s)) = card (fs_free s)" using ok by (simp add: fs_ok_def)
  have pos: "card (fs_free s) \<noteq> 0" using some fin by simp
  have less: "0 < unused_blocks (super s)" using cnt pos by (simp add: word_less_nat_alt)
  then have "unused_blocks (super s) \<noteq> 0" by auto
  then have cnt': "unat (unused_blocks (super s) - 1) = card (fs_free s) - 1"
    using cnt by (simp add: unat_minus_one)
  let ?s1 = "s\<lparr>freemap := fm, super_dirty := True,
    super := (super s)\<lparr>unused_blocks := unused_blocks (super s) - 1\<rparr>\<rparr>"
  have free1: "fs_free ?s1 = fs_free s - {unat b}" using fm(2) ub by (simp add: fs_free_def)
  have ok1: "fs_ok io dinv blocks ?s1"
    unfolding fs_ok_def free1
    using ok fm cnt' mem fin ub by (auto simp: fs_ok_def)
  have used1: "used ?s1 b" unfolding used_def free1 using b by simp
  have b1: "b < sblocks (super ?s1)" using b by simp
  obtain d' sb where c: "sfs_clear_block ?s1 b 1 = Some (Inr (), ?s1\<lparr>dstate := d', sfs_buffer := sb\<rparr>)"
    and d': "dinv d'" "length sb = 4096" "blk (img d') = (view img ?s1)(unat b := replicate 4096 0)"
    by (rule clear_block_ok [OF ok1 b1 b(2)])
  let ?s2 = "?s1\<lparr>dstate := d', sfs_buffer := sb\<rparr>"
  have free2: "fs_free ?s2 = fs_free s - {unat b}" using free1 by (simp add: fs_free_def)
  have "assert_inuse ?s1 b = Some ()" using assert_inuse_iff [OF ok1, of b] used1 by simp
  then have "sfs_block_alloc s = Some (Inr b, ?s2)"
    using a less c by (simp add: sfs_block_alloc_def b_def)
  moreover have "fs_ok io dinv blocks ?s2" by (rule fs_ok_io [OF ok1 d'(1,2)])
  moreover have "used ?s2 b" unfolding used_def free2 using b by simp
  moreover have "view img ?s2 = (view img s)(unat b := replicate 4096 0)"
    using d'(3) by (simp add: view_def fun_eq_iff)
  ultimately show thesis using ub free2 by (intro that [of b ?s2]) (simp_all add: fs_frame_def)
qed

lemma free_ok:
  assumes ok: "fs_ok io dinv blocks s" and b: "used s b"
  obtains s' where "sfs_block_free s b = Some s'" and "fs_ok io dinv blocks s'"
    and "fs_frame s s'" and "fs_free s' = insert (unat b) (fs_free s)" and "view img s' = view img s"
proof -
  have wf: "bm_wf (freemap s)" by (rule fs_ok_bm [OF ok])
  have "b < nbits (freemap s)" "unat b \<notin> bm_free (freemap s)"
    using ok b by (auto simp: fs_ok_def used_def fs_free_def)
  then obtain fm where f: "bitmap_free (freemap s) b = Some fm" "bm_wf fm"
    "bm_free fm = insert (unat b) (fs_free s)" "nbits fm = nbits (freemap s)"
    using bitmap_free_spec [OF wf] unfolding fs_free_def by blast
  let ?s = "s\<lparr>freemap := fm, super_dirty := True,
    super := (super s)\<lparr>unused_blocks := unused_blocks (super s) + 1\<rparr>\<rparr>"
  have free: "fs_free ?s = insert (unat b) (fs_free s)" using f(3) by (simp add: fs_free_def)
  have fin: "finite (fs_free s)" by (rule fs_ok_finite [OF ok])
  have "card (fs_free s) < 2 ^ 32 - 1"
  proof -
    have "card (fs_free s) \<le> card {0 <..< unat (sblocks (super s))}"
      using ok by (intro card_mono) (auto simp: fs_ok_def)
    also have "\<dots> < 2 ^ 20"
      using ok inv_few [of "dstate s"] by (auto simp: fs_ok_def)
    finally show ?thesis by simp
  qed
  then have cnt: "unat (unused_blocks (super s) + 1) = card (fs_free s) + 1"
    using ok by (simp add: fs_ok_def unat_word_ariths(1))
  have ub: "0 < unat b" "unat b < unat (sblocks (super s))" "unat b \<notin> fs_free s"
    using b by (auto simp: used_def word_less_nat_alt unat_gt_0)
  have "fs_ok io dinv blocks ?s"
    unfolding fs_ok_def free using ok f cnt ub fin by (auto simp: fs_ok_def)
  moreover have "sfs_block_free s b = Some ?s"
    using assert_inuse_iff [OF ok, of b] b f(1) by (simp add: sfs_block_free_def)
  ultimately show thesis
    using free by (intro that [of ?s]) (simp_all add: fs_frame_def view_def fun_eq_iff)
qed

end

end
