(* ===== verification/SfsBmap.thy ===== *)
theory SfsBmap
  imports SfsIo
begin

text \<open>
  The block map of a file, \<open>lab8/kern/fs/sfs/sfs_inode.c\<close>: twelve direct block numbers in the inode
  and one indirect block with 1024 more. \<open>file_rep\<close> says that an inode maps the list \<open>bs\<close> of blocks;
  the lemmas show that the operations read, extend and shorten that list and account for every block.
\<close>

section \<open>The code\<close>

record sfs_inode =
  din :: sfs_disk_inode
  ino :: u32
  dirty :: bool
  reclaim_count :: int

text \<open>Transfers between a block and an object of the caller's own, such as a \<open>uint32_t\<close> on the stack.\<close>

definition rbuf_obj :: "'d sfs_fs \<Rightarrow> u8 list \<Rightarrow> u32 \<Rightarrow> nat \<Rightarrow> (u8 list res \<times> 'd sfs_fs) option" where
  "rbuf_obj sfs obj blkno offset = do {
     (r, obj, sfs) \<leftarrow> sfs_rbuf sfs obj 0 (length obj) blkno offset;
     Some (map_sum id (\<lambda>_. obj) r, sfs)
   }"

definition wbuf_obj :: "'d sfs_fs \<Rightarrow> u8 list \<Rightarrow> u32 \<Rightarrow> nat \<Rightarrow> (unit res \<times> 'd sfs_fs) option" where
  "wbuf_obj sfs obj blkno offset = do {
     (r, _, sfs) \<leftarrow> sfs_wbuf sfs obj 0 (length obj) blkno offset;
     Some (r, sfs)
   }"

text \<open>\<open>sfs_bmap_get_sub_nolock\<close>, from the allocation of the data block on. \<open>entp\<close> is the value of
  \<open>*entp\<close> at the call, \<open>ent\<close> the entry block in use; the result is the new \<open>*entp\<close> and the block.\<close>

definition cleanup_ent :: "u32 \<Rightarrow> u32 \<Rightarrow> int \<Rightarrow> 'd sfs_fs \<Rightarrow> ((u32 \<times> u32) res \<times> 'd sfs_fs) option" where
  "cleanup_ent entp ent ret sfs =
     (if ent \<noteq> entp then do { sfs \<leftarrow> sfs_block_free sfs ent; Some (Inl ret, sfs) }
      else Some (Inl ret, sfs))"

definition bmap_new_sub :: "'d sfs_fs \<Rightarrow> u32 \<Rightarrow> u32 \<Rightarrow> nat \<Rightarrow> ((u32 \<times> u32) res \<times> 'd sfs_fs) option" where
  "bmap_new_sub sfs entp ent offset = do {
     (r, sfs) \<leftarrow> sfs_block_alloc sfs;
     case r of
       Inl ret \<Rightarrow> cleanup_ent entp ent ret sfs
     | Inr i \<Rightarrow> do {
         (r, sfs) \<leftarrow> wbuf_obj sfs (u32_bytes i) ent offset;
         case r of
           Inl ret \<Rightarrow> do { sfs \<leftarrow> sfs_block_free sfs i; cleanup_ent entp ent ret sfs }
         | Inr _ \<Rightarrow> Some (Inr (ent, i), sfs)
       }
   }"

definition sfs_bmap_get_sub_nolock ::
  "'d sfs_fs \<Rightarrow> u32 \<Rightarrow> u32 \<Rightarrow> bool \<Rightarrow> ((u32 \<times> u32) res \<times> 'd sfs_fs) option" where
  "sfs_bmap_get_sub_nolock sfs entp index create = do {
     kassert (unat index < SFS_BLK_NENTRY);
     let offset = unat index * 4 in
     if entp \<noteq> 0 then
       on_ok (rbuf_obj sfs (u32_bytes 0) entp offset) (\<lambda>obj sfs.
         let i = u32_of obj in
         if i \<noteq> 0 \<or> \<not> create then Some (Inr (entp, i), sfs)
         else bmap_new_sub sfs entp entp offset)
     else if \<not> create then Some (Inr (entp, 0), sfs)
     else on_ok (sfs_block_alloc sfs) (\<lambda>ent sfs. bmap_new_sub sfs entp ent offset)
   }"

text \<open>The state of the operations on an inode is the file system and the inode.\<close>

definition with_sin :: "('a res \<times> 's) option \<Rightarrow> sfs_inode \<Rightarrow> ('a res \<times> 's \<times> sfs_inode) option" where
  "with_sin c sin = map_option (\<lambda>(r, s). (r, s, sin)) c"

definition bmap_out :: "u32 \<Rightarrow> 'd sfs_fs \<Rightarrow> sfs_inode \<Rightarrow> (u32 res \<times> 'd sfs_fs \<times> sfs_inode) option" where
  "bmap_out i sfs sin = do {
     (if i = 0 then Some () else assert_inuse sfs i);
     Some (Inr i, sfs, sin)
   }"

definition sfs_bmap_get_nolock ::
  "'d sfs_fs \<Rightarrow> sfs_inode \<Rightarrow> u32 \<Rightarrow> bool \<Rightarrow> (u32 res \<times> 'd sfs_fs \<times> sfs_inode) option" where
  "sfs_bmap_get_nolock sfs sin index create =
     (if unat index < SFS_NDIRECT then
        let i = direct (din sin) ! unat index in
        if i = 0 \<and> create then
          on_ok (with_sin (sfs_block_alloc sfs) sin) (\<lambda>i (sfs, sin).
            bmap_out i sfs
              (sin\<lparr>din := (din sin)\<lparr>direct := (direct (din sin))[unat index := i]\<rparr>, dirty := True\<rparr>))
        else bmap_out i sfs sin
      else
        let index = index - word_of_nat SFS_NDIRECT in
        if unat index < SFS_BLK_NENTRY then
          on_ok (with_sin (sfs_bmap_get_sub_nolock sfs (indirect (din sin)) index create) sin)
            (\<lambda>(ent, i) (sfs, sin).
              if ent \<noteq> indirect (din sin) then do {
                kassert (indirect (din sin) = 0);
                bmap_out i sfs (sin\<lparr>din := (din sin)\<lparr>indirect := ent\<rparr>, dirty := True\<rparr>)
              } else bmap_out i sfs sin)
        else None)"

definition sfs_bmap_free_sub_nolock :: "'d sfs_fs \<Rightarrow> u32 \<Rightarrow> u32 \<Rightarrow> (unit res \<times> 'd sfs_fs) option" where
  "sfs_bmap_free_sub_nolock sfs ent index = do {
     assert_inuse sfs ent;
     kassert (unat index < SFS_BLK_NENTRY);
     let offset = unat index * 4 in
     on_ok (rbuf_obj sfs (replicate 4 0) ent offset) (\<lambda>obj sfs.
       let i = u32_of obj in
       if i \<noteq> 0 then
         on_ok (wbuf_obj sfs (u32_bytes 0) ent offset) (\<lambda>_ sfs.
           do { sfs \<leftarrow> sfs_block_free sfs i; Some (Inr (), sfs) })
       else Some (Inr (), sfs))
   }"

definition sfs_bmap_free_nolock ::
  "'d sfs_fs \<Rightarrow> sfs_inode \<Rightarrow> u32 \<Rightarrow> (unit res \<times> 'd sfs_fs \<times> sfs_inode) option" where
  "sfs_bmap_free_nolock sfs sin index =
     (if unat index < SFS_NDIRECT then
        let i = direct (din sin) ! unat index in
        if i \<noteq> 0 then do {
          sfs \<leftarrow> sfs_block_free sfs i;
          Some (Inr (), sfs,
            sin\<lparr>din := (din sin)\<lparr>direct := (direct (din sin))[unat index := 0]\<rparr>, dirty := True\<rparr>)
        } else Some (Inr (), sfs, sin)
      else
        let index = index - word_of_nat SFS_NDIRECT in
        if unat index < SFS_BLK_NENTRY then
          if indirect (din sin) \<noteq> 0 then
            on_ok (with_sin (sfs_bmap_free_sub_nolock sfs (indirect (din sin)) index) sin)
              (\<lambda>_ (sfs, sin). Some (Inr (), sfs, sin))
          else Some (Inr (), sfs, sin)
        else Some (Inr (), sfs, sin))"

definition sfs_bmap_load_nolock ::
  "'d sfs_fs \<Rightarrow> sfs_inode \<Rightarrow> u32 \<Rightarrow> (u32 res \<times> 'd sfs_fs \<times> sfs_inode) option" where
  "sfs_bmap_load_nolock sfs sin index = do {
     kassert (index \<le> fblocks (din sin));
     let create = (index = fblocks (din sin)) in
     on_ok (sfs_bmap_get_nolock sfs sin index create) (\<lambda>i (sfs, sin). do {
       assert_inuse sfs i;
       Some (Inr i, sfs,
         if create then sin\<lparr>din := (din sin)\<lparr>fblocks := fblocks (din sin) + 1\<rparr>\<rparr> else sin)
     })
   }"

definition sfs_bmap_truncate_nolock ::
  "'d sfs_fs \<Rightarrow> sfs_inode \<Rightarrow> (unit res \<times> 'd sfs_fs \<times> sfs_inode) option" where
  "sfs_bmap_truncate_nolock sfs sin = do {
     kassert (fblocks (din sin) \<noteq> 0);
     on_ok (sfs_bmap_free_nolock sfs sin (fblocks (din sin) - 1)) (\<lambda>_ (sfs, sin).
       Some (Inr (), sfs,
         sin\<lparr>din := (din sin)\<lparr>fblocks := fblocks (din sin) - 1\<rparr>, dirty := True\<rparr>))
   }"

section \<open>The list of blocks of a file\<close>

definition slot :: "u32 list \<Rightarrow> nat \<Rightarrow> u32" where
  "slot bs i = (if i < length bs then bs ! i else 0)"

definition entries :: "('d \<Rightarrow> u8 list) \<Rightarrow> 'd sfs_fs \<Rightarrow> u32 \<Rightarrow> u32 list" where
  "entries img s ent = words_of 1024 (view img s (unat ent))"

lemma length_entries [simp]: "length (entries img s ent) = 1024"
  by (simp add: entries_def)

definition file_rep :: "('d \<Rightarrow> u8 list) \<Rightarrow> 'd sfs_fs \<Rightarrow> sfs_disk_inode \<Rightarrow> u32 list \<Rightarrow> bool" where
  "file_rep img s d bs \<longleftrightarrow>
     length (direct d) = 12 \<and> unat (fblocks d) = length bs \<and> length bs \<le> 12 + 1024 \<and>
     (\<forall>i < 12. direct d ! i = slot bs i) \<and>
     (if indirect d = 0 then length bs \<le> 12
      else used s (indirect d) \<and> indirect d \<notin> set bs \<and>
        (\<forall>i < 1024. entries img s (indirect d) ! i = slot bs (12 + i))) \<and>
     distinct bs \<and> (\<forall>b \<in> set bs. used s b)"

text \<open>The blocks a file owns.\<close>

definition owned :: "sfs_disk_inode \<Rightarrow> u32 list \<Rightarrow> u32 set" where
  "owned d bs = set bs \<union> (if indirect d = 0 then {} else {indirect d})"

lemma slot_append [simp]:
  "slot (bs @ [b]) i = (if i = length bs then b else slot bs i)"
  by (auto simp: slot_def nth_append)

lemma slot_beyond [simp]: "length bs \<le> i \<Longrightarrow> slot bs i = 0"
  by (simp add: slot_def)

lemma slot_less: "i < length bs \<Longrightarrow> slot bs i = bs ! i"
  by (simp add: slot_def)

lemma slot_butlast:
  "bs \<noteq> [] \<Longrightarrow> slot (butlast bs) i = (if i = length bs - 1 then 0 else slot bs i)"
  by (auto simp: slot_def nth_butlast)

lemma file_rep_used: "file_rep img s d bs \<Longrightarrow> b \<in> owned d bs \<Longrightarrow> used s b"
  by (auto simp: file_rep_def owned_def split: if_splits)

text \<open>A file is not affected by changes to blocks it does not own.\<close>

lemma file_rep_cong:
  assumes rep: "file_rep img s d bs" and "fs_frame s s'"
    and "\<And>b. b \<in> owned d bs \<Longrightarrow> unat b \<notin> fs_free s'"
    and "indirect d \<noteq> 0 \<Longrightarrow> view img s' (unat (indirect d)) = view img s (unat (indirect d))"
  shows "file_rep img s' d bs"
proof -
  have u: "used s' b" if "b \<in> owned d bs" for b
    using file_rep_used [OF rep that] assms(2) assms(3) [OF that] by (simp add: used_def fs_frame_def)
  then have "used s' b" if "b \<in> set bs" for b using that by (simp add: owned_def)
  moreover have "used s' (indirect d)" if "indirect d \<noteq> 0" using that u by (simp add: owned_def)
  ultimately show ?thesis using rep assms(4) by (auto simp: file_rep_def entries_def)
qed

lemma with_sin_simps [simp]:
  "with_sin (Some (r, s)) sin = Some (r, s, sin)" "with_sin None sin = None"
  by (simp_all add: with_sin_def)

section \<open>Reading and extending the map\<close>

text \<open>Two states that hold the same blocks.\<close>

definition same_disk :: "('d \<Rightarrow> u8 list) \<Rightarrow> 'd sfs_fs \<Rightarrow> 'd sfs_fs \<Rightarrow> bool" where
  "same_disk img s s' \<longleftrightarrow> fs_frame s s' \<and> fs_free s' = fs_free s \<and> view img s' = view img s"

lemma same_disk_refl [simp]: "same_disk img s s"
  by (simp add: same_disk_def)

lemma same_disk_trans: "same_disk img s t \<Longrightarrow> same_disk img t u \<Longrightarrow> same_disk img s u"
  using fs_frame_trans by (auto simp: same_disk_def)

lemma same_disk_used: "same_disk img s s' \<Longrightarrow> used s' b = used s b"
  by (auto simp: same_disk_def used_def fs_frame_def)

lemma same_disk_rep: "same_disk img s s' \<Longrightarrow> file_rep img s' d bs = file_rep img s d bs"
  by (simp add: file_rep_def entries_def same_disk_used) (simp add: same_disk_def)

text \<open>The number of blocks an extension of the file by one block takes.\<close>

definition need :: "sfs_disk_inode \<Rightarrow> u32 list \<Rightarrow> nat" where
  "need d bs = (if 12 \<le> length bs \<and> indirect d = 0 then 2 else 1)"

text \<open>
  An inode that is changed is marked dirty; the one exception of the code is a block that goes into
  an indirect block already there, which changes only the number of blocks.
\<close>

definition sin_kept :: "sfs_inode \<Rightarrow> sfs_inode \<Rightarrow> bool" where
  "sin_kept x y \<longleftrightarrow> dirty y \<or> \<not> dirty x \<and> (\<exists>k. din y = (din x)\<lparr>fblocks := k\<rparr>)"

lemma sin_kept_refl [simp]: "sin_kept x x"
proof -
  have "din x = (din x)\<lparr>fblocks := fblocks (din x)\<rparr>" by simp
  then show ?thesis unfolding sin_kept_def by blast
qed

lemma sin_kept_trans: "sin_kept x y \<Longrightarrow> sin_kept y z \<Longrightarrow> sin_kept x z"
  by (auto simp: sin_kept_def)

text \<open>What an extension by one block does: \<open>new\<close> are the blocks it takes.\<close>

definition extends ::
  "'a sfs_fs \<Rightarrow> sfs_inode \<Rightarrow> u32 list \<Rightarrow> u32 \<Rightarrow> nat set \<Rightarrow> ('a \<Rightarrow> u8 list) \<Rightarrow> 'a sfs_fs \<Rightarrow> sfs_inode \<Rightarrow> bool" where
  "extends s sin bs b new im s' sin' \<longleftrightarrow>
     file_rep im s' (din sin') (bs @ [b]) \<and> fs_frame s s' \<and>
     new \<subseteq> fs_free s \<and> card new = need (din sin) bs \<and> fs_free s' = fs_free s - new \<and> unat b \<in> new \<and>
     unat ` owned (din sin') (bs @ [b]) = unat ` owned (din sin) bs \<union> new \<and>
     view im s' (unat b) = replicate 4096 0 \<and>
     (\<forall>c. c \<notin> new \<and> (indirect (din sin) = 0 \<or> c \<noteq> unat (indirect (din sin))) \<longrightarrow>
       view im s' c = view im s c) \<and>
     ino sin' = ino sin \<and> reclaim_count sin' = reclaim_count sin \<and>
     fsize (din sin') = fsize (din sin) \<and> ftype (din sin') = ftype (din sin) \<and>
     nlinks (din sin') = nlinks (din sin) \<and> sin_kept sin sin'"

text \<open>What the removal of the last block does.\<close>

definition shrinks ::
  "'a sfs_fs \<Rightarrow> sfs_inode \<Rightarrow> u32 list \<Rightarrow> ('a \<Rightarrow> u8 list) \<Rightarrow> 'a sfs_fs \<Rightarrow> sfs_inode \<Rightarrow> bool" where
  "shrinks s sin bs im s' sin' \<longleftrightarrow>
     file_rep im s' (din sin') (butlast bs) \<and> fs_frame s s' \<and>
     fs_free s' = insert (unat (last bs)) (fs_free s) \<and> unat (last bs) \<notin> fs_free s \<and>
     indirect (din sin') = indirect (din sin) \<and>
     (\<forall>c. indirect (din sin) = 0 \<or> c \<noteq> unat (indirect (din sin)) \<longrightarrow> view im s' c = view im s c) \<and>
     ino sin' = ino sin \<and> reclaim_count sin' = reclaim_count sin \<and>
     fsize (din sin') = fsize (din sin) \<and> ftype (din sin') = ftype (din sin) \<and>
     nlinks (din sin') = nlinks (din sin) \<and> sin_kept sin sin'"

lemma unat_neq: "a \<noteq> b \<Longrightarrow> unat a \<noteq> unat (b :: u32)"
  by (simp add: word_unat_eq_iff)

lemma unat_u32_inj: "inj (unat :: u32 \<Rightarrow> nat)"
  by (simp add: inj_def word_unat_eq_iff)

lemma shrunk_blocks:
  assumes "unat (n :: u32) = length bs" and "bs \<noteq> []"
  shows "unat (n - 1) = length bs - 1"
proof -
  have "n \<noteq> 0" using assms by auto
  then show ?thesis using assms(1) by (simp add: unat_minus_one)
qed

lemma grown_blocks:
  assumes "unat (n :: u32) = length bs" and "length bs < 1036"
  shows "unat (n + 1) = length bs + 1"
  using assms by (simp add: unat_word_ariths(1))

lemma free_not_owned:
  "file_rep im s d bs \<Longrightarrow> c \<in> fs_free s \<Longrightarrow> c \<notin> unat ` owned d bs"
  using file_rep_used by (fastforce simp: used_def)

context block_device
begin

lemma fs_ok_dstate:
  assumes "fs_ok io dinv blocks s" and "dinv d" and "length sb = 4096"
  shows "fs_ok io dinv blocks (s\<lparr>dstate := d, sfs_buffer := sb\<rparr>)"
    and "fs_frame s (s\<lparr>dstate := d, sfs_buffer := sb\<rparr>)"
    and "fs_free (s\<lparr>dstate := d, sfs_buffer := sb\<rparr>) = fs_free s"
  using assms by (simp_all add: fs_ok_io fs_frame_def fs_free_def)

lemma rbuf_obj_ok:
  assumes ok: "fs_ok io dinv blocks s" and b: "used s b" and off: "off < 4096" "off + length obj \<le> 4096"
  obtains s' where "rbuf_obj s obj b off = Some (Inr (take (length obj) (drop off (view img s (unat b)))), s')"
    and "fs_ok io dinv blocks s'" and "same_disk img s s'"
proof -
  from b have b': "b < sblocks (super s)" "b \<noteq> 0" by (simp_all add: used_def)
  obtain d' sb where r: "sfs_rbuf s obj 0 (length obj) b off = Some (Inr (),
      splice 0 (take (length obj) (drop off (view img s (unat b)))) obj,
      s\<lparr>dstate := d', sfs_buffer := sb\<rparr>)"
    and d': "dinv d'" "length sb = 4096" "blk (img d') = view img s"
    by (rule rbuf_ok [OF ok b' off, of 0 obj]) auto
  have l: "length (take (length obj) (drop off (view img s (unat b)))) = length obj"
    using view_length [OF ok b'(1)] off by simp
  show thesis
    by (rule that [of "s\<lparr>dstate := d', sfs_buffer := sb\<rparr>"])
       (use r fs_ok_dstate [OF ok d'(1,2)] d'(3) l in
         \<open>simp_all add: rbuf_obj_def splice_whole same_disk_def view_def fun_eq_iff\<close>)
qed

lemma wbuf_obj_ok:
  assumes ok: "fs_ok io dinv blocks s" and b: "used s b" and off: "off < 4096" "off + length obj \<le> 4096"
  obtains s' where "wbuf_obj s obj b off = Some (Inr (), s')" and "fs_ok io dinv blocks s'"
    and "fs_frame s s'" and "fs_free s' = fs_free s"
    and "view img s' = (view img s)(unat b := splice off obj (view img s (unat b)))"
proof -
  from b have b': "b < sblocks (super s)" "b \<noteq> 0" by (simp_all add: used_def)
  obtain d' sb where r: "sfs_wbuf s obj 0 (length obj) b off =
      Some (Inr (), obj, s\<lparr>dstate := d', sfs_buffer := sb\<rparr>)"
    and d': "dinv d'" "length sb = 4096"
      "blk (img d') = (view img s)(unat b := splice off (take (length obj) (drop 0 obj)) (view img s (unat b)))"
    by (rule wbuf_ok [OF ok b' off, of 0 obj]) auto
  show thesis
    by (rule that [of "s\<lparr>dstate := d', sfs_buffer := sb\<rparr>"])
       (use r fs_ok_dstate [OF ok d'(1,2)] d'(3) in
         \<open>simp_all add: wbuf_obj_def view_def fun_eq_iff\<close>)
qed

lemma entry_offset: "i < 1024 \<Longrightarrow> i * 4 < 4096 \<and> i * 4 + 4 \<le> (4096 :: nat)"
  by simp

lemma entry_read:
  "i < 1024 \<Longrightarrow> u32_of (take 4 (drop (i * 4) (view img s (unat ent)))) = entries img s ent ! i"
  by (simp add: entries_def words_of_nth u32_of_take mult.commute)

lemma get_sub_old:
  assumes ok: "fs_ok io dinv blocks s" and ent: "used s ent" and i: "unat index < 1024"
    and v: "entries img s ent ! unat index \<noteq> 0 \<or> \<not> create"
  obtains s' where "sfs_bmap_get_sub_nolock s ent index create =
      Some (Inr (ent, entries img s ent ! unat index), s')"
    and "fs_ok io dinv blocks s'" and "same_disk img s s'"
proof -
  obtain s' where r: "rbuf_obj s (u32_bytes 0) ent (unat index * 4) =
      Some (Inr (take (length (u32_bytes 0)) (drop (unat index * 4) (view img s (unat ent)))), s')"
    and s': "fs_ok io dinv blocks s'" "same_disk img s s'"
    by (rule rbuf_obj_ok [OF ok ent, of "unat index * 4" "u32_bytes 0"]) (use entry_offset [OF i] in auto)
  have "ent \<noteq> 0" using ent by (simp add: used_def)
  then show thesis
    using that [OF _ s'] r i v entry_read [OF i, of s ent]
    by (simp add: sfs_bmap_get_sub_nolock_def SFS_BLK_NENTRY_def SFS_BLKSIZE_def)
qed

lemma new_sub_ok:
  assumes ok: "fs_ok io dinv blocks s" and ent: "used s ent" and i: "i < 1024"
    and free: "fs_free s \<noteq> {}"
  obtains b s' where "bmap_new_sub s entp ent (i * 4) = Some (Inr (ent, b), s')"
    and "fs_ok io dinv blocks s'" and "fs_frame s s'" and "unat b \<in> fs_free s"
    and "fs_free s' = fs_free s - {unat b}" and "used s' b"
    and "view img s' = (view img s)(unat b := replicate 4096 0,
      unat ent := splice (i * 4) (u32_bytes b) (view img s (unat ent)))"
proof -
  obtain b s1 where a: "sfs_block_alloc s = Some (Inr b, s1)" and ok1: "fs_ok io dinv blocks s1"
    and f1: "fs_frame s s1" and b: "unat b = Min (fs_free s)" and free1: "fs_free s1 = fs_free s - {unat b}"
    and v1: "view img s1 = (view img s)(unat b := replicate 4096 0)" and u: "used s1 b"
    by (rule alloc_ok [OF ok free])
  have ent1: "used s1 ent" by (rule used_frame [OF f1 _ ent]) (use free1 in auto)
  obtain s2 where w: "wbuf_obj s1 (u32_bytes b) ent (i * 4) = Some (Inr (), s2)"
    and ok2: "fs_ok io dinv blocks s2" and f2: "fs_frame s1 s2" and free2: "fs_free s2 = fs_free s1"
    and v2: "view img s2 = (view img s1)(unat ent := splice (i * 4) (u32_bytes b) (view img s1 (unat ent)))"
    by (rule wbuf_obj_ok [OF ok1 ent1, of "i * 4" "u32_bytes b"]) (use entry_offset [OF i] in auto)
  have mem: "unat b \<in> fs_free s" using b free fs_ok_finite [OF ok] by simp
  have ne: "unat ent \<noteq> unat b" using ent mem by (auto simp: used_def)
  have "used s2 b" by (rule used_frame [OF f2 _ u]) (use free2 in simp)
  moreover have "bmap_new_sub s entp ent (i * 4) = Some (Inr (ent, b), s2)"
    using a w by (simp add: bmap_new_sub_def)
  moreover have "view img s2 = (view img s)(unat b := replicate 4096 0,
      unat ent := splice (i * 4) (u32_bytes b) (view img s (unat ent)))"
    using v1 v2 ne by simp
  ultimately show thesis
    using ok2 fs_frame_trans [OF f1 f2] mem free1 free2 by (intro that) simp_all
qed

lemma new_sub_fail:
  assumes ok: "fs_ok io dinv blocks s" and ent: "used s ent" and free: "fs_free s = {}"
  obtains s' where "bmap_new_sub s entp ent off = Some (Inl (- E_NO_MEM), s')"
    and "fs_ok io dinv blocks s'" and "fs_frame s s'" and "view img s' = view img s"
    and "fs_free s' = (if ent = entp then {} else {unat ent})"
proof (cases "ent = entp")
  case True
  then show thesis
    using that [of s] alloc_none [OF ok free] ok free by (simp add: bmap_new_sub_def cleanup_ent_def)
next
  case False
  obtain s' where "sfs_block_free s ent = Some s'" "fs_ok io dinv blocks s'"
    "fs_frame s s'" "fs_free s' = insert (unat ent) (fs_free s)" "view img s' = view img s"
    by (rule free_ok [OF ok ent])
  then show thesis
    using that [of s'] False alloc_none [OF ok free] free by (simp add: bmap_new_sub_def cleanup_ent_def)
qed

lemma load_old:
  assumes ok: "fs_ok io dinv blocks s" and rep: "file_rep img s (din sin) bs"
    and i: "unat index < length bs"
  obtains s' where "sfs_bmap_load_nolock s sin index = Some (Inr (bs ! unat index), s', sin)"
    and "fs_ok io dinv blocks s'" and "same_disk img s s'"
proof -
  have fb: "unat (fblocks (din sin)) = length bs" and len: "length bs \<le> 1036"
    and ub: "\<And>b. b \<in> set bs \<Longrightarrow> used s b" using rep by (simp_all add: file_rep_def)
  let ?b = "bs ! unat index"
  have u: "used s ?b" using ub i by simp
  then have nz: "?b \<noteq> 0" by (simp add: used_def)
  have le: "index \<le> fblocks (din sin)" and ne: "index \<noteq> fblocks (din sin)"
    using i fb by (auto simp: word_le_nat_alt)
  have "\<exists>s'. sfs_bmap_get_nolock s sin index False = Some (Inr ?b, s', sin) \<and>
      fs_ok io dinv blocks s' \<and> same_disk img s s'"
  proof (cases "unat index < 12")
    case True
    then have "direct (din sin) ! unat index = ?b" using rep i by (simp add: file_rep_def slot_less)
    then show ?thesis
      using True ok nz u assert_inuse_iff [OF ok, of ?b]
      by (auto simp: sfs_bmap_get_nolock_def SFS_NDIRECT_def bmap_out_def Let_def)
  next
    case False
    let ?j = "index - word_of_nat SFS_NDIRECT"
    have "(word_of_nat SFS_NDIRECT :: u32) \<le> index"
      using False by (simp add: SFS_NDIRECT_def word_le_nat_alt)
    then have j: "unat ?j = unat index - 12" by (simp add: unat_sub SFS_NDIRECT_def)
    have j1: "unat ?j < 1024" using j i len by simp
    have ent: "indirect (din sin) \<noteq> 0" using rep False i by (auto simp: file_rep_def split: if_splits)
    then have uent: "used s (indirect (din sin))"
      and e: "entries img s (indirect (din sin)) ! unat ?j = ?b"
      using rep j j1 False i by (auto simp: file_rep_def slot_less)
    obtain s' where g: "sfs_bmap_get_sub_nolock s (indirect (din sin)) ?j False =
        Some (Inr (indirect (din sin), entries img s (indirect (din sin)) ! unat ?j), s')"
      and s': "fs_ok io dinv blocks s'" "same_disk img s s'"
      by (rule get_sub_old [OF ok uent j1]) auto
    have "assert_inuse s' ?b = Some ()"
      using assert_inuse_iff [OF s'(1), of ?b] same_disk_used [OF s'(2)] u by simp
    then show ?thesis
      using False g e j1 s' nz
      by (auto simp: sfs_bmap_get_nolock_def SFS_NDIRECT_def SFS_BLK_NENTRY_def SFS_BLKSIZE_def
          bmap_out_def Let_def)
  qed
  then obtain s' where g: "sfs_bmap_get_nolock s sin index False = Some (Inr ?b, s', sin)"
    and s': "fs_ok io dinv blocks s'" "same_disk img s s'" by blast
  have "assert_inuse s' ?b = Some ()"
    using assert_inuse_iff [OF s'(1), of ?b] same_disk_used [OF s'(2)] u by simp
  then show thesis
    using that [OF _ s'] g le ne by (simp add: sfs_bmap_load_nolock_def)
qed

lemma load_new_direct:
  assumes ok: "fs_ok io dinv blocks s" and rep: "file_rep img s (din sin) bs"
    and i: "unat index = length bs" "length bs < 12" and free: "fs_free s \<noteq> {}"
  obtains b new s' sin' where "sfs_bmap_load_nolock s sin index = Some (Inr b, s', sin')"
    and "fs_ok io dinv blocks s'" and "extends s sin bs b new img s' sin'"
proof -
  have fb: "unat (fblocks (din sin)) = length bs" and ld: "length (direct (din sin)) = 12"
    using rep by (simp_all add: file_rep_def)
  have eq: "index = fblocks (din sin)" using i fb by (metis word_unat_eq_iff)
  have z: "direct (din sin) ! unat index = 0" using rep i by (simp add: file_rep_def)
  obtain b s' where a: "sfs_block_alloc s = Some (Inr b, s')" and ok': "fs_ok io dinv blocks s'"
    and fr: "fs_frame s s'" and b: "unat b = Min (fs_free s)" and free': "fs_free s' = fs_free s - {unat b}"
    and v: "view img s' = (view img s)(unat b := replicate 4096 0)" and u: "used s' b"
    by (rule alloc_ok [OF ok free])
  have mem: "unat b \<in> fs_free s" using b free fs_ok_finite [OF ok] by simp
  let ?d = "(din sin)\<lparr>direct := (direct (din sin))[unat index := b], fblocks := fblocks (din sin) + 1\<rparr>"
  let ?sin = "sin\<lparr>din := ?d, dirty := True\<rparr>"
  have inu: "assert_inuse s' b = Some ()" using assert_inuse_iff [OF ok', of b] u by simp
  have nz: "b \<noteq> 0" using u by (simp add: used_def)
  have "sfs_bmap_load_nolock s sin index = Some (Inr b, s', ?sin)"
    using a inu nz i z eq
    by (simp add: sfs_bmap_load_nolock_def sfs_bmap_get_nolock_def SFS_NDIRECT_def bmap_out_def)
  moreover have "extends s sin bs b {unat b} img s' ?sin"
  proof -
    have nb: "b \<notin> set bs" "b \<noteq> indirect (din sin) \<or> indirect (din sin) = 0"
      using free_not_owned [OF rep mem] by (auto simp: owned_def)
    have rep1: "file_rep img s' (din sin) bs"
    proof (rule file_rep_cong [OF rep fr])
      show "unat c \<notin> fs_free s'" if "c \<in> owned (din sin) bs" for c
        using file_rep_used [OF rep that] free' by (simp add: used_def)
      show "view img s' (unat (indirect (din sin))) = view img s (unat (indirect (din sin)))"
        if "indirect (din sin) \<noteq> 0" using nb(2) that v by (auto simp: word_unat_eq_iff)
    qed
    have "file_rep img s' ?d (bs @ [b])"
      using rep1 i ld u nb grown_blocks [OF fb] by (auto simp: file_rep_def nth_list_update)
    then show ?thesis
      using fr mem free' v i by (auto simp: extends_def need_def owned_def sin_kept_def)
  qed
  ultimately show thesis using that ok' by blast
qed

text \<open>An entry of the indirect block that is filled: with the entry block there, and with a new one.\<close>

lemma get_sub_fill:
  assumes ok: "fs_ok io dinv blocks s" and ent: "used s ent" and i: "unat index < 1024"
    and z: "entries img s ent ! unat index = 0" and free: "fs_free s \<noteq> {}"
  obtains b s' where "sfs_bmap_get_sub_nolock s ent index True = Some (Inr (ent, b), s')"
    and "fs_ok io dinv blocks s'" and "fs_frame s s'" and "unat b \<in> fs_free s"
    and "fs_free s' = fs_free s - {unat b}" and "used s' b"
    and "view img s' = (view img s)(unat b := replicate 4096 0,
      unat ent := splice (unat index * 4) (u32_bytes b) (view img s (unat ent)))"
proof -
  obtain s1 where r: "rbuf_obj s (u32_bytes 0) ent (unat index * 4) =
      Some (Inr (take (length (u32_bytes 0)) (drop (unat index * 4) (view img s (unat ent)))), s1)"
    and ok1: "fs_ok io dinv blocks s1" and s1: "same_disk img s s1"
    by (rule rbuf_obj_ok [OF ok ent, of "unat index * 4" "u32_bytes 0"]) (use entry_offset [OF i] in auto)
  have ent1: "used s1 ent" using same_disk_used [OF s1] ent by simp
  have free1: "fs_free s1 \<noteq> {}" using s1 free by (simp add: same_disk_def)
  obtain b s' where n: "bmap_new_sub s1 ent ent (unat index * 4) = Some (Inr (ent, b), s')"
    and s': "fs_ok io dinv blocks s'" "fs_frame s1 s'" "unat b \<in> fs_free s1"
      "fs_free s' = fs_free s1 - {unat b}" "used s' b"
      "view img s' = (view img s1)(unat b := replicate 4096 0,
        unat ent := splice (unat index * 4) (u32_bytes b) (view img s1 (unat ent)))"
    by (rule new_sub_ok [OF ok1 ent1 i free1])
  have "ent \<noteq> 0" using ent by (simp add: used_def)
  then have "sfs_bmap_get_sub_nolock s ent index True = Some (Inr (ent, b), s')"
    using r n i z entry_read [OF i, of s ent]
    by (simp add: sfs_bmap_get_sub_nolock_def SFS_BLK_NENTRY_def SFS_BLKSIZE_def)
  moreover have "fs_frame s s'" using s1 s'(2) fs_frame_trans by (auto simp: same_disk_def)
  ultimately show thesis using that s' s1 by (simp add: same_disk_def)
qed

lemma get_sub_new:
  assumes ok: "fs_ok io dinv blocks s" and i: "unat index < 1024" and free: "2 \<le> card (fs_free s)"
  obtains ent b s' where "sfs_bmap_get_sub_nolock s 0 index True = Some (Inr (ent, b), s')"
    and "fs_ok io dinv blocks s'" and "fs_frame s s'" and "{unat ent, unat b} \<subseteq> fs_free s"
    and "unat ent \<noteq> unat b"
    and "fs_free s' = fs_free s - {unat ent, unat b}" and "used s' b" and "used s' ent"
    and "view img s' = (view img s)(unat b := replicate 4096 0,
      unat ent := splice (unat index * 4) (u32_bytes b) (replicate 4096 0))"
proof -
  have fin: "finite (fs_free s)" by (rule fs_ok_finite [OF ok])
  have ne: "fs_free s \<noteq> {}" using free by auto
  obtain ent s1 where a: "sfs_block_alloc s = Some (Inr ent, s1)" and ok1: "fs_ok io dinv blocks s1"
    and f1: "fs_frame s s1" and e: "unat ent = Min (fs_free s)" and free1: "fs_free s1 = fs_free s - {unat ent}"
    and v1: "view img s1 = (view img s)(unat ent := replicate 4096 0)" and u: "used s1 ent"
    by (rule alloc_ok [OF ok ne])
  have mem: "unat ent \<in> fs_free s" using e ne fin by simp
  have ne1: "fs_free s1 \<noteq> {}"
  proof
    assume "fs_free s1 = {}"
    then have "fs_free s \<subseteq> {unat ent}" using free1 by auto
    then have "card (fs_free s) \<le> 1" using card_mono [of "{unat ent}"] by fastforce
    then show False using free by simp
  qed
  obtain b s' where n: "bmap_new_sub s1 0 ent (unat index * 4) = Some (Inr (ent, b), s')"
    and s': "fs_ok io dinv blocks s'" "fs_frame s1 s'" "unat b \<in> fs_free s1"
      "fs_free s' = fs_free s1 - {unat b}" "used s' b"
      "view img s' = (view img s1)(unat b := replicate 4096 0,
        unat ent := splice (unat index * 4) (u32_bytes b) (view img s1 (unat ent)))"
    by (rule new_sub_ok [OF ok1 u i ne1])
  have nb: "unat ent \<noteq> unat b" using s'(3) free1 by auto
  have "used s' ent" by (rule used_frame [OF s'(2) _ u]) (use s'(4) in auto)
  moreover have "sfs_bmap_get_sub_nolock s 0 index True = Some (Inr (ent, b), s')"
    using a n i by (simp add: sfs_bmap_get_sub_nolock_def SFS_BLK_NENTRY_def SFS_BLKSIZE_def)
  moreover have "view img s' = (view img s)(unat b := replicate 4096 0,
      unat ent := splice (unat index * 4) (u32_bytes b) (replicate 4096 0))"
    using s'(6) v1 nb by (auto simp: fun_eq_iff)
  ultimately show thesis
    using that [of ent b s'] s' fs_frame_trans [OF f1 s'(2)] mem free1 nb by auto
qed

lemma entries_splice:
  assumes "length (view img s (unat ent)) = 4096" and "i < 1024"
    and "view img s' (unat ent) = splice (i * 4) (u32_bytes b) (view img s (unat ent))"
  shows "entries img s' ent = (entries img s ent)[i := b]"
  using assms words_of_splice [of 1024 "view img s (unat ent)" i b]
  by (simp add: entries_def mult.commute)

lemma words_of_zeros: "i < n \<Longrightarrow> words_of n (replicate k 0) ! i = 0"
proof -
  have z: "u32_of (replicate m 0) = 0" for m
  proof -
    have "min 4 m = 0 \<or> min 4 m = 1 \<or> min 4 m = 2 \<or> min 4 m = 3 \<or> min 4 m = 4" by arith
    then have "u32_of (replicate (min 4 m) 0) = 0" by (auto simp: numeral_eq_Suc)
    then show ?thesis using u32_of_take [of "replicate m 0"] by simp
  qed
  assume "i < n"
  then show ?thesis by (simp add: words_of_nth z)
qed

text \<open>The common part of both cases: once the entry block and the data block are there, the inode
  maps one block more.\<close>

lemma load_new_indirect:
  assumes ok: "fs_ok io dinv blocks s" and rep: "file_rep img s (din sin) bs"
    and i: "unat index = length bs" "12 \<le> length bs" "length bs < 1036"
    and free: "need (din sin) bs \<le> card (fs_free s)"
  obtains b new s' sin' where "sfs_bmap_load_nolock s sin index = Some (Inr b, s', sin')"
    and "fs_ok io dinv blocks s'" and "extends s sin bs b new img s' sin'"
proof -
  let ?d = "din sin"
  have fb: "unat (fblocks ?d) = length bs" and ld: "length (direct ?d) = 12" using rep by (simp_all add: file_rep_def)
  have eq: "index = fblocks ?d" using i fb by (metis word_unat_eq_iff)
  let ?j = "index - word_of_nat SFS_NDIRECT"
  have "(word_of_nat SFS_NDIRECT :: u32) \<le> index" using i by (simp add: SFS_NDIRECT_def word_le_nat_alt)
  then have j: "unat ?j = length bs - 12" using i by (simp add: unat_sub SFS_NDIRECT_def)
  have j1: "unat ?j < 1024" using j i by simp
  have fin: "finite (fs_free s)" by (rule fs_ok_finite [OF ok])
  \<comment> \<open>the entry block \<open>ent\<close>, the data block \<open>b\<close> and the blocks taken\<close>
  obtain ent b s' new where g: "sfs_bmap_get_sub_nolock s (indirect ?d) ?j True = Some (Inr (ent, b), s')"
    and ok': "fs_ok io dinv blocks s'" and fr: "fs_frame s s'"
    and new: "new \<subseteq> fs_free s" "card new = need ?d bs" "fs_free s' = fs_free s - new" "unat b \<in> new"
      "unat ent \<in> insert (unat (indirect ?d)) new" "new = (if indirect ?d = 0 then {unat ent, unat b} else {unat b})"
    and ub: "used s' b" and ue: "used s' ent" and ne: "unat ent \<noteq> unat b"
    and e: "ent = indirect ?d \<or> indirect ?d = 0"
    and v: "\<And>c. c \<notin> insert (unat ent) new \<Longrightarrow> view img s' c = view img s c" "view img s' (unat b) = replicate 4096 0"
    and es: "\<And>k. k < 1024 \<Longrightarrow> entries img s' ent ! k = slot (bs @ [b]) (12 + k)"
  proof (cases "indirect ?d = 0")
    case True
    then have "length bs \<le> 12" and card: "2 \<le> card (fs_free s)"
      using rep free i by (simp_all add: file_rep_def need_def)
    then have l12: "length bs = 12" using i by simp
    obtain ent b s' where g: "sfs_bmap_get_sub_nolock s 0 ?j True = Some (Inr (ent, b), s')"
      and s': "fs_ok io dinv blocks s'" "fs_frame s s'" "{unat ent, unat b} \<subseteq> fs_free s"
        "unat ent \<noteq> unat b" "fs_free s' = fs_free s - {unat ent, unat b}" "used s' b" "used s' ent"
        "view img s' = (view img s)(unat b := replicate 4096 0,
          unat ent := splice (unat ?j * 4) (u32_bytes b) (replicate 4096 0))"
      by (rule get_sub_new [OF ok j1 card])
    have w: "entries img s' ent = (words_of 1024 (replicate 4096 0))[0 := b]"
      using words_of_splice [of 1024 "replicate 4096 0" 0 b] s'(8) j l12 by (simp add: entries_def)
    have es: "entries img s' ent ! k = slot (bs @ [b]) (12 + k)" if k: "k < 1024" for k
      using k l12 by (cases k) (simp_all add: w words_of_zeros)
    show thesis
      by (rule that [of ent b s' "{unat ent, unat b}"])
         (use g s' True es i in \<open>auto simp: need_def\<close>)
  next
    case False
    then have ue: "used s (indirect ?d)"
      and es0: "\<And>k. k < 1024 \<Longrightarrow> entries img s (indirect ?d) ! k = slot bs (12 + k)"
      using rep by (simp_all add: file_rep_def)
    have ne: "fs_free s \<noteq> {}" using free by (auto simp: need_def split: if_splits)
    have z: "entries img s (indirect ?d) ! unat ?j = 0" using es0 [OF j1] j i by simp
    obtain b s' where g: "sfs_bmap_get_sub_nolock s (indirect ?d) ?j True = Some (Inr (indirect ?d, b), s')"
      and s': "fs_ok io dinv blocks s'" "fs_frame s s'" "unat b \<in> fs_free s"
        "fs_free s' = fs_free s - {unat b}" "used s' b"
        "view img s' = (view img s)(unat b := replicate 4096 0, unat (indirect ?d) :=
          splice (unat ?j * 4) (u32_bytes b) (view img s (unat (indirect ?d))))"
      by (rule get_sub_fill [OF ok ue j1 z ne])
    have nb: "unat (indirect ?d) \<noteq> unat b" using ue s'(3) by (auto simp: used_def)
    have vl: "length (view img s (unat (indirect ?d))) = 4096"
      using view_length [OF ok] ue by (simp add: used_def)
    have w: "entries img s' (indirect ?d) = (entries img s (indirect ?d))[unat ?j := b]"
      by (rule entries_splice [OF vl j1]) (use s'(6) in simp)
    have es: "entries img s' (indirect ?d) ! k = slot (bs @ [b]) (12 + k)" if k: "k < 1024" for k
    proof -
      have "12 + k = length bs \<longleftrightarrow> k = unat ?j" using j i by auto
      then show ?thesis using k es0 [OF k] j1 by (simp add: w nth_list_update)
    qed
    have ue': "used s' (indirect ?d)" by (rule used_frame [OF s'(2) _ ue]) (use s'(4) in auto)
    show thesis
      by (rule that [of "indirect ?d" b s' "{unat b}"])
         (use g s' False es nb ue' in \<open>auto simp: need_def\<close>)
  qed
  let ?d' = "?d\<lparr>indirect := ent, fblocks := fblocks ?d + 1\<rparr>"
  let ?sin = "(if ent = indirect ?d then sin else sin\<lparr>dirty := True\<rparr>)\<lparr>din := ?d'\<rparr>"
  have inu: "assert_inuse s' b = Some ()" using assert_inuse_iff [OF ok', of b] ub by simp
  have nz: "b \<noteq> 0" "ent \<noteq> 0" using ub ue by (simp_all add: used_def)
  have "sfs_bmap_load_nolock s sin index = Some (Inr b, s', ?sin)"
  proof -
    have "\<not> unat index < SFS_NDIRECT" "unat ?j < SFS_BLK_NENTRY"
      using i j1 by (simp_all add: SFS_NDIRECT_def SFS_BLK_NENTRY_def SFS_BLKSIZE_def)
    moreover have "ent \<noteq> indirect ?d \<Longrightarrow> indirect ?d = 0" using e by auto
    ultimately have "sfs_bmap_get_nolock s sin index True = Some (Inr b, s',
        if ent = indirect ?d then sin else sin\<lparr>din := ?d\<lparr>indirect := ent\<rparr>, dirty := True\<rparr>)"
      using g inu nz by (auto simp: sfs_bmap_get_nolock_def Let_def bmap_out_def)
    then show ?thesis using inu eq by (auto simp: sfs_bmap_load_nolock_def)
  qed
  moreover have "extends s sin bs b new img s' ?sin"
  proof -
    have fresh: "c \<notin> unat ` owned ?d bs" if "c \<in> new" for c
      using free_not_owned [OF rep] new(1) that by blast
    have old: "used s' c" if "c \<in> set bs" for c
    proof -
      have "used s c" "unat c \<notin> fs_free s'"
        using rep that new by (auto simp: file_rep_def used_def)
      then show ?thesis using fr by (simp add: used_def fs_frame_def)
    qed
    have nbs: "b \<notin> set bs" using fresh [OF new(4)] by (auto simp: owned_def)
    have nent: "ent \<notin> set bs" "ent \<noteq> b"
    proof -
      show "ent \<noteq> b" using ne by auto
      show "ent \<notin> set bs"
      proof (cases "indirect ?d = 0")
        case True
        then have "unat ent \<in> new" using new(6) by simp
        then show ?thesis using fresh by (auto simp: owned_def)
      next
        case False
        then show ?thesis using e rep by (auto simp: file_rep_def)
      qed
    qed
    have "file_rep img s' ?d' (bs @ [b])"
      using rep ld i grown_blocks [OF fb i(3)] nz ue ub es nent nbs old
      by (auto simp: file_rep_def slot_def nth_append)
    moreover have "unat ` owned ?d' (bs @ [b]) = unat ` owned ?d bs \<union> new"
      using e new(6) nz by (auto simp: owned_def)
    moreover have "view img s' c = view img s c"
      if "c \<notin> new \<and> (indirect ?d = 0 \<or> c \<noteq> unat (indirect ?d))" for c
      by (rule v(1)) (use that new(6) e in \<open>auto split: if_splits\<close>)
    moreover have "sin_kept sin ?sin"
    proof (cases "ent = indirect ?d")
      case True
      then have "?d' = ?d\<lparr>fblocks := fblocks ?d + 1\<rparr>" by simp
      then show ?thesis using True by (auto simp: sin_kept_def)
    qed (simp add: sin_kept_def)
    ultimately show ?thesis using fr new(1-4) v(2) by (simp add: extends_def)
  qed
  ultimately show thesis using that ok' by blast
qed

lemma load_new:
  assumes ok: "fs_ok io dinv blocks s" and rep: "file_rep img s (din sin) bs"
    and i: "unat index = length bs" "length bs < 1036"
    and free: "need (din sin) bs \<le> card (fs_free s)"
  obtains b new s' sin' where "sfs_bmap_load_nolock s sin index = Some (Inr b, s', sin')"
    and "fs_ok io dinv blocks s'" and "extends s sin bs b new img s' sin'"
proof (cases "length bs < 12")
  case True
  have ne: "fs_free s \<noteq> {}" using free True by (auto simp: need_def)
  show thesis by (rule load_new_direct [OF ok rep i(1) True ne]) (rule that)
next
  case False
  then have l: "12 \<le> length bs" by simp
  show thesis by (rule load_new_indirect [OF ok rep i(1) l i(2) free]) (rule that)
qed

text \<open>Without enough free blocks the extension fails, and no block is lost.\<close>

lemma load_no_space:
  assumes ok: "fs_ok io dinv blocks s" and rep: "file_rep img s (din sin) bs"
    and i: "unat index = length bs" "length bs < 1036"
    and free: "card (fs_free s) < need (din sin) bs"
  obtains s' where "sfs_bmap_load_nolock s sin index = Some (Inl (- E_NO_MEM), s', sin)"
    and "fs_ok io dinv blocks s'" and "fs_frame s s'" and "fs_free s' = fs_free s"
    and "\<forall>c. c \<notin> fs_free s \<longrightarrow> view img s' c = view img s c"
proof -
  let ?d = "din sin"
  have fin: "finite (fs_free s)" by (rule fs_ok_finite [OF ok])
  have fb: "unat (fblocks ?d) = length bs" using rep by (simp add: file_rep_def)
  have eq: "index = fblocks ?d" using i fb by (metis word_unat_eq_iff)
  have load: "sfs_bmap_load_nolock s sin index = Some (Inl (- E_NO_MEM), s', sin)"
    if "sfs_bmap_get_nolock s sin index True = Some (Inl (- E_NO_MEM), s', sin)" for s'
    using that eq by (simp add: sfs_bmap_load_nolock_def)
  show thesis
  proof (cases "length bs < 12")
    case True
    then have none: "fs_free s = {}" using free fin by (simp add: need_def)
    have "direct ?d ! unat index = 0" using rep i True by (simp add: file_rep_def)
    then have "sfs_bmap_get_nolock s sin index True = Some (Inl (- E_NO_MEM), s, sin)"
      using alloc_none [OF ok none] True i by (simp add: sfs_bmap_get_nolock_def SFS_NDIRECT_def)
    then show thesis using that [OF load] ok by simp
  next
    case False
    let ?j = "index - word_of_nat SFS_NDIRECT"
    have "(word_of_nat SFS_NDIRECT :: u32) \<le> index"
      using i False by (simp add: SFS_NDIRECT_def word_le_nat_alt)
    then have j: "unat ?j = length bs - 12" using i by (simp add: unat_sub SFS_NDIRECT_def)
    have j1: "unat ?j < 1024" using j i by simp
    have get: "sfs_bmap_get_nolock s sin index True = Some (Inl (- E_NO_MEM), s', sin)"
      if "sfs_bmap_get_sub_nolock s (indirect ?d) ?j True = Some (Inl (- E_NO_MEM), s')" for s'
      using that i False j1
      by (simp add: sfs_bmap_get_nolock_def SFS_NDIRECT_def SFS_BLK_NENTRY_def SFS_BLKSIZE_def Let_def)
    show thesis
    proof (cases "indirect ?d = 0")
      case True
      show thesis
      proof (cases "fs_free s = {}")
        case none: True
        have "sfs_bmap_get_sub_nolock s (indirect ?d) ?j True = Some (Inl (- E_NO_MEM), s)"
          using alloc_none [OF ok none] True j1
          by (simp add: sfs_bmap_get_sub_nolock_def SFS_BLK_NENTRY_def SFS_BLKSIZE_def)
        then show thesis using that [OF load [OF get]] ok by simp
      next
        case some: False
        obtain ent s1 where a: "sfs_block_alloc s = Some (Inr ent, s1)" and ok1: "fs_ok io dinv blocks s1"
          and f1: "fs_frame s s1" and e: "unat ent = Min (fs_free s)" and free1: "fs_free s1 = fs_free s - {unat ent}"
          and v1: "view img s1 = (view img s)(unat ent := replicate 4096 0)" and u: "used s1 ent"
          by (rule alloc_ok [OF ok some])
        have mem: "unat ent \<in> fs_free s" using e some fin by simp
        have "card (fs_free s) < 2" using free by (simp add: need_def split: if_splits)
        then have "card (fs_free s1) = 0" using free1 mem fin by simp
        then have none1: "fs_free s1 = {}" using fs_ok_finite [OF ok1] by simp
        have ne: "ent \<noteq> 0" using u by (simp add: used_def)
        obtain s' where n: "bmap_new_sub s1 0 ent (unat ?j * 4) = Some (Inl (- E_NO_MEM), s')"
          and s': "fs_ok io dinv blocks s'" "fs_frame s1 s'" "view img s' = view img s1"
            "fs_free s' = (if ent = 0 then {} else {unat ent})"
          by (rule new_sub_fail [OF ok1 u none1])
        have g: "sfs_bmap_get_sub_nolock s (indirect ?d) ?j True = Some (Inl (- E_NO_MEM), s')"
          using a n True j1 by (simp add: sfs_bmap_get_sub_nolock_def SFS_BLK_NENTRY_def SFS_BLKSIZE_def)
        have "fs_free s' = fs_free s" using s'(4) ne none1 free1 mem by auto
        moreover have "\<forall>c. c \<notin> fs_free s \<longrightarrow> view img s' c = view img s c"
          using mem s'(3) v1 by auto
        ultimately show thesis
          by (intro that [OF load [OF get [OF g]] s'(1) fs_frame_trans [OF f1 s'(2)]])
      qed
    next
      case ent: False
      then have ue: "used s (indirect ?d)"
        and z: "entries img s (indirect ?d) ! unat ?j = 0"
        using rep j j1 i by (simp_all add: file_rep_def)
      have none: "fs_free s = {}" using free ent fin by (simp add: need_def split: if_splits)
      obtain s1 where r: "rbuf_obj s (u32_bytes 0) (indirect ?d) (unat ?j * 4) =
          Some (Inr (take (length (u32_bytes 0)) (drop (unat ?j * 4) (view img s (unat (indirect ?d))))), s1)"
        and ok1: "fs_ok io dinv blocks s1" and s1: "same_disk img s s1"
        by (rule rbuf_obj_ok [OF ok ue, of "unat ?j * 4" "u32_bytes 0"]) (use entry_offset [OF j1] in auto)
      have none1: "fs_free s1 = {}" using s1 none by (simp add: same_disk_def)
      have "bmap_new_sub s1 (indirect ?d) (indirect ?d) (unat ?j * 4) = Some (Inl (- E_NO_MEM), s1)"
        using alloc_none [OF ok1 none1] by (simp add: bmap_new_sub_def cleanup_ent_def)
      then have "sfs_bmap_get_sub_nolock s (indirect ?d) ?j True = Some (Inl (- E_NO_MEM), s1)"
        using r z ent j1 entry_read [OF j1, of s "indirect ?d"]
        by (simp add: sfs_bmap_get_sub_nolock_def SFS_BLK_NENTRY_def SFS_BLKSIZE_def)
      then show thesis
        using that [OF load [OF get]] ok1 s1 by (simp add: same_disk_def)
    qed
  qed
qed

text \<open>The block behind the last entry of the indirect block: \<open>sfs_bmap_get_nolock\<close> panics.\<close>

lemma load_past_end:
  assumes rep: "file_rep img s (din sin) bs" and i: "unat index = length bs" "length bs = 1036"
  shows "sfs_bmap_load_nolock s sin index = None"
proof -
  have "index = fblocks (din sin)" using i rep by (metis file_rep_def word_unat_eq_iff)
  moreover have "(word_of_nat SFS_NDIRECT :: u32) \<le> index"
    using i by (simp add: SFS_NDIRECT_def word_le_nat_alt)
  then have "unat (index - word_of_nat SFS_NDIRECT) = 1024" using i by (simp add: unat_sub SFS_NDIRECT_def)
  ultimately show ?thesis
    using i by (simp add: sfs_bmap_load_nolock_def sfs_bmap_get_nolock_def SFS_NDIRECT_def
        SFS_BLK_NENTRY_def SFS_BLKSIZE_def Let_def)
qed

subsection \<open>Removing the last block\<close>

lemma last_facts:
  assumes "bs \<noteq> []" and "distinct bs"
  shows "last bs \<in> set bs" and "last bs \<notin> set (butlast bs)" and "distinct (butlast bs)"
    and "last bs = bs ! (length bs - 1)" and "set (butlast bs) \<subseteq> set bs"
proof -
  have "bs = butlast bs @ [last bs]" using assms(1) by simp
  then have "distinct (butlast bs @ [last bs])" using assms(2) by metis
  then show "last bs \<notin> set (butlast bs)" "distinct (butlast bs)" by simp_all
qed (use assms in \<open>simp_all add: last_conv_nth in_set_butlastD subsetI\<close>)

lemma free_sub_ok:
  assumes ok: "fs_ok io dinv blocks s" and ent: "used s ent" and i: "unat index < 1024"
    and b: "entries img s ent ! unat index = b" "used s b" "b \<noteq> ent"
  obtains s' where "sfs_bmap_free_sub_nolock s ent index = Some (Inr (), s')"
    and "fs_ok io dinv blocks s'" and "fs_frame s s'" and "fs_free s' = insert (unat b) (fs_free s)"
    and "view img s' = (view img s)(unat ent := splice (unat index * 4) (u32_bytes 0) (view img s (unat ent)))"
proof -
  obtain s1 where r: "rbuf_obj s (replicate 4 0) ent (unat index * 4) = Some (Inr
      (take (length (replicate 4 (0 :: u8))) (drop (unat index * 4) (view img s (unat ent)))), s1)"
    and ok1: "fs_ok io dinv blocks s1" and s1: "same_disk img s s1"
    by (rule rbuf_obj_ok [OF ok ent, of "unat index * 4" "replicate 4 0"]) (use entry_offset [OF i] in auto)
  have ent1: "used s1 ent" using same_disk_used [OF s1] ent by simp
  obtain s2 where w: "wbuf_obj s1 (u32_bytes 0) ent (unat index * 4) = Some (Inr (), s2)"
    and ok2: "fs_ok io dinv blocks s2" and f2: "fs_frame s1 s2" and free2: "fs_free s2 = fs_free s1"
    and v2: "view img s2 = (view img s1)(unat ent := splice (unat index * 4) (u32_bytes 0) (view img s1 (unat ent)))"
    by (rule wbuf_obj_ok [OF ok1 ent1, of "unat index * 4" "u32_bytes 0"]) (use entry_offset [OF i] in auto)
  have b2: "used s2 b"
    by (rule used_frame [OF f2]) (use free2 same_disk_used [OF s1] b(2) in auto)
  obtain s3 where f: "sfs_block_free s2 b = Some s3" and s3: "fs_ok io dinv blocks s3" "fs_frame s2 s3"
    "fs_free s3 = insert (unat b) (fs_free s2)" "view img s3 = view img s2"
    by (rule free_ok [OF ok2 b2])
  have "assert_inuse s ent = Some ()" using assert_inuse_iff [OF ok, of ent] ent by simp
  moreover have "b \<noteq> 0" using b(2) by (simp add: used_def)
  ultimately have "sfs_bmap_free_sub_nolock s ent index = Some (Inr (), s3)"
    using r w f i b(1) entry_read [OF i, of s ent]
    by (simp add: sfs_bmap_free_sub_nolock_def SFS_BLK_NENTRY_def SFS_BLKSIZE_def)
  moreover have "fs_frame s s1" using s1 by (simp add: same_disk_def)
  ultimately show thesis
    using that [of s3] s3 s1 free2 v2 fs_frame_trans [OF _ fs_frame_trans [OF f2 s3(2)]]
    by (simp add: same_disk_def)
qed

lemma truncate_ok:
  assumes ok: "fs_ok io dinv blocks s" and rep: "file_rep img s (din sin) bs" and ne: "bs \<noteq> []"
  obtains s' sin' where "sfs_bmap_truncate_nolock s sin = Some (Inr (), s', sin')"
    and "fs_ok io dinv blocks s'" and "shrinks s sin bs img s' sin'"
proof -
  let ?d = "din sin" and ?b = "last bs"
  have fb: "unat (fblocks ?d) = length bs" and len: "length bs \<le> 1036" and ld: "length (direct ?d) = 12"
    and dist: "distinct bs" and ub: "\<And>b. b \<in> set bs \<Longrightarrow> used s b"
    using rep by (simp_all add: file_rep_def)
  note l = last_facts [OF ne dist]
  have u: "used s ?b" using ub l(1) by simp
  then have nz: "?b \<noteq> 0" and nf: "unat ?b \<notin> fs_free s" by (simp_all add: used_def)
  have i: "unat (fblocks ?d - 1) = length bs - 1" by (rule shrunk_blocks [OF fb ne])
  have fb0: "fblocks ?d \<noteq> 0" using fb ne by auto
  have old: "used s' c" if "fs_frame s s'" "fs_free s' = insert (unat ?b) (fs_free s)"
    "c \<in> set (butlast bs)" for s' c
  proof -
    have "c \<noteq> ?b" using that(3) l(2) by metis
    then have "unat c \<noteq> unat ?b" by (rule unat_neq)
    moreover have "used s c" using that(3) l(5) ub by (meson subsetD)
    ultimately show ?thesis using that(1,2) by (simp add: used_def fs_frame_def)
  qed
  show thesis
  proof (cases "length bs \<le> 12")
    case True
    then have i12: "unat (fblocks ?d - 1) < 12" using i ne by (simp add: diff_less_Suc le_imp_less_Suc Suc_le_eq)
    have db: "direct ?d ! unat (fblocks ?d - 1) = ?b"
      using rep i i12 ne l(4) by (simp add: file_rep_def slot_less)
    obtain s' where f: "sfs_block_free s ?b = Some s'" and s': "fs_ok io dinv blocks s'" "fs_frame s s'"
      "fs_free s' = insert (unat ?b) (fs_free s)" "view img s' = view img s"
      by (rule free_ok [OF ok u])
    let ?d' = "?d\<lparr>direct := (direct ?d)[unat (fblocks ?d - 1) := 0], fblocks := fblocks ?d - 1\<rparr>"
    let ?sin = "sin\<lparr>din := ?d', dirty := True\<rparr>"
    have t: "sfs_bmap_truncate_nolock s sin = Some (Inr (), s', ?sin)"
      using f db nz i12 fb0
      by (simp add: sfs_bmap_truncate_nolock_def sfs_bmap_free_nolock_def SFS_NDIRECT_def Let_def)
    have "used s' (indirect ?d) \<and> indirect ?d \<notin> set (butlast bs) \<and>
        (\<forall>k < 1024. entries img s' (indirect ?d) ! k = slot (butlast bs) (12 + k))" if "indirect ?d \<noteq> 0"
    proof -
      have "used s (indirect ?d)" "indirect ?d \<notin> set bs"
        and e: "\<forall>k < 1024. entries img s (indirect ?d) ! k = slot bs (12 + k)"
        using rep that by (simp_all add: file_rep_def)
      then have "indirect ?d \<noteq> ?b" "indirect ?d \<notin> set (butlast bs)" using l(1,5) by auto
      moreover from this(1) have "unat (indirect ?d) \<noteq> unat ?b" by (rule unat_neq)
      ultimately have "used s' (indirect ?d)" "indirect ?d \<notin> set (butlast bs)"
        using s'(2,3) \<open>used s (indirect ?d)\<close> by (simp_all add: used_def fs_frame_def)
      then show ?thesis using e True s'(4) by (simp add: entries_def)
    qed
    then have "file_rep img s' ?d' (butlast bs)"
      using rep i len ld l(3) i12 old [OF s'(2,3)] slot_butlast [OF ne] True
      by (auto simp: file_rep_def nth_list_update)
    then have "shrinks s sin bs img s' ?sin" using s' nf by (simp add: shrinks_def sin_kept_def)
    then show thesis by (intro that [OF t s'(1)])
  next
    case False
    let ?j = "fblocks ?d - 1 - word_of_nat SFS_NDIRECT"
    have le: "(word_of_nat SFS_NDIRECT :: u32) \<le> fblocks ?d - 1"
      using i False by (simp add: SFS_NDIRECT_def word_le_nat_alt)
    have "unat ?j = unat (fblocks ?d - 1) - unat (word_of_nat SFS_NDIRECT :: u32)"
      by (rule unat_sub [OF le])
    then have j: "unat ?j = length bs - 13" unfolding i by (simp add: SFS_NDIRECT_def)
    have j1: "unat ?j < 1024" using j len False by simp
    have ent: "indirect ?d \<noteq> 0" using rep False by (auto simp: file_rep_def split: if_splits)
    then have ue: "used s (indirect ?d)" and nin: "indirect ?d \<notin> set bs"
      and es: "\<And>k. k < 1024 \<Longrightarrow> entries img s (indirect ?d) ! k = slot bs (12 + k)"
      using rep by (simp_all add: file_rep_def)
    have eb: "entries img s (indirect ?d) ! unat ?j = ?b"
    proof -
      have "12 + unat ?j = length bs - 1" using j False by simp
      then show ?thesis using es [OF j1] ne l(4) by (simp add: slot_less)
    qed
    have bne: "?b \<noteq> indirect ?d" using nin l(1) by auto
    obtain s' where f: "sfs_bmap_free_sub_nolock s (indirect ?d) ?j = Some (Inr (), s')"
      and s': "fs_ok io dinv blocks s'" "fs_frame s s'" "fs_free s' = insert (unat ?b) (fs_free s)"
        "view img s' = (view img s)(unat (indirect ?d) :=
          splice (unat ?j * 4) (u32_bytes 0) (view img s (unat (indirect ?d))))"
      by (rule free_sub_ok [OF ok ue j1 eb u bne])
    let ?d' = "?d\<lparr>fblocks := fblocks ?d - 1\<rparr>"
    let ?sin = "sin\<lparr>din := ?d', dirty := True\<rparr>"
    have "\<not> unat (fblocks ?d - 1) < SFS_NDIRECT" "unat ?j < SFS_BLK_NENTRY"
      using i False j1 by (simp_all add: SFS_NDIRECT_def SFS_BLK_NENTRY_def SFS_BLKSIZE_def)
    then have t: "sfs_bmap_truncate_nolock s sin = Some (Inr (), s', ?sin)"
      using f ent fb0 by (simp add: sfs_bmap_truncate_nolock_def sfs_bmap_free_nolock_def Let_def)
    have vl: "length (view img s (unat (indirect ?d))) = 4096"
      using view_length [OF ok] ue by (simp add: used_def)
    have w: "entries img s' (indirect ?d) = (entries img s (indirect ?d))[unat ?j := 0]"
      by (rule entries_splice [OF vl j1]) (use s'(4) in simp)
    have "entries img s' (indirect ?d) ! k = slot (butlast bs) (12 + k)" if k: "k < 1024" for k
    proof -
      have "12 + k = length bs - 1 \<longleftrightarrow> k = unat ?j" using j False by auto
      then show ?thesis using k es [OF k] j1 slot_butlast [OF ne, of "12 + k"]
        by (simp add: w nth_list_update)
    qed
    moreover have "used s' (indirect ?d)"
      using ue unat_neq [OF bne] s'(2,3) by (auto simp: used_def fs_frame_def)
    ultimately have "file_rep img s' ?d' (butlast bs)"
      using rep i len l(3,5) nin old [OF s'(2,3)] slot_butlast [OF ne] False ent
      by (auto simp: file_rep_def)
    then have "shrinks s sin bs img s' ?sin" using s' nf ent by (simp add: shrinks_def sin_kept_def)
    then show thesis by (intro that [OF t s'(1)])
  qed
qed

end

end
