(* ===== verification/SfsFile.thy ===== *)
theory SfsFile
  imports SfsBmap
begin

text \<open>
  Reading, writing and resizing files, \<open>lab8/kern/fs/sfs/sfs_inode.c\<close>. The bytes of a file are the
  first \<open>size\<close> bytes of its blocks; the lemmas show that \<open>sfs_io_nolock\<close> and \<open>sfs_truncfile\<close> act on
  them as reading, overwriting and resizing act on a list of bytes.
\<close>

section \<open>The code\<close>

text \<open>\<open>sfs_io_nolock\<close> moves along four variables (\<open>data\<close>, \<open>alen\<close>, \<open>offset\<close>, \<open>blkno\<close>); \<open>io_prog\<close> holds
  them with the caller's buffer, the file system and the inode.\<close>

record 'd io_prog =
  p_buf :: "u8 list"
  p_data :: nat
  p_alen :: nat
  p_offset :: nat
  p_blkno :: u32
  p_sfs :: "'d sfs_fs"
  p_sin :: sfs_inode

type_synonym 'd block_op = "'d sfs_fs \<Rightarrow> u8 list \<Rightarrow> nat \<Rightarrow> u32 \<Rightarrow> (unit res \<times> u8 list \<times> 'd sfs_fs) option"

text \<open>\<open>sfs_buf_op\<close> and \<open>sfs_block_op\<close>, the function pointers chosen by \<open>write\<close>.\<close>

definition sfs_buf_op :: "bool \<Rightarrow> nat \<Rightarrow> nat \<Rightarrow> 'd block_op" where
  "sfs_buf_op write sz blkoff = (\<lambda>sfs buf pos i.
     if write then sfs_wbuf sfs buf pos sz i blkoff else sfs_rbuf sfs buf pos sz i blkoff)"

definition sfs_block_op :: "bool \<Rightarrow> 'd block_op" where
  "sfs_block_op write = (\<lambda>sfs buf pos i.
     if write then sfs_wblock sfs buf pos i 1 else sfs_rblock sfs buf pos i 1)"

text \<open>Load the block and transfer; on an error the progress so far is kept.\<close>

definition io_transfer :: "'d block_op \<Rightarrow> 'd io_prog \<Rightarrow> (unit res \<times> 'd io_prog) option" where
  "io_transfer bop p = do {
     (r, sfs, sin) \<leftarrow> sfs_bmap_load_nolock (p_sfs p) (p_sin p) (p_blkno p);
     let p = p\<lparr>p_sfs := sfs, p_sin := sin\<rparr>;
     case r of
       Inl ret \<Rightarrow> Some (Inl ret, p)
     | Inr i \<Rightarrow> do {
         (r, buf, sfs) \<leftarrow> bop (p_sfs p) (p_buf p) (p_data p) i;
         Some (r, p\<lparr>p_buf := buf, p_sfs := sfs\<rparr>)
       }
   }"

definition io_advance :: "nat \<Rightarrow> 'd io_prog \<Rightarrow> 'd io_prog" where
  "io_advance sz p =
     p\<lparr>p_data := p_data p + sz, p_alen := p_alen p + sz, p_offset := p_offset p + sz,
       p_blkno := p_blkno p + 1\<rparr>"

text \<open>(1) The leading part of a block; it leaves the number of whole blocks still to go.\<close>

definition io_head :: "bool \<Rightarrow> nat \<Rightarrow> nat \<Rightarrow> 'd io_prog \<Rightarrow> (nat res \<times> 'd io_prog) option" where
  "io_head write endpos nblks p =
     (let blkoff = p_offset p mod SFS_BLKSIZE in
      if blkoff \<noteq> 0 then
        let sz = (if nblks \<noteq> 0 then SFS_BLKSIZE - blkoff else endpos - p_offset p) in
        on_ok (io_transfer (sfs_buf_op write sz blkoff) p) (\<lambda>_ p.
          Some (Inr (if nblks \<noteq> 0 then nblks - 1 else nblks), io_advance sz p))
      else Some (Inr nblks, p))"

text \<open>(2) Whole blocks.\<close>

primrec io_blocks :: "bool \<Rightarrow> nat \<Rightarrow> 'd io_prog \<Rightarrow> (unit res \<times> 'd io_prog) option" where
  "io_blocks write 0 p = Some (Inr (), p)"
| "io_blocks write (Suc nblks) p =
     on_ok (io_transfer (sfs_block_op write) p) (\<lambda>_ p. io_blocks write nblks (io_advance SFS_BLKSIZE p))"

text \<open>(3) The trailing part of a block.\<close>

definition io_tail :: "bool \<Rightarrow> nat \<Rightarrow> 'd io_prog \<Rightarrow> (unit res \<times> 'd io_prog) option" where
  "io_tail write endpos p =
     (if p_offset p < endpos then
        let sz = endpos - p_offset p in
        on_ok (io_transfer (sfs_buf_op write sz 0) p) (\<lambda>_ p.
          Some (Inr (), p\<lparr>p_alen := p_alen p + sz\<rparr>))
      else Some (Inr (), p))"

definition io_run :: "bool \<Rightarrow> nat \<Rightarrow> 'd io_prog \<Rightarrow> (unit res \<times> 'd io_prog) option" where
  "io_run write endpos p =
     (let nblks = endpos div SFS_BLKSIZE - unat (p_blkno p) in
      on_ok (io_head write endpos nblks p) (\<lambda>nblks p.
      on_ok (io_blocks write nblks p) (\<lambda>_ p.
      io_tail write endpos p)))"

definition res_ret :: "'a res \<Rightarrow> int" where
  "res_ret r = (case r of Inl e \<Rightarrow> e | Inr _ \<Rightarrow> 0)"

text \<open>The clipping of the end position to the largest file size and, for a read, to the file's size.\<close>

definition clip_endpos :: "bool \<Rightarrow> int \<Rightarrow> int \<Rightarrow> int" where
  "clip_endpos write fsz endpos =
     (let endpos = (if endpos > int SFS_MAX_FILE_SIZE then int SFS_MAX_FILE_SIZE else endpos) in
      if \<not> write \<and> endpos > fsz then fsz else endpos)"

text \<open>\<open>buf\<close> and \<open>pos\<close> are the caller's pointer, \<open>len\<close> is \<open>*alenp\<close> at the call. The sum
  \<open>offset + *alenp\<close> is taken in 64 bits. The result is the return value, \<open>*alenp\<close> and the buffer.\<close>

definition sfs_io_nolock ::
  "'d sfs_fs \<Rightarrow> sfs_inode \<Rightarrow> u8 list \<Rightarrow> nat \<Rightarrow> int \<Rightarrow> nat \<Rightarrow> bool \<Rightarrow>
    (int \<times> nat \<times> u8 list \<times> 'd sfs_fs \<times> sfs_inode) option" where
  "sfs_io_nolock sfs sin buf pos offset len write = do {
     kassert (ftype (din sin) \<noteq> SFS_TYPE_DIR);
     let endpos = sint (word_of_int offset + word_of_nat len :: u64) in
     if offset < 0 \<or> offset \<ge> int SFS_MAX_FILE_SIZE \<or> offset > endpos
     then Some (- E_INVAL, 0, buf, sfs, sin)
     else if offset = endpos then Some (0, 0, buf, sfs, sin)
     else if \<not> write \<and> offset \<ge> uint (fsize (din sin)) then Some (0, 0, buf, sfs, sin)
     else do {
       (r, p) \<leftarrow> io_run write (nat (clip_endpos write (uint (fsize (din sin))) endpos))
         \<lparr>p_buf = buf, p_data = pos, p_alen = 0, p_offset = nat offset,
          p_blkno = word_of_nat (nat offset div SFS_BLKSIZE), p_sfs = sfs, p_sin = sin\<rparr>;
       let sin = p_sin p;
       let grown = nat offset + p_alen p;
       Some (res_ret r, p_alen p, p_buf p, p_sfs p,
         if grown > unat (fsize (din sin))
         then sin\<lparr>din := (din sin)\<lparr>fsize := word_of_nat grown\<rparr>, dirty := True\<rparr> else sin)
     }
   }"

text \<open>\<open>sfs_io\<close> with the I/O buffer.\<close>

definition sfs_io ::
  "'d sfs_fs \<Rightarrow> sfs_inode \<Rightarrow> iobuf \<Rightarrow> bool \<Rightarrow> (int \<times> iobuf \<times> 'd sfs_fs \<times> sfs_inode) option" where
  "sfs_io sfs sin iob write = do {
     (ret, alen, buf, sfs, sin) \<leftarrow>
       sfs_io_nolock sfs sin (io_buf iob) (io_base iob) (io_offset iob) (io_resid iob) write;
     let iob = iob\<lparr>io_buf := buf\<rparr>;
     iob \<leftarrow> (if alen \<noteq> 0 then iobuf_skip iob alen else Some iob);
     Some (ret, iob, sfs, sin)
   }"

definition sfs_read :: "'d sfs_fs \<Rightarrow> sfs_inode \<Rightarrow> iobuf \<Rightarrow> (int \<times> iobuf \<times> 'd sfs_fs \<times> sfs_inode) option" where
  "sfs_read sfs sin iob = sfs_io sfs sin iob False"

definition sfs_write :: "'d sfs_fs \<Rightarrow> sfs_inode \<Rightarrow> iobuf \<Rightarrow> (int \<times> iobuf \<times> 'd sfs_fs \<times> sfs_inode) option" where
  "sfs_write sfs sin iob = sfs_io sfs sin iob True"

text \<open>The two loops of \<open>sfs_truncfile\<close>, over the number of blocks still to add or remove.\<close>

primrec grow_blocks ::
  "nat \<Rightarrow> u32 \<Rightarrow> 'd sfs_fs \<Rightarrow> sfs_inode \<Rightarrow> (unit res \<times> 'd sfs_fs \<times> sfs_inode) option" where
  "grow_blocks 0 nblks sfs sin = Some (Inr (), sfs, sin)"
| "grow_blocks (Suc k) nblks sfs sin =
     on_ok (sfs_bmap_load_nolock sfs sin nblks) (\<lambda>_ (sfs, sin). grow_blocks k (nblks + 1) sfs sin)"

primrec shrink_blocks ::
  "nat \<Rightarrow> 'd sfs_fs \<Rightarrow> sfs_inode \<Rightarrow> (unit res \<times> 'd sfs_fs \<times> sfs_inode) option" where
  "shrink_blocks 0 sfs sin = Some (Inr (), sfs, sin)"
| "shrink_blocks (Suc k) sfs sin =
     on_ok (sfs_bmap_truncate_nolock sfs sin) (\<lambda>_ (sfs, sin). shrink_blocks k sfs sin)"

definition sfs_truncfile ::
  "'d sfs_fs \<Rightarrow> sfs_inode \<Rightarrow> int \<Rightarrow> (unit res \<times> 'd sfs_fs \<times> sfs_inode) option" where
  "sfs_truncfile sfs sin len =
     (if len < 0 \<or> len > int SFS_MAX_FILE_SIZE then Some (Inl (- E_INVAL), sfs, sin)
      else
        let tblks = (word_of_nat (ROUNDUP_DIV (nat len) SFS_BLKSIZE) :: u32) in
        if uint (fsize (din sin)) = len then do {
          kassert (tblks = fblocks (din sin));
          Some (Inr (), sfs, sin)
        } else
          let nblks = fblocks (din sin) in
          on_ok (if nblks < tblks then grow_blocks (unat tblks - unat nblks) nblks sfs sin
                 else if tblks < nblks then shrink_blocks (unat nblks - unat tblks) sfs sin
                 else Some (Inr (), sfs, sin)) (\<lambda>_ (sfs, sin). do {
            kassert (fblocks (din sin) = tblks);
            Some (Inr (), sfs,
              sin\<lparr>din := (din sin)\<lparr>fsize := word_of_nat (nat len)\<rparr>, dirty := True\<rparr>)
          }))"

definition sfs_tryseek ::
  "'d sfs_fs \<Rightarrow> sfs_inode \<Rightarrow> int \<Rightarrow> (unit res \<times> 'd sfs_fs \<times> sfs_inode) option" where
  "sfs_tryseek sfs sin pos =
     (if pos < 0 \<or> pos \<ge> int SFS_MAX_FILE_SIZE then Some (Inl (- E_INVAL), sfs, sin)
      else if pos > uint (fsize (din sin)) then sfs_truncfile sfs sin pos
      else Some (Inr (), sfs, sin))"

section \<open>How a transfer is cut into pieces\<close>

text \<open>The lemma covers reading and writing. \<open>I\<close> is an invariant of the progress, kept by every
  transfer of a piece that lies in one block and ends at or before \<open>endpos\<close>; \<open>X\<close> is what holds when
  such a transfer fails.\<close>

lemma io_transfer_pos:
  assumes "io_transfer bop p = Some (r, p1)"
  shows "p_offset p1 = p_offset p" and "p_blkno p1 = p_blkno p" and "p_data p1 = p_data p"
    and "p_alen p1 = p_alen p"
  using assms by (auto simp: io_transfer_def Let_def split: Option.bind_splits sum.splits)

lemma io_advance_simps [simp]:
  "p_offset (io_advance n p) = p_offset p + n" "p_blkno (io_advance n p) = p_blkno p + 1"
  "p_data (io_advance n p) = p_data p + n" "p_alen (io_advance n p) = p_alen p + n"
  "p_buf (io_advance n p) = p_buf p" "p_sfs (io_advance n p) = p_sfs p"
  "p_sin (io_advance n p) = p_sin p"
  by (simp_all add: io_advance_def)

definition piece_ok ::
  "('d io_prog \<Rightarrow> bool) \<Rightarrow> (int \<Rightarrow> 'd io_prog \<Rightarrow> bool) \<Rightarrow> nat \<Rightarrow> 'd block_op \<Rightarrow> nat \<Rightarrow> nat \<Rightarrow> bool" where
  "piece_ok I X endpos bop sz boff \<longleftrightarrow>
     (\<forall>p. I p \<and> p_offset p = 4096 * unat (p_blkno p) + boff \<and> p_offset p + sz \<le> endpos \<longrightarrow>
       (\<exists>p1. io_transfer bop p = Some (Inr (), p1) \<and> I (io_advance sz p1)) \<or>
       (\<exists>e p1. io_transfer bop p = Some (Inl e, p1) \<and> X e p1))"

lemma piece_okE:
  assumes "piece_ok I X endpos bop sz boff" and "I p" and "p_offset p = 4096 * unat (p_blkno p) + boff"
    and "p_offset p + sz \<le> endpos"
  obtains (ok) p1 where "io_transfer bop p = Some (Inr (), p1)" and "I (io_advance sz p1)"
      and "p_offset p1 = p_offset p" and "p_blkno p1 = p_blkno p"
  | (fail) e p1 where "io_transfer bop p = Some (Inl e, p1)" and "X e p1"
  using assms io_transfer_pos unfolding piece_ok_def by metis

lemma next_blkno:
  assumes "4096 * unat (b :: u32) < n" and "n < 2 ^ 32"
  shows "unat (b + 1) = unat b + 1"
  using assms by (simp add: unat_word_ariths(1))

lemma io_blocks_pieces:
  assumes pieces: "piece_ok I X endpos (sfs_block_op w) 4096 0" and lim: "endpos < 2 ^ 32"
  shows "I p \<Longrightarrow> p_offset p = 4096 * unat (p_blkno p) \<Longrightarrow> p_offset p + 4096 * n \<le> endpos \<Longrightarrow>
    (\<exists>p1. io_blocks w n p = Some (Inr (), p1) \<and> I p1 \<and> p_offset p1 = p_offset p + 4096 * n \<and>
       unat (p_blkno p1) = unat (p_blkno p) + n) \<or>
    (\<exists>e p1. io_blocks w n p = Some (Inl e, p1) \<and> X e p1)"
proof (induction n arbitrary: p)
  case (Suc n)
  show ?case
  proof (rule piece_okE [OF pieces Suc.prems(1)])
    show "p_offset p = 4096 * unat (p_blkno p) + 0" "p_offset p + 4096 \<le> endpos"
      using Suc.prems by simp_all
  next
    fix p1 assume t: "io_transfer (sfs_block_op w) p = Some (Inr (), p1)" "I (io_advance 4096 p1)"
      "p_offset p1 = p_offset p" "p_blkno p1 = p_blkno p"
    have b: "unat (p_blkno p + 1) = unat (p_blkno p) + 1"
      using Suc.prems(2,3) lim by (intro next_blkno [of _ endpos]) simp_all
    have "(\<exists>p2. io_blocks w n (io_advance 4096 p1) = Some (Inr (), p2) \<and> I p2 \<and>
        p_offset p2 = p_offset (io_advance 4096 p1) + 4096 * n \<and>
        unat (p_blkno p2) = unat (p_blkno (io_advance 4096 p1)) + n) \<or>
      (\<exists>e p2. io_blocks w n (io_advance 4096 p1) = Some (Inl e, p2) \<and> X e p2)"
      by (rule Suc.IH) (use t b Suc.prems in simp_all)
    then show ?thesis using t b by (auto simp: SFS_BLKSIZE_def)
  next
    fix e p1 assume "io_transfer (sfs_block_op w) p = Some (Inl e, p1)" "X e p1"
    then show ?thesis by simp
  qed
qed simp

lemma io_run_pieces:
  assumes pieces: "\<And>sz boff. 0 < sz \<Longrightarrow> boff + sz \<le> 4096 \<Longrightarrow> piece_ok I X endpos (sfs_buf_op w sz boff) sz boff"
    and whole: "piece_ok I X endpos (sfs_block_op w) 4096 0"
    and lim: "endpos < 2 ^ 32" and p: "I p" and off: "p_offset p < endpos"
    and blk: "unat (p_blkno p) = p_offset p div 4096"
  shows "(\<exists>p' q. io_run w endpos p = Some (Inr (), p') \<and> I q \<and> p_offset q = endpos \<and>
      p_alen p' = p_alen q \<and> p_buf p' = p_buf q \<and> p_sfs p' = p_sfs q \<and> p_sin p' = p_sin q) \<or>
    (\<exists>e p'. io_run w endpos p = Some (Inl e, p') \<and> X e p')"
proof -
  define nblks where "nblks = endpos div 4096 - unat (p_blkno p)"
  let ?boff = "p_offset p mod 4096"
  have po: "p_offset p = 4096 * unat (p_blkno p) + ?boff" by (simp add: blk)
  have kE: "unat (p_blkno p) \<le> endpos div 4096" using off blk by (simp add: div_le_mono)
  then have E: "endpos = 4096 * (unat (p_blkno p) + nblks) + endpos mod 4096"
    by (simp add: nblks_def)
  have m: "?boff < 4096" "endpos mod 4096 < 4096" by simp_all
  \<comment> \<open>the tail, from a state with at most one partial block to go\<close>
  have tail: "(\<exists>p' q'. io_tail w endpos q = Some (Inr (), p') \<and> I q' \<and> p_offset q' = endpos \<and>
        p_alen p' = p_alen q' \<and> p_buf p' = p_buf q' \<and> p_sfs p' = p_sfs q' \<and> p_sin p' = p_sin q') \<or>
      (\<exists>e p'. io_tail w endpos q = Some (Inl e, p') \<and> X e p')"
    if q: "I q" "p_offset q \<le> endpos"
      "p_offset q < endpos \<Longrightarrow> p_offset q = 4096 * unat (p_blkno q) \<and> endpos - p_offset q < 4096" for q
  proof (cases "p_offset q < endpos")
    case True
    let ?sz = "endpos - p_offset q"
    have pc: "piece_ok I X endpos (sfs_buf_op w ?sz 0) ?sz 0" using q(3) [OF True] True by (intro pieces) linarith+
    show ?thesis
    proof (rule piece_okE [OF pc q(1)])
      show "p_offset q = 4096 * unat (p_blkno q) + 0" "p_offset q + ?sz \<le> endpos"
        using q(3) True by simp_all
    next
      fix p1 assume t: "io_transfer (sfs_buf_op w ?sz 0) q = Some (Inr (), p1)" "I (io_advance ?sz p1)"
        "p_offset p1 = p_offset q"
      then have "io_tail w endpos q = Some (Inr (), p1\<lparr>p_alen := p_alen p1 + ?sz\<rparr>)"
        using True by (simp add: io_tail_def Let_def)
      then show ?thesis
        using t True by (intro disjI1 exI [of _ "p1\<lparr>p_alen := p_alen p1 + ?sz\<rparr>"]
            exI [of _ "io_advance ?sz p1"]) simp
    next
      fix e p1 assume "io_transfer (sfs_buf_op w ?sz 0) q = Some (Inl e, p1)" "X e p1"
      then show ?thesis using True by (intro disjI2) (simp add: io_tail_def Let_def)
    qed
  next
    case False
    then have "io_tail w endpos q = Some (Inr (), q)" by (simp add: io_tail_def)
    then show ?thesis using q False by (intro disjI1 exI [of _ q]) simp
  qed
  \<comment> \<open>the whole blocks and the tail\<close>
  have rest: "(\<exists>p' q'. on_ok (io_blocks w n q) (\<lambda>_ p. io_tail w endpos p) = Some (Inr (), p') \<and> I q' \<and>
        p_offset q' = endpos \<and> p_alen p' = p_alen q' \<and> p_buf p' = p_buf q' \<and> p_sfs p' = p_sfs q' \<and>
        p_sin p' = p_sin q') \<or>
      (\<exists>e p'. on_ok (io_blocks w n q) (\<lambda>_ p. io_tail w endpos p) = Some (Inl e, p') \<and> X e p')"
    if q: "I q" "p_offset q = 4096 * unat (p_blkno q)" "endpos div 4096 = unat (p_blkno q) + n" for q n
  proof -
    have e: "endpos = p_offset q + 4096 * n + endpos mod 4096"
      using q(2,3) div_mult_mod_eq [of endpos 4096] by simp
    then have le: "p_offset q + 4096 * n \<le> endpos" by simp
    from io_blocks_pieces [OF whole lim q(1,2) le] show ?thesis
    proof (elim disjE exE conjE)
      fix p1 assume b: "io_blocks w n q = Some (Inr (), p1)" "I p1"
        "p_offset p1 = p_offset q + 4096 * n" "unat (p_blkno p1) = unat (p_blkno q) + n"
      have al: "p_offset p1 = 4096 * unat (p_blkno p1) \<and> endpos - p_offset p1 < 4096"
        using b(3,4) q(2) e m by simp
      have "p_offset p1 \<le> endpos" using b(3) le by simp
      from tail [OF b(2) this al] show ?thesis using b(1) by simp
    next
      fix e p1 assume "io_blocks w n q = Some (Inl e, p1)" "X e p1"
      then show ?thesis by simp
    qed
  qed
  have run: "io_run w endpos p = on_ok (io_head w endpos nblks p) (\<lambda>n p.
      on_ok (io_blocks w n p) (\<lambda>_ p. io_tail w endpos p))"
    by (simp add: io_run_def nblks_def Let_def SFS_BLKSIZE_def)
  show ?thesis
  proof (cases "?boff = 0")
    case True
    then have "io_head w endpos nblks p = Some (Inr nblks, p)" by (simp add: io_head_def SFS_BLKSIZE_def)
    moreover have "p_offset p = 4096 * unat (p_blkno p)" using po True by simp
    moreover have "endpos div 4096 = unat (p_blkno p) + nblks" using kE by (simp add: nblks_def)
    ultimately show ?thesis using rest [OF p, of nblks] run by simp
  next
    case False
    let ?sz = "if nblks \<noteq> 0 then 4096 - ?boff else endpos - p_offset p"
    have sz: "0 < ?sz" "?boff + ?sz \<le> 4096" "p_offset p + ?sz \<le> endpos"
      using off po E m by (auto split: if_splits)
    have head: "io_head w endpos nblks p = on_ok (io_transfer (sfs_buf_op w ?sz ?boff) p)
        (\<lambda>_ p. Some (Inr (if nblks \<noteq> 0 then nblks - 1 else nblks), io_advance ?sz p))"
      using False unfolding io_head_def Let_def SFS_BLKSIZE_def by (simp only: if_True not_False_eq_True)
    show ?thesis
    proof (rule piece_okE [OF pieces [OF sz(1,2)] p po sz(3)])
      fix p1 assume t: "io_transfer (sfs_buf_op w ?sz ?boff) p = Some (Inr (), p1)"
        "I (io_advance ?sz p1)" "p_offset p1 = p_offset p" "p_blkno p1 = p_blkno p"
      have b: "unat (p_blkno p + 1) = unat (p_blkno p) + 1"
        using off po lim by (intro next_blkno [of _ endpos]) simp_all
      show ?thesis
      proof (cases "nblks = 0")
        case True
        then have "p_offset (io_advance ?sz p1) = endpos" using t off by simp
        then show ?thesis
          using run head t True tail [OF t(2)] by simp
      next
        case ne: False
        have "p_offset (io_advance ?sz p1) = 4096 * unat (p_blkno (io_advance ?sz p1))"
          using ne t(3,4) b po m by simp
        moreover have "endpos div 4096 = unat (p_blkno (io_advance ?sz p1)) + (nblks - 1)"
          using ne t(4) b kE by (simp add: nblks_def)
        ultimately show ?thesis using run head t ne rest [OF t(2), of "nblks - 1"] by simp
      qed
    next
      fix e p1 assume "io_transfer (sfs_buf_op w ?sz ?boff) p = Some (Inl e, p1)" "X e p1"
      then show ?thesis using run head by simp
    qed
  qed
qed

section \<open>The bytes of a file\<close>

definition content :: "('d \<Rightarrow> u8 list) \<Rightarrow> 'd sfs_fs \<Rightarrow> u32 list \<Rightarrow> u8 list" where
  "content img s bs = concat (map (\<lambda>b. view img s (unat b)) bs)"

text \<open>\<open>wrote off d c c'\<close>: writing \<open>d\<close> at \<open>off\<close> into \<open>c\<close> gave \<open>c'\<close>, with zeros where \<open>c'\<close> is longer.\<close>

definition wrote :: "nat \<Rightarrow> u8 list \<Rightarrow> u8 list \<Rightarrow> u8 list \<Rightarrow> bool" where
  "wrote off d c c' \<longleftrightarrow> length c \<le> length c' \<and> off + length d \<le> length c' \<and>
     (\<forall>i < length c'. c' ! i = (if off \<le> i \<and> i < off + length d then d ! (i - off)
        else if i < length c then c ! i else 0))"

lemma wrote_Nil: "off \<le> length c \<Longrightarrow> wrote off [] c c"
  by (auto simp: wrote_def)

lemma wrote_step:
  assumes w: "wrote off d c c1" and len: "off + length d + length e \<le> length c1 + k"
    and c2: "c2 = splice (off + length d) e (c1 @ replicate k 0)"
  shows "wrote off (d @ e) c c2"
proof -
  have l: "length c2 = length c1 + k" using len by (simp add: c2)
  have "c2 ! i = (if off \<le> i \<and> i < off + length (d @ e) then (d @ e) ! (i - off)
      else if i < length c then c ! i else 0)" if i: "i < length c2" for i
  proof -
    have "c2 ! i = (if i < off + length d then (c1 @ replicate k 0) ! i
        else if i < off + length d + length e then e ! (i - (off + length d))
        else (c1 @ replicate k 0) ! i)"
      unfolding c2 using len i l by (subst nth_splice) simp_all
    moreover have "(c1 @ replicate k 0) ! i = (if i < length c1 then c1 ! i else 0)"
      using i l by (simp add: nth_append)
    moreover have "length c \<le> length c1" "off + length d \<le> length c1" using w by (simp_all add: wrote_def)
    moreover have "i < length c1 \<Longrightarrow> c1 ! i = (if off \<le> i \<and> i < off + length d then d ! (i - off)
        else if i < length c then c ! i else 0)"
      using w by (simp add: wrote_def)
    ultimately show ?thesis by (auto simp: nth_append)
  qed
  then show ?thesis using w len l by (simp add: wrote_def)
qed

text \<open>Writing at or before the end of a file, on its bytes.\<close>

definition overwrite :: "nat \<Rightarrow> u8 list \<Rightarrow> u8 list \<Rightarrow> u8 list" where
  "overwrite off d xs = take off xs @ d @ drop (off + length d) xs"

lemma wrote_overwrite:
  assumes w: "wrote off d c c'" and n: "n \<le> length c" and off: "off \<le> n"
  shows "take (max n (off + length d)) c' = overwrite off d (take n c)"
proof (rule nth_equalityI)
  have l: "max n (off + length d) \<le> length c'" using w n by (simp add: wrote_def)
  have len: "length (overwrite off d (take n c)) = max n (off + length d)"
    using n off by (simp add: overwrite_def)
  show "length (take (max n (off + length d)) c') = length (overwrite off d (take n c))"
    using l len by simp
  fix i assume "i < length (take (max n (off + length d)) c')"
  then have i: "i < length c'" "i < max n (off + length d)" using l by simp_all
  then have c': "c' ! i = (if off \<le> i \<and> i < off + length d then d ! (i - off)
      else if i < length c then c ! i else 0)" using w by (simp add: wrote_def)
  have "overwrite off d (take n c) ! i =
      (if i < off then c ! i else if i < off + length d then d ! (i - off) else c ! i)"
  proof -
    have "min (length c) (min n off) = off" using n off by simp
    moreover have "off + length d + (i - off - length d) = i" if "\<not> i < off + length d"
      using that by simp
    ultimately show ?thesis using i n off
      by (auto simp: overwrite_def nth_append)
  qed
  then show "take (max n (off + length d)) c' ! i = overwrite off d (take n c) ! i"
    using c' i n off by auto
qed

lemma endpos_sum:
  assumes "0 \<le> offset" and "offset + int len < 2 ^ 63"
  shows "sint (word_of_int offset + word_of_nat len :: u64) = offset + int len"
proof -
  have e: "(word_of_int offset + word_of_nat len :: u64) = word_of_int (offset + int len)" by simp
  have "uint (word_of_int (offset + int len) :: u64) = (offset + int len) mod 2 ^ LENGTH(64)"
    by (rule uint_word_of_int)
  also have "\<dots> = offset + int len" using assms by simp
  finally have "uint (word_of_int (offset + int len) :: u64) = offset + int len" .
  then show ?thesis unfolding e using assms by (subst sint_small_u64) simp_all
qed

text \<open>A well-formed file: the block count is the size, rounded up.\<close>

definition file_ok :: "('d \<Rightarrow> u8 list) \<Rightarrow> 'd sfs_fs \<Rightarrow> sfs_disk_inode \<Rightarrow> u32 list \<Rightarrow> bool" where
  "file_ok img s d bs \<longleftrightarrow> file_rep img s d bs \<and>
     unat (fsize d) \<le> 4096 * length bs \<and> 4096 * length bs < unat (fsize d) + 4096"

definition file_bytes :: "('d \<Rightarrow> u8 list) \<Rightarrow> 'd sfs_fs \<Rightarrow> sfs_disk_inode \<Rightarrow> u32 list \<Rightarrow> u8 list" where
  "file_bytes img s d bs = take (unat (fsize d)) (content img s bs)"

section \<open>Reading\<close>

context block_device
begin

lemma file_blocks_4096:
  assumes "fs_ok io dinv blocks s" and "file_rep img s d bs"
  shows "\<forall>x \<in> set (map (\<lambda>b. view img s (unat b)) bs). length x = 4096"
proof
  fix x assume "x \<in> set (map (\<lambda>b. view img s (unat b)) bs)"
  then obtain b where "b \<in> set bs" "x = view img s (unat b)" by auto
  then show "length x = 4096"
    using view_length [OF assms(1)] assms(2) by (auto simp: file_rep_def used_def)
qed

lemma content_length:
  "fs_ok io dinv blocks s \<Longrightarrow> file_rep img s d bs \<Longrightarrow> length (content img s bs) = 4096 * length bs"
  using length_concat_blocks [OF file_blocks_4096] by (simp add: content_def)

lemma content_block:
  assumes "fs_ok io dinv blocks s" and "file_rep img s d bs" and "k < length bs" and "off + n \<le> 4096"
  shows "take n (drop (4096 * k + off) (content img s bs)) = take n (drop off (view img s (unat (bs ! k))))"
  using concat_block [OF file_blocks_4096 [OF assms(1,2)], of k off n] assms(3,4)
  by (simp add: content_def)

text \<open>Both ways of reading part of a block, and both ways of writing it.\<close>

lemma read_op:
  assumes "0 < sz" and "boff + sz \<le> 4096" and ok: "fs_ok io dinv blocks s" and b: "used s b"
    and buf: "pos + sz \<le> length buf"
    and bop: "bop = sfs_buf_op False sz boff \<or> (bop = sfs_block_op False \<and> sz = 4096)"
  obtains s' where "bop s buf pos b = Some (Inr (), splice pos (take sz (drop boff (view img s (unat b)))) buf, s')"
    and "fs_ok io dinv blocks s'" and "same_disk img s s'"
  using bop
proof
  assume bop: "bop = sfs_buf_op False sz boff"
  from b have b': "b < sblocks (super s)" "b \<noteq> 0" by (simp_all add: used_def)
  obtain d' sb where "sfs_rbuf s buf pos sz b boff =
      Some (Inr (), splice pos (take sz (drop boff (view img s (unat b)))) buf,
        s\<lparr>dstate := d', sfs_buffer := sb\<rparr>)"
    and d': "dinv d'" "length sb = 4096" "blk (img d') = view img s"
    by (rule rbuf_ok [OF ok b' _ assms(2) buf]) (use assms(1,2) in auto)
  then show thesis
    using that [of "s\<lparr>dstate := d', sfs_buffer := sb\<rparr>"] bop fs_ok_dstate [OF ok d'(1,2)]
    by (simp add: sfs_buf_op_def same_disk_def view_def fun_eq_iff)
next
  assume bop: "bop = sfs_block_op False \<and> sz = 4096"
  then have "boff = 0" using assms(2) by simp
  from b have b': "b < sblocks (super s)" "b \<noteq> 0" by (simp_all add: used_def)
  obtain d' where r: "sfs_rblock s buf pos b 1 =
      Some (Inr (), splice pos (view img s (unat b)) buf, s\<lparr>dstate := d'\<rparr>)"
    and d': "dinv d'" "blk (img d') = view img s"
    by (rule rblock_ok [OF ok b', of pos buf]) (use buf bop in auto)
  have vl: "length (view img s (unat b)) = 4096" by (rule view_length [OF ok b'(1)])
  have "fs_ok io dinv blocks (s\<lparr>dstate := d'\<rparr>)" using ok d'(1) by (simp add: fs_ok_def fs_free_def)
  then show thesis
    using that [of "s\<lparr>dstate := d'\<rparr>"] bop r d'(2) vl \<open>boff = 0\<close>
    by (simp add: sfs_block_op_def same_disk_def view_def fun_eq_iff fs_frame_def fs_free_def)
qed

definition read_inv ::
  "'d sfs_fs \<Rightarrow> sfs_inode \<Rightarrow> u32 list \<Rightarrow> u8 list \<Rightarrow> nat \<Rightarrow> nat \<Rightarrow> 'd io_prog \<Rightarrow> bool" where
  "read_inv s sin bs buf pos off p \<longleftrightarrow> fs_ok io dinv blocks (p_sfs p) \<and> same_disk img s (p_sfs p) \<and>
     p_sin p = sin \<and> p_data p = pos + p_alen p \<and> p_offset p = off + p_alen p \<and>
     p_buf p = splice pos (take (p_alen p) (drop off (content img s bs))) buf"

lemma read_piece:
  assumes ok: "fs_ok io dinv blocks s" and rep: "file_rep img s (din sin) bs"
    and E: "endpos \<le> 4096 * length bs" and buf: "pos + (endpos - off) \<le> length buf"
    and sz: "0 < sz" "boff + sz \<le> 4096"
    and bop: "bop = sfs_buf_op False sz boff \<or> (bop = sfs_block_op False \<and> sz = 4096)"
  shows "piece_ok (read_inv s sin bs buf pos off) (\<lambda>_ _. False) endpos bop sz boff"
  unfolding piece_ok_def
proof (intro allI impI disjI1, elim conjE)
  fix p
  assume I: "read_inv s sin bs buf pos off p" and po: "p_offset p = 4096 * unat (p_blkno p) + boff"
    and le: "p_offset p + sz \<le> endpos"
  let ?k = "unat (p_blkno p)" and ?s = "p_sfs p" and ?c = "content img s bs"
  from I have okp: "fs_ok io dinv blocks ?s" and sd: "same_disk img s ?s" and sin: "p_sin p = sin"
    and dat: "p_data p = pos + p_alen p" and off: "p_offset p = off + p_alen p"
    and pb: "p_buf p = splice pos (take (p_alen p) (drop off ?c)) buf"
    by (simp_all add: read_inv_def)
  have k: "?k < length bs" using po le E sz by simp
  have repp: "file_rep img ?s (din (p_sin p)) bs" using rep sin same_disk_rep [OF sd] by simp
  obtain s1 where l: "sfs_bmap_load_nolock ?s (p_sin p) (p_blkno p) = Some (Inr (bs ! ?k), s1, p_sin p)"
    and ok1: "fs_ok io dinv blocks s1" and sd1: "same_disk img ?s s1"
    by (rule load_old [OF okp repp k])
  have used1: "used s1 (bs ! ?k)"
    using same_disk_used [OF sd1] repp k by (simp add: file_rep_def)
  have clen: "length ?c = 4096 * length bs" by (rule content_length [OF ok rep])
  have room: "p_data p + sz \<le> length (p_buf p)" and lt: "length (take (p_alen p) (drop off ?c)) = p_alen p"
    using dat off le buf E clen by (simp_all add: pb)
  obtain s2 where r: "bop s1 (p_buf p) (p_data p) (bs ! ?k) = Some (Inr (),
      splice (p_data p) (take sz (drop boff (view img s1 (unat (bs ! ?k))))) (p_buf p), s2)"
    and ok2: "fs_ok io dinv blocks s2" and sd2: "same_disk img s1 s2"
    by (rule read_op [OF sz ok1 used1 room bop])
  have sds: "same_disk img s s2" using same_disk_trans [OF same_disk_trans [OF sd sd1] sd2] .
  have piece: "take sz (drop boff (view img s1 (unat (bs ! ?k)))) = take sz (drop (p_offset p) ?c)"
    using content_block [OF ok rep k sz(2)] po same_disk_trans [OF sd sd1]
    by (simp add: same_disk_def)
  let ?p1 = "p\<lparr>p_sfs := s2, p_sin := p_sin p,
    p_buf := splice (p_data p) (take sz (drop (p_offset p) ?c)) (p_buf p)\<rparr>"
  have t: "io_transfer bop p = Some (Inr (), ?p1)"
    using l r piece by (simp add: io_transfer_def)
  have "splice (pos + p_alen p) (take sz (drop (off + p_alen p) ?c))
      (splice pos (take (p_alen p) (drop off ?c)) buf) =
      splice pos (take (p_alen p + sz) (drop off ?c)) buf"
  proof -
    have "take (p_alen p + sz) (drop off ?c) =
        take (p_alen p) (drop off ?c) @ take sz (drop (off + p_alen p) ?c)"
      by (rule take_drop_add)
    then show ?thesis
      using splice_splice_append [of pos "take (p_alen p) (drop off ?c)"
          "take sz (drop (off + p_alen p) ?c)" buf] lt off le buf by simp
  qed
  then have "read_inv s sin bs buf pos off (io_advance sz ?p1)"
    using ok2 sds sin dat off pb by (simp add: read_inv_def)
  then show "\<exists>p1. io_transfer bop p = Some (Inr (), p1) \<and>
      read_inv s sin bs buf pos off (io_advance sz p1)" using t by blast
qed

lemma file_bytes_length:
  assumes "fs_ok io dinv blocks s" and "file_ok img s d bs"
  shows "length (file_bytes img s d bs) = unat (fsize d)"
proof -
  have "length (content img s bs) = 4096 * length bs"
    by (rule content_length [OF assms(1), of d]) (use assms(2) in \<open>simp add: file_ok_def\<close>)
  then show ?thesis using assms(2) by (auto simp: file_bytes_def file_ok_def)
qed

lemma io_nolock_read:
  assumes ok: "fs_ok io dinv blocks s" and f: "file_ok img s (din sin) bs"
    and ty: "ftype (din sin) \<noteq> SFS_TYPE_DIR"
    and off: "0 \<le> offset" "offset < int SFS_MAX_FILE_SIZE" "offset + int len < 2 ^ 63"
    and buf: "pos + len \<le> length buf"
  obtains s' where "sfs_io_nolock s sin buf pos offset len False =
      (let bs = take len (drop (nat offset) (file_bytes img s (din sin) bs)) in
       Some (0, length bs, splice pos bs buf, s', sin))"
    and "fs_ok io dinv blocks s'" and "same_disk img s s'"
proof -
  let ?off = "nat offset" and ?bytes = "file_bytes img s (din sin) bs"
  obtain n where un: "unat (fsize (din sin)) = n" and ui: "uint (fsize (din sin)) = int n"
    by (simp add: uint_nat)
  have rep: "file_rep img s (din sin) bs" and n: "n \<le> 4096 * length bs" and lb: "length bs \<le> 1036"
    using f un by (simp_all add: file_ok_def file_rep_def)
  have bl: "length ?bytes = n" using file_bytes_length [OF ok f] un by simp
  have e: "sint (word_of_int offset + word_of_nat len :: u64) = offset + int len"
    by (rule endpos_sum [OF off(1,3)])
  have nmax: "n \<le> SFS_MAX_FILE_SIZE" using n lb by (simp add: SFS_MAX_FILE_SIZE_def)
  show thesis
  proof (cases "len = 0 \<or> n \<le> ?off")
    case True
    have "sfs_io_nolock s sin buf pos offset len False = Some (0, 0, buf, s, sin)"
    proof (cases "len = 0")
      case True
      then show ?thesis using off e ty by (simp add: sfs_io_nolock_def)
    next
      case False
      then have "int n \<le> offset" using \<open>len = 0 \<or> n \<le> ?off\<close> off(1) by auto
      then show ?thesis using False off e ty by (simp add: sfs_io_nolock_def ui Let_def)
    qed
    moreover have "take len (drop ?off ?bytes) = []" using True bl by auto
    ultimately show thesis using ok by (intro that [of s]) (simp_all only: Let_def splice_Nil list.size same_disk_refl)
  next
    case False
    let ?E = "min (?off + len) n"
    define p0 where "p0 = \<lparr>p_buf = buf, p_data = pos, p_alen = 0, p_offset = ?off,
      p_blkno = word_of_nat (?off div SFS_BLKSIZE), p_sfs = s, p_sin = sin\<rparr>"
    have E: "?E \<le> 4096 * length bs" "?E < 2 ^ 32" "?off < ?E"
      using n lb False off(2) by (auto simp: SFS_MAX_FILE_SIZE_def)
    have b: "pos + (?E - ?off) \<le> length buf" using buf by simp
    have "?off div 4096 \<le> ?off" by simp
    then have "?off div 4096 < 2 ^ 32" using E(2,3) by linarith
    then have blk: "unat (p_blkno p0) = p_offset p0 div 4096"
      by (simp add: p0_def SFS_BLKSIZE_def unat_word_nat_u32)
    have I0: "read_inv s sin bs buf pos ?off p0" using ok by (simp add: read_inv_def p0_def)
    have run: "(\<exists>p' q. io_run False ?E p0 = Some (Inr (), p') \<and> read_inv s sin bs buf pos ?off q \<and>
        p_offset q = ?E \<and> p_alen p' = p_alen q \<and> p_buf p' = p_buf q \<and> p_sfs p' = p_sfs q \<and>
        p_sin p' = p_sin q) \<or> (\<exists>e p'. io_run False ?E p0 = Some (Inl e, p') \<and> False)"
    proof (rule io_run_pieces)
      show "?E < 2 ^ 32" "read_inv s sin bs buf pos ?off p0" "unat (p_blkno p0) = p_offset p0 div 4096"
        by (rule E(2) I0 blk)+
      show "piece_ok (read_inv s sin bs buf pos ?off) (\<lambda>_ _. False) ?E (sfs_buf_op False sz boff) sz boff"
        if "0 < sz" "boff + sz \<le> 4096" for sz boff
        by (rule read_piece [OF ok rep E(1) b that]) simp
      show "piece_ok (read_inv s sin bs buf pos ?off) (\<lambda>_ _. False) ?E (sfs_block_op False) 4096 0"
        by (rule read_piece [OF ok rep E(1) b]) simp_all
      show "p_offset p0 < ?E" using E(3) by (simp add: p0_def)
    qed
    then obtain p' q where r: "io_run False ?E p0 = Some (Inr (), p')" and q: "read_inv s sin bs buf pos ?off q"
      "p_offset q = ?E" "p_alen p' = p_alen q" "p_buf p' = p_buf q" "p_sfs p' = p_sfs q" "p_sin p' = p_sin q"
      by blast
    have al: "p_alen q = ?E - ?off" using q(1,2) by (simp add: read_inv_def)
    have endE: "nat (clip_endpos False (int n) (offset + int len)) = ?E"
      using nmax off(1) by (auto simp: clip_endpos_def Let_def)
    have grown: "\<not> ?off + p_alen p' > n" "din (p_sin p') = din sin"
      using q al E(3) by (simp_all add: read_inv_def)
    have "\<not> offset \<ge> int n" "0 < len" using E(3) off(1) by auto
    then have "sfs_io_nolock s sin buf pos offset len False = Some (0, p_alen p', p_buf p', p_sfs p', p_sin p')"
      using off ty r grown endE
      by (simp add: sfs_io_nolock_def e ui un Let_def p0_def [symmetric] res_ret_def)
    moreover have bs: "take len (drop ?off ?bytes) = take (?E - ?off) (drop ?off (content img s bs))"
    proof -
      have "?E - ?off = min len (n - ?off)" using E(3) by auto
      then show ?thesis by (simp add: file_bytes_def drop_take un)
    qed
    moreover have "length (take len (drop ?off ?bytes)) = ?E - ?off"
    proof -
      have "length (take len (drop ?off ?bytes)) = min len (n - ?off)" by (simp only: length_take length_drop bl min.commute)
      also have "\<dots> = ?E - ?off" using E(3) by auto
      finally show ?thesis .
    qed
    moreover have "p_buf p' = splice pos (take len (drop ?off ?bytes)) buf"
      using q(1) by (simp only: q(4) read_inv_def al bs)
    moreover have "p_sin p' = sin" using q(1) by (simp only: q(6) read_inv_def)
    ultimately have "sfs_io_nolock s sin buf pos offset len False =
      (let bs = take len (drop ?off ?bytes) in Some (0, length bs, splice pos bs buf, p_sfs p', sin))"
      by (simp only: Let_def q(3) al)
    then show thesis
    proof (rule that)
      show "fs_ok io dinv blocks (p_sfs p')" "same_disk img s (p_sfs p')"
        using q(1) by (simp_all only: q(5) read_inv_def)
    qed
  qed
qed

end

end
