(* ===== verification/SfsWrite.thy ===== *)
theory SfsWrite
  imports SfsFile
begin

text \<open>
  Writing and resizing files, on the definitions of theory SfsFile: growing a file by whole blocks
  (\<open>grown\<close>), the write path of \<open>sfs_io_nolock\<close>, the two directions of \<open>sfs_truncfile\<close>, and the
  properties of reading and writing on device disk0.
\<close>

section \<open>A file that grows by whole blocks\<close>

text \<open>The free blocks it takes to bring a file to \<open>n\<close> blocks.\<close>

definition missing :: "nat \<Rightarrow> sfs_disk_inode \<Rightarrow> u32 list \<Rightarrow> nat" where
  "missing n d bs = (if n \<le> length bs then 0
     else n - length bs + (if 12 < n \<and> indirect d = 0 then 1 else 0))"

lemma need_missing: "length bs < n \<Longrightarrow> need d bs \<le> missing n d bs"
  by (auto simp: need_def missing_def)

definition grown ::
  "('d \<Rightarrow> u8 list) \<Rightarrow> 'd sfs_fs \<Rightarrow> sfs_inode \<Rightarrow> u32 list \<Rightarrow> 'd sfs_fs \<Rightarrow> sfs_inode \<Rightarrow> u32 list \<Rightarrow> bool" where
  "grown img s sin bs s' sin' bs' \<longleftrightarrow>
     file_rep img s' (din sin') bs' \<and> fs_frame s s' \<and> take (length bs) bs' = bs \<and> fs_free s' \<subseteq> fs_free s \<and>
     unat ` owned (din sin') bs' = unat ` owned (din sin) bs \<union> (fs_free s - fs_free s') \<and>
     (\<forall>c. c \<notin> fs_free s \<and> c \<notin> unat ` owned (din sin) bs \<longrightarrow> view img s' c = view img s c) \<and>
     (\<forall>n \<ge> length bs'. card (fs_free s) + missing n (din sin') bs' =
        card (fs_free s') + missing n (din sin) bs) \<and>
     ino sin' = ino sin \<and> reclaim_count sin' = reclaim_count sin \<and>
     fsize (din sin') = fsize (din sin) \<and> ftype (din sin') = ftype (din sin) \<and>
     nlinks (din sin') = nlinks (din sin) \<and> sin_kept sin sin'"

lemma grown_refl: "file_rep img s (din sin) bs \<Longrightarrow> grown img s sin bs s sin bs"
  by (simp add: grown_def)

lemma grown_length: "grown img s sin bs s' sin' bs' \<Longrightarrow> length bs \<le> length bs'"
  by (metis grown_def length_take min.absorb_iff2 min.commute)

lemma grown_trans:
  assumes g1: "grown img s sin bs s1 sin1 bs1" and g2: "grown img s1 sin1 bs1 s2 sin2 bs2"
  shows "grown img s sin bs s2 sin2 bs2"
proof -
  have l: "length bs \<le> length bs1" "length bs1 \<le> length bs2"
    using grown_length [OF g1] grown_length [OF g2] .
  have pre1: "take (length bs) bs1 = bs" using g1 by (simp add: grown_def)
  have pre2: "take (length bs1) bs2 = bs1" using g2 by (simp add: grown_def)
  have "take (length bs) (take (length bs1) bs2) = bs" by (simp only: pre1 pre2)
  then have pre: "take (length bs) bs2 = bs" using l(1) by (simp add: min_def)
  have "fs_frame s s1" "fs_frame s1 s2" using g1 g2 unfolding grown_def by blast+
  then have fr: "fs_frame s s2" by (rule fs_frame_trans)
  have free1: "fs_free s1 \<subseteq> fs_free s" using g1 by (simp add: grown_def)
  have free2: "fs_free s2 \<subseteq> fs_free s1" using g2 by (simp add: grown_def)
  note free = free1 free2
  have own1: "unat ` owned (din sin1) bs1 = unat ` owned (din sin) bs \<union> (fs_free s - fs_free s1)"
    using g1 by (simp add: grown_def)
  have own2: "unat ` owned (din sin2) bs2 = unat ` owned (din sin1) bs1 \<union> (fs_free s1 - fs_free s2)"
    using g2 by (simp add: grown_def)
  have own: "unat ` owned (din sin2) bs2 = unat ` owned (din sin) bs \<union> (fs_free s - fs_free s2)"
    using own1 own2 free by auto
  have v: "view img s2 c = view img s c" if c: "c \<notin> fs_free s" "c \<notin> unat ` owned (din sin) bs" for c
  proof -
    have "c \<notin> fs_free s1" "c \<notin> unat ` owned (din sin1) bs1" using c own1 free by auto
    then have "view img s2 c = view img s1 c" using g2 by (simp add: grown_def)
    then show ?thesis using g1 c by (simp add: grown_def)
  qed
  have acc: "card (fs_free s) + missing n (din sin2) bs2 = card (fs_free s2) + missing n (din sin) bs"
    if n: "length bs2 \<le> n" for n
  proof -
    have "\<forall>n \<ge> length bs1. card (fs_free s) + missing n (din sin1) bs1 = card (fs_free s1) + missing n (din sin) bs"
      "\<forall>n \<ge> length bs2. card (fs_free s1) + missing n (din sin2) bs2 = card (fs_free s2) + missing n (din sin1) bs1"
      using g1 g2 unfolding grown_def by blast+
    then have "card (fs_free s) + missing n (din sin1) bs1 = card (fs_free s1) + missing n (din sin) bs"
      "card (fs_free s1) + missing n (din sin2) bs2 = card (fs_free s2) + missing n (din sin1) bs1"
      using n l by auto
    then show ?thesis by linarith
  qed
  have rest: "file_rep img s2 (din sin2) bs2" "ino sin2 = ino sin" "reclaim_count sin2 = reclaim_count sin"
    "fsize (din sin2) = fsize (din sin)" "ftype (din sin2) = ftype (din sin)" "nlinks (din sin2) = nlinks (din sin)"
    using g1 g2 unfolding grown_def by metis+
  have "fs_free s2 \<subseteq> fs_free s" using free by blast
  moreover have "sin_kept sin sin2"
    by (rule sin_kept_trans [of _ sin1]) (use g1 g2 in \<open>simp_all add: grown_def\<close>)
  ultimately show ?thesis unfolding grown_def using pre fr own v acc rest by simp
qed

lemma extends_indirect:
  assumes e: "extends s sin bs b new im s' sin'" and rep: "file_rep im s (din sin) bs" and n: "length bs < n"
  shows "missing n (din sin) bs = need (din sin) bs + missing n (din sin') (bs @ [b])"
proof (cases "12 \<le> length bs \<and> indirect (din sin) = 0")
  case True
  have "indirect (din sin') \<noteq> 0"
    using e True by (auto simp: extends_def file_rep_def split: if_splits)
  then show ?thesis using True n by (auto simp: missing_def need_def)
next
  case False
  then have need: "need (din sin) bs = 1" by (auto simp: need_def)
  have rep': "file_rep im s' (din sin') (bs @ [b])"
    and own: "unat ` owned (din sin') (bs @ [b]) = unat ` owned (din sin) bs \<union> new"
    and new: "new \<subseteq> fs_free s" "card new = 1" "unat b \<in> new"
    using e need by (simp_all add: extends_def)
  obtain x where "new = {x}" using new(2) by (rule card_1_singletonE)
  then have new1: "new = {unat b}" using new(3) by simp
  then have "unat ` owned (din sin') (bs @ [b]) = unat ` insert b (owned (din sin) bs)"
    using own new1 by simp
  then have own': "owned (din sin') (bs @ [b]) = insert b (owned (din sin) bs)"
    by (simp only: inj_image_eq_iff [OF unat_u32_inj])
  have "indirect (din sin') = 0 \<longleftrightarrow> indirect (din sin) = 0"
  proof (cases "indirect (din sin) = 0")
    case True
    have "indirect (din sin') \<notin> set (bs @ [b])" if "indirect (din sin') \<noteq> 0"
      using rep' that by (simp add: file_rep_def)
    moreover have "owned (din sin) bs = set bs" using True by (simp add: owned_def)
    ultimately show ?thesis using own' True by (auto simp: owned_def split: if_splits)
  next
    case ind: False
    then have "used s (indirect (din sin))" "indirect (din sin) \<notin> set bs"
      using rep by (simp_all add: file_rep_def)
    moreover from this(1) have "indirect (din sin) \<noteq> b" using new by (auto simp: used_def)
    moreover have "indirect (din sin) \<in> owned (din sin') (bs @ [b])"
      using own' ind by (simp add: owned_def)
    ultimately show ?thesis using ind by (auto simp: owned_def split: if_splits)
  qed
  then show ?thesis using False n need by (auto simp: missing_def)
qed

lemma extends_old_blocks:
  assumes e: "extends s sin bs b new im s' sin'" and rep: "file_rep im s (din sin) bs" and c: "c \<in> set bs"
  shows "view im s' (unat c) = view im s (unat c)"
proof -
  have "used s c" using rep c by (simp add: file_rep_def)
  then have "unat c \<notin> new" using e by (auto simp: extends_def used_def)
  moreover have "indirect (din sin) = 0 \<or> c \<noteq> indirect (din sin)"
    using rep c by (auto simp: file_rep_def)
  then have "indirect (din sin) = 0 \<or> unat c \<noteq> unat (indirect (din sin))" by (auto dest: unat_neq)
  ultimately show ?thesis using e by (simp add: extends_def)
qed

lemma extends_content:
  assumes "extends s sin bs b new im s' sin'" and "file_rep im s (din sin) bs"
  shows "content im s' (bs @ [b]) = content im s bs @ replicate 4096 0"
proof -
  have "map (\<lambda>b. view im s' (unat b)) bs = map (\<lambda>b. view im s (unat b)) bs"
    using extends_old_blocks [OF assms] by (auto cong: map_cong)
  then have "concat (map (\<lambda>b. view im s' (unat b)) bs) = concat (map (\<lambda>b. view im s (unat b)) bs)"
    by (rule arg_cong)
  then show ?thesis using assms(1) by (simp add: content_def extends_def)
qed

lemma grown_extends:
  assumes g: "grown img s sin bs s1 sin1 bs1" and e: "extends s1 sin1 bs1 b new img s2 sin2"
    and fin: "finite (fs_free s1)"
  shows "grown img s sin bs s2 sin2 (bs1 @ [b])"
proof -
  have rep1: "file_rep img s1 (din sin1) bs1" using g by (simp add: grown_def)
  have new: "new \<subseteq> fs_free s1" "fs_free s2 = fs_free s1 - new" "card new = need (din sin1) bs1"
    and own2: "unat ` owned (din sin2) (bs1 @ [b]) = unat ` owned (din sin1) bs1 \<union> new"
    using e by (simp_all add: extends_def)
  have own1: "unat ` owned (din sin1) bs1 = unat ` owned (din sin) bs \<union> (fs_free s - fs_free s1)"
    and free1: "fs_free s1 \<subseteq> fs_free s" using g by (simp_all add: grown_def)
  have card: "card (fs_free s1) = card (fs_free s2) + need (din sin1) bs1"
  proof -
    have "card new \<le> card (fs_free s1)" by (rule card_mono [OF fin new(1)])
    then show ?thesis
      using new finite_subset [OF new(1) fin] by (simp add: card_Diff_subset)
  qed
  have acc: "card (fs_free s) + missing n (din sin2) (bs1 @ [b]) =
      card (fs_free s2) + missing n (din sin) bs" if n: "length (bs1 @ [b]) \<le> n" for n
  proof -
    have "card (fs_free s) + missing n (din sin1) bs1 = card (fs_free s1) + missing n (din sin) bs"
      using g n by (simp add: grown_def)
    then show ?thesis using extends_indirect [OF e rep1, of n] n card by simp
  qed
  have views: "view img s2 c = view img s c"
    if c: "c \<notin> fs_free s" "c \<notin> unat ` owned (din sin) bs" for c
  proof -
    have "c \<notin> unat ` owned (din sin1) bs1" using c own1 free1 by auto
    then have "indirect (din sin1) = 0 \<or> c \<noteq> unat (indirect (din sin1))"
      by (auto simp: owned_def)
    moreover have "c \<notin> new" using c(1) new(1) free1 by auto
    ultimately have "view img s2 c = view img s1 c" using e by (simp add: extends_def)
    then show ?thesis using g c by (simp add: grown_def)
  qed
  have "unat ` owned (din sin2) (bs1 @ [b]) = unat ` owned (din sin) bs \<union> (fs_free s - fs_free s2)"
    using own1 own2 new free1 by auto
  moreover have "take (length bs) (bs1 @ [b]) = bs" using g grown_length [OF g] by (simp add: grown_def)
  moreover have "fs_frame s s2" using g e fs_frame_trans by (auto simp: grown_def extends_def)
  moreover have "sin_kept sin sin2"
    by (rule sin_kept_trans [of _ sin1]) (use g e in \<open>simp_all add: grown_def extends_def\<close>)
  moreover have "fs_free s2 \<subseteq> fs_free s" using new(2) free1 by blast
  moreover have "file_rep img s2 (din sin2) (bs1 @ [b])" "ino sin2 = ino sin"
    "reclaim_count sin2 = reclaim_count sin" "fsize (din sin2) = fsize (din sin)"
    "ftype (din sin2) = ftype (din sin)" "nlinks (din sin2) = nlinks (din sin)"
    using g e by (simp_all add: grown_def extends_def)
  ultimately show ?thesis
    using acc views unfolding grown_def by simp
qed

text \<open>Changes to free blocks and to the data of the file itself.\<close>

lemma grown_cong:
  assumes g: "grown img s sin bs s1 sin1 bs1" and fr: "fs_frame s1 s2" "fs_free s2 = fs_free s1"
    and v: "\<And>c. c \<notin> fs_free s1 \<Longrightarrow> c \<notin> unat ` set bs1 \<Longrightarrow> view img s2 c = view img s1 c"
  shows "grown img s sin bs s2 sin1 bs1"
proof -
  have rep: "file_rep img s1 (din sin1) bs1" and free: "fs_free s1 \<subseteq> fs_free s" "fs_frame s s1"
    and own: "unat ` owned (din sin1) bs1 = unat ` owned (din sin) bs \<union> (fs_free s - fs_free s1)"
    using g by (simp_all add: grown_def)
  have "file_rep img s2 (din sin1) bs1"
  proof (rule file_rep_cong [OF rep fr(1)])
    show "unat b \<notin> fs_free s2" if "b \<in> owned (din sin1) bs1" for b
      using file_rep_used [OF rep that] fr(2) by (simp add: used_def)
    assume "indirect (din sin1) \<noteq> 0"
    then have "used s1 (indirect (din sin1))" "indirect (din sin1) \<notin> set bs1"
      using rep by (simp_all add: file_rep_def)
    then show "view img s2 (unat (indirect (din sin1))) = view img s1 (unat (indirect (din sin1)))"
      by (intro v) (simp_all add: used_def inj_image_mem_iff [OF unat_u32_inj])
  qed
  moreover have "view img s2 c = view img s c"
    if c: "c \<notin> fs_free s" "c \<notin> unat ` owned (din sin) bs" for c
  proof -
    have "c \<notin> unat ` owned (din sin1) bs1" "c \<notin> fs_free s1" using c own free(1) by auto
    then have "view img s2 c = view img s1 c" by (intro v) (auto simp: owned_def)
    then show ?thesis using g c by (simp add: grown_def)
  qed
  moreover have "fs_frame s s2" by (rule fs_frame_trans [OF free(2) fr(1)])
  ultimately show ?thesis using g fr(2) by (simp add: grown_def)
qed

lemma wrote_zeros: "wrote off d c c1 \<Longrightarrow> wrote off d c (c1 @ replicate k 0)"
  by (auto simp: wrote_def nth_append)

section \<open>Writing\<close>

text \<open>The last step of a write sets the size, if the file has grown.\<close>

definition set_size :: "sfs_inode \<Rightarrow> nat \<Rightarrow> sfs_inode" where
  "set_size sin n = (if n > unat (fsize (din sin))
     then sin\<lparr>din := (din sin)\<lparr>fsize := word_of_nat n\<rparr>, dirty := True\<rparr> else sin)"

lemma set_size_facts:
  assumes "n < 2 ^ 32"
  shows "unat (fsize (din (set_size sin n))) = max (unat (fsize (din sin))) n"
    and "file_rep im s (din (set_size sin n)) bs = file_rep im s (din sin) bs"
    and "owned (din (set_size sin n)) bs = owned (din sin) bs"
  using assms unat_word_nat_u32 [of n]
  by (auto simp: set_size_def file_rep_def owned_def)

context block_device
begin

lemma write_op:
  assumes "0 < sz" and "boff + sz \<le> 4096" and ok: "fs_ok io dinv blocks s" and b: "used s b"
    and buf: "pos + sz \<le> length buf"
    and bop: "bop = sfs_buf_op True sz boff \<or> (bop = sfs_block_op True \<and> sz = 4096)"
  obtains s' where "bop s buf pos b = Some (Inr (), buf, s')"
    and "fs_ok io dinv blocks s'" and "fs_frame s s'" and "fs_free s' = fs_free s"
    and "view img s' = (view img s)(unat b := splice boff (take sz (drop pos buf)) (view img s (unat b)))"
  using bop
proof
  assume bop: "bop = sfs_buf_op True sz boff"
  from b have b': "b < sblocks (super s)" "b \<noteq> 0" by (simp_all add: used_def)
  obtain d' sb where w: "sfs_wbuf s buf pos sz b boff = Some (Inr (), buf, s\<lparr>dstate := d', sfs_buffer := sb\<rparr>)"
    and d': "dinv d'" "length sb = 4096"
      "blk (img d') = (view img s)(unat b := splice boff (take sz (drop pos buf)) (view img s (unat b)))"
    by (rule wbuf_ok [OF ok b' _ assms(2) buf]) (use assms(1,2) in auto)
  have "view img (s\<lparr>dstate := d', sfs_buffer := sb\<rparr>) = blk (img d')" by (simp add: view_def fun_eq_iff)
  then show thesis
    using that [of "s\<lparr>dstate := d', sfs_buffer := sb\<rparr>"] bop w d'(3) fs_ok_dstate [OF ok d'(1,2)]
    by (simp only: sfs_buf_op_def if_True simp_thms)
next
  assume bop: "bop = sfs_block_op True \<and> sz = 4096"
  then have "boff = 0" using assms(2) by simp
  from b have b': "b < sblocks (super s)" "b \<noteq> 0" by (simp_all add: used_def)
  obtain d' where w: "sfs_wblock s buf pos b 1 = Some (Inr (), buf, s\<lparr>dstate := d'\<rparr>)"
    and d': "dinv d'" "blk (img d') = (view img s)(unat b := take 4096 (drop pos buf))"
    by (rule wblock_ok [OF ok b', of pos buf]) (use buf bop in auto)
  have "length (take 4096 (drop pos buf)) = length (view img s (unat b))"
    using view_length [OF ok b'(1)] buf bop by simp
  then have "splice boff (take sz (drop pos buf)) (view img s (unat b)) = take 4096 (drop pos buf)"
    using \<open>boff = 0\<close> bop splice_whole by metis
  moreover have "fs_ok io dinv blocks (s\<lparr>dstate := d'\<rparr>)" using ok d'(1) by (simp add: fs_ok_def fs_free_def)
  moreover have "view img (s\<lparr>dstate := d'\<rparr>) = blk (img d')" by (simp add: view_def fun_eq_iff)
  ultimately show thesis
    using that [of "s\<lparr>dstate := d'\<rparr>"] bop w d'(2)
    by (simp add: sfs_block_op_def fs_frame_def fs_free_def)
qed

lemma content_write:
  assumes ok: "fs_ok io dinv blocks s" and rep: "file_rep img s d bs" and k: "k < length bs"
    and len: "boff + length e \<le> 4096"
    and v: "view img s' = (view img s)(unat (bs ! k) := splice boff e (view img s (unat (bs ! k))))"
  shows "content img s' bs = splice (4096 * k + boff) e (content img s bs)"
proof -
  let ?xs = "map (\<lambda>b. view img s (unat b)) bs"
  have dist: "distinct bs" using rep by (simp add: file_rep_def)
  have "map (\<lambda>b. view img s' (unat b)) bs = ?xs[k := splice boff e (?xs ! k)]"
  proof (rule nth_equalityI)
    fix i assume "i < length (map (\<lambda>b. view img s' (unat b)) bs)"
    then have i: "i < length bs" by simp
    have "unat (bs ! i) = unat (bs ! k) \<longleftrightarrow> i = k"
      using nth_eq_iff_index_eq [OF dist i k] unat_neq by auto
    then show "map (\<lambda>b. view img s' (unat b)) bs ! i = ?xs[k := splice boff e (?xs ! k)] ! i"
      using i k by (simp add: v nth_list_update)
  qed simp
  then show ?thesis
    using splice_concat [OF file_blocks_4096 [OF ok rep], of k boff e] k len
    by (simp add: content_def)
qed

definition write_inv ::
  "'d sfs_fs \<Rightarrow> sfs_inode \<Rightarrow> u32 list \<Rightarrow> u8 list \<Rightarrow> nat \<Rightarrow> nat \<Rightarrow> nat \<Rightarrow>
    'd io_prog \<Rightarrow> u32 list \<Rightarrow> bool" where
  "write_inv s sin bs buf pos off len p bs' \<longleftrightarrow> fs_ok io dinv blocks (p_sfs p) \<and>
     grown img s sin bs (p_sfs p) (p_sin p) bs' \<and>
     p_data p = pos + p_alen p \<and> p_offset p = off + p_alen p \<and> p_buf p = buf \<and> p_alen p \<le> len \<and>
     wrote off (take (p_alen p) (drop pos buf)) (content img s bs) (content img (p_sfs p) bs') \<and>
     (bs' = bs \<or> 4096 * length bs' < p_offset p + 4096)"

text \<open>One piece, once its block is there.\<close>

lemma write_piece_at:
  assumes ok: "fs_ok io dinv blocks s1" and g: "grown img s sin bs s1 sin1 bs1"
    and k: "k < length bs1" and at: "off + al = 4096 * k + boff"
    and sz: "0 < sz" "boff + sz \<le> 4096" and room: "pos + al + sz \<le> length buf"
    and bop: "bop = sfs_buf_op True sz boff \<or> (bop = sfs_block_op True \<and> sz = 4096)"
    and w: "wrote off (take al (drop pos buf)) (content img s bs) (content img s1 bs1)"
  obtains s2 where "bop s1 buf (pos + al) (bs1 ! k) = Some (Inr (), buf, s2)"
    and "fs_ok io dinv blocks s2" and "grown img s sin bs s2 sin1 bs1"
    and "wrote off (take (al + sz) (drop pos buf)) (content img s bs) (content img s2 bs1)"
proof -
  let ?e = "take sz (drop (pos + al) buf)"
  have rep: "file_rep img s1 (din sin1) bs1" using g by (simp add: grown_def)
  have u: "used s1 (bs1 ! k)" using rep k by (simp add: file_rep_def)
  obtain s2 where op: "bop s1 buf (pos + al) (bs1 ! k) = Some (Inr (), buf, s2)"
    and ok2: "fs_ok io dinv blocks s2" and f2: "fs_frame s1 s2" "fs_free s2 = fs_free s1"
    and v2: "view img s2 = (view img s1)(unat (bs1 ! k) := splice boff ?e (view img s1 (unat (bs1 ! k))))"
    by (rule write_op [OF sz ok u room bop])
  have le: "length ?e = sz" using room by simp
  have c2: "content img s2 bs1 = splice (4096 * k + boff) ?e (content img s1 bs1)"
    by (rule content_write [OF ok rep k _ v2]) (use le sz(2) in simp)
  have clen: "length (content img s1 bs1) = 4096 * length bs1" by (rule content_length [OF ok rep])
  have ld: "length (take al (drop pos buf)) = al" using room by simp
  have fit: "off + al + sz \<le> length (content img s1 bs1)"
  proof -
    have "4096 * (k + 1) \<le> 4096 * length bs1" using k by (intro mult_le_mono2) simp
    then show ?thesis using at sz(2) clen by simp
  qed
  have "take (al + sz) (drop pos buf) = take al (drop pos buf) @ ?e"
    by (simp add: take_add add.commute)
  moreover have "wrote off (take al (drop pos buf) @ ?e) (content img s bs) (content img s2 bs1)"
    by (rule wrote_step [OF w, of _ 0]) (use fit ld le c2 at in simp_all)
  moreover have "grown img s sin bs s2 sin1 bs1"
    by (rule grown_cong [OF g f2]) (use v2 k in auto)
  ultimately show thesis using that op ok2 by simp
qed

lemma write_piece:
  assumes ok: "fs_ok io dinv blocks s" and rep: "file_rep img s (din sin) bs"
    and E: "endpos = off + len" "endpos \<le> 4096 * 1036" and buf: "pos + len \<le> length buf"
    and sz: "0 < sz" "boff + sz \<le> 4096"
    and bop: "bop = sfs_buf_op True sz boff \<or> (bop = sfs_block_op True \<and> sz = 4096)"
  shows "piece_ok (\<lambda>p. \<exists>bs'. write_inv s sin bs buf pos off len p bs')
    (\<lambda>e p. e = - E_NO_MEM \<and> (\<exists>bs'. write_inv s sin bs buf pos off len p bs') \<and>
      card (fs_free s) < missing (ROUNDUP_DIV endpos SFS_BLKSIZE) (din sin) bs) endpos bop sz boff"
  unfolding piece_ok_def
proof (intro allI impI, elim conjE exE)
  fix p bs1
  assume I: "write_inv s sin bs buf pos off len p bs1" and po: "p_offset p = 4096 * unat (p_blkno p) + boff"
    and le: "p_offset p + sz \<le> endpos"
  let ?k = "unat (p_blkno p)" and ?s = "p_sfs p" and ?n = "ROUNDUP_DIV endpos SFS_BLKSIZE"
  let ?I = "\<lambda>p. \<exists>bs'. write_inv s sin bs buf pos off len p bs'"
  from I have okp: "fs_ok io dinv blocks ?s" and g: "grown img s sin bs ?s (p_sin p) bs1"
    and dat: "p_data p = pos + p_alen p" and off: "p_offset p = off + p_alen p" and pb: "p_buf p = buf"
    and w: "wrote off (take (p_alen p) (drop pos buf)) (content img s bs) (content img ?s bs1)"
    and tight: "bs1 = bs \<or> 4096 * length bs1 < p_offset p + 4096"
    unfolding write_inv_def by blast+
  have repp: "file_rep img ?s (din (p_sin p)) bs1" using g by (simp add: grown_def)
  have al: "p_alen p + sz \<le> len" using off le E(1) by simp
  then have room: "pos + p_alen p + sz \<le> length buf" using buf by simp
  have clen: "length (content img ?s bs1) = 4096 * length bs1" by (rule content_length [OF okp repp])
  have "p_offset p \<le> length (content img ?s bs1)"
    using w room off by (simp add: wrote_def)
  then have kb: "?k \<le> length bs1" using po clen by simp
  have at: "off + p_alen p = 4096 * ?k + boff" using off po by simp
  have k1036: "?k < 1036" using po le sz(1) E(2) by simp
  have n: "?k < ?n"
  proof -
    have "4096 * ?k < endpos" using po le sz(1) by simp
    then have "4096 * (?k + 1) \<le> endpos + 4095" by simp
    then have "?k + 1 \<le> (endpos + 4095) div 4096" by (simp add: less_eq_div_iff_mult_less_eq)
    then show ?thesis by (simp add: ROUNDUP_DIV_def SFS_BLKSIZE_def)
  qed
  \<comment> \<open>after the block is loaded\<close>
  have finish: "\<exists>p1. io_transfer bop p = Some (Inr (), p1) \<and> ?I (io_advance sz p1)"
    if l: "sfs_bmap_load_nolock ?s (p_sin p) (p_blkno p) = Some (Inr (bs2 ! ?k), s1, sin1)"
      and ok1: "fs_ok io dinv blocks s1" and g1: "grown img s sin bs s1 sin1 bs2" and k2: "?k < length bs2"
      and w1: "wrote off (take (p_alen p) (drop pos buf)) (content img s bs) (content img s1 bs2)"
      and t2: "bs2 = bs \<or> 4096 * length bs2 < p_offset p + sz + 4096" for bs2 s1 sin1
  proof -
    obtain s2 where op: "bop s1 buf (pos + p_alen p) (bs2 ! ?k) = Some (Inr (), buf, s2)"
      and s2: "fs_ok io dinv blocks s2" "grown img s sin bs s2 sin1 bs2"
        "wrote off (take (p_alen p + sz) (drop pos buf)) (content img s bs) (content img s2 bs2)"
      by (rule write_piece_at [OF ok1 g1 k2 at sz room bop w1])
    have "io_transfer bop p = Some (Inr (), p\<lparr>p_sfs := s2, p_sin := sin1, p_buf := buf\<rparr>)"
      using l op dat pb by (simp add: io_transfer_def)
    moreover have "write_inv s sin bs buf pos off len (io_advance sz (p\<lparr>p_sfs := s2, p_sin := sin1, p_buf := buf\<rparr>)) bs2"
      using s2 dat off t2 al by (simp add: write_inv_def)
    ultimately show ?thesis by blast
  qed
  show "(\<exists>p1. io_transfer bop p = Some (Inr (), p1) \<and> ?I (io_advance sz p1)) \<or>
    (\<exists>e p1. io_transfer bop p = Some (Inl e, p1) \<and> e = - E_NO_MEM \<and> ?I p1 \<and>
      card (fs_free s) < missing ?n (din sin) bs)"
  proof (cases "?k < length bs1")
    case True
    obtain s1 where l: "sfs_bmap_load_nolock ?s (p_sin p) (p_blkno p) = Some (Inr (bs1 ! ?k), s1, p_sin p)"
      and ok1: "fs_ok io dinv blocks s1" and sd: "same_disk img ?s s1"
      by (rule load_old [OF okp repp True])
    have g1: "grown img s sin bs s1 (p_sin p) bs1"
      by (rule grown_cong [OF g]) (use sd in \<open>simp_all add: same_disk_def\<close>)
    have c1: "content img s1 bs1 = content img ?s bs1" using sd by (simp add: same_disk_def content_def)
    have t1: "bs1 = bs \<or> 4096 * length bs1 < p_offset p + sz + 4096" using tight by linarith
    show ?thesis
      by (rule disjI1 [OF finish [OF l ok1 g1 True _ t1]]) (simp only: c1 w)
  next
    case False
    then have k: "?k = length bs1" "length bs1 < 1036" using kb k1036 by simp_all
    show ?thesis
    proof (cases "need (din (p_sin p)) bs1 \<le> card (fs_free ?s)")
      case True
      obtain b new s1 sin1 where l: "sfs_bmap_load_nolock ?s (p_sin p) (p_blkno p) = Some (Inr b, s1, sin1)"
        and ok1: "fs_ok io dinv blocks s1" and e: "extends ?s (p_sin p) bs1 b new img s1 sin1"
        by (rule load_new [OF okp repp k True])
      have g1: "grown img s sin bs s1 sin1 (bs1 @ [b])"
        by (rule grown_extends [OF g e fs_ok_finite [OF okp]])
      have c1: "content img s1 (bs1 @ [b]) = content img ?s bs1 @ replicate 4096 0"
        by (rule extends_content [OF e repp])
      have l': "sfs_bmap_load_nolock ?s (p_sin p) (p_blkno p) = Some (Inr ((bs1 @ [b]) ! ?k), s1, sin1)"
        using l k(1) by simp
      have k2: "?k < length (bs1 @ [b])" using k(1) by simp
      have t2: "bs1 @ [b] = bs \<or> 4096 * length (bs1 @ [b]) < p_offset p + sz + 4096"
        using po k(1) sz(1) by simp
      have w2: "wrote off (take (p_alen p) (drop pos buf)) (content img s bs) (content img s1 (bs1 @ [b]))"
        unfolding c1 by (rule wrote_zeros [OF w])
      show ?thesis by (rule disjI1 [OF finish [OF l' ok1 g1 k2 w2 t2]])
    next
      case no: False
      then have lt: "card (fs_free ?s) < need (din (p_sin p)) bs1" by simp
      obtain s1 where l: "sfs_bmap_load_nolock ?s (p_sin p) (p_blkno p) = Some (Inl (- E_NO_MEM), s1, p_sin p)"
        and ok1: "fs_ok io dinv blocks s1" and f1: "fs_frame ?s s1" "fs_free s1 = fs_free ?s"
        and v1: "\<forall>c. c \<notin> fs_free ?s \<longrightarrow> view img s1 c = view img ?s c"
        by (rule load_no_space [OF okp repp k lt])
      have g1: "grown img s sin bs s1 (p_sin p) bs1" by (rule grown_cong [OF g f1]) (use v1 in simp)
      have "content img s1 bs1 = content img ?s bs1"
        using v1 repp by (auto simp: content_def file_rep_def used_def intro!: arg_cong [where f = concat])
      then have "write_inv s sin bs buf pos off len (p\<lparr>p_sfs := s1, p_sin := p_sin p\<rparr>) bs1"
        using ok1 g1 dat off pb w tight al by (simp add: write_inv_def)
      moreover have "io_transfer bop p = Some (Inl (- E_NO_MEM), p\<lparr>p_sfs := s1, p_sin := p_sin p\<rparr>)"
        using l by (simp add: io_transfer_def)
      moreover have "card (fs_free s) < missing ?n (din sin) bs"
      proof -
        have "length bs1 < ?n" using k(1) n by simp
        then have "card (fs_free s) + missing ?n (din (p_sin p)) bs1 =
            card (fs_free ?s) + missing ?n (din sin) bs"
          and "need (din (p_sin p)) bs1 \<le> missing ?n (din (p_sin p)) bs1"
          using g need_missing by (simp_all add: grown_def)
        then show ?thesis using lt by simp
      qed
      ultimately show ?thesis by blast
    qed
  qed
qed

lemma write_inv_file:
  assumes I: "write_inv s sin bs buf pos off len q bs'" and ok: "fs_ok io dinv blocks s"
    and f: "file_ok img s (din sin) bs" and off: "off \<le> unat (fsize (din sin))"
    and buf: "pos + len \<le> length buf" and sin': "sin' = set_size (p_sin q) (off + p_alen q)"
  shows "file_ok img (p_sfs q) (din sin') bs'"
    and "file_bytes img (p_sfs q) (din sin') bs' =
      overwrite off (take (p_alen q) (drop pos buf)) (file_bytes img s (din sin) bs)"
proof -
  let ?d = "take (p_alen q) (drop pos buf)" and ?n = "unat (fsize (din sin))"
  have okq: "fs_ok io dinv blocks (p_sfs q)" and g: "grown img s sin bs (p_sfs q) (p_sin q) bs'"
    and w: "wrote off ?d (content img s bs) (content img (p_sfs q) bs')"
    and t: "bs' = bs \<or> 4096 * length bs' < p_offset q + 4096" and qo: "p_offset q = off + p_alen q"
    using I unfolding write_inv_def by blast+
  have rep: "file_rep img s (din sin) bs" and n: "?n \<le> 4096 * length bs" "4096 * length bs < ?n + 4096"
    using f by (simp_all add: file_ok_def)
  have rep': "file_rep img (p_sfs q) (din (p_sin q)) bs'" and fsz: "fsize (din (p_sin q)) = fsize (din sin)"
    using g by (simp_all add: grown_def)
  have cl: "length (content img s bs) = 4096 * length bs" by (rule content_length [OF ok rep])
  have cl': "length (content img (p_sfs q) bs') = 4096 * length bs'" by (rule content_length [OF okq rep'])
  have "p_alen q \<le> len" using I unfolding write_inv_def by blast
  then have dl: "length ?d = p_alen q" using buf by simp
  have fit: "off + p_alen q \<le> 4096 * length bs'" "length bs \<le> length bs'"
    using w cl cl' dl by (simp_all add: wrote_def)
  have lim: "length bs' \<le> 1036" using rep' by (simp add: file_rep_def)
  have small: "off + p_alen q < 2 ^ 32" using fit(1) lim by simp
  have sz: "unat (fsize (din sin')) = max ?n (off + p_alen q)"
    using set_size_facts(1) [OF small, of "p_sin q"] fsz by (simp add: sin')
  have "file_rep img (p_sfs q) (din sin') bs'"
    using rep' by (simp add: sin' set_size_facts(2) [OF small])
  moreover have "max ?n (off + p_alen q) \<le> 4096 * length bs'"
    using n(1) fit by simp
  moreover have "4096 * length bs' < max ?n (off + p_alen q) + 4096"
    using t n(2) qo by auto
  ultimately show "file_ok img (p_sfs q) (din sin') bs'" by (simp only: file_ok_def sz)
  have "take (max ?n (off + length ?d)) (content img (p_sfs q) bs') =
      overwrite off ?d (take ?n (content img s bs))"
    by (rule wrote_overwrite [OF w]) (use n(1) cl off in simp_all)
  then show "file_bytes img (p_sfs q) (din sin') bs' = overwrite off ?d (file_bytes img s (din sin) bs)"
    by (simp only: file_bytes_def sz dl)
qed

lemma io_nolock_write:
  assumes ok: "fs_ok io dinv blocks s" and f: "file_ok img s (din sin) bs"
    and ty: "ftype (din sin) \<noteq> SFS_TYPE_DIR"
    and off: "0 \<le> offset" "nat offset \<le> unat (fsize (din sin))" "nat offset + len \<le> 4096 * 1036"
    and buf: "pos + len \<le> length buf"
  obtains ret al s' sin1 sin' bs' where "sfs_io_nolock s sin buf pos offset len True = Some (ret, al, buf, s', sin')"
    and "ret = 0 \<and> al = len \<or> ret = - E_NO_MEM \<and> al \<le> len \<and>
      card (fs_free s) < missing (ROUNDUP_DIV (nat offset + len) SFS_BLKSIZE) (din sin) bs"
    and "fs_ok io dinv blocks s'" and "file_ok img s' (din sin') bs'"
    and "file_bytes img s' (din sin') bs' =
      overwrite (nat offset) (take al (drop pos buf)) (file_bytes img s (din sin) bs)"
    and "grown img s sin bs s' sin1 bs'" and "sin' = set_size sin1 (nat offset + al)"
proof -
  let ?off = "nat offset"
  have rep: "file_rep img s (din sin) bs" using f by (simp add: file_ok_def)
  have e: "sint (word_of_int offset + word_of_nat len :: u64) = offset + int len"
  proof (rule endpos_sum [OF off(1)])
    have "offset + int len \<le> 4096 * 1036" using off(1,3) by linarith
    then show "offset + int len < 2 ^ 63" by simp
  qed
  have "offset < 4096 * 32768" using off(1,3) by linarith
  then have small: "offset < 134217728" by simp
  show thesis
  proof (cases "len = 0")
    case True
    have "sfs_io_nolock s sin buf pos offset len True = Some (0, 0, buf, s, sin)"
      using True off e ty small by (simp add: sfs_io_nolock_def SFS_MAX_FILE_SIZE_def)
    moreover have "overwrite ?off (take 0 (drop pos buf)) (file_bytes img s (din sin) bs) = file_bytes img s (din sin) bs"
      by (simp add: overwrite_def)
    moreover have "sin = set_size sin (?off + 0)" using off(2) by (simp add: set_size_def)
    ultimately show thesis
      using True ok f by (intro that [of 0 0 s sin bs sin]) (simp_all add: grown_refl [OF rep])
  next
    case False
    let ?E = "?off + len"
    define p0 where "p0 = \<lparr>p_buf = buf, p_data = pos, p_alen = 0, p_offset = ?off,
      p_blkno = word_of_nat (?off div SFS_BLKSIZE), p_sfs = s, p_sin = sin\<rparr>"
    let ?I = "\<lambda>p. \<exists>bs'. write_inv s sin bs buf pos ?off len p bs'"
    let ?X = "\<lambda>e p. e = - E_NO_MEM \<and> ?I p \<and> card (fs_free s) < missing (ROUNDUP_DIV ?E SFS_BLKSIZE) (din sin) bs"
    have E: "?E \<le> 4096 * 1036" "?E < 2 ^ 32" "?off < ?E" using off False by simp_all
    have "?off div 4096 \<le> ?off" by simp
    then have "?off div 4096 < 2 ^ 32" using E(2,3) by linarith
    then have blk: "unat (p_blkno p0) = p_offset p0 div 4096"
      by (simp add: p0_def SFS_BLKSIZE_def unat_word_nat_u32)
    have "?off \<le> length (content img s bs)"
      using content_length [OF ok rep] off(2) f by (simp add: file_ok_def)
    then have I0: "write_inv s sin bs buf pos ?off len p0 bs"
      using ok grown_refl [OF rep] by (simp add: write_inv_def p0_def wrote_Nil)
    have run: "(\<exists>p' q. io_run True ?E p0 = Some (Inr (), p') \<and> ?I q \<and> p_offset q = ?E \<and>
        p_alen p' = p_alen q \<and> p_buf p' = p_buf q \<and> p_sfs p' = p_sfs q \<and> p_sin p' = p_sin q) \<or>
      (\<exists>e p'. io_run True ?E p0 = Some (Inl e, p') \<and> ?X e p')"
    proof (rule io_run_pieces)
      show "?E < 2 ^ 32" "?I p0" "unat (p_blkno p0) = p_offset p0 div 4096" "p_offset p0 < ?E"
        using E I0 blk by (auto simp: p0_def)
      show "piece_ok ?I ?X ?E (sfs_buf_op True sz boff) sz boff" if "0 < sz" "boff + sz \<le> 4096" for sz boff
        by (rule write_piece [OF ok rep refl E(1) buf that]) simp
      show "piece_ok ?I ?X ?E (sfs_block_op True) 4096 0"
        by (rule write_piece [OF ok rep refl E(1) buf]) simp_all
    qed
    have endE: "nat (clip_endpos True (uint (fsize (din sin))) (offset + int len)) = ?E"
      using off by (auto simp: clip_endpos_def Let_def SFS_MAX_FILE_SIZE_def)
    have start: "sfs_io_nolock s sin buf pos offset len True = Some (res_ret r, p_alen p, p_buf p, p_sfs p,
        set_size (p_sin p) (?off + p_alen p))" if "io_run True ?E p0 = Some (r, p)" for r p
      using that off ty False endE small
      by (simp add: sfs_io_nolock_def e Let_def p0_def [symmetric] set_size_def SFS_MAX_FILE_SIZE_def)
    have "\<exists>r p q bs'. io_run True ?E p0 = Some (r, p) \<and> write_inv s sin bs buf pos ?off len q bs' \<and>
        p_alen p = p_alen q \<and> p_buf p = p_buf q \<and> p_sfs p = p_sfs q \<and> p_sin p = p_sin q \<and>
        (res_ret r = 0 \<and> p_alen q = len \<or> res_ret r = - E_NO_MEM \<and>
          card (fs_free s) < missing (ROUNDUP_DIV ?E SFS_BLKSIZE) (din sin) bs)"
      using run
    proof (elim disjE exE conjE)
      fix p' q bs' assume r: "io_run True ?E p0 = Some (Inr (), p')" and q: "write_inv s sin bs buf pos ?off len q bs'"
        "p_offset q = ?E" and eq: "p_alen p' = p_alen q" "p_buf p' = p_buf q" "p_sfs p' = p_sfs q" "p_sin p' = p_sin q"
      have "p_alen q = len" using q by (simp add: write_inv_def)
      then show ?thesis using r q(1) eq
        by (intro exI [of _ "Inr ()"] exI [of _ p'] exI [of _ q] exI [of _ bs']) (simp add: res_ret_def)
    next
      fix e p' bs' assume r: "io_run True ?E p0 = Some (Inl e, p')" and e: "e = - E_NO_MEM"
        and q: "write_inv s sin bs buf pos ?off len p' bs'"
        and c: "card (fs_free s) < missing (ROUNDUP_DIV ?E SFS_BLKSIZE) (din sin) bs"
      show ?thesis using r e q c
        by (intro exI [of _ "Inl e"] exI [of _ p'] exI [of _ p'] exI [of _ bs']) (simp add: res_ret_def)
    qed
    then obtain r p q bs' where r: "io_run True ?E p0 = Some (r, p)" and q: "write_inv s sin bs buf pos ?off len q bs'"
      and eq: "p_alen p = p_alen q" "p_buf p = p_buf q" "p_sfs p = p_sfs q" "p_sin p = p_sin q"
      and ret: "res_ret r = 0 \<and> p_alen q = len \<or> res_ret r = - E_NO_MEM \<and>
        card (fs_free s) < missing (ROUNDUP_DIV ?E SFS_BLKSIZE) (din sin) bs"
      by blast
    note f' = write_inv_file [OF q ok f off(2) buf refl]
    have "p_buf q = buf" "fs_ok io dinv blocks (p_sfs q)" "grown img s sin bs (p_sfs q) (p_sin q) bs'" "p_alen q \<le> len"
      using q unfolding write_inv_def by blast+
    then show thesis
      using start [OF r] ret f' eq
      by (intro that [of "res_ret r" "p_alen q" "p_sfs q" "set_size (p_sin q) (?off + p_alen q)" bs' "p_sin q"])
         (simp_all only: refl simp_thms)
  qed
qed

end

section \<open>Resizing\<close>

lemma roundup_bounds:
  "n \<le> 4096 * ROUNDUP_DIV n SFS_BLKSIZE" "4096 * ROUNDUP_DIV n SFS_BLKSIZE < n + 4096"
proof -
  have "(n + 4095) mod 4096 < 4096" "(n + 4095) div 4096 * 4096 + (n + 4095) mod 4096 = n + 4095"
    by simp_all
  then show "n \<le> 4096 * ROUNDUP_DIV n SFS_BLKSIZE" "4096 * ROUNDUP_DIV n SFS_BLKSIZE < n + 4096"
    by (auto simp: ROUNDUP_DIV_def SFS_BLKSIZE_def)
qed

text \<open>What both directions keep: blocks move between the file and the free ones and none is lost.\<close>

definition resized ::
  "('d \<Rightarrow> u8 list) \<Rightarrow> 'd sfs_fs \<Rightarrow> sfs_inode \<Rightarrow> u32 list \<Rightarrow> 'd sfs_fs \<Rightarrow> sfs_inode \<Rightarrow> u32 list \<Rightarrow> bool" where
  "resized img s sin bs s' sin' bs' \<longleftrightarrow> file_rep img s' (din sin') bs' \<and> fs_frame s s' \<and>
     unat ` owned (din sin') bs' \<union> fs_free s' = unat ` owned (din sin) bs \<union> fs_free s \<and>
     (\<forall>c. c \<notin> unat ` owned (din sin) bs \<union> fs_free s \<longrightarrow> view img s' c = view img s c) \<and>
     ino sin' = ino sin \<and> reclaim_count sin' = reclaim_count sin \<and>
     fsize (din sin') = fsize (din sin) \<and> ftype (din sin') = ftype (din sin) \<and>
     nlinks (din sin') = nlinks (din sin) \<and> sin_kept sin sin'"

lemma resized_refl: "file_rep img s (din sin) bs \<Longrightarrow> resized img s sin bs s sin bs"
  by (simp add: resized_def)

text \<open>A file that could not grow as far as it should: it has the blocks it found, and its old size.\<close>

definition growth_failed ::
  "('d \<Rightarrow> u8 list) \<Rightarrow> 'd sfs_fs \<Rightarrow> sfs_inode \<Rightarrow> u32 list \<Rightarrow> 'd sfs_fs \<Rightarrow> sfs_inode \<Rightarrow> u32 list \<Rightarrow> bool" where
  "growth_failed img s sin bs s' sin' bs' \<longleftrightarrow>
     file_rep img s' (din sin') bs' \<and> fsize (din sin') = fsize (din sin) \<and> take (length bs) bs' = bs \<and>
     content img s' bs' = content img s bs @ replicate (4096 * (length bs' - length bs)) 0"

lemma resized_trans:
  assumes "resized img s sin bs s1 sin1 bs1" and "resized img s1 sin1 bs1 s2 sin2 bs2"
  shows "resized img s sin bs s2 sin2 bs2"
proof -
  have "fs_frame s s1" "fs_frame s1 s2" using assms unfolding resized_def by blast+
  then have "fs_frame s s2" by (rule fs_frame_trans)
  moreover have "view img s2 c = view img s c" if c: "c \<notin> unat ` owned (din sin) bs \<union> fs_free s" for c
  proof -
    have "c \<notin> unat ` owned (din sin1) bs1 \<union> fs_free s1" using assms(1) c unfolding resized_def by blast
    then have "view img s2 c = view img s1 c" using assms(2) unfolding resized_def by blast
    also have "\<dots> = view img s c" using assms(1) c unfolding resized_def by blast
    finally show ?thesis .
  qed
  moreover have "unat ` owned (din sin2) bs2 \<union> fs_free s2 = unat ` owned (din sin) bs \<union> fs_free s"
    "ino sin2 = ino sin" "reclaim_count sin2 = reclaim_count sin" "fsize (din sin2) = fsize (din sin)"
    "ftype (din sin2) = ftype (din sin)" "nlinks (din sin2) = nlinks (din sin)"
    using assms unfolding resized_def by metis+
  moreover have "sin_kept sin sin2"
    by (rule sin_kept_trans [of _ sin1]) (use assms in \<open>simp_all add: resized_def\<close>)
  moreover have "file_rep img s2 (din sin2) bs2" using assms(2) unfolding resized_def by blast
  ultimately show ?thesis unfolding resized_def by simp
qed

lemma grown_resized: "grown img s sin bs s' sin' bs' \<Longrightarrow> resized img s sin bs s' sin' bs'"
  by (auto simp: grown_def resized_def)

text \<open>Other files keep their blocks and bytes.\<close>

lemma resized_other:
  assumes g: "resized img s sin bs s' sin' bs'" and rep: "file_rep img s d cs"
    and dis: "owned d cs \<inter> owned (din sin) bs = {}"
  shows "file_rep img s' d cs" and "content img s' cs = content img s cs"
proof -
  have own: "unat c \<notin> unat ` owned (din sin) bs \<union> fs_free s" if "c \<in> owned d cs" for c
  proof -
    have "unat c \<notin> fs_free s" using file_rep_used [OF rep that] by (simp add: used_def)
    moreover have "c \<notin> owned (din sin) bs" using dis that by auto
    ultimately show ?thesis by (simp add: inj_image_mem_iff [OF unat_u32_inj])
  qed
  have v: "view img s' (unat c) = view img s (unat c)" if "c \<in> owned d cs" for c
    using own [OF that] g by (simp add: resized_def)
  show "content img s' cs = content img s cs"
    using v by (auto simp: content_def owned_def intro!: arg_cong [where f = concat])
  show "file_rep img s' d cs"
  proof (rule file_rep_cong [OF rep])
    show "fs_frame s s'" using g by (simp add: resized_def)
    show "unat b \<notin> fs_free s'" if "b \<in> owned d cs" for b
    proof -
      have "fs_free s' \<subseteq> unat ` owned (din sin) bs \<union> fs_free s" using g by (auto simp: resized_def)
      then show ?thesis using own [OF that] by blast
    qed
    show "view img s' (unat (indirect d)) = view img s (unat (indirect d))" if "indirect d \<noteq> 0"
      by (rule v) (simp add: owned_def that)
  qed
qed

lemma shrinks_resized:
  assumes sh: "shrinks s sin bs img s' sin'" and rep: "file_rep img s (din sin) bs" and ne: "bs \<noteq> []"
  shows "resized img s sin bs s' sin' (butlast bs)"
    and "content img s' (butlast bs) = take (4096 * (length bs - 1)) (content img s bs) \<or>
      length (content img s bs) \<noteq> 4096 * length bs \<or> length (view img s (unat (last bs))) \<noteq> 4096"
proof -
  have split: "bs = butlast bs @ [last bs]" using ne by simp
  have own: "owned (din sin) bs = insert (last bs) (owned (din sin') (butlast bs))"
    using sh by (subst split) (auto simp: owned_def shrinks_def)
  have "view img s' c = view img s c" if "c \<notin> unat ` owned (din sin) bs" for c
    using sh that by (auto simp: shrinks_def owned_def)
  then show "resized img s sin bs s' sin' (butlast bs)"
    using sh by (simp add: resized_def shrinks_def own)
  have "view img s' (unat b) = view img s (unat b)" if "b \<in> set (butlast bs)" for b
  proof -
    have "b \<in> set bs" using that by (rule in_set_butlastD)
    then have "indirect (din sin) = 0 \<or> b \<noteq> indirect (din sin)" using rep by (auto simp: file_rep_def)
    then show ?thesis using sh by (auto simp: shrinks_def dest: unat_neq)
  qed
  then have "map (\<lambda>b. view img s' (unat b)) (butlast bs) = map (\<lambda>b. view img s (unat b)) (butlast bs)"
    by (auto cong: map_cong)
  then have c: "content img s' (butlast bs) = content img s (butlast bs)"
    by (simp only: content_def)
  have "content img s bs = content img s (butlast bs) @ view img s (unat (last bs))"
    by (subst split) (simp add: content_def del: append_butlast_last_id)
  then show "content img s' (butlast bs) = take (4096 * (length bs - 1)) (content img s bs) \<or>
      length (content img s bs) \<noteq> 4096 * length bs \<or> length (view img s (unat (last bs))) \<noteq> 4096"
    using c by (auto simp: right_diff_distrib')
qed

context block_device
begin

lemma grow_blocks_ok:
  "fs_ok io dinv blocks s \<Longrightarrow> file_rep img s (din sin) bs \<Longrightarrow> unat nb = length bs \<Longrightarrow> length bs + k \<le> 1036 \<Longrightarrow>
   \<exists>r s' sin' bs'. grow_blocks k nb s sin = Some (r, s', sin') \<and> fs_ok io dinv blocks s' \<and>
     grown img s sin bs s' sin' bs' \<and>
     content img s' bs' = content img s bs @ replicate (4096 * (length bs' - length bs)) 0 \<and>
     (r = Inr () \<and> length bs' = length bs + k \<or>
      r = Inl (- E_NO_MEM) \<and> card (fs_free s) < missing (length bs + k) (din sin) bs \<and>
        (need (din sin) bs \<le> card (fs_free s) \<longrightarrow> length bs < length bs'))"
proof (induction k arbitrary: nb s sin bs)
  case 0
  then show ?case
    by (intro exI [of _ "Inr ()"] exI [of _ s] exI [of _ sin] exI [of _ bs]) (simp add: grown_refl)
next
  case (Suc k)
  note ok = Suc.prems(1) and rep = Suc.prems(2) and nb = Suc.prems(3)
  have lt: "length bs < 1036" using Suc.prems(4) by simp
  show ?case
  proof (cases "need (din sin) bs \<le> card (fs_free s)")
    case True
    obtain b new s1 sin1 where l: "sfs_bmap_load_nolock s sin nb = Some (Inr b, s1, sin1)"
      and ok1: "fs_ok io dinv blocks s1" and e: "extends s sin bs b new img s1 sin1"
      by (rule load_new [OF ok rep nb lt True])
    have g1: "grown img s sin bs s1 sin1 (bs @ [b])"
      by (rule grown_extends [OF grown_refl [OF rep] e fs_ok_finite [OF ok]])
    have rep1: "file_rep img s1 (din sin1) (bs @ [b])" using g1 by (simp add: grown_def)
    have nb1: "unat (nb + 1) = length (bs @ [b])" using grown_blocks [OF nb lt] by simp
    have c1: "content img s1 (bs @ [b]) = content img s bs @ replicate 4096 0"
      by (rule extends_content [OF e rep])
    have "length (bs @ [b]) + k \<le> 1036" using Suc.prems(4) by simp
    from Suc.IH [OF ok1 rep1 nb1 this] obtain r s2 sin2 bs2 where
      gr: "grow_blocks k (nb + 1) s1 sin1 = Some (r, s2, sin2)" and ok2: "fs_ok io dinv blocks s2"
      and g2: "grown img s1 sin1 (bs @ [b]) s2 sin2 bs2"
      and c2: "content img s2 bs2 = content img s1 (bs @ [b]) @ replicate (4096 * (length bs2 - length (bs @ [b]))) 0"
      and r: "r = Inr () \<and> length bs2 = length (bs @ [b]) + k \<or>
        r = Inl (- E_NO_MEM) \<and> card (fs_free s1) < missing (length (bs @ [b]) + k) (din sin1) (bs @ [b])"
      by blast
    have l2: "length bs + 1 \<le> length bs2" using grown_length [OF g2] by simp
    have "content img s2 bs2 = content img s bs @ replicate (4096 * (length bs2 - length bs)) 0"
    proof -
      have "4096 + 4096 * (length bs2 - length (bs @ [b])) = 4096 * (length bs2 - length bs)"
        using l2 by simp
      then have "replicate 4096 (0 :: u8) @ replicate (4096 * (length bs2 - length (bs @ [b]))) 0 =
          replicate (4096 * (length bs2 - length bs)) 0"
        by (simp only: replicate_add [symmetric])
      then show ?thesis unfolding c2 c1 by (simp only: append_assoc)
    qed
    moreover have "grown img s sin bs s2 sin2 bs2" by (rule grown_trans [OF g1 g2])
    moreover have "card (fs_free s) < missing (length bs + Suc k) (din sin) bs"
      if c: "card (fs_free s1) < missing (length (bs @ [b]) + k) (din sin1) (bs @ [b])"
    proof -
      have "card (fs_free s) + missing (length bs + Suc k) (din sin1) (bs @ [b]) =
          card (fs_free s1) + missing (length bs + Suc k) (din sin) bs"
        using g1 by (simp add: grown_def)
      then show ?thesis using c by simp
    qed
    moreover have "grow_blocks (Suc k) nb s sin = Some (r, s2, sin2)" using l gr by simp
    ultimately show ?thesis using ok2 r l2
      by (intro exI [of _ r] exI [of _ s2] exI [of _ sin2] exI [of _ bs2]) auto
  next
    case False
    then have no: "card (fs_free s) < need (din sin) bs" by simp
    obtain s1 where l: "sfs_bmap_load_nolock s sin nb = Some (Inl (- E_NO_MEM), s1, sin)"
      and ok1: "fs_ok io dinv blocks s1" and f1: "fs_frame s s1" "fs_free s1 = fs_free s"
      and v1: "\<forall>c. c \<notin> fs_free s \<longrightarrow> view img s1 c = view img s c"
      by (rule load_no_space [OF ok rep nb lt no])
    have "grown img s sin bs s1 sin bs" by (rule grown_cong [OF grown_refl [OF rep] f1]) (use v1 in simp)
    moreover have "content img s1 bs = content img s bs"
      using v1 rep by (auto simp: content_def file_rep_def used_def intro!: arg_cong [where f = concat])
    moreover have "need (din sin) bs \<le> missing (length bs + Suc k) (din sin) bs"
      by (rule need_missing) simp
    ultimately show ?thesis using l ok1 no
      by (intro exI [of _ "Inl (- E_NO_MEM)"] exI [of _ s1] exI [of _ sin] exI [of _ bs]) simp
  qed
qed

lemma shrink_blocks_ok:
  "fs_ok io dinv blocks s \<Longrightarrow> file_rep img s (din sin) bs \<Longrightarrow> k \<le> length bs \<Longrightarrow>
   \<exists>s' sin'. shrink_blocks k s sin = Some (Inr (), s', sin') \<and> fs_ok io dinv blocks s' \<and>
     resized img s sin bs s' sin' (take (length bs - k) bs) \<and>
     content img s' (take (length bs - k) bs) = take (4096 * (length bs - k)) (content img s bs)"
proof (induction k arbitrary: s sin bs)
  case 0
  then show ?case using content_length [OF 0(1,2)]
    by (intro exI [of _ s] exI [of _ sin]) (simp add: resized_refl)
next
  case (Suc k)
  note ok = Suc.prems(1) and rep = Suc.prems(2)
  have ne: "bs \<noteq> []" using Suc.prems(3) by auto
  obtain s1 sin1 where t: "sfs_bmap_truncate_nolock s sin = Some (Inr (), s1, sin1)"
    and ok1: "fs_ok io dinv blocks s1" and sh: "shrinks s sin bs img s1 sin1"
    by (rule truncate_ok [OF ok rep ne])
  have "used s (last bs)" using rep ne by (simp add: file_rep_def)
  then have "length (view img s (unat (last bs))) = 4096"
    using view_length [OF ok] by (simp add: used_def)
  then have c1: "content img s1 (butlast bs) = take (4096 * (length bs - 1)) (content img s bs)"
    using shrinks_resized(2) [OF sh rep ne] content_length [OF ok rep] by simp
  have r1: "resized img s sin bs s1 sin1 (butlast bs)" by (rule shrinks_resized(1) [OF sh rep ne])
  have rep1: "file_rep img s1 (din sin1) (butlast bs)" using sh by (simp add: shrinks_def)
  have "k \<le> length (butlast bs)" using Suc.prems(3) by simp
  from Suc.IH [OF ok1 rep1 this] obtain s2 sin2 where
    s: "shrink_blocks k s1 sin1 = Some (Inr (), s2, sin2)" and ok2: "fs_ok io dinv blocks s2"
    and r2: "resized img s1 sin1 (butlast bs) s2 sin2 (take (length (butlast bs) - k) (butlast bs))"
    and c2: "content img s2 (take (length (butlast bs) - k) (butlast bs)) =
      take (4096 * (length (butlast bs) - k)) (content img s1 (butlast bs))"
    by blast
  have n: "length (butlast bs) - k = length bs - Suc k" by simp
  have tk: "take (length (butlast bs) - k) (butlast bs) = take (length bs - Suc k) bs"
    unfolding n butlast_conv_take using ne by (simp add: min_def)
  have "content img s2 (take (length bs - Suc k) bs) = take (4096 * (length bs - Suc k)) (content img s bs)"
  proof -
    have "min (4096 * (length bs - Suc k)) (4096 * (length bs - 1)) = 4096 * (length bs - Suc k)"
      by (intro min_absorb1 mult_le_mono2) simp
    then show ?thesis using c2 tk unfolding n c1 by (simp only: take_take)
  qed
  moreover have "resized img s sin bs s2 sin2 (take (length bs - Suc k) bs)"
    using resized_trans [OF r1 r2] unfolding tk .
  ultimately show ?case using t s ok2 by auto
qed

lemma truncfile_ok:
  assumes ok: "fs_ok io dinv blocks s" and f: "file_ok img s (din sin) bs"
    and len: "0 \<le> len" "len \<le> 4096 * 1036"
  obtains r s' sin1 sin' bs' where "sfs_truncfile s sin len = Some (r, s', sin')"
    and "fs_ok io dinv blocks s'" and "resized img s sin bs s' sin1 bs'"
    and "r = Inr () \<and> file_ok img s' (din sin') bs' \<and> unat (fsize (din sin')) = nat len \<and>
        file_bytes img s' (din sin') bs' = take (nat len) (content img s bs @ replicate (nat len) 0) \<and>
        owned (din sin') bs' = owned (din sin1) bs' \<and>
        (sin' = sin1 \<or> (\<exists>v. sin' = sin1\<lparr>din := (din sin1)\<lparr>fsize := v\<rparr>, dirty := True\<rparr>)) \<or>
      r = Inl (- E_NO_MEM) \<and> sin' = sin1 \<and> growth_failed img s sin bs s' sin1 bs' \<and>
        card (fs_free s) < missing (ROUNDUP_DIV (nat len) SFS_BLKSIZE) (din sin) bs"
proof -
  let ?T = "ROUNDUP_DIV (nat len) SFS_BLKSIZE" and ?n = "unat (fsize (din sin))" and ?c = "content img s bs"
  let ?w = "word_of_nat ?T :: u32"
  note result = that
  have rep: "file_rep img s (din sin) bs" and n: "?n \<le> 4096 * length bs" "4096 * length bs < ?n + 4096"
    using f by (simp_all add: file_ok_def)
  have fb: "unat (fblocks (din sin)) = length bs" and lb: "length bs \<le> 1036" using rep by (simp_all add: file_rep_def)
  have cl: "length ?c = 4096 * length bs" by (rule content_length [OF ok rep])
  note T = roundup_bounds [of "nat len"]
  have T1036: "?T \<le> 1036" using T(2) len by simp
  then have uw: "unat ?w = ?T" by (intro unat_word_nat_u32) simp
  have eqw: "fblocks d = ?w" if "unat (fblocks d) = ?T" for d :: sfs_disk_inode
    using that uw by (simp add: word_unat_eq_iff)
  have lenmax: "\<not> (len < 0 \<or> len > int SFS_MAX_FILE_SIZE)"
  proof -
    have "len \<le> 134217728" using len(2) by simp
    then show ?thesis using len(1) by (simp add: SFS_MAX_FILE_SIZE_def)
  qed
  show thesis
  proof (cases "?n = nat len")
    case True
    then have u: "uint (fsize (din sin)) = len" using len(1) by (simp add: uint_nat)
    have "?T = length bs" using T n True by simp
    then have "sfs_truncfile s sin len = Some (Inr (), s, sin)"
      using lenmax u eqw [of "din sin"] fb by (simp add: sfs_truncfile_def Let_def)
    moreover have "file_bytes img s (din sin) bs = take (nat len) (?c @ replicate (nat len) 0)"
      using True n(1) cl by (simp add: file_bytes_def)
    ultimately show thesis
      using ok f True by (intro that [of "Inr ()" s sin sin bs]) (simp_all add: resized_refl [OF rep])
  next
    case False
    then have u: "uint (fsize (din sin)) \<noteq> len" by auto
    let ?loop = "if fblocks (din sin) < ?w then grow_blocks (unat ?w - unat (fblocks (din sin))) (fblocks (din sin)) s sin
      else if ?w < fblocks (din sin) then shrink_blocks (unat (fblocks (din sin)) - unat ?w) s sin
      else Some (Inr (), s, sin)"
    have code: "sfs_truncfile s sin len = on_ok ?loop (\<lambda>_ (sfs, sin). do {
        kassert (fblocks (din sin) = ?w);
        Some (Inr (), sfs, sin\<lparr>din := (din sin)\<lparr>fsize := word_of_nat (nat len)\<rparr>, dirty := True\<rparr>) })"
      unfolding sfs_truncfile_def Let_def by (simp only: lenmax u if_False)
    have lt: "fblocks (din sin) < ?w \<longleftrightarrow> length bs < ?T" "?w < fblocks (din sin) \<longleftrightarrow> ?T < length bs"
      using fb uw by (simp_all add: word_less_nat_alt)
    have finish: thesis
      if l: "?loop = Some (Inr (), s1, sin1)" and ok1: "fs_ok io dinv blocks s1"
        and r1: "resized img s sin bs s1 sin1 bs1" and len1: "length bs1 = ?T"
        and c1: "content img s1 bs1 = take (4096 * ?T) (?c @ replicate (4096 * ?T) 0)" for s1 sin1 bs1
    proof -
      let ?sin = "sin1\<lparr>din := (din sin1)\<lparr>fsize := word_of_nat (nat len)\<rparr>, dirty := True\<rparr>"
      have rep1: "file_rep img s1 (din sin1) bs1" using r1 by (simp add: resized_def)
      have "unat (fblocks (din sin1)) = ?T" using rep1 len1 by (simp add: file_rep_def)
      then have t: "sfs_truncfile s sin len = Some (Inr (), s1, ?sin)"
        using code l eqw [of "din sin1"] by simp
      have "nat len < 2 ^ 32" using len by simp
      then have "unat (word_of_nat (nat len) :: u32) = nat len" by (rule unat_word_nat_u32)
      then have sz: "unat (fsize (din ?sin)) = nat len" by simp
      have "file_rep img s1 (din ?sin) bs1" using rep1 by (simp add: file_rep_def)
      then have f1: "file_ok img s1 (din ?sin) bs1" using sz T len1 by (simp only: file_ok_def simp_thms)
      have "take (nat len) (take (4096 * ?T) (?c @ replicate (4096 * ?T) 0)) =
          take (nat len) (?c @ replicate (nat len) 0)"
        using T(1) by (simp add: min_def)
      then have "file_bytes img s1 (din ?sin) bs1 = take (nat len) (?c @ replicate (nat len) 0)"
        by (simp only: file_bytes_def sz c1)
      moreover have "owned (din ?sin) bs1 = owned (din sin1) bs1" by (simp add: owned_def)
      ultimately show thesis using result [OF t ok1 r1] f1 sz by blast
    qed
    consider (grow) "length bs < ?T" | (shrink) "?T < length bs" | (same) "length bs = ?T" by linarith
    then show thesis
    proof cases
      case grow
      have "length bs + (?T - length bs) \<le> 1036" using grow T1036 by simp
      from grow_blocks_ok [OF ok rep fb this] obtain r s1 sin1 bs1 where
        gr: "grow_blocks (?T - length bs) (fblocks (din sin)) s sin = Some (r, s1, sin1)"
        and ok1: "fs_ok io dinv blocks s1" and g: "grown img s sin bs s1 sin1 bs1"
        and c: "content img s1 bs1 = ?c @ replicate (4096 * (length bs1 - length bs)) 0"
        and r: "r = Inr () \<and> length bs1 = length bs + (?T - length bs) \<or>
          r = Inl (- E_NO_MEM) \<and> card (fs_free s) < missing (length bs + (?T - length bs)) (din sin) bs"
        by fast
      have l: "?loop = Some (r, s1, sin1)" using gr grow lt fb uw by simp
      from r show thesis
      proof (elim disjE conjE)
        assume r: "r = Inr ()" and lb1: "length bs1 = length bs + (?T - length bs)"
        then have "length bs1 = ?T" using grow by simp
        moreover have "?c @ replicate (4096 * (?T - length bs)) 0 = take (4096 * ?T) (?c @ replicate (4096 * ?T) 0)"
          using grow cl by (simp add: right_diff_distrib')
        ultimately show thesis
          by (intro finish [OF l [unfolded r] ok1 grown_resized [OF g]]) (simp_all only: c)
      next
        assume r: "r = Inl (- E_NO_MEM)" and cd: "card (fs_free s) < missing (length bs + (?T - length bs)) (din sin) bs"
        have "sfs_truncfile s sin len = Some (Inl (- E_NO_MEM), s1, sin1)" using code l r by simp
        moreover have "card (fs_free s) < missing ?T (din sin) bs" using cd grow by simp
        moreover have "growth_failed img s sin bs s1 sin1 bs1" using g c by (simp add: growth_failed_def grown_def)
        ultimately show thesis using that [OF _ ok1 grown_resized [OF g]] by blast
      qed
    next
      case shrink
      have "length bs - ?T \<le> length bs" by simp
      from shrink_blocks_ok [OF ok rep this] obtain s1 sin1 where
        sh: "shrink_blocks (length bs - ?T) s sin = Some (Inr (), s1, sin1)" and ok1: "fs_ok io dinv blocks s1"
        and r1: "resized img s sin bs s1 sin1 (take (length bs - (length bs - ?T)) bs)"
        and c1: "content img s1 (take (length bs - (length bs - ?T)) bs) =
          take (4096 * (length bs - (length bs - ?T))) ?c"
        by blast
      have d: "length bs - (length bs - ?T) = ?T" using shrink by simp
      have l: "?loop = Some (Inr (), s1, sin1)" using sh shrink lt fb uw by simp
      have c: "content img s1 (take ?T bs) = take (4096 * ?T) (?c @ replicate (4096 * ?T) 0)"
        using c1 shrink cl unfolding d by simp
      have "length (take ?T bs) = ?T" using shrink by simp
      from finish [OF l ok1 r1 [unfolded d] this c] show thesis .
    next
      case same
      then have l: "?loop = Some (Inr (), s, sin)" using lt by simp
      have "?c = take (4096 * ?T) (?c @ replicate (4096 * ?T) 0)" using cl same by simp
      from finish [OF l ok resized_refl [OF rep] same this] show thesis .
    qed
  qed
qed

end

end
