(* ===== verification/SfsFiles.thy ===== *)
theory SfsFiles
  imports SfsWrite
begin

text \<open>
  The properties of the files of SFS on the device \<open>disk0\<close>: the block map, reading, writing and
  resizing. They rest on the facts of \<open>disk0\<close>, the interpretation of the device contract.
\<close>

abbreviation disk0_fs :: "nat \<Rightarrow> ide_state sfs_fs \<Rightarrow> bool" where
  "disk0_fs nb \<equiv> fs_ok (disk0_io nb) (disk_inv nb) nb"

section \<open>A sample: eight blocks, one file in block 3, four free blocks\<close>

definition sample_disk :: ide_state where
  "sample_disk =
     \<lparr>ide_devices = (\<lambda>_. \<lparr>valid = True, dsize = 64, img_bytes = replicate 32768 0\<rparr>),
      disk0_buffer = replicate 16384 0\<rparr>"

definition sample_fs :: "ide_state sfs_fs" where
  "sample_fs =
     \<lparr>super = \<lparr>magic = 0x2f8dbe2a, sblocks = 8, unused_blocks = 4, info = []\<rparr>,
      dev = \<lparr>d_blocks = 8, d_blocksize = 4096, d_open = disk0_open, d_close = disk0_close,
             d_io = disk0_io 8, d_ioctl = disk0_ioctl\<rparr>,
      dstate = sample_disk, freemap = \<lparr>nbits = 8, nwords = 1, bmap = [0xF0]\<rparr>, super_dirty = False,
      sfs_buffer = replicate 4096 0, inode_list = [], hash_list = (\<lambda>_. [])\<rparr>"

definition sample_inode :: sfs_inode where
  "sample_inode =
     \<lparr>din = \<lparr>fsize = 10, ftype = 1, nlinks = 1, fblocks = 1, direct = 3 # replicate 11 0, indirect = 0\<rparr>,
      ino = 2, dirty = False, reclaim_count = 1\<rparr>"

lemma sample_free: "fs_free sample_fs = {4, 5, 6, 7}"
proof -
  have m: "(0xF0 :: u32) = push_bit 4 (mask 4)" by (simp add: mask_eq_exp_minus_1)
  have b: "bit (0xF0 :: u32) i \<longleftrightarrow> i \<in> {4, 5, 6, 7}" if "i < 32" for i
    unfolding m bit_push_bit_iff bit_mask_iff using that by auto
  have "bm_bit [0xF0] i \<longleftrightarrow> i \<in> {4, 5, 6, 7}" for i
  proof (cases "i < 32")
    case True
    then have "bm_bit [0xF0] i = bit (0xF0 :: u32) i" by (simp add: bm_bit_def)
    then show ?thesis using b [OF True] by blast
  next
    case False
    then show ?thesis by (auto simp: bm_bit_def)
  qed
  then show ?thesis
    by (simp only: fs_free_def sample_fs_def bm_free_def sfs_fs.simps bitmap.simps) blast
qed

lemma sample_ok: "disk0_fs 8 sample_fs"
proof -
  have "disk_inv 8 sample_disk" by (simp add: disk_inv_def sample_disk_def disk_img_def)
  moreover have "card {4, 5, 6, 7 :: nat} = 4" by simp
  ultimately show ?thesis
    unfolding fs_ok_def sample_free by (simp add: sample_fs_def bm_wf_def)
qed

lemma sample_file: "file_ok disk_img sample_fs (din sample_inode) [3]"
proof -
  have "used sample_fs 3" by (simp add: used_def sample_free) (simp add: sample_fs_def)
  moreover have "(3 # replicate 11 (0 :: u32)) ! i = slot [3] i" if "i < 12" for i
    using that by (cases i) (simp_all add: slot_def)
  ultimately show ?thesis
    by (simp add: file_ok_def file_rep_def sample_inode_def)
qed


lemma sfs_io_step:
  assumes "sfs_io_nolock s sin (io_buf iob) (io_base iob) (io_offset iob) (io_resid iob) w =
      Some (ret, al, buf, s', sin')" and "al \<le> io_resid iob"
  obtains iob' where "sfs_io s sin iob w = Some (ret, iob', s', sin')" and "iob_done iob al buf iob'"
proof (cases "al = 0")
  case True
  then show thesis using assms that [of "iob\<lparr>io_buf := buf\<rparr>"] by (simp add: sfs_io_def iob_done_def)
next
  case False
  then show thesis
    using assms that [of "iob\<lparr>io_buf := buf, io_base := io_base iob + al, io_offset := io_offset iob + int al,
        io_resid := io_resid iob - al\<rparr>"]
    by (simp add: sfs_io_def iob_done_def iobuf_skip_def)
qed

section \<open>Properties\<close>

text \<open>
  (C19) \<open>sfs_bmap_load_nolock\<close> implements the map from block indexes to disk blocks. Inside the file
  it gives the block of the list and changes nothing. At the end of the file it extends the list by
  a new block of zeros, or returns \<open>-E_NO_MEM\<close> with the free blocks, the inode and every used block
  unchanged when there are not enough free blocks (one, or two when the indirect block is needed).
  It panics for an index behind the end, and for block 12 + 1024 although files may be 128 MB.
\<close>

theorem bmap_load:
  assumes ok: "disk0_fs nb s" and rep: "file_rep disk_img s (din sin) bs"
  shows "if unat index < length bs then
      \<exists>s'. sfs_bmap_load_nolock s sin index = Some (Inr (bs ! unat index), s', sin) \<and> disk0_fs nb s' \<and>
        same_disk disk_img s s'
    else if unat index > length bs \<or> length bs = 12 + 1024 then sfs_bmap_load_nolock s sin index = None
    else if need (din sin) bs \<le> card (fs_free s) then
      \<exists>b new s' sin'. sfs_bmap_load_nolock s sin index = Some (Inr b, s', sin') \<and> disk0_fs nb s' \<and>
        extends s sin bs b new disk_img s' sin'
    else \<exists>s'. sfs_bmap_load_nolock s sin index = Some (Inl (- E_NO_MEM), s', sin) \<and> disk0_fs nb s' \<and>
        fs_frame s s' \<and> fs_free s' = fs_free s \<and>
        (\<forall>c. c \<notin> fs_free s \<longrightarrow> view disk_img s' c = view disk_img s c)"
proof -
  have fb: "unat (fblocks (din sin)) = length bs" and lb: "length bs \<le> 1036"
    using rep by (simp_all add: file_rep_def)
  consider (old) "unat index < length bs" | (gap) "unat index > length bs"
    | (past) "unat index = length bs" "length bs = 1036" | (new) "unat index = length bs" "length bs < 1036"
    using lb by linarith
  then show ?thesis
  proof cases
    case old
    obtain s' where "sfs_bmap_load_nolock s sin index = Some (Inr (bs ! unat index), s', sin)"
      "disk0_fs nb s'" "same_disk disk_img s s'"
      by (rule disk0.load_old [OF ok rep old])
    then show ?thesis using old by auto
  next
    case gap
    then have "\<not> index \<le> fblocks (din sin)" using fb by (simp add: word_le_nat_alt)
    then show ?thesis using gap by (simp add: sfs_bmap_load_nolock_def)
  next
    case past
    then show ?thesis using disk0.load_past_end [OF rep past] by simp
  next
    case new
    show ?thesis
    proof (cases "need (din sin) bs \<le> card (fs_free s)")
      case True
      obtain b nw s' sin' where "sfs_bmap_load_nolock s sin index = Some (Inr b, s', sin')"
        "disk0_fs nb s'" "extends s sin bs b nw disk_img s' sin'"
        by (rule disk0.load_new [OF ok rep new True])
      then show ?thesis using new True by auto
    next
      case False
      then have no: "card (fs_free s) < need (din sin) bs" by simp
      obtain s' where "sfs_bmap_load_nolock s sin index = Some (Inl (- E_NO_MEM), s', sin)"
        "disk0_fs nb s'" "fs_frame s s'" "fs_free s' = fs_free s"
        "\<forall>c. c \<notin> fs_free s \<longrightarrow> view disk_img s' c = view disk_img s c"
        by (rule disk0.load_no_space [OF ok rep new no])
      then show ?thesis using new False by auto
    qed
  qed
qed

theorem bmap_load_witness:
  "(\<exists>s'. sfs_bmap_load_nolock sample_fs sample_inode 0 = Some (Inr 3, s', sample_inode)) \<and>
   (\<exists>b new s' sin'. sfs_bmap_load_nolock sample_fs sample_inode 1 = Some (Inr b, s', sin') \<and>
      extends sample_fs sample_inode [3] b new disk_img s' sin') \<and>
   sfs_bmap_load_nolock sample_fs sample_inode 2 = None"
proof -
  have rep: "file_rep disk_img sample_fs (din sample_inode) [3]" using sample_file by (simp add: file_ok_def)
  have "need (din sample_inode) [3] \<le> card (fs_free sample_fs)" by (simp add: need_def sample_free)
  then show ?thesis
    using bmap_load [OF sample_ok rep, of 0] bmap_load [OF sample_ok rep, of 1] bmap_load [OF sample_ok rep, of 2]
    by (simp only: ) (auto simp del: One_nat_def)
qed

text \<open>
  (C5) \<open>sfs_read\<close> returns the bytes of the file: at any offset, aligned or not, across any number of
  direct and indirect blocks, it fills the caller's buffer with the bytes from the offset on, at
  most up to the end of the file, advances the buffer by their number, and changes neither the
  inode nor the disk.
\<close>

theorem sfs_read_file:
  assumes ok: "disk0_fs nb s" and f: "file_ok disk_img s (din sin) bs"
    and ty: "ftype (din sin) \<noteq> SFS_TYPE_DIR"
    and off: "0 \<le> io_offset iob" "io_offset iob < int SFS_MAX_FILE_SIZE"
      "io_offset iob + int (io_resid iob) < 2 ^ 63"
    and buf: "io_base iob + io_resid iob \<le> length (io_buf iob)"
  shows "\<exists>iob' s'. sfs_read s sin iob = Some (0, iob', s', sin) \<and> disk0_fs nb s' \<and> same_disk disk_img s s' \<and>
    (let bytes = take (io_resid iob) (drop (nat (io_offset iob)) (file_bytes disk_img s (din sin) bs)) in
     iob_done iob (length bytes) (splice (io_base iob) bytes (io_buf iob)) iob')"
proof -
  let ?bytes = "take (io_resid iob) (drop (nat (io_offset iob)) (file_bytes disk_img s (din sin) bs))"
  obtain s' where r: "sfs_io_nolock s sin (io_buf iob) (io_base iob) (io_offset iob) (io_resid iob) False =
      (let bs = ?bytes in Some (0, length bs, splice (io_base iob) bs (io_buf iob), s', sin))"
    and s': "disk0_fs nb s'" "same_disk disk_img s s'"
    by (rule disk0.io_nolock_read [OF ok f ty off buf])
  have "length ?bytes \<le> io_resid iob" by simp
  from sfs_io_step [OF r [unfolded Let_def] this] obtain iob' where
    "sfs_io s sin iob False = Some (0, iob', s', sin)"
    "iob_done iob (length ?bytes) (splice (io_base iob) ?bytes (io_buf iob)) iob'" .
  then show ?thesis using s' unfolding sfs_read_def Let_def by blast
qed

theorem sfs_read_file_witness:
  "\<exists>iob' s'. sfs_read sample_fs sample_inode (iobuf_init (replicate 8 1) 0 8 4) = Some (0, iob', s', sample_inode) \<and>
     io_resid iob' = 2 \<and> io_offset iob' = 10"
proof -
  let ?iob = "iobuf_init (replicate 8 1) 0 8 4"
  have "\<exists>iob' s'. sfs_read sample_fs sample_inode ?iob = Some (0, iob', s', sample_inode) \<and>
      disk0_fs 8 s' \<and> same_disk disk_img sample_fs s' \<and>
      (let bytes = take (io_resid ?iob) (drop (nat (io_offset ?iob))
         (file_bytes disk_img sample_fs (din sample_inode) [3])) in
       iob_done ?iob (length bytes) (splice (io_base ?iob) bytes (io_buf ?iob)) iob')"
    by (rule sfs_read_file [OF sample_ok sample_file])
       (simp_all add: iobuf_init_def sample_inode_def SFS_TYPE_DIR_def SFS_MAX_FILE_SIZE_def)
  moreover have "length (file_bytes disk_img sample_fs (din sample_inode) [3]) = 10"
    using disk0.file_bytes_length [OF sample_ok sample_file] by (simp add: sample_inode_def)
  ultimately show ?thesis
    by (auto simp: iob_done_def iobuf_init_def Let_def)
qed


text \<open>
  (C3) \<open>sfs_write\<close> at or before the end of a file overwrites the bytes of the file from the offset on
  with the caller's and extends the file when they reach further. It returns 0 with all bytes
  written, or \<open>-E_NO_MEM\<close>, only when the disk has fewer free blocks than the write needs, with a
  prefix written. Either way the size and the block map stay consistent and every other file keeps
  its blocks and its bytes.
\<close>

theorem sfs_write_file:
  assumes ok: "disk0_fs nb s" and f: "file_ok disk_img s (din sin) bs"
    and ty: "ftype (din sin) \<noteq> SFS_TYPE_DIR"
    and off: "0 \<le> io_offset iob" "nat (io_offset iob) \<le> unat (fsize (din sin))"
      "nat (io_offset iob) + io_resid iob \<le> 4096 * (12 + 1024)"
    and buf: "io_base iob + io_resid iob \<le> length (io_buf iob)"
  shows "\<exists>ret n iob' s' sin' bs'. sfs_write s sin iob = Some (ret, iob', s', sin') \<and>
    iob_done iob n (io_buf iob) iob' \<and>
    (ret = 0 \<and> n = io_resid iob \<or> ret = - E_NO_MEM \<and> n \<le> io_resid iob \<and>
      card (fs_free s) < missing (ROUNDUP_DIV (nat (io_offset iob) + io_resid iob) SFS_BLKSIZE) (din sin) bs) \<and>
    disk0_fs nb s' \<and> file_ok disk_img s' (din sin') bs' \<and>
    file_bytes disk_img s' (din sin') bs' =
      overwrite (nat (io_offset iob)) (take n (drop (io_base iob) (io_buf iob)))
        (file_bytes disk_img s (din sin) bs) \<and>
    (\<forall>d cs. file_rep disk_img s d cs \<and> owned d cs \<inter> owned (din sin) bs = {} \<longrightarrow>
      file_rep disk_img s' d cs \<and> content disk_img s' cs = content disk_img s cs)"
proof -
  have off3: "nat (io_offset iob) + io_resid iob \<le> 4096 * 1036" using off(3) by simp
  obtain ret al s' sin1 sin' bs' where
    w: "sfs_io_nolock s sin (io_buf iob) (io_base iob) (io_offset iob) (io_resid iob) True =
      Some (ret, al, io_buf iob, s', sin')"
    and ret: "ret = 0 \<and> al = io_resid iob \<or> ret = - E_NO_MEM \<and> al \<le> io_resid iob \<and>
      card (fs_free s) < missing (ROUNDUP_DIV (nat (io_offset iob) + io_resid iob) SFS_BLKSIZE) (din sin) bs"
    and s': "disk0_fs nb s'" "file_ok disk_img s' (din sin') bs'"
      "file_bytes disk_img s' (din sin') bs' = overwrite (nat (io_offset iob))
        (take al (drop (io_base iob) (io_buf iob))) (file_bytes disk_img s (din sin) bs)"
    and g: "grown disk_img s sin bs s' sin1 bs'"
    by (rule disk0.io_nolock_write [OF ok f ty off(1,2) off3 buf])
  have "al \<le> io_resid iob" using ret by auto
  from sfs_io_step [OF w this] obtain iob' where
    "sfs_write s sin iob = Some (ret, iob', s', sin')" "iob_done iob al (io_buf iob) iob'"
    unfolding sfs_write_def .
  moreover have "\<forall>d cs. file_rep disk_img s d cs \<and> owned d cs \<inter> owned (din sin) bs = {} \<longrightarrow>
      file_rep disk_img s' d cs \<and> content disk_img s' cs = content disk_img s cs"
    by (intro allI impI conjI) (blast intro: resized_other [OF grown_resized [OF g]])+
  ultimately show ?thesis using ret s' by blast
qed

theorem sfs_write_file_witness:
  "\<exists>iob' s' sin' bs'. sfs_write sample_fs sample_inode (iobuf_init (replicate 6000 7) 0 6000 4) =
      Some (0, iob', s', sin') \<and> io_resid iob' = 0 \<and>
     length (file_bytes disk_img s' (din sin') bs') = 6004"
proof -
  let ?iob = "iobuf_init (replicate 6000 7) 0 6000 4"
  have p: "ftype (din sample_inode) \<noteq> SFS_TYPE_DIR" "0 \<le> io_offset ?iob"
    "nat (io_offset ?iob) \<le> unat (fsize (din sample_inode))"
    "nat (io_offset ?iob) + io_resid ?iob \<le> 4096 * (12 + 1024)"
    "io_base ?iob + io_resid ?iob \<le> length (io_buf ?iob)"
    by (simp_all add: iobuf_init_def sample_inode_def SFS_TYPE_DIR_def)
  obtain ret n iob' s' sin' bs' where w: "sfs_write sample_fs sample_inode ?iob = Some (ret, iob', s', sin')"
    and i: "iob_done ?iob n (io_buf ?iob) iob'"
    and r: "ret = 0 \<and> n = io_resid ?iob \<or> ret = - E_NO_MEM \<and> n \<le> io_resid ?iob \<and>
      card (fs_free sample_fs) < missing (ROUNDUP_DIV (nat (io_offset ?iob) + io_resid ?iob) SFS_BLKSIZE)
        (din sample_inode) [3]"
    and b: "file_bytes disk_img s' (din sin') bs' = overwrite (nat (io_offset ?iob))
      (take n (drop (io_base ?iob) (io_buf ?iob))) (file_bytes disk_img sample_fs (din sample_inode) [3])"
    using sfs_write_file [OF sample_ok sample_file p] by blast
  have "card {4, 5, 6, 7 :: nat} = 4" by simp
  then have "\<not> card (fs_free sample_fs) < missing (ROUNDUP_DIV (nat (io_offset ?iob) + io_resid ?iob) SFS_BLKSIZE)
      (din sample_inode) [3]"
    by (simp add: sample_free missing_def ROUNDUP_DIV_def SFS_BLKSIZE_def iobuf_init_def)
  then have "ret = 0" "n = 6000" using r by (auto simp: iobuf_init_def)
  moreover have "length (file_bytes disk_img sample_fs (din sample_inode) [3]) = 10"
    using disk0.file_bytes_length [OF sample_ok sample_file] by (simp add: sample_inode_def)
  then have "length (file_bytes disk_img s' (din sin') bs') = 6004"
    using b \<open>n = 6000\<close> by (simp add: overwrite_def iobuf_init_def)
  ultimately show ?thesis using w i by (auto simp: iob_done_def iobuf_init_def)
qed

text \<open>
  (C20) \<open>sfs_truncfile\<close> sets the size of a file: the bytes up to the new size are kept, the bytes of new
  blocks are zero, blocks only move between the file and the free ones and none is lost, and every
  other file keeps its blocks and its bytes. It fails with \<open>-E_NO_MEM\<close> only when growing needs more
  blocks than are free; then the file keeps its size and its blocks with their bytes, and the blocks
  of zeros it could still get are blocks of the file, so no block is lost either.
\<close>

theorem sfs_truncfile_resizes:
  assumes ok: "disk0_fs nb s" and f: "file_ok disk_img s (din sin) bs"
    and len: "0 \<le> len" "len \<le> 4096 * (12 + 1024)"
  shows "\<exists>r s' sin' bs'. sfs_truncfile s sin len = Some (r, s', sin') \<and> disk0_fs nb s' \<and>
    unat ` owned (din sin') bs' \<union> fs_free s' = unat ` owned (din sin) bs \<union> fs_free s \<and>
    (\<forall>d cs. file_rep disk_img s d cs \<and> owned d cs \<inter> owned (din sin) bs = {} \<longrightarrow>
      file_rep disk_img s' d cs \<and> content disk_img s' cs = content disk_img s cs) \<and>
    (r = Inr () \<and> file_ok disk_img s' (din sin') bs' \<and> unat (fsize (din sin')) = nat len \<and>
       file_bytes disk_img s' (din sin') bs' = take (nat len) (content disk_img s bs @ replicate (nat len) 0) \<or>
     r = Inl (- E_NO_MEM) \<and> file_rep disk_img s' (din sin') bs' \<and> fsize (din sin') = fsize (din sin) \<and>
       take (length bs) bs' = bs \<and>
       content disk_img s' bs' = content disk_img s bs @ replicate (4096 * (length bs' - length bs)) 0 \<and>
       card (fs_free s) < missing (ROUNDUP_DIV (nat len) SFS_BLKSIZE) (din sin) bs)"
proof -
  have len2: "len \<le> 4096 * 1036" using len(2) by simp
  obtain r s' sin1 sin' bs' where t: "sfs_truncfile s sin len = Some (r, s', sin')"
    and ok': "disk0_fs nb s'" and rs: "resized disk_img s sin bs s' sin1 bs'"
    and c: "r = Inr () \<and> file_ok disk_img s' (din sin') bs' \<and> unat (fsize (din sin')) = nat len \<and>
        file_bytes disk_img s' (din sin') bs' = take (nat len) (content disk_img s bs @ replicate (nat len) 0) \<and>
        owned (din sin') bs' = owned (din sin1) bs' \<and>
        (sin' = sin1 \<or> (\<exists>v. sin' = sin1\<lparr>din := (din sin1)\<lparr>fsize := v\<rparr>, dirty := True\<rparr>)) \<or>
      r = Inl (- E_NO_MEM) \<and> sin' = sin1 \<and> growth_failed disk_img s sin bs s' sin1 bs' \<and>
        card (fs_free s) < missing (ROUNDUP_DIV (nat len) SFS_BLKSIZE) (din sin) bs"
    by (rule disk0.truncfile_ok [OF ok f len(1) len2])
  have "owned (din sin') bs' = owned (din sin1) bs'" using c by auto
  then have "unat ` owned (din sin') bs' \<union> fs_free s' = unat ` owned (din sin) bs \<union> fs_free s"
    using rs by (simp add: resized_def)
  moreover have "\<forall>d cs. file_rep disk_img s d cs \<and> owned d cs \<inter> owned (din sin) bs = {} \<longrightarrow>
      file_rep disk_img s' d cs \<and> content disk_img s' cs = content disk_img s cs"
    by (intro allI impI conjI) (blast intro: resized_other [OF rs])+
  ultimately show ?thesis using t ok' c unfolding growth_failed_def by blast
qed

theorem sfs_truncfile_resizes_witness:
  "\<exists>s' sin'. sfs_truncfile sample_fs sample_inode 9000 = Some (Inr (), s', sin') \<and>
     unat (fsize (din sin')) = 9000"
proof -
  have "card {4, 5, 6, 7 :: nat} = 4" by simp
  then have "\<not> card (fs_free sample_fs) < missing (ROUNDUP_DIV (nat 9000) SFS_BLKSIZE) (din sample_inode) [3]"
    by (simp add: sample_free missing_def ROUNDUP_DIV_def SFS_BLKSIZE_def)
  moreover have "0 \<le> (9000 :: int)" "(9000 :: int) \<le> 4096 * (12 + 1024)" "nat 9000 = 9000" by simp_all
  ultimately show ?thesis
    using sfs_truncfile_resizes [OF sample_ok sample_file, of 9000] by fastforce
qed

text \<open>
  A growth that runs out of free blocks leaves the file with more blocks than its size needs:
  \<open>sfs_truncfile\<close> fails with \<open>-E_NO_MEM\<close> and keeps the blocks it took, and the next \<open>sfs_truncfile\<close> to
  the unchanged size (opening an empty file with \<open>O_TRUNC\<close>) panics on its assertion.
\<close>

theorem failed_growth_panics:
  assumes ok: "disk0_fs nb s" and f: "file_ok disk_img s (din sin) bs"
    and len: "uint (fsize (din sin)) < len" "len \<le> 4096 * (12 + 1024)"
    and some: "need (din sin) bs \<le> card (fs_free s)"
    and fails: "sfs_truncfile s sin len = Some (Inl (- E_NO_MEM), s', sin')"
  shows "sfs_truncfile s' sin' (uint (fsize (din sin))) = None"
proof -
  let ?T = "ROUNDUP_DIV (nat len) SFS_BLKSIZE" and ?n = "unat (fsize (din sin))"
  let ?w = "word_of_nat ?T :: u32"
  have rep: "file_rep disk_img s (din sin) bs" and n: "?n \<le> 4096 * length bs" "4096 * length bs < ?n + 4096"
    using f by (simp_all add: file_ok_def)
  have fb: "unat (fblocks (din sin)) = length bs" using rep by (simp add: file_rep_def)
  have u: "uint (fsize (din sin)) = int ?n" by (rule uint_nat)
  have len0: "0 \<le> len" "int ?n < len" using len(1) u by linarith+
  note T = roundup_bounds [of "nat len"]
  have T1036: "?T \<le> 1036" using T(2) len(2) len0 by simp
  then have uw: "unat ?w = ?T" by (intro unat_word_nat_u32) simp
  have le: "length bs \<le> ?T" using T(1) n(2) len0 by linarith
  have lenmax: "\<not> (len < 0 \<or> len > int SFS_MAX_FILE_SIZE)"
  proof -
    have "len \<le> 134217728" using len(2) by simp
    then show ?thesis using len0(1) by (simp add: SFS_MAX_FILE_SIZE_def)
  qed
  have ne: "uint (fsize (din sin)) \<noteq> len" using len(1) by simp
  have "length bs + (?T - length bs) \<le> 1036" using le T1036 by simp
  from disk0.grow_blocks_ok [OF ok rep fb this] obtain r s1 sin1 bs1 where
    gr: "grow_blocks (?T - length bs) (fblocks (din sin)) s sin = Some (r, s1, sin1)"
    and g: "grown disk_img s sin bs s1 sin1 bs1"
    and r: "r = Inr () \<or> r = Inl (- E_NO_MEM) \<and> length bs < length bs1"
    using some by fast
  have rep1: "file_rep disk_img s1 (din sin1) bs1" and fsz: "fsize (din sin1) = fsize (din sin)"
    using g by (simp_all add: grown_def)
  have loop: "(if fblocks (din sin) < ?w then grow_blocks (unat ?w - unat (fblocks (din sin))) (fblocks (din sin)) s sin
      else if ?w < fblocks (din sin) then shrink_blocks (unat (fblocks (din sin)) - unat ?w) s sin
      else Some (Inr (), s, sin)) =
    (if length bs < ?T then Some (r, s1, sin1) else Some (Inr (), s, sin))"
    using gr fb uw le by (simp add: word_less_nat_alt)
  have "length bs < ?T \<and> r = Inl (- E_NO_MEM) \<and> s' = s1 \<and> sin' = sin1"
    using fails r
    unfolding sfs_truncfile_def Let_def loop by (auto simp: lenmax ne kassert_def split: if_splits)
  then have s': "s' = s1" "sin' = sin1" "length bs < length bs1" using r by auto
  let ?R = "ROUNDUP_DIV ?n SFS_BLKSIZE"
  have R: "?R = length bs" using roundup_bounds [of ?n] n by linarith
  have fb1: "unat (fblocks (din sin1)) = length bs1" using rep1 by (simp add: file_rep_def)
  have "(word_of_nat ?R :: u32) \<noteq> fblocks (din sin1)"
  proof
    assume "(word_of_nat ?R :: u32) = fblocks (din sin1)"
    then have "unat (word_of_nat ?R :: u32) = length bs1" using fb1 by simp
    moreover have "unat (word_of_nat ?R :: u32) = ?R"
      using R le T1036 by (intro unat_word_nat_u32) simp
    ultimately show False using R s'(3) by simp
  qed
  moreover have "\<not> (int ?n < 0 \<or> int ?n > int SFS_MAX_FILE_SIZE)" using lenmax len0 by simp
  ultimately show ?thesis
    unfolding s'(1,2) sfs_truncfile_def Let_def fsz u nat_int
    by (simp only: if_False if_True kassert_def refl if_cancel) simp
qed


theorem failed_growth_panics_witness:
  "\<exists>s' sin'. sfs_truncfile sample_fs sample_inode 24576 = Some (Inl (- E_NO_MEM), s', sin') \<and>
     sfs_truncfile s' sin' 10 = None"
proof -
  have len: "0 \<le> (24576 :: int)" "(24576 :: int) \<le> 4096 * 1036" by simp_all
  obtain r s' sin1 sin' bs' where t: "sfs_truncfile sample_fs sample_inode 24576 = Some (r, s', sin')"
    and rs: "resized disk_img sample_fs sample_inode [3] s' sin1 bs'"
    and c: "r = Inr () \<and> file_ok disk_img s' (din sin') bs' \<and> unat (fsize (din sin')) = nat 24576 \<and>
        file_bytes disk_img s' (din sin') bs' = take (nat 24576) (content disk_img sample_fs [3] @ replicate (nat 24576) 0) \<and>
        owned (din sin') bs' = owned (din sin1) bs' \<and>
        (sin' = sin1 \<or> (\<exists>v. sin' = sin1\<lparr>din := (din sin1)\<lparr>fsize := v\<rparr>, dirty := True\<rparr>)) \<or>
      r = Inl (- E_NO_MEM) \<and> sin' = sin1 \<and> growth_failed disk_img sample_fs sample_inode [3] s' sin1 bs' \<and>
        card (fs_free sample_fs) < missing (ROUNDUP_DIV (nat 24576) SFS_BLKSIZE) (din sample_inode) [3]"
    by (rule disk0.truncfile_ok [OF sample_ok sample_file len])
  have own: "unat ` owned (din sin1) bs' \<subseteq> {3, 4, 5, 6, 7}"
  proof -
    have "unat ` owned (din sin1) bs' \<union> fs_free s' = {3, 4, 5, 6, 7}"
      using rs by (auto simp: resized_def sample_free owned_def sample_inode_def)
    then show ?thesis by blast
  qed
  have "r \<noteq> Inr ()"
  proof
    assume "r = Inr ()"
    then have f: "file_ok disk_img s' (din sin') bs'" and sz: "unat (fsize (din sin')) = nat 24576" using c by auto
    have "unat (fsize (din sin')) \<le> 4096 * length bs'" using f by (simp add: file_ok_def)
    then have six: "6 \<le> length bs'" unfolding sz by simp
    have "distinct bs'" using f by (simp add: file_ok_def file_rep_def)
    then have "card (unat ` set bs') = length bs'"
      by (simp add: card_image inj_on_subset [OF unat_u32_inj] distinct_card)
    moreover have "card (unat ` set bs') \<le> card {3, 4, 5, 6, 7 :: nat}"
      using own by (intro card_mono) (auto simp: owned_def)
    ultimately show False using six by simp
  qed
  then have r: "r = Inl (- E_NO_MEM)" using c by auto
  have "uint (fsize (din sample_inode)) < 24576" "(24576 :: int) \<le> 4096 * (12 + 1024)"
    "need (din sample_inode) [3] \<le> card (fs_free sample_fs)" "uint (fsize (din sample_inode)) = 10"
    by (simp_all add: sample_inode_def need_def sample_free)
  then show ?thesis using failed_growth_panics [OF sample_ok sample_file _ _ _ t [unfolded r]] t r by auto
qed

end
