(* ===== verification/Pids.thy ===== *)
theory Pids
  imports SchedRR PrintFmt
begin

text \<open>
  The process table of \<open>lab8/kern/process/proc.c\<close> as state, and the allocation of process
  identifiers, \<open>get_pid\<close>. The rings \<open>proc_list\<close> and \<open>hash_list\<close> are given by the lists of their
  elements, front first. \<open>get_pid\<close> is a search with restarts: it ends because every restart moves
  past an identifier in use, and it is fast because no identifier between \<open>last_pid\<close> and
  \<open>next_safe\<close> is in use.
\<close>

section \<open>The process table\<close>

definition MAX_PROCESS :: int where "MAX_PROCESS = 4096"
definition MAX_PID :: int where "MAX_PID = MAX_PROCESS * 2"
definition HASH_SHIFT :: nat where "HASH_SHIFT = 10"

definition pid_hashfn :: "int \<Rightarrow> nat" where
  "pid_hashfn x = unat (hash32 (word_of_int x) HASH_SHIFT)"

text \<open>\<open>kmalloc\<close>ed objects and pages in use are the set \<open>held\<close>; the reference counts of address spaces
  and file tables are held by address.\<close>

datatype resource = RProc nat | RKstack nat | RMm nat | RPgdir nat | RMmap nat | RFiles nat

record ptab = kern +
  proc_list :: "proc_ptr list"
  pid_hash :: "nat \<Rightarrow> proc_ptr list"  \<comment> \<open>\<open>hash_list\<close>\<close>
  nr_process :: int
  next_safe :: int
  last_pid :: int
  mm_count :: "nat \<Rightarrow> int"
  mm_pgdir :: "nat \<Rightarrow> nat"  \<comment> \<open>\<open>mm->pgdir\<close>\<close>
  files_count :: "nat \<Rightarrow> int"
  held :: "resource set"

type_synonym ptab_class = "unit ptab_ext sched_class"

section \<open>Allocating an identifier\<close>

text \<open>One pass over the process list, over the identifiers it meets: \<open>Inl\<close> is \<open>goto repeat\<close> with the
  new \<open>last_pid\<close>, \<open>Inr\<close> the end of the pass with \<open>last_pid\<close> and \<open>next_safe\<close>.\<close>

fun pid_scan :: "int list \<Rightarrow> int \<Rightarrow> int \<Rightarrow> int + (int \<times> int)" where
  "pid_scan [] lst safe = Inr (lst, safe)"
| "pid_scan (p # ps) lst safe =
     (if p = lst then
        let lst = lst + 1 in
        if lst \<ge> safe then Inl (if lst \<ge> MAX_PID then 1 else lst) else pid_scan ps lst safe
      else if p > lst \<and> safe > p then pid_scan ps lst p
      else pid_scan ps lst safe)"

text \<open>From the label \<open>inside\<close> on.\<close>

partial_function (option) pid_repeat :: "int list \<Rightarrow> int \<Rightarrow> (int \<times> int) option" where
  "pid_repeat ps lst = (case pid_scan ps lst MAX_PID of
     Inl lst \<Rightarrow> pid_repeat ps lst
   | Inr r \<Rightarrow> Some r)"

definition get_pid :: "ptab \<Rightarrow> (int \<times> ptab) option" where
  "get_pid k =
     (let ps = map (\<lambda>p. pid (procs k p)) (proc_list k);
          lst = last_pid k + 1 in
      if lst \<ge> MAX_PID \<or> lst \<ge> next_safe k then do {
        (lst, safe) \<leftarrow> pid_repeat ps (if lst \<ge> MAX_PID then 1 else lst);
        Some (lst, k\<lparr>last_pid := lst, next_safe := safe\<rparr>)
      } else Some (lst, k\<lparr>last_pid := lst\<rparr>))"

section \<open>A pass\<close>

text \<open>At the end of a pass no identifier of the list lies in \<open>[last, next)\<close>; a restart has moved over
  identifiers that are all in use.\<close>

lemma pid_scan_Inr:
  assumes "pid_scan ps l n = Inr (l', n')" and "l < n"
  shows "l \<le> l' \<and> l' < n' \<and> n' \<le> n \<and> (\<forall>p \<in> set ps. p < l' \<or> n' \<le> p)"
  using assms
proof (induction ps l n rule: pid_scan.induct)
  case (2 p ps l n)
  consider (eq) "p = l" "l + 1 < n" | (lower) "p \<noteq> l" "p > l" "n > p" | (other) "p \<noteq> l" "\<not> (p > l \<and> n > p)"
    using 2(4) by (cases "p = l"; cases "p > l \<and> n > p") (auto simp: Let_def split: if_splits)
  then show ?case
  proof cases
    case eq
    then have "pid_scan ps (l + 1) n = Inr (l', n')" using 2(4) by simp
    from 2(1) [OF eq(1) refl _ this] eq show ?thesis by auto
  next
    case lower
    then have "pid_scan ps l p = Inr (l', n')" using 2(4) by simp
    from 2(2) [OF lower(1) _ this] lower show ?thesis by auto
  next
    case other
    then have "pid_scan ps l n = Inr (l', n')" using 2(4) by (simp split: if_splits)
    from 2(3) [OF other this 2(5)] other show ?thesis by auto
  qed
qed simp

lemma pid_scan_Inl:
  assumes "pid_scan ps l n = Inl m" and "l < n" and "n \<le> MAX_PID"
  shows "\<exists>j. l \<le> j \<and> j < MAX_PID \<and> {l..j} \<subseteq> set ps \<and> m = (if j + 1 \<ge> MAX_PID then 1 else j + 1)"
  using assms
proof (induction ps l n rule: pid_scan.induct)
  case (2 p ps l n)
  consider (stop) "p = l" "l + 1 \<ge> n" | (eq) "p = l" "l + 1 < n" | (lower) "p \<noteq> l" "p > l" "n > p"
    | (other) "p \<noteq> l" "\<not> (p > l \<and> n > p)"
    by (cases "p = l"; cases "l + 1 \<ge> n"; cases "p > l \<and> n > p") auto
  then show ?case
  proof cases
    case stop
    then have "m = (if l + 1 \<ge> MAX_PID then 1 else l + 1)" using 2(4) by (simp add: Let_def)
    then show ?thesis using stop 2(5,6) by (intro exI [of _ l]) auto
  next
    case eq
    then have "pid_scan ps (l + 1) n = Inl m" using 2(4) by simp
    from 2(1) [OF eq(1) refl _ this] eq 2(6) obtain j where j: "l + 1 \<le> j" "j < MAX_PID"
      "{l + 1..j} \<subseteq> set ps" "m = (if j + 1 \<ge> MAX_PID then 1 else j + 1)" by auto
    have "{l..j} = insert l {l + 1..j}" using j(1) by auto
    then have "{l..j} \<subseteq> set (p # ps)" using j(3) eq(1) by auto
    then show ?thesis using j by (intro exI [of _ j]) auto
  next
    case lower
    then have "pid_scan ps l p = Inl m" using 2(4) by simp
    from 2(2) [OF lower(1) _ this] lower 2(6) show ?thesis by fastforce
  next
    case other
    then have "pid_scan ps l n = Inl m" using 2(4) by (simp split: if_splits)
    from 2(3) [OF other this 2(5,6)] show ?thesis by fastforce
  qed
qed simp

section \<open>The search ends\<close>

definition pid_dist :: "int \<Rightarrow> int \<Rightarrow> nat" where
  "pid_dist f l = nat (if l \<le> f then f - l else f - l + MAX_PID)"

lemma pid_repeat_ends:
  assumes "1 \<le> f" and "f < MAX_PID" and "f \<notin> set ps" and "1 \<le> l" and "l < MAX_PID"
  shows "\<exists>l' n'. pid_repeat ps l = Some (l', n') \<and> 1 \<le> l' \<and> l' < n' \<and> n' \<le> MAX_PID \<and>
    (\<forall>p \<in> set ps. p < l' \<or> n' \<le> p)"
  using assms(4,5)
proof (induction "pid_dist f l" arbitrary: l rule: less_induct)
  case less
  show ?case
  proof (cases "pid_scan ps l MAX_PID")
    case (Inl m)
    from pid_scan_Inl [OF this less.prems(2)] obtain j where j: "l \<le> j" "j < MAX_PID"
      "{l..j} \<subseteq> set ps" "m = (if j + 1 \<ge> MAX_PID then 1 else j + 1)" by auto
    have f: "f < l \<or> j < f" using j(3) assms(3) by (meson atLeastAtMost_iff not_le subsetD)
    have "1 \<le> m" "m < MAX_PID" using j less.prems assms(1,2) by auto
    moreover have "pid_dist f m < pid_dist f l"
      using f j assms(1,2) less.prems by (auto simp: pid_dist_def)
    ultimately show ?thesis using less.hyps [of m] Inl by (subst pid_repeat.simps) simp
  next
    case (Inr r)
    obtain l' n' where r: "r = (l', n')" by fastforce
    then show ?thesis
      using pid_scan_Inr [of ps l MAX_PID l' n'] Inr less.prems
      by (subst pid_repeat.simps) auto
  qed
qed

lemma free_pid_exists:
  assumes "int (length ps) < MAX_PID - 1"
  obtains f where "1 \<le> f" and "f < MAX_PID" and "f \<notin> set ps"
proof -
  have "\<not> {1..<MAX_PID} \<subseteq> set ps"
  proof
    assume "{1..<MAX_PID} \<subseteq> set ps"
    then have "card {1..<MAX_PID} \<le> card (set ps)" by (intro card_mono) auto
    also have "\<dots> \<le> length ps" by (rule card_length)
    finally show False using assms by simp
  qed
  then obtain f where "f \<in> {1..<MAX_PID}" "f \<notin> set ps" by blast
  then show thesis by (intro that [of f]) simp_all
qed

section \<open>Properties\<close>

text \<open>What \<open>get_pid\<close> remembers between two calls.\<close>

definition pid_ok :: "ptab \<Rightarrow> bool" where
  "pid_ok k \<longleftrightarrow> 0 \<le> last_pid k \<and> next_safe k \<le> MAX_PID \<and>
     (\<forall>p \<in> set (proc_list k). \<not> (last_pid k < pid (procs k p) \<and> pid (procs k p) < next_safe k))"

lemma get_pid_ok:
  assumes ok: "pid_ok k" and few: "int (length (proc_list k)) < MAX_PID - 1"
  shows "\<exists>r n. get_pid k = Some (r, k\<lparr>last_pid := r, next_safe := n\<rparr>) \<and> 1 \<le> r \<and> r < MAX_PID \<and>
    (\<forall>p \<in> set (proc_list k). pid (procs k p) \<noteq> r) \<and> pid_ok (k\<lparr>last_pid := r, next_safe := n\<rparr>)"
proof (cases "last_pid k + 1 \<ge> MAX_PID \<or> last_pid k + 1 \<ge> next_safe k")
  case True
  let ?ps = "map (\<lambda>p. pid (procs k p)) (proc_list k)"
  let ?l = "if last_pid k + 1 \<ge> MAX_PID then 1 else last_pid k + 1"
  obtain f where f: "1 \<le> f" "f < MAX_PID" "f \<notin> set ?ps" by (rule free_pid_exists [of ?ps]) (use few in auto)
  have l: "1 \<le> ?l" "?l < MAX_PID" using ok by (auto simp: pid_ok_def MAX_PID_def MAX_PROCESS_def)
  from pid_repeat_ends [OF f l] obtain r n where r: "pid_repeat ?ps ?l = Some (r, n)" "1 \<le> r" "r < n"
    "n \<le> MAX_PID" "\<forall>p \<in> set ?ps. p < r \<or> n \<le> p" by blast
  have g: "get_pid k = Some (r, k\<lparr>last_pid := r, next_safe := n\<rparr>)"
    using True r(1) by (simp add: get_pid_def Let_def)
  have u: "\<forall>p \<in> set (proc_list k). pid (procs k p) < r \<or> n \<le> pid (procs k p)" using r(5) by simp
  then have "pid_ok (k\<lparr>last_pid := r, next_safe := n\<rparr>)" using r(2,4) by (auto simp: pid_ok_def)
  moreover have "\<forall>p \<in> set (proc_list k). pid (procs k p) \<noteq> r" using u r(3) by auto
  moreover have "r < MAX_PID" using r(3,4) by simp
  ultimately show ?thesis using g r(2) by blast
next
  case False
  let ?k = "k\<lparr>last_pid := last_pid k + 1, next_safe := next_safe k\<rparr>"
  have "?k = k\<lparr>last_pid := last_pid k + 1\<rparr>" by (cases k) simp
  then have g: "get_pid k = Some (last_pid k + 1, ?k)" using False by (simp add: get_pid_def Let_def)
  have "\<forall>p \<in> set (proc_list k). pid (procs k p) \<noteq> last_pid k + 1"
    using False ok by (auto simp: pid_ok_def)
  moreover have "pid_ok ?k" using ok by (auto simp: pid_ok_def)
  moreover have "1 \<le> last_pid k + 1" "last_pid k + 1 < MAX_PID" using False ok by (simp_all add: pid_ok_def)
  ultimately show ?thesis using g by blast
qed

text \<open>
  (C34) \<open>get_pid\<close> always returns: with fewer processes than identifiers its restarts end, and the
  result lies in \<open>1 .. MAX_PID - 1\<close> and is the identifier of no process. It changes only its two
  static variables and keeps the range between them free.
\<close>

theorem get_pid_fresh:
  assumes ok: "pid_ok k" and few: "int (length (proc_list k)) < MAX_PID - 1"
  shows "\<exists>r n. get_pid k = Some (r, k\<lparr>last_pid := r, next_safe := n\<rparr>) \<and> 1 \<le> r \<and> r < MAX_PID \<and>
    (\<forall>p \<in> set (proc_list k). pid (procs k p) \<noteq> r) \<and> pid_ok (k\<lparr>last_pid := r, next_safe := n\<rparr>)"
  by (rule get_pid_ok [OF ok few])

definition pid_sample :: ptab where
  "pid_sample = kern.extend rr_sample
     (ptab.fields [5, 6, 7] (\<lambda>_. []) 4 MAX_PID (MAX_PID - 1) (\<lambda>_. 0) (\<lambda>_. 0) (\<lambda>_. 0) {})
     \<lparr>procs := (\<lambda>p. blank_proc\<lparr>pid := if p = 5 then 2 else if p = 6 then 1 else 3\<rparr>)\<rparr>"

theorem get_pid_fresh_witness:
  "pid_ok pid_sample \<and> (\<exists>n. get_pid pid_sample = Some (4, pid_sample\<lparr>last_pid := 4, next_safe := n\<rparr>))"
proof -
  have l: "proc_list pid_sample = [5, 6, 7]" "last_pid pid_sample = 8191" "next_safe pid_sample = 8192"
    "map (\<lambda>p. pid (procs pid_sample p)) [5, 6, 7] = [2, 1, 3]"
    by (simp_all add: pid_sample_def MAX_PID_def MAX_PROCESS_def kern.defs ptab.defs)
  have ok: "pid_ok pid_sample" unfolding pid_ok_def l by (simp add: MAX_PID_def MAX_PROCESS_def)
  obtain r n where r: "get_pid pid_sample = Some (r, pid_sample\<lparr>last_pid := r, next_safe := n\<rparr>)"
    using get_pid_fresh [OF ok] l(1) by (auto simp: MAX_PID_def MAX_PROCESS_def)
  have "pid_repeat [2, 1, 3] 1 = Some (4, 8192)"
    by (subst pid_repeat.simps, simp add: MAX_PID_def MAX_PROCESS_def)+
  then have "r = 4" using r unfolding get_pid_def l by (simp add: MAX_PID_def MAX_PROCESS_def)
  then show ?thesis using ok r by blast
qed

end
