(* ===== verification/ProcTable.thy ===== *)
theory ProcTable
  imports Pids
begin

text \<open>
  The relations between processes in \<open>lab8/kern/process/proc.c\<close>: the process list, the hash lists by
  identifier, and the trees made of \<open>parent\<close>, \<open>cptr\<close> (youngest child), \<open>yptr\<close> and \<open>optr\<close> (younger
  and older sibling). The invariant \<open>table_ok\<close> ties them together; \<open>hash_proc\<close>, \<open>set_links\<close>,
  \<open>remove_links\<close> and the move of the children of an exiting process keep it.
\<close>

section \<open>The code\<close>

text \<open>\<open>list_add\<close> on a bucket, and \<open>list_del\<close> on the entry: it leaves the bucket it is in.\<close>

definition hash_proc :: "proc_ptr \<Rightarrow> ptab \<Rightarrow> ptab" where
  "hash_proc proc k =
     (let h = pid_hashfn (pid (procs k proc)) in
      k\<lparr>pid_hash := (pid_hash k)(h := proc # pid_hash k h)\<rparr>)"

definition unhash_proc :: "proc_ptr \<Rightarrow> ptab \<Rightarrow> ptab" where
  "unhash_proc proc k = k\<lparr>pid_hash := (\<lambda>h. remove1 proc (pid_hash k h))\<rparr>"

definition find_proc :: "int \<Rightarrow> ptab \<Rightarrow> proc_ptr option" where
  "find_proc i k =
     (if 0 < i \<and> i < MAX_PID then find (\<lambda>p. pid (procs k p) = i) (pid_hash k (pid_hashfn i))
      else None)"

text \<open>Both dereference \<open>proc->parent\<close>, which must not be NULL.\<close>

definition set_links :: "proc_ptr \<Rightarrow> ptab \<Rightarrow> ptab option" where
  "set_links proc k = do {
     let k = k\<lparr>proc_list := proc # proc_list k\<rparr>;
     let k = upd_proc proc (\<lambda>x. x\<lparr>yptr := None\<rparr>) k;
     par \<leftarrow> parent (procs k proc);
     let old = cptr (procs k par);
     let k = upd_proc proc (\<lambda>x. x\<lparr>optr := old\<rparr>) k;
     let k = (case old of Some o' \<Rightarrow> upd_proc o' (\<lambda>x. x\<lparr>yptr := Some proc\<rparr>) k | None \<Rightarrow> k);
     let k = upd_proc par (\<lambda>x. x\<lparr>cptr := Some proc\<rparr>) k;
     Some (k\<lparr>nr_process := nr_process k + 1\<rparr>)
   }"

definition remove_links :: "proc_ptr \<Rightarrow> ptab \<Rightarrow> ptab option" where
  "remove_links proc k = do {
     let k = k\<lparr>proc_list := remove1 proc (proc_list k)\<rparr>;
     let k = (case optr (procs k proc) of
         Some o' \<Rightarrow> upd_proc o' (\<lambda>x. x\<lparr>yptr := yptr (procs k proc)\<rparr>) k
       | None \<Rightarrow> k);
     k \<leftarrow> (case yptr (procs k proc) of
         Some y \<Rightarrow> Some (upd_proc y (\<lambda>x. x\<lparr>optr := optr (procs k proc)\<rparr>) k)
       | None \<Rightarrow> do { par \<leftarrow> parent (procs k proc);
                    Some (upd_proc par (\<lambda>x. x\<lparr>cptr := optr (procs k proc)\<rparr>) k) });
     Some (k\<lparr>nr_process := nr_process k - 1\<rparr>)
   }"

text \<open>The loop of \<open>do_exit\<close> that gives the children of the running process to \<open>initproc\<close>.\<close>

definition adopt :: "proc_ptr \<Rightarrow> ptab \<Rightarrow> ptab" where
  "adopt proc k =
     (let k = upd_proc (current k) (\<lambda>x. x\<lparr>cptr := optr (procs k proc)\<rparr>) k;
          k = upd_proc proc (\<lambda>x. x\<lparr>yptr := None\<rparr>) k;
          old = cptr (procs k (initproc k));
          k = upd_proc proc (\<lambda>x. x\<lparr>optr := old\<rparr>) k;
          k = (case old of Some o' \<Rightarrow> upd_proc o' (\<lambda>x. x\<lparr>yptr := Some proc\<rparr>) k | None \<Rightarrow> k);
          k = upd_proc proc (\<lambda>x. x\<lparr>parent := Some (initproc k)\<rparr>) k in
      upd_proc (initproc k) (\<lambda>x. x\<lparr>cptr := Some proc\<rparr>) k)"

partial_function (option) adopt_children :: "ptab_class \<Rightarrow> ptab \<Rightarrow> ptab option" where
  "adopt_children c k = (case cptr (procs k (current k)) of
     None \<Rightarrow> Some k
   | Some proc \<Rightarrow> do {
       let k = adopt proc k;
       k \<leftarrow> (if state (procs k proc) = PROC_ZOMBIE \<and> wait_state (procs k (initproc k)) = WT_CHILD
            then wakeup_proc c (initproc k) k else Some k);
       adopt_children c k
     })"

lemma upd_proc_ptab [simp]:
  "proc_list (upd_proc p f k) = proc_list k" "pid_hash (upd_proc p f k) = pid_hash k"
  "nr_process (upd_proc p f k) = nr_process k" "next_safe (upd_proc p f k) = next_safe k"
  "last_pid (upd_proc p f k) = last_pid k" "mm_count (upd_proc p f k) = mm_count k"
  "mm_pgdir (upd_proc p f k) = mm_pgdir k" "files_count (upd_proc p f k) = files_count k"
  "held (upd_proc p f k) = held k"
  by (simp_all add: upd_proc_def)

section \<open>Sibling lists\<close>

text \<open>\<open>sibs P y s xs y' s'\<close>: from the pointer \<open>s\<close>, with younger neighbour \<open>y\<close>, the processes \<open>xs\<close> are
  linked up to the pointer \<open>s'\<close>; \<open>y'\<close> is the last of them.\<close>

fun sibs :: "(proc_ptr \<Rightarrow> proc_struct) \<Rightarrow> proc_ptr option \<Rightarrow> proc_ptr option \<Rightarrow> proc_ptr list \<Rightarrow>
    proc_ptr option \<Rightarrow> proc_ptr option \<Rightarrow> bool" where
  "sibs P y s [] y' s' \<longleftrightarrow> y' = y \<and> s' = s"
| "sibs P y s (x # xs) y' s' \<longleftrightarrow> s = Some x \<and> yptr (P x) = y \<and> sibs P (Some x) (optr (P x)) xs y' s'"

lemma sibs_append:
  "sibs P y s (xs @ ys) y' s' \<longleftrightarrow> (\<exists>m t. sibs P y s xs m t \<and> sibs P m t ys y' s')"
  by (induction xs arbitrary: y s) auto

lemma sibs_snoc:
  "sibs P y s (xs @ [x]) y' s' \<longleftrightarrow> sibs P y s xs (yptr (P x)) (Some x) \<and> y' = Some x \<and> s' = optr (P x)"
  by (auto simp: sibs_append)

lemma sibs_cong:
  "(\<And>x. x \<in> set xs \<Longrightarrow> yptr (P x) = yptr (Q x) \<and> optr (P x) = optr (Q x)) \<Longrightarrow>
    sibs P y s xs y' s' = sibs Q y s xs y' s'"
  by (induction xs arbitrary: y s) auto

lemma sibs_last: "sibs P y s xs y' s' \<Longrightarrow> y' = (if xs = [] then y else Some (last xs))"
  by (induction xs arbitrary: y s) auto

lemma sibs_end: "xs \<noteq> [] \<Longrightarrow> sibs P y s xs y' s' \<Longrightarrow> s' = optr (P (last xs))"
  by (induction xs arbitrary: y s) (auto split: if_splits)

text \<open>The links from one process to the next older one alone.\<close>

fun olders :: "(proc_ptr \<Rightarrow> proc_struct) \<Rightarrow> proc_ptr option \<Rightarrow> proc_ptr list \<Rightarrow> bool" where
  "olders P s [] \<longleftrightarrow> s = None"
| "olders P s (x # xs) \<longleftrightarrow> s = Some x \<and> olders P (optr (P x)) xs"

lemma sibs_olders: "sibs P y s xs y' None \<Longrightarrow> olders P s xs"
  by (induction xs arbitrary: y s) auto

lemma olders_cong:
  "(\<And>x. x \<in> set xs \<Longrightarrow> optr (P x) = optr (Q x)) \<Longrightarrow> olders P s xs = olders Q s xs"
  by (induction xs arbitrary: s) auto

text \<open>A new process in front, and a process taken out of the middle.\<close>

definition family :: "(proc_ptr \<Rightarrow> proc_struct) \<Rightarrow> proc_ptr option \<Rightarrow> proc_ptr list \<Rightarrow> bool" where
  "family P s xs \<longleftrightarrow> distinct xs \<and> (\<exists>y'. sibs P None s xs y' None)"

lemma family_Nil [simp]: "family P s [] \<longleftrightarrow> s = None"
  by (auto simp: family_def)

lemma family_cong:
  "(\<And>x. x \<in> set xs \<Longrightarrow> yptr (P x) = yptr (Q x) \<and> optr (P x) = optr (Q x)) \<Longrightarrow>
    family P s xs = family Q s xs"
  using sibs_cong [of xs P Q] by (simp add: family_def)

lemma family_push:
  assumes f: "family P s xs" and n: "n \<notin> set xs" and qn: "yptr (Q n) = None" "optr (Q n) = s"
    and qs: "\<And>x. s = Some x \<Longrightarrow> yptr (Q x) = Some n"
    and other: "\<And>x. x \<noteq> n \<Longrightarrow> s \<noteq> Some x \<Longrightarrow> yptr (Q x) = yptr (P x)" "\<And>x. x \<noteq> n \<Longrightarrow> optr (Q x) = optr (P x)"
  shows "family Q (Some n) (n # xs)"
proof (cases xs)
  case Nil
  then show ?thesis using f qn by (auto simp: family_def)
next
  case (Cons x zs)
  obtain y' where s: "s = Some x" "sibs P (Some x) (optr (P x)) zs y' None" and d: "distinct (x # zs)"
    using f Cons by (auto simp: family_def)
  have "sibs Q (Some x) (optr (P x)) zs y' None"
  proof (subst sibs_cong [where Q = P])
    fix z assume "z \<in> set zs"
    then have "z \<noteq> n" "s \<noteq> Some z" using n d s(1) Cons by auto
    then show "yptr (Q z) = yptr (P z) \<and> optr (Q z) = optr (P z)" using other by simp
  qed (rule s(2))
  moreover have "optr (Q x) = optr (P x)" using n Cons by (intro other(2)) auto
  ultimately show ?thesis using s(1) qn qs n d Cons by (auto simp: family_def)
qed

lemma family_remove:
  assumes f: "family P s (xs @ p # zs)"
    and qz: "zs \<noteq> [] \<Longrightarrow> yptr (Q (hd zs)) = yptr (P p)"
    and qx: "xs \<noteq> [] \<Longrightarrow> optr (Q (last xs)) = optr (P p)"
    and t: "t = (if xs = [] then optr (P p) else s)"
    and oy: "\<And>x. x \<in> set (xs @ zs) \<Longrightarrow> zs = [] \<or> x \<noteq> hd zs \<Longrightarrow> yptr (Q x) = yptr (P x)"
    and oo: "\<And>x. x \<in> set (xs @ zs) \<Longrightarrow> xs = [] \<or> x \<noteq> last xs \<Longrightarrow> optr (Q x) = optr (P x)"
  shows "family Q t (xs @ zs)"
proof -
  obtain m y' where x: "sibs P None s xs m (Some p)" and m: "yptr (P p) = m"
    and z: "sibs P (Some p) (optr (P p)) zs y' None" and d: "distinct (xs @ p # zs)"
    using f by (auto simp: family_def sibs_append)
  have dz: "distinct zs" "distinct xs" "set xs \<inter> set zs = {}" using d by auto
  have "sibs Q None t xs m (optr (P p))"
  proof (cases xs rule: rev_cases)
    case Nil
    then show ?thesis using x t by simp
  next
    case (snoc us u)
    then have "sibs P None s us (yptr (P u)) (Some u)" "m = Some u" using x by (simp_all add: sibs_snoc)
    moreover have "yptr (Q v) = yptr (P v) \<and> optr (Q v) = optr (P v)" if "v \<in> set us" for v
    proof -
      have "v \<in> set xs" "v \<noteq> u" using that snoc dz(2) by auto
      then have "v \<notin> set zs" using dz(3) by auto
      then have "zs = [] \<or> v \<noteq> hd zs" by (cases zs) auto
      then show ?thesis using oy [of v] oo [of v] \<open>v \<in> set xs\<close> \<open>v \<noteq> u\<close> snoc by auto
    qed
    then have "sibs Q None s us (yptr (P u)) (Some u) = sibs P None s us (yptr (P u)) (Some u)"
      by (rule sibs_cong)
    moreover have "yptr (Q u) = yptr (P u)"
    proof -
      have "u \<notin> set zs" using snoc dz(3) by auto
      then have "zs = [] \<or> u \<noteq> hd zs" by (cases zs) auto
      then show ?thesis using oy [of u] snoc by auto
    qed
    ultimately show ?thesis using snoc qx t by (simp add: sibs_snoc)
  qed
  moreover have "sibs Q m (optr (P p)) zs (if zs = [] then m else y') None"
  proof (cases zs)
    case Nil
    then show ?thesis using z by simp
  next
    case (Cons u us)
    then have u: "optr (P p) = Some u" "sibs P (Some u) (optr (P u)) us y' None" using z by simp_all
    have "yptr (Q v) = yptr (P v) \<and> optr (Q v) = optr (P v)" if "v \<in> set us" for v
    proof -
      have "v \<in> set zs" "v \<noteq> u" using that Cons dz(1) by auto
      then have "v \<notin> set xs" using dz(3) by auto
      then have "xs = [] \<or> v \<noteq> last xs" by auto
      then show ?thesis using oy [of v] oo [of v] \<open>v \<in> set zs\<close> \<open>v \<noteq> u\<close> Cons by auto
    qed
    then have "sibs Q (Some u) (optr (P u)) us y' None = sibs P (Some u) (optr (P u)) us y' None"
      by (rule sibs_cong)
    moreover have "optr (Q u) = optr (P u)"
    proof -
      have "u \<notin> set xs" using Cons dz(3) by auto
      then have "xs = [] \<or> u \<noteq> last xs" by auto
      then show ?thesis using oo [of u] Cons by auto
    qed
    ultimately show ?thesis using u Cons qz m by simp
  qed
  ultimately show ?thesis using d by (auto simp: family_def sibs_append)
qed


section \<open>The invariant\<close>

definition ids_ok :: "ptab \<Rightarrow> bool" where
  "ids_ok k \<longleftrightarrow> distinct (proc_list k) \<and> idleproc k \<notin> set (proc_list k) \<and>
     inj_on (\<lambda>p. pid (procs k p)) (set (proc_list k)) \<and>
     (\<forall>p \<in> set (proc_list k). 0 < pid (procs k p) \<and> pid (procs k p) < MAX_PID) \<and>
     (\<forall>h. distinct (pid_hash k h) \<and>
       set (pid_hash k h) = {p \<in> set (proc_list k). pid_hashfn (pid (procs k p)) = h}) \<and>
     nr_process k = 1 + int (length (proc_list k)) \<and> pid_ok k"

text \<open>Every process has its parent in the table, and the children of each are a sibling list.\<close>

definition members :: "ptab \<Rightarrow> proc_ptr set" where
  "members k = insert (idleproc k) (set (proc_list k))"

definition tree_ok :: "ptab \<Rightarrow> (proc_ptr \<Rightarrow> proc_ptr list) \<Rightarrow> bool" where
  "tree_ok k ch \<longleftrightarrow>
     (\<forall>p \<in> members k. family (procs k) (cptr (procs k p)) (ch p) \<and>
       set (ch p) = {q \<in> set (proc_list k). parent (procs k q) = Some p}) \<and>
     (\<forall>q \<in> set (proc_list k). \<exists>p \<in> members k. parent (procs k q) = Some p \<and> p \<noteq> q)"

definition table_ok :: "ptab \<Rightarrow> bool" where
  "table_ok k \<longleftrightarrow> ids_ok k \<and> (\<exists>ch. tree_ok k ch)"

lemma find_proc_iff:
  assumes ok: "ids_ok k"
  shows "find_proc i k = Some p \<longleftrightarrow> p \<in> set (proc_list k) \<and> pid (procs k p) = i"
proof
  assume f: "find_proc i k = Some p"
  then have "find (\<lambda>p. pid (procs k p) = i) (pid_hash k (pid_hashfn i)) = Some p"
    by (simp add: find_proc_def split: if_splits)
  then have "p \<in> set (pid_hash k (pid_hashfn i))" "pid (procs k p) = i"
    by (auto simp: find_Some_iff)
  then show "p \<in> set (proc_list k) \<and> pid (procs k p) = i" using ok by (simp add: ids_ok_def)
next
  assume p: "p \<in> set (proc_list k) \<and> pid (procs k p) = i"
  then have i: "0 < i \<and> i < MAX_PID" and m: "p \<in> set (pid_hash k (pid_hashfn i))"
    using ok by (auto simp: ids_ok_def)
  then obtain q where q: "find (\<lambda>p. pid (procs k p) = i) (pid_hash k (pid_hashfn i)) = Some q"
    using p by (cases "find (\<lambda>p. pid (procs k p) = i) (pid_hash k (pid_hashfn i))")
      (auto simp: find_None_iff)
  then have "q \<in> set (pid_hash k (pid_hashfn i))" "pid (procs k q) = i" by (auto simp: find_Some_iff)
  then have "q \<in> set (proc_list k)" "pid (procs k q) = pid (procs k p)" using ok p by (auto simp: ids_ok_def)
  then have "q = p" using ok p by (auto simp: ids_ok_def inj_on_def)
  then show "find_proc i k = Some p" using q i by (simp add: find_proc_def)
qed

section \<open>Insertion\<close>

definition links_erase :: "proc_struct \<Rightarrow> proc_struct" where
  "links_erase x = x\<lparr>yptr := None, optr := None, cptr := None\<rparr>"

lemma links_erase_simps [simp]:
  "links_erase (x\<lparr>yptr := a\<rparr>) = links_erase x" "links_erase (x\<lparr>optr := a\<rparr>) = links_erase x"
  "links_erase (x\<lparr>cptr := a\<rparr>) = links_erase x"
  by (simp_all add: links_erase_def)

lemma links_eraseD:
  assumes "links_erase x = links_erase y"
  shows "pid x = pid y" "parent x = parent y" "state x = state y" "wait_state x = wait_state y"
    "exit_code x = exit_code y" "pflags x = pflags y"
  using arg_cong [OF assms, of pid] arg_cong [OF assms, of parent] arg_cong [OF assms, of state]
    arg_cong [OF assms, of wait_state] arg_cong [OF assms, of exit_code] arg_cong [OF assms, of pflags]
  by (simp_all add: links_erase_def)

text \<open>What the link operations leave alone.\<close>

definition links_frame :: "ptab \<Rightarrow> ptab \<Rightarrow> bool" where
  "links_frame k k' \<longleftrightarrow> current k' = current k \<and> idleproc k' = idleproc k \<and> initproc k' = initproc k \<and>
     run_list k' = run_list k \<and> proc_num k' = proc_num k \<and> run_pool k' = run_pool k \<and>
     max_time_slice k' = max_time_slice k \<and> timers k' = timers k \<and> timer_list k' = timer_list k \<and>
     next_safe k' = next_safe k \<and> last_pid k' = last_pid k \<and> mm_count k' = mm_count k \<and>
     mm_pgdir k' = mm_pgdir k \<and> files_count k' = files_count k \<and> held k' = held k \<and>
     (\<forall>q. links_erase (procs k' q) = links_erase (procs k q))"

lemma links_frameD:
  assumes "links_frame k k'"
  shows "pid (procs k' q) = pid (procs k q)" "parent (procs k' q) = parent (procs k q)"
    "state (procs k' q) = state (procs k q)" "wait_state (procs k' q) = wait_state (procs k q)"
    "idleproc k' = idleproc k" "initproc k' = initproc k" "current k' = current k"
    "next_safe k' = next_safe k" "last_pid k' = last_pid k"
  using assms links_eraseD [of "procs k' q" "procs k q"] by (simp_all add: links_frame_def)

lemma set_links_eq:
  assumes "parent (procs k p) = Some par" and "cptr (procs k par) \<noteq> Some p" and "par \<noteq> p"
  obtains k' where "set_links p k = Some k'" and "proc_list k' = p # proc_list k"
    and "pid_hash k' = pid_hash k" and "nr_process k' = nr_process k + 1" and "links_frame k k'"
    and "yptr \<circ> procs k' = (\<lambda>q. if q = p then None else if cptr (procs k par) = Some q then Some p
           else yptr (procs k q))"
    and "optr \<circ> procs k' = (optr \<circ> procs k)(p := cptr (procs k par))"
    and "cptr \<circ> procs k' = (cptr \<circ> procs k)(par := Some p)"
proof -
  have "\<exists>k'. set_links p k = Some k' \<and> proc_list k' = p # proc_list k \<and> pid_hash k' = pid_hash k \<and>
    nr_process k' = nr_process k + 1 \<and> links_frame k k' \<and>
    (\<forall>q. yptr (procs k' q) = (if q = p then None else if cptr (procs k par) = Some q then Some p
       else yptr (procs k q))) \<and>
    (\<forall>q. optr (procs k' q) = (if q = p then cptr (procs k par) else optr (procs k q))) \<and>
    (\<forall>q. cptr (procs k' q) = (if q = par then Some p else cptr (procs k q)))"
  proof (cases "cptr (procs k par)")
    case None
    then show ?thesis using assms(1,3) by (simp add: set_links_def Let_def links_frame_def)
  next
    case (Some r)
    then have "r \<noteq> p" using assms(2) by simp
    then show ?thesis using assms(1,3) Some by (auto simp: set_links_def Let_def links_frame_def)
  qed
  then obtain k' where k': "set_links p k = Some k'" "proc_list k' = p # proc_list k" "pid_hash k' = pid_hash k"
    "nr_process k' = nr_process k + 1" "links_frame k k'"
    and f: "\<forall>q. yptr (procs k' q) = (if q = p then None else if cptr (procs k par) = Some q then Some p
       else yptr (procs k q))"
    "\<forall>q. optr (procs k' q) = (if q = p then cptr (procs k par) else optr (procs k q))"
    "\<forall>q. cptr (procs k' q) = (if q = par then Some p else cptr (procs k q))"
    by blast
  show thesis by (rule that [OF k']) (simp_all add: fun_eq_iff f)
qed

lemma hash_proc_simps [simp]:
  "proc_list (hash_proc p k) = proc_list k" "nr_process (hash_proc p k) = nr_process k"
  "procs (hash_proc p k) = procs k" "idleproc (hash_proc p k) = idleproc k"
  "last_pid (hash_proc p k) = last_pid k" "next_safe (hash_proc p k) = next_safe k"
  "links_frame k (hash_proc p k)"
  by (simp_all add: hash_proc_def Let_def links_frame_def)

lemma insert_ids:
  assumes ok: "ids_ok k" and p: "p \<notin> members k" and i: "0 < pid (procs k p)" "pid (procs k p) < MAX_PID"
    and new: "\<forall>q \<in> set (proc_list k). pid (procs k q) \<noteq> pid (procs k p)"
    and pid: "pid_ok k" "pid (procs k p) \<le> last_pid k"
    and k': "proc_list k' = p # proc_list k" "pid_hash k' = pid_hash (hash_proc p k)"
      "nr_process k' = nr_process k + 1" "links_frame k k'"
  shows "ids_ok k'"
proof -
  note fr = links_frameD [OF k'(4)]
  have "distinct (pid_hash k' h) \<and>
      set (pid_hash k' h) = {q \<in> set (proc_list k'). pid_hashfn (pid (procs k' q)) = h}" for h
  proof -
    have "distinct (pid_hash k h)" and s: "set (pid_hash k h) = {q \<in> set (proc_list k). pid_hashfn (pid (procs k q)) = h}"
      using ok by (simp_all add: ids_ok_def)
    moreover have "p \<notin> set (pid_hash k h)" using s p by (simp add: members_def)
    ultimately show ?thesis
      by (auto simp: k'(1,2) fr hash_proc_def Let_def)
  qed
  moreover have "pid_ok k'" using pid by (auto simp: pid_ok_def k'(1) fr)
  ultimately show ?thesis using ok p i new
    by (auto simp: ids_ok_def k'(1,3) fr members_def inj_on_def)
qed

lemma insert_tree:
  assumes ok: "tree_ok k ch" and p: "p \<notin> members k" and par: "parent (procs k p) = Some par" "par \<in> members k"
    and c: "cptr (procs k p) = None" and k': "proc_list k' = p # proc_list k" "links_frame k k'"
      "yptr \<circ> procs k' = (\<lambda>q. if q = p then None else if cptr (procs k par) = Some q then Some p
           else yptr (procs k q))"
      "optr \<circ> procs k' = (optr \<circ> procs k)(p := cptr (procs k par))"
      "cptr \<circ> procs k' = (cptr \<circ> procs k)(par := Some p)"
  shows "tree_ok k' (ch(par := p # ch par, p := []))"
proof -
  note fr = links_frameD [OF k'(2)]
  have yp: "yptr (procs k' q) = (if q = p then None else if cptr (procs k par) = Some q then Some p
      else yptr (procs k q))" for q using fun_cong [OF k'(3), of q] by simp
  have op: "optr (procs k' q) = (if q = p then cptr (procs k par) else optr (procs k q))" for q
    using fun_cong [OF k'(4), of q] by simp
  have cp: "cptr (procs k' q) = (if q = par then Some p else cptr (procs k q))" for q
    using fun_cong [OF k'(5), of q] by simp
  have m: "members k' = insert p (members k)" by (auto simp: members_def k'(1) fr)
  have pne: "p \<noteq> par" using p par(2) by auto
  have fam: "family (procs k) (cptr (procs k q)) (ch q)" and st: "set (ch q) = {r \<in> set (proc_list k). parent (procs k r) = Some q}"
    if "q \<in> members k" for q using ok that by (simp_all add: tree_ok_def)
  have chp: "p \<notin> set (ch q)" if "q \<in> members k" for q using st [OF that] p by (auto simp: members_def)
  have head: "cptr (procs k par) = Some r \<Longrightarrow> r \<in> set (ch par)" for r
    using fam [OF par(2)] by (cases "ch par") (auto simp: family_def)
  have "family (procs k') (cptr (procs k' q)) ((ch(par := p # ch par, p := [])) q) \<and>
      set ((ch(par := p # ch par, p := [])) q) = {r \<in> set (proc_list k'). parent (procs k' r) = Some q}"
    if q: "q \<in> members k'" for q
  proof -
    consider (new) "q = p" | (par) "q = par" | (other) "q \<in> members k" "q \<noteq> p" "q \<noteq> par" using q m by auto
    then show ?thesis
    proof cases
      case new
      have "parent (procs k r) \<noteq> Some p" if "r \<in> set (proc_list k)" for r
        using ok that p by (auto simp: tree_ok_def)
      then show ?thesis using new c par pne by (auto simp: cp k'(1) fr)
    next
      case q: par
      have "family (procs k') (Some p) (p # ch par)"
        by (rule family_push [OF fam [OF par(2)] chp [OF par(2)]]) (use head chp [OF par(2)] in \<open>auto simp: yp op\<close>)
      then show ?thesis using q pne st [OF par(2)] par by (auto simp: cp k'(1) fr)
    next
      case other
      have "family (procs k') (cptr (procs k q)) (ch q) = family (procs k) (cptr (procs k q)) (ch q)"
      proof (rule family_cong)
        fix r assume r: "r \<in> set (ch q)"
        then have "r \<noteq> p" using chp [OF other(1)] by auto
        moreover have "cptr (procs k par) \<noteq> Some r"
          using r head [of r] st [OF other(1)] st [OF par(2)] other(3) by auto
        ultimately show "yptr (procs k' r) = yptr (procs k r) \<and> optr (procs k' r) = optr (procs k r)"
          by (simp add: yp op)
      qed
      then show ?thesis using fam [OF other(1)] st [OF other(1)] other par pne by (auto simp: cp k'(1) fr)
    qed
  qed
  moreover have "\<exists>r \<in> members k'. parent (procs k' q) = Some r \<and> r \<noteq> q" if "q \<in> set (proc_list k')" for q
    using that ok par m pne by (auto simp: tree_ok_def k'(1) fr)
  ultimately show ?thesis by (simp add: tree_ok_def)
qed


section \<open>Removal\<close>

lemma remove_links_eq:
  assumes "parent (procs k p) = Some par" and "optr (procs k p) \<noteq> Some p" and "yptr (procs k p) \<noteq> Some p"
    and "yptr (procs k p) = None \<or> yptr (procs k p) \<noteq> optr (procs k p)"
  obtains k' where "remove_links p k = Some k'" and "proc_list k' = remove1 p (proc_list k)"
    and "pid_hash k' = pid_hash k" and "nr_process k' = nr_process k - 1" and "links_frame k k'"
    and "yptr \<circ> procs k' = (\<lambda>q. if optr (procs k p) = Some q then yptr (procs k p) else yptr (procs k q))"
    and "optr \<circ> procs k' = (\<lambda>q. if yptr (procs k p) = Some q then optr (procs k p) else optr (procs k q))"
    and "cptr \<circ> procs k' = (\<lambda>q. if yptr (procs k p) = None \<and> q = par then optr (procs k p) else cptr (procs k q))"
proof -
  have "\<exists>k'. remove_links p k = Some k' \<and> proc_list k' = remove1 p (proc_list k) \<and> pid_hash k' = pid_hash k \<and>
    nr_process k' = nr_process k - 1 \<and> links_frame k k' \<and>
    (\<forall>q. yptr (procs k' q) = (if optr (procs k p) = Some q then yptr (procs k p) else yptr (procs k q))) \<and>
    (\<forall>q. optr (procs k' q) = (if yptr (procs k p) = Some q then optr (procs k p) else optr (procs k q))) \<and>
    (\<forall>q. cptr (procs k' q) = (if yptr (procs k p) = None \<and> q = par then optr (procs k p) else cptr (procs k q)))"
    using assms
    by (cases "optr (procs k p)"; cases "yptr (procs k p)")
       (auto simp: remove_links_def Let_def links_frame_def)
  then obtain k' where k': "remove_links p k = Some k'" "proc_list k' = remove1 p (proc_list k)" "pid_hash k' = pid_hash k"
    "nr_process k' = nr_process k - 1" "links_frame k k'"
    and f: "\<forall>q. yptr (procs k' q) = (if optr (procs k p) = Some q then yptr (procs k p) else yptr (procs k q))"
    "\<forall>q. optr (procs k' q) = (if yptr (procs k p) = Some q then optr (procs k p) else optr (procs k q))"
    "\<forall>q. cptr (procs k' q) = (if yptr (procs k p) = None \<and> q = par then optr (procs k p) else cptr (procs k q))"
    by blast
  show thesis by (rule that [OF k']) (simp_all add: fun_eq_iff f)
qed

lemma remove_ids:
  assumes ok: "ids_ok k" and p: "p \<in> set (proc_list k)"
    and k': "proc_list k' = remove1 p (proc_list k)" "pid_hash k' = pid_hash (unhash_proc p k)"
      "nr_process k' = nr_process k - 1" "links_frame k k'"
  shows "ids_ok k'"
proof -
  note fr = links_frameD [OF k'(4)]
  have d: "distinct (proc_list k)" using ok by (simp add: ids_ok_def)
  then have s: "set (proc_list k') = set (proc_list k) - {p}" by (simp add: k'(1))
  have "distinct (pid_hash k' h) \<and>
      set (pid_hash k' h) = {q \<in> set (proc_list k'). pid_hashfn (pid (procs k' q)) = h}" for h
    using ok by (auto simp: s k'(2) fr unhash_proc_def ids_ok_def)
  moreover have "length (proc_list k') = length (proc_list k) - 1" using p by (simp add: k'(1) length_remove1)
  then have "int (length (proc_list k')) = int (length (proc_list k)) - 1"
    using length_pos_if_in_set [OF p] by linarith
  moreover have "pid_ok k'" using ok by (auto simp: pid_ok_def s fr ids_ok_def)
  ultimately show ?thesis using ok d
    by (auto simp: ids_ok_def s k'(3) fr inj_on_def k'(1))
qed

lemma family_neighbours:
  assumes "family P s (xs @ p # zs)"
  shows "optr (P p) = (if zs = [] then None else Some (hd zs))"
    and "yptr (P p) = (if xs = [] then None else Some (last xs))"
    and "s = Some (hd (xs @ [p]))" and "xs = [] \<longleftrightarrow> s = Some p"
proof -
  obtain m y' where x: "sibs P None s xs m (Some p)" and m: "yptr (P p) = m"
    and z: "sibs P (Some p) (optr (P p)) zs y' None" and d: "distinct (xs @ p # zs)"
    using assms by (auto simp: family_def sibs_append)
  show "optr (P p) = (if zs = [] then None else Some (hd zs))" using z by (cases zs) auto
  show "yptr (P p) = (if xs = [] then None else Some (last xs))" using sibs_last [OF x] m by simp
  show "s = Some (hd (xs @ [p]))" using x by (cases xs) auto
  then show "xs = [] \<longleftrightarrow> s = Some p" using d by (cases xs) auto
qed

lemma remove_tree:
  assumes ok: "tree_ok k ch" and d: "distinct (proc_list k)" and p: "p \<in> set (proc_list k)" "p \<noteq> idleproc k"
    and leaf: "cptr (procs k p) = None"
  obtains k' where "remove_links p k = Some k'" and "proc_list k' = remove1 p (proc_list k)"
    and "pid_hash k' = pid_hash k" and "nr_process k' = nr_process k - 1" and "links_frame k k'"
    and "\<exists>ch'. tree_ok k' ch'" and "\<forall>q. cptr (procs k q) = None \<longrightarrow> cptr (procs k' q) = None"
proof -
  have pm: "p \<in> members k" using p by (simp add: members_def)
  obtain par where par: "parent (procs k p) = Some par" "par \<in> members k" "par \<noteq> p"
    using ok p by (auto simp: tree_ok_def)
  have fam: "family (procs k) (cptr (procs k q)) (ch q)"
    and st: "set (ch q) = {r \<in> set (proc_list k). parent (procs k r) = Some q}" if "q \<in> members k" for q
    using ok that by (simp_all add: tree_ok_def)
  have "p \<in> set (ch par)" using st [OF par(2)] p par(1) by simp
  then obtain xs zs where ch: "ch par = xs @ p # zs" by (meson split_list)
  have f: "family (procs k) (cptr (procs k par)) (xs @ p # zs)" using fam [OF par(2)] ch by simp
  have dist: "distinct (xs @ p # zs)" using f by (simp add: family_def)
  note nb = family_neighbours [OF f]
  have no_kids: "parent (procs k r) \<noteq> Some p" if "r \<in> set (proc_list k)" for r
  proof -
    have "ch p = []" using fam [OF pm] leaf by (cases "ch p") (auto simp: family_def)
    then show ?thesis using st [OF pm] that by auto
  qed
  have a1: "optr (procs k p) \<noteq> Some p"
    using nb(1) dist by (cases zs) auto
  have a2: "yptr (procs k p) \<noteq> Some p"
    using nb(2) dist last_in_set [of xs] by auto
  have a3: "yptr (procs k p) = None \<or> yptr (procs k p) \<noteq> optr (procs k p)"
  proof (cases "xs = [] \<or> zs = []")
    case False
    then have "last xs \<in> set xs" "hd zs \<in> set zs" by simp_all
    then have "last xs \<noteq> hd zs" using dist by auto
    then show ?thesis using nb(1,2) False by simp
  qed (use nb in auto)
  obtain k' where k': "remove_links p k = Some k'" "proc_list k' = remove1 p (proc_list k)"
    "pid_hash k' = pid_hash k" "nr_process k' = nr_process k - 1" "links_frame k k'"
    and y': "yptr \<circ> procs k' = (\<lambda>q. if optr (procs k p) = Some q then yptr (procs k p) else yptr (procs k q))"
    and o': "optr \<circ> procs k' = (\<lambda>q. if yptr (procs k p) = Some q then optr (procs k p) else optr (procs k q))"
    and c': "cptr \<circ> procs k' = (\<lambda>q. if yptr (procs k p) = None \<and> q = par then optr (procs k p) else cptr (procs k q))"
    by (rule remove_links_eq [OF par(1) a1 a2 a3])
  note fr = links_frameD [OF k'(5)]
  have yp: "yptr (procs k' q) = (if optr (procs k p) = Some q then yptr (procs k p) else yptr (procs k q))" for q
    using fun_cong [OF y', of q] by simp
  have op: "optr (procs k' q) = (if yptr (procs k p) = Some q then optr (procs k p) else optr (procs k q))" for q
    using fun_cong [OF o', of q] by simp
  have cp: "cptr (procs k' q) = (if yptr (procs k p) = None \<and> q = par then optr (procs k p) else cptr (procs k q))" for q
    using fun_cong [OF c', of q] by simp
  have s: "set (proc_list k') = set (proc_list k) - {p}" using d by (simp add: k'(2))
  then have m: "members k' = members k - {p}" using p by (auto simp: members_def fr)
  let ?ch = "ch(par := xs @ zs)"
  have "family (procs k') (cptr (procs k' q)) (?ch q) \<and>
      set (?ch q) = {r \<in> set (proc_list k'). parent (procs k' r) = Some q}" if q: "q \<in> members k'" for q
  proof (cases "q = par")
    case True
    have "family (procs k') (cptr (procs k' par)) (xs @ zs)"
    proof (rule family_remove [OF f])
      show "yptr (procs k' (hd zs)) = yptr (procs k p)" if "zs \<noteq> []" using that nb(1) by (simp add: yp)
      show "optr (procs k' (last xs)) = optr (procs k p)" if "xs \<noteq> []" using that nb(2) by (simp add: op)
      show "cptr (procs k' par) = (if xs = [] then optr (procs k p) else cptr (procs k par))"
        using nb(2) by (simp add: cp)
      show "yptr (procs k' x) = yptr (procs k x)" if "zs = [] \<or> x \<noteq> hd zs" for x
        using that nb(1) by (auto simp: yp)
      show "optr (procs k' x) = optr (procs k x)" if "xs = [] \<or> x \<noteq> last xs" for x
        using that nb(2) by (auto simp: op)
    qed
    moreover have "set (xs @ zs) = set (ch par) - {p}" using dist ch by auto
    ultimately show ?thesis using True st [OF par(2)] by (auto simp: s fr)
  next
    case False
    then have qm: "q \<in> members k" "q \<noteq> p" using q m by auto
    have "family (procs k') (cptr (procs k q)) (ch q) = family (procs k) (cptr (procs k q)) (ch q)"
    proof (rule family_cong)
      fix r assume "r \<in> set (ch q)"
      then have "parent (procs k r) = Some q" using st [OF qm(1)] by simp
      then have "r \<notin> set (ch par)" using st [OF par(2)] False by auto
      then have "optr (procs k p) \<noteq> Some r" "yptr (procs k p) \<noteq> Some r"
        using nb(1,2) ch last_in_set [of xs] hd_in_set [of zs] by auto
      then show "yptr (procs k' r) = yptr (procs k r) \<and> optr (procs k' r) = optr (procs k r)"
        by (simp add: yp op)
    qed
    moreover have "p \<notin> set (ch q)" using st [OF qm(1)] par(1) False by auto
    ultimately show ?thesis using False fam [OF qm(1)] st [OF qm(1)] by (auto simp: cp s fr)
  qed
  moreover have "\<exists>r \<in> members k'. parent (procs k' q) = Some r \<and> r \<noteq> q" if "q \<in> set (proc_list k')" for q
    using that ok no_kids [of q] m s by (auto simp: tree_ok_def fr)
  ultimately have "tree_ok k' ?ch" by (simp add: tree_ok_def)
  moreover have "\<forall>q. cptr (procs k q) = None \<longrightarrow> cptr (procs k' q) = None"
    using nb(3) by (auto simp: cp)
  ultimately show thesis using that k' by blast
qed

end
