(* ===== verification/ProcLife.thy ===== *)
theory ProcLife
  imports ProcTable
begin

text \<open>
  The life of a process in \<open>lab8/kern/process/proc.c\<close>: \<open>alloc_proc\<close>, \<open>do_fork\<close>, \<open>do_exit\<close>, \<open>do_wait\<close>,
  \<open>do_kill\<close> and \<open>do_yield\<close>, with the scheduler of theory Sched and the round-robin class. An operation
  that gives up the processor ends with the switch (\<open>schedule\<close>); \<open>do_wait\<close> starts its loop again when
  the process runs again. The invariant \<open>proc_ok\<close> holds under every sequence of these operations.
  The memory management behind an address space and the registers of a process are not part of the
  state; whether their allocations succeed is the parameter \<open>fork_env\<close>.
\<close>

section \<open>The code\<close>

definition E_KILLED :: int where "E_KILLED = 9"
definition KERNBASE :: nat where "KERNBASE = 0xFFFFFFFFC0200000"
definition PHYSICAL_MEMORY_OFFSET :: nat where "PHYSICAL_MEMORY_OFFSET = 0xFFFFFFFF40000000"
definition PROC_NAME_LEN :: nat where "PROC_NAME_LEN = 15"
definition CLONE_VM :: u32 where "CLONE_VM = 0x00000100"
definition CLONE_FS :: u32 where "CLONE_FS = 0x00000800"

definition PADDR :: "nat \<Rightarrow> nat option" where
  "PADDR kva = do { kassert (kva \<ge> KERNBASE); Some (kva - PHYSICAL_MEMORY_OFFSET) }"

text \<open>What the allocations during a fork return: \<open>kmalloc\<close> for the process, the kernel stack, \<open>mm_create\<close>,
  the page of the directory, \<open>dup_mmap\<close>, \<open>files_create\<close>, \<open>dup_files\<close>.\<close>

record fork_env =
  fe_proc :: "nat option"
  fe_kstack :: "nat option"
  fe_mm :: "nat option"
  fe_pgdir :: "nat option"
  fe_dup_mmap :: int
  fe_files :: "nat option"
  fe_dup_files :: int
  fe_boot_pgdir :: nat  \<comment> \<open>\<open>boot_pgdir_pa\<close>\<close>

definition hold :: "resource set \<Rightarrow> ptab \<Rightarrow> ptab" where
  "hold R k = k\<lparr>held := held k \<union> R\<rparr>"

definition drop_res :: "resource set \<Rightarrow> ptab \<Rightarrow> ptab" where
  "drop_res R k = k\<lparr>held := held k - R\<rparr>"

text \<open>\<open>alloc_proc\<close>; \<open>exit_code\<close> keeps what the memory held.\<close>

definition alloc_proc :: "fork_env \<Rightarrow> ptab \<Rightarrow> proc_ptr option \<times> ptab" where
  "alloc_proc e k = (case fe_proc e of
     None \<Rightarrow> (None, k)
   | Some proc \<Rightarrow> (Some proc, upd_proc proc (\<lambda>x. x\<lparr>
       state := PROC_UNINIT, pid := -1, runs := 0, kstack := 0, need_resched := False, parent := None,
       mm := None, pgdir := fe_boot_pgdir e, pflags := 0, pname := [], wait_state := 0, cptr := None,
       yptr := None, optr := None, rq := False, time_slice := 0,
       lab6_run_pool := \<lparr>sk_parent = None, sk_left = None, sk_right = None\<rparr>, lab6_stride := 0,
       lab6_priority := 0, filesp := None\<rparr>) (hold {RProc proc} k)))"

text \<open>Names are C strings, without the closing zero byte; 15 bytes are copied.\<close>

definition set_proc_name :: "proc_ptr \<Rightarrow> string \<Rightarrow> ptab \<Rightarrow> ptab" where
  "set_proc_name proc name k =
     upd_proc proc (\<lambda>x. x\<lparr>pname := take PROC_NAME_LEN (takeWhile (\<lambda>c. c \<noteq> CHR 0x00) name)\<rparr>) k"

definition get_proc_name :: "proc_ptr \<Rightarrow> ptab \<Rightarrow> string" where
  "get_proc_name proc k = take PROC_NAME_LEN (pname (procs k proc))"

definition setup_kstack :: "fork_env \<Rightarrow> proc_ptr \<Rightarrow> ptab \<Rightarrow> int \<times> ptab" where
  "setup_kstack e proc k = (case fe_kstack e of
     Some kva \<Rightarrow> (0, upd_proc proc (\<lambda>x. x\<lparr>kstack := kva\<rparr>) (hold {RKstack kva} k))
   | None \<Rightarrow> (- E_NO_MEM, k))"

definition put_kstack :: "proc_ptr \<Rightarrow> ptab \<Rightarrow> ptab" where
  "put_kstack proc k = drop_res {RKstack (kstack (procs k proc))} k"

definition setup_pgdir :: "fork_env \<Rightarrow> nat \<Rightarrow> ptab \<Rightarrow> int \<times> ptab" where
  "setup_pgdir e m k = (case fe_pgdir e of
     None \<Rightarrow> (- E_NO_MEM, k)
   | Some pg \<Rightarrow> (0, (hold {RPgdir pg} k)\<lparr>mm_pgdir := (mm_pgdir k)(m := pg)\<rparr>))"

definition put_pgdir :: "nat \<Rightarrow> ptab \<Rightarrow> ptab" where
  "put_pgdir m k = drop_res {RPgdir (mm_pgdir k m)} k"

text \<open>\<open>mm_create\<close> with \<open>mm_count\<close> 0; \<open>dup_mmap\<close> and \<open>exit_mmap\<close> own the areas \<open>RMmap m\<close>.\<close>

definition copy_mm :: "fork_env \<Rightarrow> u32 \<Rightarrow> proc_ptr \<Rightarrow> ptab \<Rightarrow> (int \<times> ptab) option" where
  "copy_mm e clone_flags proc k =
     (let good_mm = (\<lambda>m k. do {
            let k = k\<lparr>mm_count := (mm_count k)(m := mm_count k m + 1)\<rparr>;
            pa \<leftarrow> PADDR (mm_pgdir k m);
            Some (0, upd_proc proc (\<lambda>x. x\<lparr>mm := Some m, pgdir := pa\<rparr>) k) }) in
      case mm (procs k (current k)) of
        None \<Rightarrow> Some (0, k)
      | Some oldmm \<Rightarrow>
          if clone_flags AND CLONE_VM \<noteq> 0 then good_mm oldmm k
          else case fe_mm e of
            None \<Rightarrow> Some (- E_NO_MEM, k)
          | Some m \<Rightarrow>
              let k = (hold {RMm m} k)\<lparr>mm_count := (mm_count k)(m := 0)\<rparr>;
                  (r, k) = setup_pgdir e m k in
              if r \<noteq> 0 then Some (- E_NO_MEM, drop_res {RMm m} k)
              else
                let k = hold {RMmap m} k in
                if fe_dup_mmap e \<noteq> 0
                then Some (fe_dup_mmap e, drop_res {RMm m} (put_pgdir m (drop_res {RMmap m} k)))
                else good_mm m k)"

definition copy_files :: "fork_env \<Rightarrow> u32 \<Rightarrow> proc_ptr \<Rightarrow> ptab \<Rightarrow> (int \<times> ptab) option" where
  "copy_files e clone_flags proc k =
     (let good_files = (\<lambda>f k.
            upd_proc proc (\<lambda>x. x\<lparr>filesp := Some f\<rparr>)
              (k\<lparr>files_count := (files_count k)(f := files_count k f + 1)\<rparr>)) in
      do {
        old \<leftarrow> filesp (procs k (current k));
        if clone_flags AND CLONE_FS \<noteq> 0 then Some (0, good_files old k)
        else case fe_files e of
          None \<Rightarrow> Some (- E_NO_MEM, k)
        | Some f \<Rightarrow> do {
            let k = (hold {RFiles f} k)\<lparr>files_count := (files_count k)(f := 0)\<rparr>;
            kassert (files_count k old > 0);
            if fe_dup_files e \<noteq> 0 then Some (fe_dup_files e, drop_res {RFiles f} k)
            else Some (0, good_files f k)
          }
      })"

definition put_files :: "proc_ptr \<Rightarrow> ptab \<Rightarrow> ptab" where
  "put_files proc k = (case filesp (procs k proc) of
     None \<Rightarrow> k
   | Some f \<Rightarrow>
       let k = k\<lparr>files_count := (files_count k)(f := files_count k f - 1)\<rparr> in
       if files_count k f = 0 then drop_res {RFiles f} k else k)"

text \<open>\<open>mm_count_dec\<close> and, at 0, \<open>exit_mmap\<close>, \<open>put_pgdir\<close> and \<open>mm_destroy\<close>.\<close>

definition put_mm :: "nat \<Rightarrow> ptab \<Rightarrow> ptab" where
  "put_mm m k =
     (let k = k\<lparr>mm_count := (mm_count k)(m := mm_count k m - 1)\<rparr> in
      if mm_count k m = 0 then drop_res {RMm m} (put_pgdir m (drop_res {RMmap m} k)) else k)"

text \<open>The last part of \<open>do_fork\<close>, when everything is allocated, and its cleanup.\<close>

definition fork_link :: "proc_ptr \<Rightarrow> ptab \<Rightarrow> ptab option" where
  "fork_link proc k = do {
     (i, k) \<leftarrow> get_pid k;
     let k = upd_proc proc (\<lambda>x. x\<lparr>pid := i\<rparr>) k;
     let k = hash_proc proc k;
     let k = upd_proc proc (\<lambda>x. x\<lparr>parent := Some (current k)\<rparr>) k;
     let k = upd_proc (current k) (\<lambda>x. x\<lparr>wait_state := 0\<rparr>) k;
     set_links proc k
   }"

definition fork_cleanup_mm :: "proc_ptr \<Rightarrow> ptab \<Rightarrow> ptab" where
  "fork_cleanup_mm proc k = (case mm (procs k proc) of
     None \<Rightarrow> k
   | Some m \<Rightarrow> upd_proc proc (\<lambda>x. x\<lparr>mm := None\<rparr>) (put_mm m k))"

definition do_fork :: "ptab_class \<Rightarrow> fork_env \<Rightarrow> u32 \<Rightarrow> ptab \<Rightarrow> (int \<times> ptab) option" where
  "do_fork c e clone_flags k =
     (if nr_process k \<ge> MAX_PROCESS then Some (- E_NO_FREE_PROC, k)
      else case alloc_proc e k of
        (None, k) \<Rightarrow> Some (- E_NO_MEM, k)
      | (Some proc, k) \<Rightarrow> (case setup_kstack e proc k of (r, k) \<Rightarrow>
          if r \<noteq> 0 then Some (- E_NO_MEM, drop_res {RProc proc} k)
          else do {
            (r, k) \<leftarrow> copy_mm e clone_flags proc k;
            if r \<noteq> 0 then Some (- E_NO_MEM, drop_res {RProc proc} (put_kstack proc k))
            else do {
              (r, k) \<leftarrow> copy_files e clone_flags proc k;
              if r \<noteq> 0
              then Some (r, drop_res {RProc proc} (put_kstack proc (fork_cleanup_mm proc k)))
              else do {
                k \<leftarrow> fork_link proc k;
                k \<leftarrow> wakeup_proc c proc k;
                Some (pid (procs k proc), k)
              }
            }
          }))"

text \<open>\<open>do_exit\<close>, up to the switch to another process. Files are put only by a process with an
  address space.\<close>

definition exit_release :: "ptab \<Rightarrow> ptab" where
  "exit_release k = (case mm (procs k (current k)) of
     None \<Rightarrow> k
   | Some m \<Rightarrow>
       put_files (current k) (upd_proc (current k) (\<lambda>x. x\<lparr>mm := None\<rparr>) (put_mm m k)))"

definition do_exit :: "ptab_class \<Rightarrow> int \<Rightarrow> ptab \<Rightarrow> ptab option" where
  "do_exit c error_code k = do {
     kassert (current k \<noteq> idleproc k);
     kassert (current k \<noteq> initproc k);
     let k = exit_release k;
     let k = upd_proc (current k) (\<lambda>x. x\<lparr>state := PROC_ZOMBIE, exit_code := error_code\<rparr>) k;
     par \<leftarrow> parent (procs k (current k));
     k \<leftarrow> (if wait_state (procs k par) = WT_CHILD then wakeup_proc c par k else Some k);
     k \<leftarrow> adopt_children c k;
     schedule c k
   }"

text \<open>\<open>do_wait\<close>: the search for a child, the release of a zombie, and one round of the loop, which ends
  with a result or with the switch to another process.\<close>

datatype wait_result = Reaped int | WaitError int | Waiting

partial_function (option) find_zombie :: "ptab \<Rightarrow> proc_ptr option \<Rightarrow> proc_ptr option option" where
  "find_zombie k s = (case s of
     None \<Rightarrow> Some None
   | Some proc \<Rightarrow> if state (procs k proc) = PROC_ZOMBIE then Some (Some proc)
       else find_zombie k (optr (procs k proc)))"

definition wait_search :: "int \<Rightarrow> ptab \<Rightarrow> (bool \<times> proc_ptr option) option" where
  "wait_search i k =
     (if i \<noteq> 0 then
        Some (case find_proc i k of
          Some proc \<Rightarrow>
            if parent (procs k proc) = Some (current k)
            then (True, if state (procs k proc) = PROC_ZOMBIE then Some proc else None)
            else (False, None)
        | None \<Rightarrow> (False, None))
      else do {
        z \<leftarrow> find_zombie k (cptr (procs k (current k)));
        Some (cptr (procs k (current k)) \<noteq> None, z)
      })"

definition wait_found :: "proc_ptr \<Rightarrow> ptab \<Rightarrow> (wait_result \<times> ptab) option" where
  "wait_found proc k = do {
     kassert (\<not> (proc = idleproc k \<or> proc = initproc k));
     let code = exit_code (procs k proc);
     let k = unhash_proc proc k;
     k \<leftarrow> remove_links proc k;
     let k = put_kstack proc k;
     Some (Reaped code, drop_res {RProc proc} k)
   }"

definition wait_round :: "ptab_class \<Rightarrow> int \<Rightarrow> ptab \<Rightarrow> (wait_result \<times> ptab) option" where
  "wait_round c i k = do {
     (haskid, z) \<leftarrow> wait_search i k;
     case z of
       Some proc \<Rightarrow> wait_found proc k
     | None \<Rightarrow>
         if haskid then do {
           k \<leftarrow> schedule c (upd_proc (current k) (\<lambda>x. x\<lparr>state := PROC_SLEEPING, wait_state := WT_CHILD\<rparr>) k);
           Some (Waiting, k)
         } else Some (WaitError (- E_BAD_PROC), k)
   }"

text \<open>\<open>store_ok\<close> is the result of \<open>user_mem_check\<close> on \<open>code_store\<close>, \<open>None\<close> when that is NULL.\<close>

definition do_wait :: "ptab_class \<Rightarrow> int \<Rightarrow> bool option \<Rightarrow> ptab \<Rightarrow> (wait_result \<times> ptab) option" where
  "do_wait c i store_ok k =
     (if store_ok = Some False then Some (WaitError (- E_INVAL), k) else wait_round c i k)"

text \<open>What the process does when it runs again: \<open>do_exit\<close> if it was killed, or the next round.\<close>

definition do_wait_resume :: "ptab_class \<Rightarrow> int \<Rightarrow> ptab \<Rightarrow> (wait_result \<times> ptab) option" where
  "do_wait_resume c i k =
     (if pflags (procs k (current k)) AND PF_EXITING \<noteq> 0
      then do { k \<leftarrow> do_exit c (- E_KILLED) k; Some (Waiting, k) }
      else wait_round c i k)"

definition do_kill :: "ptab_class \<Rightarrow> int \<Rightarrow> ptab \<Rightarrow> (int \<times> ptab) option" where
  "do_kill c i k = (case find_proc i k of
     Some proc \<Rightarrow>
       if pflags (procs k proc) AND PF_EXITING = 0 then do {
         let k = upd_proc proc (\<lambda>x. x\<lparr>pflags := pflags x OR PF_EXITING\<rparr>) k;
         k \<leftarrow> (if wait_state (procs k proc) AND WT_INTERRUPTED \<noteq> 0 then wakeup_proc c proc k else Some k);
         Some (0, k)
       } else Some (- E_KILLED, k)
   | None \<Rightarrow> Some (- E_INVAL, k))"

definition do_yield :: "ptab \<Rightarrow> int \<times> ptab" where
  "do_yield k = (0, upd_proc (current k) (\<lambda>x. x\<lparr>need_resched := True\<rparr>) k)"

definition lab6_set_priority :: "u32 \<Rightarrow> ptab \<Rightarrow> ptab" where
  "lab6_set_priority priority k =
     upd_proc (current k) (\<lambda>x. x\<lparr>lab6_priority := if priority = 0 then 1 else priority\<rparr>) k"

section \<open>The scheduler on the process table\<close>

definition rr_ok :: "ptab \<Rightarrow> bool" where
  "rr_ok k \<longleftrightarrow> RR_inv k \<and> sched_ok RR_queued k"

text \<open>What neither the scheduler nor a wake-up changes in a process.\<close>

definition pcore where
  "pcore x = (pid x, parent x, cptr x, yptr x, optr x, exit_code x, pflags x, mm x, filesp x, kstack x)"

definition core_frame :: "ptab \<Rightarrow> ptab \<Rightarrow> bool" where
  "core_frame k k' \<longleftrightarrow> idleproc k' = idleproc k \<and> initproc k' = initproc k \<and>
     proc_list k' = proc_list k \<and> pid_hash k' = pid_hash k \<and> nr_process k' = nr_process k \<and>
     next_safe k' = next_safe k \<and> last_pid k' = last_pid k \<and> mm_count k' = mm_count k \<and>
     mm_pgdir k' = mm_pgdir k \<and> files_count k' = files_count k \<and> held k' = held k \<and>
     (\<forall>q. pcore (procs k' q) = pcore (procs k q))"

lemma core_frame_refl [simp]: "core_frame k k"
  by (simp add: core_frame_def)

lemma core_frame_trans: "core_frame k1 k2 \<Longrightarrow> core_frame k2 k3 \<Longrightarrow> core_frame k1 k3"
  by (simp add: core_frame_def)

lemma core_frameD:
  assumes "core_frame k k'"
  shows "pid (procs k' q) = pid (procs k q)" "parent (procs k' q) = parent (procs k q)"
    "cptr (procs k' q) = cptr (procs k q)" "yptr (procs k' q) = yptr (procs k q)"
    "optr (procs k' q) = optr (procs k q)" "exit_code (procs k' q) = exit_code (procs k q)"
    "pflags (procs k' q) = pflags (procs k q)" "mm (procs k' q) = mm (procs k q)"
    "filesp (procs k' q) = filesp (procs k q)" "kstack (procs k' q) = kstack (procs k q)"
    "members k' = members k" "proc_list k' = proc_list k" "idleproc k' = idleproc k"
    "initproc k' = initproc k" "held k' = held k" "pid_hash k' = pid_hash k"
  using assms by (simp_all add: core_frame_def pcore_def members_def)

lemma core_frame_ids: "core_frame k k' \<Longrightarrow> ids_ok k' = ids_ok k"
proof -
  assume f: "core_frame k k'"
  then have "nr_process k' = nr_process k" "next_safe k' = next_safe k" "last_pid k' = last_pid k"
    by (simp_all add: core_frame_def)
  then show ?thesis by (simp add: ids_ok_def pid_ok_def core_frameD [OF f])
qed

lemma core_frame_tree: "core_frame k k' \<Longrightarrow> tree_ok k' ch = tree_ok k ch"
proof -
  assume f: "core_frame k k'"
  have "family (procs k') s xs = family (procs k) s xs" for s xs
    by (rule family_cong) (simp add: core_frameD [OF f])
  then show ?thesis by (simp add: tree_ok_def core_frameD [OF f])
qed

lemma core_frame_find: "core_frame k k' \<Longrightarrow> find_proc i k' = find_proc i k"
  by (simp add: find_proc_def core_frameD)

lemma more_ptab:
  "kern.more k' = kern.more (k :: ptab) \<Longrightarrow> proc_list k' = proc_list k \<and> pid_hash k' = pid_hash k \<and>
    nr_process k' = nr_process k \<and> next_safe k' = next_safe k \<and> last_pid k' = last_pid k \<and>
    mm_count k' = mm_count k \<and> mm_pgdir k' = mm_pgdir k \<and> files_count k' = files_count k \<and>
    held k' = held k"
  by (cases k; cases k') simp

lemma erase_pcore: "sched_erase x = sched_erase y \<Longrightarrow> pcore x = pcore y"
  using sched_eraseD [of x y] by (simp add: pcore_def)

lemma wake_ok:
  assumes "rr_ok k" and st: "state (procs k p) \<noteq> PROC_ZOMBIE"
  obtains k' where "wakeup_proc default_sched_class p k = Some k'" and "rr_ok k'" and "core_frame k k'"
    and "current k' = current k" and "state (procs k' p) = PROC_RUNNABLE"
    and "wait_state (procs k' p) = (if state (procs k p) = PROC_RUNNABLE then wait_state (procs k p) else 0)"
    and "\<forall>q. q \<noteq> p \<longrightarrow> state (procs k' q) = state (procs k q) \<and> wait_state (procs k' q) = wait_state (procs k q)"
proof -
  let ?x = "if state (procs k p) = PROC_RUNNABLE then procs k p
      else (procs k p)\<lparr>state := PROC_RUNNABLE, wait_state := 0\<rparr>"
  have rr: "RR_inv k" "sched_ok RR_queued k" using assms(1) by (simp_all add: rr_ok_def)
  show thesis using rr.wakeup_ok [OF rr st]
  proof (elim exE conjE)
    fix k' assume k': "wakeup_proc default_sched_class p k = Some k'" "RR_inv k'" "sched_ok RR_queued k'"
      "state (procs k' p) = PROC_RUNNABLE" "current k' = current k"
      and f: "idleproc k' = idleproc k" "initproc k' = initproc k" "kern.more k' = kern.more k"
      and e: "sched_erase (procs k' p) = sched_erase ?x"
      and other: "\<forall>q. q \<noteq> p \<longrightarrow> state (procs k' q) = state (procs k q) \<and>
        sched_erase (procs k' q) = sched_erase (procs k q)"
    have "pcore (procs k' p) = pcore ?x" by (rule erase_pcore [OF e])
    also have "\<dots> = pcore (procs k p)" by (simp add: pcore_def)
    finally have p: "pcore (procs k' p) = pcore (procs k p)" .
    have "pcore (procs k' q) = pcore (procs k q)" for q
    proof (cases "q = p")
      case False
      then have "sched_erase (procs k' q) = sched_erase (procs k q)" using other by blast
      then show ?thesis by (rule erase_pcore)
    qed (simp only: p)
    then have "core_frame k k'" using more_ptab [OF f(3)] f(1,2) by (simp add: core_frame_def)
    moreover have "wait_state (procs k' p) = wait_state ?x" by (rule sched_eraseD(10) [OF e])
    then have "wait_state (procs k' p) = (if state (procs k p) = PROC_RUNNABLE then wait_state (procs k p) else 0)"
      by simp
    moreover have "\<forall>q. q \<noteq> p \<longrightarrow> state (procs k' q) = state (procs k q) \<and> wait_state (procs k' q) = wait_state (procs k q)"
    proof (intro allI impI)
      fix q assume "q \<noteq> p"
      then have o: "state (procs k' q) = state (procs k q)" "sched_erase (procs k' q) = sched_erase (procs k q)"
        using other by blast+
      show "state (procs k' q) = state (procs k q) \<and> wait_state (procs k' q) = wait_state (procs k q)"
        using o(1) sched_eraseD(10) [OF o(2)] by (rule conjI)
    qed
    moreover have "rr_ok k'" using k'(2,3) by (simp add: rr_ok_def)
    ultimately show thesis by (intro that [OF k'(1) _ _ k'(5,4)])
  qed
qed

lemma sched_ok_step:
  assumes "rr_ok k"
  obtains k' where "schedule default_sched_class k = Some k'" and "rr_ok k'" and "core_frame k k'"
    and "\<forall>q. state (procs k' q) = state (procs k q) \<and> wait_state (procs k' q) = wait_state (procs k q)"
    and "current k' = idleproc k \<or> state (procs k (current k')) = PROC_RUNNABLE"
proof -
  have rr: "RR_inv k" "sched_ok RR_queued k" using assms(1) by (simp_all add: rr_ok_def)
  show thesis using rr.schedule_ok [OF rr]
  proof (elim exE conjE)
    fix k' assume k': "schedule default_sched_class k = Some k'" "RR_inv k'" "sched_ok RR_queued k'"
      and f: "idleproc k' = idleproc k" "initproc k' = initproc k" "kern.more k' = kern.more k"
      and e: "\<forall>q. sched_erase (procs k' q) = sched_erase (procs k q)"
      and c: "if {p. state (procs k p) = PROC_RUNNABLE} - {idleproc k} = {} then current k' = idleproc k
        else state (procs k (current k')) = PROC_RUNNABLE \<and> current k' \<noteq> idleproc k"
    have e: "sched_erase (procs k' q) = sched_erase (procs k q)" for q using e by blast
    have "core_frame k k'" using more_ptab [OF f(3)] f(1,2) erase_pcore [OF e] by (simp add: core_frame_def)
    moreover have "\<forall>q. state (procs k' q) = state (procs k q) \<and> wait_state (procs k' q) = wait_state (procs k q)"
      using sched_eraseD(1,10) [OF e] by simp
    moreover have "current k' = idleproc k \<or> state (procs k (current k')) = PROC_RUNNABLE"
      using c by (auto split: if_splits)
    moreover have "rr_ok k'" using k'(2,3) by (simp add: rr_ok_def)
    ultimately show thesis by (intro that [OF k'(1)])
  qed
qed

text \<open>Changes outside scheduling keep the scheduler's invariant.\<close>

lemma rr_ok_local:
  assumes "rr_ok k" and "run_list k' = run_list k" "proc_num k' = proc_num k" "run_pool k' = run_pool k"
    "max_time_slice k' = max_time_slice k" "current k' = current k" "idleproc k' = idleproc k"
    and "\<And>q. rq (procs k' q) = rq (procs k q) \<and> lab6_stride (procs k' q) = lab6_stride (procs k q) \<and>
        lab6_priority (procs k' q) = lab6_priority (procs k q) \<and>
        lab6_run_pool (procs k' q) = lab6_run_pool (procs k q)"
    and "\<And>q. q \<noteq> current k \<Longrightarrow> (state (procs k' q) = PROC_RUNNABLE) = (state (procs k q) = PROC_RUNNABLE)"
  shows "rr_ok k'"
proof -
  have "RR_queued k' = RR_queued k \<and> (RR_inv k \<longrightarrow> RR_inv k')"
    by (rule rr.local_law) (use assms in auto)
  then show ?thesis using assms by (auto simp: rr_ok_def sched_ok_def)
qed

end
