(* ===== verification/ProcInv.thy ===== *)
theory ProcInv
  imports ProcLife
begin

text \<open>
  The invariant of the process table under the operations of theory ProcLife, and the properties of
  these operations.
\<close>

section \<open>The children of an exiting process\<close>

text \<open>While \<open>do_exit\<close> moves its children, the tree is in order except for the rest \<open>xs\<close> of them.\<close>

definition moving :: "ptab \<Rightarrow> (proc_ptr \<Rightarrow> proc_ptr list) \<Rightarrow> proc_ptr list \<Rightarrow> bool" where
  "moving k ch xs \<longleftrightarrow>
     current k \<in> set (proc_list k) \<and> initproc k \<in> set (proc_list k) \<and> initproc k \<noteq> current k \<and>
     initproc k \<notin> set xs \<and> distinct xs \<and> olders (procs k) (cptr (procs k (current k))) xs \<and>
     set xs = {q \<in> set (proc_list k). parent (procs k q) = Some (current k)} \<and>
     (\<forall>p \<in> members k - {current k}. family (procs k) (cptr (procs k p)) (ch p) \<and>
       set (ch p) = {q \<in> set (proc_list k). parent (procs k q) = Some p}) \<and>
     (\<forall>q \<in> set (proc_list k). \<exists>p \<in> members k. parent (procs k q) = Some p \<and> p \<noteq> q)"

lemma tree_moving:
  assumes ok: "tree_ok k ch" and c: "current k \<in> set (proc_list k)"
    and i: "initproc k \<in> set (proc_list k)" "initproc k \<noteq> current k" "parent (procs k (initproc k)) \<noteq> Some (current k)"
  shows "moving k ch (ch (current k))"
proof -
  have "family (procs k) (cptr (procs k (current k))) (ch (current k))"
    "set (ch (current k)) = {q \<in> set (proc_list k). parent (procs k q) = Some (current k)}"
    using ok c by (simp_all add: tree_ok_def members_def)
  moreover from this(1) have "distinct (ch (current k))" "olders (procs k) (cptr (procs k (current k))) (ch (current k))"
    using sibs_olders by (auto simp: family_def)
  ultimately show ?thesis using ok c i by (simp add: moving_def tree_ok_def)
qed

lemma moving_tree:
  assumes m: "moving k ch []"
  shows "tree_ok k (ch(current k := []))" and "cptr (procs k (current k)) = None"
proof -
  show c: "cptr (procs k (current k)) = None" using m by (simp add: moving_def)
  have none: "{q \<in> set (proc_list k). parent (procs k q) = Some (current k)} = {}" using m by (auto simp: moving_def)
  have "family (procs k) (cptr (procs k p)) ((ch(current k := [])) p) \<and>
      set ((ch(current k := [])) p) = {q \<in> set (proc_list k). parent (procs k q) = Some p}"
    if "p \<in> members k" for p
    using that m none c by (cases "p = current k") (simp_all add: moving_def)
  moreover have "\<forall>q \<in> set (proc_list k). \<exists>p \<in> members k. parent (procs k q) = Some p \<and> p \<noteq> q"
    using m by (simp add: moving_def)
  ultimately show "tree_ok k (ch(current k := []))" by (simp only: tree_ok_def) blast
qed

text \<open>One child.\<close>

lemma adopt_eq:
  assumes "current k \<noteq> initproc k" and "p \<noteq> initproc k" and "p \<noteq> current k"
    and "cptr (procs k (initproc k)) \<noteq> Some p"
  shows "cptr (procs (adopt p k) q) = (if q = initproc k then Some p
      else if q = current k then optr (procs k p) else cptr (procs k q))"
    and "yptr (procs (adopt p k) q) = (if cptr (procs k (initproc k)) = Some q then Some p
      else if q = p then None else yptr (procs k q))"
    and "optr (procs (adopt p k) q) = (if q = p then cptr (procs k (initproc k)) else optr (procs k q))"
    and "parent (procs (adopt p k) q) = (if q = p then Some (initproc k) else parent (procs k q))"
    and "links_erase (procs (adopt p k) q) = links_erase ((procs k q)\<lparr>parent := parent (procs (adopt p k) q)\<rparr>)"
  using assms by (cases "cptr (procs k (initproc k))"; auto simp: adopt_def Let_def links_erase_def)+

lemma adopt_rest [simp]:
  "current (adopt p k) = current k" "idleproc (adopt p k) = idleproc k" "initproc (adopt p k) = initproc k"
  "run_list (adopt p k) = run_list k" "proc_num (adopt p k) = proc_num k" "run_pool (adopt p k) = run_pool k"
  "max_time_slice (adopt p k) = max_time_slice k" "proc_list (adopt p k) = proc_list k"
  "pid_hash (adopt p k) = pid_hash k" "nr_process (adopt p k) = nr_process k"
  "next_safe (adopt p k) = next_safe k" "last_pid (adopt p k) = last_pid k" "mm_count (adopt p k) = mm_count k"
  "mm_pgdir (adopt p k) = mm_pgdir k" "files_count (adopt p k) = files_count k" "held (adopt p k) = held k"
  "members (adopt p k) = members k"
  by (simp_all add: adopt_def Let_def members_def split: option.split)

lemma adopt_moving:
  assumes m: "moving k ch (p # xs)"
  shows "moving (adopt p k) (ch(initproc k := p # ch (initproc k))) xs"
    and "\<And>q. parent (procs (adopt p k) q) = (if q = p then Some (initproc k) else parent (procs k q))"
    and "\<And>q. links_erase (procs (adopt p k) q) =
      links_erase ((procs k q)\<lparr>parent := parent (procs (adopt p k) q)\<rparr>)"
    and "\<And>q. q \<noteq> initproc k \<Longrightarrow> q \<noteq> current k \<Longrightarrow> cptr (procs (adopt p k) q) = cptr (procs k q)"
proof -
  let ?c = "current k" and ?i = "initproc k" and ?k = "adopt p k"
  have c: "?c \<in> set (proc_list k)" "?i \<in> set (proc_list k)" "?i \<noteq> ?c" and p: "p \<noteq> ?i" "?i \<notin> set xs"
    and d: "p \<notin> set xs" "distinct xs" and h: "cptr (procs k ?c) = Some p" "olders (procs k) (optr (procs k p)) xs"
    and kids: "set (p # xs) = {q \<in> set (proc_list k). parent (procs k q) = Some ?c}"
    using m by (auto simp: moving_def)
  have pp: "p \<in> set (proc_list k)" "parent (procs k p) = Some ?c" using kids by auto
  have pc: "p \<noteq> ?c"
  proof
    assume "p = ?c"
    then have "parent (procs k ?c) = Some ?c" using pp by simp
    then show False using m c(1) by (auto simp: moving_def)
  qed
  have fam: "family (procs k) (cptr (procs k q)) (ch q)"
    and st: "set (ch q) = {r \<in> set (proc_list k). parent (procs k r) = Some q}"
    if "q \<in> members k" "q \<noteq> ?c" for q
    using m that by (simp_all add: moving_def)
  have im: "?i \<in> members k" using c by (simp add: members_def)
  have notin: "p \<notin> set (ch q)" if "q \<in> members k" "q \<noteq> ?c" for q using st [OF that] pp that by auto
  have head: "cptr (procs k ?i) = Some r \<Longrightarrow> r \<in> set (ch ?i)" for r
    using fam [OF im c(3)] by (cases "ch ?i") (auto simp: family_def)
  have hp: "cptr (procs k ?i) \<noteq> Some p" using head notin [OF im c(3)] by auto
  note e = adopt_eq [OF c(3) [symmetric] p(1) pc hp]
  show "\<And>q. parent (procs ?k q) = (if q = p then Some ?i else parent (procs k q))" by (rule e(4))
  show "\<And>q. links_erase (procs ?k q) = links_erase ((procs k q)\<lparr>parent := parent (procs ?k q)\<rparr>)" by (rule e(5))
  show "\<And>q. q \<noteq> ?i \<Longrightarrow> q \<noteq> ?c \<Longrightarrow> cptr (procs ?k q) = cptr (procs k q)" by (simp add: e(1))
  have "olders (procs ?k) (optr (procs k p)) xs = olders (procs k) (optr (procs k p)) xs"
    by (rule olders_cong) (use d in \<open>auto simp: e(3)\<close>)
  then have old: "olders (procs ?k) (cptr (procs ?k ?c)) xs" using h(2) c(3) by (simp add: e(1))
  have "set xs = {q \<in> set (proc_list k). parent (procs ?k q) = Some ?c}"
    using kids d(1) c(3) by (auto simp: e(4))
  moreover have "family (procs ?k) (cptr (procs ?k q)) ((ch(?i := p # ch ?i)) q) \<and>
      set ((ch(?i := p # ch ?i)) q) = {r \<in> set (proc_list k). parent (procs ?k r) = Some q}"
    if q: "q \<in> members k - {?c}" for q
  proof (cases "q = ?i")
    case True
    have "family (procs ?k) (Some p) (p # ch ?i)"
      by (rule family_push [OF fam [OF im c(3)] notin [OF im c(3)]])
         (use head notin [OF im c(3)] hp in \<open>auto simp: e(2,3)\<close>)
    then show ?thesis using True st [OF im c(3)] pp by (auto simp: e(1,4))
  next
    case False
    have qm: "q \<in> members k" "q \<noteq> ?c" using q by auto
    have "family (procs ?k) (cptr (procs k q)) (ch q) = family (procs k) (cptr (procs k q)) (ch q)"
    proof (rule family_cong)
      fix r assume r: "r \<in> set (ch q)"
      then have "r \<noteq> p" using notin [OF qm] by auto
      moreover have "cptr (procs k ?i) \<noteq> Some r"
        using r head [of r] st [OF qm] st [OF im c(3)] False by auto
      ultimately show "yptr (procs ?k r) = yptr (procs k r) \<and> optr (procs ?k r) = optr (procs k r)"
        by (simp add: e(2,3))
    qed
    then show ?thesis using False fam [OF qm] st [OF qm] pp qm by (auto simp: e(1,4))
  qed
  moreover have "\<exists>r \<in> members k. parent (procs ?k q) = Some r \<and> r \<noteq> q" if "q \<in> set (proc_list k)" for q
    using m that im p(1) by (auto simp: e(4) moving_def)
  ultimately show "moving ?k (ch(?i := p # ch ?i)) xs"
    using c p d old by (simp add: moving_def)
qed


text \<open>All of them. \<open>init_woken\<close> says what became of \<open>initproc\<close>.\<close>

definition pown where
  "pown x = (pid x, exit_code x, pflags x, mm x, filesp x, kstack x)"

definition own_frame :: "ptab \<Rightarrow> ptab \<Rightarrow> bool" where
  "own_frame k k' \<longleftrightarrow> current k' = current k \<and> idleproc k' = idleproc k \<and> initproc k' = initproc k \<and>
     proc_list k' = proc_list k \<and> pid_hash k' = pid_hash k \<and> nr_process k' = nr_process k \<and>
     next_safe k' = next_safe k \<and> last_pid k' = last_pid k \<and> mm_count k' = mm_count k \<and>
     mm_pgdir k' = mm_pgdir k \<and> files_count k' = files_count k \<and> held k' = held k \<and>
     (\<forall>q. pown (procs k' q) = pown (procs k q))"

lemma own_frame_trans: "own_frame k1 k2 \<Longrightarrow> own_frame k2 k3 \<Longrightarrow> own_frame k1 k3"
  by (simp add: own_frame_def)

lemma own_frameD:
  assumes "own_frame k k'"
  shows "pid (procs k' q) = pid (procs k q)" "exit_code (procs k' q) = exit_code (procs k q)"
    "pflags (procs k' q) = pflags (procs k q)" "mm (procs k' q) = mm (procs k q)"
    "filesp (procs k' q) = filesp (procs k q)" "kstack (procs k' q) = kstack (procs k q)"
    "members k' = members k" "proc_list k' = proc_list k" "idleproc k' = idleproc k"
    "initproc k' = initproc k" "current k' = current k" "held k' = held k" "mm_count k' = mm_count k"
    "files_count k' = files_count k"
  using assms by (simp_all add: own_frame_def pown_def members_def)

lemma own_frame_ids: "own_frame k k' \<Longrightarrow> ids_ok k' = ids_ok k"
proof -
  assume f: "own_frame k k'"
  then have "nr_process k' = nr_process k" "next_safe k' = next_safe k" "last_pid k' = last_pid k"
    "pid_hash k' = pid_hash k"
    by (simp_all add: own_frame_def)
  then show ?thesis by (simp add: ids_ok_def pid_ok_def own_frameD [OF f])
qed

lemma core_own_frame: "core_frame k k' \<Longrightarrow> current k' = current k \<Longrightarrow> own_frame k k'"
  by (simp add: own_frame_def core_frame_def pcore_def pown_def)

definition adopted :: "ptab \<Rightarrow> proc_ptr list \<Rightarrow> ptab \<Rightarrow> bool" where
  "adopted k xs k' \<longleftrightarrow> own_frame k k' \<and>
     (\<forall>q. q \<noteq> initproc k \<longrightarrow> state (procs k' q) = state (procs k q) \<and> wait_state (procs k' q) = wait_state (procs k q)) \<and>
     (\<forall>q. q \<noteq> initproc k \<and> q \<noteq> current k \<longrightarrow> cptr (procs k' q) = cptr (procs k q)) \<and>
     (\<forall>q. parent (procs k' q) = (if q \<in> set xs then Some (initproc k) else parent (procs k q))) \<and>
     (if wait_state (procs k (initproc k)) = WT_CHILD \<and> (\<exists>q \<in> set xs. state (procs k q) = PROC_ZOMBIE)
      then state (procs k' (initproc k)) = PROC_RUNNABLE \<and> wait_state (procs k' (initproc k)) = 0
      else state (procs k' (initproc k)) = state (procs k (initproc k)) \<and>
        wait_state (procs k' (initproc k)) = wait_state (procs k (initproc k)))"

lemma WT_CHILD_nz: "WT_CHILD \<noteq> 0"
  by (simp add: WT_CHILD_def WT_INTERRUPTED_def)

lemma moving_cong:
  assumes f: "core_frame k k'" and c: "current k' = current k" and m: "moving k ch xs"
  shows "moving k' ch xs"
proof -
  have o: "olders (procs k') s ys = olders (procs k) s ys" for s ys
    by (rule olders_cong) (simp add: core_frameD [OF f])
  have s: "family (procs k') s ys = family (procs k) s ys" for s ys
    by (rule family_cong) (simp add: core_frameD [OF f])
  have "moving k' ch xs = moving k ch xs"
    unfolding moving_def by (simp only: core_frameD [OF f] c o s)
  then show ?thesis using m by blast
qed

lemma adopt_frame:
  assumes m: "moving k ch (p # xs)" and ok: "rr_ok k"
  shows "own_frame k (adopt p k)" and "rr_ok (adopt p k)"
    and "\<And>q. state (procs (adopt p k) q) = state (procs k q)"
    and "\<And>q. wait_state (procs (adopt p k) q) = wait_state (procs k q)"
proof -
  let ?y = "\<lambda>q. (procs k q)\<lparr>parent := parent (procs (adopt p k) q)\<rparr>"
  note e = adopt_moving(3) [OF m]
  have f: "g (procs (adopt p k) q) = g (procs k q)"
    if "\<And>x. g (links_erase x) = g x" "\<And>x v. g (x\<lparr>parent := v\<rparr>) = g x" for q and g :: "proc_struct \<Rightarrow> 'b"
  proof -
    have "g (links_erase (procs (adopt p k) q)) = g (links_erase (?y q))" by (simp only: e [of q])
    then show ?thesis by (simp add: that)
  qed
  show st: "\<And>q. state (procs (adopt p k) q) = state (procs k q)" by (rule f) (simp_all add: links_erase_def)
  show "\<And>q. wait_state (procs (adopt p k) q) = wait_state (procs k q)" by (rule f) (simp_all add: links_erase_def)
  have "pown (procs (adopt p k) q) = pown (procs k q)" for q by (rule f) (simp_all add: links_erase_def pown_def)
  then show "own_frame k (adopt p k)" by (simp add: own_frame_def)
  show "rr_ok (adopt p k)"
  proof (rule rr_ok_local [OF ok])
    fix q
    have "rq (procs (adopt p k) q) = rq (procs k q)" by (rule f) (simp_all add: links_erase_def)
    moreover have "lab6_stride (procs (adopt p k) q) = lab6_stride (procs k q)" by (rule f) (simp_all add: links_erase_def)
    moreover have "lab6_priority (procs (adopt p k) q) = lab6_priority (procs k q)" by (rule f) (simp_all add: links_erase_def)
    moreover have "lab6_run_pool (procs (adopt p k) q) = lab6_run_pool (procs k q)" by (rule f) (simp_all add: links_erase_def)
    ultimately show "rq (procs (adopt p k) q) = rq (procs k q) \<and> lab6_stride (procs (adopt p k) q) = lab6_stride (procs k q) \<and>
      lab6_priority (procs (adopt p k) q) = lab6_priority (procs k q) \<and>
      lab6_run_pool (procs (adopt p k) q) = lab6_run_pool (procs k q)" by blast
  qed (simp_all add: st)
qed

lemma adopt_children_ok:
  "moving k ch xs \<Longrightarrow> rr_ok k \<Longrightarrow> state (procs k (initproc k)) \<noteq> PROC_ZOMBIE \<Longrightarrow>
   (wait_state (procs k (initproc k)) \<noteq> 0 \<longrightarrow> state (procs k (initproc k)) = PROC_SLEEPING) \<Longrightarrow>
   \<exists>k' ch'. adopt_children default_sched_class k = Some k' \<and> moving k' ch' [] \<and> rr_ok k' \<and> adopted k xs k'"
proof (induction xs arbitrary: k ch)
  case Nil
  then have "cptr (procs k (current k)) = None" by (simp add: moving_def)
  then have "adopt_children default_sched_class k = Some k" by (subst adopt_children.simps) simp
  then show ?case using Nil by (intro exI [of _ k] exI [of _ ch]) (simp add: adopted_def own_frame_def)
next
  case (Cons p xs)
  let ?i = "initproc k"
  note m = Cons.prems(1) and ok = Cons.prems(2)
  let ?k = "adopt p k"
  note fr = adopt_frame [OF m ok]
  have c: "cptr (procs k (current k)) = Some p" using m by (simp add: moving_def)
  have d: "p \<notin> set xs" "p \<noteq> ?i" "?i \<notin> set xs" using m by (auto simp: moving_def)
  let ?w = "state (procs k p) = PROC_ZOMBIE \<and> wait_state (procs k ?i) = WT_CHILD"
  obtain k1 where k1: "(if ?w then wakeup_proc default_sched_class (initproc ?k) ?k else Some ?k) = Some k1"
    and rr1: "rr_ok k1" and f1: "core_frame ?k k1" and c1: "current k1 = current k"
    and s1: "\<forall>q. q \<noteq> ?i \<longrightarrow> state (procs k1 q) = state (procs k q) \<and> wait_state (procs k1 q) = wait_state (procs k q)"
    and i1: "if ?w then state (procs k1 ?i) = PROC_RUNNABLE \<and> wait_state (procs k1 ?i) = 0
      else state (procs k1 ?i) = state (procs k ?i) \<and> wait_state (procs k1 ?i) = wait_state (procs k ?i)"
  proof (cases ?w)
    case True
    have z: "state (procs ?k ?i) \<noteq> PROC_ZOMBIE" using Cons.prems(3) fr(3) by simp
    have sl: "state (procs ?k ?i) = PROC_SLEEPING" using True Cons.prems(4) fr(3) WT_CHILD_nz by simp
    obtain k1 where "wakeup_proc default_sched_class ?i ?k = Some k1" "rr_ok k1" "core_frame ?k k1"
      "current k1 = current ?k" "state (procs k1 ?i) = PROC_RUNNABLE"
      "wait_state (procs k1 ?i) = (if state (procs ?k ?i) = PROC_RUNNABLE then wait_state (procs ?k ?i) else 0)"
      "\<forall>q. q \<noteq> ?i \<longrightarrow> state (procs k1 q) = state (procs ?k q) \<and> wait_state (procs k1 q) = wait_state (procs ?k q)"
      by (rule wake_ok [OF fr(2) z])
    then show thesis using True sl fr(3,4) by (intro that [of k1]) simp_all
  next
    case False
    show thesis by (rule that [of ?k]) (use False fr in auto)
  qed
  have m1: "moving k1 (ch(?i := p # ch ?i)) xs"
    by (rule moving_cong [OF f1 _ adopt_moving(1) [OF m]]) (simp add: c1)
  have i': "initproc k1 = ?i" using core_frameD(14) [OF f1] by simp
  have "state (procs k1 ?i) \<noteq> PROC_ZOMBIE" using i1 Cons.prems(3) by (auto split: if_splits)
  moreover have "wait_state (procs k1 ?i) \<noteq> 0 \<longrightarrow> state (procs k1 ?i) = PROC_SLEEPING"
    using i1 Cons.prems(4) by (auto split: if_splits)
  ultimately obtain k' ch' where k': "adopt_children default_sched_class k1 = Some k'" "moving k' ch' []" "rr_ok k'"
    and a: "adopted k1 xs k'"
    using Cons.IH [OF m1 rr1] unfolding i' by blast
  have "adopt_children default_sched_class k = Some k'"
    using c k1 k'(1) fr(3,4) by (subst adopt_children.simps) (simp add: Let_def)
  moreover have "adopted k (p # xs) k'"
  proof -
    have o: "own_frame k k1" by (rule own_frame_trans [OF fr(1) core_own_frame [OF f1]]) (simp add: c1)
    note a' = a [unfolded adopted_def i' c1]
    have fr': "own_frame k1 k'" using a' by blast
    have pa: "parent (procs k' q) = (if q \<in> set xs then Some ?i else parent (procs k1 q))" for q
      using a' by blast
    have pk: "parent (procs k1 q) = (if q = p then Some ?i else parent (procs k q))" for q
      using adopt_moving(2) [OF m, of q] core_frameD(2) [OF f1, of q] by simp
    have par: "parent (procs k' q) = (if q \<in> set (p # xs) then Some ?i else parent (procs k q))" for q
      by (simp add: pa pk)
    have cp: "cptr (procs k' q) = cptr (procs k q)" if "q \<noteq> ?i" "q \<noteq> current k" for q
    proof -
      have "cptr (procs k' q) = cptr (procs k1 q)" using a' that by blast
      then show ?thesis using adopt_moving(4) [OF m that] core_frameD(3) [OF f1, of q] by simp
    qed
    have st: "state (procs k' q) = state (procs k q) \<and> wait_state (procs k' q) = wait_state (procs k q)"
      if "q \<noteq> ?i" for q
    proof -
      have "state (procs k' q) = state (procs k1 q) \<and> wait_state (procs k' q) = wait_state (procs k1 q)"
        using a' that by blast
      then show ?thesis using s1 that by simp
    qed
    have zs: "(\<exists>q \<in> set xs. state (procs k1 q) = PROC_ZOMBIE) \<longleftrightarrow> (\<exists>q \<in> set xs. state (procs k q) = PROC_ZOMBIE)"
    proof -
      have "state (procs k1 q) = state (procs k q)" if "q \<in> set xs" for q
      proof -
        have "q \<noteq> ?i" using that d(3) by metis
        then show ?thesis using s1 by simp
      qed
      then show ?thesis by simp
    qed
    have i2: "if wait_state (procs k1 ?i) = WT_CHILD \<and> (\<exists>q \<in> set xs. state (procs k q) = PROC_ZOMBIE)
      then state (procs k' ?i) = PROC_RUNNABLE \<and> wait_state (procs k' ?i) = 0
      else state (procs k' ?i) = state (procs k1 ?i) \<and> wait_state (procs k' ?i) = wait_state (procs k1 ?i)"
      using a' unfolding zs by blast
    have "if wait_state (procs k ?i) = WT_CHILD \<and> (\<exists>q \<in> set (p # xs). state (procs k q) = PROC_ZOMBIE)
      then state (procs k' ?i) = PROC_RUNNABLE \<and> wait_state (procs k' ?i) = 0
      else state (procs k' ?i) = state (procs k ?i) \<and> wait_state (procs k' ?i) = wait_state (procs k ?i)"
    proof (cases ?w)
      case True
      then show ?thesis using i1 i2 WT_CHILD_nz by simp
    next
      case False
      then have "wait_state (procs k ?i) = WT_CHILD \<and> (\<exists>q \<in> set (p # xs). state (procs k q) = PROC_ZOMBIE) \<longleftrightarrow>
          wait_state (procs k1 ?i) = WT_CHILD \<and> (\<exists>q \<in> set xs. state (procs k q) = PROC_ZOMBIE)"
        using i1 by auto
      then show ?thesis using i1 i2 False by presburger
    qed
    then show ?thesis
      unfolding adopted_def using own_frame_trans [OF o fr'] par cp st by (intro conjI allI impI) blast+
  qed
  ultimately show ?case using k'(2,3) by blast
qed


section \<open>The invariant\<close>

text \<open>The living processes that use the object at \<open>r\<close> as their \<open>sel\<close>.\<close>

definition users :: "ptab \<Rightarrow> (proc_struct \<Rightarrow> nat option) \<Rightarrow> nat \<Rightarrow> proc_ptr set" where
  "users k sel r = {p \<in> members k. state (procs k p) \<noteq> PROC_ZOMBIE \<and> sel (procs k p) = Some r}"

text \<open>No living process uses a freed object: the reference counts are large enough.\<close>

definition res_ok :: "ptab \<Rightarrow> bool" where
  "res_ok k \<longleftrightarrow>
     (\<forall>p \<in> members k. RProc p \<in> held k) \<and>
     (\<forall>p \<in> members k. state (procs k p) \<noteq> PROC_ZOMBIE \<longrightarrow> filesp (procs k p) \<noteq> None) \<and>
     (\<forall>r. users k filesp r \<noteq> {} \<longrightarrow> RFiles r \<in> held k) \<and>
     (\<forall>r. int (card (users k filesp r)) \<le> files_count k r) \<and>
     (\<forall>r. users k mm r \<noteq> {} \<longrightarrow> RMm r \<in> held k \<and> KERNBASE \<le> mm_pgdir k r) \<and>
     (\<forall>r. int (card (users k mm r)) \<le> mm_count k r)"

definition base_ok :: "ptab \<Rightarrow> bool" where
  "base_ok k \<longleftrightarrow> ids_ok k \<and> rr_ok k \<and> res_ok k \<and>
     initproc k \<in> set (proc_list k) \<and> parent (procs k (initproc k)) = Some (idleproc k) \<and>
     state (procs k (initproc k)) \<noteq> PROC_ZOMBIE \<and> state (procs k (idleproc k)) = PROC_RUNNABLE \<and>
     (\<forall>p \<in> members k. wait_state (procs k p) \<noteq> 0 \<longrightarrow> state (procs k p) = PROC_SLEEPING) \<and>
     (\<forall>p. p \<notin> members k \<longrightarrow> state (procs k p) \<noteq> PROC_RUNNABLE)"

definition proc_ok :: "ptab \<Rightarrow> bool" where
  "proc_ok k \<longleftrightarrow> base_ok k \<and> (\<exists>ch. tree_ok k ch) \<and>
     (\<forall>p \<in> members k. state (procs k p) = PROC_ZOMBIE \<longrightarrow> cptr (procs k p) = None) \<and>
     current k \<in> members k \<and> state (procs k (current k)) = PROC_RUNNABLE"

lemma finite_users [simp]: "finite (users k sel r)"
  by (rule finite_subset [of _ "members k"]) (auto simp: users_def members_def)

lemma users_cong:
  assumes "members k' = members k" and "\<And>q. sel (procs k' q) = sel (procs k q)"
    and "\<And>q. (state (procs k' q) = PROC_ZOMBIE) = (state (procs k q) = PROC_ZOMBIE)"
  shows "users k' sel r = users k sel r"
  using assms by (simp add: users_def)

lemma res_ok_cong:
  assumes ok: "res_ok k" and m: "members k' = members k"
    and f: "\<And>q. filesp (procs k' q) = filesp (procs k q)" "\<And>q. mm (procs k' q) = mm (procs k q)"
    and s: "\<And>q. (state (procs k' q) = PROC_ZOMBIE) = (state (procs k q) = PROC_ZOMBIE)"
    and h: "held k' = held k" "files_count k' = files_count k" "mm_count k' = mm_count k" "mm_pgdir k' = mm_pgdir k"
  shows "res_ok k'"
proof -
  have "users k' filesp r = users k filesp r" "users k' mm r = users k mm r" for r
    by (rule users_cong; simp add: m f s)+
  then show ?thesis using ok by (simp add: res_ok_def m f s h)
qed

lemma tree_cong:
  assumes "proc_list k' = proc_list k" and "idleproc k' = idleproc k"
    and "\<And>q. parent (procs k' q) = parent (procs k q)" "\<And>q. cptr (procs k' q) = cptr (procs k q)"
      "\<And>q. yptr (procs k' q) = yptr (procs k q)" "\<And>q. optr (procs k' q) = optr (procs k q)"
  shows "tree_ok k' ch = tree_ok k ch"
proof -
  have "family (procs k') s xs = family (procs k) s xs" for s xs
    by (rule family_cong) (simp add: assms)
  then show ?thesis by (simp add: tree_ok_def members_def assms)
qed

text \<open>What follows from the wake-up of a process, and from a switch.\<close>

lemma base_wake:
  assumes ok: "base_ok k" and p: "p \<in> members k" "state (procs k p) \<noteq> PROC_ZOMBIE"
    and w: "rr_ok k'" "core_frame k k'" "state (procs k' p) = PROC_RUNNABLE"
      "wait_state (procs k' p) = (if state (procs k p) = PROC_RUNNABLE then wait_state (procs k p) else 0)"
      "\<forall>q. q \<noteq> p \<longrightarrow> state (procs k' q) = state (procs k q) \<and> wait_state (procs k' q) = wait_state (procs k q)"
  shows "base_ok k'"
proof -
  note fr = core_frameD [OF w(2)]
  have st: "state (procs k' q) = (if q = p then PROC_RUNNABLE else state (procs k q))" for q
    using w(3,5) by simp
  have wt: "wait_state (procs k' q) = (if q = p then 0 else wait_state (procs k q))" for q
  proof (cases "q = p")
    case True
    have "state (procs k p) = PROC_RUNNABLE \<Longrightarrow> wait_state (procs k p) = 0"
      using ok p(1) by (auto simp: base_ok_def)
    then show ?thesis using True w(4) by simp
  qed (use w(5) in simp)
  have "res_ok k'"
    by (rule res_ok_cong) (use ok p w(2) in \<open>auto simp: base_ok_def fr st core_frame_def\<close>)
  moreover have "ids_ok k'" using core_frame_ids [OF w(2)] ok by (simp add: base_ok_def)
  ultimately show ?thesis using ok p w(1) by (simp add: base_ok_def fr st wt)
qed

lemma base_sched:
  assumes ok: "base_ok k" and tree: "tree_ok k ch"
    and z: "\<forall>p \<in> members k. state (procs k p) = PROC_ZOMBIE \<longrightarrow> cptr (procs k p) = None"
  obtains k' where "schedule default_sched_class k = Some k'" and "proc_ok k'" and "core_frame k k'"
    and "\<forall>q. state (procs k' q) = state (procs k q) \<and> wait_state (procs k' q) = wait_state (procs k q)"
proof -
  have rr: "rr_ok k" using ok by (simp add: base_ok_def)
  obtain k' where k': "schedule default_sched_class k = Some k'" "rr_ok k'" "core_frame k k'"
    and st: "\<forall>q. state (procs k' q) = state (procs k q) \<and> wait_state (procs k' q) = wait_state (procs k q)"
    and c: "current k' = idleproc k \<or> state (procs k (current k')) = PROC_RUNNABLE"
    by (rule sched_ok_step [OF rr])
  note fr = core_frameD [OF k'(3)]
  have "res_ok k'"
    by (rule res_ok_cong) (use ok k'(3) st in \<open>auto simp: base_ok_def fr core_frame_def\<close>)
  moreover have "ids_ok k'" using core_frame_ids [OF k'(3)] ok by (simp add: base_ok_def)
  ultimately have "base_ok k'" using ok k'(2) st by (simp add: base_ok_def fr)
  moreover have "tree_ok k' ch" using core_frame_tree [OF k'(3)] tree by simp
  moreover have "state (procs k (current k')) = PROC_RUNNABLE" using c ok by (auto simp: base_ok_def)
  moreover from this have "current k' \<in> members k" using ok by (auto simp: base_ok_def)
  ultimately have "proc_ok k'" using z st by (auto simp: proc_ok_def fr)
  then show thesis using that k'(1,3) st by blast
qed


section \<open>The exit of a process\<close>

lemma ids_cong:
  assumes "proc_list k' = proc_list k" "idleproc k' = idleproc k" "pid_hash k' = pid_hash k"
    "nr_process k' = nr_process k" "next_safe k' = next_safe k" "last_pid k' = last_pid k"
    and "\<And>q. pid (procs k' q) = pid (procs k q)"
  shows "ids_ok k' = ids_ok k"
  using assms by (simp add: ids_ok_def pid_ok_def)

lemma exit_release_frame [simp]:
  "procs (exit_release k) = (procs k)(current k := (procs k (current k))\<lparr>mm := None\<rparr>)"
  "current (exit_release k) = current k" "idleproc (exit_release k) = idleproc k"
  "initproc (exit_release k) = initproc k" "run_list (exit_release k) = run_list k"
  "proc_num (exit_release k) = proc_num k" "run_pool (exit_release k) = run_pool k"
  "max_time_slice (exit_release k) = max_time_slice k" "proc_list (exit_release k) = proc_list k"
  "pid_hash (exit_release k) = pid_hash k" "nr_process (exit_release k) = nr_process k"
  "next_safe (exit_release k) = next_safe k" "last_pid (exit_release k) = last_pid k"
  "mm_pgdir (exit_release k) = mm_pgdir k" "members (exit_release k) = members k"
proof -
  have m: "mm (procs k (current k)) = None \<Longrightarrow> (procs k (current k))\<lparr>mm := None\<rparr> = procs k (current k)"
    by (cases "procs k (current k)") simp
  show "procs (exit_release k) = (procs k)(current k := (procs k (current k))\<lparr>mm := None\<rparr>)"
    by (cases "mm (procs k (current k))")
       (auto simp: exit_release_def put_files_def put_mm_def drop_res_def put_pgdir_def Let_def fun_eq_iff m
         split: option.split)
qed (auto simp: exit_release_def put_files_def put_mm_def drop_res_def put_pgdir_def Let_def members_def
       split: option.split)

lemma exit_release_counts:
  "mm_count (exit_release k) r = mm_count k r - (if mm (procs k (current k)) = Some r then 1 else 0)"
  "files_count (exit_release k) r = files_count k r -
     (if mm (procs k (current k)) \<noteq> None \<and> filesp (procs k (current k)) = Some r then 1 else 0)"
  by (auto simp: exit_release_def put_files_def put_mm_def drop_res_def put_pgdir_def Let_def
       split: option.split)

lemma exit_release_held:
  "RProc q \<in> held (exit_release k) \<longleftrightarrow> RProc q \<in> held k"
  "RMm r \<in> held (exit_release k) \<longleftrightarrow> RMm r \<in> held k \<and>
     \<not> (mm (procs k (current k)) = Some r \<and> mm_count k r = 1)"
  "RFiles r \<in> held (exit_release k) \<longleftrightarrow> RFiles r \<in> held k \<and>
     \<not> (mm (procs k (current k)) \<noteq> None \<and> filesp (procs k (current k)) = Some r \<and> files_count k r = 1)"
  "held (exit_release k) \<subseteq> held k"
  by (auto simp: exit_release_def put_files_def put_mm_def drop_res_def put_pgdir_def Let_def
       split: option.split if_splits)

text \<open>The objects whose last reference an exiting process has. It puts its files only when it has an
  address space.\<close>

definition exit_frees :: "ptab \<Rightarrow> resource set" where
  "exit_frees k = (case mm (procs k (current k)) of
     None \<Rightarrow> {}
   | Some m \<Rightarrow>
       (if mm_count k m = 1 then {RMm m, RPgdir (mm_pgdir k m), RMmap m} else {}) \<union>
       (case filesp (procs k (current k)) of
          None \<Rightarrow> {}
        | Some f \<Rightarrow> if files_count k f = 1 then {RFiles f} else {}))"

lemma exit_release_frees: "held (exit_release k) = held k - exit_frees k"
  by (auto simp: exit_frees_def exit_release_def put_files_def put_mm_def drop_res_def put_pgdir_def Let_def
      split: option.split)

text \<open>The state after the release of the resources and the change to a zombie.\<close>

lemma zombie_base:
  assumes ok: "proc_ok k" and c: "current k \<noteq> idleproc k" "current k \<noteq> initproc k"
    and k1: "k1 = upd_proc (current k) (\<lambda>x. x\<lparr>state := PROC_ZOMBIE, exit_code := e\<rparr>) (exit_release k)"
  shows "base_ok k1"
proof -
  let ?c = "current k"
  have b: "ids_ok k" "rr_ok k" "res_ok k" and cm: "?c \<in> members k" and cr: "state (procs k ?c) = PROC_RUNNABLE"
    using ok by (simp_all add: proc_ok_def base_ok_def)
  have p: "procs k1 q = (if q = ?c then (procs k ?c)\<lparr>mm := None, state := PROC_ZOMBIE, exit_code := e\<rparr> else procs k q)" for q
    by (simp add: k1)
  have m: "members k1 = members k" by (simp add: k1 members_def)
  have uf: "users k1 filesp r = users k filesp r - {?c}" for r by (auto simp: users_def m p)
  have um: "users k1 mm r = users k mm r - {?c}" for r by (auto simp: users_def m p)
  have cf: "int (card (users k filesp r)) \<le> files_count k r" and cmm: "int (card (users k mm r)) \<le> mm_count k r" for r
    using b(3) by (simp_all add: res_ok_def)
  have fin: "int (card (U - {?c})) = int (card U) - (if ?c \<in> U then 1 else 0)" if "finite U" for U
  proof (cases "?c \<in> U")
    case True
    then have "card U > 0" using that by (auto simp: card_gt_0_iff)
    then show ?thesis using True by (simp add: card_Diff_singleton of_nat_diff)
  qed simp
  have cu: "?c \<in> users k sel r \<longleftrightarrow> sel (procs k ?c) = Some r" for sel r
    using cm cr by (simp add: users_def)
  have cnt: "files_count k1 r = files_count (exit_release k) r" "mm_count k1 r = mm_count (exit_release k) r"
    "mm_pgdir k1 = mm_pgdir k" "held k1 = held (exit_release k)" for r
    by (simp_all add: k1)
  have f1: "int (card (users k1 filesp r)) \<le> files_count k1 r" for r
    using cf [of r] fin [of "users k filesp r"] by (simp add: uf cnt exit_release_counts cu)
  have m1: "int (card (users k1 mm r)) \<le> mm_count k1 r" for r
    using cmm [of r] fin [of "users k mm r"] by (simp add: um cnt exit_release_counts cu)
  have "RFiles r \<in> held k1" if u: "users k1 filesp r \<noteq> {}" for r
  proof -
    have "RFiles r \<in> held k" using u b(3) by (auto simp: uf res_ok_def)
    moreover have "0 < card (users k1 filesp r)" using u by (simp add: card_gt_0_iff)
    then have "files_count k1 r > 0" using f1 [of r] by linarith
    ultimately show ?thesis by (auto simp: cnt exit_release_counts exit_release_held)
  qed
  moreover have "RMm r \<in> held k1 \<and> KERNBASE \<le> mm_pgdir k1 r" if u: "users k1 mm r \<noteq> {}" for r
  proof -
    have "RMm r \<in> held k \<and> KERNBASE \<le> mm_pgdir k r" using u b(3) by (auto simp: um res_ok_def)
    moreover have "0 < card (users k1 mm r)" using u by (simp add: card_gt_0_iff)
    then have "mm_count k1 r > 0" using m1 [of r] by linarith
    ultimately show ?thesis by (auto simp: cnt exit_release_counts exit_release_held)
  qed
  moreover have "\<forall>q \<in> members k1. RProc q \<in> held k1"
    using b(3) by (simp add: m cnt exit_release_held res_ok_def)
  moreover have "\<forall>q \<in> members k1. state (procs k1 q) \<noteq> PROC_ZOMBIE \<longrightarrow> filesp (procs k1 q) \<noteq> None"
    using b(3) by (simp add: m p res_ok_def)
  ultimately have "res_ok k1" using f1 m1 by (simp add: res_ok_def)
  moreover have "ids_ok k1" using b(1) ids_cong [of k1 k] by (simp add: k1)
  moreover have "rr_ok k1" by (rule rr_ok_local [OF b(2)]) (simp_all add: k1)
  moreover have "wait_state (procs k ?c) = 0" using ok cm cr by (auto simp: proc_ok_def base_ok_def)
  moreover have "proc_list k1 = proc_list k" "idleproc k1 = idleproc k" "initproc k1 = initproc k"
    by (simp_all add: k1)
  ultimately show ?thesis using ok c cm
    by (simp add: proc_ok_def base_ok_def m p)
qed

lemma do_exit_lemma:
  assumes ok: "proc_ok k" and c: "current k \<noteq> idleproc k" "current k \<noteq> initproc k"
    and par: "parent (procs k (current k)) = Some par"
  shows "\<exists>k'. do_exit default_sched_class e k = Some k' \<and> proc_ok k' \<and> members k' = members k \<and>
    initproc k' = initproc k \<and> idleproc k' = idleproc k \<and> held k' = held (exit_release k) \<and>
    mm_count k' = mm_count (exit_release k) \<and> files_count k' = files_count (exit_release k) \<and>
    mm (procs k' (current k)) = None \<and> state (procs k' (current k)) = PROC_ZOMBIE \<and> exit_code (procs k' (current k)) = e \<and>
    (\<forall>q. parent (procs k' q) = (if q \<in> set (proc_list k) \<and> parent (procs k q) = Some (current k)
       then Some (initproc k) else parent (procs k q))) \<and>
    (\<forall>q. q \<noteq> current k \<longrightarrow> pown (procs k' q) = pown (procs k q) \<and>
       state (procs k' q) = (if wait_state (procs k q) = WT_CHILD \<and> (q = par \<or> q = initproc k \<and>
           (\<exists>r \<in> set (proc_list k). parent (procs k r) = Some (current k) \<and> state (procs k r) = PROC_ZOMBIE))
         then PROC_RUNNABLE else state (procs k q)))"
proof -
  let ?c = "current k" and ?i = "initproc k"
  define k1 where "k1 = upd_proc ?c (\<lambda>x. x\<lparr>state := PROC_ZOMBIE, exit_code := e\<rparr>) (exit_release k)"
  have base1: "base_ok k1" by (rule zombie_base [OF ok c]) (simp only: k1_def)
  have base: "base_ok k" and cm: "?c \<in> set (proc_list k)" and cr: "state (procs k ?c) = PROC_RUNNABLE"
    using ok c by (simp_all add: proc_ok_def members_def)
  have init: "?i \<in> set (proc_list k)" "parent (procs k ?i) = Some (idleproc k)" "state (procs k ?i) \<noteq> PROC_ZOMBIE"
    and ii: "?i \<noteq> idleproc k"
    using base by (auto simp: base_ok_def ids_ok_def)
  have wait: "wait_state (procs k q) \<noteq> 0 \<Longrightarrow> state (procs k q) = PROC_SLEEPING" if "q \<in> members k" for q
    using base that by (simp add: base_ok_def)
  obtain ch where tree: "tree_ok k ch" using ok by (auto simp: proc_ok_def)
  have pm: "par \<in> members k" and pc: "par \<noteq> ?c" using tree cm par by (auto simp: tree_ok_def)
  have p1: "procs k1 q = (if q = ?c then (procs k ?c)\<lparr>mm := None, state := PROC_ZOMBIE, exit_code := e\<rparr> else procs k q)" for q
    by (simp add: k1_def)
  have l1: "proc_list k1 = proc_list k" "idleproc k1 = idleproc k" "initproc k1 = ?i" "current k1 = ?c"
    "members k1 = members k" "held k1 = held (exit_release k)" by (simp_all add: k1_def members_def)
  have tree1: "tree_ok k1 ch" using tree_cong [OF l1(1,2), of ch] tree by (simp add: p1)
  let ?w = "wait_state (procs k par) = WT_CHILD"
  obtain k2 where k2: "(if ?w then wakeup_proc default_sched_class par k1 else Some k1) = Some k2"
    and base2: "base_ok k2" and f2: "core_frame k1 k2" and c2: "current k2 = ?c"
    and s2: "\<forall>q. q \<noteq> par \<longrightarrow> state (procs k2 q) = state (procs k1 q) \<and> wait_state (procs k2 q) = wait_state (procs k1 q)"
    and w2: "if ?w then state (procs k2 par) = PROC_RUNNABLE \<and> wait_state (procs k2 par) = 0
      else state (procs k2 par) = state (procs k par) \<and> wait_state (procs k2 par) = wait_state (procs k par)"
  proof (cases ?w)
    case True
    have sl: "state (procs k1 par) = PROC_SLEEPING" using wait [OF pm] True pc by (simp add: p1 WT_CHILD_nz)
    have rr1: "rr_ok k1" using base1 by (simp add: base_ok_def)
    have nz: "state (procs k1 par) \<noteq> PROC_ZOMBIE" using sl by simp
    have pm1: "par \<in> members k1" using pm by (simp add: l1)
    obtain k2 where k2: "wakeup_proc default_sched_class par k1 = Some k2" "rr_ok k2" "core_frame k1 k2"
      "current k2 = current k1" "state (procs k2 par) = PROC_RUNNABLE"
      "wait_state (procs k2 par) = (if state (procs k1 par) = PROC_RUNNABLE then wait_state (procs k1 par) else 0)"
      "\<forall>q. q \<noteq> par \<longrightarrow> state (procs k2 q) = state (procs k1 q) \<and> wait_state (procs k2 q) = wait_state (procs k1 q)"
      by (rule wake_ok [OF rr1 nz])
    have "base_ok k2" by (rule base_wake [OF base1 pm1 nz k2(2,3,5,6,7)])
    then show thesis using that [of k2] k2 True sl l1(4) by simp
  next
    case False
    then show thesis using that [of k1] base1 l1(4) pc by (simp add: p1)
  qed
  note fr2 = core_frameD [OF f2]
  have l2: "proc_list k2 = proc_list k" "idleproc k2 = idleproc k" "initproc k2 = ?i" "members k2 = members k"
    using l1 by (simp_all add: fr2)
  have par2: "parent (procs k2 q) = parent (procs k q)" for q by (simp add: fr2 p1)
  have tree2: "tree_ok k2 ch" using core_frame_tree [OF f2] tree1 by simp
  have st2: "state (procs k2 q) = (if q = ?c then PROC_ZOMBIE else if q = par \<and> ?w then PROC_RUNNABLE else state (procs k q))" for q
  proof (cases "q = par")
    case True
    then show ?thesis using w2 pc by (simp split: if_splits)
  next
    case False
    then show ?thesis using s2 by (simp add: p1)
  qed
  have wt2: "wait_state (procs k2 q) = (if q = par \<and> ?w then 0 else wait_state (procs k q))" for q
  proof (cases "q = par")
    case True
    then show ?thesis using w2 by (simp split: if_splits)
  next
    case False
    then show ?thesis using s2 by (simp add: p1)
  qed
  have mv: "moving k2 ch (ch ?c)"
    using tree_moving [OF tree2] cm init c ii by (simp add: l2 c2 par2)
  have kids: "set (ch ?c) = {q \<in> set (proc_list k). parent (procs k q) = Some ?c}"
    using tree cm by (simp add: tree_ok_def members_def)
  have init2: "state (procs k2 ?i) \<noteq> PROC_ZOMBIE"
    "wait_state (procs k2 ?i) \<noteq> 0 \<longrightarrow> state (procs k2 ?i) = PROC_SLEEPING"
    using base2 init(1) by (simp_all add: base_ok_def l2 members_def)
  have rr2: "rr_ok k2" using base2 by (simp add: base_ok_def)
  obtain k3 ch3 where k3: "adopt_children default_sched_class k2 = Some k3" "moving k3 ch3 []" "rr_ok k3"
    and a3: "adopted k2 (ch ?c) k3"
    using adopt_children_ok [OF mv rr2] init2 by (auto simp: l2)
  note a = a3 [unfolded adopted_def l2 c2 kids]
  have o3: "own_frame k2 k3" using a by blast
  note fr3 = own_frameD [OF o3]
  have par3: "parent (procs k3 q) = (if q \<in> set (proc_list k) \<and> parent (procs k q) = Some ?c then Some ?i
      else parent (procs k q))" for q
  proof -
    have "parent (procs k3 q) = (if q \<in> {q \<in> set (proc_list k). parent (procs k q) = Some ?c} then Some ?i
      else parent (procs k2 q))" using a by blast
    then show ?thesis by (simp add: par2)
  qed
  have st3: "state (procs k3 q) = state (procs k2 q)" "wait_state (procs k3 q) = wait_state (procs k2 q)"
    if "q \<noteq> ?i" for q using a that by blast+
  have i3: "if wait_state (procs k2 ?i) = WT_CHILD \<and>
      (\<exists>q \<in> {q \<in> set (proc_list k). parent (procs k q) = Some ?c}. state (procs k2 q) = PROC_ZOMBIE)
    then state (procs k3 ?i) = PROC_RUNNABLE \<and> wait_state (procs k3 ?i) = 0
    else state (procs k3 ?i) = state (procs k2 ?i) \<and> wait_state (procs k3 ?i) = wait_state (procs k2 ?i)"
    using a by blast
  have z3: "(state (procs k3 q) = PROC_ZOMBIE) = (state (procs k2 q) = PROC_ZOMBIE)" for q
    using st3(1) [of q] i3 init2(1) by (cases "q = ?i") (auto split: if_splits)
  have l3: "proc_list k3 = proc_list k" "idleproc k3 = idleproc k" "initproc k3 = ?i" "members k3 = members k" "current k3 = ?c"
    using l2 c2 by (simp_all add: fr3)
  have res3: "res_ok k3"
  proof (rule res_ok_cong)
    show "res_ok k2" using base2 by (simp add: base_ok_def)
    show "mm_pgdir k3 = mm_pgdir k2" using o3 by (simp add: own_frame_def)
  qed (simp_all add: fr3 z3)
  have base3: "base_ok k3"
  proof -
    have "ids_ok k3" using own_frame_ids [OF o3] base2 by (simp add: base_ok_def)
    moreover have "\<forall>p \<in> members k. wait_state (procs k3 p) \<noteq> 0 \<longrightarrow> state (procs k3 p) = PROC_SLEEPING"
    proof
      fix p assume "p \<in> members k"
      then have "wait_state (procs k2 p) \<noteq> 0 \<longrightarrow> state (procs k2 p) = PROC_SLEEPING"
        using base2 by (simp add: base_ok_def l2)
      then show "wait_state (procs k3 p) \<noteq> 0 \<longrightarrow> state (procs k3 p) = PROC_SLEEPING"
        using st3 [of p] i3 by (cases "p = ?i") (auto split: if_splits)
    qed
    moreover have "state (procs k3 p) \<noteq> PROC_RUNNABLE" if p: "p \<notin> members k" for p
    proof -
      have "p \<noteq> ?i" using p init(1) by (auto simp: members_def)
      moreover have "state (procs k2 p) \<noteq> PROC_RUNNABLE" using base2 p by (simp add: base_ok_def l2)
      ultimately show ?thesis using st3(1) by simp
    qed
    moreover have "state (procs k3 (idleproc k)) = PROC_RUNNABLE"
      using base2 st3(1) [of "idleproc k"] ii by (simp add: base_ok_def l2)
    moreover have "state (procs k3 ?i) \<noteq> PROC_ZOMBIE" using z3 init2 by simp
    moreover have "parent (procs k3 ?i) = Some (idleproc k)" using init c by (simp add: par3)
    ultimately show ?thesis using res3 k3(3) init(1) by (simp add: base_ok_def l3)
  qed
  have tree3: "tree_ok k3 (ch3(?c := []))" and leaf: "cptr (procs k3 ?c) = None"
    using moving_tree [OF k3(2)] by (simp_all add: l3)
  have z: "\<forall>p \<in> members k3. state (procs k3 p) = PROC_ZOMBIE \<longrightarrow> cptr (procs k3 p) = None"
  proof (intro ballI impI)
    fix p assume p: "p \<in> members k3" "state (procs k3 p) = PROC_ZOMBIE"
    show "cptr (procs k3 p) = None"
    proof (cases "p = ?c")
      case False
      have "p \<noteq> ?i" using p(2) z3 init2 by auto
      then have "cptr (procs k3 p) = cptr (procs k2 p)" using a False by blast
      moreover have "state (procs k p) = PROC_ZOMBIE" using p z3 [of p] False by (simp add: st2 split: if_splits)
      ultimately show ?thesis using ok p(1) False by (simp add: proc_ok_def l3 fr2 p1)
    qed (simp add: leaf)
  qed
  obtain k4 where k4: "schedule default_sched_class k3 = Some k4" "proc_ok k4" and f4: "core_frame k3 k4"
    and s4: "\<forall>q. state (procs k4 q) = state (procs k3 q) \<and> wait_state (procs k4 q) = wait_state (procs k3 q)"
    by (rule base_sched [OF base3 tree3 z])
  note fr4 = core_frameD [OF f4]
  have run: "do_exit default_sched_class e k = Some k4"
  proof -
    have e1: "upd_proc (current (exit_release k)) (\<lambda>x. x\<lparr>state := PROC_ZOMBIE, exit_code := e\<rparr>) (exit_release k) = k1"
      by (simp add: k1_def)
    show ?thesis
      unfolding do_exit_def Let_def e1 using c par k2 k3(1) k4(1) pc
      by (simp add: kassert_def p1 l1(4) split del: if_split)
  qed
  have pw: "pown (procs k4 q) = pown (procs k1 q)" for q
    by (simp add: pown_def fr4 fr3 fr2)
  have cn: "mm_count k4 = mm_count (exit_release k)" "files_count k4 = files_count (exit_release k)"
    using f2 f4 o3 by (simp_all add: core_frame_def own_frame_def k1_def)
  have "mm (procs k4 ?c) = None" using pw [of ?c] by (simp add: pown_def p1)
  moreover have "state (procs k4 ?c) = PROC_ZOMBIE" using s4 st3(1) [of ?c] c by (simp add: st2)
  moreover have "exit_code (procs k4 ?c) = e" using pw [of ?c] by (simp add: pown_def p1)
  moreover have "pown (procs k4 q) = pown (procs k q) \<and> state (procs k4 q) = (if wait_state (procs k q) = WT_CHILD \<and> (q = par \<or> q = ?i \<and>
      (\<exists>r \<in> set (proc_list k). parent (procs k r) = Some ?c \<and> state (procs k r) = PROC_ZOMBIE))
    then PROC_RUNNABLE else state (procs k q))" if "q \<noteq> ?c" for q
  proof
    show "pown (procs k4 q) = pown (procs k q)" using pw [of q] that by (simp add: p1)
    show "state (procs k4 q) = (if wait_state (procs k q) = WT_CHILD \<and> (q = par \<or> q = ?i \<and>
      (\<exists>r \<in> set (proc_list k). parent (procs k r) = Some ?c \<and> state (procs k r) = PROC_ZOMBIE))
    then PROC_RUNNABLE else state (procs k q))"
    proof (cases "q = ?i")
      case False
      then have "state (procs k4 q) = state (procs k2 q)" using s4 st3(1) by simp
      then show ?thesis using False that by (auto simp: st2)
    next
      case True
      have z: "(state (procs k2 r) = PROC_ZOMBIE) = (state (procs k r) = PROC_ZOMBIE)"
        if "parent (procs k r) = Some ?c" for r
        using that par pc wait [OF pm] by (auto simp: st2 WT_CHILD_nz)
      have "state (procs k4 ?i) = state (procs k3 ?i)" using s4 by simp
      then show ?thesis using i3 True that z by (auto simp: st2 wt2 WT_CHILD_nz split: if_splits)
    qed
  qed
  ultimately show ?thesis using run k4(2)
    by (intro exI [of _ k4]) (simp add: fr4 par3 l3 fr3 fr2 l1 cn)
qed

end
