(* ===== verification/ProcWait.thy ===== *)
theory ProcWait
  imports ProcInv
begin

text \<open>
  \<open>do_wait\<close>, \<open>do_kill\<close> and the other system calls on processes: what they return and that they keep
  the invariant \<open>proc_ok\<close>.
\<close>

section \<open>Waiting for a child\<close>

lemma find_zombie_olders:
  "olders (procs k) s xs \<Longrightarrow> find_zombie k s = Some (find (\<lambda>p. state (procs k p) = PROC_ZOMBIE) xs)"
  by (induction xs arbitrary: s) (subst find_zombie.simps; simp)+

text \<open>The children of the running process that \<open>do_wait\<close> may take.\<close>

definition wait_kids :: "int \<Rightarrow> ptab \<Rightarrow> proc_ptr set" where
  "wait_kids i k = {q \<in> set (proc_list k). parent (procs k q) = Some (current k) \<and> (i = 0 \<or> pid (procs k q) = i)}"

lemma wait_search_ok:
  assumes ok: "proc_ok k"
  obtains z where "wait_search i k = Some (wait_kids i k \<noteq> {}, z)"
    and "case z of Some p \<Rightarrow> p \<in> wait_kids i k \<and> state (procs k p) = PROC_ZOMBIE
      | None \<Rightarrow> \<forall>p \<in> wait_kids i k. state (procs k p) \<noteq> PROC_ZOMBIE"
proof -
  have ids: "ids_ok k" and c: "current k \<in> members k" using ok by (simp_all add: proc_ok_def base_ok_def)
  obtain ch where tree: "tree_ok k ch" using ok by (auto simp: proc_ok_def)
  note result = that
  show thesis
  proof (cases "i = 0")
    case True
    have fam: "family (procs k) (cptr (procs k (current k))) (ch (current k))" and kids: "set (ch (current k)) = wait_kids i k"
      using tree c True by (simp_all add: tree_ok_def wait_kids_def)
    then have o: "olders (procs k) (cptr (procs k (current k))) (ch (current k))"
      using sibs_olders by (auto simp: family_def)
    have "cptr (procs k (current k)) \<noteq> None \<longleftrightarrow> wait_kids i k \<noteq> {}"
      using o kids by (cases "ch (current k)") auto
    then have "wait_search i k = Some (wait_kids i k \<noteq> {}, find (\<lambda>p. state (procs k p) = PROC_ZOMBIE) (ch (current k)))"
      using True find_zombie_olders [OF o] by (simp add: wait_search_def)
    then show thesis
      by (rule result) (use kids in \<open>auto simp: find_Some_iff find_None_iff split: option.split\<close>)
  next
    case False
    show thesis
    proof (cases "find_proc i k")
      case None
      then have none: "\<not> (p \<in> set (proc_list k) \<and> pid (procs k p) = i)" for p
        using find_proc_iff [OF ids, of i p] by simp
      then have "wait_kids i k = {}" using False by (auto simp: wait_kids_def)
      then show thesis using None False by (intro result [of None]) (simp_all add: wait_search_def)
    next
      case (Some p)
      then have p: "p \<in> set (proc_list k)" "pid (procs k p) = i" using find_proc_iff [OF ids] by blast+
      have uniq: "q = p" if "q \<in> set (proc_list k)" "pid (procs k q) = i" for q
      proof -
        have "find_proc i k = Some q" using find_proc_iff [OF ids] that by blast
        then show ?thesis using Some by simp
      qed
      let ?mine = "parent (procs k p) = Some (current k)"
      have kids: "wait_kids i k = (if ?mine then {p} else {})"
      proof -
        have "q \<in> wait_kids i k \<longleftrightarrow> q = p \<and> ?mine" for q
          unfolding wait_kids_def using p uniq [of q] False by blast
        then show ?thesis by auto
      qed
      show thesis
      proof (rule result)
        show "wait_search i k = Some (wait_kids i k \<noteq> {},
            if ?mine \<and> state (procs k p) = PROC_ZOMBIE then Some p else None)"
          using Some False by (simp add: wait_search_def kids)
      qed (simp add: kids)
    qed
  qed
qed

lemma links_frame_rr:
  assumes f: "links_frame k k'" and ok: "rr_ok k"
  shows "rr_ok k'"
proof (rule rr_ok_local [OF ok])
  fix q
  have e: "links_erase (procs k' q) = links_erase (procs k q)" using f by (simp add: links_frame_def)
  from arg_cong [OF e, of rq] arg_cong [OF e, of lab6_stride] arg_cong [OF e, of lab6_priority] arg_cong [OF e, of lab6_run_pool]
  show "rq (procs k' q) = rq (procs k q) \<and> lab6_stride (procs k' q) = lab6_stride (procs k q) \<and>
      lab6_priority (procs k' q) = lab6_priority (procs k q) \<and> lab6_run_pool (procs k' q) = lab6_run_pool (procs k q)"
    by (simp add: links_erase_def)
qed (use f in \<open>simp_all add: links_frame_def links_frameD [OF f]\<close>)

lemma links_frame_pown:
  assumes f: "links_frame k k'"
  shows "pown (procs k' q) = pown (procs k q)"
proof -
  have e: "links_erase (procs k' q) = links_erase (procs k q)" using f by (simp add: links_frame_def)
  from arg_cong [OF e, of pown] show ?thesis by (simp add: links_erase_def pown_def)
qed

lemma wait_found_ok:
  assumes ok: "proc_ok k" and p: "p \<in> set (proc_list k)" "state (procs k p) = PROC_ZOMBIE"
  obtains k' where "wait_found p k = Some (Reaped (exit_code (procs k p)), k')" and "proc_ok k'"
    and "members k' = members k - {p}" and "current k' = current k"
    and "held k' = held k - {RProc p, RKstack (kstack (procs k p))}"
    and "\<forall>q. pown (procs k' q) = pown (procs k q) \<and> state (procs k' q) = state (procs k q)"
    and "idleproc k' = idleproc k" and "initproc k' = initproc k"
proof -
  have base: "base_ok k" and cm: "current k \<in> members k" "state (procs k (current k)) = PROC_RUNNABLE"
    and leaf: "cptr (procs k p) = None"
    using ok p by (simp_all add: proc_ok_def members_def)
  obtain ch where tree: "tree_ok k ch" using ok by (auto simp: proc_ok_def)
  have ids: "ids_ok k" "distinct (proc_list k)" and pi: "p \<noteq> idleproc k" "p \<noteq> initproc k"
    using base p by (auto simp: base_ok_def ids_ok_def)
  let ?k1 = "unhash_proc p k"
  have l1: "procs ?k1 = procs k" "proc_list ?k1 = proc_list k" "idleproc ?k1 = idleproc k"
    "nr_process ?k1 = nr_process k" "links_frame k ?k1"
    by (simp_all add: unhash_proc_def links_frame_def)
  have tree1: "tree_ok ?k1 ch" using tree_cong [of ?k1 k ch] tree l1 by simp
  obtain k2 where k2: "remove_links p ?k1 = Some k2" "proc_list k2 = remove1 p (proc_list k)"
    "pid_hash k2 = pid_hash ?k1" "nr_process k2 = nr_process k - 1" "links_frame ?k1 k2" "\<exists>ch'. tree_ok k2 ch'"
    and leaves: "\<forall>q. cptr (procs k q) = None \<longrightarrow> cptr (procs k2 q) = None"
    using remove_tree [OF tree1] ids(2) p(1) pi(1) leaf l1 by auto
  have f2: "links_frame k k2" using l1(5) k2(5) by (simp add: links_frame_def)
  note fr = links_frameD [OF f2]
  have pw: "pown (procs k2 q) = pown (procs k q)" for q by (rule links_frame_pown [OF f2])
  then have fl: "filesp (procs k2 q) = filesp (procs k q)" "mm (procs k2 q) = mm (procs k q)"
    "kstack (procs k2 q) = kstack (procs k q)" for q by (simp_all add: pown_def)
  let ?k3 = "drop_res {RProc p} (put_kstack p k2)"
  have l3: "procs ?k3 = procs k2" "proc_list ?k3 = proc_list k2" "idleproc ?k3 = idleproc k" "initproc ?k3 = initproc k"
    "current ?k3 = current k" "held ?k3 = held k - {RProc p, RKstack (kstack (procs k p))}"
    "files_count ?k3 = files_count k" "mm_count ?k3 = mm_count k" "mm_pgdir ?k3 = mm_pgdir k"
    using f2 by (auto simp: drop_res_def put_kstack_def fl links_frame_def)
  have s: "set (proc_list k2) = set (proc_list k) - {p}" using ids(2) by (simp add: k2(2))
  then have m: "members ?k3 = members k - {p}" using pi by (auto simp: members_def l3)
  have "ids_ok k2" by (rule remove_ids [OF ids(1) p(1) k2(2,3,4) f2])
  then have ids3: "ids_ok ?k3" by (subst ids_cong [where k = k2]) (simp_all add: drop_res_def put_kstack_def)
  have rr3: "rr_ok ?k3"
  proof (rule rr_ok_local)
    show "rr_ok k2" by (rule links_frame_rr [OF f2]) (use base in \<open>simp add: base_ok_def\<close>)
  qed (simp_all add: drop_res_def put_kstack_def)
  have u: "users ?k3 filesp r = users k filesp r" "users ?k3 mm r = users k mm r" for r
    using p(2) by (auto simp: users_def m l3(1) fl fr(3))
  have res3: "res_ok ?k3"
    using base unfolding base_ok_def res_ok_def u m l3 fl fr(3) by auto
  have rest: "\<forall>q \<in> members k - {p}. wait_state (procs k q) \<noteq> 0 \<longrightarrow> state (procs k q) = PROC_SLEEPING"
    "\<forall>q. q \<notin> members k - {p} \<longrightarrow> state (procs k q) \<noteq> PROC_RUNNABLE"
    using base p(2) by (auto simp: base_ok_def)
  have "base_ok ?k3"
    unfolding base_ok_def m l3 s fr using ids3 rr3 res3 rest base pi(2) by (simp add: base_ok_def)
  moreover have "\<exists>ch'. tree_ok ?k3 ch'"
    using k2(6) tree_cong [of ?k3 k2] by (auto simp: drop_res_def put_kstack_def)
  moreover have "\<forall>q \<in> members k - {p}. state (procs k q) = PROC_ZOMBIE \<longrightarrow> cptr (procs k2 q) = None"
    using ok leaves by (simp add: proc_ok_def)
  moreover have "current k \<in> members k - {p}" using cm p(2) by auto
  ultimately have "proc_ok ?k3"
    unfolding proc_ok_def m l3 fr using cm(2) by simp
  moreover have "wait_found p k = Some (Reaped (exit_code (procs k p)), ?k3)"
    using pi k2(1) by (simp add: wait_found_def Let_def kassert_def)
  ultimately show thesis using pw m l3 fr(3) by (intro that [of ?k3]) simp_all
qed

text \<open>The running process goes to sleep.\<close>

lemma sleep_ok:
  assumes ok: "proc_ok k" and c: "current k \<noteq> idleproc k"
  obtains k' where "schedule default_sched_class (upd_proc (current k) (\<lambda>x. x\<lparr>state := PROC_SLEEPING, wait_state := w\<rparr>) k) = Some k'"
    and "proc_ok k'" and "members k' = members k" and "held k' = held k" and "idleproc k' = idleproc k" "initproc k' = initproc k"
    and "\<forall>q. pown (procs k' q) = pown (procs k q) \<and> parent (procs k' q) = parent (procs k q) \<and>
      state (procs k' q) = (if q = current k then PROC_SLEEPING else state (procs k q)) \<and>
      wait_state (procs k' q) = (if q = current k then w else wait_state (procs k q))"
proof -
  let ?k = "upd_proc (current k) (\<lambda>x. x\<lparr>state := PROC_SLEEPING, wait_state := w\<rparr>) k"
  have base: "base_ok k" and cm: "current k \<in> members k" "state (procs k (current k)) = PROC_RUNNABLE"
    using ok by (simp_all add: proc_ok_def)
  obtain ch where tree: "tree_ok k ch" using ok by (auto simp: proc_ok_def)
  have l: "members ?k = members k" by (simp add: members_def)
  have tree1: "tree_ok ?k ch" using tree_cong [of ?k k ch] tree by simp
  have "ids_ok ?k" using base ids_cong [of ?k k] by (simp add: base_ok_def)
  moreover have "rr_ok ?k" by (rule rr_ok_local [of k]) (use base in \<open>simp_all add: base_ok_def\<close>)
  moreover have "res_ok ?k" by (rule res_ok_cong [of k]) (use base cm in \<open>auto simp: base_ok_def l\<close>)
  ultimately have base1: "base_ok ?k" using base cm c unfolding base_ok_def l by auto
  have z: "\<forall>p \<in> members ?k. state (procs ?k p) = PROC_ZOMBIE \<longrightarrow> cptr (procs ?k p) = None"
    using ok by (simp add: proc_ok_def l)
  obtain k' where k': "schedule default_sched_class ?k = Some k'" "proc_ok k'" and f: "core_frame ?k k'"
    and s: "\<forall>q. state (procs k' q) = state (procs ?k q) \<and> wait_state (procs k' q) = wait_state (procs ?k q)"
    by (rule base_sched [OF base1 tree1 z])
  note fr = core_frameD [OF f]
  show thesis by (rule that [OF k']) (use s in \<open>simp_all add: fr l pown_def\<close>)
qed

lemma wait_round_ok:
  assumes ok: "proc_ok k" and c: "current k \<noteq> idleproc k"
  shows "\<exists>r k'. wait_round default_sched_class i k = Some (r, k') \<and> proc_ok k' \<and>
    idleproc k' = idleproc k \<and> initproc k' = initproc k \<and> (\<forall>q. pown (procs k' q) = pown (procs k q)) \<and>
    (if wait_kids i k = {} then r = WaitError (- E_BAD_PROC) \<and> k' = k
     else if \<forall>p \<in> wait_kids i k. state (procs k p) \<noteq> PROC_ZOMBIE
     then r = Waiting \<and> members k' = members k \<and> held k' = held k \<and>
       state (procs k' (current k)) = PROC_SLEEPING \<and> wait_state (procs k' (current k)) = WT_CHILD
     else \<exists>p \<in> wait_kids i k. state (procs k p) = PROC_ZOMBIE \<and> r = Reaped (exit_code (procs k p)) \<and>
       members k' = members k - {p} \<and> current k' = current k \<and>
       held k' = held k - {RProc p, RKstack (kstack (procs k p))})"
proof -
  obtain z where z: "wait_search i k = Some (wait_kids i k \<noteq> {}, z)"
    and zc: "case z of Some p \<Rightarrow> p \<in> wait_kids i k \<and> state (procs k p) = PROC_ZOMBIE
      | None \<Rightarrow> \<forall>p \<in> wait_kids i k. state (procs k p) \<noteq> PROC_ZOMBIE"
    by (rule wait_search_ok [OF ok])
  show ?thesis
  proof (cases z)
    case (Some p)
    then have p: "p \<in> wait_kids i k" "p \<in> set (proc_list k)" "state (procs k p) = PROC_ZOMBIE"
      using zc by (simp_all add: wait_kids_def)
    obtain k' where k': "wait_found p k = Some (Reaped (exit_code (procs k p)), k')" "proc_ok k'"
      "members k' = members k - {p}" "current k' = current k"
      "held k' = held k - {RProc p, RKstack (kstack (procs k p))}"
      "\<forall>q. pown (procs k' q) = pown (procs k q) \<and> state (procs k' q) = state (procs k q)"
      "idleproc k' = idleproc k" "initproc k' = initproc k"
      by (rule wait_found_ok [OF ok p(2,3)])
    have "wait_round default_sched_class i k = Some (Reaped (exit_code (procs k p)), k')"
      using z k'(1) Some by (simp add: wait_round_def)
    moreover have "wait_kids i k \<noteq> {}" "\<not> (\<forall>p \<in> wait_kids i k. state (procs k p) \<noteq> PROC_ZOMBIE)"
      using p by blast+
    ultimately show ?thesis using k' p
      by (intro exI [of _ "Reaped (exit_code (procs k p))"] exI [of _ k']) (simp, blast)
  next
    case None
    show ?thesis
    proof (cases "wait_kids i k = {}")
      case True
      then show ?thesis using z None ok by (simp add: wait_round_def)
    next
      case False
      obtain k' where k': "schedule default_sched_class (upd_proc (current k) (\<lambda>x. x\<lparr>state := PROC_SLEEPING, wait_state := WT_CHILD\<rparr>) k) = Some k'"
        "proc_ok k'" "members k' = members k" "held k' = held k" "idleproc k' = idleproc k" "initproc k' = initproc k"
        and s: "\<forall>q. pown (procs k' q) = pown (procs k q) \<and> parent (procs k' q) = parent (procs k q) \<and>
          state (procs k' q) = (if q = current k then PROC_SLEEPING else state (procs k q)) \<and>
          wait_state (procs k' q) = (if q = current k then WT_CHILD else wait_state (procs k q))"
        by (rule sleep_ok [OF ok c])
      have "wait_round default_sched_class i k = Some (Waiting, k')"
        using z k'(1) None False by (simp add: wait_round_def)
      moreover have "\<forall>p \<in> wait_kids i k. state (procs k p) \<noteq> PROC_ZOMBIE" using zc None by simp
      ultimately show ?thesis using k' s False by (intro exI [of _ Waiting] exI [of _ k']) simp
    qed
  qed
qed

section \<open>Other operations\<close>

text \<open>A wake-up of a process that has not ended.\<close>

lemma proc_wake:
  assumes ok: "proc_ok k" and p: "p \<in> members k" "state (procs k p) \<noteq> PROC_ZOMBIE"
  obtains k' where "wakeup_proc default_sched_class p k = Some k'" and "proc_ok k'" and "core_frame k k'"
    and "current k' = current k" and "state (procs k' p) = PROC_RUNNABLE"
    and "\<forall>q. q \<noteq> p \<longrightarrow> state (procs k' q) = state (procs k q)"
proof -
  have base: "base_ok k" and rr: "rr_ok k" using ok by (simp_all add: proc_ok_def base_ok_def)
  obtain k' where k': "wakeup_proc default_sched_class p k = Some k'" "rr_ok k'" "core_frame k k'"
    "current k' = current k" "state (procs k' p) = PROC_RUNNABLE"
    "wait_state (procs k' p) = (if state (procs k p) = PROC_RUNNABLE then wait_state (procs k p) else 0)"
    "\<forall>q. q \<noteq> p \<longrightarrow> state (procs k' q) = state (procs k q) \<and> wait_state (procs k' q) = wait_state (procs k q)"
    by (rule wake_ok [OF rr p(2)])
  note fr = core_frameD [OF k'(3)]
  have "base_ok k'" by (rule base_wake [OF base p k'(2,3,5,6,7)])
  moreover have "\<exists>ch. tree_ok k' ch" using ok core_frame_tree [OF k'(3)] by (simp add: proc_ok_def)
  moreover have st: "state (procs k' q) = (if q = p then PROC_RUNNABLE else state (procs k q))" for q
    using k'(5,7) by simp
  ultimately have "proc_ok k'" using ok by (simp add: proc_ok_def fr st k'(4))
  then show thesis using that k' by simp
qed

lemma rr_ok_same:
  assumes ok: "rr_ok k" and l: "run_list k' = run_list k" "proc_num k' = proc_num k" "current k' = current k"
      "idleproc k' = idleproc k"
    and f: "\<And>q. q \<in> set (run_list k) \<Longrightarrow> rq (procs k' q) = rq (procs k q)"
    and s: "\<And>q. q \<noteq> current k \<Longrightarrow> (state (procs k' q) = PROC_RUNNABLE) = (state (procs k q) = PROC_RUNNABLE)"
  shows "rr_ok k'"
proof -
  have "{p. state (procs k' p) = PROC_RUNNABLE} - {current k, idleproc k} =
      {p. state (procs k p) = PROC_RUNNABLE} - {current k, idleproc k}" using s by auto
  then show ?thesis using ok f by (simp add: rr_ok_def RR_inv_def sched_ok_def RR_queued_def l)
qed

text \<open>A change of fields that the invariant does not speak about.\<close>

lemma proc_ok_upd:
  assumes ok: "proc_ok k"
    and f: "\<And>x. pid (f x) = pid x" "\<And>x. parent (f x) = parent x" "\<And>x. cptr (f x) = cptr x" "\<And>x. yptr (f x) = yptr x"
      "\<And>x. optr (f x) = optr x" "\<And>x. mm (f x) = mm x" "\<And>x. filesp (f x) = filesp x" "\<And>x. state (f x) = state x"
      "\<And>x. wait_state (f x) = wait_state x" "\<And>x. rq (f x) = rq x"
  shows "proc_ok (upd_proc p f k)"
proof -
  let ?k = "upd_proc p f k"
  have base: "base_ok k" using ok by (simp add: proc_ok_def)
  have l: "members ?k = members k" by (simp add: members_def)
  have tree: "tree_ok ?k = tree_ok k" by (rule ext, rule tree_cong) (simp_all add: f)
  have same: "state (procs ?k q) = state (procs k q)" "wait_state (procs ?k q) = wait_state (procs k q)"
    "parent (procs ?k q) = parent (procs k q)" "cptr (procs ?k q) = cptr (procs k q)" for q by (simp_all add: f)
  have "ids_ok ?k" using base ids_cong [of ?k k] by (simp add: base_ok_def f)
  moreover have "rr_ok ?k" by (rule rr_ok_same [of k]) (use base in \<open>simp_all add: base_ok_def f\<close>)
  moreover have "res_ok ?k" by (rule res_ok_cong [of k]) (use base in \<open>auto simp: base_ok_def l f\<close>)
  ultimately show ?thesis using ok unfolding proc_ok_def base_ok_def l same tree by simp
qed

lemma do_kill_ok:
  assumes ok: "proc_ok k"
  shows "\<exists>r k'. do_kill default_sched_class i k = Some (r, k') \<and> proc_ok k' \<and> members k' = members k \<and> held k' = held k \<and>
    current k' = current k \<and> idleproc k' = idleproc k \<and> initproc k' = initproc k \<and>
    (case find_proc i k of
       None \<Rightarrow> r = - E_INVAL \<and> k' = k
     | Some p \<Rightarrow>
         if pflags (procs k p) AND PF_EXITING = 0 then
           r = 0 \<and> pflags (procs k' p) = pflags (procs k p) OR PF_EXITING \<and>
           state (procs k' p) = (if wait_state (procs k p) AND WT_INTERRUPTED \<noteq> 0 then PROC_RUNNABLE
             else state (procs k p)) \<and>
           (\<forall>q. q \<noteq> p \<longrightarrow> state (procs k' q) = state (procs k q) \<and> pflags (procs k' q) = pflags (procs k q))
         else r = - E_KILLED \<and> k' = k)"
proof (cases "find_proc i k")
  case None
  then show ?thesis using ok by (simp add: do_kill_def)
next
  case (Some p)
  have base: "base_ok k" using ok by (simp add: proc_ok_def)
  have p: "p \<in> set (proc_list k)" using base find_proc_iff Some by (auto simp: base_ok_def)
  show ?thesis
  proof (cases "pflags (procs k p) AND PF_EXITING = 0")
    case False
    then show ?thesis using Some ok by (simp add: do_kill_def)
  next
    case True
    let ?k = "upd_proc p (\<lambda>x. x\<lparr>pflags := pflags x OR PF_EXITING\<rparr>) k"
    have ok1: "proc_ok ?k" by (rule proc_ok_upd [OF ok]) simp_all
    have m: "members ?k = members k" by (simp add: members_def)
    show ?thesis
    proof (cases "wait_state (procs k p) AND WT_INTERRUPTED \<noteq> 0")
      case False
      then show ?thesis using Some True ok1 m
        by (intro exI [of _ 0] exI [of _ ?k]) (simp add: do_kill_def Let_def)
    next
      case w: True
      then have "wait_state (procs k p) \<noteq> 0" by auto
      then have "state (procs k p) = PROC_SLEEPING" using base p by (simp add: base_ok_def members_def)
      then have nz: "state (procs ?k p) \<noteq> PROC_ZOMBIE" by simp
      have pm: "p \<in> members ?k" using p by (simp add: m members_def)
      obtain k' where k': "wakeup_proc default_sched_class p ?k = Some k'" "proc_ok k'" "core_frame ?k k'"
        "current k' = current ?k" "state (procs k' p) = PROC_RUNNABLE"
        "\<forall>q. q \<noteq> p \<longrightarrow> state (procs k' q) = state (procs ?k q)"
        by (rule proc_wake [OF ok1 pm nz])
      have "do_kill default_sched_class i k = Some (0, k')"
        using Some True w k'(1) by (simp add: do_kill_def Let_def)
      then show ?thesis using Some True w k' m
        by (intro exI [of _ 0] exI [of _ k']) (simp add: core_frameD [OF k'(3)])
    qed
  qed
qed

lemma do_yield_ok: "proc_ok k \<Longrightarrow> proc_ok (snd (do_yield k))"
  unfolding do_yield_def snd_conv by (rule proc_ok_upd) simp_all

lemma lab6_set_priority_ok: "proc_ok k \<Longrightarrow> proc_ok (lab6_set_priority priority k)"
  unfolding lab6_set_priority_def by (rule proc_ok_upd) simp_all

end
