(* ===== verification/ProcFork.thy ===== *)
theory ProcFork
  imports ProcWait
begin

text \<open>
  \<open>do_fork\<close>: a fork that finds all its memory puts a new process with a fresh identifier into the
  table, and one that fails gives back everything it took.
\<close>

section \<open>Before the new process is visible\<close>

text \<open>What a fork changes before it links the new process \<open>p\<close>: the process itself, which no other
  process sees yet, and the resources.\<close>

definition fork_frame :: "proc_ptr \<Rightarrow> ptab \<Rightarrow> ptab \<Rightarrow> bool" where
  "fork_frame p k k' \<longleftrightarrow> current k' = current k \<and> idleproc k' = idleproc k \<and> initproc k' = initproc k \<and>
     run_list k' = run_list k \<and> proc_num k' = proc_num k \<and> proc_list k' = proc_list k \<and>
     pid_hash k' = pid_hash k \<and> nr_process k' = nr_process k \<and> next_safe k' = next_safe k \<and>
     last_pid k' = last_pid k \<and> (\<forall>q. q \<noteq> p \<longrightarrow> procs k' q = procs k q)"

lemma fork_frame_refl [simp]: "fork_frame p k k"
  by (simp add: fork_frame_def)

lemma fork_frame_trans: "fork_frame p k1 k2 \<Longrightarrow> fork_frame p k2 k3 \<Longrightarrow> fork_frame p k1 k3"
  by (simp add: fork_frame_def)

lemma fork_frame_upd: "fork_frame p k k' \<Longrightarrow> fork_frame p k (upd_proc p f k')"
  by (simp add: fork_frame_def)

lemma fork_frameD:
  assumes "fork_frame p k k'"
  shows "members k' = members k" "current k' = current k" "idleproc k' = idleproc k" "initproc k' = initproc k"
    "nr_process k' = nr_process k" "q \<noteq> p \<Longrightarrow> procs k' q = procs k q"
  using assms by (simp_all add: fork_frame_def members_def)

lemma fork_frame_member:
  "fork_frame p k k' \<Longrightarrow> p \<notin> members k \<Longrightarrow> q \<in> members k \<Longrightarrow> procs k' q = procs k q"
  by (auto simp: fork_frame_def)

lemma fork_frame_users:
  assumes f: "fork_frame p k k'" and p: "p \<notin> members k"
  shows "users k' sel r = users k sel r"
proof -
  have "q \<in> members k \<Longrightarrow> procs k' q = procs k q" for q using f p by (auto simp: fork_frame_def)
  then show ?thesis by (auto simp: users_def fork_frameD(1) [OF f])
qed

lemma tree_outside:
  assumes tree: "tree_ok k ch" and l: "proc_list k' = proc_list k" "idleproc k' = idleproc k"
    and f: "\<And>q. q \<in> members k \<Longrightarrow> parent (procs k' q) = parent (procs k q) \<and> cptr (procs k' q) = cptr (procs k q) \<and>
      yptr (procs k' q) = yptr (procs k q) \<and> optr (procs k' q) = optr (procs k q)"
  shows "tree_ok k' ch"
proof -
  have m: "members k' = members k" "\<And>q. q \<in> set (proc_list k) \<Longrightarrow> q \<in> members k" by (simp_all add: members_def l)
  have "family (procs k') s (ch q) = family (procs k) s (ch q)" if "q \<in> members k" for q s
  proof (rule family_cong)
    fix x assume "x \<in> set (ch q)"
    then have "x \<in> set (proc_list k)" using tree that by (auto simp: tree_ok_def)
    then show "yptr (procs k' x) = yptr (procs k x) \<and> optr (procs k' x) = optr (procs k x)" using f m(2) by simp
  qed
  then show ?thesis using tree f m(2) unfolding tree_ok_def m(1) l by auto
qed

lemma fork_frame_ok:
  assumes ok: "proc_ok k" and f: "fork_frame p k k'" and p: "p \<notin> members k" "state (procs k' p) \<noteq> PROC_RUNNABLE"
    and res: "res_ok k'"
  shows "proc_ok k'"
proof -
  have base: "base_ok k" and cm: "current k \<in> members k" using ok by (simp_all add: proc_ok_def)
  have pr: "procs k' q = procs k q" if "q \<noteq> p" for q using f that by (simp add: fork_frame_def)
  have mem: "q \<noteq> p" if "q \<in> members k" for q using that p by auto
  have ll: "q \<noteq> p" if "q \<in> set (proc_list k)" for q using that p by (auto simp: members_def)
  have np: "state (procs k p) \<noteq> PROC_RUNNABLE" using base p(1) by (simp add: base_ok_def)
  have rr: "rr_ok k'"
  proof (rule rr_ok_same)
    show "rr_ok k" using base by (simp add: base_ok_def)
    fix q
    show "rq (procs k' q) = rq (procs k q)" if q: "q \<in> set (run_list k)"
    proof -
      have "state (procs k q) = PROC_RUNNABLE"
        using base q by (auto simp: base_ok_def rr_ok_def sched_ok_def RR_queued_def)
      then show ?thesis using np pr [of q] by (cases "q = p") auto
    qed
    show "(state (procs k' q) = PROC_RUNNABLE) = (state (procs k q) = PROC_RUNNABLE)"
      using pr [of q] np p(2) by (cases "q = p") auto
  qed (use f in \<open>simp_all add: fork_frame_def\<close>)
  have ids: "ids_ok k'"
  proof -
    have "pid (procs k' q) = pid (procs k q)" if "q \<in> set (proc_list k)" for q using pr ll [OF that] by simp
    then have "ids_ok k' = ids_ok k"
      using f by (auto simp: ids_ok_def pid_ok_def fork_frame_def inj_on_def)
    then show ?thesis using base by (simp add: base_ok_def)
  qed
  obtain ch where tree: "tree_ok k ch" using ok by (auto simp: proc_ok_def)
  have "tree_ok k' ch" by (rule tree_outside [OF tree]) (use f pr mem in \<open>simp_all add: fork_frame_def\<close>)
  moreover have "base_ok k'"
  proof -
    have "initproc k \<noteq> p" "idleproc k \<noteq> p" using base p(1) by (auto simp: base_ok_def members_def)
    moreover have "state (procs k' q) \<noteq> PROC_RUNNABLE" if "q \<notin> members k" for q
      using that base pr [of q] p(2) by (cases "q = p") (auto simp: base_ok_def)
    moreover have "proc_list k' = proc_list k" using f by (simp add: fork_frame_def)
    ultimately show ?thesis
      using base ids rr res pr mem unfolding base_ok_def fork_frameD [OF f] by auto
  qed
  ultimately show ?thesis
    using ok pr mem cm unfolding proc_ok_def fork_frameD [OF f] by auto
qed

text \<open>The address space and the files that the new process has taken, with the resources \<open>R\<close> that it
  alone uses.\<close>

definition mm_ready :: "ptab \<Rightarrow> proc_ptr \<Rightarrow> resource set \<Rightarrow> bool" where
  "mm_ready k p R \<longleftrightarrow> (case mm (procs k p) of
     None \<Rightarrow> R = {}
   | Some m \<Rightarrow> RMm m \<in> held k \<and> KERNBASE \<le> mm_pgdir k m \<and> int (card (users k mm m)) + 1 \<le> mm_count k m \<and>
       (if R = {} then users k mm m \<noteq> {}
        else mm_count k m = 1 \<and> R = {RMm m, RPgdir (mm_pgdir k m), RMmap m}))"

definition files_ready :: "ptab \<Rightarrow> proc_ptr \<Rightarrow> bool" where
  "files_ready k p \<longleftrightarrow> (case filesp (procs k p) of
     None \<Rightarrow> False
   | Some f \<Rightarrow> RFiles f \<in> held k \<and> int (card (users k filesp f)) + 1 \<le> files_count k f)"

text \<open>What the allocators promise: an object they return is not in use.\<close>

definition mm_fresh :: "fork_env \<Rightarrow> ptab \<Rightarrow> bool" where
  "mm_fresh e k \<longleftrightarrow> (\<forall>m. fe_mm e = Some m \<longrightarrow> RMm m \<notin> held k \<and> RMmap m \<notin> held k) \<and>
     (\<forall>pg. fe_pgdir e = Some pg \<longrightarrow> RPgdir pg \<notin> held k \<and> KERNBASE \<le> pg)"

definition fork_fresh :: "fork_env \<Rightarrow> ptab \<Rightarrow> bool" where
  "fork_fresh e k \<longleftrightarrow>
     (\<forall>p. fe_proc e = Some p \<longrightarrow> RProc p \<notin> held k) \<and>
     (\<forall>s. fe_kstack e = Some s \<longrightarrow> RKstack s \<notin> held k) \<and> mm_fresh e k \<and>
     (\<forall>f. fe_files e = Some f \<longrightarrow> RFiles f \<notin> held k)"

definition erase_mm :: "proc_struct \<Rightarrow> proc_struct" where
  "erase_mm x = x\<lparr>mm := None, pgdir := 0\<rparr>"

lemma users_current:
  assumes "proc_ok k" and "sel (procs k (current k)) = Some r"
  shows "current k \<in> users k sel r" and "1 \<le> int (card (users k sel r))"
proof -
  show c: "current k \<in> users k sel r" using assms by (simp add: users_def proc_ok_def)
  then have "0 < card (users k sel r)" by (auto simp: card_gt_0_iff)
  then show "1 \<le> int (card (users k sel r))" by simp
qed

lemma fork_frame_res:
  assumes ok: "res_ok k" and f: "fork_frame p k k'" and p: "p \<notin> members k" and h: "held k \<subseteq> held k'"
    and fc: "\<And>r. if users k filesp r = {} then 0 \<le> files_count k' r else files_count k r \<le> files_count k' r"
    and mc: "\<And>r. if users k mm r = {} then 0 \<le> mm_count k' r
      else mm_count k r \<le> mm_count k' r \<and> mm_pgdir k' r = mm_pgdir k r"
  shows "res_ok k'"
proof -
  note u = fork_frame_users [OF f p]
  have m: "members k' = members k" and pr: "q \<in> members k \<Longrightarrow> procs k' q = procs k q" for q
    using f p fork_frameD(1) [OF f] by (auto simp: fork_frame_def)
  have "int (card (users k filesp r)) \<le> files_count k' r" for r
  proof -
    have "int (card (users k filesp r)) \<le> files_count k r" using ok by (simp add: res_ok_def)
    then show ?thesis using fc [of r] by (cases "users k filesp r = {}") simp_all
  qed
  moreover have "int (card (users k mm r)) \<le> mm_count k' r" for r
  proof -
    have "int (card (users k mm r)) \<le> mm_count k r" using ok by (simp add: res_ok_def)
    then show ?thesis using mc [of r] by (cases "users k mm r = {}") simp_all
  qed
  moreover have "RMm r \<in> held k' \<and> KERNBASE \<le> mm_pgdir k' r" if "users k mm r \<noteq> {}" for r
    using ok mc [of r] that h by (auto simp: res_ok_def)
  moreover have "RFiles r \<in> held k'" if "users k filesp r \<noteq> {}" for r
    using ok that h by (auto simp: res_ok_def)
  moreover have "\<forall>q \<in> members k'. RProc q \<in> held k'" "\<forall>q \<in> members k'. state (procs k' q) \<noteq> PROC_ZOMBIE \<longrightarrow> filesp (procs k' q) \<noteq> None"
    using ok h by (auto simp: res_ok_def m pr)
  ultimately show ?thesis by (simp add: res_ok_def u)
qed

lemma fresh_users:
  assumes "res_ok k"
  shows "RMm m \<notin> held k \<Longrightarrow> users k mm m = {}" and "RFiles f \<notin> held k \<Longrightarrow> users k filesp f = {}"
  using assms by (auto simp: res_ok_def)

text \<open>What a fork takes for the address space and for the files of the new process \<open>p\<close>: with \<open>CLONE_VM\<close>
  (\<open>CLONE_FS\<close>) one more reference to those of the running process, otherwise new ones with one reference.\<close>

definition mm_copied :: "fork_env \<Rightarrow> u32 \<Rightarrow> ptab \<Rightarrow> ptab \<Rightarrow> proc_ptr \<Rightarrow> resource set \<Rightarrow> bool" where
  "mm_copied e fl k k' p R \<longleftrightarrow> (case mm (procs k (current k)) of
     None \<Rightarrow> R = {} \<and> mm (procs k' p) = None \<and> mm_count k' = mm_count k \<and> mm_pgdir k' = mm_pgdir k
   | Some old \<Rightarrow>
       if fl AND CLONE_VM \<noteq> 0
       then R = {} \<and> mm (procs k' p) = Some old \<and> mm_count k' = (mm_count k)(old := mm_count k old + 1) \<and>
         mm_pgdir k' = mm_pgdir k
       else \<exists>m pg. fe_mm e = Some m \<and> fe_pgdir e = Some pg \<and> R = {RMm m, RPgdir pg, RMmap m} \<and>
         mm (procs k' p) = Some m \<and> mm_count k' = (mm_count k)(m := 1) \<and> mm_pgdir k' = (mm_pgdir k)(m := pg))"

definition files_copied :: "fork_env \<Rightarrow> u32 \<Rightarrow> ptab \<Rightarrow> ptab \<Rightarrow> proc_ptr \<Rightarrow> resource set \<Rightarrow> bool" where
  "files_copied e fl k k' p F \<longleftrightarrow>
     (if fl AND CLONE_FS \<noteq> 0
      then \<exists>old. filesp (procs k (current k)) = Some old \<and> F = {} \<and> filesp (procs k' p) = Some old \<and>
        files_count k' = (files_count k)(old := files_count k old + 1)
      else \<exists>f. fe_files e = Some f \<and> F = {RFiles f} \<and> filesp (procs k' p) = Some f \<and>
        files_count k' = (files_count k)(f := 1))"

text \<open>The address spaces and file tables in use keep their counts.\<close>

definition counts_kept :: "ptab \<Rightarrow> ptab \<Rightarrow> bool" where
  "counts_kept k k' \<longleftrightarrow>
     (\<forall>m. RMm m \<in> held k \<longrightarrow> mm_count k' m = mm_count k m \<and> mm_pgdir k' m = mm_pgdir k m) \<and>
     (\<forall>f. RFiles f \<in> held k \<longrightarrow> files_count k' f = files_count k f)"

lemma copy_mm_ok:
  assumes ok: "proc_ok k" and p: "p \<notin> members k" and none: "mm (procs k p) = None" and fresh: "mm_fresh e k"
  obtains r k' R where "copy_mm e fl p k = Some (r, k')" and "fork_frame p k k'" and "res_ok k'"
    and "filesp (procs k' p) = filesp (procs k p)" and "files_count k' = files_count k"
    and "erase_mm (procs k' p) = erase_mm (procs k p)"
    and "held k' = held k \<union> R" and "R \<inter> held k = {}" and "\<forall>x. RFiles x \<notin> R \<and> RProc x \<notin> R \<and> RKstack x \<notin> R"
    and "r \<noteq> 0 \<longrightarrow> R = {} \<and> mm (procs k' p) = None" and "r = 0 \<longrightarrow> mm_ready k' p R"
    and "r = 0 \<longleftrightarrow> mm (procs k (current k)) = None \<or> fl AND CLONE_VM \<noteq> 0 \<or>
      fe_mm e \<noteq> None \<and> fe_pgdir e \<noteq> None \<and> fe_dup_mmap e = 0"
    and "r \<noteq> 0 \<longrightarrow> counts_kept k k'" and "r = 0 \<longrightarrow> mm_copied e fl k k' p R"
proof -
  note result = that
  let ?c = "current k"
  have res: "res_ok k" using ok by (simp add: proc_ok_def base_ok_def)
  have pc: "p \<noteq> ?c" using ok p by (auto simp: proc_ok_def)
  have mc0: "0 \<le> mm_count k r" "0 \<le> files_count k r" for r using res by (auto simp: res_ok_def intro: order_trans [OF of_nat_0_le_iff])
  show thesis
  proof (cases "mm (procs k ?c)")
    case None
    show thesis by (rule result [of 0 k "{}"]) (use None none res in \<open>simp_all add: copy_mm_def mm_ready_def mm_copied_def\<close>)
  next
    case old: (Some old)
    note uc = users_current [where sel = mm, OF ok old]
    have o: "RMm old \<in> held k" "KERNBASE \<le> mm_pgdir k old" "int (card (users k mm old)) \<le> mm_count k old"
      using res uc by (auto simp: res_ok_def)
    let ?good = "\<lambda>m k. upd_proc p (\<lambda>x. x\<lparr>mm := Some m, pgdir := mm_pgdir k m - PHYSICAL_MEMORY_OFFSET\<rparr>)
      (k\<lparr>mm_count := (mm_count k)(m := mm_count k m + 1)\<rparr>)"
    show thesis
    proof (cases "fl AND CLONE_VM \<noteq> 0")
      case True
      let ?k = "?good old k"
      have f: "fork_frame p k ?k" by (rule fork_frame_upd) (simp add: fork_frame_def)
      have run: "copy_mm e fl p k = Some (0, ?k)"
        using old True o(2) by (simp add: copy_mm_def PADDR_def kassert_def Let_def)
      have r: "res_ok ?k" by (rule fork_frame_res [OF res f p]) (use mc0 in auto)
      have rd: "mm_ready ?k p {}"
        using o uc by (auto simp: mm_ready_def fork_frame_users [OF f p])
      show thesis by (rule result [OF run f r, of "{}"]) (simp_all add: erase_mm_def rd True mm_copied_def old)
    next
      case share: False
      show thesis
      proof (cases "fe_mm e")
        case None
        show thesis by (rule result [of "- E_NO_MEM" k "{}"])
          (use None share old none res in \<open>simp_all add: copy_mm_def E_NO_MEM_def counts_kept_def\<close>)
      next
        case (Some m)
        have fm: "RMm m \<notin> held k" "RMmap m \<notin> held k" using fresh Some by (simp_all add: mm_fresh_def)
        have um: "users k mm m = {}" by (rule fresh_users(1) [OF res fm(1)])
        let ?R = "\<lambda>pg. {RMm m, RPgdir pg, RMmap m}"
        let ?k1 = "(hold {RMm m} k)\<lparr>mm_count := (mm_count k)(m := 0)\<rparr>"
        show thesis
        proof (cases "fe_pgdir e")
          case None
          let ?k = "drop_res {RMm m} ?k1"
          have f: "fork_frame p k ?k" by (simp add: fork_frame_def drop_res_def hold_def)
          have run: "copy_mm e fl p k = Some (- E_NO_MEM, ?k)"
            using old share Some None by (simp add: copy_mm_def setup_pgdir_def Let_def E_NO_MEM_def)
          have h: "held ?k = held k" using fm by (auto simp: drop_res_def hold_def)
          have r: "res_ok ?k" by (rule fork_frame_res [OF res f p]) (use mc0 um in \<open>auto simp: drop_res_def hold_def fm\<close>)
          have ck: "counts_kept k ?k" using fm by (auto simp: counts_kept_def drop_res_def hold_def)
          show thesis by (rule result [OF run f r, of "{}"]) (simp_all add: h none E_NO_MEM_def old share None ck, simp_all add: drop_res_def hold_def none)
        next
          case pg: (Some pg)
          have fp: "RPgdir pg \<notin> held k" "KERNBASE \<le> pg" using fresh pg by (simp_all add: mm_fresh_def)
          let ?k2 = "hold {RMmap m} ((hold {RPgdir pg} ?k1)\<lparr>mm_pgdir := (mm_pgdir k)(m := pg)\<rparr>)"
          have f2: "fork_frame p k ?k2" by (simp add: fork_frame_def hold_def)
          have r2: "res_ok ?k2" by (rule fork_frame_res [OF res f2 p]) (use mc0 um in \<open>auto simp: hold_def\<close>)
          have h2: "held ?k2 = held k \<union> ?R pg" by (auto simp: hold_def)
          show thesis
          proof (cases "fe_dup_mmap e = 0")
            case True
            let ?k = "?good m ?k2"
            have run: "copy_mm e fl p k = Some (0, ?k)"
              using old share Some pg True fp(2)
              by (simp add: copy_mm_def setup_pgdir_def Let_def PADDR_def kassert_def hold_def)
            have f: "fork_frame p k ?k" by (rule fork_frame_upd) (simp add: fork_frame_def hold_def)
            have r: "res_ok ?k" by (rule fork_frame_res [OF res f p]) (use mc0 um in \<open>auto simp: hold_def\<close>)
            have rd: "mm_ready ?k p (?R pg)"
              using fp(2) um by (simp add: mm_ready_def fork_frame_users [OF f p], simp add: hold_def)
            have mc: "mm_copied e fl k ?k p (?R pg)" using old share Some pg by (simp add: mm_copied_def hold_def)
            show thesis
              by (rule result [OF run f r, of "?R pg"]) (use fm fp rd mc Some pg True in \<open>auto simp: erase_mm_def hold_def\<close>)
          next
            case False
            let ?k = "drop_res {RMm m} (put_pgdir m (drop_res {RMmap m} ?k2))"
            have run: "copy_mm e fl p k = Some (fe_dup_mmap e, ?k)"
              using old share Some pg False by (simp add: copy_mm_def setup_pgdir_def Let_def hold_def)
            have f: "fork_frame p k ?k" by (simp add: fork_frame_def drop_res_def put_pgdir_def hold_def)
            have h: "held ?k = held k" using fm fp by (auto simp: drop_res_def put_pgdir_def hold_def)
            have r: "res_ok ?k"
              by (rule fork_frame_res [OF res f p]) (use mc0 um fm fp in \<open>auto simp: h, auto simp: drop_res_def put_pgdir_def hold_def\<close>)
            have ck: "counts_kept k ?k" using fm by (auto simp: counts_kept_def drop_res_def put_pgdir_def hold_def)
            show thesis
              by (rule result [OF run f r, of "{}"]) (simp_all add: h none False old share ck, simp_all add: drop_res_def put_pgdir_def hold_def none)
          qed
        qed
      qed
    qed
  qed
qed


lemma copy_files_ok:
  assumes ok: "proc_ok k" and p: "p \<notin> members k" and fresh: "\<forall>f. fe_files e = Some f \<longrightarrow> RFiles f \<notin> held k"
  obtains r k' R where "copy_files e fl p k = Some (r, k')" and "fork_frame p k k'" and "res_ok k'"
    and "\<exists>v. procs k' p = (procs k p)\<lparr>filesp := v\<rparr>" and "mm_count k' = mm_count k" and "mm_pgdir k' = mm_pgdir k"
    and "held k' = held k \<union> R" and "R \<subseteq> {RFiles f |f. RFiles f \<notin> held k}"
    and "r \<noteq> 0 \<longrightarrow> R = {} \<and> procs k' p = procs k p" and "r = 0 \<longrightarrow> files_ready k' p"
    and "r = 0 \<longleftrightarrow> fl AND CLONE_FS \<noteq> 0 \<or> fe_files e \<noteq> None \<and> fe_dup_files e = 0"
    and "r \<noteq> 0 \<longrightarrow> counts_kept k k' \<and> r = (if fe_files e = None then - E_NO_MEM else fe_dup_files e)"
    and "r = 0 \<longrightarrow> files_copied e fl k k' p R"
proof -
  note result = that
  let ?c = "current k"
  have res: "res_ok k" and cm: "?c \<in> members k" "state (procs k ?c) = PROC_RUNNABLE"
    using ok by (simp_all add: proc_ok_def base_ok_def)
  have "filesp (procs k ?c) \<noteq> None" using res cm by (simp add: res_ok_def)
  then obtain old where old: "filesp (procs k ?c) = Some old" by blast
  note uc = users_current [where sel = filesp, OF ok old]
  have o: "RFiles old \<in> held k" "int (card (users k filesp old)) \<le> files_count k old"
    using res uc by (auto simp: res_ok_def)
  have mc0: "0 \<le> mm_count k r" "0 \<le> files_count k r" for r using res by (auto simp: res_ok_def intro: order_trans [OF of_nat_0_le_iff])
  have idem: "\<exists>v. procs k p = (procs k p)\<lparr>filesp := v\<rparr>" by (rule exI [of _ "filesp (procs k p)"]) simp
  let ?good = "\<lambda>f k. upd_proc p (\<lambda>x. x\<lparr>filesp := Some f\<rparr>) (k\<lparr>files_count := (files_count k)(f := files_count k f + 1)\<rparr>)"
  show thesis
  proof (cases "fl AND CLONE_FS \<noteq> 0")
    case True
    let ?k = "?good old k"
    have f: "fork_frame p k ?k" by (rule fork_frame_upd) (simp add: fork_frame_def)
    have run: "copy_files e fl p k = Some (0, ?k)" using old True by (simp add: copy_files_def Let_def)
    have r: "res_ok ?k" by (rule fork_frame_res [OF res f p]) (use mc0 in auto)
    have rd: "files_ready ?k p" using o by (simp add: files_ready_def fork_frame_users [OF f p])
    show thesis by (rule result [OF run f r, of "{}"]) (use rd True old in \<open>auto simp: files_copied_def\<close>)
  next
    case False
    show thesis
    proof (cases "fe_files e")
      case None
      show thesis by (rule result [of "- E_NO_MEM" k "{}"])
        (use None False old res idem in \<open>simp_all add: copy_files_def E_NO_MEM_def counts_kept_def\<close>)
    next
      case (Some f)
      have ff: "RFiles f \<notin> held k" using fresh Some by simp
      have uf: "users k filesp f = {}" by (rule fresh_users(2) [OF res ff])
      have fo: "f \<noteq> old" using ff o by auto
      let ?k1 = "(hold {RFiles f} k)\<lparr>files_count := (files_count k)(f := 0)\<rparr>"
      have pos: "files_count k old > 0" using o(2) uc(2) by linarith
      show thesis
      proof (cases "fe_dup_files e = 0")
        case True
        let ?k = "?good f ?k1"
        have run: "copy_files e fl p k = Some (0, ?k)"
          using old False Some True pos fo by (simp add: copy_files_def Let_def kassert_def)
        have f: "fork_frame p k ?k" by (rule fork_frame_upd) (simp add: fork_frame_def hold_def)
        have r: "res_ok ?k" by (rule fork_frame_res [OF res f p]) (use mc0 uf in \<open>auto simp: hold_def\<close>)
        have uk: "users ?k filesp f = {}" using uf by (simp only: fork_frame_users [OF f p])
        have rd: "files_ready ?k p" unfolding files_ready_def using uk by (simp add: hold_def)
        show thesis by (rule result [OF run f r, of "{RFiles f}"]) (use rd ff Some True False in \<open>auto simp: hold_def files_copied_def\<close>)
      next
        case dup: False
        let ?k = "drop_res {RFiles f} ?k1"
        have run: "copy_files e fl p k = Some (fe_dup_files e, ?k)"
          using old False Some dup pos fo by (simp add: copy_files_def Let_def kassert_def)
        have f: "fork_frame p k ?k" by (simp add: fork_frame_def drop_res_def hold_def)
        have h: "held ?k = held k" using ff by (auto simp: drop_res_def hold_def)
        have pr: "procs ?k p = procs k p" by (simp add: drop_res_def hold_def)
        have r: "res_ok ?k" by (rule fork_frame_res [OF res f p]) (use mc0 uf ff in \<open>auto simp: drop_res_def hold_def split: if_splits\<close>)
        have ex: "\<exists>v. procs ?k p = (procs k p)\<lparr>filesp := v\<rparr>" unfolding pr by (rule idem)
        have ck: "counts_kept k ?k" using ff by (auto simp: counts_kept_def drop_res_def hold_def)
        show thesis
          by (rule result [OF run f r ex, of "{}"]) (simp_all add: dup h pr False ck Some, simp_all add: drop_res_def hold_def)
      qed
    qed
  qed
qed

lemma fork_cleanup_ok:
  assumes res: "res_ok k" and p: "p \<notin> members k" and rd: "mm_ready k p R"
  shows "fork_frame p k (fork_cleanup_mm p k)" and "res_ok (fork_cleanup_mm p k)"
    and "held (fork_cleanup_mm p k) = held k - R" and "state (procs (fork_cleanup_mm p k) p) = state (procs k p)"
    and "kstack (procs (fork_cleanup_mm p k) p) = kstack (procs k p)"
    and "mm_count (fork_cleanup_mm p k) = (\<lambda>m. mm_count k m - of_bool (mm (procs k p) = Some m))"
    and "mm_pgdir (fork_cleanup_mm p k) = mm_pgdir k" and "files_count (fork_cleanup_mm p k) = files_count k"
proof -
  let ?k = "fork_cleanup_mm p k"
  show f: "fork_frame p k ?k"
    by (auto simp: fork_cleanup_mm_def put_mm_def put_pgdir_def drop_res_def Let_def fork_frame_def split: option.split)
  show "state (procs ?k p) = state (procs k p)" "kstack (procs ?k p) = kstack (procs k p)"
    by (auto simp: fork_cleanup_mm_def put_mm_def put_pgdir_def drop_res_def Let_def split: option.split)
  show "mm_count ?k = (\<lambda>m. mm_count k m - of_bool (mm (procs k p) = Some m))" "mm_pgdir ?k = mm_pgdir k"
    "files_count ?k = files_count k"
    by (auto simp: fork_cleanup_mm_def put_mm_def put_pgdir_def drop_res_def Let_def split: option.split)
  have "held ?k = held k - R \<and> res_ok ?k"
  proof (cases "mm (procs k p)")
    case None
    then show ?thesis using rd res by (simp add: mm_ready_def fork_cleanup_mm_def)
  next
    case (Some m)
    have m: "RMm m \<in> held k" "int (card (users k mm m)) + 1 \<le> mm_count k m"
      and R: "if R = {} then users k mm m \<noteq> {}
        else mm_count k m = 1 \<and> R = {RMm m, RPgdir (mm_pgdir k m), RMmap m}"
      using rd Some by (simp_all add: mm_ready_def)
    have counts: "mm_count ?k r = mm_count k r - (if r = m then 1 else 0)" "mm_pgdir ?k = mm_pgdir k" "files_count ?k = files_count k" for r
      by (auto simp: fork_cleanup_mm_def Some put_mm_def put_pgdir_def drop_res_def Let_def)
    have h: "held ?k = held k - R"
    proof (cases "R = {}")
      case True
      then have "0 < card (users k mm m)" using R by (simp add: card_gt_0_iff)
      then have "mm_count k m \<noteq> 1" using m(2) by linarith
      then show ?thesis using True by (simp add: fork_cleanup_mm_def Some put_mm_def put_pgdir_def drop_res_def Let_def)
    next
      case False
      then have "mm_count k m = 1" "R = {RMm m, RPgdir (mm_pgdir k m), RMmap m}" using R by simp_all
      then show ?thesis by (auto simp: fork_cleanup_mm_def Some put_mm_def put_pgdir_def drop_res_def Let_def)
    qed
    note u = fork_frame_users [OF f p]
    have mem: "members ?k = members k" and pr: "q \<in> members k \<Longrightarrow> procs ?k q = procs k q" for q
      using f p fork_frameD(1) [OF f] by (auto simp: fork_frame_def)
    have "RMm r \<in> held ?k" if u': "users k mm r \<noteq> {}" for r
    proof (cases "r = m \<and> R \<noteq> {}")
      case True
      then have "int (card (users k mm m)) = 0" using R m(2) by simp
      then show ?thesis using True u' by simp
    next
      case False
      then have "RMm r \<notin> R" using R by (auto split: if_splits)
      then show ?thesis using res u' by (simp add: h res_ok_def)
    qed
    moreover have "RFiles x \<notin> R" "RProc x \<notin> R" for x using R by (auto split: if_splits)
    moreover have "int (card (users k mm r)) \<le> mm_count ?k r" for r
      using res m(2) by (auto simp: counts res_ok_def)
    ultimately have "res_ok ?k" using res by (auto simp: res_ok_def u mem pr counts h)
    then show ?thesis using h by simp
  qed
  then show "res_ok ?k" "held ?k = held k - R" by simp_all
qed


lemma fork_link_ok:
  assumes ok: "proc_ok k" and p: "p \<notin> members k" "state (procs k p) = PROC_UNINIT" "wait_state (procs k p) = 0"
      "cptr (procs k p) = None"
    and rd: "RProc p \<in> held k" "mm_ready k p R" "files_ready k p" and few: "nr_process k < MAX_PROCESS"
  obtains k' where "fork_link p k = Some k'" and "proc_ok k'" and "members k' = insert p (members k)"
    and "held k' = held k" and "current k' = current k" and "state (procs k' p) = PROC_UNINIT"
    and "parent (procs k' p) = Some (current k)" and "\<forall>q \<in> set (proc_list k). pid (procs k q) \<noteq> pid (procs k' p)"
    and "\<forall>q. q \<noteq> p \<longrightarrow> pown (procs k' q) = pown (procs k q) \<and> state (procs k' q) = state (procs k q) \<and> parent (procs k' q) = parent (procs k q)"
    and "idleproc k' = idleproc k" and "initproc k' = initproc k" and "p \<in> set (proc_list k')"
    and "mm (procs k' p) = mm (procs k p)" and "filesp (procs k' p) = filesp (procs k p)"
    and "kstack (procs k' p) = kstack (procs k p)" and "mm_count k' = mm_count k" and "mm_pgdir k' = mm_pgdir k"
    and "files_count k' = files_count k"
proof -
  let ?c = "current k"
  have base: "base_ok k" and cm: "?c \<in> members k" "state (procs k ?c) = PROC_RUNNABLE"
    using ok by (simp_all add: proc_ok_def)
  obtain ch where tree: "tree_ok k ch" using ok by (auto simp: proc_ok_def)
  have ids: "ids_ok k" "pid_ok k" and res: "res_ok k" using base by (simp_all add: base_ok_def ids_ok_def)
  have nm: "q \<noteq> p" if "q \<in> members k" for q using that p by auto
  have nl: "q \<noteq> p" if "q \<in> set (proc_list k)" for q using that p by (auto simp: members_def)
  have wc: "wait_state (procs k ?c) = 0" using base cm by (auto simp: base_ok_def)
  have "int (length (proc_list k)) < MAX_PID - 1"
    using ids(1) few by (simp add: ids_ok_def MAX_PID_def MAX_PROCESS_def)
  then obtain r n where g: "get_pid k = Some (r, k\<lparr>last_pid := r, next_safe := n\<rparr>)" "1 \<le> r" "r < MAX_PID"
    "\<forall>q \<in> set (proc_list k). pid (procs k q) \<noteq> r" "pid_ok (k\<lparr>last_pid := r, next_safe := n\<rparr>)"
    using get_pid_ok [OF ids(2)] by blast
  define kp where "kp = upd_proc p (\<lambda>x. x\<lparr>pid := r\<rparr>) (k\<lparr>last_pid := r, next_safe := n\<rparr>)"
  let ?link = "\<lambda>k'. upd_proc ?c (\<lambda>x. x\<lparr>wait_state := 0\<rparr>) (upd_proc p (\<lambda>x. x\<lparr>parent := Some ?c\<rparr>) k')"
  define ka where "ka = ?link kp"
  define kb where "kb = ?link (hash_proc p kp)"
  have pa: "procs ka q = (if q = p then (procs k p)\<lparr>pid := r, parent := Some ?c\<rparr> else procs k q)" for q
    using nm [OF cm(1)] wc by (simp add: ka_def kp_def)
  have la: "proc_list ka = proc_list k" "idleproc ka = idleproc k" "members ka = members k" "last_pid ka = r"
    "current ka = ?c" "nr_process ka = nr_process k" "initproc ka = initproc k"
    by (simp_all add: ka_def kp_def members_def)
  have ab: "procs kb = procs ka" "proc_list kb = proc_list k" "pid_hash kb = pid_hash (hash_proc p ka)" "nr_process kb = nr_process k"
    "links_frame ka kb"
    using nm [OF cm(1)] by (simp_all add: ka_def kb_def hash_proc_def Let_def links_frame_def kp_def)
  have idsa: "ids_ok ka"
  proof -
    have "pid (procs ka q) = pid (procs k q)" if "q \<in> set (proc_list k)" for q using nl [OF that] by (simp add: pa)
    moreover have "pid_ok ka" using g(5) nl by (auto simp: pid_ok_def la pa) (simp_all add: ka_def kp_def)
    moreover have "pid_hash ka = pid_hash k" by (simp add: ka_def kp_def)
    ultimately show ?thesis using ids(1) unfolding ids_ok_def la by (simp cong: inj_on_cong conj_cong)
  qed
  have treea: "tree_ok ka ch" by (rule tree_outside [OF tree]) (use nm in \<open>simp_all add: la pa\<close>)
  have ne: "cptr (procs kb ?c) \<noteq> Some p"
  proof
    assume "cptr (procs kb ?c) = Some p"
    then have "cptr (procs k ?c) = Some p" using nm [OF cm(1)] by (simp add: ab pa)
    then have "p \<in> set (ch ?c)" using tree cm(1) by (cases "ch ?c") (auto simp: tree_ok_def family_def)
    then show False using tree cm(1) nl by (auto simp: tree_ok_def)
  qed
  have parb: "parent (procs kb p) = Some ?c" by (simp add: ab pa)
  obtain k' where k': "set_links p kb = Some k'" "proc_list k' = p # proc_list kb" "pid_hash k' = pid_hash kb"
    "nr_process k' = nr_process kb + 1" and fb: "links_frame kb k'"
    and lk: "yptr \<circ> procs k' = (\<lambda>q. if q = p then None else if cptr (procs kb ?c) = Some q then Some p else yptr (procs kb q))"
      "optr \<circ> procs k' = (optr \<circ> procs kb)(p := cptr (procs kb ?c))" "cptr \<circ> procs k' = (cptr \<circ> procs kb)(?c := Some p)"
    by (rule set_links_eq [OF parb ne nm [OF cm(1)]])
  note k'' = k' [unfolded ab] and lk' = lk [unfolded ab(1)]
  have fa: "links_frame ka k'" using ab(5) fb by (simp add: links_frame_def)
  note fr = links_frameD [OF fa]
  have ids': "ids_ok k'"
  proof (rule insert_ids [OF idsa])
    show "p \<notin> members ka" using p(1) by (simp add: la)
    show "0 < pid (procs ka p)" "pid (procs ka p) < MAX_PID" "pid (procs ka p) \<le> last_pid ka" using g(2,3) by (simp_all add: pa la)
    show "\<forall>q \<in> set (proc_list ka). pid (procs ka q) \<noteq> pid (procs ka p)" using g(4) nl by (simp add: la pa)
    show "pid_ok ka" using idsa by (simp add: ids_ok_def)
  qed (use k'' fa in \<open>simp_all add: la\<close>)
  have tree': "tree_ok k' (ch(?c := p # ch ?c, p := []))"
    by (rule insert_tree [OF treea _ _ _ _ _ fa lk']) (use p cm(1) k'' in \<open>simp_all add: la pa\<close>)
  have m': "members k' = insert p (members k)" by (auto simp: members_def k''(2) fr la)
  have st': "state (procs k' q) = state (procs k q)" "wait_state (procs k' q) = wait_state (procs k q)" for q
    by (simp_all add: fr pa)
  have pw: "pown (procs k' q) = pown (procs ka q)" for q by (rule links_frame_pown [OF fa])
  then have fm: "filesp (procs k' q) = filesp (procs k q)" "mm (procs k' q) = mm (procs k q)" for q
    by (simp_all add: pown_def pa)
  have cp: "cptr (procs k' q) = (if q = ?c then Some p else cptr (procs k q))" for q
    using fun_cong [OF lk'(3), of q] by (simp add: pa)
  have rr: "rr_ok k'"
  proof (rule links_frame_rr [OF fa], rule rr_ok_same)
    show "rr_ok k" using base by (simp add: base_ok_def)
    show "rq (procs ka q) = rq (procs k q)" for q by (simp add: pa)
    show "(state (procs ka q) = PROC_RUNNABLE) = (state (procs k q) = PROC_RUNNABLE)" for q by (simp add: pa)
  qed (simp_all add: ka_def kp_def)
  have h': "held k' = held k" "files_count k' = files_count k" "mm_count k' = mm_count k" "mm_pgdir k' = mm_pgdir k"
    "initproc k' = initproc k"
    using fa by (simp_all add: links_frame_def ka_def kp_def)
  have u: "users k' sel x = (if sel (procs k p) = Some x then insert p (users k sel x) else users k sel x)"
    if "\<And>q. sel (procs k' q) = sel (procs k q)" for sel x
    using p(1,2) by (auto simp: users_def m' st' that)
  have pu: "p \<notin> users k sel x" for sel x using p(1) by (simp add: users_def)
  have res': "res_ok k'"
  proof -
    have "RMm x \<in> held k \<and> KERNBASE \<le> mm_pgdir k x \<and> int (card (users k' mm x)) \<le> mm_count k x"
      if "mm (procs k p) = Some x" for x
      using rd(2) that by (simp add: u fm mm_ready_def pu)
    moreover have "RFiles x \<in> held k \<and> int (card (users k' filesp x)) \<le> files_count k x" if "filesp (procs k p) = Some x" for x
      using rd(3) that by (simp add: u fm files_ready_def pu)
    moreover have "filesp (procs k p) \<noteq> None" using rd(3) by (auto simp: files_ready_def split: option.splits)
    ultimately show ?thesis
      using res rd(1) unfolding res_ok_def m' st' fm h' by (auto simp: u fm split: if_splits)
  qed
  have base': "base_ok k'"
    using ids' rr res' base p unfolding base_ok_def m' st' h' fr la k''
    by (auto simp: pa members_def)
  have "\<forall>q \<in> members k'. state (procs k' q) = PROC_ZOMBIE \<longrightarrow> cptr (procs k' q) = None"
    using ok p cm by (auto simp: m' st' cp proc_ok_def)
  then have ok': "proc_ok k'" using base' tree' cm by (auto simp: proc_ok_def m' st' fr la)
  have run: "fork_link p k = Some k'"
    using g(1) k'(1) by (simp add: fork_link_def Let_def kb_def kp_def hash_proc_def)
  show thesis
    by (rule that [OF run ok' m' h'(1)])
       (use g(4) p pw in \<open>simp_all add: fr la pa st' h' k'' pown_def\<close>)
qed


text \<open>Whether all the allocations succeed.\<close>

definition fork_possible :: "fork_env \<Rightarrow> u32 \<Rightarrow> ptab \<Rightarrow> bool" where
  "fork_possible e fl k \<longleftrightarrow> nr_process k < MAX_PROCESS \<and> fe_proc e \<noteq> None \<and> fe_kstack e \<noteq> None \<and>
     (mm (procs k (current k)) = None \<or> fl AND CLONE_VM \<noteq> 0 \<or>
       fe_mm e \<noteq> None \<and> fe_pgdir e \<noteq> None \<and> fe_dup_mmap e = 0) \<and>
     (fl AND CLONE_FS \<noteq> 0 \<or> fe_files e \<noteq> None \<and> fe_dup_files e = 0)"

definition fork_error :: "fork_env \<Rightarrow> u32 \<Rightarrow> ptab \<Rightarrow> int" where
  "fork_error e fl k =
     (if nr_process k \<ge> MAX_PROCESS then - E_NO_FREE_PROC
      else if fe_proc e = None \<or> fe_kstack e = None \<or>
        mm (procs k (current k)) \<noteq> None \<and> fl AND CLONE_VM = 0 \<and>
          (fe_mm e = None \<or> fe_pgdir e = None \<or> fe_dup_mmap e \<noteq> 0) \<or> fe_files e = None
      then - E_NO_MEM else fe_dup_files e)"

definition fork_failed :: "ptab \<Rightarrow> ptab \<Rightarrow> bool" where
  "fork_failed k k' \<longleftrightarrow> members k' = members k \<and> held k' = held k \<and> counts_kept k k' \<and> current k' = current k \<and>
     idleproc k' = idleproc k \<and> initproc k' = initproc k \<and> (\<forall>q \<in> members k. procs k' q = procs k q)"

definition fork_done :: "fork_env \<Rightarrow> u32 \<Rightarrow> ptab \<Rightarrow> proc_ptr \<Rightarrow> int \<Rightarrow> ptab \<Rightarrow> bool" where
  "fork_done e fl k p r k' \<longleftrightarrow> p \<notin> members k \<and> members k' = insert p (members k) \<and>
     (\<exists>R F. mm_copied e fl k k' p R \<and> files_copied e fl k k' p F \<and> fe_kstack e = Some (kstack (procs k' p)) \<and>
       held k' = held k \<union> {RProc p, RKstack (kstack (procs k' p))} \<union> R \<union> F) \<and>
     current k' = current k \<and> idleproc k' = idleproc k \<and> initproc k' = initproc k \<and>
     state (procs k' p) = PROC_RUNNABLE \<and> parent (procs k' p) = Some (current k) \<and>
     pid (procs k' p) = r \<and> find_proc r k = None \<and> find_proc r k' = Some p \<and>
     (\<forall>q. q \<noteq> p \<longrightarrow> pown (procs k' q) = pown (procs k q) \<and> state (procs k' q) = state (procs k q) \<and>
       parent (procs k' q) = parent (procs k q))"

lemma cleanup_counts:
  assumes mc: "mm_copied e fl k k3 p R" and h: "\<And>m. RMm m \<in> held k \<Longrightarrow> RMm m \<in> held k3" "\<And>f. RFiles f \<in> held k \<Longrightarrow> RFiles f \<in> held k3"
    and new: "\<And>m. fe_mm e = Some m \<Longrightarrow> RMm m \<notin> held k"
    and c: "mm (procs k4 p) = mm (procs k3 p)" "mm_count k4 = mm_count k3" "mm_pgdir k4 = mm_pgdir k3"
    and fc: "files_count k3 = files_count k"
    and k': "mm_count k' = (\<lambda>m. mm_count k4 m - of_bool (mm (procs k4 p) = Some m))" "mm_pgdir k' = mm_pgdir k4"
      "files_count k' = files_count k4" and ck: "counts_kept k3 k4"
  shows "counts_kept k k'"
proof -
  have "mm_count k3 m - of_bool (mm (procs k3 p) = Some m) = mm_count k m \<and> mm_pgdir k3 m = mm_pgdir k m"
    if "RMm m \<in> held k" for m
    using mc new that by (auto simp: mm_copied_def split: option.splits if_splits)
  moreover have "files_count k4 f = files_count k f" if "RFiles f \<in> held k" for f
    using ck h(2) [OF that] by (simp add: counts_kept_def fc)
  ultimately show ?thesis by (simp add: counts_kept_def c k')
qed

lemma fork_failedI:
  assumes f: "fork_frame p k k'" and p: "p \<notin> members k" and h: "held k' = held k" and c: "counts_kept k k'"
  shows "fork_failed k k'"
  using fork_frameD(1-4) [OF f] fork_frame_member [OF f p] h c by (simp add: fork_failed_def)

lemma do_fork_ok:
  assumes ok: "proc_ok k" and fresh: "fork_fresh e k"
  shows "\<exists>r k'. do_fork default_sched_class e fl k = Some (r, k') \<and> proc_ok k' \<and>
    (if fork_possible e fl k then \<exists>p. fe_proc e = Some p \<and> fork_done e fl k p r k'
     else r = fork_error e fl k \<and> fork_failed k k')"
proof (cases "nr_process k \<ge> MAX_PROCESS \<or> fe_proc e = None")
  case True
  then show ?thesis using ok
    by (auto simp: do_fork_def alloc_proc_def fork_possible_def fork_failed_def fork_error_def counts_kept_def)
next
  case False
  then obtain p where few: "nr_process k < MAX_PROCESS" and p: "fe_proc e = Some p" by auto
  have res: "res_ok k" using ok by (simp add: proc_ok_def base_ok_def)
  have hp: "RProc p \<notin> held k" using fresh p by (simp add: fork_fresh_def)
  then have pm: "p \<notin> members k" using res by (auto simp: res_ok_def)
  have mc0: "0 \<le> mm_count k r" "0 \<le> files_count k r" for r
    using res by (auto simp: res_ok_def intro: order_trans [OF of_nat_0_le_iff])
  define k1 where "k1 = snd (alloc_proc e k)"
  have alloc: "alloc_proc e k = (Some p, k1)" using p by (simp add: alloc_proc_def k1_def)
  have f1: "fork_frame p k k1" unfolding k1_def alloc_proc_def p by (simp, intro fork_frame_upd) (simp add: fork_frame_def hold_def)
  have h1: "held k1 = held k \<union> {RProc p}" "files_count k1 = files_count k" "mm_count k1 = mm_count k" "mm_pgdir k1 = mm_pgdir k"
    by (simp_all add: k1_def alloc_proc_def p hold_def)
  have p1: "state (procs k1 p) = PROC_UNINIT" "wait_state (procs k1 p) = 0" "cptr (procs k1 p) = None" "mm (procs k1 p) = None"
    by (simp_all add: k1_def alloc_proc_def p)
  show ?thesis
  proof (cases "fe_kstack e")
    case None
    let ?k = "drop_res {RProc p} k1"
    have run: "do_fork default_sched_class e fl k = Some (- E_NO_MEM, ?k)"
      using few alloc None by (simp add: do_fork_def setup_kstack_def E_NO_MEM_def)
    have f: "fork_frame p k ?k" using f1 by (simp add: fork_frame_def drop_res_def)
    have h: "held ?k = held k" using hp by (auto simp: drop_res_def h1)
    have "res_ok ?k" by (rule fork_frame_res [OF res f pm]) (use mc0 in \<open>simp_all add: h\<close>, simp_all add: drop_res_def h1)
    then have "proc_ok ?k" by (rule fork_frame_ok [OF ok f pm, rotated]) (simp add: drop_res_def p1)
    moreover have "counts_kept k ?k" by (simp add: counts_kept_def drop_res_def h1)
    moreover have "fork_error e fl k = - E_NO_MEM" using few None by (simp add: fork_error_def)
    ultimately show ?thesis using run fork_failedI [OF f pm h] None by (simp add: fork_possible_def)
  next
    case (Some s)
    have hs: "RKstack s \<notin> held k" using fresh Some by (simp add: fork_fresh_def)
    define k2 where "k2 = upd_proc p (\<lambda>x. x\<lparr>kstack := s\<rparr>) (hold {RKstack s} k1)"
    have setup_ks: "setup_kstack e p k1 = (0, k2)" using Some by (simp add: setup_kstack_def k2_def)
    have f2: "fork_frame p k k2" unfolding k2_def by (rule fork_frame_upd) (use f1 in \<open>simp add: fork_frame_def hold_def\<close>)
    have h2: "held k2 = held k \<union> {RProc p, RKstack s}" "files_count k2 = files_count k" "mm_count k2 = mm_count k"
      "mm_pgdir k2 = mm_pgdir k" by (auto simp: k2_def hold_def h1)
    have p2: "state (procs k2 p) = PROC_UNINIT" "wait_state (procs k2 p) = 0" "cptr (procs k2 p) = None" "mm (procs k2 p) = None"
      "kstack (procs k2 p) = s" by (simp_all add: k2_def hold_def p1)
    have res2: "res_ok k2" by (rule fork_frame_res [OF res f2 pm]) (use mc0 in \<open>auto simp: h2\<close>)
    have ok2: "proc_ok k2" by (rule fork_frame_ok [OF ok f2 pm _ res2]) (simp add: p2)
    have pm2: "p \<notin> members k2" using pm fork_frameD(1) [OF f2] by simp
    have fresh2: "mm_fresh e k2" using fresh by (auto simp: fork_fresh_def mm_fresh_def h2)
    obtain r3 k3 R where k3: "copy_mm e fl p k2 = Some (r3, k3)" and f3: "fork_frame p k2 k3" and res3: "res_ok k3"
      and fl3: "filesp (procs k3 p) = filesp (procs k2 p)" "files_count k3 = files_count k2" and e3: "erase_mm (procs k3 p) = erase_mm (procs k2 p)"
      and h3: "held k3 = held k2 \<union> R" "R \<inter> held k2 = {}" "\<forall>x. RFiles x \<notin> R \<and> RProc x \<notin> R \<and> RKstack x \<notin> R"
      and bad3: "r3 \<noteq> 0 \<longrightarrow> R = {} \<and> mm (procs k3 p) = None" and rd3: "r3 = 0 \<longrightarrow> mm_ready k3 p R"
      and iff3: "r3 = 0 \<longleftrightarrow> mm (procs k2 (current k2)) = None \<or> fl AND CLONE_VM \<noteq> 0 \<or>
        fe_mm e \<noteq> None \<and> fe_pgdir e \<noteq> None \<and> fe_dup_mmap e = 0"
      and ck3: "r3 \<noteq> 0 \<longrightarrow> counts_kept k2 k3" and mc3: "r3 = 0 \<longrightarrow> mm_copied e fl k2 k3 p R"
      by (rule copy_mm_ok [OF ok2 pm2 p2(4) fresh2])
    have f3': "fork_frame p k k3" by (rule fork_frame_trans [OF f2 f3])
    have p3: "state (procs k3 p) = PROC_UNINIT" "wait_state (procs k3 p) = 0" "cptr (procs k3 p) = None" "kstack (procs k3 p) = s"
      using arg_cong [OF e3, of state] arg_cong [OF e3, of wait_state] arg_cong [OF e3, of cptr] arg_cong [OF e3, of kstack] p2
      by (simp_all add: erase_mm_def)
    have ok3: "proc_ok k3" by (rule fork_frame_ok [OF ok f3' pm _ res3]) (simp add: p3)
    have pm3: "p \<notin> members k3" using pm fork_frameD(1) [OF f3'] by simp
    have cur: "mm (procs k2 (current k2)) = mm (procs k (current k))"
      using fork_frameD(2) [OF f2] fork_frame_member [OF f2 pm, of "current k"] ok by (simp add: proc_ok_def)
    let ?cl = "\<lambda>k. drop_res {RProc p} (put_kstack p k)"
    have cl: "fork_failed k (?cl k') \<and> proc_ok (?cl k')"
      if f: "fork_frame p k k'" and r: "res_ok k'" and h: "held k' = held k \<union> {RProc p, RKstack s}"
        and st: "kstack (procs k' p) = s" "state (procs k' p) = PROC_UNINIT" and ck: "counts_kept k k'" for k'
    proof -
      have h': "held (?cl k') = held k" using h hp hs st by (auto simp: drop_res_def put_kstack_def)
      have f': "fork_frame p k (?cl k')" using f by (simp add: fork_frame_def drop_res_def put_kstack_def)
      have m: "members (?cl k') = members k" "members k' = members k"
        using fork_frameD(1) [OF f'] fork_frameD(1) [OF f] by simp_all
      have c: "procs (?cl k') = procs k'" "files_count (?cl k') = files_count k'" "mm_count (?cl k') = mm_count k'"
        "mm_pgdir (?cl k') = mm_pgdir k'" by (simp_all add: drop_res_def put_kstack_def)
      have "res_ok (?cl k')" using r res
        unfolding res_ok_def m c h' fork_frame_users [OF f' pm] fork_frame_users [OF f pm] by blast
      then have "proc_ok (?cl k')" by (rule fork_frame_ok [OF ok f' pm, rotated]) (simp add: drop_res_def put_kstack_def st)
      moreover have "counts_kept k (?cl k')" using ck by (simp add: counts_kept_def c)
      ultimately show ?thesis using fork_failedI [OF f' pm h'] by simp
    qed
    show ?thesis
    proof (cases "r3 = 0")
      case False
      have "held k3 = held k \<union> {RProc p, RKstack s}" using h3(1) bad3 False h2(1) by simp
      moreover have "counts_kept k k3" using ck3 False by (simp add: counts_kept_def h2)
      ultimately have "fork_failed k (?cl k3) \<and> proc_ok (?cl k3)" by (intro cl [OF f3' res3]) (simp_all add: p3)
      moreover have "do_fork default_sched_class e fl k = Some (- E_NO_MEM, ?cl k3)"
        using few alloc setup_ks k3 False by (simp add: do_fork_def)
      moreover have "\<not> fork_possible e fl k" using iff3 False cur by (simp add: fork_possible_def)
      moreover have "fork_error e fl k = - E_NO_MEM"
        using few p Some iff3 False cur by (auto simp: fork_error_def)
      ultimately show ?thesis by simp
    next
      case True
      have mc: "mm_copied e fl k k3 p R" using mc3 True unfolding mm_copied_def cur h2(3,4) by blast
      have rd3: "mm_ready k3 p R" using rd3 True by simp
      have fresh3: "\<forall>f. fe_files e = Some f \<longrightarrow> RFiles f \<notin> held k3"
        using fresh h3(1,3) by (auto simp: fork_fresh_def h2)
      obtain r4 k4 F where k4: "copy_files e fl p k3 = Some (r4, k4)" and f4: "fork_frame p k3 k4" and res4: "res_ok k4"
        and p4: "\<exists>v. procs k4 p = (procs k3 p)\<lparr>filesp := v\<rparr>" and m4: "mm_count k4 = mm_count k3" "mm_pgdir k4 = mm_pgdir k3"
        and h4: "held k4 = held k3 \<union> F" and bad4: "r4 \<noteq> 0 \<longrightarrow> F = {} \<and> procs k4 p = procs k3 p" and rd4: "r4 = 0 \<longrightarrow> files_ready k4 p"
        and iff4: "r4 = 0 \<longleftrightarrow> fl AND CLONE_FS \<noteq> 0 \<or> fe_files e \<noteq> None \<and> fe_dup_files e = 0"
        and ck4: "r4 \<noteq> 0 \<longrightarrow> counts_kept k3 k4 \<and> r4 = (if fe_files e = None then - E_NO_MEM else fe_dup_files e)"
        and fc4: "r4 = 0 \<longrightarrow> files_copied e fl k3 k4 p F"
        by (rule copy_files_ok [OF ok3 pm3 fresh3])
      have f4': "fork_frame p k k4" by (rule fork_frame_trans [OF f3' f4])
      have q4: "state (procs k4 p) = PROC_UNINIT" "wait_state (procs k4 p) = 0" "cptr (procs k4 p) = None"
        "kstack (procs k4 p) = s" "mm (procs k4 p) = mm (procs k3 p)"
        using p4 p3 by auto
      have ok4: "proc_ok k4" by (rule fork_frame_ok [OF ok f4' pm _ res4]) (simp add: q4)
      have pm4: "p \<notin> members k4" using pm fork_frameD(1) [OF f4'] by simp
      have mr4: "mm_ready k4 p R"
        using rd3 unfolding mm_ready_def q4 m4 h4 fork_frame_users [OF f4 pm3]
        by (cases "mm (procs k3 p)") (simp, simp only: option.case Un_iff, blast)
      show ?thesis
      proof (cases "r4 = 0")
        case False
        note cu = fork_cleanup_ok [OF res4 pm4 mr4]
        have "counts_kept k3 k4" using ck4 False by blast
        then have kept: "counts_kept k (fork_cleanup_mm p k4)"
          by (intro cleanup_counts [OF mc]) (use fresh m4 q4 cu fl3 h2 h3(1) in \<open>auto simp: fork_fresh_def mm_fresh_def\<close>)
        have "held (fork_cleanup_mm p k4) = held k \<union> {RProc p, RKstack s}"
          using cu(3) h4 bad4 False h3 h2(1) by auto
        then have "fork_failed k (?cl (fork_cleanup_mm p k4)) \<and> proc_ok (?cl (fork_cleanup_mm p k4))"
          by (rule cl [OF fork_frame_trans [OF f4' cu(1)] cu(2)]) (simp_all add: cu q4 kept)
        moreover have "do_fork default_sched_class e fl k = Some (r4, ?cl (fork_cleanup_mm p k4))"
          using few alloc setup_ks k3 k4 True False by (simp add: do_fork_def)
        moreover have "\<not> fork_possible e fl k" using iff4 False by (auto simp: fork_possible_def)
        moreover have "fork_error e fl k = r4"
          using few p Some iff3 True cur ck4 False by (auto simp: fork_error_def)
        ultimately show ?thesis by simp
      next
        case r4: True
        have fr4: "files_ready k4 p" using rd4 r4 by simp
        have hp4: "RProc p \<in> held k4" using h4 h3(1) h2(1) by simp
        have few4: "nr_process k4 < MAX_PROCESS" using few fork_frameD(5) [OF f4'] by simp
        obtain k5 where k5: "fork_link p k4 = Some k5" and ok5: "proc_ok k5" and m5: "members k5 = insert p (members k4)"
          and h5: "held k5 = held k4" and c5: "current k5 = current k4" and s5: "state (procs k5 p) = PROC_UNINIT"
          and par5: "parent (procs k5 p) = Some (current k4)" and u5: "\<forall>q \<in> set (proc_list k4). pid (procs k4 q) \<noteq> pid (procs k5 p)"
          and o5: "\<forall>q. q \<noteq> p \<longrightarrow> pown (procs k5 q) = pown (procs k4 q) \<and> state (procs k5 q) = state (procs k4 q) \<and>
            parent (procs k5 q) = parent (procs k4 q)"
          and i5: "idleproc k5 = idleproc k4" "initproc k5 = initproc k4" "p \<in> set (proc_list k5)"
          and w5: "mm (procs k5 p) = mm (procs k4 p)" "filesp (procs k5 p) = filesp (procs k4 p)"
            "kstack (procs k5 p) = kstack (procs k4 p)" "mm_count k5 = mm_count k4" "mm_pgdir k5 = mm_pgdir k4"
            "files_count k5 = files_count k4"
          by (rule fork_link_ok [OF ok4 pm4 q4(1,2,3) hp4 mr4 fr4 few4])
        have pm5: "p \<in> members k5" by (simp add: m5)
        have nz: "state (procs k5 p) \<noteq> PROC_ZOMBIE" by (simp add: s5)
        obtain k6 where k6: "wakeup_proc default_sched_class p k5 = Some k6" and ok6: "proc_ok k6" and f6: "core_frame k5 k6"
          and c6: "current k6 = current k5" and s6: "state (procs k6 p) = PROC_RUNNABLE"
          and o6: "\<forall>q. q \<noteq> p \<longrightarrow> state (procs k6 q) = state (procs k5 q)"
          by (rule proc_wake [OF ok5 pm5 nz])
        note fr6 = core_frameD [OF f6]
        have c6': "mm_count k6 = mm_count k5" "mm_pgdir k6 = mm_pgdir k5" "files_count k6 = files_count k5"
          using f6 by (simp_all add: core_frame_def)
        have fc3: "filesp (procs k3 (current k3)) = filesp (procs k (current k))"
          using fork_frameD(2) [OF f3'] fork_frame_member [OF f3' pm, of "current k"] ok by (simp add: proc_ok_def)
        have run: "do_fork default_sched_class e fl k = Some (pid (procs k6 p), k6)"
          using few alloc setup_ks k3 k4 True r4 k5 k6 by (simp add: do_fork_def)
        have ids: "ids_ok k" "ids_ok k6" using ok ok6 by (simp_all add: proc_ok_def base_ok_def)
        have pl: "proc_list k4 = proc_list k" using f4' by (simp add: fork_frame_def)
        have np: "pid (procs k q) \<noteq> pid (procs k6 p)" if "q \<in> set (proc_list k)" for q
        proof -
          have "procs k4 q = procs k q" using that by (intro fork_frame_member [OF f4' pm]) (simp add: members_def)
          then show ?thesis using u5 that by (auto simp: pl fr6)
        qed
        have "find_proc (pid (procs k6 p)) k = None"
          using find_proc_iff [OF ids(1)] np by (cases "find_proc (pid (procs k6 p)) k") auto
        moreover have "find_proc (pid (procs k6 p)) k6 = Some p"
          using find_proc_iff [OF ids(2)] i5(3) by (simp add: fr6)
        moreover have "pown (procs k6 q) = pown (procs k q) \<and> state (procs k6 q) = state (procs k q) \<and>
            parent (procs k6 q) = parent (procs k q)" if "q \<noteq> p" for q
        proof -
          have "procs k4 q = procs k q" using f4' that by (simp add: fork_frame_def)
          moreover have "pown (procs k6 q) = pown (procs k5 q)" by (simp add: pown_def fr6)
          ultimately show ?thesis using o5 o6 that by (simp add: fr6)
        qed
        moreover have "mm_copied e fl k k6 p R"
        proof -
          have e: "mm (procs k6 p) = mm (procs k3 p)" "mm_count k6 = mm_count k3" "mm_pgdir k6 = mm_pgdir k3"
            using w5 m4 q4 c6' by (simp_all add: fr6)
          show ?thesis using mc unfolding mm_copied_def e .
        qed
        moreover have "files_copied e fl k k6 p F"
        proof -
          have e: "filesp (procs k6 p) = filesp (procs k4 p)" "files_count k6 = files_count k4" "files_count k3 = files_count k"
            using w5 c6' fl3 h2(2) by (simp_all add: fr6)
          have "files_copied e fl k3 k4 p F" using fc4 r4 by blast
          then show ?thesis unfolding files_copied_def e fc3 .
        qed
        moreover have "fe_kstack e = Some (kstack (procs k6 p))" using Some w5 q4 by (simp add: fr6)
        moreover have "held k6 = held k \<union> {RProc p, RKstack (kstack (procs k6 p))} \<union> R \<union> F"
          using h5 h4 h3(1) h2(1) w5 q4 by (simp add: fr6)
        ultimately have "fork_done e fl k p (pid (procs k6 p)) k6"
          using pm m5 c5 c6 par5 i5 s6 fork_frameD(1-4) [OF f4']
          unfolding fork_done_def by (simp add: fr6) blast
        moreover have "fork_possible e fl k"
          using few p Some iff3 iff4 True r4 cur by (simp add: fork_possible_def)
        ultimately show ?thesis using run ok6 p by simp
      qed
    qed
  qed
qed

end
