(* ===== verification/ProcSystem.thy ===== *)
theory ProcSystem
  imports ProcFork
begin

text \<open>
  The properties of process management: the system calls of theory ProcLife one by one, and the
  invariant under every sequence of them.
\<close>

section \<open>A sample table\<close>

text \<open>Process 0 is idle, 1 is \<open>initproc\<close> and waits for its child 2, which runs; 3 is a child of 2
  that has ended with code 7.\<close>

definition proc_sample_procs :: "proc_ptr \<Rightarrow> proc_struct" where
  "proc_sample_procs = (\<lambda>p. blank_proc\<lparr>state := PROC_UNINIT\<rparr>)
     (0 := blank_proc\<lparr>state := PROC_RUNNABLE, pid := 0, cptr := Some 1, filesp := Some 7\<rparr>,
      1 := blank_proc\<lparr>state := PROC_SLEEPING, wait_state := WT_CHILD, pid := 1, parent := Some 0,
             cptr := Some 2, filesp := Some 7\<rparr>,
      2 := blank_proc\<lparr>state := PROC_RUNNABLE, pid := 2, parent := Some 1, cptr := Some 3,
             filesp := Some 7, mm := Some 20\<rparr>,
      3 := blank_proc\<lparr>state := PROC_ZOMBIE, pid := 3, parent := Some 2, kstack := 33, exit_code := 7\<rparr>)"

definition proc_sample :: ptab where
  "proc_sample = kern.extend (rr_sample\<lparr>procs := proc_sample_procs, current := 2, idleproc := 0, initproc := 1,
       run_list := [], proc_num := 0\<rparr>)
     (ptab.fields [3, 2, 1] (\<lambda>h. filter (\<lambda>p. pid_hashfn (pid (proc_sample_procs p)) = h) [3, 2, 1])
        4 MAX_PID 3 (\<lambda>_. 1) (\<lambda>_. KERNBASE) (\<lambda>_. 3)
        {RProc 0, RProc 1, RProc 2, RProc 3, RKstack 33, RMm 20, RPgdir KERNBASE, RMmap 20, RFiles 7})"

lemma proc_sample_simps [simp]:
  "procs proc_sample = proc_sample_procs" "current proc_sample = 2" "idleproc proc_sample = 0"
  "initproc proc_sample = 1" "run_list proc_sample = []" "proc_num proc_sample = 0" "proc_list proc_sample = [3, 2, 1]"
  "nr_process proc_sample = 4" "next_safe proc_sample = MAX_PID" "last_pid proc_sample = 3"
  "mm_count proc_sample = (\<lambda>_. 1)" "mm_pgdir proc_sample = (\<lambda>_. KERNBASE)" "files_count proc_sample = (\<lambda>_. 3)"
  "held proc_sample = {RProc 0, RProc 1, RProc 2, RProc 3, RKstack 33, RMm 20, RPgdir KERNBASE, RMmap 20, RFiles 7}"
  "pid_hash proc_sample = (\<lambda>h. filter (\<lambda>p. pid_hashfn (pid (proc_sample_procs p)) = h) [3, 2, 1])"
  "members proc_sample = {0, 1, 2, 3}"
  by (auto simp: proc_sample_def kern.defs ptab.defs members_def)

lemma proc_sample_ok: "proc_ok proc_sample"
proof -
  have u: "users proc_sample filesp r = (if r = 7 then {0, 1, 2} else {})"
    "users proc_sample mm r = (if r = 20 then {2} else {})" for r
    by (auto simp: users_def proc_sample_procs_def blank_proc_def)
  have "res_ok proc_sample"
    unfolding res_ok_def u by (auto simp: proc_sample_procs_def)
  moreover have "ids_ok proc_sample"
    by (auto simp: ids_ok_def pid_ok_def MAX_PID_def MAX_PROCESS_def proc_sample_procs_def inj_on_def)
  moreover have "rr_ok proc_sample"
    by (auto simp: rr_ok_def RR_inv_def sched_ok_def RR_queued_def proc_sample_procs_def)
  ultimately have "base_ok proc_sample"
    by (auto simp: base_ok_def proc_sample_procs_def blank_proc_def)
  moreover have "tree_ok proc_sample (\<lambda>p. if p < 3 then [p + 1] else [])"
    by (auto simp: tree_ok_def family_def proc_sample_procs_def blank_proc_def)
  ultimately show ?thesis
    by (auto simp: proc_ok_def proc_sample_procs_def blank_proc_def)
qed


section \<open>Every sequence of operations\<close>

text \<open>The operations: the system calls, the rest of \<open>do_wait\<close> when a process that slept in it runs again, and
  what timers, semaphores and the clock do to the table.\<close>

datatype proc_op =
    OpFork fork_env u32
  | OpExit int
  | OpWait int "bool option"
  | OpResume int
  | OpKill int
  | OpYield
  | OpPriority u32
  | OpTick
  | OpSchedule
  | OpBlock u32
  | OpWake proc_ptr

fun proc_exec :: "proc_op \<Rightarrow> ptab \<Rightarrow> ptab option" where
  "proc_exec (OpFork e fl) k = map_option snd (do_fork default_sched_class e fl k)"
| "proc_exec (OpExit code) k = do_exit default_sched_class code k"
| "proc_exec (OpWait i store_ok) k = map_option snd (do_wait default_sched_class i store_ok k)"
| "proc_exec (OpResume i) k = map_option snd (do_wait_resume default_sched_class i k)"
| "proc_exec (OpKill i) k = map_option snd (do_kill default_sched_class i k)"
| "proc_exec OpYield k = Some (snd (do_yield k))"
| "proc_exec (OpPriority priority) k = Some (lab6_set_priority priority k)"
| "proc_exec OpTick k = Some (sched_class_proc_tick default_sched_class (current k) k)"
| "proc_exec OpSchedule k = schedule default_sched_class k"
| "proc_exec (OpBlock v) k =
     schedule default_sched_class (upd_proc (current k) (\<lambda>x. x\<lparr>state := PROC_SLEEPING, wait_state := v\<rparr>) k)"
| "proc_exec (OpWake p) k = wakeup_proc default_sched_class p k"

text \<open>Who may call what: memory that an allocator returns is not in use, the idle process only calls
  \<open>schedule\<close>, and a wake-up is for a process of the table.\<close>

fun op_enabled :: "proc_op \<Rightarrow> ptab \<Rightarrow> bool" where
  "op_enabled (OpFork e fl) k \<longleftrightarrow> fork_fresh e k"
| "op_enabled (OpWait i store_ok) k \<longleftrightarrow> current k \<noteq> idleproc k"
| "op_enabled (OpResume i) k \<longleftrightarrow> current k \<noteq> idleproc k"
| "op_enabled (OpBlock v) k \<longleftrightarrow> current k \<noteq> idleproc k"
| "op_enabled (OpWake p) k \<longleftrightarrow> p \<in> members k"
| "op_enabled op k \<longleftrightarrow> True"

text \<open>The panics of the code: the end of the idle process or of \<open>initproc\<close>, which ends when it was killed
  while it waited, and the wake-up of a process that has ended.\<close>

fun op_panics :: "proc_op \<Rightarrow> ptab \<Rightarrow> bool" where
  "op_panics (OpExit code) k \<longleftrightarrow> current k = idleproc k \<or> current k = initproc k"
| "op_panics (OpResume i) k \<longleftrightarrow> current k = initproc k \<and> pflags (procs k (current k)) AND PF_EXITING \<noteq> 0"
| "op_panics (OpWake p) k \<longleftrightarrow> state (procs k p) = PROC_ZOMBIE"
| "op_panics op k \<longleftrightarrow> False"

inductive proc_step :: "ptab \<Rightarrow> ptab \<Rightarrow> bool" where
  "op_enabled op k \<Longrightarrow> proc_exec op k = Some k' \<Longrightarrow> proc_step k k'"

lemma proc_sched:
  assumes ok: "proc_ok k"
  obtains k' where "schedule default_sched_class k = Some k'" and "proc_ok k'"
proof -
  obtain ch where "tree_ok k ch" using ok by (auto simp: proc_ok_def)
  moreover have "base_ok k" "\<forall>p \<in> members k. state (procs k p) = PROC_ZOMBIE \<longrightarrow> cptr (procs k p) = None"
    using ok by (simp_all add: proc_ok_def)
  ultimately show thesis by (meson base_sched that)
qed

lemma proc_tick_ok: "proc_ok k \<Longrightarrow> proc_ok (sched_class_proc_tick default_sched_class p k)"
  by (auto simp: sched_class_proc_tick_def RR_proc_tick_def Let_def intro!: proc_ok_upd)

lemma exit_parent:
  assumes "proc_ok k" and "current k \<noteq> idleproc k"
  obtains par where "parent (procs k (current k)) = Some par" and "par \<in> members k"
  using assms by (auto simp: proc_ok_def tree_ok_def members_def)

lemma exit_ok:
  assumes "proc_ok k" and "current k \<noteq> idleproc k" and "current k \<noteq> initproc k"
  obtains k' where "do_exit default_sched_class e k = Some k'" and "proc_ok k'"
proof -
  obtain par where "parent (procs k (current k)) = Some par" by (rule exit_parent [OF assms(1,2)])
  from do_exit_lemma [OF assms this, of e] that show thesis by blast
qed

lemma resume_ok:
  assumes ok: "proc_ok k" and c: "current k \<noteq> idleproc k"
    and ci: "current k \<noteq> initproc k \<or> pflags (procs k (current k)) AND PF_EXITING = 0"
  obtains r k' where "do_wait_resume default_sched_class i k = Some (r, k')" and "proc_ok k'"
proof (cases "pflags (procs k (current k)) AND PF_EXITING = 0")
  case True
  obtain r k' where "wait_round default_sched_class i k = Some (r, k')" "proc_ok k'"
    using wait_round_ok [OF ok c, of i] by blast
  then show thesis using that True by (simp add: do_wait_resume_def)
next
  case False
  obtain k' where "do_exit default_sched_class (- E_KILLED) k = Some k'" "proc_ok k'"
    by (rule exit_ok [OF ok c]) (use ci False in blast)
  then show thesis using that False by (simp add: do_wait_resume_def)
qed

lemma do_wait_lemma:
  assumes ok: "proc_ok k" and c: "current k \<noteq> idleproc k"
  obtains r k' where "do_wait default_sched_class i s k = Some (r, k')" and "proc_ok k'"
proof (cases "s = Some False")
  case True
  then show thesis using that ok by (simp add: do_wait_def)
next
  case False
  obtain r k' where "wait_round default_sched_class i k = Some (r, k')" "proc_ok k'"
    using wait_round_ok [OF ok c, of i] by blast
  then show thesis using that False by (simp add: do_wait_def)
qed

lemma fork_ok:
  assumes "proc_ok k" and "fork_fresh e k"
  obtains r k' where "do_fork default_sched_class e fl k = Some (r, k')" and "proc_ok k'"
  using do_fork_ok [OF assms, of fl] by blast

lemma kill_ok:
  assumes "proc_ok k"
  obtains r k' where "do_kill default_sched_class i k = Some (r, k')" and "proc_ok k'"
  using do_kill_ok [OF assms, of i] by blast

lemma proc_exec_ok:
  assumes ok: "proc_ok k" and en: "op_enabled op k"
  shows "if op_panics op k then proc_exec op k = None else \<exists>k'. proc_exec op k = Some k' \<and> proc_ok k'"
proof (cases op)
  case (OpFork e fl)
  then show ?thesis using fork_ok [OF ok, of e fl] en by fastforce
next
  case (OpExit code)
  then show ?thesis using exit_ok [OF ok, of code] by (auto simp: do_exit_def kassert_def)
next
  case (OpWait i s)
  then show ?thesis using do_wait_lemma [OF ok, of i s] en by fastforce
next
  case (OpResume i)
  show ?thesis
  proof (cases "op_panics op k")
    case True
    then show ?thesis using OpResume by (auto simp: do_wait_resume_def do_exit_def kassert_def)
  next
    case False
    then show ?thesis using resume_ok [OF ok, of i] en OpResume by fastforce
  qed
next
  case (OpKill i)
  then show ?thesis using kill_ok [OF ok, of i] by fastforce
next
  case OpYield
  then show ?thesis using do_yield_ok [OF ok] by simp
next
  case (OpPriority priority)
  then show ?thesis using lab6_set_priority_ok [OF ok] by simp
next
  case OpTick
  then show ?thesis using proc_tick_ok [OF ok] by simp
next
  case OpSchedule
  then show ?thesis using proc_sched [OF ok] by fastforce
next
  case (OpBlock v)
  then show ?thesis using sleep_ok [OF ok, of v] en by fastforce
next
  case (OpWake p)
  show ?thesis
  proof (cases "op_panics op k")
    case True
    then show ?thesis using OpWake by (simp add: wakeup_proc_def kassert_def)
  next
    case False
    then have p: "p \<in> members k" "state (procs k p) \<noteq> PROC_ZOMBIE" using en OpWake by simp_all
    obtain k' where "wakeup_proc default_sched_class p k = Some k'" "proc_ok k'" by (rule proc_wake [OF ok p])
    then show ?thesis using OpWake False by simp
  qed
qed

lemma proc_step_ok:
  assumes "proc_step k k'" and ok: "proc_ok k"
  shows "proc_ok k'"
  using assms(1)
proof cases
  case (1 op)
  then show ?thesis using proc_exec_ok [OF ok 1(1)] by (simp split: if_splits)
qed

lemma proc_reach_ok: "proc_step\<^sup>*\<^sup>* k0 k \<Longrightarrow> proc_ok k0 \<Longrightarrow> proc_ok k"
  by (induction rule: rtranclp_induct) (auto intro: proc_step_ok)


text \<open>What the invariant says about the table.\<close>

definition table_sound :: "ptab \<Rightarrow> bool" where
  "table_sound k \<longleftrightarrow>
     (\<forall>p \<in> set (proc_list k). find_proc (pid (procs k p)) k = Some p \<and>
       (\<exists>q \<in> members k. q \<noteq> p \<and> parent (procs k p) = Some q)) \<and>
     (\<forall>p \<in> members k. RProc p \<in> held k \<and>
       (if state (procs k p) = PROC_ZOMBIE then cptr (procs k p) = None
        else (\<exists>f. filesp (procs k p) = Some f \<and> RFiles f \<in> held k \<and> 0 < files_count k f) \<and>
          (\<forall>m. mm (procs k p) = Some m \<longrightarrow> RMm m \<in> held k \<and> 0 < mm_count k m)))"

lemma table_sound: "proc_ok k \<Longrightarrow> table_sound k"
proof -
  assume ok: "proc_ok k"
  have ids: "ids_ok k" and res: "res_ok k" using ok by (simp_all add: proc_ok_def base_ok_def)
  obtain ch where tree: "tree_ok k ch" using ok by (auto simp: proc_ok_def)
  have pos: "0 < n" if "p \<in> users k sel r" "int (card (users k sel r)) \<le> n" for p sel r n
  proof -
    have "0 < card (users k sel r)" using that(1) by (auto simp: card_gt_0_iff)
    then show ?thesis using that(2) by linarith
  qed
  have "\<exists>f. filesp (procs k p) = Some f \<and> RFiles f \<in> held k \<and> 0 < files_count k f"
    if p: "p \<in> members k" "state (procs k p) \<noteq> PROC_ZOMBIE" for p
  proof -
    obtain f where f: "filesp (procs k p) = Some f" using res p by (auto simp: res_ok_def)
    then have u: "p \<in> users k filesp f" using p by (simp add: users_def)
    then have "RFiles f \<in> held k" "int (card (users k filesp f)) \<le> files_count k f" using res by (auto simp: res_ok_def)
    then show ?thesis using f pos [OF u] by blast
  qed
  moreover have "RMm m \<in> held k \<and> 0 < mm_count k m"
    if p: "p \<in> members k" "state (procs k p) \<noteq> PROC_ZOMBIE" "mm (procs k p) = Some m" for p m
  proof -
    have u: "p \<in> users k mm m" using p by (simp add: users_def)
    then have "RMm m \<in> held k" "int (card (users k mm m)) \<le> mm_count k m" using res by (auto simp: res_ok_def)
    then show ?thesis using pos [OF u] by blast
  qed
  moreover have "\<exists>q \<in> members k. q \<noteq> p \<and> parent (procs k p) = Some q" if "p \<in> set (proc_list k)" for p
    using tree that by (auto simp: tree_ok_def)
  ultimately show ?thesis
    using ok res find_proc_iff [OF ids] by (simp add: table_sound_def proc_ok_def res_ok_def)
qed

section \<open>Properties\<close>

text \<open>
  (C1) Whatever forks, exits, waits, kills, sleeps, wake-ups and switches happen, the process table
  stays sound: every process is found under its identifier and has its parent in the table, ended
  processes have no children, and no living process uses a file table or an address space that was
  freed. An operation fails an assertion or follows a null pointer exactly when the idle process or
  \<open>initproc\<close> ends, by \<open>do_exit\<close> or because \<open>initproc\<close> was killed while it waited, or when a process that
  has ended is woken; every other operation returns. The operations considered are all those of
  \<open>proc_op\<close>, where the idle process neither waits nor sleeps, a process that is woken is one of the table,
  and the allocator hands out only what is not in use.
\<close>

theorem process_table_safe:
  assumes "proc_step\<^sup>*\<^sup>* k0 k" and "proc_ok k0"
  shows "table_sound k \<and> (\<forall>op. op_enabled op k \<longrightarrow> (proc_exec op k = None \<longleftrightarrow> op_panics op k))"
proof -
  have ok: "proc_ok k" by (rule proc_reach_ok [OF assms])
  have "proc_exec op k = None \<longleftrightarrow> op_panics op k" if "op_enabled op k" for op
    using proc_exec_ok [OF ok that] by (auto split: if_splits)
  then show ?thesis using table_sound [OF ok] by blast
qed

lemma proc_sample_waits: "wait_kids 0 proc_sample = {3}" "wait_kids 9 proc_sample = {}"
  by (auto simp: wait_kids_def proc_sample_procs_def blank_proc_def)

theorem process_table_safe_witness:
  "\<exists>k. proc_step\<^sup>*\<^sup>* proc_sample k \<and> k \<noteq> proc_sample \<and> table_sound k \<and> proc_exec OpSchedule k \<noteq> None \<and>
     proc_exec (OpKill 1) k \<noteq> None"
proof -
  have "proc_step proc_sample (snd (do_yield proc_sample))"
    by (rule proc_step.intros [of OpYield]) simp_all
  then have r: "proc_step\<^sup>*\<^sup>* proc_sample (snd (do_yield proc_sample))" by (rule r_into_rtranclp)
  have "need_resched (procs (snd (do_yield proc_sample)) 2) \<noteq> need_resched (procs proc_sample 2)"
    by (simp add: do_yield_def proc_sample_procs_def blank_proc_def)
  then have "snd (do_yield proc_sample) \<noteq> proc_sample" by auto
  moreover have "op_enabled op k \<and> \<not> op_panics op k" if "op = OpSchedule \<or> op = OpKill 1" for op k
    using that by auto
  ultimately show ?thesis using process_table_safe [OF r proc_sample_ok] r by blast
qed

text \<open>
  (C37) \<open>find_proc\<close>, which looks in one hash list, finds what a search of the whole process list
  finds.
\<close>

theorem find_proc_linear:
  assumes ok: "proc_ok k"
  shows "find_proc i k = find (\<lambda>p. pid (procs k p) = i) (proc_list k)"
proof -
  have ids: "ids_ok k" using ok by (simp add: proc_ok_def base_ok_def)
  show ?thesis
  proof (cases "find (\<lambda>p. pid (procs k p) = i) (proc_list k)")
    case None
    then have "find_proc i k \<noteq> Some p" for p using find_proc_iff [OF ids] by (auto simp: find_None_iff)
    then show ?thesis using None by auto
  next
    case (Some p)
    then have "p \<in> set (proc_list k)" "pid (procs k p) = i" by (auto simp: find_Some_iff)
    then show ?thesis using Some find_proc_iff [OF ids] by simp
  qed
qed

theorem find_proc_linear_witness:
  "find_proc 2 proc_sample = Some 2 \<and> find_proc 5 proc_sample = None"
  using find_proc_linear [OF proc_sample_ok, of 2] find_proc_linear [OF proc_sample_ok, of 5]
  by (simp add: proc_sample_procs_def)



definition wait_outcome :: "int \<Rightarrow> bool option \<Rightarrow> ptab \<Rightarrow> wait_result \<Rightarrow> ptab \<Rightarrow> bool" where
  "wait_outcome i s k r k' \<longleftrightarrow>
     (if s = Some False then r = WaitError (- E_INVAL) \<and> k' = k
      else if wait_kids i k = {} then r = WaitError (- E_BAD_PROC) \<and> k' = k
      else if \<forall>p \<in> wait_kids i k. state (procs k p) \<noteq> PROC_ZOMBIE
      then r = Waiting \<and> members k' = members k \<and> held k' = held k \<and>
        state (procs k' (current k)) = PROC_SLEEPING \<and> wait_state (procs k' (current k)) = WT_CHILD
      else \<exists>p \<in> wait_kids i k. state (procs k p) = PROC_ZOMBIE \<and> r = Reaped (exit_code (procs k p)) \<and>
        members k' = members k - {p} \<and> current k' = current k \<and>
        held k' = held k - {RProc p, RKstack (kstack (procs k p))})"

text \<open>
  (C7) \<open>do_wait\<close> for a child (any one for 0, otherwise the one with the identifier): without such a
  child it fails with \<open>-E_BAD_PROC\<close>; when one of them has ended it returns the exit code of such a
  child, takes it out of the table and frees its stack and structure, nothing else; otherwise the
  process sleeps until a child ends. A bad address for the code fails with \<open>-E_INVAL\<close>.
\<close>

theorem do_wait_correct:
  assumes ok: "proc_ok k" and c: "current k \<noteq> idleproc k"
  shows "\<exists>r k'. do_wait default_sched_class i s k = Some (r, k') \<and> proc_ok k' \<and>
    (\<forall>q. pown (procs k' q) = pown (procs k q)) \<and> wait_outcome i s k r k'"
proof (cases "s = Some False")
  case True
  then show ?thesis using ok by (simp add: do_wait_def wait_outcome_def)
next
  case False
  have "\<exists>r k'. wait_round default_sched_class i k = Some (r, k') \<and> proc_ok k' \<and>
      (\<forall>q. pown (procs k' q) = pown (procs k q)) \<and> wait_outcome i s k r k'"
    unfolding wait_outcome_def if_not_P [OF False] using wait_round_ok [OF ok c, of i] by blast
  then show ?thesis using False by (simp add: do_wait_def)
qed

theorem do_wait_correct_witness:
  "(\<exists>k'. do_wait default_sched_class 0 None proc_sample = Some (Reaped 7, k') \<and> members k' = {0, 1, 2} \<and>
     RKstack 33 \<notin> held k') \<and>
   do_wait default_sched_class 9 None proc_sample = Some (WaitError (- E_BAD_PROC), proc_sample)"
proof
  have c: "current proc_sample \<noteq> idleproc proc_sample" by simp
  obtain r k' where r: "do_wait default_sched_class 0 None proc_sample = Some (r, k')"
    and w: "wait_outcome 0 None proc_sample r k'"
    using do_wait_correct [OF proc_sample_ok c, of 0 None] by blast
  have "r = Reaped 7 \<and> members k' = {0, 1, 2} \<and> RKstack 33 \<notin> held k'"
    using w unfolding wait_outcome_def proc_sample_waits by (simp add: proc_sample_procs_def insert_Diff_if)
  then show "\<exists>k'. do_wait default_sched_class 0 None proc_sample = Some (Reaped 7, k') \<and> members k' = {0, 1, 2} \<and>
     RKstack 33 \<notin> held k'" using r by blast
  obtain r k' where r: "do_wait default_sched_class 9 None proc_sample = Some (r, k')"
    and w: "wait_outcome 9 None proc_sample r k'"
    using do_wait_correct [OF proc_sample_ok c, of 9 None] by blast
  then show "do_wait default_sched_class 9 None proc_sample = Some (WaitError (- E_BAD_PROC), proc_sample)"
    by (simp add: wait_outcome_def proc_sample_waits)
qed

text \<open>
  (C6) \<open>do_fork\<close>: when the number of processes allows it and every allocation succeeds, the new process
  is in the table under an identifier that no process had, runnable, a child of the running process,
  and no other process changes; it has one reference to an address space and to a file table, to those
  of the running process with \<open>CLONE_VM\<close> and \<open>CLONE_FS\<close>, otherwise to new ones, and nothing else is taken.
  When an allocation fails, the call returns its error, the table and the processes are as before and
  everything that had been taken is given back: the same objects are allocated, and every address space
  and file table in use has the reference count it had.
\<close>

theorem do_fork_correct:
  assumes ok: "proc_ok k" and fresh: "fork_fresh e k"
  shows "\<exists>r k'. do_fork default_sched_class e fl k = Some (r, k') \<and> proc_ok k' \<and>
    (if fork_possible e fl k then \<exists>p. fe_proc e = Some p \<and> fork_done e fl k p r k'
     else r = fork_error e fl k \<and> fork_failed k k')"
  by (rule do_fork_ok [OF ok fresh])

definition fork_sample :: "int \<Rightarrow> fork_env" where
  "fork_sample r = \<lparr>fe_proc = Some 9, fe_kstack = Some 99, fe_mm = Some 21, fe_pgdir = Some (KERNBASE + 4096),
     fe_dup_mmap = 0, fe_files = Some 8, fe_dup_files = r, fe_boot_pgdir = 0\<rparr>"

theorem do_fork_correct_witness:
  "(\<exists>r k'. do_fork default_sched_class (fork_sample 0) 0 proc_sample = Some (r, k') \<and> members k' = {0, 1, 2, 3, 9} \<and>
     parent (procs k' 9) = Some 2 \<and> mm_count k' 21 = 1) \<and>
   (\<exists>k'. do_fork default_sched_class (fork_sample (- E_NO_MEM)) CLONE_VM proc_sample = Some (- E_NO_MEM, k') \<and>
     held k' = held proc_sample \<and> mm_count k' 20 = 1)"
proof
  have f: "fork_fresh (fork_sample x) proc_sample" for x
    by (simp add: fork_fresh_def mm_fresh_def fork_sample_def)
  have "fork_possible (fork_sample 0) 0 proc_sample"
    by (simp add: fork_possible_def fork_sample_def MAX_PROCESS_def)
  then obtain r k' where "do_fork default_sched_class (fork_sample 0) 0 proc_sample = Some (r, k')"
    and d: "fork_done (fork_sample 0) 0 proc_sample 9 r k'"
    using do_fork_correct [OF proc_sample_ok f, of 0 0] by (auto simp: fork_sample_def)
  moreover have "mm_count k' 21 = 1"
    using d by (auto simp: fork_done_def mm_copied_def proc_sample_procs_def fork_sample_def)
  ultimately show "\<exists>r k'. do_fork default_sched_class (fork_sample 0) 0 proc_sample = Some (r, k') \<and>
      members k' = {0, 1, 2, 3, 9} \<and> parent (procs k' 9) = Some 2 \<and> mm_count k' 21 = 1" by (auto simp: fork_done_def)
  let ?e = "fork_sample (- E_NO_MEM)"
  have n: "\<not> fork_possible ?e CLONE_VM proc_sample" "fork_error ?e CLONE_VM proc_sample = - E_NO_MEM"
    by (simp_all add: fork_possible_def fork_error_def fork_sample_def E_NO_MEM_def MAX_PROCESS_def CLONE_VM_def CLONE_FS_def)
  show "\<exists>k'. do_fork default_sched_class ?e CLONE_VM proc_sample = Some (- E_NO_MEM, k') \<and>
      held k' = held proc_sample \<and> mm_count k' 20 = 1"
    using do_fork_correct [OF proc_sample_ok f, of "- E_NO_MEM" CLONE_VM] n
    by (auto simp: fork_failed_def counts_kept_def)
qed

text \<open>
  Any process may kill \<open>initproc\<close> by its identifier, although \<open>do_exit\<close> panics when \<open>initproc\<close>
  calls it: the call succeeds, \<open>initproc\<close> is made runnable when it waits for a child, and when it then
  runs, the rest of its \<open>do_wait\<close> panics.
\<close>

theorem kill_init_panics:
  assumes ok: "proc_ok k" and live: "pflags (procs k (initproc k)) AND PF_EXITING = 0"
    and w: "wait_state (procs k (initproc k)) = WT_CHILD"
  shows "\<exists>k'. do_kill default_sched_class (pid (procs k (initproc k))) k = Some (0, k') \<and> proc_ok k' \<and>
    initproc k' = initproc k \<and> state (procs k' (initproc k)) = PROC_RUNNABLE \<and>
    do_wait_resume default_sched_class i (k'\<lparr>current := initproc k\<rparr>) = None"
proof -
  have ids: "ids_ok k" and ip: "initproc k \<in> set (proc_list k)" using ok by (simp_all add: proc_ok_def base_ok_def)
  have f: "find_proc (pid (procs k (initproc k))) k = Some (initproc k)" using find_proc_iff [OF ids] ip by simp
  have nz: "WT_CHILD AND WT_INTERRUPTED \<noteq> 0" by (simp add: WT_CHILD_def WT_INTERRUPTED_def)
  obtain k' where k': "do_kill default_sched_class (pid (procs k (initproc k))) k = Some (0, k')" "proc_ok k'"
      "initproc k' = initproc k" "idleproc k' = idleproc k" "state (procs k' (initproc k)) = PROC_RUNNABLE"
    and fl: "pflags (procs k' (initproc k)) = pflags (procs k (initproc k)) OR PF_EXITING"
    using do_kill_ok [OF ok, of "pid (procs k (initproc k))"] live nz by (auto simp: f w)
  have "(x OR PF_EXITING) AND PF_EXITING \<noteq> 0" for x
    by (simp add: PF_EXITING_def bit.conj_disj_distrib2) 
  then have "do_wait_resume default_sched_class i (k'\<lparr>current := initproc k\<rparr>) = None"
    by (simp add: do_wait_resume_def fl do_exit_def kassert_def k'(3))
  then show ?thesis using k' by blast
qed

theorem kill_init_panics_witness:
  "\<exists>k'. do_kill default_sched_class 1 proc_sample = Some (0, k') \<and>
     do_wait_resume default_sched_class 0 (k'\<lparr>current := 1\<rparr>) = None"
proof -
  have i: "pflags (procs proc_sample (initproc proc_sample)) AND PF_EXITING = 0"
    "wait_state (procs proc_sample (initproc proc_sample)) = WT_CHILD" "pid (procs proc_sample (initproc proc_sample)) = 1"
    by (simp_all add: proc_sample_procs_def blank_proc_def)
  show ?thesis using kill_init_panics [OF proc_sample_ok i(1,2), of 0] unfolding i(3) by auto
qed

end
