(* ===== verification/MemLayout.thy ===== *)
theory MemLayout
  imports Prelude
begin

text \<open>
  The layout of memory and the fields of addresses and page table entries: \<open>lab8/kern/mm/memlayout.h\<close>,
  \<open>lab8/kern/mm/mmu.h\<close>, \<open>lab8/kern/mm/vmm.h\<close> and the rounding macros of \<open>lab8/libs/defs.h\<close>.
  Lemmas: rounding to a power of two, and that an entry gives back the page it was made for.
\<close>

section \<open>Constants and rounding\<close>

definition PGSIZE :: u64 where "PGSIZE = 4096"
definition USERTOP :: u64 where "USERTOP = 0x80000000"
definition USERBASE :: u64 where "USERBASE = 0x00200000"
definition KERNTOP :: u64 where "KERNTOP = 0xFFFFFFFFC0200000 + 0x7E00000"
definition VM_READ :: u32 where "VM_READ = 0x00000001"
definition VM_WRITE :: u32 where "VM_WRITE = 0x00000002"
definition VM_EXEC :: u32 where "VM_EXEC = 0x00000004"
definition VM_STACK :: u32 where "VM_STACK = 0x00000008"

definition ROUNDDOWN :: "u64 \<Rightarrow> u64 \<Rightarrow> u64" where
  "ROUNDDOWN a n = a - a mod n"

definition ROUNDUP :: "u64 \<Rightarrow> u64 \<Rightarrow> u64" where
  "ROUNDUP a n = ROUNDDOWN (a + n - 1) n"

definition USER_ACCESS :: "u64 \<Rightarrow> u64 \<Rightarrow> bool" where
  "USER_ACCESS start end' \<longleftrightarrow> USERBASE \<le> start \<and> start < end' \<and> end' \<le> USERTOP"

definition KERN_ACCESS :: "u64 \<Rightarrow> u64 \<Rightarrow> bool" where
  "KERN_ACCESS start end' \<longleftrightarrow> 0xFFFFFFFFC0200000 \<le> start \<and> start < end' \<and> end' \<le> KERNTOP"

section \<open>Addresses and entries\<close>

definition PTSIZE :: u64 where "PTSIZE = PGSIZE * 512"
definition PDSIZE :: u64 where "PDSIZE = PTSIZE * 512"
definition PTE_V :: u32 where "PTE_V = 0x001"
definition PTE_R :: u32 where "PTE_R = 0x002"
definition PTE_W :: u32 where "PTE_W = 0x004"
definition PTE_X :: u32 where "PTE_X = 0x008"
definition PTE_U :: u32 where "PTE_U = 0x010"
definition PTE_USER :: u32 where "PTE_USER = PTE_R OR PTE_W OR PTE_X OR PTE_U OR PTE_V"
definition nbase :: u64 where "nbase = 0x80000000 div PGSIZE"

definition PDX1 :: "u64 \<Rightarrow> nat" where "PDX1 la = unat (drop_bit 30 la AND 0x1FF)"
definition PDX0 :: "u64 \<Rightarrow> nat" where "PDX0 la = unat (drop_bit 21 la AND 0x1FF)"
definition PTX :: "u64 \<Rightarrow> nat" where "PTX la = unat (drop_bit 12 la AND 0x1FF)"
definition PPN :: "u64 \<Rightarrow> u64" where "PPN la = drop_bit 12 la"
definition PGOFF :: "u64 \<Rightarrow> u64" where "PGOFF la = la AND 0xFFF"
definition PTE_ADDR :: "u64 \<Rightarrow> u64" where "PTE_ADDR pte = push_bit (12 - 10) (pte AND NOT 0x3FF)"

definition is_valid :: "u64 \<Rightarrow> bool" where
  "is_valid e \<longleftrightarrow> e AND ucast PTE_V \<noteq> 0"

definition pte_create :: "u64 \<Rightarrow> u32 \<Rightarrow> u64" where
  "pte_create ppn type = push_bit 10 ppn OR ucast PTE_V OR scast type"

definition page2ppn :: "nat \<Rightarrow> u64" where "page2ppn p = of_nat p + nbase"
definition page2pa :: "nat \<Rightarrow> u64" where "page2pa p = push_bit 12 (page2ppn p)"

text \<open>The index of the page an entry points to, and when an index is one of \<open>npage\<close> pages.\<close>

definition epage :: "u64 \<Rightarrow> nat" where
  "epage e = unat (PPN (PTE_ADDR e) - nbase)"

definition is_page :: "u64 \<Rightarrow> nat \<Rightarrow> bool" where
  "is_page npage p \<longleftrightarrow> p + unat nbase < unat npage"


lemma is_valid_bit: "is_valid e \<longleftrightarrow> bit e 0"
  by (simp add: is_valid_def PTE_V_def and_one_eq bit_0 odd_iff_mod_2_eq_one)

lemma page2ppn_unat:
  assumes "npage < 2 ^ 44" and "is_page npage p"
  shows "unat (page2ppn p) = p + 0x80000"
proof -
  have "unat npage < 2 ^ 44" using assms(1) unat_mono [of npage "2 ^ 44"] by simp
  then have "p + 0x80000 < 2 ^ 44" using assms(2) by (simp add: is_page_def nbase_def PGSIZE_def)
  moreover have "page2ppn p = of_nat (p + 0x80000)" by (simp add: page2ppn_def nbase_def PGSIZE_def)
  ultimately show ?thesis by (simp only: unsigned_of_nat take_bit_nat_eq_self len_num1 len_bit0) (simp add: take_bit_nat_eq_self)
qed

lemma bit_small: "unat (w :: 'a :: len word) < 2 ^ n \<Longrightarrow> n \<le> m \<Longrightarrow> \<not> bit w m"
proof -
  assume w: "unat w < 2 ^ n" and n: "n \<le> m"
  have "(2 :: nat) ^ n \<le> 2 ^ m" using n by (rule power_increasing) simp
  then have "unat w div 2 ^ m = 0" using w by (intro div_less) linarith
  then have "\<not> bit (unat w) m" by (simp add: bit_iff_odd)
  then show ?thesis by (simp add: bit_unsigned_iff)
qed

lemma PPN_page2pa:
  assumes "npage < 2 ^ 44" and "is_page npage p"
  shows "PPN (page2pa p) = page2ppn p"
proof -
  have "unat npage < 2 ^ 44" using assms(1) unat_mono [of npage "2 ^ 44"] by simp
  then have "unat (page2ppn p) < 2 ^ 44" using page2ppn_unat [OF assms] assms(2)
    by (simp add: is_page_def nbase_def PGSIZE_def)
  then show ?thesis unfolding PPN_def page2pa_def
    by (intro bit_word_eqI) (use bit_small [of "page2ppn p" 44] in \<open>auto simp: bit_simps not_le intro: ccontr\<close>)
qed

text \<open>Permissions that fit into the low ten bits of an entry.\<close>

definition perm_ok :: "u32 \<Rightarrow> bool" where
  "perm_ok perm \<longleftrightarrow> perm AND NOT 0x3FF = 0"

lemma perm_ok_bit: "perm_ok perm \<Longrightarrow> bit perm n \<Longrightarrow> n < 10"
proof -
  assume p: "perm_ok perm" and b: "bit perm n"
  have n: "n < 32" using b bit_imp_le_length by fastforce
  have "(0x3FF :: u32) = mask 10" by (simp add: mask_eq_exp_minus_1)
  then have "\<not> bit (NOT (0x3FF :: u32)) n" using p b n
    unfolding perm_ok_def by (metis bit_0_eq bit_and_iff bot_apply bot_bool_def)
  then show ?thesis using n \<open>(0x3FF :: u32) = mask 10\<close> by (simp add: bit_simps)
qed

lemma scast_perm_bit: "perm_ok perm \<Longrightarrow> bit (scast perm :: u64) n \<longleftrightarrow> bit perm n"
  using perm_ok_bit [of perm 31] perm_ok_bit [of perm n] bit_imp_le_length [of perm n]
  by (auto simp: bit_simps min_def split: if_splits)

lemma bit_pte_create:
  assumes "perm_ok perm"
  shows "bit (pte_create ppn perm) n \<longleftrightarrow> 10 \<le> n \<and> n < 64 \<and> bit ppn (n - 10) \<or> n = 0 \<or> bit perm n"
  by (auto simp: pte_create_def PTE_V_def bit_or_iff bit_push_bit_iff bit_1_iff scast_perm_bit [OF assms])

lemma bit_PTE_ADDR: "bit (PTE_ADDR e) n \<longleftrightarrow> 12 \<le> n \<and> n < 64 \<and> bit e (n - 2)"
proof -
  have m: "(0x3FF :: u64) = mask 10" by (simp add: mask_eq_exp_minus_1)
  have two: "12 - 10 = (2 :: nat)" by simp
  show ?thesis
    unfolding PTE_ADDR_def m two bit_push_bit_iff bit_and_iff bit_not_iff bit_mask_iff
    using bit_imp_le_length [of e "n - 2"] by auto
qed

lemma PTE_ADDR_create:
  assumes n: "npage < 2 ^ 44" and p: "is_page npage p" and perm: "perm_ok perm"
  shows "PTE_ADDR (pte_create (page2ppn p) perm) = page2pa p"
proof -
  have "unat npage < 2 ^ 44" using n unat_mono [of npage "2 ^ 44"] by simp
  then have s: "unat (page2ppn p) < 2 ^ 44" using page2ppn_unat [OF n p] p
    by (simp add: is_page_def nbase_def PGSIZE_def)
  show ?thesis
    by (rule bit_word_eqI)
      (auto simp: bit_PTE_ADDR bit_pte_create [OF perm] page2pa_def bit_push_bit_iff dest: perm_ok_bit [OF perm])
qed

lemma epage_create:
  assumes "npage < 2 ^ 44" and "is_page npage p" and "perm_ok perm"
  shows "epage (pte_create (page2ppn p) perm) = p"
proof -
  have "page2ppn p - nbase = of_nat p" by (simp add: page2ppn_def)
  moreover have "unat npage < 2 ^ 44" using assms(1) unat_mono [of npage "2 ^ 44"] by simp
  then have "p < 2 ^ 64" using assms(2) by (simp add: is_page_def)
  ultimately show ?thesis
    by (simp add: epage_def PTE_ADDR_create [OF assms] PPN_page2pa [OF assms(1,2)] unsigned_of_nat take_bit_nat_eq_self)
qed

lemma is_valid_create [simp]: "is_valid (pte_create ppn perm)"
  by (simp add: is_valid_bit pte_create_def PTE_V_def bit_simps)

lemma not_valid_0 [simp]: "\<not> is_valid 0"
  by (simp add: is_valid_def)

lemma epage_is_page:
  assumes n: "nbase \<le> npage" and p: "is_page npage (epage e)"
  shows "PPN (PTE_ADDR e) < npage"
proof (rule ccontr)
  assume "\<not> PPN (PTE_ADDR e) < npage"
  then have le: "unat npage \<le> unat (PPN (PTE_ADDR e))" by (simp add: word_less_nat_alt)
  have "unat nbase \<le> unat npage" using n by (simp add: word_le_nat_alt)
  then have "nbase \<le> PPN (PTE_ADDR e)" using le by (simp add: word_le_nat_alt)
  then have "epage e = unat (PPN (PTE_ADDR e)) - unat nbase" by (simp add: epage_def unat_sub)
  then show False using p le by (simp add: is_page_def)
qed

lemma PDX_less [simp]: "PDX1 la < 512" "PDX0 la < 512" "PTX la < 512"
proof -
  have "unat (w AND 0x1FF) < 512" for w :: u64
  proof -
    have "w AND 0x1FF \<le> 0x1FF" by (rule word_and_le1)
    then show ?thesis by (simp add: word_le_nat_alt)
  qed
  then show "PDX1 la < 512" "PDX0 la < 512" "PTX la < 512" by (simp_all add: PDX1_def PDX0_def PTX_def)
qed

end
