(* ===== verification/Vmm.thy ===== *)
theory Vmm
  imports CString MemLayout
begin

text \<open>
  The areas of an address space, \<open>lab8/kern/mm/vmm.c\<close>: \<open>mm_create\<close>, \<open>vma_create\<close>, \<open>find_vma\<close> with its
  cache, \<open>insert_vma_struct\<close>, \<open>mm_map\<close>, and the checks of user memory. An area is the address of its
  structure; the ring \<open>mmap_list\<close> is the list of its elements. The invariant \<open>areas_ok\<close> says that the
  areas are in order, disjoint and in user space and that the cache is one of them.
\<close>

section \<open>The code\<close>

record vma_struct =
  vm_start :: u64
  vm_end :: u64
  vm_flags :: u32

text \<open>An address space with the structures of its areas.\<close>

record mm_struct =
  vmas :: "nat \<Rightarrow> vma_struct"
  mmap_list :: "nat list"
  mmap_cache :: "nat option"
  map_count :: int

definition mm_create :: "(nat \<Rightarrow> vma_struct) \<Rightarrow> mm_struct" where
  "mm_create V = \<lparr>vmas = V, mmap_list = [], mmap_cache = None, map_count = 0\<rparr>"

text \<open>\<open>p\<close> is what \<open>kmalloc\<close> returns.\<close>

definition vma_create :: "nat option \<Rightarrow> u64 \<Rightarrow> u64 \<Rightarrow> u32 \<Rightarrow> mm_struct \<Rightarrow> nat option \<times> mm_struct" where
  "vma_create p start end' flags mm = (case p of
     None \<Rightarrow> (None, mm)
   | Some v \<Rightarrow> (Some v, mm\<lparr>vmas := (vmas mm)(v := \<lparr>vm_start = start, vm_end = end', vm_flags = flags\<rparr>)\<rparr>))"

definition in_area :: "mm_struct \<Rightarrow> u64 \<Rightarrow> nat \<Rightarrow> bool" where
  "in_area mm addr p \<longleftrightarrow> vm_start (vmas mm p) \<le> addr \<and> addr < vm_end (vmas mm p)"

definition find_vma :: "mm_struct option \<Rightarrow> u64 \<Rightarrow> nat option \<times> mm_struct option" where
  "find_vma mm addr = (case mm of
     None \<Rightarrow> (None, None)
   | Some m \<Rightarrow>
       let vma = (case mmap_cache m of
           Some c \<Rightarrow> if in_area m addr c then Some c else find (in_area m addr) (mmap_list m)
         | None \<Rightarrow> find (in_area m addr) (mmap_list m)) in
       (case vma of
          None \<Rightarrow> (None, Some m)
        | Some v \<Rightarrow> (Some v, Some (m\<lparr>mmap_cache := Some v\<rparr>))))"

definition check_vma_overlap :: "vma_struct \<Rightarrow> vma_struct \<Rightarrow> unit option" where
  "check_vma_overlap prev nxt = do {
     kassert (vm_start prev < vm_end prev);
     kassert (vm_end prev \<le> vm_start nxt);
     kassert (vm_start nxt < vm_end nxt)
   }"

text \<open>The loop of \<open>insert_vma_struct\<close>; \<open>None\<close> is the head of the ring.\<close>

fun insert_walk :: "(nat \<Rightarrow> vma_struct) \<Rightarrow> u64 \<Rightarrow> nat option \<Rightarrow> nat list \<Rightarrow> nat option" where
  "insert_walk V start le_prev [] = le_prev"
| "insert_walk V start le_prev (le # les) =
     (if vm_start (V le) > start then le_prev else insert_walk V start (Some le) les)"

text \<open>The elements behind a place of the ring, and \<open>list_add_after\<close>.\<close>

definition behind :: "nat option \<Rightarrow> nat list \<Rightarrow> nat list" where
  "behind le xs = (case le of None \<Rightarrow> xs | Some p \<Rightarrow> tl (dropWhile (\<lambda>q. q \<noteq> p) xs))"

definition add_behind :: "nat option \<Rightarrow> nat \<Rightarrow> nat list \<Rightarrow> nat list" where
  "add_behind le v xs = (case le of None \<Rightarrow> v # xs
     | Some p \<Rightarrow> takeWhile (\<lambda>q. q \<noteq> p) xs @ p # v # behind le xs)"

definition insert_vma_struct :: "nat \<Rightarrow> mm_struct \<Rightarrow> mm_struct option" where
  "insert_vma_struct v mm = do {
     let V = vmas mm;
     kassert (vm_start (V v) < vm_end (V v));
     let le_prev = insert_walk V (vm_start (V v)) None (mmap_list mm);
     let le_next = behind le_prev (mmap_list mm);
     (case le_prev of Some p \<Rightarrow> check_vma_overlap (V p) (V v) | None \<Rightarrow> Some ());
     (case le_next of n # _ \<Rightarrow> check_vma_overlap (V v) (V n) | [] \<Rightarrow> Some ());
     Some (mm\<lparr>mmap_list := add_behind le_prev v (mmap_list mm), map_count := map_count mm + 1\<rparr>)
   }"

definition mm_map :: "nat option \<Rightarrow> u64 \<Rightarrow> u64 \<Rightarrow> u32 \<Rightarrow> mm_struct \<Rightarrow> (int \<times> mm_struct) option" where
  "mm_map new addr len flags mm =
     (let start = ROUNDDOWN addr PGSIZE; end' = ROUNDUP (addr + len) PGSIZE in
      if \<not> USER_ACCESS start end' then Some (- E_INVAL, mm)
      else case find_vma (Some mm) start of (vma, mm1) \<Rightarrow> do {
        mm \<leftarrow> mm1;
        if (case vma of Some v \<Rightarrow> end' > vm_start (vmas mm v) | None \<Rightarrow> False) then Some (- E_INVAL, mm)
        else case vma_create new start end' flags mm of
          (None, mm) \<Rightarrow> Some (- E_NO_MEM, mm)
        | (Some v, mm) \<Rightarrow> do { mm \<leftarrow> insert_vma_struct v mm; Some (0, mm) }
      })"

text \<open>The loop of \<open>user_mem_check\<close>.\<close>

partial_function (option) check_loop :: "u64 \<Rightarrow> u64 \<Rightarrow> bool \<Rightarrow> mm_struct \<Rightarrow> (bool \<times> mm_struct) option" where
  "check_loop start end' write mm =
     (if start < end' then
        case find_vma (Some mm) start of (vma, mm1) \<Rightarrow> do {
          mm \<leftarrow> mm1;
          case vma of
            None \<Rightarrow> Some (False, mm)
          | Some v \<Rightarrow>
              let a = vmas mm v in
              if start < vm_start a then Some (False, mm)
              else if vm_flags a AND (if write then VM_WRITE else VM_READ) = 0 then Some (False, mm)
              else if write \<and> vm_flags a AND VM_STACK \<noteq> 0 \<and> start < vm_start a + PGSIZE
              then Some (False, mm)
              else check_loop (vm_end a) end' write mm
        }
      else Some (True, mm))"

definition user_mem_check :: "mm_struct option \<Rightarrow> u64 \<Rightarrow> u64 \<Rightarrow> bool \<Rightarrow> (bool \<times> mm_struct option) option" where
  "user_mem_check mm addr len write = (case mm of
     None \<Rightarrow> Some (KERN_ACCESS addr (addr + len), None)
   | Some m \<Rightarrow>
       if \<not> USER_ACCESS addr (addr + len) then Some (False, Some m)
       else do { (b, m) \<leftarrow> check_loop addr (addr + len) write m; Some (b, Some m) })"

definition copy_from_user ::
  "mm_struct option \<Rightarrow> memory \<Rightarrow> u64 \<Rightarrow> u64 \<Rightarrow> u64 \<Rightarrow> bool \<Rightarrow> (bool \<times> memory \<times> mm_struct option) option" where
  "copy_from_user mm mem dst src len writable = do {
     (ok, mm) \<leftarrow> user_mem_check mm src len writable;
     if \<not> ok then Some (False, mem, mm)
     else Some (True, snd (memcpy mem (unat dst) (unat src) (unat len)), mm)
   }"

definition copy_to_user ::
  "mm_struct option \<Rightarrow> memory \<Rightarrow> u64 \<Rightarrow> u64 \<Rightarrow> u64 \<Rightarrow> (bool \<times> memory \<times> mm_struct option) option" where
  "copy_to_user mm mem dst src len = do {
     (ok, mm) \<leftarrow> user_mem_check mm dst len True;
     if \<not> ok then Some (False, mem, mm)
     else Some (True, snd (memcpy mem (unat dst) (unat src) (unat len)), mm)
   }"

partial_function (option) copy_string_loop ::
  "mm_struct option \<Rightarrow> memory \<Rightarrow> u64 \<Rightarrow> u64 \<Rightarrow> u64 \<Rightarrow> u64 \<Rightarrow> (bool \<times> memory \<times> mm_struct option) option" where
  "copy_string_loop mm mem dst src maxn part =
     (let part = (if part > maxn then maxn else part) in
      do {
        (ok, mm) \<leftarrow> user_mem_check mm src part False;
        if \<not> ok then Some (False, mem, mm)
        else
          let alen = strnlen mem (unat src) (unat part) in
          if alen < unat part then Some (True, snd (memcpy mem (unat dst) (unat src) (alen + 1)), mm)
          else if part = maxn then Some (False, mem, mm)
          else copy_string_loop mm (snd (memcpy mem (unat dst) (unat src) (unat part)))
                 (dst + part) (src + part) (maxn - part) PGSIZE
      })"

definition copy_string ::
  "mm_struct option \<Rightarrow> memory \<Rightarrow> u64 \<Rightarrow> u64 \<Rightarrow> u64 \<Rightarrow> (bool \<times> memory \<times> mm_struct option) option" where
  "copy_string mm mem dst src maxn =
     copy_string_loop mm mem dst src maxn (ROUNDDOWN (src + PGSIZE) PGSIZE - src)"

section \<open>The invariant\<close>

definition apart :: "(nat \<Rightarrow> vma_struct) \<Rightarrow> nat \<Rightarrow> nat \<Rightarrow> bool" where
  "apart V p q \<longleftrightarrow> vm_end (V p) \<le> vm_start (V q)"

definition areas_ok :: "mm_struct \<Rightarrow> bool" where
  "areas_ok mm \<longleftrightarrow> sorted_wrt (apart (vmas mm)) (mmap_list mm) \<and>
     (\<forall>p \<in> set (mmap_list mm). vm_start (vmas mm p) < vm_end (vmas mm p) \<and> vm_end (vmas mm p) \<le> USERTOP) \<and>
     (\<forall>c. mmap_cache mm = Some c \<longrightarrow> c \<in> set (mmap_list mm)) \<and> map_count mm = int (length (mmap_list mm))"

text \<open>The area of an address, if there is one.\<close>

lemma area_unique:
  assumes ok: "areas_ok mm" and p: "p \<in> set (mmap_list mm)" "q \<in> set (mmap_list mm)"
    and a: "in_area mm addr p" "in_area mm addr q"
  shows "p = q"
proof (rule ccontr)
  assume ne: "p \<noteq> q"
  obtain i j where i: "i < length (mmap_list mm)" "mmap_list mm ! i = p" and j: "j < length (mmap_list mm)" "mmap_list mm ! j = q"
    using p by (auto simp: in_set_conv_nth)
  have s: "sorted_wrt (apart (vmas mm)) (mmap_list mm)" using ok by (simp add: areas_ok_def)
  have "apart (vmas mm) p q \<or> apart (vmas mm) q p"
    using sorted_wrt_nth_less [OF s, of i j] sorted_wrt_nth_less [OF s, of j i] i j ne
    by (cases i j rule: linorder_cases) auto
  then show False using a by (auto simp: apart_def in_area_def)
qed

lemma find_vma_ok:
  assumes ok: "areas_ok mm"
  obtains v mm' where "find_vma (Some mm) addr = (v, Some mm')" and "areas_ok mm'"
    and "vmas mm' = vmas mm" and "mmap_list mm' = mmap_list mm"
    and "case v of Some p \<Rightarrow> p \<in> set (mmap_list mm) \<and> in_area mm addr p
      | None \<Rightarrow> \<forall>p \<in> set (mmap_list mm). \<not> in_area mm addr p"
proof -
  define v where "v = (case mmap_cache mm of
           Some c \<Rightarrow> if in_area mm addr c then Some c else find (in_area mm addr) (mmap_list mm)
         | None \<Rightarrow> find (in_area mm addr) (mmap_list mm))"
  have v: "case v of Some p \<Rightarrow> p \<in> set (mmap_list mm) \<and> in_area mm addr p
      | None \<Rightarrow> \<forall>p \<in> set (mmap_list mm). \<not> in_area mm addr p"
    using ok by (auto simp: v_def areas_ok_def find_Some_iff find_None_iff split: option.split if_splits)
  show thesis
  proof (cases v)
    case None
    then show thesis using that [of None mm] ok v by (simp add: find_vma_def v_def [symmetric])
  next
    case (Some p)
    then show thesis using that [of "Some p" "mm\<lparr>mmap_cache := Some p\<rparr>"] ok v
      by (simp add: find_vma_def v_def [symmetric] areas_ok_def)
  qed
qed

section \<open>A new area\<close>

lemma insert_walk_split:
  assumes "sorted_wrt (apart V) (pre @ xs)" and "\<forall>p \<in> set (pre @ xs). vm_start (V p) < vm_end (V p)"
    and "\<forall>p \<in> set pre. vm_start (V p) \<le> s" and "prev = (if pre = [] then None else Some (last pre))"
  shows "\<exists>ys zs. pre @ xs = ys @ zs \<and> insert_walk V s prev xs = (if ys = [] then None else Some (last ys)) \<and>
    (\<forall>p \<in> set ys. vm_start (V p) \<le> s) \<and> (\<forall>p \<in> set zs. s < vm_start (V p))"
  using assms
proof (induction xs arbitrary: pre prev)
  case Nil
  then show ?case by (intro exI [of _ pre] exI [of _ "[]"]) simp
next
  case (Cons x xs)
  show ?case
  proof (cases "vm_start (V x) > s")
    case True
    have "s < vm_start (V p)" if "p \<in> set xs" for p
    proof -
      have "apart V x p" using Cons.prems(1) that by (simp add: sorted_wrt_append)
      moreover have "vm_start (V x) < vm_end (V x)" using Cons.prems(2) by simp
      ultimately show ?thesis using True by (simp add: apart_def)
    qed
    then show ?thesis using True Cons.prems by (intro exI [of _ pre] exI [of _ "x # xs"]) simp
  next
    case False
    then show ?thesis using Cons.IH [of "pre @ [x]" "Some x"] Cons.prems by simp
  qed
qed


text \<open>\<open>insert_vma_struct\<close> panics exactly when the new area is empty or meets another one.\<close>

definition disjoint_areas :: "vma_struct \<Rightarrow> vma_struct \<Rightarrow> bool" where
  "disjoint_areas a b \<longleftrightarrow> vm_end a \<le> vm_start b \<or> vm_end b \<le> vm_start a"

lemma behind_append: "distinct (ys @ zs) \<Longrightarrow> behind (if ys = [] then None else Some (last ys)) (ys @ zs) = zs"
proof (cases ys rule: rev_cases)
  case (snoc us u)
  moreover assume "distinct (ys @ zs)"
  ultimately have "u \<notin> set us" by auto
  then have "dropWhile (\<lambda>q. q \<noteq> u) (us @ u # zs) = u # zs" by (induction us) auto
  then show ?thesis using snoc by (simp add: behind_def)
qed (simp add: behind_def)

lemma add_behind_append:
  assumes d: "distinct (ys @ zs)"
  shows "add_behind (if ys = [] then None else Some (last ys)) v (ys @ zs) = ys @ v # zs"
proof (cases ys rule: rev_cases)
  case (snoc us u)
  then have "u \<notin> set us" using d by auto
  then have "takeWhile (\<lambda>q. q \<noteq> u) (us @ u # zs) = us" by (induction us) auto
  then show ?thesis using snoc behind_append [OF d] by (simp add: add_behind_def)
qed (simp add: add_behind_def)

lemma areas_distinct:
  assumes "sorted_wrt (apart V) xs" and "\<forall>p \<in> set xs. vm_start (V p) < vm_end (V p)"
  shows "distinct xs"
  using assms
proof (induction xs)
  case (Cons x xs)
  have "x \<notin> set xs"
  proof
    assume "x \<in> set xs"
    then have "vm_end (V x) \<le> vm_start (V x)" using Cons.prems(1) by (simp add: apart_def)
    then show False using Cons.prems(2) by auto
  qed
  then show ?case using Cons by simp
qed simp

lemma insert_vma_ok:
  assumes ok: "areas_ok mm" and v: "v \<notin> set (mmap_list mm)" and top: "vm_end (vmas mm v) \<le> USERTOP"
    and ne: "vm_start (vmas mm v) < vm_end (vmas mm v)"
  shows "insert_vma_struct v mm = None \<longleftrightarrow>
      (\<exists>p \<in> set (mmap_list mm). \<not> disjoint_areas (vmas mm p) (vmas mm v))"
    and "insert_vma_struct v mm = Some mm' \<Longrightarrow> areas_ok mm' \<and> vmas mm' = vmas mm \<and>
      set (mmap_list mm') = insert v (set (mmap_list mm)) \<and> mmap_cache mm' = mmap_cache mm"
proof -
  let ?V = "vmas mm" and ?s = "vm_start (vmas mm v)"
  have s: "sorted_wrt (apart ?V) (mmap_list mm)" and pos: "\<forall>p \<in> set (mmap_list mm). vm_start (?V p) < vm_end (?V p)"
    using ok by (simp_all add: areas_ok_def)
  obtain ys zs where l: "mmap_list mm = ys @ zs"
    and w: "insert_walk ?V ?s None (mmap_list mm) = (if ys = [] then None else Some (last ys))"
    and le: "\<forall>p \<in> set ys. vm_start (?V p) \<le> ?s" and gt: "\<forall>p \<in> set zs. ?s < vm_start (?V p)"
    using insert_walk_split [of ?V "[]" "mmap_list mm" ?s None] s pos by auto
  have d: "distinct (ys @ zs)" using areas_distinct [OF s pos] l by simp
  let ?pre = "ys = [] \<or> vm_end (?V (last ys)) \<le> ?s"
  let ?post = "zs = [] \<or> vm_end (?V v) \<le> vm_start (?V (hd zs))"
  have c: "insert_vma_struct v mm = (if ?pre \<and> ?post
      then Some (mm\<lparr>mmap_list := ys @ v # zs, map_count := map_count mm + 1\<rparr>) else None)"
  proof -
    have py: "ys \<noteq> [] \<Longrightarrow> vm_start (?V (last ys)) < vm_end (?V (last ys))" using pos l by simp
    have pz: "zs \<noteq> [] \<Longrightarrow> vm_start (?V (hd zs)) < vm_end (?V (hd zs))" using pos l by simp
    show ?thesis
      unfolding insert_vma_struct_def Let_def w behind_append [OF d, folded l] add_behind_append [OF d, folded l]
      using ne py pz by (cases "ys = []"; cases zs) (simp_all add: check_vma_overlap_def kassert_def)
  qed
  have all_pre: "?pre \<longleftrightarrow> (\<forall>p \<in> set ys. vm_end (?V p) \<le> ?s)"
  proof
    assume h: ?pre
    show "\<forall>p \<in> set ys. vm_end (?V p) \<le> ?s"
    proof
      fix p assume p: "p \<in> set ys"
      show "vm_end (?V p) \<le> ?s"
      proof (cases "p = last ys")
        case True
        then show ?thesis using h p by auto
      next
        case False
        then have "apart ?V p (last ys)" using s p l
          by (cases ys rule: rev_cases) (auto simp: sorted_wrt_append)
        then have "vm_end (?V p) \<le> vm_start (?V (last ys))" by (simp add: apart_def)
        also have "\<dots> \<le> ?s" using le p by (cases "ys = []") auto
        finally show ?thesis .
      qed
    qed
  qed (use last_in_set in blast)
  have all_post: "?post \<longleftrightarrow> (\<forall>p \<in> set zs. vm_end (?V v) \<le> vm_start (?V p))"
  proof
    assume h: ?post
    show "\<forall>p \<in> set zs. vm_end (?V v) \<le> vm_start (?V p)"
    proof
      fix p assume p: "p \<in> set zs"
      then obtain z us where z: "zs = z # us" by (cases zs) auto
      show "vm_end (?V v) \<le> vm_start (?V p)"
      proof (cases "p = z")
        case True
        then show ?thesis using h z by simp
      next
        case False
        then have "apart ?V z p" using s p l z by (auto simp: sorted_wrt_append)
        then have "vm_end (?V z) \<le> vm_start (?V p)" by (simp add: apart_def)
        moreover have "vm_start (?V z) < vm_end (?V z)" using pos l z by simp
        ultimately show ?thesis using h z by simp
      qed
    qed
  qed (use hd_in_set in blast)
  have iff: "?pre \<and> ?post \<longleftrightarrow> (\<forall>p \<in> set (mmap_list mm). disjoint_areas (?V p) (?V v))"
  proof -
    have "disjoint_areas (?V p) (?V v) \<longleftrightarrow> vm_end (?V p) \<le> ?s" if "p \<in> set ys" for p
    proof -
      have "\<not> vm_end (?V v) \<le> vm_start (?V p)" using le that ne by auto
      then show ?thesis by (simp add: disjoint_areas_def)
    qed
    moreover have "disjoint_areas (?V p) (?V v) \<longleftrightarrow> vm_end (?V v) \<le> vm_start (?V p)" if "p \<in> set zs" for p
    proof -
      have "vm_start (?V p) < vm_end (?V p)" "?s < vm_start (?V p)" using gt that pos l by auto
      then have "\<not> vm_end (?V p) \<le> ?s" by auto
      then show ?thesis by (simp add: disjoint_areas_def)
    qed
    ultimately show ?thesis unfolding all_pre all_post l by auto
  qed
  show "insert_vma_struct v mm = None \<longleftrightarrow> (\<exists>p \<in> set (mmap_list mm). \<not> disjoint_areas (?V p) (?V v))"
    unfolding c using iff by simp
  assume r: "insert_vma_struct v mm = Some mm'"
  then have h: "?pre" "?post" and mm': "mm' = mm\<lparr>mmap_list := ys @ v # zs, map_count := map_count mm + 1\<rparr>"
    unfolding c by (simp_all split: if_splits)
  have "sorted_wrt (apart ?V) (ys @ v # zs)"
    using s l all_pre all_post h by (auto simp: sorted_wrt_append apart_def)
  then have "areas_ok mm'" using ok ne top by (auto simp: areas_ok_def mm' l)
  then show "areas_ok mm' \<and> vmas mm' = ?V \<and> set (mmap_list mm') = insert v (set (mmap_list mm)) \<and> mmap_cache mm' = mmap_cache mm"
    by (auto simp: mm' l)
qed


section \<open>Mapping\<close>

lemma mm_map_cases:
  assumes ok: "areas_ok mm" and new: "\<forall>v. new = Some v \<longrightarrow> v \<notin> set (mmap_list mm)"
    and start: "start = ROUNDDOWN addr PGSIZE" and fin: "fin = ROUNDUP (addr + len) PGSIZE"
  shows "if \<not> USER_ACCESS start fin then mm_map new addr len flags mm = Some (- E_INVAL, mm)
    else if \<exists>p \<in> set (mmap_list mm). in_area mm start p
    then \<exists>mm'. mm_map new addr len flags mm = Some (- E_INVAL, mm') \<and> areas_ok mm' \<and>
      vmas mm' = vmas mm \<and> mmap_list mm' = mmap_list mm
    else (case new of
      None \<Rightarrow> mm_map new addr len flags mm = Some (- E_NO_MEM, mm)
    | Some v \<Rightarrow>
        if \<exists>p \<in> set (mmap_list mm). start < vm_start (vmas mm p) \<and> vm_start (vmas mm p) < fin
        then mm_map new addr len flags mm = None
        else \<exists>mm'. mm_map new addr len flags mm = Some (0, mm') \<and> areas_ok mm' \<and>
          set (mmap_list mm') = insert v (set (mmap_list mm)) \<and>
          vmas mm' = (vmas mm)(v := \<lparr>vm_start = start, vm_end = fin, vm_flags = flags\<rparr>))"
proof (cases "USER_ACCESS start fin")
  case False
  then show ?thesis by (simp add: mm_map_def start fin)
next
  case True
  then have sf: "start < fin" "fin \<le> USERTOP" by (simp_all add: USER_ACCESS_def)
  obtain w mm1 where w: "find_vma (Some mm) start = (w, Some mm1)" "areas_ok mm1" "vmas mm1 = vmas mm" "mmap_list mm1 = mmap_list mm"
    and wc: "case w of Some p \<Rightarrow> p \<in> set (mmap_list mm) \<and> in_area mm start p
      | None \<Rightarrow> \<forall>p \<in> set (mmap_list mm). \<not> in_area mm start p"
    by (rule find_vma_ok [OF ok])
  show ?thesis
  proof (cases w)
    case (Some p)
    then have p: "p \<in> set (mmap_list mm)" "vm_start (vmas mm p) \<le> start" using wc by (simp_all add: in_area_def)
    have "vm_start (vmas mm p) < fin" by (rule le_less_trans [OF p(2) sf(1)])
    then have "mm_map new addr len flags mm = Some (- E_INVAL, mm1)"
      using True w Some by (simp add: mm_map_def Let_def start [symmetric] fin [symmetric])
    then show ?thesis using True w wc Some by auto
  next
    case None
    then have none: "\<forall>p \<in> set (mmap_list mm). \<not> in_area mm start p" using wc by simp
    have mm1: "mm1 = mm"
    proof -
      have "snd (find_vma (Some mm) start) = Some mm" using w(1) None by (simp add: find_vma_def Let_def split: option.splits)
      then show ?thesis using w(1) by simp
    qed
    show ?thesis
    proof (cases new)
      case None: None
      then show ?thesis using True none w(1) mm1 \<open>w = None\<close>
        by (simp add: mm_map_def Let_def start [symmetric] fin [symmetric] vma_create_def)
    next
      case (Some v)
      let ?m = "mm\<lparr>vmas := (vmas mm)(v := \<lparr>vm_start = start, vm_end = fin, vm_flags = flags\<rparr>)\<rparr>"
      have v: "v \<notin> set (mmap_list mm)" using new Some by simp
      then have same: "p \<in> set (mmap_list mm) \<Longrightarrow> vmas ?m p = vmas mm p" for p by auto
      have ok2: "areas_ok ?m"
      proof -
        have "sorted_wrt (apart (vmas mm)) (mmap_list mm)" using ok by (simp add: areas_ok_def)
        then have "sorted_wrt (apart (vmas ?m)) (mmap_list mm)"
          by (rule sorted_wrt_mono_rel [rotated]) (use v in \<open>auto simp: apart_def\<close>)
        then show ?thesis using ok same by (simp add: areas_ok_def)
      qed
      have run: "mm_map new addr len flags mm = (case insert_vma_struct v ?m of None \<Rightarrow> None | Some m \<Rightarrow> Some (0, m))"
        using True none w(1) mm1 \<open>w = None\<close> Some
        by (simp add: mm_map_def Let_def start [symmetric] fin [symmetric] vma_create_def split: option.split)
      have vp: "v \<notin> set (mmap_list ?m)" "vm_end (vmas ?m v) \<le> USERTOP" "vm_start (vmas ?m v) < vm_end (vmas ?m v)"
        using v sf by simp_all
      have "(\<exists>p \<in> set (mmap_list ?m). \<not> disjoint_areas (vmas ?m p) (vmas ?m v)) \<longleftrightarrow>
          (\<exists>p \<in> set (mmap_list mm). start < vm_start (vmas mm p) \<and> vm_start (vmas mm p) < fin)"
      proof -
        have "\<not> disjoint_areas (vmas ?m p) (vmas ?m v) \<longleftrightarrow> start < vm_start (vmas mm p) \<and> vm_start (vmas mm p) < fin"
          if "p \<in> set (mmap_list mm)" for p
        proof -
          have "vm_start (vmas mm p) < vm_end (vmas mm p)" "\<not> (vm_start (vmas mm p) \<le> start \<and> start < vm_end (vmas mm p))"
            using ok none that by (simp_all add: areas_ok_def in_area_def)
          then show ?thesis using v that by (auto simp: disjoint_areas_def)
        qed
        then show ?thesis by auto
      qed
      note iff = insert_vma_ok(1) [OF ok2 vp, unfolded this]
      show ?thesis
      proof (cases "\<exists>p \<in> set (mmap_list mm). start < vm_start (vmas mm p) \<and> vm_start (vmas mm p) < fin")
        case bad: True
        then have "insert_vma_struct v ?m = None" using iff by simp
        then show ?thesis using True none bad run Some by auto
      next
        case good: False
        then obtain m where m: "insert_vma_struct v ?m = Some m" using iff by (cases "insert_vma_struct v ?m") auto
        note insert_vma_ok(2) [OF ok2 vp m]
        then show ?thesis using True none good run Some m by auto
      qed
    qed
  qed
qed


section \<open>Checking user memory\<close>

text \<open>What the check asks of one address. Writes may not touch the lowest page of a stack area.\<close>

definition user_may :: "mm_struct \<Rightarrow> bool \<Rightarrow> u64 \<Rightarrow> bool" where
  "user_may mm write a \<longleftrightarrow> (\<exists>p \<in> set (mmap_list mm). in_area mm a p \<and>
     vm_flags (vmas mm p) AND (if write then VM_WRITE else VM_READ) \<noteq> 0 \<and>
     (write \<and> vm_flags (vmas mm p) AND VM_STACK \<noteq> 0 \<longrightarrow> vm_start (vmas mm p) + PGSIZE \<le> a))"

lemma user_may_area:
  assumes ok: "areas_ok mm" and p: "p \<in> set (mmap_list mm)" "in_area mm a p"
  shows "user_may mm write a \<longleftrightarrow> vm_flags (vmas mm p) AND (if write then VM_WRITE else VM_READ) \<noteq> 0 \<and>
     (write \<and> vm_flags (vmas mm p) AND VM_STACK \<noteq> 0 \<longrightarrow> vm_start (vmas mm p) + PGSIZE \<le> a)"
proof -
  have "q = p" if "q \<in> set (mmap_list mm)" "in_area mm a q" for q
    by (rule area_unique [OF ok that(1) p(1) that(2) p(2)])
  then show ?thesis unfolding user_may_def using p by blast
qed

lemma user_may_cong: "vmas mm' = vmas mm \<Longrightarrow> mmap_list mm' = mmap_list mm \<Longrightarrow> user_may mm' w a = user_may mm w a"
  by (simp add: user_may_def in_area_def)

lemma check_loop_ok:
  assumes "areas_ok mm"
  shows "\<exists>b mm'. check_loop start fin write mm = Some (b, mm') \<and> areas_ok mm' \<and> vmas mm' = vmas mm \<and>
    mmap_list mm' = mmap_list mm \<and> (b \<longleftrightarrow> (\<forall>a. start \<le> a \<and> a < fin \<longrightarrow> user_may mm write a))"
  using assms
proof (induction "unat (fin - start)" arbitrary: start mm rule: less_induct)
  case less
  note ok = less.prems
  show ?case
  proof (cases "start < fin")
    case False
    then have "check_loop start fin write mm = Some (True, mm)" by (subst check_loop.simps) simp
    then show ?thesis using False ok by auto
  next
    case True
    obtain w mm1 where w: "find_vma (Some mm) start = (w, Some mm1)" "areas_ok mm1" "vmas mm1 = vmas mm" "mmap_list mm1 = mmap_list mm"
      and wc: "case w of Some p \<Rightarrow> p \<in> set (mmap_list mm) \<and> in_area mm start p
        | None \<Rightarrow> \<forall>p \<in> set (mmap_list mm). \<not> in_area mm start p"
      by (rule find_vma_ok [OF ok])
    have fail: ?thesis if "check_loop start fin write mm = Some (False, mm1)" "\<not> user_may mm write start"
      using that w True by auto
    show ?thesis
    proof (cases w)
      case None
      show ?thesis
      proof (rule fail)
        show "check_loop start fin write mm = Some (False, mm1)" using True w None by (subst check_loop.simps) simp
        show "\<not> user_may mm write start" using wc None by (auto simp: user_may_def)
      qed
    next
      case (Some p)
      let ?a = "vmas mm p"
      have p: "p \<in> set (mmap_list mm)" "in_area mm start p" using wc Some by simp_all
      have bounds: "vm_start ?a \<le> start" "start < vm_end ?a" "vm_end ?a \<le> USERTOP" "vm_start ?a < vm_end ?a"
        using p ok by (auto simp: in_area_def areas_ok_def)
      have run: "check_loop start fin write mm =
          (if user_may mm write start then check_loop (vm_end ?a) fin write mm1 else Some (False, mm1))"
        using True w Some bounds(1) by (subst check_loop.simps)
          (auto simp: Let_def user_may_area [OF ok p])
      show ?thesis
      proof (cases "user_may mm write start")
        case False
        then show ?thesis using run by (intro fail) simp_all
      next
        case may: True
        have here: "user_may mm write a" if "start \<le> a" "a < vm_end ?a" for a
        proof -
          have ia: "in_area mm a p" using that bounds(1) by (auto simp: in_area_def)
          show ?thesis using may that(1)
            unfolding user_may_area [OF ok p] user_may_area [OF ok p(1) ia] by (blast intro: order_trans)
        qed
        obtain b mm' where r: "check_loop (vm_end ?a) fin write mm1 = Some (b, mm')" "areas_ok mm'" "vmas mm' = vmas mm1"
          "mmap_list mm' = mmap_list mm1" and b: "b \<longleftrightarrow> (\<forall>a. vm_end ?a \<le> a \<and> a < fin \<longrightarrow> user_may mm1 write a)"
        proof (cases "vm_end ?a < fin")
          case True: True
          have "unat (fin - vm_end ?a) < unat (fin - start)"
            using True \<open>start < fin\<close> bounds(2) by (simp add: unat_sub word_le_nat_alt word_less_nat_alt)
          from less.hyps [OF this w(2)] that show thesis by blast
        next
          case False
          then have "check_loop (vm_end ?a) fin write mm1 = Some (True, mm1)" by (subst check_loop.simps) simp
          then show thesis by (rule that) (use w False in auto)
        qed
        have "b \<longleftrightarrow> (\<forall>a. start \<le> a \<and> a < fin \<longrightarrow> user_may mm write a)"
        proof -
          have "user_may mm1 write a = user_may mm write a" for a by (rule user_may_cong [OF w(3,4)])
          moreover have "start \<le> a" if "vm_end ?a \<le> a" for a using that bounds(2) by simp
          ultimately show ?thesis unfolding b using here not_le by blast
        qed
        then show ?thesis using run may r w by simp
      qed
    qed
  qed
qed

lemma user_mem_check_ok:
  assumes ok: "areas_ok mm"
  shows "\<exists>b mm'. user_mem_check (Some mm) addr len write = Some (b, Some mm') \<and> areas_ok mm' \<and>
    vmas mm' = vmas mm \<and> mmap_list mm' = mmap_list mm \<and>
    (b \<longleftrightarrow> USER_ACCESS addr (addr + len) \<and> (\<forall>a. addr \<le> a \<and> a < addr + len \<longrightarrow> user_may mm write a))"
proof (cases "USER_ACCESS addr (addr + len)")
  case True
  obtain b mm' where "check_loop addr (addr + len) write mm = Some (b, mm')" "areas_ok mm'" "vmas mm' = vmas mm"
    "mmap_list mm' = mmap_list mm" "b \<longleftrightarrow> (\<forall>a. addr \<le> a \<and> a < addr + len \<longrightarrow> user_may mm write a)"
    using check_loop_ok [OF ok] by blast
  then show ?thesis using True by (simp add: user_mem_check_def)
next
  case False
  then show ?thesis using ok by (intro exI [of _ False] exI [of _ mm]) (simp add: user_mem_check_def)
qed

section \<open>Copying a string\<close>

lemma strnlen_loop_spec:
  "cnt \<le> len \<Longrightarrow> (let n = strnlen_loop m s len cnt in cnt \<le> n \<and> n \<le> len \<and>
     (\<forall>i. cnt \<le> i \<and> i < n \<longrightarrow> m (s + (i - cnt)) \<noteq> NUL) \<and> (n < len \<longrightarrow> m (s + (n - cnt)) = NUL))"
proof (induction m s len cnt rule: strnlen_loop.induct)
  case (1 m s len cnt)
  show ?case
  proof (cases "cnt < len \<and> m s \<noteq> NUL")
    case False
    then have "strnlen_loop m s len cnt = cnt" by (subst strnlen_loop.simps) auto
    then show ?thesis using False 1(2) by auto
  next
    case True
    let ?n = "strnlen_loop m (s + 1) len (cnt + 1)"
    have e: "strnlen_loop m s len cnt = ?n" using True by (subst strnlen_loop.simps) simp
    have "cnt + 1 \<le> len" using True by simp
    note ih = 1(1) [OF True this, unfolded Let_def]
    have h: "cnt + 1 \<le> ?n" using ih by blast
    have h2: "?n \<le> len" using ih by blast
    have h3: "\<forall>i. cnt + 1 \<le> i \<and> i < ?n \<longrightarrow> m (s + 1 + (i - (cnt + 1))) \<noteq> NUL" using ih by blast
    have h4: "?n < len \<longrightarrow> m (s + 1 + (?n - (cnt + 1))) = NUL" using ih by blast
    have "m (s + (i - cnt)) \<noteq> NUL" if "cnt \<le> i" "i < ?n" for i
    proof (cases "i = cnt")
      case False
      then have "s + (i - cnt) = s + 1 + (i - (cnt + 1))" using that by simp
      moreover have "m (s + 1 + (i - (cnt + 1))) \<noteq> NUL" using h3 that False by simp
      ultimately show ?thesis by simp
    qed (use True in simp)
    moreover have "s + (?n - cnt) = s + 1 + (?n - (cnt + 1))" using h by simp
    then have "?n < len \<longrightarrow> m (s + (?n - cnt)) = NUL" using h4 by simp
    ultimately show ?thesis using h h2 unfolding e Let_def by (intro conjI) auto
  qed
qed

lemma strnlen_spec:
  "strnlen m s len \<le> len" "i < strnlen m s len \<Longrightarrow> m (s + i) \<noteq> NUL"
  "strnlen m s len < len \<Longrightarrow> m (s + strnlen m s len) = NUL"
  using strnlen_loop_spec [of 0 len m s] by (simp_all add: strnlen_def Let_def)

text \<open>The string at \<open>src\<close> ends after \<open>n\<close> characters, and the process may read all of it.\<close>

definition user_string :: "mm_struct \<Rightarrow> memory \<Rightarrow> nat \<Rightarrow> nat \<Rightarrow> bool" where
  "user_string mm mem src n \<longleftrightarrow> mem (src + n) = NUL \<and> (\<forall>i < n. mem (src + i) \<noteq> NUL) \<and>
     (\<forall>i \<le> n. user_may mm False (of_nat (src + i)))"

lemma unat_word_of_nat: "n < 2 ^ 64 \<Longrightarrow> unat (of_nat n :: u64) = n"
  by (simp add: unsigned_of_nat take_bit_nat_eq_self)

lemma word_range:
  fixes s p :: u64
  assumes "unat s + unat p < 2 ^ 64"
  shows "unat (s + p) = unat s + unat p" and "\<And>a. s \<le> a \<and> a < s + p \<longleftrightarrow> (\<exists>i < unat p. a = of_nat (unat s + i))"
proof -
  show u: "unat (s + p) = unat s + unat p" using assms by (simp add: unat_plus_if')
  fix a
  show "s \<le> a \<and> a < s + p \<longleftrightarrow> (\<exists>i < unat p. a = of_nat (unat s + i))"
  proof
    assume "s \<le> a \<and> a < s + p"
    then have "unat s \<le> unat a" "unat a < unat s + unat p" by (simp_all add: word_le_nat_alt word_less_nat_alt u)
    then show "\<exists>i < unat p. a = of_nat (unat s + i)"
      by (intro exI [of _ "unat a - unat s"]) (simp del: of_nat_add)
  next
    assume "\<exists>i < unat p. a = of_nat (unat s + i)"
    then obtain i where i: "i < unat p" "a = of_nat (unat s + i)" by blast
    then have "unat a = unat s + i" using assms by (simp add: unat_word_of_nat del: of_nat_add)
    then show "s \<le> a \<and> a < s + p" using i by (simp add: word_le_nat_alt word_less_nat_alt u)
  qed
qed

lemma copy_string_loop_ok:
  assumes "areas_ok mm" and "unat src + unat maxn < 2 ^ 64" and "unat dst + unat maxn < 2 ^ 64"
    and "unat dst + unat maxn \<le> unat src \<or> unat src + unat maxn \<le> unat dst"
  shows "\<exists>b mem' mm'. copy_string_loop (Some mm) mem dst src maxn part = Some (b, mem', Some mm') \<and> areas_ok mm' \<and>
    (\<forall>a. a < unat dst \<or> unat dst + unat maxn \<le> a \<longrightarrow> mem' a = mem a) \<and>
    (b \<longrightarrow> (\<exists>n < unat maxn. user_string mm mem (unat src) n \<and> (\<forall>i \<le> n. mem' (unat dst + i) = mem (unat src + i)))) \<and>
    (0 < part \<and> USER_ACCESS src (src + maxn) \<and> (\<forall>i < unat maxn. user_may mm False (of_nat (unat src + i))) \<and>
       (\<exists>n < unat maxn. mem (unat src + n) = NUL) \<longrightarrow> b)"
  using assms
proof (induction "unat maxn" arbitrary: maxn src dst part mem mm rule: less_induct)
  case less
  note ok = less.prems(1)
  define q where "q = (if part > maxn then maxn else part)"
  have qm: "unat q \<le> unat maxn" by (simp add: q_def word_less_nat_alt not_less)
  then have sq: "unat src + unat q < 2 ^ 64" using less.prems(2) by simp
  note wr = word_range [OF sq]
  obtain b mm1 where c: "user_mem_check (Some mm) src q False = Some (b, Some mm1)" "areas_ok mm1" "vmas mm1 = vmas mm"
    "mmap_list mm1 = mmap_list mm"
    and b: "b \<longleftrightarrow> USER_ACCESS src (src + q) \<and> (\<forall>a. src \<le> a \<and> a < src + q \<longrightarrow> user_may mm False a)"
    using user_mem_check_ok [OF ok] by blast
  have b': "b \<longleftrightarrow> USER_ACCESS src (src + q) \<and> (\<forall>i < unat q. user_may mm False (of_nat (unat src + i)))"
    unfolding b wr(2) by blast
  let ?n = "strnlen mem (unat src) (unat q)"
  have run: "copy_string_loop (Some mm) mem dst src maxn part =
    (if \<not> b then Some (False, mem, Some mm1)
     else if ?n < unat q then Some (True, snd (memcpy mem (unat dst) (unat src) (?n + 1)), Some mm1)
     else if q = maxn then Some (False, mem, Some mm1)
     else copy_string_loop (Some mm1) (snd (memcpy mem (unat dst) (unat src) (unat q))) (dst + q) (src + q) (maxn - q) PGSIZE)"
    by (subst copy_string_loop.simps) (simp add: Let_def q_def [symmetric] c(1))
  note sn = strnlen_spec [where m = mem and s = "unat src" and len = "unat q"]
  show ?case
  proof (cases b)
    case False
    have "\<not> (0 < part \<and> USER_ACCESS src (src + maxn) \<and> (\<forall>i < unat maxn. user_may mm False (of_nat (unat src + i))))"
    proof (intro notI, elim conjE)
      assume pos: "0 < part" and ua: "USER_ACCESS src (src + maxn)" and all: "\<forall>i < unat maxn. user_may mm False (of_nat (unat src + i))"
      have "src < src + maxn" "src + maxn \<le> USERTOP" "USERBASE \<le> src" using ua by (simp_all add: USER_ACCESS_def)
      moreover have "0 < maxn" using \<open>src < src + maxn\<close> by (cases "maxn = 0") (simp_all add: word_neq_0_conv)
      then have "0 < q" using pos by (simp add: q_def)
      then have "src < src + q" using wr(1) by (simp add: word_less_nat_alt)
      moreover have "src + q \<le> src + maxn" using qm wr(1) word_range(1) [OF less.prems(2)] by (simp add: word_le_nat_alt)
      ultimately have "USER_ACCESS src (src + q)" by (simp add: USER_ACCESS_def)
      moreover have "\<forall>i < unat q. user_may mm False (of_nat (unat src + i))" using all qm by (meson less_le_trans)
      ultimately show False using False b' by blast
    qed
    then show ?thesis using run False c(2) by auto
  next
    case b: True
    show ?thesis
    proof (cases "?n < unat q")
      case True
      have dis: "unat dst \<le> unat src \<or> unat src + (?n + 1) \<le> unat dst" using less.prems(4) True qm by linarith
      let ?mem = "snd (memcpy mem (unat dst) (unat src) (?n + 1))"
      have m: "?mem a = (if unat dst \<le> a \<and> a < unat dst + (?n + 1) then mem (unat src + (a - unat dst)) else mem a)" for a
        unfolding memcpy_def snd_conv copy_forward_eq [OF dis] by simp
      have "user_string mm mem (unat src) ?n"
        using sn True b' b by (auto simp: user_string_def)
      moreover have "\<forall>i \<le> ?n. ?mem (unat dst + i) = mem (unat src + i)" unfolding m by auto
      moreover have "?n < unat maxn" using True qm by simp
      moreover have "\<forall>a. a < unat dst \<or> unat dst + unat maxn \<le> a \<longrightarrow> ?mem a = mem a" using True qm unfolding m by auto
      ultimately show ?thesis using run b True c(2) by auto
    next
      case long: False
      then have nn: "?n = unat q" using sn(1) by simp
      then have nonul: "\<forall>i < unat q. mem (unat src + i) \<noteq> NUL" using sn(2) by simp
      show ?thesis
      proof (cases "q = maxn")
        case True
        then show ?thesis using run b long c(2) nonul True by auto
      next
        case False
        let ?mem = "snd (memcpy mem (unat dst) (unat src) (unat q))"
        have lt: "unat q < unat maxn" using qm False by (simp add: order_less_le word_unat_eq_iff)
        have ua: "USER_ACCESS src (src + q)" using b b' by simp
        then have qp: "0 < unat q" by (auto simp: USER_ACCESS_def word_less_nat_alt wr(1))
        have dq: "unat (dst + q) = unat dst + unat q" using less.prems(3) lt by (simp add: unat_plus_if')
        have mq: "unat (maxn - q) = unat maxn - unat q" using lt by (simp add: unat_sub word_le_nat_alt)
        have dis: "unat dst \<le> unat src \<or> unat src + unat q \<le> unat dst" using less.prems(4) lt by linarith
        have m: "?mem a = (if unat dst \<le> a \<and> a < unat dst + unat q then mem (unat src + (a - unat dst)) else mem a)" for a
          unfolding memcpy_def snd_conv copy_forward_eq [OF dis] by simp
        have srcm: "?mem (unat src + i) = mem (unat src + i)" if "i < unat maxn" for i
          using less.prems(4) that lt by (auto simp: m)
        have mq': "unat (maxn - q) < unat maxn" using qp lt by (simp add: mq)
        have pre: "unat (src + q) + unat (maxn - q) < 2 ^ 64" "unat (dst + q) + unat (maxn - q) < 2 ^ 64"
          "unat (dst + q) + unat (maxn - q) \<le> unat (src + q) \<or> unat (src + q) + unat (maxn - q) \<le> unat (dst + q)"
          using less.prems(2,3,4) lt by (simp_all add: wr(1) dq mq) linarith
        obtain b2 mem2 mm2 where r: "copy_string_loop (Some mm1) ?mem (dst + q) (src + q) (maxn - q) PGSIZE = Some (b2, mem2, Some mm2)"
          "areas_ok mm2"
          and fr: "\<forall>a. a < unat (dst + q) \<or> unat (dst + q) + unat (maxn - q) \<le> a \<longrightarrow> mem2 a = ?mem a"
          and snd2: "b2 \<longrightarrow> (\<exists>n < unat (maxn - q). user_string mm1 ?mem (unat (src + q)) n \<and>
            (\<forall>i \<le> n. mem2 (unat (dst + q) + i) = ?mem (unat (src + q) + i)))"
          and cmp: "0 < PGSIZE \<and> USER_ACCESS (src + q) (src + q + (maxn - q)) \<and>
              (\<forall>i < unat (maxn - q). user_may mm1 False (of_nat (unat (src + q) + i))) \<and>
              (\<exists>n < unat (maxn - q). ?mem (unat (src + q) + n) = NUL) \<longrightarrow> b2"
          using less.hyps [OF mq' c(2) pre] by blast
        note um = user_may_cong [OF c(3,4)]
        have run2: "copy_string_loop (Some mm) mem dst src maxn part = Some (b2, mem2, Some mm2)"
          using run b long False r(1) by simp
        have outside: "\<forall>a. a < unat dst \<or> unat dst + unat maxn \<le> a \<longrightarrow> mem2 a = mem a"
          using fr lt by (auto simp: dq mq m)
        have sound: "\<exists>n < unat maxn. user_string mm mem (unat src) n \<and> (\<forall>i \<le> n. mem2 (unat dst + i) = mem (unat src + i))"
          if b2
        proof -
          obtain n where n: "n < unat (maxn - q)" "user_string mm1 ?mem (unat (src + q)) n"
            "\<forall>i \<le> n. mem2 (unat (dst + q) + i) = ?mem (unat (src + q) + i)" using snd2 \<open>b2\<close> by blast
          have nm: "unat q + n < unat maxn" using n(1) by (simp add: mq)
          have src2: "?mem (unat (src + q) + i) = mem (unat src + (unat q + i))" if "i \<le> n" for i
            using srcm [of "unat q + i"] that nm by (simp add: wr(1) add.assoc)
          have split: "P i" if "\<And>i. i < unat q \<Longrightarrow> P i" "\<And>j. j \<le> n \<Longrightarrow> P (unat q + j)" "i \<le> unat q + n" for P :: "nat \<Rightarrow> bool" and i
            using that(1) [of i] that(2) [of "i - unat q"] that(3) by (cases "i < unat q") auto
          have copied: "mem2 (unat dst + i) = mem (unat src + i)" if "i \<le> unat q + n" for i
          proof (rule split [OF _ _ that])
            fix i assume "i < unat q"
            then show "mem2 (unat dst + i) = mem (unat src + i)" using fr by (simp add: dq m)
          next
            fix j assume "j \<le> n"
            then show "mem2 (unat dst + (unat q + j)) = mem (unat src + (unat q + j))"
              using n(3) src2 [of j] by (simp add: dq add.assoc)
          qed
          have may: "user_may mm False (of_nat (unat src + i))" if "i \<le> unat q + n" for i
          proof (rule split [OF _ _ that])
            fix i assume "i < unat q"
            then show "user_may mm False (of_nat (unat src + i))" using b b' by blast
          next
            fix j assume "j \<le> n"
            then have "user_may mm1 False (of_nat (unat (src + q) + j))" using n(2) by (simp add: user_string_def)
            then show "user_may mm False (of_nat (unat src + (unat q + j)))" unfolding um wr(1) add.assoc .
          qed
          have "mem (unat src + i) \<noteq> NUL" if i: "i < unat q + n" for i
          proof (cases "i < unat q")
            case False
            then have "i - unat q < n" using i by simp
            then have "?mem (unat (src + q) + (i - unat q)) \<noteq> NUL" using n(2) unfolding user_string_def by blast
            then show ?thesis using src2 [of "i - unat q"] False i by simp
          qed (use nonul in simp)
          moreover have "mem (unat src + (unat q + n)) = NUL" using n(2) src2 [of n] by (simp add: user_string_def)
          ultimately have "user_string mm mem (unat src) (unat q + n)" using may by (simp add: user_string_def)
          then show ?thesis using nm copied by blast
        qed
        have complete: b2 if ua: "USER_ACCESS src (src + maxn)" and all: "\<forall>i < unat maxn. user_may mm False (of_nat (unat src + i))"
          and n: "\<exists>n < unat maxn. mem (unat src + n) = NUL"
        proof -
          obtain n where n: "n < unat maxn" "mem (unat src + n) = NUL" using n by blast
          have nq: "unat q \<le> n" using nonul n by (metis not_le)
          have e: "src + q + (maxn - q) = src + maxn" by simp
          have "USERBASE \<le> src + q" using ua by (simp add: USER_ACCESS_def word_le_nat_alt wr(1))
          moreover have "src + q < src + maxn"
            using lt word_range(1) [OF less.prems(2)] by (simp add: word_less_nat_alt wr(1))
          ultimately have "USER_ACCESS (src + q) (src + q + (maxn - q))" using ua unfolding e by (simp add: USER_ACCESS_def)
          moreover have "user_may mm1 False (of_nat (unat (src + q) + i))" if "i < unat (maxn - q)" for i
          proof -
            have "unat q + i < unat maxn" using that by (simp add: mq)
            then show ?thesis unfolding um wr(1) add.assoc using all by blast
          qed
          moreover have "?mem (unat (src + q) + (n - unat q)) = NUL"
            using srcm [OF n(1)] n(2) nq by (simp add: wr(1))
          moreover have "n - unat q < unat (maxn - q)" using n(1) nq lt by (simp add: mq)
          moreover have "0 < PGSIZE" by (simp add: PGSIZE_def)
          ultimately show b2 using cmp by blast
        qed
        show ?thesis
          by (rule exI [of _ b2], rule exI [of _ mem2], rule exI [of _ mm2]) (use run2 r(2) outside sound complete in blast)
      qed
    qed
  qed
qed


section \<open>Properties\<close>

text \<open>A space with two areas, one to read and write and one to read.\<close>

definition mm_sample :: mm_struct where
  "mm_sample = \<lparr>vmas = (\<lambda>p. if p = 10 then \<lparr>vm_start = 0x400000, vm_end = 0x402000, vm_flags = VM_READ OR VM_WRITE\<rparr>
       else \<lparr>vm_start = 0x404000, vm_end = 0x405000, vm_flags = VM_READ\<rparr>),
     mmap_list = [10, 11], mmap_cache = Some 11, map_count = 2\<rparr>"

lemma mm_sample_ok: "areas_ok mm_sample"
  by (simp add: areas_ok_def mm_sample_def apart_def USERTOP_def)

text \<open>
  \<open>user_mem_check\<close> always ends, changes nothing but the cache, and accepts a range exactly when it
  lies in user space and every one of its addresses is in an area that allows the access, for writes
  above the lowest page when the area is a stack.
\<close>

theorem user_mem_check_exact:
  assumes ok: "areas_ok mm"
  shows "\<exists>b mm'. user_mem_check (Some mm) addr len write = Some (b, Some mm') \<and> areas_ok mm' \<and>
    vmas mm' = vmas mm \<and> mmap_list mm' = mmap_list mm \<and>
    (b \<longleftrightarrow> USER_ACCESS addr (addr + len) \<and> (\<forall>a. addr \<le> a \<and> a < addr + len \<longrightarrow> user_may mm write a))"
  by (rule user_mem_check_ok [OF ok])

theorem user_mem_check_exact_witness:
  "(\<exists>mm. user_mem_check (Some mm_sample) 0x401FF0 0x10 True = Some (True, mm)) \<and>
   (\<exists>mm. user_mem_check (Some mm_sample) 0x401FF0 0x11 True = Some (False, mm))"
proof
  have "user_may mm_sample True a" if "0x401FF0 \<le> a" "a < 0x402000" for a
  proof -
    have "0x400000 \<le> a" by (rule order_trans [OF _ that(1)]) simp
    then show ?thesis
      using that by (simp add: user_may_def mm_sample_def in_area_def VM_READ_def VM_WRITE_def VM_STACK_def)
  qed
  then show "\<exists>mm. user_mem_check (Some mm_sample) 0x401FF0 0x10 True = Some (True, mm)"
    using user_mem_check_exact [OF mm_sample_ok, of "0x401FF0" "0x10" True]
    by (auto simp: USER_ACCESS_def USERBASE_def USERTOP_def)
  have "\<not> user_may mm_sample True 0x402000"
    by (simp add: user_may_def mm_sample_def in_area_def)
  then have "\<not> (\<forall>a. 0x401FF0 \<le> a \<and> a < 0x401FF0 + 0x11 \<longrightarrow> user_may mm_sample True a)"
    by (intro notI) (drule spec [of _ "0x402000"], simp)
  then show "\<exists>mm. user_mem_check (Some mm_sample) 0x401FF0 0x11 True = Some (False, mm)"
    using user_mem_check_exact [OF mm_sample_ok, of "0x401FF0" "0x11" True] by auto
qed

text \<open>
  (C39) \<open>mm_map\<close> for the pages of \<open>[addr, addr + len)\<close>: outside user space, or when the first page is
  already in an area, it fails with \<open>-E_INVAL\<close>; without memory it fails with \<open>-E_NO_MEM\<close>; otherwise it
  adds the area and keeps the areas in order and disjoint, except when an area begins inside the new
  one: then it does not fail but panics.
\<close>

theorem mm_map_exact:
  assumes ok: "areas_ok mm" and new: "\<forall>v. new = Some v \<longrightarrow> v \<notin> set (mmap_list mm)"
  shows "let start = ROUNDDOWN addr PGSIZE; fin = ROUNDUP (addr + len) PGSIZE in
    if \<not> USER_ACCESS start fin then mm_map new addr len flags mm = Some (- E_INVAL, mm)
    else if \<exists>p \<in> set (mmap_list mm). in_area mm start p
    then \<exists>mm'. mm_map new addr len flags mm = Some (- E_INVAL, mm') \<and> areas_ok mm' \<and>
      vmas mm' = vmas mm \<and> mmap_list mm' = mmap_list mm
    else (case new of
      None \<Rightarrow> mm_map new addr len flags mm = Some (- E_NO_MEM, mm)
    | Some v \<Rightarrow>
        if \<exists>p \<in> set (mmap_list mm). start < vm_start (vmas mm p) \<and> vm_start (vmas mm p) < fin
        then mm_map new addr len flags mm = None
        else \<exists>mm'. mm_map new addr len flags mm = Some (0, mm') \<and> areas_ok mm' \<and>
          set (mmap_list mm') = insert v (set (mmap_list mm)) \<and>
          vmas mm' = (vmas mm)(v := \<lparr>vm_start = start, vm_end = fin, vm_flags = flags\<rparr>))"
  unfolding Let_def by (rule mm_map_cases [OF ok new refl refl])

theorem mm_map_exact_witness:
  "mm_map (Some 12) 0x403000 0x2000 VM_READ mm_sample = None \<and>
   (\<exists>mm'. mm_map (Some 12) 0x402000 0x2000 VM_READ mm_sample = Some (0, mm') \<and> areas_ok mm' \<and> 12 \<in> set (mmap_list mm'))"
proof
  have new: "\<forall>v. Some 12 = Some v \<longrightarrow> v \<notin> set (mmap_list mm_sample)" by (simp add: mm_sample_def)
  have r: "ROUNDDOWN 0x403000 PGSIZE = 0x403000" "ROUNDUP (0x403000 + 0x2000) PGSIZE = 0x405000"
    "ROUNDDOWN 0x402000 PGSIZE = 0x402000" "ROUNDUP (0x402000 + 0x2000) PGSIZE = 0x404000"
    by (simp_all add: ROUNDDOWN_def ROUNDUP_def PGSIZE_def)
  show "mm_map (Some 12) 0x403000 0x2000 VM_READ mm_sample = None"
    using mm_map_exact [OF mm_sample_ok new, where addr = "0x403000" and len = "0x2000" and flags = VM_READ] unfolding r Let_def
    by (simp add: USER_ACCESS_def USERBASE_def USERTOP_def in_area_def mm_sample_def)
  have "\<exists>mm'. mm_map (Some 12) 0x402000 0x2000 VM_READ mm_sample = Some (0, mm') \<and> areas_ok mm' \<and>
          set (mmap_list mm') = insert 12 (set (mmap_list mm_sample)) \<and>
          vmas mm' = (vmas mm_sample)(12 := \<lparr>vm_start = 0x402000, vm_end = 0x404000, vm_flags = VM_READ\<rparr>)"
    using mm_map_exact [OF mm_sample_ok new, where addr = "0x402000" and len = "0x2000" and flags = VM_READ] unfolding r Let_def
    by (simp add: USER_ACCESS_def USERBASE_def USERTOP_def in_area_def, simp add: mm_sample_def)
  then show "\<exists>mm'. mm_map (Some 12) 0x402000 0x2000 VM_READ mm_sample = Some (0, mm') \<and> areas_ok mm' \<and> 12 \<in> set (mmap_list mm')"
    by auto
qed

text \<open>
  \<open>copy_string\<close> from user memory, into a buffer of \<open>maxn\<close> bytes apart from it, always ends and
  writes only into the buffer. When it succeeds the source is a string of less than \<open>maxn\<close> characters
  that the process may read, and the buffer holds it; and it succeeds when the whole range is readable
  and holds the end of the string.
\<close>

theorem copy_string_correct:
  assumes ok: "areas_ok mm" and room: "unat src + unat maxn < 2 ^ 64" "unat dst + unat maxn < 2 ^ 64"
    and dis: "unat dst + unat maxn \<le> unat src \<or> unat src + unat maxn \<le> unat dst"
  shows "\<exists>b mem' mm'. copy_string (Some mm) mem dst src maxn = Some (b, mem', Some mm') \<and> areas_ok mm' \<and>
    (\<forall>a. a < unat dst \<or> unat dst + unat maxn \<le> a \<longrightarrow> mem' a = mem a) \<and>
    (b \<longrightarrow> (\<exists>n < unat maxn. user_string mm mem (unat src) n \<and> (\<forall>i \<le> n. mem' (unat dst + i) = mem (unat src + i)))) \<and>
    (USER_ACCESS src (src + maxn) \<and> (\<forall>i < unat maxn. user_may mm False (of_nat (unat src + i))) \<and>
       (\<exists>n < unat maxn. mem (unat src + n) = NUL) \<longrightarrow> b)"
proof -
  have "(src + PGSIZE) mod PGSIZE < PGSIZE" by (rule word_mod_less_divisor) (simp add: PGSIZE_def)
  then have "PGSIZE - (src + PGSIZE) mod PGSIZE \<noteq> 0" by auto
  then have "0 < PGSIZE - (src + PGSIZE) mod PGSIZE" unfolding word_neq_0_conv .
  moreover have "ROUNDDOWN (src + PGSIZE) PGSIZE - src = PGSIZE - (src + PGSIZE) mod PGSIZE" by (simp add: ROUNDDOWN_def)
  ultimately have "0 < ROUNDDOWN (src + PGSIZE) PGSIZE - src" by simp
  then show ?thesis
    using copy_string_loop_ok [OF ok room dis, of mem "ROUNDDOWN (src + PGSIZE) PGSIZE - src"]
    unfolding copy_string_def by blast
qed

theorem copy_string_correct_witness:
  "\<exists>mem' mm'. copy_string (Some mm_sample) ((\<lambda>_. NUL)(0x400000 := CHR ''a'')) 0x100 0x400000 8 = Some (True, mem', Some mm') \<and>
     mem' 0x100 = CHR ''a''"
proof -
  let ?mem = "(\<lambda>_. NUL)(0x400000 := CHR ''a'')"
  have may: "\<forall>i < unat (8 :: u64). user_may mm_sample False (of_nat (unat (0x400000 :: u64) + i))"
  proof (intro allI impI)
    fix i assume i: "i < unat (8 :: u64)"
    have "unat (of_nat (unat (0x400000 :: u64) + i) :: u64) = 0x400000 + i" using i by (subst unat_word_of_nat) simp_all
    then have "0x400000 \<le> (of_nat (unat (0x400000 :: u64) + i) :: u64)" "(of_nat (unat (0x400000 :: u64) + i) :: u64) < 0x402000"
      using i by (simp_all add: word_le_nat_alt word_less_nat_alt)
    then show "user_may mm_sample False (of_nat (unat (0x400000 :: u64) + i))"
      by (simp add: user_may_def mm_sample_def in_area_def VM_READ_def VM_WRITE_def)
  qed
  have ua: "USER_ACCESS 0x400000 (0x400000 + 8)" by (simp add: USER_ACCESS_def USERBASE_def USERTOP_def)
  have nul: "\<exists>n < unat (8 :: u64). ?mem (unat (0x400000 :: u64) + n) = NUL" by (rule exI [of _ 1]) simp
  have room: "unat (0x400000 :: u64) + unat (8 :: u64) < 2 ^ 64" "unat (0x100 :: u64) + unat (8 :: u64) < 2 ^ 64"
    by simp_all
  have dis: "unat (0x100 :: u64) + unat (8 :: u64) \<le> unat (0x400000 :: u64) \<or>
      unat (0x400000 :: u64) + unat (8 :: u64) \<le> unat (0x100 :: u64)"
    by simp
  obtain b mem' mm' where r: "copy_string (Some mm_sample) ?mem 0x100 0x400000 8 = Some (b, mem', Some mm')"
    and s: "b \<longrightarrow> (\<exists>n < unat (8 :: u64). user_string mm_sample ?mem (unat (0x400000 :: u64)) n \<and>
      (\<forall>i \<le> n. mem' (unat (0x100 :: u64) + i) = ?mem (unat (0x400000 :: u64) + i)))"
    and c: "USER_ACCESS 0x400000 (0x400000 + 8) \<and> (\<forall>i < unat (8 :: u64). user_may mm_sample False (of_nat (unat (0x400000 :: u64) + i))) \<and>
       (\<exists>n < unat (8 :: u64). ?mem (unat (0x400000 :: u64) + n) = NUL) \<longrightarrow> b"
    using copy_string_correct [OF mm_sample_ok room dis, of ?mem] by blast
  have b using c ua may nul by blast
  then have "mem' 0x100 = CHR ''a''" using s by fastforce
  then show ?thesis using r \<open>b\<close> by simp
qed

end
