(* ===== verification/PageTable.thy ===== *)
theory PageTable
  imports FirstFit MemLayout
begin

text \<open>
  Paging, \<open>lab8/kern/mm/pmm.c\<close> and \<open>pmm.h\<close>. Physical memory is the array of pages behind \<open>pages\<close>,
  each read as a table of 512 words; a kernel address of a table is the index of its page, the address
  of an entry is the page and the index in it. Pages are allocated by the first-fit manager of
  theory \<open>FirstFit\<close>, whose descriptors also hold the reference counts. \<open>tlb_invalidate\<close> and
  \<open>flush_tlb\<close> only tell the processor that a table has changed; masking interrupts has no effect on
  one processor. \<open>pra_vaddr\<close>, which nothing reads, is left out.

  A walk of the tables is \<open>tbl\<close>: the table or page a directory reaches by a list of indices.
  \<open>tables_ok\<close> says that the tables form trees that share nothing and use no free page; \<open>space_ok\<close> adds
  that the mapped pages are allocated, are no tables and are counted.
\<close>

section \<open>Memory\<close>

record phys =
  area :: free_area
  words :: "nat \<Rightarrow> nat \<Rightarrow> u64"
  npage :: u64

definition alloc_page :: "phys \<Rightarrow> (nat option \<times> phys) option" where
  "alloc_page s = do { (page, a) \<leftarrow> default_alloc_pages 1 (area s); Some (page, s\<lparr>area := a\<rparr>) }"

definition free_page :: "nat \<Rightarrow> phys \<Rightarrow> phys option" where
  "free_page page s = do { a \<leftarrow> default_free_pages page 1 (area s); Some (s\<lparr>area := a\<rparr>) }"

definition nr_free_pages :: "phys \<Rightarrow> nat" where
  "nr_free_pages s = default_nr_free_pages (area s)"

definition page_ref :: "phys \<Rightarrow> nat \<Rightarrow> int" where
  "page_ref s p = ref (pages (area s) p)"

definition set_ref :: "nat \<Rightarrow> int \<Rightarrow> phys \<Rightarrow> phys" where
  "set_ref p v s = s\<lparr>area := upd_page p (set_page_ref v) (area s)\<rparr>"

definition page_ref_inc :: "nat \<Rightarrow> phys \<Rightarrow> phys" where
  "page_ref_inc p s = set_ref p (page_ref s p + 1) s"

definition page_ref_dec :: "nat \<Rightarrow> phys \<Rightarrow> phys" where
  "page_ref_dec p s = set_ref p (page_ref s p - 1) s"

definition pa2page :: "phys \<Rightarrow> u64 \<Rightarrow> nat option" where
  "pa2page s pa = (if PPN pa \<ge> npage s then None else Some (unat (PPN pa - nbase)))"

text \<open>The kernel address of a table: the page it fills.\<close>

definition KADDR :: "phys \<Rightarrow> u64 \<Rightarrow> nat option" where
  "KADDR s pa = (if PPN pa \<ge> npage s then None else Some (unat (PPN pa - nbase)))"

definition page2kva :: "phys \<Rightarrow> nat \<Rightarrow> nat option" where
  "page2kva s p = KADDR s (page2pa p)"

definition pte2page :: "phys \<Rightarrow> u64 \<Rightarrow> nat option" where
  "pte2page s pte = (if \<not> is_valid pte then None else pa2page s (PTE_ADDR pte))"

definition pde2page :: "phys \<Rightarrow> u64 \<Rightarrow> nat option" where
  "pde2page s pde = pa2page s (PTE_ADDR pde)"

text \<open>\<open>memset\<close> of a page to 0, \<open>memcpy\<close> of a page, and a store.\<close>

definition clear_page :: "nat \<Rightarrow> phys \<Rightarrow> phys" where
  "clear_page p s = s\<lparr>words := (words s)(p := (\<lambda>_. 0))\<rparr>"

definition copy_page :: "nat \<Rightarrow> nat \<Rightarrow> phys \<Rightarrow> phys" where
  "copy_page dst src s = s\<lparr>words := (words s)(dst := words s src)\<rparr>"

definition store :: "nat \<times> nat \<Rightarrow> u64 \<Rightarrow> phys \<Rightarrow> phys" where
  "store a e s = s\<lparr>words := (words s)(fst a := (words s (fst a))(snd a := e))\<rparr>"

definition load :: "phys \<Rightarrow> nat \<times> nat \<Rightarrow> u64" where
  "load s a = words s (fst a) (snd a)"

section \<open>The code\<close>

text \<open>One level of \<open>get_pte\<close>: the table an entry of a directory points to.\<close>

definition next_table :: "nat \<times> nat \<Rightarrow> bool \<Rightarrow> phys \<Rightarrow> (nat option \<times> phys) option" where
  "next_table pdep create s =
     (if \<not> is_valid (load s pdep) then
        if \<not> create then Some (None, s)
        else do {
          (page, s) \<leftarrow> alloc_page s;
          (case page of
             None \<Rightarrow> Some (None, s)
           | Some q \<Rightarrow> do {
               let s = set_ref q 1 s;
               t \<leftarrow> KADDR s (page2pa q);
               let s = store pdep (pte_create (page2ppn q) (PTE_U OR PTE_V)) (clear_page t s);
               t \<leftarrow> KADDR s (PTE_ADDR (load s pdep));
               Some (Some t, s)
             })
        }
      else do { t \<leftarrow> KADDR s (PTE_ADDR (load s pdep)); Some (Some t, s) })"

definition get_pte :: "nat \<Rightarrow> u64 \<Rightarrow> bool \<Rightarrow> phys \<Rightarrow> ((nat \<times> nat) option \<times> phys) option" where
  "get_pte pgdir la create s = do {
     (t0, s) \<leftarrow> next_table (pgdir, PDX1 la) create s;
     (case t0 of
        None \<Rightarrow> Some (None, s)
      | Some pd0 \<Rightarrow> do {
          (t1, s) \<leftarrow> next_table (pd0, PDX0 la) create s;
          (case t1 of None \<Rightarrow> Some (None, s) | Some pt \<Rightarrow> Some (Some (pt, PTX la), s))
        })
   }"

definition get_page :: "nat \<Rightarrow> u64 \<Rightarrow> phys \<Rightarrow> ((nat option \<times> (nat \<times> nat) option) \<times> phys) option" where
  "get_page pgdir la s = do {
     (ptep, s) \<leftarrow> get_pte pgdir la False s;
     (case ptep of
        Some a \<Rightarrow> if is_valid (load s a) then do { p \<leftarrow> pte2page s (load s a); Some ((Some p, ptep), s) }
          else Some ((None, ptep), s)
      | None \<Rightarrow> Some ((None, ptep), s))
   }"

definition page_remove_pte :: "nat \<Rightarrow> u64 \<Rightarrow> nat \<times> nat \<Rightarrow> phys \<Rightarrow> phys option" where
  "page_remove_pte pgdir la ptep s =
     (if is_valid (load s ptep) then do {
        page \<leftarrow> pte2page s (load s ptep);
        let s = page_ref_dec page s;
        s \<leftarrow> (if page_ref s page = 0 then free_page page s else Some s);
        Some (store ptep 0 s)
      }
      else Some s)"

definition page_remove :: "nat \<Rightarrow> u64 \<Rightarrow> phys \<Rightarrow> phys option" where
  "page_remove pgdir la s = do {
     (ptep, s) \<leftarrow> get_pte pgdir la False s;
     (case ptep of None \<Rightarrow> Some s | Some a \<Rightarrow> page_remove_pte pgdir la a s)
   }"

definition page_insert :: "nat \<Rightarrow> nat \<Rightarrow> u64 \<Rightarrow> u32 \<Rightarrow> phys \<Rightarrow> (int \<times> phys) option" where
  "page_insert pgdir page la perm s = do {
     (ptep, s) \<leftarrow> get_pte pgdir la True s;
     (case ptep of
        None \<Rightarrow> Some (- E_NO_MEM, s)
      | Some a \<Rightarrow> do {
          let s = page_ref_inc page s;
          s \<leftarrow> (if is_valid (load s a) then do {
                 p \<leftarrow> pte2page s (load s a);
                 if p = page then Some (page_ref_dec page s) else page_remove_pte pgdir la a s
               } else Some s);
          Some (0, store a (pte_create (page2ppn page) (PTE_V OR perm)) s)
        })
   }"

definition pgdir_alloc_page :: "nat \<Rightarrow> u64 \<Rightarrow> u32 \<Rightarrow> phys \<Rightarrow> (nat option \<times> phys) option" where
  "pgdir_alloc_page pgdir la perm s = do {
     (page, s) \<leftarrow> alloc_page s;
     (case page of
        None \<Rightarrow> Some (None, s)
      | Some p \<Rightarrow> do {
          (ret, s) \<leftarrow> page_insert pgdir p la perm s;
          if ret \<noteq> 0 then do { s \<leftarrow> free_page p s; Some (None, s) }
          else do { kassert (page_ref s p = 1); Some (Some p, s) }
        })
   }"

fun map_loop :: "nat \<Rightarrow> nat \<Rightarrow> u64 \<Rightarrow> u64 \<Rightarrow> u32 \<Rightarrow> phys \<Rightarrow> phys option" where
  "map_loop 0 pgdir la pa perm s = Some s"
| "map_loop (Suc n) pgdir la pa perm s = do {
     (ptep, s) \<leftarrow> get_pte pgdir la True s;
     (case ptep of
        None \<Rightarrow> None
      | Some a \<Rightarrow> map_loop n pgdir (la + PGSIZE) (pa + PGSIZE) perm (store a (pte_create (drop_bit 12 pa) (PTE_V OR perm)) s))
   }"

definition boot_map_segment :: "nat \<Rightarrow> u64 \<Rightarrow> u64 \<Rightarrow> u64 \<Rightarrow> u32 \<Rightarrow> phys \<Rightarrow> phys option" where
  "boot_map_segment pgdir la len pa perm s = do {
     kassert (PGOFF la = PGOFF pa);
     map_loop (unat (ROUNDUP (len + PGOFF la) PGSIZE div PGSIZE)) pgdir (ROUNDDOWN la PGSIZE) (ROUNDDOWN pa PGSIZE) perm s
   }"

definition boot_alloc_page :: "phys \<Rightarrow> (nat \<times> phys) option" where
  "boot_alloc_page s = do {
     (p, s) \<leftarrow> alloc_page s;
     (case p of None \<Rightarrow> None | Some p \<Rightarrow> do { t \<leftarrow> page2kva s p; Some (t, s) })
   }"

text \<open>The loop of \<open>unmap_range\<close>.\<close>

partial_function (option) unmap_loop :: "nat \<Rightarrow> u64 \<Rightarrow> u64 \<Rightarrow> phys \<Rightarrow> phys option" where
  "unmap_loop pgdir start end' s = do {
     (ptep, s) \<leftarrow> get_pte pgdir start False s;
     (start, s) \<leftarrow> (case ptep of
         None \<Rightarrow> Some (ROUNDDOWN (start + PTSIZE) PTSIZE, s)
       | Some a \<Rightarrow> do {
           s \<leftarrow> (if load s a \<noteq> 0 then page_remove_pte pgdir start a s else Some s);
           Some (start + PGSIZE, s)
         });
     if start \<noteq> 0 \<and> start < end' then unmap_loop pgdir start end' s else Some s
   }"

definition unmap_range :: "nat \<Rightarrow> u64 \<Rightarrow> u64 \<Rightarrow> phys \<Rightarrow> phys option" where
  "unmap_range pgdir start end' s = do {
     kassert (start mod PGSIZE = 0 \<and> end' mod PGSIZE = 0);
     kassert (USER_ACCESS start end');
     unmap_loop pgdir start end' s
   }"

text \<open>The inner and the outer loop of \<open>exit_range\<close>.\<close>

definition table_empty :: "phys \<Rightarrow> nat \<Rightarrow> bool" where
  "table_empty s pt = list_all (\<lambda>i. \<not> is_valid (words s pt i)) [0..<512]"

partial_function (option) exit_inner ::
  "nat \<Rightarrow> u64 \<Rightarrow> u64 \<Rightarrow> u64 \<Rightarrow> bool \<Rightarrow> phys \<Rightarrow> (bool \<times> phys) option" where
  "exit_inner pd0 d1start d0start end' free_pd0 s = do {
     let pde0 = words s pd0 (PDX0 d0start);
     (free_pd0, s) \<leftarrow> (if is_valid pde0 then do {
         page \<leftarrow> pde2page s pde0;
         pt \<leftarrow> page2kva s page;
         if table_empty s pt then do { s \<leftarrow> free_page page s; Some (free_pd0, store (pd0, PDX0 d0start) 0 s) }
         else Some (free_pd0, s)
       } else Some (False, s));
     let d0start = d0start + PTSIZE;
     if d0start \<noteq> 0 \<and> d0start < d1start + PDSIZE \<and> d0start < end'
     then exit_inner pd0 d1start d0start end' free_pd0 s
     else Some (free_pd0, s)
   }"

partial_function (option) exit_outer :: "nat \<Rightarrow> u64 \<Rightarrow> u64 \<Rightarrow> u64 \<Rightarrow> phys \<Rightarrow> phys option" where
  "exit_outer pgdir d1start d0start end' s = do {
     let pde1 = words s pgdir (PDX1 d1start);
     s \<leftarrow> (if is_valid pde1 then do {
         page \<leftarrow> pde2page s pde1;
         pd0 \<leftarrow> page2kva s page;
         (free_pd0, s) \<leftarrow> exit_inner pd0 d1start d0start end' True s;
         if free_pd0 then do { s \<leftarrow> free_page page s; Some (store (pgdir, PDX1 d1start) 0 s) } else Some s
       } else Some s);
     let d1start = d1start + PDSIZE;
     if d1start \<noteq> 0 \<and> d1start < end' then exit_outer pgdir d1start d1start end' s else Some s
   }"

definition exit_range :: "nat \<Rightarrow> u64 \<Rightarrow> u64 \<Rightarrow> phys \<Rightarrow> phys option" where
  "exit_range pgdir start end' s = do {
     kassert (start mod PGSIZE = 0 \<and> end' mod PGSIZE = 0);
     kassert (USER_ACCESS start end');
     exit_outer pgdir (ROUNDDOWN start PDSIZE) (ROUNDDOWN start PTSIZE) end' s
   }"

text \<open>One round of \<open>copy_range\<close> at a page that is mapped in \<open>from\<close>, and its loop.\<close>

definition copy_one :: "nat \<Rightarrow> u64 \<Rightarrow> nat \<times> nat \<Rightarrow> phys \<Rightarrow> (int \<times> phys) option" where
  "copy_one to start ptep s = do {
     (nptep, s) \<leftarrow> get_pte to start True s;
     if nptep = None then Some (- E_NO_MEM, s)
     else do {
       let perm = ucast (load s ptep) AND PTE_USER;
       page \<leftarrow> pte2page s (load s ptep);
       (npage, s) \<leftarrow> alloc_page s;
       (case npage of
          None \<Rightarrow> None
        | Some np \<Rightarrow> do {
            src \<leftarrow> page2kva s page;
            dst \<leftarrow> page2kva s np;
            page_insert to np start perm (copy_page dst src s)
          })
     }
   }"

partial_function (option) copy_loop :: "nat \<Rightarrow> nat \<Rightarrow> u64 \<Rightarrow> u64 \<Rightarrow> phys \<Rightarrow> (int \<times> phys) option" where
  "copy_loop to from start end' s = do {
     (ptep, s) \<leftarrow> get_pte from start False s;
     (case ptep of
        None \<Rightarrow>
          let start = ROUNDDOWN (start + PTSIZE) PTSIZE in
          if start \<noteq> 0 \<and> start < end' then copy_loop to from start end' s else Some (0, s)
      | Some a \<Rightarrow> do {
          (ret, s) \<leftarrow> (if is_valid (load s a) then copy_one to start a s else Some (0, s));
          if ret \<noteq> 0 then Some (ret, s)
          else
            let start = start + PGSIZE in
            if start \<noteq> 0 \<and> start < end' then copy_loop to from start end' s else Some (0, s)
        })
   }"

definition copy_range :: "nat \<Rightarrow> nat \<Rightarrow> u64 \<Rightarrow> u64 \<Rightarrow> phys \<Rightarrow> (int \<times> phys) option" where
  "copy_range to from start end' s = do {
     kassert (start mod PGSIZE = 0 \<and> end' mod PGSIZE = 0);
     kassert (USER_ACCESS start end');
     copy_loop to from start end' s
   }"

section \<open>Trees of tables\<close>

text \<open>The table or page that a directory reaches by a list of indices, the last index being that into
  the directory; and the entry at the end of such a path.\<close>

fun tbl :: "phys \<Rightarrow> nat \<Rightarrow> nat list \<Rightarrow> nat option" where
  "tbl s d [] = Some d"
| "tbl s d (k # xs) = (case tbl s d xs of
     None \<Rightarrow> None
   | Some p \<Rightarrow> if is_valid (words s p k) then Some (epage (words s p k)) else None)"

definition ent :: "phys \<Rightarrow> nat \<Rightarrow> nat list \<Rightarrow> u64" where
  "ent s d ks = (case tbl s d (tl ks) of None \<Rightarrow> 0 | Some p \<Rightarrow> words s p (hd ks))"

text \<open>\<open>D\<close> gives the directories and the indices of each that lead to tables of its own (the entries
  for the kernel are shared by all of them).\<close>

definition node :: "(nat \<Rightarrow> nat set option) \<Rightarrow> nat \<Rightarrow> nat list \<Rightarrow> bool" where
  "node D d xs \<longleftrightarrow> (\<exists>I. D d = Some I \<and> (xs \<noteq> [] \<longrightarrow> last xs \<in> I)) \<and> (\<forall>i \<in> set xs. i < 512)"

definition in_use :: "phys \<Rightarrow> blocks \<Rightarrow> nat \<Rightarrow> bool" where
  "in_use s bs p \<longleftrightarrow> is_page (npage s) p \<and> p \<notin> pool_pages bs \<and>
     \<not> PageReserved (pages (area s) p) \<and> \<not> PageProperty (pages (area s) p)"

definition pool_ok :: "phys \<Rightarrow> blocks \<Rightarrow> bool" where
  "pool_ok s bs \<longleftrightarrow> frep (area s) bs \<and> nbase \<le> npage s \<and> npage s < 2 ^ 44 \<and>
     (\<forall>q \<in> pool_pages bs. is_page (npage s) q \<and> page_ref s q = 0)"

definition tables_ok :: "phys \<Rightarrow> blocks \<Rightarrow> (nat \<Rightarrow> nat set option) \<Rightarrow> bool" where
  "tables_ok s bs D \<longleftrightarrow> pool_ok s bs \<and>
     (\<forall>d xs p. node D d xs \<and> length xs \<le> 2 \<and> tbl s d xs = Some p \<longrightarrow> in_use s bs p) \<and>
     (\<forall>d xs d' ys p. node D d xs \<and> node D d' ys \<and> length xs \<le> 2 \<and> length ys \<le> 2 \<and>
        tbl s d xs = Some p \<and> tbl s d' ys = Some p \<longrightarrow> d = d' \<and> xs = ys)"

definition is_table :: "phys \<Rightarrow> (nat \<Rightarrow> nat set option) \<Rightarrow> nat \<Rightarrow> bool" where
  "is_table s D p \<longleftrightarrow> (\<exists>d xs. node D d xs \<and> length xs \<le> 2 \<and> tbl s d xs = Some p)"

text \<open>The places where a page is mapped.\<close>

definition holders :: "phys \<Rightarrow> (nat \<Rightarrow> nat set option) \<Rightarrow> nat \<Rightarrow> (nat \<times> nat list) set" where
  "holders s D p = {(d, xs). node D d xs \<and> length xs = 3 \<and> tbl s d xs = Some p}"

text \<open>\<open>c\<close> counts the references to a page that are not entries of a table.\<close>

definition space_ok :: "phys \<Rightarrow> blocks \<Rightarrow> (nat \<Rightarrow> nat set option) \<Rightarrow> (nat \<Rightarrow> nat) \<Rightarrow> bool" where
  "space_ok s bs D c \<longleftrightarrow> tables_ok s bs D \<and>
     (\<forall>p. holders s D p \<noteq> {} \<or> 0 < c p \<longrightarrow>
        in_use s bs p \<and> \<not> is_table s D p \<and> page_ref s p = int (card (holders s D p) + c p))"

lemma tables_in_use: "tables_ok s bs D \<Longrightarrow> node D d xs \<Longrightarrow> length xs \<le> 2 \<Longrightarrow> tbl s d xs = Some p \<Longrightarrow> in_use s bs p"
  by (simp add: tables_ok_def)

lemma tables_inj:
  "tables_ok s bs D \<Longrightarrow> node D d xs \<Longrightarrow> node D d' ys \<Longrightarrow> length xs \<le> 2 \<Longrightarrow> length ys \<le> 2 \<Longrightarrow>
   tbl s d xs = Some p \<Longrightarrow> tbl s d' ys = Some p \<Longrightarrow> d = d' \<and> xs = ys"
  unfolding tables_ok_def by blast

lemma tables_pool: "tables_ok s bs D \<Longrightarrow> pool_ok s bs"
  by (simp add: tables_ok_def)

lemma node_tl: "node D d (k # xs) \<Longrightarrow> node D d xs"
  by (auto simp: node_def split: if_splits)

lemma tbl_ent: "tbl s d (k # xs) = (if is_valid (ent s d (k # xs)) then Some (epage (ent s d (k # xs))) else None)"
  by (simp add: ent_def split: option.split)

lemma tbl_tl: "tbl s d (k # xs) = Some p \<Longrightarrow> \<exists>q. tbl s d xs = Some q"
  by (auto split: option.splits)

lemma tbl_words: "words s' = words s \<Longrightarrow> tbl s' d xs = tbl s d xs"
  by (induction xs) (simp_all split: option.split)

lemma tbl_None: "tbl s d xs = None \<Longrightarrow> tbl s d (k # xs) = None"
  by simp

lemma KADDR_table:
  assumes "pool_ok s bs" and "is_page (npage s) (epage e)"
  shows "KADDR s (PTE_ADDR e) = Some (epage e)"
  using epage_is_page [OF _ assms(2)] assms(1) by (simp add: KADDR_def epage_def pool_ok_def not_le)

lemma pte2page_epage:
  assumes "pool_ok s bs" and "is_page (npage s) (epage e)" and "is_valid e"
  shows "pte2page s e = Some (epage e)"
  using epage_is_page [OF _ assms(2)] assms(1,3) by (simp add: pte2page_def pa2page_def epage_def pool_ok_def not_le)

lemma KADDR_page:
  assumes "pool_ok s bs" and "is_page (npage s) p"
  shows "KADDR s (page2pa p) = Some p"
proof -
  have n: "npage s < 2 ^ 44" using assms(1) by (simp add: pool_ok_def)
  note u = page2ppn_unat [OF n assms(2)]
  have "page2ppn p < npage s" using u assms(2) by (simp add: word_less_nat_alt is_page_def nbase_def PGSIZE_def)
  moreover have "unat (page2ppn p - nbase) = p"
  proof -
    have "nbase \<le> page2ppn p" using u by (simp add: word_le_nat_alt nbase_def PGSIZE_def)
    then show ?thesis using u by (simp add: unat_sub nbase_def PGSIZE_def)
  qed
  ultimately show ?thesis by (simp add: KADDR_def PPN_page2pa [OF n assms(2)] not_le)
qed

section \<open>Taking and returning pages\<close>

lemma pool_pages_empty: "blks_ok bs \<Longrightarrow> pool_pages bs = {} \<Longrightarrow> bs = []"
  using blks_ok_pos by (cases bs) (force simp: blk_pages_def)+

lemma carve_page_fields:
  "ref (pages (carve_block p n s) q) = ref (pages s q)"
  "q \<noteq> p \<Longrightarrow> q \<noteq> p + n \<Longrightarrow> pages (carve_block p n s) q = pages s q"
  by (simp_all add: carve_block_def Let_def)

lemma alloc_page_ok:
  assumes ok: "pool_ok s bs"
  obtains "bs = []" and "alloc_page s = Some (None, s)"
  | q a bs' where "alloc_page s = Some (Some q, s\<lparr>area := a\<rparr>)" and "q \<in> pool_pages bs" and "pool_ok (s\<lparr>area := a\<rparr>) bs'"
    and "pool_pages bs' = pool_pages bs - {q}" and "in_use (s\<lparr>area := a\<rparr>) bs' q" and "ref (pages a q) = 0"
    and "\<And>r. r \<notin> pool_pages bs \<Longrightarrow> pages a r = pages (area s) r"
proof -
  have rep: "frep (area s) bs" using ok by (simp add: pool_ok_def)
  note al = default_alloc_refines [OF rep, of 1, simplified]
  show thesis
  proof (cases "ff_take 1 bs")
    case None
    then have "\<forall>b \<in> set bs. snd b < 1" by (simp add: ff_take_None)
    then have "bs = []" using blks_ok_pos [OF frep_ok [OF rep]] by (cases bs) force+
    then show thesis using al None that(1) by (simp add: alloc_page_def)
  next
    case (Some r)
    then obtain q bs' where r: "ff_take 1 bs = Some (q, bs')" by (cases r) auto
    let ?a = "carve_block q 1 (area s)"
    have a: "default_alloc_pages 1 (area s) = Some (Some q, ?a)" and rep': "frep ?a bs'"
      using al r by simp_all
    from ff_take_split [OF r] obtain xs k ys where bs: "bs = xs @ (q, k) # ys" and k: "1 \<le> k"
      and bs': "bs' = xs @ (if 1 < k then (q + 1, k - 1) # ys else ys)" by blast
    note okb = frep_ok [OF rep, unfolded bs]
    have qq: "q \<notin> pool_pages xs" "q \<notin> pool_pages ys" using blks_ok_fst_notin(1,2) [OF okb, of q] k by auto
    have pool: "pool_pages bs' = pool_pages bs - {q}"
      unfolding bs bs' using qq k by (auto simp: blk_pages_def)
    have same: "pages ?a r = pages (area s) r" if "r \<notin> pool_pages bs" for r
    proof (cases "1 < k")
      case True
      then show ?thesis using that carve_page_fields(2) [of r q 1 "area s"] k by (auto simp: bs blk_pages_def)
    next
      case False
      then have "property (pages (area s) q) = 1" using frep_property [of "area s" xs q k ys] rep bs k by simp
      then show ?thesis using that k by (auto simp: bs blk_pages_def carve_block_def Let_def)
    qed
    have clean: "\<not> PageReserved (pages ?a q) \<and> \<not> PageProperty (pages ?a q)"
      by (rule carve_granted_clean [OF rep [unfolded bs], of 1 q]) (use k in auto)
    have qin: "q \<in> pool_pages bs" using k by (simp add: bs blk_pages_def)
    show thesis
    proof (rule that(2) [of q ?a bs'])
      show "alloc_page s = Some (Some q, s\<lparr>area := ?a\<rparr>)" using a by (simp add: alloc_page_def)
      show "pool_ok (s\<lparr>area := ?a\<rparr>) bs'"
        using ok rep' by (auto simp: pool_ok_def pool page_ref_def carve_page_fields)
      show "in_use (s\<lparr>area := ?a\<rparr>) bs' q" using ok qin clean by (simp add: in_use_def pool pool_ok_def)
      show "ref (pages ?a q) = 0" using ok qin by (simp add: pool_ok_def page_ref_def carve_page_fields)
    qed (use qin pool same in auto)
  qed
qed

text \<open>Returning a page changes the descriptors of free pages only.\<close>

lemma merge_prev_frame:
  assumes rep: "frep s (us @ (b, n) # vs)" and r: "merge_prev b s = (b', s')"
  shows "ref (pages s' q) = ref (pages s q)"
    and "q \<notin> pool_pages (us @ (b, n) # vs) \<Longrightarrow> pages s' q = pages s q"
proof -
  have n: "0 < n" using frep_ok [OF rep] by (simp add: blks_ok_append)
  have b: "b \<in> pool_pages (us @ (b, n) # vs)" using n by (simp add: blk_pages_def)
  show "ref (pages s' q) = ref (pages s q)" using r by (auto simp: merge_prev_def Let_def split: if_splits)
  assume q: "q \<notin> pool_pages (us @ (b, n) # vs)"
  show "pages s' q = pages s q"
  proof (cases us rule: rev_cases)
    case Nil
    with frep_dlist [OF rep] dlist_prev_head [of "links s" FreeHead]
      dlist_prev [of "links s" FreeHead "[]" "PageLink b" "blk_nodes vs"]
    have "list_prev (links s) (PageLink b) = FreeHead" by simp
    then show ?thesis using r by (simp add: merge_prev_def Let_def)
  next
    case (snoc xs c)
    have "list_prev (links s) (PageLink b) = PageLink (fst c)"
      using frep_dlist [OF rep] dlist_prev [of "links s" FreeHead "blk_nodes us" "PageLink b" "blk_nodes vs"]
      by (simp add: snoc)
    moreover have "0 < snd c" using frep_ok [OF rep] snoc by (simp add: blks_ok_append)
    then have "q \<noteq> fst c" using q snoc by (cases c) (auto simp: blk_pages_def)
    moreover have "q \<noteq> b" using q b by blast
    ultimately show ?thesis using r by (auto simp: merge_prev_def Let_def split: if_splits)
  qed
qed

lemma merge_next_frame:
  assumes rep: "frep s (us @ b # vs)"
  shows "ref (pages (merge_next (fst b) s) q) = ref (pages s q)"
    and "q \<notin> pool_pages (us @ b # vs) \<Longrightarrow> pages (merge_next (fst b) s) q = pages s q"
proof -
  have n: "0 < snd b" using frep_ok [OF rep] by (simp add: blks_ok_append)
  show "ref (pages (merge_next (fst b) s) q) = ref (pages s q)" by (auto simp: merge_next_def Let_def)
  assume q: "q \<notin> pool_pages (us @ b # vs)"
  have "next": "list_next (links s) (PageLink (fst b)) = hd (blk_nodes vs @ [FreeHead])"
    using frep_dlist [OF rep] dlist_next [of "links s" FreeHead "blk_nodes us" "PageLink (fst b)" "blk_nodes vs"]
    by simp
  have qb: "q \<noteq> fst b" using q n by (cases b) (auto simp: blk_pages_def)
  show "pages (merge_next (fst b) s) q = pages s q"
  proof (cases vs)
    case Nil
    then show ?thesis using "next" by (simp add: merge_next_def)
  next
    case (Cons c ws)
    have "0 < snd c" using frep_ok [OF rep] Cons by (simp add: blks_ok_append)
    then have "q \<noteq> fst c" using q Cons by (cases c) (auto simp: blk_pages_def)
    then show ?thesis using "next" qb Cons by (auto simp: merge_next_def Let_def)
  qed
qed

definition below_free :: "blocks \<Rightarrow> nat \<Rightarrow> bool" where
  "below_free bs p \<longleftrightarrow> bs = [] \<or> (\<exists>q \<in> pool_pages bs. p < q)"

lemma below_free_block:
  assumes ok: "blks_ok bs" and p: "p \<notin> pool_pages bs" and below: "below_free bs p"
  shows "bs = [] \<or> (\<exists>c \<in> set bs. p < fst c)"
proof (cases "bs = []")
  case False
  then obtain q c where q: "p < q" "c \<in> set bs" "q \<in> blk_pages c"
    using below by (auto simp: below_free_def pool_pages_def)
  have "p \<notin> blk_pages c" using p q(2) by (auto simp: pool_pages_def)
  then have "p < fst c" using q(1,3) by (auto simp: blk_pages_def)
  then show ?thesis using q(2) by blast
qed simp

lemma free_page_ok:
  assumes ok: "pool_ok s bs" and p: "in_use s bs p" and below: "below_free bs p"
  obtains a bs' where "free_page p s = Some (s\<lparr>area := a\<rparr>)" and "pool_ok (s\<lparr>area := a\<rparr>) bs'"
    and "pool_pages bs' = insert p (pool_pages bs)"
    and "\<And>r. r \<noteq> p \<Longrightarrow> r \<notin> pool_pages bs \<Longrightarrow> pages a r = pages (area s) r"
proof -
  let ?s = "area s"
  have rep: "frep ?s bs" using ok by (simp add: pool_ok_def)
  have dis: "{p ..< p + 1} \<inter> pool_pages bs = {}" using p by (simp add: in_use_def)
  have room: "bs = [] \<or> (\<exists>c \<in> set bs. p < fst c)"
    by (rule below_free_block [OF frep_ok [OF rep] _ below]) (use p in \<open>simp add: in_use_def\<close>)
  let ?us = "blk_below p bs" and ?vs = "blk_above p bs"
  note pos = blk_position [OF frep_ok [OF rep] zero_less_one dis]
  have clean: "\<And>q. q \<in> {p ..< p + 1} \<Longrightarrow> \<not> PageReserved (pages ?s q) \<and> \<not> PageProperty (pages ?s q)"
    using p by (simp add: in_use_def)
  define s1 where "s1 = ?s\<lparr>pages := \<lambda>q. if q \<in> {p ..< p + 1} then set_page_ref 0 ((pages ?s q)\<lparr>flags := 0\<rparr>) else pages ?s q\<rparr>"
  have s1: "reset_used p 1 ?s = Some s1" unfolding s1_def by (rule reset_used_Some) (rule clean)
  have cl: "cleared p 1 ?s s1" by (simp add: cleared_def s1_def)
  let ?s2 = "stamp_block p 1 s1"
  have "links ?s2 = links ?s" using cl by (simp add: stamp_block_def cleared_def Let_def)
  from insert_block_refines [OF rep zero_less_one dis room this] obtain h
    where h: "insert_block p ?s2 = Some (?s2\<lparr>links := h\<rparr>)" "dlist h FreeHead (blk_nodes (?us @ (p, 1) # ?vs))" by blast
  have rep3: "frep (?s2\<lparr>links := h\<rparr>) (?us @ (p, 1) # ?vs)"
    using stamp_rep [OF _ cl zero_less_one pos(1) h(2)] rep by (simp add: blk_below_above)
  let ?j = "join_prev p 1 ?us"
  from merge_prev_refines [OF rep3] obtain s4
    where s4: "merge_prev p (?s2\<lparr>links := h\<rparr>) = (fst (snd ?j), s4)" "frep s4 (fst ?j @ snd ?j # ?vs)" by blast
  let ?a = "merge_next (fst (snd ?j)) s4"
  have pool3: "pool_pages (?us @ (p, 1) # ?vs) = insert p (pool_pages bs)"
  proof -
    have "pool_pages (?us @ ?vs) = pool_pages bs" by (simp only: blk_below_above)
    then show ?thesis by (auto simp: blk_pages_def)
  qed
  have pool4: "pool_pages (fst ?j @ snd ?j # ?vs) = insert p (pool_pages bs)"
  proof (cases "?us \<noteq> [] \<and> fst (last ?us) + snd (last ?us) = p")
    case True
    then have "?us = butlast ?us @ [last ?us]" by simp
    then have "pool_pages ?us = pool_pages (butlast ?us) \<union> blk_pages (last ?us)"
      by (metis pool_pages_simps(1,2,3) sup_bot_right)
    moreover have "blk_pages (fst (last ?us), snd (last ?us) + 1) = insert p (blk_pages (last ?us))"
      using True by (auto simp: blk_pages_def)
    ultimately show ?thesis using True pool3 by (auto simp: join_prev_def blk_pages_def)
  next
    case False
    then have "?j = (?us, p, 1)" unfolding join_prev_def by (rule if_not_P)
    then show ?thesis using pool3 by simp
  qed
  have f: "default_free_pages p 1 ?s = Some ?a"
    using s1 h(1) s4(1) by (simp add: default_free_pages_def stamp_block_def Let_def)
  have put: "frep ?a (blk_put p 1 bs)"
    using merge_next_refines [OF s4(2)] blk_put_join [of ?us ?vs p 1] pos blk_below_lt frep_ok [OF rep]
    by (simp add: blk_below_above)
  have poolp: "pool_pages (blk_put p 1 bs) = insert p (pool_pages bs)"
    by (auto simp: blk_put_pages)
  show thesis
  proof (rule that [of ?a "blk_put p 1 bs"])
    show "free_page p s = Some (s\<lparr>area := ?a\<rparr>)" using f by (simp add: free_page_def)
    have refs: "ref (pages ?a q) = (if q = p then 0 else ref (pages ?s q))" for q
      using merge_next_frame(1) [OF s4(2), of q] merge_prev_frame(1) [OF rep3 s4(1), of q]
      by (simp add: stamp_block_def Let_def s1_def)
    show "pool_ok (s\<lparr>area := ?a\<rparr>) (blk_put p 1 bs)"
      using ok p put by (auto simp: pool_ok_def poolp [unfolded One_nat_def] page_ref_def refs [unfolded One_nat_def] in_use_def)
    show "pool_pages (blk_put p 1 bs) = insert p (pool_pages bs)" by (rule poolp)
    fix r assume r: "r \<noteq> p" "r \<notin> pool_pages bs"
    have "pages ?a r = pages s4 r" using merge_next_frame(2) [OF s4(2), of r] r unfolding pool4 by simp
    also have "\<dots> = pages (?s2\<lparr>links := h\<rparr>) r" using merge_prev_frame(2) [OF rep3 s4(1), of r] r unfolding pool3 by simp
    also have "\<dots> = pages ?s r" using r by (simp add: stamp_block_def Let_def s1_def)
    finally show "pages ?a r = pages ?s r" .
  qed
qed

section \<open>Stores into tables\<close>

text \<open>A store into an entry of a table changes the paths through that entry only.\<close>

lemma tbl_cong:
  assumes "\<And>ys p i. length ys < length xs \<Longrightarrow> node D d ys \<Longrightarrow> tbl s d ys = Some p \<Longrightarrow> i < 512 \<Longrightarrow> words s' p i = words s p i"
    and "node D d xs"
  shows "tbl s' d xs = tbl s d xs"
  using assms
proof (induction xs)
  case (Cons k xs)
  have k: "k < 512" using Cons.prems(2) by (simp add: node_def)
  have n: "node D d xs" by (rule node_tl [OF Cons.prems(2)])
  have w: "words s' p i = words s p i" if "length ys < length xs" "node D d ys" "tbl s d ys = Some p" "i < 512" for ys p i
    using Cons.prems(1) [of ys p i] that by simp
  show ?case
  proof (cases "tbl s d xs")
    case None
    then show ?thesis using Cons.IH [OF w n] by simp
  next
    case (Some p)
    then have "words s' p k = words s p k" using Cons.prems(1) [of xs p k] n k by simp
    then show ?thesis using Cons.IH [OF w n] Some by simp
  qed
qed simp

lemma store_leaf:
  assumes ok: "tables_ok s bs D" and n: "node D d (k # xs)" and l: "length xs = 2" and p: "tbl s d xs = Some p"
    and s': "words s' = (words s)(p := (words s p)(k := e))"
  shows "node D d' ys \<Longrightarrow> length ys \<le> 2 \<Longrightarrow> tbl s' d' ys = tbl s d' ys"
    and "node D d' ys \<Longrightarrow> length ys = 3 \<Longrightarrow> ent s' d' ys = (if d' = d \<and> ys = k # xs then e else ent s d' ys)"
proof -
  have t: "tbl s' d' ys = tbl s d' ys" if "node D d' ys" "length ys \<le> 2" for d' ys
  proof (rule tbl_cong [OF _ that(1)])
    fix zs q i assume z: "length zs < length ys" "node D d' zs" "tbl s d' zs = Some q"
    have "q \<noteq> p" using tables_inj [OF ok z(2) node_tl [OF n], of p] z p l that(2) by auto
    then show "words s' q i = words s q i" by (simp add: s')
  qed
  then show "node D d' ys \<Longrightarrow> length ys \<le> 2 \<Longrightarrow> tbl s' d' ys = tbl s d' ys" .
  assume y: "node D d' ys" "length ys = 3"
  then obtain j zs where ys: "ys = j # zs" by (cases ys) auto
  have z: "node D d' zs" "length zs \<le> 2" using y node_tl [of D d' j zs] by (simp_all add: ys)
  have e: "tbl s' d' zs = tbl s d' zs" by (rule t [OF z])
  show "ent s' d' ys = (if d' = d \<and> ys = k # xs then e else ent s d' ys)"
  proof (cases "tbl s d' zs")
    case None
    then show ?thesis using e p by (auto simp: ent_def ys)
  next
    case (Some q)
    show ?thesis
    proof (cases "q = p")
      case True
      then have "d' = d \<and> zs = xs" using tables_inj [OF ok z(1) node_tl [OF n] z(2), of p] Some p l by simp
      then show ?thesis using e p by (auto simp: ent_def ys s')
    next
      case False
      then have "\<not> (d' = d \<and> zs = xs)" using Some p by auto
      then show ?thesis using e Some False by (auto simp: ent_def ys s')
    qed
  qed
qed

lemma store_table:
  assumes ok: "tables_ok s bs D" and n: "node D d (k # xs)" and l: "length xs \<le> 1" and p: "tbl s d xs = Some p"
    and inv: "\<not> is_valid (words s p k)" and q: "q \<in> pool_pages bs" and e: "is_valid e" "epage e = q"
    and s': "words s' = (words s)(q := (\<lambda>_. 0), p := (words s p)(k := e))"
  shows "node D d' ys \<Longrightarrow> length ys \<le> 2 \<Longrightarrow> tbl s' d' ys = (if d' = d \<and> ys = k # xs then Some q else tbl s d' ys)"
    and "node D d' ys \<Longrightarrow> length ys = 3 \<Longrightarrow> ent s' d' ys = ent s d' ys"
proof -
  have in_p: "in_use s bs p" by (rule tables_in_use [OF ok node_tl [OF n] _ p]) (use l in simp)
  then have pq: "p \<noteq> q" using q by (auto simp: in_use_def)
  have w: "words s' r i = (if r = p \<and> i = k then e else words s r i)" if "r \<noteq> q" for r i
    using that pq by (simp add: s')
  have wq: "words s' q i = 0" for i using pq by (simp add: s')
  have none: "tbl s d (k # xs) = None" using p inv by simp
  have t: "tbl s' d' ys = (if d' = d \<and> ys = k # xs then Some q else tbl s d' ys)" if "node D d' ys" "length ys \<le> 2" for ys
    using that
  proof (induction ys)
    case (Cons j ys)
    have y: "node D d' ys" "length ys \<le> 2" using Cons.prems node_tl [of D d' j ys] by simp_all
    show ?case
    proof (cases "d' = d \<and> ys = k # xs")
      case True
      then have "tbl s' d' ys = Some q" using Cons.IH [OF y] by simp
      then show ?thesis using True none wq by auto
    next
      case False
      show ?thesis
      proof (cases "tbl s d' ys")
        case None
        then have "\<not> (d' = d \<and> ys = xs)" using p by auto
        then show ?thesis using None False Cons.IH [OF y] by auto
      next
        case (Some r)
        then have "in_use s bs r" using tables_in_use [OF ok y] by simp
        then have rq: "r \<noteq> q" using q by (auto simp: in_use_def)
        have "r = p \<longleftrightarrow> d' = d \<and> ys = xs"
        proof
          assume "r = p"
          then show "d' = d \<and> ys = xs" using tables_inj [OF ok y(1) node_tl [OF n] y(2), of p] Some p l by simp
        qed (use Some p in auto)
        then show ?thesis using Cons.IH [OF y] False Some w [OF rq] e by auto
      qed
    qed
  qed simp
  then show "node D d' ys \<Longrightarrow> length ys \<le> 2 \<Longrightarrow> tbl s' d' ys = (if d' = d \<and> ys = k # xs then Some q else tbl s d' ys)" .
  assume y: "node D d' ys" "length ys = 3"
  then obtain j zs where ys: "ys = j # zs" by (cases ys) auto
  have z: "node D d' zs" "length zs \<le> 2" using y node_tl [of D d' j zs] by (simp_all add: ys)
  show "ent s' d' ys = ent s d' ys"
  proof (cases "d' = d \<and> zs = k # xs")
    case True
    then have "tbl s' d' zs = Some q" using t [OF z] by simp
    then show ?thesis using True none wq by (simp add: ent_def ys)
  next
    case False
    have e: "tbl s' d' zs = tbl s d' zs" using t [OF z] unfolding if_not_P [OF False] .
    show ?thesis
    proof (cases "tbl s d' zs")
      case (Some r)
      have "in_use s bs r" using tables_in_use [OF ok z Some] .
      then have "r \<noteq> q" using q by (auto simp: in_use_def)
      moreover have "r \<noteq> p"
      proof
        assume "r = p"
        then have "zs = xs" using tables_inj [OF ok z(1) node_tl [OF n] z(2), of p] Some p l by simp
        then show False using y(2) l by (simp add: ys)
      qed
      ultimately show ?thesis using e Some w by (simp add: ent_def ys)
    qed (simp add: ent_def ys e)
  qed
qed

section \<open>Walking down with \<open>get_pte\<close>\<close>

text \<open>What a call that may add tables leaves alone: the pages that were in use, the tables there were
  and all entries for pages.\<close>

definition grows ::
  "(nat \<Rightarrow> nat set option) \<Rightarrow> phys \<Rightarrow> blocks \<Rightarrow> phys \<Rightarrow> blocks \<Rightarrow> bool" where
  "grows D s bs s' bs' \<longleftrightarrow> npage s' = npage s \<and> pool_pages bs' \<subseteq> pool_pages bs \<and>
     (\<forall>r. r \<notin> pool_pages bs \<longrightarrow> pages (area s') r = pages (area s) r) \<and>
     (\<forall>d xs. node D d xs \<and> length xs \<le> 2 \<and> tbl s d xs \<noteq> None \<longrightarrow> tbl s' d xs = tbl s d xs) \<and>
     (\<forall>d xs. node D d xs \<and> length xs = 3 \<longrightarrow> ent s' d xs = ent s d xs) \<and>
     (\<forall>r. is_table s' D r \<longrightarrow> is_table s D r \<or> r \<in> pool_pages bs) \<and>
     (\<forall>r. r \<notin> pool_pages bs \<and> \<not> is_table s D r \<longrightarrow> words s' r = words s r)"

lemma grows_refl: "grows D s bs s bs"
  by (simp add: grows_def)

lemma grows_trans: "grows D s bs s1 bs1 \<Longrightarrow> grows D s1 bs1 s2 bs2 \<Longrightarrow> grows D s bs s2 bs2"
  unfolding grows_def by (elim conjE, intro conjI) (simp, blast, metis subsetD, metis, metis, metis subsetD, metis subsetD)

lemma grows_in_use: "grows D s bs s' bs' \<Longrightarrow> in_use s bs p \<Longrightarrow> in_use s' bs' p"
  by (auto simp: grows_def in_use_def)

lemma grows_holders: "grows D s bs s' bs' \<Longrightarrow> holders s' D p = holders s D p"
proof -
  assume g: "grows D s bs s' bs'"
  have "tbl s' d xs = tbl s d xs" if "node D d xs" "length xs = 3" for d xs
  proof -
    obtain k ys where "xs = k # ys" using \<open>length xs = 3\<close> by (cases xs) auto
    then show ?thesis using that g tbl_ent [of s d k ys] tbl_ent [of s' d k ys] by (simp add: grows_def)
  qed
  then show ?thesis by (auto simp: holders_def)
qed

lemma grows_space:
  assumes g: "grows D s bs s' bs'" and t: "tables_ok s' bs' D" and ok: "space_ok s bs D c"
  shows "space_ok s' bs' D c"
  unfolding space_ok_def
proof (intro conjI allI impI)
  fix p assume "holders s' D p \<noteq> {} \<or> 0 < c p"
  then have h: "holders s D p \<noteq> {} \<or> 0 < c p" using grows_holders [OF g] by simp
  then have u: "in_use s bs p" "\<not> is_table s D p" "page_ref s p = int (card (holders s D p) + c p)"
    using ok unfolding space_ok_def by blast+
  show "in_use s' bs' p" by (rule grows_in_use [OF g u(1)])
  show "\<not> is_table s' D p" using g u(1,2) by (auto simp: grows_def in_use_def)
  show "page_ref s' p = int (card (holders s' D p) + c p)"
    using g u(1,3) grows_holders [OF g] by (simp add: grows_def in_use_def page_ref_def)
qed (rule t)

lemma pages_set_ref: "pages (area (set_ref q v s)) = (pages (area s))(q := set_page_ref v (pages (area s) q))"
  by (simp add: set_ref_def)

lemma set_ref_simps [simp]:
  "words (set_ref q v s) = words s" "npage (set_ref q v s) = npage s"
  "page_ref (set_ref q v s) p = (if p = q then v else page_ref s p)"
  by (simp_all add: set_ref_def page_ref_def)

lemma store_simps [simp]:
  "area (store a e s) = area s" "npage (store a e s) = npage s" "page_ref (store a e s) p = page_ref s p"
  "area (clear_page q s) = area s" "npage (clear_page q s) = npage s"
  "area (copy_page q r s) = area s" "npage (copy_page q r s) = npage s"
  by (simp_all add: store_def clear_page_def copy_page_def page_ref_def)

lemma frep_set_ref:
  assumes "frep a bs" and "q \<notin> pool_pages bs"
  shows "frep (upd_page q (set_page_ref v) a) bs"
proof -
  have "pages_rep (pages (upd_page q (set_page_ref v) a)) bs"
    by (rule pages_rep_cong [of "pages a"]) (use assms in \<open>auto simp: frep_def\<close>)
  then show ?thesis using assms by (simp add: frep_def)
qed

lemma pool_ok_set_ref: "pool_ok s bs \<Longrightarrow> q \<notin> pool_pages bs \<Longrightarrow> pool_ok (set_ref q v s) bs"
  by (auto simp: pool_ok_def) (simp add: set_ref_def frep_set_ref)

lemma pool_ok_words: "pool_ok s bs \<Longrightarrow> area s' = area s \<Longrightarrow> npage s' = npage s \<Longrightarrow> pool_ok s' bs"
  by (simp add: pool_ok_def page_ref_def)

lemma table_perm: "perm_ok (PTE_U OR PTE_V)"
  by (simp add: perm_ok_def PTE_U_def PTE_V_def)

text \<open>A fresh table joins the tree.\<close>

lemma tables_grow:
  assumes ok: "tables_ok s bs D" and n: "node D d (k # xs)" and l: "length xs \<le> 1" and p: "tbl s d xs = Some p"
    and inv: "\<not> is_valid (words s p k)" and q: "q \<in> pool_pages bs" and e: "is_valid e" "epage e = q"
    and s': "words s' = (words s)(q := (\<lambda>_. 0), p := (words s p)(k := e))"
    and pool: "pool_ok s' bs'" "pool_pages bs' = pool_pages bs - {q}" "npage s' = npage s"
    and q': "in_use s' bs' q" and keep: "\<And>r. r \<notin> pool_pages bs \<Longrightarrow> pages (area s') r = pages (area s) r"
  shows "tables_ok s' bs' D" and "grows D s bs s' bs'" and "tbl s' d (k # xs) = Some q"
proof -
  note t = store_table [OF ok n l p inv q e s']
  have in_p: "in_use s bs p" by (rule tables_in_use [OF ok node_tl [OF n] _ p]) (use l in simp)
  have old: "in_use s' bs' r" if "in_use s bs r" for r
    using that keep pool by (simp add: in_use_def)
  have not_q: "r \<noteq> q" if "in_use s bs r" for r using that q by (auto simp: in_use_def)
  have tab: "tbl s' d' ys = Some r \<Longrightarrow> (d' = d \<and> ys = k # xs \<and> r = q) \<or> (tbl s d' ys = Some r \<and> in_use s bs r)"
    if "node D d' ys" "length ys \<le> 2" for d' ys r
    using t(1) [OF that] tables_in_use [OF ok that] by (auto split: if_splits)
  show "tbl s' d (k # xs) = Some q" using t(1) [OF n] l by simp
  show "tables_ok s' bs' D"
    unfolding tables_ok_def
  proof (intro conjI allI impI pool(1))
    fix d' ys r assume "node D d' ys \<and> length ys \<le> 2 \<and> tbl s' d' ys = Some r"
    then show "in_use s' bs' r" using tab [of d' ys r] old q' by auto
  next
    fix d1 xs1 d2 xs2 r
    assume h: "node D d1 xs1 \<and> node D d2 xs2 \<and> length xs1 \<le> 2 \<and> length xs2 \<le> 2 \<and>
      tbl s' d1 xs1 = Some r \<and> tbl s' d2 xs2 = Some r"
    then show "d1 = d2" and "xs1 = xs2"
      using tab [of d1 xs1 r] tab [of d2 xs2 r] not_q tables_inj [OF ok, of d1 xs1 d2 xs2 r] by auto
  qed
  show "grows D s bs s' bs'"
    unfolding grows_def
  proof (intro conjI allI impI)
    fix d' ys assume h: "node D d' ys \<and> length ys \<le> 2 \<and> tbl s d' ys \<noteq> None"
    then have "\<not> (d' = d \<and> ys = k # xs)" using p inv by auto
    then show "tbl s' d' ys = tbl s d' ys" using t(1) [of d' ys] h by auto
  next
    fix r assume "is_table s' D r"
    then show "is_table s D r \<or> r \<in> pool_pages bs" using tab q unfolding is_table_def by blast
  next
    fix r assume r: "r \<notin> pool_pages bs \<and> \<not> is_table s D r"
    have "is_table s D p" unfolding is_table_def using p node_tl [OF n] l by (intro exI [of _ d] exI [of _ xs]) simp
    then show "words s' r = words s r" using r q by (auto simp: s')
  qed (use pool keep t(2) in auto)
qed

lemma next_table_ok:
  assumes ok: "tables_ok s bs D" and n: "node D d (k # xs)" and l: "length xs \<le> 1" and p: "tbl s d xs = Some p"
  obtains r s' bs' where "next_table (p, k) create s = Some (r, s')" and "tables_ok s' bs' D" and "grows D s bs s' bs'"
    and "r = tbl s' d (k # xs)" and "\<not> create \<Longrightarrow> s' = s \<and> bs' = bs"
    and "r = None \<Longrightarrow> s' = s \<and> bs' = bs \<and> (create \<longrightarrow> bs = [])"
    and "tbl s d (k # xs) \<noteq> None \<Longrightarrow> s' = s \<and> bs' = bs" and "card (pool_pages bs) \<le> card (pool_pages bs') + 1"
proof (cases "is_valid (words s p k)")
  case True
  then have t: "tbl s d (k # xs) = Some (epage (words s p k))" using p by simp
  then have "is_page (npage s) (epage (words s p k))" using tables_in_use [OF ok n] l by (simp add: in_use_def)
  then have "next_table (p, k) create s = Some (Some (epage (words s p k)), s)"
    using True KADDR_table [OF tables_pool [OF ok]] by (simp add: next_table_def load_def)
  then show thesis using that [of "Some (epage (words s p k))" s bs] ok grows_refl t by simp
next
  case inv: False
  then have t: "tbl s d (k # xs) = None" using p by simp
  have pool: "pool_ok s bs" by (rule tables_pool [OF ok])
  show thesis
  proof (cases create)
    case False
    then have "next_table (p, k) create s = Some (None, s)" using inv by (simp add: next_table_def load_def)
    then show thesis using that [of None s bs] ok grows_refl t False by simp
  next
    case True
    from pool show thesis
    proof (cases rule: alloc_page_ok)
      case 1
      then have "next_table (p, k) create s = Some (None, s)" using inv by (simp add: next_table_def load_def)
      then show thesis using that [of None s bs] ok grows_refl t 1 by simp
    next
      case (2 q a bs')
      let ?s1 = "set_ref q 1 (s\<lparr>area := a\<rparr>)"
      let ?e = "pte_create (page2ppn q) (PTE_U OR PTE_V)"
      let ?s' = "store (p, k) ?e (clear_page q ?s1)"
      have qp: "is_page (npage s) q" using 2(5) by (simp add: in_use_def)
      have n44: "npage s < 2 ^ 44" using pool by (simp add: pool_ok_def)
      have eq: "epage ?e = q" by (rule epage_create [OF n44 qp table_perm])
      have in_p: "in_use s bs p" by (rule tables_in_use [OF ok node_tl [OF n] _ p]) (use l in simp)
      then have pq: "p \<noteq> q" using 2(2) by (auto simp: in_use_def)
      have qn: "q \<notin> pool_pages bs'" using 2(4) by simp
      have pool1: "pool_ok ?s1 bs'" by (rule pool_ok_set_ref [OF 2(3) qn])
      have pool': "pool_ok ?s' bs'" by (rule pool_ok_words [OF pool1]) simp_all
      have w: "words ?s' = (words s)(q := (\<lambda>_. 0), p := (words s p)(k := ?e))"
        using pq by (simp add: store_def clear_page_def)
      have q': "in_use ?s' bs' q" using 2(5) by (simp add: in_use_def pages_set_ref)
      have keep: "pages (area ?s') r = pages (area s) r" if "r \<notin> pool_pages bs" for r
        using that 2(2) 2(7) [OF that] by (auto simp: pages_set_ref)
      have npg: "npage ?s' = npage s" by simp
      note g = tables_grow [OF ok n l p inv 2(2) is_valid_create eq w pool' 2(4) npg q' keep]
      have k1: "KADDR ?s1 (page2pa q) = Some q" by (rule KADDR_page [OF pool1]) (use qp in simp)
      have "words ?s' p k = ?e" by (simp add: w)
      moreover have "KADDR ?s' (PTE_ADDR ?e) = Some q"
        using KADDR_table [OF pool', of ?e] eq qp by simp
      ultimately have "next_table (p, k) create s = Some (Some q, ?s')"
        using inv True 2(1) k1 by (simp add: next_table_def load_def Let_def)
      from that [OF this g(1,2) g(3) [symmetric]] show thesis using True t 2(2,4) by (simp add: card_Diff_singleton)
    qed
  qed
qed

declare tbl.simps(2) [simp del]

definition la_path :: "u64 \<Rightarrow> nat list" where
  "la_path la = [PDX0 la, PDX1 la]"

lemma get_pte_ok:
  assumes ok: "tables_ok s bs D" and d: "D d = Some I" "PDX1 la \<in> I"
  obtains s' bs' where "get_pte d la create s = Some (map_option (\<lambda>t. (t, PTX la)) (tbl s' d (la_path la)), s')"
    and "tables_ok s' bs' D" and "grows D s bs s' bs'" and "\<not> create \<Longrightarrow> s' = s \<and> bs' = bs"
    and "create \<Longrightarrow> tbl s' d (la_path la) = None \<Longrightarrow> bs' = []"
    and "tbl s d (la_path la) \<noteq> None \<Longrightarrow> s' = s \<and> bs' = bs" and "card (pool_pages bs) \<le> card (pool_pages bs') + 2"
proof -
  have n1: "node D d [PDX1 la]" and n0: "node D d [PDX0 la, PDX1 la]" using d by (simp_all add: node_def)
  have root: "tbl s d [] = Some d" and len0: "length ([] :: nat list) \<le> 1" and len1: "length [PDX1 la] \<le> 1" by simp_all
  obtain r1 s1 bs1 where 1: "next_table (d, PDX1 la) create s = Some (r1, s1)" "tables_ok s1 bs1 D" "grows D s bs s1 bs1"
    "r1 = tbl s1 d [PDX1 la]" "\<not> create \<Longrightarrow> s1 = s \<and> bs1 = bs" "r1 = None \<Longrightarrow> s1 = s \<and> bs1 = bs \<and> (create \<longrightarrow> bs = [])"
    "tbl s d [PDX1 la] \<noteq> None \<Longrightarrow> s1 = s \<and> bs1 = bs" "card (pool_pages bs) \<le> card (pool_pages bs1) + 1"
    using next_table_ok [OF ok n1 len0 root, of create] by blast
  show thesis
  proof (cases r1)
    case None
    have t: "tbl s1 d (la_path la) = None" unfolding la_path_def by (rule tbl_None) (simp add: 1(4) [symmetric] None)
    have g: "get_pte d la create s = Some (map_option (\<lambda>t. (t, PTX la)) (tbl s1 d (la_path la)), s1)"
      using 1(1) None unfolding t by (simp add: get_pte_def)
    show thesis by (rule that [OF g 1(2,3,5)]) (use 1(6) [OF None] in auto)
  next
    case (Some pd0)
    have t1: "tbl s1 d [PDX1 la] = Some pd0" using 1(4) Some by simp
    obtain r2 s2 bs2 where 2: "next_table (pd0, PDX0 la) create s1 = Some (r2, s2)" "tables_ok s2 bs2 D" "grows D s1 bs1 s2 bs2"
      "r2 = tbl s2 d [PDX0 la, PDX1 la]" "\<not> create \<Longrightarrow> s2 = s1 \<and> bs2 = bs1" "r2 = None \<Longrightarrow> s2 = s1 \<and> bs2 = bs1 \<and> (create \<longrightarrow> bs1 = [])"
      "tbl s1 d [PDX0 la, PDX1 la] \<noteq> None \<Longrightarrow> s2 = s1 \<and> bs2 = bs1" "card (pool_pages bs1) \<le> card (pool_pages bs2) + 1"
      using next_table_ok [OF 1(2) n0 len1 t1, of create] by blast
    have t: "tbl s2 d (la_path la) = r2" unfolding la_path_def 2(4) ..
    have g: "get_pte d la create s = Some (map_option (\<lambda>t. (t, PTX la)) (tbl s2 d (la_path la)), s2)"
      using 1(1) Some 2(1) unfolding t by (cases r2) (simp_all add: get_pte_def)
    show thesis
    proof (rule that [OF g 2(2) grows_trans [OF 1(3) 2(3)]])
      show "\<not> create \<Longrightarrow> s2 = s \<and> bs2 = bs" using 1(5) 2(5) by blast
      show "create \<Longrightarrow> tbl s2 d (la_path la) = None \<Longrightarrow> bs2 = []" unfolding t using 2(6) by blast
      show "s2 = s \<and> bs2 = bs" if "tbl s d (la_path la) \<noteq> None"
      proof -
        have "tbl s d [PDX1 la] \<noteq> None" using that tbl_None [of s d "[PDX1 la]" "PDX0 la"]
          unfolding la_path_def by (cases "tbl s d [PDX1 la]") simp_all
        then have "s1 = s \<and> bs1 = bs" by (rule 1(7))
        then show ?thesis using 2(7) that unfolding la_path_def by blast
      qed
      show "card (pool_pages bs) \<le> card (pool_pages bs2) + 2" using 1(8) 2(8) by linarith
    qed
  qed
qed

end
