(* ===== verification/PageMap.thy ===== *)
theory PageMap
  imports PageTable
begin

text \<open>
  What the operations on page tables do to an address space, the map from addresses to entries:
  \<open>page_insert\<close>, \<open>page_remove\<close>, \<open>pgdir_alloc_page\<close>, \<open>unmap_range\<close> and \<open>copy_range\<close>.
\<close>

section \<open>Changing one entry\<close>

lemma space_tables: "space_ok s bs D c \<Longrightarrow> tables_ok s bs D"
  by (simp add: space_ok_def)

lemma space_held:
  assumes "space_ok s bs D c" and "holders s D p \<noteq> {} \<or> 0 < c p"
  shows "in_use s bs p" and "\<not> is_table s D p" and "page_ref s p = int (card (holders s D p) + c p)"
  using assms unfolding space_ok_def by blast+

lemma finite_dirs:
  assumes "tables_ok s bs D"
  shows "finite (dom D)"
proof -
  have "d < unat (npage s)" if "d \<in> dom D" for d
  proof -
    have "node D d []" using that by (auto simp: node_def)
    then have "in_use s bs d" using tables_in_use [OF assms, of d "[]" d] by simp
    then show ?thesis by (simp add: in_use_def is_page_def)
  qed
  then show ?thesis by (meson finite_nat_set_iff_bounded)
qed

lemma finite_holders: "tables_ok s bs D \<Longrightarrow> finite (holders s D p)"
proof -
  assume ok: "tables_ok s bs D"
  have "holders s D p \<subseteq> dom D \<times> {xs. set xs \<subseteq> {..<512} \<and> length xs = 3}"
    by (auto simp: holders_def node_def)
  moreover have "finite (dom D \<times> {xs. set xs \<subseteq> {..<512 :: nat} \<and> length xs = 3})"
    using finite_dirs [OF ok] finite_lists_length_eq [of "{..<512 :: nat}" 3] by blast
  ultimately show ?thesis by (rule finite_subset)
qed

lemma holders_ent:
  "holders s D p = {(d, xs). node D d xs \<and> length xs = 3 \<and> is_valid (ent s d xs) \<and> epage (ent s d xs) = p}"
proof -
  have "tbl s d xs = Some p \<longleftrightarrow> is_valid (ent s d xs) \<and> epage (ent s d xs) = p" if "length xs = 3" for d xs
    using that tbl_ent [of s d "hd xs" "tl xs"] by (cases xs) auto
  then show ?thesis by (auto simp: holders_def)
qed

text \<open>A place for an entry: a last-level table of a tree and an index in it.\<close>

definition leaf :: "phys \<Rightarrow> (nat \<Rightarrow> nat set option) \<Rightarrow> nat \<Rightarrow> nat list \<Rightarrow> nat \<times> nat \<Rightarrow> bool" where
  "leaf s D d ks a \<longleftrightarrow> node D d ks \<and> length ks = 3 \<and> tbl s d (tl ks) = Some (fst a) \<and> snd a = hd ks"

lemma leaf_ent: "leaf s D d ks a \<Longrightarrow> ent s d ks = load s a"
  by (simp add: leaf_def ent_def load_def)

lemma leaf_store:
  assumes ok: "tables_ok s bs D" and l: "leaf s D d ks a"
    and s': "words s' = words (store a e s)"
  shows "node D d' ys \<Longrightarrow> length ys \<le> 2 \<Longrightarrow> tbl s' d' ys = tbl s d' ys"
    and "node D d' ys \<Longrightarrow> length ys = 3 \<Longrightarrow> ent s' d' ys = (if d' = d \<and> ys = ks then e else ent s d' ys)"
proof -
  obtain k xs where ks: "ks = k # xs" using l by (cases ks) (auto simp: leaf_def)
  have n: "node D d (k # xs)" "length xs = 2" "tbl s d xs = Some (fst a)" and a: "snd a = k"
    using l by (simp_all add: leaf_def ks)
  have w: "words s' = (words s)(fst a := (words s (fst a))(k := e))" using s' a by (simp add: store_def)
  note t = store_leaf [OF ok n w]
  show "node D d' ys \<Longrightarrow> length ys \<le> 2 \<Longrightarrow> tbl s' d' ys = tbl s d' ys" by (rule t(1))
  show "node D d' ys \<Longrightarrow> length ys = 3 \<Longrightarrow> ent s' d' ys = (if d' = d \<and> ys = ks then e else ent s d' ys)"
    unfolding ks by (rule t(2))
qed

lemma leaf_holders:
  assumes ok: "tables_ok s bs D" and l: "leaf s D d ks a" and s': "words s' = words (store a e s)"
  shows "holders s' D p = (holders s D p - {(d, ks)}) \<union> (if is_valid e \<and> epage e = p then {(d, ks)} else {})"
proof -
  have "node D d ks" "length ks = 3" using l by (simp_all add: leaf_def)
  then show ?thesis unfolding holders_ent using leaf_store(2) [OF ok l s'] by (auto split: if_splits)
qed

lemma leaf_is_table:
  assumes ok: "tables_ok s bs D" and l: "leaf s D d ks a" and s': "words s' = words (store a e s)"
  shows "is_table s' D p = is_table s D p"
  unfolding is_table_def using leaf_store(1) [OF ok l s'] by metis

lemma tables_cong:
  assumes ok: "tables_ok s bs D" and pool: "pool_ok s' bs'" and use: "\<And>r. is_table s D r \<Longrightarrow> in_use s' bs' r"
    and t: "\<And>d xs. node D d xs \<Longrightarrow> length xs \<le> 2 \<Longrightarrow> tbl s' d xs = tbl s d xs"
  shows "tables_ok s' bs' D"
  unfolding tables_ok_def
proof (intro conjI allI impI pool)
  fix d' ys r assume "node D d' ys \<and> length ys \<le> 2 \<and> tbl s' d' ys = Some r"
  then have "is_table s D r" using t [of d' ys] unfolding is_table_def by metis
  then show "in_use s' bs' r" by (rule use)
next
  fix d1 xs1 d2 xs2 r
  assume h: "node D d1 xs1 \<and> node D d2 xs2 \<and> length xs1 \<le> 2 \<and> length xs2 \<le> 2 \<and>
    tbl s' d1 xs1 = Some r \<and> tbl s' d2 xs2 = Some r"
  then show "d1 = d2" and "xs1 = xs2"
    using t tables_inj [OF ok, of d1 xs1 d2 xs2 r] by auto
qed

lemma leaf_tables:
  assumes ok: "tables_ok s bs D" and l: "leaf s D d ks a" and s': "words s' = words (store a e s)"
    and pool: "pool_ok s' bs'" and use: "\<And>r. is_table s D r \<Longrightarrow> in_use s' bs' r"
  shows "tables_ok s' bs' D"
  by (rule tables_cong [OF ok pool]) (use use leaf_store(1) [OF ok l s'] in blast)+

lemma table_in_use: "tables_ok s bs D \<Longrightarrow> is_table s D r \<Longrightarrow> in_use s bs r"
  by (auto simp: is_table_def tables_in_use)

text \<open>Taking a reference.\<close>

lemma space_inc:
  assumes ok: "space_ok s bs D c" and p: "in_use s bs p" "\<not> is_table s D p"
    and r: "page_ref s p = int (card (holders s D p) + c p)"
  shows "space_ok (page_ref_inc p s) bs D (c(p := c p + 1))"
proof -
  let ?s = "page_ref_inc p s"
  have w: "words ?s = words s" "npage ?s = npage s" by (simp_all add: page_ref_inc_def)
  have pn: "p \<notin> pool_pages bs" using p by (simp add: in_use_def)
  have t: "tbl ?s d xs = tbl s d xs" for d xs by (rule tbl_words) (rule w)
  have h: "holders ?s D q = holders s D q" and it: "is_table ?s D q = is_table s D q" for q
    by (simp_all add: holders_def is_table_def t)
  have u: "in_use ?s bs q = in_use s bs q" for q
    by (simp add: in_use_def w) (simp add: page_ref_inc_def pages_set_ref)
  have pool: "pool_ok ?s bs" unfolding page_ref_inc_def
    by (rule pool_ok_set_ref [OF tables_pool [OF space_tables [OF ok]] pn])
  have "tables_ok ?s bs D"
    by (rule tables_cong [OF space_tables [OF ok] pool]) (simp_all add: t u table_in_use [OF space_tables [OF ok]])
  moreover have "page_ref ?s q = (if q = p then page_ref s p + 1 else page_ref s q)" for q
    by (simp add: page_ref_inc_def)
  ultimately show ?thesis using ok p r unfolding space_ok_def by (simp add: h it u)
qed

text \<open>Storing an entry: the reference of the page moves from the counter into the table.\<close>

lemma space_store:
  assumes ok: "space_ok s bs D c" and l: "leaf s D d ks a" and old: "\<not> is_valid (load s a)"
    and e: "is_valid e" "epage e = p" "0 < c p"
  shows "space_ok (store a e s) bs D (c(p := c p - 1))" and "holders (store a e s) D p = insert (d, ks) (holders s D p)"
proof -
  let ?s = "store a e s"
  note tab = space_tables [OF ok]
  have pool: "pool_ok ?s bs" by (rule pool_ok_words [OF tables_pool [OF tab]]) simp_all
  have u: "in_use ?s bs q = in_use s bs q" for q by (simp add: in_use_def)
  have t: "tables_ok ?s bs D" by (rule leaf_tables [OF tab l refl pool]) (simp add: u table_in_use [OF tab])
  have new: "(d, ks) \<notin> holders s D q" for q using old leaf_ent [OF l] by (simp add: holders_ent)
  have h: "holders ?s D q = (if q = p then insert (d, ks) (holders s D q) else holders s D q)" for q
    using leaf_holders [OF tab l refl, of e q] new [of q] e by auto
  show "holders ?s D p = insert (d, ks) (holders s D p)" using h by simp
  have it: "is_table ?s D q = is_table s D q" for q by (rule leaf_is_table [OF tab l refl])
  show "space_ok ?s bs D (c(p := c p - 1))"
    unfolding space_ok_def
  proof (intro conjI allI impI t)
    fix q assume q: "holders ?s D q \<noteq> {} \<or> 0 < (c(p := c p - 1)) q"
    then have q': "holders s D q \<noteq> {} \<or> 0 < c q" using h e(3) by (auto split: if_splits)
    note f = space_held [OF ok q']
    show "in_use ?s bs q" "\<not> is_table ?s D q" using f by (simp_all add: u it)
    show "page_ref ?s q = int (card (holders ?s D q) + (c(p := c p - 1)) q)"
      using f(3) e(3) finite_holders [OF tab, of q] new [of q] by (auto simp: h)
  qed
qed

text \<open>Replacing an entry for a page by another entry for the same page.\<close>

lemma space_restore:
  assumes ok: "space_ok s bs D c" and l: "leaf s D d ks a" and old: "is_valid (load s a)" "epage (load s a) = p"
    and e: "is_valid e" "epage e = p"
  shows "space_ok (store a e s) bs D c"
proof -
  let ?s = "store a e s"
  note tab = space_tables [OF ok]
  have pool: "pool_ok ?s bs" by (rule pool_ok_words [OF tables_pool [OF tab]]) simp_all
  have u: "in_use ?s bs q = in_use s bs q" for q by (simp add: in_use_def)
  have t: "tables_ok ?s bs D" by (rule leaf_tables [OF tab l refl pool]) (simp add: u table_in_use [OF tab])
  have "(d, ks) \<in> holders s D q \<longleftrightarrow> q = p" for q
    using old leaf_ent [OF l] l by (auto simp: holders_ent leaf_def)
  then have h: "holders ?s D q = holders s D q" for q
    using leaf_holders [OF tab l refl, of e q] e by auto
  have it: "is_table ?s D q = is_table s D q" for q by (rule leaf_is_table [OF tab l refl])
  show ?thesis using ok t unfolding space_ok_def by (simp add: h it u)
qed

text \<open>Removing an entry, and freeing its page with the last reference.\<close>

lemma remove_pte_ok:
  assumes ok: "space_ok s bs D c" and l: "leaf s D d ks a" and v: "is_valid (load s a)"
    and p: "p = epage (load s a)" and below: "below_free bs p"
  obtains s' bs' where "page_remove_pte d' la a s = Some s'" and "space_ok s' bs' D c"
    and "words s' = words (store a 0 s)" and "npage s' = npage s"
    and "pool_pages bs' = (if holders s D p = {(d, ks)} \<and> c p = 0 then insert p (pool_pages bs) else pool_pages bs)"
    and "\<forall>q. q \<noteq> p \<and> q \<notin> pool_pages bs \<longrightarrow> pages (area s') q = pages (area s) q"
proof -
  note tab = space_tables [OF ok]
  have hp: "(d, ks) \<in> holders s D p" using v p leaf_ent [OF l] l by (simp add: holders_ent leaf_def)
  then have ne: "holders s D p \<noteq> {} \<or> 0 < c p" by blast
  note f = space_held [OF ok ne]
  have fin: "finite (holders s D p)" by (rule finite_holders [OF tab])
  have pn: "p \<notin> pool_pages bs" and pg: "is_page (npage s) p" using f(1) by (simp_all add: in_use_def)
  have pp: "pte2page s (load s a) = Some p" using pte2page_epage [OF tables_pool [OF tab], of "load s a"] pg v p by simp
  let ?s1 = "page_ref_dec p s"
  have s1: "words ?s1 = words s" "npage ?s1 = npage s" by (simp_all add: page_ref_dec_def)
  have pool1: "pool_ok ?s1 bs" unfolding page_ref_dec_def by (rule pool_ok_set_ref [OF tables_pool [OF tab] pn])
  have pages1: "pages (area ?s1) q = (if q = p then set_page_ref (page_ref s p - 1) (pages (area s) p) else pages (area s) q)" for q
    by (simp add: page_ref_dec_def pages_set_ref)
  have use1: "in_use ?s1 bs q = in_use s bs q" for q by (simp add: in_use_def s1 pages1)
  have ref1: "page_ref ?s1 p = int (card (holders s D p - {(d, ks)}) + c p)"
  proof -
    have "card (holders s D p) = Suc (card (holders s D p - {(d, ks)}))" by (rule card.remove [OF fin hp])
    then show ?thesis using f(3) by (simp add: page_ref_dec_def)
  qed
  have last: "page_ref ?s1 p = 0 \<longleftrightarrow> holders s D p = {(d, ks)} \<and> c p = 0"
  proof -
    have "card (holders s D p - {(d, ks)}) = 0 \<longleftrightarrow> holders s D p = {(d, ks)}" using fin hp by (subst card_0_eq) auto
    then show ?thesis using ref1 by linarith
  qed
  have "\<exists>s2 bs2. (if page_ref ?s1 p = 0 then free_page p ?s1 else Some ?s1) = Some s2 \<and> pool_ok s2 bs2 \<and>
    words s2 = words s \<and> npage s2 = npage s \<and>
    pool_pages bs2 = (if page_ref ?s1 p = 0 then insert p (pool_pages bs) else pool_pages bs) \<and>
    (\<forall>q. q \<noteq> p \<and> q \<notin> pool_pages bs \<longrightarrow> pages (area s2) q = pages (area s) q) \<and>
    (page_ref ?s1 p \<noteq> 0 \<longrightarrow> s2 = ?s1)"
  proof (cases "page_ref ?s1 p = 0")
    case True
    have "in_use ?s1 bs p" using f(1) use1 by simp
    from pool1 this below show ?thesis
    proof (rule free_page_ok)
      fix a' bs' assume g: "free_page p ?s1 = Some (?s1\<lparr>area := a'\<rparr>)" "pool_ok (?s1\<lparr>area := a'\<rparr>) bs'"
        "pool_pages bs' = insert p (pool_pages bs)" "\<And>r. r \<noteq> p \<Longrightarrow> r \<notin> pool_pages bs \<Longrightarrow> pages a' r = pages (area ?s1) r"
      then show ?thesis using True s1 by (intro exI [of _ "?s1\<lparr>area := a'\<rparr>"] exI [of _ bs']) (simp add: pages1)
    qed
  next
    case False
    then show ?thesis using pool1 s1 by (intro exI [of _ ?s1] exI [of _ bs]) (simp add: pages1)
  qed
  then obtain s2 bs2 where s2: "(if page_ref ?s1 p = 0 then free_page p ?s1 else Some ?s1) = Some s2" "pool_ok s2 bs2"
    "words s2 = words s" "npage s2 = npage s"
    "pool_pages bs2 = (if page_ref ?s1 p = 0 then insert p (pool_pages bs) else pool_pages bs)"
    "\<And>q. q \<noteq> p \<Longrightarrow> q \<notin> pool_pages bs \<Longrightarrow> pages (area s2) q = pages (area s) q" "page_ref ?s1 p \<noteq> 0 \<Longrightarrow> s2 = ?s1"
    by blast
  let ?s' = "store a 0 s2"
  have w: "words ?s' = words (store a 0 s)" using s2(3) by (simp add: store_def)
  have pool': "pool_ok ?s' bs2" by (rule pool_ok_words [OF s2(2)]) simp_all
  have use: "in_use ?s' bs2 q" if "in_use s bs q" "q \<noteq> p" for q
    using that s2(4,5) s2(6) [of q] by (auto simp: in_use_def)
  have np: "\<not> is_table s D p" by (rule f(2))
  have t: "tables_ok ?s' bs2 D"
  proof (rule leaf_tables [OF tab l w pool'])
    fix r assume r: "is_table s D r"
    then have "r \<noteq> p" using np by auto
    then show "in_use ?s' bs2 r" by (rule use [OF table_in_use [OF tab r]])
  qed
  have h: "holders ?s' D q = holders s D q - {(d, ks)}" for q
    using leaf_holders [OF tab l w] by simp
  have hq: "holders ?s' D q = holders s D q" if "q \<noteq> p" for q
    using h [of q] hp that by (auto simp: holders_ent)
  have it: "is_table ?s' D q = is_table s D q" for q by (rule leaf_is_table [OF tab l w])
  have sp: "space_ok ?s' bs2 D c"
    unfolding space_ok_def
  proof (intro conjI allI impI t)
    fix q assume q: "holders ?s' D q \<noteq> {} \<or> 0 < c q"
    have "in_use ?s' bs2 q \<and> \<not> is_table ?s' D q \<and> page_ref ?s' q = int (card (holders ?s' D q) + c q)"
    proof (cases "q = p")
      case True
      have nz: "page_ref ?s1 p \<noteq> 0"
      proof
        assume "page_ref ?s1 p = 0"
        then have e: "holders s D p = {(d, ks)} \<and> c p = 0" unfolding last .
        have "holders ?s' D p = {}" unfolding h conjunct1 [OF e] by simp
        moreover have "holders ?s' D p \<noteq> {} \<or> 0 < c p" using q unfolding True .
        ultimately show False using conjunct2 [OF e] by linarith
      qed
      have e: "s2 = ?s1" by (rule s2(7) [OF nz])
      have b: "pool_pages bs2 = pool_pages bs" using s2(5) unfolding if_not_P [OF nz] .
      have "in_use ?s' bs2 p" using f(1) use1 [of p] unfolding e in_use_def b by simp
      moreover have "page_ref ?s' p = int (card (holders ?s' D p) + c p)" using ref1 unfolding h unfolding e by simp
      ultimately show ?thesis using True np it by simp
    next
      case False
      then have q': "holders s D q \<noteq> {} \<or> 0 < c q" using q hq by simp
      note g = space_held [OF ok q']
      have "page_ref ?s' q = page_ref s q" using s2(6) [OF False] g(1) by (simp add: page_ref_def in_use_def)
      then show ?thesis using use [OF g(1) False] g(2,3) hq [OF False] it by simp
    qed
    then show "in_use ?s' bs2 q" "\<not> is_table ?s' D q" "page_ref ?s' q = int (card (holders ?s' D q) + c q)" by blast+
  qed
  have r: "page_remove_pte d' la a s = Some ?s'" using v pp s2(1) by (simp add: page_remove_pte_def Let_def)
  have n': "npage ?s' = npage s" using s2(4) by simp
  have pp': "pool_pages bs2 = (if holders s D p = {(d, ks)} \<and> c p = 0 then insert p (pool_pages bs) else pool_pages bs)"
    using s2(5) unfolding last .
  show thesis by (rule that [OF r sp w n' pp']) (use s2(6) in simp)
qed

section \<open>Mapping and unmapping one page\<close>

lemma get_pte_create:
  assumes ok: "tables_ok s bs D" and d: "D d = Some I" "PDX1 la \<in> I"
  obtains s' bs' where "get_pte d la True s = Some (map_option (\<lambda>t. (t, PTX la)) (tbl s' d (la_path la)), s')"
    and "tbl s' d (la_path la) = None \<longrightarrow> bs' = []" and "tables_ok s' bs' D" and "grows D s bs s' bs'"
    and "tbl s d (la_path la) \<noteq> None \<longrightarrow> s' = s \<and> bs' = bs" and "card (pool_pages bs) \<le> card (pool_pages bs') + 2"
proof (rule get_pte_ok [OF ok d, where create = True])
  fix s' bs'
  assume 1: "get_pte d la True s = Some (map_option (\<lambda>t. (t, PTX la)) (tbl s' d (la_path la)), s')"
    "tables_ok s' bs' D" "grows D s bs s' bs'" "True \<Longrightarrow> tbl s' d (la_path la) = None \<Longrightarrow> bs' = []"
    "tbl s d (la_path la) \<noteq> None \<Longrightarrow> s' = s \<and> bs' = bs" "card (pool_pages bs) \<le> card (pool_pages bs') + 2"
  show thesis by (rule that [OF 1(1) _ 1(2,3) _ 1(6)]) (use 1(4,5) in blast)+
qed

lemma get_pte_lookup:
  assumes ok: "tables_ok s bs D" and d: "D d = Some I" "PDX1 la \<in> I"
  shows "get_pte d la False s = Some (map_option (\<lambda>t. (t, PTX la)) (tbl s d (la_path la)), s)"
proof (rule get_pte_ok [OF ok d, where create = False])
  fix s' bs'
  assume 1: "get_pte d la False s = Some (map_option (\<lambda>t. (t, PTX la)) (tbl s' d (la_path la)), s')"
    "\<not> False \<Longrightarrow> s' = s \<and> bs' = bs"
  then have "s' = s" by simp
  then show ?thesis using 1(1) by simp
qed

definition lpath :: "u64 \<Rightarrow> nat list" where
  "lpath la = PTX la # la_path la"

text \<open>The entry for an address is \<open>e\<close>, everything else that belongs to the directories is as before.\<close>

definition updates ::
  "(nat \<Rightarrow> nat set option) \<Rightarrow> phys \<Rightarrow> blocks \<Rightarrow> phys \<Rightarrow> nat \<Rightarrow> nat list \<Rightarrow> u64 \<Rightarrow> bool" where
  "updates D s bs s' d ks e \<longleftrightarrow> npage s' = npage s \<and>
     (\<forall>d' ys. node D d' ys \<and> length ys = 3 \<longrightarrow> ent s' d' ys = (if d' = d \<and> ys = ks then e else ent s d' ys)) \<and>
     (\<forall>d' ys. node D d' ys \<and> length ys \<le> 2 \<and> tbl s d' ys \<noteq> None \<longrightarrow> tbl s' d' ys = tbl s d' ys) \<and>
     (\<forall>r. is_table s' D r \<longrightarrow> is_table s D r \<or> r \<in> pool_pages bs) \<and>
     (\<forall>r. r \<notin> pool_pages bs \<and> \<not> is_table s D r \<longrightarrow> words s' r = words s r)"

lemma grows_updates:
  assumes g: "grows D s bs s1 bs1" and u: "updates D s1 bs1 s' d ks e"
  shows "updates D s bs s' d ks e"
  unfolding updates_def
proof (intro conjI allI impI)
  show "tbl s' d' ys = tbl s d' ys" if "node D d' ys \<and> length ys \<le> 2 \<and> tbl s d' ys \<noteq> None" for d' ys
    using g u that by (simp add: grows_def updates_def)
  show "is_table s D r \<or> r \<in> pool_pages bs" if "is_table s' D r" for r
    using g u that unfolding grows_def updates_def by blast
  show "words s' r = words s r" if "r \<notin> pool_pages bs \<and> \<not> is_table s D r" for r
    using g u that unfolding grows_def updates_def by (metis subsetD)
qed (use g u in \<open>simp_all add: grows_def updates_def\<close>)

lemma leaf_words: "words s' = words s \<Longrightarrow> leaf s' D d ks a = leaf s D d ks a"
  using tbl_words [of s' s d "tl ks"] by (simp add: leaf_def)

lemma updates_store:
  assumes tab: "tables_ok s1 bs1 D" and g: "grows D s bs s1 bs1" and l: "leaf s1 D d ks a"
    and w: "words s' = words (store a e s1)" and n: "npage s' = npage s1"
  shows "updates D s bs s' d ks e"
  unfolding updates_def
proof (intro conjI allI impI)
  show "npage s' = npage s" using g n by (simp add: grows_def)
next
  fix d' ys assume y: "node D d' ys \<and> length ys = 3"
  then show "ent s' d' ys = (if d' = d \<and> ys = ks then e else ent s d' ys)"
    using leaf_store(2) [OF tab l w, of d' ys] g by (simp add: grows_def)
next
  fix d' ys assume y: "node D d' ys \<and> length ys \<le> 2 \<and> tbl s d' ys \<noteq> None"
  then have "tbl s1 d' ys = tbl s d' ys" using g by (simp add: grows_def)
  then show "tbl s' d' ys = tbl s d' ys" using leaf_store(1) [OF tab l w, of d' ys] y by simp
next
  fix r assume "is_table s' D r"
  then show "is_table s D r \<or> r \<in> pool_pages bs" using leaf_is_table [OF tab l w] g by (simp add: grows_def)
next
  fix r assume r: "r \<notin> pool_pages bs \<and> \<not> is_table s D r"
  have "is_table s1 D (fst a)" unfolding is_table_def using l node_tl [of D d "hd ks" "tl ks"]
    by (intro exI [of _ d] exI [of _ "tl ks"]) (cases ks; simp add: leaf_def)
  then have "r \<noteq> fst a" using g r by (auto simp: grows_def)
  then have "words s' r = words s1 r" using w by (simp add: store_def)
  also have "\<dots> = words s r" using g r by (simp add: grows_def)
  finally show "words s' r = words s r" .
qed

lemma get_pte_leaf:
  assumes "D d = Some I" "PDX1 la \<in> I" and "tbl s d (la_path la) = Some t"
  shows "leaf s D d (lpath la) (t, PTX la)"
  using assms by (simp add: leaf_def lpath_def la_path_def node_def)

lemma set_ref_same: "page_ref_dec p (page_ref_inc p s) = s"
  by (simp add: page_ref_dec_def page_ref_inc_def page_ref_def) (simp add: set_ref_def upd_page_def set_page_ref_def)

text \<open>A page that may be mapped: allocated, no table, and with as many references as are counted.\<close>

definition mappable :: "phys \<Rightarrow> blocks \<Rightarrow> (nat \<Rightarrow> nat set option) \<Rightarrow> (nat \<Rightarrow> nat) \<Rightarrow> nat \<Rightarrow> bool" where
  "mappable s bs D c p \<longleftrightarrow> in_use s bs p \<and> \<not> is_table s D p \<and> page_ref s p = int (card (holders s D p) + c p)"

lemma mappable_grows: "grows D s bs s' bs' \<Longrightarrow> mappable s bs D c p \<Longrightarrow> mappable s' bs' D c p"
  using grows_in_use [of D s bs s' bs' p] grows_holders [of D s bs s' bs' p]
  by (auto simp: mappable_def grows_def in_use_def page_ref_def)

lemma perm_ok_V: "perm_ok perm \<Longrightarrow> perm_ok (PTE_V OR perm)"
  by (simp add: perm_ok_def bit.conj_disj_distrib2 PTE_V_def)

lemma entry_epage:
  assumes "in_use s bs p" and "pool_ok s bs" and "perm_ok perm"
  shows "epage (pte_create (page2ppn p) (PTE_V OR perm)) = p"
proof (rule epage_create)
  show "npage s < 2 ^ 44" "is_page (npage s) p" using assms(1,2) by (simp_all add: in_use_def pool_ok_def)
  show "perm_ok (PTE_V OR perm)" by (rule perm_ok_V [OF assms(3)])
qed

lemma page_insert_ok:
  assumes ok: "space_ok s bs D c" and d: "D d = Some I" "PDX1 la \<in> I" and p: "mappable s bs D c p" and perm: "perm_ok perm"
    and below: "is_valid (ent s d (lpath la)) \<Longrightarrow> below_free bs (epage (ent s d (lpath la)))"
  obtains (nomem) s' where "page_insert d p la perm s = Some (- E_NO_MEM, s')" and "space_ok s' [] D c" and "grows D s bs s' []"
    and "card (pool_pages bs) \<le> 2" and "tbl s d (la_path la) = None"
  | (mapped) s' bs' where "page_insert d p la perm s = Some (0, s')" and "space_ok s' bs' D c"
    and "updates D s bs s' d (lpath la) (pte_create (page2ppn p) (PTE_V OR perm))"
    and "\<not> is_valid (ent s d (lpath la)) \<Longrightarrow> pool_pages bs' \<subseteq> pool_pages bs \<and> card (pool_pages bs) \<le> card (pool_pages bs') + 2"
    and "is_valid (ent s d (lpath la)) \<Longrightarrow> pool_pages bs' =
      (let old = epage (ent s d (lpath la)) in
       if old \<noteq> p \<and> holders s D old = {(d, lpath la)} \<and> c old = 0 then insert old (pool_pages bs) else pool_pages bs)"
    and "tbl s d (la_path la) \<noteq> None \<Longrightarrow> pool_pages bs \<subseteq> pool_pages bs'"
proof -
  let ?ks = "lpath la" and ?e = "pte_create (page2ppn p) (PTE_V OR perm)" and ?c = "c(p := c p + 1)"
  obtain s1 bs1 where g1: "get_pte d la True s = Some (map_option (\<lambda>t. (t, PTX la)) (tbl s1 d (la_path la)), s1)"
    and 1: "tbl s1 d (la_path la) = None \<longrightarrow> bs1 = []" "tables_ok s1 bs1 D" "grows D s bs s1 bs1"
    "tbl s d (la_path la) \<noteq> None \<longrightarrow> s1 = s \<and> bs1 = bs" "card (pool_pages bs) \<le> card (pool_pages bs1) + 2"
    by (rule get_pte_create [OF space_tables [OF ok] d])
  have sp1: "space_ok s1 bs1 D c" by (rule grows_space [OF 1(3,2) ok])
  have p1: "mappable s1 bs1 D c p" by (rule mappable_grows [OF 1(3) p])
  show thesis
  proof (cases "tbl s1 d (la_path la)")
    case None
    have b: "bs1 = []" using 1(1) None by blast
    have "page_insert d p la perm s = Some (- E_NO_MEM, s1)" using g1 None by (simp add: page_insert_def)
    moreover have "tbl s d (la_path la) = None" using 1(4) None by (cases "tbl s d (la_path la)") auto
    ultimately show thesis by (intro nomem) (use sp1 1(3,5) b in simp_all)
  next
    case (Some t)
    let ?a = "(t, PTX la)"
    have l: "leaf s1 D d ?ks ?a" by (rule get_pte_leaf [where D = D, OF d Some])
    have eq: "load s1 ?a = ent s d ?ks" using leaf_ent [OF l] 1(3) l by (simp add: grows_def leaf_def)
    let ?s2 = "page_ref_inc p s1"
    have s2: "words ?s2 = words s1" "npage ?s2 = npage s1" "load ?s2 ?a = load s1 ?a" by (simp_all add: page_ref_inc_def load_def)
    have l2: "leaf ?s2 D d ?ks ?a" using l leaf_words [OF s2(1)] by simp
    have sp2: "space_ok ?s2 bs1 D ?c" by (rule space_inc [OF sp1]) (use p1 in \<open>simp_all add: mappable_def\<close>)
    have cc: "?c(p := ?c p - 1) = c" by auto
    have e: "is_valid ?e" "epage ?e = p" using entry_epage [OF _ tables_pool [OF 1(2)] perm, of p] p1 by (simp_all add: mappable_def)
    show thesis
    proof (cases "is_valid (ent s d ?ks)")
      case False
      let ?s' = "store ?a ?e ?s2"
      have r: "page_insert d p la perm s = Some (0, ?s')"
        using g1 Some False eq s2(3) by (simp add: page_insert_def Let_def)
      have sp: "space_ok ?s' bs1 D c" using space_store(1) [OF sp2 l2 _ e, unfolded cc] False eq s2(3) by simp
      have "words ?s' = words (store ?a ?e s1)" by (simp add: store_def s2)
      then have u: "updates D s bs ?s' d ?ks ?e" by (rule updates_store [OF 1(2,3) l]) (simp add: s2)
      show thesis by (rule mapped [OF r sp u]) (use False 1(3,4,5) in \<open>auto simp: grows_def\<close>)
    next
      case True
      have "tbl s d (la_path la) \<noteq> None"
      proof
        assume "tbl s d (la_path la) = None"
        then have "ent s d ?ks = 0" by (simp add: ent_def lpath_def)
        then show False using True by simp
      qed
      then have same: "s1 = s" "bs1 = bs" using 1(4) by blast+
      let ?old = "epage (ent s d ?ks)"
      have po: "pte2page ?s2 (load ?s2 ?a) = Some ?old"
      proof -
        have "(d, ?ks) \<in> holders s D ?old" using True l by (simp add: holders_ent leaf_def)
        then have "in_use s bs ?old" using space_held(1) [OF ok] by blast
        then show ?thesis using pte2page_epage [OF tables_pool [OF space_tables [OF sp2]], of "load ?s2 ?a"] True eq s2 same
          by (simp add: in_use_def)
      qed
      show thesis
      proof (cases "?old = p")
        case same_page: True
        let ?s' = "store ?a ?e s1"
        have r: "page_insert d p la perm s = Some (0, ?s')"
          using g1 Some True eq s2(3) po same_page set_ref_same [of p s1] by (simp add: page_insert_def Let_def)
        have sp: "space_ok ?s' bs1 D c" using space_restore [OF sp1 l _ _ e] True eq same_page by simp
        have u: "updates D s bs ?s' d ?ks ?e" by (rule updates_store [OF 1(2,3) l refl]) simp
        show thesis by (rule mapped [OF r sp u]) (use True same same_page in simp_all)
      next
        case other: False
        have v2: "is_valid (load ?s2 ?a)" and o2: "?old = epage (load ?s2 ?a)" using True eq s2(3) by simp_all
        have b2: "below_free bs1 ?old" using below [OF True] same by simp
        obtain s3 bs3 where 3: "page_remove_pte d la ?a ?s2 = Some s3" "space_ok s3 bs3 D ?c"
          "words s3 = words (store ?a 0 ?s2)" "npage s3 = npage ?s2"
          "pool_pages bs3 = (if holders ?s2 D ?old = {(d, ?ks)} \<and> ?c ?old = 0 then insert ?old (pool_pages bs1) else pool_pages bs1)"
          "\<forall>q. q \<noteq> ?old \<and> q \<notin> pool_pages bs1 \<longrightarrow> pages (area s3) q = pages (area ?s2) q"
          by (rule remove_pte_ok [OF sp2 l2 v2 o2 b2])
        have l3: "leaf s3 D d ?ks ?a"
          using l2 leaf_store(1) [OF space_tables [OF sp2] l2 3(3), of d "tl ?ks"] node_tl [of D d "hd ?ks" "tl ?ks"]
          by (simp add: leaf_def lpath_def la_path_def)
        have v3: "\<not> is_valid (load s3 ?a)" by (simp add: load_def 3(3) store_def)
        let ?s' = "store ?a ?e s3"
        have r: "page_insert d p la perm s = Some (0, ?s')"
          using g1 Some True eq s2(3) po other 3(1) by (simp add: page_insert_def Let_def)
        have sp: "space_ok ?s' bs3 D c" using space_store(1) [OF 3(2) l3 v3 e, unfolded cc] by simp
        have "words ?s' = words (store ?a ?e s1)" by (simp add: store_def s2 3(3))
        then have u: "updates D s bs ?s' d ?ks ?e" by (rule updates_store [OF 1(2,3) l]) (simp add: s2 3(4))
        have h2: "holders ?s2 D ?old = holders s D ?old" by (simp add: holders_def tbl_words [OF s2(1), unfolded same] same)
        show thesis by (rule mapped [OF r sp u]) (use True same other 3(5) h2 in \<open>auto simp: Let_def\<close>)
      qed
    qed
  qed
qed

section \<open>Ranges of pages\<close>

text \<open>The path of the page with number \<open>n\<close>, and the addresses of user space.\<close>

definition vpath :: "nat \<Rightarrow> nat list" where
  "vpath n = [n mod 512, n div 512 mod 512, n div 262144 mod 512]"

definition vaddr :: "nat \<Rightarrow> u64" where
  "vaddr n = of_nat (4096 * n)"

text \<open>The number of pages in user space: \<open>USERTOP / PGSIZE\<close>.\<close>

definition user_pages :: nat where "user_pages = 524288"

lemma unat_vaddr: "n \<le> user_pages \<Longrightarrow> unat (vaddr n) = 4096 * n"
proof -
  assume "n \<le> user_pages"
  then have "take_bit LENGTH(64) (4096 * n) = 4096 * n" by (intro take_bit_nat_eq_self) (simp add: user_pages_def)
  then show ?thesis unfolding vaddr_def unsigned_of_nat by (simp only: of_nat_id)
qed

lemma vaddr_less: "n \<le> user_pages \<Longrightarrow> m \<le> user_pages \<Longrightarrow> vaddr n < vaddr m \<longleftrightarrow> n < m"
  by (simp add: word_less_nat_alt unat_vaddr)

lemma and_1FF: "unat ((w :: u64) AND 0x1FF) = unat w mod 512"
proof -
  have "(0x1FF :: u64) = mask 9" by (simp add: mask_eq_exp_minus_1)
  then have "w AND 0x1FF = take_bit 9 w" by (simp add: take_bit_eq_mask)
  then show ?thesis by (simp add: unsigned_take_bit_eq take_bit_eq_mod unat_mod)
qed

lemma vaddr_path: "n \<le> user_pages \<Longrightarrow> lpath (vaddr n) = vpath n"
proof -
  assume n: "n \<le> user_pages"
  have d: "unat (drop_bit k (vaddr n)) = 4096 * n div 2 ^ k" for k
    by (subst unat_drop_bit_eq) (simp add: drop_bit_eq_div unat_vaddr [OF n])
  have "4096 * n div 2 ^ 21 = n div 512" "4096 * n div 2 ^ 30 = n div 262144" by simp_all
  then show ?thesis
    by (simp add: lpath_def la_path_def vpath_def PTX_def PDX0_def PDX1_def and_1FF d)
qed

lemma vpath_inj:
  assumes "n < 2 ^ 27" and "m < 2 ^ 27" and "vpath n = vpath m"
  shows "n = m"
proof -
  let ?g = "\<lambda>xs. hd xs + 512 * (hd (tl xs) + 512 * hd (tl (tl xs))) :: nat"
  have s: "n = ?g (vpath n)" if "n < 2 ^ 27" for n
  proof -
    have "n div 262144 < 512" using that by (simp add: div_less_iff_less_mult)
    moreover have "n div 262144 = n div 512 div 512" by (simp add: div_mult2_eq [symmetric])
    moreover have "n = n mod 512 + 512 * (n div 512)" "n div 512 = n div 512 mod 512 + 512 * (n div 512 div 512)" by simp_all
    ultimately show ?thesis unfolding vpath_def list.sel by (metis mod_less)
  qed
  show ?thesis by (rule trans [OF s [OF assms(1)] trans [OF arg_cong [where f = ?g, OF assms(3)] s [OF assms(2), symmetric]]])
qed

lemma vaddr_PGSIZE: "n < user_pages \<Longrightarrow> vaddr n + PGSIZE = vaddr (n + 1)"
  by (simp add: vaddr_def PGSIZE_def algebra_simps)

lemma vaddr_mod: "n \<le> user_pages \<Longrightarrow> vaddr n mod PGSIZE = 0"
  by (rule word_unat_eq_iff [THEN iffD2]) (simp add: unat_mod unat_vaddr PGSIZE_def)

text \<open>The next address of another last-level table.\<close>

definition next_table_no :: "nat \<Rightarrow> nat" where
  "next_table_no n = 512 * (n div 512 + 1)"

lemma vaddr_skip:
  assumes n: "n < user_pages"
  shows "ROUNDDOWN (vaddr n + PTSIZE) PTSIZE = vaddr (next_table_no n)" and "next_table_no n \<le> user_pages"
    and "n < next_table_no n"
proof -
  have P: "PTSIZE = 0x200000" by (simp add: PTSIZE_def PGSIZE_def)
  show b: "next_table_no n \<le> user_pages" using n unfolding next_table_no_def user_pages_def
  proof -
    have "n div 512 < 1024" using n by (simp add: div_less_iff_less_mult user_pages_def)
    then have "n div 512 + 1 \<le> 1024" by simp
    then have "512 * (n div 512 + 1) \<le> 512 * 1024" by (rule mult_le_mono2)
    then show "512 * (n div 512 + 1) \<le> 524288" by simp
  qed
  show "n < next_table_no n" unfolding next_table_no_def by simp
  have u: "unat (vaddr n + PTSIZE) = 4096 * n + 0x200000"
    using n unat_vaddr [of n] by (simp add: P unat_plus_if' user_pages_def)
  have "unat (ROUNDDOWN (vaddr n + PTSIZE) PTSIZE) = 4096 * n + 0x200000 - (4096 * n + 0x200000) mod 0x200000"
    unfolding ROUNDDOWN_def using u by (subst unat_sub) (simp_all add: P word_le_nat_alt unat_mod)
  also have "\<dots> = 4096 * next_table_no n"
  proof -
    have "(4096 * n + 0x200000) mod 0x200000 = 4096 * (n mod 512)"
      using mod_mult_mult1 [of 4096 n 512] by simp
    moreover have "4096 * n = 4096 * (512 * (n div 512)) + 4096 * (n mod 512)"
      unfolding distrib_left [symmetric] by simp
    ultimately show ?thesis unfolding next_table_no_def by simp
  qed
  finally show "ROUNDDOWN (vaddr n + PTSIZE) PTSIZE = vaddr (next_table_no n)"
    using unat_vaddr [OF b] by (simp add: word_unat_eq_iff)
qed

lemma vpath_table: "i < next_table_no n \<Longrightarrow> n \<le> i \<Longrightarrow> tl (vpath i) = tl (vpath n)"
proof -
  assume i: "i < next_table_no n" "n \<le> i"
  have "i div 512 = n div 512"
  proof (rule antisym)
    show "n div 512 \<le> i div 512" by (rule div_le_mono [OF i(2)])
    show "i div 512 \<le> n div 512" using i(1) unfolding next_table_no_def by (simp add: div_less_iff_less_mult less_Suc_eq_le [symmetric] mult.commute)
  qed
  then show ?thesis using div_mult2_eq [of i 512 512] div_mult2_eq [of n 512 512] by (simp add: vpath_def)
qed

section \<open>\<open>unmap_range\<close>\<close>

lemma user_path:
  assumes "D d = Some I" and "{0, 1} \<subseteq> I" and n: "n < user_pages"
  shows "PDX1 (vaddr n) \<in> I" and "node D d (vpath n)"
proof -
  have "n div 262144 < 2" using n by (simp add: div_less_iff_less_mult user_pages_def)
  then have l: "n div 262144 mod 512 \<in> I" using assms(2) by (cases "n div 262144") auto
  have "vpath n = lpath (vaddr n)" using n vaddr_path [of n] by simp
  then have "PDX1 (vaddr n) = n div 262144 mod 512" by (simp add: vpath_def lpath_def la_path_def)
  then show "PDX1 (vaddr n) \<in> I" using l by simp
  show "node D d (vpath n)" using assms(1) l by (simp add: node_def vpath_def)
qed

text \<open>The valid entries of a directory for the pages from \<open>n\<close> to \<open>m\<close> are cleared, and the pages that
  nothing refers to any more are free.\<close>

definition unmaps ::
  "(nat \<Rightarrow> nat set option) \<Rightarrow> (nat \<Rightarrow> nat) \<Rightarrow> phys \<Rightarrow> blocks \<Rightarrow> phys \<Rightarrow> blocks \<Rightarrow> nat \<Rightarrow> nat set \<Rightarrow> bool" where
  "unmaps D c s bs s' bs' d N \<longleftrightarrow> npage s' = npage s \<and>
     (\<forall>d' ys. node D d' ys \<and> length ys = 3 \<longrightarrow>
        ent s' d' ys = (if d' = d \<and> ys \<in> vpath ` N \<and> is_valid (ent s d' ys) then 0 else ent s d' ys)) \<and>
     (\<forall>d' ys. node D d' ys \<and> length ys \<le> 2 \<longrightarrow> tbl s' d' ys = tbl s d' ys) \<and>
     (\<forall>r. \<not> is_table s D r \<longrightarrow> words s' r = words s r) \<and>
     pool_pages bs' = pool_pages bs \<union> {p. holders s D p \<noteq> {} \<and> holders s' D p = {} \<and> c p = 0}"

lemma unmaps_none:
  assumes "\<And>i. i \<in> N \<Longrightarrow> \<not> is_valid (ent s d (vpath i))"
  shows "unmaps D c s bs s bs d N"
  using assms by (auto simp: unmaps_def)

lemma unmaps_holders:
  assumes "unmaps D c s bs s' bs' d N"
  shows "holders s' D p \<subseteq> holders s D p"
proof
  fix x assume "x \<in> holders s' D p"
  then obtain d' ys where x: "x = (d', ys)" "node D d' ys" "length ys = 3" "is_valid (ent s' d' ys)" "epage (ent s' d' ys) = p"
    by (auto simp: holders_ent)
  then have "ent s' d' ys = ent s d' ys" using assms by (auto simp: unmaps_def split: if_splits)
  then show "x \<in> holders s D p" using x by (simp add: holders_ent)
qed

lemma unmaps_trans:
  assumes 1: "unmaps D c s bs s1 bs1 d N" and 2: "unmaps D c s1 bs1 s2 bs2 d M"
  shows "unmaps D c s bs s2 bs2 d (N \<union> M)"
proof -
  have it: "is_table s1 D r = is_table s D r" for r
    using 1 unfolding unmaps_def is_table_def by metis
  have e: "ent s2 d' ys = (if d' = d \<and> ys \<in> vpath ` (N \<union> M) \<and> is_valid (ent s d' ys) then 0 else ent s d' ys)"
    if y: "node D d' ys" "length ys = 3" for d' ys
  proof -
    have "ent s1 d' ys = (if d' = d \<and> ys \<in> vpath ` N \<and> is_valid (ent s d' ys) then 0 else ent s d' ys)"
      using 1 y by (simp add: unmaps_def)
    moreover have "ent s2 d' ys = (if d' = d \<and> ys \<in> vpath ` M \<and> is_valid (ent s1 d' ys) then 0 else ent s1 d' ys)"
      using 2 y by (simp add: unmaps_def)
    ultimately show ?thesis by (auto simp: image_Un)
  qed
  have p: "pool_pages bs2 = pool_pages bs \<union> {p. holders s D p \<noteq> {} \<and> holders s2 D p = {} \<and> c p = 0}"
  proof -
    have "pool_pages bs2 = pool_pages bs \<union> {p. holders s D p \<noteq> {} \<and> holders s1 D p = {} \<and> c p = 0} \<union>
        {p. holders s1 D p \<noteq> {} \<and> holders s2 D p = {} \<and> c p = 0}"
      using 1 2 by (simp add: unmaps_def)
    moreover have "holders s1 D p = {} \<longrightarrow> holders s2 D p = {}" "holders s D p = {} \<longrightarrow> holders s1 D p = {}" for p
      using unmaps_holders [OF 1, of p] unmaps_holders [OF 2, of p] by blast+
    ultimately show ?thesis by blast
  qed
  show ?thesis
    unfolding unmaps_def
  proof (intro conjI allI impI)
    show "npage s2 = npage s" using 1 2 by (simp add: unmaps_def)
    show "tbl s2 d' ys = tbl s d' ys" if "node D d' ys \<and> length ys \<le> 2" for d' ys
      using 1 2 that by (simp add: unmaps_def)
    show "words s2 r = words s r" if "\<not> is_table s D r" for r
      using 1 2 that it by (simp add: unmaps_def)
  qed (use e p in auto)
qed

lemma remove_unmaps:
  assumes ok: "space_ok s bs D c" and l: "leaf s D d (vpath n) a" and v: "is_valid (load s a)"
    and below: "below_free bs (epage (load s a))"
  obtains s' bs' where "page_remove_pte d' la a s = Some s'" and "space_ok s' bs' D c" and "unmaps D c s bs s' bs' d {n}"
proof -
  let ?p = "epage (load s a)"
  obtain s' bs' where 1: "page_remove_pte d' la a s = Some s'" "space_ok s' bs' D c"
    "words s' = words (store a 0 s)" "npage s' = npage s"
    "pool_pages bs' = (if holders s D ?p = {(d, vpath n)} \<and> c ?p = 0 then insert ?p (pool_pages bs) else pool_pages bs)"
    "\<forall>q. q \<noteq> ?p \<and> q \<notin> pool_pages bs \<longrightarrow> pages (area s') q = pages (area s) q"
    by (rule remove_pte_ok [OF ok l v refl below])
  note tab = space_tables [OF ok]
  have ev: "ent s d (vpath n) = load s a" by (rule leaf_ent [OF l])
  have hp: "(d, vpath n) \<in> holders s D q \<longleftrightarrow> q = ?p" for q
    using l v ev by (auto simp: holders_ent leaf_def)
  have h: "holders s' D q = holders s D q - {(d, vpath n)}" for q
    using leaf_holders [OF tab l 1(3)] by simp
  have "unmaps D c s bs s' bs' d {n}"
    unfolding unmaps_def
  proof (intro conjI allI impI)
    show "npage s' = npage s" by (rule 1(4))
    show "ent s' d1 ys = (if d1 = d \<and> ys \<in> vpath ` {n} \<and> is_valid (ent s d1 ys) then 0 else ent s d1 ys)"
      if "node D d1 ys \<and> length ys = 3" for d1 ys
      using leaf_store(2) [OF tab l 1(3), of d1 ys] that v ev by auto
    show "tbl s' d1 ys = tbl s d1 ys" if "node D d1 ys \<and> length ys \<le> 2" for d1 ys
      using leaf_store(1) [OF tab l 1(3), of d1 ys] that by simp
    show "words s' r = words s r" if r: "\<not> is_table s D r" for r
    proof -
      have "is_table s D (fst a)" unfolding is_table_def using l node_tl [of D d "hd (vpath n)" "tl (vpath n)"]
        by (intro exI [of _ d] exI [of _ "tl (vpath n)"]) (simp add: leaf_def vpath_def)
      then have "r \<noteq> fst a" using r by auto
      then show ?thesis using 1(3) by (simp add: store_def)
    qed
    have "{q. holders s D q \<noteq> {} \<and> holders s' D q = {} \<and> c q = 0} =
        (if holders s D ?p = {(d, vpath n)} \<and> c ?p = 0 then {?p} else {})"
    proof -
      have 1: "holders s D q \<noteq> {} \<and> holders s' D q = {} \<longleftrightarrow> holders s D q = {(d, vpath n)}" for q
        unfolding h by auto
      have 2: "holders s D q = {(d, vpath n)} \<Longrightarrow> q = ?p" for q using hp [of q] by simp
      have "{q. holders s D q \<noteq> {} \<and> holders s' D q = {} \<and> c q = 0} = {q. holders s D q = {(d, vpath n)} \<and> c q = 0}"
        using 1 by blast
      also have "\<dots> = (if holders s D ?p = {(d, vpath n)} \<and> c ?p = 0 then {?p} else {})"
      proof (cases "holders s D ?p = {(d, vpath n)} \<and> c ?p = 0")
        case True
        have "{q. holders s D q = {(d, vpath n)} \<and> c q = 0} = {?p}"
        proof (rule set_eqI)
          fix q show "q \<in> {q. holders s D q = {(d, vpath n)} \<and> c q = 0} \<longleftrightarrow> q \<in> {?p}"
          proof
            assume "q \<in> {?p}"
            then have "q = ?p" by (rule singletonD)
            then show "q \<in> {q. holders s D q = {(d, vpath n)} \<and> c q = 0}" using True by (simp only: mem_Collect_eq)
          next
            assume "q \<in> {q. holders s D q = {(d, vpath n)} \<and> c q = 0}"
            then show "q \<in> {?p}" using 2 [of q] by (simp only: mem_Collect_eq singleton_iff)
          qed
        qed
        then show ?thesis using True by (simp only: if_True simp_thms)
      next
        case False
        have "\<not> (holders s D q = {(d, vpath n)} \<and> c q = 0)" for q
        proof
          assume h1: "holders s D q = {(d, vpath n)} \<and> c q = 0"
          then have "q = ?p" by (intro 2) (rule conjunct1)
          then show False using h1 False by (simp only: simp_thms)
        qed
        then show ?thesis using False by (simp only: if_not_P Collect_empty_eq simp_thms if_False)
      qed
      finally show ?thesis .
    qed
    then show "pool_pages bs' = pool_pages bs \<union> {q. holders s D q \<noteq> {} \<and> holders s' D q = {} \<and> c q = 0}"
      using 1(5) by simp
  qed
  with 1(1,2) show thesis by (rule that)
qed

text \<open>Some free page lies above every mapped one: with it the allocator can take pages back.\<close>

definition top_free :: "phys \<Rightarrow> blocks \<Rightarrow> (nat \<Rightarrow> nat set option) \<Rightarrow> bool" where
  "top_free s bs D \<longleftrightarrow> (\<exists>q \<in> pool_pages bs. \<forall>p. holders s D p \<noteq> {} \<longrightarrow> p < q)"

lemma top_free_unmaps:
  assumes "unmaps D c s bs s' bs' d N" and t: "top_free s bs D"
  shows "top_free s' bs' D"
proof -
  obtain q where "q \<in> pool_pages bs" "\<forall>p. holders s D p \<noteq> {} \<longrightarrow> p < q" using t by (auto simp: top_free_def)
  moreover have "q \<in> pool_pages bs'" using calculation(1) assms(1) by (simp add: unmaps_def)
  moreover have "holders s' D p \<noteq> {} \<longrightarrow> holders s D p \<noteq> {}" for p using unmaps_holders [OF assms(1), of p] by blast
  ultimately show ?thesis unfolding top_free_def by blast
qed

lemma unmap_loop_ok:
  assumes ok: "space_ok s bs D c" and d: "D d = Some I" "{0, 1} \<subseteq> I" and top: "top_free s bs D"
    and n: "n < m" "m \<le> user_pages"
  shows "\<exists>s' bs'. unmap_loop d (vaddr n) (vaddr m) s = Some s' \<and> space_ok s' bs' D c \<and> unmaps D c s bs s' bs' d {n..<m}"
  using ok top n(1)
proof (induction "m - n" arbitrary: n s bs rule: less_induct)
  case less
  note ok = less.prems(1) and top = less.prems(2) and nm = less.prems(3)
  have nu: "n < user_pages" using nm n(2) by simp
  note up = user_path [where D = D, OF d nu]
  have lp: "lpath (vaddr n) = vpath n" using vaddr_path [of n] nu by simp
  then have tlp: "la_path (vaddr n) = tl (vpath n)" unfolding lpath_def by (metis list.sel(3))
  have step: "\<exists>s' bs'. unmap_loop d (vaddr n) (vaddr m) s = Some s' \<and> space_ok s' bs' D c \<and> unmaps D c s bs s' bs' d {n..<m}"
    if s1: "space_ok s1 bs1 D c" "unmaps D c s bs s1 bs1 d N" and k: "n < k" "k \<le> user_pages"
      and N: "\<And>M. m \<le> k \<Longrightarrow> unmaps D c s bs s1 bs1 d {n..<m}" "k \<le> m \<Longrightarrow> N = {n..<k}"
      and r: "unmap_loop d (vaddr n) (vaddr m) s = (if vaddr k \<noteq> 0 \<and> vaddr k < vaddr m then unmap_loop d (vaddr k) (vaddr m) s1 else Some s1)"
    for s1 bs1 k N
  proof (cases "k < m")
    case True
    have "vaddr k \<noteq> 0" using k unat_vaddr [of k] by (auto simp: word_unat_eq_iff)
    then have r': "unmap_loop d (vaddr n) (vaddr m) s = unmap_loop d (vaddr k) (vaddr m) s1"
      using r True vaddr_less [OF k(2) n(2)] by simp
    have lt: "m - k < m - n" using True k by simp
    obtain s2 bs2 where 2: "unmap_loop d (vaddr k) (vaddr m) s1 = Some s2" "space_ok s2 bs2 D c" "unmaps D c s1 bs1 s2 bs2 d {k..<m}"
      using less.hyps [OF lt s1(1) top_free_unmaps [OF s1(2) top] True] by blast
    have "{n..<k} \<union> {k..<m} = {n..<m}" using True k by auto
    then have "unmaps D c s bs s2 bs2 d {n..<m}" using unmaps_trans [OF s1(2) 2(3)] N(2) True by simp
    then show ?thesis using r' 2 by auto
  next
    case False
    then have "unmap_loop d (vaddr n) (vaddr m) s = Some s1" using r vaddr_less [OF k(2) n(2)] by simp
    then show ?thesis using s1(1) N(1) False by auto
  qed
  have look: "get_pte d (vaddr n) False s = Some (map_option (\<lambda>t. (t, PTX (vaddr n))) (tbl s d (la_path (vaddr n))), s)"
    by (rule get_pte_lookup [OF space_tables [OF ok] d(1) up(1)])
  show ?case
  proof (cases "tbl s d (la_path (vaddr n))")
    case None
    note k = vaddr_skip [OF nu]
    have none: "\<not> is_valid (ent s d (vpath i))" if "n \<le> i" "i < next_table_no n" for i
      using vpath_table [OF that(2,1)] None tlp by (simp add: ent_def)
    have r: "unmap_loop d (vaddr n) (vaddr m) s = (if vaddr (next_table_no n) \<noteq> 0 \<and> vaddr (next_table_no n) < vaddr m
        then unmap_loop d (vaddr (next_table_no n)) (vaddr m) s else Some s)"
      by (subst unmap_loop.simps) (simp add: look None k(1))
    show ?thesis
      by (rule step [OF ok unmaps_none [of "{n..<next_table_no n}"] k(3,2) _ _ r]) (use none in \<open>auto intro!: unmaps_none\<close>)
  next
    case (Some t)
    let ?a = "(t, PTX (vaddr n))"
    have l: "leaf s D d (vpath n) ?a" unfolding lp [symmetric] by (rule get_pte_leaf [where D = D, OF d(1) up(1) Some])
    have e: "ent s d (vpath n) = load s ?a" by (rule leaf_ent [OF l])
    have k: "n < n + 1" "n + 1 \<le> user_pages" using nu by simp_all
    have "\<exists>s1 bs1. (if load s ?a \<noteq> 0 then page_remove_pte d (vaddr n) ?a s else Some s) = Some s1 \<and> space_ok s1 bs1 D c \<and>
        unmaps D c s bs s1 bs1 d {n}"
    proof (cases "is_valid (load s ?a)")
      case False
      then have "(if load s ?a \<noteq> 0 then page_remove_pte d (vaddr n) ?a s else Some s) = Some s" by (simp add: page_remove_pte_def)
      then show ?thesis using ok unmaps_none [of "{n}" s d D c bs] False e by auto
    next
      case True
      have "(d, vpath n) \<in> holders s D (epage (load s ?a))" using True l e by (simp add: holders_ent leaf_def)
      then have "below_free bs (epage (load s ?a))" using top unfolding top_free_def below_free_def by blast
      from ok l True this show ?thesis
      proof (rule remove_unmaps)
        fix s1 bs1 assume "page_remove_pte d (vaddr n) ?a s = Some s1" "space_ok s1 bs1 D c" "unmaps D c s bs s1 bs1 d {n}"
        moreover have "load s ?a \<noteq> 0" using True by auto
        ultimately show ?thesis by auto
      qed
    qed
    then obtain s1 bs1 where s1: "(if load s ?a \<noteq> 0 then page_remove_pte d (vaddr n) ?a s else Some s) = Some s1"
      "space_ok s1 bs1 D c" "unmaps D c s bs s1 bs1 d {n}" by blast
    have r: "unmap_loop d (vaddr n) (vaddr m) s = (if vaddr (n + 1) \<noteq> 0 \<and> vaddr (n + 1) < vaddr m
        then unmap_loop d (vaddr (n + 1)) (vaddr m) s1 else Some s1)"
      by (subst unmap_loop.simps) (simp add: look Some s1(1) vaddr_PGSIZE [OF nu])
    show ?thesis
    proof (rule step [OF s1(2,3) k _ _ r])
      show "unmaps D c s bs s1 bs1 d {n..<m}" if "m \<le> n + 1" for M :: nat
      proof -
        have "{n..<m} = {n}" using nm that by auto
        then show ?thesis using s1(3) by simp
      qed
    qed auto
  qed
qed

lemma unmap_range_ok:
  assumes ok: "space_ok s bs D c" and d: "D d = Some I" "{0, 1} \<subseteq> I" and top: "top_free s bs D"
    and n: "512 \<le> n" "n < m" "m \<le> user_pages"
  shows "\<exists>s' bs'. unmap_range d (vaddr n) (vaddr m) s = Some s' \<and> space_ok s' bs' D c \<and> unmaps D c s bs s' bs' d {n..<m}"
proof -
  have "vaddr n mod PGSIZE = 0" "vaddr m mod PGSIZE = 0" using n vaddr_mod by simp_all
  moreover have "USER_ACCESS (vaddr n) (vaddr m)"
    using n unat_vaddr [of n] unat_vaddr [of m]
    by (simp add: USER_ACCESS_def USERBASE_def USERTOP_def word_le_nat_alt word_less_nat_alt user_pages_def)
  ultimately show ?thesis using unmap_loop_ok [OF ok d top n(2,3)] by (simp add: unmap_range_def)
qed

section \<open>\<open>copy_range\<close>\<close>

lemma alloc_copy_ok:
  assumes ok: "space_ok s bs D c" and p: "in_use s bs p" "\<not> is_table s D p"
    and a: "alloc_page s = Some (Some q, s\<lparr>area := a\<rparr>)" "q \<in> pool_pages bs" "pool_ok (s\<lparr>area := a\<rparr>) bs'"
      "pool_pages bs' = pool_pages bs - {q}" "in_use (s\<lparr>area := a\<rparr>) bs' q" "ref (pages a q) = 0"
      "\<And>r. r \<notin> pool_pages bs \<Longrightarrow> pages a r = pages (area s) r"
  defines "s' \<equiv> copy_page q p (s\<lparr>area := a\<rparr>)"
  shows "space_ok s' bs' D c" and "grows D s bs s' bs'" and "mappable s' bs' D c q" and "words s' q = words s p"
    and "holders s' D q = {}"
proof -
  note tab = space_tables [OF ok]
  have w: "words s' r = words s r" if "r \<noteq> q" for r using that by (simp add: s'_def copy_page_def)
  have used: "r \<noteq> q" if "in_use s bs r" for r using that a(2) by (auto simp: in_use_def)
  have t: "tbl s' d xs = tbl s d xs" if n: "node D d xs" "length xs \<le> 3" for d xs
  proof (rule tbl_cong [OF _ n(1)])
    fix ys r i assume y: "length ys < length xs" "node D d ys" "tbl s d ys = Some r"
    then have "in_use s bs r" using tables_in_use [OF tab y(2) _ y(3)] n(2) by simp
    then show "words s' r i = words s r i" using w [OF used] by simp
  qed
  have h: "holders s' D r = holders s D r" for r using t by (auto simp: holders_def)
  have it: "is_table s' D r = is_table s D r" for r using t unfolding is_table_def by (metis le_trans numeral_le_iff semiring_norm(69,72) le_SucI numeral_3_eq_3 numeral_2_eq_2)
  have old: "in_use s' bs' r" if "in_use s bs r" for r
    using that a(4,7) by (simp add: in_use_def s'_def)
  have pool: "pool_ok s' bs'" by (rule pool_ok_words [OF a(3)]) (simp_all add: s'_def)
  have t': "tables_ok s' bs' D"
    by (rule tables_cong [OF tab pool]) (use old table_in_use [OF tab] t in auto)
  show g: "grows D s bs s' bs'"
    unfolding grows_def
  proof (intro conjI allI impI)
    show "ent s' d xs = ent s d xs" if x: "node D d xs \<and> length xs = 3" for d xs
    proof -
      obtain k ys where ks: "xs = k # ys" using x by (cases xs) auto
      have y: "node D d ys" "length ys \<le> 2" using x node_tl [of D d k ys] by (simp_all add: ks)
      show ?thesis
      proof (cases "tbl s d ys")
        case (Some r)
        then have "words s' r k = words s r k" using w [OF used [OF tables_in_use [OF tab y Some]]] by simp
        then show ?thesis using t [OF y(1)] y(2) Some by (simp add: ent_def ks)
      qed (use t [OF y(1)] y(2) in \<open>simp add: ent_def ks\<close>)
    qed
    show "words s' r = words s r" if "r \<notin> pool_pages bs \<and> \<not> is_table s D r" for r
    proof -
      have "r \<noteq> q" using that a(2) by auto
      then show ?thesis by (rule w)
    qed
  qed (use a(4,7) t it in \<open>auto simp: s'_def\<close>)
  show "space_ok s' bs' D c" by (rule grows_space [OF g t' ok])
  have qu: "\<not> in_use s bs q" using a(2) by (simp add: in_use_def)
  have "\<not> (holders s D q \<noteq> {} \<or> 0 < c q)" using space_held(1) [OF ok, of q] qu by blast
  then have nh: "holders s D q = {}" "c q = 0" by simp_all
  show "holders s' D q = {}" using h nh by simp
  have "\<not> is_table s D q" using table_in_use [OF tab, of q] qu by auto
  moreover have "in_use s' bs' q" using a(5) by (simp add: in_use_def s'_def)
  ultimately show "mappable s' bs' D c q" using nh h it a(6) by (simp add: mappable_def page_ref_def s'_def)
  show "words s' q = words s p" using used [OF p(1)] by (simp add: s'_def copy_page_def)
qed

definition copied :: "u64 \<Rightarrow> nat \<Rightarrow> u64" where
  "copied e q = pte_create (page2ppn q) (PTE_V OR (ucast e AND PTE_USER))"

lemma perm_ok_user: "perm_ok (w AND PTE_USER)"
proof -
  have "PTE_USER AND NOT 0x3FF = 0" by (simp add: PTE_USER_def PTE_R_def PTE_W_def PTE_X_def PTE_U_def PTE_V_def)
  then show ?thesis by (simp add: perm_ok_def and.assoc)
qed

lemma epage_copied: "pool_ok s bs \<Longrightarrow> is_page (npage s) q \<Longrightarrow> epage (copied e q) = q"
  unfolding copied_def by (rule epage_create [OF _ _ perm_ok_V [OF perm_ok_user]]) (simp_all add: pool_ok_def)

lemma copy_one_ok:
  assumes ok: "space_ok s bs D c" and d: "D to = Some I" "{0, 1} \<subseteq> I" and n: "n < user_pages"
    and l: "leaf s D src (vpath n) a" and v: "is_valid (load s a)" and tv: "\<not> is_valid (ent s to (vpath n))"
    and room: "3 \<le> card (pool_pages bs)"
  obtains q s' bs' where "copy_one to (vaddr n) a s = Some (0, s')" and "space_ok s' bs' D c"
    and "updates D s bs s' to (vpath n) (copied (load s a) q)" and "q \<in> pool_pages bs - pool_pages bs'"
    and "pool_pages bs' \<subseteq> pool_pages bs" and "card (pool_pages bs) \<le> card (pool_pages bs') + 3"
    and "words s' q = words s (epage (load s a))" and "\<forall>r. is_table s' D r \<longrightarrow> is_table s D r \<or> r \<in> pool_pages bs"
proof -
  let ?p = "epage (load s a)" and ?e = "load s a" and ?perm = "ucast (load s a) AND PTE_USER"
  note up = user_path [where D = D, OF d n]
  have lp: "lpath (vaddr n) = vpath n" using vaddr_path [of n] n by simp
  have held: "(src, vpath n) \<in> holders s D ?p" using l v leaf_ent [OF l] by (simp add: holders_ent leaf_def)
  then have pu: "in_use s bs ?p" "\<not> is_table s D ?p" using space_held(1,2) [OF ok, of ?p] by blast+
  obtain s1 bs1 where g1: "get_pte to (vaddr n) True s = Some (map_option (\<lambda>t. (t, PTX (vaddr n))) (tbl s1 to (la_path (vaddr n))), s1)"
    and 1: "tbl s1 to (la_path (vaddr n)) = None \<longrightarrow> bs1 = []" "tables_ok s1 bs1 D" "grows D s bs s1 bs1"
    "tbl s to (la_path (vaddr n)) \<noteq> None \<longrightarrow> s1 = s \<and> bs1 = bs" "card (pool_pages bs) \<le> card (pool_pages bs1) + 2"
    by (rule get_pte_create [OF space_tables [OF ok] d(1) up(1)])
  have b1: "bs1 \<noteq> []" using 1(5) room by auto
  then have t1: "tbl s1 to (la_path (vaddr n)) \<noteq> None" using 1(1) by blast
  have sp1: "space_ok s1 bs1 D c" by (rule grows_space [OF 1(3,2) ok])
  have la: "load s1 a = ?e"
  proof -
    have "node D src (tl (vpath n))" using l node_tl [of D src "hd (vpath n)" "tl (vpath n)"] by (simp add: leaf_def vpath_def)
    moreover have "length (tl (vpath n)) \<le> 2" by (simp add: vpath_def)
    ultimately have "leaf s1 D src (vpath n) a" using l 1(3) unfolding leaf_def grows_def by (metis option.distinct(1))
    then show ?thesis using leaf_ent [of s1 D src "vpath n" a] leaf_ent [OF l] 1(3) l by (simp add: grows_def leaf_def)
  qed
  have p1: "in_use s1 bs1 ?p" "\<not> is_table s1 D ?p"
    using grows_in_use [OF 1(3) pu(1)] 1(3) pu by (auto simp: grows_def in_use_def)
  have pp: "pte2page s1 (load s1 a) = Some ?p"
    using pte2page_epage [OF tables_pool [OF 1(2)], of ?e] p1 v la by (simp add: in_use_def)
  from tables_pool [OF 1(2)] show thesis
  proof (cases rule: alloc_page_ok)
    case 1
    then show thesis using b1 by simp
  next
    case (2 q ar bs2)
    let ?s2 = "s1\<lparr>area := ar\<rparr>" and ?s3 = "copy_page q ?p (s1\<lparr>area := ar\<rparr>)"
    note c3 = alloc_copy_ok [OF sp1 p1 2]
    have kp: "page2kva ?s2 ?p = Some ?p" "page2kva ?s2 q = Some q"
      unfolding page2kva_def using KADDR_page [OF 2(3)] p1(1) 2(5) by (simp_all add: in_use_def)
    have t3: "tbl ?s3 to (la_path (vaddr n)) \<noteq> None"
    proof -
      have "node D to (la_path (vaddr n))" using up(2) node_tl [of D to "PTX (vaddr n)" "la_path (vaddr n)"] lp by (simp add: lpath_def)
      then show ?thesis using c3(2) t1 unfolding grows_def by (simp add: la_path_def)
    qed
    have g13: "grows D s bs ?s3 bs2" by (rule grows_trans [OF \<open>grows D s bs s1 bs1\<close> c3(2)])
    have tv3: "\<not> is_valid (ent ?s3 to (lpath (vaddr n)))"
      using tv g13 up(2) unfolding lp by (simp add: grows_def vpath_def)
    have qin: "q \<in> pool_pages bs" using 2(2) 1(3) by (auto simp: grows_def)
    from c3(1) d(1) up(1) c3(3) perm_ok_user show thesis
    proof (rule page_insert_ok)
      show "below_free bs2 (epage (ent ?s3 to (lpath (vaddr n))))" if "is_valid (ent ?s3 to (lpath (vaddr n)))"
        using that tv3 by blast
    next
      fix s' assume "tbl ?s3 to (la_path (vaddr n)) = None"
      then show thesis using t3 by blast
    next
      fix s' bs'
      assume ins: "page_insert to q (vaddr n) ?perm ?s3 = Some (0, s')" and sp: "space_ok s' bs' D c"
        and u: "updates D ?s3 bs2 s' to (lpath (vaddr n)) (pte_create (page2ppn q) (PTE_V OR ?perm))"
        and pool: "\<not> is_valid (ent ?s3 to (lpath (vaddr n))) \<Longrightarrow> pool_pages bs' \<subseteq> pool_pages bs2 \<and> card (pool_pages bs2) \<le> card (pool_pages bs') + 2"
          "tbl ?s3 to (la_path (vaddr n)) \<noteq> None \<Longrightarrow> pool_pages bs2 \<subseteq> pool_pages bs'"
      have pool': "pool_pages bs' = pool_pages bs2" using pool(1) [OF tv3] pool(2) [OF t3] by blast
      have r: "copy_one to (vaddr n) a s = Some (0, s')"
        using g1 t1 pp 2(1) kp ins la by (auto simp: copy_one_def Let_def)
      have u': "updates D s bs s' to (vpath n) (copied ?e q)"
        using grows_updates [OF g13 u] unfolding lp copied_def .
      have qn: "q \<notin> pool_pages bs2" using 2(4) by simp
      have card: "card (pool_pages bs) \<le> card (pool_pages bs') + 3"
        using 1(5) 2(2,4) pool' by (simp add: card_Diff_singleton)
      have w: "words s' q = words s ?p"
      proof -
        have "words s' q = words ?s3 q" using u qn c3(3) by (simp add: updates_def mappable_def)
        also have "\<dots> = words s1 ?p" by (rule c3(4))
        also have "\<dots> = words s ?p" using 1(3) pu by (simp add: grows_def in_use_def)
        finally show ?thesis .
      qed
      show thesis
        by (rule that [OF r sp u' _ _ card w]) (use qin qn pool' g13 u' in \<open>auto simp: grows_def updates_def\<close>)
    qed
  qed
qed

text \<open>The pages of \<open>N\<close> that \<open>src\<close> maps are copied into fresh pages, and \<open>to\<close> maps these.\<close>

definition mapped_in :: "phys \<Rightarrow> nat \<Rightarrow> nat set \<Rightarrow> nat set" where
  "mapped_in s src N = {i \<in> N. is_valid (ent s src (vpath i))}"

definition copies ::
  "(nat \<Rightarrow> nat set option) \<Rightarrow> phys \<Rightarrow> blocks \<Rightarrow> phys \<Rightarrow> blocks \<Rightarrow> nat \<Rightarrow> nat \<Rightarrow> nat set \<Rightarrow> bool" where
  "copies D s bs s' bs' to src N \<longleftrightarrow> pool_pages bs' \<subseteq> pool_pages bs \<and>
     (\<exists>f. inj_on f (mapped_in s src N) \<and> (\<forall>i \<in> mapped_in s src N. f i \<in> pool_pages bs - pool_pages bs' \<and>
        ent s' to (vpath i) = copied (ent s src (vpath i)) (f i) \<and>
        words s' (f i) = words s (epage (ent s src (vpath i))))) \<and>
     (\<forall>d ys. node D d ys \<and> length ys = 3 \<and> \<not> (d = to \<and> ys \<in> vpath ` mapped_in s src N) \<longrightarrow> ent s' d ys = ent s d ys) \<and>
     (\<forall>r. is_table s' D r \<longrightarrow> is_table s D r \<or> r \<in> pool_pages bs) \<and>
     (\<forall>r. r \<notin> pool_pages bs \<and> \<not> is_table s D r \<longrightarrow> words s' r = words s r)"

lemma vpath_other:
  assumes "i < user_pages" and "M \<subseteq> {..<user_pages}" and "i \<notin> M"
  shows "vpath i \<notin> vpath ` mapped_in s src M"
proof
  assume "vpath i \<in> vpath ` mapped_in s src M"
  then obtain j where j: "j \<in> M" "vpath i = vpath j" by (auto simp: mapped_in_def)
  then have "j < user_pages" using assms(2) by auto
  then have "i = j" using j(2) assms(1) vpath_inj [of i j] by (simp add: user_pages_def)
  then show False using j(1) assms(3) by simp
qed

lemma copies_none: "mapped_in s src N = {} \<Longrightarrow> copies D s bs s bs to src N"
  by (simp add: copies_def)

lemma copies_trans:
  assumes ok: "space_ok s bs D c" and ok1: "space_ok s1 bs1 D c"
    and d: "D to = Some I" "{0, 1} \<subseteq> I" and e: "D src = Some J" "{0, 1} \<subseteq> J" and ne: "to \<noteq> src"
    and 1: "copies D s bs s1 bs1 to src N" and 2: "copies D s1 bs1 s2 bs2 to src M"
    and N: "N \<subseteq> {..<user_pages}" "M \<subseteq> {..<user_pages}" "N \<inter> M = {}"
  shows "copies D s bs s2 bs2 to src (N \<union> M)"
proof -
  have nt: "node D to (vpath i)" "node D src (vpath i)" if "i < user_pages" for i
    using user_path(2) [where D = D, OF d that] user_path(2) [where D = D, OF e that] .
  have l3: "length (vpath i) = 3" for i by (simp add: vpath_def)
  have es: "ent s1 src (vpath i) = ent s src (vpath i)" if "i < user_pages" for i
    using 1 nt(2) [OF that] l3 ne by (simp add: copies_def)
  have V2: "mapped_in s1 src M = mapped_in s src M" using es N(2) by (auto simp: mapped_in_def)
  have VV: "mapped_in s src (N \<union> M) = mapped_in s src N \<union> mapped_in s src M" by (auto simp: mapped_in_def)
  have sub: "mapped_in s src N \<subseteq> N" "mapped_in s src M \<subseteq> M" by (auto simp: mapped_in_def)
  obtain f where f: "inj_on f (mapped_in s src N)" "\<forall>i \<in> mapped_in s src N. f i \<in> pool_pages bs - pool_pages bs1 \<and>
        ent s1 to (vpath i) = copied (ent s src (vpath i)) (f i) \<and> words s1 (f i) = words s (epage (ent s src (vpath i)))"
    using 1 by (auto simp: copies_def)
  obtain g where g: "inj_on g (mapped_in s src M)" "\<forall>i \<in> mapped_in s src M. g i \<in> pool_pages bs1 - pool_pages bs2 \<and>
        ent s2 to (vpath i) = copied (ent s1 src (vpath i)) (g i) \<and> words s2 (g i) = words s1 (epage (ent s1 src (vpath i)))"
    using 2 V2 by (auto simp: copies_def)
  let ?h = "\<lambda>i. if i \<in> N then f i else g i"
  have notM: "i \<notin> N" if "i \<in> mapped_in s src M" for i using that sub(2) N(3) by blast
  have pools: "pool_pages bs1 \<subseteq> pool_pages bs" "pool_pages bs2 \<subseteq> pool_pages bs1" using 1 2 by (simp_all add: copies_def)
  have "inj_on ?h (mapped_in s src N \<union> mapped_in s src M)"
  proof (rule inj_onI)
    fix i j assume i: "i \<in> mapped_in s src N \<union> mapped_in s src M" and j: "j \<in> mapped_in s src N \<union> mapped_in s src M"
      and eq: "?h i = ?h j"
    have cross: "f a \<noteq> g b" if "a \<in> mapped_in s src N" "b \<in> mapped_in s src M" for a b
      using f(2) g(2) that by (metis Diff_iff)
    show "i = j"
    proof (cases "i \<in> N"; cases "j \<in> N")
      assume "i \<in> N" "j \<in> N"
      then show ?thesis using i j eq notM inj_onD [OF f(1), of i j] by auto
    next
      assume "i \<notin> N" "j \<notin> N"
      then show ?thesis using i j eq sub(1) inj_onD [OF g(1), of i j] by auto
    next
      assume a: "i \<in> N" "j \<notin> N"
      then have "i \<in> mapped_in s src N" "j \<in> mapped_in s src M" using i j notM sub(1) by auto
      then show ?thesis using cross [of i j] eq a by simp
    next
      assume a: "i \<notin> N" "j \<in> N"
      then have "j \<in> mapped_in s src N" "i \<in> mapped_in s src M" using i j notM sub(1) by auto
      then show ?thesis using cross [of j i] eq a by simp
    qed
  qed
  moreover have "?h i \<in> pool_pages bs - pool_pages bs2 \<and> ent s2 to (vpath i) = copied (ent s src (vpath i)) (?h i) \<and>
      words s2 (?h i) = words s (epage (ent s src (vpath i)))" if i: "i \<in> mapped_in s src N \<union> mapped_in s src M" for i
  proof (cases "i \<in> N")
    case True
    then have iN: "i \<in> mapped_in s src N" using i notM by blast
    note fi = f(2) [rule_format, OF iN]
    have iu: "i < user_pages" using True N(1) by auto
    have "vpath i \<notin> vpath ` mapped_in s src M"
      by (rule vpath_other [OF iu N(2)]) (use True N(3) in auto)
    then have e2: "ent s2 to (vpath i) = ent s1 to (vpath i)" using 2 nt(1) [OF iu] l3 V2 by (simp add: copies_def)
    have "is_valid (ent s1 to (vpath i)) \<and> epage (ent s1 to (vpath i)) = f i"
    proof -
      have "pool_ok s bs" "is_page (npage s) (f i)"
        using tables_pool [OF space_tables [OF ok]] fi by (auto simp: pool_ok_def)
      then have "epage (copied (ent s src (vpath i)) (f i)) = f i" by (rule epage_copied)
      then show ?thesis using fi by (simp add: copied_def)
    qed
    then have "(to, vpath i) \<in> holders s1 D (f i)" using nt(1) [OF iu] l3 by (simp add: holders_ent)
    then have "\<not> is_table s1 D (f i)" using space_held(2) [OF ok1] by blast
    then have "words s2 (f i) = words s1 (f i)" using 2 fi by (simp add: copies_def)
    then show ?thesis using fi e2 True pools by auto
  next
    case False
    then have iM: "i \<in> mapped_in s src M" using i sub(1) by blast
    note gi = g(2) [rule_format, OF iM]
    have iu: "i < user_pages" using iM sub(2) N(2) by auto
    let ?p = "epage (ent s src (vpath i))"
    have "(src, vpath i) \<in> holders s D ?p" using nt(2) [OF iu] l3 iM by (simp add: holders_ent mapped_in_def)
    then have "in_use s bs ?p" "\<not> is_table s D ?p" using space_held(1,2) [OF ok, of ?p] by blast+
    then have "words s1 ?p = words s ?p" using 1 by (simp add: copies_def in_use_def)
    then show ?thesis using gi es [OF iu] False pools by auto
  qed
  ultimately have F: "\<exists>h. inj_on h (mapped_in s src (N \<union> M)) \<and> (\<forall>i \<in> mapped_in s src (N \<union> M). h i \<in> pool_pages bs - pool_pages bs2 \<and>
      ent s2 to (vpath i) = copied (ent s src (vpath i)) (h i) \<and> words s2 (h i) = words s (epage (ent s src (vpath i))))"
    unfolding VV by blast
  show ?thesis
    unfolding copies_def
  proof (intro conjI allI impI F)
    show "ent s2 d' ys = ent s d' ys" if "node D d' ys \<and> length ys = 3 \<and> \<not> (d' = to \<and> ys \<in> vpath ` mapped_in s src (N \<union> M))" for d' ys
      using 1 2 that unfolding copies_def V2 VV image_Un by simp
    show "is_table s D r \<or> r \<in> pool_pages bs" if "is_table s2 D r" for r
      using 1 2 that unfolding copies_def by blast
    show "words s2 r = words s r" if "r \<notin> pool_pages bs \<and> \<not> is_table s D r" for r
      using 1 2 that unfolding copies_def by (metis subsetD)
  qed (use pools in auto)
qed

lemma copy_one_copies:
  assumes u: "updates D s bs s' to (vpath n) (copied e q)" and e: "is_valid e" "ent s src (vpath n) = e"
    and q: "q \<in> pool_pages bs - pool_pages bs'" "pool_pages bs' \<subseteq> pool_pages bs" "words s' q = words s (epage e)"
    and n: "node D to (vpath n)"
  shows "copies D s bs s' bs' to src {n}"
proof -
  have V: "mapped_in s src {n} = {n}" using e by (auto simp: mapped_in_def)
  have "ent s' to (vpath n) = copied e q" using u n by (simp add: updates_def vpath_def)
  then have "\<exists>f. inj_on f {n} \<and> (\<forall>i \<in> {n}. f i \<in> pool_pages bs - pool_pages bs' \<and>
        ent s' to (vpath i) = copied (ent s src (vpath i)) (f i) \<and> words s' (f i) = words s (epage (ent s src (vpath i))))"
    using q e by (intro exI [of _ "\<lambda>_. q"]) simp
  then show ?thesis unfolding copies_def V using q(2) u by (simp add: updates_def)
qed

lemma copy_loop_ok:
  assumes d: "D to = Some I" "{0, 1} \<subseteq> I" and e: "D src = Some J" "{0, 1} \<subseteq> J" and ne: "to \<noteq> src"
    and ok: "space_ok s bs D c" and n: "n < m" "m \<le> user_pages"
    and free: "\<And>i. n \<le> i \<Longrightarrow> i < m \<Longrightarrow> \<not> is_valid (ent s to (vpath i))" and room: "3 * (m - n) \<le> card (pool_pages bs)"
  shows "\<exists>s' bs'. copy_loop to src (vaddr n) (vaddr m) s = Some (0, s') \<and> space_ok s' bs' D c \<and>
    copies D s bs s' bs' to src {n..<m} \<and> card (pool_pages bs) \<le> card (pool_pages bs') + 3 * (m - n)"
  using ok n(1) free room
proof (induction "m - n" arbitrary: n s bs rule: less_induct)
  case less
  note ok = less.prems(1) and nm = less.prems(2) and free = less.prems(3) and room = less.prems(4)
  have nu: "n < user_pages" using nm n(2) by simp
  note up = user_path [where D = D, OF e nu]
  have lp: "lpath (vaddr n) = vpath n" using vaddr_path [of n] nu by simp
  then have tlp: "la_path (vaddr n) = tl (vpath n)" unfolding lpath_def by (metis list.sel(3))
  have step: "\<exists>s' bs'. copy_loop to src (vaddr n) (vaddr m) s = Some (0, s') \<and> space_ok s' bs' D c \<and> copies D s bs s' bs' to src {n..<m} \<and>
      card (pool_pages bs) \<le> card (pool_pages bs') + 3 * (m - n)"
    if s1: "space_ok s1 bs1 D c" "\<And>M. M \<subseteq> {n..<min k m} \<Longrightarrow> n \<in> M \<Longrightarrow> copies D s bs s1 bs1 to src M" and k: "n < k" "k \<le> user_pages"
      and cnt: "card (pool_pages bs) \<le> card (pool_pages bs1) + 3"
      and r: "copy_loop to src (vaddr n) (vaddr m) s = (if vaddr k \<noteq> 0 \<and> vaddr k < vaddr m then copy_loop to src (vaddr k) (vaddr m) s1 else Some (0, s1))"
    for s1 bs1 k
  proof (cases "k < m")
    case True
    have "vaddr k \<noteq> 0" using k unat_vaddr [of k] by (auto simp: word_unat_eq_iff)
    then have r': "copy_loop to src (vaddr n) (vaddr m) s = copy_loop to src (vaddr k) (vaddr m) s1"
      using r True vaddr_less [OF k(2) n(2)] by simp
    have c1: "copies D s bs s1 bs1 to src {n..<k}" using s1(2) [of "{n..<k}"] True k by auto
    have free1: "\<not> is_valid (ent s1 to (vpath i))" if i: "k \<le> i" "i < m" for i
    proof -
      have iu: "i < user_pages" using i n(2) by simp
      have "vpath i \<notin> vpath ` mapped_in s src {n..<k}"
        by (rule vpath_other [OF iu]) (use i k(2) in auto)
      then have "ent s1 to (vpath i) = ent s to (vpath i)"
        using c1 user_path(2) [where D = D, OF d iu] by (simp add: copies_def vpath_def)
      then show ?thesis using free [of i] i k by simp
    qed
    have lt: "m - k < m - n" using True k by simp
    have room1: "3 * (m - k) \<le> card (pool_pages bs1)" using room cnt k True by simp
    obtain s2 bs2 where 2: "copy_loop to src (vaddr k) (vaddr m) s1 = Some (0, s2)" "space_ok s2 bs2 D c" "copies D s1 bs1 s2 bs2 to src {k..<m}"
      "card (pool_pages bs1) \<le> card (pool_pages bs2) + 3 * (m - k)"
      using less.hyps [OF lt s1(1) True free1 room1] by blast
    have "copies D s bs s2 bs2 to src ({n..<k} \<union> {k..<m})"
      by (rule copies_trans [OF ok s1(1) d e ne c1 2(3)]) (use k n(2) in auto)
    moreover have "{n..<k} \<union> {k..<m} = {n..<m}" using True k by auto
    moreover have "card (pool_pages bs) \<le> card (pool_pages bs2) + 3 * (m - n)" using 2(4) cnt k(1) True by simp
    ultimately show ?thesis using r' 2 by auto
  next
    case False
    then have "copy_loop to src (vaddr n) (vaddr m) s = Some (0, s1)" using r vaddr_less [OF k(2) n(2)] by simp
    moreover have "copies D s bs s1 bs1 to src {n..<m}" using s1(2) [of "{n..<m}"] False nm by auto
    moreover have "card (pool_pages bs) \<le> card (pool_pages bs1) + 3 * (m - n)" using cnt nm by simp
    ultimately show ?thesis using s1(1) by auto
  qed
  have look: "get_pte src (vaddr n) False s = Some (map_option (\<lambda>t. (t, PTX (vaddr n))) (tbl s src (la_path (vaddr n))), s)"
    by (rule get_pte_lookup [OF space_tables [OF ok] e(1) up(1)])
  show ?case
  proof (cases "tbl s src (la_path (vaddr n))")
    case None
    note k = vaddr_skip [OF nu]
    have none: "\<not> is_valid (ent s src (vpath i))" if "n \<le> i" "i < next_table_no n" for i
      using vpath_table [OF that(2,1)] None tlp by (simp add: ent_def)
    have r: "copy_loop to src (vaddr n) (vaddr m) s = (if vaddr (next_table_no n) \<noteq> 0 \<and> vaddr (next_table_no n) < vaddr m
        then copy_loop to src (vaddr (next_table_no n)) (vaddr m) s else Some (0, s))"
      by (subst copy_loop.simps) (simp add: look None k(1) Let_def)
    have "copies D s bs s bs to src M" if "M \<subseteq> {n..<min (next_table_no n) m}" for M
      by (rule copies_none) (use that none in \<open>auto simp: mapped_in_def\<close>)
    then show ?thesis using step [OF ok _ k(3,2) _ r] by simp
  next
    case (Some t)
    let ?a = "(t, PTX (vaddr n))"
    have l: "leaf s D src (vpath n) ?a" unfolding lp [symmetric] by (rule get_pte_leaf [where D = D, OF e(1) up(1) Some])
    have en: "ent s src (vpath n) = load s ?a" by (rule leaf_ent [OF l])
    have k: "n < n + 1" "n + 1 \<le> user_pages" using nu by simp_all
    have "\<exists>s1 bs1. (if is_valid (load s ?a) then copy_one to (vaddr n) ?a s else Some (0, s)) = Some (0, s1) \<and> space_ok s1 bs1 D c \<and>
        copies D s bs s1 bs1 to src {n} \<and> card (pool_pages bs) \<le> card (pool_pages bs1) + 3"
    proof (cases "is_valid (load s ?a)")
      case False
      then show ?thesis using ok copies_none [of s src "{n}" D bs to] en by (auto simp: mapped_in_def)
    next
      case True
      have r3: "3 \<le> card (pool_pages bs)" using room nm by simp
      have nv: "\<not> is_valid (ent s to (vpath n))" using free [of n] nm by simp
      from ok d nu l True nv r3 show ?thesis
      proof (rule copy_one_ok)
        fix q s1 bs1
        assume 1: "copy_one to (vaddr n) ?a s = Some (0, s1)" "space_ok s1 bs1 D c" "updates D s bs s1 to (vpath n) (copied (load s ?a) q)"
          "q \<in> pool_pages bs - pool_pages bs1" "pool_pages bs1 \<subseteq> pool_pages bs" "card (pool_pages bs) \<le> card (pool_pages bs1) + 3"
          "words s1 q = words s (epage (load s ?a))"
        have "copies D s bs s1 bs1 to src {n}"
          by (rule copy_one_copies [OF 1(3) True en 1(4,5,7) user_path(2) [where D = D, OF d nu]])
        then show ?thesis using 1 True by auto
      qed
    qed
    then obtain s1 bs1 where s1: "(if is_valid (load s ?a) then copy_one to (vaddr n) ?a s else Some (0, s)) = Some (0, s1)"
      "space_ok s1 bs1 D c" "copies D s bs s1 bs1 to src {n}" "card (pool_pages bs) \<le> card (pool_pages bs1) + 3" by blast
    have r: "copy_loop to src (vaddr n) (vaddr m) s = (if vaddr (n + 1) \<noteq> 0 \<and> vaddr (n + 1) < vaddr m
        then copy_loop to src (vaddr (n + 1)) (vaddr m) s1 else Some (0, s1))"
      by (subst copy_loop.simps) (simp add: look Some s1(1) vaddr_PGSIZE [OF nu] Let_def)
    have "copies D s bs s1 bs1 to src M" if "M \<subseteq> {n..<min (n + 1) m}" "n \<in> M" for M
    proof -
      have "M = {n}" using that nm by auto
      then show ?thesis using s1(3) by simp
    qed
    then show ?thesis by (rule step [OF s1(2) _ k s1(4) r])
  qed
qed

lemma copy_range_ok:
  assumes d: "D to = Some I" "{0, 1} \<subseteq> I" "D src = Some J" "{0, 1} \<subseteq> J" "to \<noteq> src"
    and ok: "space_ok s bs D c" and n: "512 \<le> n" "n < m" "m \<le> user_pages"
    and free: "\<forall>i. n \<le> i \<and> i < m \<longrightarrow> \<not> is_valid (ent s to (vpath i))" and room: "3 * (m - n) \<le> card (pool_pages bs)"
  shows "\<exists>s' bs'. copy_range to src (vaddr n) (vaddr m) s = Some (0, s') \<and> space_ok s' bs' D c \<and>
    copies D s bs s' bs' to src {n..<m} \<and> card (pool_pages bs) \<le> card (pool_pages bs') + 3 * (m - n)"
proof -
  have "vaddr n mod PGSIZE = 0" "vaddr m mod PGSIZE = 0" using n vaddr_mod by simp_all
  moreover have "USER_ACCESS (vaddr n) (vaddr m)"
    using n unat_vaddr [of n] unat_vaddr [of m]
    by (simp add: USER_ACCESS_def USERBASE_def USERTOP_def word_le_nat_alt word_less_nat_alt user_pages_def)
  ultimately have r: "copy_range to src (vaddr n) (vaddr m) s = copy_loop to src (vaddr n) (vaddr m) s"
    by (simp add: copy_range_def)
  show ?thesis unfolding r by (rule copy_loop_ok [OF d(1-4) d(5) ok n(2,3) _ room]) (use free in blast)
qed

section \<open>The other operations\<close>

lemma get_page_ok:
  assumes ok: "space_ok s bs D c" and d: "D d = Some I" "PDX1 la \<in> I"
  shows "get_page d la s = Some ((tbl s d (lpath la), map_option (\<lambda>t. (t, PTX la)) (tbl s d (la_path la))), s)"
proof -
  note look = get_pte_lookup [OF space_tables [OF ok] d]
  show ?thesis
  proof (cases "tbl s d (la_path la)")
    case None
    then show ?thesis using tbl_None [OF None, of "PTX la"] by (simp add: get_page_def look lpath_def)
  next
    case (Some t)
    have l: "leaf s D d (lpath la) (t, PTX la)" by (rule get_pte_leaf [where D = D, OF d Some])
    have te: "tbl s d (lpath la) = (if is_valid (load s (t, PTX la)) then Some (epage (load s (t, PTX la))) else None)"
      using tbl_ent [of s d "PTX la" "la_path la"] leaf_ent [OF l] by (simp add: lpath_def)
    have "pte2page s (load s (t, PTX la)) = Some (epage (load s (t, PTX la)))" if v: "is_valid (load s (t, PTX la))"
    proof -
      have "(d, lpath la) \<in> holders s D (epage (load s (t, PTX la)))" using l v leaf_ent [OF l] by (simp add: holders_ent leaf_def)
      then have "in_use s bs (epage (load s (t, PTX la)))" using space_held(1) [OF ok] by blast
      then show ?thesis using pte2page_epage [OF tables_pool [OF space_tables [OF ok]] _ v] by (simp add: in_use_def)
    qed
    then show ?thesis using Some by (simp add: get_page_def look te)
  qed
qed

lemma page_remove_ok:
  assumes ok: "space_ok s bs D c" and d: "D d = Some I" "{0, 1} \<subseteq> I" and n: "n < user_pages" and top: "top_free s bs D"
  shows "\<exists>s' bs'. page_remove d (vaddr n) s = Some s' \<and> space_ok s' bs' D c \<and> unmaps D c s bs s' bs' d {n}"
proof -
  note up = user_path [where D = D, OF d n]
  have lp: "lpath (vaddr n) = vpath n" using vaddr_path [of n] n by simp
  then have tlp: "la_path (vaddr n) = tl (vpath n)" unfolding lpath_def by (metis list.sel(3))
  note look = get_pte_lookup [OF space_tables [OF ok] d(1) up(1)]
  show ?thesis
  proof (cases "tbl s d (la_path (vaddr n))")
    case None
    then have "\<not> is_valid (ent s d (vpath n))" using tlp by (simp add: ent_def)
    then show ?thesis using None ok unmaps_none [of "{n}" s d D c bs] by (simp add: page_remove_def look) blast
  next
    case (Some t)
    let ?a = "(t, PTX (vaddr n))"
    have l: "leaf s D d (vpath n) ?a" unfolding lp [symmetric] by (rule get_pte_leaf [where D = D, OF d(1) up(1) Some])
    have e: "ent s d (vpath n) = load s ?a" by (rule leaf_ent [OF l])
    have r: "page_remove d (vaddr n) s = page_remove_pte d (vaddr n) ?a s" by (simp add: page_remove_def look Some)
    show ?thesis
    proof (cases "is_valid (load s ?a)")
      case False
      then have "page_remove_pte d (vaddr n) ?a s = Some s" by (simp add: page_remove_pte_def)
      moreover have "unmaps D c s bs s bs d {n}" by (rule unmaps_none) (use False e in simp)
      ultimately show ?thesis using ok r by auto
    next
      case True
      have "(d, vpath n) \<in> holders s D (epage (load s ?a))" using True l e by (simp add: holders_ent leaf_def)
      then have "below_free bs (epage (load s ?a))" using top unfolding top_free_def below_free_def by blast
      from ok l True this show ?thesis
      proof (rule remove_unmaps)
        fix s1 bs1 assume "page_remove_pte d (vaddr n) ?a s = Some s1" "space_ok s1 bs1 D c" "unmaps D c s bs s1 bs1 d {n}"
        then show ?thesis using r by auto
      qed
    qed
  qed
qed

text \<open>A fresh page, allocated but not mapped yet.\<close>

lemma alloc_fresh:
  assumes ok: "space_ok s bs D c"
    and a: "alloc_page s = Some (Some q, s\<lparr>area := a\<rparr>)" "q \<in> pool_pages bs" "pool_ok (s\<lparr>area := a\<rparr>) bs'"
      "pool_pages bs' = pool_pages bs - {q}" "in_use (s\<lparr>area := a\<rparr>) bs' q" "ref (pages a q) = 0"
      "\<And>r. r \<notin> pool_pages bs \<Longrightarrow> pages a r = pages (area s) r"
  defines "s' \<equiv> s\<lparr>area := a\<rparr>"
  shows "space_ok s' bs' D c" and "grows D s bs s' bs'" and "mappable s' bs' D c q" and "holders s' D q = {}" and "c q = 0"
proof -
  note tab = space_tables [OF ok]
  have t: "tbl s' d xs = tbl s d xs" for d xs by (rule tbl_words) (simp add: s'_def)
  have h: "holders s' D r = holders s D r" for r by (simp add: holders_def t)
  have it: "is_table s' D r = is_table s D r" for r by (simp add: is_table_def t)
  have old: "in_use s' bs' r" if "in_use s bs r" for r
    using that a(4,7) by (simp add: in_use_def s'_def)
  have pool: "pool_ok s' bs'" using a(3) by (simp add: s'_def)
  have t': "tables_ok s' bs' D"
    by (rule tables_cong [OF tab pool]) (use old table_in_use [OF tab] t in auto)
  show g: "grows D s bs s' bs'"
    unfolding grows_def by (intro conjI allI impI) (use a(4,7) it in \<open>auto simp: s'_def ent_def t [unfolded s'_def] split: option.split\<close>)
  show "space_ok s' bs' D c" by (rule grows_space [OF g t' ok])
  have qu: "\<not> in_use s bs q" using a(2) by (simp add: in_use_def)
  have "\<not> (holders s D q \<noteq> {} \<or> 0 < c q)" using space_held(1) [OF ok, of q] qu by blast
  then have nh: "holders s D q = {}" and c: "c q = 0" by simp_all
  show "holders s' D q = {}" "c q = 0" using h nh c by simp_all
  have "\<not> is_table s D q" using table_in_use [OF tab, of q] qu by auto
  then show "mappable s' bs' D c q" using a(5,6) nh c h it by (simp add: mappable_def page_ref_def s'_def)
qed

lemma pgdir_alloc_page_ok:
  assumes ok: "space_ok s bs D c" and d: "D d = Some I" "PDX1 la \<in> I" and perm: "perm_ok perm"
    and nv: "\<not> is_valid (ent s d (lpath la))"
  shows "\<exists>r s' bs'. pgdir_alloc_page d la perm s = Some (r, s') \<and> space_ok s' bs' D c \<and>
    (case r of
       None \<Rightarrow> card (pool_pages bs) \<le> 3 \<and> (\<forall>d' ys. node D d' ys \<and> length ys = 3 \<longrightarrow> ent s' d' ys = ent s d' ys)
     | Some q \<Rightarrow> q \<in> pool_pages bs - pool_pages bs' \<and> page_ref s' q = 1 \<and> card (pool_pages bs) \<le> card (pool_pages bs') + 3 \<and>
         updates D s bs s' d (lpath la) (pte_create (page2ppn q) (PTE_V OR perm)))"
proof -
  from tables_pool [OF space_tables [OF ok]] show ?thesis
  proof (cases rule: alloc_page_ok)
    case 1
    then show ?thesis using ok by (intro exI [of _ None] exI [of _ s] exI [of _ bs]) (simp add: pgdir_alloc_page_def)
  next
    case (2 q a bs1)
    let ?s1 = "s\<lparr>area := a\<rparr>"
    note f = alloc_fresh [OF ok 2]
    have nv1: "\<not> is_valid (ent ?s1 d (lpath la))"
    proof -
      have "ent ?s1 d (lpath la) = ent s d (lpath la)"
        using f(2) d by (simp add: grows_def node_def lpath_def la_path_def)
      then show ?thesis using nv by simp
    qed
    from f(1) d f(3) perm show ?thesis
    proof (rule page_insert_ok)
      show "below_free bs1 (epage (ent ?s1 d (lpath la)))" if "is_valid (ent ?s1 d (lpath la))" using that nv1 by blast
    next
      fix s' assume 3: "page_insert d q la perm ?s1 = Some (- E_NO_MEM, s')" "space_ok s' [] D c" "grows D ?s1 bs1 s' []" "card (pool_pages bs1) \<le> 2"
      have m: "mappable s' [] D c q" by (rule mappable_grows [OF 3(3) f(3)])
      have h: "holders s' D q = {}" using grows_holders [OF 3(3)] f(4) by simp
      have b: "below_free [] q" by (simp add: below_free_def)
      have iu: "in_use s' [] q" using m by (simp add: mappable_def)
      from tables_pool [OF space_tables [OF 3(2)]] iu b show ?thesis
      proof (rule free_page_ok)
        fix a' bs'
        assume 4: "free_page q s' = Some (s'\<lparr>area := a'\<rparr>)" "pool_ok (s'\<lparr>area := a'\<rparr>) bs'" "pool_pages bs' = insert q (pool_pages [])"
          "\<And>r. r \<noteq> q \<Longrightarrow> r \<notin> pool_pages [] \<Longrightarrow> pages a' r = pages (area s') r"
        let ?s2 = "s'\<lparr>area := a'\<rparr>"
        have t: "tbl ?s2 d xs = tbl s' d xs" for d xs by (rule tbl_words) simp
        have old: "in_use ?s2 bs' r" if "in_use s' [] r" "r \<noteq> q" for r
          using that 4(3) 4(4) [of r] by (simp add: in_use_def)
        have nt: "\<not> is_table s' D q" using m by (simp add: mappable_def)
        have "tables_ok ?s2 bs' D"
        proof (rule tables_cong [OF space_tables [OF 3(2)] 4(2)])
          fix r assume "is_table s' D r"
          then show "in_use ?s2 bs' r" using old table_in_use [OF space_tables [OF 3(2)]] nt by auto
        qed (simp add: t)
        moreover have "holders ?s2 D r = holders s' D r" "is_table ?s2 D r = is_table s' D r" for r
          by (simp_all add: holders_def is_table_def t)
        ultimately have "space_ok ?s2 bs' D c"
          unfolding space_ok_def
        proof (intro conjI allI impI)
          fix r assume "holders ?s2 D r \<noteq> {} \<or> 0 < c r"
          then have r: "holders s' D r \<noteq> {} \<or> 0 < c r" by (simp add: holders_def t)
          then have rq: "r \<noteq> q" using h f(5) by auto
          note g = space_held [OF 3(2) r]
          show "in_use ?s2 bs' r" by (rule old [OF g(1) rq])
          show "\<not> is_table ?s2 D r" using g(2) by (simp add: is_table_def t)
          show "page_ref ?s2 r = int (card (holders ?s2 D r) + c r)"
            using g(3) 4(4) [OF rq] by (simp add: holders_def t page_ref_def)
        qed
        moreover have "pgdir_alloc_page d la perm s = Some (None, ?s2)"
          using 2(1) 3(1) 4(1) by (simp add: pgdir_alloc_page_def E_NO_MEM_def)
        moreover have "card (pool_pages bs) \<le> 3" using 3(4) 2(2,4) by (simp add: card_Diff_singleton)
        moreover have "ent ?s2 d' ys = ent s d' ys" if "node D d' ys" "length ys = 3" for d' ys
        proof -
          have "ent ?s2 d' ys = ent s' d' ys" by (simp add: ent_def t split: option.split)
          also have "\<dots> = ent s d' ys" using that f(2) 3(3) by (simp add: grows_def)
          finally show ?thesis .
        qed
        ultimately show ?thesis by (intro exI [of _ None] exI [of _ ?s2] exI [of _ bs']) simp
      qed
    next
      fix s' bs'
      assume 3: "page_insert d q la perm ?s1 = Some (0, s')" "space_ok s' bs' D c"
        "updates D ?s1 bs1 s' d (lpath la) (pte_create (page2ppn q) (PTE_V OR perm))"
        "\<not> is_valid (ent ?s1 d (lpath la)) \<Longrightarrow> pool_pages bs' \<subseteq> pool_pages bs1 \<and> card (pool_pages bs1) \<le> card (pool_pages bs') + 2"
      have u: "updates D s bs s' d (lpath la) (pte_create (page2ppn q) (PTE_V OR perm))" by (rule grows_updates [OF f(2) 3(3)])
      have q: "q \<in> pool_pages bs - pool_pages bs'" using 2(2,4) 3(4) [OF nv1] by auto
      have "holders s' D q = {(d, lpath la)}"
      proof -
        let ?e = "pte_create (page2ppn q) (PTE_V OR perm)"
        have e: "epage ?e = q" by (rule entry_epage [OF 2(5,3) perm])
        have n: "node D d (lpath la)" "length (lpath la) = 3" using d by (simp_all add: node_def lpath_def la_path_def)
        have en: "ent s' d' ys = (if d' = d \<and> ys = lpath la then ?e else ent ?s1 d' ys)" if "node D d' ys" "length ys = 3" for d' ys
          using 3(3) that by (simp add: updates_def)
        have no: "\<not> (is_valid (ent ?s1 d' ys) \<and> epage (ent ?s1 d' ys) = q)" if "node D d' ys" "length ys = 3" for d' ys
          using f(4) that by (auto simp: holders_ent)
        have "(d', ys) \<in> holders s' D q \<longleftrightarrow> (d', ys) = (d, lpath la)" for d' ys
        proof (cases "node D d' ys \<and> length ys = 3")
          case True
          then have en': "ent s' d' ys = (if d' = d \<and> ys = lpath la then ?e else ent ?s1 d' ys)" and no': "\<not> (is_valid (ent ?s1 d' ys) \<and> epage (ent ?s1 d' ys) = q)"
            using en no by blast+
          show ?thesis
          proof (cases "d' = d \<and> ys = lpath la")
            case eq: True
            then show ?thesis using True en' e by (simp add: holders_ent)
          next
            case False
            have "ent s' d' ys = ent ?s1 d' ys" using en' unfolding if_not_P [OF False] .
            then show ?thesis using no' False by (auto simp: holders_ent)
          qed
        next
          case False
          then show ?thesis using n by (auto simp: holders_ent)
        qed
        then show ?thesis by auto
      qed
      then have "page_ref s' q = 1" using space_held(3) [OF 3(2), of q] f(5) by simp
      moreover have "card (pool_pages bs) \<le> card (pool_pages bs') + 3"
      proof -
        have "card (pool_pages bs1) = card (pool_pages bs) - 1" using 2(2,4) by (simp add: card_Diff_singleton)
        then show ?thesis using 3(4) [OF nv1] by linarith
      qed
      moreover have "pgdir_alloc_page d la perm s = Some (Some q, s')"
        using 2(1) 3(1) calculation(1) by (simp add: pgdir_alloc_page_def)
      ultimately show ?thesis using 3(2) u q by (intro exI [of _ "Some q"] exI [of _ s'] exI [of _ bs']) simp
    qed
  qed
qed

end
