(* ===== verification/Paging.thy ===== *)
theory Paging
  imports PageMap
begin

text \<open>
  The properties of paging, for a memory whose tables are well formed (\<open>space_ok\<close>) and whose topmost
  free page lies above every mapped page.
\<close>

section \<open>A small memory\<close>

definition sample_phys :: phys where
  "sample_phys = \<lparr>area = snd (the (default_alloc_pages 2 sample_area)), words = (\<lambda>_ _. 0), npage = 0x80008\<rparr>"

definition sample_dirs :: "nat \<Rightarrow> nat set option" where
  "sample_dirs = [0 \<mapsto> {0, 1}, 1 \<mapsto> {0, 1}]"

lemma sample_area_refs: "ref (pages sample_area q) = 0"
proof -
  have "pages (default_init reserved_area) q = \<lparr>ref = 0, flags = 1, property = 0\<rparr>" for q
    by (simp add: default_init_def reserved_area_def)
  moreover have "list_empty (list_init FreeHead (links reserved_area)) FreeHead"
    by (simp add: list_empty_def list_init_def list_next_def)
  ultimately show ?thesis
    using reset_reserved_Some [of 0 8 "default_init reserved_area"] reserved_area_pages
    by (auto simp: sample_area_def default_init_memmap_def insert_block_def default_init_def dlist_empty_iff Let_def
        split: option.split)
qed

lemma sample_space:
  assumes D: "dom D \<subseteq> {0, 1}"
  shows "space_ok sample_phys [(2, 6)] D (\<lambda>_. 0)"
proof -
  obtain a where a: "default_alloc_pages 2 sample_area = Some (Some 0, a)" "frep a [(2, 6)]"
    "\<forall>q \<in> {0 ..< 0 + 2}. \<not> PageReserved (pages a q) \<and> \<not> PageProperty (pages a q)"
  proof -
    have "ff_take 2 [(0, 8)] = Some (0, [(2, 6)])" by simp
    moreover have pos: "0 < (2 :: nat)" by simp
    ultimately show ?thesis using default_alloc_first_fit [OF sample_area_frep pos] that
      by (simp only: option.case prod.case) blast
  qed
  have ar: "area sample_phys = a" using a(1) by (simp add: sample_phys_def)
  have "a = carve_block 0 2 sample_area" using default_alloc_refines [OF sample_area_frep, of 2] a(1) by simp
  then have r: "ref (pages a q) = 0" for q by (simp add: carve_page_fields sample_area_refs)
  have pool: "pool_pages [(2, 6)] = {2..<8}" by (simp add: blk_pages_def)
  have pg: "is_page (npage sample_phys) q \<longleftrightarrow> q < 8" for q by (simp add: is_page_def sample_phys_def nbase_def PGSIZE_def)
  have t: "tbl sample_phys d (k # xs) = None" for d k xs
    by (cases "tbl sample_phys d xs") (simp_all add: tbl.simps(2) sample_phys_def)
  have root: "tbl sample_phys d xs = Some p \<Longrightarrow> xs = [] \<and> p = d" for d xs p
    using t by (cases xs) simp_all
  have dirs: "node D d xs \<Longrightarrow> d = 0 \<or> d = 1" for d xs
    using D by (auto simp: node_def)
  have "pool_ok sample_phys [(2, 6)]"
    using a(2) unfolding pool_ok_def ar pool pg page_ref_def r by (simp add: sample_phys_def nbase_def PGSIZE_def)
  moreover have "in_use sample_phys [(2, 6)] d" if "node D d xs" for d xs
    using dirs [OF that] a(3) by (auto simp: in_use_def pg ar blk_pages_def)
  ultimately have "tables_ok sample_phys [(2, 6)] D"
    unfolding tables_ok_def using root by blast
  moreover have "holders sample_phys D p = {}" for p
    using root by (force simp: holders_def)
  ultimately show ?thesis by (simp add: space_ok_def)
qed

lemma sample_phys_ok: "space_ok sample_phys [(2, 6)] sample_dirs (\<lambda>_. 0)"
  by (rule sample_space) (auto simp: sample_dirs_def)




text \<open>
  (C12) \<open>unmap_range\<close> over the pages from \<open>n\<close> to \<open>m\<close> of user space ends without a panic, clears the
  valid entries for exactly these pages, frees exactly the pages to which nothing refers any more and
  changes no other entry, no table and no other memory.
\<close>

theorem unmap_range_correct:
  assumes "space_ok s bs D c" and "D d = Some I" and "{0, 1} \<subseteq> I" and "top_free s bs D"
    and "512 \<le> n" and "n < m" and "m \<le> user_pages"
  shows "\<exists>s' bs'. unmap_range d (vaddr n) (vaddr m) s = Some s' \<and> space_ok s' bs' D c \<and>
    (\<forall>d' ys. node D d' ys \<and> length ys = 3 \<longrightarrow>
       ent s' d' ys = (if d' = d \<and> ys \<in> vpath ` {n..<m} \<and> is_valid (ent s d' ys) then 0 else ent s d' ys)) \<and>
    pool_pages bs' = pool_pages bs \<union> {p. holders s D p \<noteq> {} \<and> holders s' D p = {} \<and> c p = 0} \<and>
    (\<forall>r. \<not> is_table s D r \<longrightarrow> words s' r = words s r)"
  using unmap_range_ok [OF assms] unfolding unmaps_def by blast

theorem unmap_range_correct_witness:
  "\<exists>s'. unmap_range 0 (vaddr 2048) (vaddr 2060) sample_phys = Some s' \<and> ent s' 0 (vpath 2050) = 0"
proof -
  have d: "sample_dirs 0 = Some {0, 1}" "{0, 1 :: nat} \<subseteq> {0, 1}" by (simp_all add: sample_dirs_def)
  have w: "words sample_phys p i = 0" for p i by (simp add: sample_phys_def)
  have e: "ent sample_phys d ks = 0" for d ks by (simp add: ent_def w split: option.split)
  have "holders sample_phys sample_dirs p = {}" for p by (simp add: holders_ent e)
  then have t: "top_free sample_phys [(2, 6)] sample_dirs" by (simp add: top_free_def blk_pages_def) (rule exI [of _ 2], simp)
  have n: "(512 :: nat) \<le> 2048" "(2048 :: nat) < 2060" "2060 \<le> user_pages" by (simp_all add: user_pages_def)
  have "node sample_dirs 0 (vpath 2050)" by (rule user_path(2) [where D = sample_dirs, OF d]) (simp add: user_pages_def)
  moreover have "length (vpath 2050) = 3" by (simp add: vpath_def)
  ultimately show ?thesis using unmap_range_correct [OF sample_phys_ok d t n] e by auto
qed

lemma sample_one_page:
  "\<exists>q s bs. pgdir_alloc_page 0 (vaddr 2048) (PTE_U OR PTE_W) sample_phys = Some (Some q, s) \<and> space_ok s bs sample_dirs (\<lambda>_. 0) \<and>
     3 \<le> card (pool_pages bs) \<and> q \<notin> pool_pages bs \<and> is_valid (ent s 0 (vpath 2048)) \<and> epage (ent s 0 (vpath 2048)) = q \<and>
     (\<forall>i < user_pages. ent s 1 (vpath i) = 0)"
proof -
  have d: "sample_dirs 0 = Some {0, 1}" "{0, 1 :: nat} \<subseteq> {0, 1}" "sample_dirs 1 = Some {0, 1}" by (simp_all add: sample_dirs_def)
  have u: "2048 < user_pages" by (simp add: user_pages_def)
  have lp: "lpath (vaddr 2048) = vpath 2048" using vaddr_path [of 2048] u by simp
  have i: "PDX1 (vaddr 2048) \<in> {0, 1}" by (rule user_path(1) [where D = sample_dirs, OF d(1,2) u])
  have perm: "perm_ok (PTE_U OR PTE_W)" by (simp add: perm_ok_def PTE_U_def PTE_W_def)
  have w: "words sample_phys p i = 0" for p i by (simp add: sample_phys_def)
  have e: "ent sample_phys d ks = 0" for d ks by (simp add: ent_def w split: option.split)
  have nv: "\<not> is_valid (ent sample_phys 0 (lpath (vaddr 2048)))" by (simp add: e)
  have card: "card (pool_pages [(2, 6)]) = 6" by (simp add: blk_pages_def)
  have nodes: "node sample_dirs 0 (vpath 2048)" "length (vpath i) = 3" for i
    using user_path(2) [where D = sample_dirs, OF d(1,2) u] by (simp_all add: vpath_def)
  obtain r s bs where 1: "pgdir_alloc_page 0 (vaddr 2048) (PTE_U OR PTE_W) sample_phys = Some (r, s)" "space_ok s bs sample_dirs (\<lambda>_. 0)"
    "case r of None \<Rightarrow> card (pool_pages [(2, 6)]) \<le> 3 \<and> (\<forall>d' ys. node sample_dirs d' ys \<and> length ys = 3 \<longrightarrow> ent s d' ys = ent sample_phys d' ys)
     | Some q \<Rightarrow> q \<in> pool_pages [(2, 6)] - pool_pages bs \<and> page_ref s q = 1 \<and> card (pool_pages [(2, 6)]) \<le> card (pool_pages bs) + 3 \<and>
         updates sample_dirs sample_phys [(2, 6)] s 0 (lpath (vaddr 2048)) (pte_create (page2ppn q) (PTE_V OR (PTE_U OR PTE_W)))"
    using pgdir_alloc_page_ok [OF sample_phys_ok d(1) i perm nv] by blast
  from 1(3) card obtain q where r: "r = Some q" and q: "q \<notin> pool_pages bs" "3 \<le> card (pool_pages bs)" "q \<in> pool_pages [(2, 6)]"
    and up: "updates sample_dirs sample_phys [(2, 6)] s 0 (vpath 2048) (pte_create (page2ppn q) (PTE_V OR (PTE_U OR PTE_W)))"
    unfolding lp by (cases r) auto
  have e0: "ent s 0 (vpath 2048) = pte_create (page2ppn q) (PTE_V OR (PTE_U OR PTE_W))" using up nodes by (simp add: updates_def)
  have e1: "ent s 1 (vpath i) = 0" if "i < user_pages" for i
    using up nodes(2) [of i] user_path(2) [where D = sample_dirs, OF d(3,2) that] e by (simp add: updates_def)
  have "pool_ok sample_phys [(2, 6)]" by (rule tables_pool [OF space_tables [OF sample_phys_ok]])
  then have "epage (ent s 0 (vpath 2048)) = q" unfolding e0 using q(3)
    by (intro epage_create [OF _ _ perm_ok_V [OF perm], of "npage sample_phys"]) (auto simp: pool_ok_def)
  then show ?thesis using 1(1,2) r q(1,2) e0 e1 by auto
qed

text \<open>
  (C11) \<open>copy_range\<close> gives the target its own copy of every page of the range that the source maps: with
  three free pages for each page of the range it succeeds, every copy is a page that was free, holds the
  same bytes, is mapped at the same address with the user permissions of the original and has this one
  reference; every other entry of every directory and all other memory in use are unchanged.
\<close>

theorem copy_range_correct:
  assumes ok: "space_ok s bs D c" and d: "D to = Some I" "{0, 1} \<subseteq> I" "D src = Some J" "{0, 1} \<subseteq> J" "to \<noteq> src"
    and n: "512 \<le> n" "n < m" "m \<le> user_pages"
    and free: "\<forall>i. n \<le> i \<and> i < m \<longrightarrow> \<not> is_valid (ent s to (vpath i))" and room: "3 * (m - n) \<le> card (pool_pages bs)"
  shows "\<exists>s' bs' f. copy_range to src (vaddr n) (vaddr m) s = Some (0, s') \<and> space_ok s' bs' D c \<and>
    inj_on f (mapped_in s src {n..<m}) \<and>
    (\<forall>i \<in> mapped_in s src {n..<m}. f i \<in> pool_pages bs - pool_pages bs' \<and>
       ent s' to (vpath i) = copied (ent s src (vpath i)) (f i) \<and>
       words s' (f i) = words s (epage (ent s src (vpath i)))) \<and>
    (\<forall>d ys. node D d ys \<and> length ys = 3 \<and> \<not> (d = to \<and> ys \<in> vpath ` mapped_in s src {n..<m}) \<longrightarrow>
       ent s' d ys = ent s d ys) \<and>
    (\<forall>r. r \<notin> pool_pages bs \<and> \<not> is_table s D r \<longrightarrow> words s' r = words s r)"
  using copy_range_ok [OF d ok n free room] unfolding copies_def by blast

theorem copy_range_correct_witness:
  "\<exists>q s s' q'. pgdir_alloc_page 0 (vaddr 2048) (PTE_U OR PTE_W) sample_phys = Some (Some q, s) \<and>
     copy_range 1 0 (vaddr 2048) (vaddr 2049) s = Some (0, s') \<and>
     ent s' 1 (vpath 2048) = copied (ent s 0 (vpath 2048)) q' \<and> q' \<noteq> q \<and> words s' q' = words s q"
proof -
  have d: "sample_dirs 0 = Some {0, 1}" "{0, 1 :: nat} \<subseteq> {0, 1}" "sample_dirs 1 = Some {0, 1}" by (simp_all add: sample_dirs_def)
  obtain q s bs where s: "pgdir_alloc_page 0 (vaddr 2048) (PTE_U OR PTE_W) sample_phys = Some (Some q, s)"
    "space_ok s bs sample_dirs (\<lambda>_. 0)" "3 \<le> card (pool_pages bs)" "q \<notin> pool_pages bs" "is_valid (ent s 0 (vpath 2048))"
    "epage (ent s 0 (vpath 2048)) = q" "\<forall>i < user_pages. ent s 1 (vpath i) = 0"
    using sample_one_page by blast
  have n: "(512 :: nat) \<le> 2048" "(2048 :: nat) < 2049" "2049 \<le> user_pages" by (simp_all add: user_pages_def)
  have free: "\<forall>i. 2048 \<le> i \<and> i < 2049 \<longrightarrow> \<not> is_valid (ent s 1 (vpath i))" using s(7) n(3) by auto
  have room: "3 * (2049 - 2048) \<le> card (pool_pages bs)" using s(3) by simp
  have ne: "(1 :: nat) \<noteq> 0" by simp
  have m: "mapped_in s 0 {2048..<2049} = {2048}" using s(5) by (auto simp: mapped_in_def)
  obtain s' bs' f where 2: "copy_range 1 0 (vaddr 2048) (vaddr 2049) s = Some (0, s')"
    "\<forall>i \<in> mapped_in s 0 {2048..<2049}. f i \<in> pool_pages bs - pool_pages bs' \<and>
       ent s' 1 (vpath i) = copied (ent s 0 (vpath i)) (f i) \<and> words s' (f i) = words s (epage (ent s 0 (vpath i)))"
    using copy_range_correct [OF s(2) d(3,2) d(1,2) ne n free room] by blast
  then have "f 2048 \<in> pool_pages bs" "ent s' 1 (vpath 2048) = copied (ent s 0 (vpath 2048)) (f 2048)" "words s' (f 2048) = words s q"
    using m s(6) by auto
  then show ?thesis using s(1,4) 2(1) by blast
qed

section \<open>\<open>exit_range\<close>\<close>

lemma vaddr_round:
  assumes n: "n \<le> user_pages" and k: "0 < k" "unat K = 4096 * k"
  shows "ROUNDDOWN (vaddr n) K = vaddr (k * (n div k))"
proof -
  have le: "k * (n div k) \<le> n" by simp
  have "unat (ROUNDDOWN (vaddr n) K) = 4096 * n - 4096 * n mod (4096 * k)"
    unfolding ROUNDDOWN_def using n k by (subst unat_sub) (simp_all add: word_le_nat_alt unat_mod unat_vaddr)
  also have "\<dots> = 4096 * (k * (n div k))"
  proof -
    have "4096 * n mod (4096 * k) = 4096 * (n mod k)" by (rule mult_mod_right [symmetric])
    moreover have "4096 * n = 4096 * (k * (n div k)) + 4096 * (n mod k)" unfolding distrib_left [symmetric] by simp
    ultimately show ?thesis by simp
  qed
  finally show ?thesis using unat_vaddr [of "k * (n div k)"] le n by (simp add: word_unat_eq_iff)
qed

lemma vaddr_add:
  assumes "n + k \<le> user_pages" and "unat K = 4096 * k"
  shows "vaddr n + K = vaddr (n + k)"
proof -
  have "K = of_nat (4096 * k)" unfolding assms(2) [symmetric] by simp
  then show ?thesis by (simp add: vaddr_def algebra_simps)
qed

text \<open>
  A leak in \<open>exit_range\<close>: when every last-level table it visits is present and empty, it frees the
  level-0 directory and clears the entry for it even if that directory still points to another table
  outside the range; this table stays allocated but no walk from the page directory reaches it.
\<close>

theorem exit_range_leaks:
  assumes pool: "pool_ok s bs" and n: "512 \<le> n" "n < m" "m \<le> next_table_no n" "m \<le> user_pages"
    and e1: "is_valid (words s d (PDX1 (vaddr n)))" "epage (words s d (PDX1 (vaddr n))) = pd0" "in_use s bs pd0"
    and e0: "is_valid (words s pd0 (PDX0 (vaddr n)))" "epage (words s pd0 (PDX0 (vaddr n))) = pt" "in_use s bs pt"
    and empty: "table_empty s pt" and ne: "pd0 \<noteq> pt" "d \<noteq> pd0" and below: "\<exists>q \<in> pool_pages bs. pd0 < q \<and> pt < q"
    and other: "j \<noteq> PDX0 (vaddr n)" "is_valid (words s pd0 j)" "epage (words s pd0 j) = t" "in_use s bs t" "t \<noteq> pd0" "t \<noteq> pt"
  shows "\<exists>s' bs'. exit_range d (vaddr n) (vaddr m) s = Some s' \<and> pool_ok s' bs' \<and>
    pool_pages bs' = {pd0, pt} \<union> pool_pages bs \<and> words s' d (PDX1 (vaddr n)) = 0 \<and>
    words s' pd0 j = words s pd0 j \<and> t \<notin> pool_pages bs'"
proof -
  let ?a = "512 * (n div 512)" and ?b = "262144 * (n div 262144)"
  have nu: "n \<le> user_pages" using n by simp
  have PT: "unat PTSIZE = 4096 * 512" "unat PDSIZE = 4096 * 262144" by (simp_all add: PTSIZE_def PDSIZE_def PGSIZE_def)
  have ra: "ROUNDDOWN (vaddr n) PTSIZE = vaddr ?a" "ROUNDDOWN (vaddr n) PDSIZE = vaddr ?b"
    using vaddr_round [OF nu _ PT(1)] vaddr_round [OF nu _ PT(2)] by simp_all
  have n2: "n div 262144 < 2" using n by (simp add: div_less_iff_less_mult user_pages_def)
  have ab: "?a + 512 = next_table_no n" by (simp add: next_table_no_def)
  have au: "?a + 512 \<le> user_pages" using vaddr_skip(2) [of n] n ab by simp
  have bu: "?b + 262144 \<le> user_pages" using n2 by (simp add: user_pages_def)
  have dd: "n div 262144 = n div 512 div 512" by (simp add: div_mult2_eq [symmetric])
  have le: "next_table_no n \<le> ?b + 262144"
  proof -
    have "n div 512 < 512 * (n div 512 div 512) + 512" by (rule dividend_less_div_times [of 512 "n div 512", simplified mult.commute [of "n div 512 div 512"] add.commute [of 512]]) simp
    then show ?thesis unfolding next_table_no_def dd by simp
  qed
  have next0: "vaddr ?a + PTSIZE = vaddr (next_table_no n)" using vaddr_add [OF au PT(1)] ab by simp
  have next1: "vaddr ?b + PDSIZE = vaddr (?b + 262144)" by (rule vaddr_add [OF bu PT(2)])
  have p: "lpath (vaddr k) = vpath k" if "k \<le> user_pages" for k by (rule vaddr_path [OF that])
  have ax: "PDX0 (vaddr ?a) = PDX0 (vaddr n)"
  proof -
    have "?a \<le> user_pages" using au by simp
    from p [OF this] p [OF nu] show ?thesis by (simp add: lpath_def la_path_def vpath_def)
  qed
  have bx: "PDX1 (vaddr ?b) = PDX1 (vaddr n)"
  proof -
    have "?b \<le> user_pages" using bu by simp
    from p [OF this] p [OF nu] show ?thesis by (simp add: lpath_def la_path_def vpath_def)
  qed
  have ends: "\<not> vaddr (next_table_no n) < vaddr m" "\<not> vaddr (?b + 262144) < vaddr m"
    using vaddr_less [of "next_table_no n" m] vaddr_less [of "?b + 262144" m] n au ab bu le by simp_all
  have pg: "is_page (npage s) pd0" "is_page (npage s) pt" using e1(3) e0(3) by (simp_all add: in_use_def)
  have t1: "pde2page s (words s d (PDX1 (vaddr n))) = Some pd0" and t0: "pde2page s (words s pd0 (PDX0 (vaddr n))) = Some pt"
    using pte2page_epage [OF pool _ e1(1)] pte2page_epage [OF pool _ e0(1)] e1 e0 pg by (simp_all add: pte2page_def pde2page_def)
  have kv: "page2kva s pd0 = Some pd0" "page2kva s pt = Some pt"
    using KADDR_page [OF pool] pg by (simp_all add: page2kva_def)
  have b0: "below_free bs pt" using below by (auto simp: below_free_def)
  from pool e0(3) b0 show ?thesis
  proof (rule free_page_ok)
    fix a1 bs1
    assume 1: "free_page pt s = Some (s\<lparr>area := a1\<rparr>)" "pool_ok (s\<lparr>area := a1\<rparr>) bs1" "pool_pages bs1 = insert pt (pool_pages bs)"
      "\<And>r. r \<noteq> pt \<Longrightarrow> r \<notin> pool_pages bs \<Longrightarrow> pages a1 r = pages (area s) r"
    let ?s1 = "store (pd0, PDX0 (vaddr n)) 0 (s\<lparr>area := a1\<rparr>)"
    have p1: "pool_ok ?s1 bs1" by (rule pool_ok_words [OF 1(2)]) simp_all
    have u1: "in_use ?s1 bs1 pd0" using e1(3) ne(1) 1(3,4) by (simp add: in_use_def)
    have b1: "below_free bs1 pd0" using below 1(3) by (auto simp: below_free_def)
    have inner: "exit_inner pd0 (vaddr ?b) (vaddr ?a) (vaddr m) True s = Some (True, ?s1)"
      by (subst exit_inner.simps) (simp add: ax e0(1) t0 kv(2) empty 1(1) next0 ends Let_def)
    from p1 u1 b1 show ?thesis
    proof (rule free_page_ok)
      fix a2 bs2
      assume 2: "free_page pd0 ?s1 = Some (?s1\<lparr>area := a2\<rparr>)" "pool_ok (?s1\<lparr>area := a2\<rparr>) bs2" "pool_pages bs2 = insert pd0 (pool_pages bs1)"
      let ?s2 = "store (d, PDX1 (vaddr n)) 0 (?s1\<lparr>area := a2\<rparr>)"
      have "exit_outer d (vaddr ?b) (vaddr ?a) (vaddr m) s = Some ?s2"
        by (subst exit_outer.simps) (simp add: bx e1(1) t1 kv(1) inner 2(1) next1 ends Let_def)
      moreover have "vaddr n mod PGSIZE = 0" "vaddr m mod PGSIZE = 0" using n vaddr_mod by simp_all
      moreover have "USER_ACCESS (vaddr n) (vaddr m)"
        using n unat_vaddr [of n] unat_vaddr [of m]
        by (simp add: USER_ACCESS_def USERBASE_def USERTOP_def word_le_nat_alt word_less_nat_alt user_pages_def)
      ultimately have "exit_range d (vaddr n) (vaddr m) s = Some ?s2" by (simp add: exit_range_def ra)
      moreover have "pool_ok ?s2 bs2" by (rule pool_ok_words [OF 2(2)]) simp_all
      moreover have "pool_pages bs2 = {pd0, pt} \<union> pool_pages bs" using 1(3) 2(3) by auto
      moreover have "words ?s2 d (PDX1 (vaddr n)) = 0" by (simp add: store_def)
      moreover have "words ?s2 pd0 j = words s pd0 j" using ne(2) other(1) by (simp add: store_def)
      moreover have "t \<notin> pool_pages bs2" using other(4-6) 1(3) 2(3) by (simp add: in_use_def)
      ultimately show ?thesis by blast
    qed
  qed
qed

text \<open>A directory with two tables, both of them empty.\<close>

definition two_tables :: phys where
  "two_tables = sample_phys\<lparr>area := snd (the (default_alloc_pages 4 sample_area)),
     words := (\<lambda>p i. if p = 0 \<and> i = 0 then pte_create (page2ppn 1) (PTE_U OR PTE_V)
       else if p = 1 \<and> i = 4 then pte_create (page2ppn 2) (PTE_U OR PTE_V)
       else if p = 1 \<and> i = 9 then pte_create (page2ppn 3) (PTE_U OR PTE_V) else 0)\<rparr>"

theorem exit_range_leaks_witness:
  "\<exists>s' bs'. exit_range 0 (vaddr 2048) (vaddr 2050) two_tables = Some s' \<and> pool_pages bs' = {1, 2} \<union> {4..<8} \<and>
     words s' 0 0 = 0 \<and> is_valid (words s' 1 9)"
proof -
  obtain a where a: "default_alloc_pages 4 sample_area = Some (Some 0, a)" "frep a [(4, 4)]"
    "\<forall>q \<in> {0 ..< 0 + 4}. \<not> PageReserved (pages a q) \<and> \<not> PageProperty (pages a q)"
  proof -
    have "ff_take 4 [(0, 8)] = Some (0, [(4, 4)])" by simp
    moreover have pos: "0 < (4 :: nat)" by simp
    ultimately show ?thesis using default_alloc_first_fit [OF sample_area_frep pos] that
      by (simp only: option.case prod.case) blast
  qed
  have ar: "area two_tables = a" using a(1) by (simp add: two_tables_def)
  have np: "npage two_tables = 0x80008" by (simp add: two_tables_def sample_phys_def)
  have "a = carve_block 0 4 sample_area" using default_alloc_refines [OF sample_area_frep, of 4] a(1) by simp
  then have r: "ref (pages a q) = 0" for q by (simp add: carve_page_fields sample_area_refs)
  have blk: "blk_pages (4, 4) = {4..<8}" by (simp add: blk_pages_def)
  have pg: "is_page (npage two_tables) q \<longleftrightarrow> q < 8" for q by (simp add: is_page_def np nbase_def PGSIZE_def)
  have pool: "pool_ok two_tables [(4, 4)]"
    using a(2) unfolding pool_ok_def ar page_ref_def r pg by (simp add: blk np nbase_def PGSIZE_def)
  have use: "in_use two_tables [(4, 4)] q" if "q < 4" for q
    using that a(3) by (simp add: in_use_def pg ar blk)
  have n44: "npage two_tables < 2 ^ 44" by (simp add: np)
  have ep: "epage (pte_create (page2ppn q) (PTE_U OR PTE_V)) = q" if "q < 8" for q
    by (rule epage_create [OF n44 _ table_perm]) (use that pg in simp)
  have x: "PDX1 (vaddr 2048) = 0" "PDX0 (vaddr 2048) = 4"
    using vaddr_path [of 2048] by (simp_all add: user_pages_def lpath_def la_path_def vpath_def)
  have n: "(512 :: nat) \<le> 2048" "(2048 :: nat) < 2050" "2050 \<le> next_table_no 2048" "2050 \<le> user_pages"
    by (simp_all add: user_pages_def next_table_no_def)
  have w: "words two_tables 0 0 = pte_create (page2ppn 1) (PTE_U OR PTE_V)" "words two_tables 1 4 = pte_create (page2ppn 2) (PTE_U OR PTE_V)"
    "words two_tables 1 9 = pte_create (page2ppn 3) (PTE_U OR PTE_V)" "\<And>i. words two_tables 2 i = 0"
    by (simp_all add: two_tables_def)
  have e1: "is_valid (words two_tables 0 (PDX1 (vaddr 2048)))" "epage (words two_tables 0 (PDX1 (vaddr 2048))) = 1"
    and e0: "is_valid (words two_tables 1 (PDX0 (vaddr 2048)))" "epage (words two_tables 1 (PDX0 (vaddr 2048))) = 2"
    and o: "is_valid (words two_tables 1 9)" "epage (words two_tables 1 9) = 3" "9 \<noteq> PDX0 (vaddr 2048)"
    unfolding x w using ep by simp_all
  have empty: "table_empty two_tables 2" by (simp add: table_empty_def w(4) list_all_iff)
  have below: "\<exists>q \<in> pool_pages [(4, 4)]. 1 < q \<and> 2 < q" by (simp add: blk) (rule exI [of _ 4], simp)
  have u: "in_use two_tables [(4, 4)] 1" "in_use two_tables [(4, 4)] 2" "in_use two_tables [(4, 4)] 3" by (simp_all add: use)
  have ne: "(1 :: nat) \<noteq> 2" "(0 :: nat) \<noteq> 1" "(3 :: nat) \<noteq> 1" "(3 :: nat) \<noteq> 2" by simp_all
  have p: "pool_pages [(4, 4)] = {4..<8}" by (simp add: blk)
  from exit_range_leaks [OF pool n e1 u(1) e0 u(2) empty ne(1,2) below o(3,1,2) u(3) ne(3,4)]
  show ?thesis
  proof (elim exE conjE)
    fix s' bs'
    assume s': "exit_range 0 (vaddr 2048) (vaddr 2050) two_tables = Some s'" "pool_pages bs' = {1, 2} \<union> pool_pages [(4, 4)]"
      "words s' 0 (PDX1 (vaddr 2048)) = 0" "words s' 1 9 = words two_tables 1 9"
    have "is_valid (words s' 1 9)" unfolding s'(4) by (rule o(1))
    then show ?thesis using s'(1-3) unfolding x p by (intro exI [of _ s'] exI [of _ bs'] conjI)
  qed
qed

section \<open>The kernel's mapping\<close>

lemma lpath_vpath: "lpath la = vpath (unat la div 4096)"
proof -
  have d: "unat (drop_bit k la) = unat la div 2 ^ k" for k
    by (subst unat_drop_bit_eq) (simp add: drop_bit_eq_div)
  have "unat la div 2 ^ 21 = unat la div 4096 div 512" "unat la div 2 ^ 30 = unat la div 4096 div 262144"
    by (simp_all add: div_mult2_eq [symmetric])
  then show ?thesis by (simp add: lpath_def la_path_def vpath_def PTX_def PDX0_def PDX1_def and_1FF d)
qed

lemma vpath_inj_range:
  assumes "vpath (n + i) = vpath (n + j)" and "i < 2 ^ 27" and "j < 2 ^ 27"
  shows "i = j"
proof -
  have m: "vpath k = vpath (k mod 2 ^ 27)" for k
  proof -
    have "k mod 2 ^ 27 mod 512 = k mod 512" by (simp add: mod_mod_cancel)
    moreover have "k mod 2 ^ 27 div 512 mod 512 = k div 512 mod 512" "k mod 2 ^ 27 div 262144 mod 512 = k div 262144 mod 512"
    proof -
      have h: "k mod (a * b) div a = k div a mod b" if "0 < a" for a b :: nat
        using that by (simp add: mod_mult2_eq)
      have "k mod 2 ^ 27 div 512 = k div 512 mod 262144" "k mod 2 ^ 27 div 262144 = k div 262144 mod 512"
        using h [of 512 262144] h [of 262144 512] by simp_all
      then show "k mod 2 ^ 27 div 512 mod 512 = k div 512 mod 512" "k mod 2 ^ 27 div 262144 mod 512 = k div 262144 mod 512"
        by (simp_all add: mod_mod_cancel)
    qed
    ultimately show ?thesis by (simp add: vpath_def)
  qed
  have "(n + i) mod 2 ^ 27 = (n + j) mod 2 ^ 27"
    by (rule vpath_inj) (use assms(1) m in auto)
  then obtain q r where "n + i + 2 ^ 27 * q = n + j + 2 ^ 27 * r" unfolding nat_mod_eq_iff by blast
  then have "(i + 2 ^ 27 * q) mod 2 ^ 27 = (j + 2 ^ 27 * r) mod 2 ^ 27" by simp
  then show ?thesis using assms(2,3) by simp
qed

text \<open>The mapping loop sets one entry after the other.\<close>

lemma map_loop_ok:
  assumes "tables_ok s bs D" and d: "D d = Some I" and "\<forall>i < k. PDX1 (la + of_nat i * PGSIZE) \<in> I"
    and "unat la + 4096 * k < 2 ^ 64" and "unat la mod 4096 = 0" and "k \<le> 2 ^ 27" and "2 * k + 1 \<le> card (pool_pages bs)"
  shows "\<exists>s' bs'. map_loop k d la pa perm s = Some s' \<and> tables_ok s' bs' D \<and>
    (\<forall>i < k. ent s' d (vpath (unat la div 4096 + i)) = pte_create (drop_bit 12 (pa + of_nat i * PGSIZE)) (PTE_V OR perm)) \<and>
    (\<forall>d' ys. node D d' ys \<and> length ys = 3 \<and> \<not> (d' = d \<and> (\<exists>i < k. ys = vpath (unat la div 4096 + i))) \<longrightarrow>
       ent s' d' ys = ent s d' ys)"
  using assms
proof (induction k arbitrary: la pa s bs)
  case 0
  then show ?case by auto
next
  case (Suc k)
  let ?N = "unat la div 4096"
  have la: "PDX1 la \<in> I" using Suc.prems(3) by force
  have lp: "lpath la = vpath ?N" by (rule lpath_vpath)
  obtain s1 bs1 where g1: "get_pte d la True s = Some (map_option (\<lambda>t. (t, PTX la)) (tbl s1 d (la_path la)), s1)"
    and 1: "tbl s1 d (la_path la) = None \<longrightarrow> bs1 = []" "tables_ok s1 bs1 D" "grows D s bs s1 bs1"
    "tbl s d (la_path la) \<noteq> None \<longrightarrow> s1 = s \<and> bs1 = bs" "card (pool_pages bs) \<le> card (pool_pages bs1) + 2"
    by (rule get_pte_create [OF Suc.prems(1) d la])
  have "bs1 \<noteq> []" using 1(5) Suc.prems(7) by auto
  then obtain t where t: "tbl s1 d (la_path la) = Some t" using 1(1) by (cases "tbl s1 d (la_path la)") auto
  let ?a = "(t, PTX la)" and ?e = "pte_create (drop_bit 12 pa) (PTE_V OR perm)"
  have l: "leaf s1 D d (vpath ?N) ?a" unfolding lp [symmetric] by (rule get_pte_leaf [where D = D, OF d la t])
  let ?s2 = "store ?a ?e s1"
  have pool: "pool_ok ?s2 bs1" by (rule pool_ok_words [OF tables_pool [OF 1(2)]]) simp_all
  have t2: "tables_ok ?s2 bs1 D"
    by (rule leaf_tables [OF 1(2) l refl pool]) (use table_in_use [OF 1(2)] in \<open>simp add: in_use_def\<close>)
  have e2: "ent ?s2 d' ys = (if d' = d \<and> ys = vpath ?N then ?e else ent s d' ys)" if "node D d' ys" "length ys = 3" for d' ys
    using leaf_store(2) [OF 1(2) l refl that, of ?e] 1(3) that by (simp add: grows_def)
  have u: "unat (la + PGSIZE) = unat la + 4096" using Suc.prems(4) by (simp add: unat_plus_if' PGSIZE_def)
  have N: "unat (la + PGSIZE) div 4096 = ?N + 1" unfolding u by simp
  have sh: "la + PGSIZE + of_nat i * PGSIZE = la + of_nat (Suc i) * PGSIZE" "pa + PGSIZE + of_nat i * PGSIZE = pa + of_nat (Suc i) * PGSIZE" for i
    by (simp_all add: algebra_simps)
  have "\<exists>s' bs'. map_loop k d (la + PGSIZE) (pa + PGSIZE) perm ?s2 = Some s' \<and> tables_ok s' bs' D \<and>
    (\<forall>i < k. ent s' d (vpath (?N + 1 + i)) = pte_create (drop_bit 12 (pa + of_nat (Suc i) * PGSIZE)) (PTE_V OR perm)) \<and>
    (\<forall>d' ys. node D d' ys \<and> length ys = 3 \<and> \<not> (d' = d \<and> (\<exists>i < k. ys = vpath (?N + 1 + i))) \<longrightarrow> ent s' d' ys = ent ?s2 d' ys)"
    by (rule Suc.IH [OF t2 d, where la = "la + PGSIZE" and pa = "pa + PGSIZE", unfolded N sh])
      (use Suc.prems 1(5) u in \<open>auto simp del: of_nat_Suc\<close>)
  then obtain s' bs' where s': "map_loop k d (la + PGSIZE) (pa + PGSIZE) perm ?s2 = Some s'" "tables_ok s' bs' D"
    "\<forall>i < k. ent s' d (vpath (?N + 1 + i)) = pte_create (drop_bit 12 (pa + of_nat (Suc i) * PGSIZE)) (PTE_V OR perm)"
    "\<forall>d' ys. node D d' ys \<and> length ys = 3 \<and> \<not> (d' = d \<and> (\<exists>i < k. ys = vpath (?N + 1 + i))) \<longrightarrow> ent s' d' ys = ent ?s2 d' ys"
    by blast
  have n0: "node D d (vpath ?N)" "length (vpath ?N) = 3" using l by (simp_all add: leaf_def)
  have first: "ent s' d (vpath ?N) = ?e"
  proof -
    have "\<not> (\<exists>i < k. vpath ?N = vpath (?N + 1 + i))"
    proof
      assume "\<exists>i < k. vpath ?N = vpath (?N + 1 + i)"
      then obtain i where i: "i < k" "vpath (?N + 0) = vpath (?N + Suc i)" by auto
      have "0 = Suc i" by (rule vpath_inj_range [OF i(2)]) (use i(1) Suc.prems(6) in auto)
      then show False by simp
    qed
    then show ?thesis using s'(4) n0 e2 [OF n0] by simp
  qed
  have all: "ent s' d (vpath (?N + i)) = pte_create (drop_bit 12 (pa + of_nat i * PGSIZE)) (PTE_V OR perm)" if "i < Suc k" for i
  proof (cases i)
    case 0
    then show ?thesis using first by simp
  next
    case (Suc j)
    then show ?thesis using s'(3) that by simp
  qed
  have rest: "ent s' d' ys = ent s d' ys" if y: "node D d' ys" "length ys = 3" "\<not> (d' = d \<and> (\<exists>i < Suc k. ys = vpath (?N + i)))" for d' ys
  proof -
    have no: "\<not> (d' = d \<and> ys = vpath (?N + i))" if "i < Suc k" for i using y(3) that by blast
    have "\<not> (d' = d \<and> (\<exists>i < k. ys = vpath (?N + 1 + i)))" using no [of "Suc i" for i] by auto
    then have "ent s' d' ys = ent ?s2 d' ys" using s'(4) y(1,2) by blast
    moreover have "\<not> (d' = d \<and> ys = vpath ?N)" using no [of 0] by simp
    ultimately show ?thesis using e2 [OF y(1,2)] by simp
  qed
  have "map_loop (Suc k) d la pa perm s = Some s'" using g1 t s'(1) by simp
  then show ?case using s'(2) all rest by blast
qed

lemma PGOFF_unat: "unat (PGOFF la) = unat la mod 4096"
proof -
  have "(0xFFF :: u64) = mask 12" by (simp add: mask_eq_exp_minus_1)
  then have "PGOFF la = take_bit 12 la" by (simp add: PGOFF_def take_bit_eq_mask)
  then show ?thesis by (simp add: unsigned_take_bit_eq take_bit_eq_mod unat_mod)
qed

text \<open>
  \<open>boot_map_segment\<close> maps \<open>k\<close> pages linearly: with a free page for every table it may need it does
  not panic, the \<open>i\<close>-th page of the segment gets the entry for the \<open>i\<close>-th physical page with the
  permissions, and every other entry of the directories is as before.
\<close>

theorem boot_map_segment_correct:
  assumes ok: "tables_ok s bs D" and d: "D d = Some I" "\<forall>i < k. PDX1 (la + of_nat i * PGSIZE) \<in> I"
    and la: "unat la mod 4096 = 0" "unat pa mod 4096 = 0" "unat la + 4096 * k < 2 ^ 64" and k: "unat len = 4096 * k" "k \<le> 2 ^ 27"
    and room: "2 * k + 1 \<le> card (pool_pages bs)"
  shows "\<exists>s' bs'. boot_map_segment d la len pa perm s = Some s' \<and> tables_ok s' bs' D \<and>
    (\<forall>i < k. ent s' d (lpath (la + of_nat i * PGSIZE)) = pte_create (PPN (pa + of_nat i * PGSIZE)) (PTE_V OR perm)) \<and>
    (\<forall>d' ys. node D d' ys \<and> length ys = 3 \<and> \<not> (d' = d \<and> (\<exists>i < k. ys = lpath (la + of_nat i * PGSIZE))) \<longrightarrow>
       ent s' d' ys = ent s d' ys)"
proof -
  have off: "PGOFF la = 0" "PGOFF pa = 0" using PGOFF_unat [of la] PGOFF_unat [of pa] la by (simp_all add: word_unat_eq_iff)
  have rd: "ROUNDDOWN la PGSIZE = la" "ROUNDDOWN pa PGSIZE = pa"
  proof -
    have "a mod PGSIZE = 0" if "unat a mod 4096 = 0" for a :: u64
      by (rule word_unat_eq_iff [THEN iffD2]) (use that in \<open>simp add: unat_mod PGSIZE_def\<close>)
    then show "ROUNDDOWN la PGSIZE = la" "ROUNDDOWN pa PGSIZE = pa" using la by (simp_all add: ROUNDDOWN_def)
  qed
  have lp: "lpath (la + of_nat i * PGSIZE) = vpath (unat la div 4096 + i)" if i: "i < k" for i
  proof -
    have "of_nat i * PGSIZE = of_nat (4096 * i)" by (simp add: PGSIZE_def)
    moreover have "unat (of_nat (4096 * i) :: u64) = 4096 * i"
    proof -
      have "4096 * i < 2 ^ 64" using la(3) i by simp
      then have "take_bit LENGTH(64) (4096 * i) = 4096 * i" by (intro take_bit_nat_eq_self) simp
      then show ?thesis unfolding unsigned_of_nat by (simp only: of_nat_id)
    qed
    ultimately have "unat (la + of_nat i * PGSIZE) = unat la + 4096 * i" using la(3) i by (simp add: unat_plus_if')
    then show ?thesis unfolding lpath_vpath by (simp add: add.commute)
  qed
  have n: "unat (ROUNDUP (len + PGOFF la) PGSIZE div PGSIZE) = k"
  proof -
    have l: "4096 * k + 4095 < 2 ^ 64" using k by simp
    let ?x = "len + PGSIZE - 1"
    have u: "unat ?x = 4096 * k + 4095"
    proof -
      have e: "len + PGSIZE - 1 = len + 4095" by (simp add: PGSIZE_def)
      show ?thesis unfolding e using k(1) l by (simp add: unat_plus_if')
    qed
    have "(4096 * k + 4095) mod 4096 = (4095 :: nat)" using mod_mult_self4 [of 4096 k 4095] by simp
    then have m: "unat (?x mod PGSIZE) = 4095" unfolding unat_mod u by (simp add: PGSIZE_def)
    have "?x mod PGSIZE \<le> ?x" unfolding word_le_nat_alt u m by simp
    then have "unat (?x - ?x mod PGSIZE) = 4096 * k" by (simp add: unat_sub u m)
    then have "unat (ROUNDUP len PGSIZE) = 4096 * k" unfolding ROUNDUP_def ROUNDDOWN_def .
    then show ?thesis by (simp add: off unat_div PGSIZE_def)
  qed
  have b: "boot_map_segment d la len pa perm s = map_loop k d la pa perm s"
    unfolding boot_map_segment_def n rd by (simp add: off)
  obtain s' bs' where s': "map_loop k d la pa perm s = Some s'" "tables_ok s' bs' D"
    "\<forall>i < k. ent s' d (vpath (unat la div 4096 + i)) = pte_create (drop_bit 12 (pa + of_nat i * PGSIZE)) (PTE_V OR perm)"
    "\<forall>d' ys. node D d' ys \<and> length ys = 3 \<and> \<not> (d' = d \<and> (\<exists>i < k. ys = vpath (unat la div 4096 + i))) \<longrightarrow>
       ent s' d' ys = ent s d' ys"
    using map_loop_ok [OF ok d la(3,1) k(2) room, of pa perm] by blast
  have "\<forall>i < k. ent s' d (lpath (la + of_nat i * PGSIZE)) = pte_create (PPN (pa + of_nat i * PGSIZE)) (PTE_V OR perm)"
    using s'(3) lp by (simp add: PPN_def)
  moreover have "(\<exists>i < k. ys = lpath (la + of_nat i * PGSIZE)) \<longleftrightarrow> (\<exists>i < k. ys = vpath (unat la div 4096 + i))" for ys
    using lp by auto
  ultimately show ?thesis using s'(1,2,4) unfolding b by blast
qed

theorem boot_map_segment_correct_witness:
  "\<exists>s'. boot_map_segment 0 0xFFFFFFFFC0200000 0x2000 0x80200000 (PTE_R OR PTE_X) sample_phys = Some s' \<and>
     ent s' 0 (lpath 0xFFFFFFFFC0201000) = pte_create 0x80201 (PTE_V OR (PTE_R OR PTE_X))"
proof -
  let ?D = "[0 \<mapsto> {511}] :: nat \<Rightarrow> nat set option"
  have ok: "tables_ok sample_phys [(2, 6)] ?D" by (rule space_tables [OF sample_space]) simp
  have d: "?D 0 = Some {511}" by simp
  have lt2: "i < 2 \<Longrightarrow> i = 0 \<or> i = 1" for i :: nat by auto
  have i: "\<forall>i < 2. PDX1 (0xFFFFFFFFC0200000 + of_nat i * PGSIZE) \<in> {511}"
  proof (intro allI impI)
    fix i :: nat assume "i < 2"
    then have "i = 0 \<or> i = 1" by (rule lt2)
    then show "PDX1 (0xFFFFFFFFC0200000 + of_nat i * PGSIZE) \<in> {511}"
      by (elim disjE) (simp_all add: PDX1_def PGSIZE_def)
  qed
  have room: "2 * 2 + 1 \<le> card (pool_pages [(2, 6)])" by (simp add: blk_pages_def)
  have n: "unat (0xFFFFFFFFC0200000 :: u64) mod 4096 = 0" "unat (0x80200000 :: u64) mod 4096 = 0"
    "unat (0xFFFFFFFFC0200000 :: u64) + 4096 * 2 < 2 ^ 64" "unat (0x2000 :: u64) = 4096 * 2" "(2 :: nat) \<le> 2 ^ 27" by simp_all
  obtain s' where s': "boot_map_segment 0 0xFFFFFFFFC0200000 0x2000 0x80200000 (PTE_R OR PTE_X) sample_phys = Some s'"
    "\<forall>i < 2. ent s' 0 (lpath (0xFFFFFFFFC0200000 + of_nat i * PGSIZE)) = pte_create (PPN (0x80200000 + of_nat i * PGSIZE)) (PTE_V OR (PTE_R OR PTE_X))"
    using boot_map_segment_correct [OF ok d i n room, of "PTE_R OR PTE_X"] by blast
  have "ent s' 0 (lpath (0xFFFFFFFFC0200000 + of_nat 1 * PGSIZE)) = pte_create (PPN (0x80200000 + of_nat 1 * PGSIZE)) (PTE_V OR (PTE_R OR PTE_X))"
    using s'(2) by (rule allE [of _ 1]) simp
  then have "ent s' 0 (lpath 0xFFFFFFFFC0201000) = pte_create 0x80201 (PTE_V OR (PTE_R OR PTE_X))"
    by (simp add: PGSIZE_def PPN_def)
  then show ?thesis using s'(1) by blast
qed

end
