(* ===== verification/AddrSpace.thy ===== *)
theory AddrSpace
  imports Vmm Paging
begin

text \<open>
  Whole address spaces: the functions of \<open>lab8/kern/mm/vmm.c\<close> that work on areas and page tables
  together, \<open>dup_mmap\<close>, \<open>exit_mmap\<close> and \<open>mm_destroy\<close>. An address space is its areas (\<open>mm_struct\<close>) and its
  page directory. Properties: the areas that the operations can build are typed (in order, disjoint,
  in user space, page aligned), and \<open>dup_mmap\<close> gives a new process copies of all its parent's pages.
\<close>

section \<open>The code\<close>

text \<open>The loop of \<open>dup_mmap\<close> over the areas of \<open>from\<close>, last one first; \<open>new\<close> is what \<open>kmalloc\<close> returns.\<close>

fun dup_loop ::
  "vma_struct list \<Rightarrow> (mm_struct \<Rightarrow> nat option) \<Rightarrow> nat \<Rightarrow> nat \<Rightarrow> mm_struct \<Rightarrow> phys \<Rightarrow> (int \<times> mm_struct \<times> phys) option"
where
  "dup_loop [] new todir fromdir to s = Some (0, to, s)"
| "dup_loop (vma # rest) new todir fromdir to s =
     (case vma_create (new to) (vm_start vma) (vm_end vma) (vm_flags vma) to of
        (None, to) \<Rightarrow> Some (- E_NO_MEM, to, s)
      | (Some nvma, to) \<Rightarrow> do {
          to \<leftarrow> insert_vma_struct nvma to;
          (ret, s) \<leftarrow> copy_range todir fromdir (vm_start vma) (vm_end vma) s;
          if ret \<noteq> 0 then Some (- E_NO_MEM, to, s) else dup_loop rest new todir fromdir to s
        })"

definition areas_of :: "mm_struct \<Rightarrow> vma_struct list" where
  "areas_of mm = map (vmas mm) (mmap_list mm)"

definition dup_mmap ::
  "(mm_struct \<Rightarrow> nat option) \<Rightarrow> nat \<Rightarrow> nat \<Rightarrow> mm_struct \<Rightarrow> mm_struct \<Rightarrow> phys \<Rightarrow> (int \<times> mm_struct \<times> phys) option" where
  "dup_mmap new todir fromdir to src s = dup_loop (rev (areas_of src)) new todir fromdir to s"

fun unmap_areas :: "vma_struct list \<Rightarrow> nat \<Rightarrow> phys \<Rightarrow> phys option" where
  "unmap_areas [] pgdir s = Some s"
| "unmap_areas (vma # rest) pgdir s = do { s \<leftarrow> unmap_range pgdir (vm_start vma) (vm_end vma) s; unmap_areas rest pgdir s }"

fun exit_areas :: "vma_struct list \<Rightarrow> nat \<Rightarrow> phys \<Rightarrow> phys option" where
  "exit_areas [] pgdir s = Some s"
| "exit_areas (vma # rest) pgdir s = do { s \<leftarrow> exit_range pgdir (vm_start vma) (vm_end vma) s; exit_areas rest pgdir s }"

definition exit_mmap :: "int \<Rightarrow> nat \<Rightarrow> mm_struct \<Rightarrow> phys \<Rightarrow> phys option" where
  "exit_mmap mm_count pgdir mm s = do {
     kassert (mm_count = 0);
     s \<leftarrow> unmap_areas (areas_of mm) pgdir s;
     exit_areas (areas_of mm) pgdir s
   }"

text \<open>\<open>mm_destroy\<close>: the second component lists the areas that \<open>kfree\<close> gets.\<close>

fun destroy_loop :: "nat list \<Rightarrow> nat list \<Rightarrow> nat list \<times> nat list" where
  "destroy_loop [] freed = ([], freed)"
| "destroy_loop (le # les) freed = destroy_loop les (freed @ [le])"

definition mm_destroy :: "int \<Rightarrow> mm_struct \<Rightarrow> (mm_struct \<times> nat list) option" where
  "mm_destroy mm_count mm = do {
     kassert (mm_count = 0);
     (case destroy_loop (mmap_list mm) [] of (rest, freed) \<Rightarrow> Some (mm\<lparr>mmap_list := rest\<rparr>, freed))
   }"

section \<open>Typed areas\<close>

definition area_typed :: "vma_struct \<Rightarrow> bool" where
  "area_typed a \<longleftrightarrow> USER_ACCESS (vm_start a) (vm_end a) \<and> vm_start a mod PGSIZE = 0 \<and> vm_end a mod PGSIZE = 0"

definition areas_typed :: "mm_struct \<Rightarrow> bool" where
  "areas_typed mm \<longleftrightarrow> areas_ok mm \<and> (\<forall>p \<in> set (mmap_list mm). area_typed (vmas mm p))"

text \<open>What a sequence of calls makes of a new address space.\<close>

inductive mm_reach :: "mm_struct \<Rightarrow> bool" where
  reach_create: "mm_reach (mm_create V)"
| reach_find: "mm_reach mm \<Longrightarrow> find_vma (Some mm) addr = (v, Some mm') \<Longrightarrow> mm_reach mm'"
| reach_map: "mm_reach mm \<Longrightarrow> (\<And>v. new = Some v \<Longrightarrow> v \<notin> set (mmap_list mm)) \<Longrightarrow>
    mm_map new addr len vflags mm = Some (r, mm') \<Longrightarrow> mm_reach mm'"
| reach_check: "mm_reach mm \<Longrightarrow> user_mem_check (Some mm) addr len write = Some (b, Some mm') \<Longrightarrow> mm_reach mm'"

lemma ROUNDDOWN_aligned:
  assumes "0 < unat n" and "unat n dvd 2 ^ 64"
  shows "ROUNDDOWN a n mod n = 0"
proof -
  have le: "a mod n \<le> a" by (simp add: word_le_nat_alt unat_mod)
  have "unat (ROUNDDOWN a n) = unat a - unat a mod unat n"
    unfolding ROUNDDOWN_def using le by (simp add: unat_sub unat_mod)
  then have "unat (ROUNDDOWN a n mod n) = (unat a - unat a mod unat n) mod unat n" by (simp add: unat_mod)
  then show ?thesis by (simp add: word_unat_eq_iff minus_mod_eq_mult_div)
qed

lemma PGSIZE_aligned: "ROUNDDOWN a PGSIZE mod PGSIZE = 0" "ROUNDUP a PGSIZE mod PGSIZE = 0"
  by (simp_all add: ROUNDUP_def ROUNDDOWN_aligned PGSIZE_def)

lemma areas_typed_same:
  assumes "areas_typed mm" and "areas_ok mm'" and "vmas mm' = vmas mm" and "mmap_list mm' = mmap_list mm"
  shows "areas_typed mm'"
  using assms by (simp add: areas_typed_def)

lemma mm_map_typed:
  assumes t: "areas_typed mm" and new: "\<forall>v. new = Some v \<longrightarrow> v \<notin> set (mmap_list mm)"
    and r: "mm_map new addr len vflags mm = Some (r, mm')"
  shows "areas_typed mm'"
proof -
  let ?s = "ROUNDDOWN addr PGSIZE" and ?e = "ROUNDUP (addr + len) PGSIZE"
  have ok: "areas_ok mm" using t by (simp add: areas_typed_def)
  note c = mm_map_cases [OF ok new refl refl, of addr len vflags]
  show ?thesis
  proof (cases "\<not> USER_ACCESS ?s ?e \<or> (\<exists>p \<in> set (mmap_list mm). in_area mm ?s p) \<or> new = None")
    case True
    then have "areas_ok mm' \<and> vmas mm' = vmas mm \<and> mmap_list mm' = mmap_list mm"
      using c r ok by (auto split: if_splits)
    then show ?thesis using areas_typed_same [OF t] by blast
  next
    case False
    then obtain v where v: "new = Some v" and ua: "USER_ACCESS ?s ?e" and no: "\<not> (\<exists>p \<in> set (mmap_list mm). in_area mm ?s p)" by auto
    have m: "areas_ok mm' \<and> set (mmap_list mm') = insert v (set (mmap_list mm)) \<and>
        vmas mm' = (vmas mm)(v := \<lparr>vm_start = ?s, vm_end = ?e, vm_flags = vflags\<rparr>)"
      using c r ua no v by (auto split: if_splits)
    have "area_typed \<lparr>vm_start = ?s, vm_end = ?e, vm_flags = vflags\<rparr>"
      using ua by (simp add: area_typed_def PGSIZE_aligned)
    then show ?thesis using m t by (auto simp: areas_typed_def)
  qed
qed

text \<open>
  (C38) Every address space that a sequence of \<open>mm_create\<close>, \<open>find_vma\<close>, \<open>mm_map\<close> and \<open>user_mem_check\<close>
  builds is typed: its areas are in address order and disjoint, start and end on page boundaries inside
  user space, and the cache is one of them.
\<close>

theorem areas_well_typed: "mm_reach mm \<Longrightarrow> areas_typed mm"
proof (induction rule: mm_reach.induct)
  case (reach_create V)
  then show ?case by (simp add: areas_typed_def areas_ok_def mm_create_def)
next
  case (reach_find mm addr v mm')
  then have ok: "areas_ok mm" by (simp add: areas_typed_def)
  obtain w mm1 where "find_vma (Some mm) addr = (w, Some mm1)" "areas_ok mm1" "vmas mm1 = vmas mm" "mmap_list mm1 = mmap_list mm"
    using find_vma_ok [OF ok] by metis
  then show ?case using areas_typed_same [OF reach_find.IH] reach_find.hyps(2) by simp
next
  case (reach_map mm new addr len vflags r mm')
  then show ?case using mm_map_typed by blast
next
  case (reach_check mm addr len w b mm')
  then have ok: "areas_ok mm" by (simp add: areas_typed_def)
  obtain b1 mm1 where "user_mem_check (Some mm) addr len w = Some (b1, Some mm1)" "areas_ok mm1" "vmas mm1 = vmas mm" "mmap_list mm1 = mmap_list mm"
    using user_mem_check_ok [OF ok] by blast
  then show ?case using areas_typed_same [OF reach_check.IH] reach_check.hyps(2) by simp
qed

theorem areas_well_typed_witness:
  "\<exists>mm. mm_reach mm \<and> areas_typed mm \<and> 7 \<in> set (mmap_list mm)"
proof -
  let ?m = "mm_create (\<lambda>_. \<lparr>vm_start = 0, vm_end = 0, vm_flags = 0\<rparr>)"
  have ok: "areas_ok ?m" by (simp add: areas_ok_def mm_create_def)
  have new: "\<forall>v. Some (7 :: nat) = Some v \<longrightarrow> v \<notin> set (mmap_list ?m)" by (simp add: mm_create_def)
  have r: "ROUNDDOWN 0x400123 PGSIZE = 0x400000" "ROUNDUP (0x400123 + 0x1000) PGSIZE = 0x402000"
    by (simp_all add: ROUNDDOWN_def ROUNDUP_def PGSIZE_def)
  have "\<exists>mm'. mm_map (Some 7) 0x400123 0x1000 VM_READ ?m = Some (0, mm') \<and> set (mmap_list mm') = insert 7 (set (mmap_list ?m))"
    using mm_map_cases [OF ok new refl refl, of "0x400123" "0x1000" VM_READ] unfolding r
    by (auto simp: USER_ACCESS_def USERBASE_def USERTOP_def mm_create_def)
  then obtain mm' where m: "mm_map (Some 7) 0x400123 0x1000 VM_READ ?m = Some (0, mm')" "7 \<in> set (mmap_list mm')" by auto
  have "mm_reach mm'" by (rule reach_map [OF reach_create _ m(1)]) (use new in blast)
  then show ?thesis using areas_well_typed m(2) by blast
qed

section \<open>Copying an address space\<close>

text \<open>The pages of an area.\<close>

definition pages_of :: "vma_struct \<Rightarrow> nat set" where
  "pages_of a = {unat (vm_start a) div 4096 ..< unat (vm_end a) div 4096}"

lemma area_pages:
  assumes "area_typed a"
  obtains n m where "vm_start a = vaddr n" and "vm_end a = vaddr m" and "512 \<le> n" and "n < m" and "m \<le> user_pages"
    and "pages_of a = {n..<m}"
proof -
  have u: "USERBASE \<le> vm_start a" "vm_start a < vm_end a" "vm_end a \<le> USERTOP" and al: "vm_start a mod PGSIZE = 0" "vm_end a mod PGSIZE = 0"
    using assms by (simp_all add: area_typed_def USER_ACCESS_def)
  have m0: "unat w mod 4096 = 0" if "w mod PGSIZE = 0" for w :: u64
  proof -
    have "unat (w mod PGSIZE) = unat w mod 4096" by (simp add: unat_mod PGSIZE_def)
    then show ?thesis using that by simp
  qed
  let ?n = "unat (vm_start a) div 4096" and ?m = "unat (vm_end a) div 4096"
  have nn: "unat (vm_start a) = 4096 * ?n" "unat (vm_end a) = 4096 * ?m" using m0 [OF al(1)] m0 [OF al(2)] by auto
  have b: "0x200000 \<le> 4096 * ?n" "4096 * ?n < 4096 * ?m" "4096 * ?m \<le> 0x80000000"
    using u nn by (simp_all add: word_le_nat_alt word_less_nat_alt USERBASE_def USERTOP_def)
  have mu: "?m \<le> user_pages" "?n \<le> user_pages" using b by (simp_all add: user_pages_def)
  have "vm_start a = vaddr ?n" "vm_end a = vaddr ?m"
    using nn unat_vaddr [OF mu(1)] unat_vaddr [OF mu(2)] by (simp_all add: word_unat_eq_iff)
  then show thesis using that [of ?n ?m] b mu by (simp add: pages_of_def)
qed

lemma pages_disjoint:
  assumes "area_typed a" and "area_typed b" and "disjoint_areas a b"
  shows "pages_of a \<inter> pages_of b = {}"
proof -
  have "unat (vm_end a) div 4096 \<le> unat (vm_start b) div 4096 \<or> unat (vm_end b) div 4096 \<le> unat (vm_start a) div 4096"
    using assms(3) by (auto simp: disjoint_areas_def word_le_nat_alt intro: div_le_mono)
  then show ?thesis by (auto simp: pages_of_def)
qed

lemma pages_user: "area_typed a \<Longrightarrow> pages_of a \<subseteq> {..<user_pages}"
  by (erule area_pages) auto

lemma disjoint_areas_sym: "disjoint_areas a b \<Longrightarrow> disjoint_areas b a"
  by (auto simp: disjoint_areas_def)

lemma dup_loop_ok:
  assumes d: "D todir = Some I" "{0, 1} \<subseteq> I" "D fromdir = Some J" "{0, 1} \<subseteq> J" "todir \<noteq> fromdir"
    and new: "\<forall>m. \<exists>v. new m = Some v \<and> v \<notin> set (mmap_list m)"
    and "\<forall>a \<in> set as. area_typed a" and "sorted_wrt disjoint_areas as" and "areas_typed to"
    and "\<forall>a \<in> set as. \<forall>p \<in> set (mmap_list to). disjoint_areas (vmas to p) a"
    and "space_ok s bs D c" and "\<forall>a \<in> set as. \<forall>i \<in> pages_of a. \<not> is_valid (ent s todir (vpath i))"
    and "3 * (\<Sum>a\<leftarrow>as. card (pages_of a)) \<le> card (pool_pages bs)"
  shows "\<exists>to' s' bs'. dup_loop as new todir fromdir to s = Some (0, to', s') \<and> areas_typed to' \<and>
    set (areas_of to') = set (areas_of to) \<union> set as \<and> space_ok s' bs' D c \<and>
    copies D s bs s' bs' todir fromdir (\<Union>a \<in> set as. pages_of a)"
  using assms(7-)
proof (induction as arbitrary: to s bs)
  case Nil
  then show ?case using copies_none [of s fromdir "{}" D bs todir] by (auto simp: mapped_in_def)
next
  case (Cons a as)
  have ty: "area_typed a" and tys: "\<forall>a \<in> set as. area_typed a" using Cons.prems(1) by simp_all
  have dis: "\<forall>b \<in> set as. disjoint_areas a b" using Cons.prems(2) by simp
  from ty show ?case
  proof (rule area_pages)
    fix n m assume nm: "vm_start a = vaddr n" "vm_end a = vaddr m" "512 \<le> n" "n < m" "m \<le> user_pages" "pages_of a = {n..<m}"
    obtain v where v: "new to = Some v" "v \<notin> set (mmap_list to)" using new by blast
    define to1 where "to1 = to\<lparr>vmas := (vmas to)(v := \<lparr>vm_start = vm_start a, vm_end = vm_end a, vm_flags = vm_flags a\<rparr>)\<rparr>"
    have va: "vmas to1 v = a" by (simp add: to1_def)
    have vo: "vmas to1 p = vmas to p" if "p \<in> set (mmap_list to)" for p using that v(2) by (auto simp: to1_def)
    have ok0: "areas_ok to" using Cons.prems(3) by (simp add: areas_typed_def)
    have ok1: "areas_ok to1"
    proof -
      have "sorted_wrt (apart (vmas to1)) (mmap_list to)"
      proof (rule sorted_wrt_mono_rel)
        show "sorted_wrt (apart (vmas to)) (mmap_list to)" using ok0 by (simp add: areas_ok_def)
      qed (use vo in \<open>simp add: apart_def\<close>)
      then show ?thesis using ok0 vo by (auto simp: areas_ok_def) (simp_all add: to1_def)
    qed
    have l1: "mmap_list to1 = mmap_list to" by (simp add: to1_def)
    have top: "vm_end (vmas to1 v) \<le> USERTOP" and pos: "vm_start (vmas to1 v) < vm_end (vmas to1 v)"
      using ty va by (simp_all add: area_typed_def USER_ACCESS_def)
    have vn: "v \<notin> set (mmap_list to1)" using v(2) l1 by simp
    have "\<not> (\<exists>p \<in> set (mmap_list to1). \<not> disjoint_areas (vmas to1 p) (vmas to1 v))"
      using Cons.prems(4) vo va l1 by simp
    then obtain to2 where ins: "insert_vma_struct v to1 = Some to2" using insert_vma_ok(1) [OF ok1 vn top pos] by blast
    have t2: "areas_ok to2" "vmas to2 = vmas to1" "set (mmap_list to2) = insert v (set (mmap_list to))"
      using insert_vma_ok(2) [OF ok1 vn top pos ins] l1 by simp_all
    have typed2: "areas_typed to2" using t2 Cons.prems(3) ty va vo by (auto simp: areas_typed_def)
    have areas2: "set (areas_of to2) = insert a (set (areas_of to))"
      using t2 va vo by (auto simp: areas_of_def)
    have cr: "vma_create (new to) (vm_start a) (vm_end a) (vm_flags a) to = (Some v, to1)"
      using v(1) by (simp add: vma_create_def to1_def)
    have free: "\<forall>i. n \<le> i \<and> i < m \<longrightarrow> \<not> is_valid (ent s todir (vpath i))" using Cons.prems(6) nm(6) by simp
    have cardp: "card (pages_of a) = m - n" using nm(6) by simp
    have room: "3 * (m - n) \<le> card (pool_pages bs)" using Cons.prems(7) cardp by simp
    obtain s1 bs1 where 1: "copy_range todir fromdir (vaddr n) (vaddr m) s = Some (0, s1)" "space_ok s1 bs1 D c"
      "copies D s bs s1 bs1 todir fromdir {n..<m}" "card (pool_pages bs) \<le> card (pool_pages bs1) + 3 * (m - n)"
      using copy_range_ok [OF d Cons.prems(5) nm(3-5) free room] by blast
    have sub: "pages_of b \<subseteq> {..<user_pages}" if "b \<in> set (a # as)" for b
      using Cons.prems(1) that pages_user by blast
    have free1: "\<forall>b \<in> set as. \<forall>i \<in> pages_of b. \<not> is_valid (ent s1 todir (vpath i))"
    proof (intro ballI)
      fix b i assume b: "b \<in> set as" and i: "i \<in> pages_of b"
      have iu: "i < user_pages" using sub [of b] b i by auto
      have "i \<notin> {n..<m}" using pages_disjoint [OF ty] tys dis b i nm(6) by blast
      then have "vpath i \<notin> vpath ` mapped_in s fromdir {n..<m}" by (intro vpath_other [OF iu]) (use nm(5) in auto)
      then have "ent s1 todir (vpath i) = ent s todir (vpath i)"
        using 1(3) user_path(2) [where D = D, OF d(1,2) iu] by (simp add: copies_def vpath_def)
      then show "\<not> is_valid (ent s1 todir (vpath i))" using Cons.prems(6) b i by simp
    qed
    have room1: "3 * (\<Sum>b\<leftarrow>as. card (pages_of b)) \<le> card (pool_pages bs1)" using Cons.prems(7) cardp 1(4) by simp
    have sep: "\<forall>b \<in> set as. \<forall>p \<in> set (mmap_list to2). disjoint_areas (vmas to2 p) b"
      using Cons.prems(4) dis t2 va vo by auto
    have sd: "sorted_wrt disjoint_areas as" using Cons.prems(2) by simp
    obtain to' s' bs' where 2: "dup_loop as new todir fromdir to2 s1 = Some (0, to', s')" "areas_typed to'"
      "set (areas_of to') = set (areas_of to2) \<union> set as" "space_ok s' bs' D c"
      "copies D s1 bs1 s' bs' todir fromdir (\<Union>b \<in> set as. pages_of b)"
      using Cons.IH [OF tys sd typed2 sep 1(2) free1 room1] by blast
    have "copies D s bs s' bs' todir fromdir ({n..<m} \<union> (\<Union>b \<in> set as. pages_of b))"
    proof (rule copies_trans [OF Cons.prems(5) 1(2) d 1(3) 2(5)])
      show "{n..<m} \<subseteq> {..<user_pages}" using nm(5) by auto
      show "(\<Union>b \<in> set as. pages_of b) \<subseteq> {..<user_pages}" using sub by auto
      show "{n..<m} \<inter> (\<Union>b \<in> set as. pages_of b) = {}" using pages_disjoint [OF ty] tys dis nm(6) by blast
    qed
    moreover have "dup_loop (a # as) new todir fromdir to s = Some (0, to', s')"
      using cr ins 1(1) 2(1) nm(1,2) by simp
    ultimately show ?case using 2(2-4) areas2 nm(6) by auto
  qed
qed

text \<open>
  (C9) \<open>dup_mmap\<close> copies an address space: given memory for every structure and three free pages for each
  page of the areas, the new process gets the same areas, and every page its parent has in them is copied
  into a page of its own, with the same bytes, at the same address, with the same user permissions; the
  parent's entries and all memory in use stay as they are.
\<close>

theorem dup_mmap_correct:
  assumes src: "areas_typed src" and to: "areas_typed to" "mmap_list to = []"
    and new: "\<forall>m. \<exists>v. new m = Some v \<and> v \<notin> set (mmap_list m)"
    and ok: "space_ok s bs D c" and d: "D todir = Some I" "{0, 1} \<subseteq> I" "D fromdir = Some J" "{0, 1} \<subseteq> J" "todir \<noteq> fromdir"
    and free: "\<forall>i < user_pages. \<not> is_valid (ent s todir (vpath i))"
    and room: "3 * (\<Sum>a\<leftarrow>areas_of src. card (pages_of a)) \<le> card (pool_pages bs)"
  shows "\<exists>to' s' bs' f. dup_mmap new todir fromdir to src s = Some (0, to', s') \<and> areas_typed to' \<and>
    set (areas_of to') = set (areas_of src) \<and> space_ok s' bs' D c \<and>
    (\<forall>a \<in> set (areas_of src). \<forall>i \<in> pages_of a. is_valid (ent s fromdir (vpath i)) \<longrightarrow>
       f i \<in> pool_pages bs - pool_pages bs' \<and> ent s' todir (vpath i) = copied (ent s fromdir (vpath i)) (f i) \<and>
       words s' (f i) = words s (epage (ent s fromdir (vpath i)))) \<and>
    (\<forall>i < user_pages. ent s' fromdir (vpath i) = ent s fromdir (vpath i)) \<and>
    (\<forall>r. r \<notin> pool_pages bs \<and> \<not> is_table s D r \<longrightarrow> words s' r = words s r)"
proof -
  let ?as = "rev (areas_of src)"
  have ty: "\<forall>a \<in> set ?as. area_typed a" using src by (auto simp: areas_typed_def areas_of_def)
  have srt: "sorted_wrt (apart (vmas src)) (mmap_list src)" using src by (simp add: areas_typed_def areas_ok_def)
  have "sorted_wrt (\<lambda>p q. disjoint_areas (vmas src q) (vmas src p)) (mmap_list src)"
    by (rule sorted_wrt_mono_rel [OF _ srt]) (auto simp: apart_def disjoint_areas_def)
  then have sd: "sorted_wrt disjoint_areas ?as" by (simp add: areas_of_def sorted_wrt_rev sorted_wrt_map)
  have sep: "\<forall>a \<in> set ?as. \<forall>p \<in> set (mmap_list to). disjoint_areas (vmas to p) a" using to(2) by simp
  have fr: "\<forall>a \<in> set ?as. \<forall>i \<in> pages_of a. \<not> is_valid (ent s todir (vpath i))"
    using free ty pages_user by blast
  have rm: "3 * (\<Sum>a\<leftarrow>?as. card (pages_of a)) \<le> card (pool_pages bs)" using room by (simp add: rev_map [symmetric])
  obtain to' s' bs' where 1: "dup_loop ?as new todir fromdir to s = Some (0, to', s')" "areas_typed to'"
    "set (areas_of to') = set (areas_of to) \<union> set ?as" "space_ok s' bs' D c"
    "copies D s bs s' bs' todir fromdir (\<Union>a \<in> set ?as. pages_of a)"
    using dup_loop_ok [OF d new ty sd to(1) sep ok fr rm] by blast
  have ar: "set (areas_of to') = set (areas_of src)" using 1(3) to(2) by (simp add: areas_of_def)
  have keep: "ent s' fromdir (vpath i) = ent s fromdir (vpath i)" if i: "i < user_pages" for i
    using 1(5) user_path(2) [where D = D, OF d(3,4) i] d(5) by (simp add: copies_def vpath_def)
  obtain f where f: "\<forall>i \<in> mapped_in s fromdir (\<Union>a \<in> set ?as. pages_of a). f i \<in> pool_pages bs - pool_pages bs' \<and>
      ent s' todir (vpath i) = copied (ent s fromdir (vpath i)) (f i) \<and> words s' (f i) = words s (epage (ent s fromdir (vpath i)))"
    using 1(5) unfolding copies_def by blast
  have "dup_mmap new todir fromdir to src s = Some (0, to', s')" using 1(1) by (simp add: dup_mmap_def)
  moreover have "\<forall>a \<in> set (areas_of src). \<forall>i \<in> pages_of a. is_valid (ent s fromdir (vpath i)) \<longrightarrow>
       f i \<in> pool_pages bs - pool_pages bs' \<and> ent s' todir (vpath i) = copied (ent s fromdir (vpath i)) (f i) \<and>
       words s' (f i) = words s (epage (ent s fromdir (vpath i)))"
    using f by (auto simp: mapped_in_def)
  moreover have "\<forall>r. r \<notin> pool_pages bs \<and> \<not> is_table s D r \<longrightarrow> words s' r = words s r" using 1(5) unfolding copies_def by blast
  ultimately show ?thesis using 1(2,4) ar keep by blast
qed

definition parent_mm :: mm_struct where
  "parent_mm = \<lparr>vmas = (\<lambda>_. \<lparr>vm_start = 0x800000, vm_end = 0x801000, vm_flags = VM_WRITE\<rparr>), mmap_list = [0],
     mmap_cache = None, map_count = 1\<rparr>"

definition fresh_vma :: "mm_struct \<Rightarrow> nat option" where
  "fresh_vma m = Some (Suc (Max (insert 0 (set (mmap_list m)))))"

theorem dup_mmap_correct_witness:
  "\<exists>q s to' s'. pgdir_alloc_page 0 0x800000 (PTE_U OR PTE_W) sample_phys = Some (Some q, s) \<and>
     dup_mmap fresh_vma 1 0 (mm_create (vmas parent_mm)) parent_mm s = Some (0, to', s') \<and>
     is_valid (ent s' 1 (vpath 2048)) \<and> epage (ent s' 1 (vpath 2048)) \<noteq> q \<and>
     words s' (epage (ent s' 1 (vpath 2048))) = words s q"
proof -
  have d: "sample_dirs 0 = Some {0, 1}" "{0, 1 :: nat} \<subseteq> {0, 1}" "sample_dirs 1 = Some {0, 1}" by (simp_all add: sample_dirs_def)
  have ne: "(1 :: nat) \<noteq> 0" by simp
  have va: "vaddr 2048 = 0x800000" by (simp add: vaddr_def)
  obtain q s bs where s: "pgdir_alloc_page 0 0x800000 (PTE_U OR PTE_W) sample_phys = Some (Some q, s)"
    "space_ok s bs sample_dirs (\<lambda>_. 0)" "3 \<le> card (pool_pages bs)" "q \<notin> pool_pages bs" "is_valid (ent s 0 (vpath 2048))"
    "epage (ent s 0 (vpath 2048)) = q" "\<forall>i < user_pages. ent s 1 (vpath i) = 0"
    using sample_one_page unfolding va by blast
  have src: "areas_typed parent_mm"
    by (simp add: areas_typed_def areas_ok_def area_typed_def parent_mm_def USER_ACCESS_def USERBASE_def USERTOP_def PGSIZE_def)
  have to: "areas_typed (mm_create (vmas parent_mm))" "mmap_list (mm_create (vmas parent_mm)) = []"
    by (simp_all add: areas_typed_def areas_ok_def mm_create_def)
  have new: "\<forall>m. \<exists>v. fresh_vma m = Some v \<and> v \<notin> set (mmap_list m)"
  proof
    fix m :: mm_struct
    have "Suc (Max (insert 0 (set (mmap_list m)))) \<notin> set (mmap_list m)"
    proof
      assume "Suc (Max (insert 0 (set (mmap_list m)))) \<in> set (mmap_list m)"
      then have "Suc (Max (insert 0 (set (mmap_list m)))) \<le> Max (insert 0 (set (mmap_list m)))" by (intro Max_ge) auto
      then show False by simp
    qed
    then show "\<exists>v. fresh_vma m = Some v \<and> v \<notin> set (mmap_list m)" by (simp add: fresh_vma_def)
  qed
  have free: "\<forall>i < user_pages. \<not> is_valid (ent s 1 (vpath i))" using s(7) by simp
  have ar: "areas_of parent_mm = [\<lparr>vm_start = 0x800000, vm_end = 0x801000, vm_flags = VM_WRITE\<rparr>]" by (simp add: areas_of_def parent_mm_def)
  have pg: "pages_of \<lparr>vm_start = 0x800000, vm_end = 0x801000, vm_flags = VM_WRITE\<rparr> = {2048}"
    by (auto simp: pages_of_def)
  have room: "3 * (\<Sum>a\<leftarrow>areas_of parent_mm. card (pages_of a)) \<le> card (pool_pages bs)" using s(3) by (simp add: ar pg)
  obtain to' s' bs' f where 1: "dup_mmap fresh_vma 1 0 (mm_create (vmas parent_mm)) parent_mm s = Some (0, to', s')"
    "\<forall>a \<in> set (areas_of parent_mm). \<forall>i \<in> pages_of a. is_valid (ent s 0 (vpath i)) \<longrightarrow>
       f i \<in> pool_pages bs - pool_pages bs' \<and> ent s' 1 (vpath i) = copied (ent s 0 (vpath i)) (f i) \<and>
       words s' (f i) = words s (epage (ent s 0 (vpath i)))"
    using dup_mmap_correct [OF src to new s(2) d(3,2) d(1,2) ne free room] by blast
  have f: "f 2048 \<in> pool_pages bs" "ent s' 1 (vpath 2048) = copied (ent s 0 (vpath 2048)) (f 2048)" "words s' (f 2048) = words s q"
    using 1(2) s(5,6) by (simp_all add: ar pg)
  have pool: "pool_ok s bs" by (rule tables_pool [OF space_tables [OF s(2)]])
  then have "is_page (npage s) (f 2048)" using f(1) by (simp add: pool_ok_def)
  then have "epage (ent s' 1 (vpath 2048)) = f 2048" unfolding f(2) by (rule epage_copied [OF pool])
  moreover have "is_valid (ent s' 1 (vpath 2048))" unfolding f(2) by (simp add: copied_def)
  moreover have "f 2048 \<noteq> q" using f(1) s(4) by auto
  ultimately show ?thesis using s(1) 1(1) f(3) by metis
qed

end
