(* ===== verification/SfsDir.thy ===== *)
theory SfsDir
  imports SfsWrite
begin

text \<open>
  Directories of the simple file system, \<open>lab8/kern/fs/sfs/sfs_inode.c\<close>. A directory is a file of
  which every block holds one entry, an inode number and a name; the number 0 marks an empty slot.
  \<open>dirents\<close> is the list of entries a directory stands for, and the lemmas show that reading,
  searching and listing a directory are functions of that list and change nothing on the disk.
\<close>

section \<open>The code\<close>

text \<open>A name is the bytes of its array up to the first zero byte.\<close>

definition cname :: "u8 list \<Rightarrow> u8 list" where
  "cname bs = takeWhile (\<lambda>c. c \<noteq> 0) bs"

text \<open>\<open>entry->name[SFS_MAX_FNAME_LEN] = '\0'\<close>.\<close>

definition end_name :: "sfs_disk_entry \<Rightarrow> sfs_disk_entry" where
  "end_name e = e\<lparr>ename := (ename e)[SFS_MAX_FNAME_LEN := 0]\<rparr>"

definition sfs_dirent_read_nolock ::
  "'d sfs_fs \<Rightarrow> sfs_inode \<Rightarrow> nat \<Rightarrow> (sfs_disk_entry res \<times> 'd sfs_fs \<times> sfs_inode) option" where
  "sfs_dirent_read_nolock sfs sin i = do {
     kassert (ftype (din sin) = SFS_TYPE_DIR \<and> i < unat (fblocks (din sin)));
     on_ok (sfs_bmap_load_nolock sfs sin (word_of_nat i)) (\<lambda>b (sfs, sin). do {
       assert_inuse sfs b;
       (r, sfs) \<leftarrow> rbuf_obj sfs (replicate sizeof_entry 0) b 0;
       Some (map_sum id (\<lambda>obj. end_name (entry_of obj)) r, sfs, sin)
     })
   }"

text \<open>
  The loop of \<open>sfs_dirent_search_nolock\<close> from slot \<open>i\<close> on, with \<open>k\<close> slots to go. The result is the
  inode number and the slot of the first entry with the name; \<open>free\<close> is \<open>*empty_slot\<close>.
\<close>

primrec dirent_search ::
  "nat \<Rightarrow> nat \<Rightarrow> u8 list \<Rightarrow> nat \<Rightarrow> 'd sfs_fs \<Rightarrow> sfs_inode \<Rightarrow>
    ((u32 \<times> nat) res \<times> nat \<times> 'd sfs_fs \<times> sfs_inode) option" where
  "dirent_search 0 i name free sfs sin = Some (Inl (- E_NOENT), free, sfs, sin)"
| "dirent_search (Suc k) i name free sfs sin = do {
     (r, sfs, sin) \<leftarrow> sfs_dirent_read_nolock sfs sin i;
     (case r of
        Inl e \<Rightarrow> Some (Inl e, free, sfs, sin)
      | Inr entry \<Rightarrow>
          if eino entry = 0 then dirent_search k (Suc i) name i sfs sin
          else if name = cname (ename entry) then Some (Inr (eino entry, i), free, sfs, sin)
          else dirent_search k (Suc i) name free sfs sin)
   }"

text \<open>\<open>mem\<close> says whether the \<open>kmalloc\<close> of the entry succeeds.\<close>

definition sfs_dirent_search_nolock ::
  "bool \<Rightarrow> 'd sfs_fs \<Rightarrow> sfs_inode \<Rightarrow> u8 list \<Rightarrow> ((u32 \<times> nat) res \<times> nat \<times> 'd sfs_fs \<times> sfs_inode) option" where
  "sfs_dirent_search_nolock mem sfs sin name = do {
     kassert (length name \<le> SFS_MAX_FNAME_LEN);
     let nslots = unat (fblocks (din sin)) in
     if \<not> mem then Some (Inl (- E_NO_MEM), nslots, sfs, sin)
     else dirent_search nslots 0 name nslots sfs sin
   }"

text \<open>\<open>sfs_dirent_findino_nolock\<close> finds the entry that names an inode number.\<close>

primrec dirent_findino ::
  "nat \<Rightarrow> nat \<Rightarrow> u32 \<Rightarrow> 'd sfs_fs \<Rightarrow> sfs_inode \<Rightarrow> (sfs_disk_entry res \<times> 'd sfs_fs \<times> sfs_inode) option" where
  "dirent_findino 0 i n sfs sin = Some (Inl (- E_NOENT), sfs, sin)"
| "dirent_findino (Suc k) i n sfs sin =
     on_ok (sfs_dirent_read_nolock sfs sin i) (\<lambda>entry (sfs, sin).
       if eino entry = n then Some (Inr entry, sfs, sin) else dirent_findino k (Suc i) n sfs sin)"

definition sfs_dirent_findino_nolock ::
  "'d sfs_fs \<Rightarrow> sfs_inode \<Rightarrow> u32 \<Rightarrow> (sfs_disk_entry res \<times> 'd sfs_fs \<times> sfs_inode) option" where
  "sfs_dirent_findino_nolock sfs sin n = dirent_findino (unat (fblocks (din sin))) 0 n sfs sin"

text \<open>\<open>sfs_getdirentry_sub_nolock\<close> counts \<open>slot\<close> down over the entries in use.\<close>

primrec getdirentry_sub ::
  "nat \<Rightarrow> nat \<Rightarrow> nat \<Rightarrow> 'd sfs_fs \<Rightarrow> sfs_inode \<Rightarrow> (sfs_disk_entry res \<times> 'd sfs_fs \<times> sfs_inode) option" where
  "getdirentry_sub 0 i m sfs sin = Some (Inl (- E_NOENT), sfs, sin)"
| "getdirentry_sub (Suc k) i m sfs sin =
     on_ok (sfs_dirent_read_nolock sfs sin i) (\<lambda>entry (sfs, sin).
       if eino entry \<noteq> 0 then
         if m = 0 then Some (Inr entry, sfs, sin) else getdirentry_sub k (Suc i) (m - 1) sfs sin
       else getdirentry_sub k (Suc i) m sfs sin)"

definition sfs_getdirentry_sub_nolock ::
  "'d sfs_fs \<Rightarrow> sfs_inode \<Rightarrow> nat \<Rightarrow> (sfs_disk_entry res \<times> 'd sfs_fs \<times> sfs_inode) option" where
  "sfs_getdirentry_sub_nolock sfs sin m = getdirentry_sub (unat (fblocks (din sin))) 0 m sfs sin"

section \<open>The entries of a directory\<close>

definition dirents :: "('d \<Rightarrow> u8 list) \<Rightarrow> 'd sfs_fs \<Rightarrow> u32 list \<Rightarrow> sfs_disk_entry list" where
  "dirents img s bs = map (\<lambda>b. end_name (entry_of (take sizeof_entry (view img s (unat b))))) bs"

text \<open>The slot of a name, and the entries in use.\<close>

definition names :: "u8 list \<Rightarrow> sfs_disk_entry \<Rightarrow> bool" where
  "names name e \<longleftrightarrow> eino e \<noteq> 0 \<and> cname (ename e) = name"

definition live_entries :: "sfs_disk_entry list \<Rightarrow> sfs_disk_entry list" where
  "live_entries es = filter (\<lambda>e. eino e \<noteq> 0) es"

lemma length_dirents [simp]: "length (dirents img s bs) = length bs"
  by (simp add: dirents_def)

lemma dirents_same: "same_disk img s s' \<Longrightarrow> dirents img s' bs = dirents img s bs"
  by (simp add: dirents_def same_disk_def)

lemma find_drop:
  assumes "i < length xs"
  shows "List.find P (drop i xs) = (if P (xs ! i) then Some (xs ! i) else List.find P (drop (Suc i) xs))"
  by (simp add: Cons_nth_drop_Suc [OF assms, symmetric])

context block_device
begin

lemma dirent_read_ok:
  assumes ok: "fs_ok io dinv blocks s" and rep: "file_rep img s (din sin) bs"
    and dir: "ftype (din sin) = SFS_TYPE_DIR" and i: "i < length bs"
  obtains s' where "sfs_dirent_read_nolock s sin i = Some (Inr (dirents img s bs ! i), s', sin)"
    and "fs_ok io dinv blocks s'" and "same_disk img s s'"
proof -
  have len: "length bs \<le> 1036" and fb: "unat (fblocks (din sin)) = length bs"
    and ub: "used s (bs ! i)" using rep i by (simp_all add: file_rep_def)
  have w: "unat (word_of_nat i :: u32) = i" using i len by (intro unat_word_nat_u32) simp
  then have i': "unat (word_of_nat i :: u32) < length bs" using i by simp
  obtain s1 where l: "sfs_bmap_load_nolock s sin (word_of_nat i) = Some (Inr (bs ! i), s1, sin)"
    and s1: "fs_ok io dinv blocks s1" "same_disk img s s1"
    using load_old [OF ok rep i'] unfolding w by blast
  have u1: "used s1 (bs ! i)" using ub same_disk_used [OF s1(2)] by simp
  have sz: "(0 :: nat) < 4096" "0 + length (replicate sizeof_entry (0 :: u8)) \<le> 4096"
    by (simp_all add: sizeof_entry_def)
  obtain s2 where r: "rbuf_obj s1 (replicate sizeof_entry 0) (bs ! i) 0 =
      Some (Inr (take (length (replicate sizeof_entry (0 :: u8))) (drop 0 (view img s1 (unat (bs ! i))))), s2)"
    and s2: "fs_ok io dinv blocks s2" "same_disk img s1 s2"
    by (rule rbuf_obj_ok [OF s1(1) u1 sz])
  have "view img s1 = view img s" using s1(2) by (simp add: same_disk_def)
  then have "sfs_dirent_read_nolock s sin i = Some (Inr (dirents img s bs ! i), s2, sin)"
    using l r assert_inuse_iff [OF s1(1), of "bs ! i"] u1 dir fb i
    by (simp add: sfs_dirent_read_nolock_def dirents_def)
  then show thesis using that s2(1) same_disk_trans [OF s1(2) s2(2)] by blast
qed

lemma dirent_search_ok:
  assumes "fs_ok io dinv blocks s" and "file_rep img s (din sin) bs"
    and dir: "ftype (din sin) = SFS_TYPE_DIR" and "i + k = length bs"
  shows "\<exists>r free' s'. dirent_search k i name free s sin = Some (r, free', s', sin) \<and>
    fs_ok io dinv blocks s' \<and> same_disk img s s' \<and>
    (case r of Inl e \<Rightarrow> e = - E_NOENT \<and> List.find (names name) (drop i (dirents img s bs)) = None
     | Inr (n, j) \<Rightarrow> j < length bs \<and> eino (dirents img s bs ! j) = n \<and>
         List.find (names name) (drop i (dirents img s bs)) = Some (dirents img s bs ! j))"
  using assms(1,2,4)
proof (induction k arbitrary: i free s)
  case 0
  then show ?case by simp
next
  case (Suc k)
  let ?es = "dirents img s bs"
  have i: "i < length bs" using Suc.prems(3) by simp
  obtain s1 where r: "sfs_dirent_read_nolock s sin i = Some (Inr (?es ! i), s1, sin)"
    and s1: "fs_ok io dinv blocks s1" "same_disk img s s1"
    by (rule dirent_read_ok [OF Suc.prems(1,2) dir i])
  have i': "i < length ?es" using i by simp
  show ?case
  proof (cases "names name (?es ! i)")
    case True
    then have "dirent_search (Suc k) i name free s sin = Some (Inr (eino (?es ! i), i), free, s1, sin)"
      using r by (auto simp: names_def)
    then show ?thesis using True s1 i find_drop [OF i', of "names name"] by auto
  next
    case False
    have rep1: "file_rep img s1 (din sin) bs" using Suc.prems(2) same_disk_rep [OF s1(2)] by simp
    have k: "Suc i + k = length bs" using Suc.prems(3) by simp
    let ?e = "if eino (?es ! i) = 0 then i else free"
    have "dirent_search (Suc k) i name free s sin = dirent_search k (Suc i) name ?e s1 sin"
      using False r by (auto simp: names_def)
    moreover have "List.find (names name) (drop i ?es) = List.find (names name) (drop (Suc i) ?es)"
      using False find_drop [OF i', of "names name"] by simp
    ultimately show ?thesis
      using Suc.IH [OF s1(1) rep1 k, of ?e, unfolded dirents_same [OF s1(2)]]
      by (simp only:) (blast intro: same_disk_trans [OF s1(2)])
  qed
qed

lemma getdirentry_sub_ok:
  assumes "fs_ok io dinv blocks s" and "file_rep img s (din sin) bs"
    and dir: "ftype (din sin) = SFS_TYPE_DIR" and "i + k = length bs"
  shows "\<exists>s'. getdirentry_sub k i m s sin =
      Some (let es = live_entries (drop i (dirents img s bs)) in
        if m < length es then Inr (es ! m) else Inl (- E_NOENT), s', sin) \<and>
    fs_ok io dinv blocks s' \<and> same_disk img s s'"
  using assms(1,2,4)
proof (induction k arbitrary: i m s)
  case 0
  then show ?case by (simp add: live_entries_def)
next
  case (Suc k)
  let ?es = "dirents img s bs"
  have i: "i < length bs" using Suc.prems(3) by simp
  obtain s1 where r: "sfs_dirent_read_nolock s sin i = Some (Inr (?es ! i), s1, sin)"
    and s1: "fs_ok io dinv blocks s1" "same_disk img s s1"
    by (rule dirent_read_ok [OF Suc.prems(1,2) dir i])
  have i': "i < length ?es" using i by simp
  have rep1: "file_rep img s1 (din sin) bs" using Suc.prems(2) same_disk_rep [OF s1(2)] by simp
  have k: "Suc i + k = length bs" using Suc.prems(3) by simp
  have d: "live_entries (drop i ?es) =
      (if eino (?es ! i) \<noteq> 0 then ?es ! i # live_entries (drop (Suc i) ?es) else live_entries (drop (Suc i) ?es))"
    by (simp add: Cons_nth_drop_Suc [OF i', symmetric] live_entries_def)
  note ih = Suc.IH [OF s1(1) rep1 k, unfolded dirents_same [OF s1(2)]]
  show ?case
  proof (cases "eino (?es ! i) \<noteq> 0 \<and> m = 0")
    case True
    then show ?thesis using r s1 d by (simp add: Let_def)
  next
    case False
    let ?m = "if eino (?es ! i) \<noteq> 0 then m - 1 else m"
    have "getdirentry_sub (Suc k) i m s sin = getdirentry_sub k (Suc i) ?m s1 sin"
      using False r by auto
    moreover have "(if m < length (live_entries (drop i ?es)) then Inr (live_entries (drop i ?es) ! m)
        else Inl (- E_NOENT)) =
      (let es = live_entries (drop (Suc i) ?es) in if ?m < length es then Inr (es ! ?m) else Inl (- E_NOENT))"
      using False d by (auto simp: Let_def nth_Cons')
    ultimately show ?thesis
      using ih [of ?m] by (simp only: Let_def) (blast intro: same_disk_trans [OF s1(2)])
  qed
qed

lemma findino_ok:
  assumes "fs_ok io dinv blocks s" and "file_rep img s (din sin) bs"
    and dir: "ftype (din sin) = SFS_TYPE_DIR" and "i + k = length bs"
  shows "\<exists>s'. dirent_findino k i n s sin =
      Some (case List.find (\<lambda>e. eino e = n) (drop i (dirents img s bs)) of
        None \<Rightarrow> Inl (- E_NOENT) | Some e \<Rightarrow> Inr e, s', sin) \<and>
    fs_ok io dinv blocks s' \<and> same_disk img s s'"
  using assms(1,2,4)
proof (induction k arbitrary: i s)
  case 0
  then show ?case by simp
next
  case (Suc k)
  let ?es = "dirents img s bs"
  have i: "i < length bs" using Suc.prems(3) by simp
  obtain s1 where r: "sfs_dirent_read_nolock s sin i = Some (Inr (?es ! i), s1, sin)"
    and s1: "fs_ok io dinv blocks s1" "same_disk img s s1"
    by (rule dirent_read_ok [OF Suc.prems(1,2) dir i])
  have i': "i < length ?es" using i by simp
  have rep1: "file_rep img s1 (din sin) bs" using Suc.prems(2) same_disk_rep [OF s1(2)] by simp
  have k: "Suc i + k = length bs" using Suc.prems(3) by simp
  show ?case
  proof (cases "eino (?es ! i) = n")
    case True
    then show ?thesis using r s1 find_drop [OF i', of "\<lambda>e. eino e = n"] by simp
  next
    case False
    then have "dirent_findino (Suc k) i n s sin = dirent_findino k (Suc i) n s1 sin" using r by simp
    moreover have "List.find (\<lambda>e. eino e = n) (drop i ?es) = List.find (\<lambda>e. eino e = n) (drop (Suc i) ?es)"
      using False find_drop [OF i', of "\<lambda>e. eino e = n"] by simp
    ultimately show ?thesis
      using Suc.IH [OF s1(1) rep1 k, unfolded dirents_same [OF s1(2)]]
      by (simp only:) (blast intro: same_disk_trans [OF s1(2)])
  qed
qed

end

end
