(* ===== verification/SfsNodes.thy ===== *)
theory SfsNodes
  imports SfsDir PrintFmt
begin

text \<open>
  The inodes in memory: the reference counts of \<open>lab8/kern/fs/vfs/inode.c\<close>, the operations of
  \<open>inode_ops\<close> (\<open>inode.h\<close>), and their implementation by the simple file system in
  \<open>lab8/kern/fs/sfs/sfs_inode.c\<close>: loading an inode into the cache, finding it there, writing it back
  and reclaiming it when the last reference goes.

  A node is an address. The state holds the one mounted file system, the nodes and the answers of the
  coming calls of \<open>kmalloc\<close>: \<open>Some\<close> an address, \<open>None\<close> for no memory. The locks around the operations
  make each of them one step. Nodes of devices (\<open>stdin\<close>, \<open>stdout\<close>, \<open>disk0\<close>) are not in the model.
\<close>

section \<open>Nodes and their reference counts\<close>

text \<open>\<open>in_ops\<close> points to one of two tables of functions.\<close>

datatype node_ops = sfs_node_dirops | sfs_node_fileops

record inode =
  in_ops :: node_ops
  ref_count :: int
  open_count :: int
  in_info :: sfs_inode

record 'd vfs =
  mounted :: "'d sfs_fs"
  nodes :: "nat \<Rightarrow> inode"
  kmem :: "nat option list"

definition kmem_alloc :: "('d, 'z) vfs_scheme \<Rightarrow> nat option \<times> ('d, 'z) vfs_scheme" where
  "kmem_alloc st = (case kmem st of [] \<Rightarrow> (None, st) | a # as \<Rightarrow> (a, st\<lparr>kmem := as\<rparr>))"

definition upd_node :: "nat \<Rightarrow> (inode \<Rightarrow> inode) \<Rightarrow> ('d, 'z) vfs_scheme \<Rightarrow> ('d, 'z) vfs_scheme" where
  "upd_node n f st = st\<lparr>nodes := (nodes st)(n := f (nodes st n))\<rparr>"

abbreviation node_sin :: "('d, 'z) vfs_scheme \<Rightarrow> nat \<Rightarrow> sfs_inode" where
  "node_sin st n \<equiv> in_info (nodes st n)"

text \<open>An operation of the file system on the \<open>sfs_inode\<close> of a node.\<close>

definition put_sin :: "nat \<Rightarrow> 'd sfs_fs \<Rightarrow> sfs_inode \<Rightarrow> ('d, 'z) vfs_scheme \<Rightarrow> ('d, 'z) vfs_scheme" where
  "put_sin n fs x st = upd_node n (\<lambda>v. v\<lparr>in_info := x\<rparr>) (st\<lparr>mounted := fs\<rparr>)"

definition MAX_INODE_COUNT :: int where "MAX_INODE_COUNT = 0x10000"

definition inode_check :: "nat \<Rightarrow> ('d, 'z) vfs_scheme \<Rightarrow> unit option" where
  "inode_check n st =
     (let r = ref_count (nodes st n); c = open_count (nodes st n) in
      kassert (r \<ge> c \<and> c \<ge> 0 \<and> r < MAX_INODE_COUNT \<and> c < MAX_INODE_COUNT))"

text \<open>\<open>__vop_op\<close>: the table has to have the operation (\<open>has\<close>), and the node is checked.\<close>

definition vop :: "node_ops set \<Rightarrow> nat \<Rightarrow> ('d, 'z) vfs_scheme \<Rightarrow> unit option" where
  "vop has n st = do { kassert (in_ops (nodes st n) \<in> has); inode_check n st }"

definition inode_ref_inc :: "nat \<Rightarrow> ('d, 'z) vfs_scheme \<Rightarrow> int \<times> ('d, 'z) vfs_scheme" where
  "inode_ref_inc n st =
     (ref_count (nodes st n) + 1, upd_node n (\<lambda>v. v\<lparr>ref_count := ref_count v + 1\<rparr>) st)"

definition inode_open_inc :: "nat \<Rightarrow> ('d, 'z) vfs_scheme \<Rightarrow> int \<times> ('d, 'z) vfs_scheme" where
  "inode_open_inc n st =
     (open_count (nodes st n) + 1, upd_node n (\<lambda>v. v\<lparr>open_count := open_count v + 1\<rparr>) st)"

text \<open>\<open>inode_init\<close> takes the first reference. \<open>inode_kill\<close> frees the node.\<close>

definition inode_init :: "nat \<Rightarrow> node_ops \<Rightarrow> ('d, 'z) vfs_scheme \<Rightarrow> ('d, 'z) vfs_scheme" where
  "inode_init n ops st =
     snd (inode_ref_inc n (upd_node n (\<lambda>v. v\<lparr>ref_count := 0, open_count := 0, in_ops := ops\<rparr>) st))"

definition inode_kill :: "nat \<Rightarrow> ('d, 'z) vfs_scheme \<Rightarrow> unit option" where
  "inode_kill n st = kassert (ref_count (nodes st n) = 0 \<and> open_count (nodes st n) = 0)"

section \<open>Files behind nodes\<close>

definition S_IFMT :: u32 where "S_IFMT = 0x7000"
definition S_IFREG :: u32 where "S_IFREG = 0x1000"
definition S_IFDIR :: u32 where "S_IFDIR = 0x2000"
definition S_IFLNK :: u32 where "S_IFLNK = 0x3000"

record stat =
  st_mode :: u32
  st_nlinks :: u64
  st_blocks :: u64
  st_size :: u64

definition sfs_get_ops :: "u16 \<Rightarrow> node_ops option" where
  "sfs_get_ops type =
     (if type = SFS_TYPE_DIR then Some sfs_node_dirops
      else if type = SFS_TYPE_FILE then Some sfs_node_fileops else None)"

definition sfs_fsync :: "nat \<Rightarrow> ('d, 'z) vfs_scheme \<Rightarrow> (int \<times> ('d, 'z) vfs_scheme) option" where
  "sfs_fsync n st =
     (let x = node_sin st n in
      if dirty x then do {
        (r, fs) \<leftarrow> wbuf_obj (mounted st) (din_bytes (din x)) (ino x) 0;
        Some (res_ret r, put_sin n fs (x\<lparr>dirty := res_ret r \<noteq> 0\<rparr>) st)
      } else Some (0, st))"

definition vop_fsync :: "nat \<Rightarrow> ('d, 'z) vfs_scheme \<Rightarrow> (int \<times> ('d, 'z) vfs_scheme) option" where
  "vop_fsync n st = do { vop {sfs_node_dirops, sfs_node_fileops} n st; sfs_fsync n st }"

definition sfs_close :: "nat \<Rightarrow> ('d, 'z) vfs_scheme \<Rightarrow> (int \<times> ('d, 'z) vfs_scheme) option" where
  "sfs_close n st = vop_fsync n st"

definition vop_close :: "nat \<Rightarrow> ('d, 'z) vfs_scheme \<Rightarrow> (int \<times> ('d, 'z) vfs_scheme) option" where
  "vop_close n st = do { vop {sfs_node_dirops, sfs_node_fileops} n st; sfs_close n st }"

definition vop_truncate :: "nat \<Rightarrow> int \<Rightarrow> ('d, 'z) vfs_scheme \<Rightarrow> (int \<times> ('d, 'z) vfs_scheme) option" where
  "vop_truncate n len st = do {
     vop {sfs_node_fileops} n st;
     (r, fs, x) \<leftarrow> sfs_truncfile (mounted st) (node_sin st n) len;
     Some (res_ret r, put_sin n fs x st)
   }"

definition vop_tryseek :: "nat \<Rightarrow> int \<Rightarrow> ('d, 'z) vfs_scheme \<Rightarrow> (int \<times> ('d, 'z) vfs_scheme) option" where
  "vop_tryseek n pos st = do {
     vop {sfs_node_fileops} n st;
     (r, fs, x) \<leftarrow> sfs_tryseek (mounted st) (node_sin st n) pos;
     Some (res_ret r, put_sin n fs x st)
   }"

definition vop_read :: "nat \<Rightarrow> iobuf \<Rightarrow> ('d, 'z) vfs_scheme \<Rightarrow> (int \<times> iobuf \<times> ('d, 'z) vfs_scheme) option" where
  "vop_read n iob st = do {
     vop {sfs_node_fileops} n st;
     (r, iob, fs, x) \<leftarrow> sfs_read (mounted st) (node_sin st n) iob;
     Some (r, iob, put_sin n fs x st)
   }"

definition vop_write :: "nat \<Rightarrow> iobuf \<Rightarrow> ('d, 'z) vfs_scheme \<Rightarrow> (int \<times> iobuf \<times> ('d, 'z) vfs_scheme) option" where
  "vop_write n iob st = do {
     vop {sfs_node_fileops} n st;
     (r, iob, fs, x) \<leftarrow> sfs_write (mounted st) (node_sin st n) iob;
     Some (r, iob, put_sin n fs x st)
   }"

text \<open>\<open>sfs_gettype\<close> panics for any other type; the mode is the one of \<open>libs/stat.h\<close>.\<close>

definition sfs_gettype :: "nat \<Rightarrow> ('d, 'z) vfs_scheme \<Rightarrow> u32 option" where
  "sfs_gettype n st =
     (let t = ftype (din (node_sin st n)) in
      if t = SFS_TYPE_DIR then Some S_IFDIR
      else if t = SFS_TYPE_FILE then Some S_IFREG
      else if t = SFS_TYPE_LINK then Some S_IFLNK else None)"

definition vop_gettype :: "nat \<Rightarrow> ('d, 'z) vfs_scheme \<Rightarrow> u32 option" where
  "vop_gettype n st = do { vop {sfs_node_dirops, sfs_node_fileops} n st; sfs_gettype n st }"

definition sfs_fstat :: "nat \<Rightarrow> ('d, 'z) vfs_scheme \<Rightarrow> stat option" where
  "sfs_fstat n st = do {
     mode \<leftarrow> vop_gettype n st;
     let d = din (node_sin st n);
     Some \<lparr>st_mode = mode, st_nlinks = ucast (nlinks d), st_blocks = ucast (fblocks d), st_size = ucast (fsize d)\<rparr>
   }"

definition vop_fstat :: "nat \<Rightarrow> ('d, 'z) vfs_scheme \<Rightarrow> stat option" where
  "vop_fstat n st = do { vop {sfs_node_dirops, sfs_node_fileops} n st; sfs_fstat n st }"

section \<open>Open flags\<close>

definition O_RDONLY :: u32 where "O_RDONLY = 0"
definition O_WRONLY :: u32 where "O_WRONLY = 1"
definition O_RDWR :: u32 where "O_RDWR = 2"
definition O_CREAT :: u32 where "O_CREAT = 4"
definition O_EXCL :: u32 where "O_EXCL = 8"
definition O_TRUNC :: u32 where "O_TRUNC = 0x10"
definition O_APPEND :: u32 where "O_APPEND = 0x20"
definition O_ACCMODE :: u32 where "O_ACCMODE = 3"

definition sfs_opendir :: "u32 \<Rightarrow> int" where
  "sfs_opendir open_flags =
     (if open_flags AND O_ACCMODE \<noteq> O_RDONLY then - E_ISDIR
      else if open_flags AND O_APPEND \<noteq> 0 then - E_ISDIR else 0)"

definition sfs_openfile :: "u32 \<Rightarrow> int" where
  "sfs_openfile open_flags = 0"

definition vop_open :: "nat \<Rightarrow> u32 \<Rightarrow> ('d, 'z) vfs_scheme \<Rightarrow> int option" where
  "vop_open n open_flags st = do {
     vop {sfs_node_dirops, sfs_node_fileops} n st;
     Some (case in_ops (nodes st n) of
       sfs_node_dirops \<Rightarrow> sfs_opendir open_flags
     | sfs_node_fileops \<Rightarrow> sfs_openfile open_flags)
   }"

section \<open>The cache of inodes\<close>

definition SFS_HLIST_SHIFT :: nat where "SFS_HLIST_SHIFT = 10"

definition sin_hashfn :: "u32 \<Rightarrow> nat" where
  "sin_hashfn i = unat (hash32 i SFS_HLIST_SHIFT)"

definition sfs_set_links :: "nat \<Rightarrow> ('d, 'z) vfs_scheme \<Rightarrow> ('d, 'z) vfs_scheme" where
  "sfs_set_links n st =
     (let fs = mounted st; h = sin_hashfn (ino (node_sin st n)) in
      st\<lparr>mounted := fs\<lparr>inode_list := n # inode_list fs,
                       hash_list := (hash_list fs)(h := n # hash_list fs h)\<rparr>\<rparr>)"

definition sfs_remove_links :: "nat \<Rightarrow> ('d, 'z) vfs_scheme \<Rightarrow> ('d, 'z) vfs_scheme" where
  "sfs_remove_links n st =
     (let fs = mounted st; h = sin_hashfn (ino (node_sin st n)) in
      st\<lparr>mounted := fs\<lparr>inode_list := remove1 n (inode_list fs),
                       hash_list := (hash_list fs)(h := remove1 n (hash_list fs h))\<rparr>\<rparr>)"

text \<open>\<open>vop_reclaim\<close>, called when the last reference to a node is given back.\<close>

definition sfs_reclaim :: "nat \<Rightarrow> ('d, 'z) vfs_scheme \<Rightarrow> (int \<times> ('d, 'z) vfs_scheme) option" where
  "sfs_reclaim n st = do {
     kassert (reclaim_count (node_sin st n) > 0);
     let st = upd_node n (\<lambda>v. v\<lparr>in_info := (in_info v)\<lparr>reclaim_count := reclaim_count (in_info v) - 1\<rparr>\<rparr>) st;
     if reclaim_count (node_sin st n) \<noteq> 0 \<or> ref_count (nodes st n) \<noteq> 0 then Some (- E_BUSY, st)
     else do {
       (ret, st) \<leftarrow> (if nlinks (din (node_sin st n)) = 0 then vop_truncate n 0 st else Some (0, st));
       if ret \<noteq> 0 then Some (ret, st) else do {
         (ret, st) \<leftarrow> (if dirty (node_sin st n) then vop_fsync n st else Some (0, st));
         if ret \<noteq> 0 then Some (ret, st) else do {
           let st = sfs_remove_links n st;
           st \<leftarrow> (if nlinks (din (node_sin st n)) = 0 then do {
             fs \<leftarrow> sfs_block_free (mounted st) (ino (node_sin st n));
             fs \<leftarrow> (if indirect (din (node_sin st n)) \<noteq> 0
                    then sfs_block_free fs (indirect (din (node_sin st n))) else Some fs);
             Some (st\<lparr>mounted := fs\<rparr>) } else Some st);
           inode_kill n st;
           Some (0, st)
         }
       }
     }
   }"

definition vop_reclaim :: "nat \<Rightarrow> ('d, 'z) vfs_scheme \<Rightarrow> (int \<times> ('d, 'z) vfs_scheme) option" where
  "vop_reclaim n st = do { vop {sfs_node_dirops, sfs_node_fileops} n st; sfs_reclaim n st }"

text \<open>A failing \<open>vop_reclaim\<close> or \<open>vop_close\<close> only prints a warning.\<close>

definition inode_ref_dec :: "nat \<Rightarrow> ('d, 'z) vfs_scheme \<Rightarrow> (int \<times> ('d, 'z) vfs_scheme) option" where
  "inode_ref_dec n st = do {
     kassert (ref_count (nodes st n) > 0);
     let c = ref_count (nodes st n) - 1;
     let st = upd_node n (\<lambda>v. v\<lparr>ref_count := c\<rparr>) st;
     st \<leftarrow> (if c = 0 then map_option snd (vop_reclaim n st) else Some st);
     Some (c, st)
   }"

definition inode_open_dec :: "nat \<Rightarrow> ('d, 'z) vfs_scheme \<Rightarrow> (int \<times> ('d, 'z) vfs_scheme) option" where
  "inode_open_dec n st = do {
     kassert (open_count (nodes st n) > 0);
     let c = open_count (nodes st n) - 1;
     let st = upd_node n (\<lambda>v. v\<lparr>open_count := c\<rparr>) st;
     st \<leftarrow> (if c = 0 then map_option snd (vop_close n st) else Some st);
     Some (c, st)
   }"

text \<open>Finding a node by its inode number, with a reference taken.\<close>

definition lookup_sfs_nolock :: "u32 \<Rightarrow> ('d, 'z) vfs_scheme \<Rightarrow> nat option \<times> ('d, 'z) vfs_scheme" where
  "lookup_sfs_nolock i st =
     (case List.find (\<lambda>n. ino (node_sin st n) = i) (hash_list (mounted st) (sin_hashfn i)) of
        None \<Rightarrow> (None, st)
      | Some n \<Rightarrow>
          let (c, st) = inode_ref_inc n st in
          (Some n, if c = 1 then upd_node n (\<lambda>v. v\<lparr>in_info :=
             (in_info v)\<lparr>reclaim_count := reclaim_count (in_info v) + 1\<rparr>\<rparr>) st else st))"

definition sfs_create_inode ::
  "sfs_disk_inode \<Rightarrow> u32 \<Rightarrow> ('d, 'z) vfs_scheme \<Rightarrow> (nat res \<times> ('d, 'z) vfs_scheme) option" where
  "sfs_create_inode d i st =
     (case kmem_alloc st of
        (None, st) \<Rightarrow> Some (Inl (- E_NO_MEM), st)
      | (Some n, st) \<Rightarrow> do {
          ops \<leftarrow> sfs_get_ops (ftype d);
          let st = inode_init n ops st;
          Some (Inr n, upd_node n (\<lambda>v. v\<lparr>in_info := \<lparr>din = d, ino = i, dirty = False, reclaim_count = 1\<rparr>\<rparr>) st)
        })"

definition sfs_load_inode :: "u32 \<Rightarrow> ('d, 'z) vfs_scheme \<Rightarrow> (nat res \<times> ('d, 'z) vfs_scheme) option" where
  "sfs_load_inode i st =
     (case lookup_sfs_nolock i st of
        (Some n, st) \<Rightarrow> Some (Inr n, st)
      | (None, st) \<Rightarrow>
          (case kmem_alloc st of
             (None, st) \<Rightarrow> Some (Inl (- E_NO_MEM), st)
           | (Some _, st) \<Rightarrow> do {
               assert_inuse (mounted st) i;
               (r, fs) \<leftarrow> rbuf_obj (mounted st) (replicate sizeof_din 0) i 0;
               on_ok (Some (r, st\<lparr>mounted := fs\<rparr>)) (\<lambda>obj st. do {
                 kassert (nlinks (din_of obj) \<noteq> 0);
                 on_ok (sfs_create_inode (din_of obj) i st) (\<lambda>n st. Some (Inr n, sfs_set_links n st))
               })
             }))"

text \<open>\<open>sfs_lookup_once\<close> with \<open>slot\<close> the null pointer, as every caller has it.\<close>

definition sfs_lookup_once ::
  "nat \<Rightarrow> u8 list \<Rightarrow> ('d, 'z) vfs_scheme \<Rightarrow> (nat res \<times> ('d, 'z) vfs_scheme) option" where
  "sfs_lookup_once n name st =
     (let (mem, st) = kmem_alloc st in do {
        (r, _, fs, x) \<leftarrow> sfs_dirent_search_nolock (mem \<noteq> None) (mounted st) (node_sin st n) name;
        on_ok (Some (r, put_sin n fs x st)) (\<lambda>(i, _) st. sfs_load_inode i st)
      })"

definition SLASH :: u8 where "SLASH = 47"
definition COLON :: u8 where "COLON = 58"

definition sfs_lookup :: "nat \<Rightarrow> u8 list \<Rightarrow> ('d, 'z) vfs_scheme \<Rightarrow> (nat res \<times> ('d, 'z) vfs_scheme) option" where
  "sfs_lookup n path st = do {
     kassert (path \<noteq> [] \<and> hd path \<noteq> SLASH);
     let st = snd (inode_ref_inc n st);
     if ftype (din (node_sin st n)) \<noteq> SFS_TYPE_DIR then do {
       (_, st) \<leftarrow> inode_ref_dec n st;
       Some (Inl (- E_NOTDIR), st)
     } else do {
       (r, st) \<leftarrow> sfs_lookup_once n path st;
       (_, st) \<leftarrow> inode_ref_dec n st;
       Some (r, st)
     }
   }"

definition vop_lookup :: "nat \<Rightarrow> u8 list \<Rightarrow> ('d, 'z) vfs_scheme \<Rightarrow> (nat res \<times> ('d, 'z) vfs_scheme) option" where
  "vop_lookup n path st = do { vop {sfs_node_dirops} n st; sfs_lookup n path st }"

text \<open>No table of the simple file system has \<open>vop_create\<close>.\<close>

definition vop_create :: "nat \<Rightarrow> u8 list \<Rightarrow> bool \<Rightarrow> ('d, 'z) vfs_scheme \<Rightarrow> (nat res \<times> ('d, 'z) vfs_scheme) option" where
  "vop_create n name excl st = do { vop {} n st; Some (Inl 0, st) }"

text \<open>\<open>sfs_get_root\<close>; a failing load panics.\<close>

definition sfs_get_root :: "('d, 'z) vfs_scheme \<Rightarrow> (nat \<times> ('d, 'z) vfs_scheme) option" where
  "sfs_get_root st = do {
     (r, st) \<leftarrow> sfs_load_inode SFS_BLKN_ROOT st;
     (case r of Inl _ \<Rightarrow> None | Inr n \<Rightarrow> Some (n, st))
   }"

text \<open>
  \<open>sfs_getdirentry\<close>: the offset of the I/O buffer counts names of 256 bytes. The slot is an \<open>int\<close>, of
  which the comparison with the number of blocks looks at the 32 bits.
\<close>

definition sfs_getdirentry :: "nat \<Rightarrow> iobuf \<Rightarrow> ('d, 'z) vfs_scheme \<Rightarrow> (int \<times> iobuf \<times> ('d, 'z) vfs_scheme) option" where
  "sfs_getdirentry n iob st =
     (case kmem_alloc st of
        (None, st) \<Rightarrow> Some (- E_NO_MEM, iob, st)
      | (Some _, st) \<Rightarrow>
          if io_offset iob < 0 \<or> io_offset iob mod int sfs_dentry_size \<noteq> 0 then Some (- E_INVAL, iob, st)
          else
            let k = (word_of_int (io_offset iob div int sfs_dentry_size) :: u32) in
            if k > fblocks (din (node_sin st n)) then Some (- E_NOENT, iob, st)
            else do {
              (r, fs, x) \<leftarrow> sfs_getdirentry_sub_nolock (mounted st) (node_sin st n) (unat k);
              let st = put_sin n fs x st;
              (case r of
                 Inl e \<Rightarrow> Some (e, iob, st)
               | Inr entry \<Rightarrow> do {
                   (ret, _, iob, _) \<leftarrow> iobuf_move iob (ename entry) sfs_dentry_size True;
                   Some (ret, iob, st) })
            })"

definition vop_getdirentry :: "nat \<Rightarrow> iobuf \<Rightarrow> ('d, 'z) vfs_scheme \<Rightarrow> (int \<times> iobuf \<times> ('d, 'z) vfs_scheme) option" where
  "vop_getdirentry n iob st = do { vop {sfs_node_dirops} n st; sfs_getdirentry n iob st }"

end
