(* ===== verification/NodeInv.thy ===== *)
theory NodeInv
  imports SfsNodes
begin

text \<open>
  What the cache of inodes stands for: a map from inode numbers to files, each either the entries of a
  directory or the bytes of a regular file. A node in memory may be ahead of its inode on the disk;
  every file owns its blocks alone; every entry of a directory names a file. \<open>fs_rep\<close> relates a state to
  this map, and each operation on nodes is proved to implement its effect on the map.
\<close>

section \<open>The invariant\<close>

type_synonym files = "u32 \<Rightarrow> (sfs_disk_inode \<times> u32 list) option"

definition claims :: "u32 \<Rightarrow> sfs_disk_inode \<times> u32 list \<Rightarrow> u32 set" where
  "claims i f = insert i (owned (fst f) (snd f))"

definition file_wf :: "('d \<Rightarrow> u8 list) \<Rightarrow> 'd sfs_fs \<Rightarrow> u32 \<Rightarrow> sfs_disk_inode \<times> u32 list \<Rightarrow> bool" where
  "file_wf img s i f \<longleftrightarrow> used s i \<and> file_rep img s (fst f) (snd f) \<and> i \<notin> owned (fst f) (snd f) \<and>
     nlinks (fst f) \<noteq> 0 \<and>
     (ftype (fst f) = SFS_TYPE_DIR \<or> ftype (fst f) = SFS_TYPE_FILE \<and> file_ok img s (fst f) (snd f))"

definition files_ok :: "('d \<Rightarrow> u8 list) \<Rightarrow> 'd sfs_fs \<Rightarrow> files \<Rightarrow> bool" where
  "files_ok img s F \<longleftrightarrow>
     (\<forall>i f. F i = Some f \<longrightarrow> file_wf img s i f) \<and>
     (\<forall>i j f g. F i = Some f \<longrightarrow> F j = Some g \<longrightarrow> i \<noteq> j \<longrightarrow> claims i f \<inter> claims j g = {}) \<and>
     (\<forall>i f. F i = Some f \<longrightarrow> ftype (fst f) = SFS_TYPE_DIR \<longrightarrow>
        (\<forall>e \<in> set (dirents img s (snd f)). eino e \<noteq> 0 \<longrightarrow> F (eino e) \<noteq> None))"

definition loaded :: "('d, 'z) vfs_scheme \<Rightarrow> nat set" where
  "loaded st = set (inode_list (mounted st))"

definition node_ok :: "files \<Rightarrow> inode \<Rightarrow> bool" where
  "node_ok F v \<longleftrightarrow> (\<exists>bs. F (ino (in_info v)) = Some (din (in_info v), bs)) \<and>
     sfs_get_ops (ftype (din (in_info v))) = Some (in_ops v)"

definition cache_ok :: "files \<Rightarrow> ('d, 'z) vfs_scheme \<Rightarrow> bool" where
  "cache_ok F st \<longleftrightarrow> distinct (inode_list (mounted st)) \<and>
     (\<forall>m n. m \<in> loaded st \<longrightarrow> n \<in> loaded st \<longrightarrow> ino (node_sin st m) = ino (node_sin st n) \<longrightarrow> m = n) \<and>
     (\<forall>n \<in> loaded st. node_ok F (nodes st n)) \<and>
     (\<forall>h. distinct (hash_list (mounted st) h) \<and>
        set (hash_list (mounted st) h) = {n \<in> loaded st. sin_hashfn (ino (node_sin st n)) = h})"

definition clean_ok :: "('d \<Rightarrow> u8 list) \<Rightarrow> files \<Rightarrow> ('d, 'z) vfs_scheme \<Rightarrow> bool" where
  "clean_ok img F st \<longleftrightarrow> (\<forall>i f. F i = Some f \<longrightarrow>
     (\<forall>n \<in> loaded st. ino (node_sin st n) = i \<longrightarrow> \<not> dirty (node_sin st n)) \<longrightarrow>
     din_of (view img (mounted st) (unat i)) = fst f)"

definition counts_ok :: "('d, 'z) vfs_scheme \<Rightarrow> bool" where
  "counts_ok st \<longleftrightarrow> (\<forall>n \<in> loaded st. 0 < ref_count (nodes st n) \<and> 0 \<le> open_count (nodes st n) \<and>
     open_count (nodes st n) \<le> ref_count (nodes st n) \<and> reclaim_count (node_sin st n) = 1)"

section \<open>Files as values\<close>

text \<open>A directory's entries or a regular file's bytes.\<close>

type_synonym fdata = "sfs_disk_entry list + u8 list"

definition fdata_of :: "('d \<Rightarrow> u8 list) \<Rightarrow> 'd sfs_fs \<Rightarrow> sfs_disk_inode \<times> u32 list \<Rightarrow> fdata" where
  "fdata_of img s f = (if ftype (fst f) = SFS_TYPE_DIR then Inl (dirents img s (snd f))
     else Inr (file_bytes img s (fst f) (snd f)))"

definition fs_data :: "('d \<Rightarrow> u8 list) \<Rightarrow> 'd sfs_fs \<Rightarrow> files \<Rightarrow> u32 \<Rightarrow> fdata option" where
  "fs_data img s F i = map_option (fdata_of img s) (F i)"

text \<open>What the operations on files leave alone: which nodes are loaded, their numbers and counts.\<close>

definition node_key :: "inode \<Rightarrow> node_ops \<times> int \<times> int \<times> u32 \<times> int" where
  "node_key v = (in_ops v, ref_count v, open_count v, ino (in_info v), reclaim_count (in_info v))"

definition same_cache :: "('d, 'z) vfs_scheme \<Rightarrow> ('d, 'z) vfs_scheme \<Rightarrow> bool" where
  "same_cache st st' \<longleftrightarrow> inode_list (mounted st') = inode_list (mounted st) \<and>
     (\<forall>m. node_key (nodes st' m) = node_key (nodes st m)) \<and> kmem st' = kmem st \<and>
     vfs.more st' = vfs.more st"

lemma same_cache_refl [simp]: "same_cache st st"
  by (simp add: same_cache_def)

lemma same_cache_trans: "same_cache st st1 \<Longrightarrow> same_cache st1 st2 \<Longrightarrow> same_cache st st2"
  by (simp add: same_cache_def)

lemma same_cacheD:
  assumes "same_cache st st'"
  shows "loaded st' = loaded st" "in_ops (nodes st' m) = in_ops (nodes st m)"
    "ref_count (nodes st' m) = ref_count (nodes st m)" "open_count (nodes st' m) = open_count (nodes st m)"
    "ino (node_sin st' m) = ino (node_sin st m)" "reclaim_count (node_sin st' m) = reclaim_count (node_sin st m)" "kmem st' = kmem st" "vfs.more st' = vfs.more st"
  using assms by (simp_all add: same_cache_def node_key_def loaded_def)

lemma upd_node_simps [simp]:
  "mounted (upd_node n f st) = mounted st" "kmem (upd_node n f st) = kmem st"
  "vfs.more (upd_node n f st) = vfs.more st" "nodes (upd_node n f st) = (nodes st)(n := f (nodes st n))"
  "loaded (upd_node n f st) = loaded st"
  by (simp_all add: upd_node_def loaded_def)

lemma put_sin_simps [simp]:
  "mounted (put_sin n fs x st) = fs" "kmem (put_sin n fs x st) = kmem st"
  "vfs.more (put_sin n fs x st) = vfs.more st"
  "nodes (put_sin n fs x st) = (nodes st)(n := (nodes st n)\<lparr>in_info := x\<rparr>)"
  by (simp_all add: put_sin_def)

lemma loaded_mounted: "inode_list fs = inode_list (mounted st) \<Longrightarrow> loaded (st\<lparr>mounted := fs\<rparr>) = loaded st"
  by (simp add: loaded_def)

lemma same_cache_put_sin:
  assumes "fs_frame (mounted st) fs" and "ino x = ino (node_sin st n)"
    and "reclaim_count x = reclaim_count (node_sin st n)"
  shows "same_cache st (put_sin n fs x st)" "loaded (put_sin n fs x st) = loaded st"
  using assms by (simp_all add: same_cache_def fs_frame_def node_key_def loaded_def)

section \<open>Steps that change one file\<close>

text \<open>
  Only blocks that the file \<open>i\<close> owns, its inode block and free blocks change. \<open>f\<close> is the file before
  and \<open>f'\<close> after the step.
\<close>

definition only_file ::
  "('d \<Rightarrow> u8 list) \<Rightarrow> u32 \<Rightarrow> sfs_disk_inode \<times> u32 list \<Rightarrow> 'd sfs_fs \<Rightarrow> 'd sfs_fs \<Rightarrow> bool" where
  "only_file img i f s s' \<longleftrightarrow> fs_frame s s' \<and> fs_free s' \<subseteq> unat ` claims i f \<union> fs_free s \<and>
     (\<forall>c. c \<notin> unat ` claims i f \<union> fs_free s \<longrightarrow> view img s' c = view img s c)"

lemma other_block:
  assumes F: "files_ok img s F" "F i = Some f" "F j = Some g" "i \<noteq> j" and b: "b \<in> claims j g"
  shows "unat b \<notin> unat ` claims i f \<union> fs_free s"
proof -
  have "file_wf img s j g" using F unfolding files_ok_def by blast
  then have "used s b" using b file_rep_used unfolding file_wf_def claims_def by blast
  then have "unat b \<notin> fs_free s" by (simp add: used_def)
  moreover have "b \<notin> claims i f" using F b unfolding files_ok_def by blast
  ultimately show ?thesis by (simp add: inj_image_mem_iff [OF unat_u32_inj])
qed

lemma other_file:
  assumes F: "files_ok img s F" "F i = Some f" "F j = Some g" "i \<noteq> j" and o: "only_file img i f s s'"
  shows "file_wf img s' j g" and "fdata_of img s' g = fdata_of img s g"
    and "view img s' (unat j) = view img s (unat j)"
    and "dirents img s' (snd g) = dirents img s (snd g)"
proof -
  have out: "unat b \<notin> unat ` claims i f \<union> fs_free s" if "b \<in> claims j g" for b
    by (rule other_block [OF F that])
  have v: "view img s' (unat b) = view img s (unat b)" if "b \<in> claims j g" for b
    using out [OF that] o by (simp add: only_file_def)
  have wf: "file_wf img s j g" using F unfolding files_ok_def by blast
  have fr: "fs_frame s s'" using o by (simp add: only_file_def)
  have nf: "unat b \<notin> fs_free s'" if "b \<in> claims j g" for b
    using out [OF that] o by (auto simp: only_file_def)
  have cl: "b \<in> claims j g" if "b \<in> owned (fst g) (snd g)" for b using that by (simp add: claims_def)
  have rep: "file_rep img s' (fst g) (snd g)"
  proof (rule file_rep_cong [OF _ fr])
    show "file_rep img s (fst g) (snd g)" using wf by (simp add: file_wf_def)
    show "unat b \<notin> fs_free s'" if "b \<in> owned (fst g) (snd g)" for b using nf cl that by blast
    assume "indirect (fst g) \<noteq> 0"
    then show "view img s' (unat (indirect (fst g))) = view img s (unat (indirect (fst g)))"
      by (intro v cl) (simp add: owned_def)
  qed
  have "used s' j" using wf nf [of j] fr by (simp add: file_wf_def used_def fs_frame_def claims_def)
  then show "file_wf img s' j g" using wf rep by (auto simp: file_wf_def file_ok_def)
  show "view img s' (unat j) = view img s (unat j)" by (rule v) (simp add: claims_def)
  have c: "content img s' (snd g) = content img s (snd g)"
    using v cl by (auto simp: content_def owned_def intro!: arg_cong [where f = concat])
  show d: "dirents img s' (snd g) = dirents img s (snd g)"
    using v cl by (auto simp: dirents_def owned_def)
  show "fdata_of img s' g = fdata_of img s g" using c d by (simp add: fdata_of_def file_bytes_def)
qed

lemma files_ok_step:
  assumes F: "files_ok img s F" "F i = Some f" and o: "only_file img i f s s'"
    and wf: "file_wf img s' i f'" and own: "unat ` claims i f' \<subseteq> unat ` claims i f \<union> fs_free s"
    and ty: "ftype (fst f') = ftype (fst f)"
    and dir: "ftype (fst f) = SFS_TYPE_DIR \<Longrightarrow> dirents img s' (snd f') = dirents img s (snd f)"
  shows "files_ok img s' (F(i \<mapsto> f'))"
    and "fs_data img s' (F(i \<mapsto> f')) = (fs_data img s F)(i \<mapsto> fdata_of img s' f')"
proof -
  have dis: "claims i f' \<inter> claims j g = {}" if "F j = Some g" "i \<noteq> j" for j g
  proof -
    have "b \<notin> claims i f'" if b: "b \<in> claims j g" for b
      using other_block [OF F \<open>F j = Some g\<close> \<open>i \<noteq> j\<close> b] own by blast
    then show ?thesis by blast
  qed
  have ent: "F (eino e) \<noteq> None"
    if "F j = Some g" "ftype (fst g) = SFS_TYPE_DIR" "e \<in> set (dirents img s (snd g))" "eino e \<noteq> 0" for j g e
    using F(1) that unfolding files_ok_def by blast
  show "files_ok img s' (F(i \<mapsto> f'))"
    unfolding files_ok_def
  proof (intro conjI allI impI ballI)
    fix j g assume g: "(F(i \<mapsto> f')) j = Some g"
    show "file_wf img s' j g" using g wf other_file(1) [OF F _ _ o] by (auto split: if_splits)
    show "(F(i \<mapsto> f')) (eino e) \<noteq> None"
      if d: "ftype (fst g) = SFS_TYPE_DIR" and e: "e \<in> set (dirents img s' (snd g))" "eino e \<noteq> 0" for e
    proof (cases "j = i")
      case True
      then have "g = f'" using g by simp
      then show ?thesis using dir ty d e ent [OF F(2), of e] by auto
    next
      case False
      then have "F j = Some g" using g by simp
      then show ?thesis using ent [of j g e] d e other_file(4) [OF F _ _ o, of j g] False by auto
    qed
  next
    fix j k g h assume "(F(i \<mapsto> f')) j = Some g" "(F(i \<mapsto> f')) k = Some h" "j \<noteq> k"
    moreover have "claims j g \<inter> claims k h = {}" if "F j = Some g" "F k = Some h" "j \<noteq> k"
      using F(1) that unfolding files_ok_def by blast
    moreover have "claims k h \<inter> claims i f' = {}" if "F k = Some h" "i \<noteq> k" for k h
      using dis [OF that] by (simp add: Int_commute)
    ultimately show "claims j g \<inter> claims k h = {}"
      using dis [of k h] by (cases "j = i"; cases "k = i") simp_all
  qed
  show "fs_data img s' (F(i \<mapsto> f')) = (fs_data img s F)(i \<mapsto> fdata_of img s' f')"
  proof (rule ext)
    fix j
    show "fs_data img s' (F(i \<mapsto> f')) j = ((fs_data img s F)(i \<mapsto> fdata_of img s' f')) j"
      using other_file(2) [OF F _ _ o, of j] by (cases "F j") (auto simp: fs_data_def)
  qed
qed

text \<open>A state whose blocks are the same holds the same files.\<close>

definition same_blocks :: "'d sfs_fs \<Rightarrow> 'd sfs_fs \<Rightarrow> bool" where
  "same_blocks s s' \<longleftrightarrow> super s' = super s \<and> freemap s' = freemap s \<and> dstate s' = dstate s"

lemma same_blocks_facts:
  assumes "same_blocks s s'"
  shows "used s' = used s" "fs_free s' = fs_free s" "view img s' = view img s"
    "file_rep img s' = file_rep img s" "files_ok img s' F = files_ok img s F"
    "fs_data img s' F = fs_data img s F"
proof -
  show free: "fs_free s' = fs_free s" using assms by (simp add: same_blocks_def fs_free_def)
  show u: "used s' = used s" using assms free by (simp add: fun_eq_iff used_def same_blocks_def)
  show v: "view img s' = view img s" using assms by (simp add: fun_eq_iff view_def same_blocks_def)
  show r: "file_rep img s' = file_rep img s"
    by (simp add: fun_eq_iff file_rep_def entries_def u v)
  have d: "dirents img s' bs = dirents img s bs" "content img s' bs = content img s bs" for bs
    by (simp_all add: dirents_def content_def v)
  show "files_ok img s' F = files_ok img s F"
    by (simp add: files_ok_def file_wf_def file_ok_def r u d)
  have e: "fdata_of img s' = fdata_of img s" by (intro ext) (simp add: fdata_of_def file_bytes_def d)
  show "fs_data img s' F = fs_data img s F" by (intro ext) (simp only: fs_data_def e)
qed

lemma file_wf_same: "same_disk img s s' \<Longrightarrow> file_wf img s' i f = file_wf img s i f"
  by (simp add: file_wf_def file_ok_def same_disk_rep same_disk_used)

lemma files_ok_same:
  assumes "same_disk img s s'"
  shows "files_ok img s' F = files_ok img s F" and "fs_data img s' F = fs_data img s F"
proof -
  show "files_ok img s' F = files_ok img s F"
    by (simp add: files_ok_def file_wf_same [OF assms] dirents_same [OF assms])
  have "content img s' bs = content img s bs" for bs using assms by (simp add: content_def same_disk_def)
  then have e: "fdata_of img s' f = fdata_of img s f" for f
    by (simp add: fdata_of_def file_bytes_def dirents_same [OF assms])
  have "fdata_of img s' = fdata_of img s" by (rule ext) (rule e)
  then show "fs_data img s' F = fs_data img s F" by (intro ext) (simp only: fs_data_def)
qed

section \<open>The state of the file system\<close>

definition vfs_inv ::
  "(iobuf \<Rightarrow> bool \<Rightarrow> 'd \<Rightarrow> (int \<times> iobuf \<times> 'd) option) \<Rightarrow> ('d \<Rightarrow> bool) \<Rightarrow> nat \<Rightarrow> ('d \<Rightarrow> u8 list) \<Rightarrow>
    files \<Rightarrow> ('d, 'z) vfs_scheme \<Rightarrow> bool" where
  "vfs_inv io dinv nb img F st \<longleftrightarrow> fs_ok io dinv nb (mounted st) \<and> files_ok img (mounted st) F \<and>
     cache_ok F st \<and> clean_ok img F st"

text \<open>\<open>A\<close> gives the directory entries or the bytes behind every inode number.\<close>

definition fs_rep ::
  "(iobuf \<Rightarrow> bool \<Rightarrow> 'd \<Rightarrow> (int \<times> iobuf \<times> 'd) option) \<Rightarrow> ('d \<Rightarrow> bool) \<Rightarrow> nat \<Rightarrow> ('d \<Rightarrow> u8 list) \<Rightarrow>
    (u32 \<Rightarrow> fdata option) \<Rightarrow> ('d, 'z) vfs_scheme \<Rightarrow> bool" where
  "fs_rep io dinv nb img A st \<longleftrightarrow> (\<exists>F. vfs_inv io dinv nb img F st \<and> fs_data img (mounted st) F = A)"

lemma files_okD: "files_ok img s F \<Longrightarrow> F i = Some f \<Longrightarrow> file_wf img s i f"
  unfolding files_ok_def by blast

lemma clean_unloaded:
  "clean_ok img F st \<Longrightarrow> F i = Some f \<Longrightarrow> \<forall>n \<in> loaded st. ino (node_sin st n) \<noteq> i \<Longrightarrow>
    din_of (view img (mounted st) (unat i)) = fst f"
  unfolding clean_ok_def by blast

lemma cache_okD:
  assumes "cache_ok F st" and "n \<in> loaded st"
  obtains bs where "F (ino (node_sin st n)) = Some (din (node_sin st n), bs)"
    and "sfs_get_ops (ftype (din (node_sin st n))) = Some (in_ops (nodes st n))"
  using assms by (auto simp: cache_ok_def node_ok_def)

lemma cache_ok_inj:
  "cache_ok F st \<Longrightarrow> m \<in> loaded st \<Longrightarrow> n \<in> loaded st \<Longrightarrow> ino (node_sin st m) = ino (node_sin st n) \<Longrightarrow> m = n"
  unfolding cache_ok_def by blast

text \<open>A step that keeps the cache and every inode number keeps its structure.\<close>

lemma cache_ok_step:
  assumes c: "cache_ok F st" and hash: "hash_list (mounted st') = hash_list (mounted st)"
    and same: "inode_list (mounted st') = inode_list (mounted st)" "\<And>m. ino (node_sin st' m) = ino (node_sin st m)"
    and ok: "\<And>m. m \<in> loaded st \<Longrightarrow> node_ok F' (nodes st' m)"
  shows "cache_ok F' st'"
proof -
  have l: "loaded st' = loaded st" using same(1) by (simp add: loaded_def)
  show ?thesis using c ok unfolding cache_ok_def l same hash by blast
qed

text \<open>Changes to the counts alone.\<close>

definition counts_only :: "('d, 'z) vfs_scheme \<Rightarrow> ('d, 'z) vfs_scheme \<Rightarrow> bool" where
  "counts_only st st' \<longleftrightarrow> mounted st' = mounted st \<and>
     (\<forall>m. in_ops (nodes st' m) = in_ops (nodes st m) \<and> din (node_sin st' m) = din (node_sin st m) \<and>
        ino (node_sin st' m) = ino (node_sin st m) \<and> dirty (node_sin st' m) = dirty (node_sin st m))"

lemma vfs_inv_counts:
  assumes "counts_only st st'"
  shows "vfs_inv io dinv nb img F st' = vfs_inv io dinv nb img F st"
proof -
  have m: "mounted st' = mounted st" and n: "\<And>m. in_ops (nodes st' m) = in_ops (nodes st m)"
    "\<And>m. din (node_sin st' m) = din (node_sin st m)" "\<And>m. ino (node_sin st' m) = ino (node_sin st m)"
    "\<And>m. dirty (node_sin st' m) = dirty (node_sin st m)" using assms by (simp_all add: counts_only_def)
  have l: "loaded st' = loaded st" by (simp add: loaded_def m)
  show ?thesis unfolding vfs_inv_def cache_ok_def clean_ok_def node_ok_def m n l by blast
qed

lemma fs_rep_counts: "counts_only st st' \<Longrightarrow> fs_rep io dinv nb img A st' = fs_rep io dinv nb img A st"
  unfolding fs_rep_def using vfs_inv_counts [of st st'] by (auto simp: counts_only_def)

lemma get_ops_simps:
  "sfs_get_ops t = Some sfs_node_dirops \<longleftrightarrow> t = SFS_TYPE_DIR"
  "sfs_get_ops t = Some sfs_node_fileops \<longleftrightarrow> t = SFS_TYPE_FILE"
  by (auto simp: sfs_get_ops_def SFS_TYPE_DIR_def SFS_TYPE_FILE_def)

lemma vop_iff [simp]: "(vop has n st = Some u) = (in_ops (nodes st n) \<in> has \<and> inode_check n st = Some u)"
  by (simp add: vop_def)

lemma vop_all: "vop {sfs_node_dirops, sfs_node_fileops} n st = inode_check n st"
proof -
  have "in_ops (nodes st n) \<in> {sfs_node_dirops, sfs_node_fileops}" by (cases "in_ops (nodes st n)") auto
  then show ?thesis by (simp add: vop_def)
qed

text \<open>A node that may be used: its counts pass \<open>inode_check\<close>.\<close>

lemma inode_check_ok:
  "open_count (nodes st n) \<le> ref_count (nodes st n) \<Longrightarrow> 0 \<le> open_count (nodes st n) \<Longrightarrow>
    ref_count (nodes st n) < MAX_INODE_COUNT \<Longrightarrow> inode_check n st = Some ()"
  by (simp add: inode_check_def Let_def)

context block_device
begin

lemma vfs_inv_same:
  assumes inv: "vfs_inv io dinv blocks img F st" and s: "fs_ok io dinv blocks fs" "same_disk img (mounted st) fs"
  shows "vfs_inv io dinv blocks img F (st\<lparr>mounted := fs\<rparr>)"
    and "fs_data img fs F = fs_data img (mounted st) F"
proof -
  have fr: "inode_list fs = inode_list (mounted st)" "hash_list fs = hash_list (mounted st)"
    "view img fs = view img (mounted st)" using s(2) by (simp_all add: same_disk_def fs_frame_def)
  have l: "loaded (st\<lparr>mounted := fs\<rparr>) = loaded st" by (simp add: loaded_def fr)
  have "cache_ok F (st\<lparr>mounted := fs\<rparr>)"
    by (rule cache_ok_step [of F st]) (use inv fr in \<open>auto simp: vfs_inv_def cache_ok_def\<close>)
  moreover have "clean_ok img F (st\<lparr>mounted := fs\<rparr>)"
    using inv unfolding vfs_inv_def clean_ok_def l by (simp add: fr)
  ultimately show "vfs_inv io dinv blocks img F (st\<lparr>mounted := fs\<rparr>)"
    using inv s files_ok_same(1) [OF s(2)] by (simp add: vfs_inv_def)
  show "fs_data img fs F = fs_data img (mounted st) F" by (rule files_ok_same(2) [OF s(2)])
qed

text \<open>A step on the file of one node: \<open>x\<close> and \<open>fs\<close> are what the operation returns.\<close>

lemma vfs_inv_step:
  assumes inv: "vfs_inv io dinv blocks img F st" and n: "n \<in> loaded st"
    and f: "F (ino (node_sin st n)) = Some (din (node_sin st n), bs)"
    and fs: "fs_ok io dinv blocks fs" and o: "only_file img (ino (node_sin st n)) (din (node_sin st n), bs) (mounted st) fs"
    and x: "ino x = ino (node_sin st n)" "reclaim_count x = reclaim_count (node_sin st n)"
      "ftype (din x) = ftype (din (node_sin st n))"
    and wf: "file_wf img fs (ino x) (din x, bs')"
    and own: "unat ` claims (ino x) (din x, bs') \<subseteq> unat ` claims (ino x) (din (node_sin st n), bs) \<union> fs_free (mounted st)"
    and dir: "ftype (din x) = SFS_TYPE_DIR \<Longrightarrow> dirents img fs bs' = dirents img (mounted st) bs"
    and clean: "dirty x \<or> din_of (view img fs (unat (ino x))) = din x"
  shows "vfs_inv io dinv blocks img (F(ino x \<mapsto> (din x, bs'))) (put_sin n fs x st)"
    and "fs_data img fs (F(ino x \<mapsto> (din x, bs'))) =
      (fs_data img (mounted st) F)(ino x \<mapsto> fdata_of img fs (din x, bs'))"
    and "same_cache st (put_sin n fs x st)"
proof -
  let ?i = "ino (node_sin st n)" and ?st = "put_sin n fs x st" and ?F = "F(ino x \<mapsto> (din x, bs'))"
  have Fok: "files_ok img (mounted st) F" and c: "cache_ok F st" and cl: "clean_ok img F st"
    using inv by (simp_all add: vfs_inv_def)
  have fr: "fs_frame (mounted st) fs" using o by (simp add: only_file_def)
  note step = files_ok_step [OF Fok f o wf [unfolded x(1)] own [unfolded x(1)]]
  have F': "files_ok img fs ?F"
    and d': "fs_data img fs ?F = (fs_data img (mounted st) F)(ino x \<mapsto> fdata_of img fs (din x, bs'))"
    using step x dir by simp_all
  show "same_cache st ?st" by (rule same_cache_put_sin(1)) (use fr x in auto)
  have l: "loaded ?st = loaded st" by (rule same_cache_put_sin(2)) (use fr x in auto)
  have other: "ino (node_sin st m) \<noteq> ?i" if "m \<in> loaded st" "m \<noteq> n" for m
    using cache_ok_inj [OF c that(1) n] that(2) by blast
  have "cache_ok ?F ?st"
  proof (rule cache_ok_step [OF c])
    fix m assume m: "m \<in> loaded st"
    show "node_ok ?F (nodes ?st m)"
    proof (cases "m = n")
      case True
      have "node_ok F (nodes st n)" using c n by (simp add: cache_ok_def)
      then show ?thesis using True x by (simp add: node_ok_def)
    next
      case False
      have "node_ok F (nodes st m)" using c m by (simp add: cache_ok_def)
      then show ?thesis using False other [OF m False] x(1) by (simp add: node_ok_def)
    qed
  qed (use fr x(1) in \<open>auto simp: fs_frame_def\<close>)
  moreover have "clean_ok img ?F ?st"
    unfolding clean_ok_def l
  proof (intro allI impI)
    fix j g assume g: "?F j = Some g"
      and nd: "\<forall>m \<in> loaded st. ino (node_sin ?st m) = j \<longrightarrow> \<not> dirty (node_sin ?st m)"
    show "din_of (view img (mounted ?st) (unat j)) = fst g"
    proof (cases "j = ?i")
      case True
      then have "\<not> dirty x" using nd n x(1) by auto
      then show ?thesis using clean g True x(1) by auto
    next
      case False
      then have g': "F j = Some g" using g x(1) by simp
      have "\<forall>m \<in> loaded st. ino (node_sin st m) = j \<longrightarrow> \<not> dirty (node_sin st m)"
        using nd False by (auto split: if_splits)
      then have "din_of (view img (mounted st) (unat j)) = fst g" using cl g' unfolding clean_ok_def by blast
      then show ?thesis using other_file(3) [OF Fok f g' _ o] False by simp
    qed
  qed
  ultimately show "vfs_inv io dinv blocks img ?F ?st" using F' fs by (simp add: vfs_inv_def)
  show "fs_data img fs ?F = (fs_data img (mounted st) F)(ino x \<mapsto> fdata_of img fs (din x, bs'))" by (rule d')
qed

end

end
