(* ===== verification/NodeFile.thy ===== *)
theory NodeFile
  imports NodeInv SfsFiles
begin

text \<open>
  The operations on the files behind nodes: writing an inode back, reading, writing and resizing
  through \<open>inode_ops\<close>. Each changes one value of the map of files, or none.
\<close>

context block_device
begin

lemma rep_node:
  assumes rep: "fs_rep io dinv blocks img A st" and n: "n \<in> loaded st"
  obtains F bs where "vfs_inv io dinv blocks img F st" and "fs_data img (mounted st) F = A"
    and "F (ino (node_sin st n)) = Some (din (node_sin st n), bs)"
    and "file_wf img (mounted st) (ino (node_sin st n)) (din (node_sin st n), bs)"
    and "A (ino (node_sin st n)) = Some (fdata_of img (mounted st) (din (node_sin st n), bs))"
    and "sfs_get_ops (ftype (din (node_sin st n))) = Some (in_ops (nodes st n))"
proof -
  obtain F where inv: "vfs_inv io dinv blocks img F st" and A: "fs_data img (mounted st) F = A"
    using rep by (auto simp: fs_rep_def)
  then have c: "cache_ok F st" and f: "files_ok img (mounted st) F" by (simp_all add: vfs_inv_def)
  obtain bs where bs: "F (ino (node_sin st n)) = Some (din (node_sin st n), bs)"
    "sfs_get_ops (ftype (din (node_sin st n))) = Some (in_ops (nodes st n))"
    by (rule cache_okD [OF c n])
  have "file_wf img (mounted st) (ino (node_sin st n)) (din (node_sin st n), bs)"
    using f bs(1) unfolding files_ok_def by blast
  moreover have "A (ino (node_sin st n)) = Some (fdata_of img (mounted st) (din (node_sin st n), bs))"
    using A bs(1) by (auto simp: fs_data_def)
  ultimately show thesis using that inv A bs by blast
qed

text \<open>The table of a node tells directories from regular files.\<close>

lemma node_dir:
  assumes "fs_rep io dinv blocks img A st" and "n \<in> loaded st"
  shows "in_ops (nodes st n) = sfs_node_dirops \<longleftrightarrow> (\<exists>es. A (ino (node_sin st n)) = Some (Inl es))"
    and "in_ops (nodes st n) = sfs_node_fileops \<longleftrightarrow> (\<exists>c. A (ino (node_sin st n)) = Some (Inr c))"
    and "ftype (din (node_sin st n)) = SFS_TYPE_DIR \<longleftrightarrow> in_ops (nodes st n) = sfs_node_dirops"
proof -
  obtain F bs where a: "A (ino (node_sin st n)) = Some (fdata_of img (mounted st) (din (node_sin st n), bs))"
    and o: "sfs_get_ops (ftype (din (node_sin st n))) = Some (in_ops (nodes st n))"
    by (rule rep_node [OF assms])
  show d: "ftype (din (node_sin st n)) = SFS_TYPE_DIR \<longleftrightarrow> in_ops (nodes st n) = sfs_node_dirops"
    using o by (auto simp: sfs_get_ops_def split: if_splits)
  then show "in_ops (nodes st n) = sfs_node_dirops \<longleftrightarrow> (\<exists>es. A (ino (node_sin st n)) = Some (Inl es))"
    "in_ops (nodes st n) = sfs_node_fileops \<longleftrightarrow> (\<exists>c. A (ino (node_sin st n)) = Some (Inr c))"
    using a by (cases "in_ops (nodes st n)"; auto simp: fdata_of_def)+
qed

lemma fsync_ok:
  assumes rep: "fs_rep io dinv blocks img A st" and n: "n \<in> loaded st" and chk: "inode_check n st = Some ()"
  obtains st' where "vop_fsync n st = Some (0, st')" and "fs_rep io dinv blocks img A st'"
    and "same_cache st st'" and "\<not> dirty (node_sin st' n)"
proof (cases "dirty (node_sin st n)")
  case False
  then have "vop_fsync n st = Some (0, st)" using chk by (simp add: vop_fsync_def vop_all sfs_fsync_def)
  then show thesis using that rep False by simp
next
  case True
  let ?x = "node_sin st n" and ?s = "mounted st"
  obtain F bs where inv: "vfs_inv io dinv blocks img F st" and A: "fs_data img ?s F = A"
    and f: "F (ino ?x) = Some (din ?x, bs)" and wf: "file_wf img ?s (ino ?x) (din ?x, bs)"
    and a: "A (ino ?x) = Some (fdata_of img ?s (din ?x, bs))"
    by (rule rep_node [OF rep n])
  have ok: "fs_ok io dinv blocks ?s" using inv by (simp add: vfs_inv_def)
  have u: "used ?s (ino ?x)" and rp: "file_rep img ?s (din ?x) bs" and no: "ino ?x \<notin> owned (din ?x) bs"
    using wf by (simp_all add: file_wf_def)
  have ld: "length (direct (din ?x)) = 12" using rp by (simp add: file_rep_def)
  then have l: "length (din_bytes (din ?x)) = 64" using length_din_bytes by (simp add: sizeof_din_def)
  then have "(0 :: nat) < 4096" "0 + length (din_bytes (din ?x)) \<le> 4096" by simp_all
  from wbuf_obj_ok [OF ok u this] obtain fs where w: "wbuf_obj ?s (din_bytes (din ?x)) (ino ?x) 0 = Some (Inr (), fs)"
    and ok': "fs_ok io dinv blocks fs" and fr: "fs_frame ?s fs" and free: "fs_free fs = fs_free ?s"
    and v: "view img fs = (view img ?s)(unat (ino ?x) := splice 0 (din_bytes (din ?x)) (view img ?s (unat (ino ?x))))"
    by blast
  let ?y = "?x\<lparr>dirty := False\<rparr>"
  have o: "only_file img (ino ?x) (din ?x, bs) ?s fs"
    using fr free v by (auto simp: only_file_def claims_def)
  have vo: "view img fs (unat b) = view img ?s (unat b)" if "b \<in> owned (din ?x) bs" for b
  proof -
    have "unat b \<noteq> unat (ino ?x)" by (rule unat_neq) (use no that in auto)
    then show ?thesis by (simp add: v)
  qed
  have rp': "file_rep img fs (din ?x) bs"
  proof (rule file_rep_cong [OF rp fr])
    show "unat b \<notin> fs_free fs" if "b \<in> owned (din ?x) bs" for b
      using file_rep_used [OF rp that] free by (simp add: used_def)
    show "view img fs (unat (indirect (din ?x))) = view img ?s (unat (indirect (din ?x)))" if "indirect (din ?x) \<noteq> 0"
      by (rule vo) (simp add: owned_def that)
  qed
  have u': "used fs (ino ?x)" using u free fr by (simp add: used_def fs_frame_def)
  have wf': "file_wf img fs (ino ?x) (din ?x, bs)" using wf rp' u' by (auto simp: file_wf_def file_ok_def)
  have c: "content img fs bs = content img ?s bs" and d: "dirents img fs bs = dirents img ?s bs"
    using vo by (auto simp: content_def dirents_def owned_def intro!: arg_cong [where f = concat])
  have clean: "din_of (view img fs (unat (ino ?x))) = din ?x"
    by (simp add: v splice_def din_of_bytes [OF ld])
  have "vop_fsync n st = Some (0, put_sin n fs ?y st)"
    using True chk w by (simp add: vop_fsync_def vop_all sfs_fsync_def res_ret_def)
  moreover have "fs_rep io dinv blocks img A (put_sin n fs ?y st)" "same_cache st (put_sin n fs ?y st)"
  proof -
    note step = vfs_inv_step [OF inv n f ok' o, of ?y bs]
    have "fdata_of img fs (din ?x, bs) = fdata_of img ?s (din ?x, bs)"
      using c d by (simp add: fdata_of_def file_bytes_def)
    then have "A(ino ?x \<mapsto> fdata_of img fs (din ?x, bs)) = A" using a by auto
    then show "fs_rep io dinv blocks img A (put_sin n fs ?y st)" "same_cache st (put_sin n fs ?y st)"
      using step wf' d clean A unfolding fs_rep_def by auto
  qed
  ultimately show thesis by (rule that) simp
qed

text \<open>Reading changes nothing but the device's buffers.\<close>

lemma put_sin_same: "put_sin n fs (node_sin st n) st = st\<lparr>mounted := fs\<rparr>"
  by (simp add: put_sin_def upd_node_def)

lemma rep_same:
  assumes "fs_rep io dinv blocks img A st" and "fs_ok io dinv blocks fs" and "same_disk img (mounted st) fs"
  shows "fs_rep io dinv blocks img A (st\<lparr>mounted := fs\<rparr>)" and "same_cache st (st\<lparr>mounted := fs\<rparr>)"
proof -
  show "fs_rep io dinv blocks img A (st\<lparr>mounted := fs\<rparr>)"
    using assms vfs_inv_same [OF _ assms(2,3)] by (auto simp: fs_rep_def)
  show "same_cache st (st\<lparr>mounted := fs\<rparr>)" using assms(3) by (simp add: same_cache_def same_disk_def fs_frame_def)
qed


lemma vop_read_ok:
  assumes rep: "fs_rep io dinv blocks img A st" and n: "n \<in> loaded st" and chk: "inode_check n st = Some ()"
    and a: "A (ino (node_sin st n)) = Some (Inr c)"
    and off: "0 \<le> io_offset iob" "io_offset iob < int SFS_MAX_FILE_SIZE" "io_offset iob + int (io_resid iob) < 2 ^ 63"
    and buf: "io_base iob + io_resid iob \<le> length (io_buf iob)"
  obtains iob' st' where "vop_read n iob st = Some (0, iob', st')" and "fs_rep io dinv blocks img A st'"
    and "same_cache st st'"
    and "let bytes = take (io_resid iob) (drop (nat (io_offset iob)) c) in
      iob_done iob (length bytes) (splice (io_base iob) bytes (io_buf iob)) iob'"
proof -
  let ?x = "node_sin st n" and ?s = "mounted st"
  obtain F bs where inv: "vfs_inv io dinv blocks img F st" and wf: "file_wf img ?s (ino ?x) (din ?x, bs)"
    and a': "A (ino ?x) = Some (fdata_of img ?s (din ?x, bs))"
    by (rule rep_node [OF rep n])
  have ok: "fs_ok io dinv blocks ?s" using inv by (simp add: vfs_inv_def)
  have ty: "ftype (din ?x) \<noteq> SFS_TYPE_DIR" and c: "file_bytes img ?s (din ?x) bs = c"
    using a a' by (auto simp: fdata_of_def split: if_splits)
  then have f: "file_ok img ?s (din ?x) bs" using wf by (simp add: file_wf_def)
  have ops: "in_ops (nodes st n) = sfs_node_fileops" using node_dir(2) [OF rep n] a by blast
  let ?b = "take (io_resid iob) (drop (nat (io_offset iob)) c)"
  obtain fs where r: "sfs_io_nolock ?s ?x (io_buf iob) (io_base iob) (io_offset iob) (io_resid iob) False =
      Some (0, length ?b, splice (io_base iob) ?b (io_buf iob), fs, ?x)"
    and fs: "fs_ok io dinv blocks fs" "same_disk img ?s fs"
    using io_nolock_read [OF ok f ty off buf] unfolding c Let_def by metis
  have "length ?b \<le> io_resid iob" by simp
  from sfs_io_step [OF r this] obtain iob' where
    io: "sfs_io ?s ?x iob False = Some (0, iob', fs, ?x)" "iob_done iob (length ?b) (splice (io_base iob) ?b (io_buf iob)) iob'" .
  have "vop_read n iob st = Some (0, iob', st\<lparr>mounted := fs\<rparr>)"
    using ops chk io(1) by (simp add: vop_read_def vop_def sfs_read_def put_sin_same)
  then show thesis using that rep_same [OF rep fs] io(2) by (simp add: Let_def)
qed

text \<open>A step on a regular file with a \<open>resized\<close> block map.\<close>

lemma rep_resized:
  assumes rep: "fs_rep io dinv blocks img A st" and n: "n \<in> loaded st"
    and F: "vfs_inv io dinv blocks img F st" "fs_data img (mounted st) F = A"
      "F (ino (node_sin st n)) = Some (din (node_sin st n), bs)"
    and ty: "ftype (din (node_sin st n)) = SFS_TYPE_FILE"
    and wf: "file_wf img (mounted st) (ino (node_sin st n)) (din (node_sin st n), bs)"
    and fs: "fs_ok io dinv blocks fs" and rs: "resized img (mounted st) (node_sin st n) bs fs x1 bs'"
    and x: "x = x1 \<or> (\<exists>v. x = x1\<lparr>din := (din x1)\<lparr>fsize := v\<rparr>, dirty := True\<rparr>)"
    and f': "file_ok img fs (din x) bs'"
  shows "fs_rep io dinv blocks img (A(ino (node_sin st n) \<mapsto> Inr (file_bytes img fs (din x) bs'))) (put_sin n fs x st)"
    and "same_cache st (put_sin n fs x st)"
proof -
  let ?y = "node_sin st n" and ?s = "mounted st"
  have x1: "ino x1 = ino ?y" "reclaim_count x1 = reclaim_count ?y" "fsize (din x1) = fsize (din ?y)"
    "ftype (din x1) = ftype (din ?y)" "nlinks (din x1) = nlinks (din ?y)" "sin_kept ?y x1"
    and fr: "fs_frame ?s fs" and own: "unat ` owned (din x1) bs' \<union> fs_free fs = unat ` owned (din ?y) bs \<union> fs_free ?s"
    and v: "\<And>c. c \<notin> unat ` owned (din ?y) bs \<union> fs_free ?s \<Longrightarrow> view img fs c = view img ?s c"
    using rs by (simp_all add: resized_def)
  have ox: "owned (din x) bs' = owned (din x1) bs'" and ix: "ino x = ino ?y" "reclaim_count x = reclaim_count ?y"
    "ftype (din x) = ftype (din ?y)" "nlinks (din x) = nlinks (din ?y)"
    using x x1 by (auto simp: owned_def)
  have u: "used ?s (ino ?y)" and no: "ino ?y \<notin> owned (din ?y) bs" and nl: "nlinks (din ?y) \<noteq> 0"
    using wf by (simp_all add: file_wf_def)
  have free_i: "unat (ino ?y) \<notin> unat ` owned (din ?y) bs \<union> fs_free ?s"
    using u no by (simp add: used_def inj_image_mem_iff [OF unat_u32_inj])
  have free_i': "unat (ino ?y) \<notin> unat ` owned (din x1) bs' \<union> fs_free fs" unfolding own by (rule free_i)
  have o: "only_file img (ino ?y) (din ?y, bs) ?s fs"
    using fr own v by (auto simp: only_file_def claims_def)
  have u': "used fs (ino ?y)" using u free_i' fr by (simp add: used_def fs_frame_def)
  have "ino ?y \<notin> owned (din x) bs'" using free_i' ox by auto
  then have wf': "file_wf img fs (ino x) (din x, bs')"
    using u' f' nl ty ix by (simp add: file_wf_def file_ok_def)
  have own': "unat ` claims (ino x) (din x, bs') \<subseteq> unat ` claims (ino x) (din ?y, bs) \<union> fs_free ?s"
    using own ox by (auto simp: claims_def)
  have nd: "ftype (din x) \<noteq> SFS_TYPE_DIR" using ty ix by (simp add: SFS_TYPE_DIR_def SFS_TYPE_FILE_def)
  have clean: "dirty x \<or> din_of (view img fs (unat (ino x))) = din x"
  proof (cases "dirty x")
    case False
    then have xx: "x = x1" using x by auto
    then obtain k where nd: "\<not> dirty ?y" and k: "din x1 = (din ?y)\<lparr>fblocks := k\<rparr>"
      using False x1(6) by (auto simp: sin_kept_def)
    have "file_ok img ?s (din ?y) bs" using wf ty by (auto simp: file_wf_def SFS_TYPE_DIR_def SFS_TYPE_FILE_def)
    then have "length bs = length bs'" and l: "unat (fblocks (din ?y)) = length bs"
      using f' x1(3) xx by (auto simp: file_ok_def file_rep_def)
    moreover have "unat (fblocks (din x1)) = length bs'" using f' xx by (simp add: file_ok_def file_rep_def)
    ultimately have "fblocks (din x1) = fblocks (din ?y)" by (simp add: word_unat_eq_iff)
    then have d: "din x1 = din ?y" using k by simp
    have "\<forall>m \<in> loaded st. ino (node_sin st m) = ino ?y \<longrightarrow> \<not> dirty (node_sin st m)"
      using cache_ok_inj [of F st _ n] F(1) n nd by (auto simp: vfs_inv_def)
    then have "din_of (view img ?s (unat (ino ?y))) = din ?y"
      using F(1,3) unfolding vfs_inv_def clean_ok_def by fastforce
    then show ?thesis using v [OF free_i] d xx ix by simp
  qed simp
  note step = vfs_inv_step [OF F(1) n F(3) fs o ix(1,2,3) wf' own' _ clean]
  have "fdata_of img fs (din x, bs') = Inr (file_bytes img fs (din x) bs')" using nd by (simp add: fdata_of_def)
  then show "fs_rep io dinv blocks img (A(ino ?y \<mapsto> Inr (file_bytes img fs (din x) bs'))) (put_sin n fs x st)"
    "same_cache st (put_sin n fs x st)"
    using step nd F(2) ix(1) unfolding fs_rep_def by auto
qed

lemma vop_write_ok:
  assumes rep: "fs_rep io dinv blocks img A st" and n: "n \<in> loaded st" and chk: "inode_check n st = Some ()"
    and a: "A (ino (node_sin st n)) = Some (Inr c)"
    and off: "0 \<le> io_offset iob" "nat (io_offset iob) \<le> length c"
      "nat (io_offset iob) + io_resid iob \<le> 4096 * 1036"
    and buf: "io_base iob + io_resid iob \<le> length (io_buf iob)"
  obtains ret k iob' st' where "vop_write n iob st = Some (ret, iob', st')"
    and "ret = 0 \<and> k = io_resid iob \<or> ret = - E_NO_MEM \<and> k \<le> io_resid iob"
    and "iob_done iob k (io_buf iob) iob'"
    and "fs_rep io dinv blocks img (A(ino (node_sin st n) \<mapsto>
      Inr (overwrite (nat (io_offset iob)) (take k (drop (io_base iob) (io_buf iob))) c))) st'"
    and "same_cache st st'"
proof -
  let ?x = "node_sin st n" and ?s = "mounted st"
  obtain F bs where inv: "vfs_inv io dinv blocks img F st" and A: "fs_data img ?s F = A"
    and Fi: "F (ino ?x) = Some (din ?x, bs)" and wf: "file_wf img ?s (ino ?x) (din ?x, bs)"
    and a': "A (ino ?x) = Some (fdata_of img ?s (din ?x, bs))"
    by (rule rep_node [OF rep n])
  have ok: "fs_ok io dinv blocks ?s" using inv by (simp add: vfs_inv_def)
  have ty: "ftype (din ?x) \<noteq> SFS_TYPE_DIR" and c: "file_bytes img ?s (din ?x) bs = c"
    using a a' by (auto simp: fdata_of_def split: if_splits)
  then have f: "file_ok img ?s (din ?x) bs" and tf: "ftype (din ?x) = SFS_TYPE_FILE" using wf by (auto simp: file_wf_def)
  have ops: "in_ops (nodes st n) = sfs_node_fileops" using node_dir(2) [OF rep n] a by blast
  have sz: "unat (fsize (din ?x)) = length c" using file_bytes_length [OF ok f] c by simp
  obtain ret al fs x1 x bs' where
    w: "sfs_io_nolock ?s ?x (io_buf iob) (io_base iob) (io_offset iob) (io_resid iob) True = Some (ret, al, io_buf iob, fs, x)"
    and ret: "ret = 0 \<and> al = io_resid iob \<or> ret = - E_NO_MEM \<and> al \<le> io_resid iob \<and>
      card (fs_free ?s) < missing (ROUNDUP_DIV (nat (io_offset iob) + io_resid iob) SFS_BLKSIZE) (din ?x) bs"
    and ok': "fs_ok io dinv blocks fs" and f': "file_ok img fs (din x) bs'"
    and b: "file_bytes img fs (din x) bs' = overwrite (nat (io_offset iob)) (take al (drop (io_base iob) (io_buf iob)))
        (file_bytes img ?s (din ?x) bs)"
    and g: "grown img ?s ?x bs fs x1 bs'" and x: "x = set_size x1 (nat (io_offset iob) + al)"
    by (rule io_nolock_write [OF ok f ty off(1) _ off(3) buf]) (use off(2) sz in simp)
  have al: "al \<le> io_resid iob" using ret by auto
  from sfs_io_step [OF w this] obtain iob' where
    io: "sfs_io ?s ?x iob True = Some (ret, iob', fs, x)" "iob_done iob al (io_buf iob) iob'" .
  have "vop_write n iob st = Some (ret, iob', put_sin n fs x st)"
    using ops chk io(1) by (simp add: vop_write_def vop_def sfs_write_def)
  moreover have "x = x1 \<or> (\<exists>v. x = x1\<lparr>din := (din x1)\<lparr>fsize := v\<rparr>, dirty := True\<rparr>)"
    using x by (auto simp: set_size_def)
  from rep_resized [OF rep n inv A Fi tf wf ok' grown_resized [OF g] this f']
  have "fs_rep io dinv blocks img (A(ino ?x \<mapsto> Inr (overwrite (nat (io_offset iob))
      (take al (drop (io_base iob) (io_buf iob))) c))) (put_sin n fs x st)" "same_cache st (put_sin n fs x st)"
    unfolding b c by blast+
  ultimately show thesis using that [of ret iob' _ al] ret io(2) by blast
qed

text \<open>Resizing. With enough free blocks, or when the file shrinks, it succeeds.\<close>

lemma truncfile_rep:
  assumes rep: "fs_rep io dinv blocks img A st" and n: "n \<in> loaded st"
    and a: "A (ino (node_sin st n)) = Some (Inr c)"
    and len: "0 \<le> len" "len \<le> 4096 * 1036"
    and room: "nat len \<le> length c \<or> ROUNDUP_DIV (nat len) SFS_BLKSIZE + 1 \<le>
      card (fs_free (mounted st)) + ROUNDUP_DIV (length c) SFS_BLKSIZE"
  obtains c' fs x where "sfs_truncfile (mounted st) (node_sin st n) len = Some (Inr (), fs, x)"
    and "length c' = nat len" and "take (length c) c' = take (nat len) c"
    and "fs_rep io dinv blocks img (A(ino (node_sin st n) \<mapsto> Inr c')) (put_sin n fs x st)"
    and "same_cache st (put_sin n fs x st)"
proof -
  let ?x = "node_sin st n" and ?s = "mounted st"
  obtain F bs where inv: "vfs_inv io dinv blocks img F st" and A: "fs_data img ?s F = A"
    and Fi: "F (ino ?x) = Some (din ?x, bs)" and wf: "file_wf img ?s (ino ?x) (din ?x, bs)"
    and a': "A (ino ?x) = Some (fdata_of img ?s (din ?x, bs))"
    by (rule rep_node [OF rep n])
  have ok: "fs_ok io dinv blocks ?s" using inv by (simp add: vfs_inv_def)
  have ty: "ftype (din ?x) \<noteq> SFS_TYPE_DIR" and c: "file_bytes img ?s (din ?x) bs = c"
    using a a' by (auto simp: fdata_of_def split: if_splits)
  then have f: "file_ok img ?s (din ?x) bs" and tf: "ftype (din ?x) = SFS_TYPE_FILE" using wf by (auto simp: file_wf_def)
  have sz: "unat (fsize (din ?x)) = length c" using file_bytes_length [OF ok f] c by simp
  then have lb: "length c \<le> 4096 * length bs" "4096 * length bs < length c + 4096" using f by (simp_all add: file_ok_def)
  have fb: "ROUNDUP_DIV (length c) SFS_BLKSIZE = length bs" using roundup_bounds [of "length c"] lb by linarith
  have miss: "\<not> card (fs_free ?s) < missing (ROUNDUP_DIV (nat len) SFS_BLKSIZE) (din ?x) bs"
  proof (cases "nat len \<le> length c")
    case True
    then have "ROUNDUP_DIV (nat len) SFS_BLKSIZE \<le> length bs"
      using roundup_bounds [of "nat len"] lb by linarith
    then show ?thesis by (simp add: missing_def)
  next
    case False
    then have "ROUNDUP_DIV (nat len) SFS_BLKSIZE + 1 \<le> card (fs_free ?s) + length bs" using room fb by simp
    then show ?thesis by (auto simp: missing_def)
  qed
  obtain r fs x1 x bs' where t: "sfs_truncfile ?s ?x len = Some (r, fs, x)"
    and ok': "fs_ok io dinv blocks fs" and rs: "resized img ?s ?x bs fs x1 bs'"
    and r: "r = Inr () \<and> file_ok img fs (din x) bs' \<and> unat (fsize (din x)) = nat len \<and>
        file_bytes img fs (din x) bs' = take (nat len) (content img ?s bs @ replicate (nat len) 0) \<and>
        owned (din x) bs' = owned (din x1) bs' \<and>
        (x = x1 \<or> (\<exists>v. x = x1\<lparr>din := (din x1)\<lparr>fsize := v\<rparr>, dirty := True\<rparr>)) \<or>
      r = Inl (- E_NO_MEM) \<and> x = x1 \<and> growth_failed img ?s ?x bs fs x1 bs' \<and>
        card (fs_free ?s) < missing (ROUNDUP_DIV (nat len) SFS_BLKSIZE) (din ?x) bs"
    by (rule truncfile_ok [OF ok f len])
  then have ri: "r = Inr ()" and f': "file_ok img fs (din x) bs'" and sz': "unat (fsize (din x)) = nat len"
    and b: "file_bytes img fs (din x) bs' = take (nat len) (content img ?s bs @ replicate (nat len) 0)"
    and x: "x = x1 \<or> (\<exists>v. x = x1\<lparr>din := (din x1)\<lparr>fsize := v\<rparr>, dirty := True\<rparr>)"
    using miss by auto
  note R = rep_resized [OF rep n inv A Fi tf wf ok' rs x f']
  let ?c = "file_bytes img fs (din x) bs'"
  have "length ?c = nat len" using file_bytes_length [OF ok' f'] sz' by simp
  moreover have "take (length c) ?c = take (nat len) c"
  proof -
    have cl: "length c \<le> length (content img ?s bs)" using content_length [OF ok, of "din ?x" bs] f lb
      by (simp add: file_ok_def)
    have "c = take (length c) (content img ?s bs)" using c sz by (metis file_bytes_def)
    then show ?thesis unfolding b using cl by (metis (no_types, lifting) append_take_drop_id min.absorb2 min.commute take_append take_take length_take diff_is_0_eq take0 append_Nil2)
  qed
  ultimately show thesis using that t ri R by blast
qed

end

end
