(* ===== verification/NodeCache.thy ===== *)
theory NodeCache
  imports NodeFile
begin

text \<open>
  The cache of inodes as a value: a map from the nodes in memory to their inode number and their two
  counts. \<open>vfs_rep\<close> relates a state to the map of files and to this cache; every operation on nodes is
  shown to implement its effect on the two maps.
\<close>

type_synonym ncache = "nat \<Rightarrow> (u32 \<times> int \<times> int) option"

definition cache_of :: "('d, 'z) vfs_scheme \<Rightarrow> ncache" where
  "cache_of st n = (if n \<in> loaded st
     then Some (ino (node_sin st n), ref_count (nodes st n), open_count (nodes st n)) else None)"

definition vfs_rep ::
  "(iobuf \<Rightarrow> bool \<Rightarrow> 'd \<Rightarrow> (int \<times> iobuf \<times> 'd) option) \<Rightarrow> ('d \<Rightarrow> bool) \<Rightarrow> nat \<Rightarrow> ('d \<Rightarrow> u8 list) \<Rightarrow>
    (u32 \<Rightarrow> fdata option) \<Rightarrow> ncache \<Rightarrow> ('d, 'z) vfs_scheme \<Rightarrow> bool" where
  "vfs_rep io dinv nb img A C st \<longleftrightarrow> fs_rep io dinv nb img A st \<and> counts_ok st \<and> cache_of st = C"

lemma cache_same: "same_cache st st' \<Longrightarrow> cache_of st' = cache_of st"
  by (simp add: fun_eq_iff cache_of_def same_cacheD)

lemma counts_same: "same_cache st st' \<Longrightarrow> counts_ok st' = counts_ok st"
  by (simp add: counts_ok_def same_cacheD)

lemma cache_Some:
  "cache_of st n = Some (i, r, c) \<longleftrightarrow>
     n \<in> loaded st \<and> ino (node_sin st n) = i \<and> ref_count (nodes st n) = r \<and> open_count (nodes st n) = c"
  by (simp add: cache_of_def)

lemma cache_None: "cache_of st n = None \<longleftrightarrow> n \<notin> loaded st"
  by (simp add: cache_of_def)

text \<open>What a client may conclude from the cache.\<close>

lemma rep_cache:
  assumes "vfs_rep io dinv nb img A C st" and "C n = Some (i, r, c)"
  shows "fs_rep io dinv nb img A st" and "n \<in> loaded st" and "ino (node_sin st n) = i"
    and "ref_count (nodes st n) = r" and "open_count (nodes st n) = c" and "0 < r" and "0 \<le> c" and "c \<le> r"
    and "reclaim_count (node_sin st n) = 1" and "r < MAX_INODE_COUNT \<Longrightarrow> inode_check n st = Some ()"
proof -
  have s: "fs_rep io dinv nb img A st" "counts_ok st" "cache_of st n = Some (i, r, c)"
    using assms by (simp_all add: vfs_rep_def)
  then show n: "fs_rep io dinv nb img A st" "n \<in> loaded st" "ino (node_sin st n) = i"
    "ref_count (nodes st n) = r" "open_count (nodes st n) = c"
    by (simp_all add: cache_Some)
  then show c: "0 < r" "0 \<le> c" "c \<le> r" "reclaim_count (node_sin st n) = 1"
    using s(2) by (auto simp: counts_ok_def)
  show "r < MAX_INODE_COUNT \<Longrightarrow> inode_check n st = Some ()" by (rule inode_check_ok) (use n c in simp_all)
qed

lemma rep_step:
  "vfs_rep io dinv nb img A C st \<Longrightarrow> fs_rep io dinv nb img A' st' \<Longrightarrow> same_cache st st' \<Longrightarrow>
     vfs_rep io dinv nb img A' C st'"
  by (simp add: vfs_rep_def cache_same counts_same)

lemma cache_inj:
  assumes "vfs_rep io dinv nb img A C st" and "C m = Some (i, r, c)" and "C n = Some (i, r', c')"
  shows "m = n"
proof -
  obtain F where "cache_ok F st" using assms(1) by (auto simp: vfs_rep_def fs_rep_def vfs_inv_def)
  then show ?thesis
    using cache_ok_inj rep_cache(2,3) [OF assms(1,2)] rep_cache(2,3) [OF assms(1,3)] by metis
qed

text \<open>Setting the counts of a node.\<close>

lemma rep_counts:
  assumes rep: "vfs_rep io dinv nb img A C st" and n: "C n = Some (i, r, c)"
    and f: "f (nodes st n) = (nodes st n)\<lparr>ref_count := r', open_count := c'\<rparr>"
    and c: "0 < r'" "0 \<le> c'" "c' \<le> r'"
  shows "vfs_rep io dinv nb img A (C(n \<mapsto> (i, r', c'))) (upd_node n f st)"
proof -
  note N = rep_cache [OF rep n]
  have "counts_only st (upd_node n f st)" by (simp add: counts_only_def f)
  then have "fs_rep io dinv nb img A (upd_node n f st)" using fs_rep_counts N(1) by blast
  moreover have "counts_ok (upd_node n f st)"
    using rep c f by (simp add: vfs_rep_def counts_ok_def)
  moreover have "cache_of (upd_node n f st) = (cache_of st)(n \<mapsto> (i, r', c'))"
    using N(2,3) by (simp add: fun_eq_iff cache_of_def f)
  ultimately show ?thesis using rep by (simp add: vfs_rep_def)
qed

lemma ref_inc_ok:
  assumes rep: "vfs_rep io dinv nb img A C st" and n: "C n = Some (i, r, c)"
  shows "fst (inode_ref_inc n st) = r + 1"
    and "vfs_rep io dinv nb img A (C(n \<mapsto> (i, r + 1, c))) (snd (inode_ref_inc n st))"
proof -
  note N = rep_cache [OF rep n]
  show "fst (inode_ref_inc n st) = r + 1" by (simp add: inode_ref_inc_def N(4))
  have "vfs_rep io dinv nb img A (C(n \<mapsto> (i, r + 1, c))) (upd_node n (\<lambda>v. v\<lparr>ref_count := ref_count v + 1\<rparr>) st)"
    by (rule rep_counts [OF rep n]) (use N in auto)
  then show "vfs_rep io dinv nb img A (C(n \<mapsto> (i, r + 1, c))) (snd (inode_ref_inc n st))"
    by (simp add: inode_ref_inc_def)
qed

lemma open_inc_ok:
  assumes rep: "vfs_rep io dinv nb img A C st" and n: "C n = Some (i, r, c)" and "c < r"
  shows "vfs_rep io dinv nb img A (C(n \<mapsto> (i, r, c + 1))) (snd (inode_open_inc n st))"
proof -
  note N = rep_cache [OF rep n]
  have "vfs_rep io dinv nb img A (C(n \<mapsto> (i, r, c + 1))) (upd_node n (\<lambda>v. v\<lparr>open_count := open_count v + 1\<rparr>) st)"
    by (rule rep_counts [OF rep n]) (use N \<open>c < r\<close> in auto)
  then show ?thesis by (simp add: inode_open_inc_def)
qed

lemma inc_frame [simp]:
  "kmem (snd (inode_ref_inc n st)) = kmem st" "vfs.more (snd (inode_ref_inc n st)) = vfs.more st"
  "kmem (snd (inode_open_inc n st)) = kmem st" "vfs.more (snd (inode_open_inc n st)) = vfs.more st"
  by (simp_all add: inode_ref_inc_def inode_open_inc_def)

text \<open>Linking a node into the cache and taking it out.\<close>

lemma links_blocks:
  "same_blocks (mounted st) (mounted (sfs_set_links n st))"
  "same_blocks (mounted st) (mounted (sfs_remove_links n st))"
  by (simp_all add: same_blocks_def sfs_set_links_def sfs_remove_links_def Let_def)

lemma links_simps [simp]:
  "nodes (sfs_set_links n st) = nodes st" "nodes (sfs_remove_links n st) = nodes st"
  "kmem (sfs_set_links n st) = kmem st" "kmem (sfs_remove_links n st) = kmem st"
  "vfs.more (sfs_set_links n st) = vfs.more st" "vfs.more (sfs_remove_links n st) = vfs.more st"
  "loaded (sfs_set_links n st) = insert n (loaded st)"
  by (simp_all add: sfs_set_links_def sfs_remove_links_def loaded_def Let_def)

lemma fs_ok_blocks:
  "same_blocks s s' \<Longrightarrow> dev s' = dev s \<Longrightarrow> sfs_buffer s' = sfs_buffer s \<Longrightarrow> fs_ok io dinv nb s' = fs_ok io dinv nb s"
  by (simp add: fs_ok_def same_blocks_def fs_free_def)

lemma loaded_remove:
  "distinct (inode_list (mounted st)) \<Longrightarrow> loaded (sfs_remove_links n st) = loaded st - {n}"
  by (simp add: sfs_remove_links_def loaded_def Let_def)

lemma remove_links_inv:
  assumes inv: "vfs_inv io dinv nb img F st" and n: "n \<in> loaded st" and nd: "\<not> dirty (node_sin st n)"
  shows "vfs_inv io dinv nb img F (sfs_remove_links n st)"
    and "fs_data img (mounted (sfs_remove_links n st)) F = fs_data img (mounted st) F"
    and "loaded (sfs_remove_links n st) = loaded st - {n}"
proof -
  let ?st = "sfs_remove_links n st"
  note B = same_blocks_facts [OF links_blocks(2) [of st n]]
  have c: "cache_ok F st" using inv by (simp add: vfs_inv_def)
  then have dl: "distinct (inode_list (mounted st))" by (simp add: cache_ok_def)
  show l: "loaded ?st = loaded st - {n}" by (rule loaded_remove [OF dl])
  show "fs_data img (mounted ?st) F = fs_data img (mounted st) F" by (rule B(6))
  have ok: "fs_ok io dinv nb (mounted ?st) = fs_ok io dinv nb (mounted st)"
    by (rule fs_ok_blocks [OF links_blocks(2)]) (simp_all add: sfs_remove_links_def Let_def)
  have hash: "hash_list (mounted ?st) h = (if h = sin_hashfn (ino (node_sin st n))
      then remove1 n (hash_list (mounted st) h) else hash_list (mounted st) h)" for h
    by (simp add: sfs_remove_links_def Let_def)
  have il: "inode_list (mounted ?st) = remove1 n (inode_list (mounted st))"
    by (simp add: sfs_remove_links_def Let_def)
  have H: "distinct (hash_list (mounted st) h)"
    "set (hash_list (mounted st) h) = {n \<in> loaded st. sin_hashfn (ino (node_sin st n)) = h}" for h
    using c unfolding cache_ok_def by blast+
  have "distinct (hash_list (mounted ?st) h) \<and>
      set (hash_list (mounted ?st) h) = {m \<in> loaded ?st. sin_hashfn (ino (node_sin ?st m)) = h}" for h
  proof (intro conjI)
    show "distinct (hash_list (mounted ?st) h)" using H(1) by (simp add: hash distinct_remove1)
    have "set (hash_list (mounted ?st) h) = set (hash_list (mounted st) h) - {n}"
    proof (cases "h = sin_hashfn (ino (node_sin st n))")
      case True
      then show ?thesis using H(1) [of h] by (simp add: hash set_remove1_eq)
    next
      case False
      then have "n \<notin> set (hash_list (mounted st) h)" using H(2) [of h] by simp
      then show ?thesis using False by (simp add: hash)
    qed
    then show "set (hash_list (mounted ?st) h) = {m \<in> loaded ?st. sin_hashfn (ino (node_sin ?st m)) = h}"
      unfolding H(2) l links_simps by blast
  qed
  moreover have "distinct (inode_list (mounted ?st))" using dl by (simp add: il distinct_remove1)
  moreover have "node_ok F (nodes ?st m)" if "m \<in> loaded ?st" for m
    using that c by (simp add: l cache_ok_def)
  moreover have "m = k" if "m \<in> loaded ?st" "k \<in> loaded ?st" "ino (node_sin ?st m) = ino (node_sin ?st k)" for m k
    using that cache_ok_inj [OF c, of m k] by (simp add: l)
  ultimately have "cache_ok F ?st" unfolding cache_ok_def by blast
  moreover have "clean_ok img F ?st"
    unfolding clean_ok_def l B(3) links_simps
  proof (intro allI impI)
    fix i f assume f: "F i = Some f" and a: "\<forall>m \<in> loaded st - {n}. ino (node_sin st m) = i \<longrightarrow> \<not> dirty (node_sin st m)"
    have "\<forall>m \<in> loaded st. ino (node_sin st m) = i \<longrightarrow> \<not> dirty (node_sin st m)" using a nd by blast
    then show "din_of (view img (mounted st) (unat i)) = fst f"
      using inv f unfolding vfs_inv_def clean_ok_def by blast
  qed
  ultimately show "vfs_inv io dinv nb img F ?st" using inv B(5) ok by (simp add: vfs_inv_def)
qed

lemma set_links_inv:
  assumes inv: "vfs_inv io dinv nb img F st" and f: "F i = Some (d, bs)"
    and new: "n \<notin> loaded st" "\<And>m. m \<in> loaded st \<Longrightarrow> ino (node_sin st m) \<noteq> i"
    and ops: "sfs_get_ops (ftype d) = Some ops"
    and v: "in_ops v = ops" "in_info v = \<lparr>din = d, ino = i, dirty = False, reclaim_count = 1\<rparr>"
  defines "st' \<equiv> sfs_set_links n (upd_node n (\<lambda>_. v) st)"
  shows "vfs_inv io dinv nb img F st'" and "fs_data img (mounted st') F = fs_data img (mounted st) F"
proof -
  let ?u = "upd_node n (\<lambda>_. v) st"
  have sb: "same_blocks (mounted st) (mounted st')" using links_blocks(1) [of ?u n] by (simp add: st'_def)
  note B = same_blocks_facts [OF sb]
  have c: "cache_ok F st" using inv by (simp add: vfs_inv_def)
  show "fs_data img (mounted st') F = fs_data img (mounted st) F" by (rule B(6))
  have ok: "fs_ok io dinv nb (mounted st') = fs_ok io dinv nb (mounted st)"
    by (rule fs_ok_blocks [OF sb]) (simp_all add: st'_def sfs_set_links_def Let_def)
  have l: "loaded st' = insert n (loaded st)" by (simp add: st'_def)
  have il: "inode_list (mounted st') = n # inode_list (mounted st)" by (simp add: st'_def sfs_set_links_def Let_def)
  have ns: "nodes st' = (nodes st)(n := v)" by (simp add: st'_def)
  have hash: "hash_list (mounted st') h = (if h = sin_hashfn i then n # hash_list (mounted st) h
      else hash_list (mounted st) h)" for h
    by (simp add: st'_def sfs_set_links_def Let_def v)
  have H: "distinct (hash_list (mounted st) h)"
    "set (hash_list (mounted st) h) = {n \<in> loaded st. sin_hashfn (ino (node_sin st n)) = h}" for h
    using c unfolding cache_ok_def by blast+
  have "distinct (hash_list (mounted st') h) \<and>
      set (hash_list (mounted st') h) = {m \<in> loaded st'. sin_hashfn (ino (node_sin st' m)) = h}" for h
    using H [of h] new(1) by (auto simp: hash l ns v)
  moreover have "node_ok F (nodes st' m)" if "m \<in> loaded st'" for m
    using that c f ops v by (auto simp: l ns node_ok_def cache_ok_def)
  moreover have "distinct (inode_list (mounted st'))" using c new(1) by (simp add: il cache_ok_def loaded_def)
  moreover have "m = k" if "m \<in> loaded st'" "k \<in> loaded st'" "ino (node_sin st' m) = ino (node_sin st' k)" for m k
    using that new(2) cache_ok_inj [OF c, of m k] v by (auto simp: l ns split: if_splits)
  ultimately have "cache_ok F st'" unfolding cache_ok_def by blast
  moreover have "clean_ok img F st'"
    unfolding clean_ok_def B(3)
  proof (intro allI impI)
    fix j g assume g: "F j = Some g" and a: "\<forall>m \<in> loaded st'. ino (node_sin st' m) = j \<longrightarrow> \<not> dirty (node_sin st' m)"
    have "\<forall>m \<in> loaded st. ino (node_sin st m) = j \<longrightarrow> \<not> dirty (node_sin st m)"
      using a new(1) by (auto simp: l ns split: if_splits)
    then show "din_of (view img (mounted st) (unat j)) = fst g"
      using inv g unfolding vfs_inv_def clean_ok_def by blast
  qed
  ultimately show "vfs_inv io dinv nb img F st'" using inv B(5) ok by (simp add: vfs_inv_def)
qed


section \<open>Loading\<close>

lemma u16_of_take: "2 \<le> k \<Longrightarrow> u16_of (take k bs) = u16_of bs"
  by (cases bs rule: u16_of.cases) (auto simp: take_Cons' numeral_eq_Suc)

lemma u32_of_take': "4 \<le> k \<Longrightarrow> u32_of (take k bs) = u32_of bs"
  using u32_of_take [of "take k bs"] u32_of_take [of bs] by (simp add: min_def)

lemma words_of_take: "4 * n \<le> k \<Longrightarrow> words_of n (take k bs) = words_of n bs"
  by (induction n arbitrary: k bs) (simp_all add: u32_of_take' drop_take)

lemma din_of_take: "din_of (take sizeof_din bs) = din_of bs"
  by (simp add: din_of_def sizeof_din_def SFS_NDIRECT_def drop_take u32_of_take' u16_of_take words_of_take)

text \<open>
  What \<open>sfs_load_inode\<close> does to the cache: \<open>ks\<close> are the answers of \<open>kmalloc\<close>, of which a load takes one
  for the disk inode and one for the node.
\<close>

definition uncached :: "u32 \<Rightarrow> ncache \<Rightarrow> bool" where
  "uncached i C \<longleftrightarrow> (\<forall>n r c. C n \<noteq> Some (i, r, c))"

inductive loads ::
  "u32 \<Rightarrow> ncache \<Rightarrow> nat option list \<Rightarrow> nat res \<Rightarrow> ncache \<Rightarrow> nat option list \<Rightarrow> bool" for i C where
  hit: "C n = Some (i, r, c) \<Longrightarrow> loads i C ks (Inr n) (C(n \<mapsto> (i, r + 1, c))) ks"
| miss: "uncached i C \<Longrightarrow> loads i C (Some p # Some n # ks) (Inr n) (C(n \<mapsto> (i, 1, 0))) ks"
| no_din: "uncached i C \<Longrightarrow> ks = [] \<or> hd ks = None \<Longrightarrow> loads i C ks (Inl (- E_NO_MEM)) C (tl ks)"
| no_node: "uncached i C \<Longrightarrow> ks = [] \<or> hd ks = None \<Longrightarrow> loads i C (Some p # ks) (Inl (- E_NO_MEM)) C (tl ks)"

lemma uncached_node: "uncached i (cache_of st) \<Longrightarrow> m \<in> loaded st \<Longrightarrow> ino (node_sin st m) \<noteq> i"
  unfolding uncached_def by (metis cache_Some)

text \<open>\<open>kmalloc\<close> returns objects that are not in use.\<close>

definition kmem_fresh :: "ncache \<Rightarrow> nat option list \<Rightarrow> bool" where
  "kmem_fresh C ks \<longleftrightarrow> distinct (filter (\<lambda>a. a \<noteq> None) ks) \<and> (\<forall>a. Some a \<in> set ks \<longrightarrow> C a = None)"

lemma kmem_fresh_tl: "kmem_fresh C ks \<Longrightarrow> kmem_fresh C (tl ks)"
  by (cases ks) (auto simp: kmem_fresh_def split: if_splits)

lemma loads_fresh: "loads i C ks r C' ks' \<Longrightarrow> kmem_fresh C ks \<Longrightarrow> kmem_fresh C' ks'"
proof (induction rule: loads.induct)
  case (hit n r c ks)
  then show ?case by (auto simp: kmem_fresh_def)
next
  case (no_din ks)
  then show ?case by (intro kmem_fresh_tl)
next
  case (no_node ks p)
  have "kmem_fresh C ks" using kmem_fresh_tl [OF no_node(3)] by simp
  then show ?case by (rule kmem_fresh_tl)
qed (auto simp: kmem_fresh_def)

lemma loads_Inr:
  assumes "loads i C ks (Inr n) C' ks'"
  obtains r c where "C' n = Some (i, r, c)" and "\<forall>m. m \<noteq> n \<longrightarrow> C' m = C m"
    and "C n = Some (i, r - 1, c) \<or> r = 1 \<and> c = 0 \<and> uncached i C"
  using assms by cases (auto simp: fun_upd_def)

lemma loads_Inl: "loads i C ks (Inl e) C' ks' \<Longrightarrow> C' = C \<and> e = - E_NO_MEM"
  by (induction "Inl e :: nat res" C' ks' rule: loads.induct) simp_all

lemma lookup_hit:
  assumes rep: "vfs_rep io dinv nb img A C st" and n: "C n = Some (i, r, c)"
  shows "\<exists>st'. lookup_sfs_nolock i st = (Some n, st') \<and> vfs_rep io dinv nb img A (C(n \<mapsto> (i, r + 1, c))) st' \<and>
    kmem st' = kmem st \<and> vfs.more st' = vfs.more st"
proof -
  note N = rep_cache [OF rep n]
  obtain F where c: "cache_ok F st" using N(1) by (auto simp: fs_rep_def vfs_inv_def)
  have H: "set (hash_list (mounted st) (sin_hashfn i)) = {m \<in> loaded st. sin_hashfn (ino (node_sin st m)) = sin_hashfn i}"
    using c unfolding cache_ok_def by blast
  then have mem: "n \<in> set (hash_list (mounted st) (sin_hashfn i))" using N(2,3) by simp
  have uniq: "m = n" if "m \<in> set (hash_list (mounted st) (sin_hashfn i))" "ino (node_sin st m) = i" for m
    using that H N(2,3) cache_ok_inj [OF c, of m n] by simp
  have "List.find (\<lambda>n. ino (node_sin st n) = i) (hash_list (mounted st) (sin_hashfn i)) = Some n"
  proof (cases "List.find (\<lambda>n. ino (node_sin st n) = i) (hash_list (mounted st) (sin_hashfn i))")
    case None
    then show ?thesis using mem N(3) by (auto simp: find_None_iff)
  next
    case (Some m)
    then have "m \<in> set (hash_list (mounted st) (sin_hashfn i))" "ino (node_sin st m) = i"
      by (auto simp: find_Some_iff)
    then show ?thesis using Some uniq by simp
  qed
  moreover have "fst (inode_ref_inc n st) \<noteq> 1" using ref_inc_ok(1) [OF rep n] N(6) by simp
  ultimately have "lookup_sfs_nolock i st = (Some n, snd (inode_ref_inc n st))"
    by (simp add: lookup_sfs_nolock_def case_prod_beta Let_def)
  then show ?thesis using ref_inc_ok(2) [OF rep n] by simp
qed

lemma lookup_miss:
  assumes rep: "vfs_rep io dinv nb img A C st" and u: "uncached i C"
  shows "lookup_sfs_nolock i st = (None, st)"
proof -
  obtain F where c: "cache_ok F st" using rep by (auto simp: vfs_rep_def fs_rep_def vfs_inv_def)
  have H: "set (hash_list (mounted st) (sin_hashfn i)) = {m \<in> loaded st. sin_hashfn (ino (node_sin st m)) = sin_hashfn i}"
    using c unfolding cache_ok_def by blast
  have C: "C = cache_of st" using rep by (simp add: vfs_rep_def)
  have ne: "ino (node_sin st m) \<noteq> i" if "m \<in> loaded st" for m
    using uncached_node [OF _ that] u C by simp
  have "List.find (\<lambda>n. ino (node_sin st n) = i) (hash_list (mounted st) (sin_hashfn i)) = None"
    unfolding find_None_iff using H ne by auto
  then show ?thesis by (simp add: lookup_sfs_nolock_def)
qed

section \<open>Giving references back\<close>

text \<open>A reference less; without references a node leaves the cache.\<close>

definition dec_ref :: "nat \<Rightarrow> ncache \<Rightarrow> ncache" where
  "dec_ref n C = (case C n of None \<Rightarrow> C
     | Some (i, r, c) \<Rightarrow> if r = 1 then C(n := None) else C(n \<mapsto> (i, r - 1, c)))"

context block_device
begin

lemma vop_fsync_rep:
  assumes rep: "vfs_rep io dinv blocks img A C st" and n: "C n = Some (i, r, c)" and "r < MAX_INODE_COUNT"
  obtains st' where "vop_fsync n st = Some (0, st')" and "vfs_rep io dinv blocks img A C st'"
    and "kmem st' = kmem st" and "vfs.more st' = vfs.more st"
proof -
  note N = rep_cache [OF rep n]
  obtain st' where "vop_fsync n st = Some (0, st')" and "fs_rep io dinv blocks img A st'" and s: "same_cache st st'"
    by (rule fsync_ok [OF N(1,2) N(10) [OF assms(3)]])
  then show thesis using that rep_step [OF rep] same_cacheD [OF s] by blast
qed

text \<open>\<open>vop_reclaim\<close> of a node without references: it is written back and leaves the cache.\<close>

lemma reclaim_ok:
  assumes rep: "fs_rep io dinv blocks img A st" and n: "n \<in> loaded st"
    and z: "ref_count (nodes st n) = 0" "open_count (nodes st n) = 0" "reclaim_count (node_sin st n) = 1"
  obtains st' where "vop_reclaim n st = Some (0, st')" and "fs_rep io dinv blocks img A st'"
    and "loaded st' = loaded st - {n}" and "\<forall>m. m \<noteq> n \<longrightarrow> node_key (nodes st' m) = node_key (nodes st m)"
    and "kmem st' = kmem st" and "vfs.more st' = vfs.more st"
proof -
  let ?u = "upd_node n (\<lambda>v. v\<lparr>in_info := (in_info v)\<lparr>reclaim_count := reclaim_count (in_info v) - 1\<rparr>\<rparr>) st"
  have "counts_only st ?u" by (simp add: counts_only_def)
  then have rep1: "fs_rep io dinv blocks img A ?u" using fs_rep_counts rep by blast
  have n1: "n \<in> loaded ?u" using n by simp
  have chk: "inode_check n st = Some ()" "inode_check n ?u = Some ()"
    using z by (simp_all add: inode_check_def MAX_INODE_COUNT_def)
  obtain F bs where "file_wf img (mounted ?u) (ino (node_sin ?u n)) (din (node_sin ?u n), bs)"
    by (rule rep_node [OF rep1 n1])
  then have nl: "nlinks (din (node_sin st n)) \<noteq> 0" by (simp add: file_wf_def)
  obtain s2 where f: "vop_fsync n ?u = Some (0, s2)" and rep2: "fs_rep io dinv blocks img A s2"
    and sc: "same_cache ?u s2" and nd: "\<not> dirty (node_sin s2 n)"
    by (rule fsync_ok [OF rep1 n1 chk(2)])
  let ?s2 = "if dirty (node_sin ?u n) then s2 else ?u"
  have rep3: "fs_rep io dinv blocks img A ?s2" and sc3: "same_cache ?u ?s2" and nd3: "\<not> dirty (node_sin ?s2 n)"
    using rep1 rep2 sc nd by simp_all
  note S = same_cacheD [OF sc3]
  have l3: "n \<in> loaded ?s2" using n1 S(1) by simp
  obtain F bs where inv3: "vfs_inv io dinv blocks img F ?s2" and A3: "fs_data img (mounted ?s2) F = A"
    and wf3: "file_wf img (mounted ?s2) (ino (node_sin ?s2 n)) (din (node_sin ?s2 n), bs)"
    by (rule rep_node [OF rep3 l3])
  have nl3: "nlinks (din (node_sin ?s2 n)) \<noteq> 0" using wf3 by (simp add: file_wf_def)
  note R = remove_links_inv [OF inv3 l3 nd3]
  have "ref_count (nodes ?s2 n) = 0" "open_count (nodes ?s2 n) = 0" using S(3,4) [of n] z by simp_all
  then have k: "inode_kill n (sfs_remove_links n ?s2) = Some ()" by (simp add: inode_kill_def)
  have flush: "(if dirty (node_sin ?u n) then vop_fsync n ?u else Some (0, ?u)) = Some (0, ?s2)" using f by simp
  have "vop_reclaim n st = Some (0, sfs_remove_links n ?s2)"
    unfolding vop_reclaim_def vop_all chk(1) sfs_reclaim_def Let_def using z nl nl3 k flush by (simp del: if_split_asm)
  moreover have "fs_rep io dinv blocks img A (sfs_remove_links n ?s2)"
    unfolding fs_rep_def by (rule exI [of _ F]) (use R(1,2) A3 in simp)
  moreover have "loaded (sfs_remove_links n ?s2) = loaded st - {n}" using R(3) S(1) by simp
  moreover have "\<forall>m. m \<noteq> n \<longrightarrow> node_key (nodes (sfs_remove_links n ?s2) m) = node_key (nodes st m)"
  proof (intro allI impI)
    fix m assume that: "m \<noteq> n"
    have "node_key (nodes ?s2 m) = node_key (nodes ?u m)" using sc3 by (simp add: same_cache_def)
    then show "node_key (nodes (sfs_remove_links n ?s2) m) = node_key (nodes st m)" using that by simp
  qed
  moreover have "kmem (sfs_remove_links n ?s2) = kmem st" "vfs.more (sfs_remove_links n ?s2) = vfs.more st"
    using S(7,8) by simp_all
  ultimately show thesis by (rule that)
qed

lemma ref_dec_ok:
  assumes rep: "vfs_rep io dinv blocks img A C st" and n: "C n = Some (i, r, c)" and c: "c < r"
  obtains st' where "inode_ref_dec n st = Some (r - 1, st')" and "vfs_rep io dinv blocks img A (dec_ref n C) st'"
    and "kmem st' = kmem st" and "vfs.more st' = vfs.more st"
proof -
  note N = rep_cache [OF rep n]
  let ?u = "upd_node n (\<lambda>v. v\<lparr>ref_count := r - 1\<rparr>) st"
  show thesis
  proof (cases "r = 1")
    case False
    have "vfs_rep io dinv blocks img A (C(n \<mapsto> (i, r - 1, c))) ?u"
      by (rule rep_counts [OF rep n]) (use N c False in auto)
    moreover have "inode_ref_dec n st = Some (r - 1, ?u)"
      using False N by (simp add: inode_ref_dec_def Let_def)
    ultimately show thesis using that [of ?u] False n by (simp add: dec_ref_def)
  next
    case True
    have "counts_only st ?u" by (simp add: counts_only_def)
    then have rep1: "fs_rep io dinv blocks img A ?u" using fs_rep_counts N(1) by blast
    have z: "n \<in> loaded ?u" "ref_count (nodes ?u n) = 0" "open_count (nodes ?u n) = 0" "reclaim_count (node_sin ?u n) = 1"
      using N True c by simp_all
    obtain st' where v: "vop_reclaim n ?u = Some (0, st')" and rep': "fs_rep io dinv blocks img A st'"
      and l: "loaded st' = loaded ?u - {n}" and k: "\<forall>m. m \<noteq> n \<longrightarrow> node_key (nodes st' m) = node_key (nodes ?u m)"
      and fr: "kmem st' = kmem ?u" "vfs.more st' = vfs.more ?u"
      by (rule reclaim_ok [OF rep1 z])
    have key: "ino (node_sin st' m) = ino (node_sin st m)" "ref_count (nodes st' m) = ref_count (nodes st m)"
      "open_count (nodes st' m) = open_count (nodes st m)" "reclaim_count (node_sin st' m) = reclaim_count (node_sin st m)"
      if "m \<noteq> n" for m using k that by (simp_all add: node_key_def)
    have "inode_ref_dec n st = Some (r - 1, st')"
      using True N v by (simp add: inode_ref_dec_def Let_def)
    moreover have "counts_ok st'" using rep l key by (auto simp: vfs_rep_def counts_ok_def)
    moreover have "cache_of st' = dec_ref n C"
    proof -
      have C: "C = cache_of st" using rep by (simp add: vfs_rep_def)
      have "dec_ref n C = C(n := None)" using n True by (simp add: dec_ref_def)
      moreover have "cache_of st' m = (C(n := None)) m" for m
        using l key by (simp add: C cache_of_def)
      ultimately show ?thesis by (simp add: fun_eq_iff)
    qed
    ultimately show thesis using that rep' fr by (simp add: vfs_rep_def)
  qed
qed

lemma open_dec_ok:
  assumes rep: "vfs_rep io dinv blocks img A C st" and n: "C n = Some (i, r, c)" and c: "0 < c" and r: "r < MAX_INODE_COUNT"
  obtains st' where "inode_open_dec n st = Some (c - 1, st')"
    and "vfs_rep io dinv blocks img A (C(n \<mapsto> (i, r, c - 1))) st'"
    and "kmem st' = kmem st" and "vfs.more st' = vfs.more st"
proof -
  note N = rep_cache [OF rep n]
  let ?u = "upd_node n (\<lambda>v. v\<lparr>open_count := c - 1\<rparr>) st"
  have rep1: "vfs_rep io dinv blocks img A (C(n \<mapsto> (i, r, c - 1))) ?u"
    by (rule rep_counts [OF rep n]) (use N c in auto)
  show thesis
  proof (cases "c = 1")
    case False
    have "inode_open_dec n st = Some (c - 1, ?u)" using False N c by (simp add: inode_open_dec_def Let_def)
    then show thesis using that rep1 by simp
  next
    case True
    have n1: "(C(n \<mapsto> (i, r, c - 1))) n = Some (i, r, c - 1)" by simp
    obtain st' where f: "vop_fsync n ?u = Some (0, st')" and rep': "vfs_rep io dinv blocks img A (C(n \<mapsto> (i, r, c - 1))) st'"
      and fr: "kmem st' = kmem ?u" "vfs.more st' = vfs.more ?u"
      by (rule vop_fsync_rep [OF rep1 n1 r])
    have "inode_check n ?u = Some ()" by (rule rep_cache(10) [OF rep1 n1 r])
    then have "inode_open_dec n st = Some (c - 1, st')"
      using True N f by (simp add: inode_open_dec_def Let_def vop_close_def vop_all sfs_close_def)
    then show thesis using that rep' fr by simp
  qed
qed


section \<open>Loading a file\<close>

lemma rep_kmem:
  "vfs_rep io dinv blocks img A C (st\<lparr>kmem := ks\<rparr>) = vfs_rep io dinv blocks img A C st"
  by (simp add: vfs_rep_def fs_rep_def vfs_inv_def cache_ok_def clean_ok_def counts_ok_def loaded_def cache_of_def fun_eq_iff)

lemma create_inode_ok:
  assumes rep: "vfs_rep io dinv blocks img A C st" and a: "A i = Some v" and u: "uncached i C"
    and k: "kmem st = Some n # ks" and fresh: "C n = None"
  obtains ops st' where "sfs_get_ops (ftype (din_of (view img (mounted st) (unat i)))) = Some ops"
    and "nlinks (din_of (view img (mounted st) (unat i))) \<noteq> 0"
    and "on_ok (sfs_create_inode (din_of (view img (mounted st) (unat i))) i st)
       (\<lambda>n st. Some (Inr n, sfs_set_links n st)) = Some (Inr n, st')"
    and "vfs_rep io dinv blocks img A (C(n \<mapsto> (i, 1, 0))) st'" and "kmem st' = ks" and "vfs.more st' = vfs.more st"
proof -
  let ?d = "din_of (view img (mounted st) (unat i))"
  have C: "C = cache_of st" and cn: "counts_ok st" using rep by (simp_all add: vfs_rep_def)
  obtain F where inv: "vfs_inv io dinv blocks img F st" and A: "fs_data img (mounted st) F = A"
    using rep by (auto simp: vfs_rep_def fs_rep_def)
  obtain f where f: "F i = Some f" using A a by (auto simp: fs_data_def)
  have un: "ino (node_sin st m) \<noteq> i" if "m \<in> loaded st" for m
    using uncached_node [OF _ that] u C by simp
  have d: "?d = fst f" using inv f un unfolding vfs_inv_def clean_ok_def by blast
  have wf: "file_wf img (mounted st) i f" using inv f unfolding vfs_inv_def files_ok_def by blast
  then have nl: "nlinks ?d \<noteq> 0" and ty: "ftype ?d = SFS_TYPE_DIR \<or> ftype ?d = SFS_TYPE_FILE"
    unfolding d file_wf_def by auto
  from ty have "\<exists>ops. sfs_get_ops (ftype ?d) = Some ops" unfolding sfs_get_ops_def by (auto split: if_split)
  then obtain ops where ops: "sfs_get_ops (ftype ?d) = Some ops" by blast
  have nl': "n \<notin> loaded st" using fresh by (simp add: C cache_None)
  let ?v = "(nodes st n)\<lparr>open_count := 0, in_ops := ops, ref_count := 1,
    in_info := \<lparr>din = ?d, ino = i, dirty = False, reclaim_count = 1\<rparr>\<rparr>"
  let ?k = "st\<lparr>kmem := ks\<rparr>"
  let ?st = "sfs_set_links n (upd_node n (\<lambda>_. ?v) ?k)"
  have inv': "vfs_inv io dinv blocks img F ?k" and A': "fs_data img (mounted ?k) F = A"
    using inv A by (simp_all add: vfs_inv_def cache_ok_def clean_ok_def loaded_def)
  have f': "F i = Some (?d, snd f)" using f d by simp
  have l: "loaded ?k = loaded st" by (simp add: loaded_def)
  have S: "vfs_inv io dinv blocks img F ?st" "fs_data img (mounted ?st) F = fs_data img (mounted ?k) F"
    by (rule set_links_inv [OF inv' f' _ _ ops]; use nl' un l in simp)+
  have c: "on_ok (sfs_create_inode ?d i st) (\<lambda>n st. Some (Inr n, sfs_set_links n st)) = Some (Inr n, ?st)"
  proof -
    have "sfs_create_inode ?d i st = Some (Inr n, upd_node n (\<lambda>_. ?v) ?k)"
      using k ops
      by (simp add: sfs_create_inode_def kmem_alloc_def inode_init_def inode_ref_inc_def upd_node_def)
    then show ?thesis by simp
  qed
  moreover have "vfs_rep io dinv blocks img A (C(n \<mapsto> (i, 1, 0))) ?st"
  proof -
    have "fs_rep io dinv blocks img A ?st" unfolding fs_rep_def using S A' by auto
    moreover have "counts_ok ?st" using cn nl' l by (auto simp: counts_ok_def)
    moreover have "cache_of ?st = C(n \<mapsto> (i, 1, 0))" using l by (auto simp: C fun_eq_iff cache_of_def)
    ultimately show ?thesis by (simp add: vfs_rep_def)
  qed
  ultimately show thesis using that [OF ops nl c] by simp
qed

lemma load_inode_ok:
  assumes rep: "vfs_rep io dinv blocks img A C st" and a: "A i = Some v" and fresh: "kmem_fresh C (kmem st)"
  obtains r C' st' where "sfs_load_inode i st = Some (r, st')" and "vfs_rep io dinv blocks img A C' st'"
    and "loads i C (kmem st) r C' (kmem st')" and "vfs.more st' = vfs.more st"
proof (cases "uncached i C")
  case False
  then obtain n r c where n: "C n = Some (i, r, c)" by (auto simp: uncached_def)
  obtain st' where "lookup_sfs_nolock i st = (Some n, st')" and rep': "vfs_rep io dinv blocks img A (C(n \<mapsto> (i, r + 1, c))) st'"
    and fr: "kmem st' = kmem st" "vfs.more st' = vfs.more st"
    using lookup_hit [OF rep n] by blast
  then have "sfs_load_inode i st = Some (Inr n, st')" by (simp add: sfs_load_inode_def)
  then show thesis using that rep' fr loads.hit [where C = C, OF n] by metis
next
  case True
  note miss = lookup_miss [OF rep True]
  show thesis
  proof (cases "kmem st = [] \<or> hd (kmem st) = None")
    case no: True
    then have "sfs_load_inode i st = Some (Inl (- E_NO_MEM), st\<lparr>kmem := tl (kmem st)\<rparr>)"
      using miss by (cases "kmem st") (auto simp: sfs_load_inode_def kmem_alloc_def)
    then show thesis
      by (rule that) (use rep loads.no_din [where C = C, OF True no] in \<open>simp_all add: rep_kmem\<close>)
  next
    case False
    then obtain p ks where ks: "kmem st = Some p # ks" by (cases "kmem st") auto
    let ?k = "st\<lparr>kmem := ks\<rparr>"
    have repk: "vfs_rep io dinv blocks img A C ?k" using rep by (simp add: rep_kmem)
    obtain F where inv: "vfs_inv io dinv blocks img F ?k" and A: "fs_data img (mounted ?k) F = A"
      using repk by (auto simp: vfs_rep_def fs_rep_def)
    obtain f where f: "F i = Some f" using A a by (auto simp: fs_data_def)
    have fw: "file_wf img (mounted st) i f" using files_okD [where F = F and f = f and i = i and s = "mounted st"] f inv by (simp add: vfs_inv_def)
    then have u: "used (mounted st) i" by (simp add: file_wf_def)
    have ok: "fs_ok io dinv blocks (mounted st)" using inv by (simp add: vfs_inv_def)
    have sz: "(0 :: nat) < 4096" "0 + length (replicate sizeof_din (0 :: u8)) \<le> 4096" by (simp_all add: sizeof_din_def)
    obtain fs where rb: "rbuf_obj (mounted st) (replicate sizeof_din 0) i 0 =
        Some (Inr (take (length (replicate sizeof_din (0 :: u8))) (drop 0 (view img (mounted st) (unat i)))), fs)"
      and fs: "fs_ok io dinv blocks fs" "same_disk img (mounted st) fs"
      by (rule rbuf_obj_ok [OF ok u sz])
    let ?m = "?k\<lparr>mounted := fs\<rparr>"
    have repm: "vfs_rep io dinv blocks img A C ?m"
      using repk rep_same [of A ?k fs] fs rep_step by (auto simp: vfs_rep_def cache_same counts_same)
    have v: "view img fs = view img (mounted st)" using fs(2) by (simp add: same_disk_def)
    have d: "din_of (take sizeof_din (view img (mounted st) (unat i))) = din_of (view img (mounted st) (unat i))"
      by (rule din_of_take)
    have start: "sfs_load_inode i st = do {
        kassert (nlinks (din_of (view img (mounted ?m) (unat i))) \<noteq> 0);
        on_ok (sfs_create_inode (din_of (view img (mounted ?m) (unat i))) i ?m) (\<lambda>n st. Some (Inr n, sfs_set_links n st)) }"
      using miss ks rb v d assert_inuse_iff [OF ok, of i] u
      by (simp add: sfs_load_inode_def kmem_alloc_def)
    show thesis
    proof (cases "ks = [] \<or> hd ks = None")
      case no: True
      have nl: "nlinks (din_of (view img (mounted ?m) (unat i))) \<noteq> 0"
      proof -
        have C: "C = cache_of st" using rep by (simp add: vfs_rep_def)
        have un: "ino (node_sin st m) \<noteq> i" if "m \<in> loaded st" for m
          using uncached_node [OF _ that] True C by simp
        have "din_of (view img (mounted st) (unat i)) = fst f"
        proof -
          have "clean_ok img F ?k" "loaded ?k = loaded st" using inv by (simp_all add: vfs_inv_def loaded_def)
          then show ?thesis
            using clean_unloaded [where F = F and st = ?k and i = i and f = f and img = img] f un by simp
        qed
        with fw show ?thesis by (simp add: v file_wf_def)
      qed
      then have "sfs_load_inode i st = Some (Inl (- E_NO_MEM), ?m\<lparr>kmem := tl ks\<rparr>)"
        using start no by (cases ks) (auto simp: sfs_create_inode_def kmem_alloc_def)
      then show thesis
      proof (rule that)
        show "vfs_rep io dinv blocks img A C (?m\<lparr>kmem := tl ks\<rparr>)" using repm by (simp only: rep_kmem)
      qed (use loads.no_node [where C = C, OF True no] ks in simp_all)
    next
      case False
      then obtain n ks' where ks': "ks = Some n # ks'" by (cases ks) auto
      have km: "kmem ?m = Some n # ks'" and fn: "C n = None"
        using ks' ks fresh by (simp_all add: kmem_fresh_def)
      obtain ops st' where ops: "sfs_get_ops (ftype (din_of (view img (mounted ?m) (unat i)))) = Some ops"
        and nl: "nlinks (din_of (view img (mounted ?m) (unat i))) \<noteq> 0"
        and c: "on_ok (sfs_create_inode (din_of (view img (mounted ?m) (unat i))) i ?m)
          (\<lambda>n st. Some (Inr n, sfs_set_links n st)) = Some (Inr n, st')"
        and rep': "vfs_rep io dinv blocks img A (C(n \<mapsto> (i, 1, 0))) st'" and fr: "kmem st' = ks'" "vfs.more st' = vfs.more ?m"
        by (rule create_inode_ok [OF repm a True km fn])
      have "sfs_load_inode i st = Some (Inr n, st')" using start nl c by simp
      then show thesis
        by (rule that) (use rep' fr loads.miss [where C = C, OF True] ks ks' in simp_all)
    qed
  qed
qed

end

end
