(* ===== verification/NodeOps.thy ===== *)
theory NodeOps
  imports NodeCache
begin

text \<open>
  What \<open>inode_ops\<close> gives its clients, on the map of files and the cache: reading, writing and resizing
  through a node, and looking a name up in a directory.
\<close>

text \<open>The cache while a node is held: an extra reference during a load does not show afterwards.\<close>

lemma loads_shift:
  assumes l: "loads j (C(n \<mapsto> (i, r + 1, c))) ks res C1 ks'" and n: "C n = Some (i, r, c)"
    and r: "0 < r" and fresh: "kmem_fresh C ks"
  shows "loads j C ks res (dec_ref n C1) ks'"
proof -
  have u: "uncached j (C(n \<mapsto> (i, r + 1, c))) = uncached j C"
  proof
    assume a: "uncached j (C(n \<mapsto> (i, r + 1, c)))"
    show "uncached j C"
      unfolding uncached_def
    proof (intro allI)
      fix m s d
      have f: "(C(n \<mapsto> (i, r + 1, c))) m \<noteq> Some (j, s, d)" "(C(n \<mapsto> (i, r + 1, c))) n \<noteq> Some (j, r + 1, c)"
        using a unfolding uncached_def by blast+
      show "C m \<noteq> Some (j, s, d)"
      proof (cases "m = n")
        case True
        then show ?thesis using f(2) n by simp
      next
        case False
        then show ?thesis using f(1) by simp
      qed
    qed
  next
    assume a: "uncached j C"
    then have "i \<noteq> j" using n unfolding uncached_def by auto
    with a show "uncached j (C(n \<mapsto> (i, r + 1, c)))" unfolding uncached_def by auto
  qed
  have d: "dec_ref n (C(n \<mapsto> (i, r + 1, c))) = C" using n r by (auto simp: dec_ref_def fun_upd_idem)
  from l show ?thesis
  proof cases
    case (hit m r1 c1)
    show ?thesis
    proof (cases "m = n")
      case True
      then have "dec_ref n C1 = C(n \<mapsto> (i, r + 1, c))" "j = i" using hit r by (auto simp: dec_ref_def)
      then show ?thesis using loads.hit [where C = C, OF n] hit True by simp
    next
      case False
      then have m: "C m = Some (j, r1, c1)" using hit by simp
      have "dec_ref n C1 = C(m \<mapsto> (j, r1 + 1, c1))"
        using hit False n r by (auto simp: dec_ref_def fun_eq_iff)
      then show ?thesis using loads.hit [where C = C, OF m] hit by simp
    qed
  next
    case (miss p m)
    then have "m \<noteq> n" using fresh n by (auto simp: kmem_fresh_def)
    then have "dec_ref n C1 = C(m \<mapsto> (j, 1, 0))"
      using miss n r by (auto simp: dec_ref_def fun_eq_iff)
    then show ?thesis using loads.miss [where C = C] miss u by simp
  next
    case no_din
    then show ?thesis using loads.no_din [where C = C] u d by simp
  next
    case (no_node ks1 p)
    then show ?thesis using loads.no_node [where C = C] u d by simp
  qed
qed

text \<open>A lookup in the entries \<open>es\<close>: one answer of \<open>kmalloc\<close> is for the entry read.\<close>

definition finds ::
  "sfs_disk_entry list \<Rightarrow> u8 list \<Rightarrow> ncache \<Rightarrow> nat option list \<Rightarrow> nat res \<Rightarrow> ncache \<Rightarrow> nat option list \<Rightarrow> bool" where
  "finds es name C ks r C' ks' \<longleftrightarrow>
     (if ks = [] \<or> hd ks = None then r = Inl (- E_NO_MEM) \<and> C' = C \<and> ks' = tl ks
      else case List.find (names name) es of
        None \<Rightarrow> r = Inl (- E_NOENT) \<and> C' = C \<and> ks' = tl ks
      | Some e \<Rightarrow> loads (eino e) C (tl ks) r C' ks')"

lemma finds_shift:
  assumes "finds es name (C(n \<mapsto> (i, r + 1, c))) ks res C1 ks'" and "C n = Some (i, r, c)"
    and "0 < r" and "kmem_fresh C ks"
  shows "finds es name C ks res (dec_ref n C1) ks'"
proof -
  have d: "dec_ref n (C(n \<mapsto> (i, r + 1, c))) = C" using assms(2,3) by (auto simp: dec_ref_def fun_upd_idem)
  show ?thesis
    using assms(1) d loads_shift [OF _ assms(2,3) kmem_fresh_tl [OF assms(4)]]
    by (auto simp: finds_def split: option.splits if_splits)
qed

lemma finds_fresh: "finds es name C ks r C' ks' \<Longrightarrow> kmem_fresh C ks \<Longrightarrow> kmem_fresh C' ks'"
  using kmem_fresh_tl loads_fresh by (auto simp: finds_def split: if_splits option.splits)

lemma finds_Inr:
  assumes "finds es name C ks (Inr n) C' ks'"
  obtains e where "List.find (names name) es = Some e" and "loads (eino e) C (tl ks) (Inr n) C' ks'"
  using assms by (auto simp: finds_def split: if_splits option.splits)

lemma finds_Inl: "finds es name C ks (Inl e) C' ks' \<Longrightarrow> C' = C"
  using loads_Inl by (auto simp: finds_def split: if_splits option.splits)

text \<open>A node that is held keeps its reference during a lookup.\<close>

lemma finds_held:
  assumes fi: "finds es name (C(n \<mapsto> (i, r + 1, c))) ks res C1 ks'" and n: "C n = Some (i, r, c)"
    and fr: "kmem_fresh (C(n \<mapsto> (i, r + 1, c))) ks"
  shows "\<exists>r'. C1 n = Some (i, r', c) \<and> r < r'"
proof -
  let ?C = "C(n \<mapsto> (i, r + 1, c))"
  have n1: "?C n = Some (i, r + 1, c)" by simp
  show ?thesis
  proof (cases res)
    case (Inl e)
    then have "C1 = ?C" using finds_Inl fi by blast
    then show ?thesis by simp
  next
    case (Inr m)
    obtain e where "List.find (names name) es = Some e" and lo: "loads (eino e) ?C (tl ks) (Inr m) C1 ks'"
      by (rule finds_Inr [OF fi [unfolded Inr]])
    obtain r' c' where m: "C1 m = Some (eino e, r', c')" and o: "\<forall>k. k \<noteq> m \<longrightarrow> C1 k = ?C k"
      and h: "?C m = Some (eino e, r' - 1, c') \<or> r' = 1 \<and> c' = 0 \<and> uncached (eino e) ?C"
      by (rule loads_Inr [OF lo])
    show ?thesis
    proof (cases "m = n")
      case True
      have "\<not> uncached (eino e) ?C \<or> eino e \<noteq> i" unfolding uncached_def using n1 by blast
      moreover have "\<not> uncached (eino e) ?C" if "eino e \<noteq> i"
      proof
        assume "uncached (eino e) ?C"
        with lo have "m \<noteq> n"
          by cases (use fr kmem_fresh_tl [OF fr] n1 in \<open>auto simp: kmem_fresh_def uncached_def\<close>)
        then show False using True by simp
      qed
      ultimately have "?C m = Some (eino e, r' - 1, c')" using h by blast
      then show ?thesis using m True by auto
    next
      case False
      then show ?thesis using o by simp
    qed
  qed
qed

context block_device
begin

lemma read_rep:
  assumes rep: "vfs_rep io dinv blocks img A C st" and n: "C n = Some (i, r, c)" "r < MAX_INODE_COUNT"
    and a: "A i = Some (Inr b)"
    and off: "0 \<le> io_offset iob" "io_offset iob < int SFS_MAX_FILE_SIZE" "io_offset iob + int (io_resid iob) < 2 ^ 63"
    and buf: "io_base iob + io_resid iob \<le> length (io_buf iob)"
  obtains iob' st' where "vop_read n iob st = Some (0, iob', st')" and "vfs_rep io dinv blocks img A C st'"
    and "kmem st' = kmem st" and "vfs.more st' = vfs.more st"
    and "let bytes = take (io_resid iob) (drop (nat (io_offset iob)) b) in
      iob_done iob (length bytes) (splice (io_base iob) bytes (io_buf iob)) iob'"
proof -
  note N = rep_cache [OF rep n(1)]
  have a': "A (ino (node_sin st n)) = Some (Inr b)" using a N(3) by simp
  obtain iob' st' where v: "vop_read n iob st = Some (0, iob', st')" and r: "fs_rep io dinv blocks img A st'"
    and s: "same_cache st st'" and i: "let bytes = take (io_resid iob) (drop (nat (io_offset iob)) b) in
      iob_done iob (length bytes) (splice (io_base iob) bytes (io_buf iob)) iob'"
    by (rule vop_read_ok [OF N(1,2) N(10) [OF n(2)] a' off buf])
  show thesis by (rule that [OF v rep_step [OF rep r s] same_cacheD(7,8) [OF s] i])
qed

lemma write_rep:
  assumes rep: "vfs_rep io dinv blocks img A C st" and n: "C n = Some (i, r, c)" "r < MAX_INODE_COUNT"
    and a: "A i = Some (Inr b)"
    and off: "0 \<le> io_offset iob" "nat (io_offset iob) \<le> length b" "nat (io_offset iob) + io_resid iob \<le> 4096 * 1036"
    and buf: "io_base iob + io_resid iob \<le> length (io_buf iob)"
  obtains ret k iob' st' where "vop_write n iob st = Some (ret, iob', st')"
    and "ret = 0 \<and> k = io_resid iob \<or> ret = - E_NO_MEM \<and> k \<le> io_resid iob"
    and "iob_done iob k (io_buf iob) iob'"
    and "vfs_rep io dinv blocks img
      (A(i \<mapsto> Inr (overwrite (nat (io_offset iob)) (take k (drop (io_base iob) (io_buf iob))) b))) C st'"
    and "kmem st' = kmem st" and "vfs.more st' = vfs.more st"
proof -
  note N = rep_cache [OF rep n(1)]
  have a': "A (ino (node_sin st n)) = Some (Inr b)" using a N(3) by simp
  obtain ret k iob' st' where v: "vop_write n iob st = Some (ret, iob', st')"
    and k: "ret = 0 \<and> k = io_resid iob \<or> ret = - E_NO_MEM \<and> k \<le> io_resid iob"
    and i: "iob_done iob k (io_buf iob) iob'"
    and r: "fs_rep io dinv blocks img (A(ino (node_sin st n) \<mapsto>
      Inr (overwrite (nat (io_offset iob)) (take k (drop (io_base iob) (io_buf iob))) b))) st'"
    and s: "same_cache st st'"
    by (rule vop_write_ok [OF N(1,2) N(10) [OF n(2)] a' off buf])
  show thesis by (rule that [OF v k i rep_step [OF rep r [unfolded N(3)] s] same_cacheD(7,8) [OF s]])
qed

lemma truncate_rep:
  assumes rep: "vfs_rep io dinv blocks img A C st" and n: "C n = Some (i, r, c)" "r < MAX_INODE_COUNT"
    and a: "A i = Some (Inr b)"
  obtains st' where "vop_truncate n 0 st = Some (0, st')" and "vfs_rep io dinv blocks img (A(i \<mapsto> Inr [])) C st'"
    and "kmem st' = kmem st" and "vfs.more st' = vfs.more st"
proof -
  note N = rep_cache [OF rep n(1)]
  have a': "A (ino (node_sin st n)) = Some (Inr b)" using a N(3) by simp
  have ops: "in_ops (nodes st n) = sfs_node_fileops" using node_dir(2) [OF N(1,2)] a' by blast
  obtain c' fs x where t: "sfs_truncfile (mounted st) (node_sin st n) 0 = Some (Inr (), fs, x)"
    and c': "length c' = nat 0"
    and r: "fs_rep io dinv blocks img (A(ino (node_sin st n) \<mapsto> Inr c')) (put_sin n fs x st)"
    and s: "same_cache st (put_sin n fs x st)"
    by (rule truncfile_rep [OF N(1,2) a', of 0]) simp_all
  have "vop_truncate n 0 st = Some (0, put_sin n fs x st)"
    using ops t N(10) [OF n(2)] by (simp add: vop_truncate_def vop_def res_ret_def)
  moreover have "c' = []" using c' by simp
  ultimately show thesis
    using that rep_step [OF rep r [unfolded N(3)] s] same_cacheD(7,8) [OF s] by simp
qed

text \<open>A seek inside the file keeps it. Past the end it resizes the file; here with enough free blocks.\<close>

lemma tryseek_rep:
  assumes rep: "vfs_rep io dinv blocks img A C st" and n: "C n = Some (i, r, c)" "r < MAX_INODE_COUNT"
    and a: "A i = Some (Inr b)" and pos: "0 \<le> pos" "nat pos \<le> length b" "pos < int SFS_MAX_FILE_SIZE"
  shows "vop_tryseek n pos st = Some (0, st)"
proof -
  note N = rep_cache [OF rep n(1)]
  have a': "A (ino (node_sin st n)) = Some (Inr b)" using a N(3) by simp
  have ops: "in_ops (nodes st n) = sfs_node_fileops" using node_dir(2) [OF N(1,2)] a' by blast
  obtain F bs where inv: "vfs_inv io dinv blocks img F st"
    and wf: "file_wf img (mounted st) (ino (node_sin st n)) (din (node_sin st n), bs)"
    and a2: "A (ino (node_sin st n)) = Some (fdata_of img (mounted st) (din (node_sin st n), bs))"
    by (rule rep_node [OF N(1,2)])
  have ok: "fs_ok io dinv blocks (mounted st)" using inv by (simp add: vfs_inv_def)
  have ty: "ftype (din (node_sin st n)) \<noteq> SFS_TYPE_DIR" and b: "file_bytes img (mounted st) (din (node_sin st n)) bs = b"
    using a' a2 by (auto simp: fdata_of_def split: if_splits)
  have f: "file_ok img (mounted st) (din (node_sin st n)) bs" using wf ty by (simp add: file_wf_def)
  have "unat (fsize (din (node_sin st n))) = length b" using file_bytes_length [OF ok f] b by simp
  then have "uint (fsize (din (node_sin st n))) = int (length b)" by (simp add: uint_nat)
  moreover have "\<not> int (length b) < pos" using pos by linarith
  ultimately show ?thesis
    using ops pos N(10) [OF n(2)]
    by (simp add: vop_tryseek_def vop_def sfs_tryseek_def res_ret_def put_sin_same)
qed

lemma fstat_rep:
  assumes rep: "vfs_rep io dinv blocks img A C st" and n: "C n = Some (i, r, c)" "r < MAX_INODE_COUNT"
  obtains s where "vop_fstat n st = Some s"
    and "\<forall>b. A i = Some (Inr b) \<longrightarrow> st_mode s = S_IFREG \<and> unat (st_size s) = length b"
    and "\<forall>es. A i = Some (Inl es) \<longrightarrow> st_mode s = S_IFDIR \<and> unat (st_blocks s) = length es"
proof -
  note N = rep_cache [OF rep n(1)]
  let ?d = "din (node_sin st n)"
  obtain F bs where inv: "vfs_inv io dinv blocks img F st"
    and wf: "file_wf img (mounted st) (ino (node_sin st n)) (?d, bs)"
    and a2: "A (ino (node_sin st n)) = Some (fdata_of img (mounted st) (?d, bs))"
    by (rule rep_node [OF N(1,2)])
  have ok: "fs_ok io dinv blocks (mounted st)" using inv by (simp add: vfs_inv_def)
  have u: "unat (ucast (w :: u32) :: u64) = unat w" for w by (rule unat_ucast_u32_u64)
  have fb: "unat (fblocks ?d) = length bs" using wf by (simp add: file_wf_def file_rep_def)
  show thesis
  proof (cases "ftype ?d = SFS_TYPE_DIR")
    case True
    then have "A i = Some (Inl (dirents img (mounted st) bs))" using a2 N(3) by (simp add: fdata_of_def)
    then show thesis
      using that [of "\<lparr>st_mode = S_IFDIR, st_nlinks = ucast (nlinks ?d), st_blocks = ucast (fblocks ?d), st_size = ucast (fsize ?d)\<rparr>"]
        True N(10) [OF n(2)] u fb
      by (simp add: vop_fstat_def vop_all sfs_fstat_def vop_gettype_def sfs_gettype_def Let_def)
  next
    case False
    then have tf: "ftype ?d = SFS_TYPE_FILE" and f: "file_ok img (mounted st) ?d bs" using wf by (auto simp: file_wf_def)
    have "A i = Some (Inr (file_bytes img (mounted st) ?d bs))" using a2 N(3) False by (simp add: fdata_of_def)
    then show thesis
      using that [of "\<lparr>st_mode = S_IFREG, st_nlinks = ucast (nlinks ?d), st_blocks = ucast (fblocks ?d), st_size = ucast (fsize ?d)\<rparr>"]
        False tf N(10) [OF n(2)] u file_bytes_length [OF ok f]
      by (simp add: vop_fstat_def vop_all sfs_fstat_def vop_gettype_def sfs_gettype_def Let_def)
  qed
qed

section \<open>Looking up names\<close>

lemma lookup_once_ok:
  assumes rep: "vfs_rep io dinv blocks img A C st" and n: "C n = Some (i, r, c)"
    and a: "A i = Some (Inl es)" and len: "length name \<le> SFS_MAX_FNAME_LEN" and fresh: "kmem_fresh C (kmem st)"
  obtains res C' st' where "sfs_lookup_once n name st = Some (res, st')"
    and "vfs_rep io dinv blocks img A C' st'" and "finds es name C (kmem st) res C' (kmem st')"
    and "vfs.more st' = vfs.more st"
proof -
  note N = rep_cache [OF rep n]
  let ?x = "node_sin st n" and ?s = "mounted st"
  obtain F bs where inv: "vfs_inv io dinv blocks img F st" and A: "fs_data img ?s F = A"
    and Fi: "F (ino ?x) = Some (din ?x, bs)" and wf: "file_wf img ?s (ino ?x) (din ?x, bs)"
    and a2: "A (ino ?x) = Some (fdata_of img ?s (din ?x, bs))"
    by (rule rep_node [OF N(1,2)])
  have ok: "fs_ok io dinv blocks ?s" and fo: "files_ok img ?s F" using inv by (simp_all add: vfs_inv_def)
  have dir: "ftype (din ?x) = SFS_TYPE_DIR" and es: "dirents img ?s bs = es"
    using a a2 N(3) by (auto simp: fdata_of_def split: if_splits)
  have rp: "file_rep img ?s (din ?x) bs" using wf by (simp add: file_wf_def)
  have fb: "unat (fblocks (din ?x)) = length bs" using rp by (simp add: file_rep_def)
  show thesis
  proof (cases "kmem st = [] \<or> hd (kmem st) = None")
    case True
    let ?st = "st\<lparr>kmem := tl (kmem st)\<rparr>"
    have "sfs_lookup_once n name st = Some (Inl (- E_NO_MEM), ?st)"
      using True len
      by (cases "kmem st")
        (auto simp: sfs_lookup_once_def kmem_alloc_def sfs_dirent_search_nolock_def Let_def put_sin_def upd_node_def)
    then show thesis by (rule that) (use rep True in \<open>simp_all add: rep_kmem finds_def\<close>)
  next
    case False
    then obtain p ks where ks: "kmem st = Some p # ks" by (cases "kmem st") auto
    let ?k = "st\<lparr>kmem := ks\<rparr>"
    have repk: "vfs_rep io dinv blocks img A C ?k" using rep by (simp add: rep_kmem)
    have k0: "0 + length bs = length bs" by simp
    obtain q free' fs where se: "dirent_search (length bs) 0 name (length bs) ?s ?x = Some (q, free', fs, ?x)"
      and fs: "fs_ok io dinv blocks fs" "same_disk img ?s fs"
      and q: "case q of Inl e \<Rightarrow> e = - E_NOENT \<and> List.find (names name) (drop 0 (dirents img ?s bs)) = None
        | Inr (m, j) \<Rightarrow> j < length bs \<and> eino (dirents img ?s bs ! j) = m \<and>
            List.find (names name) (drop 0 (dirents img ?s bs)) = Some (dirents img ?s bs ! j)"
      using dirent_search_ok [OF ok rp dir k0, of name "length bs"] by blast
    let ?m = "?k\<lparr>mounted := fs\<rparr>"
    have repm: "vfs_rep io dinv blocks img A C ?m"
      using repk rep_same [of A ?k fs] fs rep_step by (auto simp: vfs_rep_def cache_same counts_same)
    have start: "sfs_lookup_once n name st = on_ok (Some (q, ?m)) (\<lambda>(i, _) st. sfs_load_inode i st)"
    proof -
      have "put_sin n fs ?x ?k = ?m" using put_sin_same [of n fs ?k] by simp
      then have p: "put_sin n fs ?x (st\<lparr>kmem := ks\<rparr>) = ?m" .
      show ?thesis
        using ks len se fb
        by (simp add: p sfs_lookup_once_def kmem_alloc_def sfs_dirent_search_nolock_def Let_def)
    qed
    show thesis
    proof (cases q)
      case (Inl e)
      then have "sfs_lookup_once n name st = Some (Inl (- E_NOENT), ?m)" using start q by simp
      then show thesis by (rule that) (use repm ks q es Inl in \<open>simp_all add: finds_def\<close>)
    next
      case (Inr mj)
      obtain m j where mj: "mj = (m, j)" by (cases mj)
      then have e: "List.find (names name) es = Some (es ! j)" "eino (es ! j) = m" and j: "j < length es"
        using q Inr es length_dirents [of img ?s bs] by auto
      then have "names name (es ! j)" by (auto simp: find_Some_iff)
      then have nz: "eino (es ! j) \<noteq> 0" by (simp add: names_def)
      have "es ! j \<in> set (dirents img ?s bs)" using es j by simp
      then have "F (eino (es ! j)) \<noteq> None"
        using fo Fi dir nz unfolding files_ok_def by fastforce
      then obtain v where v: "A m = Some v" using A e(2) by (auto simp: fs_data_def)
      have fr: "kmem_fresh C (kmem ?m)" using fresh ks kmem_fresh_tl [of C "kmem st"] by simp
      obtain res C' st' where l: "sfs_load_inode m ?m = Some (res, st')" and r: "vfs_rep io dinv blocks img A C' st'"
        and lo: "loads m C (kmem ?m) res C' (kmem st')" and mo: "vfs.more st' = vfs.more ?m"
        by (rule load_inode_ok [OF repm v fr])
      have "sfs_lookup_once n name st = Some (res, st')" using start Inr mj l by simp
      then show thesis by (rule that) (use r lo mo ks e in \<open>simp_all add: finds_def\<close>)
    qed
  qed
qed

lemma lookup_ok:
  assumes rep: "vfs_rep io dinv blocks img A C st" and n: "C n = Some (i, r, c)" "r < MAX_INODE_COUNT"
    and a: "A i = Some (Inl es)" and len: "length name \<le> SFS_MAX_FNAME_LEN" "name \<noteq> []" "hd name \<noteq> SLASH"
    and fresh: "kmem_fresh C (kmem st)"
  obtains res C' st' where "vop_lookup n name st = Some (res, st')"
    and "vfs_rep io dinv blocks img A C' st'" and "finds es name C (kmem st) res C' (kmem st')"
    and "vfs.more st' = vfs.more st"
proof -
  note N = rep_cache [OF rep n(1)]
  have a': "A (ino (node_sin st n)) = Some (Inl es)" using a N(3) by simp
  have ops: "in_ops (nodes st n) = sfs_node_dirops" using node_dir(1) [OF N(1,2)] a' by blast
  let ?C = "C(n \<mapsto> (i, r + 1, c))" and ?s = "snd (inode_ref_inc n st)"
  have rep1: "vfs_rep io dinv blocks img A ?C ?s" by (rule ref_inc_ok(2) [OF rep n(1)])
  have n1: "?C n = Some (i, r + 1, c)" by simp
  note N1 = rep_cache [OF rep1 n1]
  have dir: "ftype (din (node_sin ?s n)) = SFS_TYPE_DIR"
  proof -
    have "ftype (din (node_sin st n)) = SFS_TYPE_DIR" using node_dir(3) [OF N(1,2)] ops by blast
    then show ?thesis by (simp add: inode_ref_inc_def)
  qed
  have fr: "kmem_fresh ?C (kmem ?s)" using fresh n(1) by (auto simp: kmem_fresh_def)
  obtain res C1 s1 where l: "sfs_lookup_once n name ?s = Some (res, s1)" and rep2: "vfs_rep io dinv blocks img A C1 s1"
    and fi: "finds es name ?C (kmem ?s) res C1 (kmem s1)" and mo: "vfs.more s1 = vfs.more ?s"
    by (rule lookup_once_ok [OF rep1 n1 a len(1) fr])
  have n2: "\<exists>r'. C1 n = Some (i, r', c) \<and> r < r'" by (rule finds_held [OF fi n(1) fr])
  then obtain r' where n2: "C1 n = Some (i, r', c)" "r < r'" by blast
  have "c < r'" using n2 N(8) by simp
  then obtain s2 where d: "inode_ref_dec n s1 = Some (r' - 1, s2)" and rep3: "vfs_rep io dinv blocks img A (dec_ref n C1) s2"
    and f: "kmem s2 = kmem s1" "vfs.more s2 = vfs.more s1"
    by (rule ref_dec_ok [OF rep2 n2(1)])
  have "vop_lookup n name st = Some (res, s2)"
    using ops N(10) [OF n(2)] len(2,3) dir l d
    by (simp add: vop_lookup_def vop_def sfs_lookup_def)
  moreover have "finds es name C (kmem st) res (dec_ref n C1) (kmem s2)"
    using finds_shift [OF fi n(1) N(6)] fresh f by simp
  ultimately show thesis using that rep3 f mo by simp
qed

section \<open>Listing a directory\<close>

lemma length_ename:
  assumes "fs_ok io dinv blocks s" and "file_rep img s d bs" and "e \<in> set (dirents img s bs)"
  shows "length (ename e) = sfs_dentry_size"
proof -
  obtain b where b: "b \<in> set bs" and e: "e = end_name (entry_of (take sizeof_entry (view img s (unat b))))"
    using assms(3) by (auto simp: dirents_def)
  have "used s b" using file_rep_used [OF assms(2)] b by (simp add: owned_def)
  then have "length (view img s (unat b)) = 4096" using view_length [OF assms(1), of b] by (simp add: used_def)
  then show ?thesis
    by (simp add: e end_name_def entry_of_def sizeof_entry_def sfs_dentry_size_def SFS_MAX_FNAME_LEN_def)
qed

text \<open>The name at the offset \<open>256 * k\<close> is the one of the \<open>k\<close>th entry in use.\<close>

lemma getdirentry_rep:
  assumes rep: "vfs_rep io dinv blocks img A C st" and n: "C n = Some (i, r, c)" "r < MAX_INODE_COUNT"
    and a: "A i = Some (Inl es)" and ks: "kmem st = Some p # ks"
    and off: "io_offset iob = int (256 * k)" "k \<le> length es"
    and buf: "io_resid iob = 256" "io_base iob + 256 \<le> length (io_buf iob)"
  obtains ret iob' st' where "vop_getdirentry n iob st = Some (ret, iob', st')"
    and "vfs_rep io dinv blocks img A C st'" and "kmem st' = ks" and "vfs.more st' = vfs.more st"
    and "if k < length (live_entries es)
      then ret = 0 \<and> iob_done iob 256 (splice (io_base iob) (ename (live_entries es ! k)) (io_buf iob)) iob'
      else ret = - E_NOENT \<and> iob' = iob"
proof -
  note N = rep_cache [OF rep n(1)]
  let ?x = "node_sin st n" and ?s = "mounted st" and ?k = "st\<lparr>kmem := ks\<rparr>"
  have a': "A (ino ?x) = Some (Inl es)" using a N(3) by simp
  have ops: "in_ops (nodes st n) = sfs_node_dirops" using node_dir(1) [OF N(1,2)] a' by blast
  obtain F bs where inv: "vfs_inv io dinv blocks img F st"
    and wf: "file_wf img ?s (ino ?x) (din ?x, bs)" and a2: "A (ino ?x) = Some (fdata_of img ?s (din ?x, bs))"
    by (rule rep_node [OF N(1,2)])
  have ok: "fs_ok io dinv blocks ?s" using inv by (simp add: vfs_inv_def)
  have dir: "ftype (din ?x) = SFS_TYPE_DIR" and es: "dirents img ?s bs = es"
    using a' a2 by (auto simp: fdata_of_def split: if_splits)
  have rp: "file_rep img ?s (din ?x) bs" using wf by (simp add: file_wf_def)
  have fb: "unat (fblocks (din ?x)) = length bs" using rp by (simp add: file_rep_def)
  have le: "length es = length bs" using es length_dirents [of img ?s bs] by simp
  have kb: "k \<le> unat (fblocks (din ?x))" using off(2) fb le by simp
  have "k < 2 ^ 32" using kb unsigned_less [of "fblocks (din ?x)", where ?'a = nat] by simp
  then have uk: "unat (word_of_nat k :: u32) = k" by (simp add: unat_of_nat take_bit_nat_eq_self)
  have dv: "io_offset iob div int sfs_dentry_size = int k" "io_offset iob mod int sfs_dentry_size = 0" "\<not> io_offset iob < 0"
    using off(1) by (simp_all add: sfs_dentry_size_def SFS_MAX_FNAME_LEN_def)
  have nk: "\<not> (word_of_nat k :: u32) > fblocks (din ?x)" using uk kb by (simp add: word_less_nat_alt)
  have z: "0 + length bs = length bs" by simp
  obtain fs where g: "getdirentry_sub (length bs) 0 k ?s ?x = Some (let es = live_entries (drop 0 (dirents img ?s bs)) in
        if k < length es then Inr (es ! k) else Inl (- E_NOENT), fs, ?x)"
    and fs: "fs_ok io dinv blocks fs" "same_disk img ?s fs"
    using getdirentry_sub_ok [OF ok rp dir z] by blast
  have repk: "vfs_rep io dinv blocks img A C ?k" using rep by (simp add: rep_kmem)
  let ?m = "?k\<lparr>mounted := fs\<rparr>"
  have repm: "vfs_rep io dinv blocks img A C ?m"
    using repk rep_same [of A ?k fs] fs rep_step by (auto simp: vfs_rep_def cache_same counts_same)
  have "put_sin n fs ?x ?k = ?m" using put_sin_same [of n fs ?k] by simp
  then have p: "put_sin n fs ?x (st\<lparr>kmem := ks\<rparr>) = ?m" .
  have start: "vop_getdirentry n iob st = (case (if k < length (live_entries es) then Inr (live_entries es ! k) else Inl (- E_NOENT)) of
       Inl e \<Rightarrow> Some (e, iob, put_sin n fs ?x (st\<lparr>kmem := ks\<rparr>))
     | Inr entry \<Rightarrow> do { (ret, _, iob, _) \<leftarrow> iobuf_move iob (ename entry) sfs_dentry_size True;
         Some (ret, iob, put_sin n fs ?x (st\<lparr>kmem := ks\<rparr>)) })"
    using ops N(10) [OF n(2)] ks dv nk uk fb g es
    by (simp add: vop_getdirentry_def vop_def sfs_getdirentry_def kmem_alloc_def sfs_getdirentry_sub_nolock_def Let_def)
  note start = start [unfolded p]
  show thesis
  proof (cases "k < length (live_entries es)")
    case False
    then have "vop_getdirentry n iob st = Some (- E_NOENT, iob, ?m)" using start by simp
    then show thesis by (rule that) (use repm False in simp_all)
  next
    case True
    then have "live_entries es ! k \<in> set es" using nth_mem [OF True] by (auto simp: live_entries_def)
    then have ln: "length (ename (live_entries es ! k)) = 256"
      using length_ename [OF ok rp] es by (simp add: sfs_dentry_size_def SFS_MAX_FNAME_LEN_def)
    obtain iob' where mv: "iobuf_move iob (ename (live_entries es ! k)) 256 True = Some (0, 256, iob', ename (live_entries es ! k))"
      and i: "iob_done iob 256 (splice (io_base iob) (take 256 (ename (live_entries es ! k))) (io_buf iob)) iob'"
      by (rule iobuf_move_in [of 256 iob "ename (live_entries es ! k)"]) (use buf ln in simp_all)
    have "vop_getdirentry n iob st = Some (0, iob', ?m)"
      using start True mv by (simp add: sfs_dentry_size_def SFS_MAX_FNAME_LEN_def)
    then show thesis by (rule that) (use repm True i ln in simp_all)
  qed
qed

end

end
