(* ===== verification/Vfs.thy ===== *)
theory Vfs
  imports NodeOps
begin

text \<open>
  The virtual file system: the names of \<open>lab8/kern/fs/vfs/vfslookup.c\<close>, opening and closing nodes
  (\<open>vfsfile.c\<close>), the working directory (\<open>vfspath.c\<close>), the boot file system (\<open>vfs.c\<close>) and the list of
  devices of \<open>vfsdev.c\<close>, with the tables of open files of \<open>kern/fs/file.h\<close> and \<open>fs.h\<close> in the state.

  The state extends the one of the nodes. A pointer to a \<open>files_struct\<close> is an address; a name is its
  bytes without the terminating zero. \<open>get_device\<close> writes a zero into the caller's string, so the
  functions on names also return what is left of the name. A function returns \<open>None\<close> when the kernel
  panics.
\<close>

section \<open>State\<close>

datatype fd_status = FD_NONE | FD_INIT | FD_OPENED | FD_CLOSED

record ofile =
  f_status :: fd_status
  f_readable :: bool
  f_writable :: bool
  f_fd :: int
  f_pos :: int
  f_node :: "nat option"
  f_open_count :: int

record files_struct =
  pwd :: "nat option"
  fd_array :: "ofile list"
  fcount :: int  \<comment> \<open>\<open>files_count\<close>: the processes that share it\<close>

text \<open>\<open>vd_fs\<close> says whether \<open>fs\<close> is the mounted file system or null.\<close>

record vfs_dev =
  vd_name :: "u8 list"
  vd_node :: "nat option"
  vd_fs :: bool
  vd_mountable :: bool

record 'd kfs = "'d vfs" +
  bootfs_node :: "nat option"
  vdev_list :: "vfs_dev list"
  fstructs :: "nat \<Rightarrow> files_struct"
  cur_filesp :: "nat option"  \<comment> \<open>\<open>current->filesp\<close>\<close>

definition upd_fs :: "nat \<Rightarrow> (files_struct \<Rightarrow> files_struct) \<Rightarrow> ('d, 'z) kfs_scheme \<Rightarrow> ('d, 'z) kfs_scheme" where
  "upd_fs p f st = st\<lparr>fstructs := (fstructs st)(p := f (fstructs st p))\<rparr>"

section \<open>Where a name starts\<close>

definition E_TOO_BIG :: int where "E_TOO_BIG = 12"
definition E_NA_DEV :: int where "E_NA_DEV = 14"

definition vfs_get_curdir :: "('d, 'z) kfs_scheme \<Rightarrow> (nat res \<times> ('d, 'z) kfs_scheme) option" where
  "vfs_get_curdir st = do {
     p \<leftarrow> cur_filesp st;
     Some (case pwd (fstructs st p) of
       None \<Rightarrow> (Inl (- E_NOENT), st)
     | Some n \<Rightarrow> (Inr n, snd (inode_ref_inc n st)))
   }"

definition vfs_get_bootfs :: "('d, 'z) kfs_scheme \<Rightarrow> nat res \<times> ('d, 'z) kfs_scheme" where
  "vfs_get_bootfs st = (case bootfs_node st of
     None \<Rightarrow> (Inl (- E_NOENT), st)
   | Some n \<Rightarrow> (Inr n, snd (inode_ref_inc n st)))"

definition vfs_get_root :: "u8 list \<Rightarrow> ('d, 'z) kfs_scheme \<Rightarrow> (nat res \<times> ('d, 'z) kfs_scheme) option" where
  "vfs_get_root devname st =
     (case List.find (\<lambda>v. devname = vd_name v) (vdev_list st) of
        None \<Rightarrow> Some (Inl (- E_NO_DEV), st)
      | Some v \<Rightarrow>
          if vd_fs v then map_option (\<lambda>(n, st). (Inr n, st)) (sfs_get_root st)
          else if \<not> vd_mountable v then do {
            n \<leftarrow> vd_node v;
            Some (Inr n, snd (inode_ref_inc n st))
          } else Some (Inl (- E_NA_DEV), st))"

text \<open>The loop of \<open>get_device\<close>: the position of the first slash or colon, whichever comes first.\<close>

fun path_scan :: "nat \<Rightarrow> u8 list \<Rightarrow> nat option \<times> nat option" where
  "path_scan i [] = (None, None)"
| "path_scan i (c # cs) =
     (if c = COLON then (None, Some i) else if c = SLASH then (Some i, None) else path_scan (Suc i) cs)"

text \<open>The result is the node to start at and the subpath; then the caller's string.\<close>

definition get_device ::
  "u8 list \<Rightarrow> ('d, 'z) kfs_scheme \<Rightarrow> ((nat \<times> u8 list) res \<times> u8 list \<times> ('d, 'z) kfs_scheme) option" where
  "get_device path st =
     (let (slash, colon) = path_scan 0 path in
      if colon = None \<and> slash \<noteq> Some 0 then do {
        (r, st) \<leftarrow> vfs_get_curdir st;
        Some (map_sum id (\<lambda>n. (n, path)) r, path, st)
      } else (case colon of
        Some (Suc k) \<Rightarrow> do {
          (r, st) \<leftarrow> vfs_get_root (take (Suc k) path) st;
          let subpath = dropWhile (\<lambda>c. c = SLASH) (drop (k + 2) path);
          Some (map_sum id (\<lambda>n. (n, subpath)) r, take (Suc k) path, st)
        }
      | _ \<Rightarrow> do {
          let subpath = dropWhile (\<lambda>c. c = SLASH) (tl path);
          if hd path = SLASH then do {
            let (r, st) = vfs_get_bootfs st;
            Some (map_sum id (\<lambda>n. (n, subpath)) r, path, st)
          } else do {
            kassert (hd path = COLON);
            (r, st) \<leftarrow> vfs_get_curdir st;
            (case r of
               Inl e \<Rightarrow> Some (Inl e, path, st)
             | Inr node \<Rightarrow> do {
                 (n, st) \<leftarrow> sfs_get_root st;
                 (_, st) \<leftarrow> inode_ref_dec node st;
                 Some (Inr (n, subpath), path, st)
               })
          }
        }))"

definition vfs_lookup ::
  "u8 list \<Rightarrow> ('d, 'z) kfs_scheme \<Rightarrow> (nat res \<times> u8 list \<times> ('d, 'z) kfs_scheme) option" where
  "vfs_lookup path st = do {
     (r, path, st) \<leftarrow> get_device path st;
     (case r of
        Inl e \<Rightarrow> Some (Inl e, path, st)
      | Inr (node, sub) \<Rightarrow>
          if sub \<noteq> [] then do {
            (r, st) \<leftarrow> vop_lookup node sub st;
            (_, st) \<leftarrow> inode_ref_dec node st;
            Some (r, path, st)
          } else Some (Inr node, path, st))
   }"

definition vfs_lookup_parent ::
  "u8 list \<Rightarrow> ('d, 'z) kfs_scheme \<Rightarrow> ((nat \<times> u8 list) res \<times> u8 list \<times> ('d, 'z) kfs_scheme) option" where
  "vfs_lookup_parent path st = get_device path st"

section \<open>Opening and closing\<close>

text \<open>The end of \<open>vfs_open\<close>, from the call of \<open>vop_open\<close> on.\<close>

definition vfs_open_node ::
  "nat \<Rightarrow> u32 \<Rightarrow> u8 list \<Rightarrow> ('d, 'z) kfs_scheme \<Rightarrow> (nat res \<times> u8 list \<times> ('d, 'z) kfs_scheme) option" where
  "vfs_open_node node open_flags path st = do {
     ret \<leftarrow> vop_open node open_flags st;
     if ret \<noteq> 0 then do {
       (_, st) \<leftarrow> inode_ref_dec node st;
       Some (Inl ret, path, st)
     } else do {
       let st = snd (inode_open_inc node st);
       let create = (open_flags AND O_CREAT \<noteq> 0);
       (ret, st) \<leftarrow> (if open_flags AND O_TRUNC \<noteq> 0 \<or> create then vop_truncate node 0 st else Some (0, st));
       if ret \<noteq> 0 then do {
         (_, st) \<leftarrow> inode_open_dec node st;
         (_, st) \<leftarrow> inode_ref_dec node st;
         Some (Inl ret, path, st)
       } else Some (Inr node, path, st)
     }
   }"

definition vfs_open ::
  "u8 list \<Rightarrow> u32 \<Rightarrow> ('d, 'z) kfs_scheme \<Rightarrow> (nat res \<times> u8 list \<times> ('d, 'z) kfs_scheme) option" where
  "vfs_open path open_flags st =
     (let acc = open_flags AND O_ACCMODE; can_write = (acc = O_WRONLY \<or> acc = O_RDWR) in
      if acc \<noteq> O_RDONLY \<and> \<not> can_write then Some (Inl (- E_INVAL), path, st)
      else if open_flags AND O_TRUNC \<noteq> 0 \<and> \<not> can_write then Some (Inl (- E_INVAL), path, st)
      else do {
        let excl = (open_flags AND O_EXCL \<noteq> 0);
        let create = (open_flags AND O_CREAT \<noteq> 0);
        (r, path, st) \<leftarrow> vfs_lookup path st;
        (r, path, st) \<leftarrow> (case r of
           Inl e \<Rightarrow>
             if e = - 16 \<and> create then do {
               (r, path, st) \<leftarrow> vfs_lookup_parent path st;
               (case r of
                  Inl e \<Rightarrow> Some (Inl e, path, st)
                | Inr (dir, name) \<Rightarrow> do {
                    (r, st) \<leftarrow> vop_create dir name excl st;
                    Some (r, path, st) })
             } else Some (Inl e, path, st)
         | Inr node \<Rightarrow> if excl \<and> create then Some (Inl (- E_EXISTS), path, st) else Some (Inr node, path, st));
        (case r of
           Inl e \<Rightarrow> Some (Inl e, path, st)
         | Inr node \<Rightarrow> vfs_open_node node open_flags path st)
      })"

definition vfs_close :: "nat \<Rightarrow> ('d, 'z) kfs_scheme \<Rightarrow> ('d, 'z) kfs_scheme option" where
  "vfs_close node st = do {
     (_, st) \<leftarrow> inode_open_dec node st;
     (_, st) \<leftarrow> inode_ref_dec node st;
     Some st
   }"

section \<open>The working directory and the boot file system\<close>

definition S_ISDIR :: "u32 \<Rightarrow> bool" where
  "S_ISDIR mode \<longleftrightarrow> mode AND S_IFMT = S_IFDIR"

definition vfs_set_curdir :: "nat option \<Rightarrow> ('d, 'z) kfs_scheme \<Rightarrow> (int \<times> ('d, 'z) kfs_scheme) option" where
  "vfs_set_curdir dir st = do {
     p \<leftarrow> cur_filesp st;
     let old_dir = pwd (fstructs st p);
     if old_dir = dir then Some (0, st)
     else do {
       (ret, st) \<leftarrow> (case dir of None \<Rightarrow> Some (0, st)
         | Some n \<Rightarrow> do {
             type \<leftarrow> vop_gettype n st;
             if \<not> S_ISDIR type then Some (- E_NOTDIR, st) else Some (0, snd (inode_ref_inc n st)) });
       if ret \<noteq> 0 then Some (ret, st)
       else do {
         let st = upd_fs p (\<lambda>x. x\<lparr>pwd := dir\<rparr>) st;
         st \<leftarrow> (case old_dir of None \<Rightarrow> Some st | Some n \<Rightarrow> map_option snd (inode_ref_dec n st));
         Some (0, st)
       }
     }
   }"

definition vfs_chdir :: "u8 list \<Rightarrow> ('d, 'z) kfs_scheme \<Rightarrow> (int \<times> ('d, 'z) kfs_scheme) option" where
  "vfs_chdir path st = do {
     (r, _, st) \<leftarrow> vfs_lookup path st;
     (case r of
        Inl e \<Rightarrow> Some (e, st)
      | Inr node \<Rightarrow> do {
          (ret, st) \<leftarrow> vfs_set_curdir (Some node) st;
          (_, st) \<leftarrow> inode_ref_dec node st;
          Some (ret, st)
        })
   }"

definition change_bootfs :: "nat option \<Rightarrow> ('d, 'z) kfs_scheme \<Rightarrow> ('d, 'z) kfs_scheme option" where
  "change_bootfs node st =
     (let old = bootfs_node st; st = st\<lparr>bootfs_node := node\<rparr> in
      case old of None \<Rightarrow> Some st | Some n \<Rightarrow> map_option snd (inode_ref_dec n st))"

text \<open>The name has its first colon at the end.\<close>

definition vfs_set_bootfs :: "u8 list option \<Rightarrow> ('d, 'z) kfs_scheme \<Rightarrow> (int \<times> ('d, 'z) kfs_scheme) option" where
  "vfs_set_bootfs fsname st =
     (case fsname of
        None \<Rightarrow> map_option (\<lambda>st. (0, st)) (change_bootfs None st)
      | Some name \<Rightarrow>
          if drop 1 (dropWhile (\<lambda>c. c \<noteq> COLON) name) \<noteq> [] \<or> COLON \<notin> set name then Some (- E_INVAL, st)
          else do {
            (ret, st) \<leftarrow> vfs_chdir name st;
            if ret \<noteq> 0 then Some (ret, st)
            else do {
              (r, st) \<leftarrow> vfs_get_curdir st;
              (case r of
                 Inl e \<Rightarrow> Some (e, st)
               | Inr node \<Rightarrow> map_option (\<lambda>st. (0, st)) (change_bootfs (Some node) st))
            }
          })"

text \<open>Not implemented by the code.\<close>

definition vfs_unlink :: "u8 list \<Rightarrow> int" where "vfs_unlink path = - E_UNIMP"
definition vfs_rename :: "u8 list \<Rightarrow> u8 list \<Rightarrow> int" where "vfs_rename old_path new_path = - E_UNIMP"
definition vfs_link :: "u8 list \<Rightarrow> u8 list \<Rightarrow> int" where "vfs_link old_path new_path = - E_UNIMP"

section \<open>The list of devices\<close>

definition check_devname_conflict :: "u8 list \<Rightarrow> ('d, 'z) kfs_scheme \<Rightarrow> bool" where
  "check_devname_conflict devname st \<longleftrightarrow> devname \<notin> vd_name ` set (vdev_list st)"

definition find_mount :: "u8 list \<Rightarrow> ('d, 'z) kfs_scheme \<Rightarrow> vfs_dev option" where
  "find_mount devname st = List.find (\<lambda>v. vd_mountable v \<and> vd_name v = devname) (vdev_list st)"

definition FS_MAX_DNAME_LEN :: nat where "FS_MAX_DNAME_LEN = 31"

text \<open>\<open>vfs_do_add\<close>; a \<open>kmalloc\<close> each for the copy of the name and for the entry.\<close>

definition vfs_do_add ::
  "u8 list \<Rightarrow> nat option \<Rightarrow> bool \<Rightarrow> bool \<Rightarrow> ('d, 'z) kfs_scheme \<Rightarrow> (int \<times> ('d, 'z) kfs_scheme) option" where
  "vfs_do_add devname devnode fs mountable st = do {
     kassert (devnode = None \<longrightarrow> \<not> mountable);
     if length devname > FS_MAX_DNAME_LEN then Some (- E_TOO_BIG, st)
     else (case kmem_alloc st of
       (None, st) \<Rightarrow> Some (- E_NO_MEM, st)
     | (Some _, st) \<Rightarrow>
         (case kmem_alloc st of
            (None, st) \<Rightarrow> Some (- E_NO_MEM, st)
          | (Some _, st) \<Rightarrow>
              if \<not> check_devname_conflict devname st then Some (- E_EXISTS, st)
              else Some (0, st\<lparr>vdev_list := \<lparr>vd_name = devname, vd_node = devnode, vd_fs = fs, vd_mountable = mountable\<rparr>
                     # vdev_list st\<rparr>)))
   }"

end
