(* ===== verification/Files.thy ===== *)
theory Files
  imports Vfs
begin

text \<open>
  The open files of a process: the descriptors of \<open>lab8/kern/fs/file.c\<close> and the tables of
  \<open>kern/fs/fs.c\<close>. A pointer to a \<open>struct file\<close> is the address of its table and its index. A buffer is
  an object and a position in it. \<open>off_t\<close> has 64 bits.
\<close>

section \<open>Descriptors\<close>

definition FILES_STRUCT_NENTRY :: nat where "FILES_STRUCT_NENTRY = 72"
definition NO_FD :: int where "NO_FD = - 0x9527"
definition LSEEK_SET :: int where "LSEEK_SET = 0"
definition LSEEK_CUR :: int where "LSEEK_CUR = 1"
definition LSEEK_END :: int where "LSEEK_END = 2"

abbreviation file_at :: "('d, 'z) kfs_scheme \<Rightarrow> nat \<times> nat \<Rightarrow> ofile" where
  "file_at st f \<equiv> fd_array (fstructs st (fst f)) ! snd f"

definition upd_file :: "nat \<times> nat \<Rightarrow> (ofile \<Rightarrow> ofile) \<Rightarrow> ('d, 'z) kfs_scheme \<Rightarrow> ('d, 'z) kfs_scheme" where
  "upd_file f g st = upd_fs (fst f) (\<lambda>x. x\<lparr>fd_array := (fd_array x)[snd f := g (fd_array x ! snd f)]\<rparr>) st"

text \<open>\<open>a += b\<close> on an \<open>off_t\<close>.\<close>

definition off_add :: "int \<Rightarrow> int \<Rightarrow> int" where
  "off_add a b = sint (word_of_int (a + b) :: u64)"

definition testfd :: "int \<Rightarrow> bool" where
  "testfd fd \<longleftrightarrow> fd \<ge> 0 \<and> fd < int FILES_STRUCT_NENTRY"

definition get_fd_array :: "('d, 'z) kfs_scheme \<Rightarrow> nat option" where
  "get_fd_array st = do { p \<leftarrow> cur_filesp st; kassert (fcount (fstructs st p) > 0); Some p }"

definition fd_array_init :: "ofile list \<Rightarrow> ofile list" where
  "fd_array_init fs = map (\<lambda>k. (fs ! k)\<lparr>f_open_count := 0, f_status := FD_NONE, f_fd := int k\<rparr>)
     [0..<FILES_STRUCT_NENTRY]"

definition fd_array_alloc ::
  "int \<Rightarrow> ('d, 'z) kfs_scheme \<Rightarrow> ((nat \<times> nat) res \<times> ('d, 'z) kfs_scheme) option" where
  "fd_array_alloc fd st = do {
     p \<leftarrow> get_fd_array st;
     let unused = (\<lambda>k. f_status (file_at st (p, k)) = FD_NONE);
     let r = (if fd = NO_FD then
         (case List.find unused [0..<FILES_STRUCT_NENTRY] of None \<Rightarrow> Inl (- E_MAX_OPEN) | Some k \<Rightarrow> Inr k)
       else if testfd fd then (if unused (nat fd) then Inr (nat fd) else Inl (- E_BUSY))
       else Inl (- E_INVAL));
     (case r of
        Inl e \<Rightarrow> Some (Inl e, st)
      | Inr k \<Rightarrow> do {
          kassert (f_open_count (file_at st (p, k)) = 0);
          Some (Inr (p, k), upd_file (p, k) (\<lambda>x. x\<lparr>f_status := FD_INIT, f_node := None\<rparr>) st)
        })
   }"

definition fd_array_free :: "nat \<times> nat \<Rightarrow> ('d, 'z) kfs_scheme \<Rightarrow> ('d, 'z) kfs_scheme option" where
  "fd_array_free f st = do {
     kassert (f_status (file_at st f) = FD_INIT \<or> f_status (file_at st f) = FD_CLOSED);
     kassert (f_open_count (file_at st f) = 0);
     st \<leftarrow> (if f_status (file_at st f) = FD_CLOSED
       then do { n \<leftarrow> f_node (file_at st f); vfs_close n st } else Some st);
     Some (upd_file f (\<lambda>x. x\<lparr>f_status := FD_NONE\<rparr>) st)
   }"

definition fd_array_acquire :: "nat \<times> nat \<Rightarrow> ('d, 'z) kfs_scheme \<Rightarrow> ('d, 'z) kfs_scheme option" where
  "fd_array_acquire f st = do {
     kassert (f_status (file_at st f) = FD_OPENED);
     Some (upd_file f (\<lambda>x. x\<lparr>f_open_count := f_open_count x + 1\<rparr>) st)
   }"

definition fd_array_release :: "nat \<times> nat \<Rightarrow> ('d, 'z) kfs_scheme \<Rightarrow> ('d, 'z) kfs_scheme option" where
  "fd_array_release f st = do {
     kassert (f_status (file_at st f) = FD_OPENED \<or> f_status (file_at st f) = FD_CLOSED);
     kassert (f_open_count (file_at st f) > 0);
     let st = upd_file f (\<lambda>x. x\<lparr>f_open_count := f_open_count x - 1\<rparr>) st;
     if f_open_count (file_at st f) = 0 then fd_array_free f st else Some st
   }"

definition fd_array_open :: "nat \<times> nat \<Rightarrow> ('d, 'z) kfs_scheme \<Rightarrow> ('d, 'z) kfs_scheme option" where
  "fd_array_open f st = do {
     kassert (f_status (file_at st f) = FD_INIT \<and> f_node (file_at st f) \<noteq> None);
     Some (upd_file f (\<lambda>x. x\<lparr>f_status := FD_OPENED, f_open_count := f_open_count x + 1\<rparr>) st)
   }"

definition fd_array_close :: "nat \<times> nat \<Rightarrow> ('d, 'z) kfs_scheme \<Rightarrow> ('d, 'z) kfs_scheme option" where
  "fd_array_close f st = do {
     kassert (f_status (file_at st f) = FD_OPENED);
     kassert (f_open_count (file_at st f) > 0);
     let st = upd_file f (\<lambda>x. x\<lparr>f_status := FD_CLOSED, f_open_count := f_open_count x - 1\<rparr>) st;
     if f_open_count (file_at st f) = 0 then fd_array_free f st else Some st
   }"

definition fd_array_dup :: "nat \<times> nat \<Rightarrow> nat \<times> nat \<Rightarrow> ('d, 'z) kfs_scheme \<Rightarrow> ('d, 'z) kfs_scheme option" where
  "fd_array_dup to fro st = do {
     kassert (f_status (file_at st to) = FD_INIT \<and> f_status (file_at st fro) = FD_OPENED);
     let a = file_at st fro;
     let st = upd_file to (\<lambda>x. x\<lparr>f_pos := f_pos a, f_readable := f_readable a, f_writable := f_writable a\<rparr>) st;
     n \<leftarrow> f_node a;
     let st = snd (inode_open_inc n (snd (inode_ref_inc n st)));
     fd_array_open to (upd_file to (\<lambda>x. x\<lparr>f_node := Some n\<rparr>) st)
   }"

definition fd2file :: "int \<Rightarrow> ('d, 'z) kfs_scheme \<Rightarrow> (nat \<times> nat) res option" where
  "fd2file fd st =
     (if testfd fd then do {
        p \<leftarrow> get_fd_array st;
        let x = file_at st (p, nat fd);
        Some (if f_status x = FD_OPENED \<and> f_fd x = fd then Inr (p, nat fd) else Inl (- E_INVAL))
      } else Some (Inl (- E_INVAL)))"

definition file_testfd :: "int \<Rightarrow> bool \<Rightarrow> bool \<Rightarrow> ('d, 'z) kfs_scheme \<Rightarrow> bool option" where
  "file_testfd fd rd wr st = do {
     r \<leftarrow> fd2file fd st;
     Some (case r of Inl _ \<Rightarrow> False
       | Inr f \<Rightarrow> (rd \<longrightarrow> f_readable (file_at st f)) \<and> (wr \<longrightarrow> f_writable (file_at st f)))
   }"

section \<open>Operations on descriptors\<close>

definition file_open :: "u8 list \<Rightarrow> u32 \<Rightarrow> ('d, 'z) kfs_scheme \<Rightarrow> (int \<times> ('d, 'z) kfs_scheme) option" where
  "file_open path open_flags st =
     (let acc = open_flags AND O_ACCMODE; rd = (acc = O_RDONLY \<or> acc = O_RDWR); wr = (acc = O_WRONLY \<or> acc = O_RDWR) in
      if \<not> rd \<and> \<not> wr then Some (- E_INVAL, st)
      else do {
        (r, st) \<leftarrow> fd_array_alloc NO_FD st;
        (case r of
           Inl e \<Rightarrow> Some (e, st)
         | Inr f \<Rightarrow> do {
             (r, _, st) \<leftarrow> vfs_open path open_flags st;
             (case r of
                Inl e \<Rightarrow> map_option (\<lambda>st. (e, st)) (fd_array_free f st)
              | Inr n \<Rightarrow> do {
                  let st = upd_file f (\<lambda>x. x\<lparr>f_pos := 0\<rparr>) st;
                  st \<leftarrow> (if open_flags AND O_APPEND \<noteq> 0 then do {
                      s \<leftarrow> vop_fstat n st;
                      Some (upd_file f (\<lambda>x. x\<lparr>f_pos := sint (st_size s)\<rparr>) st)
                    } else Some st);
                  st \<leftarrow> fd_array_open f (upd_file f (\<lambda>x. x\<lparr>f_node := Some n, f_readable := rd, f_writable := wr\<rparr>) st);
                  Some (f_fd (file_at st f), st)
                })
           })
      })"

definition file_close :: "int \<Rightarrow> ('d, 'z) kfs_scheme \<Rightarrow> (int \<times> ('d, 'z) kfs_scheme) option" where
  "file_close fd st = do {
     r \<leftarrow> fd2file fd st;
     (case r of Inl e \<Rightarrow> Some (e, st) | Inr f \<Rightarrow> map_option (\<lambda>st. (0, st)) (fd_array_close f st))
   }"

text \<open>\<open>file_read\<close> and \<open>file_write\<close> return the result, \<open>*copied_store\<close> and the buffer.\<close>

definition file_read ::
  "int \<Rightarrow> u8 list \<Rightarrow> nat \<Rightarrow> nat \<Rightarrow> ('d, 'z) kfs_scheme \<Rightarrow> (int \<times> nat \<times> u8 list \<times> ('d, 'z) kfs_scheme) option" where
  "file_read fd obj base len st = do {
     r \<leftarrow> fd2file fd st;
     (case r of
        Inl e \<Rightarrow> Some (e, 0, obj, st)
      | Inr f \<Rightarrow>
          if \<not> f_readable (file_at st f) then Some (- E_INVAL, 0, obj, st)
          else do {
            st \<leftarrow> fd_array_acquire f st;
            n \<leftarrow> f_node (file_at st f);
            (ret, iob, st) \<leftarrow> vop_read n (iobuf_init obj base len (f_pos (file_at st f))) st;
            let copied = iobuf_used iob;
            let st = (if f_status (file_at st f) = FD_OPENED
              then upd_file f (\<lambda>x. x\<lparr>f_pos := off_add (f_pos x) (int copied)\<rparr>) st else st);
            st \<leftarrow> fd_array_release f st;
            Some (ret, copied, io_buf iob, st)
          })
   }"

definition file_write ::
  "int \<Rightarrow> u8 list \<Rightarrow> nat \<Rightarrow> nat \<Rightarrow> ('d, 'z) kfs_scheme \<Rightarrow> (int \<times> nat \<times> u8 list \<times> ('d, 'z) kfs_scheme) option" where
  "file_write fd obj base len st = do {
     r \<leftarrow> fd2file fd st;
     (case r of
        Inl e \<Rightarrow> Some (e, 0, obj, st)
      | Inr f \<Rightarrow>
          if \<not> f_writable (file_at st f) then Some (- E_INVAL, 0, obj, st)
          else do {
            st \<leftarrow> fd_array_acquire f st;
            n \<leftarrow> f_node (file_at st f);
            (ret, iob, st) \<leftarrow> vop_write n (iobuf_init obj base len (f_pos (file_at st f))) st;
            let copied = iobuf_used iob;
            let st = (if f_status (file_at st f) = FD_OPENED
              then upd_file f (\<lambda>x. x\<lparr>f_pos := off_add (f_pos x) (int copied)\<rparr>) st else st);
            st \<leftarrow> fd_array_release f st;
            Some (ret, copied, io_buf iob, st)
          })
   }"

definition file_seek :: "int \<Rightarrow> int \<Rightarrow> int \<Rightarrow> ('d, 'z) kfs_scheme \<Rightarrow> (int \<times> ('d, 'z) kfs_scheme) option" where
  "file_seek fd pos whence st = do {
     r \<leftarrow> fd2file fd st;
     (case r of
        Inl e \<Rightarrow> Some (e, st)
      | Inr f \<Rightarrow> do {
          st \<leftarrow> fd_array_acquire f st;
          n \<leftarrow> f_node (file_at st f);
          (ret, pos) \<leftarrow> (if whence = LSEEK_SET then Some (0, pos)
            else if whence = LSEEK_CUR then Some (0, off_add pos (f_pos (file_at st f)))
            else if whence = LSEEK_END then map_option (\<lambda>s. (0, off_add pos (uint (st_size s)))) (vop_fstat n st)
            else Some (- E_INVAL, pos));
          (ret, st) \<leftarrow> (if ret = 0 then do {
              (ret, st) \<leftarrow> vop_tryseek n pos st;
              Some (ret, if ret = 0 then upd_file f (\<lambda>x. x\<lparr>f_pos := pos\<rparr>) st else st)
            } else Some (ret, st));
          st \<leftarrow> fd_array_release f st;
          Some (ret, st)
        })
   }"

text \<open>\<open>file_fstat\<close> stores the \<open>stat\<close> when it returns 0.\<close>

definition file_fstat :: "int \<Rightarrow> ('d, 'z) kfs_scheme \<Rightarrow> (stat res \<times> ('d, 'z) kfs_scheme) option" where
  "file_fstat fd st = do {
     r \<leftarrow> fd2file fd st;
     (case r of
        Inl e \<Rightarrow> Some (Inl e, st)
      | Inr f \<Rightarrow> do {
          st \<leftarrow> fd_array_acquire f st;
          n \<leftarrow> f_node (file_at st f);
          s \<leftarrow> vop_fstat n st;
          st \<leftarrow> fd_array_release f st;
          Some (Inr s, st)
        })
   }"

definition file_fsync :: "int \<Rightarrow> ('d, 'z) kfs_scheme \<Rightarrow> (int \<times> ('d, 'z) kfs_scheme) option" where
  "file_fsync fd st = do {
     r \<leftarrow> fd2file fd st;
     (case r of
        Inl e \<Rightarrow> Some (e, st)
      | Inr f \<Rightarrow> do {
          st \<leftarrow> fd_array_acquire f st;
          n \<leftarrow> f_node (file_at st f);
          (ret, st) \<leftarrow> vop_fsync n st;
          st \<leftarrow> fd_array_release f st;
          Some (ret, st)
        })
   }"

record dirent =
  d_offset :: int
  d_name :: "u8 list"

definition FS_MAX_FNAME_LEN :: nat where "FS_MAX_FNAME_LEN = 255"

definition file_getdirentry ::
  "int \<Rightarrow> dirent \<Rightarrow> ('d, 'z) kfs_scheme \<Rightarrow> (int \<times> dirent \<times> ('d, 'z) kfs_scheme) option" where
  "file_getdirentry fd direntp st = do {
     r \<leftarrow> fd2file fd st;
     (case r of
        Inl e \<Rightarrow> Some (e, direntp, st)
      | Inr f \<Rightarrow> do {
          st \<leftarrow> fd_array_acquire f st;
          n \<leftarrow> f_node (file_at st f);
          (ret, iob, st) \<leftarrow> vop_getdirentry n (iobuf_init (d_name direntp) 0 (FS_MAX_FNAME_LEN + 1) (d_offset direntp)) st;
          let direntp = direntp\<lparr>d_name := io_buf iob\<rparr>;
          let direntp = (if ret = 0 then direntp\<lparr>d_offset := off_add (d_offset direntp) (int (iobuf_used iob))\<rparr> else direntp);
          st \<leftarrow> fd_array_release f st;
          Some (ret, direntp, st)
        })
   }"

definition file_dup :: "int \<Rightarrow> int \<Rightarrow> ('d, 'z) kfs_scheme \<Rightarrow> (int \<times> ('d, 'z) kfs_scheme) option" where
  "file_dup fd1 fd2 st = do {
     r \<leftarrow> fd2file fd1 st;
     (case r of
        Inl e \<Rightarrow> Some (e, st)
      | Inr f1 \<Rightarrow> do {
          (r, st) \<leftarrow> fd_array_alloc fd2 st;
          (case r of
             Inl e \<Rightarrow> Some (e, st)
           | Inr f2 \<Rightarrow> do { st \<leftarrow> fd_array_dup f2 f1 st; Some (f_fd (file_at st f2), st) })
        })
   }"

section \<open>Tables of open files\<close>

definition files_create :: "('d, 'z) kfs_scheme \<Rightarrow> nat option \<times> ('d, 'z) kfs_scheme" where
  "files_create st = (case kmem_alloc st of
     (None, st) \<Rightarrow> (None, st)
   | (Some p, st) \<Rightarrow> (Some p, upd_fs p (\<lambda>x. x\<lparr>pwd := None, fcount := 0, fd_array := fd_array_init (fd_array x)\<rparr>) st))"

primrec files_destroy_loop :: "nat \<Rightarrow> nat list \<Rightarrow> ('d, 'z) kfs_scheme \<Rightarrow> ('d, 'z) kfs_scheme option" where
  "files_destroy_loop p [] st = Some st"
| "files_destroy_loop p (k # ks) st = do {
     st \<leftarrow> (if f_status (file_at st (p, k)) = FD_OPENED then fd_array_close (p, k) st else Some st);
     kassert (f_status (file_at st (p, k)) = FD_NONE);
     files_destroy_loop p ks st
   }"

definition files_destroy :: "nat \<Rightarrow> ('d, 'z) kfs_scheme \<Rightarrow> ('d, 'z) kfs_scheme option" where
  "files_destroy p st = do {
     kassert (fcount (fstructs st p) = 0);
     st \<leftarrow> (case pwd (fstructs st p) of None \<Rightarrow> Some st | Some n \<Rightarrow> map_option snd (inode_ref_dec n st));
     files_destroy_loop p [0..<FILES_STRUCT_NENTRY] st
   }"

primrec closeall_loop :: "nat \<Rightarrow> nat list \<Rightarrow> ('d, 'z) kfs_scheme \<Rightarrow> ('d, 'z) kfs_scheme option" where
  "closeall_loop p [] st = Some st"
| "closeall_loop p (k # ks) st = do {
     st \<leftarrow> (if f_status (file_at st (p, k)) = FD_OPENED then fd_array_close (p, k) st else Some st);
     closeall_loop p ks st
   }"

text \<open>The first two descriptors stay open.\<close>

definition files_closeall :: "nat \<Rightarrow> ('d, 'z) kfs_scheme \<Rightarrow> ('d, 'z) kfs_scheme option" where
  "files_closeall p st = do {
     kassert (fcount (fstructs st p) > 0);
     closeall_loop p [2..<FILES_STRUCT_NENTRY] st
   }"

primrec files_dup_loop :: "nat \<Rightarrow> nat \<Rightarrow> nat list \<Rightarrow> ('d, 'z) kfs_scheme \<Rightarrow> ('d, 'z) kfs_scheme option" where
  "files_dup_loop to fro [] st = Some st"
| "files_dup_loop to fro (k # ks) st = do {
     st \<leftarrow> (if f_status (file_at st (fro, k)) = FD_OPENED
       then fd_array_dup (to, k) (fro, k) (upd_file (to, k) (\<lambda>x. x\<lparr>f_status := FD_INIT\<rparr>) st) else Some st);
     files_dup_loop to fro ks st
   }"

definition dup_files :: "nat \<Rightarrow> nat \<Rightarrow> ('d, 'z) kfs_scheme \<Rightarrow> (int \<times> ('d, 'z) kfs_scheme) option" where
  "dup_files to fro st = do {
     kassert (fcount (fstructs st to) = 0 \<and> fcount (fstructs st fro) > 0);
     let st = upd_fs to (\<lambda>x. x\<lparr>pwd := pwd (fstructs st fro)\<rparr>) st;
     let st = (case pwd (fstructs st to) of None \<Rightarrow> st | Some n \<Rightarrow> snd (inode_ref_inc n st));
     st \<leftarrow> files_dup_loop to fro [0..<FILES_STRUCT_NENTRY] st;
     Some (0, st)
   }"

end
