(* ===== verification/VfsSpec.thy ===== *)
theory VfsSpec
  imports Files
begin

text \<open>
  What the virtual file system promises: a name without a device is looked up in the working directory
  or, with a leading slash, in the boot file system, and opening a file takes one reference and one open
  count of its node. The statements are about the map of files and the cache of nodes of \<open>NodeCache\<close>.
\<close>

section \<open>The state around the nodes\<close>

lemma kfs_frame:
  fixes st st' :: "('d, 'z) kfs_scheme"
  assumes "vfs.more st' = vfs.more st"
  shows "bootfs_node st' = bootfs_node st" and "vdev_list st' = vdev_list st"
    and "fstructs st' = fstructs st" and "cur_filesp st' = cur_filesp st"
  using assms by (cases st; cases st'; simp)+

lemma upd_fs_simps [simp]:
  "mounted (upd_fs p f st) = mounted st" "nodes (upd_fs p f st) = nodes st" "kmem (upd_fs p f st) = kmem st"
  "bootfs_node (upd_fs p f st) = bootfs_node st" "cur_filesp (upd_fs p f st) = cur_filesp st"
  "vdev_list (upd_fs p f st) = vdev_list st"
  "fstructs (upd_fs p f st) = (fstructs st)(p := f (fstructs st p))"
  by (simp_all add: upd_fs_def)

lemma upd_file_simps [simp]:
  "mounted (upd_file f g st) = mounted st" "nodes (upd_file f g st) = nodes st" "kmem (upd_file f g st) = kmem st"
  "bootfs_node (upd_file f g st) = bootfs_node st" "cur_filesp (upd_file f g st) = cur_filesp st"
  "vdev_list (upd_file f g st) = vdev_list st"
  by (simp_all add: upd_file_def)

lemma vfs_rep_cong:
  fixes st :: "('d, 'y) vfs_scheme" and st' :: "('d, 'z) vfs_scheme"
  assumes "mounted st' = mounted st" and "nodes st' = nodes st"
  shows "vfs_rep io dinv nb img A C st' = vfs_rep io dinv nb img A C st"
  using assms
  by (simp add: vfs_rep_def fs_rep_def vfs_inv_def cache_ok_def clean_ok_def counts_ok_def loaded_def cache_of_def fun_eq_iff)

lemma vfs_rep_upd [simp]:
  "vfs_rep io dinv nb img A C (upd_fs p f st) = vfs_rep io dinv nb img A C st"
  "vfs_rep io dinv nb img A C (upd_file g h st) = vfs_rep io dinv nb img A C st"
  by (rule vfs_rep_cong; simp)+

section \<open>Counts\<close>

text \<open>The references and the opens of a node; none when it is not in the cache.\<close>

definition cnt :: "ncache \<Rightarrow> nat \<Rightarrow> int \<times> int" where
  "cnt C n = (case C n of None \<Rightarrow> (0, 0) | Some (i, r, c) \<Rightarrow> (r, c))"

lemma cnt_Some: "C n = Some (i, r, c) \<Longrightarrow> cnt C n = (r, c)"
  by (simp add: cnt_def)

lemma cnt_upd [simp]: "cnt (C(n \<mapsto> (i, r, c))) = (cnt C)(n := (r, c))"
  by (simp add: cnt_def fun_eq_iff)

lemma cnt_dec_ref:
  "C n = Some (i, r, c) \<Longrightarrow> c < r \<Longrightarrow> 0 \<le> c \<Longrightarrow> cnt (dec_ref n C) = (cnt C)(n := (r - 1, c))"
  by (auto simp: dec_ref_def cnt_def fun_eq_iff)

lemma loads_cnt:
  assumes l: "loads i C ks (Inr n) C' ks'" and fresh: "kmem_fresh C ks"
  shows "cnt C' = (cnt C)(n := (fst (cnt C n) + 1, snd (cnt C n)))"
  using l
proof cases
  case (hit r c)
  then show ?thesis by (simp add: cnt_def fun_eq_iff)
next
  case (miss p)
  then have "C n = None" using fresh by (simp add: kmem_fresh_def)
  then show ?thesis using miss by (simp add: cnt_def fun_eq_iff)
qed

text \<open>The node a load returns: it is held and has the number asked for.\<close>

lemma loads_node:
  assumes rep: "vfs_rep io dinv nb img A C st" and l: "loads i C ks (Inr n) C' ks'" and fresh: "kmem_fresh C ks"
  shows "\<exists>r c. C' n = Some (i, r, c) \<and> c < r \<and> r = fst (cnt C n) + 1"
  using l
proof cases
  case (hit r c)
  then show ?thesis using rep_cache(8) [OF rep hit(3)] by (simp add: cnt_def)
next
  case (miss p)
  then have "C n = None" using fresh by (simp add: kmem_fresh_def)
  then show ?thesis using miss by (simp add: cnt_def)
qed

section \<open>Names\<close>

text \<open>A name without a colon.\<close>

definition plain :: "u8 list \<Rightarrow> bool" where
  "plain path \<longleftrightarrow> COLON \<notin> set path"

definition absolute :: "u8 list \<Rightarrow> bool" where
  "absolute path \<longleftrightarrow> path \<noteq> [] \<and> hd path = SLASH"

definition start_dir :: "u8 list \<Rightarrow> ('d, 'z) kfs_scheme \<Rightarrow> nat option" where
  "start_dir path st = (if absolute path then bootfs_node st
     else case cur_filesp st of None \<Rightarrow> None | Some p \<Rightarrow> pwd (fstructs st p))"

definition subpath :: "u8 list \<Rightarrow> u8 list" where
  "subpath path = (if absolute path then dropWhile (\<lambda>c. c = SLASH) path else path)"

lemma path_scan_plain: "plain path \<Longrightarrow> snd (path_scan i path) = None"
  by (induction path arbitrary: i) (auto simp: plain_def)

lemma path_scan_slash: "plain path \<Longrightarrow> fst (path_scan i path) = Some i \<longleftrightarrow> absolute path"
proof -
  have "fst (path_scan j xs) \<noteq> Some i" if "i < j" for i j and xs :: "u8 list"
    using that by (induction xs arbitrary: j) simp_all
  then show "plain path \<Longrightarrow> ?thesis"
    by (cases path) (auto simp: plain_def absolute_def SLASH_def COLON_def)
qed

lemma get_device_plain:
  assumes "plain path" and d: "start_dir path st = Some d"
  shows "get_device path st = Some (Inr (d, subpath path), path, snd (inode_ref_inc d st))"
proof -
  obtain s k where s: "path_scan 0 path = (s, k)" by (cases "path_scan 0 path")
  then have k: "k = None" and a: "s = Some 0 \<longleftrightarrow> absolute path"
    using path_scan_plain [OF assms(1), of 0] path_scan_slash [OF assms(1), of 0] by simp_all
  show ?thesis
  proof (cases "absolute path")
    case True
    then have p: "path \<noteq> []" "hd path = SLASH" by (simp_all add: absolute_def)
    then have "dropWhile (\<lambda>c. c = SLASH) (tl path) = subpath path"
      using True by (cases path) (simp_all add: subpath_def)
    then show ?thesis
      using True p s k a d by (simp add: get_device_def start_dir_def vfs_get_bootfs_def)
  next
    case False
    then show ?thesis
      using s k a d
      by (auto simp: get_device_def start_dir_def subpath_def vfs_get_curdir_def split: option.splits)
  qed
qed

lemma subpath_slash: "plain path \<Longrightarrow> subpath path \<noteq> [] \<Longrightarrow> hd (subpath path) \<noteq> SLASH"
  using hd_dropWhile [of "\<lambda>c. c = SLASH" path]
  by (auto simp: subpath_def absolute_def split: if_splits)

text \<open>What a lookup of a name does: the starting directory itself, or one of its entries.\<close>

definition resolves ::
  "nat \<Rightarrow> sfs_disk_entry list \<Rightarrow> u8 list \<Rightarrow> ncache \<Rightarrow> nat option list \<Rightarrow> nat res \<Rightarrow> ncache \<Rightarrow> nat option list \<Rightarrow> bool" where
  "resolves d es path C ks res C' ks' \<longleftrightarrow>
     (if subpath path = [] then res = Inr d \<and> (\<exists>i r c. C d = Some (i, r, c) \<and> C' = C(d \<mapsto> (i, r + 1, c))) \<and> ks' = ks
      else finds es (subpath path) C ks res C' ks')"

lemma resolves_fresh: "resolves d es path C ks res C' ks' \<Longrightarrow> kmem_fresh C ks \<Longrightarrow> kmem_fresh C' ks'"
  using finds_fresh by (auto simp: resolves_def kmem_fresh_def split: if_splits)

lemma resolves_cnt:
  assumes r: "resolves d es path C ks (Inr n) C' ks'" and fresh: "kmem_fresh C ks"
  shows "cnt C' = (cnt C)(n := (fst (cnt C n) + 1, snd (cnt C n)))"
proof (cases "subpath path = []")
  case True
  then show ?thesis using r by (auto simp: resolves_def cnt_Some)
next
  case False
  then have "finds es (subpath path) C ks (Inr n) C' ks'" using r by (simp add: resolves_def)
  then obtain e where "List.find (names (subpath path)) es = Some e" and l: "loads (eino e) C (tl ks) (Inr n) C' ks'"
    by (rule finds_Inr)
  show ?thesis by (rule loads_cnt [OF l kmem_fresh_tl [OF fresh]])
qed

lemma resolves_Inl: "resolves d es path C ks (Inl e) C' ks' \<Longrightarrow> C' = C"
  using finds_Inl by (auto simp: resolves_def split: if_splits)

lemma resolves_node:
  assumes rep: "vfs_rep io dinv nb img A C st" and r: "resolves d es path C ks (Inr n) C' ks'"
    and fresh: "kmem_fresh C ks"
  shows "\<exists>i r c. C' n = Some (i, r, c) \<and> c < r \<and> r = fst (cnt C n) + 1"
proof (cases "subpath path = []")
  case True
  then obtain i s c where "n = d" "C d = Some (i, s, c)" "C' = C(d \<mapsto> (i, s + 1, c))"
    using r by (auto simp: resolves_def)
  then show ?thesis using rep_cache(8) [OF rep, of d] by (simp add: cnt_def)
next
  case False
  then have "finds es (subpath path) C ks (Inr n) C' ks'" using r by (simp add: resolves_def)
  then obtain e where "List.find (names (subpath path)) es = Some e" and l: "loads (eino e) C (tl ks) (Inr n) C' ks'"
    by (rule finds_Inr)
  show ?thesis using loads_node [OF rep l kmem_fresh_tl [OF fresh]] by blast
qed

context block_device
begin

lemma vfs_lookup_ok:
  fixes st :: "('d, 'z) kfs_scheme"
  assumes rep: "vfs_rep io dinv blocks img A C st" and p: "plain path" "start_dir path st = Some d"
    and d: "C d = Some (i, r, c)" "r + 1 < MAX_INODE_COUNT" and a: "A i = Some (Inl es)"
    and len: "length (subpath path) \<le> SFS_MAX_FNAME_LEN" and fresh: "kmem_fresh C (kmem st)"
  obtains res C' st' where "vfs_lookup path st = Some (res, path, st')" and "vfs_rep io dinv blocks img A C' st'"
    and "resolves d es path C (kmem st) res C' (kmem st')" and "vfs.more st' = vfs.more st"
proof -
  note N = rep_cache [OF rep d(1)]
  let ?C = "C(d \<mapsto> (i, r + 1, c))" and ?s = "snd (inode_ref_inc d st)"
  have rep1: "vfs_rep io dinv blocks img A ?C ?s" by (rule ref_inc_ok(2) [OF rep d(1)])
  note g = get_device_plain [OF p]
  show thesis
  proof (cases "subpath path = []")
    case True
    then have "vfs_lookup path st = Some (Inr d, path, ?s)" using g by (simp add: vfs_lookup_def)
    then show thesis by (rule that) (use rep1 True d(1) in \<open>simp_all add: resolves_def\<close>)
  next
    case False
    have d1: "?C d = Some (i, r + 1, c)" by simp
    have fr: "kmem_fresh ?C (kmem ?s)" using fresh d(1) by (auto simp: kmem_fresh_def)
    obtain res C1 s1 where l: "vop_lookup d (subpath path) ?s = Some (res, s1)"
      and rep2: "vfs_rep io dinv blocks img A C1 s1"
      and fi: "finds es (subpath path) ?C (kmem ?s) res C1 (kmem s1)" and mo: "vfs.more s1 = vfs.more ?s"
      by (rule lookup_ok [OF rep1 d1 d(2) a len False subpath_slash [OF p(1) False] fr])
    obtain r' where r': "C1 d = Some (i, r', c)" "r < r'" using finds_held [OF fi d(1) fr] by blast
    have "c < r'" using r' N(8) by simp
    then obtain s2 where de: "inode_ref_dec d s1 = Some (r' - 1, s2)"
      and rep3: "vfs_rep io dinv blocks img A (dec_ref d C1) s2" and f: "kmem s2 = kmem s1" "vfs.more s2 = vfs.more s1"
      by (rule ref_dec_ok [OF rep2 r'(1)])
    have "vfs_lookup path st = Some (res, path, s2)" using g False l de by (simp add: vfs_lookup_def)
    moreover have "finds es (subpath path) C (kmem st) res (dec_ref d C1) (kmem s2)"
      using finds_shift [OF fi d(1) N(6)] fresh f by simp
    ultimately show thesis using that rep3 f mo False by (simp add: resolves_def)
  qed
qed

section \<open>Opening and closing a file\<close>

lemma vfs_close_ok:
  fixes st :: "('d, 'z) kfs_scheme"
  assumes rep: "vfs_rep io dinv blocks img A C st" and n: "C n = Some (i, r, c)" "0 < c" "r < MAX_INODE_COUNT"
  obtains st' where "vfs_close n st = Some st'"
    and "vfs_rep io dinv blocks img A (dec_ref n (C(n \<mapsto> (i, r, c - 1)))) st'"
    and "kmem st' = kmem st" and "vfs.more st' = vfs.more st"
proof -
  note N = rep_cache [OF rep n(1)]
  let ?C = "C(n \<mapsto> (i, r, c - 1))"
  obtain s1 where o: "inode_open_dec n st = Some (c - 1, s1)" and rep1: "vfs_rep io dinv blocks img A ?C s1"
    and f1: "kmem s1 = kmem st" "vfs.more s1 = vfs.more st"
    by (rule open_dec_ok [OF rep n])
  have n1: "?C n = Some (i, r, c - 1)" by simp
  have "c - 1 < r" using N(8) by simp
  then obtain s2 where d: "inode_ref_dec n s1 = Some (r - 1, s2)" and rep2: "vfs_rep io dinv blocks img A (dec_ref n ?C) s2"
    and f2: "kmem s2 = kmem s1" "vfs.more s2 = vfs.more s1"
    by (rule ref_dec_ok [OF rep1 n1])
  show thesis by (rule that [of s2]) (use o d rep2 f1 f2 in \<open>simp_all add: vfs_close_def\<close>)
qed

lemma cnt_close:
  "C n = Some (i, r, c) \<Longrightarrow> c \<le> r \<Longrightarrow> 0 < c \<Longrightarrow>
     cnt (dec_ref n (C(n \<mapsto> (i, r, c - 1)))) = (cnt C)(n := (r - 1, c - 1))"
  using cnt_dec_ref [of "C(n \<mapsto> (i, r, c - 1))" n i r "c - 1"] by simp

end

text \<open>The flags \<open>vfs_open\<close> accepts.\<close>

definition flags_ok :: "u32 \<Rightarrow> bool" where
  "flags_ok fl \<longleftrightarrow> (fl AND O_ACCMODE = O_RDONLY \<or> fl AND O_ACCMODE = O_WRONLY \<or> fl AND O_ACCMODE = O_RDWR) \<and>
     (fl AND O_TRUNC \<noteq> 0 \<longrightarrow> fl AND O_ACCMODE \<noteq> O_RDONLY)"

lemma acc_distinct [simp]: "O_RDONLY \<noteq> O_WRONLY" "O_RDONLY \<noteq> O_RDWR" "O_WRONLY \<noteq> O_RDWR"
  "O_WRONLY \<noteq> O_RDONLY" "O_RDWR \<noteq> O_RDONLY" "O_RDWR \<noteq> O_WRONLY"
  by (simp_all add: O_RDONLY_def O_WRONLY_def O_RDWR_def)

definition wants_trunc :: "u32 \<Rightarrow> bool" where
  "wants_trunc fl \<longleftrightarrow> fl AND O_TRUNC \<noteq> 0 \<or> fl AND O_CREAT \<noteq> 0"

text \<open>\<open>vfs_open\<close> after its lookup.\<close>

lemma vfs_open_error:
  "flags_ok fl \<Longrightarrow> vfs_lookup path st = Some (Inl e, path', s1) \<Longrightarrow> e \<noteq> - E_NOENT \<or> fl AND O_CREAT = 0 \<Longrightarrow>
     vfs_open path fl st = Some (Inl e, path', s1)"
  by (auto simp: vfs_open_def flags_ok_def E_NOENT_def Let_def)

lemma vfs_open_exists:
  "flags_ok fl \<Longrightarrow> vfs_lookup path st = Some (Inr n, path', s1) \<Longrightarrow> fl AND O_CREAT \<noteq> 0 \<and> fl AND O_EXCL \<noteq> 0 \<Longrightarrow>
     vfs_open path fl st = Some (Inl (- E_EXISTS), path', s1)"
  by (auto simp: vfs_open_def flags_ok_def Let_def)

lemma vfs_open_found:
  "flags_ok fl \<Longrightarrow> vfs_lookup path st = Some (Inr n, path', s1) \<Longrightarrow> fl AND O_CREAT = 0 \<or> fl AND O_EXCL = 0 \<Longrightarrow>
     vfs_open path fl st = vfs_open_node n fl path' s1"
  by (auto simp: vfs_open_def flags_ok_def Let_def)

text \<open>No table of the simple file system has \<open>vop_create\<close>: creating a file panics.\<close>

lemma vfs_open_create:
  assumes "flags_ok fl" and "vfs_lookup path st = Some (Inl (- E_NOENT), path, s1)" and "fl AND O_CREAT \<noteq> 0"
    and "plain path" and "start_dir path s1 = Some d"
  shows "vfs_open path fl st = None"
  using assms get_device_plain [OF assms(4,5)]
  by (auto simp: vfs_open_def flags_ok_def Let_def E_NOENT_def vfs_lookup_parent_def vop_create_def vop_def kassert_def)

context block_device
begin

lemma open_node_file:
  fixes st :: "('d, 'z) kfs_scheme"
  assumes rep: "vfs_rep io dinv blocks img A C st" and n: "C n = Some (i, r, c)" "c < r" "r < MAX_INODE_COUNT"
    and a: "A i = Some (Inr b)"
  obtains st' where "vfs_open_node n fl path st = Some (Inr n, path, st')"
    and "vfs_rep io dinv blocks img (if wants_trunc fl then A(i \<mapsto> Inr []) else A) (C(n \<mapsto> (i, r, c + 1))) st'"
    and "kmem st' = kmem st" and "vfs.more st' = vfs.more st"
proof -
  note N = rep_cache [OF rep n(1)]
  have a': "A (ino (node_sin st n)) = Some (Inr b)" using a N(3) by simp
  have ops: "in_ops (nodes st n) = sfs_node_fileops" using node_dir(2) [OF N(1,2)] a' by blast
  have o: "vop_open n fl st = Some 0" using ops N(10) [OF n(3)] by (simp add: vop_open_def vop_all sfs_openfile_def)
  let ?s = "snd (inode_open_inc n st)" and ?C = "C(n \<mapsto> (i, r, c + 1))"
  have rep1: "vfs_rep io dinv blocks img A ?C ?s" by (rule open_inc_ok [OF rep n(1,2)])
  show thesis
  proof (cases "wants_trunc fl")
    case False
    then have "vfs_open_node n fl path st = Some (Inr n, path, ?s)"
      using o by (simp add: vfs_open_node_def wants_trunc_def)
    then show thesis by (rule that) (use rep1 False in simp_all)
  next
    case True
    have n1: "?C n = Some (i, r, c + 1)" by simp
    obtain s2 where t: "vop_truncate n 0 ?s = Some (0, s2)" and rep2: "vfs_rep io dinv blocks img (A(i \<mapsto> Inr [])) ?C s2"
      and f: "kmem s2 = kmem ?s" "vfs.more s2 = vfs.more ?s"
      by (rule truncate_rep [OF rep1 n1 n(3) a])
    have "vfs_open_node n fl path st = Some (Inr n, path, s2)"
      using o t True by (simp add: vfs_open_node_def wants_trunc_def)
    then show thesis by (rule that) (use rep2 f True in simp_all)
  qed
qed

text \<open>A directory may only be opened for reading; with \<open>O_CREAT\<close> the kernel panics.\<close>

lemma open_node_dir:
  fixes st :: "('d, 'z) kfs_scheme"
  assumes rep: "vfs_rep io dinv blocks img A C st" and n: "C n = Some (i, r, c)" "c < r" "r < MAX_INODE_COUNT"
    and a: "A i = Some (Inl es)" and fl: "flags_ok fl"
  obtains st' where "fl AND O_ACCMODE = O_RDONLY \<and> fl AND O_APPEND = 0 \<and> fl AND O_CREAT = 0"
    and "vfs_open_node n fl path st = Some (Inr n, path, st')"
    and "vfs_rep io dinv blocks img A (C(n \<mapsto> (i, r, c + 1))) st'"
    and "kmem st' = kmem st" and "vfs.more st' = vfs.more st"
  | st' where "fl AND O_ACCMODE \<noteq> O_RDONLY \<or> fl AND O_APPEND \<noteq> 0"
    and "vfs_open_node n fl path st = Some (Inl (- E_ISDIR), path, st')"
    and "vfs_rep io dinv blocks img A (dec_ref n C) st'"
    and "kmem st' = kmem st" and "vfs.more st' = vfs.more st"
  | "fl AND O_ACCMODE = O_RDONLY \<and> fl AND O_APPEND = 0 \<and> fl AND O_CREAT \<noteq> 0" and "vfs_open_node n fl path st = None"
proof -
  note N = rep_cache [OF rep n(1)]
  have a': "A (ino (node_sin st n)) = Some (Inl es)" using a N(3) by simp
  have ops: "in_ops (nodes st n) = sfs_node_dirops" using node_dir(1) [OF N(1,2)] a' by blast
  have o: "vop_open n fl st = Some (sfs_opendir fl)" using ops N(10) [OF n(3)] by (simp add: vop_open_def vop_all)
  let ?s = "snd (inode_open_inc n st)"
  consider (bad) "fl AND O_ACCMODE \<noteq> O_RDONLY \<or> fl AND O_APPEND \<noteq> 0"
    | (create) "fl AND O_ACCMODE = O_RDONLY" "fl AND O_APPEND = 0" "fl AND O_CREAT \<noteq> 0"
    | (ok) "fl AND O_ACCMODE = O_RDONLY" "fl AND O_APPEND = 0" "fl AND O_CREAT = 0" by blast
  then show thesis
  proof cases
    case bad
    then have e: "sfs_opendir fl = - E_ISDIR" by (auto simp: sfs_opendir_def)
    obtain s2 where d: "inode_ref_dec n st = Some (r - 1, s2)" and rep2: "vfs_rep io dinv blocks img A (dec_ref n C) s2"
      and f: "kmem s2 = kmem st" "vfs.more s2 = vfs.more st"
      by (rule ref_dec_ok [OF rep n(1,2)])
    have "vfs_open_node n fl path st = Some (Inl (- E_ISDIR), path, s2)"
      using o e d by (simp add: vfs_open_node_def E_ISDIR_def)
    then show thesis by (rule that(2) [OF bad]) (use rep2 f in simp_all)
  next
    case create
    have "in_ops (nodes ?s n) = sfs_node_dirops" using ops by (simp add: inode_open_inc_def)
    then have "vop_truncate n 0 ?s = None" by (simp add: vop_truncate_def vop_def kassert_def)
    then have "vfs_open_node n fl path st = None"
      using o create by (simp add: vfs_open_node_def sfs_opendir_def)
    then show thesis using that(3) create by blast
  next
    case ok
    then have "fl AND O_TRUNC = 0" using fl by (auto simp: flags_ok_def)
    then have "vfs_open_node n fl path st = Some (Inr n, path, ?s)"
      using o ok by (simp add: vfs_open_node_def sfs_opendir_def)
    then show thesis by (rule that(1) [rotated]) (use ok open_inc_ok [OF rep n(1,2)] in simp_all)
  qed
qed

end

end
