(* ===== verification/FileInv.thy ===== *)
theory FileInv
  imports VfsSpec
begin

text \<open>
  Descriptors and reference counts. \<open>kinv\<close> says that every slot of a table of open files is free or
  open, and that the counts of every node are exactly what the descriptors, the working directories and
  the boot file system account for. \<open>X\<close> counts the references that are held outside of them.
\<close>

section \<open>The invariant\<close>

definition entry_ok :: "nat \<Rightarrow> ofile \<Rightarrow> bool" where
  "entry_ok k x \<longleftrightarrow> f_fd x = int k \<and>
     (f_status x = FD_NONE \<and> f_open_count x = 0 \<or>
      f_status x = FD_OPENED \<and> f_open_count x = 1 \<and> f_node x \<noteq> None)"

definition fds_ok :: "ofile list \<Rightarrow> bool" where
  "fds_ok fs \<longleftrightarrow> length fs = FILES_STRUCT_NENTRY \<and> (\<forall>k < FILES_STRUCT_NENTRY. entry_ok k (fs ! k))"

definition opened_on :: "nat \<Rightarrow> ofile \<Rightarrow> bool" where
  "opened_on n x \<longleftrightarrow> f_status x = FD_OPENED \<and> f_node x = Some n"

text \<open>How often a node is open in the tables \<open>T\<close>, and how often it is a working directory.\<close>

definition opens :: "nat set \<Rightarrow> ('d, 'z) kfs_scheme \<Rightarrow> nat \<Rightarrow> nat" where
  "opens T st n = (\<Sum>p \<in> T. length (filter (opened_on n) (fd_array (fstructs st p))))"

definition pwds :: "nat set \<Rightarrow> ('d, 'z) kfs_scheme \<Rightarrow> nat \<Rightarrow> nat" where
  "pwds T st n = (\<Sum>p \<in> T. if pwd (fstructs st p) = Some n then 1 else 0)"

definition boots :: "('d, 'z) kfs_scheme \<Rightarrow> nat \<Rightarrow> nat" where
  "boots st n = (if bootfs_node st = Some n then 1 else 0)"

definition counts_exact :: "nat set \<Rightarrow> (nat \<Rightarrow> nat) \<Rightarrow> ncache \<Rightarrow> ('d, 'z) kfs_scheme \<Rightarrow> bool" where
  "counts_exact T X C st \<longleftrightarrow>
     (\<forall>n. cnt C n = (int (opens T st n + pwds T st n + boots st n + X n), int (opens T st n)))"

definition kinv ::
  "(iobuf \<Rightarrow> bool \<Rightarrow> 'd \<Rightarrow> (int \<times> iobuf \<times> 'd) option) \<Rightarrow> ('d \<Rightarrow> bool) \<Rightarrow> nat \<Rightarrow> ('d \<Rightarrow> u8 list) \<Rightarrow>
    nat set \<Rightarrow> (nat \<Rightarrow> nat) \<Rightarrow> (u32 \<Rightarrow> fdata option) \<Rightarrow> ncache \<Rightarrow> ('d, 'z) kfs_scheme \<Rightarrow> bool" where
  "kinv io dinv nb img T X A C st \<longleftrightarrow> vfs_rep io dinv nb img A C st \<and> finite T \<and>
     (\<exists>p \<in> T. cur_filesp st = Some p \<and> fcount (fstructs st p) > 0) \<and>
     (\<forall>p \<in> T. fds_ok (fd_array (fstructs st p))) \<and> counts_exact T X C st"

section \<open>Tables\<close>

lemma filter_len_upd:
  "k < length xs \<Longrightarrow> length (filter P (xs[k := y])) + (if P (xs ! k) then 1 else 0) =
     length (filter P xs) + (if P y then 1 else 0)"
proof (induction xs arbitrary: k)
  case (Cons x xs)
  then show ?case by (cases k) auto
qed simp

lemma opens_upd:
  assumes "finite T" and "p \<in> T" and "k < length (fd_array (fstructs st p))"
  shows "opens T (upd_file (p, k) g st) n + (if opened_on n (file_at st (p, k)) then 1 else 0) =
    opens T st n + (if opened_on n (g (file_at st (p, k))) then 1 else 0)"
proof -
  let ?f = "\<lambda>st q. length (filter (opened_on n) (fd_array (fstructs st q)))"
  let ?st = "upd_file (p, k) g st"
  have o: "?f ?st q = ?f st q" if "q \<noteq> p" for q using that by (simp add: upd_file_def)
  have "opens T ?st n = ?f ?st p + (\<Sum>q \<in> T - {p}. ?f ?st q)"
    unfolding opens_def by (rule sum.remove [OF assms(1,2)])
  also have "(\<Sum>q \<in> T - {p}. ?f ?st q) = (\<Sum>q \<in> T - {p}. ?f st q)" by (rule sum.cong) (use o in auto)
  finally have 1: "opens T ?st n = ?f ?st p + (\<Sum>q \<in> T - {p}. ?f st q)" .
  have 2: "opens T st n = ?f st p + (\<Sum>q \<in> T - {p}. ?f st q)"
    unfolding opens_def by (rule sum.remove [OF assms(1,2)])
  have "?f ?st p + (if opened_on n (file_at st (p, k)) then 1 else 0) =
      ?f st p + (if opened_on n (g (file_at st (p, k))) then 1 else 0)"
    using filter_len_upd [OF assms(3), of "opened_on n" "g (file_at st (p, k))"] by (simp add: upd_file_def)
  then show ?thesis using 1 2 by simp
qed

lemma pwds_upd_file [simp]: "pwds T (upd_file f g st) = pwds T st"
  by (auto simp: pwds_def upd_file_def fun_eq_iff intro!: sum.cong)

lemma boots_upd_file [simp]: "boots (upd_file f g st) = boots st"
  by (simp add: boots_def fun_eq_iff)

lemma file_at_upd [simp]:
  "snd f < length (fd_array (fstructs st (fst f))) \<Longrightarrow> file_at (upd_file f g st) f = g (file_at st f)"
  by (simp add: upd_file_def)

lemma fd_array_upd [simp]: "length (fd_array (fstructs (upd_file f g st) p)) = length (fd_array (fstructs st p))"
  by (simp add: upd_file_def)

lemma upd_file_id [simp]: "upd_file f (\<lambda>x. x) st = st"
  by (simp add: upd_file_def upd_fs_def)

lemma fds_ok_upd:
  "fds_ok fs \<Longrightarrow> k < FILES_STRUCT_NENTRY \<Longrightarrow> entry_ok k y \<Longrightarrow> fds_ok (fs[k := y])"
  by (simp add: fds_ok_def nth_list_update)

text \<open>What matters of the tables: the states that agree on it satisfy the same invariant.\<close>

definition fkey :: "ofile \<Rightarrow> fd_status \<times> nat option \<times> int \<times> int" where
  "fkey x = (f_status x, f_node x, f_fd x, f_open_count x)"

definition same_files :: "('d, 'z) kfs_scheme \<Rightarrow> ('d, 'z) kfs_scheme \<Rightarrow> bool" where
  "same_files st st' \<longleftrightarrow> cur_filesp st' = cur_filesp st \<and> bootfs_node st' = bootfs_node st \<and>
     (\<forall>p. pwd (fstructs st' p) = pwd (fstructs st p) \<and> fcount (fstructs st' p) = fcount (fstructs st p) \<and>
        map fkey (fd_array (fstructs st' p)) = map fkey (fd_array (fstructs st p)))"

lemma same_files_fstructs:
  "cur_filesp st' = cur_filesp st \<Longrightarrow> bootfs_node st' = bootfs_node st \<Longrightarrow> fstructs st' = fstructs st \<Longrightarrow> same_files st st'"
  by (simp add: same_files_def)

lemma map_key_upd: "fkey y = fkey (xs ! k) \<Longrightarrow> map fkey (xs[k := y]) = map fkey xs"
proof (cases "k < length xs")
  case True
  then show "fkey y = fkey (xs ! k) \<Longrightarrow> ?thesis"
    using list_update_id [of "map fkey xs" k] by (simp add: map_update)
next
  case False
  then have "xs[k := y] = xs" by (intro list_update_beyond) simp
  then show "fkey y = fkey (xs ! k) \<Longrightarrow> ?thesis" by simp
qed

lemma same_files_upd:
  "fkey (g (file_at st f)) = fkey (file_at st f) \<Longrightarrow> same_files st (upd_file f g st)"
  using map_key_upd by (simp add: same_files_def upd_file_def)

lemma fds_ok_key: "map fkey fs = map fkey fs' \<Longrightarrow> fds_ok fs = fds_ok fs'"
proof -
  assume e: "map fkey fs = map fkey fs'"
  have l: "length fs = length fs'" using arg_cong [OF e, of length] by simp
  have "entry_ok k (fs ! k) = entry_ok k (fs' ! k)" if "k < length fs" for k
  proof -
    have "fkey (fs ! k) = fkey (fs' ! k)" using arg_cong [OF e, of "\<lambda>x. x ! k"] that l by simp
    then show ?thesis by (simp add: entry_ok_def fkey_def)
  qed
  then show ?thesis using l by (auto simp: fds_ok_def)
qed

lemma filter_key:
  assumes "map fkey fs = map fkey fs'"
  shows "length (filter (opened_on n) fs) = length (filter (opened_on n) fs')"
proof -
  let ?Q = "\<lambda>k. fst k = FD_OPENED \<and> fst (snd k) = Some n"
  have e: "length (filter (opened_on n) xs) = length (filter ?Q (map fkey xs))" for xs
    by (simp add: filter_map o_def opened_on_def [abs_def] fkey_def)
  show ?thesis unfolding e assms ..
qed

lemma same_files_counts:
  assumes "same_files st st'"
  shows "opens T st' = opens T st" and "pwds T st' = pwds T st" and "boots st' = boots st"
    and "counts_exact T X C st' = counts_exact T X C st"
proof -
  have k: "map fkey (fd_array (fstructs st' p)) = map fkey (fd_array (fstructs st p))" for p
    using assms by (simp add: same_files_def)
  show "opens T st' = opens T st" "pwds T st' = pwds T st" "boots st' = boots st"
    using assms filter_key [OF k] by (simp_all add: fun_eq_iff opens_def pwds_def boots_def same_files_def)
  then show "counts_exact T X C st' = counts_exact T X C st" by (simp add: counts_exact_def)
qed

lemma kinv_same:
  assumes "kinv io dinv nb img T X A C st" and "vfs_rep io dinv nb img A' C st'" and "same_files st st'"
  shows "kinv io dinv nb img T X A' C st'"
proof -
  have "fds_ok (fd_array (fstructs st' p)) = fds_ok (fd_array (fstructs st p))" for p
    by (rule fds_ok_key) (use assms(3) in \<open>simp add: same_files_def\<close>)
  then show ?thesis
    using assms same_files_counts(4) [OF assms(3)] by (auto simp: kinv_def same_files_def)
qed

lemma pwds_cong: "(\<And>p. pwd (fstructs st' p) = pwd (fstructs st p)) \<Longrightarrow> pwds T st' = pwds T st"
  by (simp add: pwds_def fun_eq_iff)

lemma tables_upd:
  "\<forall>p \<in> T. fds_ok (fd_array (fstructs st p)) \<Longrightarrow> snd f < FILES_STRUCT_NENTRY \<Longrightarrow>
     entry_ok (snd f) (g (file_at st f)) \<Longrightarrow> p \<in> T \<Longrightarrow> fds_ok (fd_array (fstructs (upd_file f g st) p))"
  by (auto simp: upd_file_def intro!: fds_ok_upd)

text \<open>A step that changes one slot, and the counts with it.\<close>

lemma kinv_upd:
  fixes st st' :: "('d, 'z) kfs_scheme"
  assumes inv: "kinv io dinv nb img T X A C st" and rep: "vfs_rep io dinv nb img A' C' st'"
    and f: "fst f \<in> T" "snd f < FILES_STRUCT_NENTRY"
    and fs: "fstructs st' = fstructs (upd_file f g st)" "cur_filesp st' = cur_filesp st" "bootfs_node st' = bootfs_node st"
    and e: "entry_ok (snd f) (g (file_at st f))"
    and c: "\<And>m. cnt C' m = (fst (cnt C m) + of_bool (opened_on m (g (file_at st f))) - of_bool (opened_on m (file_at st f))
        + int (X' m) - int (X m),
      snd (cnt C m) + of_bool (opened_on m (g (file_at st f))) - of_bool (opened_on m (file_at st f)))"
  shows "kinv io dinv nb img T X' A' C' st'"
proof -
  have fin: "finite T" and cx: "counts_exact T X C st" and t: "\<forall>p \<in> T. fds_ok (fd_array (fstructs st p))"
    using inv by (simp_all add: kinv_def)
  have l: "snd f < length (fd_array (fstructs st (fst f)))" using t f by (simp add: fds_ok_def)
  have fc: "fcount (fstructs st' p) = fcount (fstructs st p)" "pwd (fstructs st' p) = pwd (fstructs st p)" for p
    unfolding fs by (simp_all add: upd_file_def)
  have o: "int (opens T st' m) = int (opens T st m) + of_bool (opened_on m (g (file_at st f))) - of_bool (opened_on m (file_at st f))" for m
  proof -
    have "opens T st' m = opens T (upd_file f g st) m" by (simp only: opens_def fs)
    then show ?thesis using opens_upd [OF fin f(1) l, of g m] by auto
  qed
  have p: "pwds T st' = pwds T st" "boots st' = boots st"
    using pwds_cong [of st' st T] fc fs(3) by (simp_all add: boots_def fun_eq_iff)
  have "cnt C m = (int (opens T st m + pwds T st m + boots st m + X m), int (opens T st m))" for m
    using cx by (simp add: counts_exact_def)
  then have "counts_exact T X' C' st'" unfolding counts_exact_def p using o c by simp
  then show ?thesis
    using rep fin inv fs(2) fc tables_upd [where g = g, OF t f(2) e] by (auto simp: kinv_def fs(1))
qed

section \<open>Open descriptors\<close>

text \<open>\<open>fd\<close> is open in the current table, as the file \<open>x\<close> on the node \<open>n\<close>.\<close>

definition fd_open :: "('d, 'z) kfs_scheme \<Rightarrow> int \<Rightarrow> ofile \<Rightarrow> nat \<Rightarrow> bool" where
  "fd_open st fd x n \<longleftrightarrow> (\<exists>p. cur_filesp st = Some p \<and> 0 \<le> fd \<and> nat fd < FILES_STRUCT_NENTRY \<and>
     x = file_at st (p, nat fd) \<and> f_status x = FD_OPENED \<and> f_node x = Some n)"

definition cur_slot :: "('d, 'z) kfs_scheme \<Rightarrow> int \<Rightarrow> nat \<times> nat" where
  "cur_slot st fd = (the (cur_filesp st), nat fd)"

lemma fd_openD:
  assumes inv: "kinv io dinv nb img T X A C st" and fd: "fd_open st fd x n"
  defines "f \<equiv> cur_slot st fd"
  shows "fd2file fd st = Some (Inr f)" and "file_at st f = x" and "fst f \<in> T" and "snd f < FILES_STRUCT_NENTRY"
    and "f_open_count x = 1" and "f_fd x = fd" and "f_status x = FD_OPENED" and "f_node x = Some n"
    and "snd f < length (fd_array (fstructs st (fst f)))" and "entry_ok (snd f) x"
proof -
  obtain p where p: "cur_filesp st = Some p" "0 \<le> fd" "nat fd < FILES_STRUCT_NENTRY" "x = file_at st (p, nat fd)"
    "f_status x = FD_OPENED" "f_node x = Some n" using fd by (auto simp: fd_open_def)
  then have f: "f = (p, nat fd)" by (simp add: f_def cur_slot_def)
  have T: "p \<in> T" "fcount (fstructs st p) > 0" using inv p(1) by (auto simp: kinv_def)
  then have t: "fds_ok (fd_array (fstructs st p))" using inv by (simp add: kinv_def)
  then have e: "entry_ok (nat fd) x" using p by (simp add: fds_ok_def)
  show "entry_ok (snd f) x" "fst f \<in> T" "snd f < FILES_STRUCT_NENTRY" "file_at st f = x"
    "snd f < length (fd_array (fstructs st (fst f)))" using e f T p t by (simp_all add: fds_ok_def)
  show oc: "f_open_count x = 1" "f_fd x = fd" "f_status x = FD_OPENED" "f_node x = Some n" using e p by (auto simp: entry_ok_def)
  show "fd2file fd st = Some (Inr f)"
    using p T oc f by (simp add: fd2file_def testfd_def get_fd_array_def kassert_def)
qed

text \<open>The node of an open slot is in the cache, open and referenced.\<close>

lemma slot_node:
  assumes inv: "kinv io dinv nb img T X A C st" and f: "fst f \<in> T" "snd f < FILES_STRUCT_NENTRY"
    and x: "f_status (file_at st f) = FD_OPENED" "f_node (file_at st f) = Some n"
  obtains i r c where "C n = Some (i, r, c)" and "0 < c" and "c \<le> r"
proof -
  let ?l = "\<lambda>p. length (filter (opened_on n) (fd_array (fstructs st p)))"
  have fin: "finite T" and cx: "counts_exact T X C st" and rep: "vfs_rep io dinv nb img A C st"
    and t: "fds_ok (fd_array (fstructs st (fst f)))"
    using inv f by (simp_all add: kinv_def)
  have "snd f < length (fd_array (fstructs st (fst f)))" using t f by (simp add: fds_ok_def)
  then have "file_at st f \<in> set (filter (opened_on n) (fd_array (fstructs st (fst f))))"
    using x by (simp add: opened_on_def)
  then have "0 < ?l (fst f)" by (rule length_pos_if_in_set)
  also have "?l (fst f) \<le> (\<Sum>p \<in> T. ?l p)" using member_le_sum [of "fst f" T ?l] f fin by simp
  finally have "0 < opens T st n" by (simp only: opens_def)
  moreover have "snd (cnt C n) = int (opens T st n)" using cx by (simp add: counts_exact_def)
  ultimately have "0 < snd (cnt C n)" by simp
  then obtain i r c where n: "C n = Some (i, r, c)" "0 < c" by (cases "C n") (auto simp: cnt_def)
  then show thesis using that rep_cache(8) [OF rep n(1)] by blast
qed

lemma fd_open_node:
  assumes inv: "kinv io dinv nb img T X A C st" and fd: "fd_open st fd x n"
  obtains i r c where "C n = Some (i, r, c)" and "0 < c" and "c \<le> r"
proof -
  note D = fd_openD [OF inv fd]
  have x: "f_status (file_at st (cur_slot st fd)) = FD_OPENED" "f_node (file_at st (cur_slot st fd)) = Some n"
    using D(2,7,8) by simp_all
  show thesis by (rule slot_node [OF inv D(3,4) x]) (rule that)
qed

text \<open>
  An operation on an open descriptor takes a use of it, acts on the node and gives the use back: only
  the position of the file may change.
\<close>

lemma fd_use:
  fixes st :: "('d, 'z) kfs_scheme"
  assumes inv: "kinv io dinv nb img T X A C st" and fd: "fd_open st fd x n"
  defines "f \<equiv> cur_slot st fd"
  obtains s1 where "fd_array_acquire f st = Some s1" and "file_at s1 f = x\<lparr>f_open_count := 2\<rparr>"
    and "mounted s1 = mounted st" and "nodes s1 = nodes st" and "kmem s1 = kmem st"
    and "\<And>(s2 :: ('d, 'z) kfs_scheme) g h. vfs.more s2 = vfs.more s1 \<Longrightarrow> \<forall>y. g y = y\<lparr>f_pos := h (f_pos y)\<rparr> \<Longrightarrow>
      \<exists>s3. fd_array_release f (upd_file f g s2) = Some s3 \<and> mounted s3 = mounted s2 \<and> nodes s3 = nodes s2 \<and>
        kmem s3 = kmem s2 \<and> fstructs s3 = fstructs (upd_file f g st) \<and> cur_filesp s3 = cur_filesp st \<and>
        bootfs_node s3 = bootfs_node st \<and> vdev_list s3 = vdev_list st"
proof -
  note D = fd_openD [OF inv fd, folded f_def]
  let ?s1 = "upd_file f (\<lambda>x. x\<lparr>f_open_count := f_open_count x + 1\<rparr>) st"
  have acq: "fd_array_acquire f st = Some ?s1" using D by (simp add: fd_array_acquire_def kassert_def)
  have at: "file_at ?s1 f = x\<lparr>f_open_count := 2\<rparr>" using D by (simp add: upd_file_def)
  show thesis
  proof (rule that [OF acq at])
    fix s2 :: "('d, 'z) kfs_scheme" and g :: "ofile \<Rightarrow> ofile" and h
    assume m: "vfs.more s2 = vfs.more ?s1" and g: "\<forall>y. g y = y\<lparr>f_pos := h (f_pos y)\<rparr>"
    note K = kfs_frame [OF m]
    let ?u = "upd_file f g s2" and ?s3 = "upd_file f (\<lambda>x. x\<lparr>f_open_count := f_open_count x - 1\<rparr>) (upd_file f g s2)"
    have l: "snd f < length (fd_array (fstructs s2 (fst f)))" using K(3) D(9) by simp
    have at2: "file_at s2 f = x\<lparr>f_open_count := 2\<rparr>" using at K(3) by simp
    have atu: "file_at ?u f = x\<lparr>f_open_count := 2, f_pos := h (f_pos x)\<rparr>" using l at2 g by simp
    have at3: "file_at ?s3 f = x\<lparr>f_open_count := 1, f_pos := h (f_pos x)\<rparr>" using l atu by simp
    have "fd_array_release f ?u = Some ?s3"
      unfolding fd_array_release_def Let_def atu at3 using D(7) by (simp add: kassert_def)
    moreover have "fstructs ?s3 = fstructs (upd_file f g st)"
    proof -
      have one: "x\<lparr>f_pos := q, f_open_count := 1\<rparr> = x\<lparr>f_pos := q\<rparr>" for q using D(5) by (cases x) simp
      show ?thesis using K(3) D(2,9) g by (simp add: one upd_file_def fun_eq_iff)
    qed
    ultimately show "\<exists>s3. fd_array_release f (upd_file f g s2) = Some s3 \<and> mounted s3 = mounted s2 \<and> nodes s3 = nodes s2 \<and>
        kmem s3 = kmem s2 \<and> fstructs s3 = fstructs (upd_file f g st) \<and> cur_filesp s3 = cur_filesp st \<and>
        bootfs_node s3 = bootfs_node st \<and> vdev_list s3 = vdev_list st"
      using K by (intro exI [of _ ?s3]) simp
  qed simp_all
qed

end
