(* ===== verification/FileOps.thy ===== *)
theory FileOps
  imports FileInv
begin

text \<open>
  The operations on open descriptors, on the map of files: reading and writing at the position of the
  descriptor, seeking, and closing. Each keeps the invariant of \<open>FileInv\<close>.
\<close>

lemma off_add_small: "0 \<le> a + b \<Longrightarrow> a + b < 2 ^ 63 \<Longrightarrow> off_add a b = a + b"
  unfolding off_add_def sint_sbintrunc' by (intro signed_take_bit_int_eq_self) simp_all

text \<open>The tables after an operation that moved the position of \<open>fd\<close> to \<open>q\<close>, and nothing else.\<close>

definition moved :: "int \<Rightarrow> int \<Rightarrow> ('d, 'z) kfs_scheme \<Rightarrow> ('d, 'z) kfs_scheme \<Rightarrow> bool" where
  "moved fd q st st' \<longleftrightarrow> cur_filesp st' = cur_filesp st \<and> bootfs_node st' = bootfs_node st \<and>
     vdev_list st' = vdev_list st \<and> fstructs st' = fstructs (upd_file (cur_slot st fd) (\<lambda>y. y\<lparr>f_pos := q\<rparr>) st)"

lemma moved_same: "moved fd q st st' \<Longrightarrow> same_files st st'"
  using same_files_upd [of "\<lambda>y. y\<lparr>f_pos := q\<rparr>" st "cur_slot st fd"]
  by (simp add: moved_def same_files_def fkey_def)

lemma moved_open:
  assumes "moved fd q st st'" and "fd_open st fd x n"
  shows "fd_open st' fd (x\<lparr>f_pos := q\<rparr>) n \<or> \<not> nat fd < length (fd_array (fstructs st (the (cur_filesp st))))"
  using assms by (auto simp: moved_def fd_open_def cur_slot_def upd_file_def)

lemma moved_fd:
  assumes "kinv io dinv nb img T X A C st" and "moved fd q st st'" and "fd_open st fd x n"
  shows "fd_open st' fd (x\<lparr>f_pos := q\<rparr>) n"
    and "fd' \<noteq> fd \<Longrightarrow> fd_open st' fd' y m = fd_open st fd' y m"
proof -
  have l: "nat fd < length (fd_array (fstructs st (the (cur_filesp st))))"
    using fd_openD(9) [OF assms(1,3)] by (simp add: cur_slot_def)
  then show "fd_open st' fd (x\<lparr>f_pos := q\<rparr>) n" using moved_open [OF assms(2,3)] by blast
  have fd: "0 \<le> fd" using assms(3) by (auto simp: fd_open_def)
  show "fd_open st' fd' y m = fd_open st fd' y m" if "fd' \<noteq> fd"
  proof (cases "0 \<le> fd'")
    case True
    then have "nat fd' \<noteq> nat fd" using fd that by simp
    then show ?thesis using assms(2) by (auto simp: moved_def fd_open_def cur_slot_def upd_file_def nth_list_update)
  qed (simp add: fd_open_def)
qed

text \<open>Where a seek goes, by each of the three codes.\<close>

definition seek_to :: "int \<Rightarrow> int \<Rightarrow> int \<Rightarrow> nat \<Rightarrow> int" where
  "seek_to whence pos cur len = (if whence = LSEEK_CUR then pos + cur
     else if whence = LSEEK_END then pos + int len else pos)"

context block_device
begin

lemma node_of_fd:
  assumes "kinv io dinv blocks img T X A C st" and "fd_open st fd x n"
  shows "\<exists>i r c. C n = Some (i, r, c) \<and> 0 < c \<and> c \<le> r \<and> vfs_rep io dinv blocks img A C st"
  using fd_open_node [OF assms] assms(1) by (metis kinv_def)

text \<open>
  An operation on the node of an open descriptor: after it, the use of the descriptor can be given back,
  with a new position or the old one.
\<close>

definition given_back ::
  "nat set \<Rightarrow> (nat \<Rightarrow> nat) \<Rightarrow> (u32 \<Rightarrow> fdata option) \<Rightarrow> ncache \<Rightarrow> int \<Rightarrow> ('d, 'z) kfs_scheme \<Rightarrow> ('d, 'z) kfs_scheme \<Rightarrow>
    (int \<Rightarrow> int) \<Rightarrow> int \<Rightarrow> bool" where
  "given_back T X A C fd st s2 h q \<longleftrightarrow>
     (\<exists>s3. fd_array_release (cur_slot st fd) (upd_file (cur_slot st fd) (\<lambda>y. y\<lparr>f_pos := h (f_pos y)\<rparr>) s2) = Some s3 \<and>
       kinv io dinv blocks img T X A C s3 \<and> moved fd (h q) st s3 \<and> kmem s3 = kmem s2)"

definition fd_in_use ::
  "nat set \<Rightarrow> (nat \<Rightarrow> nat) \<Rightarrow> ncache \<Rightarrow> int \<Rightarrow> ('d, 'z) kfs_scheme \<Rightarrow> int \<Rightarrow> ('d, 'z) kfs_scheme \<Rightarrow> bool" where
  "fd_in_use T X C fd st q s1 \<longleftrightarrow> (\<forall>s2 A. vfs.more s2 = vfs.more s1 \<longrightarrow> vfs_rep io dinv blocks img A C s2 \<longrightarrow>
     f_status (file_at s2 (cur_slot st fd)) = FD_OPENED \<and> (\<forall>h. given_back T X A C fd st s2 h q))"

lemma fd_in_useD:
  assumes "fd_in_use T X C fd st q s1" and "vfs.more s2 = vfs.more s1" and "vfs_rep io dinv blocks img A C s2"
  shows "f_status (file_at s2 (cur_slot st fd)) = FD_OPENED" and "given_back T X A C fd st s2 h q"
  using assms unfolding fd_in_use_def by blast+

text \<open>Giving it back with a new position, or with the old one.\<close>

lemma give_back:
  assumes "fd_in_use T X C fd st q s1" and "vfs.more s2 = vfs.more s1" and "vfs_rep io dinv blocks img A C s2"
  obtains s3 where "fd_array_release (cur_slot st fd) (upd_file (cur_slot st fd) (\<lambda>y. y\<lparr>f_pos := h (f_pos y)\<rparr>) s2) = Some s3"
    and "kinv io dinv blocks img T X A C s3" and "moved fd (h q) st s3" and "kmem s3 = kmem s2"
  using fd_in_useD(2) [OF assms, of h] by (auto simp: given_back_def)

lemma give_back_here:
  assumes "fd_in_use T X C fd st q s1" and "vfs.more s2 = vfs.more s1" and "vfs_rep io dinv blocks img A C s2"
  obtains s3 where "fd_array_release (cur_slot st fd) s2 = Some s3"
    and "kinv io dinv blocks img T X A C s3" and "moved fd q st s3" and "kmem s3 = kmem s2"
proof -
  have "(\<lambda>y :: ofile. y\<lparr>f_pos := f_pos y\<rparr>) = (\<lambda>y. y)" by (rule ext) simp
  then have "upd_file (cur_slot st fd) (\<lambda>y. y\<lparr>f_pos := f_pos y\<rparr>) s2 = s2" by simp
  then show thesis using give_back [OF assms, of "\<lambda>q. q"] that by metis
qed

lemma fd_action:
  fixes st :: "('d, 'z) kfs_scheme"
  assumes inv: "kinv io dinv blocks img T X A C st" and fd: "fd_open st fd x n"
  defines "f \<equiv> cur_slot st fd"
  obtains s1 where "fd_array_acquire f st = Some s1" and "f_node (file_at s1 f) = Some n"
    and "f_pos (file_at s1 f) = f_pos x" and "vfs_rep io dinv blocks img A C s1" and "kmem s1 = kmem st"
    and "fd_in_use T X C fd st (f_pos x) s1"
proof -
  note D = fd_openD [OF inv fd, folded f_def]
  have rep: "vfs_rep io dinv blocks img A C st" using inv by (simp add: kinv_def)
  obtain s1 where acq: "fd_array_acquire f st = Some s1" and at: "file_at s1 f = x\<lparr>f_open_count := 2\<rparr>"
    and s1: "mounted s1 = mounted st" "nodes s1 = nodes st" "kmem s1 = kmem st"
    and rel: "\<And>(s2 :: ('d, 'z) kfs_scheme) (g :: ofile \<Rightarrow> ofile) h. vfs.more s2 = vfs.more s1 \<Longrightarrow> \<forall>y. g y = y\<lparr>f_pos := h (f_pos y)\<rparr> \<Longrightarrow>
      \<exists>s3. fd_array_release f (upd_file f g s2) = Some s3 \<and> mounted s3 = mounted s2 \<and> nodes s3 = nodes s2 \<and>
        kmem s3 = kmem s2 \<and> fstructs s3 = fstructs (upd_file f g st) \<and> cur_filesp s3 = cur_filesp st \<and>
        bootfs_node s3 = bootfs_node st \<and> vdev_list s3 = vdev_list st"
    using fd_use [OF inv fd, folded f_def] by metis
  have rep1: "vfs_rep io dinv blocks img A C s1" using vfs_rep_cong [OF s1(1,2)] rep by blast
  show thesis
  proof (rule that [OF acq _ _ rep1 s1(3)], goal_cases)
    case 3
    show ?case
      unfolding fd_in_use_def f_def [symmetric]
    proof (intro allI impI conjI)
      fix s2 :: "('d, 'z) kfs_scheme" and A'
      assume m: "vfs.more s2 = vfs.more s1" and rep2: "vfs_rep io dinv blocks img A' C s2"
      show "f_status (file_at s2 f) = FD_OPENED" using kfs_frame(3) [OF m] at D(7) by simp
      fix h :: "int \<Rightarrow> int"
      let ?g = "\<lambda>y :: ofile. y\<lparr>f_pos := h (f_pos y)\<rparr>"
      have g: "\<forall>y. ?g y = y\<lparr>f_pos := h (f_pos y)\<rparr>" by simp
      obtain s3 where r: "fd_array_release f (upd_file f ?g s2) = Some s3"
        and s3: "mounted s3 = mounted s2" "nodes s3 = nodes s2" "kmem s3 = kmem s2"
          "fstructs s3 = fstructs (upd_file f ?g st)" "cur_filesp s3 = cur_filesp st"
          "bootfs_node s3 = bootfs_node st" "vdev_list s3 = vdev_list st"
        using rel [OF m g] by blast
      have "fstructs (upd_file f ?g st) = fstructs (upd_file f (\<lambda>y. y\<lparr>f_pos := h (f_pos x)\<rparr>) st)"
        using D(2) by (simp add: upd_file_def)
      then have mv: "moved fd (h (f_pos x)) st s3" using s3 by (simp add: moved_def f_def)
      have "vfs_rep io dinv blocks img A' C s3" using vfs_rep_cong [OF s3(1,2)] rep2 by blast
      then show "given_back T X A' C fd st s2 h (f_pos x)"
        using r kinv_same [OF inv _ moved_same [OF mv]] mv s3(3) by (auto simp: given_back_def f_def)
    qed
  qed (use at D in simp_all)
qed

lemma file_read_rep:
  fixes st :: "('d, 'z) kfs_scheme"
  assumes inv: "kinv io dinv blocks img T X A C st" and fd: "fd_open st fd x n" "f_readable x"
    and n: "C n = Some (i, r, c)" "r < MAX_INODE_COUNT" and a: "A i = Some (Inr b)"
    and pos: "0 \<le> f_pos x" "f_pos x < int SFS_MAX_FILE_SIZE" "f_pos x + int len < 2 ^ 63"
    and base: "base + len \<le> length obj"
  defines "bytes \<equiv> take len (drop (nat (f_pos x)) b)"
  obtains st' where "file_read fd obj base len st = Some (0, length bytes, splice base bytes obj, st')"
    and "kinv io dinv blocks img T X A C st'" and "moved fd (f_pos x + int (length bytes)) st st'"
    and "kmem st' = kmem st"
proof -
  note D = fd_openD [OF inv fd(1)]
  let ?f = "cur_slot st fd" and ?iob = "iobuf_init obj base len (f_pos x)"
  obtain s1 where s1: "fd_array_acquire ?f st = Some s1" "f_node (file_at s1 ?f) = Some n" "f_pos (file_at s1 ?f) = f_pos x"
    and rep1: "vfs_rep io dinv blocks img A C s1" and km1: "kmem s1 = kmem st"
    and use: "fd_in_use T X C fd st (f_pos x) s1"
    by (rule fd_action [OF inv fd(1)])
  obtain iob' s2 where v: "vop_read n ?iob s1 = Some (0, iob', s2)" and rep2: "vfs_rep io dinv blocks img A C s2"
    and km2: "kmem s2 = kmem s1" and mo: "vfs.more s2 = vfs.more s1"
    and i: "let bytes = take (io_resid ?iob) (drop (nat (io_offset ?iob)) b) in
      iob_done ?iob (length bytes) (splice (io_base ?iob) bytes (io_buf ?iob)) iob'"
    by (rule read_rep [OF rep1 n a, of ?iob]) (use pos base in \<open>simp_all add: iobuf_init_def\<close>)
  have i': "io_buf iob' = splice base bytes obj" "iobuf_used iob' = length bytes"
    using i by (simp_all add: bytes_def iob_done_def iobuf_init_def iobuf_used_def Let_def)
  have st2: "f_status (file_at s2 ?f) = FD_OPENED" by (rule fd_in_useD(1) [OF use mo rep2])
  let ?o = "\<lambda>p. off_add p (int (length bytes))"
  obtain s3 where r: "fd_array_release ?f (upd_file ?f (\<lambda>y. y\<lparr>f_pos := ?o (f_pos y)\<rparr>) s2) = Some s3"
    and s3: "kinv io dinv blocks img T X A C s3" "moved fd (?o (f_pos x)) st s3" "kmem s3 = kmem s2"
    by (rule give_back [OF use mo rep2, of ?o])
  have "length bytes \<le> len" by (simp add: bytes_def)
  then have o: "off_add (f_pos x) (int (length bytes)) = f_pos x + int (length bytes)"
    by (intro off_add_small) (use pos in simp_all)
  have "file_read fd obj base len st = Some (0, length bytes, splice base bytes obj, s3)"
    using D(1,2) fd(2) s1 v i' st2 r by (simp add: file_read_def)
  then show thesis using that s3 o km1 km2 by simp
qed

lemma file_write_rep:
  fixes st :: "('d, 'z) kfs_scheme"
  assumes inv: "kinv io dinv blocks img T X A C st" and fd: "fd_open st fd x n" "f_writable x"
    and n: "C n = Some (i, r, c)" "r < MAX_INODE_COUNT" and a: "A i = Some (Inr b)"
    and pos: "0 \<le> f_pos x" "nat (f_pos x) \<le> length b" "nat (f_pos x) + len \<le> 4096 * 1036"
    and base: "base + len \<le> length obj"
  obtains ret k st' where "file_write fd obj base len st = Some (ret, k, obj, st')"
    and "ret = 0 \<and> k = len \<or> ret = - E_NO_MEM \<and> k \<le> len"
    and "kinv io dinv blocks img T X (A(i \<mapsto> Inr (overwrite (nat (f_pos x)) (take k (drop base obj)) b))) C st'"
    and "moved fd (f_pos x + int k) st st'" and "kmem st' = kmem st"
proof -
  note D = fd_openD [OF inv fd(1)]
  let ?f = "cur_slot st fd" and ?iob = "iobuf_init obj base len (f_pos x)"
  obtain s1 where s1: "fd_array_acquire ?f st = Some s1" "f_node (file_at s1 ?f) = Some n" "f_pos (file_at s1 ?f) = f_pos x"
    and rep1: "vfs_rep io dinv blocks img A C s1" and km1: "kmem s1 = kmem st"
    and use: "fd_in_use T X C fd st (f_pos x) s1"
    by (rule fd_action [OF inv fd(1)])
  let ?A = "\<lambda>k. A(i \<mapsto> Inr (overwrite (nat (f_pos x)) (take k (drop base obj)) b))"
  obtain ret k iob' s2 where v: "vop_write n ?iob s1 = Some (ret, iob', s2)"
    and k: "ret = 0 \<and> k = io_resid ?iob \<or> ret = - E_NO_MEM \<and> k \<le> io_resid ?iob"
    and i: "iob_done ?iob k (io_buf ?iob) iob'"
    and rep2': "vfs_rep io dinv blocks img
      (A(i \<mapsto> Inr (overwrite (nat (io_offset ?iob)) (take k (drop (io_base ?iob) (io_buf ?iob))) b))) C s2"
    and km2: "kmem s2 = kmem s1" and mo: "vfs.more s2 = vfs.more s1"
    by (rule write_rep [OF rep1 n a, of ?iob]) (use pos base in \<open>simp_all add: iobuf_init_def\<close>)
  have rep2: "vfs_rep io dinv blocks img (?A k) C s2" using rep2' by (simp add: iobuf_init_def)
  have k': "ret = 0 \<and> k = len \<or> ret = - E_NO_MEM \<and> k \<le> len" using k by (simp add: iobuf_init_def)
  then have kl: "k \<le> len" by auto
  have i': "io_buf iob' = obj" "iobuf_used iob' = k"
    using i kl by (simp_all add: iob_done_def iobuf_init_def iobuf_used_def)
  have st2: "f_status (file_at s2 ?f) = FD_OPENED" by (rule fd_in_useD(1) [OF use mo rep2])
  let ?o = "\<lambda>p. off_add p (int k)"
  obtain s3 where r: "fd_array_release ?f (upd_file ?f (\<lambda>y. y\<lparr>f_pos := ?o (f_pos y)\<rparr>) s2) = Some s3"
    and s3: "kinv io dinv blocks img T X (?A k) C s3" "moved fd (?o (f_pos x)) st s3" "kmem s3 = kmem s2"
    by (rule give_back [OF use mo rep2, of ?o])
  have "f_pos x + int k \<le> 4096 * 1036" using pos kl by linarith
  then have o: "off_add (f_pos x) (int k) = f_pos x + int k"
    using pos(1) by (intro off_add_small) simp_all
  have "file_write fd obj base len st = Some (ret, k, obj, s3)"
    using D(1,2) fd(2) s1 v i' st2 r by (simp add: file_write_def)
  then show thesis using that k' s3 o km1 km2 by simp
qed

lemma file_seek_rep:
  fixes st :: "('d, 'z) kfs_scheme" and pos whence :: int
  assumes inv: "kinv io dinv blocks img T X A C st" and fd: "fd_open st fd x n"
    and n: "C n = Some (i, r, c)" "r < MAX_INODE_COUNT" and a: "A i = Some (Inr b)"
    and w: "whence \<in> {LSEEK_SET, LSEEK_CUR, LSEEK_END}"
  defines "q \<equiv> seek_to whence pos (f_pos x) (length b)"
  assumes q: "0 \<le> q" "nat q \<le> length b" "q < int SFS_MAX_FILE_SIZE"
  obtains st' where "file_seek fd pos whence st = Some (0, st')"
    and "kinv io dinv blocks img T X A C st'" and "moved fd q st st'" and "kmem st' = kmem st"
proof -
  note D = fd_openD [OF inv fd]
  let ?f = "cur_slot st fd"
  obtain s1 where s1: "fd_array_acquire ?f st = Some s1" "f_node (file_at s1 ?f) = Some n" "f_pos (file_at s1 ?f) = f_pos x"
    and rep1: "vfs_rep io dinv blocks img A C s1" and km1: "kmem s1 = kmem st"
    and use: "fd_in_use T X C fd st (f_pos x) s1"
    by (rule fd_action [OF inv fd])
  obtain s where fs: "vop_fstat n s1 = Some s" and sz: "\<forall>b. A i = Some (Inr b) \<longrightarrow> st_mode s = S_IFREG \<and> unat (st_size s) = length b"
    by (rule fstat_rep [OF rep1 n])
  have us: "uint (st_size s) = int (length b)" using sz a by (simp add: uint_nat)
  have "q < 2 ^ 63" using q(3) by (simp add: SFS_MAX_FILE_SIZE_def)
  then have "(if whence = LSEEK_SET then Some (0 :: int, pos)
            else if whence = LSEEK_CUR then Some (0, off_add pos (f_pos (file_at s1 ?f)))
            else if whence = LSEEK_END then map_option (\<lambda>s. (0, off_add pos (uint (st_size s)))) (vop_fstat n s1)
            else Some (- E_INVAL, pos)) = Some (0, q)"
    using w q s1(3) fs us off_add_small [of pos "f_pos x"] off_add_small [of pos "int (length b)"]
    by (auto simp: q_def seek_to_def LSEEK_SET_def LSEEK_CUR_def LSEEK_END_def split: if_splits)
  moreover have t: "vop_tryseek n q s1 = Some (0, s1)" by (rule tryseek_rep [OF rep1 n a q])
  moreover obtain s3 where r: "fd_array_release ?f (upd_file ?f (\<lambda>y. y\<lparr>f_pos := q\<rparr>) s1) = Some s3"
    and s3: "kinv io dinv blocks img T X A C s3" "moved fd q st s3" "kmem s3 = kmem s1"
    using give_back [OF use refl rep1, of "\<lambda>_. q"] .
  ultimately have "file_seek fd pos whence st = Some (0, s3)"
    using D(1) s1(1,2) unfolding file_seek_def by (simp del: option.map)
  then show thesis using that s3 km1 by simp
qed

lemma file_fsync_rep:
  fixes st :: "('d, 'z) kfs_scheme"
  assumes inv: "kinv io dinv blocks img T X A C st" and fd: "fd_open st fd x n"
    and n: "C n = Some (i, r, c)" "r < MAX_INODE_COUNT"
  obtains st' where "file_fsync fd st = Some (0, st')"
    and "kinv io dinv blocks img T X A C st'" and "moved fd (f_pos x) st st'" and "kmem st' = kmem st"
proof -
  note D = fd_openD [OF inv fd]
  let ?f = "cur_slot st fd"
  obtain s1 where s1: "fd_array_acquire ?f st = Some s1" "f_node (file_at s1 ?f) = Some n" "f_pos (file_at s1 ?f) = f_pos x"
    and rep1: "vfs_rep io dinv blocks img A C s1" and km1: "kmem s1 = kmem st"
    and use: "fd_in_use T X C fd st (f_pos x) s1"
    by (rule fd_action [OF inv fd])
  obtain s2 where v: "vop_fsync n s1 = Some (0, s2)" and rep2: "vfs_rep io dinv blocks img A C s2"
    and km2: "kmem s2 = kmem s1" and mo: "vfs.more s2 = vfs.more s1"
    by (rule vop_fsync_rep [OF rep1 n])
  obtain s3 where r: "fd_array_release ?f s2 = Some s3"
    and s3: "kinv io dinv blocks img T X A C s3" "moved fd (f_pos x) st s3" "kmem s3 = kmem s2"
    by (rule give_back_here [OF use mo rep2])
  have "file_fsync fd st = Some (0, s3)" using D(1) s1 v r by (simp add: file_fsync_def)
  then show thesis using that s3 km1 km2 by simp
qed

lemma file_fstat_rep:
  fixes st :: "('d, 'z) kfs_scheme"
  assumes inv: "kinv io dinv blocks img T X A C st" and fd: "fd_open st fd x n"
    and n: "C n = Some (i, r, c)" "r < MAX_INODE_COUNT"
  obtains s st' where "file_fstat fd st = Some (Inr s, st')"
    and "\<forall>b. A i = Some (Inr b) \<longrightarrow> st_mode s = S_IFREG \<and> unat (st_size s) = length b"
    and "\<forall>es. A i = Some (Inl es) \<longrightarrow> st_mode s = S_IFDIR \<and> unat (st_blocks s) = length es"
    and "kinv io dinv blocks img T X A C st'" and "moved fd (f_pos x) st st'" and "kmem st' = kmem st"
proof -
  note D = fd_openD [OF inv fd]
  let ?f = "cur_slot st fd"
  obtain s1 where s1: "fd_array_acquire ?f st = Some s1" "f_node (file_at s1 ?f) = Some n" "f_pos (file_at s1 ?f) = f_pos x"
    and rep1: "vfs_rep io dinv blocks img A C s1" and km1: "kmem s1 = kmem st"
    and use: "fd_in_use T X C fd st (f_pos x) s1"
    by (rule fd_action [OF inv fd])
  obtain s where fs: "vop_fstat n s1 = Some s" and sz: "\<forall>b. A i = Some (Inr b) \<longrightarrow> st_mode s = S_IFREG \<and> unat (st_size s) = length b"
    "\<forall>es. A i = Some (Inl es) \<longrightarrow> st_mode s = S_IFDIR \<and> unat (st_blocks s) = length es"
    by (rule fstat_rep [OF rep1 n])
  obtain s3 where r: "fd_array_release ?f s1 = Some s3"
    and s3: "kinv io dinv blocks img T X A C s3" "moved fd (f_pos x) st s3" "kmem s3 = kmem s1"
    by (rule give_back_here [OF use refl rep1])
  have "file_fstat fd st = Some (Inr s, s3)" using D(1) s1 fs r by (simp add: file_fstat_def)
  then show thesis using that sz s3 km1 by simp
qed

text \<open>Listing: the entry at the offset, which moves on by one name.\<close>

lemma file_getdirentry_rep:
  fixes st :: "('d, 'z) kfs_scheme"
  assumes inv: "kinv io dinv blocks img T X A C st" and fd: "fd_open st fd x n"
    and n: "C n = Some (i, r, c)" "r < MAX_INODE_COUNT" and a: "A i = Some (Inl es)"
    and ks: "kmem st = Some p # ks" and off: "d_offset d = int (256 * k)" "k \<le> length es"
    and d: "length (d_name d) = 256"
  obtains st' where "file_getdirentry fd d st =
      Some (if k < length (live_entries es)
        then (0, d\<lparr>d_offset := int (256 * Suc k), d_name := ename (live_entries es ! k)\<rparr>, st') else (- E_NOENT, d, st'))"
    and "kinv io dinv blocks img T X A C st'" and "moved fd (f_pos x) st st'" and "kmem st' = ks"
proof -
  note D = fd_openD [OF inv fd]
  let ?f = "cur_slot st fd" and ?iob = "iobuf_init (d_name d) 0 256 (d_offset d)"
  obtain s1 where s1: "fd_array_acquire ?f st = Some s1" "f_node (file_at s1 ?f) = Some n" "f_pos (file_at s1 ?f) = f_pos x"
    and rep1: "vfs_rep io dinv blocks img A C s1" and km1: "kmem s1 = kmem st"
    and use: "fd_in_use T X C fd st (f_pos x) s1"
    by (rule fd_action [OF inv fd])
  have ks1: "kmem s1 = Some p # ks" using ks km1 by simp
  obtain ret iob' s2 where v: "vop_getdirentry n ?iob s1 = Some (ret, iob', s2)"
    and rep2: "vfs_rep io dinv blocks img A C s2" and km2: "kmem s2 = ks" and mo: "vfs.more s2 = vfs.more s1"
    and i: "if k < length (live_entries es)
      then ret = 0 \<and> iob_done ?iob 256 (splice (io_base ?iob) (ename (live_entries es ! k)) (io_buf ?iob)) iob'
      else ret = - E_NOENT \<and> iob' = ?iob"
    by (rule getdirentry_rep [OF rep1 n a ks1, of ?iob k]) (use off d in \<open>simp_all add: iobuf_init_def\<close>)
  obtain s3 where r: "fd_array_release ?f s2 = Some s3"
    and s3: "kinv io dinv blocks img T X A C s3" "moved fd (f_pos x) st s3" "kmem s3 = kmem s2"
    by (rule give_back_here [OF use mo rep2])
  have sz: "io_buf ?iob = d_name d" by (simp add: iobuf_init_def)
  have "file_getdirentry fd d st = Some (if k < length (live_entries es)
        then (0, d\<lparr>d_offset := int (256 * Suc k), d_name := ename (live_entries es ! k)\<rparr>, s3) else (- E_NOENT, d, s3))"
  proof (cases "k < length (live_entries es)")
    case False
    then show ?thesis
      using D(1) s1(1,2) v r i sz by (simp add: file_getdirentry_def FS_MAX_FNAME_LEN_def E_NOENT_def)
  next
    case True
    obtain F bs where inv1: "vfs_inv io dinv blocks img F s1" and wf: "file_wf img (mounted s1) (ino (node_sin s1 n)) (din (node_sin s1 n), bs)"
      and a2: "A (ino (node_sin s1 n)) = Some (fdata_of img (mounted s1) (din (node_sin s1 n), bs))"
      by (rule rep_node [OF rep_cache(1,2) [OF rep1 n(1)]])
    have "dirents img (mounted s1) bs = es"
      using a a2 rep_cache(3) [OF rep1 n(1)] by (auto simp: fdata_of_def split: if_splits)
    moreover have "live_entries es ! k \<in> set es" using nth_mem [OF True] by (auto simp: live_entries_def)
    ultimately have ln: "length (ename (live_entries es ! k)) = 256"
      using length_ename [of "mounted s1" "din (node_sin s1 n)" bs] inv1 wf
      by (simp add: vfs_inv_def file_wf_def sfs_dentry_size_def SFS_MAX_FNAME_LEN_def)
    have e: "ret = 0" "io_buf iob' = ename (live_entries es ! k)" "iobuf_used iob' = 256"
      using i True ln d by (simp_all add: iob_done_def iobuf_init_def iobuf_used_def FsBase.splice_def)
    have kb: "k < 2 ^ 32"
    proof -
      have "length bs = unat (fblocks (din (node_sin s1 n)))" using wf by (simp add: file_wf_def file_rep_def)
      moreover have "length es = length bs" using \<open>dirents img (mounted s1) bs = es\<close> length_dirents [of img "mounted s1" bs] by simp
      ultimately show ?thesis using off(2) unsigned_less [of "fblocks (din (node_sin s1 n))", where ?'a = nat] by simp
    qed
    have "off_add (d_offset d) 256 = int (256 * Suc k)"
      using off_add_small [of "d_offset d" 256] off(1) kb by simp
    then show ?thesis
      using D(1) s1(1,2) v r e True by (simp add: file_getdirentry_def FS_MAX_FNAME_LEN_def)
  qed
  then show thesis using that s3 km2 by blast
qed

section \<open>Closing\<close>

lemma close_slot:
  fixes st :: "('d, 'z) kfs_scheme"
  assumes inv: "kinv io dinv blocks img T X A C st" and f: "fst f \<in> T" "snd f < FILES_STRUCT_NENTRY"
    and x: "f_status (file_at st f) = FD_OPENED" "f_node (file_at st f) = Some n"
    and n: "C n = Some (i, r, c)" "r < MAX_INODE_COUNT"
  obtains st' where "fd_array_close f st = Some st'"
    and "kinv io dinv blocks img T X A (dec_ref n (C(n \<mapsto> (i, r, c - 1)))) st'"
    and "fstructs st' = fstructs (upd_file f (\<lambda>y. y\<lparr>f_status := FD_NONE, f_open_count := 0\<rparr>) st)"
    and "cur_filesp st' = cur_filesp st" and "bootfs_node st' = bootfs_node st" and "kmem st' = kmem st"
proof -
  define y where "y = file_at st f"
  let ?s1 = "upd_file f (\<lambda>x. x\<lparr>f_status := FD_CLOSED, f_open_count := f_open_count x - 1\<rparr>) st"
  have rep: "vfs_rep io dinv blocks img A C st" and t: "fds_ok (fd_array (fstructs st (fst f)))"
    using inv f(1) by (simp_all add: kinv_def)
  have e: "entry_ok (snd f) y" and l: "snd f < length (fd_array (fstructs st (fst f)))"
    using t f(2) by (simp_all add: fds_ok_def y_def)
  have y: "f_status y = FD_OPENED" "f_node y = Some n" using x by (simp_all add: y_def)
  then have oc: "f_open_count y = 1" using e by (simp add: entry_ok_def)
  have c: "0 < c" "c \<le> r" using slot_node [OF inv f x] n(1) by auto
  have at: "file_at ?s1 f = y\<lparr>f_status := FD_CLOSED, f_open_count := 0\<rparr>" using l oc by (simp add: y_def)
  have rep1: "vfs_rep io dinv blocks img A C ?s1" using rep by simp
  obtain s2 where v: "vfs_close n ?s1 = Some s2"
    and rep2: "vfs_rep io dinv blocks img A (dec_ref n (C(n \<mapsto> (i, r, c - 1)))) s2"
    and f2: "kmem s2 = kmem ?s1" "vfs.more s2 = vfs.more ?s1"
    by (rule vfs_close_ok [OF rep1 n(1) c(1) n(2)])
  note K = kfs_frame [OF f2(2)]
  let ?s3 = "upd_file f (\<lambda>x. x\<lparr>f_status := FD_NONE\<rparr>) s2"
  have "fd_array_free f ?s1 = Some ?s3"
    unfolding fd_array_free_def at using v y by (simp add: kassert_def)
  then have cl: "fd_array_close f st = Some ?s3"
    using y oc at by (simp add: fd_array_close_def kassert_def Let_def y_def)
  let ?g = "\<lambda>y. y\<lparr>f_status := FD_NONE, f_open_count := 0\<rparr>"
  have fs: "fstructs ?s3 = fstructs (upd_file f ?g st)"
  proof -
    have one: "y\<lparr>f_open_count := 0, f_status := FD_NONE\<rparr> = ?g y" by (cases y) simp
    have "fstructs ?s3 = (fstructs st)(fst f := (fstructs st (fst f))\<lparr>fd_array :=
        (fd_array (fstructs st (fst f)))[snd f := y\<lparr>f_open_count := 0, f_status := FD_NONE\<rparr>]\<rparr>)"
      using K(3) l oc by (simp add: upd_file_def y_def)
    then show ?thesis by (simp add: one upd_file_def) (simp add: y_def)
  qed
  have "kinv io dinv blocks img T X A (dec_ref n (C(n \<mapsto> (i, r, c - 1)))) ?s3"
  proof (rule kinv_upd [OF inv _ f fs])
    show "entry_ok (snd f) (?g (file_at st f))" using e by (simp add: entry_ok_def y_def)
    have "cnt (dec_ref n (C(n \<mapsto> (i, r, c - 1)))) = (cnt C)(n := (r - 1, c - 1))"
      by (rule cnt_close [where C = C, OF n(1) c(2,1)])
    then show "cnt (dec_ref n (C(n \<mapsto> (i, r, c - 1)))) m = (fst (cnt C m) + of_bool (opened_on m (?g (file_at st f)))
          - of_bool (opened_on m (file_at st f)) + int (X m) - int (X m),
        snd (cnt C m) + of_bool (opened_on m (?g (file_at st f))) - of_bool (opened_on m (file_at st f)))" for m
      using x cnt_Some [where C = C, OF n(1)] by (simp add: opened_on_def)
  qed (use rep2 K in simp_all)
  then show thesis by (rule that [OF cl _ fs]) (use K f2 in simp_all)
qed

lemma file_close_rep:
  fixes st :: "('d, 'z) kfs_scheme"
  assumes inv: "kinv io dinv blocks img T X A C st" and fd: "fd_open st fd x n"
    and n: "C n = Some (i, r, c)" "r < MAX_INODE_COUNT"
  obtains st' where "file_close fd st = Some (0, st')"
    and "kinv io dinv blocks img T X A (dec_ref n (C(n \<mapsto> (i, r, c - 1)))) st'"
    and "fstructs st' = fstructs (upd_file (cur_slot st fd) (\<lambda>y. y\<lparr>f_status := FD_NONE, f_open_count := 0\<rparr>) st)"
    and "cur_filesp st' = cur_filesp st" and "bootfs_node st' = bootfs_node st" and "kmem st' = kmem st"
proof -
  note D = fd_openD [OF inv fd]
  have x: "f_status (file_at st (cur_slot st fd)) = FD_OPENED" "f_node (file_at st (cur_slot st fd)) = Some n"
    using D(2,7,8) by simp_all
  obtain st' where st': "fd_array_close (cur_slot st fd) st = Some st'"
    "kinv io dinv blocks img T X A (dec_ref n (C(n \<mapsto> (i, r, c - 1)))) st'"
    "fstructs st' = fstructs (upd_file (cur_slot st fd) (\<lambda>y. y\<lparr>f_status := FD_NONE, f_open_count := 0\<rparr>) st)"
    "cur_filesp st' = cur_filesp st" "bootfs_node st' = bootfs_node st" "kmem st' = kmem st"
    by (rule close_slot [OF inv D(3,4) x n])
  have "file_close fd st = Some (0, st')" using D(1) st'(1) by (simp add: file_close_def)
  then show thesis using that st' by blast
qed

end

end
