(* ===== verification/FileOpen.thy ===== *)
theory FileOpen
  imports FileOps
begin

text \<open>
  Opening: \<open>file_open\<close> takes the first free descriptor and one reference and open count of the node its
  name resolves to, and gives everything back when it fails. The one exception is shown with the others:
  with \<open>O_CREAT | O_EXCL\<close> on a file that exists, the reference of the lookup stays.
\<close>

section \<open>Taking a slot\<close>

definition free_slot :: "('d, 'z) kfs_scheme \<Rightarrow> nat option" where
  "free_slot st = (case cur_filesp st of None \<Rightarrow> None
     | Some p \<Rightarrow> List.find (\<lambda>k. f_status (file_at st (p, k)) = FD_NONE) [0..<FILES_STRUCT_NENTRY])"

definition taken :: "ofile \<Rightarrow> ofile" where
  "taken x = x\<lparr>f_status := FD_INIT, f_node := None\<rparr>"

lemma free_slotD:
  assumes inv: "kinv io dinv nb img T X A C st" and k: "free_slot st = Some k"
  defines "f \<equiv> cur_slot st (int k)"
  shows "fd_array_alloc NO_FD st = Some (Inr f, upd_file f taken st)" and "fst f \<in> T" and "snd f = k"
    and "k < FILES_STRUCT_NENTRY" and "f_status (file_at st f) = FD_NONE" and "f_open_count (file_at st f) = 0"
    and "f_fd (file_at st f) = int k" and "snd f < length (fd_array (fstructs st (fst f)))"
    and "cur_filesp st = Some (fst f)"
proof -
  obtain p where p: "cur_filesp st = Some p" "p \<in> T" "fcount (fstructs st p) > 0" using inv by (auto simp: kinv_def)
  have f: "f = (p, k)" using p by (simp add: f_def cur_slot_def)
  have fk: "List.find (\<lambda>k. f_status (file_at st (p, k)) = FD_NONE) [0..<FILES_STRUCT_NENTRY] = Some k"
    using k p by (simp add: free_slot_def)
  then show kl: "k < FILES_STRUCT_NENTRY" and st: "f_status (file_at st f) = FD_NONE"
    by (auto simp: find_Some_iff f)
  have t: "fds_ok (fd_array (fstructs st p))" using inv p by (simp add: kinv_def)
  then have e: "entry_ok k (file_at st f)" using kl f by (simp add: fds_ok_def)
  show oc: "f_open_count (file_at st f) = 0" and "f_fd (file_at st f) = int k"
    and "fst f \<in> T" and "snd f = k" and "cur_filesp st = Some (fst f)" using e st p f by (auto simp: entry_ok_def)
  show "snd f < length (fd_array (fstructs st (fst f)))" using t kl f by (simp add: fds_ok_def)
  have "taken = (\<lambda>x. x\<lparr>f_status := FD_INIT, f_node := None\<rparr>)" by (simp add: fun_eq_iff taken_def)
  then show "fd_array_alloc NO_FD st = Some (Inr f, upd_file f taken st)"
    using p fk oc f by (simp add: fd_array_alloc_def get_fd_array_def)
qed

text \<open>A slot in use is not one of the free ones.\<close>

lemma free_slot_other: "free_slot st = Some k \<Longrightarrow> fd_open st fd x n \<Longrightarrow> fd \<noteq> int k"
  by (auto simp: free_slot_def fd_open_def find_Some_iff)

section \<open>A descriptor that has just been opened\<close>

definition opened :: "u32 \<Rightarrow> nat \<Rightarrow> nat \<Rightarrow> int \<Rightarrow> ofile" where
  "opened fl k n q = \<lparr>f_status = FD_OPENED,
     f_readable = (fl AND O_ACCMODE = O_RDONLY \<or> fl AND O_ACCMODE = O_RDWR),
     f_writable = (fl AND O_ACCMODE = O_WRONLY \<or> fl AND O_ACCMODE = O_RDWR),
     f_fd = int k, f_pos = q, f_node = Some n, f_open_count = 1\<rparr>"

text \<open>Writing a slot of the tables.\<close>

definition slot_set :: "nat \<times> nat \<Rightarrow> ofile \<Rightarrow> (nat \<Rightarrow> files_struct) \<Rightarrow> nat \<Rightarrow> files_struct" where
  "slot_set f y F = F(fst f := (F (fst f))\<lparr>fd_array := (fd_array (F (fst f)))[snd f := y]\<rparr>)"

lemma slot_set_set [simp]: "slot_set f y (slot_set f x F) = slot_set f y F"
  by (simp add: slot_set_def)

lemma fstructs_upd_file: "fstructs (upd_file f g st) = slot_set f (g (file_at st f)) (fstructs st)"
  by (simp add: upd_file_def slot_set_def)

text \<open>Only the slot \<open>f\<close> differs.\<close>

definition slot_only :: "nat \<times> nat \<Rightarrow> ('d, 'z) kfs_scheme \<Rightarrow> ('d, 'z) kfs_scheme \<Rightarrow> bool" where
  "slot_only f st u \<longleftrightarrow> snd f < length (fd_array (fstructs u (fst f))) \<and>
     fstructs u = slot_set f (file_at u f) (fstructs st)"

lemma slot_only_upd: "slot_only f st u \<Longrightarrow> slot_only f st (upd_file f g u)"
proof -
  assume a: "slot_only f st u"
  then have at: "file_at (upd_file f g u) f = g (file_at u f)" by (simp add: slot_only_def)
  have "fstructs (upd_file f g u) = slot_set f (g (file_at u f)) (fstructs u)" by (rule fstructs_upd_file)
  also have "\<dots> = slot_set f (g (file_at u f)) (slot_set f (file_at u f) (fstructs st))"
    using a by (simp add: slot_only_def)
  finally have e: "fstructs (upd_file f g u) = slot_set f (file_at (upd_file f g u) f) (fstructs st)"
    unfolding at by simp
  have "snd f < length (fd_array (fstructs (upd_file f g u) (fst f)))" using a by (simp add: slot_only_def)
  then show ?thesis unfolding slot_only_def using e by blast
qed

lemma slot_only_start:
  assumes "snd f < length (fd_array (fstructs st (fst f)))"
  shows "slot_only f st (upd_file f g st)"
proof -
  have at: "file_at (upd_file f g st) f = g (file_at st f)" using assms by simp
  have "snd f < length (fd_array (fstructs (upd_file f g st) (fst f)))" using assms by simp
  moreover have "fstructs (upd_file f g st) = slot_set f (file_at (upd_file f g st) f) (fstructs st)"
    unfolding at by (rule fstructs_upd_file)
  ultimately show ?thesis unfolding slot_only_def by blast
qed

text \<open>The end of \<open>file_open\<close>.\<close>

lemma open_finish:
  fixes st s2 :: "('d, 'z) kfs_scheme"
  assumes inv: "kinv io dinv nb img T X A C st" and k: "free_slot st = Some k"
  defines "f \<equiv> cur_slot st (int k)"
  assumes vo: "vfs_open path fl (upd_file f taken st) = Some (Inr n, path', s2)" and fl: "flags_ok fl"
    and m: "vfs.more s2 = vfs.more (upd_file f taken st)"
    and ap: "fl AND O_APPEND \<noteq> 0 \<Longrightarrow>
      \<exists>s. vop_fstat n (upd_file f (\<lambda>x. x\<lparr>f_pos := 0\<rparr>) s2) = Some s \<and> sint (st_size s) = int len"
  defines "q \<equiv> (if fl AND O_APPEND \<noteq> 0 then int len else 0)"
  obtains st' where "file_open path fl st = Some (int k, st')" and "mounted st' = mounted s2" and "nodes st' = nodes s2"
    and "kmem st' = kmem s2" and "fstructs st' = fstructs (upd_file f (\<lambda>_. opened fl k n q) st)"
    and "cur_filesp st' = cur_filesp st" and "bootfs_node st' = bootfs_node st"
proof -
  note D = free_slotD [OF inv k, folded f_def]
  note K = kfs_frame [OF m]
  let ?rd = "fl AND O_ACCMODE = O_RDONLY \<or> fl AND O_ACCMODE = O_RDWR"
  let ?wr = "fl AND O_ACCMODE = O_WRONLY \<or> fl AND O_ACCMODE = O_RDWR"
  have l: "snd f < length (fd_array (fstructs s2 (fst f)))" using K(3) D(8) by simp
  have at: "file_at s2 f = taken (file_at st f)" using K(3) D(8) by simp
  define u where "u = upd_file f (\<lambda>x. x\<lparr>f_pos := 0\<rparr>) s2"
  define v where "v = (if fl AND O_APPEND \<noteq> 0 then upd_file f (\<lambda>x. x\<lparr>f_pos := int len\<rparr>) u else u)"
  define w where "w = upd_file f (\<lambda>x. x\<lparr>f_node := Some n, f_readable := ?rd, f_writable := ?wr\<rparr>) v"
  have lu: "snd f < length (fd_array (fstructs u (fst f)))" "snd f < length (fd_array (fstructs v (fst f)))"
    using l by (simp_all add: u_def v_def)
  have au: "file_at u f = (taken (file_at st f))\<lparr>f_pos := 0\<rparr>" using l at by (simp add: u_def)
  have av: "file_at v f = (taken (file_at st f))\<lparr>f_pos := q\<rparr>" using lu(1) au by (simp add: v_def q_def)
  have aw: "file_at w f = (taken (file_at st f))\<lparr>f_pos := q, f_node := Some n, f_readable := ?rd, f_writable := ?wr\<rparr>"
    using lu(2) av by (simp add: w_def)
  let ?s = "upd_file f (\<lambda>x. x\<lparr>f_status := FD_OPENED, f_open_count := f_open_count x + 1\<rparr>) w"
  have op: "fd_array_open f w = Some ?s" using aw by (simp add: fd_array_open_def taken_def)
  have lw: "snd f < length (fd_array (fstructs w (fst f)))" using lu by (simp add: w_def)
  have as: "file_at ?s f = opened fl k n q"
    using lw aw D(6,7) by (cases "file_at st f") (simp add: taken_def opened_def)
  have "(if fl AND O_APPEND \<noteq> 0 then do {
        s \<leftarrow> vop_fstat n u;
        Some (upd_file f (\<lambda>x. x\<lparr>f_pos := sint (st_size s)\<rparr>) u)
      } else Some u) = Some v"
    using ap by (auto simp: v_def u_def)
  then have fo: "file_open path fl st = Some (int k, ?s)"
    using D(1) vo fl op as unfolding file_open_def u_def w_def
    by (auto simp: Let_def flags_ok_def opened_def u_def [symmetric] v_def [symmetric])
  have fs: "fstructs ?s = fstructs (upd_file f (\<lambda>_. opened fl k n q) st)"
  proof -
    have "slot_only f st s2"
      unfolding slot_only_def at using l K(3) by (simp add: fstructs_upd_file)
    then have "slot_only f st v" by (simp add: v_def u_def slot_only_upd)
    then have "slot_only f st ?s" by (simp add: w_def slot_only_upd)
    then show ?thesis unfolding slot_only_def as by (simp add: fstructs_upd_file)
  qed
  show thesis by (rule that [OF fo _ _ _ fs]) (use K in \<open>simp_all add: u_def v_def w_def\<close>)
qed

text \<open>A failing \<open>file_open\<close>.\<close>

lemma open_fail:
  fixes st s2 :: "('d, 'z) kfs_scheme"
  assumes inv: "kinv io dinv nb img T X A C st" and k: "free_slot st = Some k"
  defines "f \<equiv> cur_slot st (int k)"
  assumes vo: "vfs_open path fl (upd_file f taken st) = Some (Inl e, path', s2)" and fl: "flags_ok fl"
    and m: "vfs.more s2 = vfs.more (upd_file f taken st)"
  obtains st' where "file_open path fl st = Some (e, st')" and "mounted st' = mounted s2" and "nodes st' = nodes s2"
    and "kmem st' = kmem s2" and "fstructs st' = fstructs (upd_file f (\<lambda>x. x\<lparr>f_node := None\<rparr>) st)"
    and "cur_filesp st' = cur_filesp st" and "bootfs_node st' = bootfs_node st"
proof -
  note D = free_slotD [OF inv k, folded f_def]
  note K = kfs_frame [OF m]
  let ?s = "upd_file f (\<lambda>x. x\<lparr>f_status := FD_NONE\<rparr>) s2"
  have at: "file_at s2 f = taken (file_at st f)" using K(3) D(8) by simp
  then have "fd_array_free f s2 = Some ?s" using D(6) by (simp add: fd_array_free_def taken_def)
  then have fo: "file_open path fl st = Some (e, ?s)"
    using D(1) vo fl unfolding file_open_def by (auto simp: Let_def flags_ok_def)
  have fs: "fstructs ?s = fstructs (upd_file f (\<lambda>x. x\<lparr>f_node := None\<rparr>) st)"
  proof -
    have "(taken (file_at st f))\<lparr>f_status := FD_NONE\<rparr> = (file_at st f)\<lparr>f_node := None\<rparr>"
      using D(5) by (cases "file_at st f") (simp add: taken_def)
    then show ?thesis using K(3) D(8) by (simp add: upd_file_def fun_eq_iff)
  qed
  show thesis by (rule that [OF fo _ _ _ fs]) (use K in simp_all)
qed

lemma start_dir_upd [simp]: "start_dir path (upd_file f g st) = start_dir path st"
  by (simp add: start_dir_def upd_file_def split: option.split)


text \<open>Enough room in the counts for one more reference and open.\<close>

definition few :: "ncache \<Rightarrow> bool" where
  "few C \<longleftrightarrow> (\<forall>m. fst (cnt C m) + 2 < MAX_INODE_COUNT)"

lemma few_node: "few C \<Longrightarrow> C n = Some (i, r, c) \<Longrightarrow> r + 2 < MAX_INODE_COUNT"
  by (metis cnt_Some few_def fst_conv)

definition wants_excl :: "u32 \<Rightarrow> bool" where
  "wants_excl fl \<longleftrightarrow> fl AND O_CREAT \<noteq> 0 \<and> fl AND O_EXCL \<noteq> 0"

context block_device
begin

text \<open>The name as \<open>file_open\<close> finds it, and its outcomes.\<close>

lemma open_lookup:
  fixes st :: "('d, 'z) kfs_scheme"
  assumes inv: "kinv io dinv blocks img T X A C st" and few: "few C" and p: "plain path" "start_dir path st = Some d"
    and d: "C d = Some (di, dr, dc)" "A di = Some (Inl es)" and len: "length (subpath path) \<le> SFS_MAX_FNAME_LEN"
    and fresh: "kmem_fresh C (kmem st)"
  obtains res C1 s2 where "vfs_lookup path (upd_file f taken st) = Some (res, path, s2)"
    and "vfs_rep io dinv blocks img A C1 s2" and "resolves d es path C (kmem st) res C1 (kmem s2)"
    and "vfs.more s2 = vfs.more (upd_file f taken st)"
proof -
  have rep: "vfs_rep io dinv blocks img A C (upd_file f taken st)" using inv by (simp add: kinv_def)
  have p': "start_dir path (upd_file f taken st) = Some d" using p(2) by simp
  have r: "dr + 1 < MAX_INODE_COUNT" using few_node [where C = C, OF few d(1)] by simp
  have fr: "kmem_fresh C (kmem (upd_file f taken st))" using fresh by simp
  obtain res C1 s2 where "vfs_lookup path (upd_file f taken st) = Some (res, path, s2)"
    "vfs_rep io dinv blocks img A C1 s2" "resolves d es path C (kmem (upd_file f taken st)) res C1 (kmem s2)"
    "vfs.more s2 = vfs.more (upd_file f taken st)"
    by (rule vfs_lookup_ok [OF rep p(1) p' d(1) r d(2) len fr])
  then show thesis using that by simp
qed

lemma open_error:
  fixes st :: "('d, 'z) kfs_scheme"
  assumes inv: "kinv io dinv blocks img T X A C st" and k: "free_slot st = Some k" and fl: "flags_ok fl"
    and vo: "vfs_open path fl (upd_file (cur_slot st (int k)) taken st) = Some (Inl e, path', s2)"
    and m: "vfs.more s2 = vfs.more (upd_file (cur_slot st (int k)) taken st)"
    and rep2: "vfs_rep io dinv blocks img A' C1 s2"
    and c: "cnt C1 = (\<lambda>m. (fst (cnt C m) + int (X' m) - int (X m), snd (cnt C m)))"
  obtains st' where "file_open path fl st = Some (e, st')" and "kinv io dinv blocks img T X' A' C1 st'"
    and "kmem st' = kmem s2"
proof -
  let ?f = "cur_slot st (int k)"
  note D = free_slotD [OF inv k]
  obtain st' where o: "file_open path fl st = Some (e, st')" and v: "mounted st' = mounted s2" "nodes st' = nodes s2" "kmem st' = kmem s2"
    and fs: "fstructs st' = fstructs (upd_file ?f (\<lambda>x. x\<lparr>f_node := None\<rparr>) st)" "cur_filesp st' = cur_filesp st"
      "bootfs_node st' = bootfs_node st"
    by (rule open_fail [OF inv k vo fl m])
  have kf: "snd ?f < FILES_STRUCT_NENTRY" using D(3,4) by simp
  have "kinv io dinv blocks img T X' A' C1 st'"
  proof (rule kinv_upd [OF inv _ D(2) kf fs])
    show "vfs_rep io dinv blocks img A' C1 st'" using rep2 vfs_rep_cong [OF v(1,2)] by blast
    show "entry_ok (snd ?f) ((file_at st ?f)\<lparr>f_node := None\<rparr>)" using D by (simp add: entry_ok_def)
  qed (use c D(5) in \<open>simp add: opened_on_def\<close>)
  then show thesis using that o v by blast
qed

lemma open_success:
  fixes st :: "('d, 'z) kfs_scheme"
  assumes inv: "kinv io dinv blocks img T X A C st" and k: "free_slot st = Some k" and fl: "flags_ok fl"
    and vo: "vfs_open path fl (upd_file (cur_slot st (int k)) taken st) = Some (Inr n, path', s2)"
    and m: "vfs.more s2 = vfs.more (upd_file (cur_slot st (int k)) taken st)"
    and rep2: "vfs_rep io dinv blocks img A' C' s2" and n: "C' n = Some (i, r, c)" "r < MAX_INODE_COUNT"
    and len: "fl AND O_APPEND \<noteq> 0 \<Longrightarrow> \<exists>b. A' i = Some (Inr b) \<and> length b = len"
    and c: "cnt C' = (cnt C)(n := (fst (cnt C n) + 1, snd (cnt C n) + 1))"
  defines "q \<equiv> (if fl AND O_APPEND \<noteq> 0 then int len else 0)"
  obtains st' where "file_open path fl st = Some (int k, st')" and "kinv io dinv blocks img T X A' C' st'"
    and "kmem st' = kmem s2" and "fd_open st' (int k) (opened fl k n q) n"
    and "\<forall>fd x m. fd_open st fd x m \<longrightarrow> fd_open st' fd x m"
proof -
  let ?f = "cur_slot st (int k)"
  note D = free_slotD [OF inv k]
  let ?u = "upd_file ?f (\<lambda>x. x\<lparr>f_pos := 0\<rparr>) s2"
  have repu: "vfs_rep io dinv blocks img A' C' ?u" using rep2 by simp
  have ap: "\<exists>s. vop_fstat n ?u = Some s \<and> sint (st_size s) = int len" if ap: "fl AND O_APPEND \<noteq> 0"
  proof -
    obtain b where b: "A' i = Some (Inr b)" "length b = len" using len [OF ap] by blast
    obtain s where s: "vop_fstat n ?u = Some s" and sz: "\<forall>b. A' i = Some (Inr b) \<longrightarrow> st_mode s = S_IFREG \<and> unat (st_size s) = length b"
      by (rule fstat_rep [OF repu n])
    have u: "unat (st_size s) = len" using sz b by blast
    have le: "len < 2 ^ 32"
    proof -
      note N = rep_cache [OF repu n(1)]
      obtain F bs where inv1: "vfs_inv io dinv blocks img F ?u" and wf: "file_wf img (mounted ?u) (ino (node_sin ?u n)) (din (node_sin ?u n), bs)"
        and a2: "A' (ino (node_sin ?u n)) = Some (fdata_of img (mounted ?u) (din (node_sin ?u n), bs))"
        by (rule rep_node [OF N(1,2)])
      have ok: "fs_ok io dinv blocks (mounted ?u)" using inv1 by (simp add: vfs_inv_def)
      have nd: "ftype (din (node_sin ?u n)) \<noteq> SFS_TYPE_DIR" and fb: "file_bytes img (mounted ?u) (din (node_sin ?u n)) bs = b"
        using a2 b(1) N(3) by (auto simp: fdata_of_def split: if_splits)
      have "file_ok img (mounted ?u) (din (node_sin ?u n)) bs" using wf nd by (simp add: file_wf_def)
      then have "unat (fsize (din (node_sin ?u n))) = len" using file_bytes_length [OF ok] fb b(2) by metis
      then show ?thesis using unsigned_less [of "fsize (din (node_sin ?u n))", where ?'a = nat] by simp
    qed
    have "uint (st_size s) = int len" using u by (simp add: uint_nat)
    moreover have "sint (st_size s) = uint (st_size s)"
      unfolding sint_uint using calculation le by (intro signed_take_bit_int_eq_self) simp_all
    ultimately show ?thesis using s by simp
  qed
  obtain st' where o: "file_open path fl st = Some (int k, st')" and v: "mounted st' = mounted s2" "nodes st' = nodes s2" "kmem st' = kmem s2"
    and fs: "fstructs st' = fstructs (upd_file ?f (\<lambda>_. opened fl k n q) st)" "cur_filesp st' = cur_filesp st"
      "bootfs_node st' = bootfs_node st"
    using open_finish [OF inv k vo fl m ap] unfolding q_def by blast
  have kf: "snd ?f < FILES_STRUCT_NENTRY" using D(3,4) by simp
  have ki: "kinv io dinv blocks img T X A' C' st'"
  proof (rule kinv_upd [OF inv _ D(2) kf fs])
    show "vfs_rep io dinv blocks img A' C' st'" using rep2 vfs_rep_cong [OF v(1,2)] by blast
    show "entry_ok (snd ?f) (opened fl k n q)" using D(3) by (simp add: entry_ok_def opened_def)
  qed (use c D(5) in \<open>auto simp: opened_on_def opened_def\<close>)
  have new: "fd_open st' (int k) (opened fl k n q) n"
    unfolding fd_open_def
  proof (intro exI [of _ "fst ?f"] conjI)
    show "cur_filesp st' = Some (fst ?f)" using fs(2) D(9) by simp
    have "file_at st' ?f = opened fl k n q" unfolding fs(1) using D(8) by simp
    then show "opened fl k n q = file_at st' (fst ?f, nat (int k))" using D(3) by simp
  qed (use D(4) in \<open>simp_all add: opened_def\<close>)
  have old: "fd_open st' fd x m" if op: "fd_open st fd x m" for fd x m
  proof -
    have "fd \<noteq> int k" by (rule free_slot_other [OF k op])
    moreover obtain p where p: "cur_filesp st = Some p" "0 \<le> fd" "nat fd < FILES_STRUCT_NENTRY" "x = file_at st (p, nat fd)"
      "f_status x = FD_OPENED" "f_node x = Some m" using op unfolding fd_open_def by blast
    ultimately have "nat fd \<noteq> snd ?f" using D(3) by auto
    then have "file_at st' (p, nat fd) = file_at st (p, nat fd)"
      unfolding fs(1) by (simp add: upd_file_def)
    then show ?thesis unfolding fd_open_def using p fs(2) by auto
  qed
  show thesis using that [OF o ki v(3) new] old by blast
qed

end

end
