(* ===== verification/FileSample.thy ===== *)
theory FileSample
  imports FileOpen
begin

text \<open>
  A small file system for the witnesses: eight blocks, a root directory with one file \<open>a\<close> of ten
  bytes, and a process that has the file open for reading and writing at position 4 as descriptor 0 and
  the root directory as descriptor 1. A second, empty table of open files is at address 1.
\<close>

section \<open>The disk\<close>

definition pad :: "u8 list \<Rightarrow> u8 list" where
  "pad bs = bs @ replicate (4096 - length bs) 0"

lemma length_pad [simp]: "length bs \<le> 4096 \<Longrightarrow> length (pad bs) = 4096"
  by (simp add: pad_def)

definition root_din :: sfs_disk_inode where
  "root_din = \<lparr>fsize = 256, ftype = SFS_TYPE_DIR, nlinks = 1, fblocks = 1, direct = 3 # replicate 11 0, indirect = 0\<rparr>"

definition file_din :: sfs_disk_inode where
  "file_din = \<lparr>fsize = 10, ftype = SFS_TYPE_FILE, nlinks = 1, fblocks = 1, direct = 5 # replicate 11 0, indirect = 0\<rparr>"

definition entry_a :: sfs_disk_entry where
  "entry_a = \<lparr>eino = 4, ename = 97 # replicate 255 0\<rparr>"

definition ten_bytes :: "u8 list" where
  "ten_bytes = replicate 10 7"

definition disk_blocks :: "u8 list list" where
  "disk_blocks = [pad [], pad (din_bytes root_din), pad [], pad (entry_bytes entry_a), pad (din_bytes file_din),
     pad ten_bytes, pad [], pad []]"

definition file_disk :: ide_state where
  "file_disk =
     \<lparr>ide_devices = (\<lambda>_. \<lparr>valid = True, dsize = 64, img_bytes = concat disk_blocks\<rparr>),
      disk0_buffer = replicate 16384 0\<rparr>"

lemma blk_concat:
  "(\<And>b. b \<in> set bs \<Longrightarrow> length b = 4096) \<Longrightarrow> k < length bs \<Longrightarrow> blk (concat bs) k = bs ! k"
proof (induction bs arbitrary: k)
  case (Cons b bs)
  show ?case
  proof (cases k)
    case 0
    then show ?thesis using Cons.prems by (simp add: blk_def)
  next
    case (Suc j)
    have "blk (concat bs) j = bs ! j" by (rule Cons.IH) (use Cons.prems Suc in simp_all)
    then show ?thesis using Suc Cons.prems(1) [of b] by (simp add: blk_def)
  qed
qed simp

lemma concat_length: "(\<And>b. b \<in> set bs \<Longrightarrow> length b = 4096) \<Longrightarrow> length (concat bs) = 4096 * length bs"
  by (induction bs) simp_all

lemma din_lengths: "length (din_bytes root_din) = 64" "length (din_bytes file_din) = 64"
  "length (entry_bytes entry_a) = 260" "length ten_bytes = 10"
  using length_din_bytes [of root_din] length_din_bytes [of file_din] length_entry_bytes [of entry_a]
  by (simp_all add: root_din_def file_din_def entry_a_def sizeof_din_def sizeof_entry_def ten_bytes_def)

lemma disk_block_lengths: "b \<in> set disk_blocks \<Longrightarrow> length b = 4096"
  using din_lengths by (auto simp: disk_blocks_def)

lemma file_disk_blk: "k < 8 \<Longrightarrow> blk (disk_img file_disk) k = disk_blocks ! k"
proof -
  assume "k < 8"
  then have "k < length disk_blocks" by (simp add: disk_blocks_def)
  then have "blk (concat disk_blocks) k = disk_blocks ! k" using blk_concat [of disk_blocks k] disk_block_lengths by blast
  then show ?thesis by (simp add: disk_img_def file_disk_def)
qed

section \<open>The mounted file system and its nodes\<close>

definition sample_nodes :: "nat \<Rightarrow> inode" where
  "sample_nodes n = (if n = 0
     then \<lparr>in_ops = sfs_node_dirops, ref_count = 3, open_count = 1,
           in_info = \<lparr>din = root_din, ino = 1, dirty = False, reclaim_count = 1\<rparr>\<rparr>
     else \<lparr>in_ops = sfs_node_fileops, ref_count = 1, open_count = 1,
           in_info = \<lparr>din = file_din, ino = 4, dirty = False, reclaim_count = 1\<rparr>\<rparr>)"

definition mounted_sample :: "ide_state sfs_fs" where
  "mounted_sample =
     \<lparr>super = \<lparr>magic = 0x2f8dbe2a, sblocks = 8, unused_blocks = 2, info = []\<rparr>,
      dev = \<lparr>d_blocks = 8, d_blocksize = 4096, d_open = disk0_open, d_close = disk0_close,
             d_io = disk0_io 8, d_ioctl = disk0_ioctl\<rparr>,
      dstate = file_disk, freemap = \<lparr>nbits = 8, nwords = 1, bmap = [0xC0]\<rparr>, super_dirty = False,
      sfs_buffer = replicate 4096 0, inode_list = [1, 0],
      hash_list = (\<lambda>h. filter (\<lambda>n. sin_hashfn (ino (in_info (sample_nodes n))) = h) [1, 0])\<rparr>"

definition unused_fd :: "nat \<Rightarrow> ofile" where
  "unused_fd k = \<lparr>f_status = FD_NONE, f_readable = False, f_writable = False, f_fd = int k, f_pos = 0,
     f_node = None, f_open_count = 0\<rparr>"

definition unused_fds :: "nat \<Rightarrow> ofile list" where
  "unused_fds k = map unused_fd [k..<FILES_STRUCT_NENTRY]"

definition sample_fd0 :: ofile where
  "sample_fd0 = \<lparr>f_status = FD_OPENED, f_readable = True, f_writable = True, f_fd = 0, f_pos = 4,
     f_node = Some 1, f_open_count = 1\<rparr>"

definition sample_fd1 :: ofile where
  "sample_fd1 = \<lparr>f_status = FD_OPENED, f_readable = True, f_writable = False, f_fd = 1, f_pos = 0,
     f_node = Some 0, f_open_count = 1\<rparr>"

definition sample_kernel :: "ide_state kfs" where
  "sample_kernel = \<lparr>mounted = mounted_sample, nodes = sample_nodes, kmem = [Some 2, Some 3, Some 4, Some 5],
     bootfs_node = Some 0, vdev_list = [],
     fstructs = (\<lambda>p. if p = 0
       then \<lparr>pwd = Some 0, fd_array = sample_fd0 # sample_fd1 # unused_fds 2, fcount = 1\<rparr>
       else \<lparr>pwd = None, fd_array = unused_fds 0, fcount = 0\<rparr>),
     cur_filesp = Some 0\<rparr>"

definition sample_data :: "u32 \<Rightarrow> fdata option" where
  "sample_data = [1 \<mapsto> Inl [entry_a], 4 \<mapsto> Inr ten_bytes]"

definition sample_cache :: ncache where
  "sample_cache = [0 \<mapsto> (1, 3, 1), 1 \<mapsto> (4, 1, 1)]"

definition sample_files :: files where
  "sample_files = [1 \<mapsto> (root_din, [3]), 4 \<mapsto> (file_din, [5])]"

lemma mounted_free: "fs_free mounted_sample = {6, 7}"
proof -
  have m: "(0xC0 :: u32) = push_bit 6 (mask 2)" by (simp add: mask_eq_exp_minus_1)
  have b: "bit (0xC0 :: u32) i \<longleftrightarrow> i \<in> {6, 7}" if "i < 32" for i
    unfolding m bit_push_bit_iff bit_mask_iff using that by auto
  have "bm_bit [0xC0] i \<longleftrightarrow> i \<in> {6, 7}" for i
  proof (cases "i < 32")
    case True
    then have "bm_bit [0xC0] i = bit (0xC0 :: u32) i" by (simp add: bm_bit_def)
    then show ?thesis using b [OF True] by blast
  next
    case False
    then show ?thesis by (auto simp: bm_bit_def)
  qed
  then show ?thesis
    by (simp only: fs_free_def mounted_sample_def bm_free_def sfs_fs.simps bitmap.simps) blast
qed

lemma mounted_ok: "fs_ok (disk0_io 8) (disk_inv 8) 8 mounted_sample"
proof -
  have "length (concat disk_blocks) = 4096 * length disk_blocks"
    using concat_length [of disk_blocks] disk_block_lengths by blast
  then have "length (disk_img file_disk) = 32768"
    by (simp add: disk_img_def file_disk_def) (simp add: disk_blocks_def)
  then have "disk_inv 8 file_disk" unfolding disk_inv_def by (simp add: file_disk_def)
  moreover have "card {6, 7 :: nat} = 2" by simp
  ultimately show ?thesis
    unfolding fs_ok_def mounted_free by (simp add: mounted_sample_def bm_wf_def)
qed

lemma mounted_view: "k < 8 \<Longrightarrow> view disk_img mounted_sample k = disk_blocks ! k"
  by (simp add: view_def mounted_sample_def file_disk_blk)

lemma mounted_used: "b \<in> {1, 2, 3, 4, 5} \<Longrightarrow> used mounted_sample b"
  unfolding used_def mounted_free by (auto simp: mounted_sample_def)

lemma slot_one: "i < 12 \<Longrightarrow> (b # replicate 11 (0 :: u32)) ! i = slot [b] i"
  by (cases i) (simp_all add: slot_def)

lemma sample_file_wf:
  "file_wf disk_img mounted_sample 1 (root_din, [3])" "file_wf disk_img mounted_sample 4 (file_din, [5])"
  using mounted_used slot_one
  by (simp_all add: file_wf_def file_ok_def file_rep_def owned_def root_din_def file_din_def SFS_TYPE_DIR_def SFS_TYPE_FILE_def)

lemma sample_dirents: "dirents disk_img mounted_sample [3] = [entry_a]"
proof -
  have "take sizeof_entry (pad (entry_bytes entry_a)) = entry_bytes entry_a"
    using din_lengths by (simp add: pad_def sizeof_entry_def)
  moreover have "entry_of (entry_bytes entry_a) = entry_a"
    using entry_of_bytes [of entry_a "[]"] by (simp add: entry_a_def)
  moreover have "(replicate 255 (0 :: u8))[254 := 0] = replicate 255 0"
    by (rule nth_equalityI) (simp_all add: nth_list_update)
  then have "end_name entry_a = entry_a"
    by (simp add: end_name_def entry_a_def SFS_MAX_FNAME_LEN_def)
  ultimately show ?thesis by (simp add: dirents_def mounted_view disk_blocks_def)
qed

lemma sample_bytes: "file_bytes disk_img mounted_sample file_din [5] = ten_bytes"
  using din_lengths
  by (simp add: file_bytes_def content_def mounted_view disk_blocks_def) (simp add: pad_def file_din_def)

lemma sample_fs_data: "fs_data disk_img mounted_sample sample_files = sample_data"
  by (auto simp: fun_eq_iff fs_data_def sample_files_def sample_data_def fdata_of_def sample_dirents sample_bytes)
    (simp_all add: root_din_def file_din_def SFS_TYPE_DIR_def SFS_TYPE_FILE_def)

lemma sample_clean: "din_of (view disk_img mounted_sample (unat (1 :: u32))) = root_din"
  "din_of (view disk_img mounted_sample (unat (4 :: u32))) = file_din"
  using din_of_bytes [of root_din] din_of_bytes [of file_din]
  by (simp_all add: mounted_view disk_blocks_def pad_def) (simp_all add: root_din_def file_din_def)

lemma sample_loaded: "loaded sample_kernel = {0, 1}"
  by (auto simp: loaded_def sample_kernel_def mounted_sample_def)

lemma sample_inv: "vfs_inv (disk0_io 8) (disk_inv 8) 8 disk_img sample_files sample_kernel"
  unfolding vfs_inv_def
proof (intro conjI)
  have m: "mounted sample_kernel = mounted_sample" "nodes sample_kernel = sample_nodes" by (simp_all add: sample_kernel_def)
  show "fs_ok (disk0_io 8) (disk_inv 8) 8 (mounted sample_kernel)" using mounted_ok m by simp
  have F: "sample_files i = Some f \<longleftrightarrow> i = 1 \<and> f = (root_din, [3]) \<or> i = 4 \<and> f = (file_din, [5])" for i f
    by (auto simp: sample_files_def)
  have cl: "claims 1 (root_din, [3]) = {1, 3}" "claims 4 (file_din, [5]) = {4, 5}"
    by (auto simp: claims_def owned_def root_din_def file_din_def)
  show "files_ok disk_img (mounted sample_kernel) sample_files"
    unfolding files_ok_def m
  proof (intro conjI allI impI ballI)
    fix i f assume f: "sample_files i = Some f"
    then show "file_wf disk_img mounted_sample i f" unfolding F using sample_file_wf by blast
    fix e assume "ftype (fst f) = SFS_TYPE_DIR" "e \<in> set (dirents disk_img mounted_sample (snd f))"
    moreover have "ftype file_din \<noteq> SFS_TYPE_DIR" by (simp add: file_din_def SFS_TYPE_FILE_def SFS_TYPE_DIR_def)
    ultimately have "e = entry_a" using f sample_dirents unfolding F by auto
    then show "sample_files (eino e) \<noteq> None" by (simp add: sample_files_def entry_a_def)
  next
    fix i j f g assume "sample_files i = Some f" "sample_files j = Some g" "i \<noteq> j"
    then show "claims i f \<inter> claims j g = {}" unfolding F using cl by auto
  qed
  show "cache_ok sample_files sample_kernel"
    unfolding cache_ok_def sample_loaded m
    by (auto simp: mounted_sample_def sample_nodes_def node_ok_def sample_files_def sfs_get_ops_def)
      (simp_all add: root_din_def file_din_def SFS_TYPE_DIR_def SFS_TYPE_FILE_def)
  show "clean_ok disk_img sample_files sample_kernel"
    unfolding clean_ok_def m F using sample_clean by auto
qed

lemma sample_rep: "vfs_rep (disk0_io 8) (disk_inv 8) 8 disk_img sample_data sample_cache sample_kernel"
  unfolding vfs_rep_def fs_rep_def
proof (intro conjI exI [of _ sample_files])
  show "vfs_inv (disk0_io 8) (disk_inv 8) 8 disk_img sample_files sample_kernel" by (rule sample_inv)
  show "fs_data disk_img (mounted sample_kernel) sample_files = sample_data"
    using sample_fs_data by (simp add: sample_kernel_def)
  show "counts_ok sample_kernel" unfolding counts_ok_def sample_loaded by (simp add: sample_kernel_def sample_nodes_def)
  show "cache_of sample_kernel = sample_cache"
    unfolding fun_eq_iff cache_of_def sample_loaded by (simp add: sample_kernel_def sample_nodes_def sample_cache_def)
qed

section \<open>The tables\<close>

lemma sample_table0: "fd_array (fstructs sample_kernel 0) = sample_fd0 # sample_fd1 # unused_fds 2"
  and sample_table1: "fd_array (fstructs sample_kernel 1) = unused_fds 0"
  by (simp_all add: sample_kernel_def)

lemma unused_entry: "entry_ok k (unused_fd k)" "\<not> opened_on n (unused_fd k)"
  by (simp_all add: entry_ok_def unused_fd_def opened_on_def)

lemma unused_fds_nth: "i + k < 72 \<Longrightarrow> unused_fds k ! i = unused_fd (i + k)"
  by (simp add: unused_fds_def FILES_STRUCT_NENTRY_def add.commute)

lemma unused_fds_length [simp]: "length (unused_fds k) = 72 - k"
  by (simp add: unused_fds_def FILES_STRUCT_NENTRY_def)

lemma unused_fds_filter [simp]: "filter (opened_on n) (unused_fds k) = []"
  using unused_entry(2) by (auto simp: unused_fds_def filter_empty_conv)

lemma sample_tables: "p \<in> {0, 1} \<Longrightarrow> fds_ok (fd_array (fstructs sample_kernel p))"
proof -
  have "entry_ok k ((sample_fd0 # sample_fd1 # unused_fds 2) ! k)" if "k < 72" for k
  proof (cases k)
    case 0
    then show ?thesis by (simp add: entry_ok_def sample_fd0_def)
  next
    case (Suc i)
    show ?thesis
    proof (cases i)
      case 0
      then show ?thesis using Suc by (simp add: entry_ok_def sample_fd1_def)
    next
      case (Suc j)
      then have "k = j + 2" using \<open>k = Suc i\<close> by simp
      then show ?thesis using that unused_fds_nth [of j 2] unused_entry(1) [of "j + 2"] by simp
    qed
  qed
  moreover have "entry_ok k (unused_fds 0 ! k)" if "k < 72" for k
    using that unused_fds_nth [of k 0] unused_entry(1) [of k] by simp
  ultimately show "p \<in> {0, 1} \<Longrightarrow> ?thesis"
    using sample_table0 sample_table1 by (auto simp: fds_ok_def FILES_STRUCT_NENTRY_def)
qed

lemma sample_opens: "opens {0, 1} sample_kernel n = (if n \<le> 1 then 1 else 0)"
proof -
  have "opens {0, 1} sample_kernel n = length (filter (opened_on n) [sample_fd0, sample_fd1])"
    by (simp add: opens_def sample_table0 sample_table1 [simplified])
  also have "\<dots> = (if n \<le> 1 then 1 else 0)"
    by (auto simp: opened_on_def sample_fd0_def sample_fd1_def)
  finally show ?thesis .
qed

lemma sample_kinv: "kinv (disk0_io 8) (disk_inv 8) 8 disk_img {0, 1} (\<lambda>_. 0) sample_data sample_cache sample_kernel"
  unfolding kinv_def
proof (intro conjI ballI)
  show "vfs_rep (disk0_io 8) (disk_inv 8) 8 disk_img sample_data sample_cache sample_kernel" by (rule sample_rep)
  show "\<exists>p \<in> {0, 1}. cur_filesp sample_kernel = Some p \<and> 0 < fcount (fstructs sample_kernel p)"
    by (simp add: sample_kernel_def)
  show "fds_ok (fd_array (fstructs sample_kernel p))" if "p \<in> {0, 1}" for p by (rule sample_tables [OF that])
  have "pwds {0, 1} sample_kernel n = (if n = 0 then 1 else 0)" "boots sample_kernel n = (if n = 0 then 1 else 0)" for n
    by (auto simp: pwds_def boots_def sample_kernel_def)
  then show "counts_exact {0, 1} (\<lambda>_. 0) sample_cache sample_kernel"
    unfolding counts_exact_def sample_opens by (auto simp: cnt_def sample_cache_def)
qed simp

lemma sample_few: "few sample_cache"
  by (auto simp: few_def cnt_def sample_cache_def MAX_INODE_COUNT_def)

lemma sample_fresh: "kmem_fresh sample_cache (kmem sample_kernel)"
  by (auto simp: kmem_fresh_def sample_cache_def sample_kernel_def)

lemma sample_fds: "fd_open sample_kernel 0 sample_fd0 1" "fd_open sample_kernel 1 sample_fd1 0"
  by (simp_all add: fd_open_def sample_kernel_def FILES_STRUCT_NENTRY_def sample_fd0_def sample_fd1_def)

lemma sample_free_slot: "free_slot sample_kernel = Some 2"
proof -
  have u: "[0..<FILES_STRUCT_NENTRY] = 0 # 1 # 2 # [3..<FILES_STRUCT_NENTRY]"
    by (simp add: upt_conv_Cons FILES_STRUCT_NENTRY_def del: upt_rec_numeral)
  have "unused_fds 2 ! 0 = unused_fd 2" using unused_fds_nth [of 0 2] by (simp add: numeral_2_eq_2)
  then show ?thesis
    unfolding free_slot_def u by (simp add: sample_kernel_def sample_fd0_def sample_fd1_def) (simp add: unused_fd_def)
qed

lemma sample_start: "start_dir [97] sample_kernel = Some 0" "plain [97]" "subpath [97] = [97]"
  by (simp_all add: start_dir_def plain_def subpath_def absolute_def sample_kernel_def SLASH_def COLON_def)

lemma sample_find: "List.find (names [97]) [entry_a] = Some entry_a"
  by (simp add: names_def entry_a_def cname_def)

end
