(* ===== verification/FileSystem.thy ===== *)
theory FileSystem
  imports FileSample
begin

text \<open>
  The properties of the file system as a process sees it, on the RAM disk: opening by name, reading,
  writing, seeking and listing through descriptors, closing, and what stays on the disk. The sample
  state has a root directory with one file.
\<close>

abbreviation disk0_kernel ::
  "nat \<Rightarrow> nat set \<Rightarrow> (nat \<Rightarrow> nat) \<Rightarrow> (u32 \<Rightarrow> fdata option) \<Rightarrow> ncache \<Rightarrow> (ide_state, 'z) kfs_scheme \<Rightarrow> bool" where
  "disk0_kernel nb \<equiv> kinv (disk0_io nb) (disk_inv nb) nb disk_img"

section \<open>Opening\<close>

text \<open>What \<open>file_open\<close> does with a name that resolves to the node \<open>n\<close> of the inode \<open>i\<close>.\<close>

definition open_result ::
  "nat \<Rightarrow> nat set \<Rightarrow> (nat \<Rightarrow> nat) \<Rightarrow> (u32 \<Rightarrow> fdata option) \<Rightarrow> ncache \<Rightarrow> nat option list \<Rightarrow> u32 \<Rightarrow> nat \<Rightarrow> nat \<Rightarrow> u32 \<Rightarrow> int \<Rightarrow>
    int \<Rightarrow> (ide_state, 'z) kfs_scheme \<Rightarrow> (int \<times> (ide_state, 'z) kfs_scheme) option \<Rightarrow> bool" where
  "open_result nb T X A C ks fl k n i r c st res \<longleftrightarrow>
     (if wants_excl fl then
        \<exists>st'. res = Some (- E_EXISTS, st') \<and> disk0_kernel nb T (X(n := X n + 1)) A C st' \<and> kmem st' = ks
      else (case A i of
        None \<Rightarrow> False
      | Some (Inr b) \<Rightarrow>
          \<exists>st'. res = Some (int k, st') \<and>
            disk0_kernel nb T X (if wants_trunc fl then A(i \<mapsto> Inr []) else A) (C(n \<mapsto> (i, r, c + 1))) st' \<and> kmem st' = ks \<and>
            fd_open st' (int k) (opened fl k n (if fl AND O_APPEND \<noteq> 0 \<and> \<not> wants_trunc fl then int (length b) else 0)) n \<and>
            (\<forall>fd x m. fd_open st fd x m \<longrightarrow> fd_open st' fd x m)
      | Some (Inl es) \<Rightarrow>
          if fl AND O_ACCMODE \<noteq> O_RDONLY \<or> fl AND O_APPEND \<noteq> 0 then
            \<exists>st'. res = Some (- E_ISDIR, st') \<and> disk0_kernel nb T X A (dec_ref n C) st' \<and> kmem st' = ks
          else if fl AND O_CREAT \<noteq> 0 then res = None
          else \<exists>st'. res = Some (int k, st') \<and> disk0_kernel nb T X A (C(n \<mapsto> (i, r, c + 1))) st' \<and> kmem st' = ks \<and>
            fd_open st' (int k) (opened fl k n 0) n \<and> (\<forall>fd x m. fd_open st fd x m \<longrightarrow> fd_open st' fd x m)))"

lemma open_node_result:
  fixes st :: "(ide_state, 'z) kfs_scheme"
  assumes inv: "disk0_kernel nb T X A C st" and few: "few C" and k: "free_slot st = Some k" and fl: "flags_ok fl"
    and lk: "vfs_lookup path (upd_file (cur_slot st (int k)) taken st) = Some (Inr n, path, s2)"
    and rep2: "vfs_rep (disk0_io nb) (disk_inv nb) nb disk_img A C1 s2"
    and res: "resolves d es path C (kmem st) (Inr n) C1 (kmem s2)" and fresh: "kmem_fresh C (kmem st)"
    and m: "vfs.more s2 = vfs.more (upd_file (cur_slot st (int k)) taken st)"
  shows "\<exists>i r c. C1 n = Some (i, r, c) \<and> open_result nb T X A C1 (kmem s2) fl k n i r c st (file_open path fl st)"
proof -
  have rep: "vfs_rep (disk0_io nb) (disk_inv nb) nb disk_img A C st" using inv by (simp add: kinv_def)
  obtain i r c where n: "C1 n = Some (i, r, c)" "c < r" "r = fst (cnt C n) + 1"
    using resolves_node [OF rep res fresh] by blast
  have c1: "cnt C1 = (cnt C)(n := (fst (cnt C n) + 1, snd (cnt C n)))" by (rule resolves_cnt [OF res fresh])
  have r: "r < MAX_INODE_COUNT" using few [unfolded few_def, rule_format, of n] n(3) by simp
  have c2: "cnt (C1(n \<mapsto> (i, r, c + 1))) = (cnt C)(n := (fst (cnt C n) + 1, snd (cnt C n) + 1))"
    using c1 n cnt_Some [where C = C1, OF n(1)] by simp
  have "open_result nb T X A C1 (kmem s2) fl k n i r c st (file_open path fl st)"
  proof (cases "wants_excl fl")
    case True
    then have vo: "vfs_open path fl (upd_file (cur_slot st (int k)) taken st) = Some (Inl (- E_EXISTS), path, s2)"
      using vfs_open_exists [OF fl lk] by (simp add: wants_excl_def)
    have cx: "cnt C1 = (\<lambda>m. (fst (cnt C m) + int ((X(n := X n + 1)) m) - int (X m), snd (cnt C m)))"
      using c1 by (auto simp: fun_eq_iff)
    obtain st' where "file_open path fl st = Some (- E_EXISTS, st')" "disk0_kernel nb T (X(n := X n + 1)) A C1 st'" "kmem st' = kmem s2"
      by (rule disk0.open_error [OF inv k fl vo m rep2 cx])
    then show ?thesis using True by (simp add: open_result_def)
  next
    case False
    then have vo: "vfs_open path fl (upd_file (cur_slot st (int k)) taken st) = vfs_open_node n fl path s2"
      using vfs_open_found [OF fl lk] by (auto simp: wants_excl_def)
    obtain v where v: "A i = Some v"
    proof -
      note N = rep_cache [OF rep2 n(1)]
      obtain F bs where "A (ino (node_sin s2 n)) = Some (fdata_of disk_img (mounted s2) (din (node_sin s2 n), bs))"
        by (rule disk0.rep_node [OF N(1,2)])
      then show thesis using that N(3) by simp
    qed
    show ?thesis
    proof (cases v)
      case (Inr b)
      then have a: "A i = Some (Inr b)" using v by simp
      let ?A = "if wants_trunc fl then A(i \<mapsto> Inr []) else A"
      obtain s3 where o: "vfs_open_node n fl path s2 = Some (Inr n, path, s3)"
        and rep3: "vfs_rep (disk0_io nb) (disk_inv nb) nb disk_img ?A (C1(n \<mapsto> (i, r, c + 1))) s3"
        and f: "kmem s3 = kmem s2" "vfs.more s3 = vfs.more s2"
        by (rule disk0.open_node_file [OF rep2 n(1,2) r a])
      have n3: "(C1(n \<mapsto> (i, r, c + 1))) n = Some (i, r, c + 1)" by simp
      let ?len = "if wants_trunc fl then 0 else length b"
      have len: "\<exists>b. ?A i = Some (Inr b) \<and> length b = ?len" using a by simp
      obtain st' where st': "file_open path fl st = Some (int k, st')" "disk0_kernel nb T X ?A (C1(n \<mapsto> (i, r, c + 1))) st'"
        "kmem st' = kmem s3" "fd_open st' (int k) (opened fl k n (if fl AND O_APPEND \<noteq> 0 then int ?len else 0)) n"
        "\<forall>fd x m. fd_open st fd x m \<longrightarrow> fd_open st' fd x m"
        by (rule disk0.open_success [OF inv k fl trans [OF vo o] trans [OF f(2) m] rep3 n3 r len c2])
      have "(if fl AND O_APPEND \<noteq> 0 then int ?len else 0) =
          (if fl AND O_APPEND \<noteq> 0 \<and> \<not> wants_trunc fl then int (length b) else 0)" by simp
      then show ?thesis using False a st' f(1) unfolding open_result_def by (simp del: fun_upd_apply)
    next
      case (Inl es')
      then have a: "A i = Some (Inl es')" using v by simp
      have n3: "(C1(n \<mapsto> (i, r, c + 1))) n = Some (i, r, c + 1)" by simp
      show ?thesis
        using rep2 n(1,2) r a fl
      proof (cases rule: disk0.open_node_dir [where path = path])
        case (1 s3)
        obtain st' where "file_open path fl st = Some (int k, st')" "disk0_kernel nb T X A (C1(n \<mapsto> (i, r, c + 1))) st'"
          "kmem st' = kmem s3" "fd_open st' (int k) (opened fl k n (if fl AND O_APPEND \<noteq> 0 then int 0 else 0)) n"
          "\<forall>fd x m. fd_open st fd x m \<longrightarrow> fd_open st' fd x m"
          by (rule disk0.open_success [OF inv k fl trans [OF vo 1(2)] trans [OF 1(5) m] 1(3) n3 r _ c2, where len = 0]) (use 1(1) in blast)
        then show ?thesis using False a 1 by (simp add: open_result_def)
      next
        case (2 s3)
        have "cnt C1 n = (r, c)" by (rule cnt_Some [where C = C1, OF n(1)])
        then have kept: "(r - 1, c) = cnt C n" using c1 n(3) by (simp add: prod_eq_iff)
        have "cnt (dec_ref n C1) = (cnt C1)(n := (r - 1, c))"
          using cnt_dec_ref [where C = C1, OF n(1,2)] rep_cache(7) [OF rep2 n(1)] by simp
        then have "cnt (dec_ref n C1) = cnt C" unfolding kept c1 by simp
        then have cx: "cnt (dec_ref n C1) = (\<lambda>m. (fst (cnt C m) + int (X m) - int (X m), snd (cnt C m)))" by simp
        obtain st' where "file_open path fl st = Some (- E_ISDIR, st')" "disk0_kernel nb T X A (dec_ref n C1) st'" "kmem st' = kmem s3"
          by (rule disk0.open_error [OF inv k fl trans [OF vo 2(2)] trans [OF 2(5) m] 2(3) cx])
        then show ?thesis using False a 2 by (simp add: open_result_def)
      next
        case 3
        then have "vfs_open path fl (upd_file (cur_slot st (int k)) taken st) = None" using vo by simp
        then have "file_open path fl st = None"
          using free_slotD(1) [OF inv k] fl unfolding file_open_def by (auto simp: Let_def flags_ok_def)
        then show ?thesis using False a 3 by (simp add: open_result_def)
      qed
    qed
  qed
  then show ?thesis using n(1) by blast
qed


lemma file_open_cases:
  fixes st :: "(ide_state, 'z) kfs_scheme"
  assumes inv: "disk0_kernel nb T X A C st" and few: "few C" and k: "free_slot st = Some k" and fl: "flags_ok fl"
    and p: "plain path" "start_dir path st = Some d" and d: "C d = Some (di, dr, dc)" "A di = Some (Inl es)"
    and len: "length (subpath path) \<le> SFS_MAX_FNAME_LEN" and fresh: "kmem_fresh C (kmem st)"
  shows "\<exists>res C1 ks. resolves d es path C (kmem st) res C1 ks \<and>
    (case res of
       Inl e \<Rightarrow> if e = - E_NOENT \<and> fl AND O_CREAT \<noteq> 0 then file_open path fl st = None
         else \<exists>st'. file_open path fl st = Some (e, st') \<and> disk0_kernel nb T X A C st' \<and> kmem st' = ks
     | Inr n \<Rightarrow> \<exists>i r c. C1 n = Some (i, r, c) \<and> open_result nb T X A C1 ks fl k n i r c st (file_open path fl st))"
proof -
  let ?f = "cur_slot st (int k)"
  obtain res C1 s2 where lk: "vfs_lookup path (upd_file ?f taken st) = Some (res, path, s2)"
    and rep2: "vfs_rep (disk0_io nb) (disk_inv nb) nb disk_img A C1 s2"
    and rs: "resolves d es path C (kmem st) res C1 (kmem s2)" and m: "vfs.more s2 = vfs.more (upd_file ?f taken st)"
    by (rule disk0.open_lookup [OF inv few p d len fresh])
  show ?thesis
  proof (cases res)
    case (Inr n)
    then show ?thesis
      using open_node_result [OF inv few k fl lk [unfolded Inr] rep2 rs [unfolded Inr] fresh m] rs
      by (intro exI [of _ res] exI [of _ C1] exI [of _ "kmem s2"]) simp
  next
    case (Inl e)
    then have C1: "C1 = C" using resolves_Inl rs by blast
    show ?thesis
    proof (cases "e = - E_NOENT \<and> fl AND O_CREAT \<noteq> 0")
      case True
      have "start_dir path s2 = start_dir path (upd_file ?f taken st)"
        unfolding start_dir_def kfs_frame [OF m] by (rule refl)
      then have "start_dir path s2 = Some d" using p(2) by simp
      then have "vfs_open path fl (upd_file ?f taken st) = None"
        using vfs_open_create [OF fl _ _ p(1)] lk Inl True by blast
      then have "file_open path fl st = None"
        using free_slotD(1) [OF inv k] fl unfolding file_open_def by (auto simp: Let_def flags_ok_def)
      then show ?thesis using rs Inl True
        by (intro exI [of _ res] exI [of _ C1] exI [of _ "kmem s2"]) simp
    next
      case False
      then have vo: "vfs_open path fl (upd_file ?f taken st) = Some (Inl e, path, s2)"
        using vfs_open_error [OF fl] lk Inl by blast
      have cx: "cnt C = (\<lambda>m. (fst (cnt C m) + int (X m) - int (X m), snd (cnt C m)))" by simp
      obtain st' where "file_open path fl st = Some (e, st')" "disk0_kernel nb T X A C st'" "kmem st' = kmem s2"
        by (rule disk0.open_error [OF inv k fl vo m rep2 [unfolded C1] cx])
      then show ?thesis using rs Inl False
        by (intro exI [of _ res] exI [of _ C1] exI [of _ "kmem s2"]) auto
    qed
  qed
qed


text \<open>
  (C13) \<open>file_open\<close> with a name without a device: the name is looked up in the working directory or, with a
  leading slash, in the root of the boot file system. When it is missing, the answer is
  \<open>-E_NOENT\<close> and nothing changes, but with \<open>O_CREAT\<close> the kernel panics, as no file system can create.
  When it names a regular file, the first free descriptor is opened on it at position 0, or at its end
  with \<open>O_APPEND\<close>; \<open>O_TRUNC\<close> and also \<open>O_CREAT\<close> empty the file. Directories open for reading only. In
  every case each reference of every node is accounted for; with \<open>O_CREAT | O_EXCL\<close> on a name that exists
  one reference more is held by nobody.
\<close>

theorem file_open_outcomes:
  fixes st :: "(ide_state, 'z) kfs_scheme"
  assumes inv: "disk0_kernel nb T X A C st" and few: "few C" and k: "free_slot st = Some k" and fl: "flags_ok fl"
    and p: "plain path" "start_dir path st = Some d" and d: "C d = Some (di, dr, dc)" "A di = Some (Inl es)"
    and len: "length (subpath path) \<le> SFS_MAX_FNAME_LEN" and fresh: "kmem_fresh C (kmem st)"
  shows "\<exists>res C1 ks. resolves d es path C (kmem st) res C1 ks \<and>
    (case res of
       Inl e \<Rightarrow> if e = - E_NOENT \<and> fl AND O_CREAT \<noteq> 0 then file_open path fl st = None
         else \<exists>st'. file_open path fl st = Some (e, st') \<and> disk0_kernel nb T X A C st' \<and> kmem st' = ks
     | Inr n \<Rightarrow> \<exists>i r c. C1 n = Some (i, r, c) \<and> open_result nb T X A C1 ks fl k n i r c st (file_open path fl st))"
  by (rule file_open_cases [OF assms])

theorem file_open_outcomes_witness:
  "\<exists>res C1 ks. resolves 0 [entry_a] [97] sample_cache (kmem sample_kernel) res C1 ks \<and>
    (case res of
       Inl e \<Rightarrow> if e = - E_NOENT \<and> O_WRONLY AND O_CREAT \<noteq> 0 then file_open [97] O_WRONLY sample_kernel = None
         else \<exists>st'. file_open [97] O_WRONLY sample_kernel = Some (e, st') \<and>
           disk0_kernel 8 {0, 1} (\<lambda>_. 0) sample_data sample_cache st' \<and> kmem st' = ks
     | Inr n \<Rightarrow> \<exists>i r c. C1 n = Some (i, r, c) \<and>
         open_result 8 {0, 1} (\<lambda>_. 0) sample_data C1 ks O_WRONLY 2 n i r c sample_kernel (file_open [97] O_WRONLY sample_kernel))"
proof -
  have n: "sample_cache 0 = Some (1, 3, 1)" "sample_data 1 = Some (Inl [entry_a])" "flags_ok O_WRONLY"
    "length (subpath [97]) \<le> SFS_MAX_FNAME_LEN"
    using sample_start(3)
    by (simp_all add: sample_cache_def sample_data_def flags_ok_def O_WRONLY_def O_ACCMODE_def O_TRUNC_def SFS_MAX_FNAME_LEN_def)
  show ?thesis
    by (rule file_open_outcomes [OF sample_kinv sample_few sample_free_slot n(3) sample_start(2,1) n(1,2,4) sample_fresh])
qed

section \<open>Reading, writing and listing\<close>

text \<open>
  (C18) \<open>file_read\<close> copies the bytes of the file from the position of the descriptor on, as many as
  there are up to \<open>len\<close>, into the caller's buffer, moves the position by as many, and changes nothing
  else.
\<close>

theorem file_read_position:
  fixes st :: "(ide_state, 'z) kfs_scheme"
  assumes inv: "disk0_kernel nb T X A C st" and few: "few C" and fd: "fd_open st fd x n" "f_readable x"
    and n: "C n = Some (i, r, c)" and a: "A i = Some (Inr b)"
    and pos: "0 \<le> f_pos x" "f_pos x < int SFS_MAX_FILE_SIZE" "f_pos x + int len < 2 ^ 63"
    and base: "base + len \<le> length obj"
  shows "let bytes = take len (drop (nat (f_pos x)) b) in
    \<exists>st'. file_read fd obj base len st = Some (0, length bytes, splice base bytes obj, st') \<and>
      disk0_kernel nb T X A C st' \<and> moved fd (f_pos x + int (length bytes)) st st' \<and> kmem st' = kmem st"
proof -
  have r: "r < MAX_INODE_COUNT" using few_node [where C = C, OF few n] by simp
  show ?thesis
    unfolding Let_def by (rule disk0.file_read_rep [OF inv fd n r a pos base]) blast
qed

theorem file_read_position_witness:
  "\<exists>st'. file_read 0 (replicate 8 0) 0 8 sample_kernel = Some (0, 6, [7, 7, 7, 7, 7, 7, 0, 0], st') \<and>
     moved 0 10 sample_kernel st'"
proof -
  have n: "sample_cache 1 = Some (4, 1, 1)" "sample_data 4 = Some (Inr ten_bytes)"
    by (simp_all add: sample_cache_def sample_data_def)
  have x: "f_readable sample_fd0" "0 \<le> f_pos sample_fd0" "f_pos sample_fd0 < int SFS_MAX_FILE_SIZE"
    "f_pos sample_fd0 + int 8 < 2 ^ 63" "(0 :: nat) + 8 \<le> length (replicate 8 (0 :: u8))"
    by (simp_all add: sample_fd0_def SFS_MAX_FILE_SIZE_def)
  have "let bytes = take 8 (drop (nat (f_pos sample_fd0)) ten_bytes) in
    \<exists>st'. file_read 0 (replicate 8 0) 0 8 sample_kernel =
        Some (0, length bytes, splice 0 bytes (replicate 8 0), st') \<and>
      disk0_kernel 8 {0, 1} (\<lambda>_. 0) sample_data sample_cache st' \<and>
      moved 0 (f_pos sample_fd0 + int (length bytes)) sample_kernel st' \<and> kmem st' = kmem sample_kernel"
    by (rule file_read_position [OF sample_kinv sample_few sample_fds(1) x(1) n x(2-5)])
  then show ?thesis
    by (auto simp: Let_def sample_fd0_def ten_bytes_def FsBase.splice_def numeral_eq_Suc)
qed

text \<open>
  (C15) \<open>file_write\<close> overwrites the bytes of the file from the position of the descriptor on with the
  caller's, extends the file when they reach further, and moves the position by as many. It writes all
  of them, or a prefix with \<open>-E_NO_MEM\<close>. No other file and no other descriptor changes.
\<close>

theorem file_write_position:
  fixes st :: "(ide_state, 'z) kfs_scheme"
  assumes inv: "disk0_kernel nb T X A C st" and few: "few C" and fd: "fd_open st fd x n" "f_writable x"
    and n: "C n = Some (i, r, c)" and a: "A i = Some (Inr b)"
    and pos: "0 \<le> f_pos x" "nat (f_pos x) \<le> length b" "nat (f_pos x) + len \<le> 4096 * (12 + 1024)"
    and base: "base + len \<le> length obj"
  shows "\<exists>ret k st'. file_write fd obj base len st = Some (ret, k, obj, st') \<and>
    (ret = 0 \<and> k = len \<or> ret = - E_NO_MEM \<and> k \<le> len) \<and>
    disk0_kernel nb T X (A(i \<mapsto> Inr (overwrite (nat (f_pos x)) (take k (drop base obj)) b))) C st' \<and>
    moved fd (f_pos x + int k) st st' \<and> kmem st' = kmem st"
proof -
  have r: "r < MAX_INODE_COUNT" using few_node [where C = C, OF few n] by simp
  have p: "nat (f_pos x) + len \<le> 4096 * 1036" using pos(3) by simp
  show ?thesis by (rule disk0.file_write_rep [OF inv fd n r a pos(1,2) p base]) blast
qed

theorem file_write_position_witness:
  "\<exists>ret k st'. file_write 0 (replicate 3 9) 0 3 sample_kernel = Some (ret, k, replicate 3 9, st') \<and>
     moved 0 (4 + int k) sample_kernel st'"
proof -
  have n: "sample_cache 1 = Some (4, 1, 1)" "sample_data 4 = Some (Inr ten_bytes)"
    by (simp_all add: sample_cache_def sample_data_def)
  have x: "f_writable sample_fd0" "0 \<le> f_pos sample_fd0" "nat (f_pos sample_fd0) \<le> length ten_bytes"
    "nat (f_pos sample_fd0) + 3 \<le> 4096 * (12 + 1024)" "(0 :: nat) + 3 \<le> length (replicate 3 (9 :: u8))"
    "f_pos sample_fd0 = 4"
    by (simp_all add: sample_fd0_def ten_bytes_def)
  show ?thesis
    using file_write_position [OF sample_kinv sample_few sample_fds(1) x(1) n x(2-5)] x(6) by metis
qed

text \<open>
  (C40) Listing a directory: at the offset of the \<open>k\<close>th name \<open>file_getdirentry\<close> stores the name of the
  \<open>k\<close>th entry in use and moves the offset on by one; past the last one it answers \<open>-E_NOENT\<close>. So reading
  from offset 0 visits every entry in use once, in order.
\<close>

theorem file_getdirentry_lists:
  fixes st :: "(ide_state, 'z) kfs_scheme"
  assumes inv: "disk0_kernel nb T X A C st" and few: "few C" and fd: "fd_open st fd x n"
    and n: "C n = Some (i, r, c)" and a: "A i = Some (Inl es)"
    and ks: "kmem st = Some p # ks" and off: "d_offset d = int (256 * k)" "k \<le> length es"
    and d: "length (d_name d) = 256"
  shows "\<exists>st'. file_getdirentry fd d st =
      Some (if k < length (live_entries es)
        then (0, d\<lparr>d_offset := int (256 * Suc k), d_name := ename (live_entries es ! k)\<rparr>, st') else (- E_NOENT, d, st')) \<and>
    disk0_kernel nb T X A C st' \<and> moved fd (f_pos x) st st' \<and> kmem st' = ks"
proof -
  have r: "r < MAX_INODE_COUNT" using few_node [where C = C, OF few n] by simp
  show ?thesis by (rule disk0.file_getdirentry_rep [OF inv fd n r a ks off d]) blast
qed

theorem file_getdirentry_lists_witness:
  "\<exists>st'. file_getdirentry 1 \<lparr>d_offset = 0, d_name = replicate 256 0\<rparr> sample_kernel =
     Some (0, \<lparr>d_offset = 256, d_name = 97 # replicate 255 0\<rparr>, st')"
proof -
  let ?d = "\<lparr>d_offset = 0, d_name = replicate 256 0\<rparr> :: dirent"
  have n: "sample_cache 0 = Some (1, 3, 1)" "sample_data 1 = Some (Inl [entry_a])"
    "kmem sample_kernel = Some 2 # [Some 3, Some 4, Some 5]" "d_offset ?d = int (256 * 0)" "0 \<le> length [entry_a]"
    "length (d_name ?d) = 256"
    by (simp_all add: sample_cache_def sample_data_def sample_kernel_def)
  obtain st' where g: "file_getdirentry 1 ?d sample_kernel =
      Some (if 0 < length (live_entries [entry_a])
        then (0, ?d\<lparr>d_offset := int (256 * Suc 0), d_name := ename (live_entries [entry_a] ! 0)\<rparr>, st') else (- E_NOENT, ?d, st'))"
    using file_getdirentry_lists [OF sample_kinv sample_few sample_fds(2) n] by blast
  have l: "live_entries [entry_a] = [entry_a]" by (simp add: live_entries_def entry_a_def)
  have "ename entry_a = 97 # replicate 255 0" by (simp add: entry_a_def)
  then show ?thesis using g unfolding l by (intro exI [of _ st']) simp
qed

section \<open>Closing and opening again\<close>

lemma few_mono: "few C \<Longrightarrow> (\<And>m. fst (cnt C' m) \<le> fst (cnt C m)) \<Longrightarrow> few C'"
  unfolding few_def by (meson add_mono_thms_linordered_semiring(3) le_less_trans)

lemma dec_ref_other: "m \<noteq> n \<Longrightarrow> dec_ref n C m = C m"
  by (simp add: dec_ref_def split: option.split)

lemma loads_ok:
  assumes "loads i C (Some a # Some b # ks) res C' ks'"
  obtains n where "res = Inr n"
  using assms by cases auto

lemma closed_slot_free:
  fixes st :: "('d, 'z) kfs_scheme"
  assumes inv: "kinv io dinv blocks img T X A C st" and fd: "fd_open st fd x n"
    and fs: "fstructs s' = fstructs (upd_file (cur_slot st fd) (\<lambda>y. y\<lparr>f_status := FD_NONE, f_open_count := 0\<rparr>) st)"
    and c: "cur_filesp s' = cur_filesp st"
  obtains k where "free_slot s' = Some k"
proof -
  obtain q where q: "cur_filesp st = Some q" "0 \<le> fd" "nat fd < FILES_STRUCT_NENTRY"
    using fd by (auto simp: fd_open_def)
  have "file_at s' (cur_slot st fd) = (file_at st (cur_slot st fd))\<lparr>f_status := FD_NONE, f_open_count := 0\<rparr>"
    unfolding fs using fd_openD(9) [OF inv fd] by simp
  then have "f_status (file_at s' (q, nat fd)) = FD_NONE" using q by (simp add: cur_slot_def)
  then have "List.find (\<lambda>k. f_status (file_at s' (q, k)) = FD_NONE) [0..<FILES_STRUCT_NENTRY] \<noteq> None"
    using q by (auto simp: find_None_iff)
  then show ?thesis using that q c by (auto simp: free_slot_def)
qed

text \<open>Closing a file leaves a descriptor free and the working directory where it is.\<close>

lemma close_keeps_directory:
  fixes st :: "(ide_state, 'z) kfs_scheme"
  assumes inv: "disk0_kernel nb T X A C st" and few: "few C" and fd: "fd_open st fd x n"
    and n: "C n = Some (i, r, c)" and a: "A i = Some (Inr b)"
    and d: "start_dir path st = Some d" "C d = Some (di, dr, dc)" "A di = Some (Inl es)" and fresh: "kmem_fresh C (kmem st)"
  obtains C' s' k where "file_close fd st = Some (0, s')" and "disk0_kernel nb T X A C' s'" and "few C'"
    and "free_slot s' = Some k" and "start_dir path s' = Some d" and "C' d = Some (di, dr, dc)"
    and "kmem_fresh C' (kmem s')" and "kmem s' = kmem st"
proof -
  have r: "r < MAX_INODE_COUNT" using few_node [where C = C, OF few n] by simp
  let ?C = "dec_ref n (C(n \<mapsto> (i, r, c - 1)))"
  obtain s' where cl: "file_close fd st = Some (0, s')" and inv': "disk0_kernel nb T X A ?C s'"
    and fs: "fstructs s' = fstructs (upd_file (cur_slot st fd) (\<lambda>y. y\<lparr>f_status := FD_NONE, f_open_count := 0\<rparr>) st)"
    and c: "cur_filesp s' = cur_filesp st" "bootfs_node s' = bootfs_node st" "kmem s' = kmem st"
    by (rule disk0.file_close_rep [OF inv fd n r])
  obtain k where k: "free_slot s' = Some k" by (rule closed_slot_free [OF inv fd fs c(1)])
  have cr: "0 < c" "c \<le> r" using disk0.node_of_fd [OF inv fd] n by auto
  have cnt: "cnt ?C = (cnt C)(n := (r - 1, c - 1))" by (rule disk0.cnt_close [where C = C, OF n cr(2,1)])
  have few': "few ?C" using few_mono [OF few, of ?C] cnt cnt_Some [where C = C, OF n] by simp
  have "d \<noteq> n" using d n a by auto
  then have d': "?C d = Some (di, dr, dc)" using d(2) by (simp add: dec_ref_other)
  have "?C q = None" if "C q = None" for q
    using that n by (cases "q = n") (simp_all add: dec_ref_other)
  then have fr: "kmem_fresh ?C (kmem s')" using fresh c(3) by (simp add: kmem_fresh_def)
  have "start_dir path s' = start_dir path st"
    using c by (simp add: start_dir_def fs upd_file_def split: option.split)
  then show ?thesis using that [OF cl inv' few' k _ d' fr c(3)] d(1) by simp
qed

text \<open>Opening a file of a directory for reading succeeds when there is a descriptor and memory.\<close>

lemma open_for_reading:
  fixes st :: "(ide_state, 'z) kfs_scheme"
  assumes inv: "disk0_kernel nb T X A C st" and few: "few C" and k: "free_slot st = Some k"
    and p: "plain path" "start_dir path st = Some d" and d: "C d = Some (di, dr, dc)" "A di = Some (Inl es)"
    and path: "subpath path \<noteq> []" "length (subpath path) \<le> SFS_MAX_FNAME_LEN" "List.find (names (subpath path)) es = Some e"
    and a: "A (eino e) = Some (Inr b)"
    and ks: "kmem st = Some k1 # Some k2 # Some k3 # ks" and fresh: "kmem_fresh C (kmem st)"
  obtains C' s' n r c where "file_open path O_RDONLY st = Some (int k, s')" and "disk0_kernel nb T X A C' s'"
    and "fd_open s' (int k) (opened O_RDONLY k n 0) n" and "C' n = Some (eino e, r, c)" and "r < MAX_INODE_COUNT"
proof -
  have fl: "flags_ok O_RDONLY" "\<not> wants_excl O_RDONLY" "\<not> wants_trunc O_RDONLY" "O_RDONLY AND O_APPEND = 0"
    by (simp_all add: flags_ok_def wants_excl_def wants_trunc_def O_RDONLY_def O_TRUNC_def)
  obtain res C1 ks1 where rs: "resolves d es path C (kmem st) res C1 ks1" and out: "case res of
       Inl e \<Rightarrow> if e = - E_NOENT \<and> O_RDONLY AND O_CREAT \<noteq> 0 then file_open path O_RDONLY st = None
         else \<exists>st'. file_open path O_RDONLY st = Some (e, st') \<and> disk0_kernel nb T X A C st' \<and> kmem st' = ks1
     | Inr n \<Rightarrow> \<exists>i r c. C1 n = Some (i, r, c) \<and> open_result nb T X A C1 ks1 O_RDONLY k n i r c st (file_open path O_RDONLY st)"
    using file_open_cases [OF inv few k fl(1) p d path(2) fresh] by blast
  have lo: "loads (eino e) C (Some k2 # Some k3 # ks) res C1 ks1"
    using rs path ks by (simp add: resolves_def finds_def)
  then obtain n where n: "res = Inr n" by (rule loads_ok)
  have rep: "vfs_rep (disk0_io nb) (disk_inv nb) nb disk_img A C st" using inv by (simp add: kinv_def)
  have fr: "kmem_fresh C (Some k2 # Some k3 # ks)" using kmem_fresh_tl [OF fresh] ks by simp
  obtain r c where c: "C1 n = Some (eino e, r, c)" "r = fst (cnt C n) + 1"
    using loads_node [OF rep lo [unfolded n] fr] by blast
  have r: "r < MAX_INODE_COUNT" using few [unfolded few_def, rule_format, of n] c(2) by simp
  obtain s' where "file_open path O_RDONLY st = Some (int k, s')" "disk0_kernel nb T X A (C1(n \<mapsto> (eino e, r, c + 1))) s'"
      "fd_open s' (int k) (opened O_RDONLY k n 0) n"
    using out n c(1) a fl by (auto simp: open_result_def)
  then show ?thesis by (rule that) (use r in simp_all)
qed

text \<open>
  (C14) What is written through a descriptor is read back after it is closed and the file is opened again
  by its name, also when the inode left the cache in between and is loaded from the disk.
\<close>

theorem written_then_read:
  fixes st :: "(ide_state, 'z) kfs_scheme"
  assumes inv: "disk0_kernel nb T X A C st" and few: "few C" and fd: "fd_open st fd x n" "f_writable x"
    and n: "C n = Some (i, r, c)" and a: "A i = Some (Inr b)"
    and pos: "0 \<le> f_pos x" "nat (f_pos x) \<le> length b" "nat (f_pos x) + len \<le> 4096 * (12 + 1024)"
    and base: "base + len \<le> length obj"
    and p: "plain path" "start_dir path st = Some d" and d: "C d = Some (di, dr, dc)" "A di = Some (Inl es)"
    and path: "subpath path \<noteq> []" "length (subpath path) \<le> SFS_MAX_FNAME_LEN"
      "List.find (names (subpath path)) es = Some e" "eino e = i"
    and ks: "kmem st = Some k1 # Some k2 # Some k3 # ks" and fresh: "kmem_fresh C (kmem st)"
    and m: "m \<le> length obj'" "m < 2 ^ 63"
  shows "\<exists>ret w s1 s2 k s3 s4.
    file_write fd obj base len st = Some (ret, w, obj, s1) \<and> (ret = 0 \<and> w = len \<or> ret = - E_NO_MEM \<and> w \<le> len) \<and>
    file_close fd s1 = Some (0, s2) \<and> file_open path O_RDONLY s2 = Some (int k, s3) \<and>
    (let bytes = take m (overwrite (nat (f_pos x)) (take w (drop base obj)) b) in
      file_read (int k) obj' 0 m s3 = Some (0, length bytes, splice 0 bytes obj', s4))"
proof -
  have r: "r < MAX_INODE_COUNT" using few_node [where C = C, OF few n] by simp
  have p3: "nat (f_pos x) + len \<le> 4096 * 1036" using pos(3) by simp
  obtain ret w s1 where wr: "file_write fd obj base len st = Some (ret, w, obj, s1)"
    and w: "ret = 0 \<and> w = len \<or> ret = - E_NO_MEM \<and> w \<le> len"
    and inv1': "disk0_kernel nb T X (A(i \<mapsto> Inr (overwrite (nat (f_pos x)) (take w (drop base obj)) b))) C s1"
    and mv: "moved fd (f_pos x + int w) st s1" and km: "kmem s1 = kmem st"
    by (rule disk0.file_write_rep [OF inv fd n r a pos(1,2) p3 base])
  let ?b = "overwrite (nat (f_pos x)) (take w (drop base obj)) b"
  define A1 where "A1 = A(i \<mapsto> Inr ?b)"
  have inv1: "disk0_kernel nb T X A1 C s1" using inv1' by (simp add: A1_def)
  have fd1: "fd_open s1 fd (x\<lparr>f_pos := f_pos x + int w\<rparr>) n" by (rule moved_fd(1) [OF inv mv fd(1)])
  have a1: "A1 i = Some (Inr ?b)" "A1 di = Some (Inl es)" using d(2) a by (auto simp: A1_def)
  have "start_dir path s1 = start_dir path st"
    using mv by (simp add: start_dir_def moved_def upd_file_def split: option.split)
  then have sd: "start_dir path s1 = Some d" using p(2) by simp
  obtain C2 s2 k where cl: "file_close fd s1 = Some (0, s2)" and inv2: "disk0_kernel nb T X A1 C2 s2" "few C2"
    and s2: "free_slot s2 = Some k" "start_dir path s2 = Some d" "C2 d = Some (di, dr, dc)"
      "kmem_fresh C2 (kmem s2)" "kmem s2 = kmem s1"
    by (rule close_keeps_directory [OF inv1 few fd1 n a1(1) sd d(1) a1(2) fresh [folded km]])
  obtain C3 s3 n3 r3 c3 where op: "file_open path O_RDONLY s2 = Some (int k, s3)" and inv3: "disk0_kernel nb T X A1 C3 s3"
    and fd3: "fd_open s3 (int k) (opened O_RDONLY k n3 0) n3" and n3: "C3 n3 = Some (i, r3, c3)" "r3 < MAX_INODE_COUNT"
    by (rule open_for_reading [OF inv2 s2(1) p(1) s2(2,3) a1(2) path(1-3) _ s2(5) [unfolded km ks] s2(4), unfolded path(4)]) (rule a1(1))
  have rd: "f_readable (opened O_RDONLY k n3 0)" "f_pos (opened O_RDONLY k n3 0) = 0"
    by (simp_all add: opened_def O_RDONLY_def)
  obtain s4 where "file_read (int k) obj' 0 m s3 = Some (0, length (take m (drop 0 ?b)), splice 0 (take m (drop 0 ?b)) obj', s4)"
    by (rule disk0.file_read_rep [OF inv3 fd3 rd(1) n3 a1(1), of m 0 obj'])
      (use m rd(2) in \<open>simp_all add: SFS_MAX_FILE_SIZE_def\<close>)
  then show ?thesis using wr w cl op unfolding Let_def by auto
qed

theorem written_then_read_witness:
  "\<exists>ret w s1 s2 k s3 s4.
    file_write 0 (replicate 3 9) 0 3 sample_kernel = Some (ret, w, replicate 3 9, s1) \<and>
    file_close 0 s1 = Some (0, s2) \<and> file_open [97] O_RDONLY s2 = Some (int k, s3) \<and>
    (w = 3 \<longrightarrow> file_read (int k) (replicate 8 0) 0 8 s3 = Some (0, 8, [7, 7, 7, 7, 9, 9, 9, 7], s4))"
proof -
  have n: "sample_cache 1 = Some (4, 1, 1)" "sample_data 4 = Some (Inr ten_bytes)"
    "sample_cache 0 = Some (1, 3, 1)" "sample_data 1 = Some (Inl [entry_a])"
    by (simp_all add: sample_cache_def sample_data_def)
  have x: "f_writable sample_fd0" "0 \<le> f_pos sample_fd0" "nat (f_pos sample_fd0) \<le> length ten_bytes"
    "nat (f_pos sample_fd0) + 3 \<le> 4096 * (12 + 1024)" by (simp_all add: sample_fd0_def ten_bytes_def)
  have p: "subpath [97] \<noteq> []" "length (subpath [97]) \<le> SFS_MAX_FNAME_LEN"
    "List.find (names (subpath [97])) [entry_a] = Some entry_a" "eino entry_a = 4"
    using sample_find sample_start(3) by (simp_all add: SFS_MAX_FNAME_LEN_def) (simp add: entry_a_def)
  have k: "kmem sample_kernel = Some 2 # Some 3 # Some 4 # [Some 5]" by (simp add: sample_kernel_def)
  have o: "(0 :: nat) + 3 \<le> length (replicate 3 (9 :: u8))" "(8 :: nat) \<le> length (replicate 8 (0 :: u8))" "(8 :: nat) < 2 ^ 63"
    by simp_all
  obtain ret w s1 s2 k s3 s4 where
    "file_write 0 (replicate 3 9) 0 3 sample_kernel = Some (ret, w, replicate 3 9, s1)"
    "file_close 0 s1 = Some (0, s2)" "file_open [97] O_RDONLY s2 = Some (int k, s3)"
    and rd: "let bytes = take 8 (overwrite (nat (f_pos sample_fd0)) (take w (drop 0 (replicate 3 9))) ten_bytes) in
      file_read (int k) (replicate 8 0) 0 8 s3 = Some (0, length bytes, splice 0 bytes (replicate 8 0), s4)"
    using written_then_read [OF sample_kinv sample_few sample_fds(1) x(1) n(1,2) x(2-4) o(1) sample_start(2,1) n(3,4) p k
        sample_fresh o(2,3)] by blast
  moreover have "take 8 (overwrite 4 (replicate 3 9) ten_bytes) = [7, 7, 7, 7, 9, 9, 9, 7]"
    by (simp add: overwrite_def ten_bytes_def numeral_eq_Suc)
  ultimately show ?thesis
    by (fastforce simp: Let_def sample_fd0_def FsBase.splice_def)
qed

text \<open>
  (C16) \<open>file_close\<close> frees the descriptor and gives back one open and one reference of its node; with
  the last reference the inode is written back and leaves the cache. The contents of all files and all
  other descriptors stay.
\<close>

theorem file_close_gives_back:
  fixes st :: "(ide_state, 'z) kfs_scheme"
  assumes inv: "disk0_kernel nb T X A C st" and few: "few C" and fd: "fd_open st fd x n"
    and n: "C n = Some (i, r, c)"
  shows "\<exists>st'. file_close fd st = Some (0, st') \<and> disk0_kernel nb T X A (dec_ref n (C(n \<mapsto> (i, r, c - 1)))) st' \<and>
    kmem st' = kmem st \<and> (\<forall>y m. \<not> fd_open st' fd y m) \<and>
    (\<forall>fd' y m. fd' \<noteq> fd \<longrightarrow> fd_open st' fd' y m = fd_open st fd' y m)"
proof -
  have r: "r < MAX_INODE_COUNT" using few_node [where C = C, OF few n] by simp
  obtain st' where cl: "file_close fd st = Some (0, st')" and inv': "disk0_kernel nb T X A (dec_ref n (C(n \<mapsto> (i, r, c - 1)))) st'"
    and fs: "fstructs st' = fstructs (upd_file (cur_slot st fd) (\<lambda>y. y\<lparr>f_status := FD_NONE, f_open_count := 0\<rparr>) st)"
    and k: "cur_filesp st' = cur_filesp st" "kmem st' = kmem st"
    by (rule disk0.file_close_rep [OF inv fd n r])
  obtain q where q: "cur_filesp st = Some q" "0 \<le> fd" using fd by (auto simp: fd_open_def)
  note D = fd_openD [OF inv fd]
  have slot_fd: "cur_slot st fd = (q, nat fd)" using q by (simp add: cur_slot_def)
  have "f_status (file_at st' (q, nat fd)) = FD_NONE"
    unfolding fs using D(9) by (simp add: slot_fd upd_file_def)
  then have none: "\<not> fd_open st' fd y m" for y m using q k(1) by (auto simp: fd_open_def)
  have other: "fd_open st' fd' y m = fd_open st fd' y m" if "fd' \<noteq> fd" for fd' y m
  proof (cases "0 \<le> fd'")
    case True
    then have "nat fd' \<noteq> nat fd" using q(2) that by simp
    then have "file_at st' (q, nat fd') = file_at st (q, nat fd')"
      unfolding fs by (simp add: slot_fd upd_file_def)
    then show ?thesis using q k(1) by (simp add: fd_open_def)
  qed (simp add: fd_open_def)
  show ?thesis using cl inv' k(2) none other by blast
qed

theorem file_close_gives_back_witness:
  "\<exists>st'. file_close 0 sample_kernel = Some (0, st') \<and> (\<forall>y m. \<not> fd_open st' 0 y m) \<and> fd_open st' 1 sample_fd1 0"
proof -
  have n: "sample_cache 1 = Some (4, 1, 1)" by (simp add: sample_cache_def)
  show ?thesis
    using file_close_gives_back [OF sample_kinv sample_few sample_fds(1) n] sample_fds(2) by fastforce
qed

text \<open>
  \<open>file_seek\<close> to a place inside a file, counted from the start, from the position or from the end,
  moves the position there and changes nothing else.
\<close>

theorem file_seek_moves:
  fixes st :: "(ide_state, 'z) kfs_scheme"
  assumes inv: "disk0_kernel nb T X A C st" and few: "few C" and fd: "fd_open st fd x n"
    and n: "C n = Some (i, r, c)" and a: "A i = Some (Inr b)" and w: "whence \<in> {LSEEK_SET, LSEEK_CUR, LSEEK_END}"
    and q: "q = seek_to whence pos (f_pos x) (length b)" "0 \<le> q" "nat q \<le> length b" "q < int SFS_MAX_FILE_SIZE"
  shows "\<exists>st'. file_seek fd pos whence st = Some (0, st') \<and> disk0_kernel nb T X A C st' \<and> moved fd q st st' \<and>
    kmem st' = kmem st"
proof -
  have r: "r < MAX_INODE_COUNT" using few_node [where C = C, OF few n] by simp
  show ?thesis
    using disk0.file_seek_rep [OF inv fd n r a w q(2-4) [unfolded q(1)]] q(1) by metis
qed

theorem file_seek_moves_witness:
  "\<exists>st'. file_seek 0 (- 3) LSEEK_END sample_kernel = Some (0, st') \<and> moved 0 7 sample_kernel st'"
proof -
  have n: "sample_cache 1 = Some (4, 1, 1)" "sample_data 4 = Some (Inr ten_bytes)"
    by (simp_all add: sample_cache_def sample_data_def)
  have "\<exists>st'. file_seek 0 (- 3) LSEEK_END sample_kernel = Some (0, st') \<and>
      disk0_kernel 8 {0, 1} (\<lambda>_. 0) sample_data sample_cache st' \<and> moved 0 7 sample_kernel st' \<and>
      kmem st' = kmem sample_kernel"
    by (rule file_seek_moves [OF sample_kinv sample_few sample_fds(1) n])
       (simp_all add: seek_to_def LSEEK_SET_def LSEEK_END_def LSEEK_CUR_def ten_bytes_def SFS_MAX_FILE_SIZE_def)
  then show ?thesis by blast
qed

section \<open>Panics\<close>

text \<open>
  Reading or seeking on an open directory panics, as its table of operations has neither.
\<close>

theorem directory_read_panics:
  fixes st :: "(ide_state, 'z) kfs_scheme"
  assumes inv: "disk0_kernel nb T X A C st" and fd: "fd_open st fd x n" "f_readable x"
    and n: "C n = Some (i, r, c)" and a: "A i = Some (Inl es)"
  shows "file_read fd obj base len st = None \<and> file_seek fd pos LSEEK_SET st = None"
proof -
  note D = fd_openD [OF inv fd(1)]
  obtain s1 where s1: "fd_array_acquire (cur_slot st fd) st = Some s1" "f_node (file_at s1 (cur_slot st fd)) = Some n"
    and rep1: "vfs_rep (disk0_io nb) (disk_inv nb) nb disk_img A C s1"
    by (rule disk0.fd_action [OF inv fd(1)])
  note N = rep_cache [OF rep1 n]
  have "in_ops (nodes s1 n) = sfs_node_dirops" using disk0.node_dir(1) [OF N(1,2)] a N(3) by auto
  then have v: "vop_read n iob s1 = None" "vop_tryseek n pos s1 = None" for iob
    by (simp_all add: vop_read_def vop_tryseek_def vop_def)
  have "file_read fd obj base len st = None" using D(1,2) fd(2) s1 v by (simp add: file_read_def)
  moreover have "file_seek fd pos LSEEK_SET st = None" using D(1) s1 v by (simp add: file_seek_def LSEEK_SET_def)
  ultimately show ?thesis by blast
qed

theorem directory_read_panics_witness:
  "file_read 1 (replicate 16 0) 0 16 sample_kernel = None \<and> file_seek 1 0 LSEEK_SET sample_kernel = None"
proof -
  have n: "sample_cache 0 = Some (1, 3, 1)" "sample_data 1 = Some (Inl [entry_a])"
    by (simp_all add: sample_cache_def sample_data_def)
  show ?thesis by (rule directory_read_panics [OF sample_kinv sample_fds(2) _ n]) (simp add: sample_fd1_def)
qed

text \<open>
  Opening a name longer than 255 bytes panics: a path may have up to 4095 bytes, and the search of
  the directory asserts the bound on the whole rest of the path.
\<close>

theorem long_name_panics:
  fixes st :: "(ide_state, 'z) kfs_scheme"
  assumes inv: "disk0_kernel nb T X A C st" and k: "free_slot st = Some k" and fl: "flags_ok fl"
    and p: "plain path" "start_dir path st = Some d" and d: "C d = Some (di, dr, dc)" "A di = Some (Inl es)"
    and len: "SFS_MAX_FNAME_LEN < length (subpath path)"
  shows "file_open path fl st = None"
proof -
  let ?f = "cur_slot st (int k)" and ?s = "upd_file (cur_slot st (int k)) taken st"
  have rep: "vfs_rep (disk0_io nb) (disk_inv nb) nb disk_img A C ?s" using inv by (simp add: kinv_def)
  note N = rep_cache [OF rep d(1)]
  have "in_ops (nodes ?s d) = sfs_node_dirops" using disk0.node_dir(1) [OF N(1,2)] d(2) N(3) by auto
  then have dir: "ftype (din (node_sin ?s d)) = SFS_TYPE_DIR" using disk0.node_dir(3) [OF N(1,2)] by blast
  have no: "sfs_lookup_once d (subpath path) st = None" for st :: "(ide_state, 'z) kfs_scheme"
    using len by (simp add: sfs_lookup_once_def sfs_dirent_search_nolock_def case_prod_beta)
  have dir': "ftype (din (node_sin (snd (inode_ref_inc d (snd (inode_ref_inc d ?s)))) d)) = SFS_TYPE_DIR"
    using dir by (simp add: inode_ref_inc_def)
  have "subpath path \<noteq> []" using len by auto
  moreover have "vop_lookup d (subpath path) (snd (inode_ref_inc d ?s)) = None"
    unfolding vop_lookup_def sfs_lookup_def Let_def using no dir' by (auto simp: bind_eq_None_conv)
  moreover have "get_device path ?s = Some (Inr (d, subpath path), path, snd (inode_ref_inc d ?s))"
    by (rule get_device_plain [OF p(1)]) (use p(2) in simp)
  ultimately have "vfs_lookup path ?s = None" by (simp add: vfs_lookup_def)
  then have "vfs_open path fl ?s = None" using fl by (auto simp: vfs_open_def flags_ok_def Let_def)
  then show ?thesis
    using free_slotD(1) [OF inv k] fl unfolding file_open_def by (auto simp: Let_def flags_ok_def)
qed

theorem long_name_panics_witness: "file_open (replicate 300 97) O_RDONLY sample_kernel = None"
proof -
  have n: "sample_cache 0 = Some (1, 3, 1)" "sample_data 1 = Some (Inl [entry_a])"
    by (simp_all add: sample_cache_def sample_data_def)
  have d: "start_dir (replicate 300 97) sample_kernel = Some 0"
    by (simp add: start_dir_def absolute_def SLASH_def sample_kernel_def)
  show ?thesis
    by (rule long_name_panics [OF sample_kinv sample_free_slot _ _ d n])
       (simp_all add: flags_ok_def O_RDONLY_def O_TRUNC_def plain_def COLON_def subpath_def SLASH_def SFS_MAX_FNAME_LEN_def)
qed

end
