(* ===== verification/FileTables.thy ===== *)
theory FileTables
  imports FileSystem
begin

text \<open>
  Whole tables of open files: duplicating a descriptor, closing all of them, and the copy of a table
  that a forked process gets. The counts of the nodes stay exact through each.
\<close>

text \<open>A copy of the descriptor \<open>x\<close> in the slot of \<open>y\<close>.\<close>

definition copy_of :: "ofile \<Rightarrow> ofile \<Rightarrow> ofile" where
  "copy_of x y = x\<lparr>f_fd := f_fd y\<rparr>"

lemma kinv_bound:
  assumes "kinv io dinv nb img T X A C st" and "C n = Some (i, r, c)" and "few C"
  shows "r < MAX_INODE_COUNT"
  using few_node [where C = C, OF assms(3,2)] by simp

context block_device
begin

lemma dup_slot:
  fixes st :: "('d, 'z) kfs_scheme"
  assumes inv: "kinv io dinv blocks img T X A C st"
    and f: "fst f \<in> T" "snd f < FILES_STRUCT_NENTRY" and x: "f_status (file_at st f) = FD_OPENED" "f_node (file_at st f) = Some n"
    and g: "fst g \<in> T" "snd g < FILES_STRUCT_NENTRY" and y: "f_status (file_at st g) = FD_NONE"
    and h: "\<forall>y. f_status (h y) = FD_INIT \<and> f_fd (h y) = f_fd y \<and> f_open_count (h y) = f_open_count y"
  obtains i r c st' where "C n = Some (i, r, c)" and "fd_array_dup g f (upd_file g h st) = Some st'"
    and "kinv io dinv blocks img T X A (C(n \<mapsto> (i, r + 1, c + 1))) st'"
    and "fstructs st' = fstructs (upd_file g (copy_of (file_at st f)) st)"
    and "cur_filesp st' = cur_filesp st" and "bootfs_node st' = bootfs_node st" and "kmem st' = kmem st"
proof -
  define u where "u = file_at st f"
  define v where "v = file_at st g"
  obtain i r c where n: "C n = Some (i, r, c)" and c: "0 < c" "c \<le> r" by (rule slot_node [OF inv f x])
  have rep: "vfs_rep io dinv blocks img A C st" and tf: "fds_ok (fd_array (fstructs st (fst f)))"
    and tg: "fds_ok (fd_array (fstructs st (fst g)))"
    using inv f(1) g(1) by (simp_all add: kinv_def)
  have eu: "entry_ok (snd f) u" and ev: "entry_ok (snd g) v"
    and l: "snd f < length (fd_array (fstructs st (fst f)))" "snd g < length (fd_array (fstructs st (fst g)))"
    using tf tg f g by (simp_all add: fds_ok_def u_def v_def)
  have u: "f_status u = FD_OPENED" "f_node u = Some n" "f_open_count u = 1" using x eu by (simp_all add: u_def entry_ok_def)
  have v: "f_status v = FD_NONE" "f_open_count v = 0" using y ev by (simp_all add: v_def entry_ok_def)
  have ne: "f \<noteq> g" using x y by auto
  let ?s1 = "upd_file g h st"
  have a1: "file_at ?s1 g = h v" using l by (simp add: v_def)
  have f1: "file_at ?s1 f = u" using ne by (cases f, cases g) (auto simp: upd_file_def u_def nth_list_update)
  define s2 where "s2 = upd_file g (\<lambda>x. x\<lparr>f_pos := f_pos u, f_readable := f_readable u, f_writable := f_writable u\<rparr>) ?s1"
  define s3 where "s3 = snd (inode_open_inc n (snd (inode_ref_inc n s2)))"
  define s4 where "s4 = upd_file g (\<lambda>x. x\<lparr>f_node := Some n\<rparr>) s3"
  let ?s5 = "upd_file g (\<lambda>x. x\<lparr>f_status := FD_OPENED, f_open_count := f_open_count x + 1\<rparr>) s4"
  have m: "vfs.more s3 = vfs.more s2" by (simp add: s3_def)
  note K = kfs_frame [OF m]
  have rep2: "vfs_rep io dinv blocks img A C s2" using rep by (simp add: s2_def)
  have rep3': "vfs_rep io dinv blocks img A (C(n \<mapsto> (i, r + 1, c))) (snd (inode_ref_inc n s2))"
    by (rule ref_inc_ok(2) [OF rep2 n])
  have n1: "(C(n \<mapsto> (i, r + 1, c))) n = Some (i, r + 1, c)" by simp
  have "c < r + 1" using c by simp
  have rep3: "vfs_rep io dinv blocks img A (C(n \<mapsto> (i, r + 1, c + 1))) s3"
    using open_inc_ok [OF rep3' n1 \<open>c < r + 1\<close>] unfolding s3_def fun_upd_upd .
  have so: "slot_only g st ?s5"
  proof -
    have "slot_only g st ?s1" by (rule slot_only_start [OF l(2)])
    then have "slot_only g st s2" by (simp add: s2_def slot_only_upd)
    then have "slot_only g st s3" using K(3) by (simp add: slot_only_def)
    then show ?thesis by (simp add: s4_def slot_only_upd)
  qed
  have ls: "snd g < length (fd_array (fstructs s2 (fst g)))" "snd g < length (fd_array (fstructs s3 (fst g)))"
    "snd g < length (fd_array (fstructs s4 (fst g)))"
    using l K(3) by (simp_all add: s2_def s4_def)
  have a2: "file_at s2 g = (h v)\<lparr>f_pos := f_pos u, f_readable := f_readable u, f_writable := f_writable u\<rparr>"
    using l a1 by (simp add: s2_def)
  have a4: "file_at s4 g = (file_at s2 g)\<lparr>f_node := Some n\<rparr>" using ls(2) K(3) by (simp add: s4_def)
  have hv: "f_status (h v) = FD_INIT" "f_fd (h v) = f_fd v" "f_open_count (h v) = 0" using h v by simp_all
  have op: "fd_array_open g s4 = Some ?s5" using a2 a4 hv by (simp add: fd_array_open_def)
  have a5: "file_at ?s5 g = copy_of u v"
    using ls(3) a4 a2 hv u by (cases u; cases "h v") (simp add: copy_of_def)
  have dup: "fd_array_dup g f ?s1 = Some ?s5"
    unfolding fd_array_dup_def a1 f1 Let_def using hv u op by (simp add: s2_def s3_def s4_def)
  have fs: "fstructs ?s5 = fstructs (upd_file g (copy_of u) st)"
    using so unfolding slot_only_def a5 by (simp add: fstructs_upd_file v_def)
  have "kinv io dinv blocks img T X A (C(n \<mapsto> (i, r + 1, c + 1))) ?s5"
  proof (rule kinv_upd [OF inv _ g fs])
    show "vfs_rep io dinv blocks img A (C(n \<mapsto> (i, r + 1, c + 1))) ?s5" using rep3 by (simp add: s4_def)
    show "cur_filesp ?s5 = cur_filesp st" "bootfs_node ?s5 = bootfs_node st" using K by (simp_all add: s4_def s2_def)
    show "entry_ok (snd g) (copy_of u (file_at st g))" using ev u by (simp add: entry_ok_def copy_of_def v_def)
    show "cnt (C(n \<mapsto> (i, r + 1, c + 1))) m = (fst (cnt C m) + of_bool (opened_on m (copy_of u (file_at st g)))
          - of_bool (opened_on m (file_at st g)) + int (X m) - int (X m),
        snd (cnt C m) + of_bool (opened_on m (copy_of u (file_at st g))) - of_bool (opened_on m (file_at st g)))" for m
      using u y cnt_Some [where C = C, OF n] by (auto simp: opened_on_def copy_of_def)
  qed
  then show thesis
    by (rule that [OF n dup _ fs [unfolded u_def]]) (use K in \<open>simp_all add: s4_def s2_def s3_def\<close>)
qed

section \<open>Closing all descriptors\<close>

lemma closeall_loop_ok:
  fixes st :: "('d, 'z) kfs_scheme"
  assumes "kinv io dinv blocks img T X A C st" and "few C" and "p \<in> T" and "set ks \<subseteq> {..<FILES_STRUCT_NENTRY}"
    and "distinct ks"
  shows "\<exists>C' st'. closeall_loop p ks st = Some st' \<and> kinv io dinv blocks img T X A C' st' \<and> few C' \<and>
    (\<forall>k \<in> set ks. f_status (file_at st' (p, k)) = FD_NONE) \<and>
    (\<forall>q k. (q \<noteq> p \<or> k \<notin> set ks) \<longrightarrow> file_at st' (q, k) = file_at st (q, k)) \<and>
    cur_filesp st' = cur_filesp st \<and> kmem st' = kmem st"
  using assms
proof (induction ks arbitrary: C st)
  case Nil
  then show ?case by auto
next
  case (Cons k ks)
  let ?f = "(p, k)"
  have k: "k < FILES_STRUCT_NENTRY" using Cons.prems by simp
  have t: "fds_ok (fd_array (fstructs st p))" using Cons.prems by (simp add: kinv_def)
  then have e: "entry_ok k (file_at st ?f)" and l: "k < length (fd_array (fstructs st p))" using k by (simp_all add: fds_ok_def)
  obtain C1 s1 where s1: "(if f_status (file_at st ?f) = FD_OPENED then fd_array_close ?f st else Some st) = Some s1"
    and inv1: "kinv io dinv blocks img T X A C1 s1" and few1: "few C1" and none: "f_status (file_at s1 ?f) = FD_NONE"
    and other: "\<forall>g. g \<noteq> ?f \<longrightarrow> file_at s1 g = file_at st g"
    and fr: "cur_filesp s1 = cur_filesp st" "kmem s1 = kmem st"
  proof (cases "f_status (file_at st ?f) = FD_OPENED")
    case False
    then have "f_status (file_at st ?f) = FD_NONE" using e by (auto simp: entry_ok_def)
    then show thesis using that [of st C] False Cons.prems by simp
  next
    case True
    then obtain n where n: "f_node (file_at st ?f) = Some n" using e by (auto simp: entry_ok_def)
    have f: "fst ?f \<in> T" "snd ?f < FILES_STRUCT_NENTRY" using Cons.prems k by simp_all
    obtain i r c where cn: "C n = Some (i, r, c)" and c: "0 < c" "c \<le> r" by (rule slot_node [OF Cons.prems(1) f True n])
    have r: "r < MAX_INODE_COUNT" by (rule kinv_bound [where C = C, OF Cons.prems(1) cn Cons.prems(2)])
    obtain s1 where cl: "fd_array_close ?f st = Some s1" and inv1: "kinv io dinv blocks img T X A (dec_ref n (C(n \<mapsto> (i, r, c - 1)))) s1"
      and fs: "fstructs s1 = fstructs (upd_file ?f (\<lambda>y. y\<lparr>f_status := FD_NONE, f_open_count := 0\<rparr>) st)"
      and fr: "cur_filesp s1 = cur_filesp st" "kmem s1 = kmem st"
      by (rule close_slot [OF Cons.prems(1) f True n cn r])
    have "cnt (dec_ref n (C(n \<mapsto> (i, r, c - 1)))) = (cnt C)(n := (r - 1, c - 1))"
      by (rule cnt_close [where C = C, OF cn c(2,1)])
    then have few1: "few (dec_ref n (C(n \<mapsto> (i, r, c - 1))))"
      using few_mono [OF Cons.prems(2)] cnt_Some [where C = C, OF cn] by simp
    have "f_status (file_at s1 ?f) = FD_NONE" unfolding fs using l by (simp add: upd_file_def)
    moreover have "\<forall>g. g \<noteq> ?f \<longrightarrow> file_at s1 g = file_at st g"
      unfolding fs by (auto simp: upd_file_def nth_list_update)
    ultimately show thesis using that [of s1] True cl inv1 few1 fr by simp
  qed
  have p: "p \<in> T" "set ks \<subseteq> {..<FILES_STRUCT_NENTRY}" "distinct ks" "k \<notin> set ks" using Cons.prems by simp_all
  obtain C' st' where lp: "closeall_loop p ks s1 = Some st'" and r: "kinv io dinv blocks img T X A C' st'" "few C'"
    "\<forall>k \<in> set ks. f_status (file_at st' (p, k)) = FD_NONE"
    "\<forall>q k. (q \<noteq> p \<or> k \<notin> set ks) \<longrightarrow> file_at st' (q, k) = file_at s1 (q, k)"
    "cur_filesp st' = cur_filesp s1" "kmem st' = kmem s1"
    using Cons.IH [OF inv1 few1 p(1-3)] by blast
  have lp': "closeall_loop p (k # ks) st = Some st'" using s1 lp by simp
  have n': "\<forall>j \<in> set (k # ks). f_status (file_at st' (p, j)) = FD_NONE"
    using r(3,4) none p(4) by auto
  have o': "\<forall>q j. (q \<noteq> p \<or> j \<notin> set (k # ks)) \<longrightarrow> file_at st' (q, j) = file_at st (q, j)"
    using r(4) other by auto
  show ?case
    by (rule exI [of _ C'], rule exI [of _ st'], intro conjI)
      (use lp' r n' o' fr in simp_all)
qed

section \<open>Copying a table\<close>

lemma files_dup_loop_ok:
  fixes st :: "('d, 'z) kfs_scheme"
  assumes "kinv io dinv blocks img T X A C st" and "fro \<in> T" and "to \<in> T" and "to \<noteq> fro"
    and "set ks \<subseteq> {..<FILES_STRUCT_NENTRY}" and "distinct ks" and "\<forall>k \<in> set ks. f_status (file_at st (to, k)) = FD_NONE"
  shows "\<exists>C' st'. files_dup_loop to fro ks st = Some st' \<and> kinv io dinv blocks img T X A C' st' \<and>
    (\<forall>k \<in> set ks. if f_status (file_at st (fro, k)) = FD_OPENED then file_at st' (to, k) = file_at st (fro, k)
       else f_status (file_at st' (to, k)) = FD_NONE) \<and>
    (\<forall>q k. (q \<noteq> to \<or> k \<notin> set ks) \<longrightarrow> file_at st' (q, k) = file_at st (q, k)) \<and>
    (\<forall>q. pwd (fstructs st' q) = pwd (fstructs st q)) \<and> cur_filesp st' = cur_filesp st \<and> kmem st' = kmem st"
  using assms
proof (induction ks arbitrary: C st)
  case Nil
  then show ?case by auto
next
  case (Cons k ks)
  let ?f = "(fro, k)" and ?g = "(to, k)"
  have k: "k < FILES_STRUCT_NENTRY" using Cons.prems by simp
  have "fds_ok (fd_array (fstructs st fro))" "fds_ok (fd_array (fstructs st to))" using Cons.prems by (simp_all add: kinv_def)
  then have e: "entry_ok k (file_at st ?f)" "entry_ok k (file_at st ?g)" and l: "k < length (fd_array (fstructs st to))"
    using k by (simp_all add: fds_ok_def)
  obtain C1 s1 where s1: "(if f_status (file_at st ?f) = FD_OPENED
       then fd_array_dup ?g ?f (upd_file ?g (\<lambda>x. x\<lparr>f_status := FD_INIT\<rparr>) st) else Some st) = Some s1"
    and inv1: "kinv io dinv blocks img T X A C1 s1"
    and new: "if f_status (file_at st ?f) = FD_OPENED then file_at s1 ?g = file_at st ?f else f_status (file_at s1 ?g) = FD_NONE"
    and other: "\<forall>g. g \<noteq> ?g \<longrightarrow> file_at s1 g = file_at st g" and pw: "\<forall>q. pwd (fstructs s1 q) = pwd (fstructs st q)"
    and fr: "cur_filesp s1 = cur_filesp st" "kmem s1 = kmem st"
  proof (cases "f_status (file_at st ?f) = FD_OPENED")
    case False
    then show thesis using that [of st C] Cons.prems by simp
  next
    case True
    then obtain n where n: "f_node (file_at st ?f) = Some n" using e by (auto simp: entry_ok_def)
    have f: "fst ?f \<in> T" "snd ?f < FILES_STRUCT_NENTRY" "fst ?g \<in> T" "snd ?g < FILES_STRUCT_NENTRY" using Cons.prems k by simp_all
    have y: "f_status (file_at st ?g) = FD_NONE" using Cons.prems by simp
    have h: "\<forall>y :: ofile. f_status (y\<lparr>f_status := FD_INIT\<rparr>) = FD_INIT \<and> f_fd (y\<lparr>f_status := FD_INIT\<rparr>) = f_fd y \<and>
        f_open_count (y\<lparr>f_status := FD_INIT\<rparr>) = f_open_count y" by simp
    obtain i r c s1 where d: "fd_array_dup ?g ?f (upd_file ?g (\<lambda>x. x\<lparr>f_status := FD_INIT\<rparr>) st) = Some s1"
      and inv1: "kinv io dinv blocks img T X A (C(n \<mapsto> (i, r + 1, c + 1))) s1"
      and fs: "fstructs s1 = fstructs (upd_file ?g (copy_of (file_at st ?f)) st)"
      and fr: "cur_filesp s1 = cur_filesp st" "kmem s1 = kmem st"
      by (rule dup_slot [OF Cons.prems(1) f(1,2) True n f(3,4) y h])
    have "copy_of (file_at st ?f) (file_at st ?g) = file_at st ?f"
      using e by (simp add: copy_of_def entry_ok_def)
    then have "file_at s1 ?g = file_at st ?f" unfolding fs using l by (simp add: upd_file_def)
    moreover have "\<forall>g. g \<noteq> ?g \<longrightarrow> file_at s1 g = file_at st g" "\<forall>q. pwd (fstructs s1 q) = pwd (fstructs st q)"
      unfolding fs by (auto simp: upd_file_def nth_list_update)
    ultimately show thesis using that [of s1] True d inv1 fr by simp
  qed
  have p: "set ks \<subseteq> {..<FILES_STRUCT_NENTRY}" "distinct ks" "k \<notin> set ks" using Cons.prems by simp_all
  have none: "\<forall>j \<in> set ks. f_status (file_at s1 (to, j)) = FD_NONE" 
  proof
    fix j assume j: "j \<in> set ks"
    then have "file_at s1 (to, j) = file_at st (to, j)" using other p(3) by (metis prod.inject)
    then show "f_status (file_at s1 (to, j)) = FD_NONE" using Cons.prems(7) j by simp
  qed
  obtain C' st' where lp: "files_dup_loop to fro ks s1 = Some st'" and r: "kinv io dinv blocks img T X A C' st'"
    "\<forall>k \<in> set ks. if f_status (file_at s1 (fro, k)) = FD_OPENED then file_at st' (to, k) = file_at s1 (fro, k)
       else f_status (file_at st' (to, k)) = FD_NONE"
    "\<forall>q k. (q \<noteq> to \<or> k \<notin> set ks) \<longrightarrow> file_at st' (q, k) = file_at s1 (q, k)"
    "\<forall>q. pwd (fstructs st' q) = pwd (fstructs s1 q)" "cur_filesp st' = cur_filesp s1" "kmem st' = kmem s1"
    using Cons.IH [OF inv1 Cons.prems(2-4) p(1,2) none] by blast
  have lp': "files_dup_loop to fro (k # ks) st = Some st'" using s1 lp by simp
  have same: "file_at s1 (fro, j) = file_at st (fro, j)" for j using other Cons.prems(4) by simp
  have n': "\<forall>j \<in> set (k # ks). if f_status (file_at st (fro, j)) = FD_OPENED then file_at st' (to, j) = file_at st (fro, j)
       else f_status (file_at st' (to, j)) = FD_NONE"
  proof
    fix j assume "j \<in> set (k # ks)"
    then consider "j = k" | "j \<in> set ks" by auto
    then show "if f_status (file_at st (fro, j)) = FD_OPENED then file_at st' (to, j) = file_at st (fro, j)
       else f_status (file_at st' (to, j)) = FD_NONE"
    proof cases
      case 1
      have "file_at st' (to, k) = file_at s1 (to, k)" using r(3) p(3) by blast
      then show ?thesis using new 1 by (auto split: if_splits)
    next
      case 2
      then have "if f_status (file_at s1 (fro, j)) = FD_OPENED then file_at st' (to, j) = file_at s1 (fro, j)
        else f_status (file_at st' (to, j)) = FD_NONE" using r(2) by blast
      then show ?thesis unfolding same .
    qed
  qed
  have o': "\<forall>q j. (q \<noteq> to \<or> j \<notin> set (k # ks)) \<longrightarrow> file_at st' (q, j) = file_at st (q, j)"
    using r(3) other by auto
  show ?case
    by (rule exI [of _ C'], rule exI [of _ st'], intro conjI)
      (use lp' r(1,4,5,6) n' o' fr pw in simp_all)
qed

end

section \<open>The properties\<close>

text \<open>
  \<open>file_dup\<close> opens the first free descriptor as a copy of another one, on the same node with one
  more open and one more reference.
\<close>

theorem file_dup_copies:
  fixes st :: "(ide_state, 'z) kfs_scheme"
  assumes inv: "disk0_kernel nb T X A C st" and fd: "fd_open st fd x n" and k: "free_slot st = Some k"
    and n: "C n = Some (i, r, c)"
  shows "\<exists>st'. file_dup fd NO_FD st = Some (int k, st') \<and> disk0_kernel nb T X A (C(n \<mapsto> (i, r + 1, c + 1))) st' \<and>
    fd_open st' (int k) (x\<lparr>f_fd := int k\<rparr>) n \<and> kmem st' = kmem st \<and>
    (\<forall>fd' y m. fd_open st fd' y m \<longrightarrow> fd_open st' fd' y m)"
proof -
  note D = fd_openD [OF inv fd] and E = free_slotD [OF inv k]
  let ?f = "cur_slot st fd" and ?g = "cur_slot st (int k)"
  have x: "f_status (file_at st ?f) = FD_OPENED" "f_node (file_at st ?f) = Some n" using D(2,7,8) by simp_all
  have g: "fst ?g \<in> T" "snd ?g < FILES_STRUCT_NENTRY" using E(2-4) by simp_all
  have h: "\<forall>y. f_status (taken y) = FD_INIT \<and> f_fd (taken y) = f_fd y \<and> f_open_count (taken y) = f_open_count y"
    by (simp add: taken_def)
  obtain i' r' c' st' where n': "C n = Some (i', r', c')" and d: "fd_array_dup ?g ?f (upd_file ?g taken st) = Some st'"
    and inv': "disk0_kernel nb T X A (C(n \<mapsto> (i', r' + 1, c' + 1))) st'"
    and fs: "fstructs st' = fstructs (upd_file ?g (copy_of (file_at st ?f)) st)"
    and fr: "cur_filesp st' = cur_filesp st" "kmem st' = kmem st"
    by (rule disk0.dup_slot [OF inv D(3,4) x g E(5) h])
  have at: "file_at st' ?g = x\<lparr>f_fd := int k\<rparr>"
    unfolding fs using E(7,8) D(2) by (simp add: copy_of_def)
  have du: "file_dup fd NO_FD st = Some (int k, st')"
    using D(1) E(1) d at unfolding file_dup_def by simp
  have new: "fd_open st' (int k) (x\<lparr>f_fd := int k\<rparr>) n"
    unfolding fd_open_def
  proof (intro exI [of _ "fst ?g"] conjI)
    show "cur_filesp st' = Some (fst ?g)" using fr E(9) by simp
    show "x\<lparr>f_fd := int k\<rparr> = file_at st' (fst ?g, nat (int k))" using at E(3) by simp
  qed (use E(4) D(7,8) in simp_all)
  have old: "fd_open st' fd' y m" if op: "fd_open st fd' y m" for fd' y m
  proof -
    have "fd' \<noteq> int k" by (rule free_slot_other [OF k op])
    moreover obtain p where p: "cur_filesp st = Some p" "0 \<le> fd'" "nat fd' < FILES_STRUCT_NENTRY" "y = file_at st (p, nat fd')"
      "f_status y = FD_OPENED" "f_node y = Some m" using op unfolding fd_open_def by blast
    ultimately have "nat fd' \<noteq> snd ?g" using E(3) by auto
    then have "file_at st' (p, nat fd') = file_at st (p, nat fd')" unfolding fs by (simp add: upd_file_def)
    then show ?thesis unfolding fd_open_def using p fr by auto
  qed
  have "i' = i" "r' = r" "c' = c" using n n' by simp_all
  then show ?thesis using du inv' new old fr(2) by blast
qed

theorem file_dup_copies_witness:
  "\<exists>st'. file_dup 0 NO_FD sample_kernel = Some (2, st') \<and> fd_open st' 2 (sample_fd0\<lparr>f_fd := 2\<rparr>) 1"
proof -
  have n: "sample_cache 1 = Some (4, 1, 1)" by (simp add: sample_cache_def)
  show ?thesis using file_dup_copies [OF sample_kinv sample_fds(1) sample_free_slot n] by auto
qed

text \<open>The first step of \<open>dup_files\<close>: the new table takes the working directory and counts it.\<close>

lemma pwds_upd:
  assumes fin: "finite T" and q: "q \<in> T" and none: "pwd (fstructs st q) = None"
  shows "pwds T (upd_fs q (\<lambda>x. x\<lparr>pwd := Some n\<rparr>) st) m = pwds T st m + of_bool (m = n)"
proof -
  let ?u = "upd_fs q (\<lambda>x. x\<lparr>pwd := Some n\<rparr>) st"
  let ?p = "\<lambda>st q. (if pwd (fstructs st q) = Some m then 1 else 0) :: nat"
  have "pwds T ?u m = ?p ?u q + (\<Sum>q \<in> T - {q}. ?p ?u q)" unfolding pwds_def by (rule sum.remove [OF fin q])
  moreover have "pwds T st m = ?p st q + (\<Sum>q \<in> T - {q}. ?p st q)" unfolding pwds_def by (rule sum.remove [OF fin q])
  moreover have "(\<Sum>q \<in> T - {q}. ?p ?u q) = (\<Sum>q \<in> T - {q}. ?p st q)" by (rule sum.cong) auto
  ultimately show ?thesis using none by simp
qed

lemma dup_pwd_ok:
  fixes st :: "(ide_state, 'z) kfs_scheme"
  assumes inv: "disk0_kernel nb T X A C st" and t: "fro \<in> T" "to \<in> T" and none: "pwd (fstructs st to) = None"
  defines "u \<equiv> upd_fs to (\<lambda>x. x\<lparr>pwd := pwd (fstructs st fro)\<rparr>) st"
  obtains C' s' where "s' = (case pwd (fstructs u to) of None \<Rightarrow> u | Some n \<Rightarrow> snd (inode_ref_inc n u))"
    and "disk0_kernel nb T X A C' s'" and "fstructs s' = fstructs u"
proof (cases "pwd (fstructs st fro)")
  case None
  have "(fstructs st to)\<lparr>pwd := None\<rparr> = fstructs st to" using none by (cases "fstructs st to") simp
  then have "u = st" using None by (simp add: u_def upd_fs_def)
  then show ?thesis by (intro that [of st C]) (use none inv in simp_all)
next
  case (Some n)
  have rep: "vfs_rep (disk0_io nb) (disk_inv nb) nb disk_img A C st" and fin: "finite T" and cx: "counts_exact T X C st"
    using inv by (simp_all add: kinv_def)
  have pw: "pwds T u m = pwds T st m + of_bool (m = n)" for m
    unfolding u_def Some by (rule pwds_upd [OF fin t(2) none])
  have op: "opens T u = opens T st" "boots u = boots st"
    by (auto simp: u_def opens_def boots_def fun_eq_iff intro!: sum.cong)
  have "(if pwd (fstructs st fro) = Some n then 1 else 0 :: nat) \<le> pwds T st n"
    unfolding pwds_def by (rule member_le_sum [OF t(1)]) (use fin in simp_all)
  then have "0 < fst (cnt C n)" using cx Some by (simp add: counts_exact_def)
  then obtain i r c where n: "C n = Some (i, r, c)" by (cases "C n") (auto simp: cnt_def)
  let ?s = "snd (inode_ref_inc n u)"
  have "vfs_rep (disk0_io nb) (disk_inv nb) nb disk_img A C u" using rep by (simp add: u_def)
  then have rep1: "vfs_rep (disk0_io nb) (disk_inv nb) nb disk_img A (C(n \<mapsto> (i, r + 1, c))) ?s"
    by (rule ref_inc_ok(2) [where C = C, OF _ n])
  have m: "vfs.more ?s = vfs.more u" by simp
  note K = kfs_frame [OF m]
  have e: "opens T ?s = opens T st" "pwds T ?s = pwds T u" "boots ?s = boots st"
    using K op by (simp_all add: opens_def pwds_def boots_def fun_eq_iff)
  have "cnt C q = (int (opens T st q + pwds T st q + boots st q + X q), int (opens T st q))" for q
    using cx by (simp add: counts_exact_def)
  then have "counts_exact T X (C(n \<mapsto> (i, r + 1, c))) ?s"
    unfolding counts_exact_def e pw using cnt_Some [where C = C, OF n] by auto
  then have "disk0_kernel nb T X A (C(n \<mapsto> (i, r + 1, c))) ?s"
    using inv rep1 fin K by (auto simp: kinv_def u_def)
  then show ?thesis using that [of ?s] Some K(3) by (simp add: u_def)
qed

text \<open>
  (C17) \<open>dup_files\<close>, the part of a fork that copies the open files: the new table gets the working
  directory and every open descriptor of the old one, and each copy counts on its node.
\<close>

theorem dup_files_copies:
  fixes st :: "(ide_state, 'z) kfs_scheme"
  assumes inv: "disk0_kernel nb T X A C st" and t: "fro \<in> T" "to \<in> T" "to \<noteq> fro"
    and c: "fcount (fstructs st to) = 0" "fcount (fstructs st fro) > 0"
    and none: "pwd (fstructs st to) = None" "\<forall>k < FILES_STRUCT_NENTRY. f_status (file_at st (to, k)) = FD_NONE"
  shows "\<exists>C' st'. dup_files to fro st = Some (0, st') \<and> disk0_kernel nb T X A C' st' \<and>
    pwd (fstructs st' to) = pwd (fstructs st fro) \<and>
    (\<forall>k < FILES_STRUCT_NENTRY. if f_status (file_at st (fro, k)) = FD_OPENED then file_at st' (to, k) = file_at st (fro, k)
       else f_status (file_at st' (to, k)) = FD_NONE) \<and>
    (\<forall>q k. q \<noteq> to \<longrightarrow> file_at st' (q, k) = file_at st (q, k))"
proof -
  let ?u = "upd_fs to (\<lambda>x. x\<lparr>pwd := pwd (fstructs st fro)\<rparr>) st"
  obtain C1 s1 where s1: "s1 = (case pwd (fstructs ?u to) of None \<Rightarrow> ?u | Some n \<Rightarrow> snd (inode_ref_inc n ?u))"
    and inv1: "disk0_kernel nb T X A C1 s1" and fs1: "fstructs s1 = fstructs ?u"
    by (rule dup_pwd_ok [OF inv t(1,2) none(1)])
  have fa: "file_at s1 (q, k) = file_at st (q, k)" for q k unfolding fs1 by simp
  have ks: "set [0..<FILES_STRUCT_NENTRY] \<subseteq> {..<FILES_STRUCT_NENTRY}" "distinct [0..<FILES_STRUCT_NENTRY]"
    "\<forall>k \<in> set [0..<FILES_STRUCT_NENTRY]. f_status (file_at s1 (to, k)) = FD_NONE"
    using none(2) fa by auto
  obtain C' st' where lp: "files_dup_loop to fro [0..<FILES_STRUCT_NENTRY] s1 = Some st'" and inv': "disk0_kernel nb T X A C' st'"
    and cp: "\<forall>k \<in> set [0..<FILES_STRUCT_NENTRY]. if f_status (file_at s1 (fro, k)) = FD_OPENED
       then file_at st' (to, k) = file_at s1 (fro, k) else f_status (file_at st' (to, k)) = FD_NONE"
    and ot: "\<forall>q k. (q \<noteq> to \<or> k \<notin> set [0..<FILES_STRUCT_NENTRY]) \<longrightarrow> file_at st' (q, k) = file_at s1 (q, k)"
    and pw: "\<forall>q. pwd (fstructs st' q) = pwd (fstructs s1 q)"
    using disk0.files_dup_loop_ok [OF inv1 t ks] by blast
  have "dup_files to fro st = Some (0, st')"
    using c lp s1 by (simp add: dup_files_def kassert_def Let_def)
  moreover have "pwd (fstructs st' to) = pwd (fstructs st fro)" using pw fs1 by simp
  moreover have "if f_status (file_at st (fro, k)) = FD_OPENED then file_at st' (to, k) = file_at st (fro, k)
       else f_status (file_at st' (to, k)) = FD_NONE" if "k < FILES_STRUCT_NENTRY" for k
    by (rule cp [unfolded fa, THEN bspec]) (use that in simp)
  moreover have "file_at st' (q, k) = file_at st (q, k)" if "q \<noteq> to" for q k
    using ot [rule_format, of q k] fa [of q k] that by simp
  ultimately show ?thesis using inv' by blast
qed

theorem dup_files_copies_witness:
  "\<exists>st'. dup_files 1 0 sample_kernel = Some (0, st') \<and> pwd (fstructs st' 1) = Some 0 \<and> file_at st' (1, 0) = sample_fd0"
proof -
  have t: "(0 :: nat) \<in> {0, 1}" "(1 :: nat) \<in> {0, 1}" "(1 :: nat) \<noteq> 0" by simp_all
  have s: "fcount (fstructs sample_kernel 1) = 0" "0 < fcount (fstructs sample_kernel 0)" "pwd (fstructs sample_kernel 1) = None"
    "pwd (fstructs sample_kernel 0) = Some 0" "file_at sample_kernel (0, 0) = sample_fd0"
    by (simp_all add: sample_kernel_def)
  have f: "\<forall>k < FILES_STRUCT_NENTRY. f_status (file_at sample_kernel (1, k)) = FD_NONE"
  proof (intro allI impI)
    fix k assume "k < FILES_STRUCT_NENTRY"
    then have "unused_fds 0 ! k = unused_fd k" using unused_fds_nth [of k 0] by (simp add: FILES_STRUCT_NENTRY_def)
    then show "f_status (file_at sample_kernel (1, k)) = FD_NONE" using sample_table1 by (simp add: unused_fd_def)
  qed
  obtain C' st' where d: "dup_files 1 0 sample_kernel = Some (0, st')" "pwd (fstructs st' 1) = pwd (fstructs sample_kernel 0)"
    and c: "\<forall>k < FILES_STRUCT_NENTRY. if f_status (file_at sample_kernel (0, k)) = FD_OPENED
       then file_at st' (1, k) = file_at sample_kernel (0, k) else f_status (file_at st' (1, k)) = FD_NONE"
    using dup_files_copies [OF sample_kinv t s(1,2,3) f] by blast
  have "f_status (file_at sample_kernel (0, 0)) = FD_OPENED" unfolding s(5) by (simp add: sample_fd0_def)
  moreover have "(0 :: nat) < FILES_STRUCT_NENTRY" by (simp add: FILES_STRUCT_NENTRY_def)
  ultimately have "file_at st' (1, 0) = file_at sample_kernel (0, 0)" using c by presburger
  then show ?thesis using d s(4,5) by auto
qed

text \<open>
  \<open>files_closeall\<close> closes every descriptor from 2 on; 0 and 1, the standard input and output, and
  the descriptors of other tables stay.
\<close>

theorem files_closeall_closes:
  fixes st :: "(ide_state, 'z) kfs_scheme"
  assumes inv: "disk0_kernel nb T X A C st" and few: "few C" and p: "p \<in> T" "fcount (fstructs st p) > 0"
  shows "\<exists>C' st'. files_closeall p st = Some st' \<and> disk0_kernel nb T X A C' st' \<and>
    (\<forall>k. 2 \<le> k \<and> k < FILES_STRUCT_NENTRY \<longrightarrow> f_status (file_at st' (p, k)) = FD_NONE) \<and>
    (\<forall>q k. q \<noteq> p \<or> k < 2 \<longrightarrow> file_at st' (q, k) = file_at st (q, k))"
proof -
  have ks: "set [2..<FILES_STRUCT_NENTRY] \<subseteq> {..<FILES_STRUCT_NENTRY}" "distinct [2..<FILES_STRUCT_NENTRY]" by auto
  show ?thesis
    using disk0.closeall_loop_ok [OF inv few p(1) ks] p(2) by (fastforce simp: files_closeall_def)
qed

theorem files_closeall_closes_witness:
  "\<exists>st'. files_closeall 0 sample_kernel = Some st' \<and> file_at st' (0, 0) = sample_fd0 \<and>
     f_status (file_at st' (0, 2)) = FD_NONE"
proof -
  have p: "(0 :: nat) \<in> {0, 1}" "0 < fcount (fstructs sample_kernel 0)" "file_at sample_kernel (0, 0) = sample_fd0"
    "2 \<le> (2 :: nat) \<and> 2 < FILES_STRUCT_NENTRY" by (simp_all add: sample_kernel_def FILES_STRUCT_NENTRY_def)
  obtain C' st' where c: "files_closeall 0 sample_kernel = Some st'"
    "\<forall>k. 2 \<le> k \<and> k < FILES_STRUCT_NENTRY \<longrightarrow> f_status (file_at st' (0, k)) = FD_NONE"
    "\<forall>q k. q \<noteq> 0 \<or> k < 2 \<longrightarrow> file_at st' (q, k) = file_at sample_kernel (q, k)"
    using files_closeall_closes [OF sample_kinv sample_few p(1,2)] by blast
  have "file_at st' (0, 0) = sample_fd0" using c(3) [rule_format, of 0 0] p(3) by simp
  moreover have "f_status (file_at st' (0, 2)) = FD_NONE" using c(2) p(4) by blast
  ultimately show ?thesis using c(1) by blast
qed

end
