(* ===== verification/Monitor.thy ===== *)
theory Monitor
  imports Prelude
begin

text \<open>
  Monitors with condition variables, \<open>lab8/kern/sync/monitor.c\<close>. The functions are modelled statement by
  statement, as threads interleave: each has a program counter, and a step returns the next one, or
  \<open>None\<close> inside the pair when the function returns. A \<open>down\<close> is a step that needs a unit of its
  semaphore (theory \<open>WaitSem\<close>). The theory proves the discipline of Hoare's monitors for any number of
  threads and any use of the functions; \<open>PhilosophersCV\<close> applies it.
\<close>

section \<open>The code\<close>

text \<open>A condition variable is an index of \<open>cv\<close>; its \<open>owner\<close> is the monitor.\<close>

record monitor =
  mt_mutex :: nat
  mt_next :: nat
  next_count :: int
  cv_count :: "nat \<Rightarrow> int"
  cv_sem :: "nat \<Rightarrow> nat"

text \<open>\<open>mem\<close> says whether the \<open>kmalloc\<close> of the array of condition variables succeeds.\<close>

definition monitor_init :: "bool \<Rightarrow> nat \<Rightarrow> monitor option" where
  "monitor_init mem num_cv = do {
     kassert (num_cv > 0);
     kassert mem;
     Some \<lparr>mt_mutex = 1, mt_next = 0, next_count = 0, cv_count = (\<lambda>_. 0), cv_sem = (\<lambda>_. 0)\<rparr>
   }"

datatype sig_pc = SCheck | SInc | SUp | SDown | SDec

definition cond_signal :: "nat \<Rightarrow> sig_pc \<Rightarrow> monitor \<Rightarrow> (sig_pc option \<times> monitor) option" where
  "cond_signal c p m =
     (case p of
        SCheck \<Rightarrow> Some (if cv_count m c > 0 then Some SInc else None, m)
      | SInc \<Rightarrow> Some (Some SUp, m\<lparr>next_count := next_count m + 1\<rparr>)
      | SUp \<Rightarrow> Some (Some SDown, m\<lparr>cv_sem := (cv_sem m)(c := cv_sem m c + 1)\<rparr>)
      | SDown \<Rightarrow> if mt_next m > 0 then Some (Some SDec, m\<lparr>mt_next := mt_next m - 1\<rparr>) else None
      | SDec \<Rightarrow> Some (None, m\<lparr>next_count := next_count m - 1\<rparr>))"

datatype wait_pc = WInc | WCheck | WNext | WMutex | WDown | WDec

definition cond_wait :: "nat \<Rightarrow> wait_pc \<Rightarrow> monitor \<Rightarrow> (wait_pc option \<times> monitor) option" where
  "cond_wait c p m =
     (case p of
        WInc \<Rightarrow> Some (Some WCheck, m\<lparr>cv_count := (cv_count m)(c := cv_count m c + 1)\<rparr>)
      | WCheck \<Rightarrow> Some (Some (if next_count m > 0 then WNext else WMutex), m)
      | WNext \<Rightarrow> Some (Some WDown, m\<lparr>mt_next := mt_next m + 1\<rparr>)
      | WMutex \<Rightarrow> Some (Some WDown, m\<lparr>mt_mutex := mt_mutex m + 1\<rparr>)
      | WDown \<Rightarrow> if cv_sem m c > 0 then Some (Some WDec, m\<lparr>cv_sem := (cv_sem m)(c := cv_sem m c - 1)\<rparr>) else None
      | WDec \<Rightarrow> Some (None, m\<lparr>cv_count := (cv_count m)(c := cv_count m c - 1)\<rparr>))"

text \<open>How a routine of a monitor begins and ends, written out in each routine of the code.\<close>

definition monitor_enter :: "monitor \<Rightarrow> monitor option" where
  "monitor_enter m = (if mt_mutex m > 0 then Some (m\<lparr>mt_mutex := mt_mutex m - 1\<rparr>) else None)"

datatype leave_pc = LCheck | LNext | LMutex

definition monitor_leave :: "leave_pc \<Rightarrow> monitor \<Rightarrow> leave_pc option \<times> monitor" where
  "monitor_leave p m =
     (case p of
        LCheck \<Rightarrow> (Some (if next_count m > 0 then LNext else LMutex), m)
      | LNext \<Rightarrow> (None, m\<lparr>mt_next := mt_next m + 1\<rparr>)
      | LMutex \<Rightarrow> (None, m\<lparr>mt_mutex := mt_mutex m + 1\<rparr>))"

section \<open>Threads that use a monitor\<close>

datatype thread_pc = Outside | Entering | Inside | Signals nat sig_pc | Waits nat wait_pc | Leaving leave_pc

text \<open>
  One of \<open>n\<close> threads makes a step. What it does inside or outside of the monitor besides calling these
  functions is left open: the rules \<open>call\<close>, \<open>signal\<close>, \<open>wait\<close> and \<open>leave\<close> may be taken at any time.
\<close>

inductive mon_step :: "nat \<Rightarrow> monitor \<times> (nat \<Rightarrow> thread_pc) \<Rightarrow> monitor \<times> (nat \<Rightarrow> thread_pc) \<Rightarrow> bool" for n where
  call: "t < n \<Longrightarrow> f t = Outside \<Longrightarrow> mon_step n (m, f) (m, f(t := Entering))"
| enter: "t < n \<Longrightarrow> f t = Entering \<Longrightarrow> monitor_enter m = Some m' \<Longrightarrow> mon_step n (m, f) (m', f(t := Inside))"
| signal: "t < n \<Longrightarrow> f t = Inside \<Longrightarrow> mon_step n (m, f) (m, f(t := Signals c SCheck))"
| signals: "t < n \<Longrightarrow> f t = Signals c p \<Longrightarrow> cond_signal c p m = Some (r, m') \<Longrightarrow>
    mon_step n (m, f) (m', f(t := case r of None \<Rightarrow> Inside | Some q \<Rightarrow> Signals c q))"
| wait: "t < n \<Longrightarrow> f t = Inside \<Longrightarrow> mon_step n (m, f) (m, f(t := Waits c WInc))"
| waits: "t < n \<Longrightarrow> f t = Waits c p \<Longrightarrow> cond_wait c p m = Some (r, m') \<Longrightarrow>
    mon_step n (m, f) (m', f(t := case r of None \<Rightarrow> Inside | Some q \<Rightarrow> Waits c q))"
| leave: "t < n \<Longrightarrow> f t = Inside \<Longrightarrow> mon_step n (m, f) (m, f(t := Leaving LCheck))"
| leaves: "t < n \<Longrightarrow> f t = Leaving p \<Longrightarrow> monitor_leave p m = (r, m') \<Longrightarrow>
    mon_step n (m, f) (m', f(t := case r of None \<Rightarrow> Outside | Some q \<Rightarrow> Leaving q))"

inductive mon_reach :: "nat \<Rightarrow> monitor \<times> (nat \<Rightarrow> thread_pc) \<Rightarrow> bool" for n where
  init: "monitor_init True k = Some m \<Longrightarrow> mon_reach n (m, \<lambda>_. Outside)"
| step: "mon_reach n s \<Longrightarrow> mon_step n s s' \<Longrightarrow> mon_reach n s'"

section \<open>The invariant\<close>

text \<open>
  There is one token: it is the unit of \<open>mutex\<close>, of \<open>next\<close> or of one condition variable, or a thread has it
  and runs in the monitor.
\<close>

datatype token = TMutex | TNext | TSem nat | TThread nat

definition runs :: "thread_pc \<Rightarrow> bool" where
  "runs q = (case q of Outside \<Rightarrow> False | Entering \<Rightarrow> False | Inside \<Rightarrow> True | Signals c p \<Rightarrow> p \<noteq> SDown
     | Waits c p \<Rightarrow> p \<noteq> WDown | Leaving p \<Rightarrow> True)"

definition signaller :: "thread_pc \<Rightarrow> bool" where
  "signaller q = (case q of Signals c p \<Rightarrow> p \<in> {SUp, SDown, SDec} | _ \<Rightarrow> False)"

definition waiter :: "nat \<Rightarrow> thread_pc \<Rightarrow> bool" where
  "waiter c q = (case q of Waits c' p \<Rightarrow> c' = c \<and> p \<noteq> WInc | _ \<Rightarrow> False)"

definition how_many :: "nat \<Rightarrow> (thread_pc \<Rightarrow> bool) \<Rightarrow> (nat \<Rightarrow> thread_pc) \<Rightarrow> int" where
  "how_many n P f = int (card {t. t < n \<and> P (f t)})"

text \<open>What a thread knows at its program counter.\<close>

definition knows :: "monitor \<Rightarrow> thread_pc \<Rightarrow> bool" where
  "knows m q = (case q of
      Signals c p \<Rightarrow> p \<in> {SInc, SUp} \<longrightarrow> cv_count m c > 0
    | Waits c p \<Rightarrow> (p = WNext \<longrightarrow> next_count m > 0) \<and> (p = WMutex \<longrightarrow> next_count m = 0)
    | Leaving p \<Rightarrow> (p = LNext \<longrightarrow> next_count m > 0) \<and> (p = LMutex \<longrightarrow> next_count m = 0)
    | _ \<Rightarrow> True)"

definition token_at :: "nat \<Rightarrow> token \<Rightarrow> monitor \<Rightarrow> (nat \<Rightarrow> thread_pc) \<Rightarrow> bool" where
  "token_at n k m f \<longleftrightarrow>
     mt_mutex m = of_bool (k = TMutex) \<and> mt_next m = of_bool (k = TNext) \<and> (\<forall>c. cv_sem m c = of_bool (k = TSem c)) \<and>
     (\<forall>t < n. runs (f t) \<longleftrightarrow> k = TThread t) \<and>
     (case k of TMutex \<Rightarrow> next_count m = 0 | TNext \<Rightarrow> next_count m > 0 | TSem c \<Rightarrow> cv_count m c > 0 | TThread t \<Rightarrow> t < n)"

definition monitor_inv :: "nat \<Rightarrow> monitor \<Rightarrow> (nat \<Rightarrow> thread_pc) \<Rightarrow> bool" where
  "monitor_inv n m f \<longleftrightarrow> (\<exists>k. token_at n k m f) \<and> next_count m = how_many n signaller f \<and>
     (\<forall>c. cv_count m c = how_many n (waiter c) f) \<and> (\<forall>t < n. knows m (f t))"

lemma how_many_upd:
  assumes "t < n"
  shows "how_many n P (f(t := q)) = how_many n P f + of_bool (P q) - of_bool (P (f t))"
proof -
  let ?A = "{s. s < n \<and> P (f s)} - {t}"
  have "int (card (if b then insert t A else A)) = int (card A) + of_bool b" if "finite A" "t \<notin> A" for b A
    using that by simp
  then have c: "int (card (if b then insert t ?A else ?A)) = int (card ?A) + of_bool b" for b by simp
  have e1: "{s. s < n \<and> P ((f(t := q)) s)} = (if P q then insert t ?A else ?A)" using assms by auto
  have e2: "{s. s < n \<and> P (f s)} = (if P (f t) then insert t ?A else ?A)" using assms by auto
  have "int (card {s. s < n \<and> P (f s)}) = int (card ?A) + of_bool (P (f t))" by (subst e2) (rule c)
  then show ?thesis using c [of "P q"] unfolding how_many_def e1 by linarith
qed

lemma how_many_pos: "0 < how_many n P f \<longleftrightarrow> (\<exists>t < n. P (f t))"
  by (auto simp: how_many_def card_gt_0_iff)

lemma not_runs_knows: "\<not> runs q \<Longrightarrow> knows m q"
  by (auto simp: runs_def knows_def split: thread_pc.splits)

text \<open>The token when a thread runs on, gives it away or takes it.\<close>

lemma token_runs:
  assumes "token_at n k m f" and "t < n" and "runs (f t)"
  shows "k = TThread t" and "mt_mutex m = 0" and "mt_next m = 0" and "cv_sem m c = 0" and "s < n \<Longrightarrow> s \<noteq> t \<Longrightarrow> \<not> runs (f s)"
  using assms by (auto simp: token_at_def)

lemma token_stay:
  assumes "token_at n k m f" and "t < n" and "runs (f t)" and "runs q"
    and "mt_mutex m' = mt_mutex m" and "mt_next m' = mt_next m" and "cv_sem m' = cv_sem m"
  shows "\<exists>k. token_at n k m' (f(t := q))"
  by (rule exI [of _ "TThread t"]) (use assms token_runs(1) [OF assms(1-3)] in \<open>auto simp: token_at_def\<close>)

lemma token_give:
  assumes "token_at n k m f" and "t < n" and "runs (f t)" and "\<not> runs q"
    and "mt_mutex m' = of_bool (k' = TMutex)" "mt_next m' = of_bool (k' = TNext)" "\<And>c. cv_sem m' c = of_bool (k' = TSem c)"
    and "case k' of TMutex \<Rightarrow> next_count m' = 0 | TNext \<Rightarrow> next_count m' > 0 | TSem c \<Rightarrow> cv_count m' c > 0 | TThread t \<Rightarrow> False"
  shows "\<exists>k. token_at n k m' (f(t := q))"
proof -
  have "\<not> runs ((f(t := q)) s) \<and> k' \<noteq> TThread s" if "s < n" for s
    using that assms(4,8) token_runs(5) [OF assms(1-3)] by auto
  then show ?thesis using assms(5-8) by (intro exI [of _ k']) (auto simp: token_at_def split: token.splits)
qed

lemma token_take:
  assumes "token_at n k m f" and "t < n" and "\<not> runs (f t)" and "runs q" and "\<forall>s. k \<noteq> TThread s"
    and "mt_mutex m' = 0" "mt_next m' = 0" "\<And>c. cv_sem m' c = 0"
  shows "\<exists>k. token_at n k m' (f(t := q))"
  by (rule exI [of _ "TThread t"]) (use assms in \<open>auto simp: token_at_def\<close>)

lemma monitor_inv_upd:
  assumes inv: "monitor_inv n m f" and t: "t < n" and tok: "\<exists>k. token_at n k m' (f(t := q))"
    and nc: "next_count m' = next_count m + of_bool (signaller q) - of_bool (signaller (f t))"
    and cc: "\<And>c. cv_count m' c = cv_count m c + of_bool (waiter c q) - of_bool (waiter c (f t))"
    and k: "knows m' q" and ks: "m' = m \<or> (\<forall>s < n. s \<noteq> t \<longrightarrow> \<not> runs (f s))"
  shows "monitor_inv n m' (f(t := q))"
proof -
  have "knows m' ((f(t := q)) s)" if "s < n" for s
    using ks k inv that not_runs_knows by (cases "s = t") (auto simp: monitor_inv_def)
  then show ?thesis using inv t tok by (simp add: monitor_inv_def how_many_upd nc cc)
qed

lemmas pc_simps = runs_def signaller_def waiter_def knows_def

lemma signals_inv:
  assumes inv: "monitor_inv n m f" and t: "t < n" "f t = Signals c p" and r: "cond_signal c p m = Some (r, m')"
  shows "monitor_inv n m' (f(t := case r of None \<Rightarrow> Inside | Some q \<Rightarrow> Signals c q))" (is "monitor_inv n m' (f(t := ?q))")
proof -
  obtain k where tok: "token_at n k m f" using inv by (auto simp: monitor_inv_def)
  have kn: "knows m (f t)" using inv t(1) unfolding monitor_inv_def by blast
  have "\<exists>k. token_at n k m' (f(t := ?q))"
  proof (cases p)
    case SUp
    have ru: "runs (f t)" using t SUp by (simp add: runs_def)
    show ?thesis
      by (rule token_give [OF tok t(1) ru, where k' = "TSem c"])
        (use r kn t SUp token_runs(2-4) [OF tok t(1) ru] in \<open>auto simp: cond_signal_def runs_def knows_def\<close>)
  next
    case SDown
    have kk: "k = TNext" and m': "m' = m\<lparr>mt_next := 0\<rparr>" "r = Some SDec"
      using r tok SDown by (auto simp: cond_signal_def token_at_def split: if_splits)
    show ?thesis
      by (rule token_take [OF tok t(1)]) (use tok in \<open>auto simp: t SDown kk m' runs_def token_at_def\<close>)
  qed (rule token_stay [OF tok t(1)]; use r t in \<open>auto simp: cond_signal_def runs_def split: if_splits\<close>)+
  moreover have "s < n \<Longrightarrow> s \<noteq> t \<Longrightarrow> \<not> runs (f s)" for s
    using tok t r by (cases "p = SDown") (auto simp: token_at_def cond_signal_def runs_def split: if_splits)
  ultimately show ?thesis
    using r kn t by (intro monitor_inv_upd [OF inv t(1)]; cases p) (auto simp: cond_signal_def pc_simps split: if_splits)
qed

lemma waits_inv:
  assumes inv: "monitor_inv n m f" and t: "t < n" "f t = Waits c p" and r: "cond_wait c p m = Some (r, m')"
  shows "monitor_inv n m' (f(t := case r of None \<Rightarrow> Inside | Some q \<Rightarrow> Waits c q))" (is "monitor_inv n m' (f(t := ?q))")
proof -
  obtain k where tok: "token_at n k m f" using inv by (auto simp: monitor_inv_def)
  have kn: "knows m (f t)" using inv t(1) unfolding monitor_inv_def by blast
  have "\<exists>k. token_at n k m' (f(t := ?q))"
  proof (cases p)
    case WNext
    have ru: "runs (f t)" using t WNext by (simp add: runs_def)
    show ?thesis
      by (rule token_give [OF tok t(1) ru, where k' = TNext])
        (use r kn t WNext token_runs(2-4) [OF tok t(1) ru] in \<open>auto simp: cond_wait_def runs_def knows_def\<close>)
  next
    case WMutex
    have ru: "runs (f t)" using t WMutex by (simp add: runs_def)
    show ?thesis
      by (rule token_give [OF tok t(1) ru, where k' = TMutex])
        (use r kn t WMutex token_runs(2-4) [OF tok t(1) ru] in \<open>auto simp: cond_wait_def runs_def knows_def\<close>)
  next
    case WDown
    have kk: "k = TSem c" and m': "m' = m\<lparr>cv_sem := (cv_sem m)(c := 0)\<rparr>" "r = Some WDec"
      using r tok WDown by (auto simp: cond_wait_def token_at_def split: if_splits)
    show ?thesis
      by (rule token_take [OF tok t(1)]) (use tok in \<open>auto simp: t WDown kk m' runs_def token_at_def\<close>)
  qed (rule token_stay [OF tok t(1)]; use r t in \<open>auto simp: cond_wait_def runs_def split: if_splits\<close>)+
  moreover have "s < n \<Longrightarrow> s \<noteq> t \<Longrightarrow> \<not> runs (f s)" for s
    using tok t r by (cases "p = WDown") (auto simp: token_at_def cond_wait_def runs_def split: if_splits)
  moreover have "0 \<le> next_count m" using inv by (simp add: monitor_inv_def how_many_def)
  ultimately show ?thesis
    using r kn t by (intro monitor_inv_upd [OF inv t(1)]; cases p) (auto simp: cond_wait_def pc_simps split: if_splits)
qed

lemma leaves_inv:
  assumes inv: "monitor_inv n m f" and t: "t < n" "f t = Leaving p" and r: "monitor_leave p m = (r, m')"
  shows "monitor_inv n m' (f(t := case r of None \<Rightarrow> Outside | Some q \<Rightarrow> Leaving q))" (is "monitor_inv n m' (f(t := ?q))")
proof -
  obtain k where tok: "token_at n k m f" using inv by (auto simp: monitor_inv_def)
  have kn: "knows m (f t)" using inv t(1) unfolding monitor_inv_def by blast
  have ru: "runs (f t)" using t by (simp add: runs_def)
  have "\<exists>k. token_at n k m' (f(t := ?q))"
  proof (cases p)
    case LCheck
    then show ?thesis
      by (intro token_stay [OF tok t(1) ru]) (use r in \<open>auto simp: monitor_leave_def runs_def split: if_splits\<close>)
  next
    case LNext
    show ?thesis
      by (rule token_give [OF tok t(1) ru, where k' = TNext])
        (use r kn t LNext token_runs(2-4) [OF tok t(1) ru] in \<open>auto simp: monitor_leave_def runs_def knows_def\<close>)
  next
    case LMutex
    show ?thesis
      by (rule token_give [OF tok t(1) ru, where k' = TMutex])
        (use r kn t LMutex token_runs(2-4) [OF tok t(1) ru] in \<open>auto simp: monitor_leave_def runs_def knows_def\<close>)
  qed
  moreover have "0 \<le> next_count m" using inv by (simp add: monitor_inv_def how_many_def)
  ultimately show ?thesis
    using r kn t token_runs(5) [OF tok t(1) ru]
    by (intro monitor_inv_upd [OF inv t(1)]; cases p) (auto simp: monitor_leave_def pc_simps split: if_splits)
qed

lemma mon_step_inv:
  assumes "mon_step n (m, f) (m', f')" and inv: "monitor_inv n m f"
  shows "monitor_inv n m' f'"
proof -
  obtain k where tok: "token_at n k m f" using inv by (auto simp: monitor_inv_def)
  note upd = monitor_inv_upd [OF inv]
  have kn: "knows m (f s)" if "s < n" for s using inv that by (simp add: monitor_inv_def)
  from assms(1) show ?thesis
  proof cases
    case (call t)
    have "\<exists>k. token_at n k m (f(t := Entering))"
      using tok call by (intro exI [of _ k]) (auto simp: token_at_def runs_def)
    then show ?thesis unfolding call by (rule upd [OF call(3)]) (simp_all add: call pc_simps)
  next
    case (enter t)
    have mm: "mt_mutex m = 1" "m' = m\<lparr>mt_mutex := 0\<rparr>" and kk: "k = TMutex"
      using enter tok by (auto simp: monitor_enter_def token_at_def split: if_splits)
    have "\<exists>k. token_at n k m' (f(t := Inside))"
      by (rule token_take [OF tok enter(2)]) (use tok in \<open>auto simp: enter kk mm runs_def token_at_def\<close>)
    then show ?thesis unfolding enter
      by (rule upd [OF enter(2)]) (use tok in \<open>auto simp: enter mm kk pc_simps token_at_def split: thread_pc.splits\<close>)
  next
    case (signal t c)
    have "\<exists>k. token_at n k m (f(t := Signals c SCheck))"
      by (rule token_stay [OF tok signal(3)]) (simp_all add: signal runs_def)
    then show ?thesis unfolding signal by (rule upd [OF signal(3)]) (simp_all add: signal pc_simps)
  next
    case (wait t c)
    have "\<exists>k. token_at n k m (f(t := Waits c WInc))"
      by (rule token_stay [OF tok wait(3)]) (simp_all add: wait runs_def)
    then show ?thesis unfolding wait by (rule upd [OF wait(3)]) (simp_all add: wait pc_simps)
  next
    case (leave t)
    have "\<exists>k. token_at n k m (f(t := Leaving LCheck))"
      by (rule token_stay [OF tok leave(3)]) (simp_all add: leave runs_def)
    then show ?thesis unfolding leave by (rule upd [OF leave(3)]) (simp_all add: leave pc_simps)
  next
    case (signals t c p r)
    show ?thesis unfolding signals(1) by (rule signals_inv [OF inv signals(2-4)])
  next
    case (waits t c p r)
    show ?thesis unfolding waits(1) by (rule waits_inv [OF inv waits(2-4)])
  next
    case (leaves t p r)
    show ?thesis unfolding leaves(1) by (rule leaves_inv [OF inv leaves(2-4)])
  qed
qed

lemma monitor_start: "monitor_init True k = Some m \<Longrightarrow> (\<And>t. t < n \<Longrightarrow> f t = Outside) \<Longrightarrow> monitor_inv n m f"
  by (auto simp: monitor_init_def kassert_def monitor_inv_def token_at_def how_many_def pc_simps
      intro!: exI [of _ TMutex] split: if_splits)

lemma mon_reach_inv: "mon_reach n s \<Longrightarrow> monitor_inv n (fst s) (snd s)"
proof (induction rule: mon_reach.induct)
  case (init k m)
  then show ?case by (auto intro: monitor_start)
next
  case (step s s')
  then show ?case using mon_step_inv by (metis prod.collapse)
qed

text \<open>Whoever holds the token, somebody can use it.\<close>

lemma token_cases:
  assumes inv: "monitor_inv n m f"
  obtains (run) t where "t < n" "runs (f t)" "\<forall>u < n. runs (f u) \<longrightarrow> u = t" "mt_mutex m = 0" "mt_next m = 0" "\<forall>c. cv_sem m c = 0"
  | (mutex) "\<forall>u < n. \<not> runs (f u)" "mt_mutex m = 1" "mt_next m = 0" "\<forall>c. cv_sem m c = 0" "\<forall>u < n. \<forall>c. f u \<noteq> Signals c SDown"
  | (nxt) t c where "\<forall>u < n. \<not> runs (f u)" "mt_mutex m = 0" "mt_next m = 1" "\<forall>c. cv_sem m c = 0" "t < n" "f t = Signals c SDown"
  | (cond) t c where "\<forall>u < n. \<not> runs (f u)" "mt_mutex m = 0" "mt_next m = 0" "cv_sem m c = 1" "\<forall>d. d \<noteq> c \<longrightarrow> cv_sem m d = 0"
      "t < n" "f t = Waits c WDown"
proof -
  obtain k where tok: "token_at n k m f" using inv by (auto simp: monitor_inv_def)
  have nc: "0 < next_count m \<longleftrightarrow> (\<exists>t < n. signaller (f t))" and cc: "0 < cv_count m c \<longleftrightarrow> (\<exists>t < n. waiter c (f t))" for c
    using inv by (simp_all add: monitor_inv_def how_many_pos)
  show ?thesis
  proof (cases k)
    case TMutex
    have "f u \<noteq> Signals c SDown" if "u < n" for u c
    proof
      assume "f u = Signals c SDown"
      then have "0 < next_count m" using nc that by (force simp: signaller_def)
      then show False using tok by (simp add: TMutex token_at_def)
    qed
    with tok show ?thesis by (intro mutex) (auto simp: TMutex token_at_def)
  next
    case TNext
    then obtain t where t: "t < n" "signaller (f t)" "\<not> runs (f t)" using tok nc by (auto simp: token_at_def)
    then obtain c where "f t = Signals c SDown" by (auto simp: signaller_def runs_def split: thread_pc.splits)
    with tok t(1) show ?thesis by (intro nxt [of t c]) (auto simp: TNext token_at_def)
  next
    case (TSem c)
    then obtain t where t: "t < n" "waiter c (f t)" "\<not> runs (f t)" using tok cc [of c] by (auto simp: token_at_def)
    then have "f t = Waits c WDown" by (auto simp: waiter_def runs_def split: thread_pc.splits)
    with tok t(1) show ?thesis by (intro cond [of c t]) (auto simp: TSem token_at_def)
  next
    case (TThread t)
    with tok show ?thesis by (intro run [of t]) (auto simp: token_at_def)
  qed
qed

text \<open>What the thread that runs in the monitor opens when it stops: a signaller the condition, any other one \<open>next\<close>
  when a signaller waits there, and \<open>mutex\<close> otherwise.\<close>

definition hands_over :: "nat \<Rightarrow> (nat \<Rightarrow> thread_pc) \<Rightarrow> thread_pc \<Rightarrow> monitor \<Rightarrow> bool" where
  "hands_over n f q m = (case q of
      Signals c _ \<Rightarrow> 0 < cv_sem m c
    | _ \<Rightarrow> if \<exists>u < n. \<exists>c. f u = Signals c SDown then 0 < mt_next m else 0 < mt_mutex m)"

lemma signallers_wait:
  assumes inv: "monitor_inv n m f" and t: "t < n" "runs (f t)" "\<not> signaller (f t)"
  shows "0 < next_count m \<longleftrightarrow> (\<exists>u < n. \<exists>c. f u = Signals c SDown)"
proof -
  obtain k where tok: "token_at n k m f" using inv by (auto simp: monitor_inv_def)
  have "signaller (f u) \<longleftrightarrow> (\<exists>c. f u = Signals c SDown)" if "u < n" for u
    using token_runs(5) [OF tok t(1,2) that] t(3) by (cases "u = t") (auto simp: runs_def signaller_def split: thread_pc.splits)
  then show ?thesis using inv by (auto simp: monitor_inv_def how_many_pos)
qed

lemma mon_step_hands_over:
  assumes "mon_step n (m, f) (m', f')" and inv: "monitor_inv n m f"
    and t: "t < n" "runs (f t)" "\<not> runs (f' t)"
  shows "hands_over n f (f' t) m'"
proof -
  obtain k where tok: "token_at n k m f" using inv by (auto simp: monitor_inv_def)
  note zero = token_runs(2-4) [OF tok t(1,2)]
  have kn: "knows m (f t)" using inv t(1) by (simp add: monitor_inv_def)
  note wait = signallers_wait [OF inv t(1,2)]
  from assms(1) show ?thesis
  proof cases
    case (signals s c p r)
    then have "s = t" using t by (cases "s = t") auto
    then have "p = SUp" "r = Some SDown" "m' = m\<lparr>cv_sem := (cv_sem m)(c := cv_sem m c + 1)\<rparr>"
      using signals t by (cases p; auto simp: cond_signal_def runs_def split: if_splits)+
    then show ?thesis using signals(1) \<open>s = t\<close> zero by (simp add: hands_over_def)
  next
    case (waits s c p r)
    then have st: "s = t" using t by (cases "s = t") auto
    have r: "r = Some WDown" "m' = (if p = WNext then m\<lparr>mt_next := mt_next m + 1\<rparr> else m\<lparr>mt_mutex := mt_mutex m + 1\<rparr>)"
      and p: "p = WNext \<or> p = WMutex"
      using waits t st by (cases p; auto simp: cond_wait_def runs_def split: if_splits)+
    have "\<not> signaller (f t)" using waits st by (simp add: signaller_def)
    from wait [OF this] show ?thesis using p r waits(1,3) st zero kn by (auto simp: hands_over_def knows_def)
  next
    case (leaves s p r)
    then have st: "s = t" using t by (cases "s = t") auto
    have r: "r = None" "m' = (if p = LNext then m\<lparr>mt_next := mt_next m + 1\<rparr> else m\<lparr>mt_mutex := mt_mutex m + 1\<rparr>)"
      and p: "p = LNext \<or> p = LMutex"
      using leaves t st by (cases p; auto simp: monitor_leave_def runs_def split: if_splits)+
    have "\<not> signaller (f t)" using leaves st by (simp add: signaller_def)
    from wait [OF this] show ?thesis using p r leaves(1,3) st zero kn by (auto simp: hands_over_def knows_def)
  qed (use t in \<open>auto simp: runs_def split: if_splits\<close>)
qed

section \<open>The discipline of a monitor\<close>

text \<open>
  (C30) For any number of threads that use a monitor in any way: at most one of them runs in it, and
  nobody can get in meanwhile. When the running thread stops to let others run, it opens exactly one way
  on. If it signals, a thread that waits for the condition runs next, before any signaller and before any
  thread that enters. If it leaves or waits while signallers wait for their turn, one of them goes on,
  before any thread that enters; with nested signals that need not be the one whose signal woke the
  running thread. Otherwise it opens the monitor. The monitor is open for threads that enter only
  when every thread in it waits for a condition. The right to run is never lost: some thread runs in the
  monitor, or one that sleeps in it has been given its wake-up, or the monitor is open.
\<close>

theorem monitor_discipline:
  assumes "mon_reach n (m, f)"
  shows "(\<forall>t < n. \<forall>u < n. runs (f t) \<longrightarrow> runs (f u) \<longrightarrow> t = u) \<and>
    (\<forall>t < n. runs (f t) \<longrightarrow> mt_mutex m = 0 \<and> mt_next m = 0 \<and> (\<forall>c. cv_sem m c = 0)) \<and>
    (\<forall>c. 0 < cv_sem m c \<longrightarrow> (\<forall>t < n. \<not> runs (f t)) \<and> mt_mutex m = 0 \<and> mt_next m = 0 \<and> (\<forall>d. d \<noteq> c \<longrightarrow> cv_sem m d = 0) \<and>
      (\<exists>t < n. f t = Waits c WDown)) \<and>
    (0 < mt_next m \<longrightarrow> (\<forall>t < n. \<not> runs (f t)) \<and> mt_mutex m = 0 \<and> (\<forall>c. cv_sem m c = 0) \<and> (\<exists>t < n. \<exists>c. f t = Signals c SDown)) \<and>
    (0 < mt_mutex m \<longrightarrow> (\<forall>t < n. f t = Outside \<or> f t = Entering \<or> (\<exists>c. f t = Waits c WDown))) \<and>
    ((\<exists>t < n. runs (f t)) \<or> (\<exists>c. 0 < cv_sem m c) \<or> 0 < mt_next m \<or> 0 < mt_mutex m) \<and>
    (\<forall>t < n. \<forall>m' f'. mon_step n (m, f) (m', f') \<longrightarrow> runs (f t) \<longrightarrow> \<not> runs (f' t) \<longrightarrow> hands_over n f (f' t) m')"
proof -
  have inv: "monitor_inv n m f" using mon_reach_inv [OF assms] by simp
  have h: "\<forall>t < n. \<forall>m' f'. mon_step n (m, f) (m', f') \<longrightarrow> runs (f t) \<longrightarrow> \<not> runs (f' t) \<longrightarrow> hands_over n f (f' t) m'"
    using mon_step_hands_over [OF _ inv] by blast
  from inv show ?thesis
  proof (cases rule: token_cases)
    case mutex
    have "f t = Outside \<or> f t = Entering \<or> (\<exists>c. f t = Waits c WDown)" if "t < n" for t
      using spec [OF mutex(1), of t] mutex(5) that by (cases "f t") (auto simp: runs_def)
    then show ?thesis unfolding eqTrueI [OF h] HOL.simp_thms(21) using mutex by auto
  next
    case (cond t c)
    have pos: "0 < cv_sem m d \<longleftrightarrow> d = c" for d using cond(4,5) by (cases "d = c") auto
    show ?thesis unfolding pos eqTrueI [OF h] HOL.simp_thms(21) using cond(1-3,5-7) by auto
  qed (unfold eqTrueI [OF h] HOL.simp_thms(21), auto)
qed

text \<open>Thread 0 enters and waits on condition variable 0; thread 1 enters and signals it.\<close>

definition two_threads :: "thread_pc \<Rightarrow> thread_pc \<Rightarrow> nat \<Rightarrow> thread_pc" where
  "two_threads a b t = (if t = 0 then a else if t = 1 then b else Outside)"

lemma two_threads_simps [simp]:
  "two_threads a b 0 = a" "two_threads a b 1 = b" "two_threads a b (Suc 0) = b"
  "(two_threads a b)(0 := q) = two_threads q b" "(two_threads a b)(1 := q) = two_threads a q"
  "(two_threads a b)(Suc 0 := q) = two_threads a q"
  by (auto simp: two_threads_def)

lemma two_threads_outside: "two_threads Outside Outside = (\<lambda>_. Outside)"
  by (auto simp: two_threads_def)

definition signalled :: monitor where
  "signalled = \<lparr>mt_mutex = 0, mt_next = 0, next_count = 1, cv_count = (\<lambda>_. 0)(0 := 1), cv_sem = (\<lambda>_. 0)(0 := 1)\<rparr>"

lemma signalled_reach: "mon_reach 2 (signalled, two_threads (Waits 0 WDown) (Signals 0 SDown))"
proof -
  note fun_defs = cond_wait_def cond_signal_def monitor_enter_def
  have "mon_reach 2 (\<lparr>mt_mutex = 1, mt_next = 0, next_count = 0, cv_count = (\<lambda>_. 0), cv_sem = (\<lambda>_. 0)\<rparr>, two_threads Outside Outside)"
    using mon_reach.init [of 1 _ 2] by (simp add: monitor_init_def two_threads_outside)
  from mon_reach.step [OF this mon_step.call [where t = 0]]
  have "mon_reach 2 (\<lparr>mt_mutex = 1, mt_next = 0, next_count = 0, cv_count = (\<lambda>_. 0), cv_sem = (\<lambda>_. 0)\<rparr>, two_threads Entering Outside)" by (simp add: fun_defs)
  from mon_reach.step [OF this mon_step.enter [where t = 0 and m' = "\<lparr>mt_mutex = 0, mt_next = 0, next_count = 0, cv_count = (\<lambda>_. 0), cv_sem = (\<lambda>_. 0)\<rparr>"]]
  have "mon_reach 2 (\<lparr>mt_mutex = 0, mt_next = 0, next_count = 0, cv_count = (\<lambda>_. 0), cv_sem = (\<lambda>_. 0)\<rparr>, two_threads Inside Outside)" by (simp add: fun_defs)
  from mon_reach.step [OF this mon_step.wait [where t = 0 and c = 0]]
  have "mon_reach 2 (\<lparr>mt_mutex = 0, mt_next = 0, next_count = 0, cv_count = (\<lambda>_. 0), cv_sem = (\<lambda>_. 0)\<rparr>, two_threads (Waits 0 WInc) Outside)" by (simp add: fun_defs)
  from mon_reach.step [OF this mon_step.waits [where t = 0 and c = 0 and p = WInc and r = "Some WCheck" and m' = "\<lparr>mt_mutex = 0, mt_next = 0, next_count = 0, cv_count = (\<lambda>_. 0)(0 := 1), cv_sem = (\<lambda>_. 0)\<rparr>"]]
  have "mon_reach 2 (\<lparr>mt_mutex = 0, mt_next = 0, next_count = 0, cv_count = (\<lambda>_. 0)(0 := 1), cv_sem = (\<lambda>_. 0)\<rparr>, two_threads (Waits 0 WCheck) Outside)" by (simp add: fun_defs)
  from mon_reach.step [OF this mon_step.waits [where t = 0 and c = 0 and p = WCheck and r = "Some WMutex" and m' = "\<lparr>mt_mutex = 0, mt_next = 0, next_count = 0, cv_count = (\<lambda>_. 0)(0 := 1), cv_sem = (\<lambda>_. 0)\<rparr>"]]
  have "mon_reach 2 (\<lparr>mt_mutex = 0, mt_next = 0, next_count = 0, cv_count = (\<lambda>_. 0)(0 := 1), cv_sem = (\<lambda>_. 0)\<rparr>, two_threads (Waits 0 WMutex) Outside)" by (simp add: fun_defs)
  from mon_reach.step [OF this mon_step.waits [where t = 0 and c = 0 and p = WMutex and r = "Some WDown" and m' = "\<lparr>mt_mutex = 1, mt_next = 0, next_count = 0, cv_count = (\<lambda>_. 0)(0 := 1), cv_sem = (\<lambda>_. 0)\<rparr>"]]
  have "mon_reach 2 (\<lparr>mt_mutex = 1, mt_next = 0, next_count = 0, cv_count = (\<lambda>_. 0)(0 := 1), cv_sem = (\<lambda>_. 0)\<rparr>, two_threads (Waits 0 WDown) Outside)" by (simp add: fun_defs)
  from mon_reach.step [OF this mon_step.call [where t = 1]]
  have "mon_reach 2 (\<lparr>mt_mutex = 1, mt_next = 0, next_count = 0, cv_count = (\<lambda>_. 0)(0 := 1), cv_sem = (\<lambda>_. 0)\<rparr>, two_threads (Waits 0 WDown) Entering)" by (simp add: fun_defs)
  from mon_reach.step [OF this mon_step.enter [where t = 1 and m' = "\<lparr>mt_mutex = 0, mt_next = 0, next_count = 0, cv_count = (\<lambda>_. 0)(0 := 1), cv_sem = (\<lambda>_. 0)\<rparr>"]]
  have "mon_reach 2 (\<lparr>mt_mutex = 0, mt_next = 0, next_count = 0, cv_count = (\<lambda>_. 0)(0 := 1), cv_sem = (\<lambda>_. 0)\<rparr>, two_threads (Waits 0 WDown) Inside)" by (simp add: fun_defs)
  from mon_reach.step [OF this mon_step.signal [where t = 1 and c = 0]]
  have "mon_reach 2 (\<lparr>mt_mutex = 0, mt_next = 0, next_count = 0, cv_count = (\<lambda>_. 0)(0 := 1), cv_sem = (\<lambda>_. 0)\<rparr>, two_threads (Waits 0 WDown) (Signals 0 SCheck))" by (simp add: fun_defs)
  from mon_reach.step [OF this mon_step.signals [where t = 1 and c = 0 and p = SCheck and r = "Some SInc" and m' = "\<lparr>mt_mutex = 0, mt_next = 0, next_count = 0, cv_count = (\<lambda>_. 0)(0 := 1), cv_sem = (\<lambda>_. 0)\<rparr>"]]
  have "mon_reach 2 (\<lparr>mt_mutex = 0, mt_next = 0, next_count = 0, cv_count = (\<lambda>_. 0)(0 := 1), cv_sem = (\<lambda>_. 0)\<rparr>, two_threads (Waits 0 WDown) (Signals 0 SInc))" by (simp add: fun_defs)
  from mon_reach.step [OF this mon_step.signals [where t = 1 and c = 0 and p = SInc and r = "Some SUp" and m' = "\<lparr>mt_mutex = 0, mt_next = 0, next_count = 1, cv_count = (\<lambda>_. 0)(0 := 1), cv_sem = (\<lambda>_. 0)\<rparr>"]]
  have "mon_reach 2 (\<lparr>mt_mutex = 0, mt_next = 0, next_count = 1, cv_count = (\<lambda>_. 0)(0 := 1), cv_sem = (\<lambda>_. 0)\<rparr>, two_threads (Waits 0 WDown) (Signals 0 SUp))" by (simp add: fun_defs)
  from mon_reach.step [OF this mon_step.signals [where t = 1 and c = 0 and p = SUp and r = "Some SDown" and m' = "\<lparr>mt_mutex = 0, mt_next = 0, next_count = 1, cv_count = (\<lambda>_. 0)(0 := 1), cv_sem = (\<lambda>_. 0)(0 := 1)\<rparr>"]]
  have "mon_reach 2 (\<lparr>mt_mutex = 0, mt_next = 0, next_count = 1, cv_count = (\<lambda>_. 0)(0 := 1), cv_sem = (\<lambda>_. 0)(0 := 1)\<rparr>, two_threads (Waits 0 WDown) (Signals 0 SDown))" by (simp add: fun_defs)
  then show ?thesis by (simp add: signalled_def)
qed

theorem monitor_discipline_witness: "0 < cv_sem signalled 0 \<and> mt_mutex signalled = 0"
  using monitor_discipline [OF signalled_reach] by (simp add: signalled_def)

end
