(* ===== verification/PhilosophersCV.thy ===== *)
theory PhilosophersCV
  imports Philosophers Monitor
begin

text \<open>
  The dining philosophers of \<open>lab8/kern/sync/check_sync.c\<close>, the version with a monitor and condition
  variables. As in \<open>Philosophers\<close> a step is one statement of one philosopher; inside \<open>cond_signal\<close>,
  \<open>cond_wait\<close> and the end of a routine it is a statement of these functions of \<open>Monitor\<close>. Seen from the
  monitor a philosopher is one of its threads, so the discipline proved there holds here.
\<close>

section \<open>The code\<close>

datatype cv_pc = CLoop | CEnter | CSet | CTest | CSig sig_pc | CIf | CWait wait_pc | CLeave leave_pc | CEat
  | PEnter | PSet | PTestL | PSigL sig_pc | PTestR | PSigR sig_pc | PLeave leave_pc | CQuit

record cv_phil =
  state_condvar :: "nat \<Rightarrow> phil_state"
  mt :: monitor
  cpc :: "nat \<Rightarrow> cv_pc"
  citer :: "nat \<Rightarrow> nat"

text \<open>\<open>phi_test_condvar\<close> up to its call of \<open>cond_signal\<close>; the first part of the result says whether it calls it.\<close>

definition phi_test_condvar :: "nat \<Rightarrow> (nat \<Rightarrow> phil_state) \<Rightarrow> bool \<times> (nat \<Rightarrow> phil_state)" where
  "phi_test_condvar i st =
     (if st i = HUNGRY \<and> st (LEFT i) \<noteq> EATING \<and> st (RIGHT i) \<noteq> EATING then (True, st(i := EATING)) else (False, st))"

definition cgoto :: "nat \<Rightarrow> cv_pc \<Rightarrow> cv_phil \<Rightarrow> cv_phil" where
  "cgoto i q s = s\<lparr>cpc := (cpc s)(i := q)\<rparr>"

text \<open>The functions that philosopher \<open>i\<close> calls; \<open>q\<close> is where it goes on when they return.\<close>

definition do_test :: "nat \<Rightarrow> nat \<Rightarrow> cv_pc \<Rightarrow> cv_pc \<Rightarrow> cv_phil \<Rightarrow> cv_phil option" where
  "do_test i k sig q s =
     (let (b, st) = phi_test_condvar k (state_condvar s) in
      Some (cgoto i (if b then sig else q) (s\<lparr>state_condvar := st\<rparr>)))"

definition do_enter :: "nat \<Rightarrow> cv_pc \<Rightarrow> cv_phil \<Rightarrow> cv_phil option" where
  "do_enter i q s = map_option (\<lambda>m. cgoto i q (s\<lparr>mt := m\<rparr>)) (monitor_enter (mt s))"

definition do_signal :: "nat \<Rightarrow> nat \<Rightarrow> sig_pc \<Rightarrow> (sig_pc \<Rightarrow> cv_pc) \<Rightarrow> cv_pc \<Rightarrow> cv_phil \<Rightarrow> cv_phil option" where
  "do_signal i k p sig q s =
     map_option (\<lambda>(r, m). cgoto i (case r of None \<Rightarrow> q | Some p \<Rightarrow> sig p) (s\<lparr>mt := m\<rparr>)) (cond_signal k p (mt s))"

definition do_wait_cv :: "nat \<Rightarrow> nat \<Rightarrow> wait_pc \<Rightarrow> cv_pc \<Rightarrow> cv_phil \<Rightarrow> cv_phil option" where
  "do_wait_cv i k p q s =
     map_option (\<lambda>(r, m). cgoto i (case r of None \<Rightarrow> q | Some p \<Rightarrow> CWait p) (s\<lparr>mt := m\<rparr>)) (cond_wait k p (mt s))"

definition do_leave :: "nat \<Rightarrow> leave_pc \<Rightarrow> (leave_pc \<Rightarrow> cv_pc) \<Rightarrow> cv_pc \<Rightarrow> cv_phil \<Rightarrow> cv_phil option" where
  "do_leave i p lv q s =
     (let (r, m) = monitor_leave p (mt s) in Some (cgoto i (case r of None \<Rightarrow> q | Some p \<Rightarrow> lv p) (s\<lparr>mt := m\<rparr>)))"

definition set_state :: "nat \<Rightarrow> phil_state \<Rightarrow> cv_phil \<Rightarrow> cv_phil" where
  "set_state i a s = s\<lparr>state_condvar := (state_condvar s)(i := a)\<rparr>"

definition phi_take_forks_condvar :: "nat \<Rightarrow> cv_phil \<Rightarrow> cv_phil option" where
  "phi_take_forks_condvar i s =
     (case cpc s i of
        CEnter \<Rightarrow> do_enter i CSet s
      | CSet \<Rightarrow> Some (cgoto i CTest (set_state i HUNGRY s))
      | CTest \<Rightarrow> do_test i i (CSig SCheck) CIf s
      | CSig p \<Rightarrow> do_signal i i p CSig CIf s
      | CIf \<Rightarrow> Some (cgoto i (if state_condvar s i = HUNGRY then CWait WInc else CLeave LCheck) s)
      | CWait p \<Rightarrow> do_wait_cv i i p (CLeave LCheck) s
      | CLeave p \<Rightarrow> do_leave i p CLeave CEat s
      | _ \<Rightarrow> None)"

definition phi_put_forks_condvar :: "nat \<Rightarrow> cv_phil \<Rightarrow> cv_phil option" where
  "phi_put_forks_condvar i s =
     (case cpc s i of
        PEnter \<Rightarrow> do_enter i PSet s
      | PSet \<Rightarrow> Some (cgoto i PTestL (set_state i THINKING s))
      | PTestL \<Rightarrow> do_test i (LEFT i) (PSigL SCheck) PTestR s
      | PSigL p \<Rightarrow> do_signal i (LEFT i) p PSigL PTestR s
      | PTestR \<Rightarrow> do_test i (RIGHT i) (PSigR SCheck) (PLeave LCheck) s
      | PSigR p \<Rightarrow> do_signal i (RIGHT i) p PSigR (PLeave LCheck) s
      | PLeave p \<Rightarrow> do_leave i p PLeave CLoop s
      | _ \<Rightarrow> None)"

text \<open>The next statement of philosopher \<open>i\<close>; \<open>None\<close> if it has to wait or has quit.\<close>

definition philosopher_using_condvar :: "nat \<Rightarrow> cv_phil \<Rightarrow> cv_phil option" where
  "philosopher_using_condvar i s =
     (case cpc s i of
        CLoop \<Rightarrow>
          Some (cgoto i (if citer s i < TIMES then CEnter else CQuit) (s\<lparr>citer := (citer s)(i := citer s i + 1)\<rparr>))
      | CEat \<Rightarrow> Some (cgoto i PEnter s)
      | CQuit \<Rightarrow> None
      | q \<Rightarrow> (case phi_take_forks_condvar i s of None \<Rightarrow> phi_put_forks_condvar i s | Some s' \<Rightarrow> Some s'))"

text \<open>The state in which \<open>check_sync\<close> starts the threads, after \<open>monitor_init\<close>.\<close>

definition check_sync_condvar_start :: "cv_phil option" where
  "check_sync_condvar_start = map_option
     (\<lambda>m. \<lparr>state_condvar = (\<lambda>_. THINKING), mt = m, cpc = (\<lambda>_. CLoop), citer = (\<lambda>_. 0)\<rparr>) (monitor_init True N)"

inductive cv_step :: "cv_phil \<Rightarrow> cv_phil \<Rightarrow> bool" where
  step: "i < N \<Longrightarrow> philosopher_using_condvar i s = Some s' \<Longrightarrow> cv_step s s'"

inductive cv_reach :: "nat \<Rightarrow> cv_phil \<Rightarrow> bool" where
  start: "check_sync_condvar_start = Some s \<Longrightarrow> cv_reach 0 s"
| next_step: "cv_reach n s \<Longrightarrow> cv_step s s' \<Longrightarrow> cv_reach (Suc n) s'"

section \<open>Philosophers as threads of the monitor\<close>

primrec thread_of :: "nat \<Rightarrow> cv_pc \<Rightarrow> thread_pc" where
  "thread_of i CLoop = Outside" | "thread_of i CEnter = Entering" | "thread_of i CSet = Inside"
| "thread_of i CTest = Inside" | "thread_of i (CSig p) = Signals i p" | "thread_of i CIf = Inside"
| "thread_of i (CWait p) = Waits i p" | "thread_of i (CLeave p) = Leaving p" | "thread_of i CEat = Outside"
| "thread_of i PEnter = Entering" | "thread_of i PSet = Inside" | "thread_of i PTestL = Inside"
| "thread_of i (PSigL p) = Signals (LEFT i) p" | "thread_of i PTestR = Inside"
| "thread_of i (PSigR p) = Signals (RIGHT i) p" | "thread_of i (PLeave p) = Leaving p" | "thread_of i CQuit = Outside"

definition threads :: "cv_phil \<Rightarrow> nat \<Rightarrow> thread_pc" where
  "threads s i = thread_of i (cpc s i)"

lemmas cv_defs = philosopher_using_condvar_def phi_take_forks_condvar_def phi_put_forks_condvar_def do_test_def do_enter_def
  do_signal_def do_wait_cv_def do_leave_def set_state_def cgoto_def

definition minv :: "cv_phil \<Rightarrow> bool" where
  "minv s \<longleftrightarrow> monitor_inv N (mt s) (threads s)"

lemma cgoto_simps [simp]:
  "state_condvar (cgoto i q s) = state_condvar s" "mt (cgoto i q s) = mt s" "cpc (cgoto i q s) = (cpc s)(i := q)"
  "citer (cgoto i q s) = citer s" "threads (cgoto i q s) = (threads s)(i := thread_of i q)"
  "threads (s\<lparr>mt := m\<rparr>) = threads s" "threads (s\<lparr>state_condvar := st\<rparr>) = threads s" "threads (s\<lparr>citer := n\<rparr>) = threads s"
  by (auto simp: cgoto_def threads_def)

lemma minv_inside:
  assumes "minv s" and i: "i < N" and "threads s i = Inside" and q: "q \<in> {Inside, Leaving LCheck}"
  shows "monitor_inv N (mt s) ((threads s)(i := q))"
  using assms mon_step_inv [OF mon_step.leave [where f = "threads s", OF i]] fun_upd_triv [of "threads s" i]
  by (auto simp: minv_def)

lemma minv_inside':
  assumes inv: "monitor_inv N m (f(i := Inside))" and i: "i < N" and q: "q \<in> {Inside, Leaving LCheck}"
  shows "monitor_inv N m (f(i := q))"
  using mon_step_inv [OF mon_step.leave [where f = "f(i := Inside)" and t = i and m = m, OF i] inv] inv q by auto

lemma do_enter_inv:
  assumes "do_enter i q s = Some s'" and "minv s" and "i < N" and "threads s i = Entering" and "thread_of i q = Inside"
  shows "minv s'"
  using assms mon_step_inv [OF mon_step.enter, of i N "threads s" "mt s"]
  by (auto simp: do_enter_def minv_def)

lemma do_test_inv:
  assumes "do_test i k sig q s = Some s'" and "minv s" and i: "i < N" and t: "threads s i = Inside"
    and "thread_of i sig = Signals k SCheck" and "thread_of i q \<in> {Inside, Leaving LCheck}"
  shows "minv s'"
  using assms mon_step_inv [OF mon_step.signal, of i N "threads s" "mt s" k] minv_inside [OF assms(2) i t assms(6)]
  by (auto simp: do_test_def minv_def split: prod.splits if_splits)

lemma do_signal_inv:
  assumes "do_signal i k p sig q s = Some s'" and "minv s" and i: "i < N" and t: "threads s i = Signals k p"
    and sig: "\<And>p. thread_of i (sig p) = Signals k p" and q: "thread_of i q \<in> {Inside, Leaving LCheck}"
  shows "minv s'"
proof -
  obtain r m where r: "cond_signal k p (mt s) = Some (r, m)"
    and s': "s' = cgoto i (case r of None \<Rightarrow> q | Some p \<Rightarrow> sig p) (s\<lparr>mt := m\<rparr>)"
    using assms(1) by (auto simp: do_signal_def)
  have "monitor_inv N m ((threads s)(i := case r of None \<Rightarrow> Inside | Some q \<Rightarrow> Signals k q))"
    using signals_inv [where f = "threads s", OF _ i t r] assms(2) by (simp add: minv_def)
  then show ?thesis using minv_inside' [OF _ i q] by (cases r) (auto simp: s' minv_def sig)
qed

lemma do_wait_inv:
  assumes "do_wait_cv i k p q s = Some s'" and "minv s" and i: "i < N" and t: "threads s i = Waits k p"
    and k: "k = i" and q: "thread_of i q \<in> {Inside, Leaving LCheck}"
  shows "minv s'"
proof -
  obtain r m where r: "cond_wait k p (mt s) = Some (r, m)"
    and s': "s' = cgoto i (case r of None \<Rightarrow> q | Some p \<Rightarrow> CWait p) (s\<lparr>mt := m\<rparr>)"
    using assms(1) by (auto simp: do_wait_cv_def)
  have "monitor_inv N m ((threads s)(i := case r of None \<Rightarrow> Inside | Some q \<Rightarrow> Waits k q))"
    using waits_inv [where f = "threads s", OF _ i t r] assms(2) by (simp add: minv_def)
  then show ?thesis using minv_inside' [OF _ i q] by (cases r) (auto simp: s' minv_def k)
qed

lemma do_leave_inv:
  assumes "do_leave i p lv q s = Some s'" and "minv s" and i: "i < N" and t: "threads s i = Leaving p"
    and lv: "\<And>p. thread_of i (lv p) = Leaving p" and q: "thread_of i q = Outside"
  shows "minv s'"
proof -
  obtain r m where r: "monitor_leave p (mt s) = (r, m)"
    and s': "s' = cgoto i (case r of None \<Rightarrow> q | Some p \<Rightarrow> lv p) (s\<lparr>mt := m\<rparr>)"
    using assms(1) by (auto simp: do_leave_def split: prod.splits)
  have "monitor_inv N m ((threads s)(i := case r of None \<Rightarrow> Outside | Some q \<Rightarrow> Leaving q))"
    using leaves_inv [where f = "threads s", OF _ i t r] assms(2) by (simp add: minv_def)
  then show ?thesis by (cases r) (auto simp: s' minv_def lv q)
qed

lemmas cv_pc_defs = philosopher_using_condvar_def phi_take_forks_condvar_def phi_put_forks_condvar_def

lemma thread_cong: "thread_of i (cpc s i) = q \<Longrightarrow> (threads s)(i := q) = threads s"
  by (auto simp: threads_def)

lemma minv_step:
  assumes run: "philosopher_using_condvar i s = Some s'" and inv: "minv s" and i: "i < N"
  shows "minv s'"
proof -
  have t: "threads s i = thread_of i (cpc s i)" by (simp add: threads_def)
  have call: "monitor_inv N (mt s) ((threads s)(i := Entering))" if "threads s i = Outside"
    using mon_step_inv [OF mon_step.call, of i N "threads s" "mt s"] that i inv by (simp add: minv_def)
  show ?thesis
  proof (cases "cpc s i")
    case CLoop
    then show ?thesis
      using run inv call t thread_cong [of i s Outside] by (cases "citer s i < TIMES") (auto simp: cv_pc_defs minv_def)
  next
    case CEnter
    then have "do_enter i CSet s = Some s'" using run by (auto simp: cv_pc_defs split: option.splits)
    then show ?thesis by (rule do_enter_inv) (use CEnter inv i t in auto)
  next
    case (CWait p)
    then have "do_wait_cv i i p (CLeave LCheck) s = Some s'"
      using run by (auto simp: cv_pc_defs split: option.splits)
    then show ?thesis by (rule do_wait_inv) (use CWait inv i t in auto)
  next
    case CEat
    then show ?thesis using run inv call t by (auto simp: cv_pc_defs minv_def)
  next
    case CIf
    then have t': "threads s i = Inside" using t by simp
    have "monitor_inv N (mt s) ((threads s)(i := Waits i WInc))"
      using mon_step_inv [OF mon_step.wait, of i N "threads s" "mt s" i] t' i inv by (simp add: minv_def)
    then show ?thesis
      using run minv_inside [OF inv i t', of "Leaving LCheck"] CIf
      by (cases "state_condvar s i = HUNGRY") (auto simp: cv_pc_defs minv_def)
  next
    case CSet
    then show ?thesis using run inv t thread_cong [of i s Inside] by (auto simp: cv_pc_defs minv_def set_state_def)
  next
    case PSet
    then show ?thesis using run inv t thread_cong [of i s Inside] by (auto simp: cv_pc_defs minv_def set_state_def)
  next
    case CTest
    then have "do_test i i (CSig SCheck) CIf s = Some s'" using run by (auto simp: cv_pc_defs split: option.splits)
    then show ?thesis by (rule do_test_inv) (use CTest inv i t in auto)
  next
    case (CSig p)
    then have "do_signal i i p CSig CIf s = Some s'" using run by (auto simp: cv_pc_defs split: option.splits)
    then show ?thesis by (rule do_signal_inv) (use CSig inv i t in auto)
  next
    case (CLeave p)
    then have "do_leave i p CLeave CEat s = Some s'" using run by (auto simp: cv_pc_defs split: option.splits)
    then show ?thesis by (rule do_leave_inv) (use CLeave inv i t in auto)
  next
    case PEnter
    then have "do_enter i PSet s = Some s'" using run by (auto simp: cv_pc_defs split: option.splits)
    then show ?thesis by (rule do_enter_inv) (use PEnter inv i t in auto)
  next
    case PTestL
    then have "do_test i (LEFT i) (PSigL SCheck) PTestR s = Some s'" using run by (auto simp: cv_pc_defs split: option.splits)
    then show ?thesis by (rule do_test_inv) (use PTestL inv i t in auto)
  next
    case (PSigL p)
    then have "do_signal i (LEFT i) p PSigL PTestR s = Some s'" using run by (auto simp: cv_pc_defs split: option.splits)
    then show ?thesis by (rule do_signal_inv) (use PSigL inv i t in auto)
  next
    case PTestR
    then have "do_test i (RIGHT i) (PSigR SCheck) (PLeave LCheck) s = Some s'" using run by (auto simp: cv_pc_defs split: option.splits)
    then show ?thesis by (rule do_test_inv) (use PTestR inv i t in auto)
  next
    case (PSigR p)
    then have "do_signal i (RIGHT i) p PSigR (PLeave LCheck) s = Some s'" using run by (auto simp: cv_pc_defs split: option.splits)
    then show ?thesis by (rule do_signal_inv) (use PSigR inv i t in auto)
  next
    case (PLeave p)
    then have "do_leave i p PLeave CLoop s = Some s'" using run by (auto simp: cv_pc_defs split: option.splits)
    then show ?thesis by (rule do_leave_inv) (use PLeave inv i t in auto)
  next
    case CQuit
    then show ?thesis using run by (simp add: cv_pc_defs)
  qed
qed

section \<open>The invariant\<close>

primrec cphase :: "cv_pc \<Rightarrow> phil_state \<Rightarrow> bool" where
  "cphase CLoop a = (a = THINKING)" | "cphase CEnter a = (a = THINKING)" | "cphase CSet a = (a = THINKING)"
| "cphase CTest a = (a = HUNGRY)" | "cphase (CSig p) a = (a = EATING)" | "cphase CIf a = (a \<noteq> THINKING)"
| "cphase (CWait p) a = (if p = WDown then a \<noteq> THINKING else if p = WDec then a = EATING else a = HUNGRY)"
| "cphase (CLeave p) a = (a = EATING)" | "cphase CEat a = (a = EATING)" | "cphase PEnter a = (a = EATING)"
| "cphase PSet a = (a = EATING)" | "cphase PTestL a = (a = THINKING)" | "cphase (PSigL p) a = (a = THINKING)"
| "cphase PTestR a = (a = THINKING)" | "cphase (PSigR p) a = (a = THINKING)" | "cphase (PLeave p) a = (a = THINKING)"
| "cphase CQuit a = (a = THINKING)"

text \<open>Whom philosopher \<open>i\<close> is about to wake.\<close>

definition early :: "nat \<Rightarrow> sig_pc \<Rightarrow> nat option" where
  "early k p = (if p \<in> {SCheck, SInc, SUp} then Some k else None)"

definition sig_target :: "nat \<Rightarrow> cv_pc \<Rightarrow> nat option" where
  "sig_target i q = (case q of CSig p \<Rightarrow> early i p | PSigL p \<Rightarrow> early (LEFT i) p | PSigR p \<Rightarrow> early (RIGHT i) p | _ \<Rightarrow> None)"

text \<open>Why a hungry philosopher that waits will be woken.\<close>

definition cawaited :: "(nat \<Rightarrow> phil_state) \<Rightarrow> (nat \<Rightarrow> cv_pc) \<Rightarrow> nat \<Rightarrow> bool" where
  "cawaited st f i \<longleftrightarrow> st (LEFT i) = EATING \<or> st (RIGHT i) = EATING \<or>
     f (RIGHT i) = PTestL \<or> f (LEFT i) \<in> {PTestL, PTestR} \<or> (\<exists>p. f (LEFT i) = PSigL p)"

definition hungry_pc :: "cv_pc \<Rightarrow> bool" where
  "hungry_pc q = (case q of CIf \<Rightarrow> True | CWait p \<Rightarrow> True | _ \<Rightarrow> False)"

definition capart :: "(nat \<Rightarrow> phil_state) \<Rightarrow> bool" where
  "capart st \<longleftrightarrow> (\<forall>i < N. \<not> (st i = EATING \<and> st (RIGHT i) = EATING))"

definition states_ok :: "(nat \<Rightarrow> phil_state) \<Rightarrow> (nat \<Rightarrow> cv_pc) \<Rightarrow> bool" where
  "states_ok st f \<longleftrightarrow> capart st \<and> (\<forall>i < N. cphase (f i) (st i)) \<and>
     (\<forall>i < N. hungry_pc (f i) \<longrightarrow> st i = HUNGRY \<longrightarrow> cawaited st f i)"

text \<open>A philosopher that eats and still sleeps on its condition variable has been woken or is about to be.\<close>

definition wakes_ok :: "(nat \<Rightarrow> nat) \<Rightarrow> (nat \<Rightarrow> phil_state) \<Rightarrow> (nat \<Rightarrow> cv_pc) \<Rightarrow> bool" where
  "wakes_ok sem st f \<longleftrightarrow> (\<forall>k < N. 0 < sem k \<or> (\<exists>j < N. sig_target j (f j) = Some k) \<longrightarrow> st k = EATING) \<and>
     (\<forall>k < N. f k = CWait WDown \<longrightarrow> st k = EATING \<longrightarrow> 0 < sem k \<or> (\<exists>j < N. sig_target j (f j) = Some k))"

definition cv_inv :: "cv_phil \<Rightarrow> bool" where
  "cv_inv s \<longleftrightarrow> minv s \<and> states_ok (state_condvar s) (cpc s) \<and> wakes_ok (cv_sem (mt s)) (state_condvar s) (cpc s)"

lemma states_quiet:
  assumes ok: "states_ok st f" and i: "i < N" and ph: "cphase (f i) (st i) \<Longrightarrow> cphase q (st i)"
    and hu: "hungry_pc q \<Longrightarrow> st i = HUNGRY \<Longrightarrow> hungry_pc (f i)"
    and aw: "f i \<noteq> PTestL" "f i \<noteq> PTestR" "\<And>p. f i = PSigL p \<Longrightarrow> q = PTestR \<or> (\<exists>p. q = PSigL p)"
  shows "states_ok st (f(i := q))"
proof -
  have "cawaited st (f(i := q)) j" if "cawaited st f j" for j
    using that aw unfolding cawaited_def by (auto simp: fun_upd_def)
  then show ?thesis using ok ph hu i by (auto simp: states_ok_def)
qed

lemma wakes_quiet:
  assumes ok: "wakes_ok sem st f" and i: "i < N"
    and sem: "\<And>k. 0 < sem' k \<Longrightarrow> 0 < sem k \<or> sig_target i (f i) = Some k"
      "\<And>k. k < N \<Longrightarrow> 0 < sem k \<Longrightarrow> 0 < sem' k \<or> k = i \<and> q \<noteq> CWait WDown"
    and tg: "\<And>k. sig_target i q = Some k \<Longrightarrow> sig_target i (f i) = Some k"
      "\<And>k. k < N \<Longrightarrow> sig_target i (f i) = Some k \<Longrightarrow> sig_target i q = Some k \<or> 0 < sem' k \<or> f k \<noteq> CWait WDown"
    and qd: "q = CWait WDown \<Longrightarrow> st i = HUNGRY"
  shows "wakes_ok sem' st (f(i := q))"
proof -
  have a: "st k = EATING" if k: "k < N" and h: "0 < sem' k \<or> (\<exists>j < N. sig_target j ((f(i := q)) j) = Some k)" for k
  proof -
    have "0 < sem k \<or> (\<exists>j < N. sig_target j (f j) = Some k)"
      using h sem(1) [of k] tg(1) [of k] i by (metis fun_upd_apply)
    then show ?thesis using ok k unfolding wakes_ok_def by blast
  qed
  have b: "0 < sem' k \<or> (\<exists>j < N. sig_target j ((f(i := q)) j) = Some k)"
    if k: "k < N" "(f(i := q)) k = CWait WDown" "st k = EATING" for k
  proof -
    have ki: "k \<noteq> i" using k qd by auto
    then have "f k = CWait WDown" using k(2) by simp
    then have "0 < sem k \<or> (\<exists>j < N. sig_target j (f j) = Some k)" using ok k unfolding wakes_ok_def by blast
    then show ?thesis using sem(2) [of k] tg(2) [of k] ki k(1) i \<open>f k = CWait WDown\<close> by (metis fun_upd_apply)
  qed
  show ?thesis unfolding wakes_ok_def using a b by blast
qed

lemma capart_test:
  assumes "capart st" and k: "k < N" and "st (LEFT k) \<noteq> EATING" "st (RIGHT k) \<noteq> EATING"
  shows "capart (st(k := EATING))"
  unfolding capart_def
proof (intro allI impI)
  fix j assume j: "j < N"
  have "j = LEFT k" if "RIGHT j = k" using that neighbours(3) [OF j] by simp
  then show "\<not> ((st(k := EATING)) j = EATING \<and> (st(k := EATING)) (RIGHT j) = EATING)"
    using assms j neighbours [OF k] by (auto simp: capart_def)
qed

text \<open>The three calls of \<open>phi_test_condvar\<close>: whom it is about, and where the caller goes on.\<close>

inductive tests :: "nat \<Rightarrow> cv_pc \<Rightarrow> nat \<Rightarrow> cv_pc \<Rightarrow> cv_pc \<Rightarrow> bool" where
  "tests i CTest i (CSig SCheck) CIf"
| "tests i PTestL (LEFT i) (PSigL SCheck) PTestR"
| "tests i PTestR (RIGHT i) (PSigR SCheck) (PLeave LCheck)"

lemma test_states:
  assumes ok: "states_ok st f" and i: "i < N" and t: "tests i (f i) k sig q" and r: "phi_test_condvar k st = (b, st')"
    and k: "k \<noteq> i \<Longrightarrow> st k = HUNGRY \<Longrightarrow> f k = CWait WDown"
  shows "states_ok st' (f(i := if b then sig else q))"
proof -
  have kN: "k < N" using t neighbours [OF i] i by (auto elim: tests.cases)
  note ap = capart_test [OF _ kN]
  have mono: "st j = EATING \<Longrightarrow> st' j = EATING" for j using r by (auto simp: phi_test_condvar_def split: if_splits)
  have ph: "cphase ((f(i := if b then sig else q)) j) (st' j)" if j: "j < N" for j
    using ok r k j t unfolding states_ok_def
    by (cases "j = i"; cases "j = k") (auto elim!: tests.cases simp: phi_test_condvar_def neighbours [OF i] split: if_splits)
  have aw: "cawaited st' (f(i := if b then sig else q)) j"
    if j: "j < N" "hungry_pc ((f(i := if b then sig else q)) j)" "st' j = HUNGRY" for j
  proof (cases "j = k")
    case True
    then have "\<not> b" "st' = st" using j r by (auto simp: phi_test_condvar_def split: if_splits)
    then show ?thesis using j True r by (auto simp: phi_test_condvar_def cawaited_def split: if_splits)
  next
    case False
    have "j \<noteq> i" using j(2) t False by (auto elim!: tests.cases simp: hungry_pc_def split: if_splits)
    moreover have "st j = HUNGRY" using j(3) r False by (auto simp: phi_test_condvar_def split: if_splits)
    ultimately have "cawaited st f j" using ok j by (auto simp: states_ok_def)
    moreover have "RIGHT j = i \<Longrightarrow> f i \<noteq> PTestL" "LEFT j = i \<Longrightarrow> f i \<noteq> PTestR"
      using False t neighbours [OF j(1)] by (auto elim!: tests.cases)
    ultimately show ?thesis using mono t unfolding cawaited_def by (auto elim!: tests.cases simp: fun_upd_def)
  qed
  have "capart st'" using ok ap r by (auto simp: states_ok_def phi_test_condvar_def split: if_splits)
  then show ?thesis using ph aw by (simp add: states_ok_def)
qed

lemma test_wakes:
  assumes ok: "wakes_ok sem st f" and i: "i < N" and t: "tests i (f i) k sig q" and r: "phi_test_condvar k st = (b, st')"
  shows "wakes_ok sem st' (f(i := if b then sig else q))"
proof (cases b)
  case False
  then have "st' = st" using r by (auto simp: phi_test_condvar_def split: if_splits)
  then show ?thesis using False t
    by (auto intro!: wakes_quiet [OF ok i] elim!: tests.cases simp: sig_target_def)
next
  case True
  then have st': "st' = st(k := EATING)" and tg: "sig_target i sig = Some k" "sig_target i (f i) = None" "sig \<noteq> CWait WDown"
    using r t by (auto simp: phi_test_condvar_def sig_target_def early_def elim!: tests.cases split: if_splits)
  have a: "st' j = EATING" if j: "j < N" "0 < sem j \<or> (\<exists>l < N. sig_target l ((f(i := sig)) l) = Some j)" for j
  proof (cases "j = k")
    case False
    then have "0 < sem j \<or> (\<exists>l < N. sig_target l (f l) = Some j)"
      using j(2) tg by (metis fun_upd_apply option.inject)
    then show ?thesis using ok j(1) False by (auto simp: wakes_ok_def st')
  qed (simp add: st')
  have b: "0 < sem j \<or> (\<exists>l < N. sig_target l ((f(i := sig)) l) = Some j)"
    if j: "j < N" "(f(i := sig)) j = CWait WDown" "st' j = EATING" for j
  proof (cases "j = k")
    case True
    then show ?thesis using tg i by (metis fun_upd_same)
  next
    case False
    have "j \<noteq> i" using j(2) tg(3) by auto
    then have "0 < sem j \<or> (\<exists>l < N. sig_target l (f l) = Some j)"
      using ok j False unfolding wakes_ok_def st' by auto
    then show ?thesis using tg(2) by (metis fun_upd_apply option.distinct(1))
  qed
  show ?thesis unfolding wakes_ok_def using True a b by (metis (full_types))
qed

lemma runs_alone:
  assumes inv: "minv s" and i: "i < N" and r: "runs (threads s i)"
  shows "cv_sem (mt s) c = 0" and "j < N \<Longrightarrow> j \<noteq> i \<Longrightarrow> \<not> runs (threads s j)"
    and "j < N \<Longrightarrow> j \<noteq> i \<Longrightarrow> sig_target j (cpc s j) = None"
proof -
  obtain k where tok: "token_at N k (mt s) (threads s)" using inv by (auto simp: minv_def monitor_inv_def)
  show "cv_sem (mt s) c = 0" by (rule token_runs(4) [OF tok i r])
  show *: "\<not> runs (threads s j)" if "j < N" "j \<noteq> i" for j by (rule token_runs(5) [OF tok i r that])
  show "sig_target j (cpc s j) = None" if "j < N" "j \<noteq> i"
    using * [OF that] by (auto simp: sig_target_def early_def threads_def runs_def split: cv_pc.splits)
qed

lemma waiter_counted:
  assumes "minv s" and k: "k < N" "cpc s k = CWait WDown"
  shows "0 < cv_count (mt s) k"
proof -
  have "waiter k (threads s k)" using k(2) by (simp add: threads_def waiter_def)
  then have "0 < how_many N (waiter k) (threads s)" using k(1) unfolding how_many_pos by blast
  then show ?thesis using assms(1) by (simp add: minv_def monitor_inv_def)
qed

lemma hungry_sleeps:
  assumes inv: "cv_inv s" and i: "i < N" "runs (threads s i)" and k: "k < N" "k \<noteq> i" "state_condvar s k = HUNGRY"
  shows "cpc s k = CWait WDown"
proof -
  have "minv s" "cphase (cpc s k) HUNGRY" using inv k by (auto simp: cv_inv_def states_ok_def)
  then show ?thesis
    using runs_alone(2) [OF _ i k(1,2)] by (cases "cpc s k") (auto simp: threads_def runs_def)
qed

lemma test_inv:
  assumes inv: "cv_inv s" and i: "i < N" and run: "do_test i k sig q s = Some s'" and t: "tests i (cpc s i) k sig q"
    and m: "minv s'"
  shows "cv_inv s'"
proof -
  have ru: "runs (threads s i)" and kN: "k < N"
    using t neighbours [OF i] i by (auto elim!: tests.cases simp: threads_def runs_def)
  obtain b st' where r: "phi_test_condvar k (state_condvar s) = (b, st')" by (cases "phi_test_condvar k (state_condvar s)")
  then have "s' = cgoto i (if b then sig else q) (s\<lparr>state_condvar := st'\<rparr>)" using run by (simp add: do_test_def)
  then show ?thesis
    using test_states [where f = "cpc s", OF _ i t r] test_wakes [where f = "cpc s", OF _ i t r] hungry_sleeps [OF inv i ru kN] inv m
    by (auto simp: cv_inv_def)
qed

lemma quiet_inv:
  assumes inv: "cv_inv s" and i: "i < N" and m: "minv s'"
    and s': "state_condvar s' = state_condvar s" "cpc s' = (cpc s)(i := q)"
    and ph: "cphase (cpc s i) (state_condvar s i) \<Longrightarrow> cphase q (state_condvar s i)"
    and hu: "hungry_pc q \<Longrightarrow> state_condvar s i = HUNGRY \<Longrightarrow> cphase (cpc s i) HUNGRY \<Longrightarrow> hungry_pc (cpc s i)"
    and aw: "cpc s i \<noteq> PTestL" "cpc s i \<noteq> PTestR" "\<And>p. cpc s i = PSigL p \<Longrightarrow> q = PTestR \<or> (\<exists>p. q = PSigL p)"
    and sem: "\<And>k. 0 < cv_sem (mt s') k \<Longrightarrow> 0 < cv_sem (mt s) k \<or> sig_target i (cpc s i) = Some k"
      "\<And>k. k < N \<Longrightarrow> 0 < cv_sem (mt s) k \<Longrightarrow> 0 < cv_sem (mt s') k \<or> k = i \<and> q \<noteq> CWait WDown"
    and tg: "\<And>k. sig_target i q = Some k \<Longrightarrow> sig_target i (cpc s i) = Some k"
      "\<And>k. k < N \<Longrightarrow> sig_target i (cpc s i) = Some k \<Longrightarrow>
         sig_target i q = Some k \<or> 0 < cv_sem (mt s') k \<or> cpc s k \<noteq> CWait WDown"
    and qd: "q = CWait WDown \<Longrightarrow> cphase (cpc s i) (state_condvar s i) \<Longrightarrow> state_condvar s i = HUNGRY"
  shows "cv_inv s'"
proof -
  have st: "states_ok (state_condvar s) (cpc s)" and wk: "wakes_ok (cv_sem (mt s)) (state_condvar s) (cpc s)"
    using inv by (simp_all add: cv_inv_def)
  have cp: "cphase (cpc s i) (state_condvar s i)" using st i by (simp add: states_ok_def)
  have "states_ok (state_condvar s) ((cpc s)(i := q))"
    by (rule states_quiet [OF st i ph _ aw]) (use hu cp in auto)
  moreover have "wakes_ok (cv_sem (mt s')) (state_condvar s) ((cpc s)(i := q))"
    by (rule wakes_quiet [OF wk i sem tg]) (use qd cp in auto)
  ultimately show ?thesis using m by (simp add: cv_inv_def s')
qed

lemma signal_inv:
  assumes inv: "cv_inv s" and i: "i < N" and run: "do_signal i k p sig q s = Some s'" and m: "minv s'" and k: "k < N"
    and pc: "cpc s i = sig p"
    and sig: "sig = CSig \<and> q = CIf \<and> k = i \<or> sig = PSigL \<and> q = PTestR \<and> k = LEFT i \<or> sig = PSigR \<and> q = PLeave LCheck \<and> k = RIGHT i"
  shows "cv_inv s'"
proof -
  obtain r m' where r: "cond_signal k p (mt s) = Some (r, m')"
    and s': "s' = cgoto i (case r of None \<Rightarrow> q | Some p \<Rightarrow> sig p) (s\<lparr>mt := m'\<rparr>)"
    using run by (auto simp: do_signal_def)
  have cnt: "cpc s k = CWait WDown \<Longrightarrow> 0 < cv_count (mt s) k" using waiter_counted [OF _ k] inv by (simp add: cv_inv_def)
  have tg: "sig_target i (sig p') = early k p'" for p' using sig by (auto simp: sig_target_def)
  have tq: "sig_target i q = None" using sig by (auto simp: sig_target_def)
  show ?thesis
  proof (rule quiet_inv [OF inv i m, where q = "case r of None \<Rightarrow> q | Some p \<Rightarrow> sig p"])
    show "cpc s' = (cpc s)(i := case r of None \<Rightarrow> q | Some p \<Rightarrow> sig p)" by (simp add: s')
    fix c
    show "0 < cv_sem (mt s') c \<Longrightarrow> 0 < cv_sem (mt s) c \<or> sig_target i (cpc s i) = Some c"
      using r unfolding pc tg by (cases p) (auto simp: s' cond_signal_def early_def split: if_splits)
    show "0 < cv_sem (mt s) c \<Longrightarrow> 0 < cv_sem (mt s') c \<or> c = i \<and> (case r of None \<Rightarrow> q | Some p \<Rightarrow> sig p) \<noteq> CWait WDown"
      using r by (cases p) (auto simp: s' cond_signal_def split: if_splits)
    show "sig_target i (case r of None \<Rightarrow> q | Some p \<Rightarrow> sig p) = Some c \<Longrightarrow> sig_target i (cpc s i) = Some c"
      using r unfolding pc tg by (cases p) (auto simp: tg tq cond_signal_def early_def split: if_splits option.splits)
    show "sig_target i (cpc s i) = Some c \<Longrightarrow> sig_target i (case r of None \<Rightarrow> q | Some p \<Rightarrow> sig p) = Some c \<or>
        0 < cv_sem (mt s') c \<or> cpc s c \<noteq> CWait WDown"
      using r cnt unfolding pc tg by (cases p) (auto simp: s' tg tq cond_signal_def early_def split: if_splits option.splits)
  qed (use sig r pc in \<open>auto simp: s' hungry_pc_def split: option.splits\<close>)
qed

lemma wait_inv:
  assumes inv: "cv_inv s" and i: "i < N" and run: "do_wait_cv i i p (CLeave LCheck) s = Some s'" and m: "minv s'"
    and pc: "cpc s i = CWait p"
  shows "cv_inv s'"
proof -
  obtain r m' where r: "cond_wait i p (mt s) = Some (r, m')"
    and s': "s' = cgoto i (case r of None \<Rightarrow> CLeave LCheck | Some p \<Rightarrow> CWait p) (s\<lparr>mt := m'\<rparr>)"
    using run by (auto simp: do_wait_cv_def)
  have woken: "0 < cv_sem (mt s) i \<Longrightarrow> state_condvar s i = EATING" using inv i by (auto simp: cv_inv_def wakes_ok_def)
  show ?thesis
  proof (rule quiet_inv [OF inv i m, where q = "case r of None \<Rightarrow> CLeave LCheck | Some p \<Rightarrow> CWait p"])
    show "cphase (cpc s i) (state_condvar s i) \<Longrightarrow>
        cphase (case r of None \<Rightarrow> CLeave LCheck | Some p \<Rightarrow> CWait p) (state_condvar s i)"
      using r woken by (cases p) (auto simp: pc cond_wait_def split: if_splits)
    fix c
    show "0 < cv_sem (mt s') c \<Longrightarrow> 0 < cv_sem (mt s) c \<or> sig_target i (cpc s i) = Some c"
      using r by (cases p) (auto simp: s' cond_wait_def split: if_splits)
    show "0 < cv_sem (mt s) c \<Longrightarrow>
        0 < cv_sem (mt s') c \<or> c = i \<and> (case r of None \<Rightarrow> CLeave LCheck | Some p \<Rightarrow> CWait p) \<noteq> CWait WDown"
      using r by (cases p) (auto simp: s' cond_wait_def split: if_splits)
    show "(case r of None \<Rightarrow> CLeave LCheck | Some p \<Rightarrow> CWait p) = CWait WDown \<Longrightarrow>
        cphase (cpc s i) (state_condvar s i) \<Longrightarrow> state_condvar s i = HUNGRY"
      using r by (cases p) (auto simp: pc cond_wait_def split: if_splits)
  qed (use r pc in \<open>auto simp: s' hungry_pc_def sig_target_def split: option.splits\<close>)
qed

lemma set_inv:
  assumes inv: "cv_inv s" and i: "i < N" and m: "minv s'" and s': "s' = cgoto i q (set_state i a s)"
    and c: "cpc s i = CSet \<and> q = CTest \<and> a = HUNGRY \<or> cpc s i = PSet \<and> q = PTestL \<and> a = THINKING"
  shows "cv_inv s'"
proof -
  let ?st = "state_condvar s" and ?f = "cpc s"
  have st: "states_ok ?st ?f" and wk: "wakes_ok (cv_sem (mt s)) ?st ?f" using inv by (simp_all add: cv_inv_def)
  have ru: "runs (threads s i)" using c by (auto simp: threads_def runs_def)
  note al = runs_alone [OF _ i ru]
  have ph: "cphase (?f i) (?st i)" using st i by (simp add: states_ok_def)
  have none: "sig_target i q = None" using c by (auto simp: sig_target_def)
  have "cawaited (?st(i := a)) (?f(i := q)) j" if "j < N" "cawaited ?st ?f j" for j
    using that c ph unfolding cawaited_def by (auto simp: fun_upd_def)
  then have "states_ok (?st(i := a)) (?f(i := q))"
    using st c i by (auto simp: states_ok_def capart_def hungry_pc_def)
  moreover have "wakes_ok (cv_sem (mt s)) (?st(i := a)) (?f(i := q))"
  proof -
    have none': "sig_target j ((?f(i := q)) j) = None" if "j < N" for j
      using that none al(3) inv by (cases "j = i") (auto simp: cv_inv_def)
    moreover have sem0: "cv_sem (mt s) k = 0" for k using al(1) inv by (simp add: cv_inv_def)
    moreover have "?st k \<noteq> EATING" if k: "k < N" "?f k = CWait WDown" for k
    proof
      assume "?st k = EATING"
      then have "0 < cv_sem (mt s) k \<or> (\<exists>j < N. sig_target j (?f j) = Some k)"
        using wk k unfolding wakes_ok_def by blast
      moreover have "sig_target j (?f j) = None" if "j < N" for j
        using al(3) [OF _ that] inv c by (cases "j = i") (auto simp: cv_inv_def sig_target_def)
      ultimately show False using sem0 by auto
    qed
    ultimately have no: "(0 < cv_sem (mt s) k \<or> (\<exists>j < N. sig_target j ((?f(i := q)) j) = Some k)) = False"
        and eat: "k < N \<Longrightarrow> ?f k = CWait WDown \<Longrightarrow> ?st k \<noteq> EATING" for k by auto
    show ?thesis unfolding wakes_ok_def no using c eat by (auto split: if_splits)
  qed
  ultimately show ?thesis using m by (simp add: cv_inv_def s' set_state_def)
qed

lemma cv_step_inv:
  assumes run: "philosopher_using_condvar i s = Some s'" and inv: "cv_inv s" and i: "i < N"
  shows "cv_inv s'"
proof -
  have m: "minv s'" using minv_step [OF run _ i] inv by (simp add: cv_inv_def)
  note quiet = quiet_inv [OF inv i m]
  note nb = neighbours [OF i]
  have ph: "cphase (cpc s i) (state_condvar s i)" using inv i by (simp add: cv_inv_def states_ok_def)
  show ?thesis
  proof (cases "cpc s i")
    case CLoop
    show ?thesis
    proof (cases "citer s i < TIMES")
      case True
      show ?thesis by (rule quiet [where q = CEnter]) (use run CLoop True in \<open>auto simp: cv_pc_defs sig_target_def hungry_pc_def\<close>)
    next
      case False
      show ?thesis by (rule quiet [where q = CQuit]) (use run CLoop False in \<open>auto simp: cv_pc_defs sig_target_def hungry_pc_def\<close>)
    qed
  next
    case CEnter
    show ?thesis
      by (rule quiet [where q = CSet])
        (use run CEnter in \<open>auto simp: cv_pc_defs do_enter_def monitor_enter_def sig_target_def hungry_pc_def split: option.splits if_splits\<close>)
  next
    case CSet
    then have "s' = cgoto i CTest (set_state i HUNGRY s)" using run by (simp add: cv_pc_defs)
    then show ?thesis by (rule set_inv [OF inv i m]) (simp add: CSet)
  next
    case CTest
    then have "do_test i i (CSig SCheck) CIf s = Some s'" using run by (auto simp: cv_pc_defs split: option.splits)
    then show ?thesis by (rule test_inv [OF inv i]) (simp_all add: CTest tests.intros m)
  next
    case (CSig p)
    then have "do_signal i i p CSig CIf s = Some s'" using run by (auto simp: cv_pc_defs split: option.splits)
    then show ?thesis by (rule signal_inv [OF inv i]) (simp_all add: CSig m i)
  next
    case CIf
    show ?thesis
    proof (cases "state_condvar s i = HUNGRY")
      case True
      show ?thesis by (rule quiet [where q = "CWait WInc"]) (use run CIf True in \<open>auto simp: cv_pc_defs sig_target_def hungry_pc_def\<close>)
    next
      case False
      then have "state_condvar s i = EATING" using ph CIf by (cases "state_condvar s i") auto
      then show ?thesis
        by (intro quiet [where q = "CLeave LCheck"]) (use run CIf in \<open>auto simp: cv_pc_defs sig_target_def hungry_pc_def\<close>)
    qed
  next
    case (CWait p)
    then have "do_wait_cv i i p (CLeave LCheck) s = Some s'" using run by (auto simp: cv_pc_defs split: option.splits)
    then show ?thesis by (rule wait_inv [OF inv i]) (simp_all add: CWait m)
  next
    case (CLeave p)
    then have r: "do_leave i p CLeave CEat s = Some s'" using run by (auto simp: cv_pc_defs split: option.splits)
    show ?thesis
      by (rule quiet [where q = "case fst (monitor_leave p (mt s)) of None \<Rightarrow> CEat | Some p \<Rightarrow> CLeave p"])
        (use r CLeave in \<open>cases p; auto simp: do_leave_def monitor_leave_def sig_target_def hungry_pc_def\<close>)+
  next
    case CEat
    show ?thesis
      by (rule quiet [where q = PEnter]) (use run CEat in \<open>auto simp: cv_pc_defs sig_target_def hungry_pc_def\<close>)
  next
    case PEnter
    show ?thesis
      by (rule quiet [where q = PSet])
        (use run PEnter in \<open>auto simp: cv_pc_defs do_enter_def monitor_enter_def sig_target_def hungry_pc_def split: option.splits if_splits\<close>)
  next
    case PSet
    then have "s' = cgoto i PTestL (set_state i THINKING s)" using run by (simp add: cv_pc_defs)
    then show ?thesis by (rule set_inv [OF inv i m]) (simp add: PSet)
  next
    case PTestL
    then have "do_test i (LEFT i) (PSigL SCheck) PTestR s = Some s'" using run by (auto simp: cv_pc_defs split: option.splits)
    then show ?thesis by (rule test_inv [OF inv i]) (simp_all add: PTestL tests.intros m)
  next
    case (PSigL p)
    then have "do_signal i (LEFT i) p PSigL PTestR s = Some s'" using run by (auto simp: cv_pc_defs split: option.splits)
    then show ?thesis by (rule signal_inv [OF inv i]) (simp_all add: PSigL m nb)
  next
    case PTestR
    then have "do_test i (RIGHT i) (PSigR SCheck) (PLeave LCheck) s = Some s'" using run by (auto simp: cv_pc_defs split: option.splits)
    then show ?thesis by (rule test_inv [OF inv i]) (simp_all add: PTestR tests.intros m)
  next
    case (PSigR p)
    then have "do_signal i (RIGHT i) p PSigR (PLeave LCheck) s = Some s'" using run by (auto simp: cv_pc_defs split: option.splits)
    then show ?thesis by (rule signal_inv [OF inv i]) (simp_all add: PSigR m nb)
  next
    case (PLeave p)
    then have r: "do_leave i p PLeave CLoop s = Some s'" using run by (auto simp: cv_pc_defs split: option.splits)
    show ?thesis
      by (rule quiet [where q = "case fst (monitor_leave p (mt s)) of None \<Rightarrow> CLoop | Some p \<Rightarrow> PLeave p"])
        (use r PLeave in \<open>cases p; auto simp: do_leave_def monitor_leave_def sig_target_def hungry_pc_def\<close>)+
  next
    case CQuit
    then show ?thesis using run by (simp add: cv_pc_defs)
  qed
qed

lemma cv_reach_inv: "cv_reach n s \<Longrightarrow> cv_inv s"
proof (induction rule: cv_reach.induct)
  case (start s)
  then obtain m where m: "monitor_init True N = Some m" "s = \<lparr>state_condvar = \<lambda>_. THINKING, mt = m, cpc = \<lambda>_. CLoop, citer = \<lambda>_. 0\<rparr>"
    by (auto simp: check_sync_condvar_start_def)
  have "minv s" using monitor_start [OF m(1)] by (simp add: minv_def m(2) threads_def)
  then show ?case
    using m(1) by (auto simp: cv_inv_def m(2) states_ok_def wakes_ok_def capart_def hungry_pc_def sig_target_def
        monitor_init_def N_def)
next
  case (next_step n s s')
  then show ?case by (auto elim!: cv_step.cases intro: cv_step_inv)
qed

section \<open>Progress\<close>

lemma runs_steps:
  assumes "runs (threads s i)"
  shows "philosopher_using_condvar i s \<noteq> None"
proof (cases "cpc s i")
  case (CSig p)
  then show ?thesis using assms by (cases p) (auto simp: threads_def runs_def cv_pc_defs do_signal_def cond_signal_def)
next
  case (CWait p)
  then show ?thesis using assms by (cases p) (auto simp: threads_def runs_def cv_pc_defs do_wait_cv_def cond_wait_def)
next
  case (PSigL p)
  then show ?thesis using assms by (cases p) (auto simp: threads_def runs_def cv_pc_defs do_signal_def cond_signal_def)
next
  case (PSigR p)
  then show ?thesis using assms by (cases p) (auto simp: threads_def runs_def cv_pc_defs do_signal_def cond_signal_def)
qed (use assms in \<open>auto simp: threads_def runs_def cv_pc_defs do_test_def do_leave_def split: prod.splits\<close>)

lemma signals_pc: "threads s i = Signals c p \<Longrightarrow>
    cpc s i = CSig p \<and> c = i \<or> cpc s i = PSigL p \<and> c = LEFT i \<or> cpc s i = PSigR p \<and> c = RIGHT i"
  by (cases "cpc s i") (auto simp: threads_def)

lemma cv_phase: "cv_inv s \<Longrightarrow> i < N \<Longrightarrow> cphase (cpc s i) (state_condvar s i)"
  by (simp add: cv_inv_def states_ok_def)

lemma cv_no_deadlock:
  assumes inv: "cv_inv s" and live: "\<exists>i < N. cpc s i \<noteq> CQuit"
  shows "\<exists>i < N. philosopher_using_condvar i s \<noteq> None"
proof -
  have "monitor_inv N (mt s) (threads s)" using inv by (simp add: cv_inv_def minv_def)
  then show ?thesis
  proof (cases rule: token_cases)
    case (run t)
    then show ?thesis using runs_steps by blast
  next
    case (nxt t c)
    have "philosopher_using_condvar t s \<noteq> None"
      using signals_pc [OF nxt(6)] nxt(3) by (auto simp: cv_pc_defs do_signal_def cond_signal_def)
    then show ?thesis using nxt(5) by blast
  next
    case (cond t c)
    have "cpc s t = CWait WDown \<and> c = t" using cond(7) by (cases "cpc s t") (auto simp: threads_def)
    then have "philosopher_using_condvar t s \<noteq> None"
      using cond(4) by (auto simp: cv_pc_defs do_wait_cv_def cond_wait_def)
    then show ?thesis using cond(6) by blast
  next
    case mutex
    show ?thesis
    proof (rule ccontr)
      assume stuck: "\<not> ?thesis"
      have pcs: "cpc s i \<in> {CWait WDown, CQuit}" if i: "i < N" for i
      proof -
        have none: "philosopher_using_condvar i s = None" using stuck i by blast
        have nr: "\<not> runs (threads s i)" using mutex(1) i by blast
        show ?thesis
          using none nr mutex(2) spec [OF mutex(5), of i] i
          by (cases "cpc s i") (auto simp: threads_def runs_def cv_pc_defs do_enter_def monitor_enter_def)
      qed
      have "state_condvar s i \<noteq> EATING" if i: "i < N" for i
      proof
        assume e: "state_condvar s i = EATING"
        have "cphase (cpc s i) EATING" using inv i e by (auto simp: cv_inv_def states_ok_def)
        then have "cpc s i = CWait WDown" using pcs [OF i] by auto
        then have "0 < cv_sem (mt s) i \<or> (\<exists>j < N. sig_target j (cpc s j) = Some i)"
          using inv i e unfolding cv_inv_def wakes_ok_def by blast
        moreover have "sig_target j (cpc s j) = None" if "j < N" for j
          using pcs [OF that] by (auto simp: sig_target_def)
        ultimately show False using mutex(4) by auto
      qed
      moreover obtain i where i: "i < N" "cpc s i = CWait WDown" using live pcs by blast
      moreover have "cphase (cpc s i) (state_condvar s i)" by (rule cv_phase [OF inv i(1)])
      ultimately have "state_condvar s i = HUNGRY" by (cases "state_condvar s i") auto
      then have "cawaited (state_condvar s) (cpc s) i"
        using inv i by (auto simp: cv_inv_def states_ok_def hungry_pc_def)
      then show False
        using pcs [of "LEFT i"] pcs [of "RIGHT i"] neighbours(1,2) [OF i(1)] \<open>\<And>i. i < N \<Longrightarrow> state_condvar s i \<noteq> EATING\<close>
        by (auto simp: cawaited_def)
    qed
  qed
qed

text \<open>How far a philosopher is in its loop; a round has at most 34 statements.\<close>

primrec sig_pos :: "sig_pc \<Rightarrow> nat" where
  "sig_pos SCheck = 0" | "sig_pos SInc = 1" | "sig_pos SUp = 2" | "sig_pos SDown = 3" | "sig_pos SDec = 4"

primrec wait_pos :: "wait_pc \<Rightarrow> nat" where
  "wait_pos WInc = 0" | "wait_pos WCheck = 1" | "wait_pos WNext = 2" | "wait_pos WMutex = 2" | "wait_pos WDown = 3"
| "wait_pos WDec = 4"

primrec leave_pos :: "leave_pc \<Rightarrow> nat" where
  "leave_pos LCheck = 0" | "leave_pos LNext = 1" | "leave_pos LMutex = 1"

primrec cpos :: "cv_pc \<Rightarrow> nat" where
  "cpos CLoop = 0" | "cpos CEnter = 1" | "cpos CSet = 2" | "cpos CTest = 3" | "cpos (CSig p) = 4 + sig_pos p"
| "cpos CIf = 9" | "cpos (CWait p) = 10 + wait_pos p" | "cpos (CLeave p) = 15 + leave_pos p" | "cpos CEat = 17"
| "cpos PEnter = 18" | "cpos PSet = 19" | "cpos PTestL = 20" | "cpos (PSigL p) = 21 + sig_pos p" | "cpos PTestR = 26"
| "cpos (PSigR p) = 27 + sig_pos p" | "cpos (PLeave p) = 32 + leave_pos p" | "cpos CQuit = 1"

definition crank :: "cv_phil \<Rightarrow> nat \<Rightarrow> nat" where
  "crank s i = (if cpc s i = CLoop then 34 * citer s i else 34 * (citer s i - 1) + cpos (cpc s i))"

definition citer_ok :: "cv_phil \<Rightarrow> nat \<Rightarrow> bool" where
  "citer_ok s i \<longleftrightarrow> (if cpc s i = CLoop then citer s i \<le> TIMES
     else if cpc s i = CQuit then citer s i = TIMES + 1 else 1 \<le> citer s i \<and> citer s i \<le> TIMES)"

lemma crank_other:
  assumes "philosopher_using_condvar i s = Some s'" and "j \<noteq> i"
  shows "crank s' j = crank s j \<and> citer_ok s' j = citer_ok s j"
proof -
  have "cpc s' j = cpc s j \<and> citer s' j = citer s j"
    using assms by (auto simp: cv_defs split: cv_pc.splits prod.splits option.splits if_splits)
  then show ?thesis by (simp add: crank_def citer_ok_def)
qed

lemma crank_own:
  assumes "cpc s' i = q" and "q \<noteq> CLoop" "q \<noteq> CQuit" and "cpc s i \<noteq> CLoop" "cpc s i \<noteq> CQuit" and "cpos (cpc s i) < cpos q"
    and "citer s' i = citer s i" and "citer_ok s i"
  shows "crank s i < crank s' i \<and> citer_ok s' i"
  using assms by (simp add: crank_def citer_ok_def)

lemma crank_step:
  assumes run: "philosopher_using_condvar i s = Some s'" and ok: "citer_ok s i"
  shows "crank s i < crank s' i \<and> citer_ok s' i"
proof (cases "cpc s i = CLoop \<or> (\<exists>p. cpc s i = PLeave p)")
  case True
  then show ?thesis
  proof
    assume "cpc s i = CLoop"
    then show ?thesis using run ok
      by (cases "citer s i < TIMES") (auto simp: cv_defs crank_def citer_ok_def)
  next
    assume "\<exists>p. cpc s i = PLeave p"
    then obtain p where p: "cpc s i = PLeave p" by blast
    then have "do_leave i p PLeave CLoop s = Some s'" using run by (auto simp: cv_pc_defs split: option.splits)
    then show ?thesis using p ok
      by (cases p) (auto simp: do_leave_def monitor_leave_def crank_def citer_ok_def)
  qed
next
  case False
  have "cpc s' i \<noteq> CLoop \<and> cpc s' i \<noteq> CQuit \<and> cpc s i \<noteq> CQuit \<and> cpos (cpc s i) < cpos (cpc s' i) \<and> citer s' i = citer s i"
  proof (cases "cpc s i")
    case (CSig p)
    then show ?thesis using run by (cases p) (auto simp: cv_defs cond_signal_def split: if_splits)
  next
    case (PSigL p)
    then show ?thesis using run by (cases p) (auto simp: cv_defs cond_signal_def split: if_splits)
  next
    case (PSigR p)
    then show ?thesis using run by (cases p) (auto simp: cv_defs cond_signal_def split: if_splits)
  next
    case (CWait p)
    then show ?thesis using run by (cases p) (auto simp: cv_defs cond_wait_def split: if_splits)
  next
    case (CLeave p)
    then show ?thesis using run by (cases p) (auto simp: cv_defs monitor_leave_def split: if_splits)
  qed (use run False in \<open>auto simp: cv_defs split: prod.splits option.splits if_splits\<close>)
  then show ?thesis using crank_own [OF refl] ok False by blast
qed

lemma crank_sum:
  assumes "cv_reach n s"
  shows "n \<le> (\<Sum>i < N. crank s i) \<and> (\<forall>i < N. citer_ok s i)"
  using assms
proof (induction rule: cv_reach.induct)
  case (start s)
  then show ?case by (auto simp: crank_def citer_ok_def check_sync_condvar_start_def)
next
  case (next_step n s s')
  then obtain i where i: "i < N" "philosopher_using_condvar i s = Some s'" by (auto elim: cv_step.cases)
  have own: "crank s i < crank s' i \<and> citer_ok s' i" using crank_step [OF i(2)] next_step i(1) by blast
  note other = crank_other [OF i(2)]
  have "(\<Sum>j < N. crank s j) < (\<Sum>j < N. crank s' j)"
    by (rule sum_strict_mono_ex1) (use own other i(1) in \<open>auto simp: le_less, metis\<close>)
  moreover have "citer_ok s' j" if "j < N" for j using next_step own other that by (cases "j = i") auto
  ultimately show ?case using next_step by auto
qed

lemma crank_le: "citer_ok s i \<Longrightarrow> crank s i \<le> 34 * TIMES + 1"
proof -
  have le: "cpos q \<le> 33" for q
  proof (cases q)
    case (CSig p) then show ?thesis by (cases p) auto
  next
    case (PSigL p) then show ?thesis by (cases p) auto
  next
    case (PSigR p) then show ?thesis by (cases p) auto
  next
    case (CWait p) then show ?thesis by (cases p) auto
  next
    case (CLeave p) then show ?thesis by (cases p) auto
  next
    case (PLeave p) then show ?thesis by (cases p) auto
  qed auto
  show "citer_ok s i \<Longrightarrow> crank s i \<le> 34 * TIMES + 1"
    using le [of "cpc s i"] by (auto simp: citer_ok_def crank_def TIMES_def split: if_splits)
qed

section \<open>Properties\<close>

text \<open>
  (C31) The philosophers with condition variables: in every reachable state, under every interleaving, two
  neighbours never hold their forks at the same time, whoever is between its \<open>take_forks\<close> and its
  \<open>put_forks\<close> is recorded as eating, and at most one philosopher runs in the monitor.
\<close>

theorem condvar_exclusive:
  assumes "cv_reach n s" and "i < N"
  shows "\<not> (state_condvar s i = EATING \<and> state_condvar s (RIGHT i) = EATING) \<and>
    (cpc s i \<in> {CEat, PEnter, PSet} \<longrightarrow> state_condvar s i = EATING) \<and>
    (\<forall>j < N. runs (threads s i) \<longrightarrow> runs (threads s j) \<longrightarrow> j = i)"
proof -
  have inv: "cv_inv s" by (rule cv_reach_inv [OF assms(1)])
  then show ?thesis
    using cv_phase [OF inv assms(2)] assms(2) runs_alone(2) [of s i]
    by (auto simp: cv_inv_def states_ok_def capart_def)
qed

definition cv_start :: cv_phil where
  "cv_start = \<lparr>state_condvar = (\<lambda>_. THINKING),
     mt = \<lparr>mt_mutex = 1, mt_next = 0, next_count = 0, cv_count = (\<lambda>_. 0), cv_sem = (\<lambda>_. 0)\<rparr>,
     cpc = (\<lambda>_. CLoop), citer = (\<lambda>_. 0)\<rparr>"

lemma cv_start_reach: "cv_reach 0 cv_start"
  by (rule cv_reach.start) (simp add: check_sync_condvar_start_def monitor_init_def N_def cv_start_def)

theorem condvar_exclusive_witness:
  "cv_reach 0 cv_start \<and> \<not> (state_condvar cv_start 4 = EATING \<and> state_condvar cv_start (RIGHT 4) = EATING)"
  using condvar_exclusive [OF cv_start_reach, of 4] cv_start_reach by (simp add: N_def)

text \<open>
  (C32) The philosophers with condition variables never deadlock and all of them finish: as long as one has
  not quit some philosopher can execute a statement, no wake-up is lost, every run has at most 685
  statements, and a philosopher that has quit has been through its loop four times.
\<close>

theorem condvar_finish:
  assumes "cv_reach n s"
  shows "((\<forall>i < N. cpc s i = CQuit) \<or> (\<exists>s'. cv_step s s')) \<and> n \<le> 685 \<and>
    (\<forall>i < N. cpc s i = CQuit \<longrightarrow> citer s i = TIMES + 1)"
proof -
  have sum: "n \<le> (\<Sum>i < N. crank s i)" and ok: "\<And>i. i < N \<Longrightarrow> citer_ok s i" using crank_sum [OF assms] by auto
  have "(\<Sum>i < N. crank s i) \<le> (\<Sum>i < N. 34 * TIMES + 1)" by (rule sum_mono) (use crank_le ok in auto)
  then have "n \<le> 685" using sum by (simp add: N_def TIMES_def)
  moreover have "citer s i = TIMES + 1" if "i < N" "cpc s i = CQuit" for i using ok [OF that(1)] that(2) by (simp add: citer_ok_def)
  moreover have "(\<forall>i < N. cpc s i = CQuit) \<or> (\<exists>s'. cv_step s s')"
    using cv_no_deadlock [OF cv_reach_inv [OF assms]] by (auto intro: cv_step.intros)
  ultimately show ?thesis by blast
qed

theorem condvar_finish_witness: "\<exists>s'. cv_step cv_start s'"
proof -
  have "cpc cv_start 0 \<noteq> CQuit" "0 < N" by (simp_all add: cv_start_def N_def)
  then show ?thesis using condvar_finish [OF cv_start_reach] by blast
qed

end
