(* ===== verification/Slob.thy ===== *)
theory Slob
  imports Prelude
begin

text \<open>
  The kernel heap, \<open>lab8/kern/mm/kmalloc.c\<close>: a ring of free blocks in order of their addresses, from
  which \<open>slob_alloc\<close> takes the next block that is large enough and to which \<open>slob_free\<close> returns blocks,
  merging neighbours; \<open>kmalloc\<close> and \<open>kfree\<close> put a header before each block and take whole pages for large
  ones. An address counts units of \<open>sizeof(slob_t)\<close>, 16 bytes, so \<open>cur + units\<close> is addition and a page
  has 256 units. The static block \<open>arena\<close> has one unit. What \<open>alloc_pages\<close> returns is a stream in the state
  and \<open>page_frees\<close> are the calls of \<open>free_pages\<close>. Every call of \<open>slob_alloc\<close> has \<open>align\<close> 0.
\<close>

section \<open>The code\<close>

definition PAGE_SIZE :: nat where "PAGE_SIZE = 4096"
definition SLOB_UNIT :: nat where "SLOB_UNIT = 16"

definition SLOB_UNITS :: "nat \<Rightarrow> nat" where
  "SLOB_UNITS sz = (sz + SLOB_UNIT - 1) div SLOB_UNIT"

record bigblock =
  bb_at :: nat  \<comment> \<open>where the structure is\<close>
  bb_order :: nat
  bb_pages :: nat

record slob =
  sl_units :: "nat \<Rightarrow> nat"
  sl_next :: "nat \<Rightarrow> nat"
  slobfree :: nat
  bigblocks :: "bigblock list"
  page_results :: "nat option list"
  page_frees :: "(nat \<times> nat) list"
  arena :: nat  \<comment> \<open>the address of the static block\<close>

definition slob_get_free_pages :: "nat \<Rightarrow> slob \<Rightarrow> nat option \<times> slob" where
  "slob_get_free_pages order s =
     (case page_results s of [] \<Rightarrow> (None, s) | r # rs \<Rightarrow> (r, s\<lparr>page_results := rs\<rparr>))"

definition slob_free_pages :: "nat \<Rightarrow> nat \<Rightarrow> slob \<Rightarrow> slob" where
  "slob_free_pages a order s = s\<lparr>page_frees := (a, 2 ^ order) # page_frees s\<rparr>"

text \<open>The search of \<open>slob_free\<close> for the block behind which the freed one belongs.\<close>

partial_function (option) find_place :: "nat \<Rightarrow> nat \<Rightarrow> slob \<Rightarrow> nat option" where
  "find_place b cur s =
     (if cur < b \<and> b < sl_next s cur then Some cur
      else if sl_next s cur \<le> cur \<and> (cur < b \<or> b < sl_next s cur) then Some cur
      else find_place b (sl_next s cur) s)"

text \<open>Putting \<open>b\<close> behind \<open>cur\<close>, with the merges.\<close>

definition link_block :: "nat \<Rightarrow> nat \<Rightarrow> slob \<Rightarrow> slob" where
  "link_block b cur s =
     (let n = sl_next s cur;
          s = (if b + sl_units s b = n
            then s\<lparr>sl_units := (sl_units s)(b := sl_units s b + sl_units s n), sl_next := (sl_next s)(b := sl_next s n)\<rparr>
            else s\<lparr>sl_next := (sl_next s)(b := n)\<rparr>);
          s = (if cur + sl_units s cur = b
            then s\<lparr>sl_units := (sl_units s)(cur := sl_units s cur + sl_units s b), sl_next := (sl_next s)(cur := sl_next s b)\<rparr>
            else s\<lparr>sl_next := (sl_next s)(cur := b)\<rparr>)
      in s\<lparr>slobfree := cur\<rparr>)"

text \<open>\<open>sz\<close> is 0 when the block knows its units.\<close>

definition slob_free :: "nat \<Rightarrow> nat \<Rightarrow> slob \<Rightarrow> slob option" where
  "slob_free b sz s = do {
     let s = (if sz \<noteq> 0 then s\<lparr>sl_units := (sl_units s)(b := SLOB_UNITS sz)\<rparr> else s);
     cur \<leftarrow> find_place b (slobfree s) s;
     Some (link_block b cur s)
   }"

text \<open>\<open>slob_alloc\<close> at a block \<open>cur\<close> that is large enough, behind \<open>prev\<close>.\<close>

definition take_block :: "nat \<Rightarrow> nat \<Rightarrow> nat \<Rightarrow> slob \<Rightarrow> slob" where
  "take_block u prev cur s =
     (let s = (if sl_units s cur = u then s\<lparr>sl_next := (sl_next s)(prev := sl_next s cur)\<rparr>
        else let s = s\<lparr>sl_next := (sl_next s)(prev := cur + u)\<rparr>;
                 s = s\<lparr>sl_units := (sl_units s)(cur + u := sl_units s cur - u)\<rparr>;
                 s = s\<lparr>sl_next := (sl_next s)(cur + u := sl_next s cur)\<rparr>
             in s\<lparr>sl_units := (sl_units s)(cur := u)\<rparr>)
      in s\<lparr>slobfree := prev\<rparr>)"

partial_function (option) slob_search :: "nat \<Rightarrow> nat \<Rightarrow> slob \<Rightarrow> (nat option \<times> slob) option" where
  "slob_search sz prev s =
     (let cur = sl_next s prev; u = SLOB_UNITS sz in
      if u \<le> sl_units s cur then Some (Some cur, take_block u prev cur s)
      else if cur = slobfree s then
        if sz = PAGE_SIZE then Some (None, s)
        else (case slob_get_free_pages 0 s of
            (None, s) \<Rightarrow> Some (None, s)
          | (Some page, s) \<Rightarrow> do {
              s \<leftarrow> slob_free page PAGE_SIZE s;
              slob_search sz (slobfree s) s
            })
      else slob_search sz cur s)"

definition slob_alloc :: "nat \<Rightarrow> slob \<Rightarrow> (nat option \<times> slob) option" where
  "slob_alloc sz s = do {
     kassert (sz + SLOB_UNIT < PAGE_SIZE);
     slob_search sz (slobfree s) s
   }"

fun find_order :: "nat \<Rightarrow> nat" where
  "find_order sz = (if sz > 4096 then Suc (find_order (sz div 2)) else 0)"

definition SIZEOF_BIGBLOCK :: nat where "SIZEOF_BIGBLOCK = 24"

definition kmalloc :: "nat \<Rightarrow> slob \<Rightarrow> (nat option \<times> slob) option" where
  "kmalloc sz s =
     (if sz < PAGE_SIZE - SLOB_UNIT then do {
        (m, s) \<leftarrow> slob_alloc (sz + SLOB_UNIT) s;
        Some (map_option Suc m, s)
      } else do {
        (bb, s) \<leftarrow> slob_alloc SIZEOF_BIGBLOCK s;
        (case bb of
           None \<Rightarrow> Some (None, s)
         | Some bb \<Rightarrow>
             (case slob_get_free_pages (find_order sz) s of
                (Some p, s) \<Rightarrow>
                  Some (Some p, s\<lparr>bigblocks := \<lparr>bb_at = bb, bb_order = find_order sz, bb_pages = p\<rparr> # bigblocks s\<rparr>)
              | (None, s) \<Rightarrow> do {
                  s \<leftarrow> slob_free bb SIZEOF_BIGBLOCK s;
                  Some (None, s)
                }))
      })"

definition kfree :: "nat option \<Rightarrow> slob \<Rightarrow> slob option" where
  "kfree block s = (case block of None \<Rightarrow> Some s | Some p \<Rightarrow>
     (case (if p * SLOB_UNIT mod PAGE_SIZE = 0 then List.find (\<lambda>bb. bb_pages bb = p) (bigblocks s) else None) of
        Some bb \<Rightarrow> do {
          let s = s\<lparr>bigblocks := remove1 bb (bigblocks s)\<rparr>;
          slob_free (bb_at bb) SIZEOF_BIGBLOCK (slob_free_pages p (bb_order bb) s)
        }
      | None \<Rightarrow> slob_free (p - 1) 0 s))"

definition ksize :: "nat option \<Rightarrow> slob \<Rightarrow> nat" where
  "ksize block s = (case block of None \<Rightarrow> 0 | Some p \<Rightarrow>
     (case (if p * SLOB_UNIT mod PAGE_SIZE = 0 then List.find (\<lambda>bb. bb_pages bb = p) (bigblocks s) else None) of
        Some bb \<Rightarrow> PAGE_SIZE * 2 ^ bb_order bb
      | None \<Rightarrow> sl_units s (p - 1) * SLOB_UNIT))"

section \<open>The ring in order of addresses\<close>

text \<open>The next element of a finite set in cyclic order.\<close>

definition cyc :: "nat set \<Rightarrow> nat \<Rightarrow> nat" where
  "cyc F a = (if {b \<in> F. a < b} = {} then Min F else Min {b \<in> F. a < b})"

lemma cyc_in: "finite F \<Longrightarrow> F \<noteq> {} \<Longrightarrow> cyc F a \<in> F"
  using Min_in [of "{b \<in> F. a < b}"] Min_in [of F] by (auto simp: cyc_def)

lemma cyc_above:
  assumes "finite F" and "b \<in> F" "a < b"
  shows "a < cyc F a" and "cyc F a \<le> b"
  using assms Min_in [of "{b \<in> F. a < b}"] Min_le [of "{b \<in> F. a < b}" b] by (auto simp: cyc_def)

lemma cyc_wrap:
  assumes "finite F" and "F \<noteq> {}" and "\<not> a < cyc F a" and "b \<in> F"
  shows "b \<le> a" and "cyc F a \<le> b"
proof -
  show "b \<le> a" using cyc_above(1) [of F b a] assms by (meson not_le)
  have "{b \<in> F. a < b} = {}" using cyc_above(1) [of F _ a] assms(1,3) by auto
  then show "cyc F a \<le> b" using Min_le [OF assms(1,4)] by (simp add: cyc_def)
qed

text \<open>The elements passed on the way from \<open>a\<close> (not counted) to \<open>c\<close> (counted).\<close>

definition passed :: "nat set \<Rightarrow> nat \<Rightarrow> nat \<Rightarrow> nat set" where
  "passed F a c = {f \<in> F. if a < c then a < f \<and> f \<le> c else a < f \<or> f \<le> c}"

lemma passed_all: "passed F a a = F"
  by (auto simp: passed_def)

lemma passed_first:
  assumes "finite F" "F \<noteq> {}" "a \<in> F"
  shows "passed F a (cyc F a) = {cyc F a}"
  using cyc_in [OF assms(1,2), of a] cyc_above [OF assms(1), of _ a] cyc_wrap [OF assms(1,2), of a]
  by (cases "a < cyc F a") (force simp: passed_def)+

lemma passed_next:
  assumes F: "finite F" "F \<noteq> {}" and ac: "a \<in> F" "c \<in> F" "c \<noteq> a"
  shows "passed F a (cyc F c) = insert (cyc F c) (passed F a c)" and "cyc F c \<notin> passed F a c"
proof -
  let ?n = "cyc F c"
  have n: "?n \<in> F" by (rule cyc_in [OF F])
  have "passed F a ?n = insert ?n (passed F a c) \<and> ?n \<notin> passed F a c"
  proof (cases "c < ?n")
    case True
    have next': "f \<in> F \<Longrightarrow> c < f \<Longrightarrow> ?n \<le> f" for f using cyc_above(2) [OF F(1)] by blast
    show ?thesis
    proof (cases "a < c")
      case True
      then show ?thesis using \<open>c < ?n\<close> n next' by (auto simp: passed_def not_le intro: le_antisym dest: leI)
    next
      case False
      then have "?n \<le> a" using ac next' [of a] by simp
      then show ?thesis using False ac \<open>c < ?n\<close> n next' by (auto simp: passed_def not_less) (metis le_antisym not_less)+
    qed
  next
    case False
    note w = cyc_wrap [OF F False]
    have "a < c" "?n \<le> a" using w ac by (auto simp: le_less)
    then show ?thesis using n w by (auto simp: passed_def intro: le_antisym)
  qed
  then show "passed F a ?n = insert ?n (passed F a c)" and "?n \<notin> passed F a c" by blast+
qed

text \<open>Taking an element out of the ring and putting one in.\<close>

lemma cyc_unique:
  assumes F: "finite F" and n: "n \<in> F"
    and h: "a < n \<and> (\<forall>f \<in> F. a < f \<longrightarrow> n \<le> f) \<or> (\<forall>f \<in> F. f \<le> a \<and> n \<le> f)"
  shows "cyc F a = n"
proof (cases "a < n \<and> (\<forall>f \<in> F. a < f \<longrightarrow> n \<le> f)")
  case True
  then show ?thesis using cyc_above [OF F n] cyc_in [OF F, of a] n by (auto intro: le_antisym)
next
  case False
  then have "\<forall>f \<in> F. f \<le> a \<and> n \<le> f" using h by blast
  moreover from this have "{f \<in> F. a < f} = {}" by auto
  ultimately show ?thesis using Min_eqI [OF F _ n] by (auto simp: cyc_def)
qed

lemma cyc_cases:
  assumes F: "finite F" "F \<noteq> {}"
  shows "a < cyc F a \<and> (\<forall>f \<in> F. a < f \<longrightarrow> cyc F a \<le> f) \<or> (\<forall>f \<in> F. f \<le> a \<and> cyc F a \<le> f)"
  using cyc_above(2) [OF F(1)] cyc_wrap [OF F] by (cases "a < cyc F a") blast+

lemma cyc_remove:
  assumes F: "finite F" and c: "c \<in> F" "p \<in> F" "c \<noteq> p" and a: "a \<in> F" "a \<noteq> c"
  shows "cyc (F - {c}) a = (if cyc F a = c then cyc F c else cyc F a)"
proof -
  have ne: "F \<noteq> {}" "finite (F - {c})" using F c by auto
  show ?thesis
  proof (cases "cyc F a = c")
    case False
    then show ?thesis using cyc_cases [OF F ne(1), of a] cyc_in [OF F ne(1), of a]
      by (intro trans [OF cyc_unique [OF ne(2), of "cyc F a"]]) auto
  next
    case True
    have nc: "cyc F c \<noteq> c"
    proof
      assume e: "cyc F c = c"
      show False using cyc_cases [OF F ne(1), of c] e c cyc_wrap [OF F ne(1), of c p] by (auto simp: e)
    qed
    have "cyc F c \<in> F" by (rule cyc_in [OF F ne(1)])
    then show ?thesis
      using True nc cyc_cases [OF F ne(1), of a] cyc_cases [OF F ne(1), of c] a c
      by (intro trans [OF cyc_unique [OF ne(2), of "cyc F c"]]) (auto, (metis le_antisym not_le order.trans)+)
  qed
qed

lemma cyc_self:
  assumes F: "finite F" and c: "c \<in> F" "p \<in> F" "c \<noteq> p"
  shows "cyc F c \<noteq> c"
proof
  assume e: "cyc F c = c"
  have "F \<noteq> {}" using c by auto
  then show False using e c cyc_wrap [OF F _ _ c(2), of c] by (auto simp: e)
qed

lemma cyc_inj:
  assumes F: "finite F" and ac: "a \<in> F" "c \<in> F" and e: "cyc F a = cyc F c"
  shows "a = c"
proof (rule ccontr)
  assume "a \<noteq> c"
  then consider "a < c" | "c < a" by linarith
  then show False
    using cyc_above [OF F ac(1)] cyc_above [OF F ac(2)] cyc_wrap [OF F _ _ ac(1), of c] cyc_wrap [OF F _ _ ac(2), of a] e ac
    by cases (metis empty_iff not_le order.trans)+
qed

text \<open>The place of \<open>b\<close> in the ring is behind \<open>cur\<close>.\<close>

definition place :: "nat set \<Rightarrow> nat \<Rightarrow> nat \<Rightarrow> bool" where
  "place F b cur \<longleftrightarrow> cur < b \<and> b < cyc F cur \<or> cyc F cur \<le> cur \<and> (cur < b \<or> b < cyc F cur)"

lemma cyc_insert:
  assumes F: "finite F" and cur: "cur \<in> F" and b: "b \<notin> F" and pl: "place F b cur"
  shows "cyc (insert b F) cur = b" and "cyc (insert b F) b = cyc F cur"
    and "a \<in> F \<Longrightarrow> a \<noteq> cur \<Longrightarrow> cyc (insert b F) a = cyc F a"
proof -
  have ne: "F \<noteq> {}" "finite (insert b F)" using F cur by auto
  note cc = cyc_cases [OF F ne(1)]
  have n: "cyc F cur \<in> F" by (rule cyc_in [OF F ne(1)])
  show "cyc (insert b F) cur = b"
    by (rule cyc_unique [OF ne(2)]) (use pl cc [of cur] cur n in \<open>auto simp: place_def\<close>)
  show "cyc (insert b F) b = cyc F cur"
    by (rule cyc_unique [OF ne(2)]) (use pl cc [of cur] cur n in \<open>fastforce simp: place_def\<close>)+
  show "cyc (insert b F) a = cyc F a" if a: "a \<in> F" "a \<noteq> cur"
  proof (rule cyc_unique [OF ne(2)])
    show "cyc F a \<in> insert b F" using cyc_in [OF F ne(1)] by simp
    show "a < cyc F a \<and> (\<forall>f \<in> insert b F. a < f \<longrightarrow> cyc F a \<le> f) \<or> (\<forall>f \<in> insert b F. f \<le> a \<and> cyc F a \<le> f)"
      using cc [of a]
    proof
      assume h: "a < cyc F a \<and> (\<forall>f \<in> F. a < f \<longrightarrow> cyc F a \<le> f)"
      have "cyc F a \<le> b" if "a < b"
        using that h pl cc [of cur] cur a n unfolding place_def by (metis linorder_neqE_nat nat_less_le not_le order.trans)
      then show ?thesis using h by auto
    next
      assume h: "\<forall>f \<in> F. f \<le> a \<and> cyc F a \<le> f"
      have "b \<le> a \<and> cyc F a \<le> b"
        using h pl cc [of cur] cur a n unfolding place_def by (metis le_antisym nat_less_le not_le order.trans)
      then show ?thesis using h by auto
    qed
  qed
qed

section \<open>The invariant\<close>

definition covers :: "(nat \<Rightarrow> nat) \<Rightarrow> nat set \<Rightarrow> nat set" where
  "covers U F = (\<Union>a \<in> F. {a..<a + U a})"

definition separate :: "(nat \<Rightarrow> nat) \<Rightarrow> nat set \<Rightarrow> bool" where
  "separate U F \<longleftrightarrow> (\<forall>a \<in> F. 1 \<le> U a) \<and> (\<forall>a \<in> F. \<forall>b \<in> F. a < b \<longrightarrow> a + U a \<le> b)"

text \<open>
  The free blocks are disjoint and linked in cyclic order; the static block is one of them and touches
  no other.
\<close>

definition blocks_ok :: "slob \<Rightarrow> nat set \<Rightarrow> bool" where
  "blocks_ok s F \<longleftrightarrow> finite F \<and> (\<forall>a \<in> F. sl_next s a = cyc F a) \<and> separate (sl_units s) F \<and>
     arena s \<in> F \<and> sl_units s (arena s) = 1 \<and> Suc (arena s) \<notin> F \<and> (\<forall>a \<in> F. a + sl_units s a \<noteq> arena s)"

definition heap_ok :: "slob \<Rightarrow> nat set \<Rightarrow> bool" where
  "heap_ok s F \<longleftrightarrow> blocks_ok s F \<and> slobfree s \<in> F"

definition free_space :: "slob \<Rightarrow> nat set \<Rightarrow> nat set" where
  "free_space s F = covers (sl_units s) F"

text \<open>Memory from \<open>b\<close> on that is neither free nor touches the static block.\<close>

definition outside :: "slob \<Rightarrow> nat set \<Rightarrow> nat \<Rightarrow> nat \<Rightarrow> bool" where
  "outside s F b n \<longleftrightarrow> 1 \<le> n \<and> {b..<b + n} \<inter> free_space s F = {} \<and> b \<noteq> Suc (arena s) \<and> b + n \<noteq> arena s"

lemma covers_simps:
  "covers U (insert b F) = {b..<b + U b} \<union> covers U F"
  "b \<notin> F \<Longrightarrow> covers (U(b := k)) F = covers U F"
  "c \<in> F \<Longrightarrow> covers U F = {c..<c + U c} \<union> covers U (F - {c})"
  unfolding covers_def by (auto intro!: SUP_cong split: if_splits)

lemma interval_split: "{b..<b + (n + m)} = {b..<b + n} \<union> {b + n..<b + n + (m :: nat)}"
  by auto

lemma separate_insert:
  assumes sep: "separate U F" and n: "1 \<le> n" and d: "{b..<b + n} \<inter> covers U F = {}"
  shows "b \<notin> F" and "separate (U(b := n)) (insert b F)"
proof -
  have u: "1 \<le> U a" if "a \<in> F" for a using sep that by (simp add: separate_def)
  have x: "a + U a \<le> b \<or> b + n \<le> a" if a: "a \<in> F" for a
  proof -
    have "{a..<a + U a} \<subseteq> covers U F" using a by (auto simp: covers_def)
    then have "y \<notin> {a..<a + U a}" if "b \<le> y" "y < b + n" for y 
      using d that unfolding disjoint_iff by (meson atLeastLessThan_iff subsetD)
    from this [of b] this [of a] show ?thesis using u [OF a] n by auto
  qed
  show b: "b \<notin> F" using x [of b] u [of b] n by auto
  show "separate (U(b := n)) (insert b F)"
    unfolding separate_def
  proof (intro conjI ballI impI)
    fix a c assume ac: "a \<in> insert b F" "c \<in> insert b F" "a < c"
    then show "a + (U(b := n)) a \<le> c"
      using x [of a] x [of c] u [of a] u [of c] sep b n by (auto simp: separate_def)
  qed (use u n in auto)
qed

lemma separate_subset: "separate U F \<Longrightarrow> G \<subseteq> F \<Longrightarrow> separate U G"
  by (auto simp: separate_def)

lemma separate_grow:
  assumes sep: "separate U F" and c: "c \<in> F" "d \<in> F" "c + U c = d"
  shows "separate (U(c := U c + U d)) (F - {d})" and "covers (U(c := U c + U d)) (F - {d}) = covers U F"
proof -
  have cd: "c < d" "1 \<le> U d" using sep c by (force simp: separate_def)+
  have grow: "separate (U(c := k)) G" if "separate U G" "\<And>b. b \<in> G \<Longrightarrow> c < b \<Longrightarrow> c + k \<le> b" "1 \<le> k" for k G
    using that by (auto simp: separate_def)
  have after: "c + (U c + U d) \<le> b" if "b \<in> F - {d}" "c < b" for b
  proof -
    have "c + U c \<le> b" using sep c(1) that unfolding separate_def by blast
    then have "d < b" using c(3) that by simp
    then have "d + U d \<le> b" using sep c(2) that unfolding separate_def by blast
    then show ?thesis using c(3) by simp
  qed
  show "separate (U(c := U c + U d)) (F - {d})"
    by (rule grow [OF separate_subset [OF sep] after]) (use cd in auto)
  have "covers U F = {d..<d + U d} \<union> ({c..<c + U c} \<union> covers U (F - {d} - {c}))"
    using covers_simps(3) [of d F U] covers_simps(3) [of c "F - {d}" U] c cd by auto
  moreover have "covers (U(c := U c + U d)) (F - {d}) = {c..<c + (U c + U d)} \<union> covers U (F - {d} - {c})"
    using covers_simps(3) [of c "F - {d}" "U(c := U c + U d)"] covers_simps(2) [of c "F - {d} - {c}"] c cd by simp
  ultimately show "covers (U(c := U c + U d)) (F - {d}) = covers U F"
    using c(3) unfolding interval_split by auto
qed

lemma find_place_ok:
  assumes r: "\<forall>a \<in> F. sl_next s a = cyc F a" and F: "finite F" and b: "b \<notin> F" and c: "c \<in> F"
  obtains cur where "find_place b c s = Some cur" and "cur \<in> F" and "place F b cur"
proof -
  have F: "finite F" "F \<noteq> {}" using F c by auto
  define t where "t = (if \<exists>f \<in> F. f < b then Max {f \<in> F. f < b} else Max F)"
  have fin: "finite {f \<in> F. f < b}" using F by simp
  have t: "t \<in> F" "place F b t"
  proof -
    show tF: "t \<in> F" using Max_in [OF fin] Max_in [OF F] by (auto simp: t_def)
    have below: "f \<le> t" if "f \<in> F" "f < b" for f using that Max_ge [OF fin, of f] by (auto simp: t_def)
    have tb: "t < b \<or> (\<forall>f \<in> F. b < f \<and> f \<le> t)"
    proof (cases "\<exists>f \<in> F. f < b")
      case True
      then have "{f \<in> F. f < b} \<noteq> {}" by blast
      then show ?thesis using Max_in [OF fin] True by (simp add: t_def)
    next
      case False
      then have "b < f" if "f \<in> F" for f using that b by (metis linorder_neqE_nat)
      then show ?thesis using Max_ge [OF F(1)] False by (auto simp: t_def)
    qed
    have n: "cyc F t \<in> F" by (rule cyc_in [OF F])
    show "place F b t" using tb below [OF n] cyc_cases [OF F, of t] n b tF unfolding place_def
      by (metis linorder_neqE_nat not_le)
  qed
  have step: "find_place b a s = (if place F b a then Some a else find_place b (cyc F a) s)" if "a \<in> F" for a
    using r that by (subst find_place.simps) (auto simp: place_def)
  have "\<exists>cur. find_place b c s = Some cur \<and> cur \<in> F \<and> place F b cur"
    using c
  proof (induction "if c = t then 0 else Suc (card (F - passed F t c))" arbitrary: c rule: less_induct)
    case less
    show ?case
    proof (cases "place F b c")
      case True
      then show ?thesis using step [OF less.prems] less.prems by auto
    next
      case False
      then have ct: "c \<noteq> t" using t by auto
      let ?d = "cyc F c"
      have d: "?d \<in> F" by (rule cyc_in [OF F])
      have "passed F t ?d = insert ?d (passed F t c)" "?d \<notin> passed F t c"
        using passed_next [OF F t(1) less.prems ct] by auto
      then have "F - passed F t ?d \<subset> F - passed F t c" using d by auto
      then have "card (F - passed F t ?d) < card (F - passed F t c)" using F(1) by (intro psubset_card_mono) auto
      then have "(if ?d = t then 0 else Suc (card (F - passed F t ?d))) < (if c = t then 0 else Suc (card (F - passed F t c)))"
        using ct by auto
      from less.hyps [OF this d] show ?thesis using step [OF less.prems] False by simp
    qed
  qed
  then show ?thesis using that by blast
qed

end
