(* ===== verification/SlobHeap.thy ===== *)
theory SlobHeap
  imports Slob
begin

text \<open>
  The operations of the kernel heap keep its invariant, and change the free space by exactly the block
  they take or return. The properties are stated with the blocks in use.
\<close>

section \<open>Putting a block in\<close>

lemma insert_ok:
  assumes ok: "blocks_ok s F" and cur: "cur \<in> F" "place F b cur" and o: "outside s F b (sl_units s b)"
  defines "s1 \<equiv> s\<lparr>sl_next := (sl_next s)(b := sl_next s cur, cur := b)\<rparr>"
  shows "blocks_ok s1 (insert b F)" and "free_space s1 (insert b F) = free_space s F \<union> {b..<b + sl_units s b}"
    and "b \<notin> F"
proof -
  have F: "finite F" and sep: "separate (sl_units s) F" using ok by (simp_all add: blocks_ok_def)
  have d: "1 \<le> sl_units s b" "{b..<b + sl_units s b} \<inter> covers (sl_units s) F = {}"
    using o by (simp_all add: outside_def free_space_def)
  note si = separate_insert [OF sep d]
  show b: "b \<notin> F" by (rule si(1))
  note ci = cyc_insert [OF F cur(1) b cur(2)]
  have "separate (sl_units s) (insert b F)" using si(2) by simp
  moreover have "arena s \<in> F" using ok by (simp add: blocks_ok_def)
  ultimately show "blocks_ok s1 (insert b F)"
    using ok o ci b cur by (auto simp: blocks_ok_def s1_def outside_def)
  show "free_space s1 (insert b F) = free_space s F \<union> {b..<b + sl_units s b}"
    by (simp add: free_space_def s1_def covers_simps(1) Un_commute)
qed

text \<open>Every block is part of a block afterwards.\<close>

definition swallowed :: "slob \<Rightarrow> nat set \<Rightarrow> slob \<Rightarrow> nat set \<Rightarrow> bool" where
  "swallowed s F s' F' \<longleftrightarrow> (\<forall>x \<in> F. \<exists>y \<in> F'. {x..<x + sl_units s x} \<subseteq> {y..<y + sl_units s' y})"

lemma swallowed_refl: "swallowed s F s F"
  by (auto simp: swallowed_def)

lemma swallowed_trans: "swallowed s F s' F' \<Longrightarrow> swallowed s' F' s'' F'' \<Longrightarrow> swallowed s F s'' F''"
  unfolding swallowed_def by (meson order.trans)

definition absorb :: "nat \<Rightarrow> slob \<Rightarrow> slob" where
  "absorb c s = (let n = sl_next s c in if c + sl_units s c = n
     then s\<lparr>sl_units := (sl_units s)(c := sl_units s c + sl_units s n), sl_next := (sl_next s)(c := sl_next s n)\<rparr> else s)"

lemma absorb_ok:
  assumes ok: "blocks_ok s F" and c: "c \<in> F"
  obtains F' where "blocks_ok (absorb c s) F'" and "free_space (absorb c s) F' = free_space s F" and "F' \<subseteq> F"
    and "\<And>x. x \<in> F \<Longrightarrow> x \<noteq> c + sl_units s c \<Longrightarrow> x \<in> F'" and "swallowed s F (absorb c s) F'"
proof (cases "c + sl_units s c = sl_next s c")
  case False
  then show ?thesis using ok that [of F] by (simp add: absorb_def swallowed_refl)
next
  case True
  have F: "finite F" and sep: "separate (sl_units s) F" and nx: "\<And>a. a \<in> F \<Longrightarrow> sl_next s a = cyc F a"
    using ok by (simp_all add: blocks_ok_def)
  let ?n = "sl_next s c"
  have n: "?n \<in> F" using nx [OF c] cyc_in [OF F, of c] c by auto
  have u: "1 \<le> sl_units s c" "1 \<le> sl_units s ?n" using sep c n by (simp_all add: separate_def)
  have cn: "c \<noteq> ?n" using True u by linarith
  have na: "?n \<noteq> arena s" using ok c True by (auto simp: blocks_ok_def)
  have ca: "c \<noteq> arena s" using ok n True by (auto simp: blocks_ok_def)
  note g = separate_grow [OF sep c n True]
  have ab: "sl_next (absorb c s) = (sl_next s)(c := sl_next s ?n)"
      "sl_units (absorb c s) = (sl_units s)(c := sl_units s c + sl_units s ?n)" "arena (absorb c s) = arena s"
    using True by (simp_all add: absorb_def Let_def)
  have "sl_next (absorb c s) a = cyc (F - {?n}) a" if a: "a \<in> F" "a \<noteq> ?n" for a
  proof -
    have inj: "cyc F a = ?n \<longleftrightarrow> a = c" using cyc_inj [OF F a(1) c] nx [OF c] by auto
    have "cyc (F - {?n}) a = (if cyc F a = ?n then cyc F ?n else cyc F a)"
      by (rule cyc_remove [OF F n c cn [symmetric] a])
    then show ?thesis unfolding ab inj using nx [OF a(1)] nx [OF n] by simp
  qed
  moreover have "a + sl_units (absorb c s) a \<noteq> arena s" if a: "a \<in> F - {?n}" for a
  proof (cases "a = c")
    case True
    have "?n + sl_units s ?n \<noteq> arena s" using ok n by (simp add: blocks_ok_def)
    then show ?thesis using \<open>c + sl_units s c = ?n\<close> True by (simp add: ab add.assoc [symmetric])
  next
    case False
    then show ?thesis using ok a by (simp add: ab blocks_ok_def)
  qed
  ultimately have "blocks_ok (absorb c s) (F - {?n})"
    using ok F g(1) na ca unfolding blocks_ok_def ab by simp
  moreover have "free_space (absorb c s) (F - {?n}) = free_space s F"
    using g(2) by (simp add: free_space_def ab)
  moreover have "swallowed s F (absorb c s) (F - {?n})"
    unfolding swallowed_def
  proof
    fix x assume x: "x \<in> F"
    show "\<exists>y \<in> F - {?n}. {x..<x + sl_units s x} \<subseteq> {y..<y + sl_units (absorb c s) y}"
    proof (cases "x = ?n")
      case True
      have "{x..<x + sl_units s x} \<subseteq> {c..<c + sl_units (absorb c s) c}"
        using True \<open>c + sl_units s c = ?n\<close> by (auto simp: ab)
      then show ?thesis using c cn by auto
    next
      case False
      have "{x..<x + sl_units s x} \<subseteq> {x..<x + sl_units (absorb c s) x}" by (auto simp: ab)
      then show ?thesis using x False by auto
    qed
  qed
  ultimately show ?thesis using that [of "F - {?n}"] True by auto
qed

lemma absorb_frame:
  "slobfree (absorb c s) = slobfree s" "arena (absorb c s) = arena s" "bigblocks (absorb c s) = bigblocks s"
  "page_results (absorb c s) = page_results s" "page_frees (absorb c s) = page_frees s"
  "x \<noteq> c \<Longrightarrow> sl_units (absorb c s) x = sl_units s x"
  by (simp_all add: absorb_def Let_def)

lemma link_block_absorb:
  assumes "cur \<noteq> b" and "b + sl_units s b \<noteq> cur \<or> sl_next s cur \<noteq> cur" and "sl_next s cur \<noteq> b"
  shows "link_block b cur s =
    (absorb cur (absorb b (s\<lparr>sl_next := (sl_next s)(b := sl_next s cur, cur := b)\<rparr>)))\<lparr>slobfree := cur\<rparr>"
proof -
  let ?n = "sl_next s cur"
  show ?thesis
  proof (cases "b + sl_units s b = ?n")
    case True
    then have "?n \<noteq> cur" using assms by auto
    then show ?thesis using True assms
      by (cases "cur + sl_units s cur = b"; cases "?n = b") (simp_all add: link_block_def absorb_def Let_def fun_upd_twist)
  next
    case False
    then show ?thesis using assms
      by (cases "cur + sl_units s cur = b") (simp_all add: link_block_def absorb_def Let_def fun_upd_twist)
  qed
qed

text \<open>What an operation leaves alone.\<close>

definition same_env :: "slob \<Rightarrow> slob \<Rightarrow> bool" where
  "same_env s s' \<longleftrightarrow> arena s' = arena s \<and> bigblocks s' = bigblocks s \<and> page_frees s' = page_frees s"

lemma blocks_space: "blocks_ok s F \<Longrightarrow> a \<in> F \<Longrightarrow> a \<in> free_space s F"
  by (force simp: blocks_ok_def separate_def free_space_def covers_def)

lemma arena_not_alone: "blocks_ok s F \<Longrightarrow> c \<in> F \<Longrightarrow> c \<noteq> arena s \<Longrightarrow> cyc F c \<noteq> c"
  by (rule cyc_self [of F c "arena s"]) (auto simp: blocks_ok_def)

lemma slob_free_ok:
  assumes ok: "heap_ok s F" and n: "n = (if sz \<noteq> 0 then SLOB_UNITS sz else sl_units s b)" and o: "outside s F b n"
  obtains s' F' where "slob_free b sz s = Some s'" and "heap_ok s' F'" and "free_space s' F' = free_space s F \<union> {b..<b + n}"
    and "same_env s s'" and "page_results s' = page_results s" and "\<And>x. x \<notin> free_space s' F' \<Longrightarrow> sl_units s' x = sl_units s x"
    and "\<exists>y \<in> F'. {b..<b + n} \<subseteq> {y..<y + sl_units s' y}"
proof -
  let ?s = "s\<lparr>sl_units := (sl_units s)(b := n)\<rparr>"
  have bl: "blocks_ok s F" and sf: "slobfree s \<in> F" using ok by (simp_all add: heap_ok_def)
  have F: "finite F" and sep: "separate (sl_units s) F" and nx: "\<forall>a \<in> F. sl_next s a = cyc F a"
    using bl by (simp_all add: blocks_ok_def)
  have b: "b \<notin> F"
    using separate_insert(1) [OF sep, of n b] o by (simp add: outside_def free_space_def)
  have bl': "blocks_ok ?s F"
  proof -
    have "separate ((sl_units s)(b := n)) F" using sep b by (auto simp: separate_def)
    then show ?thesis using bl b by (auto simp: blocks_ok_def)
  qed
  have fs: "free_space ?s F = free_space s F" using b by (simp add: free_space_def covers_simps(2))
  have o': "outside ?s F b (sl_units ?s b)" using o fs by (simp add: outside_def)
  obtain cur where cur: "find_place b (slobfree ?s) ?s = Some cur" "cur \<in> F" "place F b cur"
    by (rule find_place_ok [of F ?s b "slobfree ?s"]) (use nx F b sf in auto)
  let ?s1 = "?s\<lparr>sl_next := (sl_next s)(b := sl_next s cur, cur := b)\<rparr>"
  note i = insert_ok [OF bl' cur(2,3) o']
  have b1: "blocks_ok ?s1 (insert b F)" and f1: "free_space ?s1 (insert b F) = free_space s F \<union> {b..<b + n}"
    using i fs by simp_all
  obtain F2 where F2: "blocks_ok (absorb b ?s1) F2" "free_space (absorb b ?s1) F2 = free_space ?s1 (insert b F)"
      "\<And>x. x \<in> insert b F \<Longrightarrow> x \<noteq> b + sl_units ?s1 b \<Longrightarrow> x \<in> F2" "swallowed ?s1 (insert b F) (absorb b ?s1) F2"
    by (rule absorb_ok [OF b1, of b]) auto
  have cn: "sl_next s cur \<in> F" using nx cyc_in [OF F, of cur] cur(2) by auto
  have alone: "sl_next s cur \<noteq> cur \<or> cur = arena s" using arena_not_alone [OF bl cur(2)] nx cur(2) by auto
  have curn: "cur \<noteq> b + n"
  proof
    assume e: "cur = b + n"
    then have "cur \<noteq> arena s" using o by (simp add: outside_def)
    moreover have "cyc F cur \<le> cur" "b < cyc F cur" using cur(3) e o by (auto simp: place_def outside_def)
    moreover have "F \<noteq> {}" "\<not> cur < cyc F cur" using cur(2) \<open>cyc F cur \<le> cur\<close> by auto
    moreover note cyc_wrap [OF F this(1,2), of "arena s"]
    moreover have ar: "arena s \<in> F" using bl by (simp add: blocks_ok_def)
    moreover have "arena s < b \<or> b + n \<le> arena s"
    proof -
      have "separate ((sl_units s)(b := n)) (insert b F)"
        using separate_insert(2) [OF sep, of n b] o by (simp add: outside_def free_space_def)
      then have "b < arena s \<Longrightarrow> b + n \<le> arena s" using ar unfolding separate_def by (metis fun_upd_same insertCI)
      then show ?thesis using ar b by (metis linorder_neqE_nat)
    qed
    ultimately show False using e by auto
  qed
  have lb: "link_block b cur ?s = (absorb cur (absorb b ?s1))\<lparr>slobfree := cur\<rparr>"
    using link_block_absorb [of cur b ?s] cur(2) b curn cn by auto
  have c2: "cur \<in> F2" by (rule F2(3)) (use cur(2) curn in simp_all)
  obtain F3 where F3: "blocks_ok (absorb cur (absorb b ?s1)) F3"
      "free_space (absorb cur (absorb b ?s1)) F3 = free_space (absorb b ?s1) F2"
      "\<And>x. x \<in> F2 \<Longrightarrow> x \<noteq> cur + sl_units (absorb b ?s1) cur \<Longrightarrow> x \<in> F3"
      "swallowed (absorb b ?s1) F2 (absorb cur (absorb b ?s1)) F3"
    by (rule absorb_ok [OF F2(1) c2]) auto
  let ?t = "link_block b cur ?s"
  have c3: "cur \<in> F3"
    by (rule F3(3) [OF c2]) (use F2(1) c2 in \<open>auto simp: blocks_ok_def separate_def\<close>)
  have "slob_free b sz s = Some ?t"
    using cur(1) n by (auto simp: slob_free_def)
  moreover have "heap_ok ?t F3" using F3(1) c3 by (simp add: lb heap_ok_def blocks_ok_def)
  moreover have fst: "free_space ?t F3 = free_space s F \<union> {b..<b + n}" using F3(2) F2(2) f1 by (simp add: lb free_space_def)
  moreover have "same_env s ?t" "page_results ?t = page_results s" by (simp_all add: lb same_env_def absorb_frame)
  moreover have "sl_units ?t x = sl_units s x" if "x \<notin> free_space ?t F3" for x
  proof -
    have "b \<in> {b..<b + n}" using o by (simp add: outside_def)
    then have "x \<noteq> b" "x \<noteq> cur" using that blocks_space [OF bl cur(2)] unfolding fst by blast+
    then show ?thesis by (simp add: lb absorb_frame)
  qed
  moreover have "\<exists>y \<in> F3. {b..<b + n} \<subseteq> {y..<y + sl_units ?t y}"
    using swallowed_trans [OF F2(4) F3(4)] by (simp add: swallowed_def lb)
  ultimately show ?thesis by (rule that)
qed

section \<open>Taking a block out\<close>

lemma remove_ok:
  assumes ok: "blocks_ok s F" and c: "c \<in> F" "c \<noteq> arena s" and p: "p \<in> F" "cyc F p = c"
  defines "s1 \<equiv> s\<lparr>sl_next := (sl_next s)(p := sl_next s c)\<rparr>"
  shows "blocks_ok s1 (F - {c})" and "free_space s1 (F - {c}) = free_space s F - {c..<c + sl_units s c}" and "p \<noteq> c"
    and "{c..<c + sl_units s c} \<subseteq> free_space s F"
proof -
  have F: "finite F" and sep: "separate (sl_units s) F" and nx: "\<And>a. a \<in> F \<Longrightarrow> sl_next s a = cyc F a" and ar: "arena s \<in> F"
    using ok by (simp_all add: blocks_ok_def)
  show pc: "p \<noteq> c" using arena_not_alone [OF ok c] p by auto
  have "sl_next s1 a = cyc (F - {c}) a" if a: "a \<in> F" "a \<noteq> c" for a
  proof -
    have inj: "cyc F a = c \<longleftrightarrow> a = p" using cyc_inj [OF F a(1) p(1)] p(2) by auto
    have "cyc (F - {c}) a = (if cyc F a = c then cyc F c else cyc F a)"
      by (rule cyc_remove [OF F c(1) ar c(2) a])
    then show ?thesis unfolding inj s1_def using nx [OF a(1)] nx [OF c(1)] by simp
  qed
  then have "\<forall>a \<in> F - {c}. sl_next s1 a = cyc (F - {c}) a" by simp
  moreover have "sl_units s1 = sl_units s" "arena s1 = arena s" by (simp_all add: s1_def)
  ultimately show "blocks_ok s1 (F - {c})"
    using ok separate_subset [OF sep, of "F - {c}"] c by (simp add: blocks_ok_def)
  have "{c..<c + sl_units s c} \<inter> covers (sl_units s) (F - {c}) = {}"
  proof -
    have "{c..<c + sl_units s c} \<inter> {a..<a + sl_units s a} = {}" if a: "a \<in> F" "a \<noteq> c" for a
    proof -
      have "a < c \<Longrightarrow> a + sl_units s a \<le> c" "c < a \<Longrightarrow> c + sl_units s c \<le> a" using sep a c(1) by (simp_all add: separate_def)
      then show ?thesis using a(2) by (cases a c rule: linorder_cases) auto
    qed
    then show ?thesis unfolding covers_def Int_UN_distrib by (simp only: SUP_bot_conv) blast
  qed
  then show "free_space s1 (F - {c}) = free_space s F - {c..<c + sl_units s c}" "{c..<c + sl_units s c} \<subseteq> free_space s F"
    using covers_simps(3) [OF c(1), of "sl_units s"] by (auto simp: free_space_def s1_def)
qed

lemma take_block_ok:
  assumes ok: "heap_ok s F" and p: "p \<in> F" "cyc F p = c" and u: "u \<le> sl_units s c" "2 \<le> u"
  obtains F' where "heap_ok (take_block u p c s) F'" and "free_space (take_block u p c s) F' = free_space s F - {c..<c + u}"
    and "{c..<c + u} \<subseteq> free_space s F" and "sl_units (take_block u p c s) c = u"
    and "same_env s (take_block u p c s)" and "page_results (take_block u p c s) = page_results s"
    and "\<And>x. x \<notin> free_space s F \<Longrightarrow> sl_units (take_block u p c s) x = sl_units s x"
    and "c \<noteq> Suc (arena s)" "c + u \<noteq> arena s"
proof -
  have bl: "blocks_ok s F" and F: "finite F" and sep: "separate (sl_units s) F" and nx: "\<And>a. a \<in> F \<Longrightarrow> sl_next s a = cyc F a"
    and ar: "arena s \<in> F" "sl_units s (arena s) = 1" "c \<in> F \<Longrightarrow> c + sl_units s c \<noteq> arena s" "Suc (arena s) \<notin> F"
    using ok by (simp_all add: heap_ok_def blocks_ok_def)
  have cF: "c \<in> F" using p cyc_in [OF F, of p] by auto
  have ca: "c \<noteq> arena s" using u ar(2) by auto
  note rm = remove_ok [OF bl cF ca p]
  let ?t = "take_block u p c s" and ?s1 = "s\<lparr>sl_next := (sl_next s)(p := sl_next s c)\<rparr>"
  have sub: "{c..<c + u} \<subseteq> free_space s F" using rm(4) u by auto
  have side: "arena s < c \<and> Suc (arena s) \<le> c \<or> c + sl_units s c < arena s"
  proof -
    have "arena s < c \<Longrightarrow> Suc (arena s) \<le> c" by simp
    moreover have "c < arena s \<Longrightarrow> c + sl_units s c \<le> arena s" using sep cF ar(1) by (simp add: separate_def)
    ultimately show ?thesis using ca ar(3) [OF cF] by linarith
  qed
  have adj: "c \<noteq> Suc (arena s)" "c + u \<noteq> arena s" using side u ar(4) cF by auto
  show ?thesis
  proof (cases "sl_units s c = u")
    case True
    have t: "?t = ?s1\<lparr>slobfree := p\<rparr>" using True by (simp add: take_block_def)
    have "heap_ok ?t (F - {c})" using rm(1,3) p(1) by (simp add: t heap_ok_def blocks_ok_def)
    moreover have "free_space ?t (F - {c}) = free_space s F - {c..<c + u}" using rm(2) True by (simp add: t free_space_def)
    ultimately show ?thesis
      by (rule that) (use sub adj True in \<open>simp_all add: t same_env_def\<close>)
  next
    case False
    let ?U = "(sl_units s)(c + u := sl_units s c - u, c := u)"
    let ?s2 = "?s1\<lparr>sl_units := ?U\<rparr>" and ?G = "F - {c}"
    have big: "u < sl_units s c" using False u by simp
    have new: "c + u \<notin> F"
    proof
      assume "c + u \<in> F"
      moreover have "c < c + u" using u by simp
      ultimately have "c + sl_units s c \<le> c + u" using sep cF unfolding separate_def by blast
      then show False using big by simp
    qed
    have Ueq: "\<And>a. a \<in> ?G \<Longrightarrow> ?U a = sl_units s a" using new by auto
    have fs2: "free_space ?s2 ?G = free_space s F - {c..<c + sl_units s c}"
      using rm(2) new by (simp add: free_space_def covers_simps(2))
    have "separate ?U ?G" using separate_subset [OF sep, of ?G] Ueq by (auto simp: separate_def)
    then have bl2: "blocks_ok ?s2 ?G" using rm(1) Ueq ca ar(1) unfolding blocks_ok_def by simp
    have o: "outside ?s2 ?G (c + u) (?U (c + u))"
      unfolding outside_def fs2 using big u side ar(4) ar(3) [OF cF] by auto
    have pl: "place ?G (c + u) p"
    proof -
      have e: "cyc ?G p = cyc F c"
        using cyc_remove [OF F cF ar(1) ca p(1)] rm(3) p(2) by simp
      have d: "cyc F c \<in> F" "cyc F c \<noteq> c" using cyc_in [OF F, of c] cF arena_not_alone [OF bl cF ca] by auto
      have far: "c < cyc F c \<Longrightarrow> c + u < cyc F c"
        using sep cF d big unfolding separate_def by (meson add_less_cancel_left less_le_trans)
      have "F \<noteq> {}" using cF by auto
      from cyc_cases [OF F this, of c] show ?thesis
        unfolding place_def e using far p(1) rm(3) d u by (metis le_antisym less_le_trans linorder_neqE_nat nat_less_le not_le trans_less_add1)
    qed
    have pG: "p \<in> ?G" using p(1) rm(3) by simp
    have t: "?t = ?s2\<lparr>sl_next := (sl_next ?s2)(c + u := sl_next ?s2 p, p := c + u)\<rparr>\<lparr>slobfree := p\<rparr>"
    proof -
      have ne: "p \<noteq> c + u" using new p(1) by auto
      have "(sl_next s)(p := c + u, c + u := sl_next s c) = (sl_next s)(c + u := sl_next s c, p := c + u)"
        using ne by (auto simp: fun_upd_twist)
      moreover have "r\<lparr>sl_next := a, sl_units := k, slobfree := p\<rparr> = r\<lparr>sl_units := k, sl_next := a, slobfree := p\<rparr>" for r :: slob and a k
        by (cases r) simp
      ultimately show ?thesis using False rm(3) ne u by (simp add: take_block_def Let_def)
    qed
    note i = insert_ok [OF bl2 pG pl] 
    have "heap_ok ?t (insert (c + u) ?G)"
      using i(1) o pG unfolding t heap_ok_def blocks_ok_def by simp
    moreover have "free_space ?t (insert (c + u) ?G) = free_space s F - {c..<c + u}"
    proof -
      have "free_space ?t (insert (c + u) ?G) = (free_space s F - {c..<c + sl_units s c}) \<union> {c + u..<c + sl_units s c}"
        using i(2) o big fs2 u by (simp add: t free_space_def)
      then show ?thesis using rm(4) big by auto
    qed
    moreover have "sl_units ?t x = sl_units s x" if "x \<notin> free_space s F" for x
    proof -
      have "c + u \<in> free_space s F" "c \<in> free_space s F" using rm(4) big by auto
      then show ?thesis using that by (auto simp: t)
    qed
    ultimately show ?thesis
      by (intro that) (use sub adj u in \<open>simp_all add: t same_env_def\<close>)
  qed
qed

section \<open>The search\<close>

definition slob_more :: "nat \<Rightarrow> slob \<Rightarrow> (nat option \<times> slob) option" where
  "slob_more sz s =
     (if sz = PAGE_SIZE then Some (None, s)
      else (case slob_get_free_pages 0 s of
          (None, s) \<Rightarrow> Some (None, s)
        | (Some page, s) \<Rightarrow> do {
            s \<leftarrow> slob_free page PAGE_SIZE s;
            slob_search sz (slobfree s) s
          }))"

lemma slob_search_step:
  "slob_search sz prev s =
     (let cur = sl_next s prev; u = SLOB_UNITS sz in
      if u \<le> sl_units s cur then Some (Some cur, take_block u prev cur s)
      else if cur = slobfree s then slob_more sz s else slob_search sz cur s)"
  unfolding slob_more_def by (rule slob_search.simps)

lemma slob_search_ok:
  assumes ok: "heap_ok s F" and prev: "prev \<in> F"
    and small: "prev \<noteq> slobfree s \<Longrightarrow> \<forall>f \<in> passed F (slobfree s) prev. sl_units s f < SLOB_UNITS sz"
  shows "(\<exists>p \<in> F. SLOB_UNITS sz \<le> sl_units s (cyc F p) \<and>
      slob_search sz prev s = Some (Some (cyc F p), take_block (SLOB_UNITS sz) p (cyc F p) s)) \<or>
    (\<forall>f \<in> F. sl_units s f < SLOB_UNITS sz) \<and> slob_search sz prev s = slob_more sz s"
  using prev small
proof (induction "if prev = slobfree s then Suc (card F) else card (F - passed F (slobfree s) prev)"
    arbitrary: prev rule: less_induct)
  case less
  have F: "finite F" "F \<noteq> {}" and sf: "slobfree s \<in> F" and nx: "sl_next s prev = cyc F prev"
    using ok less.prems by (auto simp: heap_ok_def blocks_ok_def)
  let ?sf = "slobfree s" and ?u = "SLOB_UNITS sz" and ?c = "cyc F prev"
  have c: "?c \<in> F" by (rule cyc_in [OF F])
  have step: "slob_search sz prev s = (if ?u \<le> sl_units s ?c then Some (Some ?c, take_block ?u prev ?c s)
      else if ?c = ?sf then slob_more sz s else slob_search sz ?c s)"
    by (subst slob_search_step) (simp add: nx Let_def)
  have pass: "passed F ?sf ?c = (if prev = ?sf then {?c} else insert ?c (passed F ?sf prev))"
    using passed_first [OF F sf] passed_next(1) [OF F sf less.prems(1)] by auto
  show ?case
  proof (cases "?u \<le> sl_units s ?c")
    case True
    then show ?thesis using step less.prems(1) by auto
  next
    case False
    have small': "\<forall>f \<in> passed F ?sf ?c. sl_units s f < ?u" using less.prems(2) False unfolding pass by auto
    show ?thesis
    proof (cases "?c = ?sf")
      case True
      then show ?thesis using step False small' passed_all [of F ?sf] by simp
    next
      case ne: False
      have "card (F - passed F ?sf ?c) < (if prev = ?sf then Suc (card F) else card (F - passed F ?sf prev))"
      proof (cases "prev = ?sf")
        case True
        then show ?thesis using F(1) by (simp add: card_mono le_imp_less_Suc)
      next
        case False
        have "F - passed F ?sf ?c \<subset> F - passed F ?sf prev"
          using pass passed_next(2) [OF F sf less.prems(1)] False c by auto
        then show ?thesis using F(1) False by (auto intro!: psubset_card_mono)
      qed
      then have "(\<exists>p \<in> F. ?u \<le> sl_units s (cyc F p) \<and> slob_search sz ?c s = Some (Some (cyc F p), take_block ?u p (cyc F p) s)) \<or>
          (\<forall>f \<in> F. sl_units s f < ?u) \<and> slob_search sz ?c s = slob_more sz s"
        using ne small' by (intro less.hyps) (auto simp: c)
      then show ?thesis using step \<open>\<not> ?u \<le> sl_units s ?c\<close> ne by simp
    qed
  qed
qed

text \<open>The free space an allocation may take from: with one more page, if a page was fetched.\<close>

definition with_page :: "slob \<Rightarrow> nat set \<Rightarrow> slob \<Rightarrow> nat set \<Rightarrow> bool" where
  "with_page s F s' S \<longleftrightarrow>
     S = free_space s F \<and> page_results s' = page_results s \<or>
     (\<exists>pg rest. page_results s = Some pg # rest \<and> page_results s' = rest \<and> S = free_space s F \<union> {pg..<pg + 256})"

definition no_page :: "slob \<Rightarrow> bool" where
  "no_page s \<longleftrightarrow> (case page_results s of [] \<Rightarrow> True | r # _ \<Rightarrow> r = None)"

definition page_fresh :: "slob \<Rightarrow> nat set \<Rightarrow> bool" where
  "page_fresh s F \<longleftrightarrow> (case page_results s of Some pg # _ \<Rightarrow> outside s F pg 256 | _ \<Rightarrow> True)"

lemma slob_search_first:
  assumes ok: "heap_ok s F" and u: "2 \<le> SLOB_UNITS sz" and fit: "\<exists>f \<in> F. SLOB_UNITS sz \<le> sl_units s f"
  obtains c s' F' where "slob_search sz (slobfree s) s = Some (Some c, s')" and "heap_ok s' F'"
    and "free_space s' F' = free_space s F - {c..<c + SLOB_UNITS sz}" and "{c..<c + SLOB_UNITS sz} \<subseteq> free_space s F"
    and "sl_units s' c = SLOB_UNITS sz" and "same_env s s'" and "page_results s' = page_results s"
    and "\<And>x. x \<notin> free_space s F \<Longrightarrow> sl_units s' x = sl_units s x"
    and "c \<noteq> Suc (arena s)" and "c + SLOB_UNITS sz \<noteq> arena s"
proof -
  have sf: "slobfree s \<in> F" using ok by (simp add: heap_ok_def)
  obtain p where p: "p \<in> F" "SLOB_UNITS sz \<le> sl_units s (cyc F p)"
    and r: "slob_search sz (slobfree s) s = Some (Some (cyc F p), take_block (SLOB_UNITS sz) p (cyc F p) s)"
    using slob_search_ok [OF ok sf, of sz] fit by (auto simp: not_less [symmetric])
  show ?thesis by (rule take_block_ok [OF ok p(1) refl p(2) u]) (rule that [OF r])
qed

lemma slob_alloc_ok:
  assumes ok: "heap_ok s F" and sz: "sz + SLOB_UNIT < PAGE_SIZE" and u: "2 \<le> SLOB_UNITS sz" and pg: "page_fresh s F"
  obtains (none) s' where "slob_alloc sz s = Some (None, s')" and "no_page s" and "\<forall>f \<in> F. sl_units s f < SLOB_UNITS sz"
      and "s' = s\<lparr>page_results := tl (page_results s)\<rparr>"
  | (some) c s' F' S where "slob_alloc sz s = Some (Some c, s')" and "heap_ok s' F'" and "with_page s F s' S"
      and "free_space s' F' = S - {c..<c + SLOB_UNITS sz}" and "{c..<c + SLOB_UNITS sz} \<subseteq> S"
      and "sl_units s' c = SLOB_UNITS sz" and "same_env s s'"
      and "\<And>x. x \<notin> S \<Longrightarrow> sl_units s' x = sl_units s x" and "c \<noteq> Suc (arena s)" and "c + SLOB_UNITS sz \<noteq> arena s"
proof (cases "\<exists>f \<in> F. SLOB_UNITS sz \<le> sl_units s f")
  case True
  show ?thesis
  proof (rule slob_search_first [OF ok u True])
    fix c s' F'
    assume "slob_search sz (slobfree s) s = Some (Some c, s')" and "heap_ok s' F'"
      and "free_space s' F' = free_space s F - {c..<c + SLOB_UNITS sz}" and "{c..<c + SLOB_UNITS sz} \<subseteq> free_space s F"
      and "sl_units s' c = SLOB_UNITS sz" and "same_env s s'" and "page_results s' = page_results s"
      and "\<And>x. x \<notin> free_space s F \<Longrightarrow> sl_units s' x = sl_units s x"
      and "c \<noteq> Suc (arena s)" and "c + SLOB_UNITS sz \<noteq> arena s"
    then show ?thesis
      by (intro some [where S = "free_space s F" and c = c and s' = s' and F' = F']) (simp_all add: slob_alloc_def sz with_page_def)
  qed
next
  case False
  then have small: "\<forall>f \<in> F. sl_units s f < SLOB_UNITS sz" by auto
  have sf: "slobfree s \<in> F" using ok by (simp add: heap_ok_def)
  have "slob_search sz (slobfree s) s = slob_more sz s"
  proof -
    have "cyc F p \<in> F" for p using ok sf by (intro cyc_in) (auto simp: heap_ok_def blocks_ok_def)
    then show ?thesis using slob_search_ok [OF ok sf, of sz] False by blast
  qed
  then have al: "slob_alloc sz s = slob_more sz s" using sz by (simp add: slob_alloc_def)
  have ne: "sz \<noteq> PAGE_SIZE" using sz by (auto simp: SLOB_UNIT_def)
  show ?thesis
  proof (cases "no_page s")
    case True
    then have "slob_more sz s = Some (None, s\<lparr>page_results := tl (page_results s)\<rparr>)"
      using ne by (auto simp: slob_more_def slob_get_free_pages_def no_page_def split: list.splits)
    then show ?thesis using none [OF _ True small refl] al by simp
  next
    case np: False
    obtain a rest where ps: "page_results s = Some a # rest"
      using np by (auto simp: no_page_def split: list.splits)
    let ?s1 = "s\<lparr>page_results := rest\<rparr>"
    have ok1: "heap_ok ?s1 F" using ok by (simp add: heap_ok_def blocks_ok_def)
    have o1: "outside ?s1 F a 256" using pg ps by (simp add: page_fresh_def outside_def free_space_def)
    have 256: "256 = (if PAGE_SIZE \<noteq> 0 then SLOB_UNITS PAGE_SIZE else sl_units ?s1 a)"
      by (simp add: PAGE_SIZE_def SLOB_UNITS_def SLOB_UNIT_def)
    obtain s2 F2 where f: "slob_free a PAGE_SIZE ?s1 = Some s2" "heap_ok s2 F2" "free_space s2 F2 = free_space ?s1 F \<union> {a..<a + 256}"
        "same_env ?s1 s2" "page_results s2 = page_results ?s1" "\<And>x. x \<notin> free_space s2 F2 \<Longrightarrow> sl_units s2 x = sl_units ?s1 x"
        "\<exists>y \<in> F2. {a..<a + 256} \<subseteq> {y..<y + sl_units s2 y}"
      by (rule slob_free_ok [OF ok1 256 o1]) blast
    obtain y where y: "y \<in> F2" "{a..<a + 256} \<subseteq> {y..<y + sl_units s2 y}" using f(7) by blast
    have "card {a..<a + 256} \<le> card {y..<y + sl_units s2 y}" by (rule card_mono [OF _ y(2)]) simp
    then have "256 \<le> sl_units s2 y" by simp
    moreover have "SLOB_UNITS sz \<le> 256" using sz by (simp add: SLOB_UNITS_def SLOB_UNIT_def PAGE_SIZE_def)
    ultimately have fit: "\<exists>f \<in> F2. SLOB_UNITS sz \<le> sl_units s2 f" using y(1) by (meson order.trans)
    have S: "free_space ?s1 F = free_space s F" "arena s2 = arena s" using f(4) by (simp_all add: free_space_def same_env_def)
    show ?thesis
    proof (rule slob_search_first [OF f(2) u fit])
      fix c s' F'
      assume r: "slob_search sz (slobfree s2) s2 = Some (Some c, s')" and h: "heap_ok s' F'"
        and fr: "free_space s' F' = free_space s2 F2 - {c..<c + SLOB_UNITS sz}" "{c..<c + SLOB_UNITS sz} \<subseteq> free_space s2 F2"
        and un: "sl_units s' c = SLOB_UNITS sz" and env: "same_env s2 s'" and pr: "page_results s' = page_results s2"
        and fu: "\<And>x. x \<notin> free_space s2 F2 \<Longrightarrow> sl_units s' x = sl_units s2 x"
        and adj: "c \<noteq> Suc (arena s2)" "c + SLOB_UNITS sz \<noteq> arena s2"
      show ?thesis
      proof (rule some [where S = "free_space s2 F2"])
        show "slob_alloc sz s = Some (Some c, s')"
          using al ne ps f(1) r by (simp add: slob_more_def slob_get_free_pages_def)
        show "with_page s F s' (free_space s2 F2)" using ps pr f(3,5) S by (simp add: with_page_def)
        show "same_env s s'" using f(4) env by (simp add: same_env_def)
        show "sl_units s' x = sl_units s x" if "x \<notin> free_space s2 F2" for x using fu [OF that] f(6) [OF that] by simp
      qed (use h fr un adj S in simp_all)
    qed
  qed
qed

section \<open>Blocks in use\<close>

text \<open>\<open>L\<close> are the blocks in use, headers included, with their units.\<close>

definition live_ok :: "slob \<Rightarrow> nat set \<Rightarrow> (nat \<times> nat) set \<Rightarrow> bool" where
  "live_ok s F L \<longleftrightarrow> heap_ok s F \<and>
     (\<forall>(a, n) \<in> L. 2 \<le> n \<and> sl_units s a = n \<and> outside s F a n) \<and>
     (\<forall>(a, n) \<in> L. \<forall>(b, m) \<in> L. a \<noteq> b \<longrightarrow> {a..<a + n} \<inter> {b..<b + m} = {})"

text \<open>The next page, if there is one, is memory the heap does not have yet.\<close>

definition next_page_new :: "slob \<Rightarrow> nat set \<Rightarrow> (nat \<times> nat) set \<Rightarrow> bool" where
  "next_page_new s F L \<longleftrightarrow> page_fresh s F \<and>
     (case page_results s of Some pg # _ \<Rightarrow> \<forall>(a, n) \<in> L. {a..<a + n} \<inter> {pg..<pg + 256} = {} | _ \<Rightarrow> True)"

lemma live_with_page:
  assumes l: "live_ok s F L" and p: "next_page_new s F L" and w: "with_page s F s' S" and an: "(a, n) \<in> L"
  shows "{a..<a + n} \<inter> S = {}"
proof -
  have "{a..<a + n} \<inter> free_space s F = {}" using l an by (auto simp: live_ok_def outside_def)
  moreover have "{a..<a + n} \<inter> {pg..<pg + 256} = {}" if "page_results s = Some pg # rest" for pg rest
    using p an that by (auto simp: next_page_new_def)
  ultimately show ?thesis using w unfolding with_page_def by (auto simp: Int_Un_distrib)
qed

lemma slob_alloc_live:
  assumes l: "live_ok s F L" and sz: "sz + SLOB_UNIT < PAGE_SIZE" and u: "2 \<le> SLOB_UNITS sz" and pg: "next_page_new s F L"
  obtains (none) s' where "slob_alloc sz s = Some (None, s')" and "no_page s" and "\<forall>f \<in> F. sl_units s f < SLOB_UNITS sz"
      and "s' = s\<lparr>page_results := tl (page_results s)\<rparr>" and "live_ok s' F L"
  | (some) c s' F' S where "slob_alloc sz s = Some (Some c, s')" and "with_page s F s' S"
      and "free_space s' F' = S - {c..<c + SLOB_UNITS sz}" and "{c..<c + SLOB_UNITS sz} \<subseteq> S"
      and "same_env s s'" and "live_ok s' F' (insert (c, SLOB_UNITS sz) L)" and "c \<notin> fst ` L"
proof -
  have ok: "heap_ok s F" and pf: "page_fresh s F" using l pg by (simp_all add: live_ok_def next_page_new_def)
  show ?thesis
  proof (cases rule: slob_alloc_ok [OF ok sz u pf])
    case (1 s')
    have "live_ok s' F L" using l by (simp add: 1(4) live_ok_def heap_ok_def blocks_ok_def outside_def free_space_def)
    then show ?thesis by (rule none [OF 1])
  next
    case (2 c s' F' S)
    let ?n = "SLOB_UNITS sz"
    have S: "{a..<a + n} \<inter> S = {}" if "(a, n) \<in> L" for a n by (rule live_with_page [OF l pg 2(3) that])
    have ar: "arena s' = arena s" using 2(7) by (simp add: same_env_def)
    have un: "sl_units s' a = n" "outside s' F' a n" "2 \<le> n" if an: "(a, n) \<in> L" for a n
    proof -
      have h: "2 \<le> n" "sl_units s a = n" "outside s F a n" using l an by (auto simp: live_ok_def)
      have "a \<in> {a..<a + n}" using h by simp
      then have "a \<notin> S" using S [OF an] by blast
      then show "sl_units s' a = n" using 2(8) h by simp
      show "outside s' F' a n" using h(3) S [OF an] unfolding outside_def 2(4) ar by blast
      show "2 \<le> n" by (rule h(1))
    qed
    have oc: "outside s' F' c ?n" using u 2(9,10) unfolding outside_def 2(4) ar by auto
    have cn: "c \<in> {c..<c + ?n}" using u by simp
    have d: "{a..<a + n} \<inter> {c..<c + ?n} = {}" if "(a, n) \<in> L" for a n using S [OF that] 2(5) by blast
    have new: "c \<notin> fst ` L"
    proof
      assume "c \<in> fst ` L"
      then obtain n where n: "(c, n) \<in> L" by auto
      then have "c \<in> {c..<c + n}" using un(3) [OF n] by simp
      then show False using d [OF n] cn by blast
    qed
    have "live_ok s' F' (insert (c, ?n) L)"
      unfolding live_ok_def
    proof (intro conjI)
      show "heap_ok s' F'" by (rule 2(2))
      show "\<forall>(a, n) \<in> insert (c, ?n) L. 2 \<le> n \<and> sl_units s' a = n \<and> outside s' F' a n" using un oc u 2(6) by auto
      have "\<forall>(a, n) \<in> L. \<forall>(b, m) \<in> L. a \<noteq> b \<longrightarrow> {a..<a + n} \<inter> {b..<b + m} = {}" using l by (simp add: live_ok_def)
      moreover have "{c..<c + ?n} \<inter> {a..<a + n} = {}" if "(a, n) \<in> L" for a n using d [OF that] by blast
      ultimately show "\<forall>(a, n) \<in> insert (c, ?n) L. \<forall>(b, m) \<in> insert (c, ?n) L. a \<noteq> b \<longrightarrow> {a..<a + n} \<inter> {b..<b + m} = {}"
        using d by blast
    qed
    then show ?thesis using new by (intro some [OF 2(1,3,4,5,7)])
  qed
qed

lemma slob_free_live:
  assumes l: "live_ok s F (insert (b, n) L)" and new: "b \<notin> fst ` L" and n: "n = (if sz \<noteq> 0 then SLOB_UNITS sz else sl_units s b)"
  obtains s' F' where "slob_free b sz s = Some s'" and "live_ok s' F' L" and "free_space s' F' = free_space s F \<union> {b..<b + n}"
    and "same_env s s'" and "page_results s' = page_results s"
proof -
  have ok: "heap_ok s F" and o: "outside s F b n" using l by (simp_all add: live_ok_def)
  obtain s' F' where f: "slob_free b sz s = Some s'" "heap_ok s' F'" "free_space s' F' = free_space s F \<union> {b..<b + n}"
      "same_env s s'" "page_results s' = page_results s" "\<And>x. x \<notin> free_space s' F' \<Longrightarrow> sl_units s' x = sl_units s x"
    by (rule slob_free_ok [OF ok n o]) blast
  have ar: "arena s' = arena s" using f(4) by (simp add: same_env_def)
  have "2 \<le> m \<and> sl_units s' a = m \<and> outside s' F' a m" if am: "(a, m) \<in> L" for a m
  proof -
    have h: "2 \<le> m" "sl_units s a = m" "outside s F a m" using l am by (auto simp: live_ok_def)
    have ab: "a \<noteq> b" using new am by force
    have "{a..<a + m} \<inter> {b..<b + n} = {}" using l am ab unfolding live_ok_def by blast
    moreover have "a \<in> {a..<a + m}" using h by simp
    moreover have "{a..<a + m} \<inter> free_space s F = {}" using h(3) by (simp add: outside_def)
    ultimately have d: "{a..<a + m} \<inter> free_space s' F' = {}" "a \<notin> free_space s' F'" unfolding f(3) by blast+
    then show ?thesis using h f(6) [OF d(2)] by (simp add: outside_def ar)
  qed
  moreover have "\<forall>(a, n) \<in> L. \<forall>(b, m) \<in> L. a \<noteq> b \<longrightarrow> {a..<a + n} \<inter> {b..<b + m} = {}"
    using l unfolding live_ok_def by blast
  ultimately have "live_ok s' F' L" using f(2) by (auto simp: live_ok_def)
  then show ?thesis using that [OF f(1) _ f(3-5)] by blast
qed

section \<open>Properties\<close>

lemma SLOB_UNITS_header: "SLOB_UNITS (sz + SLOB_UNIT) = Suc (SLOB_UNITS sz)"
  by (simp add: SLOB_UNITS_def SLOB_UNIT_def)

lemma SLOB_UNITS_enough: "sz \<le> SLOB_UNIT * SLOB_UNITS sz" and SLOB_UNITS_pos: "0 < sz \<Longrightarrow> 1 \<le> SLOB_UNITS sz"
  by (simp_all add: SLOB_UNITS_def SLOB_UNIT_def)

text \<open>
  (C21) \<open>kmalloc\<close> of less than 4064 bytes returns a block of that many bytes behind a header of its own,
  taken from the free space or from one new page, which no block in use overlaps; no other free space is
  lost. It fails, changing nothing, only when no free block is large enough and there is no page.
\<close>

theorem kmalloc_small:
  assumes l: "live_ok s F L" and sz: "0 < sz" "sz < 4064" and pg: "next_page_new s F L"
  defines "n \<equiv> Suc (SLOB_UNITS sz)"
  shows "(\<exists>p s' F' S. kmalloc sz s = Some (Some (Suc p), s') \<and> sz \<le> SLOB_UNIT * (n - 1) \<and>
      live_ok s' F' (insert (p, n) L) \<and> p \<notin> fst ` L \<and> with_page s F s' S \<and>
      {p..<p + n} \<subseteq> S \<and> free_space s' F' = S - {p..<p + n} \<and> same_env s s') \<or>
    (\<exists>s'. kmalloc sz s = Some (None, s') \<and> live_ok s' F L \<and> no_page s \<and> (\<forall>f \<in> F. sl_units s f < n) \<and>
      s' = s\<lparr>page_results := tl (page_results s)\<rparr>)"
proof -
  have a: "sz + SLOB_UNIT + SLOB_UNIT < PAGE_SIZE" "sz < PAGE_SIZE - SLOB_UNIT"
    using sz by (simp_all add: SLOB_UNIT_def PAGE_SIZE_def)
  have u: "2 \<le> SLOB_UNITS (sz + SLOB_UNIT)" using SLOB_UNITS_pos [OF sz(1)] by (simp add: SLOB_UNITS_header)
  have n: "SLOB_UNITS (sz + SLOB_UNIT) = n" by (simp add: SLOB_UNITS_header n_def)
  show ?thesis
  proof (cases rule: slob_alloc_live [OF l a(1) u pg])
    case (1 s')
    then have "kmalloc sz s = Some (None, s')" using a(2) by (simp add: kmalloc_def)
    then show ?thesis using 1 n by auto
  next
    case (2 c s' F' S)
    then have "kmalloc sz s = Some (Some (Suc c), s')" using a(2) by (simp add: kmalloc_def)
    moreover have "sz \<le> SLOB_UNIT * (n - 1)" using SLOB_UNITS_enough [of sz] by (simp add: n_def)
    ultimately show ?thesis using 2 unfolding n by blast
  qed
qed

text \<open>A heap with the static block at 10 and the page at 256 to come.\<close>

definition sample_heap :: slob where
  "sample_heap = \<lparr>sl_units = (\<lambda>_. 0)(10 := 1), sl_next = (\<lambda>_. 10), slobfree = 10, bigblocks = [],
     page_results = [Some 256], page_frees = [], arena = 10\<rparr>"

lemma sample_heap_ok: "live_ok sample_heap {10} {}" "next_page_new sample_heap {10} {}"
  by (auto simp: live_ok_def heap_ok_def blocks_ok_def separate_def sample_heap_def cyc_def next_page_new_def page_fresh_def
      outside_def free_space_def covers_def)

theorem kmalloc_small_witness: "\<exists>p s'. kmalloc 40 sample_heap = Some (Some p, s') \<and> (\<exists>F'. live_ok s' F' {(p - 1, 4)})"
proof -
  have np: "\<not> no_page sample_heap" by (simp add: no_page_def sample_heap_def)
  have n: "Suc (SLOB_UNITS 40) = 4" by (simp add: SLOB_UNITS_def SLOB_UNIT_def)
  show ?thesis using kmalloc_small [OF sample_heap_ok(1) _ _ sample_heap_ok(2), of 40] np unfolding n by force
qed

text \<open>
  (C22) \<open>kfree\<close> returns a block of \<open>kmalloc\<close> to the free space, header included, and nothing else; blocks
  in use stay as they are. So memory given back can be allocated again, and \<open>kfree\<close> after \<open>kmalloc\<close>
  restores the free space.
\<close>

theorem kfree_gives_back:
  assumes l: "live_ok s F (insert (p, n) L)" and new: "p \<notin> fst ` L" and big: "\<forall>bb \<in> set (bigblocks s). bb_pages bb \<noteq> Suc p"
  shows "\<exists>s' F'. kfree (Some (Suc p)) s = Some s' \<and> live_ok s' F' L \<and>
    free_space s' F' = free_space s F \<union> {p..<p + n} \<and> same_env s s' \<and> page_results s' = page_results s"
proof -
  have "n = (if 0 \<noteq> (0 :: nat) then SLOB_UNITS 0 else sl_units s p)" using l by (simp add: live_ok_def)
  then obtain s' F' where f: "slob_free p 0 s = Some s'" "live_ok s' F' L" "free_space s' F' = free_space s F \<union> {p..<p + n}"
      "same_env s s'" "page_results s' = page_results s"
    by (rule slob_free_live [OF l new])
  have "List.find (\<lambda>bb. bb_pages bb = Suc p) (bigblocks s) = None" using big by (simp add: find_None_iff)
  then have "kfree (Some (Suc p)) s = Some s'" using f(1) by (simp add: kfree_def)
  then show ?thesis using f by blast
qed

theorem kfree_gives_back_witness:
  "\<exists>p s1 s2 F. kmalloc 40 sample_heap = Some (Some p, s1) \<and> kfree (Some p) s1 = Some s2 \<and> live_ok s2 F {}"
proof -
  have a: "40 + SLOB_UNIT + SLOB_UNIT < PAGE_SIZE" "2 \<le> SLOB_UNITS (40 + SLOB_UNIT)" "40 < PAGE_SIZE - SLOB_UNIT"
    by (simp_all add: SLOB_UNIT_def PAGE_SIZE_def SLOB_UNITS_def)
  show ?thesis
  proof (cases rule: slob_alloc_live [OF sample_heap_ok(1) a(1,2) sample_heap_ok(2)])
    case (1 s')
    then show ?thesis by (simp add: no_page_def sample_heap_def)
  next
    case (2 c s1 F1 S)
    have k: "kmalloc 40 sample_heap = Some (Some (Suc c), s1)" using 2(1) a(3) by (simp add: kmalloc_def)
    have "\<forall>bb \<in> set (bigblocks s1). bb_pages bb \<noteq> Suc c" using 2(5) by (simp add: same_env_def sample_heap_def)
    from kfree_gives_back [OF 2(6) _ this] k show ?thesis by auto
  qed
qed

text \<open>
  \<open>kmalloc\<close> of 4064 to 4079 bytes panics: the request passes the test for small blocks, but with the
  header it is too large for \<open>slob_alloc\<close>.
\<close>

theorem kmalloc_gap_panics: "sz \<in> {4064..<4080} \<Longrightarrow> kmalloc sz s = None"
  by (auto simp: kmalloc_def slob_alloc_def PAGE_SIZE_def SLOB_UNIT_def)

theorem kmalloc_gap_panics_witness: "kmalloc 4064 sample_heap = None"
  by (rule kmalloc_gap_panics) simp

section \<open>Large blocks\<close>

lemma kmalloc_large:
  assumes l: "live_ok s F L" and sz: "4080 \<le> sz" and pg: "next_page_new s F L"
  shows "\<exists>r s' F'. kmalloc sz s = Some (r, s') \<and>
    (case r of
       None \<Rightarrow> live_ok s' F' L \<and> bigblocks s' = bigblocks s
     | Some p \<Rightarrow> \<exists>bb. live_ok s' F' (insert (bb, 2) L) \<and> bb \<notin> fst ` L \<and>
         bigblocks s' = \<lparr>bb_at = bb, bb_order = find_order sz, bb_pages = p\<rparr> # bigblocks s)"
proof -
  have a: "SIZEOF_BIGBLOCK + SLOB_UNIT < PAGE_SIZE" "\<not> sz < PAGE_SIZE - SLOB_UNIT" and u: "SLOB_UNITS SIZEOF_BIGBLOCK = 2"
    using sz by (simp_all add: SIZEOF_BIGBLOCK_def SLOB_UNIT_def PAGE_SIZE_def SLOB_UNITS_def)
  have l0: "live_ok (s'\<lparr>page_results := x\<rparr>) F' M = live_ok s' F' M" "live_ok (s'\<lparr>bigblocks := y\<rparr>) F' M = live_ok s' F' M"
    for s' x y F' M
    by (simp_all add: live_ok_def heap_ok_def blocks_ok_def outside_def free_space_def)
  show ?thesis
  proof (cases rule: slob_alloc_live [OF l a(1) _ pg, unfolded u])
    case (2 s')
    then show ?thesis using a(2) by (intro exI [of _ None] exI [of _ s'] exI [of _ F]) (simp add: kmalloc_def)
  next
    case (3 c s' F' S)
    obtain r s2 where g: "slob_get_free_pages (find_order sz) s' = (r, s2)" by (cases "slob_get_free_pages (find_order sz) s'")
    then have "s2 = s'\<lparr>page_results := tl (page_results s')\<rparr>"
      by (cases s'; cases "page_results s'") (auto simp: slob_get_free_pages_def)
    then obtain ps where s2: "s2 = s'\<lparr>page_results := ps\<rparr>" by blast
    have l2: "live_ok s2 F' (insert (c, 2) L)" "bigblocks s2 = bigblocks s"
      using 3(5,6) by (simp_all add: s2 l0 same_env_def)
    show ?thesis
    proof (cases r)
      case None
      have "2 = (if SIZEOF_BIGBLOCK \<noteq> 0 then SLOB_UNITS SIZEOF_BIGBLOCK else sl_units s2 c)"
        using u by (simp add: SIZEOF_BIGBLOCK_def)
      then obtain s3 F3 where "slob_free c SIZEOF_BIGBLOCK s2 = Some s3" "live_ok s3 F3 L" "same_env s2 s3"
        by (rule slob_free_live [OF l2(1) 3(7)])
      then show ?thesis using a(2) 3(1) g None l2(2)
        by (intro exI [of _ None] exI [of _ s3] exI [of _ F3]) (simp add: kmalloc_def same_env_def)
    next
      case (Some p)
      let ?s3 = "s2\<lparr>bigblocks := \<lparr>bb_at = c, bb_order = find_order sz, bb_pages = p\<rparr> # bigblocks s2\<rparr>"
      have "kmalloc sz s = Some (Some p, ?s3)" using a(2) 3(1) g Some by (simp add: kmalloc_def)
      then show ?thesis using l2 3(7) l0(2)
        by (intro exI [of _ "Some p"] exI [of _ ?s3] exI [of _ F']) auto
    qed
  qed (simp add: u)
qed

text \<open>The pages of a large block may be too few: the order is rounded down.\<close>

lemma find_order_short: "PAGE_SIZE * 2 ^ find_order 8193 < 8193"
  by (simp add: PAGE_SIZE_def)

end
