(* ===== verification/Spec2Isabelle.thy ===== *)
theory Spec2Isabelle
  imports DList FirstFit BestFit WaitSem Philosophers CString PrintFmt SfsFiles ProcSystem AddrSpace FileTables PhilosophersCV SlobHeap
begin

text \<open>
  A development on the uCore teaching kernel for RISC-V of this repository. The labs are eight copies
  of one kernel at growing stages; the development is about the last one, \<open>lab8\<close>, and takes the
  best-fit allocator from \<open>lab2\<close> and the stride scheduler from \<open>lab6\<close>, where they are complete.

  The parts of the kernel and how they depend on each other, with the theories that hold them:

  \<^item> Lists (\<open>libs/list.h\<close>: DList) and the skew heap (\<open>libs/skew_heap.h\<close>: SkewHeap) are pointer structures
    inside other structures. They are modelled on stores of links and refined to HOL lists and trees.
  \<^item> Physical pages: \<open>kern/mm/default_pmm.c\<close> (FirstFit) and \<open>lab2/kern/mm/best_fit_pmm.c\<close> (BestFit) keep
    free blocks of pages on such a list. Frames has the page descriptors of \<open>memlayout.h\<close>, BlockSpec the
    specification (a pool of blocks in address order), PageManager the interface \<open>struct pmm_manager\<close>
    as a locale that both allocators interpret.
  \<^item> Paging: \<open>kern/mm/pmm.c\<close> walks and changes three-level page tables that live in the pages
    the allocator hands out (MemLayout, PageTable, PageMap, Paging). Address spaces, \<open>kern/mm/vmm.c\<close>:
    the list of areas and the checks of user pointers (Vmm), forking and tearing down whole address
    spaces (AddrSpace). The heap of the kernel, \<open>kern/mm/kmalloc.c\<close>: Slob has the ring of free blocks and
    the functions, SlobHeap the proofs that blocks in use never overlap.
  \<^item> Scheduling: \<open>kern/schedule/sched.c\<close> (KernState, Sched) reaches a policy only through
    \<open>struct sched_class\<close>, the locale \<open>sched_policy\<close>; \<open>default_sched.c\<close> (SchedRR, the policy the kernel runs
    with) and the stride policy (SchedStride) interpret it. Timers has the list of timers of \<open>sched.c\<close>.
  \<^item> Processes: \<open>kern/process/proc.c\<close>. Pids allocates identifiers, ProcTable has the process list, the
    hash lists and the family tree, ProcLife the system calls, ProcInv, ProcWait and ProcFork their
    lemmas, ProcSystem the properties and the invariant under every sequence of system calls.
  \<^item> Synchronisation: wait queues and semaphores (\<open>kern/sync/wait.c\<close>, \<open>sem.c\<close>: WaitSem, on the scheduler),
    monitors with condition variables (\<open>monitor.c\<close>: Monitor), and the dining philosophers of
    \<open>check_sync.c\<close> with semaphores (Philosophers) and with condition variables (PhilosophersCV).
  \<^item> The simple file system, from the disk up: the path of a block through \<open>iobuf.c\<close>, \<open>dev_disk0.c\<close>, \<open>ide.c\<close>
    and \<open>ramdisk.c\<close> (FsBase, BlockDev), the bitmap of free blocks (Bitmap), the bytes of the on-disk
    structures (SfsLayout), block input and output (SfsIo), the block map of a file (SfsBmap), reading,
    writing and resizing files (SfsFile, SfsWrite, SfsFiles), directories (SfsDir).
  \<^item> Inodes: \<open>kern/fs/vfs/inode.c\<close> and the operations and the cache of inodes of \<open>sfs_inode.c\<close> (SfsNodes).
    NodeInv states what the cache stands for; NodeFile, NodeCache and NodeOps prove each operation
    against it.
  \<^item> The virtual file system and open files: names, opening and closing of nodes, working directory and
    list of devices (\<open>kern/fs/vfs\<close>: Vfs, VfsSpec), tables of open files (\<open>kern/fs/file.c\<close>, \<open>fs.c\<close>: Files).
    FileInv has the invariant on descriptors and reference counts, FileOps and FileOpen its lemmas,
    FileSystem and FileTables the properties, FileSample a small file system for their witnesses.
  \<^item> Libraries: \<open>libs/string.c\<close> (CString), \<open>libs/printfmt.c\<close>, \<open>hash.c\<close> and \<open>rand.c\<close> (PrintFmt).

  How the models read. A C structure is a record, a pointer an address into a store of such records or
  an index, null \<open>None\<close>. Words have the width they have in the code; offsets and counts are \<open>int\<close> or
  \<open>nat\<close> where the code cannot leave their range. A function that asserts or panics returns \<open>None\<close> of an
  \<open>option\<close>; an error number is a negative \<open>int\<close> or the left side of a sum (\<open>'a res\<close>). What \<open>kmalloc\<close>
  and the allocation of a stack return is, outside Slob, a parameter or a stream in the state. Interrupts are off or
  the code does not give up the processor, so an operation is one step, except where the model says
  otherwise: \<open>down\<close>, \<open>do_wait\<close> and the philosophers are split where they may be interleaved.

  What the groups of lemmas show:

  \<^item> Data structures: the pointer operations refine operations on HOL lists, trees and sets.
  \<^item> Allocators and page tables: the pool of free blocks and the map from addresses to pages stay
    well formed, and each operation changes exactly the pages and entries it is about. The blocks of the
    heap that are in use are disjoint from each other and from the free ones.
  \<^item> Scheduler and processes: no process is lost, the process table is sound under every sequence of
    system calls, the cases in which an operation fails an assertion are exactly known, and each call
    does on every outcome what it promises, down to the reference counts of what it shares.
  \<^item> Synchronisation: safety and progress under every interleaving, and to whom a thread that leaves a
    monitor, waits or signals hands it over.
  \<^item> Files: the disk, the block maps and the inodes in memory together represent a map from inode numbers
    to files (\<open>fs_rep\<close>, \<open>vfs_rep\<close>). Operations on descriptors are operations on this map, and the
    counts of every inode are exactly those that the descriptors, working directories and the boot
    file system account for (\<open>kinv\<close>). So nothing is leaked, and where it is, the property says so.

  Locales state the interfaces: \<open>page_manager\<close> (interpreted by the two allocators), \<open>sched_policy\<close> (by the
  round-robin and the stride policy) and \<open>block_device\<close> (by \<open>disk0\<close> on the RAM disk).

  Bounds and fuel. No definition takes fuel. Loops that could run forever (over strings, rings, page
  tables, identifiers) are \<open>partial_function\<close>s into option, and the theorems about them show that
  they return; the others recurse on a list or on the number of blocks or slots that are left. The
  bounds 245 and 685 on the runs of the philosophers count their statements. Hypotheses that bound
  reference counts below \<open>MAX_INODE_COUNT\<close> are the assertions of \<open>inode_check\<close>.

  Not modelled:

  \<^item> \<open>kmalloc.c\<close> under the other parts: their structures are records of HOL, not bytes in the blocks of Slob.
    In \<open>kmalloc.c\<close> itself the alignment of blocks, which no caller asks for.
  \<^item> \<open>sysfile.c\<close> and \<open>syscall.c\<close>, which copy between user memory and the functions of Files; \<open>vfs_getcwd\<close> and
    \<open>sfs_namefile\<close>; mounting and unmounting (\<open>sfs_do_mount\<close>, \<open>sfs_unmount\<close>, \<open>vfs_mount\<close>): the properties
    start from a mounted file system. The locks of inodes, files and the file system are left out, as
    operations do not interleave in the model.
  \<^item> The devices for the console (\<open>dev_stdin.c\<close>, \<open>dev_stdout.c\<close>, \<open>console.c\<close>): they end in SBI calls.
  \<^item> \<open>do_execve\<close> and \<open>load_icode\<close> (ELF files and trap frames), traps, interrupts, the clock, the start of
    the kernel, \<open>page_init\<close>, the debug monitor and the self-tests.
  \<^item> The buddy and slub allocators of \<open>lab2\<close>, the user programs, \<open>tools/mksfs.c\<close>, and the copies of the
    modelled files in the earlier labs.
\<close>

end
